(* ===== verification/Prelude.thy ===== *)
theory Prelude
  imports Main "HOL-Library.Word" "HOL-Library.Multiset"
begin

text \<open>
  Shared vocabulary of the development: the machine integers of the Go program, the
  collections of facts that component proofs draw on, and generic lemmas on lists, maps and
  bit patterns.

  \<^item> \<open>uint64\<close>, \<open>uint32\<close> and \<open>byte\<close> values are words of the HOL library, so that
    arithmetic wraps around as it does in Go.
  \<^item> \<open>int64\<close> values are integers; every Go addition or subtraction on them goes through
    \<open>i64\<close>, the two's complement wrap-around at 64 bits, so that comparisons stay those of
    the integers.
  \<^item> Lengths and slice indices (Go's \<open>int\<close>, never near \<open>2^63\<close>) are natural numbers.
\<close>

unbundle bit_operations_syntax

type_synonym u64 = "64 word"
type_synonym u32 = "32 word"
type_synonym u16 = "16 word"
type_synonym byte = "8 word"

named_theorems i64_simps \<open>normal forms of wrapped 64-bit arithmetic\<close>
named_theorems bounds \<open>index bounds of table accesses\<close>

subsection \<open>Wrapped 64-bit signed arithmetic\<close>

definition i64 :: "int \<Rightarrow> int" where
  "i64 x = signed_take_bit 63 x"

definition max_int64 :: int where
  "max_int64 = 2 ^ 63 - 1"

lemma i64_id [i64_simps]: "- (2 ^ 63) \<le> x \<Longrightarrow> x < 2 ^ 63 \<Longrightarrow> i64 x = x"
  unfolding i64_def by (rule signed_take_bit_int_eq_self) simp_all

lemma i64_range: "- (2 ^ 63) \<le> i64 x" "i64 x < 2 ^ 63"
  unfolding i64_def
  using signed_take_bit_int_greater_eq_minus_exp [of 63 x] signed_take_bit_int_less_exp [of 63 x]
  by simp_all

lemma i64_idem [simp]: "i64 (i64 x) = i64 x"
  by (simp add: i64_def)

lemma i64_eq_iff: "i64 x = i64 y \<longleftrightarrow> x mod 2 ^ 64 = y mod 2 ^ 64"
  unfolding i64_def
  by (simp add: signed_take_bit_eq_iff_take_bit_eq take_bit_eq_mod)

lemma i64_cong_mod: "(i64 x - x) mod 2 ^ 64 = 0"
  using i64_eq_iff [of "i64 x" x] by (simp add: mod_eq_dvd_iff)

lemma i64_shift: "x mod 2 ^ 64 = y mod 2 ^ 64 \<Longrightarrow> i64 x = i64 y"
  by (simp add: i64_eq_iff)

lemma i64_mod [simp]: "i64 x mod 18446744073709551616 = x mod 18446744073709551616"
  using i64_eq_iff [of "i64 x" x] by simp

lemma i64_add_left [simp]: "i64 (i64 x + y) = i64 (x + y)"
  unfolding i64_eq_iff by (subst (1 2) mod_add_left_eq [symmetric]) simp

lemma i64_add_right [simp]: "i64 (x + i64 y) = i64 (x + y)"
  unfolding i64_eq_iff by (subst (1 2) mod_add_right_eq [symmetric]) simp

lemma i64_diff_left [simp]: "i64 (i64 x - y) = i64 (x - y)"
  unfolding i64_eq_iff by (subst (1 2) mod_diff_left_eq [symmetric]) simp

lemma i64_diff_right [simp]: "i64 (x - i64 y) = i64 (x - y)"
  unfolding i64_eq_iff by (subst (1 2) mod_diff_right_eq [symmetric]) simp

lemma i64_zero [simp]: "i64 0 = 0"
  by (simp add: i64_def)

lemma i64_power [i64_simps]: "k \<le> 62 \<Longrightarrow> i64 (2 ^ k) = 2 ^ k"
  using power_increasing [of k 62 "2::int"]
  by (intro i64_id) (auto intro: order_trans [of _ 0])

lemma i64_of_range: "- (2 ^ 63) \<le> x \<and> x < 2 ^ 63 \<Longrightarrow> i64 x = x"
  by (simp add: i64_id)

subsection \<open>Masked indices\<close>

lemma and_pred_less: "0 < w \<Longrightarrow> h AND (w - 1) < (w :: 'a::len word)"
  by (metis word_and_le1 measure_unat order_le_less_trans word_less_nat_alt less_irrefl)

lemma unat_mod_bound: "0 < w \<Longrightarrow> unat (h mod w) < unat (w :: 'a::len word)"
  by (metis word_less_nat_alt word_mod_less_divisor)

lemma unat_of_nat_u64: "n < 2 ^ 64 \<Longrightarrow> unat (of_nat n :: u64) = n"
  by (simp add: unat_of_nat)

text \<open>The low bits of a hash, masked by a table's length less one, index the table.\<close>

lemma mask_index: "0 < n \<Longrightarrow> n \<le> 2 ^ 63 \<Longrightarrow> unat (h AND (of_nat (n - 1) :: u64)) < n"
proof -
  assume n: "0 < n" "n \<le> 2 ^ 63"
  define w :: u64 where "w = of_nat n"
  have u: "unat w = n" unfolding w_def using n by (intro unat_of_nat_u64) simp
  have "0 < w" using u n(1) by (metis unat_gt_0 word_gt_0)
  then have "h AND (w - 1) < w" by (rule and_pred_less)
  moreover have "of_nat (n - 1) = w - 1" using n(1) by (simp add: w_def of_nat_diff)
  ultimately show ?thesis using u by (simp add: word_less_nat_alt)
qed

lemma uint_u64: "0 \<le> y \<Longrightarrow> y < 2 ^ 64 \<Longrightarrow> uint (word_of_int y :: u64) = y"
  by (simp add: uint_word_of_int)

lemma unat_pow2:
  assumes "k < 64"
  shows "unat (2 ^ k :: u64) = 2 ^ k"
proof -
  have "(2::nat) ^ k < 2 ^ 64" using assms by (intro power_strict_increasing) auto
  moreover have "unat (of_nat (2 ^ k) :: u64) = 2 ^ k mod 2 ^ 64"
    unfolding unat_of_nat by simp
  ultimately have "unat (of_nat (2 ^ k) :: u64) = 2 ^ k" by (metis mod_less)
  then show ?thesis by simp
qed

subsection \<open>Invertible mixing steps on words\<close>

text \<open>
  The finalisers of the hash functions are compositions of two bijections of 64-bit words:
  \<open>x ^= x >> k\<close> and multiplication by an odd constant.
\<close>

lemma xorshift_inj:
  fixes x y :: u64
  assumes "x XOR drop_bit k x = y XOR drop_bit k y" "0 < k"
  shows "x = y"
proof (rule bit_word_eqI)
  have "bit x i = bit y i" if "i \<le> 64" for i
    using that
  proof (induction "64 - i" arbitrary: i rule: less_induct)
    case less
    have "bit (x XOR drop_bit k x) i = bit (y XOR drop_bit k y) i" using assms(1) by simp
    moreover have "bit x (k + i) = bit y (k + i)"
    proof (cases "k + i < 64")
      case True
      then show ?thesis using less.hyps [of "k + i"] assms(2) by simp
    next
      case False
      then have "\<not> bit x (k + i)" "\<not> bit y (k + i)"
        using bit_imp_le_length [of x "k + i"] bit_imp_le_length [of y "k + i"] by auto
      then show ?thesis by simp
    qed
    ultimately show ?case by (auto simp: bit_xor_iff bit_drop_bit_eq)
  qed
  then show "bit x n = bit y n" if "n < LENGTH(64)" for n using that by simp
qed

lemma mult_odd_inj:
  fixes x y c d :: u64
  assumes "x * c = y * c" "c * d = 1"
  shows "x = y"
proof -
  have "x * (c * d) = y * (c * d)" using assms(1) by (metis mult.assoc)
  then show ?thesis using assms(2) by simp
qed

subsection \<open>Sums over finite maps\<close>

text \<open>\<open>map_sum f m\<close> adds \<open>f\<close> over the values of a map: the accounting totals of the program.\<close>

definition map_sum :: "('v \<Rightarrow> int) \<Rightarrow> ('k \<rightharpoonup> 'v) \<Rightarrow> int" where
  "map_sum f m = (\<Sum>k\<in>dom m. f (the (m k)))"

lemma map_sum_empty [simp]: "map_sum f Map.empty = 0"
  by (simp add: map_sum_def)

lemma map_sum_cong: "(\<And>k. map_option f (m k) = map_option g (n k)) \<Longrightarrow> map_sum f m = map_sum g n"
proof -
  assume a: "\<And>k. map_option f (m k) = map_option g (n k)"
  have "m k = None \<longleftrightarrow> n k = None" for k using a [of k] by (metis option.map_disc_iff)
  then have d: "dom m = dom n" by (auto simp: dom_def)
  show ?thesis unfolding map_sum_def d
  proof (rule sum.cong)
    fix k assume "k \<in> dom n"
    then show "f (the (m k)) = g (the (n k))" using a [of k] d by (auto simp: dom_def)
  qed simp
qed

lemma map_sum_insert: "finite (dom m) \<Longrightarrow> m k = None \<Longrightarrow> map_sum f (m(k \<mapsto> v)) = map_sum f m + f v"
  unfolding map_sum_def by (subst dom_fun_upd) (auto simp: domIff intro!: sum.cong)

lemma map_sum_delete:
  "finite (dom m) \<Longrightarrow> m k = Some v \<Longrightarrow> map_sum f (m(k := None)) = map_sum f m - f v"
proof -
  assume a: "finite (dom m)" "m k = Some v"
  have "(m(k := None))(k \<mapsto> v) = m" using a(2) by auto
  then show ?thesis using map_sum_insert [of "m(k := None)" k f v] a(1) by simp
qed

lemma map_sum_update:
  "finite (dom m) \<Longrightarrow> m k = Some v \<Longrightarrow> map_sum f (m(k \<mapsto> w)) = map_sum f m - f v + f w"
  using map_sum_insert [of "m(k := None)" k f w] map_sum_delete [of m k v f] by simp

lemma card_dom_insert: "finite (dom m) \<Longrightarrow> m k = None \<Longrightarrow> card (dom (m(k \<mapsto> v))) = Suc (card (dom m))"
  by (simp add: domIff)

lemma card_dom_delete:
  "finite (dom m) \<Longrightarrow> m k = Some v \<Longrightarrow> int (card (dom (m(k := None)))) = int (card (dom m)) - 1"
proof -
  assume a: "finite (dom m)" "m k = Some v"
  then have "card (dom m) = Suc (card (dom m - {k}))" by (intro card.remove) auto
  then show ?thesis by simp
qed

end
