(* ===== verification/FreqSketch.thy ===== *)
theory FreqSketch
  imports Prelude
begin

text \<open>
  The contract of a frequency sketch, as \<open>TinyLFU\<close> and \<open>TinyLFULockFree\<close> rely on it, and the
  reason why a Count-Min sketch meets it. \<open>frequency_sketch\<close> lists what the clients may assume;
  \<open>counter_rows\<close> describes a matrix of saturating counters, one hashed cell per row, from which
  the contract follows. The two sketches of the program (4-bit counters in bytes, 8-bit counters
  in 32-bit words) are interpretations of \<open>counter_rows\<close>.
\<close>

locale frequency_sketch =
  fixes increment :: "'s \<Rightarrow> u64 \<Rightarrow> 's"
    and estimate :: "'s \<Rightarrow> u64 \<Rightarrow> int"
    and halve :: "'s \<Rightarrow> 's"
    and clear :: "'s \<Rightarrow> 's"
    and inv :: "'s \<Rightarrow> bool"
    and cap :: int
  assumes inv_increment: "inv s \<Longrightarrow> inv (increment s h)"
    and inv_halve: "inv s \<Longrightarrow> inv (halve s)"
    and inv_clear: "inv s \<Longrightarrow> inv (clear s)"
    and cap_pos: "0 < cap"
    and estimate_range: "inv s \<Longrightarrow> 0 \<le> estimate s h \<and> estimate s h \<le> cap"
    and estimate_same: "inv s \<Longrightarrow> estimate (increment s h) h = min cap (estimate s h + 1)"
    and estimate_mono: "inv s \<Longrightarrow> estimate s g \<le> estimate (increment s h) g"
    and estimate_step: "inv s \<Longrightarrow> estimate (increment s h) g \<le> estimate s g + 1"
    and estimate_halve: "inv s \<Longrightarrow> estimate (halve s) h = estimate s h div 2"
    and estimate_clear: "inv s \<Longrightarrow> estimate (clear s) h = 0"
begin

lemma inv_foldl: "inv s \<Longrightarrow> inv (foldl increment s hs)"
  by (induction hs arbitrary: s) (auto simp: inv_increment)

text \<open>The Count-Min guarantee: an estimate is never below the true (saturated) count.\<close>

lemma no_underestimate:
  "inv s \<Longrightarrow> min cap (estimate s h + int (count_list hs h)) \<le> estimate (foldl increment s hs) h"
proof (induction hs arbitrary: s)
  case Nil
  then show ?case by simp
next
  case (Cons x hs)
  have IH: "min cap (estimate (increment s x) h + int (count_list hs h))
      \<le> estimate (foldl increment (increment s x) hs) h"
    using Cons by (simp add: inv_increment)
  show ?case
  proof (cases "x = h")
    case True
    then have "estimate (increment s x) h = min cap (estimate s h + 1)"
      using Cons.prems by (simp add: estimate_same)
    then show ?thesis using IH True by simp
  next
    case False
    then show ?thesis using IH estimate_mono [OF Cons.prems, of h x] by simp
  qed
qed

text \<open>It is never above the number of accesses recorded, whatever they were.\<close>

lemma bounded_overestimate:
  "inv s \<Longrightarrow> estimate (foldl increment s hs) h \<le> estimate s h + int (length hs)"
proof (induction hs arbitrary: s)
  case (Cons x hs)
  have "inv (increment s x)" using Cons.prems by (rule inv_increment)
  then show ?case using Cons.IH [of "increment s x"] estimate_step [OF Cons.prems, of x h] by simp
qed simp

end

text \<open>
  A matrix of counters: \<open>getAt s r i\<close> is the counter in column \<open>i\<close> of row \<open>r\<close>, \<open>index s h r\<close> the
  column a hash selects in row \<open>r\<close>. The loops of \<open>Increment\<close> and \<open>Estimate\<close> over the four rows
  are given by their equations.
\<close>

locale counter_rows =
  fixes getAt :: "'s \<Rightarrow> nat \<Rightarrow> u64 \<Rightarrow> nat"
    and incrementAt :: "'s \<Rightarrow> nat \<Rightarrow> u64 \<Rightarrow> 's"
    and index :: "'s \<Rightarrow> u64 \<Rightarrow> nat \<Rightarrow> u64"
    and increment :: "'s \<Rightarrow> u64 \<Rightarrow> 's"
    and estimate :: "'s \<Rightarrow> u64 \<Rightarrow> int"
    and halve :: "'s \<Rightarrow> 's"
    and clear :: "'s \<Rightarrow> 's"
    and inv :: "'s \<Rightarrow> bool"
    and capn :: nat
  assumes capn_pos: "0 < capn"
    and getAt_le: "inv s \<Longrightarrow> r < 4 \<Longrightarrow> getAt s r (index s h r) \<le> capn"
    and inv_incrementAt: "inv s \<Longrightarrow> r < 4 \<Longrightarrow> inv (incrementAt s r (index s h r))"
    and index_incrementAt: "index (incrementAt s r i) = index s"
    and getAt_incrementAt: "inv s \<Longrightarrow> r < 4 \<Longrightarrow> q < 4 \<Longrightarrow>
      getAt (incrementAt s r (index s h r)) q (index s g q) =
        (if r = q \<and> index s h r = index s g q then min capn (getAt s q (index s g q) + 1)
         else getAt s q (index s g q))"
    and increment_eq: "increment s h = foldl (\<lambda>s r. incrementAt s r (index s h r)) s [0..<4]"
    and estimate_eq: "estimate s h =
      foldl (\<lambda>m r. let v = int (getAt s r (index s h r)) in if v < m then v else m)
        (int capn) [0..<4]"
    and inv_halve_rows: "inv s \<Longrightarrow> inv (halve s)"
    and index_halve: "index (halve s) = index s"
    and getAt_halve: "inv s \<Longrightarrow> r < 4 \<Longrightarrow>
      getAt (halve s) r (index s h r) = getAt s r (index s h r) div 2"
    and inv_clear_rows: "inv s \<Longrightarrow> inv (clear s)"
    and index_clear: "index (clear s) = index s"
    and getAt_clear: "inv s \<Longrightarrow> r < 4 \<Longrightarrow> getAt (clear s) r (index s h r) = 0"
begin

definition cell :: "'s \<Rightarrow> u64 \<Rightarrow> nat \<Rightarrow> nat" where
  "cell s h r = getAt s r (index s h r)"

lemma estimate_Min:
  "estimate s h = min (min (min (min (int capn) (int (cell s h 0))) (int (cell s h 1)))
     (int (cell s h 2))) (int (cell s h 3))"
  by (simp add: estimate_eq cell_def numeral_eq_Suc min_def Let_def)

definition bump_rows :: "'s \<Rightarrow> u64 \<Rightarrow> nat list \<Rightarrow> 's" where
  "bump_rows s h rs = foldl (\<lambda>s r. incrementAt s r (index s h r)) s rs"

lemma bump_rows:
  assumes "inv s" "set rs \<subseteq> {..<4}" "distinct rs"
  shows "inv (bump_rows s h rs) \<and> index (bump_rows s h rs) = index s \<and>
    (\<forall>q<4. \<forall>g. cell (bump_rows s h rs) g q =
       (if q \<in> set rs \<and> index s h q = index s g q then min capn (cell s g q + 1) else cell s g q))"
  using assms
proof (induction rs arbitrary: s)
  case Nil
  then show ?case by (simp add: bump_rows_def)
next
  case (Cons r rs)
  let ?s = "incrementAt s r (index s h r)"
  have r: "r < 4" "inv s" using Cons.prems by auto
  have s: "inv ?s" "index ?s = index s"
    using r by (auto simp: inv_incrementAt index_incrementAt)
  have c: "cell ?s g q = (if r = q \<and> index s h q = index s g q then min capn (cell s g q + 1)
      else cell s g q)" if "q < 4" for g q
    using getAt_incrementAt [OF r(2,1) that] s(2) by (auto simp: cell_def)
  have eq: "bump_rows s h (r # rs) = bump_rows ?s h rs" by (simp add: bump_rows_def)
  show ?case using Cons.IH [OF s(1)] Cons.prems(2,3) c unfolding eq s(2) by auto
qed

lemma increment_bump: "increment s h = bump_rows s h [0, 1, 2, 3]"
  by (simp add: increment_eq bump_rows_def numeral_eq_Suc)

lemma increment_facts:
  assumes "inv s"
  shows "inv (increment s h)" and "index (increment s h) = index s"
    and "q < 4 \<Longrightarrow> cell (increment s h) g q =
      (if index s h q = index s g q then min capn (cell s g q + 1) else cell s g q)"
proof -
  have "q \<in> {0, 1, 2, 3}" if "q < 4" using that by auto
  then show "inv (increment s h)" "index (increment s h) = index s"
    "q < 4 \<Longrightarrow> cell (increment s h) g q =
      (if index s h q = index s g q then min capn (cell s g q + 1) else cell s g q)"
    using bump_rows [OF assms, of "[0, 1, 2, 3]" h] unfolding increment_bump by auto
qed

lemma cell_le: "inv s \<Longrightarrow> q < 4 \<Longrightarrow> cell s g q \<le> capn"
  by (simp add: cell_def getAt_le)

lemma estimate_cells:
  assumes "\<And>q. q < 4 \<Longrightarrow> int (cell s' g q) = f (int (cell s g q))" "mono f" "f (int capn) = int capn"
  shows "estimate s' g = f (estimate s g)"
  using assms(1) [of 0] assms(1) [of 1] assms(1) [of 2] assms(1) [of 3] assms(3)
  by (simp add: estimate_Min min_of_mono [OF assms(2), symmetric])

lemma estimate_Min4:
  assumes "inv s"
  shows "estimate s h = min (min (min (int (cell s h 0)) (int (cell s h 1))) (int (cell s h 2)))
     (int (cell s h 3))"
  using cell_le [OF assms, of 0 h] by (simp add: estimate_Min min.absorb2)

lemma estimate_le:
  assumes "\<And>q. q < 4 \<Longrightarrow> cell s g q \<le> cell s' g q"
  shows "estimate s g \<le> estimate s' g"
  unfolding estimate_Min by (intro min.mono) (auto simp: assms)

lemma estimate_le_Suc:
  assumes "\<And>q. q < 4 \<Longrightarrow> cell s' g q \<le> cell s g q + 1"
  shows "estimate s' g \<le> estimate s g + 1"
proof -
  have "int (cell s' g q) \<le> int (cell s g q) + 1" if "q < 4" for q using assms [OF that] by simp
  then show ?thesis unfolding estimate_Min min_add_distrib_left by (intro min.mono) auto
qed

lemma estimate_le_cap: "estimate s h \<le> int capn"
  by (simp add: estimate_Min)

end

sublocale counter_rows \<subseteq> frequency_sketch increment estimate halve clear inv "int capn"
proof unfold_locales
  fix s h g
  assume s: "inv s"
  note [simp] = increment_facts [OF s]
  have le: "cell s g q \<le> capn" if "q < 4" for g q using cell_le [OF s that] .
  show "inv (increment s h)" by simp
  show "inv (halve s)" "inv (clear s)" using s by (auto intro: inv_halve_rows inv_clear_rows)
  show "0 \<le> estimate s h \<and> estimate s h \<le> int capn" by (simp add: estimate_Min)
  have m: "mono (\<lambda>x. min (int capn) (x + 1))"
    by (rule monoI) (simp add: min.coboundedI2)
  have "int (cell (increment s h) h q) = min (int capn) (int (cell s h q) + 1)" if "q < 4" for q
    using that by simp
  from estimate_cells [OF this m] show "estimate (increment s h) h = min (int capn) (estimate s h + 1)"
    by simp
  show "estimate s g \<le> estimate (increment s h) g"
    using le by (intro estimate_le) auto
  show "estimate (increment s h) g \<le> estimate s g + 1"
    by (intro estimate_le_Suc) auto
  have h: "cell (halve s) h q = cell s h q div 2" if "q < 4" for q
    using getAt_halve [OF s that] index_halve [of s] by (simp add: cell_def)
  have "mono (\<lambda>x::int. x div 2)" by (rule monoI) (rule zdiv_mono1, simp_all)
  note d = min_of_mono [OF this]
  show "estimate (halve s) h = estimate s h div 2"
    using h by (simp add: estimate_Min4 [OF s] estimate_Min4 [OF inv_halve_rows [OF s]] zdiv_int d)
  have z: "cell (clear s) h q = 0" if "q < 4" for q
    using getAt_clear [OF s that] index_clear [of s] by (simp add: cell_def)
  show "estimate (clear s) h = 0" using z by (simp add: estimate_Min)
qed (use capn_pos in simp)

end
