(* ===== verification/Doorkeeper.thy ===== *)
theory Doorkeeper
  imports Prelude
begin

text \<open>
  The contract of the doorkeeper in front of a frequency sketch: a set of hashes that may
  report members it never saw, but never forgets one it did see until it is reset.
  \<open>bit_filter\<close> derives it from the shape shared by the Bloom filters of \<open>internal/policy\<close>: an
  array of bits and a fixed list of positions probed for a hash.
\<close>

locale doorkeeper =
  fixes add :: "'d \<Rightarrow> u64 \<Rightarrow> 'd \<times> bool"
    and contains :: "'d \<Rightarrow> u64 \<Rightarrow> bool"
    and reset :: "'d \<Rightarrow> 'd"
    and inv :: "'d \<Rightarrow> bool"
  assumes inv_add: "inv d \<Longrightarrow> inv (fst (add d h))"
    and inv_reset: "inv d \<Longrightarrow> inv (reset d)"
    and add_contains: "inv d \<Longrightarrow> contains (fst (add d h)) h"
    and add_mono: "inv d \<Longrightarrow> contains d g \<Longrightarrow> contains (fst (add d h)) g"
    and add_result: "inv d \<Longrightarrow> snd (add d h) \<longleftrightarrow> contains d h"
    and add_present: "inv d \<Longrightarrow> contains d h \<Longrightarrow> fst (add d h) = d"
    and reset_empty: "inv d \<Longrightarrow> \<not> contains (reset d) h"
begin

lemma inv_add_all: "inv d \<Longrightarrow> inv (foldl (\<lambda>d h. fst (add d h)) d hs)"
  by (induction hs arbitrary: d) (auto simp: inv_add)

lemma contains_kept: "inv d \<Longrightarrow> contains d g \<Longrightarrow> contains (foldl (\<lambda>d h. fst (add d h)) d hs) g"
  by (induction hs arbitrary: d) (auto simp: inv_add add_mono)

lemma no_false_negative:
  "inv d \<Longrightarrow> g \<in> set hs \<Longrightarrow> contains (foldl (\<lambda>d h. fst (add d h)) d hs) g"
proof (induction hs arbitrary: d)
  case (Cons x hs)
  then show ?case
    by (cases "g = x") (auto simp: inv_add add_contains intro: contains_kept)
qed simp

end

text \<open>The loop of \<open>Add\<close>: probe, and set the bit when it was clear.\<close>

definition add_loop ::
  "('d \<Rightarrow> nat \<Rightarrow> bool) \<Rightarrow> ('d \<Rightarrow> nat \<Rightarrow> 'd) \<Rightarrow> 'd \<Rightarrow> nat list \<Rightarrow> 'd \<times> bool" where
  "add_loop bitAt setBit d ps =
     foldl (\<lambda>(d, alreadyPresent) p. if bitAt d p then (d, alreadyPresent) else (setBit d p, False))
       (d, True) ps"

locale bit_filter =
  fixes bitAt :: "'d \<Rightarrow> nat \<Rightarrow> bool"
    and setBit :: "'d \<Rightarrow> nat \<Rightarrow> 'd"
    and probes :: "'d \<Rightarrow> u64 \<Rightarrow> nat list"
    and add :: "'d \<Rightarrow> u64 \<Rightarrow> 'd \<times> bool"
    and contains :: "'d \<Rightarrow> u64 \<Rightarrow> bool"
    and reset :: "'d \<Rightarrow> 'd"
    and inv :: "'d \<Rightarrow> bool"
    and ok :: "'d \<Rightarrow> nat \<Rightarrow> bool"
  assumes bitAt_setBit: "inv d \<Longrightarrow> ok d p \<Longrightarrow> bitAt (setBit d p) q \<longleftrightarrow> p = q \<or> bitAt d q"
    and inv_setBit: "inv d \<Longrightarrow> ok d p \<Longrightarrow> inv (setBit d p)"
    and probes_setBit: "probes (setBit d p) = probes d"
    and ok_setBit: "ok (setBit d p) = ok d"
    and probes_ok: "inv d \<Longrightarrow> p \<in> set (probes d h) \<Longrightarrow> ok d p"
    and probes_nonempty: "inv d \<Longrightarrow> probes d h \<noteq> []"
    and add_eq: "inv d \<Longrightarrow> add d h = add_loop bitAt setBit d (probes d h)"
    and contains_eq: "contains d h \<longleftrightarrow> (\<forall>p\<in>set (probes d h). bitAt d p)"
    and inv_reset_bits: "inv d \<Longrightarrow> inv (reset d)"
    and probes_reset: "probes (reset d) = probes d"
    and bitAt_reset: "inv d \<Longrightarrow> ok d p \<Longrightarrow> \<not> bitAt (reset d) p"
begin

lemma add_loop_facts:
  assumes "inv d" "\<And>p. p \<in> set ps \<Longrightarrow> ok d p"
  shows "inv (fst (foldl (\<lambda>(d, a) p. if bitAt d p then (d, a) else (setBit d p, False)) (d, a) ps)) \<and>
    probes (fst (foldl (\<lambda>(d, a) p. if bitAt d p then (d, a) else (setBit d p, False)) (d, a) ps)) = probes d \<and>
    (\<forall>q. bitAt (fst (foldl (\<lambda>(d, a) p. if bitAt d p then (d, a) else (setBit d p, False)) (d, a) ps)) q
         \<longleftrightarrow> q \<in> set ps \<or> bitAt d q) \<and>
    (snd (foldl (\<lambda>(d, a) p. if bitAt d p then (d, a) else (setBit d p, False)) (d, a) ps)
         \<longleftrightarrow> a \<and> (\<forall>p\<in>set ps. bitAt d p)) \<and>
    ((\<forall>p\<in>set ps. bitAt d p) \<longrightarrow>
       fst (foldl (\<lambda>(d, a) p. if bitAt d p then (d, a) else (setBit d p, False)) (d, a) ps) = d)"
  using assms
proof (induction ps arbitrary: d a)
  case (Cons p ps)
  show ?case
  proof (cases "bitAt d p")
    case True
    then show ?thesis using Cons.IH [of d a] Cons.prems by auto
  next
    case False
    have p: "ok d p" using Cons.prems by simp
    have i: "inv (setBit d p)" using Cons.prems(1) p by (rule inv_setBit)
    have b: "bitAt (setBit d p) q \<longleftrightarrow> p = q \<or> bitAt d q" for q
      using Cons.prems(1) p by (rule bitAt_setBit)
    show ?thesis using Cons.IH [OF i, of False] Cons.prems(2) False
      by (auto simp: b probes_setBit ok_setBit)
  qed
qed simp

lemma add_facts:
  assumes "inv d"
  shows "inv (fst (add d h))" "probes (fst (add d h)) = probes d"
    "bitAt (fst (add d h)) q \<longleftrightarrow> q \<in> set (probes d h) \<or> bitAt d q"
    "snd (add d h) \<longleftrightarrow> (\<forall>p\<in>set (probes d h). bitAt d p)"
    "(\<forall>p\<in>set (probes d h). bitAt d p) \<Longrightarrow> fst (add d h) = d"
  using add_loop_facts [where d = d and ps = "probes d h" and a = True] assms probes_ok [OF assms]
  unfolding add_eq [OF assms] add_loop_def by blast+

end

sublocale bit_filter \<subseteq> doorkeeper add contains reset inv
proof unfold_locales
  fix d h g
  assume d: "inv d"
  note [simp] = add_facts [OF d]
  show "inv (fst (add d h))" by simp
  show "inv (reset d)" by (rule inv_reset_bits [OF d])
  show "contains (fst (add d h)) h" by (simp add: contains_eq)
  show "snd (add d h) \<longleftrightarrow> contains d h" by (simp add: contains_eq)
  show "contains d g \<Longrightarrow> contains (fst (add d h)) g" by (simp add: contains_eq)
  show "contains d h \<Longrightarrow> fst (add d h) = d" by (simp add: contains_eq)
  have "hd (probes d h) \<in> set (probes d h)" using probes_nonempty [OF d] by simp
  then show "\<not> contains (reset d) h"
    using bitAt_reset [OF d probes_ok [OF d]] by (auto simp: contains_eq probes_reset)
qed

end
