(* ===== verification/Admission.thy ===== *)
theory Admission
  imports FreqSketch Doorkeeper
begin

text \<open>
  The contract of an admission filter: what the policies of \<open>policy.go\<close> and
  \<open>policy_lockfree.go\<close> use of \<open>TinyLFU\<close> and \<open>TinyLFULockFree\<close>. An estimate is a small
  non-negative number; recording an access raises it by one up to a ceiling, and never lowers
  another key's, unless the access completes an ageing period, which halves everything; a key is
  admitted over a victim when it was seen at least as often.
\<close>

locale admission =
  fixes increment :: "'t \<Rightarrow> u64 \<Rightarrow> 't"
    and estimate :: "'t \<Rightarrow> u64 \<Rightarrow> int"
    and admit :: "'t \<Rightarrow> u64 \<Rightarrow> u64 \<Rightarrow> bool"
    and clear :: "'t \<Rightarrow> 't"
    and ages :: "'t \<Rightarrow> bool"
    and inv :: "'t \<Rightarrow> bool"
    and top :: int
  assumes inv_increment: "inv t \<Longrightarrow> inv (increment t h)"
    and inv_clear: "inv t \<Longrightarrow> inv (clear t)"
    and estimate_range: "inv t \<Longrightarrow> 0 \<le> estimate t h \<and> estimate t h \<le> top"
    and top_small: "top < max_int64"
    and admit_iff: "admit t a b \<longleftrightarrow> estimate t b \<le> estimate t a"
    and estimate_clear: "inv t \<Longrightarrow> estimate (clear t) h = 0"
    and estimate_same: "inv t \<Longrightarrow> \<not> ages t \<Longrightarrow>
      estimate (increment t h) h = min top (estimate t h + 1)"
    and estimate_mono: "inv t \<Longrightarrow> \<not> ages t \<Longrightarrow> estimate t g \<le> estimate (increment t h) g"
    and estimate_aged: "inv t \<Longrightarrow> ages t \<Longrightarrow>
      estimate (increment t h) g \<le> (estimate t g + 1) div 2"
begin

lemma inv_foldl: "inv t \<Longrightarrow> inv (foldl increment t hs)"
  by (induction hs arbitrary: t) (auto simp: inv_increment)

lemma estimate_below_max: "inv t \<Longrightarrow> estimate t h < max_int64"
  using estimate_range [of t h] top_small by linarith

lemma admit_refl: "admit t a a"
  by (simp add: admit_iff)

lemma admit_trans: "admit t a b \<Longrightarrow> admit t b c \<Longrightarrow> admit t a c"
  by (simp add: admit_iff)

lemma admit_total: "admit t a b \<or> admit t b a"
  by (simp add: admit_iff linear)

text \<open>
  Within one ageing period, repeated accesses drive a key's estimate to the ceiling, after which
  it is admitted over every victim.
\<close>

lemma repeated_estimate:
  assumes "inv t" "\<And>k. k < n \<Longrightarrow> \<not> ages (foldl increment t (replicate k a))"
  shows "estimate (foldl increment t (replicate n a)) a = min top (estimate t a + int n)"
  using assms
proof (induction n)
  case 0
  then show ?case using estimate_range [of t a] by simp
next
  case (Suc n)
  let ?t = "foldl increment t (replicate n a)"
  have "foldl increment t (replicate (Suc n) a) = increment ?t a"
    using replicate_append_same [of n a] by (metis foldl_Cons foldl_Nil foldl_append replicate_Suc)
  moreover have "estimate (increment ?t a) a = min top (estimate ?t a + 1)"
    using Suc.prems by (intro estimate_same inv_foldl) auto
  moreover have "estimate ?t a = min top (estimate t a + int n)" using Suc by simp
  ultimately show ?case by simp
qed

lemma repeated_admitted:
  assumes "inv t" "top \<le> int n" "\<And>k. k < n \<Longrightarrow> \<not> ages (foldl increment t (replicate k a))"
  shows "admit (foldl increment t (replicate n a)) a b"
proof -
  have "estimate (foldl increment t (replicate n a)) a = top"
    using repeated_estimate [OF assms(1,3)] estimate_range [OF assms(1), of a] assms(2) by simp
  then show ?thesis
    using estimate_range [OF inv_foldl [OF assms(1)], of "replicate n a" b] by (simp add: admit_iff)
qed

end

text \<open>
  How a doorkeeper and a sketch combine: the estimate is the sketch's plus one for a key the
  doorkeeper has seen, and the sketch only counts keys seen before.
\<close>

locale doorkept_sketch =
  sk: frequency_sketch increment estimate halve clear sinv cap +
  dk: doorkeeper add contains reset dinv
  for increment :: "'s \<Rightarrow> u64 \<Rightarrow> 's" and estimate :: "'s \<Rightarrow> u64 \<Rightarrow> int"
    and halve :: "'s \<Rightarrow> 's" and clear :: "'s \<Rightarrow> 's" and sinv :: "'s \<Rightarrow> bool" and cap :: int
    and add :: "'d \<Rightarrow> u64 \<Rightarrow> 'd \<times> bool" and contains :: "'d \<Rightarrow> u64 \<Rightarrow> bool"
    and reset :: "'d \<Rightarrow> 'd" and dinv :: "'d \<Rightarrow> bool"
begin

definition est :: "'s \<Rightarrow> 'd \<Rightarrow> u64 \<Rightarrow> int" where
  "est s d h = (if contains d h then estimate s h + 1 else estimate s h)"

definition count :: "'s \<Rightarrow> 'd \<Rightarrow> u64 \<Rightarrow> 's" where
  "count s d h = (if snd (add d h) then increment s h else s)"

lemma count_inv: "sinv s \<Longrightarrow> sinv (count s d h)"
  by (simp add: count_def sk.inv_increment)

lemma est_range: "sinv s \<Longrightarrow> 0 \<le> est s d h \<and> est s d h \<le> cap + 1"
  using sk.estimate_range [of s h] by (auto simp: est_def)

lemma est_same:
  assumes "sinv s" "dinv d"
  shows "est (count s d h) (fst (add d h)) h = min (cap + 1) (est s d h + 1)"
  using sk.estimate_same [OF assms(1), of h] sk.estimate_range [OF assms(1), of h]
    dk.add_result [OF assms(2), of h] dk.add_contains [OF assms(2), of h]
  by (auto simp: est_def count_def)

lemma est_mono:
  assumes "sinv s" "dinv d"
  shows "est s d g \<le> est (count s d h) (fst (add d h)) g"
  using sk.estimate_mono [OF assms(1), of g h] dk.add_mono [OF assms(2), of g h]
  by (auto simp: est_def count_def)

lemma est_aged:
  assumes "sinv s" "dinv d"
  shows "est (halve (count s d h)) (reset (fst (add d h))) g \<le> (est s d g + 1) div 2"
proof -
  have "\<not> contains (reset (fst (add d h))) g"
    using assms(2) by (intro dk.reset_empty dk.inv_add)
  then have "est (halve (count s d h)) (reset (fst (add d h))) g = estimate (count s d h) g div 2"
    using assms(1) by (simp add: est_def sk.estimate_halve count_inv)
  moreover have "estimate (count s d h) g \<le> estimate s g + 1"
    using sk.estimate_step [OF assms(1), of h g] by (auto simp: count_def)
  moreover have "estimate s g \<le> est s d g" by (simp add: est_def)
  ultimately show ?thesis by (simp add: zdiv_mono1)
qed

lemma est_clear:
  assumes "sinv s" "dinv d"
  shows "est (clear s) (reset d) h = 0"
  using assms by (simp add: est_def sk.estimate_clear dk.reset_empty)

end

end
