(* ===== verification/PowerOfTwo.thy ===== *)
theory PowerOfTwo
  imports Prelude
begin

text \<open>
  The five "round up to a power of two" routines of the program
  (\<open>nextPowerOf2\<close> of \<open>internal/store/sharded.go\<close>, \<open>WithShardCount\<close> of \<open>options.go\<close>,
  \<open>NewRingBuffer\<close> of \<open>internal/buffer/ring.go\<close>, \<open>nextPowerOf2Uint64\<close> of
  \<open>internal/policy/cuckoo.go\<close>, \<open>nextPowerOf2Int64\<close> of \<open>internal/hashtable/swiss.go\<close>) all
  smear the highest set bit downwards with shifts and disjunctions. The bit-level loop is
  analysed once, on any bit type, and the arithmetic consequences are drawn for each variant.
  The same theory holds the doubling loop that sizes the Count-Min sketches and the facts
  about power-of-two masks that every table index relies on.
\<close>

subsection \<open>The routines\<close>

definition nextPowerOf2 :: "int \<Rightarrow> int" where
  "nextPowerOf2 n =
     (let n = i64 (n - 1);
          n = n OR drop_bit 1 n;
          n = n OR drop_bit 2 n;
          n = n OR drop_bit 4 n;
          n = n OR drop_bit 8 n;
          n = n OR drop_bit 16 n
      in i64 (n + 1))"

definition nextPowerOf2Int64 :: "int \<Rightarrow> int" where
  "nextPowerOf2Int64 n =
     (if n \<le> 1 then 1 else
      let n = i64 (n - 1);
          n = n OR drop_bit 1 n;
          n = n OR drop_bit 2 n;
          n = n OR drop_bit 4 n;
          n = n OR drop_bit 8 n;
          n = n OR drop_bit 16 n;
          n = n OR drop_bit 32 n
      in i64 (n + 1))"

definition nextPowerOf2Uint64 :: "u64 \<Rightarrow> u64" where
  "nextPowerOf2Uint64 n =
     (if n = 0 then 1 else
      let n = n - 1;
          n = n OR drop_bit 1 n;
          n = n OR drop_bit 2 n;
          n = n OR drop_bit 4 n;
          n = n OR drop_bit 8 n;
          n = n OR drop_bit 16 n;
          n = n OR drop_bit 32 n
      in n + 1)"

subsection \<open>Smearing\<close>

definition smeared :: "nat \<Rightarrow> int \<Rightarrow> int \<Rightarrow> bool" where
  "smeared m x y \<longleftrightarrow> (\<forall>i. bit y i \<longleftrightarrow> (\<exists>d<m. bit x (i + d)))"

lemma smeared_start: "smeared 1 x x"
  by (simp add: smeared_def)

lemma smeared_step:
  assumes "smeared m x y"
  shows "smeared (2 * m) x (y OR drop_bit m y)"
  unfolding smeared_def
proof
  fix i
  have "(\<exists>d<2 * m. bit x (i + d)) \<longleftrightarrow> (\<exists>d<m. bit x (i + d)) \<or> (\<exists>d<m. bit x (i + m + d))"
    (is "?l \<longleftrightarrow> ?r")
  proof
    assume ?l
    then obtain d where d: "d < 2 * m" "bit x (i + d)" by blast
    show ?r
    proof (cases "d < m")
      case False
      with d have "d - m < m" "bit x (i + m + (d - m))" by auto
      then show ?thesis by blast
    qed (use d in blast)
  next
    assume ?r
    then show ?l
    proof
      assume "\<exists>d<m. bit x (i + m + d)"
      then obtain d where "d < m" "bit x (i + (m + d))" by (auto simp: add.assoc)
      then show ?l by (intro exI [of _ "m + d"]) simp
    next
      assume "\<exists>d<m. bit x (i + d)"
      then obtain d where "d < m" "bit x (i + d)" by blast
      then show ?l by (intro exI [of _ d]) simp
    qed
  qed
  then show "bit (y OR drop_bit m y) i \<longleftrightarrow> (\<exists>d<2 * m. bit x (i + d))"
    using assms by (simp add: smeared_def bit_or_iff bit_drop_bit_eq ac_simps)
qed

lemma smeared_5:
  "smeared 32 x (let n = x; n = n OR drop_bit 1 n; n = n OR drop_bit 2 n; n = n OR drop_bit 4 n;
                     n = n OR drop_bit 8 n in n OR drop_bit 16 n)"
  using smeared_step [OF smeared_step [OF smeared_step [OF smeared_step [OF smeared_step
        [OF smeared_start [of x]]]]]]
  by (simp add: Let_def)

definition smear64 :: "'a::semiring_bit_operations \<Rightarrow> 'a" where
  "smear64 x = (let n = x; n = n OR drop_bit 1 n; n = n OR drop_bit 2 n; n = n OR drop_bit 4 n;
                     n = n OR drop_bit 8 n; n = n OR drop_bit 16 n in n OR drop_bit 32 n)"

lemma nextPowerOf2Int64_smear:
  "1 < n \<Longrightarrow> nextPowerOf2Int64 n = i64 (smear64 (i64 (n - 1)) + 1)"
  by (simp add: nextPowerOf2Int64_def smear64_def Let_def)

lemma nextPowerOf2Uint64_smear:
  "n \<noteq> 0 \<Longrightarrow> nextPowerOf2Uint64 n = smear64 (n - 1) + 1"
  by (simp add: nextPowerOf2Uint64_def smear64_def Let_def)

lemma smeared_6: "smeared 64 x (smear64 x)"
  unfolding smear64_def
  using smeared_step [OF smeared_step [OF smeared_step [OF smeared_step [OF smeared_step
        [OF smeared_step [OF smeared_start [of x]]]]]]]
  by (simp add: Let_def)

text \<open>
  Smearing a number below \<open>2 ^ m\<close> over \<open>m\<close> positions sets exactly the bits below its top bit:
  the result is \<open>2 ^ k - 1\<close> for the bit length \<open>k\<close> of the number.
\<close>

lemma top_bit_exists:
  assumes "0 < (x::int)"
  shows "\<exists>k. 2 ^ k \<le> x \<and> x < 2 ^ Suc k"
proof -
  obtain n where n: "x = int n" "0 < n" using assms zero_less_imp_eq_int by blast
  from n(2) have "\<exists>k. 2 ^ k \<le> n \<and> n < 2 ^ Suc k"
    using ex_power_ivl1 [of 2 n] by auto
  then show ?thesis using n(1) by (metis of_nat_le_iff of_nat_less_iff of_nat_numeral of_nat_power)
qed

lemma bit_above_top: "0 \<le> (x::int) \<Longrightarrow> x < 2 ^ k \<Longrightarrow> k \<le> i \<Longrightarrow> \<not> bit x i"
  by (metis bit_take_bit_iff leD take_bit_int_eq_self)

lemma bit_top: "2 ^ k \<le> (x::int) \<Longrightarrow> x < 2 ^ Suc k \<Longrightarrow> bit x k"
proof -
  assume x: "2 ^ k \<le> x" "x < 2 ^ Suc k"
  then have "x div 2 ^ k = 1"
    by (intro int_div_pos_eq [where r = "x - 2 ^ k"]) auto
  then show "bit x k" by (simp add: bit_iff_odd)
qed

lemma smeared_power:
  assumes "smeared m x y" "0 < x" "x < 2 ^ m"
  shows "\<exists>k<m. y = 2 ^ Suc k - 1 \<and> 2 ^ k \<le> x \<and> x < 2 ^ Suc k"
proof -
  obtain k where k: "2 ^ k \<le> x" "x < 2 ^ Suc k" using top_bit_exists [OF assms(2)] by blast
  have km: "k < m"
    using k(1) assms(3) by (metis linorder_not_le order_le_less_trans power_increasing one_le_numeral)
  have "y = mask (Suc k)"
  proof (rule bit_eqI)
    fix i
    show "bit y i \<longleftrightarrow> bit (mask (Suc k) :: int) i"
    proof (cases "i \<le> k")
      case True
      then have "k - i < m" "bit x (i + (k - i))" using km bit_top [OF k] by auto
      then show ?thesis using True assms(1) by (auto simp: smeared_def bit_mask_iff)
    next
      case False
      then have "\<not> bit x (i + d)" for d using bit_above_top [of x "Suc k"] assms(2) k(2) by simp
      then show ?thesis using False assms(1) by (auto simp: smeared_def bit_mask_iff)
    qed
  qed
  then show ?thesis using k km by (auto simp: mask_eq_exp_minus_1)
qed

lemma smeared_nonneg: "smeared m x y \<Longrightarrow> x = 0 \<Longrightarrow> y = 0"
  by (rule bit_eqI) (simp add: smeared_def)

subsection \<open>The routines round up\<close>

text \<open>
  \<open>rounds_up n p\<close>: \<open>p\<close> is the least power of two that is at least \<open>n\<close>.
\<close>

definition rounds_up :: "int \<Rightarrow> int \<Rightarrow> bool" where
  "rounds_up n p \<longleftrightarrow> (\<exists>k. p = 2 ^ k) \<and> n \<le> p \<and> (n = 1 \<and> p = 1 \<or> p < 2 * n)"

lemma smeared_rounds_up:
  assumes "smeared m (n - 1) y" "1 \<le> n" "n \<le> 2 ^ m" "m \<le> 62"
  shows "rounds_up n (i64 (y + 1)) \<and> i64 (y + 1) \<le> 2 ^ m"
proof (cases "n = 1")
  case True
  then have "y = 0" using smeared_nonneg assms(1) by simp
  then show ?thesis using True by (auto simp: rounds_up_def i64_simps intro: exI [of _ 0])
next
  case False
  then obtain k where k: "k < m" "y = 2 ^ Suc k - 1" "2 ^ k \<le> n - 1" "n - 1 < 2 ^ Suc k"
    using smeared_power [OF assms(1)] assms(2,3) by auto
  have le: "(2::int) ^ Suc k \<le> 2 ^ m" using k(1) by (intro power_increasing) auto
  have "(2::int) ^ m \<le> 2 ^ 62" using assms(4) by (intro power_increasing) auto
  then have "Suc k \<le> 62" using k(1) assms(4) by simp
  then have "i64 (y + 1) = 2 ^ Suc k" using k(2) i64_power [of "Suc k"] by simp
  moreover have "2 ^ Suc k < 2 * n" using k(3) by simp
  ultimately show ?thesis using k(4) le unfolding rounds_up_def
    by (metis add.commute zle_add1_eq_le diff_less_eq)
qed

lemma nextPowerOf2_rounds_up:
  assumes "1 \<le> n" "n \<le> 2 ^ 32"
  shows "rounds_up n (nextPowerOf2 n) \<and> nextPowerOf2 n \<le> 2 ^ 32"
proof -
  have "i64 (n - 1) = n - 1" using assms by (intro i64_id) simp_all
  then show ?thesis
    using smeared_rounds_up [OF smeared_5 assms] by (simp add: nextPowerOf2_def Let_def)
qed

lemma nextPowerOf2Int64_rounds_up:
  assumes "1 \<le> n" "n \<le> 2 ^ 62"
  shows "rounds_up n (nextPowerOf2Int64 n) \<and> nextPowerOf2Int64 n \<le> 2 ^ 62"
proof (cases "n = 1")
  case True
  then show ?thesis by (auto simp: nextPowerOf2Int64_def rounds_up_def intro: exI [of _ 0])
next
  case False
  let ?y = "smear64 (n - 1)"
  have i: "i64 (n - 1) = n - 1" using assms by (intro i64_id) simp_all
  have "n - 1 < 2 ^ 62" "0 < n - 1" using assms False by auto
  then obtain k where k: "?y = 2 ^ Suc k - 1" "2 ^ k \<le> n - 1" "n - 1 < 2 ^ Suc k"
    using smeared_power [OF smeared_6 [of "n - 1"]] by auto
  have "(2::int) ^ k < 2 ^ 62" using k(2) \<open>n - 1 < 2 ^ 62\<close> by linarith
  then have k62: "k < 62" using power_less_imp_less_exp [of "2::int" k 62] by simp
  then have le: "(2::int) ^ Suc k \<le> 2 ^ 62" by (intro power_increasing) auto
  have "nextPowerOf2Int64 n = i64 (?y + 1)"
    using False assms i by (simp add: nextPowerOf2Int64_smear)
  also have "\<dots> = 2 ^ Suc k" using k(1) k62 i64_power [of "Suc k"] by simp
  finally show ?thesis using k(2,3) le unfolding rounds_up_def
    by (auto intro: exI [of _ "Suc k"])
qed

lemma uint_smear: "uint (n OR drop_bit k n) = uint n OR drop_bit k (uint (n :: u64))"
  by (rule bit_eqI) (auto simp: bit_simps dest: bit_imp_le_length)

lemma nextPowerOf2Uint64_rounds_up:
  assumes "0 < n" "uint n \<le> 2 ^ 62"
  shows "rounds_up (uint n) (uint (nextPowerOf2Uint64 n)) \<and> uint (nextPowerOf2Uint64 n) \<le> 2 ^ 62"
proof -
  have n1: "1 \<le> uint n" using assms(1) by (simp add: word_less_def)
  have u: "uint (n - 1) = uint n - 1" using n1 by (simp add: uint_sub_if')
  have n0: "n \<noteq> 0" using assms(1) by auto
  have "uint (smear64 (n - 1)) = smear64 (uint n - 1)"
    unfolding smear64_def by (simp only: Let_def uint_smear u)
  then have e: "uint (nextPowerOf2Uint64 n) = (smear64 (uint n - 1) + 1) mod 2 ^ 64"
    by (simp only: nextPowerOf2Uint64_smear [OF n0] uint_word_ariths) (simp add: mod_simps)
  have i: "i64 (uint n - 1) = uint n - 1" using n1 assms(2) by (intro i64_id) simp_all
  have r: "rounds_up (uint n) (nextPowerOf2Int64 (uint n)) \<and> nextPowerOf2Int64 (uint n) \<le> 2 ^ 62"
    using n1 assms(2) by (rule nextPowerOf2Int64_rounds_up)
  have "uint (nextPowerOf2Uint64 n) = nextPowerOf2Int64 (uint n)"
  proof (cases "uint n = 1")
    case True
    then show ?thesis using e by (simp add: nextPowerOf2Int64_def smear64_def)
  next
    case False
    then have "nextPowerOf2Int64 (uint n) = i64 (smear64 (uint n - 1) + 1)"
      using n1 i by (simp add: nextPowerOf2Int64_smear)
    then have "nextPowerOf2Int64 (uint n) mod 2 ^ 64 = uint (nextPowerOf2Uint64 n)"
      using e by simp
    moreover have "0 \<le> nextPowerOf2Int64 (uint n)" using r n1 by (simp add: rounds_up_def)
    ultimately show ?thesis using r mod_pos_pos_trivial [of "nextPowerOf2Int64 (uint n)" "2 ^ 64"]
      by simp
  qed
  then show ?thesis using r by simp
qed

subsection \<open>Doubling until large enough\<close>

text \<open>
  The loop \<open>for w < width { w <<= 1 }\<close> of both sketch constructors. At \<open>width > 2 ^ 62\<close> the
  shift overflows and the loop never ends, so the result is an option.
\<close>

partial_function (option) double_until :: "int \<Rightarrow> int \<Rightarrow> int option" where
  "double_until w width = (if w < width then double_until (i64 (2 * w)) width else Some w)"

lemma double_until_pow:
  assumes "j \<le> 62" "width \<le> 2 ^ j" "i \<le> j"
  shows "\<exists>k\<ge>i. k \<le> j \<and> double_until (2 ^ i) width = Some (2 ^ k) \<and> width \<le> 2 ^ k
           \<and> (k = i \<or> 2 ^ (k - 1) < width)"
  using assms(3)
proof (induction "j - i" arbitrary: i)
  case 0
  then have "i = j" by simp
  then show ?case using assms(2) by (auto simp: double_until.simps)
next
  case (Suc d)
  show ?case
  proof (cases "2 ^ i < width")
    case True
    have "Suc i \<le> j" using Suc by simp
    then have sh: "i64 (2 * 2 ^ i) = 2 ^ Suc i" using assms(1) i64_power [of "Suc i"] by simp
    have "d = j - Suc i" using Suc.hyps(2) by simp
    then obtain k where k: "Suc i \<le> k" "k \<le> j" "double_until (2 ^ Suc i) width = Some (2 ^ k)"
      "width \<le> 2 ^ k" "k = Suc i \<or> 2 ^ (k - 1) < width"
      using Suc.hyps(1) [OF _ \<open>Suc i \<le> j\<close>] by auto
    have "double_until (2 ^ i) width = Some (2 ^ k)"
      using True k(3) sh by (subst double_until.simps) simp
    then show ?thesis using k True by (intro exI [of _ k]) auto
  next
    case False
    then show ?thesis using Suc.prems by (auto simp: double_until.simps intro!: exI [of _ i])
  qed
qed

end
