(* ===== verification/Sketch.thy ===== *)
theory Sketch
  imports FreqSketch PowerOfTwo
begin

text \<open>
  \<open>internal/policy/sketch.go\<close>: the Count-Min sketch of \<open>TinyLFU\<close>, four rows of 4-bit counters,
  two to a byte. The constructor's random cm_seeds are an argument. The theory ends with the
  interpretation of \<open>counter_rows\<close>, which gives the sketch contract.
\<close>

record cmSketch =
  cm_rows :: "byte list list"
  cm_seeds :: "u64 list"
  cm_width :: u64

definition cmDepth :: nat where "cmDepth = 4"
definition cmWidth :: int where "cmWidth = 2 ^ 20"

definition newCMSketch :: "int \<Rightarrow> u64 list \<Rightarrow> cmSketch option" where
  "newCMSketch width0 rand =
     (let width1 = (if width0 \<le> 0 then cmWidth else width0)
      in map_option
           (\<lambda>w. \<lparr>cm_rows = replicate cmDepth (replicate (nat ((w + 1) div 2)) 0),
                 cm_seeds = take cmDepth rand, cm_width = word_of_int w\<rparr>)
           (double_until 1 width1))"

text \<open>The mixing function that selects a column.\<close>

definition mix :: "u64 \<Rightarrow> u64" where
  "mix h0 =
     (let h = h0;
          h = h XOR drop_bit 33 h;
          h = h * 0xff51afd7ed558ccd;
          h = h XOR drop_bit 33 h;
          h = h * 0xc4ceb9fe1a85ec53;
          h = h XOR drop_bit 33 h
      in h)"

definition cm_index :: "cmSketch \<Rightarrow> u64 \<Rightarrow> nat \<Rightarrow> u64" where
  "cm_index s keyHash row = mix (keyHash XOR cm_seeds s ! row) AND (cm_width s - 1)"

definition cm_getAt :: "cmSketch \<Rightarrow> nat \<Rightarrow> u64 \<Rightarrow> byte" where
  "cm_getAt s row idx =
     (let byteIdx = unat (idx div 2); nibble = idx AND 1; b = cm_rows s ! row ! byteIdx
      in if nibble = 0 then b AND 0x0F else drop_bit 4 b AND 0x0F)"

definition cm_incrementAt :: "cmSketch \<Rightarrow> nat \<Rightarrow> u64 \<Rightarrow> cmSketch" where
  "cm_incrementAt s row idx =
     (let byteIdx = unat (idx div 2);
          nibble = idx AND 1;
          b = cm_rows s ! row ! byteIdx;
          val = (if nibble = 0 then b AND 0x0F else drop_bit 4 b AND 0x0F)
      in if val < 15
         then let val' = val + 1;
                  b' = (if nibble = 0 then (b AND 0xF0) OR val'
                        else (b AND 0x0F) OR push_bit 4 val')
              in s\<lparr>cm_rows := (cm_rows s)[row := (cm_rows s ! row)[byteIdx := b']]\<rparr>
         else s)"

definition cm_Increment :: "cmSketch \<Rightarrow> u64 \<Rightarrow> cmSketch" where
  "cm_Increment s keyHash = foldl (\<lambda>s i. cm_incrementAt s i (cm_index s keyHash i)) s [0..<cmDepth]"

definition cm_Estimate :: "cmSketch \<Rightarrow> u64 \<Rightarrow> int" where
  "cm_Estimate s keyHash =
     foldl (\<lambda>min i. let val = uint (cm_getAt s i (cm_index s keyHash i)) in if val < min then val else min)
       15 [0..<cmDepth]"

definition halveByte :: "byte \<Rightarrow> byte" where
  "halveByte b =
     (let low = drop_bit 1 (b AND 0x0F); high = drop_bit 1 (drop_bit 4 b AND 0x0F)
      in low OR push_bit 4 high)"

definition cm_Reset :: "cmSketch \<Rightarrow> cmSketch" where
  "cm_Reset s = s\<lparr>cm_rows := map (map halveByte) (cm_rows s)\<rparr>"

definition cm_Clear :: "cmSketch \<Rightarrow> cmSketch" where
  "cm_Clear s = s\<lparr>cm_rows := map (map (\<lambda>_. 0)) (cm_rows s)\<rparr>"

text \<open>Well-formed sketches: four rows of \<open>(width + 1) / 2\<close> bytes, four seeds.\<close>

definition sketch_inv :: "cmSketch \<Rightarrow> bool" where
  "sketch_inv s \<longleftrightarrow> 0 < cm_width s \<and> length (cm_rows s) = 4 \<and> length (cm_seeds s) = 4 \<and>
     (\<forall>r<4. length (cm_rows s ! r) = (unat (cm_width s) + 1) div 2)"

subsection \<open>Nibbles\<close>

lemma nibble_masks: "(15 :: byte) = mask 4" "(240 :: byte) = push_bit 4 (mask 4)"
  by (simp_all add: mask_eq_exp_minus_1)

lemma small_bits: "v \<le> (15 :: byte) \<Longrightarrow> bit v n \<Longrightarrow> n < 4"
  using bit_above_top [of "uint v" 4 n]
  by (force simp: word_le_def bit_uint_iff dest: bit_imp_le_length)

lemma nibble_le [simp]: "b AND 15 \<le> (15 :: byte)"
  by (rule word_and_le1)

lemma store_low:
  assumes "v \<le> (15 :: byte)"
  shows "((b AND 240) OR v) AND 15 = v"
    and "drop_bit 4 ((b AND 240) OR v) AND 15 = drop_bit 4 b AND 15"
  by (auto intro!: bit_word_eqI simp: bit_simps nibble_masks dest: small_bits [OF assms])

lemma store_high:
  assumes "v \<le> (15 :: byte)"
  shows "drop_bit 4 ((b AND 15) OR push_bit 4 v) AND 15 = v"
    and "((b AND 15) OR push_bit 4 v) AND 15 = b AND 15"
  by (auto intro!: bit_word_eqI simp: bit_simps nibble_masks dest: small_bits [OF assms])

lemma halveByte_low: "halveByte b AND 15 = drop_bit 1 (b AND 15)"
  by (auto intro!: bit_word_eqI simp: halveByte_def Let_def bit_simps nibble_masks)

lemma halveByte_high: "drop_bit 4 (halveByte b) AND 15 = drop_bit 1 (drop_bit 4 b AND 15)"
  by (auto intro!: bit_word_eqI simp: halveByte_def Let_def bit_simps nibble_masks)

lemma halveByte_nibbles:
  "unat (halveByte b AND 15) = unat (b AND 15) div 2"
  "unat (drop_bit 4 (halveByte b) AND 15) = unat (drop_bit 4 b AND 15) div 2"
  unfolding halveByte_low halveByte_high by (simp_all only: unat_drop_bit_eq drop_bit_eq_div) (simp_all add: unat_div_distrib)

subsection \<open>Columns\<close>

lemma nibble_even: "(i AND 1 = (0 :: u64)) = even (unat i)"
proof -
  have "unat (i AND 1) = unat i mod 2" by (simp add: and_one_eq unat_mod_distrib)
  then show ?thesis by (metis unat_eq_zero even_iff_mod_2_eq_zero)
qed

lemma byteIdx: "unat (i div 2 :: u64) = unat i div 2"
  by (simp add: unat_div_distrib)

lemma cm_index_less: "sketch_inv s \<Longrightarrow> cm_index s h r < cm_width s"
  unfolding cm_index_def by (rule and_pred_less) (simp add: sketch_inv_def)

lemma cm_index_byte [bounds]:
  assumes "sketch_inv s" "r < 4"
  shows "unat (cm_index s h r) div 2 < length (cm_rows s ! r)"
  using cm_index_less [OF assms(1), of h r] assms by (simp add: sketch_inv_def word_less_nat_alt)

lemma cm_getAt_nat:
  "cm_getAt s r i = (if even (unat i) then cm_rows s ! r ! (unat i div 2) AND 15
                  else drop_bit 4 (cm_rows s ! r ! (unat i div 2)) AND 15)"
  by (simp add: cm_getAt_def Let_def nibble_even byteIdx)

lemma cm_getAt_le: "unat (cm_getAt s r i) \<le> 15"
  using nibble_le [THEN word_le_nat_alt [THEN iffD1]] by (simp add: cm_getAt_nat)

lemma cm_incrementAt_nat:
  "cm_incrementAt s r i =
     (if cm_getAt s r i < 15
      then let b = cm_rows s ! r ! (unat i div 2); v = cm_getAt s r i + 1
           in s\<lparr>cm_rows := (cm_rows s)[r := (cm_rows s ! r)[unat i div 2 :=
                (if even (unat i) then (b AND 240) OR v else (b AND 15) OR push_bit 4 v)]]\<rparr>
      else s)"
  by (simp add: cm_incrementAt_def cm_getAt_def Let_def nibble_even byteIdx)

lemma cm_incrementAt_frame [simp]:
  "cm_seeds (cm_incrementAt s r i) = cm_seeds s" "cm_width (cm_incrementAt s r i) = cm_width s"
  "cm_index (cm_incrementAt s r i) = cm_index s"
  by (auto simp: cm_incrementAt_def Let_def cm_index_def fun_eq_iff)

lemma cm_incrementAt_inv: "sketch_inv s \<Longrightarrow> sketch_inv (cm_incrementAt s r i)"
  by (cases "r < 4") (auto simp: cm_incrementAt_nat sketch_inv_def Let_def nth_list_update)

lemma cm_getAt_incrementAt:
  assumes s: "sketch_inv s" and r: "r < 4" "q < 4"
    and i: "unat i div 2 < length (cm_rows s ! r)"
  shows "unat (cm_getAt (cm_incrementAt s r i) q j) =
    (if r = q \<and> i = j then min 15 (unat (cm_getAt s q j) + 1) else unat (cm_getAt s q j))"
proof (cases "cm_getAt s r i < 15")
  case False
  then have "unat (cm_getAt s r i) = 15" using cm_getAt_le [of s r i] by (simp add: word_less_nat_alt)
  then show ?thesis using False by (auto simp: cm_incrementAt_nat)
next
  case True
  let ?v = "cm_getAt s r i + 1"
  have v: "unat ?v = unat (cm_getAt s r i) + 1" "?v \<le> 15"
    using True by (auto simp: word_less_nat_alt word_le_nat_alt unat_word_ariths)
  have len: "r < length (cm_rows s)" using s r by (simp add: sketch_inv_def)
  have eq: "i = j \<longleftrightarrow> unat i div 2 = unat j div 2 \<and> (even (unat i) \<longleftrightarrow> even (unat j))"
    by (metis word_unat_eq_iff bit_eq_rec)
  show ?thesis
  proof (cases "r = q \<and> unat i div 2 = unat j div 2")
    case False
    then have "cm_getAt (cm_incrementAt s r i) q j = cm_getAt s q j"
      using True len by (auto simp: cm_incrementAt_nat cm_getAt_nat Let_def nth_list_update)
    then show ?thesis using False by auto
  next
    case same: True
    show ?thesis
    proof (cases "even (unat i) = even (unat j)")
      case True
      then have "cm_getAt (cm_incrementAt s r i) q j = ?v"
        using \<open>cm_getAt s r i < 15\<close> same len i v(2) store_low(1) store_high(1)
        by (simp add: cm_incrementAt_nat cm_getAt_nat [of _ q j] Let_def)
      then show ?thesis using v same True eq \<open>cm_getAt s r i < 15\<close>
        by (auto simp: word_less_nat_alt)
    next
      case False
      then have "cm_getAt (cm_incrementAt s r i) q j = cm_getAt s q j"
        using \<open>cm_getAt s r i < 15\<close> same len i store_low(2) [OF v(2)] store_high(2) [OF v(2)]
        by (auto simp: cm_incrementAt_nat cm_getAt_nat [of _ q j] Let_def)
      then show ?thesis using False by auto
    qed
  qed
qed

subsection \<open>The sketch meets the contract\<close>

lemma cm_Reset_frame [simp]:
  "cm_seeds (cm_Reset s) = cm_seeds s" "cm_width (cm_Reset s) = cm_width s" "cm_index (cm_Reset s) = cm_index s"
  by (auto simp: cm_Reset_def cm_index_def fun_eq_iff)

lemma cm_Clear_frame [simp]:
  "cm_seeds (cm_Clear s) = cm_seeds s" "cm_width (cm_Clear s) = cm_width s" "cm_index (cm_Clear s) = cm_index s"
  by (auto simp: cm_Clear_def cm_index_def fun_eq_iff)

lemma cm_getAt_Reset:
  assumes "sketch_inv s" "r < 4" "unat i div 2 < length (cm_rows s ! r)"
  shows "unat (cm_getAt (cm_Reset s) r i) = unat (cm_getAt s r i) div 2"
  using assms
  by (simp add: cm_getAt_nat cm_Reset_def sketch_inv_def halveByte_nibbles)

lemma cm_getAt_Clear:
  assumes "sketch_inv s" "r < 4" "unat i div 2 < length (cm_rows s ! r)"
  shows "unat (cm_getAt (cm_Clear s) r i) = 0"
  using assms by (simp add: cm_getAt_nat cm_Clear_def sketch_inv_def)

lemma cm_Reset_inv: "sketch_inv s \<Longrightarrow> sketch_inv (cm_Reset s)"
  by (simp add: sketch_inv_def cm_Reset_def)

lemma cm_Clear_inv: "sketch_inv s \<Longrightarrow> sketch_inv (cm_Clear s)"
  by (simp add: sketch_inv_def cm_Clear_def)

interpretation cms: counter_rows "\<lambda>s r i. unat (cm_getAt s r i)" cm_incrementAt cm_index cm_Increment cm_Estimate
  cm_Reset cm_Clear sketch_inv 15
proof unfold_locales
  fix s h g and r q :: nat
  assume s: "sketch_inv s" and r: "r < 4"
  show "unat (cm_getAt (cm_Reset s) r (cm_index s h r)) = unat (cm_getAt s r (cm_index s h r)) div 2"
    by (rule cm_getAt_Reset [OF s r cm_index_byte [OF s r]])
  show "unat (cm_getAt (cm_Clear s) r (cm_index s h r)) = 0"
    by (rule cm_getAt_Clear [OF s r cm_index_byte [OF s r]])
  show "sketch_inv (cm_incrementAt s r (cm_index s h r))" by (rule cm_incrementAt_inv [OF s])
  assume q: "q < 4"
  show "unat (cm_getAt (cm_incrementAt s r (cm_index s h r)) q (cm_index s g q)) =
      (if r = q \<and> cm_index s h r = cm_index s g q then min 15 (unat (cm_getAt s q (cm_index s g q)) + 1)
       else unat (cm_getAt s q (cm_index s g q)))"
    by (rule cm_getAt_incrementAt [OF s r q cm_index_byte [OF s r]])
next
  fix s h
  show "cm_Estimate s h = foldl (\<lambda>m r. let v = int (unat (cm_getAt s r (cm_index s h r)))
      in if v < m then v else m) (int 15) [0..<4]"
    by (simp add: cm_Estimate_def cmDepth_def)
qed (auto simp: cm_getAt_le cm_Increment_def cmDepth_def cm_Reset_inv cm_Clear_inv)

lemma newCMSketch_inv:
  assumes "w0 \<le> 2 ^ 62" "length rand \<ge> 4"
  shows "\<exists>s. newCMSketch w0 rand = Some s \<and> sketch_inv s \<and> (\<forall>h. cm_Estimate s h = 0)"
proof -
  let ?w = "if w0 \<le> 0 then cmWidth else w0"
  have "?w \<le> 2 ^ 62" using assms(1) by (simp add: cmWidth_def)
  then obtain k where k: "k \<le> 62" "double_until 1 ?w = Some (2 ^ k)"
    using double_until_pow [of 62 ?w 0] by auto
  let ?s = "\<lparr>cm_rows = replicate cmDepth (replicate (nat ((2 ^ k + 1) div 2)) 0),
                 cm_seeds = take cmDepth rand, cm_width = word_of_int (2 ^ k)\<rparr>"
  have u: "unat (2 ^ k :: u64) = 2 ^ k" using k(1) by (intro unat_pow2) simp
  have pos: "0 < (2 ^ k :: u64)" using u by (metis word_gt_0 unat_0 power_not_zero zero_neq_numeral)
  have n: "nat ((2 ^ k + 1) div 2) = (2 ^ k + 1) div 2" by (simp add: nat_div_distrib nat_power_eq nat_add_distrib)
  have inv: "sketch_inv ?s" using assms(2) pos u n
    by (simp add: sketch_inv_def cmDepth_def nth_replicate)
  have clear: "cm_Clear ?s = ?s" by (simp add: cm_Clear_def)
  have "cm_Estimate ?s h = 0" for h using cms.estimate_clear [OF inv] clear by simp
  then show ?thesis using k(2) inv by (auto simp: newCMSketch_def Let_def)
qed

end
