(* ===== verification/SketchLockFree.thy ===== *)
theory SketchLockFree
  imports Sketch
begin

text \<open>
  \<open>internal/policy/sketch_lockfree.go\<close>: the Count-Min sketch of \<open>TinyLFULockFree\<close>, four rows
  of 8-bit counters, four to an atomic 32-bit word. A counter update is a compare-and-swap loop;
  its effect on memory is that of the swap that succeeds, an atomic read-modify-write of one
  word, which is what the definitions below compute. The column is chosen by the same mixing
  function as in \<open>sketch.go\<close>.
\<close>

record cmSketchLockFree =
  lf_rows :: "u32 list list"
  lf_seeds :: "u64 list"
  lf_width :: u64

definition cmDepthLockFree :: nat where "cmDepthLockFree = 4"
definition cmWidthLockFree :: int where "cmWidthLockFree = 2 ^ 20"

definition newCMSketchLockFree :: "int \<Rightarrow> u64 list \<Rightarrow> cmSketchLockFree option" where
  "newCMSketchLockFree width0 rand =
     (let width1 = (if width0 \<le> 0 then cmWidthLockFree else width0)
      in map_option
           (\<lambda>w. \<lparr>lf_rows = replicate cmDepthLockFree (replicate (nat ((w + 3) div 4)) 0),
                 lf_seeds = take cmDepthLockFree rand, lf_width = word_of_int w\<rparr>)
           (double_until 1 width1))"

definition lf_index :: "cmSketchLockFree \<Rightarrow> u64 \<Rightarrow> nat \<Rightarrow> u64" where
  "lf_index s keyHash row = mix (keyHash XOR lf_seeds s ! row) AND (lf_width s - 1)"

definition lf_getAt :: "cmSketchLockFree \<Rightarrow> nat \<Rightarrow> u64 \<Rightarrow> byte" where
  "lf_getAt s row idx =
     (let wordIdx = unat (idx div 4); bytePos = unat ((idx mod 4) * 8);
          word = lf_rows s ! row ! wordIdx
      in ucast (drop_bit bytePos word AND 0xFF))"

definition lf_incrementAt :: "cmSketchLockFree \<Rightarrow> nat \<Rightarrow> u64 \<Rightarrow> cmSketchLockFree" where
  "lf_incrementAt s row idx =
     (let wordIdx = unat (idx div 4); bytePos = unat ((idx mod 4) * 8);
          old = lf_rows s ! row ! wordIdx;
          val = (ucast (drop_bit bytePos old AND 0xFF) :: byte)
      in if val \<ge> 255 then s
         else let newVal = (old AND NOT (push_bit bytePos 0xFF)) OR push_bit bytePos (ucast (val + 1))
              in s\<lparr>lf_rows := (lf_rows s)[row := (lf_rows s ! row)[wordIdx := newVal]]\<rparr>)"

definition lf_Increment :: "cmSketchLockFree \<Rightarrow> u64 \<Rightarrow> cmSketchLockFree" where
  "lf_Increment s keyHash =
     foldl (\<lambda>s i. lf_incrementAt s i (lf_index s keyHash i)) s [0..<cmDepthLockFree]"

definition lf_Estimate :: "cmSketchLockFree \<Rightarrow> u64 \<Rightarrow> int" where
  "lf_Estimate s keyHash =
     foldl (\<lambda>min i. let val = uint (lf_getAt s i (lf_index s keyHash i))
                    in if val < min then val else min)
       255 [0..<cmDepthLockFree]"

definition halveWord :: "u32 \<Rightarrow> u32" where
  "halveWord old =
     (let b0 = drop_bit 1 (drop_bit 0 old AND 0xFF);
          b1 = drop_bit 1 (drop_bit 8 old AND 0xFF);
          b2 = drop_bit 1 (drop_bit 16 old AND 0xFF);
          b3 = drop_bit 1 (drop_bit 24 old AND 0xFF)
      in b0 OR push_bit 8 b1 OR push_bit 16 b2 OR push_bit 24 b3)"

definition lf_Reset :: "cmSketchLockFree \<Rightarrow> cmSketchLockFree" where
  "lf_Reset s = s\<lparr>lf_rows := map (map halveWord) (lf_rows s)\<rparr>"

definition lf_Clear :: "cmSketchLockFree \<Rightarrow> cmSketchLockFree" where
  "lf_Clear s = s\<lparr>lf_rows := map (map (\<lambda>_. 0)) (lf_rows s)\<rparr>"

definition lf_IncrementBatch :: "cmSketchLockFree \<Rightarrow> u64 list \<Rightarrow> cmSketchLockFree" where
  "lf_IncrementBatch s keyHashes = foldl lf_Increment s keyHashes"

definition lf_EstimateBatch :: "cmSketchLockFree \<Rightarrow> u64 list \<Rightarrow> int list \<Rightarrow> int list" where
  "lf_EstimateBatch s keyHashes results =
     foldl (\<lambda>res (i, keyHash). if i < length res then res[i := lf_Estimate s keyHash] else res)
       results (enumerate 0 keyHashes)"

definition lf_sketch_inv :: "cmSketchLockFree \<Rightarrow> bool" where
  "lf_sketch_inv s \<longleftrightarrow> 0 < lf_width s \<and> length (lf_rows s) = 4 \<and> length (lf_seeds s) = 4 \<and>
     (\<forall>r<4. length (lf_rows s ! r) = (unat (lf_width s) + 3) div 4)"

subsection \<open>Bytes of a word\<close>

definition get_byte :: "nat \<Rightarrow> u32 \<Rightarrow> byte" where
  "get_byte p w = ucast (drop_bit (8 * p) w AND 0xFF)"

definition put_byte :: "nat \<Rightarrow> byte \<Rightarrow> u32 \<Rightarrow> u32" where
  "put_byte p v w = (w AND NOT (push_bit (8 * p) 0xFF)) OR push_bit (8 * p) (ucast v)"

lemma mask_255: "(255 :: u32) = mask 8"
  by (simp add: mask_eq_exp_minus_1)

lemma bit_get_byte: "p < 4 \<Longrightarrow> bit (get_byte p w) n \<longleftrightarrow> n < 8 \<and> bit w (8 * p + n)"
  by (auto simp: get_byte_def bit_simps mask_255)

lemma bit_put_byte:
  "p < 4 \<Longrightarrow> m < 32 \<Longrightarrow> bit (put_byte p v w) m \<longleftrightarrow>
     (if 8 * p \<le> m \<and> m < 8 * p + 8 then bit v (m - 8 * p) else bit w m)"
  by (auto simp: put_byte_def bit_simps mask_255 dest: bit_imp_le_length)

lemma get_put_byte:
  assumes "p < 4" "q < 4"
  shows "get_byte q (put_byte p v w) = (if p = q then v else get_byte q w)"
proof (rule bit_word_eqI)
  fix n assume n: "n < LENGTH(8)"
  have m: "8 * q + n < 32" using assms n by simp
  have "8 * p \<le> 8 * q + n \<and> 8 * q + n < 8 * p + 8 \<longleftrightarrow> p = q" using n by auto
  then show "bit (get_byte q (put_byte p v w)) n = bit (if p = q then v else get_byte q w) n"
    using n by (simp add: bit_get_byte [OF assms(2)] bit_put_byte [OF assms(1) m])
qed

lemma get_byte_halve:
  assumes "p < 4"
  shows "get_byte p (halveWord w) = drop_bit 1 (get_byte p w)"
proof (rule bit_word_eqI)
  fix n assume n: "n < LENGTH(8)"
  have "p = 0 \<or> p = 1 \<or> p = 2 \<or> p = 3" using assms by auto
  then show "bit (get_byte p (halveWord w)) n = bit (drop_bit 1 (get_byte p w)) n"
    using n by (elim disjE) (auto simp: bit_get_byte halveWord_def Let_def bit_simps mask_255)
qed

lemma get_byte_0 [simp]: "get_byte p 0 = 0"
  by (simp add: get_byte_def)

subsection \<open>Columns\<close>

lemma wordIdx: "unat (i div 4 :: u64) = unat i div 4" "unat ((i mod 4) * 8 :: u64) = 8 * (unat i mod 4)"
  by (simp_all add: unat_div_distrib unat_mod_distrib unat_word_ariths)

lemma lf_index_less: "lf_sketch_inv s \<Longrightarrow> lf_index s h r < lf_width s"
  unfolding lf_index_def by (rule and_pred_less) (simp add: lf_sketch_inv_def)

lemma lf_index_word [bounds]:
  assumes "lf_sketch_inv s" "r < 4"
  shows "unat (lf_index s h r) div 4 < length (lf_rows s ! r)"
  using lf_index_less [OF assms(1), of h r] assms by (simp add: lf_sketch_inv_def word_less_nat_alt)

lemma lf_getAt_byte: "lf_getAt s r i = get_byte (unat i mod 4) (lf_rows s ! r ! (unat i div 4))"
  by (simp add: lf_getAt_def Let_def wordIdx get_byte_def)

lemma lf_getAt_le: "unat (lf_getAt s r i) \<le> 255"
proof -
  have "unat (lf_getAt s r i) < 2 ^ 8" using unsigned_less [of "lf_getAt s r i"] by simp
  then show ?thesis by simp
qed

lemma lf_incrementAt_byte:
  "lf_incrementAt s r i =
     (if lf_getAt s r i < 255
      then s\<lparr>lf_rows := (lf_rows s)[r := (lf_rows s ! r)[unat i div 4 :=
             put_byte (unat i mod 4) (lf_getAt s r i + 1) (lf_rows s ! r ! (unat i div 4))]]\<rparr>
      else s)"
  by (simp add: lf_incrementAt_def lf_getAt_def Let_def wordIdx put_byte_def linorder_not_le)

lemma lf_incrementAt_frame [simp]:
  "lf_seeds (lf_incrementAt s r i) = lf_seeds s" "lf_width (lf_incrementAt s r i) = lf_width s"
  "lf_index (lf_incrementAt s r i) = lf_index s"
  by (auto simp: lf_incrementAt_def Let_def lf_index_def fun_eq_iff)

lemma lf_incrementAt_inv: "lf_sketch_inv s \<Longrightarrow> lf_sketch_inv (lf_incrementAt s r i)"
  by (cases "r < 4") (auto simp: lf_incrementAt_byte lf_sketch_inv_def Let_def nth_list_update)

lemma lf_getAt_incrementAt:
  assumes s: "lf_sketch_inv s" and r: "r < 4" "q < 4"
    and i: "unat i div 4 < length (lf_rows s ! r)"
  shows "unat (lf_getAt (lf_incrementAt s r i) q j) =
    (if r = q \<and> i = j then min 255 (unat (lf_getAt s q j) + 1) else unat (lf_getAt s q j))"
proof (cases "lf_getAt s r i < 255")
  case False
  then have "unat (lf_getAt s r i) = 255"
    using lf_getAt_le [of s r i] by (simp add: word_less_nat_alt)
  then show ?thesis using False by (auto simp: lf_incrementAt_byte)
next
  case True
  have v: "unat (lf_getAt s r i + 1) = unat (lf_getAt s r i) + 1" "unat (lf_getAt s r i) < 255"
    using True by (auto simp: word_less_nat_alt unat_word_ariths)
  have len: "r < length (lf_rows s)" using s r by (simp add: lf_sketch_inv_def)
  have eq: "i = j \<longleftrightarrow> unat i div 4 = unat j div 4 \<and> unat i mod 4 = unat j mod 4"
    by (metis word_unat_eq_iff div_mult_mod_eq)
  show ?thesis
    using True len i v r eq
    by (auto simp: lf_incrementAt_byte lf_getAt_byte [of _ q j] nth_list_update get_put_byte)
qed

subsection \<open>The sketch meets the contract\<close>

lemma lf_Reset_frame [simp]: "lf_index (lf_Reset s) = lf_index s"
  by (auto simp: lf_Reset_def lf_index_def fun_eq_iff)

lemma lf_Clear_frame [simp]: "lf_index (lf_Clear s) = lf_index s"
  by (auto simp: lf_Clear_def lf_index_def fun_eq_iff)

lemma lf_getAt_Reset:
  assumes "lf_sketch_inv s" "r < 4" "unat i div 4 < length (lf_rows s ! r)"
  shows "unat (lf_getAt (lf_Reset s) r i) = unat (lf_getAt s r i) div 2"
proof -
  have "lf_getAt (lf_Reset s) r i = drop_bit 1 (lf_getAt s r i)"
    using assms by (simp add: lf_getAt_byte lf_Reset_def lf_sketch_inv_def get_byte_halve)
  then show ?thesis by (simp only: unat_drop_bit_eq drop_bit_eq_div) (simp add: unat_div_distrib)
qed

lemma lf_getAt_Clear:
  assumes "lf_sketch_inv s" "r < 4" "unat i div 4 < length (lf_rows s ! r)"
  shows "unat (lf_getAt (lf_Clear s) r i) = 0"
  using assms by (simp add: lf_getAt_byte lf_Clear_def lf_sketch_inv_def)

lemma lf_Reset_inv: "lf_sketch_inv s \<Longrightarrow> lf_sketch_inv (lf_Reset s)"
  by (simp add: lf_sketch_inv_def lf_Reset_def)

lemma lf_Clear_inv: "lf_sketch_inv s \<Longrightarrow> lf_sketch_inv (lf_Clear s)"
  by (simp add: lf_sketch_inv_def lf_Clear_def)

interpretation lfs: counter_rows "\<lambda>s r i. unat (lf_getAt s r i)" lf_incrementAt lf_index
  lf_Increment lf_Estimate lf_Reset lf_Clear lf_sketch_inv 255
proof unfold_locales
  fix s h g and r q :: nat
  assume s: "lf_sketch_inv s" and r: "r < 4"
  show "unat (lf_getAt (lf_Reset s) r (lf_index s h r)) = unat (lf_getAt s r (lf_index s h r)) div 2"
    by (rule lf_getAt_Reset [OF s r lf_index_word [OF s r]])
  show "unat (lf_getAt (lf_Clear s) r (lf_index s h r)) = 0"
    by (rule lf_getAt_Clear [OF s r lf_index_word [OF s r]])
  show "lf_sketch_inv (lf_incrementAt s r (lf_index s h r))" by (rule lf_incrementAt_inv [OF s])
  assume q: "q < 4"
  show "unat (lf_getAt (lf_incrementAt s r (lf_index s h r)) q (lf_index s g q)) =
      (if r = q \<and> lf_index s h r = lf_index s g q
       then min 255 (unat (lf_getAt s q (lf_index s g q)) + 1)
       else unat (lf_getAt s q (lf_index s g q)))"
    by (rule lf_getAt_incrementAt [OF s r q lf_index_word [OF s r]])
next
  fix s h
  show "lf_Estimate s h = foldl (\<lambda>m r. let v = int (unat (lf_getAt s r (lf_index s h r)))
      in if v < m then v else m) (int 255) [0..<4]"
    by (simp add: lf_Estimate_def cmDepthLockFree_def)
qed (auto simp: lf_getAt_le lf_Increment_def cmDepthLockFree_def lf_Reset_inv lf_Clear_inv)

lemma newCMSketchLockFree_inv:
  assumes "w0 \<le> 2 ^ 62" "length rand \<ge> 4"
  shows "\<exists>s. newCMSketchLockFree w0 rand = Some s \<and> lf_sketch_inv s \<and> (\<forall>h. lf_Estimate s h = 0)"
proof -
  let ?w = "if w0 \<le> 0 then cmWidthLockFree else w0"
  have "?w \<le> 2 ^ 62" using assms(1) by (simp add: cmWidthLockFree_def)
  then obtain k where k: "k \<le> 62" "double_until 1 ?w = Some (2 ^ k)"
    using double_until_pow [of 62 ?w 0] by auto
  let ?s = "\<lparr>lf_rows = replicate cmDepthLockFree (replicate (nat ((2 ^ k + 3) div 4)) 0),
                 lf_seeds = take cmDepthLockFree rand, lf_width = word_of_int (2 ^ k)\<rparr>"
  have u: "unat (2 ^ k :: u64) = 2 ^ k" using k(1) by (intro unat_pow2) simp
  have pos: "0 < (2 ^ k :: u64)" using u by (metis word_gt_0 unat_0 power_not_zero zero_neq_numeral)
  have n: "nat ((2 ^ k + 3) div 4) = (2 ^ k + 3) div 4"
    by (simp add: nat_div_distrib nat_power_eq nat_add_distrib)
  have inv: "lf_sketch_inv ?s" using assms(2) pos u n
    by (simp add: lf_sketch_inv_def cmDepthLockFree_def nth_replicate)
  have clear: "lf_Clear ?s = ?s" by (simp add: lf_Clear_def)
  have "lf_Estimate ?s h = 0" for h using lfs.estimate_clear [OF inv] clear by simp
  then show ?thesis using k(2) inv by (auto simp: newCMSketchLockFree_def Let_def)
qed

end
