(* ===== verification/Bloom.thy ===== *)
theory Bloom
  imports Doorkeeper
begin

text \<open>
  The doorkeepers of the two admission policies: \<open>internal/policy/bloom.go\<close> and
  \<open>internal/policy/bloom_lockfree.go\<close>. Both keep their bits in 64-bit words. In the lock-free
  filter a bit is set by a compare-and-swap loop, whose effect is the disjunction written by the
  successful swap. The size computations of the constructors go through \<open>float64\<close>: the product
  \<open>float64(n) * 10\<close> is exact for the counts in use (below \<open>2 ^ 49\<close>) and is written as an integer
  product; the logarithmic formula of the lock-free filter is an argument (\<open>optBits\<close>,
  \<open>optHash\<close>), with the code's clamps applied to its result.
\<close>

subsection \<open>Bits in a slice of words\<close>

definition testBit :: "u64 list \<Rightarrow> nat \<Rightarrow> bool" where
  "testBit bs p = (let wordIdx = p div 64; mask = push_bit (p mod 64) 1
                   in bs ! wordIdx AND mask \<noteq> 0)"

definition orBit :: "u64 list \<Rightarrow> nat \<Rightarrow> u64 list" where
  "orBit bs p = (let wordIdx = p div 64; mask = push_bit (p mod 64) 1
                 in bs[wordIdx := bs ! wordIdx OR mask])"

lemma testBit_bit: "testBit bs p \<longleftrightarrow> bit (bs ! (p div 64)) (p mod 64)"
  by (simp add: testBit_def Let_def bit_iff_and_push_bit_not_eq_0)

lemma testBit_orBit:
  assumes "p div 64 < length bs"
  shows "testBit (orBit bs p) q \<longleftrightarrow> p = q \<or> testBit bs q"
proof -
  have "p = q \<longleftrightarrow> p div 64 = q div 64 \<and> p mod 64 = q mod 64" by (metis div_mult_mod_eq)
  then show ?thesis using assms
    by (cases "p div 64 = q div 64") (auto simp: testBit_bit orBit_def Let_def bit_simps)
qed

lemma length_orBit [simp]: "length (orBit bs p) = length bs"
  by (simp add: orBit_def Let_def)

lemma testBit_clear: "p div 64 < length bs \<Longrightarrow> \<not> testBit (map (\<lambda>_. 0) bs) p"
  by (simp add: testBit_bit)

text \<open>Rounding up to a multiple of 64, as both constructors do.\<close>

lemma round64:
  fixes m :: u64
  assumes "64 \<le> m" "m < 2 ^ 60"
  shows "0 < (m + 63) div 64 * 64 \<and>
    unat ((m + 63) div 64 * 64) = 64 * unat ((m + 63) div 64 * 64 div 64)"
proof -
  have m: "64 \<le> unat m" "unat m < 2 ^ 60" using assms by (simp_all add: word_le_nat_alt word_less_nat_alt)
  have "unat (m + 63) = unat m + 63" using m by (simp add: unat_word_ariths)
  then have y: "unat ((m + 63) div 64) = (unat m + 63) div 64" by (simp add: unat_div_distrib)
  have "(unat m + 63) div 64 * 64 \<le> unat m + 63" by (rule div_times_less_eq_dividend)
  then have z: "unat ((m + 63) div 64 * 64) = (unat m + 63) div 64 * 64"
    using y m by (simp add: unat_word_ariths)
  have "0 < unat ((m + 63) div 64 * 64)" unfolding z using m(1) by (simp add: div_greater_zero_iff)
  then have "0 < (m + 63) div 64 * 64" by (simp only: word_less_nat_alt unat_0)
  then show ?thesis using z by (simp add: unat_div_distrib)
qed

lemma clamp64: "m < 2 ^ 60 \<Longrightarrow> 64 \<le> (if m < 64 then 64 else m :: u64)"
  "m < 2 ^ 60 \<Longrightarrow> (if m < 64 then 64 else m :: u64) < 2 ^ 60"
  by (auto simp: linorder_not_less)

subsection \<open>bloomFilter\<close>

record bloomFilter =
  bf_bits :: "u64 list"
  bf_numBits :: u64
  bf_numHash :: nat

text \<open>The false-positive rate is only range-checked by this constructor and otherwise unused.\<close>

definition newBloomFilter :: "int \<Rightarrow> bloomFilter" where
  "newBloomFilter n0 =
     (let n = (if n0 \<le> 0 then 10000 else n0);
          numBits = (word_of_int (n * 10) :: u64);
          numBits = (if numBits < 64 then 64 else numBits);
          numBits = ((numBits + 63) div 64) * 64
      in \<lparr>bf_bits = replicate (unat (numBits div 64)) 0, bf_numBits = numBits, bf_numHash = 7\<rparr>)"

definition bf_index :: "bloomFilter \<Rightarrow> u64 \<Rightarrow> nat \<Rightarrow> u64" where
  "bf_index bf keyHash i =
     (let h1 = keyHash;
          h2 = drop_bit 32 keyHash OR push_bit 32 keyHash;
          h = h1 + of_nat i * h2
      in h mod bf_numBits bf)"

definition bf_Add :: "bloomFilter \<Rightarrow> u64 \<Rightarrow> bloomFilter \<times> bool" where
  "bf_Add bf keyHash =
     foldl (\<lambda>(bf, alreadyPresent) i.
       let idx = unat (bf_index bf keyHash i)
       in if testBit (bf_bits bf) idx then (bf, alreadyPresent)
          else (bf\<lparr>bf_bits := orBit (bf_bits bf) idx\<rparr>, False))
     (bf, True) [0..<bf_numHash bf]"

definition bf_Contains :: "bloomFilter \<Rightarrow> u64 \<Rightarrow> bool" where
  "bf_Contains bf keyHash =
     list_all (\<lambda>i. testBit (bf_bits bf) (unat (bf_index bf keyHash i))) [0..<bf_numHash bf]"

definition bf_Reset :: "bloomFilter \<Rightarrow> bloomFilter" where
  "bf_Reset bf = bf\<lparr>bf_bits := map (\<lambda>_. 0) (bf_bits bf)\<rparr>"

definition bf_inv :: "bloomFilter \<Rightarrow> bool" where
  "bf_inv bf \<longleftrightarrow> 0 < bf_numBits bf \<and> unat (bf_numBits bf) = 64 * length (bf_bits bf) \<and> 0 < bf_numHash bf"

definition bf_probes :: "bloomFilter \<Rightarrow> u64 \<Rightarrow> nat list" where
  "bf_probes bf h = map (\<lambda>i. unat (bf_index bf h i)) [0..<bf_numHash bf]"

lemma bf_index_bound [bounds]: "bf_inv bf \<Longrightarrow> unat (bf_index bf h i) div 64 < length (bf_bits bf)"
  using unat_mod_bound [of "bf_numBits bf"]
  by (auto simp: bf_inv_def bf_index_def Let_def less_mult_imp_div_less mult.commute)

lemma bf_frame [simp]:
  "bf_index (bf\<lparr>bf_bits := b\<rparr>) = bf_index bf" "bf_probes (bf\<lparr>bf_bits := b\<rparr>) = bf_probes bf"
  "length b = length (bf_bits bf) \<Longrightarrow> bf_inv (bf\<lparr>bf_bits := b\<rparr>) = bf_inv bf"
  by (auto simp: bf_index_def bf_probes_def bf_inv_def fun_eq_iff)

lemma bf_probes_bound: "bf_inv bf \<Longrightarrow> p \<in> set (bf_probes bf h) \<Longrightarrow> p div 64 < length (bf_bits bf)"
  by (auto simp: bf_probes_def bf_index_bound)

lemma bf_fold_probes:
  "foldl (\<lambda>(bf, alreadyPresent) i.
       let idx = unat (bf_index bf h i)
       in if testBit (bf_bits bf) idx then (bf, alreadyPresent)
          else (bf\<lparr>bf_bits := orBit (bf_bits bf) idx\<rparr>, False)) (bf', a) is =
   foldl (\<lambda>(d, alreadyPresent) p. if testBit (bf_bits d) p then (d, alreadyPresent)
          else (d\<lparr>bf_bits := orBit (bf_bits d) p\<rparr>, False)) (bf', a) (map (\<lambda>i. unat (bf_index bf h i)) is)"
  if "bf_numBits bf' = bf_numBits bf"
  using that
proof (induction "is" arbitrary: bf' a)
  case (Cons i "is")
  then have "bf_index bf' h i = bf_index bf h i" by (simp add: bf_index_def)
  then show ?case using Cons by (simp add: Let_def)
qed simp

interpretation bf: bit_filter "\<lambda>bf. testBit (bf_bits bf)" "\<lambda>bf p. bf\<lparr>bf_bits := orBit (bf_bits bf) p\<rparr>"
  bf_probes bf_Add bf_Contains bf_Reset bf_inv "\<lambda>bf p. p div 64 < length (bf_bits bf)"
proof unfold_locales
  fix d h
  show "bf_Add d h = add_loop (\<lambda>bf. testBit (bf_bits bf))
      (\<lambda>bf p. bf\<lparr>bf_bits := orBit (bf_bits bf) p\<rparr>) d (bf_probes d h)"
    by (simp add: bf_Add_def add_loop_def bf_fold_probes bf_probes_def)
next
  show "bf_inv d \<Longrightarrow> bf_probes d h \<noteq> []" for d h by (simp add: bf_probes_def bf_inv_def)
  show "bf_Contains d h \<longleftrightarrow> (\<forall>p\<in>set (bf_probes d h). testBit (bf_bits d) p)" for d h
    by (simp add: bf_Contains_def list_all_iff bf_probes_def)
qed (auto simp: testBit_orBit bf_probes_bound bf_Reset_def testBit_clear)

lemma newBloomFilter_inv:
  assumes "n < 2 ^ 49"
  shows "bf_inv (newBloomFilter n) \<and> bf_numHash (newBloomFilter n) = 7"
proof -
  let ?n = "if n \<le> 0 then 10000 else n"
  let ?m = "word_of_int (?n * 10) :: u64"
  have "uint ?m = ?n * 10" using assms by (intro uint_u64) auto
  then have "?m < 2 ^ 60" using assms by (simp add: word_less_def)
  from round64 [OF clamp64 [OF this]] show ?thesis
    unfolding newBloomFilter_def bf_inv_def Let_def by simp
qed

subsection \<open>bloomFilterLockFree\<close>

record bloomFilterLockFree =
  bl_bits :: "u64 list"
  bl_numBits :: u64
  bl_numHash :: nat

definition newBloomFilterLockFree :: "(int \<Rightarrow> u64) \<Rightarrow> (u64 \<Rightarrow> int \<Rightarrow> int) \<Rightarrow> int \<Rightarrow> bloomFilterLockFree" where
  "newBloomFilterLockFree optBits optHash n0 =
     (let n = (if n0 \<le> 0 then 10000 else n0);
          numBits = optBits n;
          numBits = (if numBits < 64 then 64 else numBits);
          numBits = ((numBits + 63) div 64) * 64;
          numHash = optHash numBits n;
          numHash = (if numHash < 1 then 1 else numHash);
          numHash = (if numHash > 16 then 16 else numHash)
      in \<lparr>bl_bits = replicate (unat (numBits div 64)) 0, bl_numBits = numBits,
          bl_numHash = nat numHash\<rparr>)"

definition bl_index :: "bloomFilterLockFree \<Rightarrow> u64 \<Rightarrow> nat \<Rightarrow> u64" where
  "bl_index bf keyHash i =
     (let h1 = keyHash;
          h2 = drop_bit 32 keyHash OR push_bit 32 keyHash;
          h = h1 + of_nat i * h2 + of_nat (i * i)
      in h mod bl_numBits bf)"

definition bl_Add :: "bloomFilterLockFree \<Rightarrow> u64 \<Rightarrow> bloomFilterLockFree \<times> bool" where
  "bl_Add bf keyHash =
     foldl (\<lambda>(bf, alreadyPresent) i.
       let idx = unat (bl_index bf keyHash i)
       in if testBit (bl_bits bf) idx then (bf, alreadyPresent)
          else (bf\<lparr>bl_bits := orBit (bl_bits bf) idx\<rparr>, False))
     (bf, True) [0..<bl_numHash bf]"

definition bl_Contains :: "bloomFilterLockFree \<Rightarrow> u64 \<Rightarrow> bool" where
  "bl_Contains bf keyHash =
     list_all (\<lambda>i. testBit (bl_bits bf) (unat (bl_index bf keyHash i))) [0..<bl_numHash bf]"

definition bl_Reset :: "bloomFilterLockFree \<Rightarrow> bloomFilterLockFree" where
  "bl_Reset bf = bf\<lparr>bl_bits := map (\<lambda>_. 0) (bl_bits bf)\<rparr>"

definition bl_AddBatch :: "bloomFilterLockFree \<Rightarrow> u64 list \<Rightarrow> bloomFilterLockFree \<times> nat" where
  "bl_AddBatch bf keyHashes =
     foldl (\<lambda>(bf, alreadyPresent) keyHash.
       let (bf', present) = bl_Add bf keyHash
       in (bf', if present then Suc alreadyPresent else alreadyPresent)) (bf, 0) keyHashes"

definition bl_ContainsBatch :: "bloomFilterLockFree \<Rightarrow> u64 list \<Rightarrow> bool list \<Rightarrow> bool list" where
  "bl_ContainsBatch bf keyHashes results =
     foldl (\<lambda>res (i, keyHash). if i < length res then res[i := bl_Contains bf keyHash] else res)
       results (enumerate 0 keyHashes)"

definition bl_inv :: "bloomFilterLockFree \<Rightarrow> bool" where
  "bl_inv bf \<longleftrightarrow> 0 < bl_numBits bf \<and> unat (bl_numBits bf) = 64 * length (bl_bits bf) \<and> 0 < bl_numHash bf"

definition bl_probes :: "bloomFilterLockFree \<Rightarrow> u64 \<Rightarrow> nat list" where
  "bl_probes bf h = map (\<lambda>i. unat (bl_index bf h i)) [0..<bl_numHash bf]"

lemma bl_index_bound [bounds]: "bl_inv bf \<Longrightarrow> unat (bl_index bf h i) div 64 < length (bl_bits bf)"
  using unat_mod_bound [of "bl_numBits bf"]
  by (auto simp: bl_inv_def bl_index_def Let_def less_mult_imp_div_less mult.commute)

lemma bl_frame [simp]:
  "bl_index (bf\<lparr>bl_bits := b\<rparr>) = bl_index bf" "bl_probes (bf\<lparr>bl_bits := b\<rparr>) = bl_probes bf"
  "length b = length (bl_bits bf) \<Longrightarrow> bl_inv (bf\<lparr>bl_bits := b\<rparr>) = bl_inv bf"
  by (auto simp: bl_index_def bl_probes_def bl_inv_def fun_eq_iff)

lemma bl_probes_bound: "bl_inv bf \<Longrightarrow> p \<in> set (bl_probes bf h) \<Longrightarrow> p div 64 < length (bl_bits bf)"
  by (auto simp: bl_probes_def bl_index_bound)

lemma bl_fold_probes:
  "foldl (\<lambda>(bf, alreadyPresent) i.
       let idx = unat (bl_index bf h i)
       in if testBit (bl_bits bf) idx then (bf, alreadyPresent)
          else (bf\<lparr>bl_bits := orBit (bl_bits bf) idx\<rparr>, False)) (bf', a) is =
   foldl (\<lambda>(d, alreadyPresent) p. if testBit (bl_bits d) p then (d, alreadyPresent)
          else (d\<lparr>bl_bits := orBit (bl_bits d) p\<rparr>, False)) (bf', a) (map (\<lambda>i. unat (bl_index bf h i)) is)"
  if "bl_numBits bf' = bl_numBits bf"
  using that
proof (induction "is" arbitrary: bf' a)
  case (Cons i "is")
  then have "bl_index bf' h i = bl_index bf h i" by (simp add: bl_index_def)
  then show ?case using Cons by (simp add: Let_def)
qed simp

interpretation bl: bit_filter "\<lambda>bf. testBit (bl_bits bf)" "\<lambda>bf p. bf\<lparr>bl_bits := orBit (bl_bits bf) p\<rparr>"
  bl_probes bl_Add bl_Contains bl_Reset bl_inv "\<lambda>bf p. p div 64 < length (bl_bits bf)"
proof unfold_locales
  fix d h
  show "bl_Add d h = add_loop (\<lambda>bf. testBit (bl_bits bf))
      (\<lambda>bf p. bf\<lparr>bl_bits := orBit (bl_bits bf) p\<rparr>) d (bl_probes d h)"
    by (simp add: bl_Add_def add_loop_def bl_fold_probes bl_probes_def)
next
  show "bl_inv d \<Longrightarrow> bl_probes d h \<noteq> []" for d h by (simp add: bl_probes_def bl_inv_def)
  show "bl_Contains d h \<longleftrightarrow> (\<forall>p\<in>set (bl_probes d h). testBit (bl_bits d) p)" for d h
    by (simp add: bl_Contains_def list_all_iff bl_probes_def)
qed (auto simp: testBit_orBit bl_probes_bound bl_Reset_def testBit_clear)

lemma newBloomFilterLockFree_inv:
  assumes "\<And>n. optBits n < 2 ^ 60"
  shows "bl_inv (newBloomFilterLockFree optBits optHash n) \<and>
    bl_numHash (newBloomFilterLockFree optBits optHash n) \<le> 16"
  using round64 [OF clamp64 [OF assms]]
  unfolding newBloomFilterLockFree_def bl_inv_def Let_def by auto

end
