(* ===== verification/TinyLFU.thy ===== *)
theory TinyLFU
  imports Admission SketchLockFree Bloom
begin

text \<open>
  The admission filters: \<open>internal/policy/tinylfu.go\<close> (a mutex around every operation) and
  \<open>internal/policy/tinylfu_lockfree.go\<close> (atomics; an operation is taken at its atomic steps, in
  the order one goroutine performs them). Each pairs a Count-Min sketch with a doorkeeper Bloom
  filter and halves the counts every \<open>resetAt\<close> accesses. Both are interpretations of the
  admission contract.
\<close>

subsection \<open>TinyLFU\<close>

record TinyLFU =
  tl_freq :: cmSketch
  tl_door :: bloomFilter
  tl_incrs :: int
  tl_resetAt :: int

definition NewTinyLFU :: "int \<Rightarrow> u64 list \<Rightarrow> TinyLFU option" where
  "NewTinyLFU numCounters0 rand =
     (let numCounters = (if numCounters0 \<le> 0 then 2 ^ 20 else numCounters0)
      in map_option (\<lambda>freq. \<lparr>tl_freq = freq, tl_door = newBloomFilter (numCounters div 10),
                            tl_incrs = 0, tl_resetAt = numCounters\<rparr>)
           (newCMSketch numCounters rand))"

definition tl_reset :: "TinyLFU \<Rightarrow> TinyLFU" where
  "tl_reset t = t\<lparr>tl_freq := cm_Reset (tl_freq t), tl_door := bf_Reset (tl_door t), tl_incrs := 0\<rparr>"

definition tl_Increment :: "TinyLFU \<Rightarrow> u64 \<Rightarrow> TinyLFU" where
  "tl_Increment t keyHash =
     (let (door, present) = bf_Add (tl_door t) keyHash;
          t = t\<lparr>tl_door := door\<rparr>;
          t = (if present then t\<lparr>tl_freq := cm_Increment (tl_freq t) keyHash\<rparr> else t);
          t = t\<lparr>tl_incrs := i64 (tl_incrs t + 1)\<rparr>
      in if tl_incrs t \<ge> tl_resetAt t then tl_reset t else t)"

definition tl_Estimate :: "TinyLFU \<Rightarrow> u64 \<Rightarrow> int" where
  "tl_Estimate t keyHash =
     (let estimate = cm_Estimate (tl_freq t) keyHash
      in if bf_Contains (tl_door t) keyHash then estimate + 1 else estimate)"

definition tl_Admit :: "TinyLFU \<Rightarrow> u64 \<Rightarrow> u64 \<Rightarrow> bool" where
  "tl_Admit t incomingHash victimHash =
     (let incomingFreq = tl_Estimate t incomingHash; victimFreq = tl_Estimate t victimHash
      in incomingFreq \<ge> victimFreq)"

definition tl_Clear :: "TinyLFU \<Rightarrow> TinyLFU" where
  "tl_Clear t = t\<lparr>tl_freq := cm_Clear (tl_freq t), tl_door := bf_Reset (tl_door t), tl_incrs := 0\<rparr>"

definition tl_inv :: "TinyLFU \<Rightarrow> bool" where
  "tl_inv t \<longleftrightarrow> sketch_inv (tl_freq t) \<and> bf_inv (tl_door t) \<and>
     0 \<le> tl_incrs t \<and> tl_incrs t < tl_resetAt t \<and> tl_resetAt t < 2 ^ 63"

definition tl_ages :: "TinyLFU \<Rightarrow> bool" where
  "tl_ages t \<longleftrightarrow> tl_resetAt t \<le> i64 (tl_incrs t + 1)"

interpretation tld: doorkept_sketch cm_Increment cm_Estimate cm_Reset cm_Clear sketch_inv "int 15"
  bf_Add bf_Contains bf_Reset bf_inv
  by unfold_locales

lemma tl_Estimate_est: "tl_Estimate t h = tld.est (tl_freq t) (tl_door t) h"
  by (simp add: tl_Estimate_def tld.est_def Let_def)

lemma tl_Increment_count:
  "tl_Increment t h =
     (let freq = tld.count (tl_freq t) (tl_door t) h; door = fst (bf_Add (tl_door t) h)
      in if tl_ages t
         then t\<lparr>tl_freq := cm_Reset freq, tl_door := bf_Reset door, tl_incrs := 0\<rparr>
         else t\<lparr>tl_freq := freq, tl_door := door, tl_incrs := i64 (tl_incrs t + 1)\<rparr>)"
  by (simp add: tl_Increment_def tld.count_def tl_ages_def tl_reset_def Let_def split: prod.split)

interpretation tl: admission tl_Increment tl_Estimate tl_Admit tl_Clear tl_ages tl_inv 16
proof unfold_locales
  fix t h g
  show "tl_Admit t h g \<longleftrightarrow> tl_Estimate t g \<le> tl_Estimate t h" by (simp add: tl_Admit_def Let_def)
  assume t: "tl_inv t"
  then have i: "sketch_inv (tl_freq t)" "bf_inv (tl_door t)" by (auto simp: tl_inv_def)
  have n: "i64 (tl_incrs t + 1) = tl_incrs t + 1" using t by (intro i64_id) (auto simp: tl_inv_def)
  show "tl_inv (tl_Increment t h)"
    using t n by (auto simp: tl_Increment_count tl_inv_def tl_ages_def Let_def
        intro: tld.count_inv bf.inv_add bf.inv_reset cms.inv_halve)
  show "tl_inv (tl_Clear t)"
    using t by (auto simp: tl_Clear_def tl_inv_def intro: cms.inv_clear bf.inv_reset)
  show "0 \<le> tl_Estimate t h \<and> tl_Estimate t h \<le> 16"
    using tld.est_range [OF i(1), of "tl_door t" h] by (simp add: tl_Estimate_est)
  show "tl_Estimate (tl_Clear t) h = 0"
    using tld.est_clear [OF i] by (simp add: tl_Estimate_est tl_Clear_def)
  show "\<not> tl_ages t \<Longrightarrow> tl_Estimate (tl_Increment t h) h = min 16 (tl_Estimate t h + 1)"
    using tld.est_same [OF i] by (simp add: tl_Estimate_est tl_Increment_count Let_def)
  show "\<not> tl_ages t \<Longrightarrow> tl_Estimate t g \<le> tl_Estimate (tl_Increment t h) g"
    using tld.est_mono [OF i] by (simp add: tl_Estimate_est tl_Increment_count Let_def)
  show "tl_ages t \<Longrightarrow> tl_Estimate (tl_Increment t h) g \<le> (tl_Estimate t g + 1) div 2"
    using tld.est_aged [OF i] by (simp add: tl_Estimate_est tl_Increment_count Let_def)
qed (simp add: max_int64_def)

lemma NewTinyLFU_inv:
  assumes "n \<le> 2 ^ 52" "4 \<le> length rand"
  shows "\<exists>t. NewTinyLFU n rand = Some t \<and> tl_inv t"
proof -
  let ?n = "if n \<le> 0 then 2 ^ 20 else n"
  have n: "?n \<le> 2 ^ 62" "?n div 10 < 2 ^ 49" "0 < ?n" "?n < 2 ^ 63" using assms(1) by auto
  obtain s where "newCMSketch ?n rand = Some s" "sketch_inv s"
    using newCMSketch_inv [OF n(1) assms(2)] by blast
  then show ?thesis using newBloomFilter_inv [OF n(2)] n(3,4)
    by (auto simp: NewTinyLFU_def tl_inv_def Let_def)
qed

subsection \<open>TinyLFULockFree\<close>

record TinyLFULockFree =
  tf_freq :: cmSketchLockFree
  tf_door :: bloomFilterLockFree
  tf_incrs :: int
  tf_resetAt :: int

definition NewTinyLFULockFree ::
  "(int \<Rightarrow> u64) \<Rightarrow> (u64 \<Rightarrow> int \<Rightarrow> int) \<Rightarrow> int \<Rightarrow> u64 list \<Rightarrow> TinyLFULockFree option" where
  "NewTinyLFULockFree optBits optHash numCounters0 rand =
     (let numCounters = (if numCounters0 \<le> 0 then 2 ^ 20 else numCounters0)
      in map_option
           (\<lambda>freq. \<lparr>tf_freq = freq,
                    tf_door = newBloomFilterLockFree optBits optHash (numCounters div 10),
                    tf_incrs = 0, tf_resetAt = numCounters\<rparr>)
           (newCMSketchLockFree numCounters rand))"

definition tf_reset :: "TinyLFULockFree \<Rightarrow> TinyLFULockFree" where
  "tf_reset t = t\<lparr>tf_freq := lf_Reset (tf_freq t), tf_door := bl_Reset (tf_door t)\<rparr>"

text \<open>The doorkeeper and sketch part of \<open>Increment\<close>, also the loop body of \<open>IncrementBatch\<close>.\<close>

definition tf_count :: "TinyLFULockFree \<Rightarrow> u64 \<Rightarrow> TinyLFULockFree" where
  "tf_count t keyHash =
     (let (door, present) = bl_Add (tf_door t) keyHash;
          t = t\<lparr>tf_door := door\<rparr>
      in if present then t\<lparr>tf_freq := lf_Increment (tf_freq t) keyHash\<rparr> else t)"

text \<open>The compare-and-swap that claims the reset succeeds when no other goroutine intervenes.\<close>

definition tf_advance :: "TinyLFULockFree \<Rightarrow> int \<Rightarrow> TinyLFULockFree" where
  "tf_advance t n =
     (let incrs = i64 (tf_incrs t + n);
          t = t\<lparr>tf_incrs := incrs\<rparr>
      in if incrs \<ge> tf_resetAt t then tf_reset (t\<lparr>tf_incrs := 0\<rparr>) else t)"

definition tf_Increment :: "TinyLFULockFree \<Rightarrow> u64 \<Rightarrow> TinyLFULockFree" where
  "tf_Increment t keyHash = tf_advance (tf_count t keyHash) 1"

definition tf_IncrementBatch :: "TinyLFULockFree \<Rightarrow> u64 list \<Rightarrow> TinyLFULockFree" where
  "tf_IncrementBatch t keyHashes =
     tf_advance (foldl tf_count t keyHashes) (int (length keyHashes))"

definition tf_Estimate :: "TinyLFULockFree \<Rightarrow> u64 \<Rightarrow> int" where
  "tf_Estimate t keyHash =
     (let estimate = lf_Estimate (tf_freq t) keyHash
      in if bl_Contains (tf_door t) keyHash then estimate + 1 else estimate)"

definition tf_EstimateBatch :: "TinyLFULockFree \<Rightarrow> u64 list \<Rightarrow> int list \<Rightarrow> int list" where
  "tf_EstimateBatch t keyHashes results =
     foldl (\<lambda>res (i, keyHash). if i < length res then res[i := tf_Estimate t keyHash] else res)
       results (enumerate 0 keyHashes)"

definition tf_Admit :: "TinyLFULockFree \<Rightarrow> u64 \<Rightarrow> u64 \<Rightarrow> bool" where
  "tf_Admit t incomingHash victimHash =
     (let incomingFreq = tf_Estimate t incomingHash; victimFreq = tf_Estimate t victimHash
      in incomingFreq \<ge> victimFreq)"

definition tf_Clear :: "TinyLFULockFree \<Rightarrow> TinyLFULockFree" where
  "tf_Clear t = t\<lparr>tf_freq := lf_Clear (tf_freq t), tf_door := bl_Reset (tf_door t), tf_incrs := 0\<rparr>"

definition tf_NumIncrements :: "TinyLFULockFree \<Rightarrow> int" where
  "tf_NumIncrements t = tf_incrs t"

definition tf_inv :: "TinyLFULockFree \<Rightarrow> bool" where
  "tf_inv t \<longleftrightarrow> lf_sketch_inv (tf_freq t) \<and> bl_inv (tf_door t) \<and>
     0 \<le> tf_incrs t \<and> tf_incrs t < tf_resetAt t \<and> tf_resetAt t < 2 ^ 62"

definition tf_ages :: "TinyLFULockFree \<Rightarrow> bool" where
  "tf_ages t \<longleftrightarrow> tf_resetAt t \<le> i64 (tf_incrs t + 1)"

interpretation tfd: doorkept_sketch lf_Increment lf_Estimate lf_Reset lf_Clear lf_sketch_inv "int 255"
  bl_Add bl_Contains bl_Reset bl_inv
  by unfold_locales

lemma tf_Estimate_est: "tf_Estimate t h = tfd.est (tf_freq t) (tf_door t) h"
  by (simp add: tf_Estimate_def tfd.est_def Let_def)

lemma tf_count_count:
  "tf_count t h = t\<lparr>tf_freq := tfd.count (tf_freq t) (tf_door t) h, tf_door := fst (bl_Add (tf_door t) h)\<rparr>"
  by (simp add: tf_count_def tfd.count_def Let_def split: prod.split)

lemma tf_Increment_count:
  "tf_Increment t h =
     (let freq = tfd.count (tf_freq t) (tf_door t) h; door = fst (bl_Add (tf_door t) h)
      in if tf_ages t
         then t\<lparr>tf_freq := lf_Reset freq, tf_door := bl_Reset door, tf_incrs := 0\<rparr>
         else t\<lparr>tf_freq := freq, tf_door := door, tf_incrs := i64 (tf_incrs t + 1)\<rparr>)"
  by (simp add: tf_Increment_def tf_count_count tf_advance_def tf_ages_def tf_reset_def Let_def)

interpretation tf: admission tf_Increment tf_Estimate tf_Admit tf_Clear tf_ages tf_inv 256
proof unfold_locales
  fix t h g
  show "tf_Admit t h g \<longleftrightarrow> tf_Estimate t g \<le> tf_Estimate t h" by (simp add: tf_Admit_def Let_def)
  assume t: "tf_inv t"
  then have i: "lf_sketch_inv (tf_freq t)" "bl_inv (tf_door t)" by (auto simp: tf_inv_def)
  have n: "i64 (tf_incrs t + 1) = tf_incrs t + 1" using t by (intro i64_id) (auto simp: tf_inv_def)
  show "tf_inv (tf_Increment t h)"
    using t n by (auto simp: tf_Increment_count tf_inv_def tf_ages_def Let_def
        intro: tfd.count_inv bl.inv_add bl.inv_reset lfs.inv_halve)
  show "tf_inv (tf_Clear t)"
    using t by (auto simp: tf_Clear_def tf_inv_def intro: lfs.inv_clear bl.inv_reset)
  show "0 \<le> tf_Estimate t h \<and> tf_Estimate t h \<le> 256"
    using tfd.est_range [OF i(1), of "tf_door t" h] by (simp add: tf_Estimate_est)
  show "tf_Estimate (tf_Clear t) h = 0"
    using tfd.est_clear [OF i] by (simp add: tf_Estimate_est tf_Clear_def)
  show "\<not> tf_ages t \<Longrightarrow> tf_Estimate (tf_Increment t h) h = min 256 (tf_Estimate t h + 1)"
    using tfd.est_same [OF i] by (simp add: tf_Estimate_est tf_Increment_count Let_def)
  show "\<not> tf_ages t \<Longrightarrow> tf_Estimate t g \<le> tf_Estimate (tf_Increment t h) g"
    using tfd.est_mono [OF i] by (simp add: tf_Estimate_est tf_Increment_count Let_def)
  show "tf_ages t \<Longrightarrow> tf_Estimate (tf_Increment t h) g \<le> (tf_Estimate t g + 1) div 2"
    using tfd.est_aged [OF i] by (simp add: tf_Estimate_est tf_Increment_count Let_def)
qed (simp add: max_int64_def)

lemma NewTinyLFULockFree_inv:
  assumes "n \<le> 2 ^ 52" "4 \<le> length rand" "\<And>n. optBits n < 2 ^ 60"
  shows "\<exists>t. NewTinyLFULockFree optBits optHash n rand = Some t \<and> tf_inv t"
proof -
  let ?n = "if n \<le> 0 then 2 ^ 20 else n"
  have n: "?n \<le> 2 ^ 62" "0 < ?n" "?n < 2 ^ 62" using assms(1) by auto
  obtain s where "newCMSketchLockFree ?n rand = Some s" "lf_sketch_inv s"
    using newCMSketchLockFree_inv [OF n(1) assms(2)] by blast
  then show ?thesis using newBloomFilterLockFree_inv [OF assms(3)] n(2,3)
    by (auto simp: NewTinyLFULockFree_def tf_inv_def Let_def)
qed

subsection \<open>Batched increments\<close>

lemma tf_counts_inv:
  assumes "tf_inv t"
  shows "tf_inv (foldl tf_count t hs) \<and> tf_incrs (foldl tf_count t hs) = tf_incrs t \<and>
    tf_resetAt (foldl tf_count t hs) = tf_resetAt t"
  using assms
proof (induction hs arbitrary: t)
  case (Cons h hs)
  have "tf_inv (tf_count t h)"
    using Cons.prems by (auto simp: tf_count_count tf_inv_def intro: tfd.count_inv bl.inv_add)
  then show ?case using Cons.IH [of "tf_count t h"] by (simp add: tf_count_count)
qed simp

lemma tf_IncrementBatch_inv:
  assumes "tf_inv t" "int (length hs) < 2 ^ 62"
  shows "tf_inv (tf_IncrementBatch t hs)"
proof -
  let ?t = "foldl tf_count t hs"
  have t: "tf_inv ?t" "0 \<le> tf_incrs ?t" "tf_incrs ?t < 2 ^ 62"
    using tf_counts_inv [OF assms(1), of hs] by (auto simp: tf_inv_def)
  have "i64 (tf_incrs ?t + int (length hs)) = tf_incrs ?t + int (length hs)"
    using t(2,3) assms(2) by (intro i64_id) auto
  then show ?thesis
    using t by (auto simp: tf_IncrementBatch_def tf_advance_def tf_reset_def tf_inv_def Let_def
        intro: bl.inv_reset lfs.inv_halve)
qed

text \<open>
  As long as the batch stays inside one ageing period, \<open>IncrementBatch\<close> leaves the filter in the
  state of the individual increments.
\<close>

lemma tf_IncrementBatch_eq:
  assumes "tf_inv t" "tf_incrs t + int (length hs) < tf_resetAt t"
  shows "tf_IncrementBatch t hs = foldl tf_Increment t hs"
  using assms
proof (induction hs arbitrary: t)
  case Nil
  then show ?case by (simp add: tf_IncrementBatch_def tf_advance_def tf_inv_def i64_id)
next
  case (Cons h hs)
  have b: "0 \<le> tf_incrs t" "tf_resetAt t < 2 ^ 62" using Cons.prems by (auto simp: tf_inv_def)
  have n: "i64 (tf_incrs t + 1) = tf_incrs t + 1"
    using Cons.prems b by (intro i64_id) auto
  then have na: "\<not> tf_ages t" using Cons.prems(2) by (simp add: tf_ages_def)
  let ?c = "tf_count t h"
  have i: "tf_Increment t h = ?c\<lparr>tf_incrs := tf_incrs t + 1\<rparr>"
    using na n by (simp add: tf_Increment_count tf_count_count Let_def)
  have c: "tf_count (x\<lparr>tf_incrs := m\<rparr>) g = (tf_count x g)\<lparr>tf_incrs := m\<rparr>" for x m g
    by (simp add: tf_count_count)
  have com: "foldl tf_count (x\<lparr>tf_incrs := m\<rparr>) hs = (foldl tf_count x hs)\<lparr>tf_incrs := m\<rparr>" for x m
    by (induction hs arbitrary: x) (simp_all add: c)
  have f: "tf_incrs (foldl tf_count ?c hs) = tf_incrs t" "tf_resetAt (foldl tf_count ?c hs) = tf_resetAt t"
    using tf_counts_inv [OF Cons.prems(1), of "h # hs"] by auto
  have "tf_IncrementBatch (tf_Increment t h) hs = tf_IncrementBatch t (h # hs)"
    using f by (simp add: tf_IncrementBatch_def tf_advance_def i com Let_def tf_reset_def ac_simps)
  moreover have "tf_IncrementBatch (tf_Increment t h) hs = foldl tf_Increment (tf_Increment t h) hs"
    using Cons.prems by (intro Cons.IH tf.inv_increment) (simp_all add: i tf_count_count)
  ultimately show ?case by simp
qed

end
