(* ===== verification/SampledLFU.thy ===== *)
theory SampledLFU
  imports Prelude
begin

text \<open>
  \<open>internal/policy/sampledlfu.go\<close>: the set of keys the policy tracks, with their costs, a dense
  array of the keys for random sampling, and the position of each key in it. A Go map is a
  partial function. The pseudo-random generator is a sequence of raw draws, of which
  \<open>Intn(n)\<close> consumes one and reduces it modulo \<open>n\<close>: nothing else is assumed of it, so every
  theorem holds for every seed. \<open>Sample\<close> rejects indices it has already drawn, in a loop that
  ends only if the generator eventually produces new ones; it is therefore a partial function,
  and \<open>fair\<close> is the property of the generator under which it returns.
\<close>

record trackedItem =
  ti_keyHash :: u64
  ti_cost :: int

record 'k victim =
  v_Key :: 'k
  v_KeyHash :: u64

record 'k SampledLFU =
  lfu_costs :: "'k \<rightharpoonup> trackedItem"
  lfu_keys :: "'k list"
  lfu_keyIndex :: "'k \<rightharpoonup> nat"
  lfu_maxCost :: int
  lfu_usedCost :: int
  lfu_maxEntries :: int
  lfu_numEntries :: int
  lfu_sampleSize :: nat
  lfu_draws :: "nat \<Rightarrow> nat" \<comment> \<open>\<open>rng\<close>: the draws of the generator\<close>
  lfu_pos :: nat \<comment> \<open>\<open>rng\<close>: how many draws have been consumed\<close>

definition NewSampledLFU :: "int \<Rightarrow> int \<Rightarrow> (nat \<Rightarrow> nat) \<Rightarrow> 'k SampledLFU" where
  "NewSampledLFU maxCost maxEntries draws =
     \<lparr>lfu_costs = Map.empty, lfu_keys = [], lfu_keyIndex = Map.empty, lfu_maxCost = maxCost,
      lfu_usedCost = 0, lfu_maxEntries = maxEntries, lfu_numEntries = 0, lfu_sampleSize = 5,
      lfu_draws = draws, lfu_pos = 0\<rparr>"

definition lfu_Has :: "'k SampledLFU \<Rightarrow> 'k \<Rightarrow> bool" where
  "lfu_Has s key = (lfu_costs s key \<noteq> None)"

definition lfu_Update :: "'k SampledLFU \<Rightarrow> 'k \<Rightarrow> u64 \<Rightarrow> int \<Rightarrow> 'k SampledLFU" where
  "lfu_Update s key keyHash cost =
     (case lfu_costs s key of
        Some existing \<Rightarrow>
          s\<lparr>lfu_usedCost := i64 (lfu_usedCost s + (cost - ti_cost existing)),
            lfu_costs := (lfu_costs s)(key \<mapsto> \<lparr>ti_keyHash = keyHash, ti_cost = cost\<rparr>)\<rparr>
      | None \<Rightarrow> s)"

definition lfu_Add :: "'k SampledLFU \<Rightarrow> 'k \<Rightarrow> u64 \<Rightarrow> int \<Rightarrow> 'k SampledLFU" where
  "lfu_Add s key keyHash cost =
     (case lfu_costs s key of
        Some existing \<Rightarrow>
          s\<lparr>lfu_usedCost := i64 (lfu_usedCost s + (cost - ti_cost existing)),
            lfu_costs := (lfu_costs s)(key \<mapsto> \<lparr>ti_keyHash = keyHash, ti_cost = cost\<rparr>)\<rparr>
      | None \<Rightarrow>
          s\<lparr>lfu_costs := (lfu_costs s)(key \<mapsto> \<lparr>ti_keyHash = keyHash, ti_cost = cost\<rparr>),
            lfu_keyIndex := (lfu_keyIndex s)(key \<mapsto> length (lfu_keys s)),
            lfu_keys := lfu_keys s @ [key],
            lfu_usedCost := i64 (lfu_usedCost s + cost),
            lfu_numEntries := i64 (lfu_numEntries s + 1)\<rparr>)"

definition lfu_Del :: "'k SampledLFU \<Rightarrow> 'k \<Rightarrow> 'k SampledLFU" where
  "lfu_Del s key =
     (case lfu_costs s key of
        None \<Rightarrow> s
      | Some item \<Rightarrow>
          let s = s\<lparr>lfu_usedCost := i64 (lfu_usedCost s - ti_cost item),
                    lfu_numEntries := i64 (lfu_numEntries s - 1),
                    lfu_costs := (lfu_costs s)(key := None)\<rparr>
          in case lfu_keyIndex s key of
               None \<Rightarrow> s
             | Some idx \<Rightarrow>
                 let last = length (lfu_keys s) - 1;
                     s = (if idx \<noteq> last
                          then let ks = (lfu_keys s)[idx := lfu_keys s ! last]
                               in s\<lparr>lfu_keys := ks,
                                    lfu_keyIndex := (lfu_keyIndex s)(ks ! idx \<mapsto> idx)\<rparr>
                          else s)
                 in s\<lparr>lfu_keys := take last (lfu_keys s),
                      lfu_keyIndex := (lfu_keyIndex s)(key := None)\<rparr>)"

definition lfu_UsedCost :: "'k SampledLFU \<Rightarrow> int" where
  "lfu_UsedCost s = lfu_usedCost s"

definition lfu_NumEntries :: "'k SampledLFU \<Rightarrow> int" where
  "lfu_NumEntries s = lfu_numEntries s"

definition lfu_NeedsEviction :: "'k SampledLFU \<Rightarrow> bool" where
  "lfu_NeedsEviction s =
     (if lfu_maxCost s > 0 \<and> lfu_usedCost s > lfu_maxCost s then True
      else if lfu_maxEntries s > 0 \<and> lfu_numEntries s > lfu_maxEntries s then True
      else False)"

definition lfu_Cost :: "'k SampledLFU \<Rightarrow> 'k \<Rightarrow> int" where
  "lfu_Cost s key = (case lfu_costs s key of Some item \<Rightarrow> ti_cost item | None \<Rightarrow> 0)"

definition lfu_Clear :: "'k SampledLFU \<Rightarrow> 'k SampledLFU" where
  "lfu_Clear s = s\<lparr>lfu_costs := Map.empty, lfu_keys := [], lfu_keyIndex := Map.empty,
                   lfu_usedCost := 0, lfu_numEntries := 0\<rparr>"

definition lfu_SetMaxCost :: "'k SampledLFU \<Rightarrow> int \<Rightarrow> 'k SampledLFU" where
  "lfu_SetMaxCost s maxCost = s\<lparr>lfu_maxCost := maxCost\<rparr>"

definition lfu_SetMaxEntries :: "'k SampledLFU \<Rightarrow> int \<Rightarrow> 'k SampledLFU" where
  "lfu_SetMaxEntries s maxEntries = s\<lparr>lfu_maxEntries := maxEntries\<rparr>"

subsection \<open>Sampling\<close>

definition adaptiveSampleSize :: "'k SampledLFU \<Rightarrow> nat" where
  "adaptiveSampleSize s =
     (let n = length (lfu_keys s)
      in if n < 100 then n else if n < 1000 then 10 else if n < 10000 then 15 else 20)"

text \<open>Reading a missing map entry gives the zero item.\<close>

definition victim_of :: "'k SampledLFU \<Rightarrow> 'k \<Rightarrow> 'k victim" where
  "victim_of s key =
     \<lparr>v_Key = key, v_KeyHash = (case lfu_costs s key of Some item \<Rightarrow> ti_keyHash item | None \<Rightarrow> 0)\<rparr>"

definition Intn :: "'k SampledLFU \<Rightarrow> nat \<Rightarrow> nat \<times> 'k SampledLFU" where
  "Intn s n = (lfu_draws s (lfu_pos s) mod n, s\<lparr>lfu_pos := Suc (lfu_pos s)\<rparr>)"

partial_function (option) sample_loop ::
  "'k SampledLFU \<Rightarrow> nat \<Rightarrow> nat list \<Rightarrow> 'k victim list \<Rightarrow> ('k SampledLFU \<times> 'k victim list) option" where
  "sample_loop s n seen sample =
     (if length sample < n then
        let idx = fst (Intn s (length (lfu_keys s))); s' = snd (Intn s (length (lfu_keys s)))
        in if idx \<in> set seen then sample_loop s' n seen sample
           else sample_loop s' n (idx # seen) (sample @ [victim_of s (lfu_keys s ! idx)])
      else Some (s, sample))"

definition lfu_Sample :: "'k SampledLFU \<Rightarrow> ('k SampledLFU \<times> 'k victim list) option" where
  "lfu_Sample s =
     (let n = adaptiveSampleSize s;
          n = (if n > length (lfu_keys s) then length (lfu_keys s) else n)
      in if n = 0 then Some (s, [])
         else if length (lfu_keys s) \<le> n then Some (s, map (victim_of s) (lfu_keys s))
         else sample_loop s n [] [])"

definition fair :: "(nat \<Rightarrow> nat) \<Rightarrow> bool" where
  "fair draws \<longleftrightarrow> (\<forall>n r p. r < n \<longrightarrow> (\<exists>q\<ge>p. draws q mod n = r))"

subsection \<open>The invariant\<close>

text \<open>
  The three representations of the tracked set agree: the dense array has no duplicates and
  lists exactly the keys with a cost, \<open>keyIndex\<close> is its inverse, and the totals are the sums.
\<close>

definition lfu_inv :: "'k SampledLFU \<Rightarrow> bool" where
  "lfu_inv s \<longleftrightarrow>
     distinct (lfu_keys s) \<and>
     dom (lfu_costs s) = set (lfu_keys s) \<and>
     (\<forall>k i. lfu_keyIndex s k = Some i \<longleftrightarrow> i < length (lfu_keys s) \<and> lfu_keys s ! i = k) \<and>
     lfu_usedCost s = i64 (map_sum ti_cost (lfu_costs s)) \<and>
     lfu_numEntries s = i64 (int (length (lfu_keys s)))"

lemma lfu_inv_finite: "lfu_inv s \<Longrightarrow> finite (dom (lfu_costs s))"
  by (simp add: lfu_inv_def)

lemma lfu_inv_card: "lfu_inv s \<Longrightarrow> card (dom (lfu_costs s)) = length (lfu_keys s)"
  by (simp add: lfu_inv_def distinct_card)

lemma lfu_inv_new: "lfu_inv (NewSampledLFU c e d)"
  by (simp add: lfu_inv_def NewSampledLFU_def)

lemma lfu_inv_clear: "lfu_inv (lfu_Clear s)"
  by (simp add: lfu_inv_def lfu_Clear_def)

lemma lfu_inv_limits:
  "lfu_inv s \<Longrightarrow> lfu_inv (lfu_SetMaxCost s c)" "lfu_inv s \<Longrightarrow> lfu_inv (lfu_SetMaxEntries s e)"
  by (simp_all add: lfu_inv_def lfu_SetMaxCost_def lfu_SetMaxEntries_def)

lemma lfu_inv_pos: "lfu_inv (s\<lparr>lfu_pos := p\<rparr>) = lfu_inv s"
  by (simp add: lfu_inv_def)

lemma lfu_costs_Update:
  "lfu_costs (lfu_Update s key h c) =
     (if lfu_costs s key = None then lfu_costs s
      else (lfu_costs s)(key \<mapsto> \<lparr>ti_keyHash = h, ti_cost = c\<rparr>))"
  by (simp add: lfu_Update_def split: option.split)

lemma lfu_inv_update:
  assumes "lfu_inv s"
  shows "lfu_inv (lfu_Update s key h c)"
proof (cases "lfu_costs s key")
  case None
  then show ?thesis using assms by (simp add: lfu_Update_def)
next
  case (Some old)
  have "i64 (i64 (map_sum ti_cost (lfu_costs s)) + (c - ti_cost old)) =
      i64 (map_sum ti_cost (lfu_costs s) + (c - ti_cost old))"
    by (rule i64_add_left)
  then have "i64 (lfu_usedCost s + (c - ti_cost old)) =
      i64 (map_sum ti_cost (lfu_costs s) - ti_cost old + c)"
    using assms by (simp add: lfu_inv_def algebra_simps)
  then show ?thesis
    using assms Some map_sum_update [OF lfu_inv_finite [OF assms] Some, of ti_cost]
    by (auto simp: lfu_inv_def lfu_Update_def dom_fun_upd)
qed

lemma lfu_costs_Add:
  "lfu_costs (lfu_Add s key h c) = (lfu_costs s)(key \<mapsto> \<lparr>ti_keyHash = h, ti_cost = c\<rparr>)"
  by (simp add: lfu_Add_def split: option.split)

lemma lfu_Add_tracked: "lfu_Has s key \<Longrightarrow> lfu_Add s key h c = lfu_Update s key h c"
  by (auto simp: lfu_Has_def lfu_Add_def lfu_Update_def)

lemma lfu_inv_add:
  assumes "lfu_inv s"
  shows "lfu_inv (lfu_Add s key h c)"
proof (cases "lfu_costs s key")
  case (Some old)
  then have "lfu_Add s key h c = lfu_Update s key h c"
    by (intro lfu_Add_tracked) (simp add: lfu_Has_def)
  then show ?thesis using lfu_inv_update [OF assms] by simp
next
  case None
  then have new: "key \<notin> set (lfu_keys s)" using assms by (auto simp: lfu_inv_def)
  have "i64 (lfu_usedCost s + c) = i64 (map_sum ti_cost (lfu_costs s) + c)"
    using assms by (simp add: lfu_inv_def)
  moreover have "i64 (lfu_numEntries s + 1) = i64 (int (length (lfu_keys s)) + 1)"
    using assms by (simp add: lfu_inv_def)
  moreover have "((lfu_keyIndex s)(key \<mapsto> length (lfu_keys s))) k = Some i \<longleftrightarrow>
      i < Suc (length (lfu_keys s)) \<and> (lfu_keys s @ [key]) ! i = k" for k i
    using assms new by (auto simp: lfu_inv_def nth_append less_Suc_eq)
  ultimately show ?thesis
    using assms None new map_sum_insert [OF lfu_inv_finite [OF assms] None, of ti_cost]
    by (auto simp: lfu_inv_def lfu_Add_def add.commute)
qed

text \<open>Swap-delete: the last key takes the place of the deleted one.\<close>

definition swap_delete :: "'k list \<Rightarrow> nat \<Rightarrow> 'k list" where
  "swap_delete ks i = take (length ks - 1) (ks[i := last ks])"

lemma swap_delete:
  assumes "distinct ks" "i < length ks"
  shows "distinct (swap_delete ks i)" "set (swap_delete ks i) = set ks - {ks ! i}"
    "length (swap_delete ks i) = length ks - 1"
proof -
  have ne: "ks \<noteq> []" using assms(2) by auto
  have l: "last ks = ks ! (length ks - 1)" using ne by (rule last_conv_nth)
  have nth: "swap_delete ks i ! j = (if j = i then last ks else ks ! j)" if "j < length ks - 1" for j
    using that assms(2) by (simp add: swap_delete_def)
  show len: "length (swap_delete ks i) = length ks - 1" using assms(2) by (simp add: swap_delete_def)
  show "distinct (swap_delete ks i)"
    unfolding distinct_conv_nth len
    using assms nth l by (auto simp: nth_eq_iff_index_eq)
  show "set (swap_delete ks i) = set ks - {ks ! i}"
  proof (rule set_eqI)
    fix x
    have "x \<in> set (swap_delete ks i) \<longleftrightarrow> (\<exists>j<length ks - 1. x = (if j = i then last ks else ks ! j))"
      unfolding in_set_conv_nth len using nth by auto
    also have "\<dots> \<longleftrightarrow> (\<exists>j<length ks. j \<noteq> i \<and> x = ks ! j)"
    proof
      assume "\<exists>j<length ks - 1. x = (if j = i then last ks else ks ! j)"
      then obtain j where j: "j < length ks - 1" "x = (if j = i then last ks else ks ! j)" by blast
      then show "\<exists>j<length ks. j \<noteq> i \<and> x = ks ! j"
        using l by (cases "j = i") (auto intro: exI [of _ "length ks - 1"] exI [of _ j])
    next
      assume "\<exists>j<length ks. j \<noteq> i \<and> x = ks ! j"
      then obtain j where j: "j < length ks" "j \<noteq> i" "x = ks ! j" by blast
      show "\<exists>j<length ks - 1. x = (if j = i then last ks else ks ! j)"
      proof (cases "j = length ks - 1")
        case True
        then show ?thesis using j l assms(2) by (intro exI [of _ i]) auto
      next
        case False
        then show ?thesis using j by (intro exI [of _ j]) auto
      qed
    qed
    also have "\<dots> \<longleftrightarrow> x \<in> set ks - {ks ! i}"
      using assms by (auto simp: in_set_conv_nth nth_eq_iff_index_eq)
    finally show "x \<in> set (swap_delete ks i) \<longleftrightarrow> x \<in> set ks - {ks ! i}" .
  qed
qed

lemma lfu_costs_Del: "lfu_costs (lfu_Del s key) = (lfu_costs s)(key := None)"
  by (auto simp: lfu_Del_def Let_def fun_eq_iff split: option.split)

lemma lfu_Del_eq:
  assumes "lfu_inv s" "lfu_costs s key = Some item"
  shows "\<exists>idx. idx < length (lfu_keys s) \<and> lfu_keys s ! idx = key \<and>
    lfu_Del s key = s\<lparr>lfu_usedCost := i64 (lfu_usedCost s - ti_cost item),
       lfu_numEntries := i64 (lfu_numEntries s - 1),
       lfu_costs := (lfu_costs s)(key := None),
       lfu_keys := swap_delete (lfu_keys s) idx,
       lfu_keyIndex := (if idx = length (lfu_keys s) - 1 then lfu_keyIndex s
                        else (lfu_keyIndex s)(last (lfu_keys s) \<mapsto> idx))(key := None)\<rparr>"
proof -
  have "key \<in> set (lfu_keys s)" using assms by (auto simp: lfu_inv_def)
  then obtain idx where idx: "idx < length (lfu_keys s)" "lfu_keys s ! idx = key"
    by (auto simp: in_set_conv_nth)
  then have k: "lfu_keyIndex s key = Some idx" using assms(1) by (simp add: lfu_inv_def)
  have l: "lfu_keys s ! (length (lfu_keys s) - 1) = last (lfu_keys s)"
    using idx by (metis last_conv_nth length_0_conv not_less_zero)
  have "(lfu_keys s)[idx := last (lfu_keys s)] = lfu_keys s" if "idx = length (lfu_keys s) - 1"
    using that l by (metis list_update_id)
  then have "lfu_Del s key = s\<lparr>lfu_usedCost := i64 (lfu_usedCost s - ti_cost item),
       lfu_numEntries := i64 (lfu_numEntries s - 1),
       lfu_costs := (lfu_costs s)(key := None),
       lfu_keys := swap_delete (lfu_keys s) idx,
       lfu_keyIndex := (if idx = length (lfu_keys s) - 1 then lfu_keyIndex s
                        else (lfu_keyIndex s)(last (lfu_keys s) \<mapsto> idx))(key := None)\<rparr>"
    using assms(2) k l idx by (auto simp: lfu_Del_def Let_def swap_delete_def)
  then show ?thesis using idx by blast
qed

lemma lfu_inv_del:
  assumes "lfu_inv s"
  shows "lfu_inv (lfu_Del s key)"
proof (cases "lfu_costs s key")
  case None
  then show ?thesis using assms by (simp add: lfu_Del_def)
next
  case (Some item)
  obtain idx where idx: "idx < length (lfu_keys s)" "lfu_keys s ! idx = key"
    and del: "lfu_Del s key = s\<lparr>lfu_usedCost := i64 (lfu_usedCost s - ti_cost item),
       lfu_numEntries := i64 (lfu_numEntries s - 1),
       lfu_costs := (lfu_costs s)(key := None),
       lfu_keys := swap_delete (lfu_keys s) idx,
       lfu_keyIndex := (if idx = length (lfu_keys s) - 1 then lfu_keyIndex s
                        else (lfu_keyIndex s)(last (lfu_keys s) \<mapsto> idx))(key := None)\<rparr>"
    using lfu_Del_eq [OF assms Some] by blast
  have d: "distinct (lfu_keys s)" using assms by (simp add: lfu_inv_def)
  note sw = swap_delete [OF d idx(1)]
  have l: "last (lfu_keys s) = lfu_keys s ! (length (lfu_keys s) - 1)"
    using idx(1) by (metis last_conv_nth length_0_conv not_less_zero)
  have ki: "lfu_keyIndex s k = Some i \<longleftrightarrow> i < length (lfu_keys s) \<and> lfu_keys s ! i = k" for k i
    using assms by (simp add: lfu_inv_def)
  have "((if idx = length (lfu_keys s) - 1 then lfu_keyIndex s
          else (lfu_keyIndex s)(last (lfu_keys s) \<mapsto> idx))(key := None)) k = Some i \<longleftrightarrow>
      i < length (swap_delete (lfu_keys s) idx) \<and> swap_delete (lfu_keys s) idx ! i = k" for k i
    using idx d l ki
    by (auto simp: swap_delete_def nth_list_update nth_eq_iff_index_eq)
  moreover have "i64 (lfu_usedCost s - ti_cost item) = i64 (map_sum ti_cost ((lfu_costs s)(key := None)))"
    using assms map_sum_delete [OF lfu_inv_finite [OF assms] Some, of ti_cost]
    by (simp add: lfu_inv_def)
  moreover have "i64 (lfu_numEntries s - 1) = i64 (int (length (lfu_keys s) - 1))"
    using assms idx(1) by (simp add: lfu_inv_def of_nat_diff)
  moreover have "dom ((lfu_costs s)(key := None)) = set (lfu_keys s) - {key}"
    using assms by (auto simp: lfu_inv_def)
  ultimately show ?thesis unfolding del lfu_inv_def using sw idx(2) by simp
qed

subsection \<open>What a sample is\<close>

text \<open>
  A sample is the entries at distinct positions of the dense array; drawing it changes only
  the position of the generator.
\<close>

definition sample_at :: "'k SampledLFU \<Rightarrow> nat list \<Rightarrow> 'k victim list" where
  "sample_at s idxs = map (\<lambda>i. victim_of s (lfu_keys s ! i)) idxs"

lemma victim_of_pos [simp]: "victim_of (s\<lparr>lfu_pos := p\<rparr>) k = victim_of s k"
  by (simp add: victim_of_def)

lemma sample_at_pos [simp]: "sample_at (s\<lparr>lfu_pos := p\<rparr>) = sample_at s"
  by (simp add: sample_at_def fun_eq_iff)

lemma sample_loop_spec:
  assumes "sample_loop s n seen sample = Some r" "lfu_keys s \<noteq> []" "distinct seen"
    "set seen \<subseteq> {..<length (lfu_keys s)}" "sample = sample_at s (rev seen)" "length seen \<le> n"
  shows "\<exists>p idxs. fst r = s\<lparr>lfu_pos := p\<rparr> \<and> snd r = sample_at s idxs \<and> distinct idxs \<and>
      set idxs \<subseteq> {..<length (lfu_keys s)} \<and> length idxs = n"
  using assms
proof (induction s n seen sample r rule: sample_loop.raw_induct [rotated, consumes 1, case_names step])
  case (step f s n seen sample r)
  define idx where "idx = fst (Intn s (length (lfu_keys s)))"
  have idx: "idx < length (lfu_keys s)" using step(3) by (simp add: idx_def Intn_def)
  have s': "snd (Intn s (length (lfu_keys s))) = s\<lparr>lfu_pos := Suc (lfu_pos s)\<rparr>" by (simp add: Intn_def)
  show ?case
  proof (cases "length sample < n")
    case False
    then have "length (rev seen) = n" "r = (s, sample)"
      using step by (auto simp: sample_at_def)
    then show ?thesis using step
      by (intro exI [of _ "lfu_pos s"] exI [of _ "rev seen"]) simp
  next
    case more: True
    show ?thesis
    proof (cases "idx \<in> set seen")
      case True
      then have f: "f (s\<lparr>lfu_pos := Suc (lfu_pos s)\<rparr>) n seen sample = Some r"
        using step(2) more by (simp add: s' Let_def idx_def [symmetric])
      show ?thesis using step(1) [OF f] step(3-) by auto
    next
      case False
      then have f: "f (s\<lparr>lfu_pos := Suc (lfu_pos s)\<rparr>) n (idx # seen)
          (sample @ [victim_of s (lfu_keys s ! idx)]) = Some r"
        using step(2) more by (simp add: s' Let_def idx_def [symmetric])
      show ?thesis using step(1) [OF f] step(3-) idx False more by (auto simp: sample_at_def)
    qed
  qed
qed

lemma sample_loop_returns:
  assumes "fair (lfu_draws s)" "n \<le> length (lfu_keys s)" "length seen = length sample"
    "distinct seen" "set seen \<subseteq> {..<length (lfu_keys s)}"
  shows "sample_loop s n seen sample \<noteq> None"
  using assms
proof (induction "n - length sample" arbitrary: s seen sample)
  case 0
  then show ?case by (subst sample_loop.simps) simp
next
  case (Suc m)
  let ?L = "length (lfu_keys s)"
  have lt: "length sample < n" using Suc.hyps(2) by simp
  have "card (set seen) < ?L" using lt Suc.prems by (simp add: distinct_card)
  then have "\<exists>r. r < ?L \<and> r \<notin> set seen"
    by (metis card_lessThan card_mono finite_set lessThan_iff not_le subsetI)
  then obtain r where r: "r < ?L" "r \<notin> set seen" by blast
  then obtain q where q: "q \<ge> lfu_pos s" "lfu_draws s q mod ?L = r"
    using Suc.prems(1) unfolding fair_def by blast
  have "q \<ge> lfu_pos t \<Longrightarrow> lfu_keys t = lfu_keys s \<Longrightarrow> lfu_draws t = lfu_draws s \<Longrightarrow>
      sample_loop t n seen sample \<noteq> None" for t :: "'a SampledLFU"
  proof (induction "q - lfu_pos t" arbitrary: t rule: less_induct)
    case less
    define idx where "idx = lfu_draws s (lfu_pos t) mod ?L"
    have idx: "idx < ?L" unfolding idx_def using r(1) by (intro mod_less_divisor) linarith
    let ?t = "t\<lparr>lfu_pos := Suc (lfu_pos t)\<rparr>"
    have unf: "sample_loop t n seen sample =
        (if idx \<in> set seen then sample_loop ?t n seen sample
         else sample_loop ?t n (idx # seen) (sample @ [victim_of t (lfu_keys t ! idx)]))"
      using lt less.prems by (subst sample_loop.simps) (simp add: Intn_def idx_def Let_def)
    show ?case
    proof (cases "idx \<in> set seen")
      case True
      then have "lfu_pos t \<noteq> q" using q r by (auto simp: idx_def)
      then have "sample_loop ?t n seen sample \<noteq> None"
        using less by (intro less.hyps) auto
      then show ?thesis using unf True by simp
    next
      case False
      have "sample_loop ?t n (idx # seen) (sample @ [victim_of t (lfu_keys t ! idx)]) \<noteq> None"
        using Suc.prems Suc.hyps(2) False idx less.prems by (intro Suc.hyps(1)) auto
      then show ?thesis using unf False by simp
    qed
  qed
  from this [of s] q(1) show ?case by simp
qed

lemma adaptiveSampleSize_pos: "lfu_keys s \<noteq> [] \<Longrightarrow> 0 < adaptiveSampleSize s"
  by (simp add: adaptiveSampleSize_def Let_def)

lemma lfu_Sample_spec:
  assumes "lfu_Sample s = Some (s', vs)"
  shows "\<exists>p idxs. s' = s\<lparr>lfu_pos := p\<rparr> \<and> vs = sample_at s idxs \<and> distinct idxs \<and>
    set idxs \<subseteq> {..<length (lfu_keys s)} \<and>
    length idxs = min (adaptiveSampleSize s) (length (lfu_keys s))"
proof -
  let ?n = "min (adaptiveSampleSize s) (length (lfu_keys s))"
  have n: "(if adaptiveSampleSize s > length (lfu_keys s) then length (lfu_keys s)
            else adaptiveSampleSize s) = ?n" by simp
  have all: "map (victim_of s) (lfu_keys s) = sample_at s [0..<length (lfu_keys s)]"
    unfolding sample_at_def by (rule nth_equalityI) simp_all
  consider "?n = 0" | "?n \<noteq> 0" "length (lfu_keys s) \<le> ?n" | "?n \<noteq> 0" "\<not> length (lfu_keys s) \<le> ?n" by blast
  then show ?thesis
  proof cases
    case 1
    then show ?thesis using assms unfolding lfu_Sample_def n Let_def
      by (intro exI [of _ "lfu_pos s"] exI [of _ "[]"]) (simp add: sample_at_def)
  next
    case 2
    then have "s' = s \<and> vs = sample_at s [0..<length (lfu_keys s)]"
      using assms unfolding lfu_Sample_def n Let_def all by (metis Pair_inject option.inject)
    then show ?thesis using 2
      by (intro exI [of _ "lfu_pos s"] exI [of _ "[0..<length (lfu_keys s)]"]) auto
  next
    case 3
    then have "sample_loop s ?n [] [] = Some (s', vs)"
      using assms unfolding lfu_Sample_def n Let_def by simp
    from sample_loop_spec [OF this] 3(1) show ?thesis by (auto simp: sample_at_def)
  qed
qed

lemma lfu_Sample_returns:
  assumes "fair (lfu_draws s) \<or> length (lfu_keys s) < 100"
  shows "lfu_Sample s \<noteq> None"
proof -
  have "adaptiveSampleSize s = length (lfu_keys s)" if "length (lfu_keys s) < 100"
    using that by (simp add: adaptiveSampleSize_def)
  moreover have "sample_loop s (adaptiveSampleSize s) [] [] \<noteq> None"
    if "fair (lfu_draws s)" "adaptiveSampleSize s \<le> length (lfu_keys s)"
    by (rule sample_loop_returns) (use that in simp_all)
  ultimately show ?thesis using assms by (auto simp: lfu_Sample_def Let_def)
qed

text \<open>Every sampled victim is tracked and carries the hash it is tracked with.\<close>

lemma sample_at_tracked:
  assumes "lfu_inv s" "set idxs \<subseteq> {..<length (lfu_keys s)}" "v \<in> set (sample_at s idxs)"
  shows "lfu_costs s (v_Key v) \<noteq> None" "v_KeyHash v = ti_keyHash (the (lfu_costs s (v_Key v)))"
proof -
  obtain i where i: "i < length (lfu_keys s)" "v = victim_of s (lfu_keys s ! i)"
    using assms by (auto simp: sample_at_def)
  then have "lfu_keys s ! i \<in> dom (lfu_costs s)" using assms(1) by (simp add: lfu_inv_def)
  then show "lfu_costs s (v_Key v) \<noteq> None" "v_KeyHash v = ti_keyHash (the (lfu_costs s (v_Key v)))"
    using i by (auto simp: victim_of_def)
qed

lemma sample_at_nonempty: "sample_at s idxs = [] \<longleftrightarrow> idxs = []"
  by (simp add: sample_at_def)

lemma sample_at_keys:
  assumes "lfu_inv s" "distinct idxs" "set idxs \<subseteq> {..<length (lfu_keys s)}"
  shows "distinct (map v_Key (sample_at s idxs))"
proof -
  have "inj_on ((!) (lfu_keys s)) (set idxs)"
    using assms by (intro inj_onI) (auto simp: lfu_inv_def nth_eq_iff_index_eq subset_eq)
  then have "distinct (map ((!) (lfu_keys s)) idxs)" using assms(2) by (simp add: distinct_map)
  moreover have "map v_Key (sample_at s idxs) = map ((!) (lfu_keys s)) idxs"
    by (simp add: sample_at_def victim_of_def)
  ultimately show ?thesis by simp
qed

text \<open>A generator that runs through the naturals is fair: the hypothesis can be met.\<close>

lemma fair_id: "fair (\<lambda>i. i)"
  unfolding fair_def
proof (intro allI impI)
  fix n r p :: nat
  assume "r < n"
  then show "\<exists>q\<ge>p. q mod n = r" by (intro exI [of _ "n * p + r"]) (auto simp: trans_le_add1)
qed

lemmas lfu_preserves = lfu_inv_new lfu_inv_clear lfu_inv_limits lfu_inv_update lfu_inv_add lfu_inv_del

end
