(* ===== verification/Policy.thy ===== *)
theory Policy
  imports TinyLFU SampledLFU
begin

text \<open>
  \<open>internal/policy/policy.go\<close> and \<open>policy_lockfree.go\<close>: the policies combine an admission
  filter with the sampled eviction set. Both have the same eviction loop, which is written here
  once over the two methods of the filter it calls (\<open>Estimate\<close> and \<open>Admit\<close>, at the filter's
  current state, which the loop does not change). The loop samples, so an \<open>Add\<close> is a partial
  function: \<open>None\<close> is a call that does not return.

  The \<open>context\<close> on the \<open>admission\<close> contract proves what the loop does for any filter; the locale
  \<open>policer\<close> is the interface the cache uses (\<open>interface.go\<close>), interpreted on both policies and
  on the interface value that holds either.
\<close>

subsection \<open>The eviction loop\<close>

text \<open>The zero value of the key type, the initial value of \<open>victim\<close>, is the parameter \<open>zero\<close>.\<close>

definition zero_victim :: "'k \<Rightarrow> 'k victim" where
  "zero_victim zero = \<lparr>v_Key = zero, v_KeyHash = 0\<rparr>"

definition pick_step :: "(u64 \<Rightarrow> int) \<Rightarrow> int \<times> 'k victim \<Rightarrow> 'k victim \<Rightarrow> int \<times> 'k victim" where
  "pick_step estimate acc v =
     (let (lowestFreq, victim) = acc; freq = estimate (v_KeyHash v)
      in if freq < lowestFreq then (freq, v) else (lowestFreq, victim))"

definition pick_victim :: "(u64 \<Rightarrow> int) \<Rightarrow> 'k \<Rightarrow> 'k victim list \<Rightarrow> 'k victim" where
  "pick_victim estimate zero sample = snd (foldl (pick_step estimate) (max_int64, zero_victim zero) sample)"

partial_function (option) find_victims ::
  "(u64 \<Rightarrow> int) \<Rightarrow> (u64 \<Rightarrow> u64 \<Rightarrow> bool) \<Rightarrow> 'k \<Rightarrow> u64 \<Rightarrow> 'k SampledLFU \<Rightarrow> 'k victim list
     \<Rightarrow> ('k SampledLFU \<times> 'k victim list) option" where
  "find_victims estimate admit zero incomingHash evict victims =
     (if lfu_NeedsEviction evict then
        Option.bind (lfu_Sample evict) (\<lambda>(evict, sample).
          if sample = [] then Some (evict, victims)
          else
            let victim = pick_victim estimate zero sample
            in if \<not> admit incomingHash (v_KeyHash victim) then Some (evict, victims)
               else find_victims estimate admit zero incomingHash
                      (lfu_Del evict (v_Key victim)) (victims @ [victim]))
      else Some (evict, victims))"

subsection \<open>Policy\<close>

record 'k Policy =
  pol_admit :: TinyLFU
  pol_evict :: "'k SampledLFU"
  pol_zero :: 'k \<comment> \<open>the zero value of the key type\<close>

definition NewPolicy ::
  "'k \<Rightarrow> u64 list \<Rightarrow> (nat \<Rightarrow> nat) \<Rightarrow> int \<Rightarrow> int \<Rightarrow> int \<Rightarrow> 'k Policy option" where
  "NewPolicy zero rand draws numCounters maxCost maxEntries =
     (let numCounters = (if numCounters \<le> 0 \<and> maxEntries > 0 then i64 (maxEntries * 10) else numCounters);
          numCounters = (if numCounters \<le> 0 then 2 ^ 20 else numCounters)
      in map_option
           (\<lambda>admit. \<lparr>pol_admit = admit, pol_evict = NewSampledLFU maxCost maxEntries draws, pol_zero = zero\<rparr>)
           (NewTinyLFU numCounters rand))"

definition pol_findVictimsLocked :: "'k Policy \<Rightarrow> u64 \<Rightarrow> int \<Rightarrow> ('k Policy \<times> 'k victim list) option" where
  "pol_findVictimsLocked p incomingHash cost =
     map_option (\<lambda>(evict, victims). (p\<lparr>pol_evict := evict\<rparr>, victims))
       (find_victims (tl_Estimate (pol_admit p)) (tl_Admit (pol_admit p)) (pol_zero p)
          incomingHash (pol_evict p) [])"

definition pol_Add :: "'k Policy \<Rightarrow> 'k \<Rightarrow> u64 \<Rightarrow> int \<Rightarrow> ('k Policy \<times> 'k victim list \<times> bool) option" where
  "pol_Add p key keyHash cost =
     (let p = p\<lparr>pol_admit := tl_Increment (pol_admit p) keyHash\<rparr>
      in if lfu_Has (pol_evict p) key
         then Some (p\<lparr>pol_evict := lfu_Update (pol_evict p) key keyHash cost\<rparr>, [], True)
         else Option.bind (pol_findVictimsLocked p keyHash cost) (\<lambda>(p, victims).
           Some (p\<lparr>pol_evict := lfu_Add (pol_evict p) key keyHash cost\<rparr>, victims, True)))"

definition pol_Access :: "'k Policy \<Rightarrow> u64 \<Rightarrow> 'k Policy" where
  "pol_Access p keyHash = p\<lparr>pol_admit := tl_Increment (pol_admit p) keyHash\<rparr>"

definition pol_Has :: "'k Policy \<Rightarrow> 'k \<Rightarrow> bool" where
  "pol_Has p key = lfu_Has (pol_evict p) key"

definition pol_Del :: "'k Policy \<Rightarrow> 'k \<Rightarrow> u64 \<Rightarrow> 'k Policy" where
  "pol_Del p key keyHash = p\<lparr>pol_evict := lfu_Del (pol_evict p) key\<rparr>"

definition pol_Update :: "'k Policy \<Rightarrow> 'k \<Rightarrow> u64 \<Rightarrow> int \<Rightarrow> 'k Policy" where
  "pol_Update p key keyHash cost = p\<lparr>pol_evict := lfu_Update (pol_evict p) key keyHash cost\<rparr>"

definition pol_Cost :: "'k Policy \<Rightarrow> int" where
  "pol_Cost p = lfu_UsedCost (pol_evict p)"

definition pol_NumEntries :: "'k Policy \<Rightarrow> int" where
  "pol_NumEntries p = lfu_NumEntries (pol_evict p)"

definition pol_Clear :: "'k Policy \<Rightarrow> 'k Policy" where
  "pol_Clear p = p\<lparr>pol_admit := tl_Clear (pol_admit p), pol_evict := lfu_Clear (pol_evict p)\<rparr>"

definition pol_SetMaxCost :: "'k Policy \<Rightarrow> int \<Rightarrow> 'k Policy" where
  "pol_SetMaxCost p maxCost = p\<lparr>pol_evict := lfu_SetMaxCost (pol_evict p) maxCost\<rparr>"

definition pol_SetMaxEntries :: "'k Policy \<Rightarrow> int \<Rightarrow> 'k Policy" where
  "pol_SetMaxEntries p maxEntries = p\<lparr>pol_evict := lfu_SetMaxEntries (pol_evict p) maxEntries\<rparr>"

subsection \<open>PolicyLockFree\<close>

record 'k PolicyLockFree =
  plf_admit :: TinyLFULockFree
  plf_evict :: "'k SampledLFU"
  plf_zero :: 'k

definition NewPolicyLockFree ::
  "(int \<Rightarrow> u64) \<Rightarrow> (u64 \<Rightarrow> int \<Rightarrow> int) \<Rightarrow> 'k \<Rightarrow> u64 list \<Rightarrow> (nat \<Rightarrow> nat) \<Rightarrow> int \<Rightarrow> int \<Rightarrow> int
     \<Rightarrow> 'k PolicyLockFree option" where
  "NewPolicyLockFree optBits optHash zero rand draws numCounters maxCost maxEntries =
     (let numCounters = (if numCounters \<le> 0 \<and> maxEntries > 0 then i64 (maxEntries * 10) else numCounters);
          numCounters = (if numCounters \<le> 0 then 2 ^ 20 else numCounters)
      in map_option
           (\<lambda>admit. \<lparr>plf_admit = admit, plf_evict = NewSampledLFU maxCost maxEntries draws, plf_zero = zero\<rparr>)
           (NewTinyLFULockFree optBits optHash numCounters rand))"

definition plf_findVictimsLocked ::
  "'k PolicyLockFree \<Rightarrow> u64 \<Rightarrow> int \<Rightarrow> ('k PolicyLockFree \<times> 'k victim list) option" where
  "plf_findVictimsLocked p incomingHash cost =
     map_option (\<lambda>(evict, victims). (p\<lparr>plf_evict := evict\<rparr>, victims))
       (find_victims (tf_Estimate (plf_admit p)) (tf_Admit (plf_admit p)) (plf_zero p)
          incomingHash (plf_evict p) [])"

definition plf_Add ::
  "'k PolicyLockFree \<Rightarrow> 'k \<Rightarrow> u64 \<Rightarrow> int \<Rightarrow> ('k PolicyLockFree \<times> 'k victim list \<times> bool) option" where
  "plf_Add p key keyHash cost =
     (let p = p\<lparr>plf_admit := tf_Increment (plf_admit p) keyHash\<rparr>
      in if lfu_Has (plf_evict p) key
         then Some (p\<lparr>plf_evict := lfu_Update (plf_evict p) key keyHash cost\<rparr>, [], True)
         else Option.bind (plf_findVictimsLocked p keyHash cost) (\<lambda>(p, victims).
           Some (p\<lparr>plf_evict := lfu_Add (plf_evict p) key keyHash cost\<rparr>, victims, True)))"

definition plf_Access :: "'k PolicyLockFree \<Rightarrow> u64 \<Rightarrow> 'k PolicyLockFree" where
  "plf_Access p keyHash = p\<lparr>plf_admit := tf_Increment (plf_admit p) keyHash\<rparr>"

definition plf_AccessBatch :: "'k PolicyLockFree \<Rightarrow> u64 list \<Rightarrow> 'k PolicyLockFree" where
  "plf_AccessBatch p keyHashes = p\<lparr>plf_admit := tf_IncrementBatch (plf_admit p) keyHashes\<rparr>"

definition plf_Has :: "'k PolicyLockFree \<Rightarrow> 'k \<Rightarrow> bool" where
  "plf_Has p key = lfu_Has (plf_evict p) key"

definition plf_Del :: "'k PolicyLockFree \<Rightarrow> 'k \<Rightarrow> u64 \<Rightarrow> 'k PolicyLockFree" where
  "plf_Del p key keyHash = p\<lparr>plf_evict := lfu_Del (plf_evict p) key\<rparr>"

definition plf_Update :: "'k PolicyLockFree \<Rightarrow> 'k \<Rightarrow> u64 \<Rightarrow> int \<Rightarrow> 'k PolicyLockFree" where
  "plf_Update p key keyHash cost = p\<lparr>plf_evict := lfu_Update (plf_evict p) key keyHash cost\<rparr>"

definition plf_Cost :: "'k PolicyLockFree \<Rightarrow> int" where
  "plf_Cost p = lfu_UsedCost (plf_evict p)"

definition plf_NumEntries :: "'k PolicyLockFree \<Rightarrow> int" where
  "plf_NumEntries p = lfu_NumEntries (plf_evict p)"

definition plf_Clear :: "'k PolicyLockFree \<Rightarrow> 'k PolicyLockFree" where
  "plf_Clear p = p\<lparr>plf_admit := tf_Clear (plf_admit p), plf_evict := lfu_Clear (plf_evict p)\<rparr>"

definition plf_SetMaxCost :: "'k PolicyLockFree \<Rightarrow> int \<Rightarrow> 'k PolicyLockFree" where
  "plf_SetMaxCost p maxCost = p\<lparr>plf_evict := lfu_SetMaxCost (plf_evict p) maxCost\<rparr>"

definition plf_SetMaxEntries :: "'k PolicyLockFree \<Rightarrow> int \<Rightarrow> 'k PolicyLockFree" where
  "plf_SetMaxEntries p maxEntries = p\<lparr>plf_evict := lfu_SetMaxEntries (plf_evict p) maxEntries\<rparr>"

definition plf_NumIncrements :: "'k PolicyLockFree \<Rightarrow> int" where
  "plf_NumIncrements p = tf_NumIncrements (plf_admit p)"

definition plf_Estimate :: "'k PolicyLockFree \<Rightarrow> u64 \<Rightarrow> int" where
  "plf_Estimate p keyHash = tf_Estimate (plf_admit p) keyHash"

subsection \<open>What the eviction loop does\<close>

lemma pick_fold:
  fixes estimate :: "u64 \<Rightarrow> int" and sample :: "'k victim list"
  defines "r acc \<equiv> foldl (pick_step estimate) acc sample"
  shows "fst (r acc) \<le> fst acc \<and> (\<forall>v\<in>set sample. fst (r acc) \<le> estimate (v_KeyHash v)) \<and>
    (r acc = acc \<or> snd (r acc) \<in> set sample \<and> fst (r acc) = estimate (v_KeyHash (snd (r acc))))"
  unfolding r_def
proof (induction sample arbitrary: acc)
  case (Cons v sample)
  let ?a = "pick_step estimate acc v"
  have "fst ?a \<le> fst acc \<and> fst ?a \<le> estimate (v_KeyHash v) \<and>
      (?a = acc \<or> snd ?a = v \<and> fst ?a = estimate (v_KeyHash v))"
    by (auto simp: pick_step_def Let_def split: prod.split)
  with Cons.IH [of ?a] show ?case by (auto split: if_splits)
qed simp

lemma pick_victim:
  assumes "sample \<noteq> []" "\<And>g. estimate g < max_int64"
  shows "pick_victim estimate zero sample \<in> set sample"
    "v \<in> set sample \<Longrightarrow> estimate (v_KeyHash (pick_victim estimate zero sample)) \<le> estimate (v_KeyHash v)"
proof -
  let ?a = "(max_int64, zero_victim zero)" and ?r = "foldl (pick_step estimate) (max_int64, zero_victim zero) sample"
  obtain w where w: "w \<in> set sample" using assms(1) by (cases sample) auto
  note f = pick_fold [of estimate ?a sample]
  have "fst ?r \<le> estimate (v_KeyHash w)" using f w by blast
  then have "fst ?r < max_int64" using assms(2) [of "v_KeyHash w"] by simp
  then have "?r \<noteq> ?a" by auto
  then have r: "snd ?r \<in> set sample" "fst ?r = estimate (v_KeyHash (snd ?r))" using f by auto
  then show "pick_victim estimate zero sample \<in> set sample" by (simp add: pick_victim_def)
  show "v \<in> set sample \<Longrightarrow> estimate (v_KeyHash (pick_victim estimate zero sample)) \<le> estimate (v_KeyHash v)"
    using f r by (simp add: pick_victim_def)
qed

text \<open>
  \<open>evicted admits s vs s'\<close>: the eviction set \<open>s'\<close> is \<open>s\<close> without the distinct victims \<open>vs\<close>, each of
  which was tracked and is listed with its hash, and each of which the incoming key was admitted
  over.
\<close>

definition evicted ::
  "(u64 \<Rightarrow> bool) \<Rightarrow> 'k SampledLFU \<Rightarrow> 'k victim list \<Rightarrow> 'k SampledLFU \<Rightarrow> bool" where
  "evicted admits s vs s' \<longleftrightarrow>
     lfu_inv s' \<and> lfu_costs s' = lfu_costs s |` (- v_Key ` set vs) \<and> distinct (map v_Key vs) \<and>
     (\<forall>v\<in>set vs. map_option ti_keyHash (lfu_costs s (v_Key v)) = Some (v_KeyHash v) \<and>
        admits (v_KeyHash v)) \<and>
     lfu_maxCost s' = lfu_maxCost s \<and> lfu_maxEntries s' = lfu_maxEntries s \<and> lfu_draws s' = lfu_draws s"

lemma lfu_Del_limits [simp]:
  "lfu_maxCost (lfu_Del s k) = lfu_maxCost s" "lfu_maxEntries (lfu_Del s k) = lfu_maxEntries s"
  "lfu_draws (lfu_Del s k) = lfu_draws s"
  by (simp_all add: lfu_Del_def Let_def split: option.split)

lemma evicted_none: "lfu_inv s \<Longrightarrow> evicted admits s [] (s\<lparr>lfu_pos := p\<rparr>)"
  by (simp add: evicted_def lfu_inv_pos restrict_map_def)

lemma evicted_step:
  assumes "lfu_inv s" "map_option ti_keyHash (lfu_costs s (v_Key v)) = Some (v_KeyHash v)"
    "admits (v_KeyHash v)" "evicted admits (lfu_Del (s\<lparr>lfu_pos := p\<rparr>) (v_Key v)) vs s'"
  shows "evicted admits s (v # vs) s'"
proof -
  have e: "\<forall>u\<in>set vs. map_option ti_keyHash (((lfu_costs s)(v_Key v := None)) (v_Key u)) = Some (v_KeyHash u)"
    using assms(4) by (simp add: evicted_def lfu_costs_Del)
  then have "v_Key v \<notin> v_Key ` set vs" by (auto simp: fun_upd_def split: if_splits)
  moreover have "((lfu_costs s)(v_Key v := None)) |` (- v_Key ` set vs) =
      lfu_costs s |` (- insert (v_Key v) (v_Key ` set vs))"
    by (auto simp: restrict_map_def fun_eq_iff)
  ultimately show ?thesis using assms e
    by (auto simp: evicted_def lfu_costs_Del fun_upd_def split: if_splits)
qed

text \<open>A drawn sample consists of tracked keys with their hashes; a small set is sampled whole.\<close>

lemma lfu_Sample_tracked:
  assumes "lfu_inv s" "lfu_Sample s = Some (s', vs)"
  shows "\<exists>p. s' = s\<lparr>lfu_pos := p\<rparr>"
    "v \<in> set vs \<Longrightarrow> map_option ti_keyHash (lfu_costs s (v_Key v)) = Some (v_KeyHash v)"
    "vs = [] \<longleftrightarrow> lfu_keys s = []"
    "length (lfu_keys s) < 100 \<Longrightarrow> lfu_costs s k = Some item \<Longrightarrow> \<exists>v\<in>set vs. v_KeyHash v = ti_keyHash item"
proof -
  obtain p idxs where s: "s' = s\<lparr>lfu_pos := p\<rparr>" "vs = sample_at s idxs" "distinct idxs"
    "set idxs \<subseteq> {..<length (lfu_keys s)}"
    "length idxs = min (adaptiveSampleSize s) (length (lfu_keys s))"
    using lfu_Sample_spec [OF assms(2)] by blast
  show "\<exists>p. s' = s\<lparr>lfu_pos := p\<rparr>" using s(1) by blast
  show "v \<in> set vs \<Longrightarrow> map_option ti_keyHash (lfu_costs s (v_Key v)) = Some (v_KeyHash v)"
    using sample_at_tracked [OF assms(1) s(4), of v] s(2) by auto
  show "vs = [] \<longleftrightarrow> lfu_keys s = []"
    using s(2,5) adaptiveSampleSize_pos [of s] by (fastforce simp: sample_at_nonempty min_def split: if_splits)
  assume small: "length (lfu_keys s) < 100" and k: "lfu_costs s k = Some item"
  then have "length idxs = length (lfu_keys s)" using s(5) by (simp add: adaptiveSampleSize_def)
  then have all: "set idxs = {..<length (lfu_keys s)}"
    using s(3,4) by (intro card_subset_eq) (auto simp: distinct_card)
  have "k \<in> set (lfu_keys s)" using k assms(1) by (auto simp: lfu_inv_def)
  then obtain i where i: "i \<in> set idxs" "lfu_keys s ! i = k" using all by (auto simp: in_set_conv_nth)
  then have "victim_of s k \<in> set vs" unfolding s(2) sample_at_def by force
  moreover have "v_KeyHash (victim_of s k) = ti_keyHash item" using k by (simp add: victim_of_def)
  ultimately show "\<exists>v\<in>set vs. v_KeyHash v = ti_keyHash item" by blast
qed

text \<open>
  Why the loop stopped: no limit is exceeded, nothing is tracked, or some tracked key is too
  frequent for the incoming key to be admitted over it.
\<close>

definition settled :: "(u64 \<Rightarrow> bool) \<Rightarrow> 'k SampledLFU \<Rightarrow> bool" where
  "settled admits s \<longleftrightarrow>
     \<not> lfu_NeedsEviction s \<or> lfu_keys s = [] \<or>
     (\<exists>k item. lfu_costs s k = Some item \<and> \<not> admits (ti_keyHash item))"

lemma NeedsEviction_pos [simp]: "lfu_NeedsEviction (s\<lparr>lfu_pos := p\<rparr>) = lfu_NeedsEviction s"
  by (simp add: lfu_NeedsEviction_def)

lemma settled_pos [simp]: "settled admits (s\<lparr>lfu_pos := p\<rparr>) = settled admits s"
  by (simp add: settled_def)

lemma find_victims_spec:
  assumes "find_victims estimate admit zero h s vs0 = Some r" "lfu_inv s" "\<And>g. estimate g < max_int64"
  shows "\<exists>vs. snd r = vs0 @ vs \<and> evicted (admit h) s vs (fst r) \<and> settled (admit h) (fst r)"
  using assms
proof (induction estimate admit zero h s vs0 r
    rule: find_victims.raw_induct [rotated, consumes 1, case_names step])
  case (step f estimate admit zero h s vs0 r)
  show ?case
  proof (cases "lfu_NeedsEviction s")
    case False
    then have "r = (s, vs0)" using step(2) by simp
    then show ?thesis using False evicted_none [OF step(3), of "admit h" "lfu_pos s"]
      by (auto simp: settled_def)
  next
    case True
    then obtain s1 sample where sm: "lfu_Sample s = Some (s1, sample)"
      using step(2) by (auto simp: bind_eq_Some_conv)
    note tr = lfu_Sample_tracked [OF step(3) sm]
    obtain p where s1: "s1 = s\<lparr>lfu_pos := p\<rparr>" using tr(1) by blast
    show ?thesis
    proof (cases "sample = []")
      case empty: True
      then have "r = (s1, vs0)" using step(2) True sm by simp
      then show ?thesis using s1 tr(3) empty evicted_none [OF step(3)] by (auto simp: settled_def)
    next
      case False
      define v where "v = pick_victim estimate zero sample"
      have v: "v \<in> set sample" unfolding v_def by (rule pick_victim(1) [OF False step(4)])
      have tv: "map_option ti_keyHash (lfu_costs s (v_Key v)) = Some (v_KeyHash v)" using tr(2) [OF v] .
      show ?thesis
      proof (cases "admit h (v_KeyHash v)")
        case no: False
        then have "r = (s1, vs0)" using step(2) True sm False by (simp add: Let_def v_def)
        moreover have "settled (admit h) s" using tv no unfolding settled_def map_option_eq_Some by metis
        ultimately show ?thesis using s1 evicted_none [OF step(3)] by auto
      next
        case yes: True
        then have f: "f estimate admit zero h (lfu_Del s1 (v_Key v)) (vs0 @ [v]) = Some r"
          using step(2) True sm False by (simp add: Let_def v_def)
        have "lfu_inv (lfu_Del s1 (v_Key v))" using step(3) s1 by (simp add: lfu_inv_del lfu_inv_pos)
        from step(1) [OF f this step(4)] obtain vs where vs: "snd r = (vs0 @ [v]) @ vs"
          "evicted (admit h) (lfu_Del s1 (v_Key v)) vs (fst r)" "settled (admit h) (fst r)" by blast
        then have "evicted (admit h) s (v # vs) (fst r)"
          using evicted_step [where admits = "admit h", OF step(3) tv yes] s1 by blast
        then show ?thesis using vs by (intro exI [of _ "v # vs"]) simp
      qed
    qed
  qed
qed

lemma lfu_Del_shorter:
  assumes "lfu_inv s" "lfu_costs s k \<noteq> None"
  shows "length (lfu_keys (lfu_Del s k)) = length (lfu_keys s) - 1" "lfu_keys s \<noteq> []"
proof -
  have k: "k \<in> set (lfu_keys s)" using assms by (auto simp: lfu_inv_def)
  then show "lfu_keys s \<noteq> []" by auto
  have "card (dom (lfu_costs (lfu_Del s k))) = card (dom (lfu_costs s) - {k})" by (simp add: lfu_costs_Del)
  then show "length (lfu_keys (lfu_Del s k)) = length (lfu_keys s) - 1"
    using assms lfu_inv_card [OF assms(1)] lfu_inv_card [OF lfu_inv_del [OF assms(1)], of k]
      card_Diff_singleton [of k "dom (lfu_costs s)"] by (auto simp: domIff)
qed

text \<open>The loop ends: each round removes a tracked key.\<close>

lemma find_victims_returns:
  assumes "lfu_inv s" "\<And>g. estimate g < max_int64" "fair (lfu_draws s) \<or> length (lfu_keys s) < 100"
  shows "find_victims estimate admit zero h s vs \<noteq> None"
  using assms(1,3)
proof (induction "length (lfu_keys s)" arbitrary: s vs rule: less_induct)
  case less
  show ?case
  proof (cases "lfu_NeedsEviction s")
    case True
    obtain s1 sample where sm: "lfu_Sample s = Some (s1, sample)"
      using lfu_Sample_returns [of s] less.prems(2) by (cases "lfu_Sample s") auto
    note tr = lfu_Sample_tracked [OF less.prems(1) sm]
    obtain p where s1: "s1 = s\<lparr>lfu_pos := p\<rparr>" using tr(1) by blast
    have "find_victims estimate admit zero h (lfu_Del s1 (v_Key v)) (vs @ [v]) \<noteq> None"
      if v: "v \<in> set sample" for v
    proof -
      have i: "lfu_inv s1" using less.prems(1) s1 by (simp add: lfu_inv_pos)
      have "lfu_costs s1 (v_Key v) \<noteq> None" using tr(2) [OF v] s1 by auto
      note d = lfu_Del_shorter [OF i this]
      show ?thesis
        using d s1 less.prems i by (intro less.hyps) (auto simp: lfu_inv_del)
    qed
    moreover have "sample \<noteq> [] \<Longrightarrow> pick_victim estimate zero sample \<in> set sample"
      by (rule pick_victim(1) [OF _ assms(2)])
    ultimately show ?thesis using sm True
      by (subst find_victims.simps) (simp add: Let_def)
  next
    case False
    then show ?thesis by (subst find_victims.simps) simp
  qed
qed

text \<open>
  While fewer than 100 keys are tracked, every sample is the whole set, so the loop is exact
  LFU: no victim is more frequent than a key that survives it.
\<close>

definition cooler :: "(u64 \<Rightarrow> int) \<Rightarrow> 'k victim list \<Rightarrow> 'k SampledLFU \<Rightarrow> bool" where
  "cooler estimate vs s \<longleftrightarrow>
     (\<forall>v\<in>set vs. \<forall>k item. lfu_costs s k = Some item \<longrightarrow> estimate (v_KeyHash v) \<le> estimate (ti_keyHash item))"

lemma find_victims_exact:
  assumes "find_victims estimate admit zero h s vs0 = Some r" "lfu_inv s" "\<And>g. estimate g < max_int64"
    "length (lfu_keys s) < 100" "cooler estimate vs0 s"
  shows "cooler estimate (snd r) (fst r)"
  using assms
proof (induction estimate admit zero h s vs0 r
    rule: find_victims.raw_induct [rotated, consumes 1, case_names step])
  case (step f estimate admit zero h s vs0 r)
  have same: "cooler estimate vs0 (s\<lparr>lfu_pos := p\<rparr>)" for p using step(6) by (simp add: cooler_def)
  show ?case
  proof (cases "lfu_NeedsEviction s")
    case False
    then show ?thesis using step(2,6) by auto
  next
    case True
    then obtain s1 sample where sm: "lfu_Sample s = Some (s1, sample)"
      using step(2) by (auto simp: bind_eq_Some_conv)
    note tr = lfu_Sample_tracked [OF step(3) sm]
    obtain p where s1: "s1 = s\<lparr>lfu_pos := p\<rparr>" using tr(1) by blast
    define v where "v = pick_victim estimate zero sample"
    consider "r = (s1, vs0)" | "sample \<noteq> []" "f estimate admit zero h (lfu_Del s1 (v_Key v)) (vs0 @ [v]) = Some r"
    proof -
      have "sample = [] \<or> \<not> admit h (v_KeyHash v) \<Longrightarrow> r = (s1, vs0)"
        using step(2) True sm by (auto simp: Let_def v_def split: if_splits)
      moreover have "sample \<noteq> [] \<Longrightarrow> admit h (v_KeyHash v) \<Longrightarrow>
          f estimate admit zero h (lfu_Del s1 (v_Key v)) (vs0 @ [v]) = Some r"
        using step(2) True sm by (simp add: Let_def v_def)
      ultimately show thesis using that by blast
    qed
    then show ?thesis
    proof cases
      case 1
      then show ?thesis using s1 same by simp
    next
      case 2
      note v = pick_victim [where zero = zero and estimate = estimate, OF 2(1) step(4), folded v_def]
      have i: "lfu_inv s1" using step(3) s1 by (simp add: lfu_inv_pos)
      have "lfu_costs s1 (v_Key v) \<noteq> None" using tr(2) [OF v(1)] s1 by auto
      then have l: "length (lfu_keys (lfu_Del s1 (v_Key v))) < 100"
        using lfu_Del_shorter(1) [OF i] step(5) s1 by simp
      have "estimate (v_KeyHash v) \<le> estimate (ti_keyHash item)" if "lfu_costs s k = Some item" for k item
        using tr(4) [OF step(5) that] v(2) by metis
      then have "cooler estimate (vs0 @ [v]) (lfu_Del s1 (v_Key v))"
        using step(6) s1 by (auto simp: cooler_def lfu_costs_Del)
      then show ?thesis using step(1) [OF 2(2) lfu_inv_del [OF i] step(4) l] by simp
    qed
  qed
qed

subsection \<open>The interface of a policy\<close>

locale policer =
  fixes add :: "'p \<Rightarrow> 'k \<Rightarrow> u64 \<Rightarrow> int \<Rightarrow> ('p \<times> 'k victim list \<times> bool) option"
    and access :: "'p \<Rightarrow> u64 \<Rightarrow> 'p"
    and has :: "'p \<Rightarrow> 'k \<Rightarrow> bool"
    and del :: "'p \<Rightarrow> 'k \<Rightarrow> u64 \<Rightarrow> 'p"
    and upd :: "'p \<Rightarrow> 'k \<Rightarrow> u64 \<Rightarrow> int \<Rightarrow> 'p"
    and total :: "'p \<Rightarrow> int"
    and count :: "'p \<Rightarrow> int"
    and clear :: "'p \<Rightarrow> 'p"
    and inv :: "'p \<Rightarrow> bool"
    and tracked :: "'p \<Rightarrow> ('k \<rightharpoonup> trackedItem)"
    and live :: "'p \<Rightarrow> bool"
  assumes inv_add: "inv p \<Longrightarrow> add p k h c = Some (p', vs, ok) \<Longrightarrow> inv p'"
    and inv_access: "inv p \<Longrightarrow> inv (access p h)"
    and inv_del: "inv p \<Longrightarrow> inv (del p k h)"
    and inv_upd: "inv p \<Longrightarrow> inv (upd p k h c)"
    and inv_clear: "inv p \<Longrightarrow> inv (clear p)"
    and finite_tracked: "inv p \<Longrightarrow> finite (dom (tracked p))"
    and add_returns: "inv p \<Longrightarrow> live p \<Longrightarrow> add p k h c \<noteq> None"
    and add_live: "inv p \<Longrightarrow> add p k h c = Some (p', vs, ok) \<Longrightarrow> live p' = live p"
    and live_same: "live (access p h) = live p" "live (del p k h) = live p"
      "live (upd p k h c) = live p" "live (clear p) = live p"
    and add_accepts: "inv p \<Longrightarrow> add p k h c = Some (p', vs, ok) \<Longrightarrow> ok"
    and tracked_add: "inv p \<Longrightarrow> add p k h c = Some (p', vs, ok) \<Longrightarrow>
      tracked p' = (tracked p |` (- v_Key ` set vs))(k \<mapsto> \<lparr>ti_keyHash = h, ti_cost = c\<rparr>)"
    and add_victims: "inv p \<Longrightarrow> add p k h c = Some (p', vs, ok) \<Longrightarrow> distinct (map v_Key vs)"
      "inv p \<Longrightarrow> add p k h c = Some (p', vs, ok) \<Longrightarrow> v \<in> set vs \<Longrightarrow>
        v_Key v \<noteq> k \<and> map_option ti_keyHash (tracked p (v_Key v)) = Some (v_KeyHash v)"
    and tracked_access: "tracked (access p h) = tracked p"
    and has_tracked: "has p k \<longleftrightarrow> k \<in> dom (tracked p)"
    and tracked_del: "tracked (del p k h) = (tracked p)(k := None)"
    and tracked_upd: "tracked (upd p k h c) =
      (if k \<in> dom (tracked p) then (tracked p)(k \<mapsto> \<lparr>ti_keyHash = h, ti_cost = c\<rparr>) else tracked p)"
    and tracked_clear: "tracked (clear p) = Map.empty"
    and total_tracked: "inv p \<Longrightarrow> total p = i64 (map_sum ti_cost (tracked p))"
    and count_tracked: "inv p \<Longrightarrow> count p = i64 (int (card (dom (tracked p))))"
begin

lemma has_add: "inv p \<Longrightarrow> add p k h c = Some (p', vs, ok) \<Longrightarrow>
    has p' x \<longleftrightarrow> x = k \<or> has p x \<and> x \<notin> v_Key ` set vs"
  by (auto simp: has_tracked tracked_add restrict_map_def split: if_splits)

lemma has_del: "has (del p k h) x \<longleftrightarrow> has p x \<and> x \<noteq> k"
  by (auto simp: has_tracked tracked_del)

lemma victims_tracked: "inv p \<Longrightarrow> add p k h c = Some (p', vs, ok) \<Longrightarrow> v \<in> set vs \<Longrightarrow> has p (v_Key v)"
  using add_victims(2) by (force simp: has_tracked)

lemma count_add:
  assumes "inv p" "add p k h c = Some (p', vs, ok)"
  shows "count p' = i64 (count p - int (length vs) + (if has p k then 0 else 1))"
proof -
  let ?D = "dom (tracked p)" and ?V = "v_Key ` set vs"
  have V: "?V \<subseteq> ?D" "k \<notin> ?V" using add_victims(2) [OF assms] by force+
  have c: "card ?V = length vs"
    using add_victims(1) [OF assms] by (metis distinct_card length_map set_map)
  have "dom (tracked p') = insert k (?D - ?V)" using tracked_add [OF assms] by auto
  then have "card (dom (tracked p')) = card (?D - ?V) + (if has p k then 0 else 1)"
    using finite_tracked [OF assms(1)] V(2) by (auto simp: has_tracked insert_absorb)
  moreover have "int (card (?D - ?V)) = int (card ?D) - int (length vs)"
    using finite_tracked [OF assms(1)] V(1) c card_mono [of ?D ?V]
    by (simp add: card_Diff_subset finite_subset of_nat_diff)
  ultimately have "int (card (dom (tracked p'))) = int (card ?D) - int (length vs) + (if has p k then 0 else 1)"
    by simp
  then show ?thesis
    using count_tracked [OF assms(1)] count_tracked [OF inv_add [OF assms]]
    by (metis (no_types, lifting) add_diff_eq diff_add_eq i64_add_left i64_diff_left)
qed

end

definition pol_inv :: "'k Policy \<Rightarrow> bool" where
  "pol_inv p \<longleftrightarrow> tl_inv (pol_admit p) \<and> lfu_inv (pol_evict p)"

definition pol_tracked :: "'k Policy \<Rightarrow> ('k \<rightharpoonup> trackedItem)" where
  "pol_tracked p = lfu_costs (pol_evict p)"

definition pol_live :: "'k Policy \<Rightarrow> bool" where
  "pol_live p \<longleftrightarrow> fair (lfu_draws (pol_evict p))"

lemmas pol_defs = pol_inv_def pol_tracked_def pol_live_def

lemma lfu_draws_same [simp]:
  "lfu_draws (lfu_Add s k h c) = lfu_draws s" "lfu_draws (lfu_Update s k h c) = lfu_draws s"
  "lfu_draws (lfu_Clear s) = lfu_draws s"
  by (simp_all add: lfu_Add_def lfu_Update_def lfu_Clear_def split: option.split)

lemma lfu_totals:
  "lfu_inv s \<Longrightarrow> lfu_UsedCost s = i64 (map_sum ti_cost (lfu_costs s))"
  "lfu_inv s \<Longrightarrow> lfu_NumEntries s = i64 (int (card (dom (lfu_costs s))))"
  by (simp_all add: lfu_UsedCost_def lfu_NumEntries_def lfu_inv_def distinct_card)

lemma pol_Add_cases:
  assumes "pol_inv p" "pol_Add p k h c = Some (p', vs, ok)"
  shows "ok" "pol_admit p' = tl_Increment (pol_admit p) h"
    "lfu_Has (pol_evict p) k \<Longrightarrow> vs = [] \<and> pol_evict p' = lfu_Update (pol_evict p) k h c"
    "\<not> lfu_Has (pol_evict p) k \<Longrightarrow> \<exists>s. evicted (tl_Admit (pol_admit p') h) (pol_evict p) vs s \<and>
       settled (tl_Admit (pol_admit p') h) s \<and> pol_evict p' = lfu_Add s k h c"
proof -
  show "ok" "pol_admit p' = tl_Increment (pol_admit p) h"
    "lfu_Has (pol_evict p) k \<Longrightarrow> vs = [] \<and> pol_evict p' = lfu_Update (pol_evict p) k h c"
    using assms(2)
    by (auto simp: pol_Add_def pol_findVictimsLocked_def Let_def bind_eq_Some_conv split: if_splits)
  note a = this(2)
  let ?a = "tl_Increment (pol_admit p) h"
  assume "\<not> lfu_Has (pol_evict p) k"
  then obtain s where s: "find_victims (tl_Estimate ?a) (tl_Admit ?a) (pol_zero p) h (pol_evict p) [] = Some (s, vs)"
    "pol_evict p' = lfu_Add s k h c"
    using assms(2) by (auto simp: pol_Add_def pol_findVictimsLocked_def Let_def bind_eq_Some_conv)
  have "tl_inv ?a" using assms(1) by (auto simp: pol_inv_def intro: tl.inv_increment)
  then have "tl_Estimate ?a g < max_int64" for g by (rule tl.estimate_below_max)
  then show "\<exists>s. evicted (tl_Admit (pol_admit p') h) (pol_evict p) vs s \<and>
       settled (tl_Admit (pol_admit p') h) s \<and> pol_evict p' = lfu_Add s k h c"
    using find_victims_spec [OF s(1)] assms(1) s(2) a by (auto simp: pol_inv_def)
qed

lemma pol_Add_returns:
  assumes "pol_inv p" "fair (lfu_draws (pol_evict p)) \<or> length (lfu_keys (pol_evict p)) < 100"
  shows "pol_Add p k h c \<noteq> None"
proof -
  have "tl_inv (tl_Increment (pol_admit p) h)" using assms(1) by (auto simp: pol_inv_def intro: tl.inv_increment)
  then have "tl_Estimate (tl_Increment (pol_admit p) h) g < max_int64" for g by (rule tl.estimate_below_max)
  then have "find_victims (tl_Estimate (tl_Increment (pol_admit p) h)) (tl_Admit (tl_Increment (pol_admit p) h))
      (pol_zero p) h (pol_evict p) [] \<noteq> None"
    using assms by (intro find_victims_returns) (auto simp: pol_inv_def)
  then obtain r where "find_victims (tl_Estimate (tl_Increment (pol_admit p) h))
      (tl_Admit (tl_Increment (pol_admit p) h)) (pol_zero p) h (pol_evict p) [] = Some r" by blast
  then show ?thesis
    by (cases r) (auto simp: pol_Add_def pol_findVictimsLocked_def Let_def)
qed

lemma lfu_costs_Clear: "lfu_costs (lfu_Clear s) = Map.empty"
  by (simp add: lfu_Clear_def)

lemmas lfu_costs_simps = lfu_costs_Clear lfu_costs_Del lfu_costs_Update lfu_costs_Add

lemmas pol_ops = pol_Access_def pol_Has_def pol_Del_def pol_Update_def pol_Cost_def
  pol_NumEntries_def pol_Clear_def

lemma has_dom: "lfu_Has s k \<longleftrightarrow> k \<in> dom (lfu_costs s)"
  by (auto simp: lfu_Has_def)

lemma evicted_add:
  assumes "evicted admits s vs s'" "k \<notin> dom (lfu_costs s)" "v \<in> set vs"
  shows "v_Key v \<noteq> k" "map_option ti_keyHash (lfu_costs s (v_Key v)) = Some (v_KeyHash v)"
  using assms by (auto simp: evicted_def domIff)

interpretation pl: policer pol_Add pol_Access pol_Has pol_Del pol_Update pol_Cost pol_NumEntries
  pol_Clear pol_inv pol_tracked pol_live
proof (unfold_locales, goal_cases)
  case (1 p k h c p' vs ok)
  note a = pol_Add_cases [OF 1]
  have "tl_inv (pol_admit p')" using 1(1) a(2) by (auto simp: pol_inv_def intro: tl.inv_increment)
  moreover have "lfu_inv (pol_evict p')"
    using 1(1) a(3,4) by (cases "lfu_Has (pol_evict p) k")
      (auto simp: pol_inv_def evicted_def intro: lfu_inv_update lfu_inv_add)
  ultimately show ?case by (simp add: pol_inv_def)
next
  case (7 p k h c)
  then show ?case by (intro pol_Add_returns) (auto simp: pol_defs)
next
  case (8 p k h c p' vs ok)
  note a = pol_Add_cases [OF 8]
  show ?case using a(3,4) by (cases "lfu_Has (pol_evict p) k") (auto simp: pol_live_def evicted_def)
next
  case (13 p k h c p' vs ok)
  then show ?case by (rule pol_Add_cases)
next
  case (14 p k h c p' vs ok)
  note a = pol_Add_cases [OF 14]
  show ?case using a(3,4)
    by (cases "lfu_Has (pol_evict p) k")
      (auto simp: pol_tracked_def evicted_def lfu_costs_Add lfu_costs_Update lfu_Has_def restrict_map_def)
next
  case (15 p k h c p' vs ok)
  note a = pol_Add_cases [OF 15]
  show ?case using a(3,4) by (cases "lfu_Has (pol_evict p) k") (auto simp: evicted_def)
next
  case (16 p k h c p' vs ok v)
  note a = pol_Add_cases [OF 16(1,2)]
  have n: "\<not> lfu_Has (pol_evict p) k" using a(3) 16(3) by auto
  then obtain s where "evicted (tl_Admit (pol_admit p') h) (pol_evict p) vs s" using a(4) by blast
  from evicted_add [OF this _ 16(3)] n show ?case by (simp add: has_dom pol_tracked_def)
qed (simp_all add: pol_defs pol_ops has_dom lfu_totals lfu_costs_simps lfu_preserves
    tl.inv_increment tl.inv_clear lfu_inv_finite domIff)

subsection \<open>The lock-free policy meets the same contract\<close>

definition plf_inv :: "'k PolicyLockFree \<Rightarrow> bool" where
  "plf_inv p \<longleftrightarrow> tf_inv (plf_admit p) \<and> lfu_inv (plf_evict p)"

definition plf_tracked :: "'k PolicyLockFree \<Rightarrow> ('k \<rightharpoonup> trackedItem)" where
  "plf_tracked p = lfu_costs (plf_evict p)"

definition plf_live :: "'k PolicyLockFree \<Rightarrow> bool" where
  "plf_live p \<longleftrightarrow> fair (lfu_draws (plf_evict p))"

lemmas plf_defs = plf_inv_def plf_tracked_def plf_live_def

lemma plf_Add_cases:
  assumes "plf_inv p" "plf_Add p k h c = Some (p', vs, ok)"
  shows "ok" "plf_admit p' = tf_Increment (plf_admit p) h"
    "lfu_Has (plf_evict p) k \<Longrightarrow> vs = [] \<and> plf_evict p' = lfu_Update (plf_evict p) k h c"
    "\<not> lfu_Has (plf_evict p) k \<Longrightarrow> \<exists>s. evicted (tf_Admit (plf_admit p') h) (plf_evict p) vs s \<and>
       settled (tf_Admit (plf_admit p') h) s \<and> plf_evict p' = lfu_Add s k h c"
proof -
  show "ok" "plf_admit p' = tf_Increment (plf_admit p) h"
    "lfu_Has (plf_evict p) k \<Longrightarrow> vs = [] \<and> plf_evict p' = lfu_Update (plf_evict p) k h c"
    using assms(2)
    by (auto simp: plf_Add_def plf_findVictimsLocked_def Let_def bind_eq_Some_conv split: if_splits)
  note a = this(2)
  let ?a = "tf_Increment (plf_admit p) h"
  assume "\<not> lfu_Has (plf_evict p) k"
  then obtain s where s: "find_victims (tf_Estimate ?a) (tf_Admit ?a) (plf_zero p) h (plf_evict p) [] = Some (s, vs)"
    "plf_evict p' = lfu_Add s k h c"
    using assms(2) by (auto simp: plf_Add_def plf_findVictimsLocked_def Let_def bind_eq_Some_conv)
  have "tf_inv ?a" using assms(1) by (auto simp: plf_inv_def intro: tf.inv_increment)
  then have "tf_Estimate ?a g < max_int64" for g by (rule tf.estimate_below_max)
  then show "\<exists>s. evicted (tf_Admit (plf_admit p') h) (plf_evict p) vs s \<and>
       settled (tf_Admit (plf_admit p') h) s \<and> plf_evict p' = lfu_Add s k h c"
    using find_victims_spec [OF s(1)] assms(1) s(2) a by (auto simp: plf_inv_def)
qed

lemma plf_Add_returns:
  assumes "plf_inv p" "fair (lfu_draws (plf_evict p)) \<or> length (lfu_keys (plf_evict p)) < 100"
  shows "plf_Add p k h c \<noteq> None"
proof -
  have "tf_inv (tf_Increment (plf_admit p) h)" using assms(1) by (auto simp: plf_inv_def intro: tf.inv_increment)
  then have "tf_Estimate (tf_Increment (plf_admit p) h) g < max_int64" for g by (rule tf.estimate_below_max)
  then have "find_victims (tf_Estimate (tf_Increment (plf_admit p) h)) (tf_Admit (tf_Increment (plf_admit p) h))
      (plf_zero p) h (plf_evict p) [] \<noteq> None"
    using assms by (intro find_victims_returns) (auto simp: plf_inv_def)
  then obtain r where "find_victims (tf_Estimate (tf_Increment (plf_admit p) h))
      (tf_Admit (tf_Increment (plf_admit p) h)) (plf_zero p) h (plf_evict p) [] = Some r" by blast
  then show ?thesis
    by (cases r) (auto simp: plf_Add_def plf_findVictimsLocked_def Let_def)
qed

lemmas plf_ops = plf_Access_def plf_Has_def plf_Del_def plf_Update_def plf_Cost_def
  plf_NumEntries_def plf_Clear_def

interpretation plf: policer plf_Add plf_Access plf_Has plf_Del plf_Update plf_Cost plf_NumEntries
  plf_Clear plf_inv plf_tracked plf_live
proof (unfold_locales, goal_cases)
  case (1 p k h c p' vs ok)
  note a = plf_Add_cases [OF 1]
  have "tf_inv (plf_admit p')" using 1(1) a(2) by (auto simp: plf_inv_def intro: tf.inv_increment)
  moreover have "lfu_inv (plf_evict p')"
    using 1(1) a(3,4) by (cases "lfu_Has (plf_evict p) k")
      (auto simp: plf_inv_def evicted_def intro: lfu_inv_update lfu_inv_add)
  ultimately show ?case by (simp add: plf_inv_def)
next
  case (7 p k h c)
  then show ?case by (intro plf_Add_returns) (auto simp: plf_defs)
next
  case (8 p k h c p' vs ok)
  note a = plf_Add_cases [OF 8]
  show ?case using a(3,4) by (cases "lfu_Has (plf_evict p) k") (auto simp: plf_live_def evicted_def)
next
  case (13 p k h c p' vs ok)
  then show ?case by (rule plf_Add_cases)
next
  case (14 p k h c p' vs ok)
  note a = plf_Add_cases [OF 14]
  show ?case using a(3,4)
    by (cases "lfu_Has (plf_evict p) k")
      (auto simp: plf_tracked_def evicted_def lfu_costs_Add lfu_costs_Update lfu_Has_def restrict_map_def)
next
  case (15 p k h c p' vs ok)
  note a = plf_Add_cases [OF 15]
  show ?case using a(3,4) by (cases "lfu_Has (plf_evict p) k") (auto simp: evicted_def)
next
  case (16 p k h c p' vs ok v)
  note a = plf_Add_cases [OF 16(1,2)]
  have n: "\<not> lfu_Has (plf_evict p) k" using a(3) 16(3) by auto
  then obtain s where "evicted (tf_Admit (plf_admit p') h) (plf_evict p) vs s" using a(4) by blast
  from evicted_add [OF this _ 16(3)] n show ?case by (simp add: has_dom plf_tracked_def)
qed (simp_all add: plf_defs plf_ops has_dom lfu_totals lfu_costs_simps lfu_preserves
    tf.inv_increment tf.inv_clear lfu_inv_finite domIff)

lemma plf_AccessBatch:
  "plf_tracked (plf_AccessBatch p hs) = plf_tracked p" "plf_live (plf_AccessBatch p hs) = plf_live p"
  "plf_inv p \<Longrightarrow> int (length hs) < 2 ^ 62 \<Longrightarrow> plf_inv (plf_AccessBatch p hs)"
  by (simp_all add: plf_AccessBatch_def plf_defs tf_IncrementBatch_inv)

subsection \<open>The interface value\<close>

text \<open>The cache holds one of the two policies behind the interface \<open>Policer\<close>.\<close>

datatype 'k Policer = Locked "'k Policy" | LockFree "'k PolicyLockFree"

fun Policer_Add :: "'k Policer \<Rightarrow> 'k \<Rightarrow> u64 \<Rightarrow> int \<Rightarrow> ('k Policer \<times> 'k victim list \<times> bool) option" where
  "Policer_Add (Locked p) key keyHash cost = map_option (apfst Locked) (pol_Add p key keyHash cost)"
| "Policer_Add (LockFree p) key keyHash cost = map_option (apfst LockFree) (plf_Add p key keyHash cost)"

fun Policer_Access :: "'k Policer \<Rightarrow> u64 \<Rightarrow> 'k Policer" where
  "Policer_Access (Locked p) keyHash = Locked (pol_Access p keyHash)"
| "Policer_Access (LockFree p) keyHash = LockFree (plf_Access p keyHash)"

fun Policer_Has :: "'k Policer \<Rightarrow> 'k \<Rightarrow> bool" where
  "Policer_Has (Locked p) key = pol_Has p key"
| "Policer_Has (LockFree p) key = plf_Has p key"

fun Policer_Del :: "'k Policer \<Rightarrow> 'k \<Rightarrow> u64 \<Rightarrow> 'k Policer" where
  "Policer_Del (Locked p) key keyHash = Locked (pol_Del p key keyHash)"
| "Policer_Del (LockFree p) key keyHash = LockFree (plf_Del p key keyHash)"

fun Policer_Update :: "'k Policer \<Rightarrow> 'k \<Rightarrow> u64 \<Rightarrow> int \<Rightarrow> 'k Policer" where
  "Policer_Update (Locked p) key keyHash cost = Locked (pol_Update p key keyHash cost)"
| "Policer_Update (LockFree p) key keyHash cost = LockFree (plf_Update p key keyHash cost)"

fun Policer_Cost :: "'k Policer \<Rightarrow> int" where
  "Policer_Cost (Locked p) = pol_Cost p"
| "Policer_Cost (LockFree p) = plf_Cost p"

fun Policer_NumEntries :: "'k Policer \<Rightarrow> int" where
  "Policer_NumEntries (Locked p) = pol_NumEntries p"
| "Policer_NumEntries (LockFree p) = plf_NumEntries p"

fun Policer_Clear :: "'k Policer \<Rightarrow> 'k Policer" where
  "Policer_Clear (Locked p) = Locked (pol_Clear p)"
| "Policer_Clear (LockFree p) = LockFree (plf_Clear p)"

fun Policer_SetMaxCost :: "'k Policer \<Rightarrow> int \<Rightarrow> 'k Policer" where
  "Policer_SetMaxCost (Locked p) maxCost = Locked (pol_SetMaxCost p maxCost)"
| "Policer_SetMaxCost (LockFree p) maxCost = LockFree (plf_SetMaxCost p maxCost)"

fun Policer_SetMaxEntries :: "'k Policer \<Rightarrow> int \<Rightarrow> 'k Policer" where
  "Policer_SetMaxEntries (Locked p) maxEntries = Locked (pol_SetMaxEntries p maxEntries)"
| "Policer_SetMaxEntries (LockFree p) maxEntries = LockFree (plf_SetMaxEntries p maxEntries)"

fun Policer_inv :: "'k Policer \<Rightarrow> bool" where
  "Policer_inv (Locked p) = pol_inv p"
| "Policer_inv (LockFree p) = plf_inv p"

fun Policer_tracked :: "'k Policer \<Rightarrow> ('k \<rightharpoonup> trackedItem)" where
  "Policer_tracked (Locked p) = pol_tracked p"
| "Policer_tracked (LockFree p) = plf_tracked p"

fun Policer_live :: "'k Policer \<Rightarrow> bool" where
  "Policer_live (Locked p) = pol_live p"
| "Policer_live (LockFree p) = plf_live p"

lemma Policer_Add_cases:
  assumes "Policer_Add p k h c = Some (p', vs, ok)"
  obtains q q' where "p = Locked q" "p' = Locked q'" "pol_Add q k h c = Some (q', vs, ok)"
  | q q' where "p = LockFree q" "p' = LockFree q'" "plf_Add q k h c = Some (q', vs, ok)"
  using assms by (cases p) auto

interpretation po: policer Policer_Add Policer_Access Policer_Has Policer_Del Policer_Update
  Policer_Cost Policer_NumEntries Policer_Clear Policer_inv Policer_tracked Policer_live
proof (unfold_locales, goal_cases)
  case (1 p k h c p' vs ok)
  from 1(2,1) show ?case by (cases rule: Policer_Add_cases) (auto intro: pl.inv_add plf.inv_add)
next
  case (2 p h)
  then show ?case by (cases p) (auto intro: pl.inv_access plf.inv_access)
next
  case (3 p k h)
  then show ?case by (cases p) (auto intro: pl.inv_del plf.inv_del)
next
  case (4 p k h c)
  then show ?case by (cases p) (auto intro: pl.inv_upd plf.inv_upd)
next
  case (5 p)
  then show ?case by (cases p) (auto intro: pl.inv_clear plf.inv_clear)
next
  case (6 p)
  then show ?case by (cases p) (auto intro: pl.finite_tracked plf.finite_tracked)
next
  case (7 p k h c)
  then show ?case
    using pl.add_returns [of _ k h c] plf.add_returns [of _ k h c] by (cases p) auto
next
  case (8 p k h c p' vs ok)
  from 8(2,1) show ?case by (cases rule: Policer_Add_cases) (auto dest: pl.add_live plf.add_live)
next
  case (9 p h)
  show ?case by (cases p) (auto simp: pl.live_same plf.live_same)
next
  case (10 p k h)
  show ?case by (cases p) (auto simp: pl.live_same plf.live_same)
next
  case (11 p k h c)
  show ?case by (cases p) (auto simp: pl.live_same plf.live_same)
next
  case (12 p)
  show ?case by (cases p) (auto simp: pl.live_same plf.live_same)
next
  case (13 p k h c p' vs ok)
  from 13(2,1) show ?case by (cases rule: Policer_Add_cases) (auto dest: pl.add_accepts plf.add_accepts)
next
  case (14 p k h c p' vs ok)
  from 14(2,1) show ?case by (cases rule: Policer_Add_cases) (auto dest: pl.tracked_add plf.tracked_add)
next
  case (15 p k h c p' vs ok)
  from 15(2,1) show ?case by (cases rule: Policer_Add_cases) (auto dest: pl.add_victims plf.add_victims)
next
  case (16 p k h c p' vs ok v)
  from 16(2,1,3) show ?case
    by (cases rule: Policer_Add_cases) (auto dest: pl.add_victims(2) plf.add_victims(2))
next
  case (17 p h)
  show ?case by (cases p) (auto simp: pl.tracked_access plf.tracked_access)
next
  case (18 p k)
  show ?case by (cases p) (auto simp: pl.has_tracked plf.has_tracked)
next
  case (19 p k h)
  show ?case by (cases p) (auto simp: pl.tracked_del plf.tracked_del)
next
  case (20 p k h c)
  show ?case by (cases p) (auto simp: pl.tracked_upd plf.tracked_upd)
next
  case (21 p)
  show ?case by (cases p) (auto simp: pl.tracked_clear plf.tracked_clear)
next
  case (22 p)
  then show ?case by (cases p) (auto simp: pl.total_tracked plf.total_tracked)
next
  case (23 p)
  then show ?case by (cases p) (auto simp: pl.count_tracked plf.count_tracked)
qed

end
