(* ===== verification/Hash.thy ===== *)
theory Hash
  imports Prelude
begin

text \<open>
  \<open>internal/hash/fnv.go\<close>: FNV-1a on strings and byte slices, the splitmix64 finaliser on
  integer keys, and the chunked hash for long inputs. The dispatch on the dynamic type of a key
  (\<open>defaultHash\<close> of \<open>internal/store/sharded.go\<close>, \<open>defaultKeyHasher\<close> of \<open>cache.go\<close>) is here
  too: \<open>go_any\<close> is the value of \<open>any(key)\<close>, with a constructor per case of the switches.
  A Go string is a sequence of bytes, the characters of HOL.
\<close>

definition offset64 :: u64 where "offset64 = 14695981039346656037"
definition prime64 :: u64 where "prime64 = 1099511628211"

definition byte_of :: "char \<Rightarrow> u64" where "byte_of c = of_nat (of_char c)"

definition fnv_step :: "u64 \<Rightarrow> u64 \<Rightarrow> u64" where
  "fnv_step h b = (h XOR b) * prime64"

definition hash_String :: "string \<Rightarrow> u64" where
  "hash_String s = foldl (\<lambda>h c. fnv_step h (byte_of c)) offset64 s"

definition hash_Bytes :: "byte list \<Rightarrow> u64" where
  "hash_Bytes b = foldl (\<lambda>h c. fnv_step h (ucast c)) offset64 b"

definition hash_Uint64 :: "u64 \<Rightarrow> u64" where
  "hash_Uint64 k =
     (let x = k;
          x = x XOR drop_bit 30 x;
          x = x * 0xbf58476d1ce4e5b9;
          x = x XOR drop_bit 27 x;
          x = x * 0x94d049bb133111eb;
          x = x XOR drop_bit 31 x
      in x)"

definition hash_Int64 :: "int \<Rightarrow> u64" where
  "hash_Int64 k =
     (let x = word_of_int k;
          x = x XOR drop_bit 30 x;
          x = x * 0xbf58476d1ce4e5b9;
          x = x XOR drop_bit 27 x;
          x = x * 0x94d049bb133111eb;
          x = x XOR drop_bit 31 x
      in x)"

definition hash_Int :: "int \<Rightarrow> u64" where "hash_Int k = hash_Int64 k"
definition hash_Uint :: "u64 \<Rightarrow> u64" where "hash_Uint k = hash_Uint64 k"
definition hash_Int32 :: "int \<Rightarrow> u64" where "hash_Int32 k = hash_Int64 k"
definition hash_Uint32 :: "u32 \<Rightarrow> u64" where "hash_Uint32 k = hash_Uint64 (ucast k)"

definition hash_Combine :: "u64 \<Rightarrow> u64 \<Rightarrow> u64" where
  "hash_Combine h1 h2 = h1 XOR (h2 + 0x9e3779b97f4a7c15 + push_bit 12 h1 + drop_bit 4 h1)"

subsection \<open>Long inputs\<close>

text \<open>
  \<open>stringFastLong\<close> reads eight bytes at a time as a little-endian word, then the rest byte by
  byte. \<open>BytesFast\<close> contains the same loop on a slice.
\<close>

fun le64 :: "u64 list \<Rightarrow> u64" where
  "le64 [] = 0"
| "le64 (b # bs) = b OR push_bit 8 (le64 bs)"

function fast_loop :: "u64 \<Rightarrow> u64 list \<Rightarrow> u64" where
  "fast_loop h s =
     (if 8 \<le> length s
      then fast_loop (word_rotl 31 ((h XOR le64 (take 8 s)) * prime64)) (drop 8 s)
      else foldl fnv_step h s)"
  by pat_completeness auto
termination by (relation "measure (\<lambda>(h, s). length s)") auto

declare fast_loop.simps [simp del]

definition stringFastLong :: "string \<Rightarrow> u64" where
  "stringFastLong s = fast_loop offset64 (map byte_of s)"

definition hash_StringFast :: "string \<Rightarrow> u64" where
  "hash_StringFast s = (if length s < 32 then hash_String s else stringFastLong s)"

definition hash_BytesFast :: "byte list \<Rightarrow> u64" where
  "hash_BytesFast b = (if length b < 32 then hash_Bytes b else fast_loop offset64 (map ucast b))"

subsection \<open>Hashing a key by its dynamic type\<close>

text \<open>
  The types that only \<open>defaultKeyHasher\<close> knows are listed apart: \<open>GoOther\<close> carries the value of such
  a type, or \<open>RAny\<close> for the remaining ones, and the text that \<open>fmt.Sprintf("%v")\<close> gives for it. The
  floats are their bit patterns, which is what the hasher reads.
\<close>

datatype go_rest =
    RInt8 int
  | RInt16 int
  | RUint u64
  | RUint8 byte
  | RUint16 u16
  | RFloat32 u32
  | RFloat64 u64
  | RBool bool
  | RUintptr u64
  | RAny

datatype go_any =
    GoString string
  | GoInt int
  | GoInt64 int
  | GoUint64 u64
  | GoInt32 int
  | GoUint32 u32
  | GoOther go_rest string

definition anyToString :: "go_any \<Rightarrow> string \<Rightarrow> string" where
  "anyToString key sprint = (case key of GoString k \<Rightarrow> k | _ \<Rightarrow> sprint)"

definition defaultHash :: "go_any \<Rightarrow> u64" where
  "defaultHash key =
     (case key of
        GoString k \<Rightarrow> hash_String k
      | GoInt k \<Rightarrow> hash_Int k
      | GoInt64 k \<Rightarrow> hash_Int64 k
      | GoUint64 k \<Rightarrow> hash_Uint64 k
      | GoInt32 k \<Rightarrow> hash_Int32 k
      | GoUint32 k \<Rightarrow> hash_Uint32 k
      | GoOther rest sprint \<Rightarrow> hash_String (anyToString key sprint))"

definition defaultKeyHasher :: "go_any \<Rightarrow> u64" where
  "defaultKeyHasher key =
     (case key of
        GoString k \<Rightarrow> hash_String k
      | GoInt k \<Rightarrow> hash_Int k
      | GoOther (RInt8 k) _ \<Rightarrow> hash_Int k
      | GoOther (RInt16 k) _ \<Rightarrow> hash_Int k
      | GoInt32 k \<Rightarrow> hash_Int32 k
      | GoInt64 k \<Rightarrow> hash_Int64 k
      | GoOther (RUint k) _ \<Rightarrow> hash_Uint64 k
      | GoOther (RUint8 k) _ \<Rightarrow> hash_Uint64 (ucast k)
      | GoOther (RUint16 k) _ \<Rightarrow> hash_Uint64 (ucast k)
      | GoUint32 k \<Rightarrow> hash_Uint32 k
      | GoUint64 k \<Rightarrow> hash_Uint64 k
      | GoOther (RFloat32 bits) _ \<Rightarrow> hash_Uint32 bits
      | GoOther (RFloat64 bits) _ \<Rightarrow> hash_Uint64 bits
      | GoOther (RBool k) _ \<Rightarrow> if k then hash_Uint64 1 else hash_Uint64 0
      | GoOther (RUintptr k) _ \<Rightarrow> hash_Uint64 k
      | GoOther RAny s \<Rightarrow> hash_String s)"

text \<open>\<open>Pointer\<close>: the hash of an address.\<close>

definition hash_Pointer :: "u64 \<Rightarrow> u64" where "hash_Pointer p = hash_Uint64 p"

subsection \<open>The integer hashes are injective\<close>

lemma hash_Uint64_inj:
  assumes "hash_Uint64 a = hash_Uint64 b"
  shows "a = b"
proof -
  let ?c1 = "0xbf58476d1ce4e5b9 :: u64" and ?c2 = "0x94d049bb133111eb :: u64"
  define f where "f x = (x XOR drop_bit 30 x) * ?c1" for x :: u64
  define g where "g x = (x XOR drop_bit 27 x) * ?c2" for x :: u64
  have h: "hash_Uint64 x = g (f x) XOR drop_bit 31 (g (f x))" for x
    by (simp only: hash_Uint64_def Let_def f_def g_def)
  have "g (f a) = g (f b)" using assms unfolding h by (rule xorshift_inj) simp
  then have "f a XOR drop_bit 27 (f a) = f b XOR drop_bit 27 (f b)"
    unfolding g_def by (rule mult_odd_inj [where d = 3573116690164977347]) simp
  then have "f a = f b" by (rule xorshift_inj) simp
  then have "a XOR drop_bit 30 a = b XOR drop_bit 30 b"
    unfolding f_def by (rule mult_odd_inj [where d = 10871156337175269513]) simp
  then show "a = b" by (rule xorshift_inj) simp
qed

lemma hash_Int64_Uint64: "hash_Int64 k = hash_Uint64 (word_of_int k)"
  by (simp only: hash_Int64_def hash_Uint64_def Let_def)

lemma hash_Int64_inj:
  assumes "hash_Int64 a = hash_Int64 b" "i64 a = a" "i64 b = b"
  shows "a = b"
proof -
  have "(word_of_int a :: u64) = word_of_int b"
    using assms(1) unfolding hash_Int64_Uint64 by (rule hash_Uint64_inj)
  then have "a mod 2 ^ 64 = b mod 2 ^ 64"
    by (simp add: word_of_int_eq_iff take_bit_eq_mod)
  then show ?thesis using assms(2,3) i64_eq_iff by metis
qed

lemma hash_Uint32_inj: "hash_Uint32 a = hash_Uint32 b \<Longrightarrow> a = b"
proof -
  assume "hash_Uint32 a = hash_Uint32 b"
  then have "(ucast a :: u64) = ucast b" unfolding hash_Uint32_def by (rule hash_Uint64_inj)
  then have "unat (ucast a :: u64) = unat (ucast b :: u64)" by simp
  moreover have "unat a < 2 ^ 32" "unat b < 2 ^ 32"
    using unsigned_less [of a] unsigned_less [of b] by simp_all
  ultimately show "a = b" by (simp add: unsigned_ucast_eq take_bit_eq_mod word_unat_eq_iff)
qed

text \<open>
  The two hashers for keys of unknown type agree on the types both know and on those neither knows;
  on the others \<open>defaultHash\<close> hashes the printed value, and \<open>defaultKeyHasher\<close> the number itself.
\<close>

lemma default_hashers_agree:
  "(\<forall>r s. key = GoOther r s \<longrightarrow> r = RAny) \<Longrightarrow> defaultKeyHasher key = defaultHash key"
  by (cases key) (auto simp: defaultKeyHasher_def defaultHash_def anyToString_def)

lemma default_hashers_differ:
  "defaultKeyHasher (GoOther (RUint8 7) ''7'') \<noteq> defaultHash (GoOther (RUint8 7) ''7'')"
  by code_simp

lemma defaultKeyHasher_bool:
  "defaultKeyHasher (GoOther (RBool a) s) = defaultKeyHasher (GoOther (RBool b) t) \<longleftrightarrow> a = b"
proof -
  have "hash_Uint64 1 \<noteq> hash_Uint64 0" using hash_Uint64_inj [of 1 0] by auto
  then show ?thesis by (cases a; cases b) (simp_all add: defaultKeyHasher_def)
qed

subsection \<open>The string and byte hashes agree\<close>

lemma byte_of_ucast: "byte_of c = ucast (of_nat (of_char c) :: byte)"
proof -
  have n: "(of_char c :: nat) < 256" using of_char_mod_256 [of c] by (metis mod_less_divisor zero_less_numeral)
  then show ?thesis
    by (simp add: byte_of_def word_unat_eq_iff unsigned_ucast_eq unsigned_of_nat take_bit_eq_mod)
qed

lemma hash_String_Bytes: "hash_String s = hash_Bytes (map (\<lambda>c. of_nat (of_char c)) s)"
  by (simp add: hash_String_def hash_Bytes_def foldl_map byte_of_ucast)

lemma hash_StringFast_BytesFast:
  "hash_StringFast s = hash_BytesFast (map (\<lambda>c. of_nat (of_char c)) s)"
  by (simp add: hash_StringFast_def hash_BytesFast_def stringFastLong_def hash_String_Bytes
      comp_def flip: byte_of_ucast)

end
