(* ===== verification/KvStore.thy ===== *)
theory KvStore
  imports Prelude
begin

text \<open>
  The contract of a keyed store with an entry counter: the sharded store of the generic cache
  and the sharded map of the legacy driver both promise it. A store denotes a finite map;
  inserting, removing and clearing act on the map, and the counter is its size.
\<close>

locale kv_store =
  fixes lookup :: "'s \<Rightarrow> ('k \<rightharpoonup> 'e)"
    and put :: "'s \<Rightarrow> 'k \<Rightarrow> 'e \<Rightarrow> 's"
    and remove :: "'s \<Rightarrow> 'k \<Rightarrow> 's"
    and clear :: "'s \<Rightarrow> 's"
    and size :: "'s \<Rightarrow> int"
    and inv :: "'s \<Rightarrow> bool"
    and fits :: "'s \<Rightarrow> 'k \<Rightarrow> 'e \<Rightarrow> bool"
  assumes inv_put: "inv s \<Longrightarrow> fits s k e \<Longrightarrow> inv (put s k e)"
    and inv_remove: "inv s \<Longrightarrow> inv (remove s k)"
    and inv_clear: "inv s \<Longrightarrow> inv (clear s)"
    and fits_put: "fits (put s k e) = fits s"
    and fits_remove: "fits (remove s k) = fits s"
    and fits_clear: "fits (clear s) = fits s"
    and lookup_put: "inv s \<Longrightarrow> fits s k e \<Longrightarrow> lookup (put s k e) = (lookup s)(k \<mapsto> e)"
    and lookup_remove: "inv s \<Longrightarrow> lookup (remove s k) = (lookup s)(k := None)"
    and lookup_clear: "inv s \<Longrightarrow> lookup (clear s) = Map.empty"
    and finite_lookup: "inv s \<Longrightarrow> finite (dom (lookup s))"
    and size_card: "inv s \<Longrightarrow> size s = i64 (int (card (dom (lookup s))))"
begin

lemma size_put:
  assumes "inv s" "fits s k e"
  shows "size (put s k e) = (if lookup s k = None then i64 (size s + 1) else size s)"
proof -
  have "dom ((lookup s)(k \<mapsto> e)) = insert k (dom (lookup s))" by auto
  then show ?thesis
    using size_card [OF assms(1)] size_card [OF inv_put [OF assms]] lookup_put [OF assms]
      finite_lookup [OF assms(1)] card_dom_insert [of "lookup s" k e]
    by (auto simp: insert_absorb domIff add.commute)
qed

lemma size_remove:
  assumes "inv s"
  shows "size (remove s k) = (if lookup s k = None then size s else i64 (size s - 1))"
proof (cases "lookup s k")
  case None
  then have "lookup (remove s k) = lookup s" using lookup_remove [OF assms] by (simp add: fun_upd_idem)
  then show ?thesis using None size_card [OF assms] size_card [OF inv_remove [OF assms]] by simp
next
  case (Some e)
  then show ?thesis
    using size_card [OF assms] size_card [OF inv_remove [OF assms], of k] lookup_remove [OF assms, of k]
      card_dom_delete [OF finite_lookup [OF assms] Some] by simp
qed

text \<open>Loading a list of entries: the last one for a key wins.\<close>

definition put_all :: "'s \<Rightarrow> ('k \<times> 'e) list \<Rightarrow> 's" where
  "put_all s kvs = foldl (\<lambda>s (k, e). put s k e) s kvs"

lemma put_all:
  assumes "inv s" "\<forall>(k, e) \<in> set kvs. fits s k e"
  shows "inv (put_all s kvs) \<and> fits (put_all s kvs) = fits s \<and> lookup (put_all s kvs) = lookup s ++ map_of (rev kvs)"
  using assms
proof (induction kvs arbitrary: s)
  case (Cons x kvs)
  obtain k e where x: "x = (k, e)" by (cases x)
  have f: "fits s k e" using Cons.prems(2) x by auto
  have "\<forall>(k', e') \<in> set kvs. fits (put s k e) k' e'" using Cons.prems(2) by (auto simp: fits_put)
  note ih = Cons.IH [OF inv_put [OF Cons.prems(1) f] this]
  have "lookup (put s k e) ++ map_of (rev kvs) = lookup s ++ map_of (rev (x # kvs))"
    unfolding lookup_put [OF Cons.prems(1) f] by (simp add: x map_add_def fun_eq_iff split: option.split)
  then show ?case using ih x by (simp add: put_all_def fits_put)
qed (simp add: put_all_def)

text \<open>Removing a list of keys leaves exactly the others.\<close>

lemma remove_all:
  "inv s \<Longrightarrow> inv (foldl remove s ks) \<and> lookup (foldl remove s ks) = lookup s |` (- set ks)"
proof (induction ks arbitrary: s)
  case Nil
  then show ?case by (simp add: restrict_map_def)
next
  case (Cons k ks)
  have "lookup (remove s k) |` (- set ks) = lookup s |` (- set (k # ks))"
    unfolding lookup_remove [OF Cons.prems] by (auto simp: restrict_map_def fun_eq_iff)
  then show ?case using Cons.IH [OF inv_remove [OF Cons.prems]] by simp
qed

end

end
