(* ===== verification/ShardedStore.thy ===== *)
theory ShardedStore
  imports PowerOfTwo Hash KvStore
begin

text \<open>
  \<open>internal/store/sharded.go\<close>: the map of the cache, split over a power of two of shards by the
  low bits of the key hash. A Go map is a partial function. The clock is the argument \<open>now\<close> of
  the operations that read it; a range over a Go map visits its entries in an unspecified order,
  which is the argument \<open>ord\<close>: \<open>ord i D\<close> lists the keys \<open>D\<close> of shard \<open>i\<close>. The method set of the
  store as the cache sees it is one map \<open>st_map\<close>, and the lemmas relate every operation to it.
\<close>

record ('k, 'v) Entry =
  eKey :: 'k
  eValue :: 'v
  eKeyHash :: u64
  eExpireAt :: int \<comment> \<open>Unix nanoseconds, 0 for no expiration\<close>
  eCost :: int

definition IsExpired :: "('k, 'v) Entry \<Rightarrow> int \<Rightarrow> bool" where
  "IsExpired e now = (eExpireAt e > 0 \<and> now > eExpireAt e)"

type_synonym ('k, 'v) shard = "'k \<rightharpoonup> ('k, 'v) Entry"

record ('k, 'v) ShardedStore =
  st_shards :: "('k, 'v) shard list"
  st_shardMask :: u64
  st_size :: int
  st_hasher :: "('k \<Rightarrow> u64) option"
  st_any :: "'k \<Rightarrow> go_any" \<comment> \<open>the conversion \<open>any(key)\<close>, which carries the dynamic type\<close>

definition NewShardedStore :: "('k \<Rightarrow> go_any) \<Rightarrow> int \<Rightarrow> ('k \<Rightarrow> u64) option \<Rightarrow> ('k, 'v) ShardedStore" where
  "NewShardedStore any shardCount hasher =
     (let shardCount = (if shardCount \<le> 0 then 1024 else shardCount);
          shardCount = nextPowerOf2 shardCount
      in \<lparr>st_shards = replicate (nat shardCount) Map.empty,
          st_shardMask = word_of_int (shardCount - 1), st_size = 0,
          st_hasher = hasher, st_any = any\<rparr>)"

definition shard_index :: "('k, 'v) ShardedStore \<Rightarrow> u64 \<Rightarrow> nat" where
  "shard_index s keyHash = unat (keyHash AND st_shardMask s)"

definition getShard :: "('k, 'v) ShardedStore \<Rightarrow> u64 \<Rightarrow> ('k, 'v) shard" where
  "getShard s keyHash = st_shards s ! shard_index s keyHash"

text \<open>Assigning to \<open>sh.m\<close>, where \<open>sh\<close> is the shard of the hash.\<close>

definition putShard :: "('k, 'v) ShardedStore \<Rightarrow> u64 \<Rightarrow> ('k, 'v) shard \<Rightarrow> ('k, 'v) ShardedStore" where
  "putShard s keyHash m = s\<lparr>st_shards := (st_shards s)[shard_index s keyHash := m]\<rparr>"

definition getKeyHash :: "('k, 'v) ShardedStore \<Rightarrow> 'k \<Rightarrow> u64" where
  "getKeyHash s key = (case st_hasher s of Some hasher \<Rightarrow> hasher key | None \<Rightarrow> defaultHash (st_any s key))"

definition st_GetByHash :: "('k, 'v) ShardedStore \<Rightarrow> int \<Rightarrow> 'k \<Rightarrow> u64 \<Rightarrow> ('k, 'v) Entry option" where
  "st_GetByHash s now key keyHash =
     (case getShard s keyHash key of
        None \<Rightarrow> None
      | Some entry \<Rightarrow> if eExpireAt entry > 0 \<and> now > eExpireAt entry then None else Some entry)"

definition st_Get :: "('k, 'v) ShardedStore \<Rightarrow> int \<Rightarrow> 'k \<Rightarrow> ('k, 'v) Entry option" where
  "st_Get s now key =
     (let keyHash = getKeyHash s key
      in case getShard s keyHash key of
           None \<Rightarrow> None
         | Some entry \<Rightarrow> if eExpireAt entry > 0 \<and> now > eExpireAt entry then None else Some entry)"

definition st_PeekByHash :: "('k, 'v) ShardedStore \<Rightarrow> 'k \<Rightarrow> u64 \<Rightarrow> ('k, 'v) Entry option" where
  "st_PeekByHash s key keyHash = getShard s keyHash key"

definition st_Set ::
  "('k, 'v) ShardedStore \<Rightarrow> ('k, 'v) Entry \<Rightarrow> ('k, 'v) ShardedStore \<times> ('k, 'v) Entry option" where
  "st_Set s entry =
     (let entry = (if eKeyHash entry = 0 then entry\<lparr>eKeyHash := getKeyHash s (eKey entry)\<rparr> else entry);
          sh = getShard s (eKeyHash entry);
          prev = sh (eKey entry);
          s = putShard s (eKeyHash entry) (sh(eKey entry \<mapsto> entry))
      in (if prev = None then s\<lparr>st_size := i64 (st_size s + 1)\<rparr> else s, prev))"

definition st_DeleteByHash ::
  "('k, 'v) ShardedStore \<Rightarrow> 'k \<Rightarrow> u64 \<Rightarrow> ('k, 'v) ShardedStore \<times> ('k, 'v) Entry option" where
  "st_DeleteByHash s key keyHash =
     (let sh = getShard s keyHash
      in case sh key of
           None \<Rightarrow> (s, None)
         | Some entry \<Rightarrow>
             let s = putShard s keyHash (sh(key := None))
             in (s\<lparr>st_size := i64 (st_size s - 1)\<rparr>, Some entry))"

definition st_Delete ::
  "('k, 'v) ShardedStore \<Rightarrow> 'k \<Rightarrow> ('k, 'v) ShardedStore \<times> ('k, 'v) Entry option" where
  "st_Delete s key =
     (let keyHash = getKeyHash s key; sh = getShard s keyHash
      in case sh key of
           None \<Rightarrow> (s, None)
         | Some entry \<Rightarrow>
             let s = putShard s keyHash (sh(key := None))
             in (s\<lparr>st_size := i64 (st_size s - 1)\<rparr>, Some entry))"

text \<open>The result is \<open>(prev, updated, costDelta, oldExpireAt)\<close>.\<close>

definition st_UpdateExistingByHash ::
  "('k, 'v) ShardedStore \<Rightarrow> 'k \<Rightarrow> u64 \<Rightarrow> 'v \<Rightarrow> int \<Rightarrow> int \<Rightarrow> bool
     \<Rightarrow> ('k, 'v) ShardedStore \<times> ('k, 'v) Entry option \<times> bool \<times> int \<times> int" where
  "st_UpdateExistingByHash s key keyHash val cost expireAt capturePrevious =
     (let sh = getShard s keyHash
      in case sh key of
           None \<Rightarrow> (s, None, False, 0, 0)
         | Some entry \<Rightarrow>
             (putShard s keyHash
                (sh(key \<mapsto> \<lparr>eKey = eKey entry, eValue = val, eKeyHash = eKeyHash entry,
                             eExpireAt = expireAt, eCost = cost\<rparr>)),
              if capturePrevious then Some entry else None,
              True, i64 (cost - eCost entry), eExpireAt entry))"

definition st_Has :: "('k, 'v) ShardedStore \<Rightarrow> int \<Rightarrow> 'k \<Rightarrow> bool" where
  "st_Has s now key = (st_Get s now key \<noteq> None)"

definition st_Len :: "('k, 'v) ShardedStore \<Rightarrow> int" where
  "st_Len s = st_size s"

definition st_Clear :: "('k, 'v) ShardedStore \<Rightarrow> ('k, 'v) ShardedStore" where
  "st_Clear s = s\<lparr>st_shards := map (\<lambda>sh. Map.empty) (st_shards s), st_size := 0\<rparr>"

definition st_ShardCount :: "('k, 'v) ShardedStore \<Rightarrow> nat" where
  "st_ShardCount s = length (st_shards s)"

definition st_DeleteIfExpired ::
  "('k, 'v) ShardedStore \<Rightarrow> 'k \<Rightarrow> u64 \<Rightarrow> int \<Rightarrow> int \<Rightarrow> ('k, 'v) ShardedStore \<times> ('k, 'v) Entry option" where
  "st_DeleteIfExpired s key keyHash expireAt now =
     (let sh = getShard s keyHash
      in case sh key of
           None \<Rightarrow> (s, None)
         | Some entry \<Rightarrow>
             if eExpireAt entry = expireAt \<and> eExpireAt entry > 0 \<and> now > eExpireAt entry
             then let s = putShard s keyHash (sh(key := None))
                  in (s\<lparr>st_size := i64 (st_size s - 1)\<rparr>, Some entry)
             else (s, None))"

subsection \<open>Iteration\<close>

type_synonym 'k order = "nat \<Rightarrow> 'k set \<Rightarrow> 'k list"

definition enumerates :: "'k order \<Rightarrow> bool" where
  "enumerates ord \<longleftrightarrow> (\<forall>i D. finite D \<longrightarrow> set (ord i D) = D \<and> distinct (ord i D))"

definition range_map :: "'k order \<Rightarrow> nat \<Rightarrow> ('k, 'v) shard \<Rightarrow> ('k, 'v) Entry list" where
  "range_map ord i m = map (\<lambda>k. the (m k)) (ord i (dom m))"

text \<open>A callback updates the caller's variables \<open>acc\<close> and returns whether to go on.\<close>

fun range_entries :: "('a \<Rightarrow> ('k, 'v) Entry \<Rightarrow> 'a \<times> bool) \<Rightarrow> 'a \<Rightarrow> ('k, 'v) Entry list \<Rightarrow> 'a \<times> bool" where
  "range_entries fn acc [] = (acc, True)"
| "range_entries fn acc (entry # entries) =
     (let (acc, go) = fn acc entry in if \<not> go then (acc, False) else range_entries fn acc entries)"

fun range_shards ::
  "'k order \<Rightarrow> ('a \<Rightarrow> ('k, 'v) Entry \<Rightarrow> 'a \<times> bool) \<Rightarrow> nat \<Rightarrow> 'a \<Rightarrow> ('k, 'v) shard list \<Rightarrow> 'a" where
  "range_shards ord fn i acc [] = acc"
| "range_shards ord fn i acc (sh # shs) =
     (let (acc, go) = range_entries fn acc (range_map ord i sh)
      in if \<not> go then acc else range_shards ord fn (Suc i) acc shs)"

definition st_Range ::
  "'k order \<Rightarrow> ('k, 'v) ShardedStore \<Rightarrow> ('a \<Rightarrow> ('k, 'v) Entry \<Rightarrow> 'a \<times> bool) \<Rightarrow> 'a \<Rightarrow> 'a" where
  "st_Range ord s fn acc = range_shards ord fn 0 acc (st_shards s)"

definition st_RangeShard ::
  "'k order \<Rightarrow> ('k, 'v) ShardedStore \<Rightarrow> int \<Rightarrow> ('a \<Rightarrow> ('k, 'v) Entry \<Rightarrow> 'a \<times> bool) \<Rightarrow> 'a \<Rightarrow> 'a" where
  "st_RangeShard ord s shardIdx fn acc =
     (if shardIdx < 0 \<or> shardIdx \<ge> int (length (st_shards s)) then acc
      else fst (range_entries fn acc (range_map ord (nat shardIdx) (st_shards s ! nat shardIdx))))"

definition st_Keys :: "'k order \<Rightarrow> ('k, 'v) ShardedStore \<Rightarrow> 'k list" where
  "st_Keys ord s = foldl (\<lambda>keys (i, sh). keys @ ord i (dom sh)) [] (enumerate 0 (st_shards s))"

definition st_Entries :: "'k order \<Rightarrow> ('k, 'v) ShardedStore \<Rightarrow> int \<Rightarrow> ('k, 'v) Entry list" where
  "st_Entries ord s now =
     foldl (\<lambda>entries (i, sh).
         entries @ filter (\<lambda>entry. eExpireAt entry = 0 \<or> now \<le> eExpireAt entry) (range_map ord i sh))
       [] (enumerate 0 (st_shards s))"

text \<open>
  The inner loop of \<open>Scan\<close>: the second component of the result is the item index of the next
  cursor when the page filled up inside this shard.
\<close>

fun scan_items ::
  "nat \<Rightarrow> nat \<Rightarrow> nat \<Rightarrow> ('k, 'v) Entry list \<Rightarrow> ('k, 'v) Entry list \<Rightarrow> ('k, 'v) Entry list \<times> nat option" where
  "scan_items idx itemIdx cnt entries [] = (entries, None)"
| "scan_items idx itemIdx cnt entries (entry # rest) =
     (if idx \<ge> itemIdx
      then let entries = entries @ [entry]
           in if length entries \<ge> cnt then (entries, Some (idx + 1))
              else scan_items (idx + 1) itemIdx cnt entries rest
      else scan_items (idx + 1) itemIdx cnt entries rest)"

fun scan_shards ::
  "'k order \<Rightarrow> nat \<Rightarrow> nat \<Rightarrow> nat \<Rightarrow> ('k, 'v) Entry list \<Rightarrow> ('k, 'v) shard list \<Rightarrow> ('k, 'v) Entry list \<times> u64" where
  "scan_shards ord shardIdx itemIdx cnt entries [] = (entries, 0)"
| "scan_shards ord shardIdx itemIdx cnt entries (sh # shs) =
     (if length entries < cnt
      then case scan_items 0 itemIdx cnt entries (range_map ord shardIdx sh) of
             (entries, Some idx) \<Rightarrow> (entries, push_bit 32 (of_nat shardIdx) OR of_nat idx)
           | (entries, None) \<Rightarrow> scan_shards ord (Suc shardIdx) 0 cnt entries shs
      else (entries, 0))"

definition st_Scan :: "'k order \<Rightarrow> ('k, 'v) ShardedStore \<Rightarrow> u64 \<Rightarrow> int \<Rightarrow> ('k, 'v) Entry list \<times> u64" where
  "st_Scan ord s cursor cnt =
     (let cnt = (if cnt \<le> 0 then 10 else cnt);
          shardIdx = unat (drop_bit 32 cursor);
          itemIdx = unat (cursor AND 0xFFFFFFFF)
      in scan_shards ord shardIdx itemIdx (nat cnt) [] (drop shardIdx (st_shards s)))"

text \<open>One shard of \<open>CollectExpired\<close>: deleting entries while ranging over the map.\<close>

definition collect_shard ::
  "int \<Rightarrow> ('k, 'v) shard \<Rightarrow> 'k list \<Rightarrow> ('k, 'v) shard \<times> ('k, 'v) Entry list" where
  "collect_shard now m keys =
     foldl (\<lambda>(m, expired) key.
         case m key of
           None \<Rightarrow> (m, expired)
         | Some entry \<Rightarrow>
             if eExpireAt entry > 0 \<and> now > eExpireAt entry
             then (m(key := None), expired @ [entry]) else (m, expired))
       (m, []) keys"

definition st_CollectExpired ::
  "'k order \<Rightarrow> ('k, 'v) ShardedStore \<Rightarrow> int \<Rightarrow> ('k, 'v) ShardedStore \<times> ('k, 'v) Entry list" where
  "st_CollectExpired ord s now =
     (let rs = map (\<lambda>(i, sh). collect_shard now sh (ord i (dom sh))) (enumerate 0 (st_shards s));
          expired = concat (map snd rs);
          s = s\<lparr>st_shards := map fst rs\<rparr>
      in (if length expired > 0 then s\<lparr>st_size := i64 (st_size s - int (length expired))\<rparr> else s, expired))"

definition st_DeleteExpired :: "'k order \<Rightarrow> ('k, 'v) ShardedStore \<Rightarrow> int \<Rightarrow> ('k, 'v) ShardedStore \<times> nat" where
  "st_DeleteExpired ord s now =
     (let (s, expired) = st_CollectExpired ord s now in (s, length expired))"

subsection \<open>Batches\<close>

record ('k, 'v) BatchRequest =
  br_Keys :: "'k list"
  br_Hashes :: "u64 list"
  br_Results :: "('k, 'v) Entry option list"
  br_Found :: "bool list"

definition batch_step ::
  "('k, 'v) ShardedStore \<Rightarrow> int \<Rightarrow> ('k, 'v) BatchRequest \<Rightarrow> nat \<Rightarrow> ('k, 'v) BatchRequest" where
  "batch_step s now req i =
     (let keyHash = br_Hashes req ! i; sh = getShard s keyHash
      in case sh (br_Keys req ! i) of
           None \<Rightarrow> req\<lparr>br_Results := (br_Results req)[i := None], br_Found := (br_Found req)[i := False]\<rparr>
         | Some entry \<Rightarrow>
             if eExpireAt entry > 0 \<and> now > eExpireAt entry
             then req\<lparr>br_Results := (br_Results req)[i := None], br_Found := (br_Found req)[i := False]\<rparr>
             else req\<lparr>br_Results := (br_Results req)[i := Some entry], br_Found := (br_Found req)[i := True]\<rparr>)"

definition st_GetBatch :: "('k, 'v) ShardedStore \<Rightarrow> int \<Rightarrow> ('k, 'v) BatchRequest \<Rightarrow> ('k, 'v) BatchRequest" where
  "st_GetBatch s now req =
     (let n = length (br_Keys req)
      in if n = 0 then req
         else
           let req = (if length (br_Results req) < n then req\<lparr>br_Results := replicate n None\<rparr> else req);
               req = (if length (br_Found req) < n then req\<lparr>br_Found := replicate n False\<rparr> else req);
               req = (if length (br_Hashes req) < n
                      then req\<lparr>br_Hashes := map (getKeyHash s) (br_Keys req)\<rparr> else req)
           in foldl (batch_step s now) req [0..<n])"

record 'k keyInfo =
  ki_key :: 'k
  ki_hash :: u64
  ki_shardIdx :: u64
  ki_origIndex :: nat

definition order_step ::
  "('k, 'v) ShardedStore \<Rightarrow> int \<Rightarrow> ('k, 'v) Entry option list \<times> bool list \<Rightarrow> 'k keyInfo
     \<Rightarrow> ('k, 'v) Entry option list \<times> bool list" where
  "order_step s now = (\<lambda>(results, found) info.
     (let sh = st_shards s ! unat (ki_shardIdx info); origIdx = ki_origIndex info
      in case sh (ki_key info) of
           None \<Rightarrow> (results[origIdx := None], found[origIdx := False])
         | Some entry \<Rightarrow>
             if eExpireAt entry > 0 \<and> now > eExpireAt entry
             then (results[origIdx := None], found[origIdx := False])
             else (results[origIdx := Some entry], found[origIdx := True])))"

text \<open>\<open>slices.SortFunc\<close> is the parameter \<open>sort_infos\<close>: it permutes its argument.\<close>

definition st_GetBatchByShardOrder ::
  "('k keyInfo list \<Rightarrow> 'k keyInfo list) \<Rightarrow> ('k, 'v) ShardedStore \<Rightarrow> int \<Rightarrow> 'k list
     \<Rightarrow> ('k, 'v) Entry option list \<times> bool list" where
  "st_GetBatchByShardOrder sort_infos s now keys =
     (let n = length keys
      in if n = 0 then ([], [])
         else
           let infos = map (\<lambda>(i, key). let h = getKeyHash s key
                 in \<lparr>ki_key = key, ki_hash = h, ki_shardIdx = h AND st_shardMask s, ki_origIndex = i\<rparr>)
               (enumerate 0 keys);
               infos = sort_infos infos
           in foldl (order_step s now) (replicate n None, replicate n False) infos)"

subsection \<open>The map a store denotes\<close>

definition st_map :: "('k, 'v) ShardedStore \<Rightarrow> ('k \<rightharpoonup> ('k, 'v) Entry)" where
  "st_map s = (\<lambda>k. getShard s (getKeyHash s k) k)"

text \<open>An entry sits under its own key, with the hash of that key.\<close>

definition st_fits :: "('k, 'v) ShardedStore \<Rightarrow> 'k \<Rightarrow> ('k, 'v) Entry \<Rightarrow> bool" where
  "st_fits s k e \<longleftrightarrow> eKey e = k \<and> eKeyHash e = getKeyHash s k"

definition st_inv :: "('k, 'v) ShardedStore \<Rightarrow> bool" where
  "st_inv s \<longleftrightarrow>
     0 < length (st_shards s) \<and> length (st_shards s) \<le> 2 ^ 32 \<and>
     st_shardMask s = of_nat (length (st_shards s) - 1) \<and>
     (\<forall>i < length (st_shards s). finite (dom (st_shards s ! i)) \<and>
        (\<forall>k e. (st_shards s ! i) k = Some e \<longrightarrow> st_fits s k e \<and> shard_index s (getKeyHash s k) = i)) \<and>
     st_size s = i64 (int (card (dom (st_map s))))"

lemma getKeyHash_cong:
  "st_hasher s' = st_hasher s \<Longrightarrow> st_any s' = st_any s \<Longrightarrow> getKeyHash s' = getKeyHash s"
  by (rule ext) (simp add: getKeyHash_def split: option.split)

lemma st_fits_cong: "st_hasher s' = st_hasher s \<Longrightarrow> st_any s' = st_any s \<Longrightarrow> st_fits s' = st_fits s"
  using getKeyHash_cong [of s' s] by (intro ext) (simp add: st_fits_def)

lemma putShard_sel [simp]:
  "st_shardMask (putShard s h m) = st_shardMask s" "st_size (putShard s h m) = st_size s"
  "st_hasher (putShard s h m) = st_hasher s" "st_any (putShard s h m) = st_any s"
  "length (st_shards (putShard s h m)) = length (st_shards s)"
  "shard_index (putShard s h m) = shard_index s"
  by (simp_all add: putShard_def shard_index_def fun_eq_iff)

lemma size_upd_hash [simp]: "getKeyHash (s\<lparr>st_size := n\<rparr>) = getKeyHash s"
  by (rule getKeyHash_cong) simp_all

lemma size_upd_fits [simp]: "st_fits (s\<lparr>st_size := n\<rparr>) = st_fits s"
  by (rule st_fits_cong) simp_all

lemma size_upd_sel [simp]:
  "shard_index (s\<lparr>st_size := n\<rparr>) = shard_index s" "getShard (s\<lparr>st_size := n\<rparr>) = getShard s"
  by (simp_all add: shard_index_def getShard_def fun_eq_iff)

lemma putShard_hash [simp]: "getKeyHash (putShard s h m) = getKeyHash s"
  by (rule getKeyHash_cong) simp_all

lemma putShard_fits [simp]: "st_fits (putShard s h m) = st_fits s"
  by (rule st_fits_cong) simp_all

lemma st_map_size [simp]: "st_map (s\<lparr>st_size := n\<rparr>) = st_map s"
  by (simp add: st_map_def)

lemma shard_index_bound: "st_inv s \<Longrightarrow> shard_index s h < length (st_shards s)"
  unfolding shard_index_def using mask_index [of "length (st_shards s)" h] unfolding st_inv_def
  by (elim conjE) simp

text \<open>Replacing one key in its shard replaces it in the map, and nothing else.\<close>

lemma st_map_putShard:
  assumes "st_inv s"
  shows "st_map (putShard s (getKeyHash s k) ((getShard s (getKeyHash s k))(k := x))) = (st_map s)(k := x)"
  using shard_index_bound [OF assms]
  by (auto simp: st_map_def getShard_def putShard_def fun_eq_iff nth_list_update shard_index_def getKeyHash_def
      split: option.splits)

lemma finite_dom_upd: "finite (dom m) \<Longrightarrow> finite (dom (m(k := x)))"
  by (rule finite_subset [of _ "insert k (dom m)"]) (auto split: if_splits)

lemma st_inv_putShard:
  assumes "st_inv s" "\<And>e. x = Some e \<Longrightarrow> st_fits s k e"
    "n = i64 (int (card (dom ((st_map s)(k := x)))))"
  shows "st_inv ((putShard s (getKeyHash s k) ((getShard s (getKeyHash s k))(k := x)))\<lparr>st_size := n\<rparr>)"
  unfolding st_inv_def
proof (intro conjI allI impI)
  let ?h = "getKeyHash s k"
  let ?s = "(putShard s ?h ((getShard s ?h)(k := x)))\<lparr>st_size := n\<rparr>"
  show "0 < length (st_shards ?s)" "length (st_shards ?s) \<le> 2 ^ 32"
    "st_shardMask ?s = of_nat (length (st_shards ?s) - 1)"
    using assms(1) by (auto simp: st_inv_def)
  show "st_size ?s = i64 (int (card (dom (st_map ?s))))"
    using assms(3) st_map_putShard [OF assms(1)] by simp
  fix i assume "i < length (st_shards ?s)"
  then have i: "i < length (st_shards s)" by simp
  have old: "finite (dom (st_shards s ! i))"
    "\<And>k' e. (st_shards s ! i) k' = Some e \<Longrightarrow> st_fits s k' e \<and> shard_index s (getKeyHash s k') = i"
    using assms(1) i by (auto simp: st_inv_def)
  have sh: "st_shards ?s ! i = (if i = shard_index s ?h then (st_shards s ! i)(k := x) else st_shards s ! i)"
    using i by (simp add: putShard_def getShard_def nth_list_update)
  show "finite (dom (st_shards ?s ! i))"
    using old(1) unfolding sh by (auto intro: finite_dom_upd simp del: dom_fun_upd)
  fix k' e assume "(st_shards ?s ! i) k' = Some e"
  then show "st_fits ?s k' e" "shard_index ?s (getKeyHash ?s k') = i"
    using old(2) assms(2) unfolding sh by (auto split: if_splits)
qed

lemma st_map_fits: "st_inv s \<Longrightarrow> st_map s k = Some e \<Longrightarrow> st_fits s k e"
  using shard_index_bound [of s] by (auto simp: st_map_def getShard_def st_inv_def)

lemma st_map_in_shard:
  assumes "st_inv s"
  shows "st_map s k = Some e \<longleftrightarrow> (\<exists>i<length (st_shards s). (st_shards s ! i) k = Some e)"
  using shard_index_bound [OF assms, of "getKeyHash s k"] assms
  by (auto simp: st_map_def getShard_def st_inv_def)

lemma dom_st_map: "st_inv s \<Longrightarrow> dom (st_map s) = (\<Union>i<length (st_shards s). dom (st_shards s ! i))"
  using st_map_in_shard by (fastforce simp: dom_def)

lemma finite_st_map: "st_inv s \<Longrightarrow> finite (dom (st_map s))"
  by (simp add: dom_st_map) (simp add: st_inv_def)

lemma NewShardedStore_inv:
  assumes "n \<le> 2 ^ 32"
  shows "st_inv (NewShardedStore any n hasher :: ('k, 'v) ShardedStore)"
    "st_map (NewShardedStore any n hasher :: ('k, 'v) ShardedStore) = Map.empty"
proof -
  let ?n = "if n \<le> 0 then 1024 else n" and ?s = "NewShardedStore any n hasher :: ('k, 'v) ShardedStore"
  have n: "1 \<le> ?n" "?n \<le> 2 ^ 32" using assms by auto
  define p where "p = nextPowerOf2 ?n"
  have p: "1 \<le> p" "p \<le> 2 ^ 32" using nextPowerOf2_rounds_up [OF n] n(1) by (auto simp: p_def rounds_up_def)
  have s: "?s = \<lparr>st_shards = replicate (nat p) Map.empty, st_shardMask = word_of_int (p - 1), st_size = 0,
          st_hasher = hasher, st_any = any\<rparr>"
    by (simp only: NewShardedStore_def Let_def p_def)
  have m: "(word_of_int (p - 1) :: u64) = of_nat (nat p - 1)" using p by (simp add: of_nat_diff of_nat_nat)
  have idx: "shard_index ?s h < nat p" for h
    using mask_index [of "nat p" h] p m by (simp add: s shard_index_def nat_le_iff)
  show e: "st_map ?s = Map.empty"
    unfolding st_map_def getShard_def using idx by (simp add: s fun_eq_iff)
  show "st_inv ?s" unfolding st_inv_def e using p m by (simp add: s nat_le_iff)
qed

subsection \<open>Every operation acts on the map\<close>

lemma st_PeekByHash_map: "st_PeekByHash s k (getKeyHash s k) = st_map s k"
  by (simp add: st_PeekByHash_def st_map_def)

lemma st_GetByHash_map:
  "st_GetByHash s now k (getKeyHash s k) =
     (case st_map s k of None \<Rightarrow> None | Some e \<Rightarrow> if IsExpired e now then None else Some e)"
  by (simp add: st_GetByHash_def st_map_def IsExpired_def split: option.split)

lemma st_Get_ByHash: "st_Get s now k = st_GetByHash s now k (getKeyHash s k)"
  by (simp add: st_Get_def st_GetByHash_def Let_def)

lemma st_Delete_ByHash: "st_Delete s k = st_DeleteByHash s k (getKeyHash s k)"
  by (simp add: st_Delete_def st_DeleteByHash_def Let_def)

lemma st_hash_same [simp]:
  "getKeyHash (fst (st_Set s e)) = getKeyHash s" "st_fits (fst (st_Set s e)) = st_fits s"
  "getKeyHash (fst (st_DeleteByHash s k h)) = getKeyHash s" "st_fits (fst (st_DeleteByHash s k h)) = st_fits s"
  "getKeyHash (fst (st_DeleteIfExpired s k h x now)) = getKeyHash s"
  "st_fits (fst (st_DeleteIfExpired s k h x now)) = st_fits s"
  "getKeyHash (fst (st_UpdateExistingByHash s k h v c x b)) = getKeyHash s"
  "st_fits (fst (st_UpdateExistingByHash s k h v c x b)) = st_fits s"
  by (simp_all add: st_Set_def st_DeleteByHash_def st_DeleteIfExpired_def st_UpdateExistingByHash_def Let_def
      split: option.split)

lemma st_Clear_hash [simp]: "getKeyHash (st_Clear s) = getKeyHash s" "st_fits (st_Clear s) = st_fits s"
proof -
  show "getKeyHash (st_Clear s) = getKeyHash s" by (rule getKeyHash_cong) (simp_all add: st_Clear_def)
  show "st_fits (st_Clear s) = st_fits s" by (rule st_fits_cong) (simp_all add: st_Clear_def)
qed

text \<open>The fix-up of a zero hash makes no difference to an entry that carries its key's hash.\<close>

lemma st_Set_eq:
  assumes "eKeyHash e = getKeyHash s (eKey e)"
  shows "st_Set s e = ((putShard s (getKeyHash s (eKey e)) ((getShard s (getKeyHash s (eKey e)))(eKey e \<mapsto> e)))
     \<lparr>st_size := if st_map s (eKey e) = None then i64 (st_size s + 1) else st_size s\<rparr>, st_map s (eKey e))"
proof -
  have e: "(if eKeyHash e = 0 then e\<lparr>eKeyHash := getKeyHash s (eKey e)\<rparr> else e) = e"
    using assms by (cases e) auto
  have n: "putShard s h m\<lparr>st_size := st_size s\<rparr> = putShard s h m" for h m by (simp add: putShard_def)
  show ?thesis unfolding st_Set_def e Let_def using assms n by (simp add: st_map_def)
qed

lemma st_Set_map:
  assumes "st_inv s" "st_fits s k e"
  shows "st_inv (fst (st_Set s e))" "st_map (fst (st_Set s e)) = (st_map s)(k \<mapsto> e)"
    "snd (st_Set s e) = st_map s k"
proof -
  have e: "eKey e = k" "eKeyHash e = getKeyHash s (eKey e)" using assms(2) by (auto simp: st_fits_def)
  note set = st_Set_eq [OF e(2), unfolded e(1)]
  show "st_map (fst (st_Set s e)) = (st_map s)(k \<mapsto> e)" "snd (st_Set s e) = st_map s k"
    using st_map_putShard [OF assms(1)] by (simp_all add: set)
  have "(if st_map s k = None then i64 (st_size s + 1) else st_size s) = i64 (int (card (dom ((st_map s)(k \<mapsto> e)))))"
    using assms(1) finite_st_map [OF assms(1)] card_dom_insert [of "st_map s" k e]
    by (auto simp: st_inv_def insert_absorb domIff add.commute)
  then show "st_inv (fst (st_Set s e))"
    unfolding set fst_conv by (intro st_inv_putShard) (use assms in auto)
qed

lemma st_remove_inv:
  assumes "st_inv s" "st_map s k = Some e"
  shows "st_inv ((putShard s (getKeyHash s k) ((getShard s (getKeyHash s k))(k := None)))
    \<lparr>st_size := i64 (st_size s - 1)\<rparr>)"
  using assms finite_st_map [OF assms(1)] card_dom_delete [of "st_map s" k e]
  by (intro st_inv_putShard) (auto simp: st_inv_def)

lemma st_DeleteByHash_map:
  assumes "st_inv s"
  shows "st_inv (fst (st_DeleteByHash s k (getKeyHash s k)))"
    "st_map (fst (st_DeleteByHash s k (getKeyHash s k))) = (st_map s)(k := None)"
    "snd (st_DeleteByHash s k (getKeyHash s k)) = st_map s k"
proof -
  have m: "getShard s (getKeyHash s k) k = st_map s k" by (simp add: st_map_def)
  show "snd (st_DeleteByHash s k (getKeyHash s k)) = st_map s k"
    by (simp add: st_DeleteByHash_def m Let_def split: option.split)
  show "st_map (fst (st_DeleteByHash s k (getKeyHash s k))) = (st_map s)(k := None)"
    using st_map_putShard [OF assms, of k None]
    by (auto simp: st_DeleteByHash_def m Let_def split: option.split)
  show "st_inv (fst (st_DeleteByHash s k (getKeyHash s k)))"
    using assms st_remove_inv [OF assms]
    by (simp add: st_DeleteByHash_def m Let_def split: option.split)
qed

lemma st_DeleteIfExpired_map:
  fixes s :: "('k, 'v) ShardedStore" and k :: 'k and x now :: int
  assumes "st_inv s"
  defines "hit \<equiv> (\<exists>e. st_map s k = Some e \<and> eExpireAt e = x \<and> IsExpired e now)"
  shows "st_inv (fst (st_DeleteIfExpired s k (getKeyHash s k) x now))"
    "st_map (fst (st_DeleteIfExpired s k (getKeyHash s k) x now)) = (if hit then (st_map s)(k := None) else st_map s)"
    "snd (st_DeleteIfExpired s k (getKeyHash s k) x now) = (if hit then st_map s k else None)"
proof -
  have m: "getShard s (getKeyHash s k) k = st_map s k" by (simp add: st_map_def)
  show "snd (st_DeleteIfExpired s k (getKeyHash s k) x now) = (if hit then st_map s k else None)"
    by (auto simp: st_DeleteIfExpired_def m Let_def hit_def IsExpired_def split: option.split)
  show "st_map (fst (st_DeleteIfExpired s k (getKeyHash s k) x now)) = (if hit then (st_map s)(k := None) else st_map s)"
    using st_map_putShard [OF assms(1), of k None]
    by (auto simp: st_DeleteIfExpired_def m Let_def hit_def IsExpired_def split: option.split)
  show "st_inv (fst (st_DeleteIfExpired s k (getKeyHash s k) x now))"
    using assms(1) st_remove_inv [OF assms(1)]
    by (auto simp: st_DeleteIfExpired_def m Let_def split: option.split)
qed

lemma st_UpdateExistingByHash_map:
  assumes "st_inv s"
  shows "st_map s k = None \<Longrightarrow>
      st_UpdateExistingByHash s k (getKeyHash s k) v c x b = (s, None, False, 0, 0)"
    "st_map s k = Some e \<Longrightarrow> \<exists>s'. st_UpdateExistingByHash s k (getKeyHash s k) v c x b =
        (s', if b then Some e else None, True, i64 (c - eCost e), eExpireAt e) \<and>
      st_inv s' \<and> getKeyHash s' = getKeyHash s \<and> st_size s' = st_size s \<and>
      st_map s' = (st_map s)(k \<mapsto> \<lparr>eKey = k, eValue = v, eKeyHash = getKeyHash s k, eExpireAt = x, eCost = c\<rparr>)"
proof -
  let ?h = "getKeyHash s k"
  have m: "getShard s ?h k = st_map s k" by (simp add: st_map_def)
  show "st_map s k = None \<Longrightarrow> st_UpdateExistingByHash s k ?h v c x b = (s, None, False, 0, 0)"
    by (simp add: st_UpdateExistingByHash_def m Let_def)
  assume e: "st_map s k = Some e"
  then have f: "eKey e = k" "eKeyHash e = ?h" using st_map_fits [OF assms] by (auto simp: st_fits_def)
  let ?e = "\<lparr>eKey = k, eValue = v, eKeyHash = ?h, eExpireAt = x, eCost = c\<rparr>"
  let ?s = "putShard s ?h ((getShard s ?h)(k \<mapsto> ?e))"
  have "i64 (int (card (dom ((st_map s)(k \<mapsto> ?e))))) = st_size s"
    using assms e by (simp add: st_inv_def insert_absorb domI)
  then have "st_inv (?s\<lparr>st_size := st_size s\<rparr>)"
    by (intro st_inv_putShard [OF assms]) (auto simp: st_fits_def)
  moreover have "?s\<lparr>st_size := st_size s\<rparr> = ?s" by (simp add: putShard_def)
  ultimately show "\<exists>s'. st_UpdateExistingByHash s k (getKeyHash s k) v c x b =
        (s', if b then Some e else None, True, i64 (c - eCost e), eExpireAt e) \<and>
      st_inv s' \<and> getKeyHash s' = getKeyHash s \<and> st_size s' = st_size s \<and> st_map s' = (st_map s)(k \<mapsto> ?e)"
    using e f st_map_putShard [OF assms]
    by (intro exI [of _ ?s]) (simp add: st_UpdateExistingByHash_def m Let_def)
qed

lemma st_Clear_map:
  assumes "st_inv s"
  shows "st_inv (st_Clear s)" "st_map (st_Clear s) = Map.empty"
proof -
  have i: "shard_index (st_Clear s) = shard_index s" by (simp add: st_Clear_def shard_index_def fun_eq_iff)
  show m: "st_map (st_Clear s) = Map.empty"
    using shard_index_bound [OF assms]
    by (simp add: st_map_def getShard_def i) (simp add: st_Clear_def)
  show "st_inv (st_Clear s)"
    using assms unfolding st_inv_def m by (simp add: st_Clear_def)
qed

interpretation ss: kv_store st_map "\<lambda>s k e. fst (st_Set s e)" "\<lambda>s k. fst (st_DeleteByHash s k (getKeyHash s k))"
  st_Clear st_Len st_inv st_fits
proof unfold_locales
  fix s :: "('k, 'v) ShardedStore"
  show "st_inv s \<Longrightarrow> st_Len s = i64 (int (card (dom (st_map s))))" by (simp add: st_Len_def st_inv_def)
qed (simp_all add: st_Set_map st_DeleteByHash_map st_Clear_map finite_st_map)

subsection \<open>Batches are pointwise lookups\<close>

lemma batch_step_get:
  "batch_step s now req i =
     (let r = st_GetByHash s now (br_Keys req ! i) (br_Hashes req ! i)
      in req\<lparr>br_Results := (br_Results req)[i := r], br_Found := (br_Found req)[i := r \<noteq> None]\<rparr>)"
  by (auto simp: batch_step_def st_GetByHash_def Let_def split: option.split)

lemma batch_fold:
  fixes req :: "('k, 'v) BatchRequest" and s :: "('k, 'v) ShardedStore" and now :: int
  assumes "m \<le> n" "length (br_Results req) = n" "length (br_Found req) = n"
  defines "get \<equiv> \<lambda>i. st_GetByHash s now (br_Keys req ! i) (br_Hashes req ! i)"
  shows "foldl (batch_step s now) req [0..<m] =
    req\<lparr>br_Results := map get [0..<m] @ drop m (br_Results req),
        br_Found := map (\<lambda>i. get i \<noteq> None) [0..<m] @ drop m (br_Found req)\<rparr>"
  using assms(1)
proof (induction m)
  case (Suc m)
  have upd: "(xs @ drop m ys)[m := y] = xs @ y # drop (Suc m) ys"
    if "length xs = m" "length ys = n" for xs ys :: "'x list" and y
    using that Suc.prems by (simp add: list_update_append Cons_nth_drop_Suc [symmetric])
  show ?case
    using Suc assms(2,3) by (simp add: batch_step_get Let_def upd get_def)
qed simp

lemma st_GetBatch_lookup:
  assumes "length (br_Results req) \<le> length (br_Keys req)" "length (br_Found req) \<le> length (br_Keys req)"
    "length (br_Hashes req) < length (br_Keys req) \<or> br_Hashes req = map (getKeyHash s) (br_Keys req)"
  shows "br_Results (st_GetBatch s now req) = map (st_Get s now) (br_Keys req)"
    "br_Found (st_GetBatch s now req) = map (\<lambda>k. st_Get s now k \<noteq> None) (br_Keys req)"
proof -
  let ?n = "length (br_Keys req)"
  define r1 where "r1 = (if length (br_Results req) < ?n then req\<lparr>br_Results := replicate ?n None\<rparr> else req)"
  define r2 where "r2 = (if length (br_Found r1) < ?n then r1\<lparr>br_Found := replicate ?n False\<rparr> else r1)"
  define r3 where "r3 = (if length (br_Hashes r2) < ?n then r2\<lparr>br_Hashes := map (getKeyHash s) (br_Keys r2)\<rparr> else r2)"
  have r: "br_Keys r3 = br_Keys req" "br_Hashes r3 = map (getKeyHash s) (br_Keys req)"
    "length (br_Results r3) = ?n" "length (br_Found r3) = ?n"
    using assms by (auto simp: r1_def r2_def r3_def)
  have g: "st_GetByHash s now (br_Keys r3 ! i) (br_Hashes r3 ! i) = st_Get s now (br_Keys req ! i)" if "i < ?n" for i
    using that r by (simp add: st_Get_ByHash)
  have "?n \<noteq> 0 \<Longrightarrow> st_GetBatch s now req = foldl (batch_step s now) r3 [0..<?n]"
    by (simp add: st_GetBatch_def Let_def r1_def r2_def r3_def)
  moreover note batch_fold [where m = ?n and n = ?n and req = r3 and s = s and now = now, OF order_refl r(3,4)]
  ultimately have full: "?n \<noteq> 0 \<Longrightarrow> br_Results (st_GetBatch s now req) = map (\<lambda>i. st_Get s now (br_Keys req ! i)) [0..<?n] \<and>
      br_Found (st_GetBatch s now req) = map (\<lambda>i. st_Get s now (br_Keys req ! i) \<noteq> None) [0..<?n]"
    using g r(3,4) by (simp cong: map_cong)
  have none: "?n = 0 \<Longrightarrow> st_GetBatch s now req = req" by (simp add: st_GetBatch_def)
  have m: "map (\<lambda>i. st_Get s now (br_Keys req ! i)) [0..<?n] = map (st_Get s now) (br_Keys req)"
    "map (\<lambda>i. st_Get s now (br_Keys req ! i) \<noteq> None) [0..<?n] = map (\<lambda>k. st_Get s now k \<noteq> None) (br_Keys req)"
    by (rule nth_equalityI; simp)+
  show "br_Results (st_GetBatch s now req) = map (st_Get s now) (br_Keys req)"
    using full none m(1) assms(1) by (cases "?n = 0") simp_all
  show "br_Found (st_GetBatch s now req) = map (\<lambda>k. st_Get s now k \<noteq> None) (br_Keys req)"
    using full none m(2) assms(2) by (cases "?n = 0") simp_all
qed

text \<open>
  The shard-ordered batch writes every result at the position its key came from, so the order in
  which the sort leaves the keys does not matter.
\<close>

definition info_get :: "('k, 'v) ShardedStore \<Rightarrow> int \<Rightarrow> 'k keyInfo \<Rightarrow> ('k, 'v) Entry option" where
  "info_get s now info =
     (case (st_shards s ! unat (ki_shardIdx info)) (ki_key info) of
        None \<Rightarrow> None | Some e \<Rightarrow> if eExpireAt e > 0 \<and> now > eExpireAt e then None else Some e)"

lemma order_step_get:
  "order_step s now (results, found) info =
     (results[ki_origIndex info := info_get s now info],
      found[ki_origIndex info := info_get s now info \<noteq> None])"
  by (auto simp: order_step_def info_get_def Let_def split: option.split)

lemma order_fold:
  assumes "distinct (map ki_origIndex infos)"
  shows "foldl (order_step s now) (results, found) infos = (results', found') \<Longrightarrow>
    length results' = length results \<and> length found' = length found \<and>
    (\<forall>info\<in>set infos. ki_origIndex info < length results \<longrightarrow> results' ! ki_origIndex info = info_get s now info) \<and>
    (\<forall>info\<in>set infos. ki_origIndex info < length found \<longrightarrow> found' ! ki_origIndex info = (info_get s now info \<noteq> None)) \<and>
    (\<forall>j. j \<notin> ki_origIndex ` set infos \<longrightarrow> results' ! j = results ! j \<and> found' ! j = found ! j)"
  using assms
proof (induction infos arbitrary: results found)
  case (Cons info infos)
  from Cons.prems(1) have "foldl (order_step s now) (results[ki_origIndex info := info_get s now info],
      found[ki_origIndex info := info_get s now info \<noteq> None]) infos = (results', found')"
    by (simp add: order_step_get)
  note ih = Cons.IH [OF this]
  have "ki_origIndex info \<notin> ki_origIndex ` set infos" using Cons.prems(2) by auto
  then show ?case using ih Cons.prems(2) by auto
qed simp

lemma st_GetBatchByShardOrder_lookup:
  assumes perm: "\<And>infos. mset (sort_infos infos) = mset infos"
  shows "st_GetBatchByShardOrder sort_infos s now keys =
    (map (st_Get s now) keys, map (\<lambda>k. st_Get s now k \<noteq> None) keys)"
proof (cases "keys = []")
  case True
  then show ?thesis by (simp add: st_GetBatchByShardOrder_def)
next
  case False
  define mk where "mk = (\<lambda>(i, key). let h = getKeyHash s key
    in \<lparr>ki_key = key, ki_hash = h, ki_shardIdx = h AND st_shardMask s, ki_origIndex = i\<rparr>)"
  let ?infos = "sort_infos (map mk (enumerate 0 keys))"
  obtain results found where f: "foldl (order_step s now)
      (replicate (length keys) None, replicate (length keys) False) ?infos = (results, found)"
    by (cases "foldl (order_step s now) (replicate (length keys) None, replicate (length keys) False) ?infos")
  have set: "set ?infos = mk ` set (enumerate 0 keys)" using perm by (metis mset_eq_setD set_map)
  have "mset (map ki_origIndex ?infos) = mset (map ki_origIndex (map mk (enumerate 0 keys)))"
    using perm by (metis mset_map)
  moreover have "map ki_origIndex (map mk (enumerate 0 keys)) = [0..<length keys]"
    by (rule nth_equalityI) (simp_all add: mk_def nth_enumerate_eq Let_def)
  ultimately have d: "distinct (map ki_origIndex ?infos)"
    by (metis distinct_upt mset_eq_imp_distinct_iff)
  note o = order_fold [OF d f]
  have at: "results ! i = st_Get s now (keys ! i) \<and> found ! i = (st_Get s now (keys ! i) \<noteq> None)"
    if "i < length keys" for i
  proof -
    have "mk (i, keys ! i) \<in> set ?infos" using that unfolding set by (force simp: in_set_enumerate_eq)
    moreover have "ki_origIndex (mk (i, keys ! i)) = i" by (simp add: mk_def Let_def)
    moreover have "info_get s now (mk (i, keys ! i)) = st_Get s now (keys ! i)"
      by (simp add: info_get_def mk_def Let_def st_Get_def getShard_def shard_index_def)
    ultimately show ?thesis using o that by (metis length_replicate)
  qed
  have "st_GetBatchByShardOrder sort_infos s now keys = (results, found)"
    using False f by (simp add: st_GetBatchByShardOrder_def mk_def)
  moreover have "length results = length keys" "length found = length keys" using o by simp_all
  then have "results = map (st_Get s now) keys" "found = map (\<lambda>k. st_Get s now k \<noteq> None) keys"
    using at by (simp_all add: list_eq_iff_nth_eq)
  ultimately show ?thesis by simp
qed

end
