(* ===== verification/ExpiryQueue.thy ===== *)
theory ExpiryQueue
  imports Prelude
begin

text \<open>
  The contract of a structure that remembers future expirations: what is pushed stays pending
  until a drain returns it, a drain at \<open>now\<close> returns only what is due, and what it leaves behind
  is not overdue by more than \<open>slack\<close> (the tick of a timing wheel; 0 for a heap).
\<close>

locale expiry_queue =
  fixes push :: "'s \<Rightarrow> 'x \<Rightarrow> 's"
    and drain :: "'s \<Rightarrow> int \<Rightarrow> 's \<times> 'x list"
    and due :: "'x \<Rightarrow> int"
    and pending :: "'s \<Rightarrow> 'x multiset"
    and slack :: "'s \<Rightarrow> int"
    and inv :: "'s \<Rightarrow> bool"
    and fits :: "'s \<Rightarrow> 'x \<Rightarrow> bool"
  assumes inv_push: "inv s \<Longrightarrow> fits s x \<Longrightarrow> inv (push s x)"
    and inv_drain: "inv s \<Longrightarrow> 0 \<le> now \<Longrightarrow> inv (fst (drain s now))"
    and pending_push: "inv s \<Longrightarrow> fits s x \<Longrightarrow> pending (push s x) = add_mset x (pending s)"
    and pending_drain: "inv s \<Longrightarrow> 0 \<le> now \<Longrightarrow>
      mset (snd (drain s now)) + pending (fst (drain s now)) = pending s"
    and drained_due: "inv s \<Longrightarrow> 0 \<le> now \<Longrightarrow> x \<in> set (snd (drain s now)) \<Longrightarrow> due x \<le> now"
    and left_not_due: "inv s \<Longrightarrow> 0 \<le> now \<Longrightarrow> x \<in># pending (fst (drain s now)) \<Longrightarrow> now - slack s < due x"
begin

text \<open>A drain returns every pending item that is overdue by more than the slack, as often as it was pushed.\<close>

lemma drained_complete:
  assumes "inv s" "0 \<le> now" "due x \<le> now - slack s"
  shows "count (mset (snd (drain s now))) x = count (pending s) x"
proof -
  have "x \<notin># pending (fst (drain s now))" using left_not_due [OF assms(1,2)] assms(3) by force
  then have "count (pending (fst (drain s now))) x = 0" by (simp add: count_eq_zero_iff)
  then show ?thesis using pending_drain [OF assms(1,2)] by (metis add.right_neutral count_union)
qed

lemma drained_future: "inv s \<Longrightarrow> 0 \<le> now \<Longrightarrow> now < due x \<Longrightarrow> x \<notin> set (snd (drain s now))"
  using drained_due by force

end

end
