(* ===== verification/ExpiryWheel.thy ===== *)
theory ExpiryWheel
  imports ExpiryQueue "HOL-Library.Signed_Division"
begin

text \<open>
  \<open>internal/store/expiry_wheel.go\<close>: a hashed timing wheel of 4096 buckets. An expiration goes to
  the bucket of its tick, the first multiple of the resolution at or after it; \<open>Advance\<close> visits
  the bucket of every tick that has passed, returns the items that are due and puts back those of
  a later rotation. Go's \<open>/\<close> truncates, as \<open>sdiv\<close> does.
\<close>

record 'k ExpiryWheelEntry =
  w_Key :: 'k
  w_KeyHash :: u64
  w_ExpireAt :: int

record 'k ExpiryWheel =
  w_resolution :: int
  w_mask :: u64
  w_currentTick :: int
  w_buckets :: "'k ExpiryWheelEntry list list"

definition NewExpiryWheel :: "int \<Rightarrow> int \<Rightarrow> 'k ExpiryWheel" where
  "NewExpiryWheel now resolution =
     (let resolution = (if resolution \<le> 0 then 100000000 else resolution);
          bucketCount = 4096
      in \<lparr>w_resolution = resolution, w_mask = of_nat (bucketCount - 1),
          w_currentTick = now sdiv resolution, w_buckets = replicate bucketCount []\<rparr>)"

definition w_Resolution :: "'k ExpiryWheel \<Rightarrow> int" where
  "w_Resolution w = w_resolution w"

text \<open>The tick of an expiration time and the bucket of a tick.\<close>

definition w_tick :: "int \<Rightarrow> int \<Rightarrow> int" where
  "w_tick resolution expireAt = i64 (expireAt + resolution - 1) sdiv resolution"

definition w_index :: "'k ExpiryWheel \<Rightarrow> int \<Rightarrow> nat" where
  "w_index w tick = unat ((word_of_int tick :: u64) AND w_mask w)"

text \<open>\<open>w.buckets[idx] = append(w.buckets[idx], item)\<close>\<close>

definition w_append :: "'k ExpiryWheel \<Rightarrow> 'k ExpiryWheelEntry \<Rightarrow> 'k ExpiryWheel" where
  "w_append w item =
     (let idx = w_index w (w_tick (w_resolution w) (w_ExpireAt item))
      in w\<lparr>w_buckets := (w_buckets w)[idx := w_buckets w ! idx @ [item]]\<rparr>)"

definition w_Schedule :: "'k ExpiryWheel \<Rightarrow> 'k \<Rightarrow> u64 \<Rightarrow> int \<Rightarrow> 'k ExpiryWheel" where
  "w_Schedule w key keyHash expireAt =
     (if expireAt \<le> 0 then w
      else w_append w \<lparr>w_Key = key, w_KeyHash = keyHash, w_ExpireAt = expireAt\<rparr>)"

definition w_sift ::
  "int \<Rightarrow> 'k ExpiryWheel \<times> 'k ExpiryWheelEntry list \<Rightarrow> 'k ExpiryWheelEntry
     \<Rightarrow> 'k ExpiryWheel \<times> 'k ExpiryWheelEntry list" where
  "w_sift now acc item =
     (let (w, expired) = acc
      in if w_ExpireAt item \<le> now then (w, expired @ [item]) else (w_append w item, expired))"

definition w_visit ::
  "int \<Rightarrow> 'k ExpiryWheel \<times> 'k ExpiryWheelEntry list \<Rightarrow> 'k ExpiryWheel \<times> 'k ExpiryWheelEntry list" where
  "w_visit now acc =
     (let (w, expired) = acc;
          idx = w_index w (w_currentTick w);
          bucket = w_buckets w ! idx
      in if bucket = [] then (w, expired)
         else foldl (w_sift now) (w\<lparr>w_buckets := (w_buckets w)[idx := []]\<rparr>, expired) bucket)"

text \<open>The loop of \<open>Advance\<close> runs once per tick; the counter is the number of ticks left.\<close>

fun w_loop ::
  "int \<Rightarrow> nat \<Rightarrow> 'k ExpiryWheel \<times> 'k ExpiryWheelEntry list \<Rightarrow> 'k ExpiryWheel \<times> 'k ExpiryWheelEntry list" where
  "w_loop now 0 acc = acc"
| "w_loop now (Suc n) (w, expired) =
     w_loop now n (w_visit now (w\<lparr>w_currentTick := w_currentTick w + 1\<rparr>, expired))"

definition w_Advance :: "'k ExpiryWheel \<Rightarrow> int \<Rightarrow> 'k ExpiryWheel \<times> 'k ExpiryWheelEntry list" where
  "w_Advance w now =
     (let nowTick = now sdiv w_resolution w
      in if nowTick \<le> w_currentTick w then (w, [])
         else w_loop now (nat (nowTick - w_currentTick w)) (w, []))"

definition w_Clear :: "'k ExpiryWheel \<Rightarrow> int \<Rightarrow> 'k ExpiryWheel" where
  "w_Clear w now = w\<lparr>w_buckets := map (\<lambda>b. []) (w_buckets w), w_currentTick := now sdiv w_resolution w\<rparr>"

subsection \<open>The invariant\<close>

text \<open>
  Every item sits in the bucket of its tick, and that tick is still to come. Times are positive
  and stay clear of the end of the 64-bit range.
\<close>

definition w_time :: "'k ExpiryWheel \<Rightarrow> int \<Rightarrow> bool" where
  "w_time w t \<longleftrightarrow> 0 < t \<and> t < 2 ^ 63 - w_resolution w"

definition w_placed :: "'k ExpiryWheel \<Rightarrow> bool" where
  "w_placed w \<longleftrightarrow>
     0 < w_resolution w \<and> w_resolution w < 2 ^ 62 \<and> 0 \<le> w_currentTick w \<and>
     length (w_buckets w) = 4096 \<and> w_mask w = 4095 \<and>
     (\<forall>i < 4096. \<forall>x \<in> set (w_buckets w ! i).
        w_time w (w_ExpireAt x) \<and> w_index w (w_tick (w_resolution w) (w_ExpireAt x)) = i)"

definition w_pending :: "'k ExpiryWheel \<Rightarrow> 'k ExpiryWheelEntry multiset" where
  "w_pending w = mset (concat (w_buckets w))"

definition w_inv :: "'k ExpiryWheel \<Rightarrow> bool" where
  "w_inv w \<longleftrightarrow> w_placed w \<and>
     (\<forall>x \<in># w_pending w. w_currentTick w < w_tick (w_resolution w) (w_ExpireAt x))"

lemma sdiv_nonneg: "0 \<le> (a :: int) \<Longrightarrow> 0 < b \<Longrightarrow> a sdiv b = a div b"
  by (simp add: signed_divide_int_def sgn_if)

lemma w_tick_bounds:
  assumes "w_placed w" "w_time w t"
  defines "k \<equiv> w_tick (w_resolution w) t"
  shows "t \<le> k * w_resolution w" "(k - 1) * w_resolution w < t"
proof -
  let ?r = "w_resolution w"
  have r: "0 < ?r" "?r < 2 ^ 62" using assms(1) by (auto simp: w_placed_def)
  have t: "0 < t" "t < 2 ^ 63 - ?r" using assms(2) by (auto simp: w_time_def)
  have "i64 (t + ?r - 1) = t + ?r - 1" using r t by (intro i64_id) linarith+
  then have k: "k = (t + ?r - 1) div ?r" using r t by (simp add: k_def w_tick_def sdiv_nonneg)
  have m: "(t + ?r - 1) div ?r * ?r = (t + ?r - 1) - (t + ?r - 1) mod ?r" by (simp add: minus_mod_eq_div_mult)
  have "0 \<le> (t + ?r - 1) mod ?r" "(t + ?r - 1) mod ?r < ?r" using r by simp_all
  then show "t \<le> k * ?r" "(k - 1) * ?r < t" using m unfolding k by (simp_all add: left_diff_distrib)
qed

lemma w_index_bound: "w_placed w \<Longrightarrow> w_index w k < 4096"
  using mask_index [of 4096 "word_of_int k"] by (simp add: w_placed_def w_index_def)

lemma w_index_cong: "w_mask w' = w_mask w \<Longrightarrow> w_index w' = w_index w"
  by (simp add: w_index_def fun_eq_iff)

lemma w_index_sel [simp]: "w_index (w\<lparr>w_buckets := b\<rparr>) = w_index w" "w_index (w\<lparr>w_currentTick := t\<rparr>) = w_index w"
  by (simp_all add: w_index_def fun_eq_iff)

lemma w_time_sel [simp]: "w_time (w\<lparr>w_buckets := b\<rparr>) = w_time w" "w_time (w\<lparr>w_currentTick := t\<rparr>) = w_time w"
  by (simp_all add: w_time_def fun_eq_iff)

text \<open>Replacing one bucket.\<close>

lemma mset_concat_update:
  "i < length xss \<Longrightarrow> mset (concat (xss[i := ys])) + mset (xss ! i) = mset (concat xss) + mset ys"
proof (induction xss arbitrary: i)
  case (Cons xs xss)
  then show ?case by (cases i) (auto simp: add.assoc)
qed simp

lemma w_append_sel [simp]:
  "w_resolution (w_append w x) = w_resolution w" "w_mask (w_append w x) = w_mask w"
  "w_currentTick (w_append w x) = w_currentTick w"
  by (simp_all add: w_append_def Let_def)

lemma w_append_placed:
  assumes "w_placed w" "w_time w (w_ExpireAt x)"
  shows "w_placed (w_append w x)" "w_pending (w_append w x) = add_mset x (w_pending w)"
proof -
  let ?i = "w_index w (w_tick (w_resolution w) (w_ExpireAt x))"
  have i: "?i < length (w_buckets w)" using w_index_bound [OF assms(1)] assms(1) by (simp add: w_placed_def)
  have nth: "(w_buckets w)[?i := y] ! j = (if j = ?i then y else w_buckets w ! j)" for y j
    using i by simp
  show "w_placed (w_append w x)"
    using assms unfolding w_placed_def w_append_def Let_def by (auto simp: nth)
  show "w_pending (w_append w x) = add_mset x (w_pending w)"
    using mset_concat_update [OF i, of "w_buckets w ! ?i @ [x]"]
    by (simp add: w_pending_def w_append_def Let_def)
qed

lemma w_sift_fold:
  assumes "foldl (w_sift now) (w, expired) xs = (w', expired')" "w_placed w"
    "\<forall>x\<in>set xs. w_time w (w_ExpireAt x)"
  shows "w_placed w' \<and> w_resolution w' = w_resolution w \<and> w_mask w' = w_mask w \<and>
    w_currentTick w' = w_currentTick w \<and>
    expired' = expired @ filter (\<lambda>x. w_ExpireAt x \<le> now) xs \<and>
    w_pending w' = w_pending w + mset (filter (\<lambda>x. \<not> w_ExpireAt x \<le> now) xs)"
  using assms
proof (induction xs arbitrary: w expired)
  case (Cons x xs)
  show ?case
  proof (cases "w_ExpireAt x \<le> now")
    case True
    then show ?thesis using Cons.IH [of w "expired @ [x]"] Cons.prems by (simp add: w_sift_def)
  next
    case False
    note a = w_append_placed [of w x]
    have "\<forall>y\<in>set xs. w_time (w_append w x) (w_ExpireAt y)"
      using Cons.prems(3) by (simp add: w_time_def)
    then show ?thesis using False Cons.IH [of "w_append w x" expired] Cons.prems a by (simp add: w_sift_def)
  qed
qed simp

text \<open>
  Visiting the bucket of the next tick, when that tick has passed: the items of that tick are all
  returned, so the invariant holds for the new tick.
\<close>

lemma w_visit_step:
  assumes inv: "w_inv w" and now: "(w_currentTick w + 1) * w_resolution w \<le> now"
    and v: "w_visit now (w\<lparr>w_currentTick := w_currentTick w + 1\<rparr>, expired) = (w', expired')"
  shows "w_inv w' \<and> w_resolution w' = w_resolution w \<and> w_currentTick w' = w_currentTick w + 1 \<and>
    (\<exists>ys. expired' = expired @ ys \<and> (\<forall>y\<in>set ys. w_ExpireAt y \<le> now) \<and>
       mset ys + w_pending w' = w_pending w)"
proof -
  let ?t = "w_currentTick w + 1"
  define idx where "idx = w_index w ?t"
  define bucket where "bucket = w_buckets w ! idx"
  define w1 where "w1 = w\<lparr>w_currentTick := ?t, w_buckets := (w_buckets w)[idx := []]\<rparr>"
  have p: "w_placed w" and l: "length (w_buckets w) = 4096" using inv by (auto simp: w_inv_def w_placed_def)
  have i: "idx < 4096" unfolding idx_def using w_index_bound [OF p] .
  have nth: "(w_buckets w)[idx := []] ! j = (if j = idx then [] else w_buckets w ! j)" for j
    using i l by simp
  have pl: "\<And>j x. j < 4096 \<Longrightarrow> x \<in> set (w_buckets w ! j) \<Longrightarrow>
      w_time w (w_ExpireAt x) \<and> w_index w (w_tick (w_resolution w) (w_ExpireAt x)) = j"
    using p by (auto simp: w_placed_def)
  have p1: "w_placed w1" using p unfolding w_placed_def w1_def by (auto simp: nth)
  have rest: "mset (concat ((w_buckets w)[idx := []])) + mset bucket = w_pending w"
    unfolding w_pending_def bucket_def using mset_concat_update [of idx "w_buckets w" "[]"] i l by simp
  have bt: "\<forall>x\<in>set bucket. w_time w (w_ExpireAt x)" using pl [OF i] by (auto simp: bucket_def)
  have fold: "foldl (w_sift now) (w1, expired) bucket = (w', expired')"
  proof (cases "bucket = []")
    case True
    have "(w_buckets w)[idx := []] = w_buckets w" using True by (metis bucket_def list_update_id)
    then have "w1 = w\<lparr>w_currentTick := ?t\<rparr>" by (simp add: w1_def)
    then show ?thesis using v True
      by (simp add: w_visit_def Let_def idx_def [symmetric] bucket_def [symmetric])
  next
    case False
    then show ?thesis using v
      by (simp add: w_visit_def Let_def idx_def [symmetric] bucket_def [symmetric] w1_def)
  qed
  have bt1: "\<forall>x\<in>set bucket. w_time w1 (w_ExpireAt x)" using bt by (simp add: w1_def)
  note sf = w_sift_fold [OF fold p1 bt1]
  have p1': "w_pending w1 = mset (concat ((w_buckets w)[idx := []]))" by (simp add: w1_def w_pending_def)
  have later: "?t < w_tick (w_resolution w) (w_ExpireAt x)" if x: "x \<in># w_pending w'" for x
  proof -
    have "x \<in># w_pending w1 \<or> x \<in> set bucket \<and> now < w_ExpireAt x"
      using sf x by auto
    then show ?thesis
    proof
      assume "x \<in># w_pending w1"
      then obtain j where j: "j < 4096" "x \<in> set (w_buckets w ! j)" "j \<noteq> idx"
        using l nth unfolding p1' by (auto simp: in_set_conv_nth [of _ "_[_ := _]"] split: if_splits)
      then have "w_tick (w_resolution w) (w_ExpireAt x) \<noteq> ?t" using pl [OF j(1,2)] by (auto simp: idx_def)
      moreover have "x \<in># w_pending w" using j l by (auto simp: w_pending_def)
      then have "w_currentTick w < w_tick (w_resolution w) (w_ExpireAt x)" using inv by (auto simp: w_inv_def)
      ultimately show ?thesis by linarith
    next
      assume x: "x \<in> set bucket \<and> now < w_ExpireAt x"
      have "w_ExpireAt x \<le> w_tick (w_resolution w) (w_ExpireAt x) * w_resolution w"
        using w_tick_bounds(1) [OF p] bt x by blast
      then have "?t * w_resolution w < w_tick (w_resolution w) (w_ExpireAt x) * w_resolution w"
        using now x by linarith
      then show ?thesis using p by (simp add: w_placed_def mult_less_cancel_right)
    qed
  qed
  have "mset (filter (\<lambda>x. w_ExpireAt x \<le> now) bucket) + w_pending w' = w_pending w"
  proof -
    have "mset (filter (\<lambda>x. w_ExpireAt x \<le> now) bucket) + mset (filter (\<lambda>x. \<not> w_ExpireAt x \<le> now) bucket) = mset bucket"
      by (metis mset_filter multiset_partition)
    then show ?thesis using sf rest p1' by (simp add: add.commute add.left_commute)
  qed
  then show ?thesis using sf later p1
    by (intro conjI exI [of _ "filter (\<lambda>x. w_ExpireAt x \<le> now) bucket"]) (auto simp: w_inv_def w1_def)
qed

lemma w_loop_steps:
  assumes "w_inv w" "(w_currentTick w + int n) * w_resolution w \<le> now"
    "w_loop now n (w, expired) = (w', expired')"
  shows "w_inv w' \<and> w_resolution w' = w_resolution w \<and> w_currentTick w' = w_currentTick w + int n \<and>
    (\<exists>ys. expired' = expired @ ys \<and> (\<forall>y\<in>set ys. w_ExpireAt y \<le> now) \<and>
       mset ys + w_pending w' = w_pending w)"
  using assms
proof (induction n arbitrary: w expired)
  case (Suc n)
  obtain w1 e1 where v: "w_visit now (w\<lparr>w_currentTick := w_currentTick w + 1\<rparr>, expired) = (w1, e1)"
    by (cases "w_visit now (w\<lparr>w_currentTick := w_currentTick w + 1\<rparr>, expired)")
  have r: "0 < w_resolution w" using Suc.prems(1) by (simp add: w_inv_def w_placed_def)
  have "(w_currentTick w + 1) * w_resolution w \<le> (w_currentTick w + int (Suc n)) * w_resolution w"
    using r by (intro mult_right_mono) auto
  then have "(w_currentTick w + 1) * w_resolution w \<le> now" using Suc.prems(2) by linarith
  from w_visit_step [OF Suc.prems(1) this v] obtain ys where ys: "w_inv w1"
    "w_resolution w1 = w_resolution w" "w_currentTick w1 = w_currentTick w + 1" "e1 = expired @ ys"
    "\<forall>y\<in>set ys. w_ExpireAt y \<le> now" "mset ys + w_pending w1 = w_pending w" by blast
  have "(w_currentTick w1 + int n) * w_resolution w1 \<le> now" using Suc.prems(2) ys(2,3) by (simp add: ac_simps)
  moreover have "w_loop now n (w1, e1) = (w', expired')" using Suc.prems(3) v by simp
  ultimately obtain zs where zs: "w_inv w'" "w_resolution w' = w_resolution w"
    "w_currentTick w' = w_currentTick w1 + int n" "expired' = e1 @ zs"
    "\<forall>y\<in>set zs. w_ExpireAt y \<le> now" "mset zs + w_pending w' = w_pending w1"
    using Suc.IH [OF ys(1)] ys(2) by metis
  then show ?case using ys
    by (intro conjI exI [of _ "ys @ zs"]) (auto simp: add.assoc)
qed auto

lemma w_Advance_spec:
  assumes "w_inv w" "0 \<le> now"
  shows "\<exists>w' ys. w_Advance w now = (w', ys) \<and> w_inv w' \<and> w_resolution w' = w_resolution w \<and>
    w_currentTick w' = max (w_currentTick w) (now div w_resolution w) \<and>
    (\<forall>y\<in>set ys. w_ExpireAt y \<le> now) \<and> mset ys + w_pending w' = w_pending w"
proof -
  have r: "0 < w_resolution w" using assms(1) by (simp add: w_inv_def w_placed_def)
  have s: "now sdiv w_resolution w = now div w_resolution w" using assms(2) r by (rule sdiv_nonneg)
  show ?thesis
  proof (cases "now div w_resolution w \<le> w_currentTick w")
    case True
    then show ?thesis using assms(1) s by (intro exI [of _ w] exI [of _ "[]"]) (simp add: w_Advance_def)
  next
    case False
    let ?n = "nat (now div w_resolution w - w_currentTick w)"
    obtain w' ys where l: "w_loop now ?n (w, []) = (w', ys)" by (cases "w_loop now ?n (w, [])")
    have "(w_currentTick w + int ?n) * w_resolution w \<le> now"
      using False r by (simp add: minus_mod_eq_div_mult [symmetric])
    from w_loop_steps [OF assms(1) this l] show ?thesis
      using False l s by (intro exI [of _ w'] exI [of _ ys]) (auto simp: w_Advance_def)
  qed
qed

text \<open>
  An expiration that lies after the wheel's current tick can be scheduled; every expiration of a
  time to live that starts at or after the last \<open>Advance\<close> does.
\<close>

definition w_fits :: "'k ExpiryWheel \<Rightarrow> 'k ExpiryWheelEntry \<Rightarrow> bool" where
  "w_fits w x \<longleftrightarrow> w_time w (w_ExpireAt x) \<and> w_currentTick w * w_resolution w < w_ExpireAt x"

definition w_push :: "'k ExpiryWheel \<Rightarrow> 'k ExpiryWheelEntry \<Rightarrow> 'k ExpiryWheel" where
  "w_push w x = w_Schedule w (w_Key x) (w_KeyHash x) (w_ExpireAt x)"

lemma w_push_spec:
  assumes "w_inv w" "w_fits w x"
  shows "w_inv (w_push w x) \<and> w_pending (w_push w x) = add_mset x (w_pending w)"
proof -
  have p: "w_placed w" and t: "w_time w (w_ExpireAt x)" and r: "0 < w_resolution w"
    using assms by (auto simp: w_inv_def w_fits_def w_placed_def)
  have "w_append w \<lparr>w_Key = w_Key x, w_KeyHash = w_KeyHash x, w_ExpireAt = w_ExpireAt x\<rparr> = w_append w x"
    by (cases x) simp
  then have e: "w_push w x = w_append w x" using t by (simp add: w_push_def w_Schedule_def w_time_def)
  have "w_currentTick w * w_resolution w < w_tick (w_resolution w) (w_ExpireAt x) * w_resolution w"
    using w_tick_bounds(1) [OF p t] assms(2) by (simp add: w_fits_def)
  then have "w_currentTick w < w_tick (w_resolution w) (w_ExpireAt x)" using r by (simp add: mult_less_cancel_right)
  then show ?thesis using w_append_placed [OF p t] assms(1) unfolding e by (auto simp: w_inv_def)
qed

interpretation wq: expiry_queue w_push w_Advance w_ExpireAt w_pending w_resolution w_inv w_fits
proof unfold_locales
  fix w :: "'k ExpiryWheel" and x :: "'k ExpiryWheelEntry" and now :: int
  assume i: "w_inv w"
  { assume f: "w_fits w x"
    show "w_inv (w_push w x)" "w_pending (w_push w x) = add_mset x (w_pending w)"
      using w_push_spec [OF i f] by auto }
  assume now: "0 \<le> now"
  obtain w' ys where a: "w_Advance w now = (w', ys)" "w_inv w'" "w_resolution w' = w_resolution w"
    "w_currentTick w' = max (w_currentTick w) (now div w_resolution w)"
    "\<forall>y\<in>set ys. w_ExpireAt y \<le> now" "mset ys + w_pending w' = w_pending w"
    using w_Advance_spec [OF i now] by blast
  show "w_inv (fst (w_Advance w now))" "mset (snd (w_Advance w now)) + w_pending (fst (w_Advance w now)) = w_pending w"
    using a by auto
  show "x \<in> set (snd (w_Advance w now)) \<Longrightarrow> w_ExpireAt x \<le> now" using a by auto
  assume "x \<in># w_pending (fst (w_Advance w now))"
  then have x: "x \<in># w_pending w'" using a by simp
  let ?r = "w_resolution w" and ?k = "w_tick (w_resolution w) (w_ExpireAt x)"
  have p: "w_placed w'" and r: "0 < ?r" using a(2,3) by (auto simp: w_inv_def w_placed_def)
  obtain j where "j < 4096" "x \<in> set (w_buckets w' ! j)"
    using x p by (auto simp: w_pending_def w_placed_def in_set_conv_nth [of _ "w_buckets w'"])
  then have "w_time w' (w_ExpireAt x)" using p by (auto simp: w_placed_def)
  from w_tick_bounds(2) [OF p this] have "(?k - 1) * ?r < w_ExpireAt x" using a(3) by simp
  moreover have "now div ?r < ?k" using a(2,3,4) x by (auto simp: w_inv_def)
  then have "now div ?r * ?r \<le> (?k - 1) * ?r" using r by (intro mult_right_mono) auto
  moreover have "now - ?r < now div ?r * ?r" using r by (simp add: minus_mod_eq_div_mult [symmetric])
  ultimately show "now - w_resolution w < w_ExpireAt x" by linarith
qed

lemma NewExpiryWheel_inv:
  assumes "0 \<le> now" "res < 2 ^ 62"
  shows "w_inv (NewExpiryWheel now res)" "w_pending (NewExpiryWheel now res) = {#}"
proof -
  show p: "w_pending (NewExpiryWheel now res) = {#}" by (simp add: w_pending_def NewExpiryWheel_def Let_def)
  have "0 \<le> now sdiv r" if "0 < r" for r using that assms(1) by (simp add: sdiv_nonneg pos_imp_zdiv_nonneg_iff)
  then show "w_inv (NewExpiryWheel now res)"
    unfolding w_inv_def p using assms(2) by (auto simp: w_placed_def NewExpiryWheel_def Let_def)
qed

lemma w_Clear_inv:
  assumes "w_inv w" "0 \<le> now"
  shows "w_inv (w_Clear w now)" "w_pending (w_Clear w now) = {#}" "w_resolution (w_Clear w now) = w_resolution w"
proof -
  show p: "w_pending (w_Clear w now) = {#}" by (simp add: w_pending_def w_Clear_def map_replicate_const)
  have "0 \<le> now sdiv w_resolution w"
    using assms by (simp add: sdiv_nonneg pos_imp_zdiv_nonneg_iff w_inv_def w_placed_def)
  then show "w_inv (w_Clear w now)"
    unfolding w_inv_def p using assms(1) by (auto simp: w_inv_def w_placed_def w_Clear_def)
  show "w_resolution (w_Clear w now) = w_resolution w" by (simp add: w_Clear_def)
qed

end
