(* ===== verification/Radix.thy ===== *)
theory Radix
  imports KvStore
begin

text \<open>
  \<open>internal/radix/tree.go\<close>: the radix tree of the string keys. A node owns its children, so the
  pointer structure is a tree and is modelled as a datatype; \<open>children\<close> is a Go map, a partial
  function from the first byte of the child's prefix. A Go string is its byte sequence, a
  \<open>char list\<close>. A range over the children visits them in an unspecified order: the argument
  \<open>ord\<close> gives, for the path of a node, the order in which its bytes are visited.
\<close>

datatype node = Node
  (n_prefix: string)
  (n_children: "char \<rightharpoonup> node")
  (n_isLeaf: bool)
  (n_keyHash: u64)

text \<open>The recursive methods descend from a node to a child.\<close>

definition child_rel :: "(node \<times> node) set" where
  "child_rel = {(m, n). m \<in> ran (n_children n)}"

lemma wf_child_rel: "wf child_rel"
proof (rule wfUNIVI)
  fix P and x :: node
  assume step: "\<forall>x. (\<forall>y. (y, x) \<in> child_rel \<longrightarrow> P y) \<longrightarrow> P x"
  show "P x"
  proof (induction x)
    case (Node p ch l h)
    have "P y" if "(y, Node p ch l h) \<in> child_rel" for y
      using that Node by (auto simp: child_rel_def ran_def) (metis option.set_intros rangeI)
    then show ?case using step by blast
  qed
qed

lemma child_relI [simp]: "ch c = Some m \<Longrightarrow> (m, Node p ch l h) \<in> child_rel"
  by (auto simp: child_rel_def ran_def)

record radixTree =
  t_root :: node
  t_size :: int

definition radix_New :: radixTree where
  "radix_New = \<lparr>t_root = Node [] Map.empty False 0, t_size = 0\<rparr>"

fun commonPrefixLen :: "string \<Rightarrow> string \<Rightarrow> nat" where
  "commonPrefixLen (a # as) (b # bs) = (if a \<noteq> b then 0 else Suc (commonPrefixLen as bs))"
| "commonPrefixLen _ _ = 0"

subsection \<open>Insertion and deletion\<close>

function insertNode :: "node \<Rightarrow> string \<Rightarrow> u64 \<Rightarrow> node \<times> bool" where
  "insertNode (Node p ch leaf kh) key hash =
     (if key = [] then (Node p ch True hash, \<not> leaf)
      else let c = hd key
           in case ch c of
                None \<Rightarrow> (Node p (ch(c \<mapsto> Node key Map.empty True hash)) leaf kh, True)
              | Some child \<Rightarrow>
                  let commonLen = commonPrefixLen (n_prefix child) key
                  in if commonLen = length (n_prefix child)
                     then let (child, isNew) = insertNode child (drop commonLen key) hash
                          in (Node p (ch(c \<mapsto> child)) leaf kh, isNew)
                     else
                       let old = Node (drop commonLen (n_prefix child)) (n_children child) (n_isLeaf child) (n_keyHash child);
                           chs = [hd (n_prefix old) \<mapsto> old];
                           remaining = drop commonLen key;
                           newChild =
                             (if remaining = []
                              then Node (take commonLen (n_prefix child)) chs True hash
                              else Node (take commonLen (n_prefix child))
                                     (chs(hd remaining \<mapsto> Node remaining Map.empty True hash)) False 0)
                       in (Node p (ch(c \<mapsto> newChild)) leaf kh, True))"
  by pat_completeness auto
termination by (relation "inv_image child_rel fst") (auto simp: wf_child_rel)

function deleteNode :: "node \<Rightarrow> string \<Rightarrow> node \<times> bool" where
  "deleteNode (Node p ch leaf kh) key =
     (if key = [] then (if leaf then (Node p ch False 0, True) else (Node p ch leaf kh, False))
      else let c = hd key
           in case ch c of
                None \<Rightarrow> (Node p ch leaf kh, False)
              | Some child \<Rightarrow>
                  let commonLen = commonPrefixLen (n_prefix child) key
                  in if commonLen < length (n_prefix child) then (Node p ch leaf kh, False)
                     else
                       let (child, deleted) = deleteNode child (drop commonLen key)
                       in if \<not> n_isLeaf child \<and> card (dom (n_children child)) = 0
                          then (Node p (ch(c := None)) leaf kh, deleted)
                          else if \<not> n_isLeaf child \<and> card (dom (n_children child)) = 1
                          then let grandchild = the (n_children child (the_elem (dom (n_children child))))
                               in (Node p (ch(c \<mapsto> Node (n_prefix child @ n_prefix grandchild) (n_children grandchild)
                                                  (n_isLeaf grandchild) (n_keyHash grandchild))) leaf kh, deleted)
                          else (Node p (ch(c \<mapsto> child)) leaf kh, deleted))"
  by pat_completeness auto
termination by (relation "inv_image child_rel fst") (auto simp: wf_child_rel)

declare insertNode.simps [simp del] deleteNode.simps [simp del]

definition radix_Insert :: "radixTree \<Rightarrow> string \<Rightarrow> u64 \<Rightarrow> radixTree" where
  "radix_Insert t key hash =
     (let (root, isNew) = insertNode (t_root t) key hash;
          t = t\<lparr>t_root := root\<rparr>
      in if isNew then t\<lparr>t_size := i64 (t_size t + 1)\<rparr> else t)"

definition radix_Delete :: "radixTree \<Rightarrow> string \<Rightarrow> radixTree \<times> bool" where
  "radix_Delete t key =
     (let (root, deleted) = deleteNode (t_root t) key;
          t = t\<lparr>t_root := root\<rparr>
      in (if deleted then t\<lparr>t_size := i64 (t_size t - 1)\<rparr> else t, deleted))"

definition radix_Size :: "radixTree \<Rightarrow> int" where
  "radix_Size t = t_size t"

definition radix_Clear :: "radixTree \<Rightarrow> radixTree" where
  "radix_Clear t = t\<lparr>t_root := Node [] Map.empty False 0, t_size := 0\<rparr>"

subsection \<open>Searching\<close>

text \<open>The loop of \<open>Has\<close>.\<close>

function hasNode :: "node \<Rightarrow> string \<Rightarrow> bool" where
  "hasNode (Node p ch leaf kh) remaining =
     (if remaining = [] then leaf
      else case ch (hd remaining) of
             None \<Rightarrow> False
           | Some child \<Rightarrow>
               let commonLen = commonPrefixLen (n_prefix child) remaining
               in if commonLen < length (n_prefix child) then False
                  else if commonLen = length remaining then n_isLeaf child
                  else hasNode child (drop commonLen remaining))"
  by pat_completeness auto
termination by (relation "inv_image child_rel fst") (auto simp: wf_child_rel)

definition radix_Has :: "radixTree \<Rightarrow> string \<Rightarrow> bool" where
  "radix_Has t key = hasNode (t_root t) key"

text \<open>
  The descent of \<open>FindByPrefix\<close> and of \<open>WalkPrefix\<close>: the node under which every key with the
  prefix lies, and the concatenated prefixes on the way to it (\<open>keyBuilder\<close>).
\<close>

function descend :: "node \<Rightarrow> string \<Rightarrow> string \<Rightarrow> (node \<times> string) option" where
  "descend (Node p ch leaf kh) remaining keyBuilder =
     (if remaining = [] then Some (Node p ch leaf kh, keyBuilder)
      else case ch (hd remaining) of
             None \<Rightarrow> None
           | Some child \<Rightarrow>
               let commonLen = commonPrefixLen (n_prefix child) remaining
               in if commonLen < length remaining \<and> commonLen < length (n_prefix child) then None
                  else if commonLen \<ge> length remaining then Some (child, keyBuilder @ n_prefix child)
                  else descend child (drop commonLen remaining) (keyBuilder @ n_prefix child))"
  by pat_completeness auto
termination by (relation "inv_image child_rel fst") (auto simp: wf_child_rel)

declare hasNode.simps [simp del] descend.simps [simp del]

type_synonym byte_order = "string \<Rightarrow> char list"

definition enumerates_bytes :: "byte_order \<Rightarrow> bool" where
  "enumerates_bytes ord \<longleftrightarrow> (\<forall>path. distinct (ord path) \<and> set (ord path) = UNIV)"

primrec collectHashes :: "node \<Rightarrow> byte_order \<Rightarrow> string \<Rightarrow> nat \<Rightarrow> u64 list \<Rightarrow> u64 list" where
  "collectHashes (Node p ch leaf kh) ord path limit results =
     (if length results \<ge> limit then results
      else let results = (if leaf then results @ [kh] else results)
           in foldl (\<lambda>results c.
                 case (map_option collectHashes \<circ> ch) c of
                   None \<Rightarrow> results
                 | Some collect \<Rightarrow>
                     if length results \<ge> limit then results \<comment> \<open>returned after an earlier child\<close>
                     else collect ord (path @ [c]) limit results)
               results (ord path))"

definition radix_FindByPrefix :: "byte_order \<Rightarrow> radixTree \<Rightarrow> string \<Rightarrow> int \<Rightarrow> u64 list" where
  "radix_FindByPrefix ord t pre limit =
     (let limit = (if limit \<le> 0 then 100 else limit)
      in case descend (t_root t) pre [] of
           None \<Rightarrow> []
         | Some (n, keyBuilder) \<Rightarrow> collectHashes n ord [] (nat limit) [])"

text \<open>
  \<open>walkNode\<close>: the callback gets the reported key and its hash, updates the caller's variables
  and says whether to go on. The walk reports keys below \<open>keyPrefix\<close>.
\<close>

primrec walkNode ::
  "node \<Rightarrow> byte_order \<Rightarrow> string \<Rightarrow> string \<Rightarrow> ('a \<Rightarrow> string \<Rightarrow> u64 \<Rightarrow> 'a \<times> bool) \<Rightarrow> 'a \<Rightarrow> 'a \<times> bool" where
  "walkNode (Node p ch leaf kh) ord path keyPrefix fn acc =
     (let (acc, go) = (if leaf then fn acc keyPrefix kh else (acc, True))
      in foldl (\<lambda>(acc, go) c.
            if \<not> go then (acc, False)
            else case (map_option walkNode \<circ> ch) c of
                   None \<Rightarrow> (acc, True)
                 | Some walk \<Rightarrow> walk ord (path @ [c]) (keyPrefix @ n_prefix (the (ch c))) fn acc)
          (acc, go) (ord path))"

definition radix_WalkPrefix ::
  "byte_order \<Rightarrow> radixTree \<Rightarrow> string \<Rightarrow> ('a \<Rightarrow> string \<Rightarrow> u64 \<Rightarrow> 'a \<times> bool) \<Rightarrow> 'a \<Rightarrow> 'a" where
  "radix_WalkPrefix ord t pre fn acc =
     (case descend (t_root t) pre [] of
        None \<Rightarrow> acc
      | Some (n, keyBuilder) \<Rightarrow> fst (walkNode n ord [] pre fn acc))"

subsection \<open>Common prefixes\<close>

lemma commonPrefixLen_le: "commonPrefixLen a b \<le> length a" "commonPrefixLen a b \<le> length b"
  by (induction a b rule: commonPrefixLen.induct) auto

lemma commonPrefixLen_take: "take (commonPrefixLen a b) a = take (commonPrefixLen a b) b"
  by (induction a b rule: commonPrefixLen.induct) auto

lemma commonPrefixLen_full: "commonPrefixLen a b = length a \<longleftrightarrow> take (length a) b = a"
  by (induction a b rule: commonPrefixLen.induct) auto

lemma commonPrefixLen_full2: "commonPrefixLen a b = length b \<longleftrightarrow> take (length b) a = b"
  by (induction a b rule: commonPrefixLen.induct) auto

lemma commonPrefixLen_differ:
  "commonPrefixLen a b < length a \<Longrightarrow> commonPrefixLen a b < length b \<Longrightarrow>
    hd (drop (commonPrefixLen a b) a) \<noteq> hd (drop (commonPrefixLen a b) b)"
  by (induction a b rule: commonPrefixLen.induct) auto

lemma commonPrefixLen_pos: "a \<noteq> [] \<Longrightarrow> b \<noteq> [] \<Longrightarrow> hd a = hd b \<Longrightarrow> 0 < commonPrefixLen a b"
  by (cases a; cases b) auto

subsection \<open>The map a tree denotes\<close>

function den :: "node \<Rightarrow> string \<Rightarrow> u64 option" where
  "den (Node p ch leaf kh) key =
     (if key = [] then (if leaf then Some kh else None)
      else case ch (hd key) of
             None \<Rightarrow> None
           | Some child \<Rightarrow>
               if take (length (n_prefix child)) key = n_prefix child
               then den child (drop (length (n_prefix child)) key) else None)"
  by pat_completeness auto
termination by (relation "inv_image child_rel fst") (auto simp: wf_child_rel)

declare den.simps [simp del]

text \<open>The lookup through the edge into a child.\<close>

definition sub :: "node \<Rightarrow> string \<Rightarrow> u64 option" where
  "sub m key = (if take (length (n_prefix m)) key = n_prefix m then den m (drop (length (n_prefix m)) key) else None)"

lemma den_Nil [simp]: "den n [] = (if n_isLeaf n then Some (n_keyHash n) else None)"
  by (cases n) (simp add: den.simps)

lemma den_Cons: "key \<noteq> [] \<Longrightarrow>
    den n key = (case n_children n (hd key) of None \<Rightarrow> None | Some m \<Rightarrow> sub m key)"
  by (cases n) (simp add: den.simps sub_def split: option.split)

lemma den_upd: "key \<noteq> [] \<Longrightarrow> den (Node p (ch(c := x)) l h) key =
    (if hd key = c then (case x of None \<Rightarrow> None | Some m \<Rightarrow> sub m key) else den (Node p ch l h) key)"
  by (simp add: den_Cons)

lemma den_prefix: "den (Node p ch l h) = den (Node q ch l h)"
proof
  fix key show "den (Node p ch l h) key = den (Node q ch l h) key"
    by (cases "key = []") (simp_all add: den_Cons)
qed

text \<open>A node splits into two along its prefix, and two nodes merge: the lookups are the same.\<close>

lemma sub_split:
  assumes "q \<noteq> []"
  shows "sub (Node p [hd q \<mapsto> Node q ch l h] False h') = sub (Node (p @ q) ch l h)"
proof
  fix key
  have d: "den (Node (p @ q) ch l h) = den (Node q ch l h)" by (rule den_prefix)
  show "sub (Node p [hd q \<mapsto> Node q ch l h] False h') key = sub (Node (p @ q) ch l h) key"
  proof (cases "take (length p) key = p")
    case True
    then obtain r where key: "key = p @ r" by (metis append_take_drop_id)
    show ?thesis
    proof (cases "r = []")
      case True
      then show ?thesis using assms by (simp add: sub_def key)
    next
      case False
      have "take (length q) r = q \<Longrightarrow> hd r = hd q" using assms by (metis hd_take length_greater_0_conv)
      then show ?thesis using False by (auto simp: sub_def key den_Cons d)
    qed
  next
    case False
    then have "take (length (p @ q)) key \<noteq> p @ q"
      by (metis append_eq_conv_conj length_append min.absorb1 le_add1 take_take)
    then show ?thesis using False by (simp add: sub_def)
  qed
qed

lemma sub_fresh: "sub (Node key Map.empty True hash) k = (if k = key then Some hash else None)"
proof (cases "take (length key) k = key")
  case True
  then obtain r where "k = key @ r" by (metis append_take_drop_id)
  then show ?thesis by (cases "r = []") (auto simp: sub_def den_Cons)
next
  case False
  then show ?thesis by (auto simp: sub_def)
qed

text \<open>
  The shape of a tree: the prefix of a child is not empty and starts with the byte it is stored
  under, and a child is a leaf or branches (paths are compressed).
\<close>

inductive node_ok :: "node \<Rightarrow> bool" where
  "(\<And>c m. ch c = Some m \<Longrightarrow> n_prefix m \<noteq> [] \<and> hd (n_prefix m) = c \<and>
      (n_isLeaf m \<or> 2 \<le> card (dom (n_children m))) \<and> node_ok m) \<Longrightarrow> node_ok (Node p ch l h)"

inductive_simps node_ok_Node: "node_ok (Node p ch l h)"

declare node_ok_Node [simp del]

definition child_ok :: "char \<Rightarrow> node \<Rightarrow> bool" where
  "child_ok c m \<longleftrightarrow> n_prefix m \<noteq> [] \<and> hd (n_prefix m) = c \<and>
     (n_isLeaf m \<or> 2 \<le> card (dom (n_children m))) \<and> node_ok m"

lemma node_ok_iff: "node_ok (Node p ch l h) \<longleftrightarrow> (\<forall>c m. ch c = Some m \<longrightarrow> child_ok c m)"
  by (auto simp: node_ok_Node child_ok_def)

lemma node_ok_prefix: "node_ok (Node p ch l h) = node_ok (Node q ch l' h')"
  by (simp add: node_ok_iff)

lemma node_ok_upd: "node_ok (Node p ch l h) \<Longrightarrow> (\<And>m. x = Some m \<Longrightarrow> child_ok c m) \<Longrightarrow>
    node_ok (Node p (ch(c := x)) l' h')"
  by (simp add: node_ok_iff)

lemma node_ok_child: "node_ok (Node p ch l h) \<Longrightarrow> ch c = Some m \<Longrightarrow> child_ok c m"
  by (simp add: node_ok_iff)

lemma node_ok_leaf: "node_ok (Node p Map.empty l h)"
  by (simp add: node_ok_iff)

lemma finite_bytes: "finite (A :: char set)"
  by (rule finite)

subsection \<open>Insertion\<close>

text \<open>What the split of a node does, when the key leaves its prefix in the middle.\<close>

lemma split_child:
  fixes hash :: u64
  assumes m: "child_ok c m" and key: "key \<noteq> []" "hd key = c"
    and n: "n = commonPrefixLen (n_prefix m) key" "n \<noteq> length (n_prefix m)"
  defines "old \<equiv> Node (drop n (n_prefix m)) (n_children m) (n_isLeaf m) (n_keyHash m)"
  defines "new \<equiv> (if drop n key = [] then Node (take n (n_prefix m)) [hd (n_prefix old) \<mapsto> old] True hash
     else Node (take n (n_prefix m)) ([hd (n_prefix old) \<mapsto> old](hd (drop n key) \<mapsto> Node (drop n key) Map.empty True hash)) False 0)"
  shows "child_ok c new" "sub new = (sub m)(key \<mapsto> hash)" "sub m key = None"
proof -
  let ?p = "take n (n_prefix m)" and ?q = "drop n (n_prefix m)" and ?r = "drop n key"
  have lt: "n < length (n_prefix m)" using n commonPrefixLen_le(1) [of "n_prefix m" key] by simp
  have q: "?q \<noteq> []" using lt by simp
  have pos: "0 < n" using m key n(1) commonPrefixLen_pos [of "n_prefix m" key] by (auto simp: child_ok_def)
  have pk: "key = ?p @ ?r" using n(1) commonPrefixLen_take [of "n_prefix m" key] by (metis append_take_drop_id)
  have p: "?p \<noteq> []" "hd ?p = c" using pos lt m by (auto simp: child_ok_def hd_take)
  have m': "m = Node (?p @ ?q) (n_children m) (n_isLeaf m) (n_keyHash m)" by simp
  have differ: "?r \<noteq> [] \<Longrightarrow> hd ?r \<noteq> hd ?q"
    using commonPrefixLen_differ [of "n_prefix m" key] lt n(1) by auto
  have oldok: "child_ok (hd ?q) old"
    using m q by (cases m) (auto simp: child_ok_def old_def node_ok_prefix [of "drop n _" _ _ _ "n_prefix m"] node_ok_iff)
  have "take (length (n_prefix m)) key \<noteq> n_prefix m" using n commonPrefixLen_full by metis
  then show "sub m key = None" by (simp add: sub_def)
  have old: "sub (Node ?p [hd ?q \<mapsto> old] False 0) = sub m"
    using sub_split [OF q, of ?p "n_children m" "n_isLeaf m" "n_keyHash m" 0] by (simp add: old_def)
  have newdef: "new = (if ?r = [] then Node ?p [hd ?q \<mapsto> old] True hash
      else Node ?p ([hd ?q \<mapsto> old](hd ?r \<mapsto> Node ?r Map.empty True hash)) False 0)"
    by (simp add: new_def old_def)
  show "child_ok c new"
  proof (cases "?r = []")
    case True
    then show ?thesis unfolding newdef using p oldok by (auto simp: child_ok_def [of c] node_ok_iff)
  next
    case False
    have "card {hd ?r, hd ?q} = 2" using differ [OF False] by simp
    moreover have "child_ok (hd ?r) (Node ?r Map.empty True hash)"
      using False by (simp add: child_ok_def node_ok_leaf)
    ultimately show ?thesis unfolding newdef using False p oldok
      by (auto simp: child_ok_def [of c] node_ok_iff)
  qed
  show "sub new = (sub m)(key \<mapsto> hash)"
  proof
    fix k
    show "sub new k = ((sub m)(key \<mapsto> hash)) k"
    proof (cases "take (length ?p) k = ?p")
      case False
      then have "k \<noteq> key" using pk by (metis append_eq_conv_conj)
      then show ?thesis using False unfolding old [symmetric] newdef by (auto simp: sub_def)
    next
      case True
      then obtain s where k: "k = ?p @ s" by (metis append_take_drop_id)
      have ks: "k = key \<longleftrightarrow> s = ?r" using k pk by (metis same_append_eq)
      have so: "sub m k = den (Node ?p [hd ?q \<mapsto> old] False 0) s" 
        unfolding old [symmetric] using lt by (simp add: sub_def k min_absorb2)
      have sn: "sub new k = den new s" unfolding newdef using k lt by (auto simp: sub_def min_absorb2)
      show ?thesis
      proof (cases "?r = []")
        case True
        then show ?thesis using ks so sn unfolding newdef by (cases "s = []") (auto simp: den_Cons)
      next
        case False
        then show ?thesis using ks so sn differ unfolding newdef
          by (cases "s = []") (auto simp: den_Cons sub_fresh)
      qed
    qed
  qed
qed

lemma sub_recurse:
  assumes "commonPrefixLen (n_prefix m) key = length (n_prefix m)"
  shows "sub m key = den m (drop (length (n_prefix m)) key)"
    "n_prefix m' = n_prefix m \<Longrightarrow> den m' = (den m)(drop (length (n_prefix m)) key := x) \<Longrightarrow> sub m' = (sub m)(key := x)"
proof -
  have t: "take (length (n_prefix m)) key = n_prefix m" using assms commonPrefixLen_full by metis
  then show "sub m key = den m (drop (length (n_prefix m)) key)" by (simp add: sub_def)
  assume m': "n_prefix m' = n_prefix m" "den m' = (den m)(drop (length (n_prefix m)) key := x)"
  have "drop (length (n_prefix m)) k = drop (length (n_prefix m)) key \<longleftrightarrow> k = key"
    if "take (length (n_prefix m)) k = n_prefix m" for k
    using that t by (metis append_take_drop_id)
  then show "sub m' = (sub m)(key := x)" using t m' by (auto simp: sub_def fun_eq_iff)
qed

lemma den_edge:
  assumes "key \<noteq> []" "ch (hd key) = Some m" "sub m' = (sub m)(key := x)"
  shows "den (Node p (ch(hd key \<mapsto> m')) l h) = (den (Node p ch l h))(key := x)"
proof
  fix k
  show "den (Node p (ch(hd key \<mapsto> m')) l h) k = ((den (Node p ch l h))(key := x)) k"
    using assms by (cases "k = []") (auto simp: den_Cons)
qed

lemma insertNode_spec:
  "node_ok n \<Longrightarrow> insertNode n key hash = (n', isNew) \<Longrightarrow>
    node_ok n' \<and> n_prefix n' = n_prefix n \<and> (n_isLeaf n \<longrightarrow> n_isLeaf n') \<and>
    dom (n_children n) \<subseteq> dom (n_children n') \<and>
    den n' = (den n)(key \<mapsto> hash) \<and> isNew = (den n key = None)"
proof (induction n key hash arbitrary: n' isNew rule: insertNode.induct)
  case (1 p ch leaf kh key hash)
  note ok = 1(2) and ins = 1(3)
  show ?case
  proof (cases "key = []")
    case True
    then have "n' = Node p ch True hash" "isNew = (\<not> leaf)" using ins by (auto simp: insertNode.simps)
    moreover have "den (Node p ch True hash) k = ((den (Node p ch leaf kh))([] \<mapsto> hash)) k" for k
      by (cases "k = []") (simp_all add: den_Cons)
    ultimately show ?thesis using ok True by (auto simp: fun_eq_iff node_ok_iff)
  next
    case key: False
    show ?thesis
    proof (cases "ch (hd key)")
      case None
      then have n': "n' = Node p (ch(hd key \<mapsto> Node key Map.empty True hash)) leaf kh" "isNew"
        using ins key by (auto simp: insertNode.simps Let_def)
      have "child_ok (hd key) (Node key Map.empty True hash)" using key by (simp add: child_ok_def node_ok_leaf)
      then have "node_ok n'" unfolding n' by (intro node_ok_upd [OF ok]) auto
      moreover have "den n' k = ((den (Node p ch leaf kh))(key \<mapsto> hash)) k" for k
        using key None by (cases "k = []") (auto simp: n' den_Cons sub_fresh)
      ultimately show ?thesis using n' key None by (auto simp: den_Cons fun_eq_iff)
    next
      case (Some m)
      note m = node_ok_child [OF ok Some]
      let ?n = "commonPrefixLen (n_prefix m) key"
      show ?thesis
      proof (cases "?n = length (n_prefix m)")
        case True
        obtain m' new where r: "insertNode m (drop ?n key) hash = (m', new)"
          by (cases "insertNode m (drop ?n key) hash")
        then have n': "n' = Node p (ch(hd key \<mapsto> m')) leaf kh" "isNew = new"
          using ins key Some True by (auto simp: insertNode.simps Let_def)
        have "node_ok m" using m by (simp add: child_ok_def)
        then have ih: "node_ok m'" "n_prefix m' = n_prefix m" "n_isLeaf m \<longrightarrow> n_isLeaf m'"
          "dom (n_children m) \<subseteq> dom (n_children m')" "den m' = (den m)(drop ?n key \<mapsto> hash)"
          "new = (den m (drop ?n key) = None)"
          using 1(1) [OF key refl Some refl True _ r] by auto
        note sr = sub_recurse [OF True]
        have sub': "sub m' = (sub m)(key \<mapsto> hash)" using sr(2) [OF ih(2)] ih(5) True by simp
        have "card (dom (n_children m)) \<le> card (dom (n_children m'))" using ih(4) by (intro card_mono finite_bytes)
        then have "child_ok (hd key) m'" using m ih by (auto simp: child_ok_def)
        then have "node_ok n'" unfolding n' by (intro node_ok_upd [OF ok]) auto
        moreover have "den n' = (den (Node p ch leaf kh))(key \<mapsto> hash)"
          unfolding n' by (rule den_edge [where ch = ch, OF key Some sub'])
        moreover have "new = (den (Node p ch leaf kh) key = None)"
          using ih(6) sr(1) True key Some by (simp add: den_Cons)
        ultimately show ?thesis using n' by auto
      next
        case False
        note sp = split_child(1,2) [where hash = hash, OF m key refl refl False]
        note no = split_child(3) [OF m key refl refl False]
        let ?old = "Node (drop ?n (n_prefix m)) (n_children m) (n_isLeaf m) (n_keyHash m)"
        let ?new = "if drop ?n key = [] then Node (take ?n (n_prefix m)) [hd (n_prefix ?old) \<mapsto> ?old] True hash
          else Node (take ?n (n_prefix m)) ([hd (n_prefix ?old) \<mapsto> ?old](hd (drop ?n key) \<mapsto> Node (drop ?n key) Map.empty True hash)) False 0"
        have n': "n' = Node p (ch(hd key \<mapsto> ?new)) leaf kh" "isNew"
          using ins key Some False by (auto simp: insertNode.simps Let_def)
        have "node_ok n'" unfolding n' using sp(1) by (intro node_ok_upd [OF ok]) auto
        moreover have "den n' = (den (Node p ch leaf kh))(key \<mapsto> hash)"
          unfolding n' by (rule den_edge [where ch = ch, OF key Some sp(2)])
        moreover have "den (Node p ch leaf kh) key = None" using no key Some by (simp add: den_Cons)
        ultimately show ?thesis using n' by auto
      qed
    qed
  qed
qed

subsection \<open>Deletion\<close>

text \<open>A node that is neither a leaf nor branching, and the one it is merged with.\<close>

lemma merge_child:
  assumes m: "node_ok m" "n_prefix m \<noteq> []" "\<not> n_isLeaf m" "dom (n_children m) = {b}"
  defines "g \<equiv> the (n_children m b)"
  shows "child_ok (hd (n_prefix m)) (Node (n_prefix m @ n_prefix g) (n_children g) (n_isLeaf g) (n_keyHash g))"
    "sub (Node (n_prefix m @ n_prefix g) (n_children g) (n_isLeaf g) (n_keyHash g)) = sub m"
proof -
  have "b \<in> dom (n_children m)" using m(4) by simp
  then have b: "n_children m b = Some g" by (auto simp: g_def)
  have g: "child_ok b g" using m(1) b by (cases m rule: node.exhaust) (simp add: node_ok_iff)
  have "node_ok g" using g by (simp add: child_ok_def)
  then have "node_ok (Node (n_prefix m @ n_prefix g) (n_children g) (n_isLeaf g) (n_keyHash g))"
    by (cases g rule: node.exhaust) (auto simp: node_ok_iff)
  then show "child_ok (hd (n_prefix m)) (Node (n_prefix m @ n_prefix g) (n_children g) (n_isLeaf g) (n_keyHash g))"
    using g m(2) by (simp add: child_ok_def)
  have "n_children m = [b \<mapsto> g]" using m(4) b by (auto simp: dom_eq_singleton_conv)
  then have "m = Node (n_prefix m) [hd (n_prefix g) \<mapsto> Node (n_prefix g) (n_children g) (n_isLeaf g) (n_keyHash g)] False (n_keyHash m)"
    using m(3) g by (cases m) (simp add: child_ok_def)
  then show "sub (Node (n_prefix m @ n_prefix g) (n_children g) (n_isLeaf g) (n_keyHash g)) = sub m"
    using sub_split [of "n_prefix g" "n_prefix m"] g by (metis child_ok_def)
qed

lemma den_dead: "\<not> n_isLeaf m \<Longrightarrow> dom (n_children m) = {} \<Longrightarrow> sub m k = None"
  by (cases "drop (length (n_prefix m)) k = []") (auto simp: sub_def den_Cons)

lemma deleteNode_spec:
  "node_ok n \<Longrightarrow> deleteNode n key = (n', deleted) \<Longrightarrow>
    node_ok n' \<and> n_prefix n' = n_prefix n \<and> den n' = (den n)(key := None) \<and> deleted = (den n key \<noteq> None)"
proof (induction n key arbitrary: n' deleted rule: deleteNode.induct)
  case (1 p ch leaf kh key)
  note ok = 1(2) and del = 1(3)
  show ?case
  proof (cases "key = []")
    case True
    then have "n' = Node p ch False (if leaf then 0 else kh)" "deleted = leaf"
      using del by (auto simp: deleteNode.simps split: if_splits)
    moreover have "den (Node p ch False h) k = ((den (Node p ch leaf kh))([] := None)) k" for k h
      by (cases "k = []") (simp_all add: den_Cons)
    ultimately show ?thesis using ok True by (auto simp: fun_eq_iff node_ok_iff)
  next
    case key: False
    show ?thesis
    proof (cases "ch (hd key)")
      case None
      then show ?thesis using del key ok by (auto simp: deleteNode.simps Let_def den_Cons fun_eq_iff)
    next
      case (Some m)
      note m = node_ok_child [OF ok Some]
      let ?n = "commonPrefixLen (n_prefix m) key"
      show ?thesis
      proof (cases "?n < length (n_prefix m)")
        case True
        then have "take (length (n_prefix m)) key \<noteq> n_prefix m" using commonPrefixLen_full [of "n_prefix m" key] by auto
        then have "sub m key = None" by (simp add: sub_def)
        then show ?thesis using del key ok Some True
          by (auto simp: deleteNode.simps Let_def den_Cons fun_eq_iff)
      next
        case False
        then have full: "?n = length (n_prefix m)" using commonPrefixLen_le(1) [of "n_prefix m" key] by simp
        obtain m' d where r: "deleteNode m (drop ?n key) = (m', d)" by (cases "deleteNode m (drop ?n key)")
        have "node_ok m" using m by (simp add: child_ok_def)
        then have ih: "node_ok m'" "n_prefix m' = n_prefix m" "den m' = (den m)(drop ?n key := None)"
          "d = (den m (drop ?n key) \<noteq> None)"
          using 1(1) [OF key refl Some refl False _ r] by auto
        note sr = sub_recurse [OF full]
        have sub': "sub m' = (sub m)(key := None)" using sr(2) [OF ih(2)] ih(3) full by simp
        have del': "d = (den (Node p ch leaf kh) key \<noteq> None)"
          using ih(4) sr(1) full key Some by (simp add: den_Cons)
        have pm: "n_prefix m' \<noteq> []" "hd (n_prefix m') = hd key" using ih(2) m by (auto simp: child_ok_def)
        have step: "(n', deleted) =
          (if \<not> n_isLeaf m' \<and> card (dom (n_children m')) = 0 then (Node p (ch(hd key := None)) leaf kh, d)
           else if \<not> n_isLeaf m' \<and> card (dom (n_children m')) = 1
           then let g = the (n_children m' (the_elem (dom (n_children m'))))
                in (Node p (ch(hd key \<mapsto> Node (n_prefix m' @ n_prefix g) (n_children g) (n_isLeaf g) (n_keyHash g))) leaf kh, d)
           else (Node p (ch(hd key \<mapsto> m')) leaf kh, d))"
          using del key Some False r by (simp add: deleteNode.simps Let_def)
        consider (gone) "\<not> n_isLeaf m'" "card (dom (n_children m')) = 0"
          | (merge) "\<not> n_isLeaf m'" "card (dom (n_children m')) = 1"
          | (stays) "n_isLeaf m' \<or> 2 \<le> card (dom (n_children m'))" by linarith
        then show ?thesis
        proof cases
          case gone
          then have n': "n' = Node p (ch(hd key := None)) leaf kh" "deleted = d" using step by simp_all
          have "dom (n_children m') = {}" using gone(2) finite_bytes by simp
          then have dead: "sub m' k = None" for k using den_dead gone(1) by blast
          have "den n' k = ((den (Node p ch leaf kh))(key := None)) k" for k
            using key Some sub' dead by (cases "k = []") (auto simp: n' den_Cons fun_upd_def fun_eq_iff split: if_splits)
          moreover have "node_ok n'" unfolding n' by (intro node_ok_upd [OF ok]) simp
          ultimately show ?thesis using n' del' by (auto simp: fun_eq_iff)
        next
          case merge
          then obtain b where b: "dom (n_children m') = {b}" by (auto simp: card_1_singleton_iff)
          let ?g = "the (n_children m' b)"
          let ?m = "Node (n_prefix m' @ n_prefix ?g) (n_children ?g) (n_isLeaf ?g) (n_keyHash ?g)"
          have n': "n' = Node p (ch(hd key \<mapsto> ?m)) leaf kh" "deleted = d" using step merge b by (simp_all add: Let_def)
          note mc = merge_child [OF ih(1) pm(1) merge(1) b]
          have "node_ok n'" unfolding n' using mc(1) pm(2) by (intro node_ok_upd [OF ok]) simp
          moreover have "den n' = (den (Node p ch leaf kh))(key := None)"
            unfolding n' by (rule den_edge [where ch = ch, OF key Some]) (simp add: mc(2) sub')
          ultimately show ?thesis using n' del' by simp
        next
          case stays
          then have no: "\<not> (\<not> n_isLeaf m' \<and> card (dom (n_children m')) = 0)"
            "\<not> (\<not> n_isLeaf m' \<and> card (dom (n_children m')) = 1)" by linarith+
          have n': "n' = Node p (ch(hd key \<mapsto> m')) leaf kh" "deleted = d"
            using step unfolding if_not_P [OF no(1)] if_not_P [OF no(2)] by auto
          have "child_ok (hd key) m'" using stays pm ih(1) by (simp add: child_ok_def)
          then have "node_ok n'" unfolding n' by (intro node_ok_upd [OF ok]) auto
          moreover have "den n' = (den (Node p ch leaf kh))(key := None)"
            unfolding n' by (rule den_edge [where ch = ch, OF key Some sub'])
          ultimately show ?thesis using n' del' by simp
        qed
      qed
    qed
  qed
qed

subsection \<open>Searching\<close>

lemma hasNode_den: "hasNode n key \<longleftrightarrow> den n key \<noteq> None"
proof (induction n key rule: hasNode.induct)
  case (1 p ch leaf kh key)
  show ?case
  proof (cases "key = [] \<or> ch (hd key) = None")
    case True
    then show ?thesis by (auto simp: hasNode.simps den_Cons)
  next
    case False
    then obtain m where m: "key \<noteq> []" "ch (hd key) = Some m" by auto
    let ?n = "commonPrefixLen (n_prefix m) key"
    have has: "hasNode (Node p ch leaf kh) key =
        (if ?n < length (n_prefix m) then False else if ?n = length key then n_isLeaf m else hasNode m (drop ?n key))"
      using m by (simp add: hasNode.simps Let_def)
    have den: "den (Node p ch leaf kh) key = sub m key" using m by (simp add: den_Cons)
    show ?thesis
    proof (cases "?n < length (n_prefix m)")
      case True
      then have "take (length (n_prefix m)) key \<noteq> n_prefix m" using commonPrefixLen_full [of "n_prefix m" key] by auto
      then show ?thesis using True has den by (simp add: sub_def)
    next
      case False
      then have full: "?n = length (n_prefix m)" using commonPrefixLen_le(1) [of "n_prefix m" key] by simp
      have s: "sub m key = den m (drop ?n key)" using sub_recurse(1) [OF full] full by simp
      show ?thesis
      proof (cases "?n = length key")
        case True
        then show ?thesis using has den False s by simp
      next
        case more: False
        then show ?thesis using 1 [OF m(1) m(2) refl False more] has den False s by simp
      qed
    qed
  qed
qed

text \<open>The keys and hashes below a node, in the order of the walk.\<close>

primrec pairs :: "node \<Rightarrow> byte_order \<Rightarrow> string \<Rightarrow> string \<Rightarrow> (string \<times> u64) list" where
  "pairs (Node p ch leaf kh) ord path kp =
     (if leaf then [(kp, kh)] else []) @
     concat (map (\<lambda>c. case (map_option pairs \<circ> ch) c of
                          None \<Rightarrow> []
                        | Some f \<Rightarrow> f ord (path @ [c]) (kp @ n_prefix (the (ch c)))) (ord path))"

definition child_pairs :: "byte_order \<Rightarrow> string \<Rightarrow> string \<Rightarrow> (char \<rightharpoonup> node) \<Rightarrow> char \<Rightarrow> (string \<times> u64) list" where
  "child_pairs ord path kp ch c =
     (case ch c of None \<Rightarrow> [] | Some m \<Rightarrow> pairs m ord (path @ [c]) (kp @ n_prefix m))"

lemma pairs_Node: "pairs (Node p ch leaf kh) ord path kp =
    (if leaf then [(kp, kh)] else []) @ concat (map (child_pairs ord path kp ch) (ord path))"
proof -
  have "(case (map_option pairs \<circ> ch) c of None \<Rightarrow> []
      | Some f \<Rightarrow> f ord (path @ [c]) (kp @ n_prefix (the (ch c)))) = child_pairs ord path kp ch c" for c
    by (cases "ch c") (simp_all add: child_pairs_def)
  then show ?thesis by simp
qed

lemma distinct_map_concat:
  assumes "distinct cs" "\<And>c. distinct (map f (g c))"
    "\<And>c d. c \<noteq> d \<Longrightarrow> f ` set (g c) \<inter> f ` set (g d) = {}"
  shows "distinct (map f (concat (map g cs)))"
  using assms(1)
proof (induction cs)
  case (Cons c cs)
  have "f ` set (g c) \<inter> f ` set (concat (map g cs)) = {}"
  proof (rule equals0I)
    fix y assume "y \<in> f ` set (g c) \<inter> f ` set (concat (map g cs))"
    then obtain d where d: "d \<in> set cs" "y \<in> f ` set (g d)" "y \<in> f ` set (g c)" by auto
    then have "c \<noteq> d" using Cons.prems by auto
    then show False using assms(3) d by blast
  qed
  then show ?case using Cons assms(2) by simp
qed simp

lemma pairs_den:
  assumes "enumerates_bytes ord"
  shows "node_ok n \<Longrightarrow> distinct (map fst (pairs n ord path kp)) \<and>
    set (pairs n ord path kp) = {(kp @ k, h) | k h. den n k = Some h}"
proof (induction n arbitrary: path kp)
  case (Node p ch leaf kh)
  have ord: "distinct (ord path)" "set (ord path) = UNIV" using assms by (auto simp: enumerates_bytes_def)
  have child: "distinct (map fst (child_pairs ord path kp ch c)) \<and>
      set (child_pairs ord path kp ch c) =
        {(kp @ k, h) | k h. k \<noteq> [] \<and> hd k = c \<and> den (Node p ch leaf kh) k = Some h}" for c
  proof (cases "ch c")
    case None
    then show ?thesis by (auto simp: child_pairs_def den_Cons)
  next
    case (Some m)
    have m: "n_prefix m \<noteq> []" "hd (n_prefix m) = c" "node_ok m"
      using node_ok_child [OF Node.prems Some] by (auto simp: child_ok_def)
    have "Some m \<in> range ch" using Some by (metis rangeI)
    then have ih: "distinct (map fst (pairs m ord (path @ [c]) (kp @ n_prefix m))) \<and>
        set (pairs m ord (path @ [c]) (kp @ n_prefix m)) = {((kp @ n_prefix m) @ k, h) | k h. den m k = Some h}"
      using Node.IH [of "Some m" m] m(3) by simp
    have eqv: "(\<exists>k'. k = n_prefix m @ k' \<and> den m k' = Some h) \<longleftrightarrow> k \<noteq> [] \<and> hd k = c \<and> den (Node p ch leaf kh) k = Some h" for k h
    proof
      assume "\<exists>k'. k = n_prefix m @ k' \<and> den m k' = Some h"
      then show "k \<noteq> [] \<and> hd k = c \<and> den (Node p ch leaf kh) k = Some h"
        using m Some by (auto simp: den_Cons sub_def)
    next
      assume k: "k \<noteq> [] \<and> hd k = c \<and> den (Node p ch leaf kh) k = Some h"
      then have "sub m k = Some h" using Some by (auto simp: den_Cons)
      then show "\<exists>k'. k = n_prefix m @ k' \<and> den m k' = Some h"
        by (metis sub_def append_take_drop_id option.distinct(1))
    qed
    have "{((kp @ n_prefix m) @ k, h) | k h. den m k = Some h} =
        {(kp @ k, h) | k h. \<exists>k'. k = n_prefix m @ k' \<and> den m k' = Some h}" by auto
    then have "{((kp @ n_prefix m) @ k, h) | k h. den m k = Some h} =
        {(kp @ k, h) | k h. k \<noteq> [] \<and> hd k = c \<and> den (Node p ch leaf kh) k = Some h}"
      unfolding eqv .
    then show ?thesis using ih Some by (simp add: child_pairs_def)
  qed
  have cset: "set (child_pairs ord path kp ch c) =
      {(kp @ k, h) | k h. k \<noteq> [] \<and> hd k = c \<and> den (Node p ch leaf kh) k = Some h}" for c
    using child by blast
  have cdist: "distinct (map fst (child_pairs ord path kp ch c))" for c using child by blast
  have keys: "fst x \<noteq> kp" if "x \<in> set (child_pairs ord path kp ch c)" for x c
    using that unfolding cset by auto
  have "fst ` set (child_pairs ord path kp ch c) \<inter> fst ` set (child_pairs ord path kp ch d) = {}"
    if "c \<noteq> d" for c d using that unfolding cset by auto
  then have dist: "distinct (map fst (concat (map (child_pairs ord path kp ch) cs)))" if "distinct cs" for cs
    using distinct_map_concat [OF that, of fst "child_pairs ord path kp ch"] cdist by blast
  have "set (concat (map (child_pairs ord path kp ch) (ord path))) = (\<Union>c. set (child_pairs ord path kp ch c))"
    using ord(2) by simp
  also have "\<dots> = {(kp @ k, h) | k h. k \<noteq> [] \<and> den (Node p ch leaf kh) k = Some h}"
    unfolding cset by blast
  finally have "set (concat (map (child_pairs ord path kp ch) (ord path))) =
      {(kp @ k, h) | k h. k \<noteq> [] \<and> den (Node p ch leaf kh) k = Some h}" .
  moreover have "{(kp @ k, h) | k h. den (Node p ch leaf kh) k = Some h} =
      (if leaf then {(kp, kh)} else {}) \<union> {(kp @ k, h) | k h. k \<noteq> [] \<and> den (Node p ch leaf kh) k = Some h}"
    (is "?L = ?R")
  proof (intro set_eqI iffI)
    fix x assume "x \<in> ?L"
    then obtain k h where "x = (kp @ k, h)" "den (Node p ch leaf kh) k = Some h" by blast
    then show "x \<in> ?R" by (cases "k = []") (auto split: if_splits)
  next
    fix x assume x: "x \<in> ?R"
    show "x \<in> ?L"
    proof (cases "leaf \<and> x = (kp, kh)")
      case True
      then have "den (Node p ch leaf kh) [] = Some kh" "x = (kp @ [], kh)" by simp_all
      then show ?thesis by blast
    next
      case False
      then show ?thesis using x by (auto split: if_splits)
    qed
  qed
  ultimately have "set (pairs (Node p ch leaf kh) ord path kp) = {(kp @ k, h) | k h. den (Node p ch leaf kh) k = Some h}"
    unfolding pairs_Node set_append by (simp only: set_simps if_distrib [of set] cong: if_cong)
  moreover have "distinct (map fst (pairs (Node p ch leaf kh) ord path kp))"
    unfolding pairs_Node using dist [OF ord(1)] keys by auto
  ultimately show ?case by blast
qed

text \<open>\<open>collectHashes\<close> is the walk cut at the limit.\<close>

lemma collect_take:
  "collectHashes n ord path limit rs = rs @ take (limit - length rs) (map snd (pairs n ord path kp))"
proof (induction n arbitrary: path limit rs kp)
  case (Node p ch leaf kh)
  define step where "step = (\<lambda>results c.
      case (map_option collectHashes \<circ> ch) c of
        None \<Rightarrow> results
      | Some collect \<Rightarrow> if length results \<ge> limit then results else collect ord (path @ [c]) limit results)"
  have step: "step rs c = rs @ take (limit - length rs) (map snd (child_pairs ord path kp ch c))" for rs c
  proof (cases "ch c")
    case None
    then show ?thesis by (simp add: step_def child_pairs_def)
  next
    case (Some m)
    have "Some m \<in> range ch" using Some by (metis rangeI)
    then have "collectHashes m ord (path @ [c]) limit rs =
        rs @ take (limit - length rs) (map snd (pairs m ord (path @ [c]) (kp @ n_prefix m)))"
      using Node [of "Some m" m] by simp
    then show ?thesis using Some by (simp add: step_def child_pairs_def)
  qed
  have fold: "foldl step rs cs = rs @ take (limit - length rs) (map snd (concat (map (child_pairs ord path kp ch) cs)))" for rs cs
  proof (induction cs arbitrary: rs)
    case (Cons c cs)
    have "foldl step rs (c # cs) = foldl step (step rs c) cs" by simp
    also have "\<dots> = step rs c @ take (limit - length (step rs c)) (map snd (concat (map (child_pairs ord path kp ch) cs)))"
      by (rule Cons.IH)
    also have "\<dots> = rs @ take (limit - length rs) (map snd (concat (map (child_pairs ord path kp ch) (c # cs))))"
      by (simp add: step min_def)
    finally show ?case .
  qed simp
  have "collectHashes (Node p ch leaf kh) ord path limit rs =
      (if length rs \<ge> limit then rs else foldl step (if leaf then rs @ [kh] else rs) (ord path))"
    by (simp add: step_def Let_def)
  then show ?case unfolding pairs_Node using fold
    by (cases "length rs < limit") (auto simp: take_Cons' Suc_diff_Suc)
qed

text \<open>The walk is the fold of the callback over the same list, stopping when it says so.\<close>

fun run_walk :: "('a \<Rightarrow> string \<Rightarrow> u64 \<Rightarrow> 'a \<times> bool) \<Rightarrow> 'a \<Rightarrow> (string \<times> u64) list \<Rightarrow> 'a \<times> bool" where
  "run_walk fn acc [] = (acc, True)"
| "run_walk fn acc ((k, h) # rest) =
     (let (acc, go) = fn acc k h in if go then run_walk fn acc rest else (acc, False))"

lemma run_walk_append:
  "run_walk fn acc (xs @ ys) = (let (acc, go) = run_walk fn acc xs in if go then run_walk fn acc ys else (acc, False))"
  by (induction fn acc xs rule: run_walk.induct) (auto split: prod.split)

lemma walkNode_run: "walkNode n ord path kp fn acc = run_walk fn acc (pairs n ord path kp)"
proof (induction n arbitrary: path kp acc)
  case (Node p ch leaf kh)
  define step where "step = (\<lambda>(acc, go) c.
      if \<not> go then (acc, False)
      else case (map_option walkNode \<circ> ch) c of
             None \<Rightarrow> (acc, True)
           | Some walk \<Rightarrow> walk ord (path @ [c]) (kp @ n_prefix (the (ch c))) fn acc)"
  have step: "step (acc, True) c = run_walk fn acc (child_pairs ord path kp ch c)" for acc c
  proof (cases "ch c")
    case None
    then show ?thesis by (simp add: step_def child_pairs_def)
  next
    case (Some m)
    have "Some m \<in> range ch" using Some by (metis rangeI)
    then show ?thesis using Node [of "Some m" m] Some by (simp add: step_def child_pairs_def)
  qed
  have stop: "foldl step (acc, False) cs = (acc, False)" for acc cs by (induction cs) (simp_all add: step_def)
  have fold: "foldl step (acc, True) cs = run_walk fn acc (concat (map (child_pairs ord path kp ch) cs))" for acc cs
  proof (induction cs arbitrary: acc)
    case (Cons c cs)
    obtain a g where "run_walk fn acc (child_pairs ord path kp ch c) = (a, g)"
      by (cases "run_walk fn acc (child_pairs ord path kp ch c)")
    then show ?case by (cases g) (simp_all add: step run_walk_append Cons.IH stop)
  qed simp
  have "walkNode (Node p ch leaf kh) ord path kp fn acc =
      (let (acc, go) = (if leaf then fn acc kp kh else (acc, True)) in foldl step (acc, go) (ord path))"
    by (simp add: step_def)
  then show ?case unfolding pairs_Node run_walk_append
    using fold stop by (auto split: prod.split)
qed

text \<open>The node that the descent finds holds exactly the keys with the prefix.\<close>

lemma sub_append:
  assumes "n_prefix m = a @ e"
  shows "sub m (a @ k) = (if take (length e) k = e then den m (drop (length e) k) else None)"
  using assms by (simp add: sub_def)

lemma descend_spec:
  "node_ok n \<Longrightarrow> (case descend n rem kb of
     None \<Rightarrow> (\<forall>k. den n (rem @ k) = None)
   | Some (m, kb') \<Rightarrow> node_ok m \<and> (\<exists>e. kb' = kb @ rem @ e \<and>
       (\<forall>k. den n (rem @ k) = (if take (length e) k = e then den m (drop (length e) k) else None))))"
proof (induction n rem kb rule: descend.induct)
  case (1 p ch leaf kh rem kb)
  show ?case
  proof (cases "rem = [] \<or> ch (hd rem) = None")
    case True
    then show ?thesis using 1(2) by (auto simp: descend.simps den_Cons)
  next
    case False
    then obtain m where m: "rem \<noteq> []" "ch (hd rem) = Some m" by auto
    have okm: "node_ok m" using node_ok_child [OF 1(2) m(2)] by (simp add: child_ok_def)
    let ?n = "commonPrefixLen (n_prefix m) rem"
    have d: "descend (Node p ch leaf kh) rem kb =
        (if ?n < length rem \<and> ?n < length (n_prefix m) then None
         else if ?n \<ge> length rem then Some (m, kb @ n_prefix m)
         else descend m (drop ?n rem) (kb @ n_prefix m))"
      using m by (simp add: descend.simps Let_def)
    have den: "den (Node p ch leaf kh) (rem @ k) = sub m (rem @ k)" for k using m by (simp add: den_Cons)
    consider (no) "?n < length rem" "?n < length (n_prefix m)" | (inside) "length rem \<le> ?n"
      | (down) "?n < length rem" "length (n_prefix m) \<le> ?n" by linarith
    then show ?thesis
    proof cases
      case no
      have "take (length (n_prefix m)) (rem @ k) \<noteq> n_prefix m" for k
      proof
        assume t: "take (length (n_prefix m)) (rem @ k) = n_prefix m"
        have "take (length (n_prefix m)) (rem @ k) ! ?n = n_prefix m ! ?n" using t by simp
        then have "rem ! ?n = n_prefix m ! ?n" using no by (simp add: nth_append)
        then have "hd (drop ?n rem) = hd (drop ?n (n_prefix m))" using no by (simp add: hd_drop_conv_nth)
        then show False using commonPrefixLen_differ [of "n_prefix m" rem] no by simp
      qed
      then show ?thesis using d no den by (simp add: sub_def)
    next
      case inside
      then have "?n = length rem" using commonPrefixLen_le(2) [of "n_prefix m" rem] by simp
      then have "take (length rem) (n_prefix m) = rem" using commonPrefixLen_full2 by blast
      then obtain e where e: "n_prefix m = rem @ e" by (metis append_take_drop_id)
      then show ?thesis using d inside okm den sub_append [OF e] by auto
    next
      case down
      then have full: "?n = length (n_prefix m)" using commonPrefixLen_le(1) [of "n_prefix m" rem] by simp
      then have "take (length (n_prefix m)) rem = n_prefix m" using commonPrefixLen_full by blast
      then obtain r where r: "rem = n_prefix m @ r" by (metis append_take_drop_id)
      have dr: "drop ?n rem = r" using full r by simp
      have dd: "descend (Node p ch leaf kh) rem kb = descend m r (kb @ n_prefix m)" using d down dr by simp
      have "den (Node p ch leaf kh) (rem @ k) = den m (r @ k)" for k using den by (simp add: r sub_def)
      moreover have "case descend m r (kb @ n_prefix m) of None \<Rightarrow> (\<forall>k. den m (r @ k) = None)
        | Some (m', kb') \<Rightarrow> node_ok m' \<and> (\<exists>e. kb' = (kb @ n_prefix m) @ r @ e \<and>
          (\<forall>k. den m (r @ k) = (if take (length e) k = e then den m' (drop (length e) k) else None)))"
        using 1(1) [OF m(1) m(2) refl _ _ okm, unfolded dr] down by (simp only: not_le not_less) simp
      ultimately show ?thesis unfolding dd by (auto simp: r split: option.splits)
    qed
  qed
qed

definition radix_inv :: "radixTree \<Rightarrow> bool" where
  "radix_inv t \<longleftrightarrow> node_ok (t_root t) \<and> finite (dom (den (t_root t))) \<and>
     t_size t = i64 (int (card (dom (den (t_root t)))))"

definition radix_map :: "radixTree \<Rightarrow> (string \<rightharpoonup> u64)" where
  "radix_map t = den (t_root t)"

lemma den_empty: "den (Node [] Map.empty False 0) = Map.empty"
proof
  fix k show "den (Node [] Map.empty False 0) k = None" by (cases "k = []") (simp_all add: den_Cons)
qed

lemma radix_New_inv: "radix_inv radix_New" "radix_map radix_New = Map.empty"
  by (simp_all add: radix_inv_def radix_map_def radix_New_def den_empty node_ok_leaf)

lemma radix_Clear_inv: "radix_inv (radix_Clear t)" "radix_map (radix_Clear t) = Map.empty"
  by (simp_all add: radix_inv_def radix_map_def radix_Clear_def den_empty node_ok_leaf)

lemma radix_Insert_spec:
  assumes "radix_inv t"
  shows "radix_inv (radix_Insert t key hash)" "radix_map (radix_Insert t key hash) = (radix_map t)(key \<mapsto> hash)"
proof -
  obtain n new where r: "insertNode (t_root t) key hash = (n, new)" by (cases "insertNode (t_root t) key hash")
  have ok: "node_ok (t_root t)" "finite (dom (den (t_root t)))" using assms by (auto simp: radix_inv_def)
  have sp: "node_ok n" "den n = (den (t_root t))(key \<mapsto> hash)" "new = (den (t_root t) key = None)"
    using insertNode_spec [OF ok(1) r] by auto
  show "radix_map (radix_Insert t key hash) = (radix_map t)(key \<mapsto> hash)"
    using sp(2) by (simp add: radix_map_def radix_Insert_def r Let_def)
  have "i64 (int (card (dom ((den (t_root t))(key \<mapsto> hash))))) =
      (if new then i64 (t_size t + 1) else t_size t)"
    using assms sp(3) ok(2) card_dom_insert [of "den (t_root t)" key hash]
    by (auto simp: radix_inv_def insert_absorb domIff add.commute)
  then show "radix_inv (radix_Insert t key hash)"
    using sp ok by (simp add: radix_inv_def radix_Insert_def r Let_def)
qed

lemma radix_Delete_spec:
  assumes "radix_inv t"
  shows "radix_inv (fst (radix_Delete t key))" "radix_map (fst (radix_Delete t key)) = (radix_map t)(key := None)"
    "snd (radix_Delete t key) = (radix_map t key \<noteq> None)"
proof -
  obtain n d where r: "deleteNode (t_root t) key = (n, d)" by (cases "deleteNode (t_root t) key")
  have ok: "node_ok (t_root t)" "finite (dom (den (t_root t)))" using assms by (auto simp: radix_inv_def)
  have sp: "node_ok n" "den n = (den (t_root t))(key := None)" "d = (den (t_root t) key \<noteq> None)"
    using deleteNode_spec [OF ok(1) r] by auto
  show "radix_map (fst (radix_Delete t key)) = (radix_map t)(key := None)"
    "snd (radix_Delete t key) = (radix_map t key \<noteq> None)"
    using sp(2,3) by (simp_all add: radix_map_def radix_Delete_def r Let_def)
  have "i64 (int (card (dom ((den (t_root t))(key := None))))) = (if d then i64 (t_size t - 1) else t_size t)"
  proof (cases "den (t_root t) key")
    case None
    then have "(den (t_root t))(key := None) = den (t_root t)" by (simp add: fun_upd_idem)
    then show ?thesis using assms sp(3) None by (simp only: radix_inv_def) simp
  next
    case (Some h)
    then show ?thesis using assms sp(3) card_dom_delete [OF ok(2) Some] by (simp add: radix_inv_def)
  qed
  then show "radix_inv (fst (radix_Delete t key))"
    using sp ok by (simp add: radix_inv_def radix_Delete_def r Let_def)
qed

interpretation rt: kv_store radix_map "\<lambda>t k h. radix_Insert t k h" "\<lambda>t k. fst (radix_Delete t k)"
  radix_Clear radix_Size radix_inv "\<lambda>t k h. True"
  by unfold_locales (simp_all add: radix_Insert_spec radix_Delete_spec radix_Clear_inv,
    simp_all add: radix_inv_def radix_map_def radix_Size_def)

lemma radix_Has_map: "radix_Has t key \<longleftrightarrow> radix_map t key \<noteq> None"
  by (simp add: radix_Has_def radix_map_def hasNode_den)

text \<open>
  \<open>FindByPrefix\<close> returns the hashes of the keys with the prefix, each once, in the order of the
  walk, as many as the limit admits.
\<close>

lemma radix_FindByPrefix_spec:
  assumes "radix_inv t" "enumerates_bytes ord"
  shows "\<exists>kvs. distinct (map fst kvs) \<and>
    set kvs = {(k, h). radix_map t k = Some h \<and> (\<exists>r. k = pre @ r)} \<and>
    radix_FindByPrefix ord t pre limit = take (nat (if limit \<le> 0 then 100 else limit)) (map snd kvs)"
proof -
  have ok: "node_ok (t_root t)" using assms(1) by (simp add: radix_inv_def)
  show ?thesis
  proof (cases "descend (t_root t) pre []")
    case None
    then have "den (t_root t) (pre @ k) = None" for k using descend_spec [OF ok, of pre "[]"] by simp
    then show ?thesis using None by (intro exI [of _ "[]"]) (auto simp: radix_map_def radix_FindByPrefix_def Let_def)
  next
    case (Some r)
    obtain m kb where r: "r = (m, kb)" by (cases r)
    obtain e where e: "node_ok m" "kb = pre @ e"
      "\<And>k. den (t_root t) (pre @ k) = (if take (length e) k = e then den m (drop (length e) k) else None)"
      using descend_spec [OF ok, of pre "[]"] Some r by auto
    note p = pairs_den [OF assms(2) e(1), of "[]" "pre @ e"]
    have eqv: "(\<exists>k'. k = (pre @ e) @ k' \<and> den m k' = Some h) \<longleftrightarrow> den (t_root t) k = Some h \<and> (\<exists>r. k = pre @ r)" for k h
    proof
      assume "\<exists>k'. k = (pre @ e) @ k' \<and> den m k' = Some h"
      then obtain k' where k': "k = pre @ (e @ k')" "den m k' = Some h" by auto
      then show "den (t_root t) k = Some h \<and> (\<exists>r. k = pre @ r)" using e(3) [of "e @ k'"] by auto
    next
      assume a: "den (t_root t) k = Some h \<and> (\<exists>r. k = pre @ r)"
      then obtain r where r: "k = pre @ r" by blast
      then have "take (length e) r = e \<and> den m (drop (length e) r) = Some h" using a e(3) [of r] by (auto split: if_splits)
      then show "\<exists>k'. k = (pre @ e) @ k' \<and> den m k' = Some h" using r by (metis append.assoc append_take_drop_id)
    qed
    have "set (pairs m ord [] (pre @ e)) = {((pre @ e) @ k, h) | k h. den m k = Some h}" using p by blast
    also have "\<dots> = {(k, h). \<exists>k'. k = (pre @ e) @ k' \<and> den m k' = Some h}" by auto
    also have "\<dots> = {(k, h). radix_map t k = Some h \<and> (\<exists>r. k = pre @ r)}"
      unfolding eqv radix_map_def ..
    finally have "set (pairs m ord [] (pre @ e)) = {(k, h). radix_map t k = Some h \<and> (\<exists>r. k = pre @ r)}" .
    moreover have "radix_FindByPrefix ord t pre limit =
        take (nat (if limit \<le> 0 then 100 else limit)) (map snd (pairs m ord [] (pre @ e)))"
      using Some r collect_take [of m ord "[]" "nat (if limit \<le> 0 then 100 else limit)" "[]" "pre @ e"]
      by (simp add: radix_FindByPrefix_def Let_def)
    ultimately show ?thesis using p by (intro exI [of _ "pairs m ord [] (pre @ e)"]) simp
  qed
qed

end
