(* ===== verification/RingBuffer.thy ===== *)
theory RingBuffer
  imports PowerOfTwo
begin

text \<open>
  \<open>internal/buffer/ring.go\<close>: the ring buffer with per-slot sequence numbers, and the batching of
  the write buffer and of the lossy buffer on top of it. The operations are modelled as atomic
  steps: the compare-and-swap of an operation succeeds when no other goroutine intervenes, and an
  operation whose loop would retry without end is \<open>None\<close>. A locale states the contract of a
  bounded first-in-first-out queue, and the ring implements it for every capacity of at least two.
\<close>

record 'a RingBuffer =
  rb_data :: "('a \<times> u64) list" \<comment> \<open>the value and the sequence number of each slot\<close>
  rb_mask :: u64
  rb_head :: u64
  rb_tail :: u64
  rb_zero :: 'a \<comment> \<open>the zero value of the element type\<close>

definition NewRingBuffer :: "'a \<Rightarrow> int \<Rightarrow> 'a RingBuffer" where
  "NewRingBuffer zero capacity =
     (let capacity = (if capacity \<le> 0 then 64 else capacity);
          capacity = nextPowerOf2 capacity
      in \<lparr>rb_data = map (\<lambda>i. (zero, of_nat i)) [0..<nat capacity],
          rb_mask = word_of_int (capacity - 1), rb_head = 0, rb_tail = 0, rb_zero = zero\<rparr>)"

definition rb_Push :: "'a RingBuffer \<Rightarrow> 'a \<Rightarrow> ('a RingBuffer \<times> bool) option" where
  "rb_Push rb item =
     (let tail = rb_tail rb;
          idx = unat (tail AND rb_mask rb);
          seq = snd (rb_data rb ! idx)
      in if seq = tail
         then Some (rb\<lparr>rb_tail := tail + 1, rb_data := (rb_data rb)[idx := (item, tail + 1)]\<rparr>, True)
         else if seq < tail then Some (rb, False)
         else None)"

definition rb_Pop :: "'a RingBuffer \<Rightarrow> ('a RingBuffer \<times> 'a option) option" where
  "rb_Pop rb =
     (let head = rb_head rb;
          idx = unat (head AND rb_mask rb);
          seq = snd (rb_data rb ! idx)
      in if seq = head + 1
         then let val = fst (rb_data rb ! idx)
              in Some (rb\<lparr>rb_head := head + 1,
                          rb_data := (rb_data rb)[idx := (rb_zero rb, head + of_nat (length (rb_data rb)))]\<rparr>,
                       Some val)
         else if seq = head then Some (rb, None)
         else None)"

definition rb_Len :: "'a RingBuffer \<Rightarrow> int" where
  "rb_Len rb = sint (rb_tail rb - rb_head rb)"

definition rb_Cap :: "'a RingBuffer \<Rightarrow> nat" where
  "rb_Cap rb = length (rb_data rb)"

definition rb_IsEmpty :: "'a RingBuffer \<Rightarrow> bool" where
  "rb_IsEmpty rb = (rb_Len rb = 0)"

definition rb_IsFull :: "'a RingBuffer \<Rightarrow> bool" where
  "rb_IsFull rb = (rb_Len rb \<ge> int (length (rb_data rb)))"

subsection \<open>Batching\<close>

text \<open>
  \<open>flushBatch\<close> of both buffers: pop until the batch has \<open>batchSize\<close> items or the ring is empty.
  The batch is what \<open>flushFn\<close> is called with, when it is not empty.
\<close>

function pop_batch :: "int \<Rightarrow> 'a RingBuffer \<Rightarrow> 'a list \<Rightarrow> ('a RingBuffer \<times> 'a list) option" where
  "pop_batch batchSize rb batch =
     (case rb_Pop rb of
        None \<Rightarrow> None
      | Some (rb, None) \<Rightarrow> Some (rb, batch)
      | Some (rb, Some item) \<Rightarrow>
          if int (length (batch @ [item])) \<ge> batchSize then Some (rb, batch @ [item])
          else pop_batch batchSize rb (batch @ [item]))"
  by pat_completeness auto
termination by (relation "measure (\<lambda>(n, rb, b). nat (n - int (length b)))") auto

declare pop_batch.simps [simp del]

definition flushBatch :: "int \<Rightarrow> 'a RingBuffer \<Rightarrow> ('a RingBuffer \<times> 'a list) option" where
  "flushBatch batchSize rb = pop_batch batchSize rb []"

text \<open>\<open>flushAll\<close>: the batches that are handed to \<open>flushFn\<close>, in order.\<close>

partial_function (option) flushAll ::
  "int \<Rightarrow> 'a RingBuffer \<Rightarrow> 'a list list \<Rightarrow> ('a RingBuffer \<times> 'a list list) option" where
  "flushAll batchSize rb batches =
     Option.bind (flushBatch batchSize rb) (\<lambda>(rb, batch).
       let batches = (if length batch > 0 then batches @ [batch] else batches)
       in if rb_IsEmpty rb then Some (rb, batches) else flushAll batchSize rb batches)"

text \<open>
  \<open>LossyBuffer.Push\<close>: drop the item when the ring is full. The second result says whether the
  flusher is signalled, the third whether the item was taken.
\<close>

definition lossy_Push :: "int \<Rightarrow> 'a RingBuffer \<Rightarrow> 'a \<Rightarrow> ('a RingBuffer \<times> bool \<times> bool) option" where
  "lossy_Push batchSize rb item =
     (case rb_Push rb item of
        None \<Rightarrow> None
      | Some (rb, ok) \<Rightarrow>
          if \<not> ok then Some (rb, True, False)
          else Some (rb, rb_Len rb \<ge> batchSize, True))"

subsection \<open>The contract of a bounded queue\<close>

locale bounded_queue =
  fixes push :: "'s \<Rightarrow> 'a \<Rightarrow> ('s \<times> bool) option"
    and pop :: "'s \<Rightarrow> ('s \<times> 'a option) option"
    and queue :: "'s \<Rightarrow> 'a list"
    and cap :: "'s \<Rightarrow> nat"
    and inv :: "'s \<Rightarrow> bool"
    and room :: "'s \<Rightarrow> nat" \<comment> \<open>how many more items the counters can number\<close>
  assumes cap_queue: "inv s \<Longrightarrow> length (queue s) \<le> cap s"
    and push_room: "inv s \<Longrightarrow> length (queue s) < cap s \<Longrightarrow> 0 < room s \<Longrightarrow>
      \<exists>s'. push s x = Some (s', True) \<and> inv s' \<and> queue s' = queue s @ [x] \<and> cap s' = cap s \<and> room s' = room s - 1"
    and push_full: "inv s \<Longrightarrow> length (queue s) = cap s \<Longrightarrow> push s x = Some (s, False)"
    and pop_some: "inv s \<Longrightarrow> queue s = x # xs \<Longrightarrow>
      \<exists>s'. pop s = Some (s', Some x) \<and> inv s' \<and> queue s' = xs \<and> cap s' = cap s \<and> room s' = room s"
    and pop_none: "inv s \<Longrightarrow> queue s = [] \<Longrightarrow> pop s = Some (s, None)"
begin

text \<open>Pushing a list that fits, then popping it, returns it in order.\<close>

fun push_all :: "'s \<Rightarrow> 'a list \<Rightarrow> 's option" where
  "push_all s [] = Some s"
| "push_all s (x # xs) = (case push s x of Some (s', True) \<Rightarrow> push_all s' xs | _ \<Rightarrow> None)"

fun pop_all :: "nat \<Rightarrow> 's \<Rightarrow> ('s \<times> 'a list) option" where
  "pop_all 0 s = Some (s, [])"
| "pop_all (Suc n) s =
     (case pop s of Some (s', Some x) \<Rightarrow> map_option (apsnd (Cons x)) (pop_all n s') | _ \<Rightarrow> None)"

lemma push_all:
  "inv s \<Longrightarrow> length (queue s) + length xs \<le> cap s \<Longrightarrow> length xs \<le> room s \<Longrightarrow>
    \<exists>s'. push_all s xs = Some s' \<and> inv s' \<and> queue s' = queue s @ xs \<and> cap s' = cap s"
proof (induction xs arbitrary: s)
  case (Cons x xs)
  obtain s' where s': "push s x = Some (s', True)" "inv s'" "queue s' = queue s @ [x]" "cap s' = cap s"
    "room s' = room s - 1"
    using push_room [OF Cons.prems(1), of x] Cons.prems(2,3) by auto
  then show ?case using Cons.IH [OF s'(2)] Cons.prems by auto
qed simp

lemma pop_all:
  "inv s \<Longrightarrow> queue s = xs @ ys \<Longrightarrow> \<exists>s'. pop_all (length xs) s = Some (s', xs) \<and> inv s' \<and> queue s' = ys"
proof (induction xs arbitrary: s)
  case (Cons x xs)
  obtain s' where s': "pop s = Some (s', Some x)" "inv s'" "queue s' = xs @ ys"
    using pop_some [OF Cons.prems(1), of x "xs @ ys"] Cons.prems(2) by auto
  from Cons.IH [OF s'(2,3)] show ?case using s'(1) by auto
qed simp

lemma fifo:
  assumes "inv s" "queue s = []" "length xs \<le> cap s" "length xs \<le> room s"
  shows "\<exists>s' s''. push_all s xs = Some s' \<and> pop_all (length xs) s' = Some (s'', xs) \<and> queue s'' = []"
proof -
  obtain s' where s': "push_all s xs = Some s'" "inv s'" "queue s' = xs @ []"
    using push_all [OF assms(1)] assms by auto
  from pop_all [OF s'(2,3)] show ?thesis using s'(1) by auto
qed

end

subsection \<open>The ring implements the queue\<close>

text \<open>
  Slot \<open>i mod n\<close> serves the positions \<open>i\<close> of one residue. Between \<open>head\<close> and \<open>tail\<close> a slot holds
  its item and the next sequence number; from \<open>tail\<close> on it waits with the number of the position
  that will use it.
\<close>

definition rb_slot :: "'a RingBuffer \<Rightarrow> nat \<Rightarrow> 'a \<times> u64" where
  "rb_slot rb i = rb_data rb ! (i mod length (rb_data rb))"

definition rb_inv :: "'a RingBuffer \<Rightarrow> bool" where
  "rb_inv rb \<longleftrightarrow>
     (\<exists>k. length (rb_data rb) = 2 ^ k \<and> 1 \<le> k \<and> k \<le> 32) \<and>
     rb_mask rb = of_nat (length (rb_data rb) - 1) \<and>
     unat (rb_head rb) \<le> unat (rb_tail rb) \<and>
     unat (rb_tail rb) \<le> unat (rb_head rb) + length (rb_data rb) \<and>
     unat (rb_tail rb) + length (rb_data rb) < 2 ^ 64 \<and>
     (\<forall>i. unat (rb_head rb) \<le> i \<and> i < unat (rb_tail rb) \<longrightarrow> snd (rb_slot rb i) = of_nat (i + 1)) \<and>
     (\<forall>i. unat (rb_tail rb) \<le> i \<and> i < unat (rb_head rb) + length (rb_data rb) \<longrightarrow> snd (rb_slot rb i) = of_nat i)"

definition rb_queue :: "'a RingBuffer \<Rightarrow> 'a list" where
  "rb_queue rb = map (\<lambda>i. fst (rb_slot rb i)) [unat (rb_head rb)..<unat (rb_tail rb)]"

definition rb_room :: "'a RingBuffer \<Rightarrow> nat" where
  "rb_room rb = 2 ^ 64 - 1 - unat (rb_tail rb) - length (rb_data rb)"

lemma mask_mod:
  assumes "n = 2 ^ k" "k \<le> 63"
  shows "unat (w AND (of_nat (n - 1) :: u64)) = unat w mod n"
proof -
  have "(of_nat (n - 1) :: u64) = mask k"
    using assms by (simp add: mask_eq_exp_minus_1 of_nat_diff)
  then have "w AND of_nat (n - 1) = take_bit k w" by (simp add: take_bit_eq_mask)
  then have "unat (w AND of_nat (n - 1)) = take_bit k (unat w)" by (simp only: unsigned_take_bit_eq)
  then show ?thesis by (simp only: take_bit_eq_mod assms(1))
qed

lemma rb_index:
  assumes "rb_inv rb"
  shows "rb_data rb ! unat (w AND rb_mask rb) = rb_slot rb (unat w)"
    "unat (w AND rb_mask rb) = unat w mod length (rb_data rb)"
proof -
  obtain k where k: "length (rb_data rb) = 2 ^ k" "k \<le> 32" using assms by (auto simp: rb_inv_def)
  then show "unat (w AND rb_mask rb) = unat w mod length (rb_data rb)"
    using mask_mod [of "length (rb_data rb)" k w] assms by (simp add: rb_inv_def)
  then show "rb_data rb ! unat (w AND rb_mask rb) = rb_slot rb (unat w)" by (simp add: rb_slot_def)
qed

text \<open>Positions less than a lap apart use different slots.\<close>

lemma mod_inj: "i < j \<Longrightarrow> j < i + n \<Longrightarrow> i mod n \<noteq> j mod (n :: nat)"
proof
  assume a: "i < j" "j < i + n" "i mod n = j mod n"
  then have "n dvd j - i" by (metis mod_eq_dvd_iff_nat less_imp_le)
  then show False using a(1,2) by (auto dest: dvd_imp_le)
qed

lemma rb_slot_update:
  assumes "rb_inv rb" "j < i + length (rb_data rb)" "i < j + length (rb_data rb)"
    "rb_data rb' = (rb_data rb)[i mod length (rb_data rb) := c]"
  shows "rb_slot rb' j = (if i = j then c else rb_slot rb j)"
proof -
  have n: "0 < length (rb_data rb)" using assms(1) by (auto simp: rb_inv_def)
  have "i \<noteq> j \<Longrightarrow> i mod length (rb_data rb) \<noteq> j mod length (rb_data rb)"
    using mod_inj [of i j] mod_inj [of j i] assms(2,3) by (metis linorder_neqE_nat)
  then show ?thesis using n assms(4) by (auto simp: rb_slot_def nth_list_update)
qed

lemma unat_Suc_small: "unat (w :: u64) + 1 < 2 ^ 64 \<Longrightarrow> unat (w + 1) = unat w + 1"
  by (simp add: unat_word_ariths)

lemma rb_queue_length: "length (rb_queue rb) = unat (rb_tail rb) - unat (rb_head rb)"
  by (simp add: rb_queue_def)

lemma of_nat_unat_Suc: "(of_nat (unat w + 1) :: u64) = w + 1"
  by simp

lemma rb_push_room:
  assumes inv: "rb_inv rb" and len: "length (rb_queue rb) < rb_Cap rb" and room: "0 < rb_room rb"
  shows "\<exists>rb'. rb_Push rb x = Some (rb', True) \<and> rb_inv rb' \<and> rb_queue rb' = rb_queue rb @ [x] \<and>
    rb_Cap rb' = rb_Cap rb \<and> rb_room rb' = rb_room rb - 1"
proof -
  let ?n = "length (rb_data rb)" and ?h = "unat (rb_head rb)" and ?t = "unat (rb_tail rb)"
  define i where "i = unat (rb_tail rb AND rb_mask rb)"
  define rb' where "rb' = rb\<lparr>rb_tail := rb_tail rb + 1, rb_data := (rb_data rb)[i := (x, rb_tail rb + 1)]\<rparr>"
  have b: "?h \<le> ?t" "?t < ?h + ?n" "?t + ?n < 2 ^ 64"
    using inv len by (auto simp: rb_inv_def rb_queue_length rb_Cap_def)
  have free: "snd (rb_slot rb j) = of_nat j" if "?t \<le> j" "j < ?h + ?n" for j using inv that by (simp add: rb_inv_def)
  have held: "snd (rb_slot rb j) = of_nat (j + 1)" if "?h \<le> j" "j < ?t" for j using inv that by (simp add: rb_inv_def)
  have i: "i = ?t mod ?n" unfolding i_def by (rule rb_index(2) [OF inv])
  have "snd (rb_data rb ! i) = rb_tail rb"
    using rb_index(1) [OF inv, of "rb_tail rb"] free [of ?t] b by (simp add: i_def)
  then have push: "rb_Push rb x = Some (rb', True)" by (simp add: rb_Push_def Let_def i_def [symmetric] rb'_def)
  have n': "length (rb_data rb') = ?n" by (simp add: rb'_def)
  have h': "unat (rb_head rb') = ?h" by (simp add: rb'_def)
  have room2: "?t + ?n + 1 < 2 ^ 64" using room by (simp add: rb_room_def)
  have t': "unat (rb_tail rb') = ?t + 1"
    unfolding rb'_def using unat_Suc_small [of "rb_tail rb"] room2 by simp
  have slot: "rb_slot rb' j = (if j = ?t then (x, rb_tail rb + 1) else rb_slot rb j)" if "?h \<le> j" "j < ?h + ?n" for j
    using rb_slot_update [OF inv, of j ?t rb' "(x, rb_tail rb + 1)"] that b by (auto simp: rb'_def i)
  have "\<forall>j. ?h \<le> j \<and> j < ?t + 1 \<longrightarrow> snd (rb_slot rb' j) = of_nat (j + 1)"
  proof (intro allI impI)
    fix j assume j: "?h \<le> j \<and> j < ?t + 1"
    show "snd (rb_slot rb' j) = of_nat (j + 1)"
    proof (cases "j = ?t")
      case True
      then show ?thesis using slot [of j] j b by simp
    next
      case False
      then show ?thesis using slot [of j] held [of j] j b by simp
    qed
  qed
  moreover have "\<forall>j. ?t + 1 \<le> j \<and> j < ?h + ?n \<longrightarrow> snd (rb_slot rb' j) = of_nat j"
    using slot free b by simp
  ultimately have "rb_inv rb'"
    using inv b room2 unfolding rb_inv_def n' h' t' by (simp add: rb'_def)
  moreover have "rb_queue rb' = rb_queue rb @ [x]"
    using slot b by (simp add: rb_queue_def h' t')
  ultimately show ?thesis using push n' t' by (auto simp: rb_Cap_def rb_room_def)
qed

lemma rb_push_full:
  assumes inv: "rb_inv rb" and len: "length (rb_queue rb) = rb_Cap rb"
  shows "rb_Push rb x = Some (rb, False)"
proof -
  let ?n = "length (rb_data rb)" and ?h = "unat (rb_head rb)" and ?t = "unat (rb_tail rb)"
  obtain k where k: "?n = 2 ^ k" "1 \<le> k" using inv by (auto simp: rb_inv_def)
  then have n2: "2 \<le> ?n" using power_increasing [of 1 k "2::nat"] by simp
  have t: "?t = ?h + ?n" using inv len by (auto simp: rb_inv_def rb_queue_length rb_Cap_def)
  have held: "snd (rb_slot rb j) = of_nat (j + 1)" if "?h \<le> j" "j < ?t" for j using inv that by (simp add: rb_inv_def)
  have "snd (rb_slot rb ?h) = of_nat (?h + 1)" by (rule held) (use t n2 in linarith)+
  then have seq: "snd (rb_data rb ! unat (rb_tail rb AND rb_mask rb)) = rb_head rb + 1"
    using rb_index [OF inv, of "rb_tail rb"] t by (simp add: rb_slot_def)
  have small: "?t + ?n < 2 ^ 64" using inv by (simp add: rb_inv_def)
  then have "unat (rb_head rb + 1) = ?h + 1" using t n2 by (intro unat_Suc_small) simp
  then have "rb_head rb + 1 < rb_tail rb" using t n2 by (simp add: word_less_nat_alt)
  then show ?thesis using seq by (simp add: rb_Push_def Let_def)
qed

lemma rb_pop_none:
  assumes inv: "rb_inv rb" and q: "rb_queue rb = []"
  shows "rb_Pop rb = Some (rb, None)"
proof -
  let ?n = "length (rb_data rb)" and ?h = "unat (rb_head rb)" and ?t = "unat (rb_tail rb)"
  have n: "0 < ?n" using inv by (auto simp: rb_inv_def)
  have t: "?t = ?h" using inv q rb_queue_length [of rb] by (simp add: rb_inv_def)
  then have "snd (rb_slot rb ?h) = of_nat ?h" using inv n by (simp add: rb_inv_def)
  then have "snd (rb_data rb ! unat (rb_head rb AND rb_mask rb)) = rb_head rb"
    using rb_index(1) [OF inv, of "rb_head rb"] by simp
  then show ?thesis by (simp add: rb_Pop_def Let_def)
qed

lemma rb_pop_some:
  assumes inv: "rb_inv rb" and q: "rb_queue rb = x # xs"
  shows "\<exists>rb'. rb_Pop rb = Some (rb', Some x) \<and> rb_inv rb' \<and> rb_queue rb' = xs \<and>
    rb_Cap rb' = rb_Cap rb \<and> rb_room rb' = rb_room rb"
proof -
  let ?n = "length (rb_data rb)" and ?h = "unat (rb_head rb)" and ?t = "unat (rb_tail rb)"
  define i where "i = unat (rb_head rb AND rb_mask rb)"
  define c where "c = (rb_zero rb, rb_head rb + of_nat ?n)"
  define rb' where "rb' = rb\<lparr>rb_head := rb_head rb + 1, rb_data := (rb_data rb)[i := c]\<rparr>"
  have n: "0 < ?n" using inv by (auto simp: rb_inv_def)
  have b: "?h < ?t" "?t \<le> ?h + ?n" "?t + ?n < 2 ^ 64"
    using inv q rb_queue_length [of rb] by (auto simp: rb_inv_def)
  have free: "snd (rb_slot rb j) = of_nat j" if "?t \<le> j" "j < ?h + ?n" for j using inv that by (simp add: rb_inv_def)
  have held: "snd (rb_slot rb j) = of_nat (j + 1)" if "?h \<le> j" "j < ?t" for j using inv that by (simp add: rb_inv_def)
  have i: "i = ?h mod ?n" unfolding i_def by (rule rb_index(2) [OF inv])
  have up: "[?h..<?t] = ?h # [?h + 1..<?t]" using b(1) by (simp add: upt_conv_Cons)
  have x: "fst (rb_slot rb ?h) = x" "xs = map (\<lambda>j. fst (rb_slot rb j)) [?h + 1..<?t]"
    using q unfolding rb_queue_def up by simp_all
  have "rb_data rb ! i = rb_slot rb ?h" unfolding i_def by (rule rb_index(1) [OF inv])
  then have pop: "rb_Pop rb = Some (rb', Some x)"
    using held [of ?h] b x(1) by (simp add: rb_Pop_def Let_def i_def [symmetric] rb'_def c_def)
  have n': "length (rb_data rb') = ?n" and t': "unat (rb_tail rb') = ?t" by (simp_all add: rb'_def)
  have h': "unat (rb_head rb') = ?h + 1"
    unfolding rb'_def using unat_Suc_small [of "rb_head rb"] b n by simp
  have slot: "rb_slot rb' j = rb_slot rb j" if "?h < j" "j < ?h + ?n" for j
    using rb_slot_update [OF inv, of j ?h rb' c] that by (simp add: rb'_def i)
  have last: "rb_slot rb' (?h + ?n) = c"
    using rb_slot_update [OF inv, of ?h ?h rb' c] n by (simp add: rb'_def i rb_slot_def)
  have "\<forall>j. ?h + 1 \<le> j \<and> j < ?t \<longrightarrow> snd (rb_slot rb' j) = of_nat (j + 1)"
    using slot held b by simp
  moreover have "\<forall>j. ?t \<le> j \<and> j < ?h + 1 + ?n \<longrightarrow> snd (rb_slot rb' j) = of_nat j"
  proof (intro allI impI)
    fix j assume j: "?t \<le> j \<and> j < ?h + 1 + ?n"
    show "snd (rb_slot rb' j) = of_nat j"
    proof (cases "j = ?h + ?n")
      case True
      then show ?thesis using last by (simp add: c_def)
    next
      case False
      then show ?thesis using slot [of j] free [of j] j b by simp
    qed
  qed
  ultimately have "rb_inv rb'"
    using inv b unfolding rb_inv_def n' h' t' by (simp add: rb'_def)
  moreover have "rb_queue rb' = xs" unfolding rb_queue_def h' t' x(2) using slot b by simp
  ultimately show ?thesis using pop n' t' by (auto simp: rb_Cap_def rb_room_def)
qed

interpretation rq: bounded_queue rb_Push rb_Pop rb_queue rb_Cap rb_inv rb_room
proof unfold_locales
  fix s :: "'a RingBuffer"
  show "rb_inv s \<Longrightarrow> length (rb_queue s) \<le> rb_Cap s"
    by (auto simp: rb_inv_def rb_queue_length rb_Cap_def)
qed (rule rb_push_room rb_push_full rb_pop_some rb_pop_none; assumption)+

lemma NewRingBuffer_inv:
  assumes "cap \<noteq> 1" "cap \<le> 2 ^ 32"
  shows "rb_inv (NewRingBuffer zero cap)" "rb_queue (NewRingBuffer zero cap) = []"
    "cap \<le> int (rb_Cap (NewRingBuffer zero cap))" "2 ^ 62 \<le> rb_room (NewRingBuffer zero cap)"
proof -
  let ?c = "if cap \<le> 0 then 64 else cap"
  let ?r = "NewRingBuffer zero cap"
  define p where "p = nextPowerOf2 ?c"
  have "rounds_up ?c p \<and> p \<le> 2 ^ 32" unfolding p_def using assms by (intro nextPowerOf2_rounds_up) auto
  then obtain k where k: "p = 2 ^ k" "?c \<le> p" "p \<le> 2 ^ 32" unfolding rounds_up_def by blast
  have "2 \<le> p" using k(2) assms(1) by (auto split: if_splits)
  then have k1: "1 \<le> k" using k(1) by (cases k) auto
  have k32: "k \<le> 32" using k(1,3) power_le_imp_le_exp [of "2::int" k 32] by simp
  have np: "nat p = 2 ^ k" using k(1) by (simp add: nat_power_eq)
  have m: "(word_of_int (p - 1) :: u64) = of_nat (2 ^ k - 1)"
    unfolding k(1) by (simp add: of_nat_diff)
  have "?r = \<lparr>rb_data = map (\<lambda>i. (zero, of_nat i)) [0..<nat p], rb_mask = word_of_int (p - 1),
      rb_head = 0, rb_tail = 0, rb_zero = zero\<rparr>"
    by (simp only: NewRingBuffer_def Let_def p_def)
  then have r: "?r = \<lparr>rb_data = map (\<lambda>i. (zero, of_nat i)) [0..<2 ^ k], rb_mask = of_nat (2 ^ k - 1),
      rb_head = 0, rb_tail = 0, rb_zero = zero\<rparr>" by (simp only: m np)
  have le: "(2::nat) ^ k \<le> 2 ^ 32" using k32 by (intro power_increasing) auto
  have slot: "snd (rb_slot ?r i) = of_nat i" if "i < 2 ^ k" for i using that by (simp add: r rb_slot_def)
  have len: "length (rb_data ?r) = 2 ^ k" "rb_head ?r = 0" "rb_tail ?r = 0" "rb_mask ?r = of_nat (2 ^ k - 1)"
    by (simp_all add: r)
  show "rb_inv ?r" unfolding rb_inv_def len using k1 k32 le slot by auto
  show "rb_queue ?r = []" by (simp add: rb_queue_def r)
  show "cap \<le> int (rb_Cap ?r)" using k(1,2) by (simp add: rb_Cap_def r split: if_splits)
  show "2 ^ 62 \<le> rb_room ?r" using le by (simp add: rb_room_def r)
qed

subsection \<open>Flushing drains the queue in order\<close>

lemma pop_batch_spec:
  "rb_inv rb \<Longrightarrow> \<exists>rb' n. pop_batch b rb batch = Some (rb', batch @ take n (rb_queue rb)) \<and>
     rb_inv rb' \<and> rb_queue rb' = drop n (rb_queue rb) \<and> (rb_queue rb \<noteq> [] \<longrightarrow> 0 < n) \<and>
     rb_room rb' = rb_room rb"
proof (induction b rb batch rule: pop_batch.induct)
  case (1 b rb batch)
  show ?case
  proof (cases "rb_queue rb")
    case Nil
    then show ?thesis using rb_pop_none [OF 1(2)] 1(2)
      by (intro exI [of _ rb] exI [of _ 0]) (simp add: pop_batch.simps)
  next
    case (Cons x xs)
    then obtain rb1 where rb1: "rb_Pop rb = Some (rb1, Some x)" "rb_inv rb1" "rb_queue rb1 = xs" "rb_room rb1 = rb_room rb"
      using rb_pop_some [OF 1(2)] by blast
    show ?thesis
    proof (cases "b \<le> int (length (batch @ [x]))")
      case True
      then show ?thesis using rb1 Cons
        by (intro exI [of _ rb1] exI [of _ 1]) (simp add: pop_batch.simps)
    next
      case False
      then obtain rb' n where "pop_batch b rb1 (batch @ [x]) = Some (rb', (batch @ [x]) @ take n xs)"
        "rb_inv rb'" "rb_queue rb' = drop n xs" "rb_room rb' = rb_room rb1"
        using 1(1) [OF rb1(1) refl refl _ rb1(2)] rb1(3) by auto
      then show ?thesis using rb1 Cons False
        by (intro exI [of _ rb'] exI [of _ "Suc n"]) (simp add: pop_batch.simps)
    qed
  qed
qed

lemma rb_IsEmpty_queue: "rb_inv rb \<Longrightarrow> rb_IsEmpty rb \<longleftrightarrow> rb_queue rb = []"
proof -
  assume inv: "rb_inv rb"
  have "rb_IsEmpty rb \<longleftrightarrow> rb_tail rb = rb_head rb"
    unfolding rb_IsEmpty_def rb_Len_def
    by (metis eq_iff_diff_eq_0 signed_0 signed_word_eqI)
  also have "\<dots> \<longleftrightarrow> unat (rb_tail rb) \<le> unat (rb_head rb)"
    using inv by (auto simp: rb_inv_def word_unat_eq_iff)
  also have "\<dots> \<longleftrightarrow> rb_queue rb = []" by (auto simp: rb_queue_def)
  finally show ?thesis .
qed

lemma flushAll_spec:
  "rb_inv rb \<Longrightarrow> \<exists>rb' bs. flushAll b rb batches = Some (rb', batches @ bs) \<and> rb_inv rb' \<and>
     rb_queue rb' = [] \<and> concat bs = rb_queue rb \<and> [] \<notin> set bs \<and> rb_room rb' = rb_room rb"
proof (induction "length (rb_queue rb)" arbitrary: rb batches rule: less_induct)
  case less
  obtain rb1 n where rb1: "flushBatch b rb = Some (rb1, take n (rb_queue rb))" "rb_inv rb1"
    "rb_queue rb1 = drop n (rb_queue rb)" "rb_queue rb \<noteq> [] \<longrightarrow> 0 < n" "rb_room rb1 = rb_room rb"
    using pop_batch_spec [OF less.prems, of b "[]"] by (auto simp: flushBatch_def)
  define bs1 where "bs1 = (if 0 < length (take n (rb_queue rb)) then [take n (rb_queue rb)] else [])"
  have step: "flushAll b rb batches =
      (if rb_IsEmpty rb1 then Some (rb1, batches @ bs1) else flushAll b rb1 (batches @ bs1))"
    using rb1(1) by (subst flushAll.simps) (simp add: bs1_def)
  have bs1: "concat bs1 = take n (rb_queue rb)" "[] \<notin> set bs1" by (auto simp: bs1_def)
  show ?case
  proof (cases "rb_queue rb1 = []")
    case True
    then have "take n (rb_queue rb) = rb_queue rb" using rb1(3) by simp
    then show ?thesis using True step rb1(2,5) bs1 rb_IsEmpty_queue [OF rb1(2)]
      by (intro exI [of _ rb1] exI [of _ bs1]) simp
  next
    case False
    then have "length (rb_queue rb1) < length (rb_queue rb)" using rb1(3,4) by auto
    from less.hyps [OF this rb1(2), of "batches @ bs1"] obtain rb' bs where
      "flushAll b rb1 (batches @ bs1) = Some (rb', (batches @ bs1) @ bs)" "rb_inv rb'" "rb_queue rb' = []"
      "concat bs = rb_queue rb1" "[] \<notin> set bs" "rb_room rb' = rb_room rb1" by blast
    then show ?thesis using False step bs1 rb1(3,5) rb_IsEmpty_queue [OF rb1(2)]
      by (intro exI [of _ rb'] exI [of _ "bs1 @ bs"]) simp
  qed
qed

text \<open>
  With one slot the sequence number of a stored item equals the next tail, so the slot looks free:
  the second push overwrites the first item and reports success, and then \<open>Pop\<close> finds a number it
  is not waiting for and retries for ever.
\<close>

lemma capacity_one:
  "\<exists>rb1 rb2. rb_Push (NewRingBuffer z 1) x = Some (rb1, True) \<and> rb_Push rb1 y = Some (rb2, True) \<and> rb_Pop rb2 = None"
proof -
  have n: "NewRingBuffer z 1 = \<lparr>rb_data = [(z, 0)], rb_mask = 0, rb_head = 0, rb_tail = 0, rb_zero = z\<rparr>"
    by (simp add: NewRingBuffer_def nextPowerOf2_def Let_def i64_simps)
  show ?thesis by (simp add: n rb_Push_def rb_Pop_def Let_def)
qed

end
