(* ===== verification/Metrics.thy ===== *)
theory Metrics
  imports Prelude
begin

text \<open>
  \<open>metrics.go\<close>: the counters of the cache. Every method accepts a nil receiver, the value of
  \<open>c.metrics\<close> when metrics are disabled, so a metrics pointer is an option and the methods are
  the identity on \<open>None\<close>. The counters wrap at 64 bits. The hit ratio of a snapshot is a
  \<open>float64\<close> quotient; the snapshot keeps the two integers it is computed from, \<open>(0, 1)\<close> standing
  for the zero that is reported while nothing was counted.
\<close>

record Metrics =
  m_hits :: int
  m_misses :: int
  m_sets :: int
  m_deletes :: int
  m_evictions :: int
  m_expirations :: int
  m_rejections :: int
  m_costAdded :: int
  m_costEvicted :: int
  m_bufferDrops :: int

record MetricsSnapshot =
  s_Hits :: int
  s_Misses :: int
  s_Sets :: int
  s_Deletes :: int
  s_Evictions :: int
  s_Expirations :: int
  s_Rejections :: int
  s_CostAdded :: int
  s_CostEvicted :: int
  s_BufferDrops :: int
  s_HitRatio :: "int \<times> int"

definition newMetrics :: Metrics where
  "newMetrics = \<lparr>m_hits = 0, m_misses = 0, m_sets = 0, m_deletes = 0, m_evictions = 0,
     m_expirations = 0, m_rejections = 0, m_costAdded = 0, m_costEvicted = 0, m_bufferDrops = 0\<rparr>"

definition incHit :: "Metrics option \<Rightarrow> Metrics option" where
  "incHit = map_option (\<lambda>m. m\<lparr>m_hits := i64 (m_hits m + 1)\<rparr>)"

definition incMiss :: "Metrics option \<Rightarrow> Metrics option" where
  "incMiss = map_option (\<lambda>m. m\<lparr>m_misses := i64 (m_misses m + 1)\<rparr>)"

definition incSet :: "Metrics option \<Rightarrow> Metrics option" where
  "incSet = map_option (\<lambda>m. m\<lparr>m_sets := i64 (m_sets m + 1)\<rparr>)"

definition incDelete :: "Metrics option \<Rightarrow> Metrics option" where
  "incDelete = map_option (\<lambda>m. m\<lparr>m_deletes := i64 (m_deletes m + 1)\<rparr>)"

definition incEviction :: "Metrics option \<Rightarrow> Metrics option" where
  "incEviction = map_option (\<lambda>m. m\<lparr>m_evictions := i64 (m_evictions m + 1)\<rparr>)"

definition incExpiration :: "Metrics option \<Rightarrow> Metrics option" where
  "incExpiration = map_option (\<lambda>m. m\<lparr>m_expirations := i64 (m_expirations m + 1)\<rparr>)"

definition incRejection :: "Metrics option \<Rightarrow> Metrics option" where
  "incRejection = map_option (\<lambda>m. m\<lparr>m_rejections := i64 (m_rejections m + 1)\<rparr>)"

definition addCost :: "int \<Rightarrow> Metrics option \<Rightarrow> Metrics option" where
  "addCost cost = map_option (\<lambda>m. m\<lparr>m_costAdded := i64 (m_costAdded m + cost)\<rparr>)"

definition addEvictedCost :: "int \<Rightarrow> Metrics option \<Rightarrow> Metrics option" where
  "addEvictedCost cost = map_option (\<lambda>m. m\<lparr>m_costEvicted := i64 (m_costEvicted m + cost)\<rparr>)"

definition incBufferDrop :: "Metrics option \<Rightarrow> Metrics option" where
  "incBufferDrop = map_option (\<lambda>m. m\<lparr>m_bufferDrops := i64 (m_bufferDrops m + 1)\<rparr>)"

definition Snapshot :: "Metrics option \<Rightarrow> MetricsSnapshot" where
  "Snapshot m =
     (case m of
        None \<Rightarrow> \<lparr>s_Hits = 0, s_Misses = 0, s_Sets = 0, s_Deletes = 0, s_Evictions = 0, s_Expirations = 0,
                 s_Rejections = 0, s_CostAdded = 0, s_CostEvicted = 0, s_BufferDrops = 0, s_HitRatio = (0, 1)\<rparr>
      | Some m \<Rightarrow>
          let hits = m_hits m; misses = m_misses m; total = i64 (hits + misses);
              hitRatio = (if total > 0 then (hits, total) else (0, 1))
          in \<lparr>s_Hits = hits, s_Misses = misses, s_Sets = m_sets m, s_Deletes = m_deletes m,
              s_Evictions = m_evictions m, s_Expirations = m_expirations m, s_Rejections = m_rejections m,
              s_CostAdded = m_costAdded m, s_CostEvicted = m_costEvicted m,
              s_BufferDrops = m_bufferDrops m, s_HitRatio = hitRatio\<rparr>)"

definition metrics_Reset :: "Metrics option \<Rightarrow> Metrics option" where
  "metrics_Reset = map_option (\<lambda>m. m\<lparr>m_hits := 0, m_misses := 0, m_sets := 0, m_deletes := 0,
     m_evictions := 0, m_expirations := 0, m_rejections := 0, m_costAdded := 0, m_costEvicted := 0,
     m_bufferDrops := 0\<rparr>)"

lemmas metrics_defs = incHit_def incMiss_def incSet_def incDelete_def incEviction_def
  incExpiration_def incRejection_def addCost_def addEvictedCost_def incBufferDrop_def metrics_Reset_def

lemma metrics_Reset_new: "metrics_Reset (Some m) = Some newMetrics"
  by (simp add: metrics_Reset_def newMetrics_def)

text \<open>A reported ratio is a fraction of the total between zero and one.\<close>

lemma Snapshot_ratio:
  assumes "m = None \<or> (\<exists>k. m = Some k \<and> 0 \<le> m_hits k \<and> 0 \<le> m_misses k \<and> m_hits k + m_misses k < 2 ^ 63)"
  shows "0 \<le> fst (s_HitRatio (Snapshot m)) \<and> fst (s_HitRatio (Snapshot m)) \<le> snd (s_HitRatio (Snapshot m)) \<and>
    0 < snd (s_HitRatio (Snapshot m))"
proof (cases m)
  case (Some k)
  then have "i64 (m_hits k + m_misses k) = m_hits k + m_misses k" using assms by (intro i64_id) auto
  then show ?thesis using Some assms by (auto simp: Snapshot_def Let_def)
qed (simp add: Snapshot_def)

end
