(* ===== verification/Config.thy ===== *)
theory Config
  imports PowerOfTwo
begin

text \<open>
  \<open>options.go\<close>: the configuration of a cache and the functional options that build it. A nil
  callback is \<open>None\<close>. What the callbacks do lies outside the cache, so \<open>OnEvict\<close>, \<open>OnExpire\<close> and
  \<open>OnReject\<close> are recorded only as present or absent, and their calls are events of the cache model.
\<close>

record ('k, 'v) config =
  MaxEntries :: int
  MaxCost :: int
  NumCounters :: int
  ShardCount :: int
  BufferItems :: int
  MetricsEnabled :: bool
  ExpiryResolution :: int
  OnEvict :: bool
  OnExpire :: bool
  OnReject :: bool
  CostFunc :: "('v \<Rightarrow> int) option"
  KeyHasher :: "('k \<Rightarrow> u64) option"
  DefaultTTL :: int
  IgnoreInternalCost :: bool
  UseLockFreePolicy :: bool
  EnablePrefixSearch :: bool

type_synonym ('k, 'v) Option = "('k, 'v) config \<Rightarrow> ('k, 'v) config"

definition defaultConfig :: "('k, 'v) config" where
  "defaultConfig =
     \<lparr>MaxEntries = 0, MaxCost = 0, NumCounters = 0, ShardCount = 1024, BufferItems = 0,
      MetricsEnabled = True, ExpiryResolution = 100 * 1000000, OnEvict = False, OnExpire = False,
      OnReject = False, CostFunc = None, KeyHasher = None, DefaultTTL = 0,
      IgnoreInternalCost = False, UseLockFreePolicy = True, EnablePrefixSearch = False\<rparr>"

definition WithMaxEntries :: "int \<Rightarrow> ('k, 'v) Option" where
  "WithMaxEntries n = (\<lambda>c. c\<lparr>MaxEntries := n\<rparr>)"

definition WithMaxCost :: "int \<Rightarrow> ('k, 'v) Option" where
  "WithMaxCost cost = (\<lambda>c. c\<lparr>MaxCost := cost\<rparr>)"

definition WithNumCounters :: "int \<Rightarrow> ('k, 'v) Option" where
  "WithNumCounters n = (\<lambda>c. c\<lparr>NumCounters := n\<rparr>)"

definition WithShardCount :: "int \<Rightarrow> ('k, 'v) Option" where
  "WithShardCount n = (\<lambda>c.
     let n = (if n \<le> 0 then 1024 else n);
         n = i64 (n - 1);
         n = n OR drop_bit 1 n;
         n = n OR drop_bit 2 n;
         n = n OR drop_bit 4 n;
         n = n OR drop_bit 8 n;
         n = n OR drop_bit 16 n;
         n = i64 (n + 1)
     in c\<lparr>ShardCount := n\<rparr>)"

definition WithBufferItems :: "int \<Rightarrow> ('k, 'v) Option" where
  "WithBufferItems n = (\<lambda>c. c\<lparr>BufferItems := n\<rparr>)"

definition WithMetrics :: "bool \<Rightarrow> ('k, 'v) Option" where
  "WithMetrics enabled = (\<lambda>c. c\<lparr>MetricsEnabled := enabled\<rparr>)"

definition WithOnEvict :: "bool \<Rightarrow> ('k, 'v) Option" where
  "WithOnEvict fn = (\<lambda>c. c\<lparr>OnEvict := fn\<rparr>)"

definition WithOnExpire :: "bool \<Rightarrow> ('k, 'v) Option" where
  "WithOnExpire fn = (\<lambda>c. c\<lparr>OnExpire := fn\<rparr>)"

definition WithOnReject :: "bool \<Rightarrow> ('k, 'v) Option" where
  "WithOnReject fn = (\<lambda>c. c\<lparr>OnReject := fn\<rparr>)"

definition WithCostFunc :: "('v \<Rightarrow> int) option \<Rightarrow> ('k, 'v) Option" where
  "WithCostFunc fn = (\<lambda>c. c\<lparr>CostFunc := fn\<rparr>)"

definition WithKeyHasher :: "('k \<Rightarrow> u64) option \<Rightarrow> ('k, 'v) Option" where
  "WithKeyHasher fn = (\<lambda>c. c\<lparr>KeyHasher := fn\<rparr>)"

definition WithDefaultTTL :: "int \<Rightarrow> ('k, 'v) Option" where
  "WithDefaultTTL ttl = (\<lambda>c. c\<lparr>DefaultTTL := ttl\<rparr>)"

definition WithExpirationResolution :: "int \<Rightarrow> ('k, 'v) Option" where
  "WithExpirationResolution resolution =
     (\<lambda>c. if resolution > 0 then c\<lparr>ExpiryResolution := resolution\<rparr> else c)"

definition WithIgnoreInternalCost :: "bool \<Rightarrow> ('k, 'v) Option" where
  "WithIgnoreInternalCost ignore = (\<lambda>c. c\<lparr>IgnoreInternalCost := ignore\<rparr>)"

definition WithLockFreePolicy :: "bool \<Rightarrow> ('k, 'v) Option" where
  "WithLockFreePolicy enabled = (\<lambda>c. c\<lparr>UseLockFreePolicy := enabled\<rparr>)"

definition WithPrefixSearch :: "bool \<Rightarrow> ('k, 'v) Option" where
  "WithPrefixSearch enabled = (\<lambda>c. c\<lparr>EnablePrefixSearch := enabled\<rparr>)"

definition apply_options :: "('k, 'v) Option list \<Rightarrow> ('k, 'v) config" where
  "apply_options opts = foldl (\<lambda>cfg opt. opt cfg) defaultConfig opts"

lemma WithShardCount_pow2:
  assumes "n \<le> 2 ^ 32"
  shows "ShardCount (WithShardCount n c) = nextPowerOf2 (if n \<le> 0 then 1024 else n)"
    "rounds_up (if n \<le> 0 then 1024 else n) (ShardCount (WithShardCount n c))"
proof -
  show e: "ShardCount (WithShardCount n c) = nextPowerOf2 (if n \<le> 0 then 1024 else n)"
    by (simp only: WithShardCount_def nextPowerOf2_def Let_def) simp
  show "rounds_up (if n \<le> 0 then 1024 else n) (ShardCount (WithShardCount n c))"
    unfolding e using assms by (intro conjunct1 [OF nextPowerOf2_rounds_up]) auto
qed

text \<open>A power of two passes through the second rounding, in \<open>NewShardedStore\<close>, unchanged.\<close>

lemma rounds_up_pow2: "rounds_up (2 ^ j) p \<Longrightarrow> p = 2 ^ j"
proof -
  assume r: "rounds_up (2 ^ j) p"
  then obtain k where k: "p = 2 ^ k" "(2::int) ^ j \<le> 2 ^ k" by (auto simp: rounds_up_def)
  from r k have "(2::int) ^ j = 1 \<and> (2::int) ^ k = 1 \<or> (2::int) ^ k < 2 ^ Suc j" by (auto simp: rounds_up_def)
  moreover have "j \<le> k" using k(2) by simp
  ultimately show "p = 2 ^ j"
    using k(1) power_less_imp_less_exp [of "2::int" k "Suc j"] by (metis le_antisym less_Suc_eq_le one_less_numeral_iff semiring_norm(76))
qed

end
