(* ===== verification/Cache.thy ===== *)
theory Cache
  imports Policy ShardedStore ExpiryWheel Radix RingBuffer Metrics Config "HOL-Library.Monad_Syntax"
begin

text \<open>
  \<open>cache.go\<close>: the generic cache over the store, the policy, the timing wheel, the radix tree, the
  metrics and the two buffers. An operation takes the state of the cache and returns the new one
  with its result; it is an option, \<open>None\<close> being a call that does not return (the sampling loop of
  the policy and the retry loop of a ring are the only sources). \<open>NowNano\<close> is the argument \<open>now\<close>.

  Background goroutines are steps of their own: \<open>c_flushWrites\<close> and \<open>c_flushReads\<close> are one batch of
  a flusher, \<open>c_removeExpired\<close> one tick of the expiration worker. While a writer retries on a full
  buffer the write flusher may run; which of the hundred yields let it run is the argument \<open>yields\<close>.
  Calls of the configured callbacks are appended to \<open>c_events\<close>.
\<close>

subsection \<open>State\<close>

record ('k, 'v) Item =
  i_Key :: 'k
  i_Value :: 'v
  i_Cost :: int
  i_TTL :: int

record ('k, 'v) writeItem =
  wi_entry :: "('k, 'v) Entry"
  wi_isSet :: bool

datatype ('k, 'v) event = Evicted 'k 'v int | Expired 'k 'v | Rejected 'k 'v

record ('k, 'v) Cache =
  c_store :: "('k, 'v) ShardedStore"
  c_policy :: "'k Policer"
  c_wheel :: "'k ExpiryWheel"
  c_radix :: "radixTree option"
  c_metrics :: "Metrics option"
  c_config :: "('k, 'v) config"
  c_writeBuffer :: "('k, 'v) writeItem RingBuffer option"
  c_readBuffer :: "u64 RingBuffer option"
  c_closed :: bool
  c_liveCost :: int
  c_isStringKey :: bool
  c_zero :: 'v \<comment> \<open>the zero value of the value type\<close>
  c_events :: "('k, 'v) event list"

text \<open>
  What \<open>NewCache\<close> depends on beyond its options: the types (their zero values and \<open>any\<close>), the
  random seeds and draws, and the floating-point sizing of the lock-free doorkeeper.
\<close>

record ('k, 'v) env =
  env_any :: "'k \<Rightarrow> go_any"
  env_zeroK :: 'k
  env_zeroV :: 'v
  env_rand :: "u64 list"
  env_draws :: "nat \<Rightarrow> nat"
  env_optBits :: "int \<Rightarrow> u64"
  env_optHash :: "u64 \<Rightarrow> int \<Rightarrow> int"

text \<open>\<open>any(key).(string)\<close>\<close>

definition as_string :: "go_any \<Rightarrow> string option" where
  "as_string a = (case a of GoString s \<Rightarrow> Some s | _ \<Rightarrow> None)"

definition NewCache :: "('k, 'v) env \<Rightarrow> int \<Rightarrow> ('k, 'v) Option list \<Rightarrow> ('k, 'v) Cache option" where
  "NewCache env now opts =
     (let cfg = apply_options opts;
          cfg = (if NumCounters cfg \<le> 0
                 then (if MaxEntries cfg > 0 then cfg\<lparr>NumCounters := i64 (MaxEntries cfg * 10)\<rparr>
                       else cfg\<lparr>NumCounters := 2 ^ 20\<rparr>)
                 else cfg)
      in do {
        pol \<leftarrow> (if UseLockFreePolicy cfg
                then map_option LockFree (NewPolicyLockFree (env_optBits env) (env_optHash env)
                       (env_zeroK env) (env_rand env) (env_draws env) (NumCounters cfg) (MaxCost cfg) (MaxEntries cfg))
                else map_option Locked (NewPolicy (env_zeroK env) (env_rand env) (env_draws env)
                       (NumCounters cfg) (MaxCost cfg) (MaxEntries cfg)));
        let isStringKey = (as_string (env_any env (env_zeroK env)) \<noteq> None);
        let zeroItem = \<lparr>wi_entry = \<lparr>eKey = env_zeroK env, eValue = env_zeroV env, eKeyHash = 0, eExpireAt = 0, eCost = 0\<rparr>,
                        wi_isSet = False\<rparr>;
        Some \<lparr>c_store = NewShardedStore (env_any env) (ShardCount cfg) (KeyHasher cfg),
              c_policy = pol,
              c_wheel = NewExpiryWheel now (ExpiryResolution cfg),
              c_radix = (if isStringKey \<and> EnablePrefixSearch cfg then Some radix_New else None),
              c_metrics = (if MetricsEnabled cfg then Some newMetrics else None),
              c_config = cfg,
              c_writeBuffer = (if BufferItems cfg > 0
                               then Some (NewRingBuffer zeroItem (i64 (BufferItems cfg * 2))) else None),
              c_readBuffer = (if MaxEntries cfg > 0 \<or> MaxCost cfg > 0
                              then Some (NewRingBuffer 0 1024) else None),
              c_closed = False, c_liveCost = 0, c_isStringKey = isStringKey,
              c_zero = env_zeroV env, c_events = []\<rparr>
      })"

subsection \<open>Reads\<close>

definition c_KeyHash :: "('k, 'v) Cache \<Rightarrow> 'k \<Rightarrow> u64" where
  "c_KeyHash c key = getKeyHash (c_store c) key"

definition shouldTrackAccess :: "('k, 'v) Cache \<Rightarrow> bool" where
  "shouldTrackAccess c =
     (let cfg = c_config c
      in if MaxEntries cfg \<le> 0 \<and> MaxCost cfg \<le> 0 then False
         else if MaxEntries cfg > 0 \<and> st_Len (c_store c) \<ge> MaxEntries cfg sdiv 2 then True
         else if MaxCost cfg > 0 \<and> c_liveCost c \<ge> MaxCost cfg sdiv 2 then True
         else False)"

definition recordAccess :: "('k, 'v) Cache \<Rightarrow> u64 \<Rightarrow> ('k, 'v) Cache option" where
  "recordAccess c keyHash =
     (if \<not> shouldTrackAccess c then Some c
      else case c_readBuffer c of
             Some rb \<Rightarrow> map_option (\<lambda>(rb, signal, taken). c\<lparr>c_readBuffer := Some rb\<rparr>) (lossy_Push 64 rb keyHash)
           | None \<Rightarrow> Some (c\<lparr>c_policy := Policer_Access (c_policy c) keyHash\<rparr>))"

definition c_Get :: "('k, 'v) Cache \<Rightarrow> int \<Rightarrow> 'k \<Rightarrow> (('k, 'v) Cache \<times> 'v option) option" where
  "c_Get c now key =
     (if c_closed c then Some (c, None)
      else
        let keyHash = c_KeyHash c key
        in case st_GetByHash (c_store c) now key keyHash of
             None \<Rightarrow> Some (c\<lparr>c_metrics := incMiss (c_metrics c)\<rparr>, None)
           | Some entry \<Rightarrow> do {
               c \<leftarrow> recordAccess c keyHash;
               Some (c\<lparr>c_metrics := incHit (c_metrics c)\<rparr>, Some (eValue entry))
             })"

definition c_Has :: "('k, 'v) Cache \<Rightarrow> int \<Rightarrow> 'k \<Rightarrow> bool" where
  "c_Has c now key = (if c_closed c then False else st_Has (c_store c) now key)"

definition c_Len :: "('k, 'v) Cache \<Rightarrow> int" where
  "c_Len c = st_Len (c_store c)"

definition c_Metrics :: "('k, 'v) Cache \<Rightarrow> MetricsSnapshot" where
  "c_Metrics c = Snapshot (c_metrics c)"

fun c_GetMany :: "('k, 'v) Cache \<Rightarrow> int \<Rightarrow> 'k list \<Rightarrow> ('k \<rightharpoonup> 'v) \<Rightarrow> (('k, 'v) Cache \<times> ('k \<rightharpoonup> 'v)) option" where
  "c_GetMany c now [] result = Some (c, result)"
| "c_GetMany c now (key # keys) result =
     do {
       (c, val) \<leftarrow> c_Get c now key;
       c_GetMany c now keys (case val of Some v \<Rightarrow> result(key \<mapsto> v) | None \<Rightarrow> result)
     }"

record ('k, 'v) BatchResult =
  b_Keys :: "'k list"
  b_Values :: "'v list"
  b_Found :: "bool list"
  b_Hashes :: "u64 list"

text \<open>The loop that copies the results and updates the policy, for position \<open>i\<close>.\<close>

definition batch_copy ::
  "('k, 'v) Entry option list \<Rightarrow> bool list \<Rightarrow> ('k, 'v) Cache \<times> ('k, 'v) BatchResult \<Rightarrow> nat
     \<Rightarrow> (('k, 'v) Cache \<times> ('k, 'v) BatchResult) option" where
  "batch_copy entries found = (\<lambda>(c, result) i.
     (case (found ! i, entries ! i) of
        (True, Some entry) \<Rightarrow> do {
          let result = result\<lparr>b_Values := (b_Values result)[i := eValue entry], b_Found := (b_Found result)[i := True]\<rparr>;
          c \<leftarrow> recordAccess c (b_Hashes result ! i);
          Some (c\<lparr>c_metrics := incHit (c_metrics c)\<rparr>, result)
        }
      | _ \<Rightarrow> Some (c\<lparr>c_metrics := incMiss (c_metrics c)\<rparr>, result)))"

fun foldM :: "('a \<Rightarrow> 'b \<Rightarrow> 'a option) \<Rightarrow> 'a \<Rightarrow> 'b list \<Rightarrow> 'a option" where
  "foldM f a [] = Some a"
| "foldM f a (x # xs) = do { a \<leftarrow> f a x; foldM f a xs }"

definition c_GetBatch ::
  "('k, 'v) Cache \<Rightarrow> int \<Rightarrow> 'k list \<Rightarrow> (('k, 'v) Cache \<times> ('k, 'v) BatchResult) option" where
  "c_GetBatch c now keys =
     (if c_closed c then Some (c, \<lparr>b_Keys = keys, b_Values = [], b_Found = [], b_Hashes = []\<rparr>)
      else
        let n = length keys;
            result = \<lparr>b_Keys = keys, b_Values = replicate n (c_zero c), b_Found = replicate n False,
                      b_Hashes = replicate n 0\<rparr>
        in if n = 0 then Some (c, result)
           else
             let result = result\<lparr>b_Hashes := map (c_KeyHash c) keys\<rparr>;
                 req = st_GetBatch (c_store c) now
                         \<lparr>br_Keys = keys, br_Hashes = b_Hashes result, br_Results = [], br_Found = []\<rparr>
             in foldM (batch_copy (br_Results req) (br_Found req)) (c, result) [0..<n])"

definition c_GetBatchOptimized ::
  "('k keyInfo list \<Rightarrow> 'k keyInfo list) \<Rightarrow> ('k, 'v) Cache \<Rightarrow> int \<Rightarrow> 'k list
     \<Rightarrow> (('k, 'v) Cache \<times> ('k, 'v) BatchResult) option" where
  "c_GetBatchOptimized sort_infos c now keys =
     (if c_closed c then Some (c, \<lparr>b_Keys = keys, b_Values = [], b_Found = [], b_Hashes = []\<rparr>)
      else
        let n = length keys;
            result = \<lparr>b_Keys = keys, b_Values = replicate n (c_zero c), b_Found = replicate n False,
                      b_Hashes = replicate n 0\<rparr>
        in if n = 0 then Some (c, result)
           else
             let result = result\<lparr>b_Hashes := map (c_KeyHash c) keys\<rparr>;
                 (entries, found) = st_GetBatchByShardOrder sort_infos (c_store c) now keys
             in foldM (batch_copy entries found) (c, result) [0..<n])"

datatype panic = IndexOutOfRange

text \<open>\<open>batch.Found[i]\<close> panics when the slice is shorter than the keys.\<close>

fun batch_map :: "('k, 'v) BatchResult \<Rightarrow> (nat \<times> 'k) list \<Rightarrow> ('k \<rightharpoonup> 'v) \<Rightarrow> panic + ('k \<rightharpoonup> 'v)" where
  "batch_map batch [] result = Inr result"
| "batch_map batch ((i, key) # rest) result =
     (if i \<ge> length (b_Found batch) then Inl IndexOutOfRange
      else if b_Found batch ! i
      then if i \<ge> length (b_Values batch) then Inl IndexOutOfRange
           else batch_map batch rest (result(key \<mapsto> b_Values batch ! i))
      else batch_map batch rest result)"

definition c_GetBatchToMap ::
  "('k, 'v) Cache \<Rightarrow> int \<Rightarrow> 'k list \<Rightarrow> (('k, 'v) Cache \<times> (panic + ('k \<rightharpoonup> 'v))) option" where
  "c_GetBatchToMap c now keys =
     do {
       (c, batch) \<leftarrow> c_GetBatch c now keys;
       Some (c, batch_map batch (enumerate 0 (b_Keys batch)) Map.empty)
     }"

subsection \<open>Writes\<close>

text \<open>\<open>if c.isStringKey && c.radixTree != nil { if strKey, ok := any(key).(string); ok { ... } }\<close>\<close>

definition on_radix :: "('k, 'v) Cache \<Rightarrow> 'k \<Rightarrow> (radixTree \<Rightarrow> string \<Rightarrow> radixTree) \<Rightarrow> ('k, 'v) Cache" where
  "on_radix c key f =
     (case (c_radix c, as_string (st_any (c_store c) key)) of
        (Some t, Some strKey) \<Rightarrow> if c_isStringKey c then c\<lparr>c_radix := Some (f t strKey)\<rparr> else c
      | _ \<Rightarrow> c)"

definition radix_del :: "('k, 'v) Cache \<Rightarrow> 'k \<Rightarrow> ('k, 'v) Cache" where
  "radix_del c key = on_radix c key (\<lambda>t strKey. fst (radix_Delete t strKey))"

definition emit :: "('k, 'v) Cache \<Rightarrow> ('k, 'v) event \<Rightarrow> ('k, 'v) Cache" where
  "emit c ev = c\<lparr>c_events := c_events c @ [ev]\<rparr>"

definition evictVictim :: "('k, 'v) Cache \<Rightarrow> 'k victim \<Rightarrow> ('k, 'v) Cache" where
  "evictVictim c victim =
     (case st_DeleteByHash (c_store c) (v_Key victim) (v_KeyHash victim) of
        (store, None) \<Rightarrow> c\<lparr>c_store := store\<rparr>
      | (store, Some deleted) \<Rightarrow>
          let c = c\<lparr>c_store := store, c_liveCost := i64 (c_liveCost c - eCost deleted)\<rparr>;
              c = radix_del c (v_Key victim);
              c = c\<lparr>c_metrics := addEvictedCost (eCost deleted) (incEviction (c_metrics c))\<rparr>
          in if OnEvict (c_config c) then emit c (Evicted (eKey deleted) (eValue deleted) (eCost deleted)) else c)"

definition doSet :: "('k, 'v) Cache \<Rightarrow> ('k, 'v) Entry \<Rightarrow> (('k, 'v) Cache \<times> bool) option" where
  "doSet c entry =
     do {
       (pol, victims, added) \<leftarrow> Policer_Add (c_policy c) (eKey entry) (eKeyHash entry) (eCost entry);
       let c = c\<lparr>c_policy := pol\<rparr>;
       if \<not> added
       then let c = c\<lparr>c_metrics := incRejection (c_metrics c)\<rparr>
            in Some (if OnReject (c_config c) then emit c (Rejected (eKey entry) (eValue entry)) else c, False)
       else
         let c = foldl evictVictim c victims;
             (store, prev) = st_Set (c_store c) entry;
             c = c\<lparr>c_store := store, c_liveCost := i64 (c_liveCost c + eCost entry)\<rparr>;
             c = (if eExpireAt entry > 0
                  then c\<lparr>c_wheel := w_Schedule (c_wheel c) (eKey entry) (eKeyHash entry) (eExpireAt entry)\<rparr> else c);
             c = on_radix c (eKey entry) (\<lambda>t strKey. radix_Insert t strKey (eKeyHash entry));
             c = (case prev of
                    Some p \<Rightarrow> if OnEvict (c_config c) then emit c (Evicted (eKey p) (eValue p) (eCost p)) else c
                  | None \<Rightarrow> c);
             c = c\<lparr>c_metrics := addCost (eCost entry) (incSet (c_metrics c))\<rparr>
         in Some (c, True)
     }"

definition tryUpdateExisting ::
  "('k, 'v) Cache \<Rightarrow> 'k \<Rightarrow> 'v \<Rightarrow> u64 \<Rightarrow> int \<Rightarrow> int \<Rightarrow> ('k, 'v) Cache \<times> bool" where
  "tryUpdateExisting c key val keyHash cost expireAt =
     (if st_PeekByHash (c_store c) key keyHash = None then (c, False)
      else
        let (store, prev, updated, costDelta, oldExpireAt) =
              st_UpdateExistingByHash (c_store c) key keyHash val cost expireAt (OnEvict (c_config c));
            c = c\<lparr>c_store := store\<rparr>
        in if \<not> updated then (c, False)
           else
             let c = (if costDelta \<noteq> 0
                      then c\<lparr>c_liveCost := i64 (c_liveCost c + costDelta),
                             c_policy := Policer_Update (c_policy c) key keyHash cost\<rparr> else c);
                 c = (if expireAt > 0 then c\<lparr>c_wheel := w_Schedule (c_wheel c) key keyHash expireAt\<rparr> else c);
                 c = c\<lparr>c_metrics := addCost cost (incSet (c_metrics c))\<rparr>
             in (case prev of
                   Some p \<Rightarrow> if OnEvict (c_config c) then emit c (Evicted (eKey p) (eValue p) (eCost p)) else c
                 | None \<Rightarrow> c, True))"

definition setSync ::
  "('k, 'v) Cache \<Rightarrow> 'k \<Rightarrow> 'v \<Rightarrow> u64 \<Rightarrow> int \<Rightarrow> int \<Rightarrow> (('k, 'v) Cache \<times> bool) option" where
  "setSync c key val keyHash cost expireAt =
     (let (c, done) = tryUpdateExisting c key val keyHash cost expireAt
      in if done then Some (c, True)
         else doSet c \<lparr>eKey = key, eValue = val, eKeyHash = keyHash, eExpireAt = expireAt, eCost = cost\<rparr>)"

definition doDelete :: "('k, 'v) Cache \<Rightarrow> 'k \<Rightarrow> u64 \<Rightarrow> ('k, 'v) Cache \<times> bool" where
  "doDelete c key keyHash =
     (case st_DeleteByHash (c_store c) key keyHash of
        (store, None) \<Rightarrow> (c\<lparr>c_store := store\<rparr>, False)
      | (store, Some deleted) \<Rightarrow>
          let c = c\<lparr>c_store := store, c_liveCost := i64 (c_liveCost c - eCost deleted)\<rparr>;
              c = c\<lparr>c_policy := Policer_Del (c_policy c) key keyHash\<rparr>;
              c = radix_del c key
          in (c\<lparr>c_metrics := incDelete (c_metrics c)\<rparr>, True))"

definition processWrite :: "('k, 'v) Cache \<Rightarrow> ('k, 'v) writeItem \<Rightarrow> ('k, 'v) Cache option" where
  "processWrite c item =
     (let entry = wi_entry item
      in if wi_isSet item
         then map_option fst (setSync c (eKey entry) (eValue entry) (eKeyHash entry) (eCost entry) (eExpireAt entry))
         else Some (fst (doDelete c (eKey entry) (eKeyHash entry))))"

definition processWriteBatch :: "('k, 'v) Cache \<Rightarrow> ('k, 'v) writeItem list \<Rightarrow> ('k, 'v) Cache option" where
  "processWriteBatch c items = foldM processWrite c items"

definition processReadBatch :: "('k, 'v) Cache \<Rightarrow> u64 list \<Rightarrow> ('k, 'v) Cache" where
  "processReadBatch c items =
     (if length items = 0 then c
      else case c_policy c of
             LockFree p \<Rightarrow> c\<lparr>c_policy := LockFree (plf_AccessBatch p items)\<rparr>
           | Locked p \<Rightarrow> c\<lparr>c_policy := foldl Policer_Access (c_policy c) items\<rparr>)"

subsection \<open>The buffers\<close>

text \<open>One \<open>flushBatch\<close> of the write flusher, and of the read flusher.\<close>

definition c_flushWrites :: "('k, 'v) Cache \<Rightarrow> ('k, 'v) Cache option" where
  "c_flushWrites c =
     (case c_writeBuffer c of
        None \<Rightarrow> Some c
      | Some rb \<Rightarrow> do {
          (rb, batch) \<leftarrow> flushBatch (BufferItems (c_config c)) rb;
          let c = c\<lparr>c_writeBuffer := Some rb\<rparr>;
          if length batch > 0 then processWriteBatch c batch else Some c
        })"

definition c_flushReads :: "('k, 'v) Cache \<Rightarrow> ('k, 'v) Cache option" where
  "c_flushReads c =
     (case c_readBuffer c of
        None \<Rightarrow> Some c
      | Some rb \<Rightarrow> do {
          (rb, batch) \<leftarrow> flushBatch 64 rb;
          let c = c\<lparr>c_readBuffer := Some rb\<rparr>;
          Some (if length batch > 0 then processReadBatch c batch else c)
        })"

text \<open>\<open>FlushSync\<close> and \<open>Close\<close> of the buffers drain the ring completely.\<close>

definition c_drainWrites :: "('k, 'v) Cache \<Rightarrow> ('k, 'v) Cache option" where
  "c_drainWrites c =
     (case c_writeBuffer c of
        None \<Rightarrow> Some c
      | Some rb \<Rightarrow> do {
          (rb, batches) \<leftarrow> flushAll (BufferItems (c_config c)) rb [];
          foldM processWriteBatch (c\<lparr>c_writeBuffer := Some rb\<rparr>) batches
        })"

definition c_drainReads :: "('k, 'v) Cache \<Rightarrow> ('k, 'v) Cache option" where
  "c_drainReads c =
     (case c_readBuffer c of
        None \<Rightarrow> Some c
      | Some rb \<Rightarrow> do {
          (rb, batches) \<leftarrow> flushAll 64 rb [];
          Some (foldl processReadBatch (c\<lparr>c_readBuffer := Some rb\<rparr>) batches)
        })"

text \<open>\<open>WriteBuffer.Push\<close>: on a full ring, yield and retry; a yield lets the flusher run or not.\<close>

fun retry_push :: "('k, 'v) Cache \<Rightarrow> ('k, 'v) writeItem \<Rightarrow> bool list \<Rightarrow> (('k, 'v) Cache \<times> bool) option" where
  "retry_push c item [] = Some (c, False)"
| "retry_push c item (yield # yields) =
     do {
       c \<leftarrow> (if yield then c_flushWrites c else Some c);
       (rb, ok) \<leftarrow> rb_Push (the (c_writeBuffer c)) item;
       let c = c\<lparr>c_writeBuffer := Some rb\<rparr>;
       if ok then Some (c, True) else retry_push c item yields
     }"

definition c_pushWrite ::
  "(nat \<Rightarrow> bool) \<Rightarrow> ('k, 'v) Cache \<Rightarrow> ('k, 'v) writeItem \<Rightarrow> (('k, 'v) Cache \<times> bool) option" where
  "c_pushWrite yields c item =
     do {
       (rb, ok) \<leftarrow> rb_Push (the (c_writeBuffer c)) item;
       let c = c\<lparr>c_writeBuffer := Some rb\<rparr>;
       if ok then Some (c, True) else retry_push c item (map yields [0..<100])
     }"

definition c_SetWithCost ::
  "(nat \<Rightarrow> bool) \<Rightarrow> ('k, 'v) Cache \<Rightarrow> int \<Rightarrow> 'k \<Rightarrow> 'v \<Rightarrow> int \<Rightarrow> int \<Rightarrow> (('k, 'v) Cache \<times> bool) option" where
  "c_SetWithCost yields c now key val cost ttl =
     (if c_closed c then Some (c, False)
      else
        let cost = (if cost \<le> 0
                    then (case CostFunc (c_config c) of Some f \<Rightarrow> f val | None \<Rightarrow> 1) else cost);
            ttl = (if ttl \<le> 0 \<and> DefaultTTL (c_config c) > 0 then DefaultTTL (c_config c) else ttl);
            expireAt = (if ttl > 0 then i64 (now + ttl) else 0);
            keyHash = c_KeyHash c key
        in if c_writeBuffer c \<noteq> None
           then do {
             (c, pushed) \<leftarrow> c_pushWrite yields c
               \<lparr>wi_entry = \<lparr>eKey = key, eValue = val, eKeyHash = keyHash, eExpireAt = expireAt, eCost = cost\<rparr>,
                wi_isSet = True\<rparr>;
             if \<not> pushed
             then setSync (c\<lparr>c_metrics := incBufferDrop (c_metrics c)\<rparr>) key val keyHash cost expireAt
             else Some (c, True)
           }
           else setSync c key val keyHash cost expireAt)"

definition c_Set ::
  "(nat \<Rightarrow> bool) \<Rightarrow> ('k, 'v) Cache \<Rightarrow> int \<Rightarrow> 'k \<Rightarrow> 'v \<Rightarrow> int \<Rightarrow> (('k, 'v) Cache \<times> bool) option" where
  "c_Set yields c now key val ttl = c_SetWithCost yields c now key val 1 ttl"

definition c_Delete :: "(nat \<Rightarrow> bool) \<Rightarrow> ('k, 'v) Cache \<Rightarrow> 'k \<Rightarrow> (('k, 'v) Cache \<times> bool) option" where
  "c_Delete yields c key =
     (if c_closed c then Some (c, False)
      else
        let keyHash = c_KeyHash c key
        in if c_writeBuffer c \<noteq> None
           then do {
             (c, pushed) \<leftarrow> c_pushWrite yields c
               \<lparr>wi_entry = \<lparr>eKey = key, eValue = c_zero c, eKeyHash = keyHash, eExpireAt = 0, eCost = 0\<rparr>,
                wi_isSet = False\<rparr>;
             if \<not> pushed
             then Some (doDelete (c\<lparr>c_metrics := incBufferDrop (c_metrics c)\<rparr>) key keyHash)
             else Some (c, True)
           }
           else Some (doDelete c key keyHash))"

fun c_SetMany ::
  "(nat \<Rightarrow> bool) \<Rightarrow> ('k, 'v) Cache \<Rightarrow> int \<Rightarrow> ('k, 'v) Item list \<Rightarrow> nat \<Rightarrow> (('k, 'v) Cache \<times> nat) option" where
  "c_SetMany yields c now [] cnt = Some (c, cnt)"
| "c_SetMany yields c now (item # items) cnt =
     do {
       (c, ok) \<leftarrow> c_SetWithCost yields c now (i_Key item) (i_Value item) (i_Cost item) (i_TTL item);
       c_SetMany yields c now items (if ok then cnt + 1 else cnt)
     }"

fun c_DeleteMany ::
  "(nat \<Rightarrow> bool) \<Rightarrow> ('k, 'v) Cache \<Rightarrow> 'k list \<Rightarrow> nat \<Rightarrow> (('k, 'v) Cache \<times> nat) option" where
  "c_DeleteMany yields c [] cnt = Some (c, cnt)"
| "c_DeleteMany yields c (key # keys) cnt =
     do {
       (c, ok) \<leftarrow> c_Delete yields c key;
       c_DeleteMany yields c keys (if ok then cnt + 1 else cnt)
     }"

subsection \<open>Maintenance\<close>

text \<open>
  \<open>FlushSync\<close> sends a request to the flusher and waits for the answer, or returns if the flusher has
  stopped. When it has, its \<open>select\<close> may still send the request, since the channel is buffered, and then
  waits for ever: \<open>pick\<close> tells whether it takes the case of the stopped flusher.
\<close>

definition c_syncWrites :: "bool \<Rightarrow> ('k, 'v) Cache \<Rightarrow> ('k, 'v) Cache option" where
  "c_syncWrites pick c =
     (if c_closed c \<and> c_writeBuffer c \<noteq> None then (if pick then Some c else None) else c_drainWrites c)"

definition c_syncReads :: "bool \<Rightarrow> ('k, 'v) Cache \<Rightarrow> ('k, 'v) Cache option" where
  "c_syncReads pick c =
     (if c_closed c \<and> c_readBuffer c \<noteq> None then (if pick then Some c else None) else c_drainReads c)"

definition c_Wait :: "bool \<times> bool \<Rightarrow> ('k, 'v) Cache \<Rightarrow> ('k, 'v) Cache option" where
  "c_Wait picks c = do { c \<leftarrow> c_syncWrites (fst picks) c; c_syncReads (snd picks) c }"

definition c_Clear :: "bool \<times> bool \<Rightarrow> ('k, 'v) Cache \<Rightarrow> int \<Rightarrow> ('k, 'v) Cache option" where
  "c_Clear picks c now =
     do {
       c \<leftarrow> c_Wait picks c;
       Some (c\<lparr>c_store := st_Clear (c_store c), c_policy := Policer_Clear (c_policy c),
               c_wheel := w_Clear (c_wheel c) now,
               c_radix := map_option radix_Clear (c_radix c),
               c_metrics := metrics_Reset (c_metrics c), c_liveCost := 0\<rparr>)
     }"

definition c_Close :: "('k, 'v) Cache \<Rightarrow> ('k, 'v) Cache option" where
  "c_Close c =
     (if c_closed c then Some c
      else do {
        let c = c\<lparr>c_closed := True\<rparr>;
        c \<leftarrow> c_drainWrites c;
        c_drainReads c
      })"

definition expire_item :: "int \<Rightarrow> ('k, 'v) Cache \<Rightarrow> 'k ExpiryWheelEntry \<Rightarrow> ('k, 'v) Cache" where
  "expire_item now c item =
     (case st_DeleteIfExpired (c_store c) (w_Key item) (w_KeyHash item) (w_ExpireAt item) now of
        (store, None) \<Rightarrow> c\<lparr>c_store := store\<rparr>
      | (store, Some entry) \<Rightarrow>
          let c = c\<lparr>c_store := store, c_liveCost := i64 (c_liveCost c - eCost entry),
                    c_policy := Policer_Del (c_policy c) (eKey entry) (eKeyHash entry)\<rparr>;
              c = radix_del c (w_Key item);
              c = c\<lparr>c_metrics := incExpiration (c_metrics c)\<rparr>
          in if OnExpire (c_config c) then emit c (Expired (eKey entry) (eValue entry)) else c)"

definition c_removeExpired :: "('k, 'v) Cache \<Rightarrow> int \<Rightarrow> ('k, 'v) Cache" where
  "c_removeExpired c now =
     (let (wheel, expired) = w_Advance (c_wheel c) now
      in foldl (expire_item now) (c\<lparr>c_wheel := wheel\<rparr>) expired)"

end
