(* ===== verification/CacheInv.thy ===== *)
theory CacheInv
  imports Cache
begin

text \<open>
  The invariant of the cache: its five representations of the cached set agree. The map of the
  store is the reference; the policy tracks exactly its keys, with their hashes and costs, the
  live cost is the sum of its costs, and the radix tree, when there is one, holds exactly its
  keys. Every write, every eviction and every expiration keeps it.
\<close>

definition item_of :: "('k, 'v) Entry \<Rightarrow> trackedItem" where
  "item_of e = \<lparr>ti_keyHash = eKeyHash e, ti_cost = eCost e\<rparr>"

definition c_map :: "('k, 'v) Cache \<Rightarrow> ('k \<rightharpoonup> ('k, 'v) Entry)" where
  "c_map c = st_map (c_store c)"

definition radix_ok ::
  "bool \<Rightarrow> ('k \<Rightarrow> go_any) \<Rightarrow> ('k \<rightharpoonup> ('k, 'v) Entry) \<Rightarrow> radixTree option \<Rightarrow> bool" where
  "radix_ok isString any m r \<longleftrightarrow>
     (case r of
        None \<Rightarrow> True
      | Some t \<Rightarrow>
          isString \<and> radix_inv t \<and>
          (\<forall>k. \<exists>s. as_string (any k) = Some s \<and> radix_map t s = map_option eKeyHash (m k)) \<and>
          (\<forall>s. radix_map t s \<noteq> None \<longrightarrow> (\<exists>k. as_string (any k) = Some s)) \<and>
          (\<forall>k k'. as_string (any k) = as_string (any k') \<longrightarrow> k = k'))"

definition data_inv :: "('k, 'v) Cache \<Rightarrow> bool" where
  "data_inv c \<longleftrightarrow>
     st_inv (c_store c) \<and>
     c_liveCost c = i64 (map_sum eCost (c_map c)) \<and>
     (\<forall>k e. c_map c k = Some e \<longrightarrow> i64 (eCost e) = eCost e) \<and>
     radix_ok (c_isStringKey c) (st_any (c_store c)) (c_map c) (c_radix c)"

definition core_inv :: "('k, 'v) Cache \<Rightarrow> bool" where
  "core_inv c \<longleftrightarrow>
     data_inv c \<and> Policer_inv (c_policy c) \<and>
     Policer_tracked (c_policy c) = (\<lambda>k. map_option item_of (c_map c k))"

text \<open>What the writes leave alone.\<close>

definition same_shell :: "('k, 'v) Cache \<Rightarrow> ('k, 'v) Cache \<Rightarrow> bool" where
  "same_shell c c' \<longleftrightarrow>
     c_config c' = c_config c \<and> c_closed c' = c_closed c \<and> c_isStringKey c' = c_isStringKey c \<and>
     c_zero c' = c_zero c \<and> c_writeBuffer c' = c_writeBuffer c \<and> c_readBuffer c' = c_readBuffer c \<and>
     getKeyHash (c_store c') = getKeyHash (c_store c) \<and> st_any (c_store c') = st_any (c_store c)"

lemma same_shell_refl [simp]: "same_shell c c"
  by (simp add: same_shell_def)

lemma same_shell_trans: "same_shell a b \<Longrightarrow> same_shell b c \<Longrightarrow> same_shell a c"
  by (simp add: same_shell_def)

lemma st_any_same [simp]:
  "st_any (fst (st_Set s e)) = st_any s" "st_any (fst (st_DeleteByHash s k h)) = st_any s"
  "st_any (fst (st_DeleteIfExpired s k h x now)) = st_any s"
  "st_any (fst (st_UpdateExistingByHash s k h v c x b)) = st_any s" "st_any (st_Clear s) = st_any s"
  by (simp_all add: st_Set_def st_DeleteByHash_def st_DeleteIfExpired_def st_UpdateExistingByHash_def
      st_Clear_def Let_def split: option.split)

lemma on_radix_sel [simp]:
  "c_store (on_radix c k f) = c_store c" "c_policy (on_radix c k f) = c_policy c"
  "c_wheel (on_radix c k f) = c_wheel c" "c_metrics (on_radix c k f) = c_metrics c"
  "c_config (on_radix c k f) = c_config c" "c_writeBuffer (on_radix c k f) = c_writeBuffer c"
  "c_readBuffer (on_radix c k f) = c_readBuffer c" "c_closed (on_radix c k f) = c_closed c"
  "c_liveCost (on_radix c k f) = c_liveCost c" "c_isStringKey (on_radix c k f) = c_isStringKey c"
  "c_zero (on_radix c k f) = c_zero c" "c_events (on_radix c k f) = c_events c"
  by (simp_all add: on_radix_def split: option.split)

lemma emit_sel [simp]:
  "c_store (emit c e) = c_store c" "c_policy (emit c e) = c_policy c"
  "c_wheel (emit c e) = c_wheel c" "c_metrics (emit c e) = c_metrics c"
  "c_config (emit c e) = c_config c" "c_writeBuffer (emit c e) = c_writeBuffer c"
  "c_readBuffer (emit c e) = c_readBuffer c" "c_closed (emit c e) = c_closed c"
  "c_liveCost (emit c e) = c_liveCost c" "c_isStringKey (emit c e) = c_isStringKey c"
  "c_zero (emit c e) = c_zero c" "c_radix (emit c e) = c_radix c"
  "c_events (emit c e) = c_events c @ [e]"
  by (simp_all add: emit_def)

lemma radix_ok_change:
  assumes "radix_ok isS any m (c_radix c)" "c_isStringKey c = isS" "st_any (c_store c) = any"
    "\<And>t s. radix_inv t \<Longrightarrow> radix_inv (f t s) \<and> radix_map (f t s) = (radix_map t)(s := map_option eKeyHash x)"
  shows "radix_ok isS any (m(k := x)) (c_radix (on_radix c k f))"
proof (cases "c_radix c")
  case None
  then show ?thesis by (simp add: on_radix_def radix_ok_def)
next
  case (Some t)
  have t: "isS" "radix_inv t" "\<forall>k. \<exists>s. as_string (any k) = Some s \<and> radix_map t s = map_option eKeyHash (m k)"
    "\<forall>s. radix_map t s \<noteq> None \<longrightarrow> (\<exists>k. as_string (any k) = Some s)"
    "\<forall>k k'. as_string (any k) = as_string (any k') \<longrightarrow> k = k'"
    using assms(1) Some by (auto simp: radix_ok_def)
  obtain s where s: "as_string (any k) = Some s" using t(3) by blast
  have r: "c_radix (on_radix c k f) = Some (f t s)" using Some s t(1) assms(2,3) by (simp add: on_radix_def)
  have f: "radix_inv (f t s)" "radix_map (f t s) = (radix_map t)(s := map_option eKeyHash x)"
    using assms(4) t(2) by blast+
  have "\<exists>s'. as_string (any k') = Some s' \<and> radix_map (f t s) s' = map_option eKeyHash ((m(k := x)) k')" for k'
  proof (cases "k' = k")
    case True
    then show ?thesis using s f(2) by simp
  next
    case False
    obtain s' where s': "as_string (any k') = Some s'" "radix_map t s' = map_option eKeyHash (m k')" using t(3) by blast
    then have "s' \<noteq> s" using False t(5) s by metis
    then show ?thesis using s' f(2) False by simp
  qed
  moreover have "\<forall>s'. radix_map (f t s) s' \<noteq> None \<longrightarrow> (\<exists>k. as_string (any k) = Some s')"
    using t(4) s f(2) by auto
  ultimately show ?thesis unfolding r radix_ok_def using t f(1) by simp
qed

lemma radix_ok_del:
  assumes "radix_ok isS any m (c_radix c)" "c_isStringKey c = isS" "st_any (c_store c) = any"
  shows "radix_ok isS any (m(k := None)) (c_radix (radix_del c k))"
  unfolding radix_del_def
  by (rule radix_ok_change [OF assms]) (simp add: radix_Delete_spec)

lemma radix_ok_ins:
  assumes "radix_ok isS any m (c_radix c)" "c_isStringKey c = isS" "st_any (c_store c) = any"
  shows "radix_ok isS any (m(k \<mapsto> e)) (c_radix (on_radix c k (\<lambda>t s. radix_Insert t s (eKeyHash e))))"
  by (rule radix_ok_change [OF assms]) (simp add: radix_Insert_spec)

lemma radix_ok_same:
  assumes "radix_ok isS any m r" "\<And>k. map_option eKeyHash (m' k) = map_option eKeyHash (m k)"
  shows "radix_ok isS any m' r"
  using assms by (cases r) (simp_all add: radix_ok_def)

lemma radix_del_sel [simp]:
  "c_store (radix_del c k) = c_store c" "c_policy (radix_del c k) = c_policy c"
  "c_wheel (radix_del c k) = c_wheel c" "c_metrics (radix_del c k) = c_metrics c"
  "c_config (radix_del c k) = c_config c" "c_writeBuffer (radix_del c k) = c_writeBuffer c"
  "c_readBuffer (radix_del c k) = c_readBuffer c" "c_closed (radix_del c k) = c_closed c"
  "c_liveCost (radix_del c k) = c_liveCost c" "c_isStringKey (radix_del c k) = c_isStringKey c"
  "c_zero (radix_del c k) = c_zero c" "c_events (radix_del c k) = c_events c"
  by (simp_all add: radix_del_def)

subsection \<open>Removing a key\<close>

text \<open>
  Eviction, deletion and expiration share the removal of an entry from the store, the live cost
  and the radix tree.
\<close>

definition drop_key :: "('k, 'v) Cache \<Rightarrow> 'k \<Rightarrow> ('k, 'v) ShardedStore \<Rightarrow> ('k, 'v) Entry \<Rightarrow> ('k, 'v) Cache" where
  "drop_key c k store e =
     radix_del (c\<lparr>c_store := store, c_liveCost := i64 (c_liveCost c - eCost e)\<rparr>) k"

lemma drop_key_inv:
  assumes "data_inv c" "c_map c k = Some e" "st_inv store" "st_map store = (c_map c)(k := None)"
    "st_any store = st_any (c_store c)"
  shows "data_inv (drop_key c k store e)" "c_map (drop_key c k store e) = (c_map c)(k := None)"
proof -
  show m: "c_map (drop_key c k store e) = (c_map c)(k := None)"
    using assms(4) by (simp add: c_map_def drop_key_def)
  have fin: "finite (dom (c_map c))" using assms(1) by (simp add: data_inv_def c_map_def finite_st_map)
  have "i64 (c_liveCost c - eCost e) = i64 (map_sum eCost ((c_map c)(k := None)))"
    using assms(1) map_sum_delete [OF fin assms(2), of eCost] by (simp add: data_inv_def)
  moreover have "radix_ok (c_isStringKey c) (st_any (c_store c)) ((c_map c)(k := None)) (c_radix (drop_key c k store e))"
    unfolding drop_key_def by (rule radix_ok_del) (use assms in \<open>auto simp: data_inv_def\<close>)
  ultimately show "data_inv (drop_key c k store e)"
    using assms unfolding data_inv_def m by (auto simp: drop_key_def)
qed

lemma same_shell_upd [simp]:
  "same_shell c (c'\<lparr>c_metrics := x\<rparr>) = same_shell c c'"
  "same_shell c (c'\<lparr>c_policy := p\<rparr>) = same_shell c c'"
  "same_shell c (c'\<lparr>c_wheel := w\<rparr>) = same_shell c c'"
  "same_shell c (c'\<lparr>c_liveCost := l\<rparr>) = same_shell c c'"
  "same_shell c (emit c' e) = same_shell c c'" "same_shell c (on_radix c' k f) = same_shell c c'"
  "same_shell c (radix_del c' k) = same_shell c c'"
  by (simp_all add: same_shell_def)

lemma data_inv_upd [simp]:
  "data_inv (c\<lparr>c_metrics := x\<rparr>) = data_inv c" "data_inv (c\<lparr>c_policy := p\<rparr>) = data_inv c"
  "data_inv (c\<lparr>c_wheel := w\<rparr>) = data_inv c" "data_inv (emit c e) = data_inv c"
  "data_inv (c\<lparr>c_readBuffer := b\<rparr>) = data_inv c" "data_inv (c\<lparr>c_writeBuffer := b'\<rparr>) = data_inv c"
  by (simp_all add: data_inv_def c_map_def)

lemma c_map_upd [simp]:
  "c_map (c\<lparr>c_metrics := x\<rparr>) = c_map c" "c_map (c\<lparr>c_policy := p\<rparr>) = c_map c"
  "c_map (c\<lparr>c_wheel := w\<rparr>) = c_map c" "c_map (emit c e) = c_map c" "c_map (on_radix c k f) = c_map c"
  "c_map (radix_del c k) = c_map c" "c_map (c\<lparr>c_liveCost := l\<rparr>) = c_map c"
  "c_map (c\<lparr>c_readBuffer := b\<rparr>) = c_map c" "c_map (c\<lparr>c_writeBuffer := b'\<rparr>) = c_map c"
  by (simp_all add: c_map_def)

lemma drop_key_sel [simp]:
  "c_policy (drop_key c k s e) = c_policy c" "c_wheel (drop_key c k s e) = c_wheel c"
  "c_metrics (drop_key c k s e) = c_metrics c" "c_config (drop_key c k s e) = c_config c"
  by (simp_all add: drop_key_def)

lemma drop_key_shell:
  "getKeyHash store = getKeyHash (c_store c) \<Longrightarrow> st_any store = st_any (c_store c) \<Longrightarrow>
    same_shell c (drop_key c k store e)"
  by (simp add: same_shell_def drop_key_def)

lemma st_DeleteByHash_none: "st_map s k = None \<Longrightarrow> st_DeleteByHash s k (getKeyHash s k) = (s, None)"
  by (simp add: st_DeleteByHash_def st_map_def Let_def)

lemma st_DeleteByHash_some:
  "st_inv s \<Longrightarrow> st_map s k = Some e \<Longrightarrow>
    \<exists>s'. st_DeleteByHash s k (getKeyHash s k) = (s', Some e) \<and> st_inv s' \<and> st_map s' = (st_map s)(k := None) \<and>
      getKeyHash s' = getKeyHash s \<and> st_any s' = st_any s"
  using st_DeleteByHash_map [of s k] st_hash_same(3) [of s k "getKeyHash s k"] st_any_same(2) [of s k "getKeyHash s k"]
  by (cases "st_DeleteByHash s k (getKeyHash s k)") auto

text \<open>The result of removing a key, with what happens to the rest of the cache.\<close>

definition removes :: "('k, 'v) Cache \<Rightarrow> 'k \<Rightarrow> ('k, 'v) Cache \<Rightarrow> bool" where
  "removes c k c' \<longleftrightarrow> data_inv c' \<and> c_map c' = (c_map c)(k := None) \<and> same_shell c c' \<and>
     c_policy c' = c_policy c \<and> c_wheel c' = c_wheel c"

lemma evictVictim_removes:
  assumes "data_inv c" "v_KeyHash v = getKeyHash (c_store c) (v_Key v)"
  shows "removes c (v_Key v) (evictVictim c v)"
proof (cases "c_map c (v_Key v)")
  case None
  then have "evictVictim c v = c"
    using assms(2) by (simp add: evictVictim_def st_DeleteByHash_none c_map_def)
  then show ?thesis using assms(1) None by (simp add: removes_def fun_upd_idem)
next
  case (Some e)
  obtain s' where s': "st_DeleteByHash (c_store c) (v_Key v) (v_KeyHash v) = (s', Some e)" "st_inv s'"
    "st_map s' = (c_map c)(v_Key v := None)" "getKeyHash s' = getKeyHash (c_store c)" "st_any s' = st_any (c_store c)"
    using st_DeleteByHash_some [of "c_store c" "v_Key v" e] Some assms by (auto simp: data_inv_def c_map_def)
  let ?d = "(drop_key c (v_Key v) s' e)\<lparr>c_metrics := addEvictedCost (eCost e) (incEviction (c_metrics c))\<rparr>"
  have "evictVictim c v = (if OnEvict (c_config c) then emit ?d (Evicted (eKey e) (eValue e) (eCost e)) else ?d)"
    using s'(1) by (simp add: evictVictim_def Let_def drop_key_def)
  then show ?thesis
    using drop_key_inv [OF assms(1) Some s'(2,3,5)] drop_key_shell [OF s'(4,5)] by (simp add: removes_def)
qed

lemma evict_all:
  assumes "data_inv c" "\<forall>v\<in>set vs. v_KeyHash v = getKeyHash (c_store c) (v_Key v)"
  shows "data_inv (foldl evictVictim c vs) \<and> c_map (foldl evictVictim c vs) = c_map c |` (- v_Key ` set vs) \<and>
    same_shell c (foldl evictVictim c vs) \<and> c_policy (foldl evictVictim c vs) = c_policy c \<and>
    c_wheel (foldl evictVictim c vs) = c_wheel c"
  using assms
proof (induction vs arbitrary: c)
  case Nil
  then show ?case by (simp add: restrict_map_def)
next
  case (Cons v vs)
  have r: "removes c (v_Key v) (evictVictim c v)" using Cons.prems by (intro evictVictim_removes) auto
  then have h: "getKeyHash (c_store (evictVictim c v)) = getKeyHash (c_store c)"
    by (simp add: removes_def same_shell_def)
  have "c_map (evictVictim c v) |` (- v_Key ` set vs) = c_map c |` (- v_Key ` set (v # vs))"
    using r by (auto simp: removes_def restrict_map_def fun_eq_iff)
  then show ?case
    using Cons.IH [of "evictVictim c v"] r Cons.prems(2) h same_shell_trans by (auto simp: removes_def)
qed

subsection \<open>Inserting a key\<close>

lemma core_tracked_hash:
  assumes "core_inv c" "map_option ti_keyHash (Policer_tracked (c_policy c) k) = Some h"
  shows "h = getKeyHash (c_store c) k"
proof -
  obtain e where e: "c_map c k = Some e" "h = eKeyHash e"
    using assms by (auto simp: core_inv_def item_of_def)
  then show ?thesis using st_map_fits [of "c_store c" k e] assms(1)
    by (simp add: core_inv_def data_inv_def c_map_def st_fits_def)
qed

lemma core_dom: "core_inv c \<Longrightarrow> dom (Policer_tracked (c_policy c)) = dom (c_map c)"
  by (auto simp: core_inv_def)

text \<open>
  A new entry: the policy chooses victims, they leave the store, and the entry is stored and
  tracked. The call returns whenever the policy does, and never rejects.
\<close>

lemma doSet_spec:
  assumes inv: "core_inv c" and e: "st_fits (c_store c) k e" "i64 (eCost e) = eCost e"
    and new: "c_map c k = None" and r: "doSet c e = Some (c', ok)"
  shows "\<exists>gone. ok \<and> core_inv c' \<and> c_map c' = (c_map c |` (- gone))(k \<mapsto> e) \<and>
    gone \<subseteq> dom (c_map c) \<and> same_shell c c' \<and>
    c_wheel c' = (if eExpireAt e > 0 then w_Schedule (c_wheel c) k (eKeyHash e) (eExpireAt e) else c_wheel c)"
proof -
  have ek: "eKey e = k" "eKeyHash e = getKeyHash (c_store c) k" using e(1) by (auto simp: st_fits_def)
  have d: "data_inv c" and pi: "Policer_inv (c_policy c)" using inv by (auto simp: core_inv_def)
  obtain pol vs added where a: "Policer_Add (c_policy c) k (eKeyHash e) (eCost e) = Some (pol, vs, added)"
    using r ek(1) by (cases "Policer_Add (c_policy c) k (eKeyHash e) (eCost e)") (auto simp: doSet_def)
  note add = po.add_accepts [OF pi a] po.inv_add [OF pi a] po.tracked_add [OF pi a]
  have vic: "v_Key v \<noteq> k" "v_KeyHash v = getKeyHash (c_store c) (v_Key v)" "v_Key v \<in> dom (c_map c)" if "v \<in> set vs" for v
    using po.add_victims(2) [OF pi a that] core_tracked_hash [OF inv] core_dom [OF inv] by auto
  define c1 where "c1 = foldl evictVictim (c\<lparr>c_policy := pol\<rparr>) vs"
  have "data_inv (c\<lparr>c_policy := pol\<rparr>)" using d by simp
  from evict_all [OF this, of vs] vic(2) have c1: "data_inv c1" "c_map c1 = c_map c |` (- v_Key ` set vs)"
    "same_shell (c\<lparr>c_policy := pol\<rparr>) c1" "c_policy c1 = pol" "c_wheel c1 = c_wheel c"
    unfolding c1_def by auto
  then have sh1: "same_shell c c1" by (simp add: same_shell_def)
  have s1: "st_inv (c_store c1)" using c1(1) by (simp add: data_inv_def)
  have f1: "st_fits (c_store c1) k e" using e(1) sh1 by (simp add: st_fits_def same_shell_def)
  note set = st_Set_map [OF s1 f1]
  have none: "c_map c1 k = None" using c1(2) new by (simp add: restrict_map_def)
  obtain store where st: "st_Set (c_store c1) e = (store, None)"
    using set(3) none by (cases "st_Set (c_store c1) e") (auto simp: c_map_def)
  have store: "st_inv store" "st_map store = (c_map c1)(k \<mapsto> e)" using set(1,2) st by (simp_all add: c_map_def)
  have sk: "getKeyHash store = getKeyHash (c_store c1)" "st_any store = st_any (c_store c1)"
    using st_hash_same(1) [of "c_store c1" e] st_any_same(1) [of "c_store c1" e] st by simp_all
  define c2 where "c2 = c1\<lparr>c_store := store, c_liveCost := i64 (c_liveCost c1 + eCost e)\<rparr>"
  define c3 where "c3 = (if eExpireAt e > 0
    then c2\<lparr>c_wheel := w_Schedule (c_wheel c2) (eKey e) (eKeyHash e) (eExpireAt e)\<rparr> else c2)"
  define c4 where "c4 = on_radix c3 (eKey e) (\<lambda>t s. radix_Insert t s (eKeyHash e))"
  have c': "c' = c4\<lparr>c_metrics := addCost (eCost e) (incSet (c_metrics c4))\<rparr>" and ok: ok
    using r a add(1) st by (auto simp: doSet_def Let_def ek(1) c1_def [symmetric] c2_def [symmetric] c3_def c4_def)
  have m: "c_map c4 = (c_map c1)(k \<mapsto> e)"
    using store(2) by (simp add: c4_def c3_def c2_def c_map_def)
  have fin: "finite (dom (c_map c1))" using s1 by (simp add: c_map_def finite_st_map)
  have "i64 (c_liveCost c1 + eCost e) = i64 (map_sum eCost ((c_map c1)(k \<mapsto> e)))"
    using c1(1) map_sum_insert [OF fin none, of eCost e] by (simp add: data_inv_def)
  moreover have "radix_ok (c_isStringKey c1) (st_any (c_store c1)) (c_map c1) (c_radix c3)"
    using c1(1) by (simp add: data_inv_def c3_def c2_def)
  then have "radix_ok (c_isStringKey c1) (st_any (c_store c1)) ((c_map c1)(k \<mapsto> e)) (c_radix c4)"
    unfolding c4_def ek(1) by (rule radix_ok_ins) (simp_all add: c3_def c2_def sk)
  ultimately have d4: "data_inv c4"
    unfolding data_inv_def m using c1(1) e(2) store(1) sk
    by (auto simp: c4_def c3_def c2_def data_inv_def)
  have p4: "c_policy c4 = pol" using c1(4) by (simp add: c4_def c3_def c2_def)
  have "Policer_tracked pol = (\<lambda>k'. map_option item_of (c_map c4 k'))"
    using inv unfolding add(3) m c1(2)
    by (auto simp: core_inv_def item_of_def restrict_map_def fun_eq_iff)
  then have "core_inv c4" using d4 p4 add(2) by (simp add: core_inv_def)
  then have "core_inv c'" unfolding c' by (simp add: core_inv_def)
  moreover have "same_shell c c4" using sh1 sk by (simp add: same_shell_def c4_def c3_def c2_def)
  moreover have "c_wheel c4 = (if eExpireAt e > 0 then w_Schedule (c_wheel c) k (eKeyHash e) (eExpireAt e) else c_wheel c)"
    using c1(5) ek(1) by (simp add: c4_def c3_def c2_def)
  ultimately show ?thesis using ok m c1(2) vic(3) unfolding c' by (intro exI [of _ "v_Key ` set vs"]) auto
qed

lemma doSet_returns:
  assumes "core_inv c" "Policer_live (c_policy c)"
  shows "doSet c e \<noteq> None"
proof -
  have "Policer_Add (c_policy c) (eKey e) (eKeyHash e) (eCost e) \<noteq> None"
    using assms by (intro po.add_returns) (auto simp: core_inv_def)
  then obtain p vs ok where "Policer_Add (c_policy c) (eKey e) (eKeyHash e) (eCost e) = Some (p, vs, ok)" by auto
  then show ?thesis by (auto simp: doSet_def Let_def split: prod.split)
qed

subsection \<open>Replacing a value\<close>

lemma tryUpdate_none:
  "c_map c k = None \<Longrightarrow> tryUpdateExisting c k v (getKeyHash (c_store c) k) cost x = (c, False)"
  by (simp add: tryUpdateExisting_def st_PeekByHash_map c_map_def)

lemma i64_diff_zero: "i64 (a - b) = 0 \<Longrightarrow> i64 a = a \<Longrightarrow> i64 b = b \<Longrightarrow> a = b"
proof -
  assume a: "i64 (a - b) = 0" "i64 a = a" "i64 b = b"
  have "i64 (i64 (a - b) + b) = i64 (a - b + b)" by (rule i64_add_left)
  then show "a = b" using a by simp
qed

lemma tryUpdate_some:
  fixes c :: "('k, 'v) Cache" and k :: 'k and v :: 'v and cost x :: int
  assumes inv: "core_inv c" and m: "c_map c k = Some old" and cost: "i64 cost = cost"
  defines "e \<equiv> \<lparr>eKey = k, eValue = v, eKeyHash = getKeyHash (c_store c) k, eExpireAt = x, eCost = cost\<rparr>"
  shows "\<exists>c'. tryUpdateExisting c k v (getKeyHash (c_store c) k) cost x = (c', True) \<and> core_inv c' \<and>
    c_map c' = (c_map c)(k \<mapsto> e) \<and> same_shell c c' \<and>
    c_wheel c' = (if x > 0 then w_Schedule (c_wheel c) k (getKeyHash (c_store c) k) x else c_wheel c)"
proof -
  let ?h = "getKeyHash (c_store c) k"
  have s: "st_inv (c_store c)" and pi: "Policer_inv (c_policy c)" using inv by (auto simp: core_inv_def data_inv_def)
  have m': "st_map (c_store c) k = Some old" using m by (simp add: c_map_def)
  obtain s' where u: "st_UpdateExistingByHash (c_store c) k ?h v cost x (OnEvict (c_config c)) =
      (s', if OnEvict (c_config c) then Some old else None, True, i64 (cost - eCost old), eExpireAt old)"
    "st_inv s'" "getKeyHash s' = getKeyHash (c_store c)" "st_map s' = (c_map c)(k \<mapsto> e)"
    using st_UpdateExistingByHash_map(2) [OF s m', of v cost x "OnEvict (c_config c)"]
    unfolding e_def c_map_def by blast
  have any: "st_any s' = st_any (c_store c)"
    using st_any_same(4) [of "c_store c" k ?h v cost x "OnEvict (c_config c)"] u(1) by simp
  define c1 where "c1 = c\<lparr>c_store := s'\<rparr>"
  define c2 where "c2 = (if i64 (cost - eCost old) \<noteq> 0
    then c1\<lparr>c_liveCost := i64 (c_liveCost c1 + i64 (cost - eCost old)),
            c_policy := Policer_Update (c_policy c1) k ?h cost\<rparr> else c1)"
  define c3 where "c3 = (if x > 0 then c2\<lparr>c_wheel := w_Schedule (c_wheel c2) k ?h x\<rparr> else c2)"
  define c4 where "c4 = c3\<lparr>c_metrics := addCost cost (incSet (c_metrics c3))\<rparr>"
  have t: "tryUpdateExisting c k v ?h cost x =
      (if OnEvict (c_config c) then emit c4 (Evicted (eKey old) (eValue old) (eCost old)) else c4, True)"
    using u(1) m' by (simp add: tryUpdateExisting_def st_PeekByHash_map Let_def c1_def [symmetric]
        c2_def [symmetric] c3_def [symmetric] c4_def [symmetric]) (simp add: c4_def c3_def c2_def c1_def)
  have map4: "c_map c4 = (c_map c)(k \<mapsto> e)" using u(4) by (simp add: c4_def c3_def c2_def c1_def c_map_def)
  have oldc: "i64 (eCost old) = eCost old" using inv m by (auto simp: core_inv_def data_inv_def)
  have eq: "i64 (cost - eCost old) = 0 \<Longrightarrow> cost = eCost old" using i64_diff_zero cost oldc by blast
  have fin: "finite (dom (c_map c))" using s by (simp add: c_map_def finite_st_map)
  have live: "c_liveCost c = i64 (map_sum eCost (c_map c))" using inv by (simp add: core_inv_def data_inv_def)
  have sum: "map_sum eCost ((c_map c)(k \<mapsto> e)) = map_sum eCost (c_map c) + (cost - eCost old)"
    using map_sum_update [OF fin m, of eCost e] by (simp add: e_def)
  have live4: "c_liveCost c4 = i64 (map_sum eCost ((c_map c)(k \<mapsto> e)))"
  proof (cases "i64 (cost - eCost old) = 0")
    case True
    then show ?thesis using eq live unfolding sum by (simp add: c4_def c3_def c2_def c1_def)
  next
    case False
    have "i64 (i64 (map_sum eCost (c_map c)) + i64 (cost - eCost old)) = i64 (map_sum eCost (c_map c) + (cost - eCost old))"
      by (simp only: i64_add_left i64_add_right)
    then show ?thesis using False live unfolding sum by (simp add: c4_def c3_def c2_def c1_def)
  qed
  have oldh: "eKeyHash old = ?h" using st_map_fits [OF s m'] by (simp add: st_fits_def)
  have "radix_ok (c_isStringKey c) (st_any (c_store c)) ((c_map c)(k \<mapsto> e)) (c_radix c)"
    by (rule radix_ok_same [of _ _ "c_map c"]) (use inv m oldh in \<open>auto simp: core_inv_def data_inv_def e_def\<close>)
  then have d4: "data_inv c4"
    unfolding data_inv_def map4 using live4 inv u(2) any cost
    by (auto simp: core_inv_def data_inv_def c4_def c3_def c2_def c1_def e_def)
  have tr: "Policer_tracked (c_policy c) = (\<lambda>k. map_option item_of (c_map c k))" using inv by (simp add: core_inv_def)
  have pol4: "Policer_inv (c_policy c4) \<and> Policer_tracked (c_policy c4) = (\<lambda>k'. map_option item_of (c_map c4 k'))"
  proof (cases "i64 (cost - eCost old) = 0")
    case True
    then have "item_of e = item_of old" using eq oldh by (simp add: item_of_def e_def)
    then show ?thesis using True pi tr m unfolding map4
      by (auto simp: c4_def c3_def c2_def c1_def fun_eq_iff)
  next
    case False
    then have "c_policy c4 = Policer_Update (c_policy c) k ?h cost" by (simp add: c4_def c3_def c2_def c1_def)
    then show ?thesis using pi tr m unfolding map4
      by (auto simp: po.inv_upd po.tracked_upd item_of_def e_def fun_eq_iff)
  qed
  have "core_inv c4" using d4 pol4 by (simp add: core_inv_def)
  moreover have "same_shell c c4" using u(3) any by (simp add: same_shell_def c4_def c3_def c2_def c1_def)
  moreover have "c_wheel c4 = (if x > 0 then w_Schedule (c_wheel c) k ?h x else c_wheel c)"
    by (simp add: c4_def c3_def c2_def c1_def)
  ultimately show ?thesis using map4 unfolding t by (auto simp: core_inv_def)
qed

subsection \<open>The write paths\<close>

text \<open>
  A synchronous set: afterwards the key maps to the new entry; other keys are as they were, or
  have been evicted, and eviction happens only for a key that was not there.
\<close>

lemma setSync_spec:
  fixes c :: "('k, 'v) Cache" and k :: 'k and v :: 'v and cost x :: int
  assumes inv: "core_inv c" and cost: "i64 cost = cost"
    and r: "setSync c k v (getKeyHash (c_store c) k) cost x = Some (c', ok)"
  defines "e \<equiv> \<lparr>eKey = k, eValue = v, eKeyHash = getKeyHash (c_store c) k, eExpireAt = x, eCost = cost\<rparr>"
  shows "\<exists>gone. ok \<and> core_inv c' \<and> c_map c' = (c_map c |` (- gone))(k \<mapsto> e) \<and>
    gone \<subseteq> dom (c_map c) \<and> (k \<in> dom (c_map c) \<longrightarrow> gone = {}) \<and> same_shell c c' \<and>
    c_wheel c' = (if x > 0 then w_Schedule (c_wheel c) k (getKeyHash (c_store c) k) x else c_wheel c)"
proof (cases "c_map c k")
  case None
  have "doSet c e = Some (c', ok)" using r tryUpdate_none [OF None, of v cost x] by (simp add: setSync_def e_def)
  moreover have "st_fits (c_store c) k e" "i64 (eCost e) = eCost e" using cost by (simp_all add: e_def st_fits_def)
  ultimately obtain gone where "ok" "core_inv c'" "c_map c' = (c_map c |` (- gone))(k \<mapsto> e)"
    "gone \<subseteq> dom (c_map c)" "same_shell c c'"
    "c_wheel c' = (if eExpireAt e > 0 then w_Schedule (c_wheel c) k (eKeyHash e) (eExpireAt e) else c_wheel c)"
    using doSet_spec [OF inv _ _ None] by blast
  then show ?thesis using None by (intro exI [of _ gone]) (auto simp: e_def)
next
  case (Some old)
  obtain c1 where c1: "tryUpdateExisting c k v (getKeyHash (c_store c) k) cost x = (c1, True)" "core_inv c1"
    "c_map c1 = (c_map c)(k \<mapsto> e)" "same_shell c c1"
    "c_wheel c1 = (if x > 0 then w_Schedule (c_wheel c) k (getKeyHash (c_store c) k) x else c_wheel c)"
    using tryUpdate_some [OF inv Some cost] unfolding e_def by blast
  then have "c' = c1" "ok" using r by (simp_all add: setSync_def)
  then show ?thesis using c1 by (intro exI [of _ "{}"]) (auto simp: restrict_map_def)
qed

lemma setSync_returns:
  assumes "core_inv c" "Policer_live (c_policy c)" "i64 cost = cost"
  shows "setSync c k v (getKeyHash (c_store c) k) cost x \<noteq> None"
proof (cases "c_map c k")
  case None
  then show ?thesis using tryUpdate_none [OF None] doSet_returns [OF assms(1,2)] by (simp add: setSync_def)
next
  case (Some old)
  then show ?thesis using tryUpdate_some [OF assms(1) Some assms(3), of v x] by (auto simp: setSync_def)
qed

lemma doDelete_spec:
  fixes c :: "('k, 'v) Cache" and k :: 'k
  assumes inv: "core_inv c"
  defines "r \<equiv> doDelete c k (getKeyHash (c_store c) k)"
  shows "core_inv (fst r) \<and> c_map (fst r) = (c_map c)(k := None) \<and> snd r = (c_map c k \<noteq> None) \<and>
    same_shell c (fst r) \<and> c_wheel (fst r) = c_wheel c"
proof (cases "c_map c k")
  case None
  then have "r = (c, False)" by (simp add: r_def doDelete_def st_DeleteByHash_none c_map_def)
  then show ?thesis using inv None by (simp add: fun_upd_idem)
next
  case (Some e)
  have d: "data_inv c" and pi: "Policer_inv (c_policy c)" using inv by (auto simp: core_inv_def)
  obtain s' where s': "st_DeleteByHash (c_store c) k (getKeyHash (c_store c) k) = (s', Some e)" "st_inv s'"
    "st_map s' = (c_map c)(k := None)" "getKeyHash s' = getKeyHash (c_store c)" "st_any s' = st_any (c_store c)"
    using st_DeleteByHash_some [of "c_store c" k e] Some d by (auto simp: data_inv_def c_map_def)
  let ?p = "Policer_Del (c_policy c) k (getKeyHash (c_store c) k)"
  have comm: "radix_del (c0\<lparr>c_policy := ?p\<rparr>) k = (radix_del c0 k)\<lparr>c_policy := ?p\<rparr>" for c0 :: "('k, 'v) Cache"
    by (simp add: radix_del_def on_radix_def split: option.split)
  have r: "r = ((drop_key c k s' e)\<lparr>c_policy := ?p, c_metrics := incDelete (c_metrics c)\<rparr>, True)"
    using s'(1) by (simp add: r_def doDelete_def Let_def drop_key_def comm)
  note dk = drop_key_inv [OF d Some s'(2,3,5)]
  have "Policer_tracked ?p = (\<lambda>k'. map_option item_of (((c_map c)(k := None)) k'))"
    using inv by (auto simp: core_inv_def po.tracked_del fun_eq_iff)
  then show ?thesis
    unfolding r using dk pi Some drop_key_shell [OF s'(4,5)] by (simp add: core_inv_def po.inv_del)
qed

end
