(* ===== verification/CacheOps.thy ===== *)
theory CacheOps
  imports CacheInv
begin

text \<open>
  What the public operations of \<open>cache.go\<close> do, in terms of the map of the cache: reads, buffered
  and synchronous writes, the flushers, expiration, \<open>Clear\<close> and \<open>Close\<close>.
\<close>

subsection \<open>Reads\<close>

lemma lossy_Push_spec:
  assumes "rb_inv rb" "0 < rb_room rb"
  shows "\<exists>rb' b taken. lossy_Push n rb x = Some (rb', b, taken) \<and> rb_inv rb' \<and>
    rb_queue rb' = (if taken then rb_queue rb @ [x] else rb_queue rb) \<and>
    (taken \<longleftrightarrow> length (rb_queue rb) < rb_Cap rb)"
proof (cases "length (rb_queue rb) < rb_Cap rb")
  case True
  obtain rb' where "rb_Push rb x = Some (rb', True)" "rb_inv rb'" "rb_queue rb' = rb_queue rb @ [x]"
    using rb_push_room [OF assms(1) True assms(2), of x] by blast
  then show ?thesis using True
    by (intro exI [of _ rb'] exI [of _ "rb_Len rb' \<ge> n"] exI [of _ True]) (simp add: lossy_Push_def)
next
  case False
  then have "length (rb_queue rb) = rb_Cap rb" using rq.cap_queue [OF assms(1)] by simp
  then show ?thesis using rb_push_full [OF assms(1), of x] assms(1) by (auto simp: lossy_Push_def)
qed

definition read_ok :: "('k, 'v) Cache \<Rightarrow> bool" where
  "read_ok c \<longleftrightarrow> (case c_readBuffer c of None \<Rightarrow> True | Some rb \<Rightarrow> rb_inv rb \<and> 0 < rb_room rb)"

lemma recordAccess_spec:
  assumes "core_inv c" "read_ok c"
  shows "\<exists>c'. recordAccess c h = Some c' \<and> core_inv c' \<and> c_store c' = c_store c \<and> c_closed c' = c_closed c \<and>
    c_wheel c' = c_wheel c \<and> c_config c' = c_config c \<and> c_writeBuffer c' = c_writeBuffer c \<and> c_metrics c' = c_metrics c \<and>
    c_liveCost c' = c_liveCost c \<and> c_events c' = c_events c"
proof (cases "shouldTrackAccess c")
  case False
  then show ?thesis using assms(1) by (simp add: recordAccess_def)
next
  case True
  show ?thesis
  proof (cases "c_readBuffer c")
    case None
    have "core_inv (c\<lparr>c_policy := Policer_Access (c_policy c) h\<rparr>)"
      using assms(1) by (simp add: core_inv_def po.inv_access po.tracked_access)
    then show ?thesis using True None by (simp add: recordAccess_def)
  next
    case (Some rb)
    then obtain rb' b taken where "lossy_Push 64 rb h = Some (rb', b, taken)"
      using assms(2) lossy_Push_spec [of rb 64 h] by (auto simp: read_ok_def)
    moreover have "core_inv (c\<lparr>c_readBuffer := Some rb'\<rparr>)" using assms(1) by (simp add: core_inv_def)
    ultimately show ?thesis using True Some by (simp add: recordAccess_def)
  qed
qed

text \<open>What a reader sees: the value of the key, unless it has expired or the cache is closed.\<close>

definition visible :: "('k, 'v) Cache \<Rightarrow> int \<Rightarrow> 'k \<Rightarrow> 'v option" where
  "visible c now k =
     (if c_closed c then None
      else case c_map c k of
             None \<Rightarrow> None
           | Some e \<Rightarrow> if IsExpired e now then None else Some (eValue e))"

lemma core_inv_metrics [simp]: "core_inv (c\<lparr>c_metrics := m\<rparr>) = core_inv c"
  by (simp add: core_inv_def)

lemma c_Get_spec:
  assumes "core_inv c" "read_ok c"
  shows "\<exists>c'. c_Get c now k = Some (c', visible c now k) \<and> core_inv c' \<and> c_store c' = c_store c \<and> c_closed c' = c_closed c"
proof -
  have g: "st_GetByHash (c_store c) now k (c_KeyHash c k) =
      (case c_map c k of None \<Rightarrow> None | Some e \<Rightarrow> if IsExpired e now then None else Some e)"
    by (simp add: c_KeyHash_def c_map_def st_GetByHash_map)
  obtain c1 where "recordAccess c (c_KeyHash c k) = Some c1" "core_inv c1" "c_store c1 = c_store c" "c_closed c1 = c_closed c"
    using recordAccess_spec [OF assms] by blast
  then show ?thesis using assms(1) g
    by (auto simp: c_Get_def visible_def Let_def split: option.split)
qed

lemma c_Has_visible: "c_Has c now k \<longleftrightarrow> visible c now k \<noteq> None"
  by (auto simp: c_Has_def visible_def st_Has_def st_Get_ByHash st_GetByHash_map c_map_def split: option.split)

lemma c_Len_card: "core_inv c \<Longrightarrow> c_Len c = i64 (int (card (dom (c_map c))))"
  by (simp add: c_Len_def c_map_def core_inv_def data_inv_def ss.size_card)

subsection \<open>The effect of a write on the map\<close>

text \<open>
  The entry that a set stores: the cost falls back to the cost function or 1, the time to live
  to the default.
\<close>

definition set_cost :: "('k, 'v) config \<Rightarrow> 'v \<Rightarrow> int \<Rightarrow> int" where
  "set_cost cfg v cost =
     (if cost \<le> 0 then (case CostFunc cfg of Some f \<Rightarrow> f v | None \<Rightarrow> 1) else cost)"

definition set_expiry :: "('k, 'v) config \<Rightarrow> int \<Rightarrow> int \<Rightarrow> int" where
  "set_expiry cfg now ttl =
     (let ttl = (if ttl \<le> 0 \<and> DefaultTTL cfg > 0 then DefaultTTL cfg else ttl)
      in if ttl > 0 then i64 (now + ttl) else 0)"

definition set_entry :: "('k, 'v) Cache \<Rightarrow> int \<Rightarrow> 'k \<Rightarrow> 'v \<Rightarrow> int \<Rightarrow> int \<Rightarrow> ('k, 'v) Entry" where
  "set_entry c now k v cost ttl =
     \<lparr>eKey = k, eValue = v, eKeyHash = c_KeyHash c k, eExpireAt = set_expiry (c_config c) now ttl,
      eCost = set_cost (c_config c) v cost\<rparr>"

lemma c_SetWithCost_sync:
  assumes "c_writeBuffer c = None" "\<not> c_closed c"
  shows "c_SetWithCost yields c now k v cost ttl =
    setSync c k v (getKeyHash (c_store c) k) (set_cost (c_config c) v cost) (set_expiry (c_config c) now ttl)"
  using assms by (simp add: c_SetWithCost_def set_cost_def set_expiry_def c_KeyHash_def Let_def)

lemma c_SetWithCost_spec:
  assumes "core_inv c" "c_writeBuffer c = None" "\<not> c_closed c"
    "i64 (set_cost (c_config c) v cost) = set_cost (c_config c) v cost"
    "c_SetWithCost yields c now k v cost ttl = Some (c', ok)"
  shows "\<exists>gone. ok \<and> core_inv c' \<and> c_map c' = (c_map c |` (- gone))(k \<mapsto> set_entry c now k v cost ttl) \<and>
    gone \<subseteq> dom (c_map c) \<and> (k \<in> dom (c_map c) \<longrightarrow> gone = {}) \<and> same_shell c c'"
  using setSync_spec [OF assms(1,4), of k v "set_expiry (c_config c) now ttl" c' ok] assms(5)
  by (auto simp: c_SetWithCost_sync [OF assms(2,3)] set_entry_def c_KeyHash_def)

subsection \<open>Pending writes\<close>

text \<open>A pending write carries its key's hash and a 64-bit cost.\<close>

definition write_ok :: "('k, 'v) Cache \<Rightarrow> ('k, 'v) writeItem \<Rightarrow> bool" where
  "write_ok c item \<longleftrightarrow> eKeyHash (wi_entry item) = getKeyHash (c_store c) (eKey (wi_entry item)) \<and>
     i64 (eCost (wi_entry item)) = eCost (wi_entry item)"

lemma write_ok_shell: "same_shell c c' \<Longrightarrow> write_ok c' = write_ok c"
  by (simp add: write_ok_def same_shell_def fun_eq_iff)

text \<open>One write: its own key ends up as written; a deletion touches no other key.\<close>

lemma processWrite_spec:
  assumes "core_inv c" "write_ok c item" "processWrite c item = Some c'"
  shows "core_inv c'" "same_shell c c'"
    "c_map c' (eKey (wi_entry item)) = (if wi_isSet item then Some (wi_entry item) else None)"
    "k \<noteq> eKey (wi_entry item) \<Longrightarrow> c_map c' k = c_map c k \<or> c_map c' k = None"
proof -
  let ?e = "wi_entry item" and ?k = "eKey (wi_entry item)"
  have h: "eKeyHash ?e = getKeyHash (c_store c) ?k" "i64 (eCost ?e) = eCost ?e" using assms(2) by (auto simp: write_ok_def)
  have all: "core_inv c' \<and> same_shell c c' \<and> c_map c' ?k = (if wi_isSet item then Some ?e else None) \<and>
      (k \<noteq> ?k \<longrightarrow> c_map c' k = c_map c k \<or> c_map c' k = None)" for k
  proof (cases "wi_isSet item")
    case True
    then obtain ok where s: "setSync c ?k (eValue ?e) (getKeyHash (c_store c) ?k) (eCost ?e) (eExpireAt ?e) = Some (c', ok)"
      using assms(3) h(1) by (auto simp: processWrite_def Let_def)
    have e: "\<lparr>eKey = ?k, eValue = eValue ?e, eKeyHash = getKeyHash (c_store c) ?k, eExpireAt = eExpireAt ?e, eCost = eCost ?e\<rparr> = ?e"
      using h(1) by (cases ?e) simp
    from setSync_spec [OF assms(1) h(2) s] obtain gone where "core_inv c'" "c_map c' = (c_map c |` (- gone))(?k \<mapsto> ?e)" "same_shell c c'"
      unfolding e by blast
    then show ?thesis using True by (auto simp: restrict_map_def)
  next
    case False
    then have "c' = fst (doDelete c ?k (getKeyHash (c_store c) ?k))" using assms(3) h(1) by (simp add: processWrite_def Let_def)
    then show ?thesis using doDelete_spec [OF assms(1), of ?k] False by auto
  qed
  show "core_inv c'" "same_shell c c'"
    "c_map c' (eKey (wi_entry item)) = (if wi_isSet item then Some (wi_entry item) else None)"
    using all [of ?k] by simp_all
  show "k \<noteq> eKey (wi_entry item) \<Longrightarrow> c_map c' k = c_map c k \<or> c_map c' k = None" using all [of k] by simp
qed

lemma foldM_append: "foldM f a (xs @ ys) = Option.bind (foldM f a xs) (\<lambda>a. foldM f a ys)"
  by (induction xs arbitrary: a) (auto intro: Option.bind_cong)

lemma foldM_concat: "foldM (foldM f) a xss = foldM f a (concat xss)"
  by (induction xss arbitrary: a) (auto simp: foldM_append intro: Option.bind_cong)

lemma processWrites_spec:
  assumes "core_inv c" "\<forall>x\<in>set items. write_ok c x" "foldM processWrite c items = Some c'"
  shows "core_inv c' \<and> same_shell c c' \<and>
    (items \<noteq> [] \<longrightarrow> c_map c' (eKey (wi_entry (last items))) =
       (if wi_isSet (last items) then Some (wi_entry (last items)) else None))"
  using assms
proof (induction items arbitrary: c)
  case (Cons x items)
  then obtain c1 where c1: "processWrite c x = Some c1" "foldM processWrite c1 items = Some c'"
    by (auto simp: bind_eq_Some_conv)
  note p = processWrite_spec [OF Cons.prems(1) _ c1(1)]
  have x: "write_ok c x" using Cons.prems(2) by simp
  have "\<forall>y\<in>set items. write_ok c1 y" using Cons.prems(2) write_ok_shell [OF p(2) [OF x]] by simp
  note ih = Cons.IH [OF p(1) [OF x] this c1(2)]
  show ?case
  proof (cases "items = []")
    case True
    then show ?thesis using p [OF x] c1(2) by simp
  next
    case False
    then show ?thesis using ih same_shell_trans [OF p(2) [OF x]] by simp
  qed
qed simp

text \<open>Draining the write buffer applies exactly the queued writes, in the order they were pushed.\<close>

lemma c_drainWrites_queue:
  assumes "c_writeBuffer c = Some rb" "rb_inv rb"
  shows "\<exists>rb'. rb_inv rb' \<and> rb_queue rb' = [] \<and> rb_room rb' = rb_room rb \<and>
    c_drainWrites c = foldM processWrite (c\<lparr>c_writeBuffer := Some rb'\<rparr>) (rb_queue rb)"
proof -
  obtain rb' bs where f: "flushAll (BufferItems (c_config c)) rb [] = Some (rb', bs)" "rb_inv rb'" "rb_queue rb' = []"
    "concat bs = rb_queue rb" "rb_room rb' = rb_room rb" using flushAll_spec [OF assms(2), of "BufferItems (c_config c)" "[]"] by auto
  have pb: "processWriteBatch = foldM processWrite" by (simp add: processWriteBatch_def fun_eq_iff)
  have "c_drainWrites c = foldM (foldM processWrite) (c\<lparr>c_writeBuffer := Some rb'\<rparr>) bs"
    using assms(1) f(1) by (simp add: c_drainWrites_def pb)
  then have "c_drainWrites c = foldM processWrite (c\<lparr>c_writeBuffer := Some rb'\<rparr>) (rb_queue rb)"
    by (simp only: foldM_concat f(4))
  then show ?thesis using f by blast
qed

text \<open>
  A push onto a ring with room only queues the write; a push onto a full ring that is never
  flushed meanwhile fails and leaves the queue as it is.
\<close>

lemma c_pushWrite_room:
  assumes "c_writeBuffer c = Some rb" "rb_inv rb" "length (rb_queue rb) < rb_Cap rb" "0 < rb_room rb"
  shows "\<exists>rb'. c_pushWrite yields c item = Some (c\<lparr>c_writeBuffer := Some rb'\<rparr>, True) \<and> rb_inv rb' \<and>
    rb_queue rb' = rb_queue rb @ [item]"
  using rb_push_room [OF assms(2-4), of item] assms(1) by (auto simp: c_pushWrite_def)

lemma retry_push_full:
  assumes "c_writeBuffer c = Some rb" "rb_inv rb" "length (rb_queue rb) = rb_Cap rb" "\<forall>y\<in>set ys. \<not> y"
  shows "retry_push c item ys = Some (c, False)"
  using assms(4)
proof (induction ys)
  case (Cons y ys)
  have e: "c\<lparr>c_writeBuffer := Some rb\<rparr> = c" using assms(1) by simp
  show ?case using Cons rb_push_full [OF assms(2,3), of item] assms(1) by (auto simp: e)
qed simp

lemma c_pushWrite_full:
  assumes "c_writeBuffer c = Some rb" "rb_inv rb" "length (rb_queue rb) = rb_Cap rb" "\<And>i. \<not> yields i"
  shows "c_pushWrite yields c item = Some (c, False)"
proof -
  have e: "c\<lparr>c_writeBuffer := Some rb\<rparr> = c" using assms(1) by simp
  show ?thesis
    using rb_push_full [OF assms(2,3), of item] assms(1) retry_push_full [OF assms(1-3), of "map yields [0..<100]" item] assms(4)
    by (simp add: c_pushWrite_def e)
qed

end
