(* ===== verification/CacheExpiry.thy ===== *)
theory CacheExpiry
  imports CacheOps
begin

text \<open>
  Background expiration: the expiration worker drains the timing wheel and deletes the entries
  whose stored expiration is still the scheduled one. The invariant of the wheel is that every
  entry with an expiration is scheduled; a sweep removes every entry that is overdue by a tick.
\<close>

definition expire_hit :: "int \<Rightarrow> ('k, 'v) Cache \<Rightarrow> 'k ExpiryWheelEntry \<Rightarrow> bool" where
  "expire_hit now c x \<longleftrightarrow>
     (case c_map c (w_Key x) of None \<Rightarrow> False | Some e \<Rightarrow> eExpireAt e = w_ExpireAt x \<and> IsExpired e now)"

lemma st_DeleteIfExpired_none:
  assumes "st_inv s" "\<not> (\<exists>e. st_map s k = Some e \<and> eExpireAt e = x \<and> IsExpired e now)"
  shows "st_DeleteIfExpired s k (getKeyHash s k) x now = (s, None)"
  using assms(2) by (auto simp: st_DeleteIfExpired_def st_map_def Let_def IsExpired_def split: option.split)

lemma st_DeleteIfExpired_some:
  assumes "st_inv s" "st_map s k = Some e" "eExpireAt e = x" "IsExpired e now"
  shows "\<exists>s'. st_DeleteIfExpired s k (getKeyHash s k) x now = (s', Some e) \<and> st_inv s' \<and>
    st_map s' = (st_map s)(k := None) \<and> getKeyHash s' = getKeyHash s \<and> st_any s' = st_any s"
  using st_DeleteIfExpired_map [OF assms(1), of k x now] assms(2-4)
    st_hash_same(5) [of s k "getKeyHash s k" x now] st_any_same(3) [of s k "getKeyHash s k" x now]
  by (cases "st_DeleteIfExpired s k (getKeyHash s k) x now") auto

lemma expire_item_spec:
  fixes c :: "('k, 'v) Cache"
  assumes inv: "core_inv c" and h: "w_KeyHash x = getKeyHash (c_store c) (w_Key x)"
  shows "core_inv (expire_item now c x) \<and> same_shell c (expire_item now c x) \<and>
    c_wheel (expire_item now c x) = c_wheel c \<and>
    c_map (expire_item now c x) = (if expire_hit now c x then (c_map c)(w_Key x := None) else c_map c)"
proof (cases "expire_hit now c x")
  case False
  have s: "st_inv (c_store c)" using inv by (simp add: core_inv_def data_inv_def)
  have n: "\<not> (\<exists>e. st_map (c_store c) (w_Key x) = Some e \<and> eExpireAt e = w_ExpireAt x \<and> IsExpired e now)"
    using False by (auto simp: expire_hit_def c_map_def)
  have "st_DeleteIfExpired (c_store c) (w_Key x) (w_KeyHash x) (w_ExpireAt x) now = (c_store c, None)"
    using st_DeleteIfExpired_none [OF s n] h by simp
  then have "expire_item now c x = c" by (simp add: expire_item_def)
  then show ?thesis using inv False by simp
next
  case True
  then obtain e where e: "c_map c (w_Key x) = Some e" "eExpireAt e = w_ExpireAt x" "IsExpired e now"
    by (auto simp: expire_hit_def split: option.splits)
  have d: "data_inv c" and pi: "Policer_inv (c_policy c)" and s: "st_inv (c_store c)"
    using inv by (auto simp: core_inv_def data_inv_def)
  obtain s' where s': "st_DeleteIfExpired (c_store c) (w_Key x) (w_KeyHash x) (w_ExpireAt x) now = (s', Some e)"
    "st_inv s'" "st_map s' = (c_map c)(w_Key x := None)" "getKeyHash s' = getKeyHash (c_store c)" "st_any s' = st_any (c_store c)"
    using st_DeleteIfExpired_some [OF s, of "w_Key x" e "w_ExpireAt x" now] e h by (auto simp: c_map_def)
  have ek: "eKey e = w_Key x" using st_map_fits [OF s, of "w_Key x" e] e(1) by (simp add: c_map_def st_fits_def)
  let ?p = "Policer_Del (c_policy c) (eKey e) (eKeyHash e)"
  have comm: "radix_del (c0\<lparr>c_policy := ?p\<rparr>) k = (radix_del c0 k)\<lparr>c_policy := ?p\<rparr>" for c0 :: "('k, 'v) Cache" and k
    by (simp add: radix_del_def on_radix_def split: option.split)
  let ?d = "(drop_key c (w_Key x) s' e)\<lparr>c_policy := ?p, c_metrics := incExpiration (c_metrics c)\<rparr>"
  have "c\<lparr>c_store := s', c_liveCost := l, c_policy := ?p\<rparr> = c\<lparr>c_store := s', c_liveCost := l\<rparr>\<lparr>c_policy := ?p\<rparr>" for l
    by simp
  then have r: "expire_item now c x = (if OnExpire (c_config c) then emit ?d (Expired (eKey e) (eValue e)) else ?d)"
    using s'(1) by (simp add: expire_item_def Let_def drop_key_def comm)
  note dk = drop_key_inv [OF d e(1) s'(2,3,5)]
  have "Policer_tracked ?p = (\<lambda>k'. map_option item_of (((c_map c)(w_Key x := None)) k'))"
    using inv by (auto simp: core_inv_def po.tracked_del fun_eq_iff ek)
  then have "core_inv ?d" using dk pi by (simp add: core_inv_def po.inv_del)
  then show ?thesis
    unfolding r using dk True drop_key_shell [OF s'(4,5), of "w_Key x" e] by (simp add: core_inv_def)
qed

lemma expire_fold:
  assumes "core_inv c" "\<forall>x\<in>set xs. w_KeyHash x = getKeyHash (c_store c) (w_Key x)"
  shows "core_inv (foldl (expire_item now) c xs) \<and> same_shell c (foldl (expire_item now) c xs) \<and>
    c_wheel (foldl (expire_item now) c xs) = c_wheel c \<and>
    c_map (foldl (expire_item now) c xs) = c_map c |` {k. \<not> (\<exists>x\<in>set xs. w_Key x = k \<and> expire_hit now c x)}"
  using assms
proof (induction xs arbitrary: c)
  case Nil
  then show ?case by (simp add: restrict_map_def)
next
  case (Cons x xs)
  let ?c = "expire_item now c x"
  have s: "core_inv ?c" "same_shell c ?c" "c_wheel ?c = c_wheel c"
    "c_map ?c = (if expire_hit now c x then (c_map c)(w_Key x := None) else c_map c)"
    using expire_item_spec [OF Cons.prems(1), of x now] Cons.prems(2) by auto
  have h: "\<forall>x\<in>set xs. w_KeyHash x = getKeyHash (c_store ?c) (w_Key x)"
    using Cons.prems(2) s(2) by (simp add: same_shell_def)
  have hit: "expire_hit now ?c y \<longleftrightarrow> expire_hit now c y \<and> \<not> (w_Key y = w_Key x \<and> expire_hit now c x)" for y
    using s(4) by (auto simp: expire_hit_def split: option.splits)
  have "c_map ?c |` {k. \<not> (\<exists>y\<in>set xs. w_Key y = k \<and> expire_hit now ?c y)} =
      c_map c |` {k. \<not> (\<exists>y\<in>set (x # xs). w_Key y = k \<and> expire_hit now c y)}"
    unfolding hit using s(4) by (auto simp: restrict_map_def fun_eq_iff)
  then show ?case using Cons.IH [OF s(1) h] s(2,3) same_shell_trans by auto
qed

text \<open>Every entry that expires is scheduled, and what is scheduled carries its key's hash.\<close>

definition wheel_inv :: "('k, 'v) Cache \<Rightarrow> bool" where
  "wheel_inv c \<longleftrightarrow>
     w_inv (c_wheel c) \<and>
     (\<forall>x\<in>#w_pending (c_wheel c). w_KeyHash x = getKeyHash (c_store c) (w_Key x)) \<and>
     (\<forall>k e. c_map c k = Some e \<longrightarrow> 0 < eExpireAt e \<longrightarrow>
        \<lparr>w_Key = k, w_KeyHash = getKeyHash (c_store c) k, w_ExpireAt = eExpireAt e\<rparr> \<in># w_pending (c_wheel c))"

lemma c_removeExpired_spec:
  assumes inv: "core_inv c" and w: "wheel_inv c" and now: "0 \<le> now"
  shows "core_inv (c_removeExpired c now)" "same_shell c (c_removeExpired c now)"
    "c_map (c_removeExpired c now) k = Some e \<Longrightarrow>
       c_map c k = Some e \<and> (eExpireAt e \<le> 0 \<or> now - w_resolution (c_wheel c) < eExpireAt e)"
    "c_map c k = Some e \<Longrightarrow> \<not> IsExpired e now \<Longrightarrow> c_map (c_removeExpired c now) k = Some e"
    "w_resolution (c_wheel (c_removeExpired c now)) = w_resolution (c_wheel c)"
    "\<forall>k e. c_map c k = Some e \<longrightarrow> eExpireAt e \<noteq> now \<Longrightarrow> wheel_inv (c_removeExpired c now)"
proof -
  have wi: "w_inv (c_wheel c)" using w by (simp add: wheel_inv_def)
  obtain w' xs where a: "w_Advance (c_wheel c) now = (w', xs)" "w_inv w'" "w_resolution w' = w_resolution (c_wheel c)"
    "\<forall>y\<in>set xs. w_ExpireAt y \<le> now" "mset xs + w_pending w' = w_pending (c_wheel c)"
    using w_Advance_spec [OF wi now] by blast
  let ?c1 = "c\<lparr>c_wheel := w'\<rparr>" and ?c' = "c_removeExpired c now"
  have c': "?c' = foldl (expire_item now) ?c1 xs" using a(1) by (simp add: c_removeExpired_def)
  have sub: "x \<in># w_pending (c_wheel c)" if "x \<in> set xs" for x
    using that a(5) by (metis UnCI set_mset_mset set_mset_union)
  have h: "\<forall>x\<in>set xs. w_KeyHash x = getKeyHash (c_store ?c1) (w_Key x)"
    using sub w by (auto simp: wheel_inv_def)
  have "core_inv ?c1" using inv by (simp add: core_inv_def)
  note f = expire_fold [OF this h, of now, folded c']
  have hit: "expire_hit now ?c1 x = expire_hit now c x" for x by (simp add: expire_hit_def)
  have m: "c_map ?c' = c_map c |` {k. \<not> (\<exists>x\<in>set xs. w_Key x = k \<and> expire_hit now c x)}"
    using f by (simp add: hit)
  show "core_inv ?c'" using f by simp
  show sh: "same_shell c ?c'" using f same_shell_trans [of c ?c1 ?c'] by simp
  show res: "w_resolution (c_wheel ?c') = w_resolution (c_wheel c)" using f a(3) by simp
  let ?x = "\<lambda>k e. \<lparr>w_Key = k, w_KeyHash = getKeyHash (c_store c) k, w_ExpireAt = eExpireAt e\<rparr>"
  have sched: "?x k e \<in> set xs \<or> ?x k e \<in># w_pending w'" if "c_map c k = Some e" "0 < eExpireAt e" for k e
  proof -
    have "?x k e \<in># w_pending (c_wheel c)" using that w unfolding wheel_inv_def by blast
    then show ?thesis using a(5) by (metis Un_iff set_mset_mset set_mset_union)
  qed
  have kept: "?x k e \<in># w_pending w' \<or> eExpireAt e = now" if "c_map ?c' k = Some e" "0 < eExpireAt e" for k e
  proof (rule ccontr)
    assume n: "\<not> ?thesis"
    have ck: "c_map c k = Some e" using that(1) m by (auto simp: restrict_map_def split: if_splits)
    then have x: "?x k e \<in> set xs" using sched that(2) n by blast
    then have "eExpireAt e \<le> now" using a(4) by fastforce
    then have "IsExpired e now" using n that(2) by (simp add: IsExpired_def)
    then have "expire_hit now c (?x k e)" using ck by (simp add: expire_hit_def)
    then have "\<exists>x\<in>set xs. w_Key x = k \<and> expire_hit now c x" using x by force
    then show False using that(1) m by (auto simp: restrict_map_def split: if_splits)
  qed
  show "c_map c k = Some e \<and> (eExpireAt e \<le> 0 \<or> now - w_resolution (c_wheel c) < eExpireAt e)"
    if "c_map ?c' k = Some e"
  proof
    show "c_map c k = Some e" using that m by (auto simp: restrict_map_def split: if_splits)
    have r: "0 < w_resolution (c_wheel c)" using wi by (simp add: w_inv_def w_placed_def)
    show "eExpireAt e \<le> 0 \<or> now - w_resolution (c_wheel c) < eExpireAt e"
    proof (cases "0 < eExpireAt e")
      case True
      from kept [OF that this] show ?thesis
        using wq.left_not_due [OF wi now, of "?x k e"] a(1) r by auto
    qed simp
  qed
  show "c_map ?c' k = Some e" if "c_map c k = Some e" "\<not> IsExpired e now"
  proof -
    have "\<not> expire_hit now c x" if "w_Key x = k" for x using that \<open>c_map c k = Some e\<close> \<open>\<not> IsExpired e now\<close>
      by (auto simp: expire_hit_def)
    then show ?thesis using that(1) m by (auto simp: restrict_map_def)
  qed
  assume nonow: "\<forall>k e. c_map c k = Some e \<longrightarrow> eExpireAt e \<noteq> now"
  have "getKeyHash (c_store ?c') = getKeyHash (c_store c)" using sh by (simp add: same_shell_def)
  moreover have "c_wheel ?c' = w'" using f by simp
  moreover have "x \<in># w_pending (c_wheel c)" if "x \<in># w_pending w'" for x
    using that a(5) by (metis UnCI set_mset_union)
  moreover have "c_map c k = Some e" if "c_map ?c' k = Some e" for k e
    using that m by (auto simp: restrict_map_def split: if_splits)
  ultimately show "wheel_inv ?c'"
    using a(2) w kept nonow unfolding wheel_inv_def by metis
qed

text \<open>
  An entry that no pending item stands for is never removed by the worker: only a read hides it.
\<close>

lemma unscheduled_stays:
  assumes inv: "core_inv c" and wi: "w_inv (c_wheel c)" and now: "0 \<le> now"
    and hash: "\<forall>x\<in>#w_pending (c_wheel c). w_KeyHash x = getKeyHash (c_store c) (w_Key x)"
    and m: "c_map c k = Some e" and un: "\<forall>x\<in>#w_pending (c_wheel c). w_Key x = k \<longrightarrow> w_ExpireAt x \<noteq> eExpireAt e"
  shows "c_map (c_removeExpired c now) k = Some e"
proof -
  obtain w' xs where a: "w_Advance (c_wheel c) now = (w', xs)" "mset xs + w_pending w' = w_pending (c_wheel c)"
    using w_Advance_spec [OF wi now] by blast
  let ?c1 = "c\<lparr>c_wheel := w'\<rparr>"
  have sub: "x \<in># w_pending (c_wheel c)" if "x \<in> set xs" for x
    using that a(2) by (metis UnCI set_mset_mset set_mset_union)
  have h: "\<forall>x\<in>set xs. w_KeyHash x = getKeyHash (c_store ?c1) (w_Key x)" using sub hash by auto
  have "core_inv ?c1" using inv by (simp add: core_inv_def)
  note f = expire_fold [OF this h, of now]
  have "\<not> expire_hit now ?c1 x" if "x \<in> set xs" "w_Key x = k" for x
    using sub [OF that(1)] that(2) un m by (auto simp: expire_hit_def)
  then show ?thesis using f m a(1) by (auto simp: c_removeExpired_def restrict_map_def)
qed

subsection \<open>Sets keep the schedule complete\<close>

text \<open>An expiration time that can be scheduled: after the wheel's tick and within range.\<close>

definition schedulable :: "('k, 'v) Cache \<Rightarrow> int \<Rightarrow> bool" where
  "schedulable c x \<longleftrightarrow> x \<le> 0 \<or>
     (x < 2 ^ 63 - w_resolution (c_wheel c) \<and> w_currentTick (c_wheel c) * w_resolution (c_wheel c) < x)"

lemma setSync_wheel:
  assumes inv: "core_inv c" and w: "wheel_inv c" and cost: "i64 cost = cost" and x: "schedulable c x"
    and r: "setSync c k v (getKeyHash (c_store c) k) cost x = Some (c', ok)"
  shows "wheel_inv c'"
proof -
  let ?h = "getKeyHash (c_store c) k"
  let ?e = "\<lparr>eKey = k, eValue = v, eKeyHash = ?h, eExpireAt = x, eCost = cost\<rparr>"
  let ?i = "\<lparr>w_Key = k, w_KeyHash = ?h, w_ExpireAt = x\<rparr>"
  obtain gone where s: "core_inv c'" "c_map c' = (c_map c |` (- gone))(k \<mapsto> ?e)" "same_shell c c'"
    "c_wheel c' = (if x > 0 then w_Schedule (c_wheel c) k ?h x else c_wheel c)"
    using setSync_spec [OF inv cost r] by blast
  have hash: "getKeyHash (c_store c') = getKeyHash (c_store c)" using s(3) by (simp add: same_shell_def)
  have wi: "w_inv (c_wheel c)" using w by (simp add: wheel_inv_def)
  have p: "w_inv (c_wheel c') \<and> w_pending (c_wheel c') = (if x > 0 then add_mset ?i (w_pending (c_wheel c)) else w_pending (c_wheel c))"
  proof (cases "x > 0")
    case True
    then have "w_fits (c_wheel c) ?i" using x by (simp add: schedulable_def w_fits_def w_time_def)
    from w_push_spec [OF wi this] show ?thesis using True s(4) by (simp add: w_push_def)
  next
    case False
    then show ?thesis using wi s(4) by simp
  qed
  show ?thesis
    unfolding wheel_inv_def
  proof (intro conjI allI impI ballI)
    show "w_inv (c_wheel c')" using p by simp
    show "w_KeyHash y = getKeyHash (c_store c') (w_Key y)" if "y \<in># w_pending (c_wheel c')" for y
      using that p w hash by (auto simp: wheel_inv_def split: if_splits)
    fix k' e' assume m: "c_map c' k' = Some e'" and pos: "0 < eExpireAt e'"
    show "\<lparr>w_Key = k', w_KeyHash = getKeyHash (c_store c') k', w_ExpireAt = eExpireAt e'\<rparr> \<in># w_pending (c_wheel c')"
    proof (cases "k' = k")
      case True
      then have "e' = ?e" using m s(2) by simp
      then show ?thesis using True pos p hash by simp
    next
      case False
      then have "c_map c k' = Some e'" using m s(2) by (auto simp: restrict_map_def split: if_splits)
      then have "\<lparr>w_Key = k', w_KeyHash = getKeyHash (c_store c) k', w_ExpireAt = eExpireAt e'\<rparr> \<in># w_pending (c_wheel c)"
        using w pos unfolding wheel_inv_def by blast
      then show ?thesis using p hash by simp
    qed
  qed
qed

end
