(* ===== verification/CacheReach.thy ===== *)
theory CacheReach
  imports CacheExpiry
begin

text \<open>
  The life of a cache: \<open>NewCache\<close>, then any sequence of calls of the public operations, of batches
  of the two flushers and of ticks of the expiration worker. Every state on the way keeps the
  invariant of \<open>CacheInv\<close>, and every call returns.
\<close>

subsection \<open>What the wheel holds\<close>

definition w_sane :: "'k ExpiryWheel \<Rightarrow> bool" where
  "w_sane w \<longleftrightarrow> length (w_buckets w) = 4096 \<and> w_mask w = 4095"

lemma w_sane_index: "w_sane w \<Longrightarrow> w_index w t < length (w_buckets w)"
  using mask_index [of 4096 "word_of_int t"] by (simp add: w_sane_def w_index_def)

lemma w_inv_sane: "w_inv w \<Longrightarrow> w_sane w"
  by (simp add: w_inv_def w_placed_def w_sane_def)

lemma w_append_any:
  assumes "w_sane w"
  shows "w_sane (w_append w x) \<and> w_pending (w_append w x) = add_mset x (w_pending w)"
proof -
  let ?i = "w_index w (w_tick (w_resolution w) (w_ExpireAt x))"
  have "mset (concat ((w_buckets w)[?i := w_buckets w ! ?i @ [x]])) + mset (w_buckets w ! ?i) =
      add_mset x (mset (concat (w_buckets w))) + mset (w_buckets w ! ?i)"
    using mset_concat_update [OF w_sane_index [OF assms], of "w_tick (w_resolution w) (w_ExpireAt x)" "w_buckets w ! ?i @ [x]"]
    by simp
  then have "mset (concat ((w_buckets w)[?i := w_buckets w ! ?i @ [x]])) = add_mset x (mset (concat (w_buckets w)))"
    by (rule add_right_imp_eq)
  then show ?thesis using assms by (simp add: w_append_def Let_def w_pending_def w_sane_def)
qed

lemma w_Schedule_any:
  "w_sane w \<Longrightarrow> w_sane (w_Schedule w k h x) \<and>
    w_pending (w_Schedule w k h x) = (if x \<le> 0 then w_pending w
      else add_mset \<lparr>w_Key = k, w_KeyHash = h, w_ExpireAt = x\<rparr> (w_pending w))"
  by (simp add: w_Schedule_def w_append_any)

lemma w_sift_any:
  "w_sane w \<Longrightarrow> foldl (w_sift now) (w, ys) xs = (w', ys') \<Longrightarrow>
    w_sane w' \<and> mset ys' + w_pending w' = mset ys + w_pending w + mset xs"
proof (induction xs arbitrary: w ys)
  case (Cons x xs)
  then show ?case
    using Cons.IH [of w "ys @ [x]"] Cons.IH [of "w_append w x" ys] w_append_any [OF Cons.prems(1), of x]
    by (auto simp: w_sift_def split: if_splits)
qed simp

lemma w_visit_any:
  assumes "w_sane w" "w_visit now (w, ys) = (w', ys')"
  shows "w_sane w' \<and> mset ys' + w_pending w' = mset ys + w_pending w"
proof -
  let ?i = "w_index w (w_currentTick w)"
  have i: "?i < length (w_buckets w)" using w_sane_index [OF assms(1)] .
  show ?thesis
  proof (cases "w_buckets w ! ?i = []")
    case True
    then show ?thesis using assms by (simp add: w_visit_def Let_def)
  next
    case False
    let ?w = "w\<lparr>w_buckets := (w_buckets w)[?i := []]\<rparr>"
    have s: "w_sane ?w" using assms(1) by (simp add: w_sane_def)
    have "foldl (w_sift now) (?w, ys) (w_buckets w ! ?i) = (w', ys')"
      using assms(2) False by (simp add: w_visit_def Let_def)
    from w_sift_any [OF s this] show ?thesis
      using mset_concat_update [OF i, of "[]"] by (simp add: w_pending_def ac_simps)
  qed
qed

lemma w_loop_any:
  "w_sane w \<Longrightarrow> w_loop now n (w, ys) = (w', ys') \<Longrightarrow>
    w_sane w' \<and> mset ys' + w_pending w' = mset ys + w_pending w"
proof (induction n arbitrary: w ys)
  case (Suc n)
  let ?w = "w\<lparr>w_currentTick := w_currentTick w + 1\<rparr>"
  obtain w1 ys1 where v: "w_visit now (?w, ys) = (w1, ys1)" by (cases "w_visit now (?w, ys)")
  have "w_sane ?w" "w_pending ?w = w_pending w" using Suc.prems(1) by (simp_all add: w_sane_def w_pending_def)
  then have "w_sane w1 \<and> mset ys1 + w_pending w1 = mset ys + w_pending w" using w_visit_any [OF _ v] by simp
  moreover have "w_loop now n (w1, ys1) = (w', ys')" using Suc.prems(2) v by simp
  ultimately show ?case using Suc.IH [of w1 ys1] by simp
qed simp

lemma w_Advance_any:
  assumes "w_sane w" "w_Advance w now = (w', ys)"
  shows "w_sane w' \<and> mset ys + w_pending w' = w_pending w"
  using assms w_loop_any [OF assms(1), of now _ "[]" w' ys]
  by (auto simp: w_Advance_def Let_def split: if_splits)

subsection \<open>A state that is ready for more calls\<close>

text \<open>
  Beyond the core invariant: the sampling of the policy is fair, what is scheduled carries its
  key's hash, the rings are in order with counters that can number \<open>m\<close> more items, and the pending
  writes and the cost function produce 64-bit costs.
\<close>

definition hashed :: "('k, 'v) Cache \<Rightarrow> bool" where
  "hashed c \<longleftrightarrow> w_sane (c_wheel c) \<and>
     (\<forall>x\<in>#w_pending (c_wheel c). w_KeyHash x = getKeyHash (c_store c) (w_Key x))"

definition reads_ok :: "nat \<Rightarrow> ('k, 'v) Cache \<Rightarrow> bool" where
  "reads_ok m c \<longleftrightarrow> (case c_readBuffer c of None \<Rightarrow> True | Some rb \<Rightarrow> rb_inv rb \<and> m \<le> rb_room rb)"

definition writes_ok :: "nat \<Rightarrow> ('k, 'v) Cache \<Rightarrow> bool" where
  "writes_ok m c \<longleftrightarrow>
     (case c_writeBuffer c of
        None \<Rightarrow> True
      | Some rb \<Rightarrow> rb_inv rb \<and> m \<le> rb_room rb \<and> (\<forall>x\<in>set (rb_queue rb). write_ok c x))"

definition typed_costs :: "('k, 'v) config \<Rightarrow> bool" where
  "typed_costs cfg \<longleftrightarrow> (\<forall>f v. CostFunc cfg = Some f \<longrightarrow> i64 (f v) = f v)"

definition ready :: "nat \<Rightarrow> ('k, 'v) Cache \<Rightarrow> bool" where
  "ready m c \<longleftrightarrow> core_inv c \<and> Policer_live (c_policy c) \<and> hashed c \<and> reads_ok m c \<and> writes_ok m c \<and>
     typed_costs (c_config c)"

text \<open>What every operation leaves alone.\<close>

definition kin :: "('k, 'v) Cache \<Rightarrow> ('k, 'v) Cache \<Rightarrow> bool" where
  "kin c c' \<longleftrightarrow>
     c_config c' = c_config c \<and> c_isStringKey c' = c_isStringKey c \<and> c_zero c' = c_zero c \<and>
     c_closed c' = c_closed c \<and>
     getKeyHash (c_store c') = getKeyHash (c_store c) \<and> st_any (c_store c') = st_any (c_store c) \<and>
     (c_writeBuffer c' = None \<longleftrightarrow> c_writeBuffer c = None)"

lemma kin_refl [simp]: "kin c c"
  by (simp add: kin_def)

lemma kin_trans: "kin a b \<Longrightarrow> kin b c \<Longrightarrow> kin a c"
  by (simp add: kin_def)

lemma kin_shell: "same_shell c c' \<Longrightarrow> kin c c'"
  by (simp add: kin_def same_shell_def)

lemma write_ok_kin: "kin c c' \<Longrightarrow> write_ok c' = write_ok c"
  by (simp add: write_ok_def kin_def fun_eq_iff)

lemma reads_ok_mono: "reads_ok m c \<Longrightarrow> n \<le> m \<Longrightarrow> reads_ok n c"
  by (auto simp: reads_ok_def split: option.splits)

lemma writes_ok_mono: "writes_ok m c \<Longrightarrow> n \<le> m \<Longrightarrow> writes_ok n c"
  by (auto simp: writes_ok_def split: option.splits)

lemma ready_mono: "ready m c \<Longrightarrow> n \<le> m \<Longrightarrow> ready n c"
  by (auto simp: ready_def intro: reads_ok_mono writes_ok_mono)

lemma read_ok_reads: "reads_ok (Suc m) c \<Longrightarrow> read_ok c"
  by (auto simp: reads_ok_def read_ok_def split: option.splits)

text \<open>A write that keeps the core invariant and the shell keeps the rest of the readiness.\<close>

lemma ready_shell:
  assumes "ready m c" "core_inv c'" "same_shell c c'" "Policer_live (c_policy c')" "hashed c'"
  shows "ready m c'"
proof -
  have w: "write_ok c' = write_ok c" by (rule write_ok_shell [OF assms(3)])
  have "writes_ok m c'"
    using assms(1,3) by (cases "c_writeBuffer c") (simp_all add: ready_def writes_ok_def same_shell_def w)
  then show ?thesis using assms by (simp add: ready_def same_shell_def reads_ok_def)
qed

lemma hashed_same:
  "hashed c \<Longrightarrow> c_wheel c' = c_wheel c \<Longrightarrow> getKeyHash (c_store c') = getKeyHash (c_store c) \<Longrightarrow> hashed c'"
  by (simp add: hashed_def)

lemma hashed_Schedule:
  assumes "hashed c" "c_wheel c' = (if x > 0 then w_Schedule (c_wheel c) k (getKeyHash (c_store c) k) x else c_wheel c)"
    "getKeyHash (c_store c') = getKeyHash (c_store c)"
  shows "hashed c'"
  using assms w_Schedule_any [of "c_wheel c" k "getKeyHash (c_store c) k" x] by (auto simp: hashed_def)

subsection \<open>The sampling stays fair\<close>

lemma evictVictim_policy: "c_policy (evictVictim c v) = c_policy c"
  by (simp add: evictVictim_def Let_def split: prod.split option.split)

lemma evict_fold_policy: "c_policy (foldl evictVictim c vs) = c_policy c"
  by (induction vs arbitrary: c) (simp_all add: evictVictim_policy)

lemma doSet_live:
  assumes "core_inv c" "doSet c e = Some (c', ok)"
  shows "Policer_live (c_policy c') = Policer_live (c_policy c)"
proof -
  have pi: "Policer_inv (c_policy c)" using assms(1) by (simp add: core_inv_def)
  obtain pol vs added where a: "Policer_Add (c_policy c) (eKey e) (eKeyHash e) (eCost e) = Some (pol, vs, added)"
    using assms(2) by (cases "Policer_Add (c_policy c) (eKey e) (eKeyHash e) (eCost e)") (auto simp: doSet_def)
  have "c_policy c' = pol"
    using assms(2) a by (auto simp: doSet_def Let_def evict_fold_policy split: prod.splits option.splits if_splits)
  then show ?thesis using po.add_live [OF pi a] by simp
qed

lemma tryUpdate_live: "Policer_live (c_policy (fst (tryUpdateExisting c k v h cost x))) = Policer_live (c_policy c)"
  by (simp add: tryUpdateExisting_def Let_def po.live_same split: prod.split option.split)

lemma setSync_live:
  assumes "core_inv c" "setSync c k v (getKeyHash (c_store c) k) cost x = Some (c', ok)" "i64 cost = cost"
  shows "Policer_live (c_policy c') = Policer_live (c_policy c)"
proof (cases "c_map c k")
  case None
  then show ?thesis
    using assms(2) tryUpdate_none [OF None, of v cost x] doSet_live [OF assms(1)] by (simp add: setSync_def)
next
  case (Some old)
  then obtain c1 where "tryUpdateExisting c k v (getKeyHash (c_store c) k) cost x = (c1, True)"
    using tryUpdate_some [OF assms(1) Some assms(3), of v x] by blast
  then show ?thesis
    using assms(2) tryUpdate_live [of c k v "getKeyHash (c_store c) k" cost x] by (simp add: setSync_def)
qed

lemma setSync_ready:
  assumes "ready m c" "i64 cost = cost"
  shows "\<exists>c'. setSync c k v (getKeyHash (c_store c) k) cost x = Some (c', True) \<and> ready m c' \<and> same_shell c c'"
proof -
  have inv: "core_inv c" and live: "Policer_live (c_policy c)" and h: "hashed c" using assms(1) by (auto simp: ready_def)
  obtain c' ok where r: "setSync c k v (getKeyHash (c_store c) k) cost x = Some (c', ok)"
    using setSync_returns [OF inv live assms(2), of k v x] by auto
  note s = setSync_spec [OF inv assms(2) r]
  then have c': "ok" "core_inv c'" "same_shell c c'"
    "c_wheel c' = (if x > 0 then w_Schedule (c_wheel c) k (getKeyHash (c_store c) k) x else c_wheel c)" by blast+
  have "hashed c'" using hashed_Schedule [OF h c'(4)] c'(3) by (simp add: same_shell_def)
  then have "ready m c'" using ready_shell [OF assms(1) c'(2,3)] setSync_live [OF inv r assms(2)] live by simp
  then show ?thesis using r c' by auto
qed

lemma doDelete_ready:
  assumes "ready m c"
  shows "ready m (fst (doDelete c k (getKeyHash (c_store c) k))) \<and>
    same_shell c (fst (doDelete c k (getKeyHash (c_store c) k)))"
proof -
  let ?c = "fst (doDelete c k (getKeyHash (c_store c) k))"
  have inv: "core_inv c" and h: "hashed c" using assms by (auto simp: ready_def)
  note d = doDelete_spec [OF inv, of k]
  have "hashed ?c" by (rule hashed_same [OF h]) (use d in \<open>auto simp: same_shell_def\<close>)
  moreover have "Policer_live (c_policy ?c)"
    using assms by (simp add: ready_def doDelete_def Let_def po.live_same split: prod.split option.split)
  ultimately show ?thesis using ready_shell [OF assms, of ?c] d by blast
qed

subsection \<open>Pending writes and the flushers\<close>

lemma processWrite_ready:
  assumes "ready m c" "write_ok c x"
  shows "\<exists>c'. processWrite c x = Some c' \<and> ready m c' \<and> same_shell c c'"
proof -
  let ?e = "wi_entry x"
  have h: "eKeyHash ?e = getKeyHash (c_store c) (eKey ?e)" "i64 (eCost ?e) = eCost ?e"
    using assms(2) by (auto simp: write_ok_def)
  show ?thesis
    using setSync_ready [OF assms(1) h(2), of "eKey ?e" "eValue ?e" "eExpireAt ?e"]
      doDelete_ready [OF assms(1), of "eKey ?e"] h(1)
    by (cases "wi_isSet x") (auto simp: processWrite_def Let_def)
qed

lemma processWrites_ready:
  "ready m c \<Longrightarrow> \<forall>x\<in>set items. write_ok c x \<Longrightarrow>
    \<exists>c'. foldM processWrite c items = Some c' \<and> ready m c' \<and> same_shell c c'"
proof (induction items arbitrary: c)
  case (Cons x items)
  obtain c1 where c1: "processWrite c x = Some c1" "ready m c1" "same_shell c c1"
    using processWrite_ready [OF Cons.prems(1)] Cons.prems(2) by auto
  have "\<forall>y\<in>set items. write_ok c1 y" using Cons.prems(2) write_ok_shell [OF c1(3)] by simp
  then obtain c' where "foldM processWrite c1 items = Some c'" "ready m c'" "same_shell c1 c'"
    using Cons.IH [OF c1(2)] by blast
  then show ?case using c1 same_shell_trans by auto
qed simp

lemma ready_writeBuffer:
  assumes "ready m c" "rb_inv rb" "n \<le> rb_room rb" "n \<le> m" "\<forall>x\<in>set (rb_queue rb). write_ok c x"
  shows "ready n (c\<lparr>c_writeBuffer := Some rb\<rparr>)"
proof -
  have "write_ok (c\<lparr>c_writeBuffer := Some rb\<rparr>) x = write_ok c x" for x by (simp add: write_ok_def)
  moreover have "reads_ok n (c\<lparr>c_writeBuffer := Some rb\<rparr>)"
    using assms(1,4) reads_ok_mono [of m c n] by (simp add: ready_def reads_ok_def)
  ultimately show ?thesis
    using assms by (simp add: ready_def writes_ok_def core_inv_def hashed_def)
qed

lemma ready_readBuffer:
  assumes "ready m c" "rb_inv rb" "n \<le> rb_room rb" "n \<le> m"
  shows "ready n (c\<lparr>c_readBuffer := Some rb\<rparr>)"
proof -
  have "write_ok (c\<lparr>c_readBuffer := Some rb\<rparr>) x = write_ok c x" for x by (simp add: write_ok_def)
  moreover have "writes_ok n c" using assms(1,4) writes_ok_mono [of m c n] by (simp add: ready_def)
  ultimately show ?thesis
    using assms by (auto simp: ready_def writes_ok_def reads_ok_def core_inv_def hashed_def split: option.splits)
qed

lemma c_flushWrites_ready:
  assumes "ready m c"
  shows "\<exists>c'. c_flushWrites c = Some c' \<and> ready m c' \<and> kin c c'"
proof (cases "c_writeBuffer c")
  case None
  then show ?thesis using assms by (simp add: c_flushWrites_def)
next
  case (Some rb)
  then have rb: "rb_inv rb" "m \<le> rb_room rb" "\<forall>x\<in>set (rb_queue rb). write_ok c x"
    using assms by (auto simp: ready_def writes_ok_def)
  obtain rb' n where f: "flushBatch (BufferItems (c_config c)) rb = Some (rb', take n (rb_queue rb))" "rb_inv rb'"
    "rb_queue rb' = drop n (rb_queue rb)" "rb_room rb' = rb_room rb"
    using pop_batch_spec [OF rb(1), of "BufferItems (c_config c)" "[]"] by (auto simp: flushBatch_def)
  let ?c = "c\<lparr>c_writeBuffer := Some rb'\<rparr>"
  have r: "ready m ?c" by (rule ready_writeBuffer [OF assms f(2)]) (use rb f in \<open>auto dest: in_set_dropD\<close>)
  have "\<forall>x\<in>set (take n (rb_queue rb)). write_ok ?c x" using rb(3) by (auto dest: in_set_takeD simp: write_ok_def)
  from processWrites_ready [OF r this] obtain c' where
    c': "foldM processWrite ?c (take n (rb_queue rb)) = Some c'" "ready m c'" "same_shell ?c c'" by blast
  have "c_flushWrites c = Some c'"
    using Some f(1) c'(1) by (cases "take n (rb_queue rb)") (auto simp: c_flushWrites_def processWriteBatch_def Let_def)
  moreover have "kin c c'" using c'(3) Some by (simp add: kin_def same_shell_def)
  ultimately show ?thesis using c'(2) by blast
qed

lemma c_drainWrites_ready:
  assumes "ready m c"
  shows "\<exists>c'. c_drainWrites c = Some c' \<and> ready m c' \<and> kin c c'"
proof (cases "c_writeBuffer c")
  case None
  then show ?thesis using assms by (simp add: c_drainWrites_def)
next
  case (Some rb)
  then have rb: "rb_inv rb" "m \<le> rb_room rb" "\<forall>x\<in>set (rb_queue rb). write_ok c x"
    using assms by (auto simp: ready_def writes_ok_def)
  obtain rb' where f: "rb_inv rb'" "rb_queue rb' = []" "rb_room rb' = rb_room rb"
    "c_drainWrites c = foldM processWrite (c\<lparr>c_writeBuffer := Some rb'\<rparr>) (rb_queue rb)"
    using c_drainWrites_queue [OF Some rb(1)] by blast
  let ?c = "c\<lparr>c_writeBuffer := Some rb'\<rparr>"
  have r: "ready m ?c" by (rule ready_writeBuffer [OF assms f(1)]) (use rb f in auto)
  have "\<forall>x\<in>set (rb_queue rb). write_ok ?c x" using rb(3) by (auto simp: write_ok_def)
  from processWrites_ready [OF r this] obtain c' where
    c': "foldM processWrite ?c (rb_queue rb) = Some c'" "ready m c'" "same_shell ?c c'" by blast
  have "kin c c'" using c'(3) Some by (simp add: kin_def same_shell_def)
  then show ?thesis using c' f(4) by auto
qed

text \<open>Recorded accesses reach the policy in batches; they change only its frequencies.\<close>

lemma access_fold:
  "core_inv c \<Longrightarrow> p = c_policy c \<Longrightarrow> Policer_inv (foldl Policer_Access p hs) \<and>
    Policer_tracked (foldl Policer_Access p hs) = Policer_tracked p \<and>
    Policer_live (foldl Policer_Access p hs) = Policer_live p"
proof -
  assume "core_inv c" "p = c_policy c"
  then have "Policer_inv p" by (simp add: core_inv_def)
  then show ?thesis
    by (induction hs arbitrary: p) (simp_all add: po.inv_access po.tracked_access po.live_same)
qed

lemma processReadBatch_ready:
  assumes "ready m c" "int (length hs) < 2 ^ 62"
  shows "ready m (processReadBatch c hs) \<and> same_shell c (processReadBatch c hs)"
proof (cases "hs = []")
  case True
  then show ?thesis using assms(1) by (simp add: processReadBatch_def)
next
  case False
  obtain p where p: "processReadBatch c hs = c\<lparr>c_policy := p\<rparr>" "Policer_inv p"
    "Policer_tracked p = Policer_tracked (c_policy c)" "Policer_live p = Policer_live (c_policy c)"
  proof (cases "c_policy c")
    case (Locked q)
    show ?thesis
    proof (rule that)
      show "processReadBatch c hs = c\<lparr>c_policy := foldl Policer_Access (c_policy c) hs\<rparr>"
        using False Locked by (simp add: processReadBatch_def)
    qed (use access_fold [of c "c_policy c" hs] assms(1) in \<open>auto simp: ready_def\<close>)
  next
    case (LockFree q)
    have q: "plf_inv q" using assms(1) LockFree by (simp add: ready_def core_inv_def)
    show ?thesis
    proof (rule that)
      show "processReadBatch c hs = c\<lparr>c_policy := LockFree (plf_AccessBatch q hs)\<rparr>"
        using False LockFree by (simp add: processReadBatch_def)
    qed (use plf_AccessBatch [of q hs] q assms(2) LockFree in auto)
  qed
  have "core_inv (c\<lparr>c_policy := p\<rparr>)" using assms(1) p by (simp add: ready_def core_inv_def)
  moreover have "hashed (c\<lparr>c_policy := p\<rparr>)" using assms(1) by (simp add: ready_def hashed_def)
  ultimately have "ready m (c\<lparr>c_policy := p\<rparr>)"
    using ready_shell [OF assms(1), of "c\<lparr>c_policy := p\<rparr>"] p(4) assms(1) by (simp add: ready_def)
  then show ?thesis using p(1) by simp
qed

lemma rb_queue_small: "rb_inv rb \<Longrightarrow> int (length (rb_queue rb)) < 2 ^ 62"
proof -
  assume inv: "rb_inv rb"
  then obtain k where "length (rb_data rb) = 2 ^ k" "k \<le> 32" by (auto simp: rb_inv_def)
  then have "length (rb_data rb) \<le> 2 ^ 32" using power_increasing [of k 32 "2 :: nat"] by simp
  moreover have "unat (rb_tail rb) \<le> unat (rb_head rb) + length (rb_data rb)" using inv by (simp add: rb_inv_def)
  ultimately have "length (rb_queue rb) \<le> 2 ^ 32" unfolding rb_queue_length by linarith
  then show ?thesis by simp
qed

lemma processReads_ready:
  "ready m c \<Longrightarrow> \<forall>hs\<in>set bs. int (length hs) < 2 ^ 62 \<Longrightarrow>
    ready m (foldl processReadBatch c bs) \<and> same_shell c (foldl processReadBatch c bs)"
proof (induction bs arbitrary: c)
  case (Cons hs bs)
  have r: "ready m (processReadBatch c hs)" "same_shell c (processReadBatch c hs)"
    using processReadBatch_ready [OF Cons.prems(1), of hs] Cons.prems(2) by auto
  show ?case using Cons.IH [OF r(1)] Cons.prems(2) same_shell_trans [OF r(2)] by simp
qed simp

lemma c_flushReads_ready:
  assumes "ready m c"
  shows "\<exists>c'. c_flushReads c = Some c' \<and> ready m c' \<and> kin c c'"
proof (cases "c_readBuffer c")
  case None
  then show ?thesis using assms by (simp add: c_flushReads_def)
next
  case (Some rb)
  then have rb: "rb_inv rb" "m \<le> rb_room rb" using assms by (auto simp: ready_def reads_ok_def)
  obtain rb' n where f: "flushBatch 64 rb = Some (rb', take n (rb_queue rb))" "rb_inv rb'" "rb_room rb' = rb_room rb"
    using pop_batch_spec [OF rb(1), of 64 "[]"] by (auto simp: flushBatch_def)
  let ?c = "c\<lparr>c_readBuffer := Some rb'\<rparr>"
  have r: "ready m ?c" by (rule ready_readBuffer [OF assms f(2)]) (use rb f in auto)
  have "int (length (take n (rb_queue rb))) < 2 ^ 62" using rb_queue_small [OF rb(1)] by simp
  note p = processReadBatch_ready [OF r this]
  have "c_flushReads c = Some (processReadBatch ?c (take n (rb_queue rb)))"
    using Some f(1) by (cases "take n (rb_queue rb)") (auto simp: c_flushReads_def processReadBatch_def Let_def)
  moreover have "kin c (processReadBatch ?c (take n (rb_queue rb)))"
    using p by (simp add: kin_def same_shell_def)
  ultimately show ?thesis using p by blast
qed

lemma c_drainReads_ready:
  assumes "ready m c"
  shows "\<exists>c'. c_drainReads c = Some c' \<and> ready m c' \<and> kin c c'"
proof (cases "c_readBuffer c")
  case None
  then show ?thesis using assms by (simp add: c_drainReads_def)
next
  case (Some rb)
  then have rb: "rb_inv rb" "m \<le> rb_room rb" using assms by (auto simp: ready_def reads_ok_def)
  obtain rb' bs where f: "flushAll 64 rb [] = Some (rb', bs)" "rb_inv rb'" "concat bs = rb_queue rb"
    "rb_room rb' = rb_room rb" using flushAll_spec [OF rb(1), of 64 "[]"] by auto
  let ?c = "c\<lparr>c_readBuffer := Some rb'\<rparr>"
  have r: "ready m ?c" by (rule ready_readBuffer [OF assms f(2)]) (use rb f in auto)
  have "length hs \<le> length (concat bs)" if "hs \<in> set bs" for hs
    using that by (auto simp: in_set_conv_decomp)
  then have "\<forall>hs\<in>set bs. int (length hs) < 2 ^ 62" using rb_queue_small [OF rb(1)] f(3) by fastforce
  note p = processReads_ready [OF r this]
  have "c_drainReads c = Some (foldl processReadBatch ?c bs)"
    using Some f(1) by (simp add: c_drainReads_def Let_def)
  moreover have "kin c (foldl processReadBatch ?c bs)" using p by (simp add: kin_def same_shell_def)
  ultimately show ?thesis using p by blast
qed

subsection \<open>The public operations\<close>

lemma recordAccess_ready:
  assumes "ready (Suc m) c"
  shows "\<exists>c'. recordAccess c h = Some c' \<and> ready m c' \<and> kin c c' \<and> c_store c' = c_store c"
proof -
  have m: "ready m c" by (rule ready_mono [OF assms]) simp
  show ?thesis
  proof (cases "shouldTrackAccess c")
    case False
    then show ?thesis using m by (simp add: recordAccess_def)
  next
    case True
    show ?thesis
    proof (cases "c_readBuffer c")
      case None
      let ?c = "c\<lparr>c_policy := Policer_Access (c_policy c) h\<rparr>"
      have "ready m ?c"
      proof (rule ready_shell [OF m])
        show "core_inv ?c" using m by (simp add: ready_def core_inv_def po.inv_access po.tracked_access)
        show "Policer_live (c_policy ?c)" using m by (simp add: ready_def po.live_same)
        show "hashed ?c" using m by (simp add: ready_def hashed_def)
      qed simp
      then show ?thesis using True None by (simp add: recordAccess_def kin_def)
    next
      case (Some rb)
      then have rb: "rb_inv rb" "Suc m \<le> rb_room rb" using assms by (auto simp: ready_def reads_ok_def)
      have "\<exists>rb' b taken. lossy_Push 64 rb h = Some (rb', b, taken) \<and> rb_inv rb' \<and> m \<le> rb_room rb'"
      proof (cases "length (rb_queue rb) < rb_Cap rb")
        case True
        obtain rb' where "rb_Push rb h = Some (rb', True)" "rb_inv rb'" "rb_room rb' = rb_room rb - 1"
          using rb_push_room [OF rb(1) True, of h] rb(2) by auto
        then show ?thesis using rb(2) by (auto simp: lossy_Push_def)
      next
        case False
        then have "length (rb_queue rb) = rb_Cap rb" using rq.cap_queue [OF rb(1)] by simp
        then show ?thesis using rb_push_full [OF rb(1), of h] rb by (auto simp: lossy_Push_def)
      qed
      then obtain rb' b taken where p: "lossy_Push 64 rb h = Some (rb', b, taken)" "rb_inv rb'" "m \<le> rb_room rb'" by blast
      have "ready m (c\<lparr>c_readBuffer := Some rb'\<rparr>)" by (rule ready_readBuffer [OF assms p(2,3)]) simp
      then show ?thesis using True Some p by (simp add: recordAccess_def kin_def)
    qed
  qed
qed

lemma ready_metrics [simp]: "ready m (c\<lparr>c_metrics := x\<rparr>) = ready m c"
proof -
  have "write_ok (c\<lparr>c_metrics := x\<rparr>) = write_ok c" by (simp add: write_ok_def fun_eq_iff)
  then show ?thesis by (cases "c_writeBuffer c") (simp_all add: ready_def hashed_def reads_ok_def writes_ok_def)
qed

lemma kin_metrics [simp]: "kin c (c'\<lparr>c_metrics := x\<rparr>) = kin c c'" "kin (c\<lparr>c_metrics := x\<rparr>) c' = kin c c'"
  by (simp_all add: kin_def)

lemma c_Get_ready:
  assumes "ready (Suc m) c"
  shows "\<exists>c'. c_Get c now k = Some (c', visible c now k) \<and> ready m c' \<and> kin c c' \<and> c_store c' = c_store c"
proof -
  have m: "ready m c" by (rule ready_mono [OF assms]) simp
  have g: "st_GetByHash (c_store c) now k (c_KeyHash c k) =
      (case c_map c k of None \<Rightarrow> None | Some e \<Rightarrow> if IsExpired e now then None else Some e)"
    by (simp add: c_KeyHash_def c_map_def st_GetByHash_map)
  obtain c1 where "recordAccess c (c_KeyHash c k) = Some c1" "ready m c1" "kin c c1" "c_store c1 = c_store c"
    using recordAccess_ready [OF assms] by blast
  then show ?thesis using m g by (auto simp: c_Get_def visible_def Let_def split: option.split)
qed

text \<open>The value a reader sees depends only on the store and on whether the cache is closed.\<close>

lemma visible_same: "kin c c' \<Longrightarrow> c_store c' = c_store c \<Longrightarrow> visible c' = visible c"
  by (simp add: visible_def kin_def c_map_def fun_eq_iff)

lemma push_one:
  assumes "ready (Suc m) c" "c_writeBuffer c = Some rb" "write_ok c item"
  shows "\<exists>rb' ok. rb_Push rb item = Some (rb', ok) \<and> (if ok then ready m (c\<lparr>c_writeBuffer := Some rb'\<rparr>) else rb' = rb)"
proof -
  have rb: "rb_inv rb" "Suc m \<le> rb_room rb" "\<forall>x\<in>set (rb_queue rb). write_ok c x"
    using assms(1,2) by (auto simp: ready_def writes_ok_def)
  show ?thesis
  proof (cases "length (rb_queue rb) < rb_Cap rb")
    case True
    obtain rb' where p: "rb_Push rb item = Some (rb', True)" "rb_inv rb'" "rb_queue rb' = rb_queue rb @ [item]"
      "rb_room rb' = rb_room rb - 1" using rb_push_room [OF rb(1) True, of item] rb(2) by auto
    have "ready m (c\<lparr>c_writeBuffer := Some rb'\<rparr>)"
      by (rule ready_writeBuffer [OF assms(1) p(2)]) (use p rb assms(3) in auto)
    then show ?thesis using p(1) by auto
  next
    case False
    then have "length (rb_queue rb) = rb_Cap rb" using rq.cap_queue [OF rb(1)] by simp
    then show ?thesis using rb_push_full [OF rb(1), of item] by auto
  qed
qed

lemma retry_push_ready:
  "ready (Suc m) c \<Longrightarrow> c_writeBuffer c \<noteq> None \<Longrightarrow> write_ok c item \<Longrightarrow>
    \<exists>c' ok. retry_push c item ys = Some (c', ok) \<and> ready m c' \<and> kin c c'"
proof (induction ys arbitrary: c)
  case Nil
  then show ?case using ready_mono [of "Suc m" c m] by (intro exI [of _ c] exI [of _ False]) simp
next
  case (Cons y ys)
  obtain c1 where c1: "(if y then c_flushWrites c else Some c) = Some c1" "ready (Suc m) c1" "kin c c1"
    using c_flushWrites_ready [OF Cons.prems(1)] Cons.prems(1) by (cases y) auto
  obtain rb where rb: "c_writeBuffer c1 = Some rb" using c1(3) Cons.prems(2) by (auto simp: kin_def)
  have w: "write_ok c1 item" using Cons.prems(3) write_ok_kin [OF c1(3)] by simp
  have e: "c1\<lparr>c_writeBuffer := Some rb\<rparr> = c1" using rb by simp
  obtain rb' ok where p: "rb_Push rb item = Some (rb', ok)"
    "if ok then ready m (c1\<lparr>c_writeBuffer := Some rb'\<rparr>) else rb' = rb" using push_one [OF c1(2) rb w] by blast
  show ?case
  proof (cases ok)
    case True
    have "kin c1 (c1\<lparr>c_writeBuffer := Some rb'\<rparr>)" using rb by (simp add: kin_def)
    then show ?thesis using True c1 rb p kin_trans [OF c1(3)] by auto
  next
    case False
    obtain c' ok' where "retry_push c1 item ys = Some (c', ok')" "ready m c'" "kin c1 c'"
      using Cons.IH [OF c1(2) _ w] rb by auto
    then show ?thesis using False c1 rb p kin_trans [OF c1(3)] by (auto simp: e)
  qed
qed

lemma c_pushWrite_ready:
  assumes "ready (Suc m) c" "c_writeBuffer c \<noteq> None" "write_ok c item"
  shows "\<exists>c' ok. c_pushWrite yields c item = Some (c', ok) \<and> ready m c' \<and> kin c c'"
proof -
  obtain rb where rb: "c_writeBuffer c = Some rb" using assms(2) by auto
  have e: "c\<lparr>c_writeBuffer := Some rb\<rparr> = c" using rb by simp
  obtain rb' ok where p: "rb_Push rb item = Some (rb', ok)"
    "if ok then ready m (c\<lparr>c_writeBuffer := Some rb'\<rparr>) else rb' = rb" using push_one [OF assms(1) rb assms(3)] by blast
  show ?thesis
  proof (cases ok)
    case True
    then show ?thesis using rb p
      by (intro exI [of _ "c\<lparr>c_writeBuffer := Some rb'\<rparr>"] exI [of _ True]) (simp add: c_pushWrite_def kin_def)
  next
    case False
    then show ?thesis
      using rb p retry_push_ready [OF assms, of "map yields [0..<100]"] by (simp add: c_pushWrite_def e)
  qed
qed

lemma set_cost_typed: "typed_costs cfg \<Longrightarrow> i64 cost = cost \<Longrightarrow> i64 (set_cost cfg v cost) = set_cost cfg v cost"
  by (simp add: set_cost_def typed_costs_def i64_simps split: option.split)

lemma c_SetWithCost_ready:
  assumes "ready (Suc m) c" "i64 cost = cost"
  shows "\<exists>c' ok. c_SetWithCost yields c now k v cost ttl = Some (c', ok) \<and> ready m c' \<and> kin c c' \<and> ok = (\<not> c_closed c)"
proof -
  have m: "ready m c" by (rule ready_mono [OF assms(1)]) simp
  let ?cost = "set_cost (c_config c) v cost" and ?x = "set_expiry (c_config c) now ttl"
  let ?item = "\<lparr>wi_entry = \<lparr>eKey = k, eValue = v, eKeyHash = c_KeyHash c k, eExpireAt = ?x, eCost = ?cost\<rparr>, wi_isSet = True\<rparr>"
  have cost: "i64 ?cost = ?cost" by (rule set_cost_typed) (use assms in \<open>simp_all add: ready_def\<close>)
  let ?h = "getKeyHash (c_store c) k"
  show ?thesis
  proof (cases "c_closed c \<or> c_writeBuffer c = None")
    case True
    then show ?thesis
      using m setSync_ready [OF m cost, of k v ?x] c_SetWithCost_sync [of c yields now k v cost ttl]
      by (cases "c_closed c") (auto simp: c_SetWithCost_def intro: kin_shell)
  next
    case False
    then have open_: "\<not> c_closed c" and wb: "c_writeBuffer c \<noteq> None" by auto
    have "write_ok c ?item" using cost by (simp add: write_ok_def c_KeyHash_def)
    from c_pushWrite_ready [OF assms(1) wb this, of yields] obtain c1 pushed where
      p: "c_pushWrite yields c ?item = Some (c1, pushed)" "ready m c1" "kin c c1" by blast
    have s: "c_SetWithCost yields c now k v cost ttl = (if \<not> pushed
        then setSync (c1\<lparr>c_metrics := incBufferDrop (c_metrics c1)\<rparr>) k v ?h ?cost ?x else Some (c1, True))"
      using open_ wb p(1) by (simp add: c_SetWithCost_def set_cost_def set_expiry_def c_KeyHash_def Let_def)
    let ?c2 = "c1\<lparr>c_metrics := incBufferDrop (c_metrics c1)\<rparr>"
    have "ready m ?c2" "getKeyHash (c_store ?c2) = getKeyHash (c_store c)" using p(2,3) by (simp_all add: kin_def)
    then obtain c3 where c3: "setSync ?c2 k v ?h ?cost ?x = Some (c3, True)" "ready m c3" "same_shell ?c2 c3"
      using setSync_ready [of m ?c2 ?cost k v ?x] cost by auto
    have "kin c c3" using kin_trans [OF p(3)] kin_shell [OF c3(3)] by simp
    then show ?thesis using s c3 p open_ by (cases pushed) auto
  qed
qed

lemma c_Delete_ready:
  assumes "ready (Suc m) c"
  shows "\<exists>c' ok. c_Delete yields c k = Some (c', ok) \<and> ready m c' \<and> kin c c'"
proof -
  have m: "ready m c" by (rule ready_mono [OF assms(1)]) simp
  let ?item = "\<lparr>wi_entry = \<lparr>eKey = k, eValue = c_zero c, eKeyHash = c_KeyHash c k, eExpireAt = 0, eCost = 0\<rparr>, wi_isSet = False\<rparr>"
  let ?h = "getKeyHash (c_store c) k"
  show ?thesis
  proof (cases "c_closed c \<or> c_writeBuffer c = None")
    case True
    moreover obtain c1 ok where "doDelete c k ?h = (c1, ok)" by (cases "doDelete c k ?h")
    ultimately show ?thesis
      using m doDelete_ready [OF m, of k]
      by (cases "c_closed c") (auto simp: c_Delete_def c_KeyHash_def intro: kin_shell)
  next
    case False
    then have open_: "\<not> c_closed c" and wb: "c_writeBuffer c \<noteq> None" by auto
    have "write_ok c ?item" by (simp add: write_ok_def c_KeyHash_def)
    from c_pushWrite_ready [OF assms(1) wb this, of yields] obtain c1 pushed where
      p: "c_pushWrite yields c ?item = Some (c1, pushed)" "ready m c1" "kin c c1" by blast
    let ?c2 = "c1\<lparr>c_metrics := incBufferDrop (c_metrics c1)\<rparr>"
    have s: "c_Delete yields c k = (if \<not> pushed then Some (doDelete ?c2 k ?h) else Some (c1, True))"
      using open_ wb p(1) by (simp add: c_Delete_def c_KeyHash_def Let_def)
    have r2: "ready m ?c2" "getKeyHash (c_store ?c2) = getKeyHash (c_store c)" using p(2,3) by (simp_all add: kin_def)
    note d = doDelete_ready [OF r2(1), of k, unfolded r2(2)]
    have "kin c (fst (doDelete ?c2 k ?h))" using kin_trans [OF p(3)] kin_shell d by fastforce
    moreover obtain c3 ok where "doDelete ?c2 k ?h = (c3, ok)" by (cases "doDelete ?c2 k ?h")
    ultimately show ?thesis using s d p by (cases pushed) auto
  qed
qed

lemma drains_ready:
  assumes "ready m c"
  shows "\<exists>c1 c2. c_drainWrites c = Some c1 \<and> c_drainReads c1 = Some c2 \<and> ready m c2 \<and> kin c c2"
proof -
  obtain c1 where c1: "c_drainWrites c = Some c1" "ready m c1" "kin c c1" using c_drainWrites_ready [OF assms] by blast
  then show ?thesis using c_drainReads_ready [OF c1(2)] kin_trans [OF c1(3)] by blast
qed

text \<open>Whether the calls of \<open>FlushSync\<close> get an answer: only those on a closed cache may not.\<close>

definition sync_answered :: "bool \<times> bool \<Rightarrow> ('k, 'v) Cache \<Rightarrow> bool" where
  "sync_answered picks c \<longleftrightarrow>
     (c_closed c \<longrightarrow> (c_writeBuffer c = None \<or> fst picks) \<and> (c_readBuffer c = None \<or> snd picks))"

lemma c_Wait_closed: "c_closed c \<Longrightarrow> c_Wait picks c = (if sync_answered picks c then Some c else None)"
  by (auto simp: c_Wait_def c_syncWrites_def c_syncReads_def sync_answered_def c_drainWrites_def c_drainReads_def)

lemma c_Wait_open: "\<not> c_closed c \<Longrightarrow> ready m c \<Longrightarrow> c_Wait picks c = do { c \<leftarrow> c_drainWrites c; c_drainReads c }"
  using c_drainWrites_ready [of m c] by (auto simp: c_Wait_def c_syncWrites_def c_syncReads_def kin_def)

lemma c_Wait_ready:
  assumes "ready m c"
  shows "if sync_answered picks c then \<exists>c'. c_Wait picks c = Some c' \<and> ready m c' \<and> kin c c' else c_Wait picks c = None"
proof (cases "c_closed c")
  case True
  then show ?thesis using assms by (simp add: c_Wait_closed kin_def)
next
  case False
  then have "sync_answered picks c" by (simp add: sync_answered_def)
  with drains_ready [OF assms] c_Wait_open [OF False assms] show ?thesis by auto
qed

lemma c_removeExpired_ready:
  assumes "ready m c"
  shows "ready m (c_removeExpired c now) \<and> kin c (c_removeExpired c now)"
proof -
  have inv: "core_inv c" and h: "hashed c" using assms by (auto simp: ready_def)
  obtain w xs where a: "w_Advance (c_wheel c) now = (w, xs)" by (cases "w_Advance (c_wheel c) now")
  have w: "w_sane w" "mset xs + w_pending w = w_pending (c_wheel c)"
    using w_Advance_any [OF _ a] h by (auto simp: hashed_def)
  let ?c = "c\<lparr>c_wheel := w\<rparr>"
  have sub: "x \<in># w_pending (c_wheel c)" if "x \<in> set xs \<or> x \<in># w_pending w" for x
    using that w(2) by (metis Un_iff set_mset_mset set_mset_union)
  have hs: "hashed ?c" using h w(1) sub by (auto simp: hashed_def)
  have "core_inv ?c" using inv by (simp add: core_inv_def)
  moreover have "\<forall>x\<in>set xs. w_KeyHash x = getKeyHash (c_store ?c) (w_Key x)" using h sub by (auto simp: hashed_def)
  ultimately have f: "core_inv (c_removeExpired c now)" "same_shell ?c (c_removeExpired c now)"
    "c_wheel (c_removeExpired c now) = w" using expire_fold [of ?c xs now] a by (auto simp: c_removeExpired_def)
  have live: "Policer_live (c_policy (foldl (expire_item now) d ys)) = Policer_live (c_policy d)" for d :: "('a, 'b) Cache" and ys
  proof (induction ys arbitrary: d)
    case (Cons y ys)
    have "Policer_live (c_policy (expire_item now d y)) = Policer_live (c_policy d)"
      by (simp add: expire_item_def Let_def po.live_same split: prod.split option.split)
    then show ?case using Cons by simp
  qed simp
  have "hashed (c_removeExpired c now)"
    by (rule hashed_same [OF hs]) (use f in \<open>auto simp: same_shell_def\<close>)
  moreover have "Policer_live (c_policy (c_removeExpired c now))"
    using assms live [of ?c xs] a by (simp add: c_removeExpired_def ready_def)
  ultimately have "ready m (c_removeExpired c now)" using ready_shell [OF assms f(1)] f(2) by (simp add: same_shell_def)
  then show ?thesis using f(2) by (auto dest: kin_shell simp: kin_def)
qed

lemma concat_map_Nil: "concat (map (\<lambda>b. []) xs) = []"
  by (induction xs) simp_all

lemma radix_ok_empty:
  assumes "radix_ok isS any m r"
  shows "radix_ok isS any Map.empty (map_option radix_Clear r)"
proof (cases r)
  case (Some t)
  then show ?thesis using assms radix_Clear_inv [of t] by (auto simp: radix_ok_def)
qed (simp add: radix_ok_def)

lemma c_Clear_ready:
  assumes "ready m c" "sync_answered picks c"
  shows "\<exists>c'. c_Clear picks c now = Some c' \<and> ready m c' \<and> c_map c' = Map.empty \<and> c_Len c' = 0 \<and> kin c c'"
proof -
  obtain c1 where c1: "c_Wait picks c = Some c1" "ready m c1" "kin c c1"
    using c_Wait_ready [OF assms(1), of picks] assms(2) by auto
  define c2 where "c2 = c1\<lparr>c_store := st_Clear (c_store c1), c_policy := Policer_Clear (c_policy c1),
    c_wheel := w_Clear (c_wheel c1) now, c_radix := map_option radix_Clear (c_radix c1),
    c_metrics := metrics_Reset (c_metrics c1), c_liveCost := 0\<rparr>"
  have r: "c_Clear picks c now = Some c2" using c1(1) by (simp add: c_Clear_def c2_def)
  have d: "data_inv c1" and p: "Policer_inv (c_policy c1)" using c1(2) by (auto simp: ready_def core_inv_def)
  have st: "st_inv (st_Clear (c_store c1))" "st_map (st_Clear (c_store c1)) = Map.empty"
    using st_Clear_map [of "c_store c1"] d by (simp_all add: data_inv_def)
  have m: "c_map c2 = Map.empty" using st(2) by (simp add: c2_def c_map_def)
  have "data_inv c2"
    unfolding data_inv_def m using d st(1) by (auto simp: c2_def data_inv_def radix_ok_empty)
  then have core: "core_inv c2"
    unfolding core_inv_def m using p by (simp add: c2_def po.inv_clear po.tracked_clear)
  have w: "write_ok c2 = write_ok c1" by (simp add: c2_def write_ok_def fun_eq_iff)
  have "writes_ok m c2" using c1(2) by (cases "c_writeBuffer c1") (simp_all add: c2_def writes_ok_def ready_def w [unfolded c2_def])
  moreover have "hashed c2"
    using c1(2) by (simp add: hashed_def c2_def ready_def w_sane_def w_Clear_def w_pending_def concat_map_Nil)
  moreover have "Policer_live (c_policy c2)" "reads_ok m c2" "typed_costs (c_config c2)"
    using c1(2) by (simp_all add: c2_def ready_def reads_ok_def po.live_same)
  ultimately have "ready m c2" using core by (simp add: ready_def)
  moreover have "kin c1 c2" by (simp add: kin_def c2_def)
  ultimately show ?thesis
    using r m c_Len_card [OF core] kin_trans [OF c1(3)] by (auto simp: c_Len_def)
qed

lemma c_Clear_unanswered: "ready m c \<Longrightarrow> \<not> sync_answered picks c \<Longrightarrow> c_Clear picks c now = None"
  using c_Wait_ready [of m c picks] by (simp add: c_Clear_def)

lemma c_Close_ready:
  assumes "ready m c"
  shows "\<exists>c'. c_Close c = Some c' \<and> ready m c' \<and> c_closed c' \<and> (c_writeBuffer c' = None \<longleftrightarrow> c_writeBuffer c = None)"
proof (cases "c_closed c")
  case True
  then show ?thesis using assms by (simp add: c_Close_def)
next
  case False
  let ?c = "c\<lparr>c_closed := True\<rparr>"
  have w: "write_ok ?c = write_ok c" by (simp add: write_ok_def fun_eq_iff)
  have "core_inv ?c" using assms by (simp add: ready_def core_inv_def data_inv_def c_map_def)
  moreover have "writes_ok m ?c" using assms by (cases "c_writeBuffer c") (simp_all add: ready_def writes_ok_def w)
  ultimately have "ready m ?c" using assms by (simp add: ready_def hashed_def reads_ok_def)
  from drains_ready [OF this] show ?thesis using False by (auto simp: c_Close_def kin_def)
qed

subsection \<open>Runs\<close>

text \<open>
  A step is a call of a public operation, or, until the cache is closed, one batch of a flusher or one
  tick of the expiration worker. The count of a run bounds the items that the counters of the rings have numbered.
\<close>

inductive cache_step :: "('k, 'v) Cache \<Rightarrow> ('k, 'v) Cache \<Rightarrow> bool" where
  step_Get: "c_Get c now k = Some (c', r) \<Longrightarrow> cache_step c c'"
| step_Set: "c_SetWithCost yields c now k v cost ttl = Some (c', ok) \<Longrightarrow> i64 cost = cost \<Longrightarrow> cache_step c c'"
| step_Delete: "c_Delete yields c k = Some (c', ok) \<Longrightarrow> cache_step c c'"
| step_flushWrites: "\<not> c_closed c \<Longrightarrow> c_flushWrites c = Some c' \<Longrightarrow> cache_step c c'"
| step_flushReads: "\<not> c_closed c \<Longrightarrow> c_flushReads c = Some c' \<Longrightarrow> cache_step c c'"
| step_expire: "\<not> c_closed c \<Longrightarrow> cache_step c (c_removeExpired c now)"
| step_Wait: "c_Wait picks c = Some c' \<Longrightarrow> cache_step c c'"
| step_Clear: "c_Clear picks c now = Some c' \<Longrightarrow> cache_step c c'"
| step_Close: "c_Close c = Some c' \<Longrightarrow> cache_step c c'"

inductive reaches :: "('k, 'v) Cache \<Rightarrow> nat \<Rightarrow> ('k, 'v) Cache \<Rightarrow> bool" for c0 where
  start: "reaches c0 0 c0"
| then_step: "reaches c0 n c \<Longrightarrow> cache_step c c' \<Longrightarrow> reaches c0 (Suc n) c'"

inductive_cases cache_stepE: "cache_step c c'"

lemma step_ready:
  assumes "cache_step c c'" "ready (Suc m) c"
  shows "ready m c'"
proof -
  have m: "ready m c" by (rule ready_mono [OF assms(2)]) simp
  show ?thesis
    using assms(1)
  proof (cases rule: cache_step.cases)
    case (step_Get now k r)
    then show ?thesis using c_Get_ready [OF assms(2), of now k] by auto
  next
    case (step_Set yields now k v cost ttl ok)
    then show ?thesis using c_SetWithCost_ready [OF assms(2), of cost yields now k v ttl] by auto
  next
    case (step_Delete yields k ok)
    then show ?thesis using c_Delete_ready [OF assms(2), of yields k] by auto
  next
    case step_flushWrites
    then show ?thesis using c_flushWrites_ready [OF m] by auto
  next
    case step_flushReads
    then show ?thesis using c_flushReads_ready [OF m] by auto
  next
    case (step_expire now)
    then show ?thesis using c_removeExpired_ready [OF m] by simp
  next
    case (step_Wait picks)
    then show ?thesis using c_Wait_ready [OF m, of picks] by (auto split: if_splits)
  next
    case (step_Clear picks now)
    then show ?thesis using c_Clear_ready [OF m, of picks now] c_Clear_unanswered [OF m, of picks now]
      by (cases "sync_answered picks c") auto
  next
    case step_Close
    then show ?thesis using c_Close_ready [OF m] by auto
  qed
qed

lemma reaches_ready: "reaches c0 n c \<Longrightarrow> ready (n + m) c0 \<Longrightarrow> ready m c"
proof (induction arbitrary: m rule: reaches.induct)
  case (then_step n c c')
  have "ready (Suc m) c" using then_step.IH [of "Suc m"] then_step.prems by simp
  then show ?case using step_ready [OF then_step.hyps(2)] by simp
qed simp

end
