(* ===== verification/CacheStart.thy ===== *)
theory CacheStart
  imports CacheReach
begin

text \<open>
  \<open>NewCache\<close> builds a state that is ready for calls, and the batch reads of \<open>cache.go\<close>.
\<close>

subsection \<open>Construction\<close>

text \<open>
  What construction relies on: the runtime gives four sketch seeds and fair draws, the floating
  point sizing of the lock-free doorkeeper stays below its cap, a string-keyed cache is typed as
  such, and the options stay in the range that the 64-bit arithmetic of the constructors covers.
\<close>

definition env_ok :: "('k, 'v) env \<Rightarrow> bool" where
  "env_ok env \<longleftrightarrow>
     4 \<le> length (env_rand env) \<and> fair (env_draws env) \<and> (\<forall>n. env_optBits env n < 2 ^ 60) \<and>
     (as_string (env_any env (env_zeroK env)) \<noteq> None \<longrightarrow>
        (\<forall>k. as_string (env_any env k) \<noteq> None) \<and>
        (\<forall>k k'. as_string (env_any env k) = as_string (env_any env k') \<longrightarrow> k = k'))"

definition config_ok :: "('k, 'v) config \<Rightarrow> bool" where
  "config_ok cfg \<longleftrightarrow>
     NumCounters cfg \<le> 2 ^ 52 \<and> MaxEntries cfg \<le> 2 ^ 48 \<and> ShardCount cfg \<le> 2 ^ 32 \<and>
     BufferItems cfg \<le> 2 ^ 31 \<and> ExpiryResolution cfg < 2 ^ 62 \<and> typed_costs cfg"

lemma NewPolicy_ok:
  assumes "n \<le> 2 ^ 52" "e \<le> 2 ^ 48" "4 \<le> length rand" "fair draws"
  shows "\<exists>p. NewPolicy zero rand draws n c e = Some p \<and> pol_inv p \<and> pol_live p \<and> pol_tracked p = Map.empty"
proof -
  define m0 where "m0 = (if n \<le> 0 \<and> e > 0 then i64 (e * 10) else n)"
  define m where "m = (if m0 \<le> 0 then 2 ^ 20 else m0)"
  have "m \<le> 2 ^ 52" using assms(1,2) by (auto simp: m_def m0_def i64_simps)
  then obtain t where "NewTinyLFU m rand = Some t" "tl_inv t" using NewTinyLFU_inv assms(3) by blast
  then have "NewPolicy zero rand draws n c e = Some \<lparr>pol_admit = t, pol_evict = NewSampledLFU c e draws, pol_zero = zero\<rparr>"
    by (simp add: NewPolicy_def m0_def [symmetric] m_def [symmetric])
  then show ?thesis using assms(4) \<open>tl_inv t\<close>
    by (simp add: pol_inv_def pol_live_def pol_tracked_def lfu_inv_new) (simp add: NewSampledLFU_def)
qed

lemma NewPolicyLockFree_ok:
  assumes "n \<le> 2 ^ 52" "e \<le> 2 ^ 48" "4 \<le> length rand" "fair draws" "\<And>n. optBits n < 2 ^ 60"
  shows "\<exists>p. NewPolicyLockFree optBits optHash zero rand draws n c e = Some p \<and> plf_inv p \<and> plf_live p \<and>
    plf_tracked p = Map.empty"
proof -
  define m0 where "m0 = (if n \<le> 0 \<and> e > 0 then i64 (e * 10) else n)"
  define m where "m = (if m0 \<le> 0 then 2 ^ 20 else m0)"
  have "m \<le> 2 ^ 52" using assms(1,2) by (auto simp: m_def m0_def i64_simps)
  then obtain t where t: "NewTinyLFULockFree optBits optHash m rand = Some t" "tf_inv t"
    using NewTinyLFULockFree_inv [of m rand optBits optHash] assms(3,5) by blast
  then have "NewPolicyLockFree optBits optHash zero rand draws n c e =
      Some \<lparr>plf_admit = t, plf_evict = NewSampledLFU c e draws, plf_zero = zero\<rparr>"
    by (simp add: NewPolicyLockFree_def m0_def [symmetric] m_def [symmetric])
  then show ?thesis using assms(4) t(2)
    by (simp add: plf_inv_def plf_live_def plf_tracked_def lfu_inv_new) (simp add: NewSampledLFU_def)
qed

text \<open>The policy that the configuration asks for.\<close>

lemma NewPolicer_ok:
  fixes env :: "('k, 'v) env" and cfg :: "('k, 'v) config"
  assumes env: "env_ok env" and cfg: "NumCounters cfg \<le> 2 ^ 52" "MaxEntries cfg \<le> 2 ^ 48"
  shows "\<exists>pol. (if UseLockFreePolicy cfg
      then map_option LockFree (NewPolicyLockFree (env_optBits env) (env_optHash env)
             (env_zeroK env) (env_rand env) (env_draws env) (NumCounters cfg) (MaxCost cfg) (MaxEntries cfg))
      else map_option Locked (NewPolicy (env_zeroK env) (env_rand env) (env_draws env)
             (NumCounters cfg) (MaxCost cfg) (MaxEntries cfg))) = Some pol \<and>
    Policer_inv pol \<and> Policer_live pol \<and> Policer_tracked pol = Map.empty"
proof -
  have e: "4 \<le> length (env_rand env)" "fair (env_draws env)" "\<And>n. env_optBits env n < 2 ^ 60"
    using env by (auto simp: env_ok_def)
  show ?thesis
  proof (cases "UseLockFreePolicy cfg")
    case True
    obtain p where "NewPolicyLockFree (env_optBits env) (env_optHash env) (env_zeroK env) (env_rand env) (env_draws env)
        (NumCounters cfg) (MaxCost cfg) (MaxEntries cfg) = Some p" "plf_inv p" "plf_live p" "plf_tracked p = Map.empty"
      using NewPolicyLockFree_ok [where optBits = "env_optBits env" and optHash = "env_optHash env" and zero = "env_zeroK env"
        and c = "MaxCost cfg", OF cfg e] by (elim exE conjE)
    then show ?thesis using True by simp
  next
    case False
    obtain p where "NewPolicy (env_zeroK env) (env_rand env) (env_draws env)
        (NumCounters cfg) (MaxCost cfg) (MaxEntries cfg) = Some p" "pol_inv p" "pol_live p" "pol_tracked p = Map.empty"
      using NewPolicy_ok [where zero = "env_zeroK env" and c = "MaxCost cfg", OF cfg e(1,2)] by (elim exE conjE)
    then show ?thesis using False by simp
  qed
qed

lemma NewCache_ready:
  fixes env :: "('k, 'v) env" and opts :: "('k, 'v) Option list"
  assumes env: "env_ok env" and cfg: "config_ok (apply_options opts)" and now: "0 \<le> now"
  shows "\<exists>c. NewCache env now opts = Some c \<and> ready (2 ^ 62) c \<and> wheel_inv c \<and> c_map c = Map.empty \<and>
    \<not> c_closed c \<and> c_wheel c = NewExpiryWheel now (ExpiryResolution (apply_options opts)) \<and>
    (\<exists>z. c_writeBuffer c = (if BufferItems (apply_options opts) > 0
       then Some (NewRingBuffer z (i64 (BufferItems (apply_options opts) * 2))) else None))"
proof -
  let ?cfg0 = "apply_options opts :: ('k, 'v) config"
  define cfg where "cfg = (if NumCounters ?cfg0 \<le> 0
    then (if MaxEntries ?cfg0 > 0 then ?cfg0\<lparr>NumCounters := i64 (MaxEntries ?cfg0 * 10)\<rparr> else ?cfg0\<lparr>NumCounters := 2 ^ 20\<rparr>)
    else ?cfg0)"
  have g: "NumCounters cfg \<le> 2 ^ 52" "MaxEntries cfg \<le> 2 ^ 48" "ShardCount cfg \<le> 2 ^ 32" "BufferItems cfg \<le> 2 ^ 31"
    "ExpiryResolution cfg < 2 ^ 62" "typed_costs cfg" "BufferItems cfg = BufferItems ?cfg0"
    "ExpiryResolution cfg = ExpiryResolution ?cfg0"
    using cfg by (auto simp: cfg_def config_ok_def typed_costs_def i64_simps)
  define isS where "isS = (as_string (env_any env (env_zeroK env)) \<noteq> None)"
  obtain pol where pol: "(if UseLockFreePolicy cfg
      then map_option LockFree (NewPolicyLockFree (env_optBits env) (env_optHash env)
             (env_zeroK env) (env_rand env) (env_draws env) (NumCounters cfg) (MaxCost cfg) (MaxEntries cfg))
      else map_option Locked (NewPolicy (env_zeroK env) (env_rand env) (env_draws env)
             (NumCounters cfg) (MaxCost cfg) (MaxEntries cfg))) = Some pol"
    "Policer_inv pol" "Policer_live pol" "Policer_tracked pol = Map.empty"
    using NewPolicer_ok [OF env g(1,2)] by blast
  let ?zero = "\<lparr>wi_entry = \<lparr>eKey = env_zeroK env, eValue = env_zeroV env, eKeyHash = 0, eExpireAt = 0, eCost = 0\<rparr>, wi_isSet = False\<rparr>"
  define c where "c = \<lparr>c_store = NewShardedStore (env_any env) (ShardCount cfg) (KeyHasher cfg),
      c_policy = pol, c_wheel = NewExpiryWheel now (ExpiryResolution cfg),
      c_radix = (if isS \<and> EnablePrefixSearch cfg then Some radix_New else None),
      c_metrics = (if MetricsEnabled cfg then Some newMetrics else None), c_config = cfg,
      c_writeBuffer = (if BufferItems cfg > 0 then Some (NewRingBuffer ?zero (i64 (BufferItems cfg * 2))) else None),
      c_readBuffer = (if MaxEntries cfg > 0 \<or> MaxCost cfg > 0 then Some (NewRingBuffer 0 1024) else None),
      c_closed = False, c_liveCost = 0, c_isStringKey = isS, c_zero = env_zeroV env, c_events = []\<rparr>"
  have r: "NewCache env now opts = Some c"
    unfolding NewCache_def Let_def cfg_def [symmetric] pol(1) isS_def [symmetric] by (simp add: c_def)
  have st: "st_inv (c_store c)" and m: "c_map c = Map.empty"
    using NewShardedStore_inv [OF g(3), of "env_any env" "KeyHasher cfg"] by (simp_all add: c_def c_map_def)
  have any: "st_any (c_store c) = env_any env" by (simp add: c_def NewShardedStore_def Let_def)
  have rad: "radix_ok isS (env_any env) Map.empty (c_radix c)"
  proof (cases "isS \<and> EnablePrefixSearch cfg")
    case True
    then show ?thesis using env radix_New_inv unfolding env_ok_def isS_def [symmetric] by (simp add: c_def radix_ok_def)
  next
    case False
    then show ?thesis by (simp only: c_def radix_ok_def) simp
  qed
  have "data_inv c"
    unfolding data_inv_def m any using st rad by (simp add: c_def)
  then have core: "core_inv c"
    unfolding core_inv_def m using pol by (simp add: c_def fun_eq_iff)
  note wh = NewExpiryWheel_inv [OF now g(5)]
  have hashed: "hashed c" by (simp add: hashed_def c_def wh w_inv_sane)
  have wheel: "wheel_inv c" unfolding wheel_inv_def m by (simp add: c_def wh)
  have reads: "reads_ok (2 ^ 62) c"
    using NewRingBuffer_inv [of 1024 "0 :: u64"] by (simp add: reads_ok_def c_def)
  have b: "i64 (BufferItems cfg * 2) = BufferItems cfg * 2" if "BufferItems cfg > 0"
    using g(4) that by (intro i64_id) auto
  have writes: "writes_ok (2 ^ 62) c"
  proof (cases "BufferItems cfg > 0")
    case True
    then have "BufferItems cfg * 2 \<noteq> 1" "BufferItems cfg * 2 \<le> 2 ^ 32" using g(4) by (presburger, simp)
    from NewRingBuffer_inv [OF this, of ?zero] show ?thesis using True b by (simp add: writes_ok_def c_def)
  qed (simp add: writes_ok_def c_def)
  have "ready (2 ^ 62) c" using core hashed reads writes pol(3) g(6) by (simp add: ready_def c_def)
  then show ?thesis using r wheel m g(7,8) by (intro exI [of _ c]) (auto simp: c_def)
qed

subsection \<open>Batch reads\<close>

text \<open>
  A batch read answers each key as \<open>Get\<close> does, whichever of the two lookup orders it uses.
\<close>

definition batch_of :: "('k, 'v) Cache \<Rightarrow> int \<Rightarrow> 'k list \<Rightarrow> ('k, 'v) BatchResult" where
  "batch_of c now keys =
     \<lparr>b_Keys = keys, b_Values = map (\<lambda>k. case visible c now k of Some v \<Rightarrow> v | None \<Rightarrow> c_zero c) keys,
      b_Found = map (\<lambda>k. visible c now k \<noteq> None) keys, b_Hashes = map (c_KeyHash c) keys\<rparr>"

lemma st_Get_visible:
  "\<not> c_closed c \<Longrightarrow> map_option eValue (st_Get (c_store c) now k) = visible c now k"
  by (simp add: visible_def st_Get_ByHash st_GetByHash_map c_map_def split: option.split)

lemma replicate_diff: "j < n \<Longrightarrow> replicate (n - j) x = x # replicate (n - Suc j) x"
  by (metis Suc_diff_Suc replicate_Suc)

lemma update_middle: "length xs = k \<Longrightarrow> (xs @ y # ys)[k := z] = xs @ z # ys"
  by (metis list_update_length)

lemma batch_copy_step:
  assumes "ready (Suc m) c" "\<not> c_closed c" "found ! i = (entries ! i \<noteq> None)"
    "entries ! i = st_Get (c_store c) now k"
  shows "\<exists>c'. batch_copy entries found (c, res) i =
      Some (c', case visible c now k of None \<Rightarrow> res
        | Some v \<Rightarrow> res\<lparr>b_Values := (b_Values res)[i := v], b_Found := (b_Found res)[i := True]\<rparr>) \<and>
    ready m c' \<and> kin c c' \<and> c_store c' = c_store c"
proof (cases "st_Get (c_store c) now k")
  case None
  then have "visible c now k = None" using st_Get_visible [OF assms(2), of now k] by simp
  then show ?thesis using None assms ready_mono [OF assms(1), of m] by (simp add: batch_copy_def)
next
  case (Some e)
  then have v: "visible c now k = Some (eValue e)" using st_Get_visible [OF assms(2), of now k] by simp
  obtain c1 where "recordAccess c (b_Hashes res ! i) = Some c1" "ready m c1" "kin c c1" "c_store c1 = c_store c"
    using recordAccess_ready [OF assms(1)] by blast
  then show ?thesis using Some v assms(3,4) by (simp add: batch_copy_def)
qed

lemma batch_copy_run:
  fixes c :: "('k, 'v) Cache" and keys :: "'k list" and now :: int and m j :: nat
  assumes c: "ready (length keys + m) c" "\<not> c_closed c" and j: "j \<le> length keys"
  defines "got \<equiv> map (st_Get (c_store c) now) keys" and "found \<equiv> map (\<lambda>k. st_Get (c_store c) now k \<noteq> None) keys"
    and "val \<equiv> (\<lambda>k. case visible c now k of Some v \<Rightarrow> v | None \<Rightarrow> c_zero c)"
    and "hit \<equiv> (\<lambda>k. visible c now k \<noteq> None)"
    and "res \<equiv> (\<lambda>vs fs. \<lparr>b_Keys = keys, b_Values = vs, b_Found = fs, b_Hashes = map (c_KeyHash c) keys\<rparr>)"
  shows "\<exists>c'. foldM (batch_copy got found) (c, res (replicate (length keys) (c_zero c)) (replicate (length keys) False)) [0..<j] =
      Some (c', res (map val (take j keys) @ replicate (length keys - j) (c_zero c))
                    (map hit (take j keys) @ replicate (length keys - j) False)) \<and>
      ready (length keys - j + m) c' \<and> kin c c' \<and> c_store c' = c_store c"
  using j
proof (induction j)
  case 0
  then show ?case using c(1) by simp
next
  case (Suc j)
  let ?n = "length keys" and ?k = "keys ! j"
  let ?vs = "\<lambda>j. map val (take j keys) @ replicate (?n - j) (c_zero c)"
  let ?fs = "\<lambda>j. map hit (take j keys) @ replicate (?n - j) False"
  obtain c1 where c1: "foldM (batch_copy got found) (c, res (replicate ?n (c_zero c)) (replicate ?n False)) [0..<j] =
      Some (c1, res (?vs j) (?fs j))" "ready (?n - j + m) c1" "kin c c1" "c_store c1 = c_store c"
    using Suc by auto
  have "Suc (?n - Suc j + m) = ?n - j + m" using Suc.prems by simp
  then have r: "ready (Suc (?n - Suc j + m)) c1" using c1(2) by (simp only:)
  have cl: "\<not> c_closed c1" and vis: "visible c1 = visible c"
    using c(2) c1(3) visible_same [OF c1(3,4)] by (simp_all add: kin_def)
  obtain c2 where c2: "batch_copy got found (c1, res (?vs j) (?fs j)) j = Some (c2, case visible c now ?k of
        None \<Rightarrow> res (?vs j) (?fs j)
      | Some v \<Rightarrow> (res (?vs j) (?fs j))\<lparr>b_Values := (b_Values (res (?vs j) (?fs j)))[j := v],
                                     b_Found := (b_Found (res (?vs j) (?fs j)))[j := True]\<rparr>)"
    "ready (?n - Suc j + m) c2" "kin c1 c2" "c_store c2 = c_store c1"
    using batch_copy_step [OF r cl, of found j got now ?k "res (?vs j) (?fs j)"] Suc.prems c1(4)
    unfolding vis by (auto simp: got_def found_def)
  have tk: "take (Suc j) keys = take j keys @ [?k]" using Suc.prems by (simp add: take_Suc_conv_app_nth)
  have "(case visible c now ?k of None \<Rightarrow> res (?vs j) (?fs j)
      | Some v \<Rightarrow> (res (?vs j) (?fs j))\<lparr>b_Values := (b_Values (res (?vs j) (?fs j)))[j := v],
                                     b_Found := (b_Found (res (?vs j) (?fs j)))[j := True]\<rparr>) = res (?vs (Suc j)) (?fs (Suc j))"
    using Suc.prems by (simp add: tk replicate_diff res_def val_def hit_def update_middle split: option.split)
  then have "foldM (batch_copy got found) (c, res (replicate ?n (c_zero c)) (replicate ?n False)) [0..<Suc j] =
      Some (c2, res (?vs (Suc j)) (?fs (Suc j)))"
    using c1(1) c2(1) by (simp add: foldM_append)
  then show ?case using c2(2-4) c1(3,4) kin_trans by auto
qed

lemma c_GetBatch_spec:
  assumes c: "ready (length keys + m) c" "\<not> c_closed c"
  shows "\<exists>c'. c_GetBatch c now keys = Some (c', batch_of c now keys) \<and> ready m c' \<and> kin c c' \<and> c_store c' = c_store c"
proof (cases "keys = []")
  case True
  then show ?thesis using assms by (simp add: c_GetBatch_def batch_of_def)
next
  case False
  let ?req = "\<lparr>br_Keys = keys, br_Hashes = map (c_KeyHash c) keys, br_Results = [], br_Found = []\<rparr> :: ('a, 'b) BatchRequest"
  have q: "br_Results (st_GetBatch (c_store c) now ?req) = map (st_Get (c_store c) now) keys"
    "br_Found (st_GetBatch (c_store c) now ?req) = map (\<lambda>k. st_Get (c_store c) now k \<noteq> None) keys"
    using st_GetBatch_lookup [of ?req "c_store c" now] by (simp_all add: c_KeyHash_def)
  then show ?thesis
    using batch_copy_run [OF c order_refl, of now] False c(2)
    by (simp add: c_GetBatch_def batch_of_def Let_def)
qed

lemma c_GetBatchOptimized_spec:
  assumes c: "ready (length keys + m) c" "\<not> c_closed c" and sort: "\<And>infos. mset (sort_infos infos) = mset infos"
  shows "\<exists>c'. c_GetBatchOptimized sort_infos c now keys = Some (c', batch_of c now keys) \<and> ready m c'"
proof (cases "keys = []")
  case True
  then show ?thesis using assms by (simp add: c_GetBatchOptimized_def batch_of_def)
next
  case False
  then show ?thesis
    using batch_copy_run [OF c order_refl, of now] st_GetBatchByShardOrder_lookup [OF sort, of "c_store c" now keys] c(2)
    by (simp add: c_GetBatchOptimized_def batch_of_def Let_def) blast
qed

text \<open>
  The map of \<open>GetBatchToMap\<close> holds exactly the visible keys of the batch. On a closed cache the
  result has no \<open>Found\<close> slice, and the loop over the keys indexes it.
\<close>

lemma batch_map_spec:
  fixes r :: "('k, 'v) BatchResult"
  assumes "length (b_Found r) = length (b_Keys r)" "length (b_Values r) = length (b_Keys r)" "n \<le> length (b_Keys r)"
    "\<And>i. i < length (b_Keys r) \<Longrightarrow> (if b_Found r ! i then Some (b_Values r ! i) else None) = f (b_Keys r ! i)"
  shows "batch_map r (enumerate n (drop n (b_Keys r))) g =
    Inr (\<lambda>k. if k \<in> set (drop n (b_Keys r)) \<and> f k \<noteq> None then f k else g k)"
  using assms(3)
proof (induction "length (b_Keys r) - n" arbitrary: n g)
  case 0
  then show ?case by simp
next
  case (Suc x)
  then have n: "n < length (b_Keys r)" "x = length (b_Keys r) - Suc n" by auto
  have d: "drop n (b_Keys r) = b_Keys r ! n # drop (Suc n) (b_Keys r)" using n(1) by (simp add: Cons_nth_drop_Suc)
  note ih = Suc.hyps(1) [OF n(2)]
  show ?case
  proof (cases "b_Found r ! n")
    case True
    then have "f (b_Keys r ! n) = Some (b_Values r ! n)" using assms(4) [OF n(1)] by simp
    then show ?thesis using True n assms(1,2) ih [of "g(b_Keys r ! n \<mapsto> b_Values r ! n)"]
      by (simp add: d) (auto simp: fun_eq_iff)
  next
    case False
    then have "f (b_Keys r ! n) = None" using assms(4) [OF n(1)] by simp
    then show ?thesis using False n assms(1,2) ih [of g] by (simp add: d) (auto simp: fun_eq_iff)
  qed
qed

lemma c_GetBatchToMap_spec:
  assumes c: "ready (length keys + m) c" "\<not> c_closed c"
  shows "\<exists>c'. c_GetBatchToMap c now keys = Some (c', Inr (visible c now |` set keys))"
proof -
  obtain c' where c': "c_GetBatch c now keys = Some (c', batch_of c now keys)"
    using c_GetBatch_spec [OF assms] by blast
  let ?r = "batch_of c now keys"
  have "batch_map ?r (enumerate 0 (b_Keys ?r)) Map.empty =
      Inr (\<lambda>k. if k \<in> set (drop 0 (b_Keys ?r)) \<and> visible c now k \<noteq> None then visible c now k else None)"
    using batch_map_spec [of ?r 0 "visible c now" Map.empty] by (auto simp: batch_of_def split: option.split)
  then show ?thesis using c' by (auto simp: c_GetBatchToMap_def batch_of_def restrict_map_def fun_eq_iff)
qed

end
