(* ===== verification/CacheEdges.thy ===== *)
theory CacheEdges
  imports CacheStart
begin

text \<open>
  The order of writes through the buffer and around it, and the entries whose expiration is
  exactly the time of a sweep.
\<close>

subsection \<open>Reading one's own writes\<close>

lemma Set_then_visible:
  assumes "ready (Suc m) c" "\<not> c_closed c" "c_writeBuffer c = None" "i64 cost = cost"
  shows "\<exists>c'. c_SetWithCost yields c now k v cost ttl = Some (c', True) \<and> ready m c' \<and> kin c c' \<and>
    c_map c' k = Some (set_entry c now k v cost ttl)"
proof -
  obtain c' ok where s: "c_SetWithCost yields c now k v cost ttl = Some (c', ok)" "ready m c'" "kin c c'" "ok = (\<not> c_closed c)"
    using c_SetWithCost_ready [OF assms(1,4)] by blast
  have inv: "core_inv c" using assms(1) by (simp add: ready_def)
  have "i64 (set_cost (c_config c) v cost) = set_cost (c_config c) v cost"
    by (rule set_cost_typed) (use assms in \<open>simp_all add: ready_def\<close>)
  from c_SetWithCost_spec [OF inv assms(3,2) this s(1)] show ?thesis using s assms(2) by auto
qed

text \<open>A drain ends with the last queued write in force.\<close>

lemma c_drainWrites_last:
  assumes c: "ready m c" and rb: "c_writeBuffer c = Some rb" "rb_queue rb \<noteq> []"
  shows "\<exists>c2. c_drainWrites c = Some c2 \<and> core_inv c2 \<and> c_map c2 (eKey (wi_entry (last (rb_queue rb)))) =
    (if wi_isSet (last (rb_queue rb)) then Some (wi_entry (last (rb_queue rb))) else None)"
proof -
  have i: "rb_inv rb" "\<forall>x\<in>set (rb_queue rb). write_ok c x" using c rb(1) by (auto simp: ready_def writes_ok_def)
  obtain rb2 where d: "c_drainWrites c = foldM processWrite (c\<lparr>c_writeBuffer := Some rb2\<rparr>) (rb_queue rb)" "rb_inv rb2"
    "rb_queue rb2 = []" using c_drainWrites_queue [OF rb(1) i(1)] by blast
  let ?c2 = "c\<lparr>c_writeBuffer := Some rb2\<rparr>"
  have r: "ready 0 ?c2" by (rule ready_writeBuffer [OF c d(2)]) (use d in auto)
  have w: "\<forall>x\<in>set (rb_queue rb). write_ok ?c2 x" using i(2) by (auto simp: write_ok_def)
  obtain c2 where c2: "foldM processWrite ?c2 (rb_queue rb) = Some c2" using processWrites_ready [OF r w] by blast
  have "core_inv ?c2" using r by (simp add: ready_def)
  from processWrites_spec [OF this w c2] show ?thesis using rb(2) d(1) c2 by simp
qed

text \<open>A write that finds room in the buffer is applied by the next drain, after those before it.\<close>

lemma Set_queued:
  assumes c: "ready (Suc m) c" "\<not> c_closed c" and rb: "c_writeBuffer c = Some rb" "length (rb_queue rb) < rb_Cap rb"
    and cost: "i64 cost = cost"
  shows "\<exists>rb'. c_SetWithCost yields c now k v cost ttl = Some (c\<lparr>c_writeBuffer := Some rb'\<rparr>, True) \<and>
    rb_queue rb' = rb_queue rb @ [\<lparr>wi_entry = set_entry c now k v cost ttl, wi_isSet = True\<rparr>] \<and>
    rb_Cap rb' = rb_Cap rb \<and> ready m (c\<lparr>c_writeBuffer := Some rb'\<rparr>)"
proof -
  let ?item = "\<lparr>wi_entry = set_entry c now k v cost ttl, wi_isSet = True\<rparr>"
  have i: "rb_inv rb" "Suc m \<le> rb_room rb" "\<forall>x\<in>set (rb_queue rb). write_ok c x"
    using c(1) rb(1) by (auto simp: ready_def writes_ok_def)
  obtain rb' where p: "rb_Push rb ?item = Some (rb', True)" "rb_inv rb'" "rb_queue rb' = rb_queue rb @ [?item]"
    "rb_Cap rb' = rb_Cap rb" "rb_room rb' = rb_room rb - 1" using rb_push_room [OF i(1) rb(2), of ?item] i(2) by auto
  have sc: "i64 (set_cost (c_config c) v cost) = set_cost (c_config c) v cost"
    by (rule set_cost_typed) (use c cost in \<open>simp_all add: ready_def\<close>)
  have "c_SetWithCost yields c now k v cost ttl = Some (c\<lparr>c_writeBuffer := Some rb'\<rparr>, True)"
    using c(2) rb(1) p(1)
    by (simp add: c_SetWithCost_def c_pushWrite_def set_entry_def set_cost_def set_expiry_def Let_def)
  moreover have "ready m (c\<lparr>c_writeBuffer := Some rb'\<rparr>)"
    by (rule ready_writeBuffer [OF c(1) p(2)]) (use i sc p in \<open>auto simp: write_ok_def set_entry_def c_KeyHash_def\<close>)
  ultimately show ?thesis using p by blast
qed

lemma buffered_Set:
  assumes c: "ready (Suc m) c" "\<not> c_closed c" and rb: "c_writeBuffer c = Some rb" "length (rb_queue rb) < rb_Cap rb"
    and cost: "i64 cost = cost"
  shows "\<exists>c1 c2. c_SetWithCost yields c now k v cost ttl = Some (c1, True) \<and> c_drainWrites c1 = Some c2 \<and>
    c_store c1 = c_store c \<and> core_inv c2 \<and> c_map c2 k = Some (set_entry c now k v cost ttl)"
proof -
  obtain rb' where s: "c_SetWithCost yields c now k v cost ttl = Some (c\<lparr>c_writeBuffer := Some rb'\<rparr>, True)"
    "rb_queue rb' = rb_queue rb @ [\<lparr>wi_entry = set_entry c now k v cost ttl, wi_isSet = True\<rparr>]"
    "ready m (c\<lparr>c_writeBuffer := Some rb'\<rparr>)" using Set_queued [OF assms] by blast
  let ?c1 = "c\<lparr>c_writeBuffer := Some rb'\<rparr>"
  have i: "rb_inv rb'" "\<forall>x\<in>set (rb_queue rb'). write_ok ?c1 x" using s(3) by (auto simp: ready_def writes_ok_def)
  obtain c2 where c2: "c_drainWrites ?c1 = Some c2" "core_inv c2"
    "c_map c2 (eKey (wi_entry (last (rb_queue rb')))) =
       (if wi_isSet (last (rb_queue rb')) then Some (wi_entry (last (rb_queue rb'))) else None)"
    using c_drainWrites_last [OF s(3), of rb'] s(2) by auto
  then show ?thesis using s by (auto simp: set_entry_def)
qed

text \<open>
  A write that finds the buffer full, and no flush while it retries, is executed at once, while
  the writes queued before it are still pending: the next drain overwrites it with an older one.
\<close>

lemma saturated_Set:
  assumes c: "ready m c" "\<not> c_closed c" and rb: "c_writeBuffer c = Some rb" "length (rb_queue rb) = rb_Cap rb"
    and cost: "i64 cost = cost" and y: "\<And>i. \<not> yields i"
    and last: "rb_queue rb = before @ [old]" "eKey (wi_entry old) = k" "wi_isSet old"
  shows "\<exists>c1 c2. c_SetWithCost yields c now k v cost ttl = Some (c1, True) \<and>
    c_map c1 k = Some (set_entry c now k v cost ttl) \<and> c_drainWrites c1 = Some c2 \<and> c_map c2 k = Some (wi_entry old)"
proof -
  let ?c = "c\<lparr>c_metrics := incBufferDrop (c_metrics c)\<rparr>"
  let ?cost = "set_cost (c_config c) v cost" and ?x = "set_expiry (c_config c) now ttl"
  have i: "rb_inv rb" "\<forall>x\<in>set (rb_queue rb). write_ok c x"
    using c(1) rb(1) by (auto simp: ready_def writes_ok_def)
  have sc: "i64 ?cost = ?cost" by (rule set_cost_typed) (use c cost in \<open>simp_all add: ready_def\<close>)
  have s: "c_SetWithCost yields c now k v cost ttl = setSync ?c k v (getKeyHash (c_store c) k) ?cost ?x"
    using c(2) rb(1) c_pushWrite_full [OF rb(1) i(1) rb(2) y]
    by (simp add: c_SetWithCost_def c_KeyHash_def set_cost_def set_expiry_def Let_def)
  obtain c1 where c1: "setSync ?c k v (getKeyHash (c_store c) k) ?cost ?x = Some (c1, True)" "ready m c1" "same_shell ?c c1"
    using setSync_ready [of m ?c ?cost k v ?x] c(1) sc by auto
  have inv: "core_inv ?c" using c(1) by (simp add: ready_def)
  have "c_map c1 k = Some (set_entry c now k v cost ttl)"
    using setSync_spec [OF inv sc, of k v ?x c1 True] c1(1) by (auto simp: set_entry_def c_KeyHash_def)
  moreover have wb: "c_writeBuffer c1 = Some rb" using c1(3) rb(1) by (simp add: same_shell_def)
  from c_drainWrites_last [OF c1(2) this] obtain c2 where "c_drainWrites c1 = Some c2" "c_map c2 k = Some (wi_entry old)"
    using last by auto
  ultimately show ?thesis using s c1(1) by auto
qed

subsection \<open>An expiration at the time of a sweep\<close>

text \<open>
  \<open>Advance\<close> returns the items that expire at \<open>now\<close>, and \<open>DeleteIfExpired\<close> wants them to expire
  before it: an item of the tick that is swept leaves the wheel and its entry stays for good.
\<close>

definition orphan :: "('k, 'v) Cache \<Rightarrow> 'k \<Rightarrow> ('k, 'v) Entry \<Rightarrow> bool" where
  "orphan c k e \<longleftrightarrow> core_inv c \<and> w_inv (c_wheel c) \<and> hashed c \<and> c_map c k = Some e \<and>
     (\<forall>x\<in>#w_pending (c_wheel c). w_Key x = k \<longrightarrow> w_ExpireAt x \<noteq> eExpireAt e)"

lemma c_removeExpired_wheel:
  assumes "core_inv c" "hashed c"
  shows "c_wheel (c_removeExpired c now) = fst (w_Advance (c_wheel c) now)" "core_inv (c_removeExpired c now)"
    "getKeyHash (c_store (c_removeExpired c now)) = getKeyHash (c_store c)"
proof -
  obtain w xs where a: "w_Advance (c_wheel c) now = (w, xs)" by (cases "w_Advance (c_wheel c) now")
  have w: "mset xs + w_pending w = w_pending (c_wheel c)" using w_Advance_any [OF _ a] assms(2) by (auto simp: hashed_def)
  have "\<forall>x\<in>set xs. w_KeyHash x = getKeyHash (c_store (c\<lparr>c_wheel := w\<rparr>)) (w_Key x)"
    using assms(2) w by (auto simp: hashed_def) (metis Un_iff set_mset_mset set_mset_union)
  moreover have "core_inv (c\<lparr>c_wheel := w\<rparr>)" using assms(1) by (simp add: core_inv_def)
  ultimately show "c_wheel (c_removeExpired c now) = fst (w_Advance (c_wheel c) now)" "core_inv (c_removeExpired c now)"
    "getKeyHash (c_store (c_removeExpired c now)) = getKeyHash (c_store c)"
    using expire_fold [of "c\<lparr>c_wheel := w\<rparr>" xs now] a by (simp_all add: c_removeExpired_def same_shell_def)
qed

lemma unexpired_stays:
  assumes "core_inv c" "hashed c" "c_map c k = Some e" "\<not> IsExpired e now"
  shows "c_map (c_removeExpired c now) k = Some e"
proof -
  obtain w xs where a: "w_Advance (c_wheel c) now = (w, xs)" by (cases "w_Advance (c_wheel c) now")
  have w: "mset xs + w_pending w = w_pending (c_wheel c)" using w_Advance_any [OF _ a] assms(2) by (auto simp: hashed_def)
  let ?c = "c\<lparr>c_wheel := w\<rparr>"
  have "\<forall>x\<in>set xs. w_KeyHash x = getKeyHash (c_store ?c) (w_Key x)"
    using assms(2) w by (auto simp: hashed_def) (metis Un_iff set_mset_mset set_mset_union)
  moreover have "core_inv ?c" using assms(1) by (simp add: core_inv_def)
  moreover have "\<not> expire_hit now ?c x" if "w_Key x = k" for x
    using that assms(3,4) by (auto simp: expire_hit_def)
  ultimately show ?thesis
    using expire_fold [of ?c xs now] a assms(3) by (auto simp: c_removeExpired_def restrict_map_def)
qed

lemma orphan_sweep:
  assumes "orphan c k e" "0 \<le> now"
  shows "orphan (c_removeExpired c now) k e"
proof -
  have i: "core_inv c" "w_inv (c_wheel c)" "hashed c" "c_map c k = Some e"
    "\<forall>x\<in>#w_pending (c_wheel c). w_Key x = k \<longrightarrow> w_ExpireAt x \<noteq> eExpireAt e" using assms(1) by (auto simp: orphan_def)
  obtain w xs where a: "w_Advance (c_wheel c) now = (w, xs)" "w_inv w" "mset xs + w_pending w = w_pending (c_wheel c)"
    using w_Advance_spec [OF i(2) assms(2)] by blast
  note r = c_removeExpired_wheel [OF i(1,3), of now]
  have sub: "x \<in># w_pending (c_wheel c)" if "x \<in># w_pending w" for x
    using that a(3) by (metis Un_iff set_mset_union)
  have "c_map (c_removeExpired c now) k = Some e"
    by (rule unscheduled_stays [OF i(1,2) assms(2) _ i(4,5)]) (use i(3) in \<open>simp add: hashed_def\<close>)
  moreover have "hashed (c_removeExpired c now)"
    using r i(3) sub w_inv_sane [OF a(2)] by (auto simp: hashed_def a(1))
  ultimately show ?thesis using r a(1,2) i(5) sub by (auto simp: orphan_def)
qed

lemma orphan_forever: "orphan c k e \<Longrightarrow> \<forall>t\<in>set ts. 0 \<le> t \<Longrightarrow> orphan (foldl c_removeExpired c ts) k e"
  by (induction ts arbitrary: c) (simp_all add: orphan_sweep)

text \<open>How an entry becomes one: it expires at the start of the tick that is swept.\<close>

lemma exact_deadline_orphan:
  assumes c: "core_inv c" "w_inv (c_wheel c)" "hashed c" and k: "c_map c k = Some e"
    and due: "eExpireAt e = t" "0 < t" "w_resolution (c_wheel c) dvd t"
    and only: "\<forall>x\<in>#w_pending (c_wheel c). w_Key x = k \<longrightarrow> w_ExpireAt x = t"
  shows "orphan (c_removeExpired c t) k e"
proof -
  let ?r = "w_resolution (c_wheel c)"
  obtain w xs where a: "w_Advance (c_wheel c) t = (w, xs)" "w_inv w" "w_resolution w = ?r"
    "w_currentTick w = max (w_currentTick (c_wheel c)) (t div ?r)"
    "\<forall>y\<in>set xs. w_ExpireAt y \<le> t" "mset xs + w_pending w = w_pending (c_wheel c)"
    using w_Advance_spec [OF c(2), of t] due(2) by auto
  have stays: "c_map (c_removeExpired c t) k = Some e"
    by (rule unexpired_stays [OF c(1,3) k]) (use due in \<open>simp add: IsExpired_def\<close>)
  have sub: "x \<in># w_pending (c_wheel c)" if "x \<in># w_pending w" for x
    using that a(6) by (metis Un_iff set_mset_union)
  have "w_Key x \<noteq> k" if x: "x \<in># w_pending w" for x
  proof
    assume "w_Key x = k"
    then have xt: "w_ExpireAt x = t" using only sub [OF x] by simp
    have pl: "w_placed w" using a(2) by (simp add: w_inv_def)
    obtain b where "b \<in> set (w_buckets w)" "x \<in> set b" using x by (auto simp: w_pending_def)
    then have "w_time w (w_ExpireAt x)"
      using pl by (metis in_set_conv_nth w_placed_def)
    then have "(w_tick (w_resolution w) t - 1) * w_resolution w < t" using w_tick_bounds [OF pl] xt by simp
    moreover have "t div ?r \<le> w_tick (w_resolution w) t - 1"
      using a(2,4) x xt by (fastforce simp: w_inv_def)
    moreover have "0 < ?r" using c(2) by (simp add: w_inv_def w_placed_def)
    ultimately have "t div ?r * ?r < t" unfolding a(3) by (meson le_less_trans mult_right_mono less_imp_le)
    then show False using due(3) by simp
  qed
  moreover note r = c_removeExpired_wheel [OF c(1,3), of t]
  moreover have "hashed (c_removeExpired c t)"
    using r c(3) sub w_inv_sane [OF a(2)] by (auto simp: hashed_def a(1))
  ultimately show ?thesis using stays a(1,2) by (auto simp: orphan_def)
qed

end
