(* ===== verification/TimelyRuns.thy ===== *)
theory TimelyRuns
  imports CacheEdges
begin

text \<open>
  When entries leave the cache on time, and when they do not. The runs of the first part belong to a
  cache without a write buffer and to a clock that never goes back; in them every pending deadline is
  ahead of the wheel. The second part is about a write that waits in the buffer until the wheel has
  passed its deadline.
\<close>

subsection \<open>Runs in which the wheel keeps up\<close>

text \<open>
  One call after the other, each with its reading of the clock. Deadlines stay below \<open>2 ^ 62\<close>
  nanoseconds, and no tick of the worker reads a time at which a stored entry expires.
\<close>

inductive timely :: "('k, 'v) Cache \<Rightarrow> int \<Rightarrow> nat \<Rightarrow> ('k, 'v) Cache \<Rightarrow> int \<Rightarrow> bool" for c0 start where
  timely_start: "timely c0 start 0 c0 start"
| timely_Get: "timely c0 start n c t \<Longrightarrow> t \<le> now \<Longrightarrow> c_Get c now k = Some (c', r) \<Longrightarrow> timely c0 start (Suc n) c' now"
| timely_Set: "timely c0 start n c t \<Longrightarrow> t \<le> now \<Longrightarrow> c_SetWithCost yields c now k v cost ttl = Some (c', ok) \<Longrightarrow>
    i64 cost = cost \<Longrightarrow> now + ttl < 2 ^ 62 \<Longrightarrow> now + DefaultTTL (c_config c) < 2 ^ 62 \<Longrightarrow> timely c0 start (Suc n) c' now"
| timely_Delete: "timely c0 start n c t \<Longrightarrow> c_Delete yields c k = Some (c', ok) \<Longrightarrow> timely c0 start (Suc n) c' t"
| timely_flushReads: "timely c0 start n c t \<Longrightarrow> \<not> c_closed c \<Longrightarrow> c_flushReads c = Some c' \<Longrightarrow> timely c0 start (Suc n) c' t"
| timely_expire: "timely c0 start n c t \<Longrightarrow> \<not> c_closed c \<Longrightarrow> t \<le> now \<Longrightarrow>
    (\<And>k e. c_map c k = Some e \<Longrightarrow> eExpireAt e \<noteq> now) \<Longrightarrow> timely c0 start (Suc n) (c_removeExpired c now) now"
| timely_Wait: "timely c0 start n c t \<Longrightarrow> c_Wait picks c = Some c' \<Longrightarrow> timely c0 start (Suc n) c' t"
| timely_Clear: "timely c0 start n c t \<Longrightarrow> t \<le> now \<Longrightarrow> c_Clear picks c now = Some c' \<Longrightarrow> timely c0 start (Suc n) c' now"
| timely_Close: "timely c0 start n c t \<Longrightarrow> c_Close c = Some c' \<Longrightarrow> timely c0 start (Suc n) c' t"

lemma timely_reaches: "timely c0 start n c t \<Longrightarrow> reaches c0 n c"
  by (induction rule: timely.induct) (blast intro: reaches.intros cache_step.intros)+

text \<open>Reads, flushes of the reads and \<open>Close\<close> leave the wheel and the write buffer alone.\<close>

lemma recordAccess_wheel:
  "recordAccess c h = Some c' \<Longrightarrow>
    c_wheel c' = c_wheel c \<and> c_store c' = c_store c \<and> c_writeBuffer c' = c_writeBuffer c \<and> c_config c' = c_config c"
  by (auto simp: recordAccess_def split: if_splits option.splits)

lemma c_Get_wheel:
  "c_Get c now k = Some (c', r) \<Longrightarrow>
    c_wheel c' = c_wheel c \<and> c_store c' = c_store c \<and> c_writeBuffer c' = c_writeBuffer c \<and> c_config c' = c_config c"
  by (auto simp: c_Get_def Let_def bind_eq_Some_conv dest: recordAccess_wheel split: if_splits option.splits)

lemma processReadBatch_wheel:
  "c_wheel (processReadBatch c hs) = c_wheel c \<and> c_store (processReadBatch c hs) = c_store c \<and>
    c_writeBuffer (processReadBatch c hs) = c_writeBuffer c \<and> c_config (processReadBatch c hs) = c_config c"
  by (simp add: processReadBatch_def split: Policer.split)

lemma processReads_wheel:
  "c_wheel (foldl processReadBatch c bs) = c_wheel c \<and> c_store (foldl processReadBatch c bs) = c_store c \<and>
    c_writeBuffer (foldl processReadBatch c bs) = c_writeBuffer c \<and> c_config (foldl processReadBatch c bs) = c_config c"
  by (induction bs arbitrary: c) (simp_all add: processReadBatch_wheel)

lemma c_flushReads_wheel:
  "c_flushReads c = Some c' \<Longrightarrow>
    c_wheel c' = c_wheel c \<and> c_store c' = c_store c \<and> c_writeBuffer c' = c_writeBuffer c \<and> c_config c' = c_config c"
  by (auto simp: c_flushReads_def bind_eq_Some_conv Let_def processReadBatch_wheel split: option.splits if_splits)

lemma c_drainReads_wheel:
  "c_drainReads c = Some c' \<Longrightarrow>
    c_wheel c' = c_wheel c \<and> c_store c' = c_store c \<and> c_writeBuffer c' = c_writeBuffer c \<and> c_config c' = c_config c"
  by (auto simp: c_drainReads_def bind_eq_Some_conv Let_def processReads_wheel split: option.splits)

lemma c_Wait_wheel:
  "c_Wait picks c = Some c' \<Longrightarrow> c_writeBuffer c = None \<Longrightarrow>
    c_wheel c' = c_wheel c \<and> c_store c' = c_store c \<and> c_writeBuffer c' = None \<and> c_config c' = c_config c"
  using c_drainReads_wheel [of c c']
  by (auto simp: c_Wait_def c_syncWrites_def c_syncReads_def c_drainWrites_def split: if_splits)

lemma c_Close_wheel:
  "c_Close c = Some c' \<Longrightarrow> c_writeBuffer c = None \<Longrightarrow>
    c_wheel c' = c_wheel c \<and> c_store c' = c_store c \<and> c_writeBuffer c' = None \<and> c_config c' = c_config c"
  using c_drainReads_wheel [of "c\<lparr>c_closed := True\<rparr>" c']
  by (auto simp: c_Close_def c_drainWrites_def Let_def split: if_splits)

lemma wheel_inv_frame:
  assumes "wheel_inv c" "c_wheel c' = c_wheel c" "getKeyHash (c_store c') = getKeyHash (c_store c)"
    and "\<And>k e. c_map c' k = Some e \<Longrightarrow> c_map c k = Some e"
  shows "wheel_inv c'"
  unfolding wheel_inv_def assms(2,3)
proof (intro conjI allI impI)
  show "w_inv (c_wheel c)" "\<forall>x\<in>#w_pending (c_wheel c). w_KeyHash x = getKeyHash (c_store c) (w_Key x)"
    using assms(1) by (simp_all add: wheel_inv_def)
  show "\<lparr>w_Key = k, w_KeyHash = getKeyHash (c_store c) k, w_ExpireAt = eExpireAt e\<rparr> \<in># w_pending (c_wheel c)"
    if "c_map c' k = Some e" "0 < eExpireAt e" for k e
    using assms(1) assms(4) [OF that(1)] that(2) by (simp add: wheel_inv_def)
qed

text \<open>The invariant of such a run: the wheel has not passed the time of the last call.\<close>

definition on_time :: "('k, 'v) Cache \<Rightarrow> int \<Rightarrow> bool" where
  "on_time c t \<longleftrightarrow> wheel_inv c \<and> c_writeBuffer c = None \<and> 0 \<le> t \<and>
     w_currentTick (c_wheel c) * w_resolution (c_wheel c) \<le> t"

lemma on_time_later: "on_time c t \<Longrightarrow> t \<le> now \<Longrightarrow> on_time c now"
  by (simp add: on_time_def)

lemma on_time_frame:
  assumes "on_time c t" "c_wheel c' = c_wheel c \<and> c_store c' = c_store c \<and> c_writeBuffer c' = c_writeBuffer c \<and>
    c_config c' = c_config c"
  shows "on_time c' t"
  using assms wheel_inv_frame [of c c'] by (simp add: on_time_def c_map_def)

lemma on_time_Set:
  assumes c: "core_inv c" "typed_costs (c_config c)" "on_time c now" and cost: "i64 cost = cost"
    and s: "c_SetWithCost yields c now k v cost ttl = Some (c', ok)"
    and range: "now + ttl < 2 ^ 62" "now + DefaultTTL (c_config c) < 2 ^ 62"
  shows "on_time c' now"
proof (cases "c_closed c")
  case True
  then show ?thesis using s c(3) by (simp add: c_SetWithCost_def)
next
  case False
  let ?cost = "set_cost (c_config c) v cost" and ?x = "set_expiry (c_config c) now ttl" and ?w = "c_wheel c"
  have o: "wheel_inv c" "c_writeBuffer c = None" "0 \<le> now" "w_currentTick ?w * w_resolution ?w \<le> now"
    using c(3) by (simp_all add: on_time_def)
  have sc: "i64 ?cost = ?cost" by (rule set_cost_typed [OF c(2) cost])
  have r: "setSync c k v (getKeyHash (c_store c) k) ?cost ?x = Some (c', ok)"
    using s by (simp add: c_SetWithCost_sync [OF o(2) False])
  have "?x \<le> 0 \<or> now < ?x \<and> ?x < 2 ^ 62"
    using range o(3) by (auto simp: set_expiry_def Let_def i64_simps)
  moreover have "w_resolution ?w < 2 ^ 62" using o(1) by (simp add: wheel_inv_def w_inv_def w_placed_def)
  ultimately have sch: "schedulable c ?x" using o(4) by (auto simp: schedulable_def)
  have w: "c_wheel c' = (if ?x > 0 then w_Schedule ?w k (getKeyHash (c_store c) k) ?x else ?w)" "same_shell c c'"
    using setSync_spec [OF c(1) sc r] by blast+
  have "w_currentTick (c_wheel c') = w_currentTick ?w" "w_resolution (c_wheel c') = w_resolution ?w"
    by (simp_all add: w(1) w_Schedule_def)
  then show ?thesis
    using setSync_wheel [OF c(1) o(1) sc sch r] o w(2) by (simp add: on_time_def same_shell_def)
qed

lemma on_time_Delete:
  assumes c: "core_inv c" "on_time c t" and d: "c_Delete yields c k = Some (c', ok)"
  shows "on_time c' t"
proof (cases "c_closed c")
  case True
  then show ?thesis using d c(2) by (simp add: c_Delete_def)
next
  case False
  have o: "wheel_inv c" "c_writeBuffer c = None" using c(2) by (simp_all add: on_time_def)
  have "doDelete c k (getKeyHash (c_store c) k) = (c', ok)"
    using d False o(2) by (simp add: c_Delete_def c_KeyHash_def Let_def)
  then have s: "c_map c' = (c_map c)(k := None)" "same_shell c c'" "c_wheel c' = c_wheel c"
    using doDelete_spec [OF c(1), of k] by auto
  have "wheel_inv c'" by (rule wheel_inv_frame [OF o(1) s(3)]) (use s in \<open>auto simp: same_shell_def split: if_splits\<close>)
  then show ?thesis using c(2) s by (simp add: on_time_def same_shell_def)
qed

lemma on_time_expire:
  assumes c: "core_inv c" "on_time c t" "t \<le> now" and miss: "\<And>k e. c_map c k = Some e \<Longrightarrow> eExpireAt e \<noteq> now"
  shows "on_time (c_removeExpired c now) now"
proof -
  let ?w = "c_wheel c" and ?c = "c_removeExpired c now"
  have o: "wheel_inv c" "c_writeBuffer c = None" "0 \<le> now" "w_currentTick ?w * w_resolution ?w \<le> now"
    using on_time_later [OF c(2,3)] by (simp_all add: on_time_def)
  have wi: "w_inv ?w" using o(1) by (simp add: wheel_inv_def)
  have h: "hashed c" using o(1) w_inv_sane [OF wi] by (simp add: hashed_def wheel_inv_def)
  note s = c_removeExpired_spec [OF c(1) o(1,3)]
  obtain w' ys where a: "w_Advance ?w now = (w', ys)" "w_resolution w' = w_resolution ?w"
    "w_currentTick w' = max (w_currentTick ?w) (now div w_resolution ?w)" using w_Advance_spec [OF wi o(3)] by blast
  have r: "0 < w_resolution ?w" using wi by (simp add: w_inv_def w_placed_def)
  have "now div w_resolution ?w * w_resolution ?w \<le> now" using r by (simp add: minus_mod_eq_div_mult [symmetric])
  then have "w_currentTick w' * w_resolution w' \<le> now" using o(4) a(2,3) by (simp add: max_def)
  moreover have "c_wheel ?c = w'" using c_removeExpired_wheel(1) [OF c(1) h, of now] a(1) by simp
  moreover have "wheel_inv ?c" by (rule s(6)) (use miss in blast)
  ultimately show ?thesis using s(2) o by (simp add: on_time_def same_shell_def)
qed

lemma on_time_Clear:
  assumes c: "ready m c" "on_time c t" "t \<le> now" and r: "c_Clear picks c now = Some c'"
  shows "on_time c' now"
proof -
  have o: "wheel_inv c" "c_writeBuffer c = None" "0 \<le> now" using on_time_later [OF c(2,3)] by (simp_all add: on_time_def)
  have wi: "w_inv (c_wheel c)" using o(1) by (simp add: wheel_inv_def)
  have ans: "sync_answered picks c" using c_Clear_unanswered [OF c(1), of picks now] r by auto
  obtain c1 where c1: "c_Wait picks c = Some c1" "c_wheel c' = w_Clear (c_wheel c1) now" "c_writeBuffer c' = c_writeBuffer c1"
    using r by (auto simp: c_Clear_def bind_eq_Some_conv)
  have w1: "c_wheel c1 = c_wheel c" "c_writeBuffer c1 = None" using c_Wait_wheel [OF c1(1) o(2)] by simp_all
  have m: "c_map c' = Map.empty" using c_Clear_ready [OF c(1) ans, of now] r by auto
  note cl = w_Clear_inv [OF wi o(3)]
  have rp: "0 < w_resolution (c_wheel c)" using wi by (simp add: w_inv_def w_placed_def)
  have "now sdiv w_resolution (c_wheel c) * w_resolution (c_wheel c) \<le> now"
    using rp o(3) by (simp add: sdiv_nonneg minus_mod_eq_div_mult [symmetric])
  then have "w_currentTick (c_wheel c') * w_resolution (c_wheel c') \<le> now"
    by (simp add: c1(2) w1 w_Clear_def)
  moreover have "wheel_inv c'" using cl(1,2) m by (simp add: wheel_inv_def c1(2) w1)
  ultimately show ?thesis using o(3) c1(3) w1(2) by (simp add: on_time_def)
qed

lemma timely_on_time:
  assumes "timely c0 start n c t" "ready (n + m) c0" "on_time c0 start"
  shows "on_time c t"
  using assms
proof (induction arbitrary: m rule: timely.induct)
  case (timely_Set n c t now yields k v cost ttl c' ok)
  have "ready (Suc m) c" using reaches_ready [OF timely_reaches [OF timely_Set.hyps(1)], of "Suc m"] timely_Set.prems(1) by simp
  moreover have "on_time c now" by (rule on_time_later [OF timely_Set.IH [of "Suc m"]]) (use timely_Set in auto)
  ultimately show ?case using on_time_Set timely_Set.hyps by (fastforce simp: ready_def)
next
  case (timely_Get n c t now k c' r)
  have "on_time c now" by (rule on_time_later [OF timely_Get.IH [of "Suc m"]]) (use timely_Get in auto)
  then show ?case by (rule on_time_frame) (rule c_Get_wheel [OF timely_Get.hyps(3)])
next
  case (timely_Delete n c t yields k c' ok)
  have "ready (Suc m) c" using reaches_ready [OF timely_reaches [OF timely_Delete.hyps(1)], of "Suc m"] timely_Delete.prems(1) by simp
  then show ?case using on_time_Delete timely_Delete.IH [of "Suc m"] timely_Delete by (fastforce simp: ready_def)
next
  case (timely_flushReads n c t c')
  have "on_time c t" using timely_flushReads.IH [of "Suc m"] timely_flushReads.prems by simp
  then show ?case by (rule on_time_frame) (rule c_flushReads_wheel [OF timely_flushReads.hyps(3)])
next
  case (timely_expire n c t now)
  have "ready (Suc m) c" using reaches_ready [OF timely_reaches [OF timely_expire.hyps(1)], of "Suc m"] timely_expire.prems(1) by simp
  then have "core_inv c" by (simp add: ready_def)
  moreover have "on_time c t" using timely_expire.IH [of "Suc m"] timely_expire.prems by simp
  ultimately show ?case using on_time_expire timely_expire.hyps by blast
next
  case (timely_Wait n c t picks c')
  have o: "on_time c t" using timely_Wait.IH [of "Suc m"] timely_Wait.prems by simp
  then show ?case
    by (rule on_time_frame) (use c_Wait_wheel [OF timely_Wait.hyps(2)] o in \<open>simp add: on_time_def\<close>)
next
  case (timely_Clear n c t now picks c')
  have "ready (Suc m) c" using reaches_ready [OF timely_reaches [OF timely_Clear.hyps(1)], of "Suc m"] timely_Clear.prems(1) by simp
  moreover have "on_time c t" using timely_Clear.IH [of "Suc m"] timely_Clear.prems by simp
  ultimately show ?case using on_time_Clear timely_Clear.hyps by blast
next
  case (timely_Close n c t c')
  have o: "on_time c t" using timely_Close.IH [of "Suc m"] timely_Close.prems by simp
  then show ?case
    by (rule on_time_frame) (use c_Close_wheel [OF timely_Close.hyps(2)] o in \<open>simp add: on_time_def\<close>)
qed simp

text \<open>The first state of the run, as \<open>NewCache\<close> builds it.\<close>

lemma NewCache_on_time:
  assumes "env_ok env" "config_ok (apply_options opts)" "0 \<le> start" "BufferItems (apply_options opts) \<le> 0"
    and "NewCache env start opts = Some c"
  shows "on_time c start"
proof -
  have c: "wheel_inv c" "c_writeBuffer c = None" "c_wheel c = NewExpiryWheel start (ExpiryResolution (apply_options opts))"
    using NewCache_ready [OF assms(1-3)] assms(4,5) by auto
  have w: "w_currentTick (c_wheel c) = start sdiv w_resolution (c_wheel c)" "0 < w_resolution (c_wheel c)"
    by (simp_all add: c(3) NewExpiryWheel_def Let_def)
  have "start sdiv w_resolution (c_wheel c) * w_resolution (c_wheel c) \<le> start"
    using w(2) assms(3) by (simp add: sdiv_nonneg minus_mod_eq_div_mult [symmetric])
  then show ?thesis using c(1,2) assms(3) by (simp add: on_time_def w(1))
qed

text \<open>What a sweep leaves in such a run, whether or not it hits a deadline.\<close>

lemma timely_sweeps:
  assumes "timely c0 start n c t" "ready n c0" "on_time c0 start" "t \<le> now"
  shows "core_inv c" "(\<forall>k e. c_map (c_removeExpired c now) k = Some e \<longrightarrow>
       c_map c k = Some e \<and> (eExpireAt e \<le> 0 \<or> now - w_resolution (c_wheel c) < eExpireAt e)) \<and>
    (\<forall>k e. c_map c k = Some e \<longrightarrow> \<not> IsExpired e now \<longrightarrow> c_map (c_removeExpired c now) k = Some e)"
proof -
  have r: "ready (n + 0) c0" using assms(2) by simp
  have "ready 0 c" by (rule reaches_ready [OF timely_reaches [OF assms(1)] r])
  then show inv: "core_inv c" by (simp add: ready_def)
  have "on_time c now" by (rule on_time_later [OF timely_on_time [OF assms(1) r assms(3)] assms(4)])
  then have o: "wheel_inv c" "0 \<le> now" by (simp_all add: on_time_def)
  show "(\<forall>k e. c_map (c_removeExpired c now) k = Some e \<longrightarrow>
       c_map c k = Some e \<and> (eExpireAt e \<le> 0 \<or> now - w_resolution (c_wheel c) < eExpireAt e)) \<and>
    (\<forall>k e. c_map c k = Some e \<longrightarrow> \<not> IsExpired e now \<longrightarrow> c_map (c_removeExpired c now) k = Some e)"
    using c_removeExpired_spec(3,4) [OF inv o] by blast
qed

subsection \<open>A wheel that is ahead of a deadline\<close>

text \<open>
  Whatever is scheduled and whenever, an item sits in the bucket of its tick, modulo the number of
  buckets. \<open>Advance\<close> returns items only from the buckets of the ticks that it passes.
\<close>

definition w_filed :: "'k ExpiryWheel \<Rightarrow> bool" where
  "w_filed w \<longleftrightarrow> w_sane w \<and>
     (\<forall>i < 4096. \<forall>x \<in> set (w_buckets w ! i). w_index w (w_tick (w_resolution w) (w_ExpireAt x)) = i)"

lemma w_filed_index: "w_filed w \<Longrightarrow> w_index w t < 4096"
  using w_sane_index [of w t] by (simp add: w_filed_def w_sane_def)

lemma w_filed_append:
  assumes "w_filed w"
  shows "w_filed (w_append w x)"
proof -
  let ?i = "w_index w (w_tick (w_resolution w) (w_ExpireAt x))"
  have i: "?i < length (w_buckets w)" "length (w_buckets w) = 4096"
    using w_filed_index [OF assms] assms by (simp_all add: w_filed_def w_sane_def)
  have nth: "(w_buckets w)[?i := y] ! j = (if j = ?i then y else w_buckets w ! j)" for y j using i by simp
  show ?thesis
    using assms unfolding w_filed_def w_sane_def w_append_def Let_def by (auto simp: nth)
qed

lemma w_filed_Schedule: "w_filed w \<Longrightarrow> w_filed (w_Schedule w k h x)"
  by (simp add: w_Schedule_def w_filed_append)

lemma w_append_index: "w_index (w_append w x) = w_index w"
  by (rule w_index_cong) simp

lemma w_sift_filed:
  assumes "foldl (w_sift now) (w, ys) xs = (w', ys')" "w_filed w"
  shows "w_filed w' \<and> w_resolution w' = w_resolution w \<and> w_currentTick w' = w_currentTick w \<and> w_index w' = w_index w \<and>
    set ys' \<subseteq> set ys \<union> set xs"
  using assms
proof (induction xs arbitrary: w ys)
  case (Cons x xs)
  show ?case
  proof (cases "w_ExpireAt x \<le> now")
    case True
    then show ?thesis using Cons.IH [of w "ys @ [x]"] Cons.prems by (auto simp: w_sift_def)
  next
    case False
    then show ?thesis using Cons.IH [of "w_append w x" ys] Cons.prems w_filed_append [of w x]
      by (auto simp: w_sift_def w_append_index)
  qed
qed simp

lemma w_visit_filed:
  assumes "w_visit now (w, ys) = (w', ys')" "w_filed w"
  shows "w_filed w' \<and> w_resolution w' = w_resolution w \<and> w_currentTick w' = w_currentTick w \<and> w_index w' = w_index w \<and>
    (\<forall>y \<in> set ys' - set ys. w_index w (w_tick (w_resolution w) (w_ExpireAt y)) = w_index w (w_currentTick w))"
proof (cases "w_buckets w ! w_index w (w_currentTick w) = []")
  case True
  then show ?thesis using assms by (simp add: w_visit_def Let_def)
next
  case False
  let ?i = "w_index w (w_currentTick w)"
  let ?w = "w\<lparr>w_buckets := (w_buckets w)[?i := []]\<rparr>"
  have i: "?i < 4096" "length (w_buckets w) = 4096" using w_filed_index assms(2) by (auto simp: w_filed_def w_sane_def)
  have nth: "(w_buckets w)[?i := []] ! j = (if j = ?i then [] else w_buckets w ! j)" for j using i by simp
  have f: "w_filed ?w" using assms(2) unfolding w_filed_def w_sane_def by (auto simp: nth)
  have "foldl (w_sift now) (?w, ys) (w_buckets w ! ?i) = (w', ys')" using assms(1) False by (simp add: w_visit_def Let_def)
  note s = w_sift_filed [OF this f]
  have "w_index w (w_tick (w_resolution w) (w_ExpireAt y)) = ?i" if "y \<in> set (w_buckets w ! ?i)" for y
    using assms(2) i(1) that by (simp add: w_filed_def)
  then show ?thesis using s by auto
qed

lemma w_loop_filed:
  assumes "w_loop now n (w, ys) = (w', ys')" "w_filed w"
  shows "w_filed w' \<and> w_resolution w' = w_resolution w \<and> w_currentTick w' = w_currentTick w + int n \<and>
    (\<forall>y \<in> set ys' - set ys. \<exists>j. w_currentTick w < j \<and> j \<le> w_currentTick w + int n \<and>
       w_index w (w_tick (w_resolution w) (w_ExpireAt y)) = w_index w j)"
  using assms
proof (induction n arbitrary: w ys)
  case (Suc n)
  let ?w = "w\<lparr>w_currentTick := w_currentTick w + 1\<rparr>"
  obtain w1 ys1 where v: "w_visit now (?w, ys) = (w1, ys1)" by fastforce
  have f: "w_filed ?w" using Suc.prems(2) by (simp add: w_filed_def w_sane_def)
  note v1 = w_visit_filed [OF v f]
  have "w_loop now n (w1, ys1) = (w', ys')" using Suc.prems(1) v by simp
  note ih = Suc.IH [OF this] v1
  have "\<exists>j. w_currentTick w < j \<and> j \<le> w_currentTick w + int (Suc n) \<and>
       w_index w (w_tick (w_resolution w) (w_ExpireAt y)) = w_index w j" if y: "y \<in> set ys' - set ys" for y
  proof (cases "y \<in> set ys1")
    case True
    then show ?thesis using v1 y by (intro exI [of _ "w_currentTick w + 1"]) auto
  next
    case False
    then obtain j where "w_currentTick w1 < j" "j \<le> w_currentTick w1 + int n"
      "w_index w1 (w_tick (w_resolution w1) (w_ExpireAt y)) = w_index w1 j" using ih y by blast
    then show ?thesis using v1 by (intro exI [of _ j]) auto
  qed
  then show ?case using ih by auto
qed simp

lemma w_Advance_filed:
  assumes "w_Advance w now = (w', ys)" "w_filed w"
  shows "w_filed w' \<and> w_resolution w' = w_resolution w \<and>
    w_currentTick w' = max (w_currentTick w) (now sdiv w_resolution w) \<and>
    (\<forall>y \<in> set ys. \<exists>j. w_currentTick w < j \<and> j \<le> now sdiv w_resolution w \<and>
       w_index w (w_tick (w_resolution w) (w_ExpireAt y)) = w_index w j)"
proof (cases "now sdiv w_resolution w \<le> w_currentTick w")
  case True
  then show ?thesis using assms by (simp add: w_Advance_def)
next
  case False
  then show ?thesis
    using assms w_loop_filed [of now "nat (now sdiv w_resolution w - w_currentTick w)" w "[]" w' ys]
    by (auto simp: w_Advance_def)
qed

text \<open>Two ticks less than a turn apart have different buckets.\<close>

lemma w_index_turn:
  assumes "w_sane w" "i < j" "j < i + 4096"
  shows "w_index w i \<noteq> w_index w j"
proof
  assume e: "w_index w i = w_index w j"
  have m: "uint ((word_of_int t :: u64) AND 4095) = t mod 4096" for t :: int
  proof -
    have "(4095 :: u64) = mask 12" by (simp add: mask_eq_exp_minus_1)
    then have "(word_of_int t :: u64) AND 4095 = take_bit 12 (word_of_int t)" by (simp only: take_bit_eq_mask)
    then have "uint ((word_of_int t :: u64) AND 4095) = take_bit 12 (take_bit 64 t)"
      by (simp add: unsigned_take_bit_eq uint_word_of_int_eq)
    also have "\<dots> = t mod 4096" by (simp add: take_bit_take_bit) (simp add: take_bit_eq_mod)
    finally show ?thesis .
  qed
  have "(word_of_int i :: u64) AND 4095 = word_of_int j AND 4095"
    using e assms(1) unfolding w_index_def w_sane_def by (metis word_unat_eq_iff)
  then have "uint ((word_of_int i :: u64) AND 4095) = uint ((word_of_int j :: u64) AND 4095)" by simp
  then have "j mod 4096 = i mod 4096" unfolding m by (rule sym)
  then have "4096 dvd j - i" by (simp add: mod_eq_dvd_iff)
  then show False using assms(2,3) zdvd_imp_le [of 4096 "j - i"] by simp
qed

text \<open>An entry stays as long as \<open>Advance\<close> returns no item with its key and its deadline.\<close>

lemma sweep_frame:
  assumes "core_inv c" "hashed c"
  shows "same_shell c (c_removeExpired c now)"
    "c_map c k = Some e \<Longrightarrow> \<forall>y\<in>set (snd (w_Advance (c_wheel c) now)). w_Key y = k \<longrightarrow> w_ExpireAt y \<noteq> eExpireAt e \<Longrightarrow>
       c_map (c_removeExpired c now) k = Some e"
proof -
  obtain w xs where a: "w_Advance (c_wheel c) now = (w, xs)" by fastforce
  have w: "mset xs + w_pending w = w_pending (c_wheel c)" using w_Advance_any [OF _ a] assms(2) by (auto simp: hashed_def)
  let ?c = "c\<lparr>c_wheel := w\<rparr>"
  have "\<forall>x\<in>set xs. w_KeyHash x = getKeyHash (c_store ?c) (w_Key x)"
    using assms(2) w by (auto simp: hashed_def) (metis Un_iff set_mset_mset set_mset_union)
  moreover have "core_inv ?c" using assms(1) by (simp add: core_inv_def)
  ultimately have f: "same_shell ?c (c_removeExpired c now)"
    "c_map (c_removeExpired c now) = c_map ?c |` {k. \<not> (\<exists>x\<in>set xs. w_Key x = k \<and> expire_hit now ?c x)}"
    using expire_fold [of ?c xs now] a by (simp_all add: c_removeExpired_def)
  show "same_shell c (c_removeExpired c now)" using f(1) by (simp add: same_shell_def)
  assume m: "c_map c k = Some e" and no: "\<forall>y\<in>set (snd (w_Advance (c_wheel c) now)). w_Key y = k \<longrightarrow> w_ExpireAt y \<noteq> eExpireAt e"
  have "\<not> expire_hit now ?c x" if "x \<in> set xs" "w_Key x = k" for x
    using that no m a by (auto simp: expire_hit_def)
  then show "c_map (c_removeExpired c now) k = Some e" unfolding f(2) using m by (auto simp: restrict_map_def)
qed

text \<open>
  An entry is late when the wheel has passed its deadline: its bucket comes up again only after a
  whole turn, and every sweep before that leaves the entry alone.
\<close>

definition late :: "('k, 'v) Cache \<Rightarrow> 'k \<Rightarrow> ('k, 'v) Entry \<Rightarrow> bool" where
  "late c k e \<longleftrightarrow> w_filed (c_wheel c) \<and> c_map c k = Some e \<and>
     w_tick (w_resolution (c_wheel c)) (eExpireAt e) \<le> w_currentTick (c_wheel c)"

lemma late_sweep:
  assumes c: "ready m c" "late c k e"
    and now: "now sdiv w_resolution (c_wheel c) < w_tick (w_resolution (c_wheel c)) (eExpireAt e) + 4096"
  shows "ready m (c_removeExpired c now) \<and> late (c_removeExpired c now) k e \<and>
    w_resolution (c_wheel (c_removeExpired c now)) = w_resolution (c_wheel c)"
proof -
  let ?w = "c_wheel c" and ?k = "w_tick (w_resolution (c_wheel c)) (eExpireAt e)"
  have inv: "core_inv c" "hashed c" using c(1) by (simp_all add: ready_def)
  have l: "w_filed ?w" "c_map c k = Some e" "?k \<le> w_currentTick ?w" using c(2) by (simp_all add: late_def)
  obtain w' xs where a: "w_Advance ?w now = (w', xs)" by fastforce
  note f = w_Advance_filed [OF a l(1)]
  have s: "w_sane ?w" using l(1) by (simp add: w_filed_def)
  have "w_ExpireAt y \<noteq> eExpireAt e" if "y \<in> set xs" for y
  proof
    assume "w_ExpireAt y = eExpireAt e"
    then obtain j where "w_currentTick ?w < j" "j \<le> now sdiv w_resolution ?w" "w_index ?w ?k = w_index ?w j"
      using f \<open>y \<in> set xs\<close> by metis
    then show False using w_index_turn [OF s, of ?k j] l(3) now by linarith
  qed
  then have "c_map (c_removeExpired c now) k = Some e" by (intro sweep_frame(2) [OF inv l(2)]) (simp add: a)
  moreover have "c_wheel (c_removeExpired c now) = w'" using c_removeExpired_wheel(1) [OF inv, of now] a by simp
  ultimately show ?thesis using f l(3) c_removeExpired_ready [OF c(1), of now] by (simp add: late_def)
qed

lemma late_sweeps:
  "ready m c \<Longrightarrow> late c k e \<Longrightarrow>
    \<forall>t\<in>set ts. t sdiv w_resolution (c_wheel c) < w_tick (w_resolution (c_wheel c)) (eExpireAt e) + 4096 \<Longrightarrow>
    late (foldl c_removeExpired c ts) k e"
proof (induction ts arbitrary: c)
  case (Cons t ts)
  have "ready m (c_removeExpired c t) \<and> late (c_removeExpired c t) k e \<and>
      w_resolution (c_wheel (c_removeExpired c t)) = w_resolution (c_wheel c)"
    by (rule late_sweep [OF Cons.prems(1,2)]) (use Cons.prems(3) in simp)
  then show ?case using Cons.IH [of "c_removeExpired c t"] Cons.prems(3) by simp
qed simp

text \<open>The sweeps before the write is applied turn the wheel.\<close>

lemma sweeps_turn:
  "ready m c \<Longrightarrow> w_filed (c_wheel c) \<Longrightarrow>
    ready m (foldl c_removeExpired c ts) \<and> w_filed (c_wheel (foldl c_removeExpired c ts)) \<and>
    w_resolution (c_wheel (foldl c_removeExpired c ts)) = w_resolution (c_wheel c) \<and>
    same_shell c (foldl c_removeExpired c ts) \<and>
    w_currentTick (c_wheel c) \<le> w_currentTick (c_wheel (foldl c_removeExpired c ts)) \<and>
    (\<forall>t\<in>set ts. t sdiv w_resolution (c_wheel c) \<le> w_currentTick (c_wheel (foldl c_removeExpired c ts)))"
proof (induction ts arbitrary: c)
  case (Cons t ts)
  let ?c = "c_removeExpired c t"
  have inv: "core_inv c" "hashed c" using Cons.prems(1) by (simp_all add: ready_def)
  obtain w' xs where a: "w_Advance (c_wheel c) t = (w', xs)" by fastforce
  note f = w_Advance_filed [OF a Cons.prems(2)]
  have w: "c_wheel ?c = w'" using c_removeExpired_wheel(1) [OF inv, of t] a by simp
  have "ready m ?c" using c_removeExpired_ready [OF Cons.prems(1)] by blast
  note ih = Cons.IH [OF this] w f
  show ?case
    using ih same_shell_trans [OF sweep_frame(1) [OF inv, of t], of "foldl c_removeExpired ?c ts"] by auto
qed simp

text \<open>A drain files the queued deadlines at the wheel's place.\<close>

lemma processWrites_wheel:
  "core_inv c \<Longrightarrow> w_filed (c_wheel c) \<Longrightarrow> \<forall>x\<in>set items. write_ok c x \<Longrightarrow> foldM processWrite c items = Some c' \<Longrightarrow>
    w_filed (c_wheel c') \<and> w_resolution (c_wheel c') = w_resolution (c_wheel c) \<and>
    w_currentTick (c_wheel c') = w_currentTick (c_wheel c)"
proof (induction items arbitrary: c)
  case (Cons x items)
  obtain c1 where c1: "processWrite c x = Some c1" "foldM processWrite c1 items = Some c'"
    using Cons.prems(4) by (auto simp: bind_eq_Some_conv)
  let ?e = "wi_entry x"
  have h: "eKeyHash ?e = getKeyHash (c_store c) (eKey ?e)" "i64 (eCost ?e) = eCost ?e"
    using Cons.prems(3) by (auto simp: write_ok_def)
  have s: "core_inv c1 \<and> same_shell c c1 \<and> (c_wheel c1 = c_wheel c \<or> (\<exists>k h t. c_wheel c1 = w_Schedule (c_wheel c) k h t))"
  proof (cases "wi_isSet x")
    case True
    then obtain ok where "setSync c (eKey ?e) (eValue ?e) (getKeyHash (c_store c) (eKey ?e)) (eCost ?e) (eExpireAt ?e) = Some (c1, ok)"
      using c1(1) h(1) by (auto simp: processWrite_def Let_def)
    from setSync_spec [OF Cons.prems(1) h(2) this] show ?thesis by (metis (full_types))
  next
    case False
    then show ?thesis using c1(1) h(1) doDelete_spec [OF Cons.prems(1), of "eKey ?e"] by (auto simp: processWrite_def Let_def)
  qed
  have k: "w_filed (w_Schedule (c_wheel c) k h t)" "w_resolution (w_Schedule (c_wheel c) k h t) = w_resolution (c_wheel c)"
    "w_currentTick (w_Schedule (c_wheel c) k h t) = w_currentTick (c_wheel c)" for k h t
    using w_filed_Schedule [OF Cons.prems(2)] by (simp_all add: w_Schedule_def)
  then have "w_filed (c_wheel c1) \<and> w_resolution (c_wheel c1) = w_resolution (c_wheel c) \<and>
      w_currentTick (c_wheel c1) = w_currentTick (c_wheel c)" using s Cons.prems(2) by auto
  moreover have "\<forall>y\<in>set items. write_ok c1 y" using Cons.prems(3) s write_ok_shell [of c c1] by simp
  ultimately show ?case using Cons.IH [of c1] s c1(2) by simp
qed simp

lemma late_drain:
  assumes c: "ready m c" "w_filed (c_wheel c)" and rb: "c_writeBuffer c = Some rb" "rb_queue rb = before @ [x]" "wi_isSet x"
    and tick: "w_tick (w_resolution (c_wheel c)) (eExpireAt (wi_entry x)) \<le> w_currentTick (c_wheel c)"
  shows "\<exists>c2. c_drainWrites c = Some c2 \<and> ready m c2 \<and> late c2 (eKey (wi_entry x)) (wi_entry x) \<and>
    w_resolution (c_wheel c2) = w_resolution (c_wheel c)"
proof -
  obtain c2 where c2: "c_drainWrites c = Some c2" "ready m c2" using c_drainWrites_ready [OF c(1)] by blast
  have m: "c_map c2 (eKey (wi_entry x)) = Some (wi_entry x)"
    using c_drainWrites_last [OF c(1) rb(1)] rb(2,3) c2(1) by auto
  have i: "rb_inv rb" "\<forall>x\<in>set (rb_queue rb). write_ok c x" using c(1) rb(1) by (auto simp: ready_def writes_ok_def)
  obtain rb' where d: "c_drainWrites c = foldM processWrite (c\<lparr>c_writeBuffer := Some rb'\<rparr>) (rb_queue rb)"
    using c_drainWrites_queue [OF rb(1) i(1)] by blast
  let ?c = "c\<lparr>c_writeBuffer := Some rb'\<rparr>"
  have "core_inv ?c" "\<forall>x\<in>set (rb_queue rb). write_ok ?c x"
    using c(1) i(2) by (simp_all add: ready_def core_inv_def write_ok_def)
  then have "w_filed (c_wheel c2) \<and> w_resolution (c_wheel c2) = w_resolution (c_wheel c) \<and>
      w_currentTick (c_wheel c2) = w_currentTick (c_wheel c)"
    using processWrites_wheel [of ?c "rb_queue rb" c2] c(2) c2(1) d by simp
  then show ?thesis using c2 m tick by (simp add: late_def)
qed

text \<open>
  The whole course: a set is queued, the worker ticks past its deadline, the buffer is drained, and
  the worker goes on. For a turn of the wheel the entry, overdue from the start, stays in the store.
\<close>

lemma late_set:
  fixes c :: "('k, 'v) Cache" and k :: 'k and v :: 'v and now cost ttl :: int
  assumes c: "ready (Suc m) c" "\<not> c_closed c" "w_filed (c_wheel c)"
    and rb: "c_writeBuffer c = Some rb" "length (rb_queue rb) < rb_Cap rb" and cost: "i64 cost = cost"
  defines "res \<equiv> w_resolution (c_wheel c)" and "e \<equiv> set_entry c now k v cost ttl"
  assumes early: "t0 \<in> set ts" "w_tick res (eExpireAt e) \<le> t0 sdiv res"
    and late: "\<forall>t\<in>set us. t sdiv res < w_tick res (eExpireAt e) + 4096"
  shows "\<exists>c1 c2. c_SetWithCost yields c now k v cost ttl = Some (c1, True) \<and>
    c_drainWrites (foldl c_removeExpired c1 ts) = Some c2 \<and> c_map (foldl c_removeExpired c2 us) k = Some e"
proof -
  obtain rb' where s: "c_SetWithCost yields c now k v cost ttl = Some (c\<lparr>c_writeBuffer := Some rb'\<rparr>, True)"
    "rb_queue rb' = rb_queue rb @ [\<lparr>wi_entry = e, wi_isSet = True\<rparr>]" "ready m (c\<lparr>c_writeBuffer := Some rb'\<rparr>)"
    using Set_queued [OF c(1,2) rb cost, of yields now k v ttl] unfolding e_def by blast
  let ?c1 = "c\<lparr>c_writeBuffer := Some rb'\<rparr>" let ?d = "foldl c_removeExpired ?c1 ts"
  have w1: "w_filed (c_wheel ?c1)" "w_resolution (c_wheel ?c1) = res" using c(3) by (simp_all add: res_def)
  note d = sweeps_turn [OF s(3) w1(1), of ts, unfolded w1(2)]
  have "w_tick res (eExpireAt e) \<le> w_currentTick (c_wheel ?d)" using d early by force
  then obtain c2 where c2: "c_drainWrites ?d = Some c2" "ready m c2" "late c2 (eKey e) e" "w_resolution (c_wheel c2) = res"
    using late_drain [of m ?d rb' "rb_queue rb" "\<lparr>wi_entry = e, wi_isSet = True\<rparr>"] d s(2)
    by (auto simp: same_shell_def)
  have "late (foldl c_removeExpired c2 us) (eKey e) e"
    by (rule late_sweeps [OF c2(2,3)]) (use late c2(4) in simp)
  then show ?thesis using s(1) c2(1) by (auto simp: late_def e_def set_entry_def)
qed

lemma NewExpiryWheel_filed: "w_filed (NewExpiryWheel now res)"
  by (simp add: w_filed_def w_sane_def NewExpiryWheel_def Let_def)

end
