(* ===== verification/ManyCalls.thy ===== *)
theory ManyCalls
  imports CacheEdges
begin

text \<open>
  The operations of \<open>cache.go\<close> on several keys: \<open>GetMany\<close>, \<open>SetMany\<close> and \<open>DeleteMany\<close> call the operation
  on one key in turn. They return whenever those do; \<open>GetMany\<close> gives the keys that are visible, and
  \<open>SetMany\<close> counts every item.
\<close>

lemma c_GetMany_ready:
  "ready (length keys + m) c \<Longrightarrow> \<exists>c'. c_GetMany c now keys r = Some (c', r ++ (visible c now |` set keys)) \<and> ready m c'"
proof (induction keys arbitrary: c r)
  case Nil
  then show ?case by (simp add: restrict_map_def map_add_def)
next
  case (Cons k keys)
  have rd: "ready (Suc (length keys + m)) c" using Cons.prems by simp
  obtain c1 where c1: "c_Get c now k = Some (c1, visible c now k)" "ready (length keys + m) c1" "kin c c1" "c_store c1 = c_store c"
    using c_Get_ready [OF rd] by blast
  have v: "visible c1 = visible c" by (rule visible_same [OF c1(3,4)])
  let ?r = "case visible c now k of Some v \<Rightarrow> r(k \<mapsto> v) | None \<Rightarrow> r"
  have "?r ++ (visible c now |` set keys) = r ++ (visible c now |` set (k # keys))"
    by (auto simp: fun_eq_iff map_add_def restrict_map_def split: option.split)
  then show ?case using Cons.IH [OF c1(2), of ?r] c1(1) unfolding v by auto
qed

lemma c_SetMany_ready:
  "ready (length items + m) c \<Longrightarrow> \<forall>x\<in>set items. i64 (i_Cost x) = i_Cost x \<Longrightarrow>
    \<exists>c'. c_SetMany yields c now items n = Some (c', if c_closed c then n else n + length items) \<and> ready m c'"
proof (induction items arbitrary: c n)
  case (Cons x items)
  have rd: "ready (Suc (length items + m)) c" using Cons.prems(1) by simp
  have "i64 (i_Cost x) = i_Cost x" using Cons.prems(2) by simp
  from c_SetWithCost_ready [OF rd this] obtain c1 where
    c1: "c_SetWithCost yields c now (i_Key x) (i_Value x) (i_Cost x) (i_TTL x) = Some (c1, \<not> c_closed c)"
    "ready (length items + m) c1" "kin c c1" by blast
  have typed: "\<forall>x\<in>set items. i64 (i_Cost x) = i_Cost x" using Cons.prems(2) by simp
  obtain c2 where "c_SetMany yields c1 now items (if \<not> c_closed c then n + 1 else n) =
      Some (c2, if c_closed c1 then (if \<not> c_closed c then n + 1 else n) else (if \<not> c_closed c then n + 1 else n) + length items)"
    "ready m c2" using Cons.IH [OF c1(2) typed] by blast
  then show ?case using c1 by (auto simp: kin_def)
qed simp

lemma c_DeleteMany_ready:
  "ready (length keys + m) c \<Longrightarrow> \<exists>c' n'. c_DeleteMany yields c keys n = Some (c', n') \<and> ready m c'"
proof (induction keys arbitrary: c n)
  case (Cons k keys)
  have rd: "ready (Suc (length keys + m)) c" using Cons.prems by simp
  obtain c1 ok where c1: "c_Delete yields c k = Some (c1, ok)" "ready (length keys + m) c1" using c_Delete_ready [OF rd] by blast
  show ?case using Cons.IH [OF c1(2), of "if ok then n + 1 else n"] c1(1) by auto
qed simp

text \<open>The batch reads return on a closed cache too.\<close>

lemma batches_return:
  assumes "ready (length keys + m) c" "\<And>infos. mset (sort_infos infos) = mset infos"
  shows "c_GetBatch c now keys \<noteq> None \<and> c_GetBatchOptimized sort_infos c now keys \<noteq> None \<and> c_GetBatchToMap c now keys \<noteq> None"
proof (cases "c_closed c")
  case True
  then show ?thesis by (simp add: c_GetBatch_def c_GetBatchOptimized_def c_GetBatchToMap_def)
next
  case False
  show ?thesis
    using c_GetBatch_spec [OF assms(1) False, of now] c_GetBatchOptimized_spec [OF assms(1) False assms(2), of now]
      c_GetBatchToMap_spec [OF assms(1) False, of now] by auto
qed

end
