(* ===== verification/StoreScan.thy ===== *)
theory StoreScan
  imports ShardedStore
begin

text \<open>
  The iterating operations of \<open>internal/store/sharded.go\<close>: what \<open>Range\<close>, \<open>Scan\<close>, \<open>Keys\<close>,
  \<open>Entries\<close> and \<open>CollectExpired\<close> visit. A cursor of \<open>Scan\<close> is a position in the concatenation of
  the shards, as long as the iteration order of the maps does not change.
\<close>

section \<open>The entries of a store in order\<close>

definition shard_lists :: "'k order \<Rightarrow> ('k, 'v) ShardedStore \<Rightarrow> ('k, 'v) Entry list list" where
  "shard_lists ord s = map (\<lambda>(i, sh). range_map ord i sh) (enumerate 0 (st_shards s))"

definition st_all :: "'k order \<Rightarrow> ('k, 'v) ShardedStore \<Rightarrow> ('k, 'v) Entry list" where
  "st_all ord s = concat (shard_lists ord s)"

lemma length_shard_lists [simp]: "length (shard_lists ord s) = length (st_shards s)"
  by (simp add: shard_lists_def)

lemma shard_lists_nth [simp]: "i < length (st_shards s) \<Longrightarrow> shard_lists ord s ! i = range_map ord i (st_shards s ! i)"
  by (simp add: shard_lists_def nth_enumerate_eq)

lemma drop_enumerate: "drop i (enumerate n xs) = enumerate (n + i) (drop i xs)"
  by (induction xs arbitrary: i n) (auto simp: drop_Cons split: nat.split)

lemma drop_shard_lists:
  "drop i (shard_lists ord s) = map (\<lambda>(i, sh). range_map ord i sh) (enumerate i (drop i (st_shards s)))"
  by (simp add: shard_lists_def drop_map drop_enumerate)

lemma range_map_set:
  assumes "st_inv s" "enumerates ord" "i < length (st_shards s)"
  shows "set (range_map ord i (st_shards s ! i)) = ran (st_shards s ! i)" (is ?set)
    and "distinct (map eKey (range_map ord i (st_shards s ! i)))" (is ?dist)
proof -
  let ?m = "st_shards s ! i"
  from assms(1,3) have fin: "finite (dom ?m)" and fits: "\<And>k e. ?m k = Some e \<Longrightarrow> eKey e = k"
    by (auto simp: st_inv_def st_fits_def)
  with assms(2) have ks: "set (ord i (dom ?m)) = dom ?m" "distinct (ord i (dom ?m))"
    by (auto simp: enumerates_def)
  then show ?set by (force simp: range_map_def ran_def)
  have "map eKey (range_map ord i ?m) = ord i (dom ?m)"
    using ks(1) fits by (auto simp: range_map_def intro!: map_idI)
  with ks(2) show ?dist by simp
qed

lemma shard_keys:
  assumes "st_inv s" "i < length (st_shards s)" "(st_shards s ! i) k = Some e"
  shows "eKey e = k \<and> shard_index s (getKeyHash s k) = i"
  using assms by (auto simp: st_inv_def st_fits_def)

lemma set_st_all:
  assumes "st_inv s" "enumerates ord"
  shows "set (st_all ord s) = ran (st_map s)"
proof -
  have "set (st_all ord s) = (\<Union>i < length (st_shards s). set (shard_lists ord s ! i))"
    unfolding st_all_def set_concat set_conv_nth [of "shard_lists ord s"] by auto
  also have "\<dots> = (\<Union>i < length (st_shards s). ran (st_shards s ! i))"
    using range_map_set(1) [OF assms] by simp
  also have "\<dots> = ran (st_map s)"
  proof (intro set_eqI iffI)
    fix e
    assume "e \<in> (\<Union>i < length (st_shards s). ran (st_shards s ! i))"
    then obtain i k where "i < length (st_shards s)" "(st_shards s ! i) k = Some e" by (auto simp: ran_def)
    with shard_keys [OF assms(1) this] show "e \<in> ran (st_map s)"
      by (auto simp: ran_def st_map_def getShard_def)
  next
    fix e
    assume "e \<in> ran (st_map s)"
    then obtain k where "st_map s k = Some e" by (auto simp: ran_def)
    then show "e \<in> (\<Union>i < length (st_shards s). ran (st_shards s ! i))"
      using shard_index_bound [OF assms(1), of "getKeyHash s k"]
      by (auto simp: st_map_def getShard_def ran_def)
  qed
  finally show ?thesis .
qed

lemma distinct_concat_lists:
  assumes "\<And>i. i < length L \<Longrightarrow> distinct (map f (L ! i))"
    and "\<And>i j. i < j \<Longrightarrow> j < length L \<Longrightarrow> f ` set (L ! i) \<inter> f ` set (L ! j) = {}"
  shows "distinct (map f (concat L))"
  using assms
proof (induction L)
  case (Cons xs L)
  have "distinct (map f (concat L))"
    using Cons.prems(1) [of "Suc _"] Cons.prems(2) [of "Suc _" "Suc _"] by (intro Cons.IH) auto
  moreover have "distinct (map f xs)" using Cons.prems(1) [of 0] by simp
  moreover have "f ` set xs \<inter> f ` set (concat L) = {}"
  proof -
    have "f ` set xs \<inter> f ` set ys = {}" if ys: "ys \<in> set L" for ys
    proof -
      from ys obtain j where "j < length L" "ys = L ! j" by (auto simp: in_set_conv_nth)
      with Cons.prems(2) [of 0 "Suc j"] show ?thesis by simp
    qed
    then show ?thesis by fastforce
  qed
  ultimately show ?case by auto
qed simp

lemma distinct_st_all:
  assumes "st_inv s" "enumerates ord"
  shows "distinct (map eKey (st_all ord s))"
  unfolding st_all_def
proof (rule distinct_concat_lists)
  fix i assume "i < length (shard_lists ord s)"
  then show "distinct (map eKey (shard_lists ord s ! i))" using range_map_set(2) [OF assms] by simp
next
  fix i j :: nat
  assume ij: "i < j" "j < length (shard_lists ord s)"
  have "shard_index s (getKeyHash s (eKey e)) = n"
    if "n < length (st_shards s)" "e \<in> set (shard_lists ord s ! n)" for n e
    using that range_map_set(1) [OF assms that(1)] shard_keys [OF assms(1) that(1)] by (fastforce simp: ran_def)
  from this [of i] this [of j] ij
  show "eKey ` set (shard_lists ord s ! i) \<inter> eKey ` set (shard_lists ord s ! j) = {}" by fastforce
qed

section \<open>Range\<close>

text \<open>A callback that stops visits the entries up to the first one it stops at.\<close>

lemma range_entries_append:
  "range_entries fn acc (xs @ ys) =
     (let (acc, go) = range_entries fn acc xs in if go then range_entries fn acc ys else (acc, False))"
  by (induction xs arbitrary: acc) (auto simp: Let_def split: prod.splits)

lemma range_shards_entries:
  "range_shards ord fn i acc shs =
     fst (range_entries fn acc (concat (map (\<lambda>(i, sh). range_map ord i sh) (enumerate i shs))))"
  by (induction shs arbitrary: i acc) (auto simp: range_entries_append Let_def split: prod.splits)

lemma st_Range_entries: "st_Range ord s fn acc = fst (range_entries fn acc (st_all ord s))"
  by (simp add: st_Range_def range_shards_entries st_all_def shard_lists_def)

lemma st_Range_find:
  "st_Range ord s (\<lambda>acc e. if P e then (g acc e, False) else (acc, True)) acc =
     (case find P (st_all ord s) of None \<Rightarrow> acc | Some e \<Rightarrow> g acc e)"
proof -
  have "fst (range_entries (\<lambda>acc e. if P e then (g acc e, False) else (acc, True)) acc es) =
     (case find P es of None \<Rightarrow> acc | Some e \<Rightarrow> g acc e)" for es
    by (induction es) auto
  then show ?thesis by (simp add: st_Range_entries)
qed

lemma foldl_append_concat: "foldl (\<lambda>acc x. acc @ f x) acc xs = acc @ concat (map f xs)"
  by (induction xs arbitrary: acc) auto

lemma st_Keys_map:
  assumes "st_inv s" "enumerates ord"
  shows "distinct (st_Keys ord s)" "set (st_Keys ord s) = dom (st_map s)"
proof -
  have "map eKey (range_map ord i (st_shards s ! i)) = ord i (dom (st_shards s ! i))" if "i < length (st_shards s)" for i
    using that assms by (auto simp: range_map_def enumerates_def st_inv_def st_fits_def intro!: map_idI)
  then have "map (\<lambda>(i, sh). ord i (dom sh)) (enumerate 0 (st_shards s)) = map (map eKey) (shard_lists ord s)"
    by (intro nth_equalityI) (simp_all add: nth_enumerate_eq)
  then have keys: "st_Keys ord s = map eKey (st_all ord s)"
    by (simp add: st_Keys_def st_all_def case_prod_unfold foldl_append_concat map_concat)
  then show "distinct (st_Keys ord s)" using distinct_st_all [OF assms] by simp
  have "eKey ` ran (st_map s) = dom (st_map s)"
    using st_map_fits [OF assms(1)] by (force simp: ran_def st_fits_def dom_def image_iff)
  then show "set (st_Keys ord s) = dom (st_map s)" using keys set_st_all [OF assms] by simp
qed

lemma st_Entries_live:
  "st_Entries ord s now = filter (\<lambda>e. eExpireAt e = 0 \<or> now \<le> eExpireAt e) (st_all ord s)"
  by (simp add: st_Entries_def case_prod_unfold foldl_append_concat st_all_def shard_lists_def filter_concat comp_def)

section \<open>Scan\<close>

lemma scan_items_spec:
  assumes "length acc < cnt"
  shows "scan_items idx itemIdx cnt acc xs =
    (let ys = drop (itemIdx - idx) xs
     in if cnt \<le> length acc + length ys
        then (acc @ take (cnt - length acc) ys, Some (idx + (itemIdx - idx) + (cnt - length acc)))
        else (acc @ ys, None))"
  using assms
proof (induction xs arbitrary: idx acc)
  case Nil
  then show ?case by simp
next
  case (Cons x xs)
  consider "idx < itemIdx" | "idx \<ge> itemIdx" "cnt = Suc (length acc)" | "idx \<ge> itemIdx" "Suc (length acc) < cnt"
    using Cons.prems by linarith
  then show ?case
  proof cases
    case 1
    then have "itemIdx - idx = Suc (itemIdx - Suc idx)" by simp
    with 1 show ?thesis by (simp add: Cons.IH [OF Cons.prems] Let_def)
  next
    case 2
    then show ?thesis by simp
  next
    case 3
    then have "cnt - length acc = Suc (cnt - Suc (length acc))" by simp
    with 3 show ?thesis by (simp add: Cons.IH Let_def)
  qed
qed

text \<open>The cursor that stands for item \<open>j\<close> of shard \<open>i\<close>.\<close>

definition scan_cursor :: "nat \<Rightarrow> nat \<Rightarrow> u64" where
  "scan_cursor i j = push_bit 32 (of_nat i) OR of_nat j"

definition cursor_pos :: "'a list list \<Rightarrow> nat \<Rightarrow> u64 \<Rightarrow> nat \<Rightarrow> bool" where
  "cursor_pos L i cur pos \<longleftrightarrow> (\<exists>i' j'. i' < length L \<and> cur = scan_cursor (i + i') j' \<and>
     0 < j' \<and> j' \<le> length (L ! i') \<and> pos = length (concat (take i' L)) + j')"

lemma cursor_pos_Cons: "cursor_pos L (Suc i) cur pos \<Longrightarrow> cursor_pos (xs # L) i cur (length xs + pos)"
  unfolding cursor_pos_def by (elim exE conjE) (rule exI [of _ "Suc _"], auto)

abbreviation lists_from :: "'k order \<Rightarrow> nat \<Rightarrow> ('k, 'v) shard list \<Rightarrow> ('k, 'v) Entry list list" where
  "lists_from ord i shs \<equiv> map (\<lambda>(i, sh). range_map ord i sh) (enumerate i shs)"

lemma scan_shards_spec:
  assumes "length acc < cnt" "case shs of [] \<Rightarrow> j = 0 | sh # _ \<Rightarrow> j \<le> length (range_map ord i sh)"
  shows "let ys = drop j (concat (lists_from ord i shs))
     in if cnt \<le> length acc + length ys
        then fst (scan_shards ord i j cnt acc shs) = acc @ take (cnt - length acc) ys \<and>
          cursor_pos (lists_from ord i shs) i (snd (scan_shards ord i j cnt acc shs)) (j + (cnt - length acc))
        else scan_shards ord i j cnt acc shs = (acc @ ys, 0)"
  using assms
proof (induction shs arbitrary: i j acc)
  case Nil
  then show ?case by simp
next
  case (Cons sh shs)
  let ?xs = "drop j (range_map ord i sh)" and ?L = "lists_from ord (Suc i) shs"
  from Cons.prems have j: "j \<le> length (range_map ord i sh)" by simp
  have ys: "drop j (concat (lists_from ord i (sh # shs))) = ?xs @ concat ?L" using j by simp
  show ?case
  proof (cases "cnt \<le> length acc + length ?xs")
    case True
    then have "scan_shards ord i j cnt acc (sh # shs)
        = (acc @ take (cnt - length acc) ?xs, scan_cursor i (j + (cnt - length acc)))"
      using Cons.prems by (simp add: scan_items_spec Let_def scan_cursor_def)
    moreover have "cursor_pos (lists_from ord i (sh # shs)) i (scan_cursor i (j + (cnt - length acc))) (j + (cnt - length acc))"
      unfolding cursor_pos_def using True j Cons.prems(1)
      by (intro exI [of _ 0] exI [of _ "j + (cnt - length acc)"]) auto
    moreover have "cnt \<le> length acc + length (?xs @ concat ?L)"
      "take (cnt - length acc) (?xs @ concat ?L) = take (cnt - length acc) ?xs" using True by auto
    ultimately show ?thesis by (simp only: Let_def ys if_True fst_conv snd_conv)
  next
    case False
    then have step: "scan_shards ord i j cnt acc (sh # shs) = scan_shards ord (Suc i) 0 cnt (acc @ ?xs) shs"
      using j by (simp add: Cons.prems(1) scan_items_spec Let_def)
    have IH: "let ys = drop 0 (concat ?L)
      in if cnt \<le> length (acc @ ?xs) + length ys
         then fst (scan_shards ord (Suc i) 0 cnt (acc @ ?xs) shs) = (acc @ ?xs) @ take (cnt - length (acc @ ?xs)) ys \<and>
           cursor_pos ?L (Suc i) (snd (scan_shards ord (Suc i) 0 cnt (acc @ ?xs) shs)) (0 + (cnt - length (acc @ ?xs)))
         else scan_shards ord (Suc i) 0 cnt (acc @ ?xs) shs = ((acc @ ?xs) @ ys, 0)"
      by (rule Cons.IH) (use False in \<open>auto split: list.splits\<close>)
    show ?thesis
    proof (cases "cnt \<le> length acc + length (?xs @ concat ?L)")
      case True
      with IH have fst_eq: "fst (scan_shards ord (Suc i) 0 cnt (acc @ ?xs) shs) = (acc @ ?xs) @ take (cnt - length (acc @ ?xs)) (concat ?L)"
        and cur: "cursor_pos ?L (Suc i) (snd (scan_shards ord (Suc i) 0 cnt (acc @ ?xs) shs)) (cnt - length (acc @ ?xs))"
        by (simp_all add: Let_def add.assoc)
      have "take (cnt - length acc) (?xs @ concat ?L) = ?xs @ take (cnt - length (acc @ ?xs)) (concat ?L)"
        using False by simp
      moreover have "length (range_map ord i sh) + (cnt - length (acc @ ?xs)) = j + (cnt - length acc)"
        using False j by simp
      ultimately show ?thesis using True fst_eq cursor_pos_Cons [OF cur, of "range_map ord i sh"]
        by (simp only: Let_def step ys if_True append_assoc) simp
    next
      case F: False
      with IH have "scan_shards ord (Suc i) 0 cnt (acc @ ?xs) shs = ((acc @ ?xs) @ concat ?L, 0)"
        by (simp add: Let_def add.assoc)
      with F show ?thesis by (simp only: Let_def step ys if_False append_assoc)
    qed
  qed
qed

text \<open>Cursors that occur: the start, or an item of a shard. They are decoded without loss.\<close>

definition small_store :: "'k order \<Rightarrow> ('k, 'v) ShardedStore \<Rightarrow> bool" where
  "small_store ord s \<longleftrightarrow> st_inv s \<and> (\<forall>i < length (st_shards s). length (range_map ord i (st_shards s ! i)) < 2 ^ 32)"

definition at_pos :: "'k order \<Rightarrow> ('k, 'v) ShardedStore \<Rightarrow> u64 \<Rightarrow> nat \<Rightarrow> bool" where
  "at_pos ord s cur pos \<longleftrightarrow> cur = 0 \<and> pos = 0 \<or> cursor_pos (shard_lists ord s) 0 cur pos"

lemma of_nat_take_bit: "n < 2 ^ 32 \<Longrightarrow> take_bit 32 (of_nat n :: u64) = of_nat n"
  by (simp add: take_bit_of_nat take_bit_nat_eq_self)

lemma scan_cursor_decode:
  assumes "i < 2 ^ 32" "j < 2 ^ 32"
  shows "unat (drop_bit 32 (scan_cursor i j)) = i" "unat (scan_cursor i j AND 0xFFFFFFFF) = j"
proof -
  have high: "k < 32" if "n < 2 ^ 32" "bit (of_nat n :: u64) k" for n k
    using of_nat_take_bit [OF that(1)] that(2) by (metis bit_take_bit_iff)
  have mask: "(0xFFFFFFFF :: u64) = mask 32" by (simp add: mask_eq_exp_minus_1)
  have "drop_bit 32 (scan_cursor i j) = of_nat i"
    unfolding scan_cursor_def
    by (intro bit_word_eqI) (auto simp: bit_drop_bit_eq bit_or_iff bit_push_bit_iff
        dest: high [OF assms(1)] high [OF assms(2)])
  then show "unat (drop_bit 32 (scan_cursor i j)) = i" using assms(1) by (simp add: unsigned_of_nat take_bit_nat_eq_self)
  have "scan_cursor i j AND 0xFFFFFFFF = of_nat j"
    unfolding scan_cursor_def mask
    by (intro bit_word_eqI) (auto simp: bit_or_iff bit_and_iff bit_push_bit_iff bit_mask_iff
        dest: high [OF assms(2)])
  then show "unat (scan_cursor i j AND 0xFFFFFFFF) = j" using assms(2) by (simp add: unsigned_of_nat take_bit_nat_eq_self)
qed

lemma scan_cursor_nonzero: "i < 2 ^ 32 \<Longrightarrow> j < 2 ^ 32 \<Longrightarrow> 0 < j \<Longrightarrow> scan_cursor i j \<noteq> 0"
  using scan_cursor_decode(2) [of i j] by auto

lemma at_pos_decode:
  assumes "small_store ord s" "at_pos ord s cur pos"
  obtains i j where "unat (drop_bit 32 cur) = i" "unat (cur AND 0xFFFFFFFF) = j" "i < length (st_shards s)"
    "j \<le> length (range_map ord i (st_shards s ! i))" "pos = length (concat (take i (shard_lists ord s))) + j"
proof (cases "cur = 0 \<and> pos = 0")
  case True
  with assms(1) that [of 0 0] show thesis by (auto simp: small_store_def st_inv_def)
next
  case False
  with assms(2) obtain i j where ij: "i < length (st_shards s)" "cur = scan_cursor i j"
    "j \<le> length (range_map ord i (st_shards s ! i))" "pos = length (concat (take i (shard_lists ord s))) + j"
    by (auto simp: at_pos_def cursor_pos_def)
  with assms(1) have "i < 2 ^ 32" "j < 2 ^ 32" by (auto simp: small_store_def st_inv_def)
  with ij that show thesis by (metis scan_cursor_decode)
qed

lemma cursor_pos_shift:
  assumes "cursor_pos (drop i L) i cur pos"
  shows "cursor_pos L 0 cur (length (concat (take i L)) + pos)"
proof -
  from assms obtain i' j' where *: "i' < length (drop i L)" "cur = scan_cursor (i + i') j'" "0 < j'"
    "j' \<le> length (drop i L ! i')" "pos = length (concat (take i' (drop i L))) + j'"
    unfolding cursor_pos_def by blast
  have "take (i + i') L = take i L @ take i' (drop i L)" by (simp add: take_add)
  with * show ?thesis unfolding cursor_pos_def by (intro exI [of _ "i + i'"] exI [of _ j']) auto
qed

lemma st_Scan_spec:
  assumes "small_store ord s" "at_pos ord s cur pos" "0 < cnt"
  shows "fst (st_Scan ord s cur cnt) = take (nat cnt) (drop pos (st_all ord s))"
    and "nat cnt \<le> length (st_all ord s) - pos \<Longrightarrow>
      at_pos ord s (snd (st_Scan ord s cur cnt)) (pos + nat cnt) \<and> snd (st_Scan ord s cur cnt) \<noteq> 0"
    and "length (st_all ord s) - pos < nat cnt \<Longrightarrow> snd (st_Scan ord s cur cnt) = 0"
proof -
  obtain i j where ij: "unat (drop_bit 32 cur) = i" "unat (cur AND 0xFFFFFFFF) = j" "i < length (st_shards s)"
    "j \<le> length (range_map ord i (st_shards s ! i))" "pos = length (concat (take i (shard_lists ord s))) + j"
    using at_pos_decode [OF assms(1,2)] .
  let ?L = "lists_from ord i (drop i (st_shards s))"
  have scan: "st_Scan ord s cur cnt = scan_shards ord i j (nat cnt) [] (drop i (st_shards s))"
    using ij assms(3) by (simp add: st_Scan_def Let_def)
  have split: "shard_lists ord s = take i (shard_lists ord s) @ ?L"
    using drop_shard_lists [of i ord s] by (metis append_take_drop_id)
  then have rest: "drop pos (st_all ord s) = drop j (concat ?L)"
  proof -
    have "concat (shard_lists ord s) = concat (take i (shard_lists ord s)) @ concat ?L" by (metis split concat_append)
    then show ?thesis by (simp add: st_all_def ij(5))
  qed
  then have len: "length (drop j (concat ?L)) = length (st_all ord s) - pos" by (metis length_drop)
  have "case drop i (st_shards s) of [] \<Rightarrow> j = 0 | sh # _ \<Rightarrow> j \<le> length (range_map ord i sh)"
    using ij(3,4) by (simp add: Cons_nth_drop_Suc [symmetric])
  note spec = scan_shards_spec [of "[]" "nat cnt", OF _ this]
  from spec assms(3) rest len scan show "fst (st_Scan ord s cur cnt) = take (nat cnt) (drop pos (st_all ord s))"
    by (auto simp: Let_def split: if_splits)
  from spec assms(3) rest len scan show "length (st_all ord s) - pos < nat cnt \<Longrightarrow> snd (st_Scan ord s cur cnt) = 0"
    by (auto simp: Let_def split: if_splits)
  assume "nat cnt \<le> length (st_all ord s) - pos"
  with spec assms(3) len scan have cur': "cursor_pos ?L i (snd (st_Scan ord s cur cnt)) (j + nat cnt)"
    by (auto simp: Let_def split: if_splits)
  have "cursor_pos (shard_lists ord s) 0 (snd (st_Scan ord s cur cnt)) (pos + nat cnt)"
    using cursor_pos_shift [of i "shard_lists ord s"] cur' ij(5) by (simp add: drop_shard_lists add.assoc)
  moreover from this have "snd (st_Scan ord s cur cnt) \<noteq> 0"
  proof -
    from \<open>cursor_pos (shard_lists ord s) 0 _ _\<close> obtain i' j' where *: "i' < length (st_shards s)"
      "snd (st_Scan ord s cur cnt) = scan_cursor i' j'" "0 < j'" "j' \<le> length (range_map ord i' (st_shards s ! i'))"
      by (auto simp: cursor_pos_def)
    with assms(1) have "i' < 2 ^ 32" "j' < 2 ^ 32" by (auto simp: small_store_def st_inv_def)
    with * show ?thesis by (simp add: scan_cursor_nonzero)
  qed
  ultimately show "at_pos ord s (snd (st_Scan ord s cur cnt)) (pos + nat cnt) \<and> snd (st_Scan ord s cur cnt) \<noteq> 0"
    by (simp add: at_pos_def)
qed

end
