(* ===== verification/Glob.thy ===== *)
theory Glob
  imports Prelude
begin

text \<open>
  \<open>internal/glob/pattern.go\<close>: compiling a glob pattern into segments and matching a key against
  them. A position in a string is represented by the suffix it starts. Compiling expands the ranges
  of a bracket expression with a loop over bytes that need not end; its result is an option, with
  \<open>None\<close> for divergence, of an error or a pattern.
\<close>

section \<open>Glob patterns\<close>

datatype segmentType = segLiteral | segStar | segDouble | segQuestion | segCharset

record segment =
  sg_typ :: segmentType
  sg_literal :: string
  sg_charset :: string
  sg_negated :: bool

record Pattern =
  p_raw :: string
  p_prefix :: string
  p_segments :: "segment list"
  p_hasDouble :: bool

datatype glob_error = ErrEmptyPattern | ErrInvalidPattern | ErrUnmatchedBrace

text \<open>A segment literal of Go leaves the fields it does not name at their zero values.\<close>

definition mk_segment :: "segmentType \<Rightarrow> segment" where
  "mk_segment t = \<lparr>sg_typ = t, sg_literal = [], sg_charset = [], sg_negated = False\<rparr>"

abbreviation backslash :: char where "backslash \<equiv> CHR 0x5C"

definition wildcard :: "char \<Rightarrow> bool" where
  "wildcard c \<longleftrightarrow> c = CHR ''*'' \<or> c = CHR ''?'' \<or> c = CHR ''[''"

subsection \<open>Parsing\<close>

fun extractPrefix :: "string \<Rightarrow> string" where
  "extractPrefix [] = []"
| "extractPrefix (c # cs) =
     (if wildcard c then []
      else if c = backslash \<and> cs \<noteq> [] then hd cs # extractPrefix (tl cs)
      else c # extractPrefix cs)"

fun unescape_loop :: "string \<Rightarrow> string" where
  "unescape_loop [] = []"
| "unescape_loop (c # cs) =
     (if c = backslash \<and> cs \<noteq> [] then hd cs # unescape_loop (tl cs) else c # unescape_loop cs)"

definition unescape :: "string \<Rightarrow> string" where
  "unescape s = (if backslash \<notin> set s then s else unescape_loop s)"

text \<open>\<open>for c := start; c <= end; c++\<close> over bytes, whose increment wraps.\<close>

definition next_byte :: "char \<Rightarrow> char" where
  "next_byte c = char_of ((of_char c :: nat) + 1)"

partial_function (option) range_loop :: "char \<Rightarrow> char \<Rightarrow> string \<Rightarrow> string option" where
  "range_loop c hi charset =
     (if (of_char c :: nat) \<le> of_char hi then range_loop (next_byte c) hi (charset @ [c])
      else Some charset)"

text \<open>\<open>start, end = end, start\<close> when the bounds are given in descending order.\<close>

definition expand_range :: "char \<Rightarrow> char \<Rightarrow> string \<Rightarrow> string option" where
  "expand_range start hi charset =
     (if (of_char start :: nat) > of_char hi then range_loop hi start charset else range_loop start hi charset)"

fun charset_loop :: "string \<Rightarrow> string \<Rightarrow> (glob_error + string \<times> string) option" where
  "charset_loop [] charset = Some (Inl ErrUnmatchedBrace)"
| "charset_loop (c # cs) charset =
     (if c = CHR '']'' then Some (Inr (charset, cs))
      else if c = backslash \<and> cs \<noteq> [] then charset_loop (tl cs) (charset @ [hd cs])
      else if length cs \<ge> 2 \<and> cs ! 0 = CHR ''-'' \<and> cs ! 1 \<noteq> CHR '']''
      then (case expand_range c (cs ! 1) charset of
              None \<Rightarrow> None
            | Some charset \<Rightarrow> charset_loop (drop 2 cs) charset)
      else charset_loop cs (charset @ [c]))"

text \<open>The result is the charset, whether it is negated, and the pattern after the bracket.\<close>

definition parseCharset :: "string \<Rightarrow> (glob_error + string \<times> bool \<times> string) option" where
  "parseCharset pattern =
     (case pattern of
        [] \<Rightarrow> Some (Inl ErrInvalidPattern)
      | c # cs \<Rightarrow>
          if c \<noteq> CHR ''['' then Some (Inl ErrInvalidPattern)
          else let negated = (cs \<noteq> [] \<and> (hd cs = CHR ''^'' \<or> hd cs = CHR ''!''));
                   cs = (if negated then tl cs else cs)
               in case charset_loop cs [] of
                    None \<Rightarrow> None
                  | Some (Inl err) \<Rightarrow> Some (Inl err)
                  | Some (Inr (charset, rest)) \<Rightarrow> Some (Inr (charset, negated, rest)))"

text \<open>The loop that collects a literal: the raw slice and the pattern after it.\<close>

fun literal_span :: "string \<Rightarrow> string \<times> string" where
  "literal_span [] = ([], [])"
| "literal_span (c # cs) =
     (if wildcard c then ([], c # cs)
      else if c = backslash \<and> cs \<noteq> []
      then (let (raw, rest) = literal_span (tl cs) in (c # hd cs # raw, rest))
      else (let (raw, rest) = literal_span cs in (c # raw, rest)))"

lemma literal_span_append: "fst (literal_span s) @ snd (literal_span s) = s"
  by (induction s rule: literal_span.induct) (auto simp: case_prod_beta)

lemma literal_span_le: "length (snd (literal_span s)) \<le> length s"
  by (metis literal_span_append length_append le_add2)

lemma literal_span_less: "\<not> wildcard c \<Longrightarrow> length (snd (literal_span (c # cs))) < Suc (length cs)"
  using literal_span_le [of cs] literal_span_le [of "tl cs"] by (auto simp: case_prod_beta)

lemma charset_loop_less: "charset_loop cs acc = Some (Inr (charset, rest)) \<Longrightarrow> length rest < length cs"
proof (induction cs acc rule: charset_loop.induct)
  case (2 c cs acc)
  then show ?case by (fastforce simp: less_diff_conv intro: less_SucI split: if_splits option.splits)
qed simp

lemma parseCharset_less:
  "parseCharset pattern = Some (Inr (charset, negated, rest)) \<Longrightarrow> length rest < length pattern"
  by (cases pattern) (fastforce simp: parseCharset_def Let_def intro: less_SucI dest!: charset_loop_less
      split: if_splits option.splits sum.splits)+

text \<open>The parsing loop of \<open>Compile\<close>, with \<open>p.segments\<close> and \<open>p.hasDouble\<close> as accumulators.\<close>

function compile_loop :: "string \<Rightarrow> segment list \<Rightarrow> bool \<Rightarrow> (glob_error + segment list \<times> bool) option" where
  "compile_loop [] segments hasDouble = Some (Inr (segments, hasDouble))"
| "compile_loop (c # cs) segments hasDouble =
     (if c = CHR ''*''
      then (if cs \<noteq> [] \<and> hd cs = CHR ''*''
            then compile_loop (tl cs) (segments @ [mk_segment segDouble]) True
            else compile_loop cs (segments @ [mk_segment segStar]) hasDouble)
      else if c = CHR ''?'' then compile_loop cs (segments @ [mk_segment segQuestion]) hasDouble
      else if c = CHR ''[''
      then (case parseCharset (c # cs) of
              None \<Rightarrow> None
            | Some (Inl err) \<Rightarrow> Some (Inl err)
            | Some (Inr (charset, negated, rest)) \<Rightarrow>
                compile_loop rest
                  (segments @ [(mk_segment segCharset)\<lparr>sg_charset := charset, sg_negated := negated\<rparr>]) hasDouble)
      else (let (raw, rest) = literal_span (c # cs)
            in compile_loop rest (segments @ [(mk_segment segLiteral)\<lparr>sg_literal := unescape raw\<rparr>]) hasDouble))"
  by pat_completeness auto
termination
proof (relation "measure (\<lambda>(cs, _, _). length cs)", goal_cases)
  case (5 c cs segments hasDouble x2 b aa y ba ya)
  then show ?case using parseCharset_less [of "c # cs"] by auto
next
  case (6 c cs segments hasDouble x y)
  then show ?case using literal_span_less [of c cs] by (simp add: wildcard_def prod_eq_iff [symmetric] del: literal_span.simps) (metis snd_conv)
qed auto

declare compile_loop.simps [simp del]

definition glob_Compile :: "string \<Rightarrow> (glob_error + Pattern) option" where
  "glob_Compile pattern =
     (if pattern = [] then Some (Inl ErrEmptyPattern)
      else case compile_loop pattern [] False of
             None \<Rightarrow> None
           | Some (Inl err) \<Rightarrow> Some (Inl err)
           | Some (Inr (segments, hasDouble)) \<Rightarrow>
               Some (Inr \<lparr>p_raw = pattern, p_prefix = extractPrefix pattern,
                          p_segments = segments, p_hasDouble = hasDouble\<rparr>))"

subsection \<open>Matching\<close>

text \<open>\<open>key\<close> is the rest of the key from \<open>keyPos\<close>, the list the segments from \<open>segIdx\<close>.\<close>

fun matchSegments :: "string \<Rightarrow> segment list \<Rightarrow> bool" where
  "matchSegments key [] = (key = [])"
| "matchSegments key (seg # segs) =
     (case sg_typ seg of
        segLiteral \<Rightarrow>
          (if length (sg_literal seg) > length key then False
           else if take (length (sg_literal seg)) key \<noteq> sg_literal seg then False
           else matchSegments (drop (length (sg_literal seg)) key) segs)
      | segQuestion \<Rightarrow> (if key = [] then False else matchSegments (tl key) segs)
      | segCharset \<Rightarrow>
          (if key = [] then False
           else let inSet = (hd key \<in> set (sg_charset seg));
                    inSet = (if sg_negated seg then \<not> inSet else inSet)
                in if \<not> inSet then False else matchSegments (tl key) segs)
      | segStar \<Rightarrow> list_ex (\<lambda>i. matchSegments (drop i key) segs) [0..<Suc (length key)]
      | segDouble \<Rightarrow> list_ex (\<lambda>i. matchSegments (drop i key) segs) [0..<Suc (length key)])"

definition p_Match :: "Pattern \<Rightarrow> string \<Rightarrow> bool" where
  "p_Match p key = matchSegments key (p_segments p)"

definition p_IsLiteral :: "Pattern \<Rightarrow> bool" where
  "p_IsLiteral p \<longleftrightarrow> length (p_segments p) = 1 \<and> sg_typ (p_segments p ! 0) = segLiteral"

definition glob_Match :: "string \<Rightarrow> string \<Rightarrow> (glob_error + bool) option" where
  "glob_Match pattern key = 
     (case glob_Compile pattern of
        None \<Rightarrow> None
      | Some (Inl err) \<Rightarrow> Some (Inl err)
      | Some (Inr p) \<Rightarrow> Some (Inr (p_Match p key)))"

subsection \<open>Ranges\<close>

abbreviation byte :: "char \<Rightarrow> nat" where "byte c \<equiv> of_char c"

definition between :: "char \<Rightarrow> char \<Rightarrow> char list" where
  "between a b = map char_of [min (byte a) (byte b)..<Suc (max (byte a) (byte b))]"

lemma byte_less: "byte c < 256"
  by (metis mod_less_divisor of_char_mod_256 zero_less_numeral)

lemma byte_255: "byte c = 255 \<longleftrightarrow> c = CHR 0xFF"
proof -
  have "byte (CHR 0xFF) = 255" by simp
  then show ?thesis by (metis char_of_char)
qed

lemma set_between: "set (between a b) = {c. min (byte a) (byte b) \<le> byte c \<and> byte c \<le> max (byte a) (byte b)}"
proof (intro set_eqI iffI)
  fix c
  show "c \<in> {c. min (byte a) (byte b) \<le> byte c \<and> byte c \<le> max (byte a) (byte b)}" if "c \<in> set (between a b)"
  proof -
    from that obtain x where "c = char_of x" "x \<in> {min (byte a) (byte b)..<Suc (max (byte a) (byte b))}"
      by (auto simp: between_def simp del: upt_Suc)
    moreover have "max (byte a) (byte b) < 256" by (simp add: max_def byte_less)
    moreover from calculation have "x < 256" by (metis atLeastLessThan_iff le_less_trans less_Suc_eq_le)
    moreover from calculation have "byte c = x" by simp
    ultimately show ?thesis by simp
  qed
  assume "c \<in> {c. min (byte a) (byte b) \<le> byte c \<and> byte c \<le> max (byte a) (byte b)}"
  then have "byte c \<in> set [min (byte a) (byte b)..<Suc (max (byte a) (byte b))]" by auto
  then have "char_of (byte c) \<in> set (between a b)" unfolding between_def set_map by (rule imageI)
  then show "c \<in> set (between a b)" by simp
qed

lemma range_loop_returns:
  assumes "byte hi < 255" "byte c \<le> Suc (byte hi)"
  shows "range_loop c hi acc = Some (acc @ map char_of [byte c..<Suc (byte hi)])"
  using assms(2)
proof (induction "Suc (byte hi) - byte c" arbitrary: c acc)
  case 0
  then show ?case by (subst range_loop.simps) simp
next
  case (Suc n)
  then have le: "byte c \<le> byte hi" by simp
  with assms(1) have next_c: "byte (next_byte c) = Suc (byte c)" by (simp add: next_byte_def)
  with Suc.hyps(2) le have "range_loop (next_byte c) hi (acc @ [c])
      = Some ((acc @ [c]) @ map char_of [Suc (byte c)..<Suc (byte hi)])"
    by (subst Suc.hyps(1)) auto
  moreover have "map char_of [byte c..<Suc (byte hi)] = c # map char_of [Suc (byte c)..<Suc (byte hi)]"
    using le by (subst upt_conv_Cons) auto
  ultimately show ?case using le by (subst range_loop.simps) simp
qed

lemma range_loop_bound:
  assumes "range_loop c hi acc = Some r"
  shows "byte hi < 255"
proof (rule range_loop.raw_induct [where P = "\<lambda>_ hi _ _. byte hi < 255", OF _ assms])
  fix rec c hi acc r
  assume "\<And>c hi acc r. rec c hi acc = Some r \<Longrightarrow> byte hi < 255"
    and "(if byte c \<le> byte hi then rec (next_byte c) hi (acc @ [c]) else Some acc) = Some r"
  then show "byte hi < 255" using byte_less [of c] by (cases "byte c \<le> byte hi") (simp, linarith)
qed

lemma range_loop_diverges: "byte hi = 255 \<Longrightarrow> range_loop c hi acc = None"
  using range_loop_bound [of c hi acc] by (cases "range_loop c hi acc") auto

lemma expand_range_returns:
  assumes "byte a \<noteq> 255" "byte b \<noteq> 255"
  shows "expand_range a b acc = Some (acc @ between a b)"
proof -
  have "byte a < 255" "byte b < 255" using assms byte_less [of a] byte_less [of b] by linarith+
  then show ?thesis by (auto simp: expand_range_def between_def range_loop_returns min_def max_def simp del: upt_Suc)
qed

lemma expand_range_diverges:
  assumes "byte a = 255 \<or> byte b = 255"
  shows "expand_range a b acc = None"
proof (cases "byte a > byte b")
  case True
  with assms byte_less [of a] have "byte a = 255" by linarith
  with True show ?thesis by (simp add: expand_range_def range_loop_diverges)
next
  case False
  with assms byte_less [of b] have "byte b = 255" by linarith
  with False show ?thesis by (simp add: expand_range_def range_loop_diverges)
qed

subsection \<open>When compiling returns\<close>

lemma set_hd_tl: "xs \<noteq> [] \<Longrightarrow> set (tl xs) \<subseteq> set xs"
  by (cases xs) auto

lemma charset_loop_step:
  assumes "CHR 0xFF \<notin> set (c # cs)" "c \<noteq> CHR '']''"
  obtains rest acc' where "charset_loop (c # cs) acc = charset_loop rest acc'"
    "set rest \<subseteq> set cs" "length rest < length (c # cs)"
proof -
  consider "c = backslash" "cs \<noteq> []"
    | "\<not> (c = backslash \<and> cs \<noteq> [])" "length cs \<ge> 2 \<and> cs ! 0 = CHR ''-'' \<and> cs ! 1 \<noteq> CHR '']''"
    | "\<not> (c = backslash \<and> cs \<noteq> [])" "\<not> (length cs \<ge> 2 \<and> cs ! 0 = CHR ''-'' \<and> cs ! 1 \<noteq> CHR '']'')"
    by blast
  then show thesis
  proof cases
    case 1
    with assms that [of "tl cs"] set_hd_tl [of cs] show thesis by simp
  next
    case 2
    then have "c \<noteq> CHR 0xFF" "cs ! 1 \<noteq> CHR 0xFF" using assms nth_mem [of 1 cs] by (auto simp del: nth_mem)
    then have "expand_range c (cs ! 1) acc = Some (acc @ between c (cs ! 1))"
      by (intro expand_range_returns) (simp_all add: byte_255)
    with assms 2 that [of "drop 2 cs"] set_drop_subset [of 2 cs] show thesis by simp
  next
    case 3
    have "charset_loop (c # cs) acc = charset_loop cs (acc @ [c])"
      by (subst charset_loop.simps) (simp only: 3 assms(2) if_False)
    with that [of cs] show thesis by simp
  qed
qed

lemma charset_loop_returns:
  "CHR 0xFF \<notin> set cs \<Longrightarrow> charset_loop cs acc \<noteq> None \<and>
    (\<forall>charset rest. charset_loop cs acc = Some (Inr (charset, rest)) \<longrightarrow> set rest \<subseteq> set cs)"
proof (induction "length cs" arbitrary: cs acc rule: less_induct)
  case less
  show ?case
  proof (cases cs)
    case (Cons c cs')
    show ?thesis
    proof (cases "c = CHR '']''")
      case False
      from charset_loop_step [OF less.prems [unfolded Cons] False, of acc] obtain rest acc'
        where step: "charset_loop cs acc = charset_loop rest acc'" "set rest \<subseteq> set cs'" "length rest < length cs"
        unfolding Cons by metis
      with less.prems Cons less.hyps [of rest acc'] show ?thesis by (auto simp: Cons)
    qed (use Cons in auto)
  qed simp
qed

lemma parseCharset_returns:
  assumes "CHR 0xFF \<notin> set (c # cs)"
  shows "parseCharset (c # cs) \<noteq> None \<and> (\<forall>charset negated rest.
    parseCharset (c # cs) = Some (Inr (charset, negated, rest)) \<longrightarrow> set rest \<subseteq> set cs)"
proof -
  define ds where "ds = (if cs \<noteq> [] \<and> (hd cs = CHR ''^'' \<or> hd cs = CHR ''!'') then tl cs else cs)"
  have sub: "set ds \<subseteq> set cs" using set_hd_tl [of cs] by (auto simp: ds_def)
  with assms have "CHR 0xFF \<notin> set ds" by auto
  from charset_loop_returns [OF this, of "[]"] sub show ?thesis
    by (auto simp: parseCharset_def Let_def ds_def [symmetric] split: option.splits sum.splits)
qed

lemma compile_loop_returns: "CHR 0xFF \<notin> set cs \<Longrightarrow> compile_loop cs segs d \<noteq> None"
proof (induction cs segs d rule: compile_loop.induct)
  case (1 segs d)
  then show ?case by (simp add: compile_loop.simps)
next
  case (2 c cs segs d)
  have tl: "CHR 0xFF \<notin> set (tl cs)" using "2.prems" set_hd_tl [of cs] by (cases cs) auto
  consider "c = CHR ''*''" | "c = CHR ''?''" | "c = CHR ''[''"
    | "c \<noteq> CHR ''*''" "c \<noteq> CHR ''?''" "c \<noteq> CHR ''[''" by blast
  then show ?case
  proof cases
    case 1
    with 2 tl show ?thesis by (subst compile_loop.simps) simp
  next
    case 2
    with "2.IH" "2.prems" show ?thesis by (subst compile_loop.simps) simp
  next
    case 3
    from parseCharset_returns [of c cs] "2.prems" consider err where "parseCharset (c # cs) = Some (Inl err)"
      | charset negated rest where "parseCharset (c # cs) = Some (Inr (charset, negated, rest))" "set rest \<subseteq> set cs"
      by (metis not_None_eq old.sum.exhaust surj_pair)
    then show ?thesis
    proof cases
      case 2
      with "2.IH"(4) [OF _ _ _ 2(1) refl refl refl] "2.prems" 3 show ?thesis
        by (subst compile_loop.simps) (auto simp: subset_iff)
    qed (use 3 in \<open>simp add: compile_loop.simps\<close>)
  next
    case 4
    obtain raw rest where span: "literal_span (c # cs) = (raw, rest)" by (cases "literal_span (c # cs)")
    with literal_span_append [of "c # cs"] have "set rest \<subseteq> set (c # cs)" by (metis fst_conv snd_conv set_append sup_ge2)
    with "2.prems" have "CHR 0xFF \<notin> set rest" by auto
    with "2.IH"(5) [OF 4 span [symmetric] refl] 4 span show ?thesis
      by (subst compile_loop.simps) (simp del: literal_span.simps)
  qed
qed

lemma glob_Compile_returns: "CHR 0xFF \<notin> set pattern \<Longrightarrow> glob_Compile pattern \<noteq> None"
  using compile_loop_returns [of pattern "[]" False]
  by (auto simp: glob_Compile_def split: option.splits sum.splits)

text \<open>A range that ends at the last byte is expanded for ever.\<close>

lemma glob_Compile_diverges:
  assumes "a \<notin> {backslash, CHR '']'', CHR ''^'', CHR ''!''}"
  shows "glob_Compile (CHR ''['' # a # CHR ''-'' # CHR 0xFF # rest) = None"
proof -
  have "expand_range a CHR 0xFF [] = None" by (rule expand_range_diverges) simp
  with assms have "parseCharset (CHR ''['' # a # CHR ''-'' # CHR 0xFF # rest) = None"
    by (simp add: parseCharset_def)
  then show ?thesis by (simp add: glob_Compile_def compile_loop.simps)
qed

subsection \<open>What a compiled pattern matches\<close>

definition seg_lang :: "segment \<Rightarrow> string set" where
  "seg_lang seg = (case sg_typ seg of
     segLiteral \<Rightarrow> {sg_literal seg}
   | segStar \<Rightarrow> UNIV
   | segDouble \<Rightarrow> UNIV
   | segQuestion \<Rightarrow> {[c] | c. True}
   | segCharset \<Rightarrow> {[c] | c. (c \<in> set (sg_charset seg)) \<noteq> sg_negated seg})"

lemma ex_drop: "(\<exists>i \<in> {0..<Suc (length key)}. P (drop i key)) \<longleftrightarrow> (\<exists>w rest. key = w @ rest \<and> P rest)"
proof
  assume "\<exists>i \<in> {0..<Suc (length key)}. P (drop i key)"
  then show "\<exists>w rest. key = w @ rest \<and> P rest" by (metis append_take_drop_id)
next
  assume "\<exists>w rest. key = w @ rest \<and> P rest"
  then obtain w rest where "key = w @ rest" "P rest" by blast
  then show "\<exists>i \<in> {0..<Suc (length key)}. P (drop i key)" by (intro bexI [of _ "length w"]) auto
qed

lemma matchSegments_step:
  "matchSegments key (seg # segs) \<longleftrightarrow> (\<exists>w rest. w \<in> seg_lang seg \<and> key = w @ rest \<and> matchSegments rest segs)"
proof (cases "sg_typ seg")
  case segLiteral
  then show ?thesis
    by (auto simp: seg_lang_def) (metis append_take_drop_id)
next
  case segQuestion
  then show ?thesis by (cases key) (auto simp: seg_lang_def)
next
  case segCharset
  then show ?thesis by (cases key) (auto simp: seg_lang_def Let_def)
next
  case segStar
  then show ?thesis by (simp add: seg_lang_def list_ex_iff ex_drop [where P = "\<lambda>k. matchSegments k segs"] del: upt_Suc)
next
  case segDouble
  then show ?thesis by (simp add: seg_lang_def list_ex_iff ex_drop [where P = "\<lambda>k. matchSegments k segs"] del: upt_Suc)
qed

lemma matchSegments_lang:
  "matchSegments key segs \<longleftrightarrow> (\<exists>ws. list_all2 (\<lambda>seg w. w \<in> seg_lang seg) segs ws \<and> key = concat ws)"
proof (induction segs arbitrary: key)
  case Nil
  then show ?case by auto
next
  case (Cons seg segs)
  show ?case unfolding matchSegments_step Cons.IH by (fastforce simp: list_all2_Cons1)
qed

lemma p_Match_lang:
  "p_Match p key \<longleftrightarrow> (\<exists>ws. list_all2 (\<lambda>seg w. w \<in> seg_lang seg) (p_segments p) ws \<and> key = concat ws)"
  by (simp add: p_Match_def matchSegments_lang)

subsection \<open>The literal prefix\<close>

lemma unescape_eq: "unescape s = unescape_loop s"
proof -
  have "backslash \<notin> set s \<Longrightarrow> unescape_loop s = s" by (induction s rule: unescape_loop.induct) auto
  then show ?thesis by (simp add: unescape_def)
qed

lemma extractPrefix_span: "extractPrefix s = unescape (fst (literal_span s))"
  unfolding unescape_eq by (induction s rule: extractPrefix.induct) (auto simp: case_prod_beta)

lemma compile_loop_step:
  assumes "compile_loop (c # cs) segs d = Some (Inr r)"
  obtains rest seg d2 where "compile_loop rest (segs @ [seg]) d2 = Some (Inr r)" "length rest < length (c # cs)"
proof -
  consider "c = CHR ''*''" "cs \<noteq> [] \<and> hd cs = CHR ''*''" | "c = CHR ''*''" "\<not> (cs \<noteq> [] \<and> hd cs = CHR ''*'')"
    | "c = CHR ''?''" | "c = CHR ''[''" | "c \<noteq> CHR ''*''" "c \<noteq> CHR ''?''" "c \<noteq> CHR ''[''" by blast
  then show thesis
  proof cases
    case 1
    with assms have "compile_loop (tl cs) (segs @ [mk_segment segDouble]) True = Some (Inr r)"
      by (simp add: compile_loop.simps(2))
    then show thesis by (rule that) simp
  next
    case 2
    with assms have "compile_loop cs (segs @ [mk_segment segStar]) d = Some (Inr r)"
      by (simp add: compile_loop.simps(2))
    then show thesis by (rule that) simp
  next
    case 3
    with assms have "compile_loop cs (segs @ [mk_segment segQuestion]) d = Some (Inr r)"
      by (simp add: compile_loop.simps(2))
    then show thesis by (rule that) simp
  next
    case 4
    with assms obtain charset negated rest where parsed: "parseCharset (c # cs) = Some (Inr (charset, negated, rest))"
      "compile_loop rest (segs @ [(mk_segment segCharset)\<lparr>sg_charset := charset, sg_negated := negated\<rparr>]) d = Some (Inr r)"
      by (auto simp: compile_loop.simps(2) split: option.splits sum.splits)
    from that [OF parsed(2)] parseCharset_less [OF parsed(1)] show thesis by simp
  next
    case 5
    obtain raw rest where span: "literal_span (c # cs) = (raw, rest)" by (cases "literal_span (c # cs)")
    with 5 assms have "compile_loop rest (segs @ [(mk_segment segLiteral)\<lparr>sg_literal := unescape raw\<rparr>]) d = Some (Inr r)"
      by (simp add: compile_loop.simps(2) del: literal_span.simps)
    from that [OF this] literal_span_less [of c cs] 5 span show thesis by (simp add: wildcard_def del: literal_span.simps)
  qed
qed

lemma compile_loop_extends:
  "compile_loop cs segs d = Some (Inr (r, d')) \<Longrightarrow> \<exists>more. r = segs @ more"
proof (induction "length cs" arbitrary: cs segs d rule: less_induct)
  case less
  show ?case
  proof (cases cs)
    case Nil
    with less.prems show ?thesis by (simp add: compile_loop.simps)
  next
    case (Cons c cs')
    from compile_loop_step [OF less.prems [unfolded Cons]] obtain rest seg d2
      where "compile_loop rest (segs @ [seg]) d2 = Some (Inr (r, d'))" "length rest < length (c # cs')" .
    with less.hyps [of rest "segs @ [seg]" d2] Cons show ?thesis by auto
  qed
qed

lemma glob_Compile_prefix:
  assumes "glob_Compile pattern = Some (Inr p)"
  obtains "p_prefix p = []"
  | seg segs where "p_segments p = seg # segs" "sg_typ seg = segLiteral" "sg_literal seg = p_prefix p"
proof -
  from assms obtain c cs where pattern: "pattern = c # cs" by (cases pattern) (auto simp: glob_Compile_def)
  from assms obtain d where loop: "compile_loop pattern [] False = Some (Inr (p_segments p, d))"
    and pre: "p_prefix p = extractPrefix pattern"
    by (auto simp: glob_Compile_def split: if_splits option.splits sum.splits)
  show ?thesis
  proof (cases "wildcard c")
    case True
    with pre pattern that(1) show ?thesis by simp
  next
    case False
    obtain raw rest where span: "literal_span (c # cs) = (raw, rest)" by (cases "literal_span (c # cs)")
    from False loop [unfolded pattern]
    have "compile_loop rest [(mk_segment segLiteral)\<lparr>sg_literal := unescape raw\<rparr>] False = Some (Inr (p_segments p, d))"
      by (subst (asm) compile_loop.simps) (simp add: wildcard_def span del: literal_span.simps)
    from compile_loop_extends [OF this] obtain more
      where "p_segments p = (mk_segment segLiteral)\<lparr>sg_literal := unescape raw\<rparr> # more" by auto
    moreover have "p_prefix p = unescape raw" by (simp only: pre pattern extractPrefix_span span fst_conv)
    ultimately show ?thesis using that(2) by (simp add: mk_segment_def)
  qed
qed

lemma p_Match_prefix:
  assumes "glob_Compile pattern = Some (Inr p)" "p_Match p key"
  shows "\<exists>rest. key = p_prefix p @ rest"
  using assms(1)
proof (cases rule: glob_Compile_prefix)
  case (2 seg segs)
  with assms(2) show ?thesis
    by (auto simp: p_Match_def matchSegments_step seg_lang_def simp del: matchSegments.simps(2))
qed simp

lemma p_IsLiteral_exact:
  assumes "p_IsLiteral p"
  shows "p_Match p key \<longleftrightarrow> key = sg_literal (p_segments p ! 0)"
proof -
  from assms obtain seg where "p_segments p = [seg]" "sg_typ seg = segLiteral"
    by (auto simp: p_IsLiteral_def length_Suc_conv)
  then show ?thesis 
    by (auto simp: p_Match_def matchSegments_step seg_lang_def simp del: matchSegments.simps(2))
qed

subsection \<open>The patterns as their documentation describes them\<close>

text \<open>
  The elements of a pattern, their concrete syntax and the strings they stand for. In the syntax
  every character that is not part of a construct is escaped; the bounds of a range are not.
\<close>

datatype literal = Plain char | Escaped char

datatype set_item = One literal | Range char char

datatype glob_item = Text "literal list" | Star | DoubleStar | AnyChar | Chars bool "set_item list"

fun lit_syntax :: "literal \<Rightarrow> string" where
  "lit_syntax (Plain c) = [c]"
| "lit_syntax (Escaped c) = [backslash, c]"

fun lit_char :: "literal \<Rightarrow> char" where
  "lit_char (Plain c) = c"
| "lit_char (Escaped c) = c"

fun set_syntax :: "set_item \<Rightarrow> string" where
  "set_syntax (One l) = lit_syntax l"
| "set_syntax (Range a b) = [a, CHR ''-'', b]"

fun item_syntax :: "glob_item \<Rightarrow> string" where
  "item_syntax (Text s) = concat (map lit_syntax s)"
| "item_syntax Star = ''*''"
| "item_syntax DoubleStar = ''**''"
| "item_syntax AnyChar = ''?''"
| "item_syntax (Chars neg its) = ''['' @ (if neg then ''^'' else []) @ concat (map set_syntax its) @ '']''"

fun set_chars :: "set_item \<Rightarrow> char set" where
  "set_chars (One l) = {lit_char l}"
| "set_chars (Range a b) = {c. min (byte a) (byte b) \<le> byte c \<and> byte c \<le> max (byte a) (byte b)}"

fun item_lang :: "glob_item \<Rightarrow> string set" where
  "item_lang (Text s) = {map lit_char s}"
| "item_lang Star = UNIV"
| "item_lang DoubleStar = UNIV"
| "item_lang AnyChar = {[c] | c. True}"
| "item_lang (Chars neg its) = {[c] | c. (c \<in> \<Union> (set_chars ` set its)) \<noteq> neg}"

text \<open>A plain character of a text is none of \<open>*\<close>, \<open>?\<close>, \<open>[\<close> and backslash; those have to be escaped.\<close>

fun lit_ok :: "literal \<Rightarrow> bool" where
  "lit_ok (Plain c) = (\<not> wildcard c \<and> c \<noteq> backslash)"
| "lit_ok (Escaped c) = True"

text \<open>
  In brackets it is none of \<open>]\<close>, \<open>^\<close>, \<open>!\<close> and backslash, and no dash follows it. The bounds of a range
  are not special characters, and none of them is byte 255.
\<close>

fun sets_ok :: "set_item list \<Rightarrow> bool" where
  "sets_ok [] = True"
| "sets_ok (One (Escaped c) # its) = sets_ok its"
| "sets_ok (One (Plain c) # its) = (c \<notin> {CHR '']'', CHR ''^'', CHR ''!'', backslash} \<and>
     (its \<noteq> [] \<longrightarrow> hd (set_syntax (hd its)) \<noteq> CHR ''-'') \<and> sets_ok its)"
| "sets_ok (Range a b # its) = (a \<notin> {CHR '']'', CHR ''^'', CHR ''!'', backslash, CHR 0xFF} \<and>
     b \<notin> {CHR '']'', CHR 0xFF} \<and> sets_ok its)"

text \<open>Neighbours whose syntax would run together are excluded: two texts, or a star before a star.\<close>

fun items_ok :: "glob_item list \<Rightarrow> bool" where
  "items_ok [] = True"
| "items_ok (Text s # its) = (s \<noteq> [] \<and> (\<forall>l \<in> set s. lit_ok l) \<and> (\<forall>t. its \<noteq> [] \<longrightarrow> hd its \<noteq> Text t) \<and> items_ok its)"
| "items_ok (Star # its) = ((its \<noteq> [] \<longrightarrow> hd its \<notin> {Star, DoubleStar}) \<and> items_ok its)"
| "items_ok (Chars neg cs # its) = (sets_ok cs \<and> items_ok its)"
| "items_ok (it # its) = items_ok its"

fun set_expansion :: "set_item \<Rightarrow> string" where
  "set_expansion (One l) = [lit_char l]"
| "set_expansion (Range a b) = between a b"

fun item_segment :: "glob_item \<Rightarrow> segment" where
  "item_segment (Text s) = (mk_segment segLiteral)\<lparr>sg_literal := map lit_char s\<rparr>"
| "item_segment Star = mk_segment segStar"
| "item_segment DoubleStar = mk_segment segDouble"
| "item_segment AnyChar = mk_segment segQuestion"
| "item_segment (Chars neg its) =
     (mk_segment segCharset)\<lparr>sg_charset := concat (map set_expansion its), sg_negated := neg\<rparr>"

lemma set_expansion_chars: "set (set_expansion it) = set_chars it"
  by (cases it) (simp_all add: set_between)

lemma seg_lang_item: "seg_lang (item_segment it) = item_lang it"
  by (cases it) (simp_all add: seg_lang_def mk_segment_def set_expansion_chars)

lemma set_syntax_ne: "set_syntax it \<noteq> []"
  by (cases it rule: set_syntax.cases) (auto elim: lit_syntax.elims)

lemma charset_loop_items:
  "sets_ok its \<Longrightarrow>
   charset_loop (concat (map set_syntax its) @ CHR '']'' # rest) acc = Some (Inr (acc @ concat (map set_expansion its), rest))"
proof (induction its arbitrary: acc rule: sets_ok.induct)
  case (3 c its)
  have "(concat (map set_syntax its) @ CHR '']'' # rest) ! 0 \<noteq> CHR ''-''"
    using 3 set_syntax_ne [of "hd its"] by (cases its) (auto simp: nth_append hd_conv_nth)
  then show ?case using 3 by simp
qed (auto simp: expand_range_returns byte_255)

lemma parseCharset_items:
  assumes "sets_ok its"
  shows "parseCharset (item_syntax (Chars neg its) @ rest) = Some (Inr (concat (map set_expansion its), neg, rest))"
proof -
  have "hd (concat (map set_syntax its) @ CHR '']'' # rest) \<notin> {CHR ''^'', CHR ''!''}"
    using assms by (cases its rule: sets_ok.cases) auto
  then show ?thesis using charset_loop_items [OF assms, of rest "[]"] by (simp add: parseCharset_def)
qed

lemma literal_span_text:
  "\<forall>l \<in> set s. lit_ok l \<Longrightarrow> rest = [] \<or> wildcard (hd rest) \<Longrightarrow>
   literal_span (concat (map lit_syntax s) @ rest) = (concat (map lit_syntax s), rest)"
proof (induction s)
  case Nil
  then show ?case by (cases rest) auto
next
  case (Cons l s)
  then show ?case by (cases l) (auto simp: wildcard_def)
qed

lemma unescape_text: "\<forall>l \<in> set s. lit_ok l \<Longrightarrow> unescape (concat (map lit_syntax s)) = map lit_char s"
  unfolding unescape_eq
proof (induction s)
  case (Cons l s)
  then show ?case by (cases l) auto
qed simp

lemma next_syntax:
  assumes "items_ok (it # its)" "\<And>t. it \<noteq> Text t"
  shows "wildcard (hd (item_syntax it @ rest))"
  using assms by (cases it) (auto simp: wildcard_def)

lemma lit_syntax_hd: "lit_ok l \<Longrightarrow> \<exists>c cs. lit_syntax l = c # cs \<and> \<not> wildcard c"
  by (cases l) (auto simp: wildcard_def)

text \<open>The syntax of a list that begins with neither kind of star does not begin with a star.\<close>

lemma items_syntax_hd:
  assumes "items_ok its" "its \<noteq> []"
  shows "\<exists>c cs. concat (map item_syntax its) = c # cs \<and> (hd its \<notin> {Star, DoubleStar} \<longrightarrow> c \<noteq> CHR ''*'')"
proof (cases its rule: items_ok.cases)
  case (2 s its')
  then obtain l ls where "s = l # ls" "lit_ok l" using assms(1) by (cases s) auto
  then show ?thesis using 2 lit_syntax_hd [of l] by (auto simp: wildcard_def)
qed (use assms in auto)

lemma snoc_result:
  assumes "\<And>segs d. \<exists>d'. f segs d = Some (Inr (segs @ r, d'))"
  shows "\<exists>d'. f (segs @ [x]) d = Some (Inr (segs @ x # r, d'))"
  using assms [of "segs @ [x]" d] by simp

lemma compile_loop_items:
  "items_ok its \<Longrightarrow> \<exists>d'. compile_loop (concat (map item_syntax its)) segs d = Some (Inr (segs @ map item_segment its, d'))"
proof (induction its arbitrary: segs d rule: items_ok.induct)
  case 1
  then show ?case by (simp add: compile_loop.simps)
next
  case (2 s its)
  define rest where "rest = concat (map item_syntax its)"
  have "rest = [] \<or> wildcard (hd rest)"
    using "2.prems" next_syntax [of "hd its" "tl its"] by (cases its) (auto simp: rest_def)
  have ok: "\<forall>l \<in> set s. lit_ok l" using "2.prems" by simp
  note span = literal_span_text [OF ok \<open>rest = [] \<or> wildcard (hd rest)\<close>]
  let ?seg = "(mk_segment segLiteral)\<lparr>sg_literal := map lit_char s\<rparr>"
  obtain c cs where syn: "concat (map lit_syntax s) @ rest = c # cs" "\<not> wildcard c"
    using "2.prems" by (cases s; cases "hd s") (auto simp: wildcard_def)
  have "compile_loop (c # cs) segs d = compile_loop rest (segs @ [?seg]) d"
    using span syn by (subst compile_loop.simps) (simp add: unescape_text [OF ok] wildcard_def del: literal_span.simps)
  moreover from 2 have "\<exists>d'. compile_loop rest (segs @ [?seg]) d = Some (Inr (segs @ ?seg # map item_segment its, d'))"
    unfolding rest_def by (intro snoc_result [where f = "compile_loop _"]) auto
  ultimately show ?case using syn by (simp add: rest_def [symmetric])
next
  case (3 its)
  then have "\<not> (concat (map item_syntax its) \<noteq> [] \<and> hd (concat (map item_syntax its)) = CHR ''*'')"
    using items_syntax_hd [of its] by (cases "its = []") auto
  moreover from 3 have "\<exists>d'. compile_loop (concat (map item_syntax its)) (segs @ [mk_segment segStar]) d
      = Some (Inr (segs @ mk_segment segStar # map item_segment its, d'))"
    by (intro snoc_result [where f = "compile_loop _"]) auto
  ultimately show ?case by (auto simp: compile_loop.simps(2) simp del: concat_eq_Nil_conv)
next
  case (4 neg cs its)
  note compiled = snoc_result [where f = "compile_loop (concat (map item_syntax its))" and segs = segs and d = d
      and x = "item_segment (Chars neg cs)", OF "4.IH"]
  from 4 parseCharset_items [of cs neg "concat (map item_syntax its)"] compiled show ?case
    by (auto simp: compile_loop.simps)
qed (simp_all add: compile_loop.simps snoc_result [where f = "compile_loop _"])

lemma glob_Compile_items:
  assumes "items_ok its" "its \<noteq> []"
  obtains p where "glob_Compile (concat (map item_syntax its)) = Some (Inr p)" "p_segments p = map item_segment its"
proof -
  have ne: "concat (map item_syntax its) \<noteq> []" using items_syntax_hd [OF assms] by (metis list.distinct(1))
  from compile_loop_items [OF assms(1), of "[]" False] obtain d
    where "compile_loop (concat (map item_syntax its)) [] False = Some (Inr (map item_segment its, d))" by auto
  with ne have "\<exists>p. glob_Compile (concat (map item_syntax its)) = Some (Inr p) \<and> p_segments p = map item_segment its"
    unfolding glob_Compile_def by (simp del: concat_eq_Nil_conv)
  with that show ?thesis by blast
qed

lemma glob_Match_items:
  assumes "items_ok its" "its \<noteq> []"
  shows "glob_Match (concat (map item_syntax its)) key =
    Some (Inr (\<exists>ws. list_all2 (\<lambda>it w. w \<in> item_lang it) its ws \<and> key = concat ws))"
proof -
  obtain p where "glob_Compile (concat (map item_syntax its)) = Some (Inr p)" "p_segments p = map item_segment its"
    using glob_Compile_items [OF assms] .
  then show ?thesis by (simp add: glob_Match_def p_Match_lang list_all2_map1 seg_lang_item)
qed

end
