(* ===== verification/Iterator.thy ===== *)
theory Iterator
  imports StoreScan Glob CacheInv
begin

text \<open>
  \<open>iterator.go\<close> and the \<open>Scan\<close> methods of \<open>cache.go\<close>. An iterator points to its cache, which may
  change between two calls: the cache is an argument of each call, and the iterator records
  whether its pointer is set. Every call of \<open>Scan\<close> or \<open>Range\<close> of the store iterates over Go maps in
  an order of its own; \<open>ords n\<close> is the order of the \<open>n\<close>-th such call, and \<open>it_scans\<close> counts them.
  A loop that may not return has an option result, an index out of range is a panic.
\<close>

section \<open>The iterator\<close>

record ('k, 'v) Iterator =
  it_cache :: bool
  it_cursor :: u64
  it_count :: int
  it_prefix :: string
  it_pattern :: "Pattern option"
  it_buffer :: "('k, 'v) Entry list"
  it_page :: "('k, 'v) Entry list"
  it_pos :: int
  it_err :: bool \<comment> \<open>an error is set; nothing sets one\<close>
  it_done :: bool
  it_scans :: nat \<comment> \<open>iterations over the store so far\<close>

definition newIterator :: "u64 \<Rightarrow> int \<Rightarrow> string \<Rightarrow> Pattern option \<Rightarrow> ('k, 'v) Iterator" where
  "newIterator cursor cnt pre pattern =
     \<lparr>it_cache = True, it_cursor = cursor, it_count = (if cnt \<le> 0 then 10 else cnt), it_prefix = pre,
      it_pattern = pattern, it_buffer = [], it_page = [], it_pos = 0, it_err = False, it_done = False, it_scans = 0\<rparr>"

definition newEmptyIterator :: "('k, 'v) Iterator" where
  "newEmptyIterator =
     \<lparr>it_cache = False, it_cursor = 0, it_count = 0, it_prefix = [], it_pattern = None, it_buffer = [],
      it_page = [], it_pos = 0, it_err = False, it_done = True, it_scans = 0\<rparr>"

definition it_Close :: "('k, 'v) Iterator \<Rightarrow> ('k, 'v) Iterator" where
  "it_Close it = it\<lparr>it_buffer := [], it_page := [], it_done := True\<rparr>"

definition matchEntry :: "('k, 'v) Cache \<Rightarrow> int \<Rightarrow> ('k, 'v) Iterator \<Rightarrow> ('k, 'v) Entry \<Rightarrow> bool" where
  "matchEntry c now it entry =
     (let strKey = as_string (st_any (c_store c) (eKey entry))
      in if IsExpired entry now then False
         else if it_prefix it \<noteq> [] \<and>
           (case strKey of None \<Rightarrow> False | Some key \<Rightarrow> take (length (it_prefix it)) key \<noteq> it_prefix it) then False
         else case it_pattern it of
                None \<Rightarrow> True
              | Some p \<Rightarrow> (case strKey of None \<Rightarrow> True | Some key \<Rightarrow> p_Match p key))"

subsection \<open>Fetching pages\<close>

text \<open>The loop of \<open>fetchPage\<close> that fills the buffer.\<close>

partial_function (option) fill_buffer ::
  "(nat \<Rightarrow> 'k order) \<Rightarrow> ('k, 'v) Cache \<Rightarrow> int \<Rightarrow> ('k, 'v) Iterator \<Rightarrow> ('k, 'v) Iterator option" where
  "fill_buffer ords c now it =
     (if it_buffer it = [] \<and> \<not> it_done it
      then let (entries, nextCursor) = st_Scan (ords (it_scans it)) (c_store c) (it_cursor it) (i64 (it_count it * 2))
           in fill_buffer ords c now
                (it\<lparr>it_buffer := it_buffer it @ filter (matchEntry c now it) entries,
                    it_cursor := nextCursor, it_done := (nextCursor = 0), it_scans := it_scans it + 1\<rparr>)
      else Some it)"

text \<open>The loop of \<open>fetchPrefixPage\<close>: for each hash, a range over the store looks for its entry.\<close>

fun prefix_entries ::
  "(nat \<Rightarrow> 'k order) \<Rightarrow> ('k, 'v) Cache \<Rightarrow> int \<Rightarrow> ('k, 'v) Iterator \<Rightarrow> u64 list \<Rightarrow> ('k, 'v) Entry list
    \<Rightarrow> nat \<Rightarrow> ('k, 'v) Entry list \<times> nat" where
  "prefix_entries ords c now it [] entries n = (entries, n)"
| "prefix_entries ords c now it (keyHash # hashes) entries n =
     (if int (length entries) < it_count it
      then let entries =
             st_Range (ords n) (c_store c)
               (\<lambda>entries entry.
                  if eKeyHash entry = keyHash
                  then (if matchEntry c now it entry then entries @ [entry] else entries, False)
                  else (entries, True)) entries
           in prefix_entries ords c now it hashes entries (n + 1)
      else (entries, n))"

definition fetchPrefixPage ::
  "(nat \<Rightarrow> 'k order) \<Rightarrow> byte_order \<Rightarrow> ('k, 'v) Cache \<Rightarrow> radixTree \<Rightarrow> int \<Rightarrow> ('k, 'v) Iterator
    \<Rightarrow> panic + ('k, 'v) Iterator \<times> bool" where
  "fetchPrefixPage ords bytes c radixTree now it =
     (if it_done it then Inr (it, False)
      else
        let hashes = radix_FindByPrefix bytes radixTree (it_prefix it) (i64 (it_count it * 2))
        in if hashes = [] then Inr (it\<lparr>it_done := True\<rparr>, False)
           else
             let start = i64 (uint (it_cursor it))
             in if start \<ge> int (length hashes) then Inr (it\<lparr>it_done := True\<rparr>, False)
                else if start < 0 \<and> it_count it > 0 then Inl IndexOutOfRange
                else
                  let (entries, n) = prefix_entries ords c now it (drop (nat start) hashes) [] (it_scans it);
                      it = it\<lparr>it_page := entries, it_pos := 0,
                              it_cursor := word_of_int (start + int (length entries)), it_scans := n\<rparr>;
                      it = (if start + int (length entries) \<ge> int (length hashes) then it\<lparr>it_done := True\<rparr> else it)
                  in Inr (it, length entries > 0))"

definition fetchPage ::
  "(nat \<Rightarrow> 'k order) \<Rightarrow> byte_order \<Rightarrow> ('k, 'v) Cache \<Rightarrow> int \<Rightarrow> ('k, 'v) Iterator
    \<Rightarrow> (panic + ('k, 'v) Iterator \<times> bool) option" where
  "fetchPage ords bytes c now it =
     (if \<not> it_cache it then Some (Inr (it\<lparr>it_done := True\<rparr>, False))
      else if it_done it then Some (Inr (it, False))
      else case (if it_prefix it \<noteq> [] \<and> c_isStringKey c then c_radix c else None) of
        Some radixTree \<Rightarrow> Some (fetchPrefixPage ords bytes c radixTree now it)
      | None \<Rightarrow>
          (case fill_buffer ords c now it of
             None \<Rightarrow> None
           | Some it \<Rightarrow>
               if it_buffer it = [] then Some (Inr (it, False))
               else let n = (if it_count it > int (length (it_buffer it)) then length (it_buffer it)
                             else nat (it_count it))
                    in Some (Inr (it\<lparr>it_page := take n (it_buffer it), it_buffer := drop n (it_buffer it),
                                     it_pos := 0\<rparr>, True))))"

definition it_Next ::
  "(nat \<Rightarrow> 'k order) \<Rightarrow> byte_order \<Rightarrow> ('k, 'v) Cache \<Rightarrow> int \<Rightarrow> ('k, 'v) Iterator
    \<Rightarrow> (panic + ('k, 'v) Iterator \<times> bool) option" where
  "it_Next ords bytes c now it =
     (if it_err it then Some (Inr (it, False))
      else
        let it = it\<lparr>it_pos := it_pos it + 1\<rparr>
        in if it_pos it \<ge> int (length (it_page it))
           then (if it_done it then Some (Inr (it, False))
                 else case fetchPage ords bytes c now it of
                        None \<Rightarrow> None
                      | Some (Inl p) \<Rightarrow> Some (Inl p)
                      | Some (Inr (it, fetched)) \<Rightarrow>
                          if \<not> fetched then Some (Inr (it, False))
                          else Some (Inr (it, it_pos it < int (length (it_page it)))))
           else Some (Inr (it, it_pos it < int (length (it_page it)))))"

subsection \<open>Reading entries\<close>

definition it_entry :: "('k, 'v) Iterator \<Rightarrow> ('k, 'v) Entry option" where
  "it_entry it = (if it_pos it < 0 \<or> it_pos it \<ge> int (length (it_page it)) then None
                  else Some (it_page it ! nat (it_pos it)))"

text \<open>The zero value of the key type is that of the entry the store returns for a missing key.\<close>

definition it_Key :: "'k \<Rightarrow> ('k, 'v) Iterator \<Rightarrow> 'k" where
  "it_Key zero it = (case it_entry it of None \<Rightarrow> zero | Some e \<Rightarrow> eKey e)"

definition it_Value :: "'v \<Rightarrow> ('k, 'v) Iterator \<Rightarrow> 'v" where
  "it_Value zero it = (case it_entry it of None \<Rightarrow> zero | Some e \<Rightarrow> eValue e)"

text \<open>
  \<open>ForEach\<close> calls \<open>fn\<close> for the entries that are left until it returns false. The callback updates
  the variables \<open>acc\<close> of its caller, as in \<open>Range\<close>. The loops of \<open>All\<close>, \<open>Keys\<close>, \<open>Values\<close> and
  \<open>Count\<close> have the same shape, with the append to their slice as the callback.
\<close>

partial_function (option) it_ForEach ::
  "(nat \<Rightarrow> 'k order) \<Rightarrow> byte_order \<Rightarrow> ('k, 'v) Cache \<Rightarrow> int \<Rightarrow> 'k \<Rightarrow> 'v \<Rightarrow> ('a \<Rightarrow> 'k \<Rightarrow> 'v \<Rightarrow> 'a \<times> bool)
    \<Rightarrow> 'a \<Rightarrow> ('k, 'v) Iterator \<Rightarrow> (panic + 'a \<times> ('k, 'v) Iterator) option" where
  "it_ForEach ords bytes c now zk zv fn acc it =
     (case it_Next ords bytes c now it of
        None \<Rightarrow> None
      | Some (Inl p) \<Rightarrow> Some (Inl p)
      | Some (Inr (it, found)) \<Rightarrow>
          if \<not> found then Some (Inr (acc, it))
          else let (acc, go) = fn acc (it_Key zk it) (it_Value zv it)
               in if \<not> go then Some (Inr (acc, it)) else it_ForEach ords bytes c now zk zv fn acc it)"

definition it_All where
  "it_All ords bytes c now zk zv it = it_ForEach ords bytes c now zk zv (\<lambda>items k v. (items @ [(k, v)], True)) [] it"

definition it_Keys where
  "it_Keys ords bytes c now zk zv it = it_ForEach ords bytes c now zk zv (\<lambda>keys k v. (keys @ [k], True)) [] it"

definition it_Values where
  "it_Values ords bytes c now zk zv it = it_ForEach ords bytes c now zk zv (\<lambda>values k v. (values @ [v], True)) [] it"

definition it_Count where
  "it_Count ords bytes c now zk zv it =
     it_ForEach ords bytes c now zk zv (\<lambda>cnt k v. (i64 (cnt + 1), True)) (0 :: int) it"

subsection \<open>The scans of the cache\<close>

definition c_Scan :: "u64 \<Rightarrow> int \<Rightarrow> ('k, 'v) Iterator" where
  "c_Scan cursor cnt = newIterator cursor cnt [] None"

definition c_ScanPrefix :: "('k, 'v) Cache \<Rightarrow> string \<Rightarrow> u64 \<Rightarrow> int \<Rightarrow> ('k, 'v) Iterator" where
  "c_ScanPrefix c pre cursor cnt =
     (if \<not> c_isStringKey c then newEmptyIterator else newIterator cursor cnt pre None)"

definition c_ScanMatch :: "('k, 'v) Cache \<Rightarrow> string \<Rightarrow> u64 \<Rightarrow> int \<Rightarrow> ('k, 'v) Iterator option" where
  "c_ScanMatch c pattern cursor cnt =
     (if \<not> c_isStringKey c then Some newEmptyIterator
      else case glob_Compile pattern of
             None \<Rightarrow> None
           | Some (Inl err) \<Rightarrow> Some newEmptyIterator
           | Some (Inr pat) \<Rightarrow> Some (newIterator cursor cnt (p_prefix pat) (Some pat)))"

end
