(* ===== verification/IteratorRuns.thy ===== *)
theory IteratorRuns
  imports Iterator
begin

text \<open>
  What an iterator reports over a cache that does not change. A scan of the store may iterate over
  the Go maps in another order at every fetch; the prefix search is studied for one order. The locale \<open>entry_source\<close> is the contract between \<open>Next\<close> and the loops over it: a
  relation between an iterator and the entries it still reports. The scan of the store and the
  prefix search interpret it, with their own account of what is reported.
\<close>

section \<open>Loops over Next\<close>

locale entry_source =
  fixes ords :: "nat \<Rightarrow> 'k order"
    and bytes :: byte_order
    and c :: "('k, 'v) Cache"
    and now :: int
    and reports :: "('k, 'v) Iterator \<Rightarrow> ('k, 'v) Entry list \<Rightarrow> bool"
  assumes next_entry: "reports it (e # es) \<Longrightarrow>
      \<exists>it'. it_Next ords bytes c now it = Some (Inr (it', True)) \<and> it_entry it' = Some e \<and> reports it' es"
    and next_end: "reports it [] \<Longrightarrow> \<exists>it'. it_Next ords bytes c now it = Some (Inr (it', False))"
begin

lemma ForEach_foldl:
  "reports it es \<Longrightarrow> \<exists>it'. it_ForEach ords bytes c now zk zv (\<lambda>acc k v. (f acc k v, True)) acc it =
    Some (Inr (foldl (\<lambda>acc e. f acc (eKey e) (eValue e)) acc es, it'))"
proof (induction es arbitrary: it acc)
  case Nil
  from next_end [OF Nil] show ?case by (subst it_ForEach.simps) auto
next
  case (Cons e es)
  from next_entry [OF Cons.prems] obtain it' where next_it: "it_Next ords bytes c now it = Some (Inr (it', True))"
    "it_entry it' = Some e" "reports it' es" by blast
  from Cons.IH [OF next_it(3)] next_it(1,2) show ?case
    by (subst it_ForEach.simps) (simp add: it_Key_def it_Value_def)
qed

lemma foldl_snoc_map: "foldl (\<lambda>acc e. acc @ [f e]) acc es = acc @ map f es"
  by (induction es arbitrary: acc) auto

lemma All_reports:
  assumes "reports it es"
  shows "\<exists>it'. it_All ords bytes c now zk zv it = Some (Inr (map (\<lambda>e. (eKey e, eValue e)) es, it'))"
  using ForEach_foldl [OF assms, of zk zv "\<lambda>items k v. items @ [(k, v)]" "[]"]
  by (simp add: it_All_def foldl_snoc_map)

lemma Keys_reports:
  assumes "reports it es"
  shows "\<exists>it'. it_Keys ords bytes c now zk zv it = Some (Inr (map eKey es, it'))"
  using ForEach_foldl [OF assms, of zk zv "\<lambda>keys k v. keys @ [k]" "[]"]
  by (simp add: it_Keys_def foldl_snoc_map)

lemma Values_reports:
  assumes "reports it es"
  shows "\<exists>it'. it_Values ords bytes c now zk zv it = Some (Inr (map eValue es, it'))"
  using ForEach_foldl [OF assms, of zk zv "\<lambda>values k v. values @ [v]" "[]"]
  by (simp add: it_Values_def foldl_snoc_map)

lemma Count_reports:
  assumes "reports it es" "length es < 2 ^ 63"
  shows "\<exists>it'. it_Count ords bytes c now zk zv it = Some (Inr (int (length es), it'))"
proof -
  have "n \<ge> 0 \<Longrightarrow> n + int (length es) < 2 ^ 63 \<Longrightarrow> foldl (\<lambda>cnt e. i64 (cnt + 1)) n es = n + int (length es)" for n
    by (induction es arbitrary: n) (auto simp: i64_id)
  from this [of 0] ForEach_foldl [OF assms(1), of zk zv "\<lambda>cnt k v. i64 (cnt + 1)" "0 :: int"] assms(2)
  show ?thesis by (simp add: it_Count_def)
qed

end

section \<open>Scanning the store\<close>

text \<open>
  What the scan relies on: every order lists each key of a shard once, and no shard has more entries
  than the lower half of a cursor can count. The orders themselves may differ from fetch to fetch.
\<close>

definition scannable :: "(nat \<Rightarrow> 'k order) \<Rightarrow> ('k, 'v) ShardedStore \<Rightarrow> bool" where
  "scannable ords s \<longleftrightarrow> st_inv s \<and> (\<forall>n. enumerates (ords n)) \<and> (\<forall>sh \<in> set (st_shards s). card (dom sh) < 2 ^ 32)"

lemma range_map_length:
  assumes "st_inv s" "enumerates ord" "i < length (st_shards s)"
  shows "length (range_map ord i (st_shards s ! i)) = card (dom (st_shards s ! i))"
proof -
  have "finite (dom (st_shards s ! i))" using assms(1,3) by (simp add: st_inv_def)
  then have "set (ord i (dom (st_shards s ! i))) = dom (st_shards s ! i)" "distinct (ord i (dom (st_shards s ! i)))"
    using assms(2) by (simp_all add: enumerates_def)
  then show ?thesis using distinct_card [of "ord i (dom (st_shards s ! i))"] by (simp add: range_map_def)
qed

lemma scannable_small: "scannable ords s \<Longrightarrow> small_store (ords n) s"
  by (auto simp: scannable_def small_store_def range_map_length)

text \<open>A cursor means the same position in every order, since the shards keep their lengths.\<close>

lemma shard_lengths:
  assumes "st_inv s" "enumerates ord"
  shows "map length (shard_lists ord s) = map (\<lambda>sh. card (dom sh)) (st_shards s)"
  by (rule nth_equalityI) (simp_all add: range_map_length [OF assms])

lemma cursor_pos_lengths:
  assumes "map length L = map length L'"
  shows "cursor_pos L i cur pos \<longleftrightarrow> cursor_pos L' i cur pos"
proof -
  have len: "length L = length L'" using assms by (metis length_map)
  have nth: "length (L ! j) = length (L' ! j)" if "j < length L'" for j using assms len that by (metis nth_map)
  have pre: "length (concat (take j L)) = length (concat (take j L'))" for j
    using assms by (simp add: length_concat take_map [symmetric])
  show ?thesis unfolding cursor_pos_def len pre by (intro iff_exI conj_cong refl) (simp_all add: nth)
qed

lemma at_pos_any:
  assumes "scannable ords s" "at_pos (ords m) s cur pos"
  shows "at_pos (ords n) s cur pos"
proof -
  have "map length (shard_lists (ords n) s) = map length (shard_lists (ords m) s)"
    using assms(1) shard_lengths [of s "ords m"] shard_lengths [of s "ords n"] by (simp only: scannable_def)
  from cursor_pos_lengths [OF this] assms(2) show ?thesis by (simp add: at_pos_def)
qed

text \<open>Every order lists as many entries as the store has.\<close>

lemma length_st_all:
  assumes "st_inv s" "enumerates ord"
  shows "length (st_all ord s) = card (dom (st_map s))"
proof -
  have "eKey ` ran (st_map s) = dom (st_map s)"
    using st_map_fits [OF assms(1)] by (force simp: ran_def dom_def st_fits_def)
  then have "set (map eKey (st_all ord s)) = dom (st_map s)" by (simp add: set_st_all [OF assms])
  then show ?thesis using distinct_card [OF distinct_st_all [OF assms]] by simp
qed

text \<open>
  With a page size of \<open>k\<close>, the store is fetched in chunks of \<open>2k\<close> entries, the \<open>i\<close>-th one in the order of
  the \<open>i\<close>-th fetch. The chunks that are full are reported whole, as far as they pass the filter \<open>m\<close>; of
  the last one, which also ends the scan, only the first page is.
\<close>

definition chunk :: "(nat \<Rightarrow> 'k order) \<Rightarrow> ('k, 'v) ShardedStore \<Rightarrow> nat \<Rightarrow> (('k, 'v) Entry \<Rightarrow> bool) \<Rightarrow> nat \<Rightarrow> ('k, 'v) Entry list" where
  "chunk ords s k m i = filter m (take (2 * k) (drop (2 * k * i) (st_all (ords i) s)))"

definition full_chunks :: "('k, 'v) ShardedStore \<Rightarrow> nat \<Rightarrow> nat" where
  "full_chunks s k = card (dom (st_map s)) div (2 * k)"

definition served ::
  "(nat \<Rightarrow> 'k order) \<Rightarrow> ('k, 'v) ShardedStore \<Rightarrow> nat \<Rightarrow> (('k, 'v) Entry \<Rightarrow> bool) \<Rightarrow> nat \<Rightarrow> ('k, 'v) Entry list" where
  "served ords s k m i =
     concat (map (chunk ords s k m) [i..<full_chunks s k]) @ take k (chunk ords s k m (full_chunks s k))"

lemma served_last: "served ords s k m (full_chunks s k) = take k (chunk ords s k m (full_chunks s k))"
  by (simp add: served_def)

lemma served_chunk: "i < full_chunks s k \<Longrightarrow> served ords s k m i = chunk ords s k m i @ served ords s k m (Suc i)"
  by (simp add: served_def upt_conv_Cons)

text \<open>A chunk is full exactly before the last one.\<close>

lemma full_chunks_less:
  assumes "0 < k" "i \<le> full_chunks s k"
  shows "i < full_chunks s k \<longleftrightarrow> 2 * k \<le> card (dom (st_map s)) - 2 * k * i"
proof -
  let ?n = "card (dom (st_map s))"
  have i: "2 * k * i \<le> ?n"
    using assms(2) mult_le_mono2 [of i "?n div (2 * k)" "2 * k"] times_div_less_eq_dividend [of "2 * k" ?n]
    unfolding full_chunks_def by linarith
  have "i < ?n div (2 * k) \<longleftrightarrow> Suc i * (2 * k) \<le> ?n"
    using assms(1) less_eq_div_iff_mult_less_eq [of "2 * k" "Suc i" ?n] by (simp add: Suc_le_eq)
  then show ?thesis using i unfolding full_chunks_def by (simp add: algebra_simps) linarith
qed

text \<open>The part of an iterator that a scan leaves alone.\<close>

definition same_query :: "('k, 'v) Iterator \<Rightarrow> ('k, 'v) Iterator \<Rightarrow> bool" where
  "same_query it it' \<longleftrightarrow> it_cache it' = it_cache it \<and> it_count it' = it_count it \<and> it_prefix it' = it_prefix it \<and>
     it_pattern it' = it_pattern it \<and> it_err it' = it_err it"

lemma matchEntry_cong: "same_query it it' \<Longrightarrow> matchEntry c now it' = matchEntry c now it"
  unfolding matchEntry_def [abs_def] same_query_def by (elim conjE) (simp only:)

lemma fill_buffer_spec:
  fixes ords :: "nat \<Rightarrow> 'k order" and c :: "('k, 'v) Cache" and it :: "('k, 'v) Iterator" and now :: int
  assumes static: "scannable ords (c_store c)"
    and cnt: "it_count it = int k" "0 < k" "int k * 2 < 2 ^ 63"
    and it: "it_buffer it = []" "\<not> it_done it" "at_pos (ords 0) (c_store c) (it_cursor it) (2 * k * it_scans it)"
      "it_scans it \<le> full_chunks (c_store c) k"
  defines "left \<equiv> served ords (c_store c) k (matchEntry c now it)"
  shows "\<exists>it'. fill_buffer ords c now it = Some it' \<and> same_query it it' \<and>
    (if it_done it' then left (it_scans it) = take k (it_buffer it')
     else it_buffer it' \<noteq> [] \<and> at_pos (ords 0) (c_store c) (it_cursor it') (2 * k * it_scans it') \<and>
       it_scans it' \<le> full_chunks (c_store c) k \<and> left (it_scans it) = it_buffer it' @ left (it_scans it'))"
  using cnt(1) it unfolding left_def
proof (induction "full_chunks (c_store c) k - it_scans it" arbitrary: it rule: less_induct)
  case less
  let ?i = "it_scans it" and ?m = "matchEntry c now it" and ?q = "full_chunks (c_store c) k"
  let ?s = "c_store c" and ?left = "served ords (c_store c) k (matchEntry c now it)"
  have two: "i64 (int k * 2) = int (2 * k)" using cnt(2,3) by (simp add: i64_id)
  have st: "st_inv ?s" "enumerates (ords ?i)" using static by (simp_all add: scannable_def)
  have pos: "at_pos (ords ?i) ?s (it_cursor it) (2 * k * ?i)" by (rule at_pos_any [OF static less.prems(4)])
  have "0 < int (2 * k)" using cnt(2) by simp
  note scan = st_Scan_spec [OF scannable_small [OF static] pos this, unfolded nat_int length_st_all [OF st]]
  define cur where "cur = snd (st_Scan (ords ?i) ?s (it_cursor it) (int (2 * k)))"
  define it1 where "it1 = it\<lparr>it_buffer := chunk ords ?s k ?m ?i, it_cursor := cur,
      it_done := (cur = 0), it_scans := ?i + 1\<rparr>"
  have same: "same_query it it1" by (simp add: it1_def same_query_def)
  have step: "fill_buffer ords c now it = fill_buffer ords c now it1"
    using less.prems scan(1) unfolding chunk_def it1_def
    by (subst fill_buffer.simps) (simp add: two [simplified] cur_def case_prod_beta nat_mult_distrib)
  note full = full_chunks_less [OF cnt(2) less.prems(5)]
  show ?case
  proof (cases "?i < ?q")
    case False
    then have i: "?i = ?q" using less.prems(5) by simp
    have "cur = 0" using scan(3) full False by (simp add: cur_def)
    then have "fill_buffer ords c now it1 = Some it1" "it_done it1" by (subst fill_buffer.simps, simp_all add: it1_def)
    with step same show ?thesis by (intro exI [of _ it1]) (simp add: i served_last it1_def)
  next
    case True
    with scan(2) full have cur: "at_pos (ords ?i) ?s cur (2 * k * Suc ?i)" "cur \<noteq> 0" by (simp_all add: cur_def add.commute)
    have pos1: "at_pos (ords 0) ?s cur (2 * k * Suc ?i)" by (rule at_pos_any [OF static cur(1)])
    have split: "?left ?i = it_buffer it1 @ ?left (Suc ?i)" using served_chunk [OF True] by (simp add: it1_def)
    show ?thesis
    proof (cases "it_buffer it1 = []")
      case empty: True
      have "?q - it_scans it1 < ?q - ?i" using True by (simp add: it1_def)
      moreover have "it_count it1 = int k" "\<not> it_done it1" "at_pos (ords 0) ?s (it_cursor it1) (2 * k * it_scans it1)"
        "it_scans it1 \<le> ?q" using less.prems cur pos1 True by (simp_all add: it1_def)
      ultimately obtain it' where "fill_buffer ords c now it1 = Some it'" "same_query it1 it'"
        "if it_done it' then ?left (it_scans it1) = take k (it_buffer it')
         else it_buffer it' \<noteq> [] \<and> at_pos (ords 0) ?s (it_cursor it') (2 * k * it_scans it') \<and>
           it_scans it' \<le> ?q \<and> ?left (it_scans it1) = it_buffer it' @ ?left (it_scans it')"
        using less.hyps [of it1] empty unfolding matchEntry_cong [OF same] by blast
      moreover have "?left ?i = ?left (it_scans it1)" using split empty by (simp add: it1_def)
      ultimately show ?thesis using step same by (intro exI [of _ it']) (auto simp: same_query_def)
    next
      case False
      then have "fill_buffer ords c now it1 = Some it1" by (subst fill_buffer.simps) simp
      with step same split False cur pos1 True show ?thesis
        by (intro exI [of _ it1]) (simp add: it1_def)
    qed
  qed
qed

text \<open>
  The entries an iterator that scans the store still reports: the rest of its page, and, unless
  the scan has ended, its buffer and what the scan yet serves.
\<close>

definition by_scan :: "('k, 'v) Cache \<Rightarrow> ('k, 'v) Iterator \<Rightarrow> bool" where
  "by_scan c it \<longleftrightarrow> it_prefix it = [] \<or> \<not> c_isStringKey c \<or> c_radix c = None"

definition scan_reports ::
  "(nat \<Rightarrow> 'k order) \<Rightarrow> ('k, 'v) Cache \<Rightarrow> int \<Rightarrow> ('k, 'v) Iterator \<Rightarrow> ('k, 'v) Entry list \<Rightarrow> bool" where
  "scan_reports ords c now it es \<longleftrightarrow>
     scannable ords (c_store c) \<and> by_scan c it \<and> it_cache it \<and> \<not> it_err it \<and> 0 \<le> it_pos it \<and>
     0 < it_count it \<and> it_count it * 2 < 2 ^ 63 \<and>
     (if it_done it then es = drop (Suc (nat (it_pos it))) (it_page it)
      else at_pos (ords 0) (c_store c) (it_cursor it) (2 * nat (it_count it) * it_scans it) \<and>
        it_scans it \<le> full_chunks (c_store c) (nat (it_count it)) \<and>
        es = drop (Suc (nat (it_pos it))) (it_page it) @ it_buffer it @
          served ords (c_store c) (nat (it_count it)) (matchEntry c now it) (it_scans it))"

lemma take_all_drop: "take n xs @ drop n xs @ ys = xs @ ys"
  by (metis append_assoc append_take_drop_id)

text \<open>A page that is left moves the position only.\<close>

lemma Next_in_page:
  assumes "\<not> it_err it" "0 \<le> it_pos it" "drop (Suc (nat (it_pos it))) (it_page it) = e # es"
  shows "it_Next ords bytes c now it = Some (Inr (it\<lparr>it_pos := it_pos it + 1\<rparr>, True))"
    and "it_entry (it\<lparr>it_pos := it_pos it + 1\<rparr>) = Some e"
    and "drop (Suc (nat (it_pos it + 1))) (it_page it) = es"
proof -
  let ?i = "Suc (nat (it_pos it))"
  from assms(3) have "?i < length (it_page it)" by (metis drop_eq_Nil2 list.distinct(1) not_le)
  then have i: "it_pos it + 1 < int (length (it_page it))" "nat (it_pos it + 1) = ?i" using assms(2) by auto
  with assms(1) show "it_Next ords bytes c now it = Some (Inr (it\<lparr>it_pos := it_pos it + 1\<rparr>, True))"
    by (simp add: it_Next_def)
  from assms(3) have "it_page it ! ?i = e" by (metis \<open>?i < length (it_page it)\<close> nth_via_drop)
  with i assms(2) show "it_entry (it\<lparr>it_pos := it_pos it + 1\<rparr>) = Some e" by (simp add: it_entry_def)
  from assms(3) i(2) show "drop (Suc (nat (it_pos it + 1))) (it_page it) = es"
    by (metis drop_Suc list.sel(3) tl_drop)
qed

lemma Next_fetches:
  assumes "\<not> it_err it" "0 \<le> it_pos it" "drop (Suc (nat (it_pos it))) (it_page it) = []"
  shows "it_Next ords bytes c now it =
    (let it = it\<lparr>it_pos := it_pos it + 1\<rparr>
     in if it_done it then Some (Inr (it, False))
        else case fetchPage ords bytes c now it of
               None \<Rightarrow> None
             | Some (Inl p) \<Rightarrow> Some (Inl p)
             | Some (Inr (it, fetched)) \<Rightarrow>
                 if \<not> fetched then Some (Inr (it, False))
                 else Some (Inr (it, it_pos it < int (length (it_page it)))))"
proof -
  from assms(2,3) have "int (length (it_page it)) \<le> it_pos it + 1" by simp
  with assms(1) show ?thesis by (simp add: it_Next_def Let_def)
qed

lemma fetchPage_scan:
  assumes "by_scan c it" "it_cache it" "\<not> it_done it"
  shows "fetchPage ords bytes c now it =
    (case fill_buffer ords c now it of
       None \<Rightarrow> None
     | Some it \<Rightarrow>
         if it_buffer it = [] then Some (Inr (it, False))
         else let n = (if it_count it > int (length (it_buffer it)) then length (it_buffer it) else nat (it_count it))
              in Some (Inr (it\<lparr>it_page := take n (it_buffer it), it_buffer := drop n (it_buffer it), it_pos := 0\<rparr>, True)))"
  using assms by (auto simp: fetchPage_def by_scan_def split: option.splits)

lemma fill_buffer_any:
  fixes ords :: "nat \<Rightarrow> 'k order" and c :: "('k, 'v) Cache" and it :: "('k, 'v) Iterator" and now :: int
  assumes static: "scannable ords (c_store c)"
    and cnt: "it_count it = int k" "0 < k" "int k * 2 < 2 ^ 63"
    and it: "\<not> it_done it" "at_pos (ords 0) (c_store c) (it_cursor it) (2 * k * it_scans it)"
      "it_scans it \<le> full_chunks (c_store c) k"
  defines "left \<equiv> served ords (c_store c) k (matchEntry c now it)"
  shows "\<exists>it'. fill_buffer ords c now it = Some it' \<and> same_query it it' \<and>
    (if it_done it' then it_buffer it @ left (it_scans it) = take k (it_buffer it')
     else it_buffer it' \<noteq> [] \<and> at_pos (ords 0) (c_store c) (it_cursor it') (2 * k * it_scans it') \<and>
       it_scans it' \<le> full_chunks (c_store c) k \<and> it_buffer it @ left (it_scans it) = it_buffer it' @ left (it_scans it'))"
proof (cases "it_buffer it = []")
  case True
  from fill_buffer_spec [OF static cnt True it, of now] show ?thesis by (simp only: True append_Nil left_def)
next
  case False
  then have "fill_buffer ords c now it = Some it" by (subst fill_buffer.simps) simp
  with False it show ?thesis by (auto simp: same_query_def)
qed

text \<open>Fetching a page when the current one is used up.\<close>

lemma scan_fetch:
  fixes ords :: "nat \<Rightarrow> 'k order" and c :: "('k, 'v) Cache"
  assumes rep: "scan_reports ords c now it es" "drop (Suc (nat (it_pos it))) (it_page it) = []"
  shows "\<exists>it'. it_Next ords bytes c now it = Some (Inr (it', es \<noteq> [])) \<and>
    (es \<noteq> [] \<longrightarrow> it_entry it' = Some (hd es) \<and> scan_reports ords c now it' (tl es))"
proof (cases "it_done it")
  case True
  with rep Next_fetches [of it ords bytes c now] show ?thesis by (auto simp: scan_reports_def)
next
  case False
  let ?it = "it\<lparr>it_pos := it_pos it + 1\<rparr>" and ?k = "nat (it_count it)"
  let ?m = "matchEntry c now ?it" let ?left = "served ords (c_store c) ?k ?m"
  have m: "matchEntry c now it = ?m" by (rule matchEntry_cong) (simp add: same_query_def)
  from rep(1) False have pos: "at_pos (ords 0) (c_store c) (it_cursor it) (2 * ?k * it_scans it)"
    "it_scans it \<le> full_chunks (c_store c) ?k"
    and es: "es = it_buffer it @ ?left (it_scans it)"
    and facts: "scannable ords (c_store c)" "by_scan c it" "it_cache it" "\<not> it_err it" "0 \<le> it_pos it"
      "0 < it_count it" "it_count it * 2 < 2 ^ 63"
    using rep(2) by (auto simp: scan_reports_def m)
  have "it_count ?it = int ?k" "0 < ?k" "int ?k * 2 < 2 ^ 63" "\<not> it_done ?it"
    "at_pos (ords 0) (c_store c) (it_cursor ?it) (2 * ?k * it_scans ?it)" "it_scans ?it \<le> full_chunks (c_store c) ?k"
    using facts False pos by simp_all
  from fill_buffer_any [OF facts(1) this, of now] obtain it' where
    fill: "fill_buffer ords c now ?it = Some it'" "same_query ?it it'"
    and raw: "if it_done it' then it_buffer ?it @ ?left (it_scans ?it) = take ?k (it_buffer it')
      else it_buffer it' \<noteq> [] \<and> at_pos (ords 0) (c_store c) (it_cursor it') (2 * ?k * it_scans it') \<and>
        it_scans it' \<le> full_chunks (c_store c) ?k \<and>
        it_buffer ?it @ ?left (it_scans ?it) = it_buffer it' @ ?left (it_scans it')"
    by (elim exE conjE)
  have "it_buffer ?it @ ?left (it_scans ?it) = es" by (simp add: es)
  note out = raw [unfolded this]
  have scan: "by_scan c ?it" "it_cache ?it" "\<not> it_done ?it" using facts False by (auto simp: by_scan_def)
  note next_it = Next_fetches [OF facts(4,5) rep(2), of ords bytes c now, unfolded Let_def fetchPage_scan [OF scan] fill]
  show ?thesis
  proof (cases "it_buffer it' = []")
    case True
    with out have "es = []" by (auto split: if_splits)
    with True next_it False show ?thesis by simp
  next
    case buffer: False
    define it'' where "it'' = it'\<lparr>it_page := take ?k (it_buffer it'), it_buffer := drop ?k (it_buffer it'), it_pos := 0\<rparr>"
    have cnt: "it_count it' = it_count it" using fill(2) by (simp add: same_query_def)
    have "it_Next ords bytes c now it = Some (Inr (it'', True))"
      using next_it False buffer facts(6) by (simp add: cnt it''_def)
    moreover from buffer out facts(6) have "es \<noteq> []" by (auto split: if_splits)
    moreover have page: "it_page it'' \<noteq> []" using buffer facts(6) by (simp add: it''_def)
    moreover from page out facts(6) have "hd es = hd (it_page it'')" by (auto simp: it''_def split: if_splits)
    moreover from page have "it_entry it'' = Some (hd (it_page it''))" by (simp add: it_entry_def it''_def hd_conv_nth)
    moreover have "scan_reports ords c now it'' (tl es)"
    proof -
      have q: "same_query ?it it''" using fill(2) by (simp add: same_query_def it''_def)
      then have "matchEntry c now it'' = ?m" by (rule matchEntry_cong)
      moreover have "it_count it'' = it_count it" using q by (simp add: same_query_def)
      moreover have "by_scan c it''" "it_cache it''" "\<not> it_err it''" using facts q by (auto simp: by_scan_def same_query_def)
      moreover have "if it_done it'' then tl es = drop (Suc 0) (it_page it'')
          else at_pos (ords 0) (c_store c) (it_cursor it'') (2 * ?k * it_scans it'') \<and>
            it_scans it'' \<le> full_chunks (c_store c) ?k \<and>
            tl es = drop (Suc 0) (it_page it'') @ it_buffer it'' @ ?left (it_scans it'')"
      proof (cases "it_done it'")
        case True
        with out show ?thesis by (simp add: it''_def drop_Suc)
      next
        case False
        with out have "at_pos (ords 0) (c_store c) (it_cursor it') (2 * ?k * it_scans it')"
          "it_scans it' \<le> full_chunks (c_store c) ?k" "es = it_page it'' @ it_buffer it'' @ ?left (it_scans it'')"
          by (simp_all add: it''_def take_all_drop)
        with False page show ?thesis by (simp add: it''_def drop_Suc tl_append2)
      qed
      moreover have "it_pos it'' = 0" by (simp add: it''_def)
      ultimately show ?thesis using facts by (simp add: scan_reports_def)
    qed
    ultimately show ?thesis by auto
  qed
qed

lemma scan_next:
  assumes "scan_reports ords c now it (e # es)"
  shows "\<exists>it'. it_Next ords bytes c now it = Some (Inr (it', True)) \<and> it_entry it' = Some e \<and> scan_reports ords c now it' es"
proof (cases "drop (Suc (nat (it_pos it))) (it_page it)")
  case Nil
  from scan_fetch [OF assms Nil, of bytes] show ?thesis by auto
next
  case (Cons e' page)
  let ?it = "it\<lparr>it_pos := it_pos it + 1\<rparr>"
  from assms(1) have facts: "\<not> it_err it" "0 \<le> it_pos it" by (simp_all add: scan_reports_def)
  note in_page = Next_in_page(1) [OF this Cons, of ords bytes c now] Next_in_page(2,3) [OF this Cons]
  have "matchEntry c now ?it = matchEntry c now it" by (rule matchEntry_cong) (simp add: same_query_def)
  with assms(1) Cons in_page(3) have "e' = e" "scan_reports ords c now ?it es"
    by (auto simp: scan_reports_def by_scan_def split: if_splits)
  with in_page(1,2) show ?thesis by blast
qed

lemma scan_end:
  assumes "scan_reports ords c now it []"
  shows "\<exists>it'. it_Next ords bytes c now it = Some (Inr (it', False))"
proof -
  have "drop (Suc (nat (it_pos it))) (it_page it) = []"
    using assms by (auto simp: scan_reports_def split: if_splits)
  from scan_fetch [OF assms this, of bytes] show ?thesis by simp
qed

text \<open>The scan satisfies the contract of a source, in every static cache.\<close>

interpretation scan: entry_source ords bytes c now "scan_reports ords c now"
  for ords :: "nat \<Rightarrow> 'k order" and bytes and c :: "('k, 'v) Cache" and now
  by unfold_locales (rule scan_next scan_end, assumption)+

lemma newIterator_scan:
  assumes "scannable ords (c_store c)" "it = newIterator 0 cnt pre pattern" "by_scan c it" "cnt < 2 ^ 62"
  shows "scan_reports ords c now it (served ords (c_store c) (nat (it_count it)) (matchEntry c now it) 0)"
  using assms by (auto simp: scan_reports_def newIterator_def at_pos_def)

text \<open>How many entries a scan visits when all of them pass the filter: the orders do not matter.\<close>

lemma served_length:
  assumes "scannable ords s" "0 < k" "\<forall>e \<in> ran (st_map s). m e"
  shows "length (served ords s k m 0) =
    card (dom (st_map s)) - card (dom (st_map s)) mod (2 * k) + min k (card (dom (st_map s)) mod (2 * k))"
proof -
  let ?n = "card (dom (st_map s))" and ?q = "full_chunks s k"
  have len: "length (chunk ords s k m i) = min (2 * k) (?n - 2 * k * i)" for i
  proof -
    have st: "st_inv s" "enumerates (ords i)" using assms(1) by (simp_all add: scannable_def)
    have "\<forall>e \<in> set (take (2 * k) (drop (2 * k * i) (st_all (ords i) s))). m e"
      using assms(3) set_st_all [OF st] by (metis in_set_dropD in_set_takeD)
    then have "chunk ords s k m i = take (2 * k) (drop (2 * k * i) (st_all (ords i) s))" by (simp add: chunk_def)
    then show ?thesis by (simp add: length_st_all [OF st] min.commute)
  qed
  have "length (chunk ords s k m i) = 2 * k" if "i < ?q" for i
    using that full_chunks_less [OF assms(2), of i s] len [of i] by simp
  then have "map (\<lambda>i. length (chunk ords s k m i)) [0..<?q] = map (\<lambda>_. 2 * k) [0..<?q]" by simp
  then have "length (concat (map (chunk ords s k m) [0..<?q])) = 2 * k * ?q"
    by (simp only: length_concat map_map comp_def) (simp add: sum_list_triv)
  moreover have "2 * k * ?q = ?n - ?n mod (2 * k)" by (simp add: full_chunks_def minus_mod_eq_mult_div)
  moreover have "length (chunk ords s k m ?q) = min (2 * k) (?n mod (2 * k))"
    unfolding len full_chunks_def by (simp add: minus_mult_div_eq_mod)
  ultimately show ?thesis by (simp add: served_def)
qed

text \<open>In one and the same order the chunks follow one another, and no entry occurs twice.\<close>

lemma concat_chunks:
  "concat (map (\<lambda>i. filter m (take n (drop (n * i) es))) [0..<q]) = filter m (take (n * q) es)"
proof (induction q)
  case (Suc q)
  have "take (n * Suc q) es = take (n * q) es @ take n (drop (n * q) es)"
    by (simp only: mult_Suc_right add.commute [of n] take_add)
  then show ?case using Suc by simp
qed simp

lemma served_distinct:
  assumes "scannable ords s" "0 < k" "\<forall>i. ords i = ords 0"
  shows "distinct (map eKey (served ords s k m 0))"
proof -
  let ?es = "st_all (ords 0) s" and ?q = "full_chunks s k"
  let ?a = "take (2 * k * ?q) ?es" and ?b = "take (2 * k) (drop (2 * k * ?q) ?es)"
  have st: "st_inv s" "enumerates (ords 0)" using assms(1) by (simp_all add: scannable_def)
  have "ords i = ords 0" for i using assms(3) by blast
  then have chunk: "chunk ords s k m = (\<lambda>i. filter m (take (2 * k) (drop (2 * k * i) ?es)))"
    by (intro ext) (metis chunk_def)
  have "served ords s k m 0 = filter m ?a @ take k (filter m ?b)"
    by (simp only: served_def chunk concat_chunks)
  also have "\<dots> = take (length (filter m ?a) + k) (filter m (?a @ ?b))" by simp
  also have "?a @ ?b = take (2 * k * ?q + 2 * k) ?es" by (simp only: take_add)
  finally have "served ords s k m 0 = take (length (filter m ?a) + k) (filter m (take (2 * k * ?q + 2 * k) ?es))" .
  then show ?thesis
    using distinct_st_all [OF st] by (simp add: take_map [symmetric] distinct_map_filter)
qed

section \<open>Searching by prefix\<close>

text \<open>
  The entry of a hash, if a range over the store finds one and it passes the filters; and the pages
  that come out of a list of hashes, where the cursor counts reported entries but is used as an
  index of hashes.
\<close>

definition entry_of :: "'k order \<Rightarrow> ('k, 'v) Cache \<Rightarrow> (('k, 'v) Entry \<Rightarrow> bool) \<Rightarrow> u64 \<Rightarrow> ('k, 'v) Entry option" where
  "entry_of ord c m h = (case find (\<lambda>e. eKeyHash e = h) (st_all ord (c_store c)) of
     None \<Rightarrow> None | Some e \<Rightarrow> if m e then Some e else None)"

function prefix_pages :: "nat \<Rightarrow> (u64 \<Rightarrow> 'e option) \<Rightarrow> u64 list \<Rightarrow> nat \<Rightarrow> 'e list" where
  "prefix_pages k f hs start =
     (let page = take k (List.map_filter f (drop start hs))
      in if page = [] \<or> length hs \<le> start + length page then page
         else page @ prefix_pages k f hs (start + length page))"
  by pat_completeness auto
termination
proof (relation "measure (\<lambda>(k, f, hs, start). length hs - start)", goal_cases)
  case (2 k f hs start page)
  then have "0 < length page" "start + length page < length hs" by (auto simp del: length_take)
  then have "length hs - (start + length page) < length hs - start" by linarith
  then show ?case by (simp only: in_measure prod.case)
qed simp

declare prefix_pages.simps [simp del]

lemma prefix_entries_spec:
  "length entries \<le> k \<Longrightarrow> it_count it = int k \<Longrightarrow>
   fst (prefix_entries (\<lambda>_. ord) c now it hashes entries n) =
     take k (entries @ List.map_filter (entry_of ord c (matchEntry c now it)) hashes)"
proof (induction hashes arbitrary: entries n)
  case (Cons h hashes)
  let ?m = "matchEntry c now it"
  have range: "st_Range ord (c_store c)
      (\<lambda>entries entry. if eKeyHash entry = h then (if ?m entry then entries @ [entry] else entries, False) else (entries, True))
      entries = entries @ (case entry_of ord c ?m h of None \<Rightarrow> [] | Some e \<Rightarrow> [e])"
    by (simp add: st_Range_find [where P = "\<lambda>e. eKeyHash e = h" and g = "\<lambda>acc e. if ?m e then acc @ [e] else acc"]
        entry_of_def split: option.split)
  show ?case
  proof (cases "length entries < k")
    case True
    with Cons.prems Cons.IH [of "entries @ (case entry_of ord c ?m h of None \<Rightarrow> [] | Some e \<Rightarrow> [e])"]
    show ?thesis by (simp add: range map_filter_simps take_Cons' split: option.split)
  next
    case False
    with Cons.prems show ?thesis by simp
  qed
qed (simp add: map_filter_simps)

definition prefix_reports ::
  "byte_order \<Rightarrow> 'k order \<Rightarrow> radixTree \<Rightarrow> ('k, 'v) Cache \<Rightarrow> int \<Rightarrow> ('k, 'v) Iterator \<Rightarrow> ('k, 'v) Entry list \<Rightarrow> bool" where
  "prefix_reports bytes ord t c now it es \<longleftrightarrow>
     it_prefix it \<noteq> [] \<and> c_isStringKey c \<and> c_radix c = Some t \<and> it_cache it \<and> \<not> it_err it \<and> 0 \<le> it_pos it \<and>
     0 < it_count it \<and> it_count it * 2 < 2 ^ 63 \<and> (\<not> it_done it \<longrightarrow> uint (it_cursor it) < 2 ^ 63) \<and>
     es = drop (Suc (nat (it_pos it))) (it_page it) @
       (if it_done it then []
        else prefix_pages (nat (it_count it)) (entry_of ord c (matchEntry c now it))
          (radix_FindByPrefix bytes t (it_prefix it) (it_count it * 2)) (unat (it_cursor it)))"

lemma FindByPrefix_length:
  assumes "radix_inv t" "enumerates_bytes bytes" "0 < limit"
  shows "length (radix_FindByPrefix bytes t pre limit) \<le> nat limit"
proof -
  from radix_FindByPrefix_spec [OF assms(1,2), of pre limit] obtain kvs :: "(string \<times> u64) list"
    where "radix_FindByPrefix bytes t pre limit = take (nat (if limit \<le> 0 then 100 else limit)) (map snd kvs)" by (elim exE conjE)
  with assms(3) have "radix_FindByPrefix bytes t pre limit = take (nat limit) (map snd kvs)" by simp
  then show ?thesis by simp
qed

lemma prefix_fetch:
  fixes ord :: "'k order" and c :: "('k, 'v) Cache"
  assumes tree: "radix_inv t" "enumerates_bytes bytes"
    and rep: "prefix_reports bytes ord t c now it es" "drop (Suc (nat (it_pos it))) (it_page it) = []"
  shows "\<exists>it'. it_Next (\<lambda>_. ord) bytes c now it = Some (Inr (it', es \<noteq> [])) \<and>
    (es \<noteq> [] \<longrightarrow> it_entry it' = Some (hd es) \<and> prefix_reports bytes ord t c now it' (tl es))"
proof (cases "it_done it")
  case True
  with rep Next_fetches [of it "\<lambda>_. ord" bytes c now] show ?thesis by (auto simp: prefix_reports_def)
next
  case False
  let ?it = "it\<lparr>it_pos := it_pos it + 1\<rparr>" and ?k = "nat (it_count it)"
  let ?m = "matchEntry c now ?it"
  define f where "f = entry_of ord c ?m"
  define hs where "hs = radix_FindByPrefix bytes t (it_prefix it) (it_count it * 2)"
  define start where "start = unat (it_cursor it)"
  define page where "page = take ?k (List.map_filter f (drop start hs))"
  have m: "matchEntry c now it = ?m" by (rule matchEntry_cong) (simp add: same_query_def)
  from rep(1) have facts: "it_prefix it \<noteq> []" "c_isStringKey c" "c_radix c = Some t" "it_cache it" "\<not> it_err it"
    "0 \<le> it_pos it" "0 < it_count it" "it_count it * 2 < 2 ^ 63" "uint (it_cursor it) < 2 ^ 63"
    using False by (simp_all add: prefix_reports_def)
  from rep False have es: "es = prefix_pages ?k f hs start"
    by (simp add: prefix_reports_def m f_def hs_def start_def)
  have two: "i64 (it_count it * 2) = it_count it * 2" using facts by (simp add: i64_id)
  have st: "i64 (uint (it_cursor it)) = int start"
  proof -
    have "i64 (uint (it_cursor it)) = uint (it_cursor it)"
      by (rule i64_id) (use facts(9) in \<open>simp_all add: order_trans [of _ 0]\<close>)
    then show ?thesis by (simp add: start_def)
  qed
  have "length hs \<le> nat (it_count it * 2)" unfolding hs_def by (rule FindByPrefix_length) (use tree facts in auto)
  then have len: "int (length hs) < 2 ^ 63" using facts by linarith
  have fetch: "fetchPage (\<lambda>_. ord) bytes c now ?it = Some (fetchPrefixPage (\<lambda>_. ord) bytes c t now ?it)"
    using facts False by (simp add: fetchPage_def)
  note next_it = Next_fetches [OF facts(5,6) rep(2), of "\<lambda>_. ord" bytes c now, unfolded Let_def fetch]
  show ?thesis
  proof (cases "length hs \<le> start")
    case True
    then have "fetchPrefixPage (\<lambda>_. ord) bytes c t now ?it = Inr (?it\<lparr>it_done := True\<rparr>, False)"
      using False by (auto simp: fetchPrefixPage_def two st hs_def [symmetric] Let_def)
    moreover from True have "es = []" by (simp add: es prefix_pages.simps [of ?k f hs start] map_filter_simps)
    ultimately show ?thesis using next_it False by simp
  next
    case inside: False
    define n where "n = snd (prefix_entries (\<lambda>_. ord) c now ?it (drop start hs) [] (it_scans it))"
    define it' where "it' = ?it\<lparr>it_page := page, it_pos := 0, it_cursor := word_of_int (int start + int (length page)),
        it_scans := n, it_done := (length hs \<le> start + length page)\<rparr>"
    have it'_sel: "it_page it' = page" "it_pos it' = 0" by (simp_all add: it'_def)
    have entries: "prefix_entries (\<lambda>_. ord) c now ?it (drop start hs) [] (it_scans it) = (page, n)"
      using prefix_entries_spec [of "[]" ?k ?it ord c now "drop start hs" "it_scans it"] facts(7)
      by (simp add: prod_eq_iff n_def page_def f_def)
    have hs: "hs \<noteq> []" using inside by auto
    have step: "fetchPrefixPage (\<lambda>_. ord) bytes c t now ?it = Inr (it', page \<noteq> [])"
      using inside False hs entries
      by (auto simp: fetchPrefixPage_def two st hs_def [symmetric] Let_def it'_def)
    have next_eq: "it_Next (\<lambda>_. ord) bytes c now it = Some (Inr (it', page \<noteq> []))"
      using next_it False step by (auto simp: it'_def)
    have unfold_es: "es = (if page = [] \<or> length hs \<le> start + length page then page
        else page @ prefix_pages ?k f hs (start + length page))"
      unfolding es by (subst prefix_pages.simps) (simp add: page_def Let_def)
    show ?thesis
    proof (cases "page = []")
      case True
      with unfold_es next_eq show ?thesis by simp
    next
      case ne: False
      have q: "same_query ?it it'" by (simp add: same_query_def it'_def)
      then have m': "matchEntry c now it' = ?m" by (rule matchEntry_cong)
      have cur: "\<not> it_done it' \<Longrightarrow> unat (it_cursor it') = start + length page \<and> uint (it_cursor it') < 2 ^ 63"
      proof -
        assume "\<not> it_done it'"
        then have "start + length page < length hs" by (simp add: it'_def)
        with len have "int (start + length page) < 2 ^ 63" by linarith
        then have small: "start + length page < 2 ^ 64" by simp
        have "it_cursor it' = of_nat (start + length page)" by (simp add: it'_def)
        moreover have "unat (of_nat (start + length page) :: u64) = start + length page"
          using small by (simp add: unsigned_of_nat take_bit_nat_eq_self del: of_nat_add)
        moreover from this have "uint (of_nat (start + length page) :: u64) = int (start + length page)"
          by (metis uint_nat)
        ultimately show ?thesis using \<open>int (start + length page) < 2 ^ 63\<close> by simp
      qed
      have "tl es = drop (Suc 0) page @ (if it_done it' then [] else prefix_pages ?k f hs (unat (it_cursor it')))"
        using ne unfold_es cur by (auto simp: it'_def drop_Suc tl_append2)
      then have "prefix_reports bytes ord t c now it' (tl es)"
        using facts cur q by (simp add: prefix_reports_def same_query_def m' f_def hs_def it'_sel)
      moreover have "it_entry it' = Some (hd es)"
        using ne unfold_es by (auto simp: it_entry_def it'_def hd_conv_nth nth_append)
      moreover have "es \<noteq> []" using ne unfold_es by (auto split: if_splits)
      ultimately show ?thesis using next_eq ne by auto
    qed
  qed
qed

lemma prefix_next:
  assumes "radix_inv t \<and> enumerates_bytes bytes \<and> prefix_reports bytes ord t c now it (e # es)"
  shows "\<exists>it'. it_Next (\<lambda>_. ord) bytes c now it = Some (Inr (it', True)) \<and> it_entry it' = Some e \<and>
    radix_inv t \<and> enumerates_bytes bytes \<and> prefix_reports bytes ord t c now it' es"
proof (cases "drop (Suc (nat (it_pos it))) (it_page it)")
  case Nil
  from assms prefix_fetch [of t bytes ord c now it "e # es", OF _ _ _ Nil] show ?thesis by auto
next
  case (Cons e' page)
  let ?it = "it\<lparr>it_pos := it_pos it + 1\<rparr>"
  from assms have facts: "\<not> it_err it" "0 \<le> it_pos it" by (simp_all add: prefix_reports_def)
  note in_page = Next_in_page(1) [OF facts Cons, of "\<lambda>_. ord" bytes c now] Next_in_page(2,3) [OF facts Cons]
  have "matchEntry c now ?it = matchEntry c now it" by (rule matchEntry_cong) (simp add: same_query_def)
  with assms Cons in_page(3) have "e' = e" "prefix_reports bytes ord t c now ?it es"
    by (auto simp: prefix_reports_def)
  with in_page(1,2) assms show ?thesis by blast
qed

lemma prefix_end:
  assumes "radix_inv t \<and> enumerates_bytes bytes \<and> prefix_reports bytes ord t c now it []"
  shows "\<exists>it'. it_Next (\<lambda>_. ord) bytes c now it = Some (Inr (it', False))"
  using assms prefix_fetch [of t bytes ord c now it "[]"] by (auto simp: prefix_reports_def)

interpretation prefix: entry_source "\<lambda>_. ord" bytes c now
  "\<lambda>it es. radix_inv t \<and> enumerates_bytes bytes \<and> prefix_reports bytes ord t c now it es"
  for ord :: "'k order" and bytes and c :: "('k, 'v) Cache" and now t
  by unfold_locales (rule prefix_next prefix_end, assumption)+

lemma newIterator_prefix:
  assumes "it = newIterator 0 cnt pre pattern" "pre \<noteq> []" "c_isStringKey c" "c_radix c = Some t" "cnt < 2 ^ 62"
  shows "prefix_reports bytes ord t c now it
    (prefix_pages (nat (it_count it)) (entry_of ord c (matchEntry c now it))
       (radix_FindByPrefix bytes t pre (it_count it * 2)) 0)"
  using assms by (auto simp: prefix_reports_def newIterator_def)

subsection \<open>What the pages contain\<close>

text \<open>If every hash has an entry that matches, the pages are the entries in order.\<close>

lemma map_filter_all: "\<forall>h \<in> set hs. f h \<noteq> None \<Longrightarrow> List.map_filter f hs = map (the \<circ> f) hs"
  by (induction hs) (auto simp: map_filter_simps)

lemma take_drop_length: "ys = take k ys @ drop (length (take k ys)) ys"
  by (cases "k \<le> length ys") simp_all

lemma prefix_pages_all:
  assumes "\<forall>h \<in> set hs. f h \<noteq> None" "0 < k"
  shows "prefix_pages k f hs start = drop start (map (the \<circ> f) hs)"
proof (induction "length hs - start" arbitrary: start rule: less_induct)
  case less
  let ?page = "take k (List.map_filter f (drop start hs))"
  have all: "List.map_filter f (drop start hs) = map (the \<circ> f) (drop start hs)"
    by (rule map_filter_all) (use assms(1) in \<open>auto dest: in_set_dropD\<close>)
  then have len: "length ?page = min k (length hs - start)" by simp
  have split: "drop start (map (the \<circ> f) hs) = ?page @ drop (start + length ?page) (map (the \<circ> f) hs)"
    using take_drop_length [where k = k and ys = "drop start (map (the \<circ> f) hs)"]
    by (simp only: all drop_map drop_drop add.commute [of start])
  show ?case
  proof (cases "?page = [] \<or> length hs \<le> start + length ?page")
    case True
    have "length hs \<le> start + length ?page"
    proof (cases "?page = []")
      case True
      then have "length ?page = 0" by (rule iffD2 [OF length_0_conv])
      with len assms(2) show ?thesis by (simp only: min_def split: if_splits)
    qed (use \<open>?page = [] \<or> _\<close> in blast)
    then have "drop (start + length ?page) (map (the \<circ> f) hs) = []" by simp
    with True split show ?thesis by (subst prefix_pages.simps) (simp only: Let_def if_True append_Nil2)
  next
    case False
    then have "length hs - (start + length ?page) < length hs - start" by (cases ?page) auto
    note IH = less [OF this]
    from False show ?thesis by (subst prefix_pages.simps, subst split) (simp only: Let_def if_False IH)
  qed
qed

text \<open>
  If the page is filled by an entry behind an index as large as the page, because a hash before it
  had no matching entry, the next page reports the entry again.
\<close>

lemma map_filter_append: "List.map_filter f (xs @ ys) = List.map_filter f xs @ List.map_filter f ys"
  by (induction xs) (auto simp: map_filter_simps split: option.split)

lemma prefix_pages_repeat:
  assumes "f h = Some e" "length (List.map_filter f pre) + 1 = k" "k \<le> length pre"
  shows "\<exists>xs ys zs. prefix_pages k f (pre @ h # post) 0 = xs @ e # ys @ e # zs"
proof -
  let ?hs = "pre @ h # post"
  have page1: "take k (List.map_filter f ?hs) = List.map_filter f pre @ [e]"
    using assms(1,2) by (simp add: map_filter_append map_filter_simps flip: assms(2))
  have "length (List.map_filter f pre @ [e]) = k" using assms(2) by simp
  with page1 assms(3) have one: "prefix_pages k f ?hs 0 = (List.map_filter f pre @ [e]) @ prefix_pages k f ?hs k"
    by (subst prefix_pages.simps) (simp add: Let_def)
  let ?xs = "List.map_filter f (drop k pre)"
  have "List.map_filter f pre = List.map_filter f (take k pre) @ ?xs"
    by (metis append_take_drop_id map_filter_append)
  then have "length ?xs \<le> length (List.map_filter f pre)" by simp
  then have small: "length ?xs < k" using assms(2) by linarith
  have "drop k ?hs = drop k pre @ h # post" using assms(3) by simp
  then have "take k (List.map_filter f (drop k ?hs)) = ?xs @ e # take (k - Suc (length ?xs)) (List.map_filter f post)"
    using small assms(1) by (simp add: map_filter_append map_filter_simps take_Cons')
  then have "\<exists>zs. prefix_pages k f ?hs k = ?xs @ e # zs"
    by (subst prefix_pages.simps) (simp add: Let_def)
  with one show ?thesis by (metis append_Cons append_Nil append_assoc)
qed

section \<open>The scans of a cache\<close>

text \<open>A scan from the start, over the entries that have not expired.\<close>

lemma c_Scan_reports:
  assumes "scannable ords (c_store c)" "cnt < 2 ^ 62"
  shows "scan_reports ords c now (c_Scan 0 cnt)
    (served ords (c_store c) (nat (if cnt \<le> 0 then 10 else cnt)) (\<lambda>e. \<not> IsExpired e now) 0)"
proof -
  have "matchEntry c now (c_Scan 0 cnt) = (\<lambda>e. \<not> IsExpired e now)"
    by (intro ext) (simp add: matchEntry_def c_Scan_def newIterator_def)
  moreover have "scan_reports ords c now (c_Scan 0 cnt)
      (served ords (c_store c) (nat (it_count (c_Scan 0 cnt :: ('a, 'b) Iterator))) (matchEntry c now (c_Scan 0 cnt)) 0)"
    by (rule newIterator_scan) (use assms in \<open>auto simp: c_Scan_def newIterator_def by_scan_def\<close>)
  ultimately show ?thesis by (simp add: c_Scan_def newIterator_def)
qed

text \<open>A search by prefix, in a cache whose index agrees with its entries.\<close>

definition prefix_keys :: "('k, 'v) Cache \<Rightarrow> string \<Rightarrow> 'k set" where
  "prefix_keys c pre = {k \<in> dom (c_map c). \<exists>r. as_string (st_any (c_store c) k) = Some (pre @ r)}"

lemma prefix_hit:
  assumes inv: "data_inv c" "enumerates ord" "c_radix c = Some t"
    and inj: "inj_on (getKeyHash (c_store c)) (dom (c_map c))"
    and hit: "radix_map t str = Some h"
  shows "\<exists>e. find (\<lambda>e. eKeyHash e = h) (st_all ord (c_store c)) = Some e \<and> c_map c (eKey e) = Some e \<and>
    as_string (st_any (c_store c) (eKey e)) = Some str"
proof -
  from inv(1,3) have st: "st_inv (c_store c)" and radix: "radix_ok (c_isStringKey c) (st_any (c_store c)) (c_map c) (Some t)"
    by (simp_all add: data_inv_def)
  from radix have of_key: "\<And>k. \<exists>s. as_string (st_any (c_store c) k) = Some s \<and> radix_map t s = map_option eKeyHash (c_map c k)"
    and of_str: "\<And>s. radix_map t s \<noteq> None \<Longrightarrow> \<exists>k. as_string (st_any (c_store c) k) = Some s"
    unfolding radix_ok_def by (simp_all only: option.case) blast+
  from of_str [of str] hit obtain k where k: "as_string (st_any (c_store c) k) = Some str" by auto
  with of_key [of k] hit obtain e0 where e0: "c_map c k = Some e0" "eKeyHash e0 = h" by (cases "c_map c k") auto
  have all: "set (st_all ord (c_store c)) = ran (c_map c)" using set_st_all [OF st inv(2)] by (simp add: c_map_def)
  with e0 have "e0 \<in> set (st_all ord (c_store c))" by (auto simp: ran_def)
  with e0(2) obtain e where find: "find (\<lambda>e. eKeyHash e = h) (st_all ord (c_store c)) = Some e"
    by (cases "find (\<lambda>e. eKeyHash e = h) (st_all ord (c_store c))") (auto simp: find_None_iff)
  then have "e \<in> set (st_all ord (c_store c))" "eKeyHash e = h" by (auto simp: find_Some_iff)
  with all obtain k' where k': "c_map c k' = Some e" by (auto simp: ran_def)
  have fits: "eKey e = k'" "eKeyHash e = getKeyHash (c_store c) k'" "eKeyHash e0 = getKeyHash (c_store c) k"
    using st_map_fits [OF st, of k' e] st_map_fits [OF st, of k e0] k' e0 by (auto simp: c_map_def st_fits_def)
  with inj k' e0 \<open>eKeyHash e = h\<close> have "k' = k" by (auto simp: inj_on_def dom_def)
  with find k' fits k e0 show ?thesis by auto
qed

lemma prefix_entry:
  assumes inv: "data_inv c" "enumerates ord" "c_isStringKey c" "c_radix c = Some t"
    and inj: "inj_on (getKeyHash (c_store c)) (dom (c_map c))"
    and live: "\<forall>k e. k \<in> prefix_keys c pre \<longrightarrow> c_map c k = Some e \<longrightarrow> \<not> IsExpired e now"
    and hit: "radix_map t (pre @ r) = Some h"
  shows "\<exists>e. entry_of ord c (matchEntry c now (c_ScanPrefix c pre 0 cnt)) h = Some e \<and> c_map c (eKey e) = Some e \<and>
    as_string (st_any (c_store c) (eKey e)) = Some (pre @ r)"
proof -
  from prefix_hit [OF inv(1,2,4) inj hit] obtain e where e: "find (\<lambda>e. eKeyHash e = h) (st_all ord (c_store c)) = Some e"
    "c_map c (eKey e) = Some e" "as_string (st_any (c_store c) (eKey e)) = Some (pre @ r)" by blast
  then have "eKey e \<in> prefix_keys c pre" by (auto simp: prefix_keys_def)
  with live e have "\<not> IsExpired e now" by blast
  with e inv(3) have "matchEntry c now (c_ScanPrefix c pre 0 cnt) e"
    by (simp add: matchEntry_def c_ScanPrefix_def newIterator_def)
  with e show ?thesis by (simp add: entry_of_def)
qed

text \<open>The pairs found by the index list the keys with the prefix, each once.\<close>

lemma prefix_listing:
  assumes inv: "data_inv c" "c_radix c = Some t"
    and kvs: "distinct (map fst kvs)" "set kvs = {(k, h). radix_map t k = Some h \<and> (\<exists>r. k = pre @ r)}"
    and key: "\<And>s h. (s, h) \<in> set kvs \<Longrightarrow> as_string (st_any (c_store c) (key h)) = Some s \<and> key h \<in> dom (c_map c)"
  shows "distinct (map (key \<circ> snd) kvs)" "(key \<circ> snd) ` set kvs = prefix_keys c pre"
proof -
  have "inj_on (key \<circ> snd) (set kvs)"
    using key kvs(1) by (intro inj_onI) (metis comp_apply distinct_map inj_on_def option.inject prod.collapse)
  with kvs(1) show "distinct (map (key \<circ> snd) kvs)" by (simp add: distinct_map)
  show "(key \<circ> snd) ` set kvs = prefix_keys c pre"
  proof (intro equalityI subsetI)
    fix k assume "k \<in> (key \<circ> snd) ` set kvs"
    then obtain s h where p: "(s, h) \<in> set kvs" "k = key h" by auto
    with key [OF p(1)] kvs(2) show "k \<in> prefix_keys c pre" by (auto simp: prefix_keys_def)
  next
    fix k assume "k \<in> prefix_keys c pre"
    then obtain r e where k: "as_string (st_any (c_store c) k) = Some (pre @ r)" "c_map c k = Some e"
      by (auto simp: prefix_keys_def)
    from inv have "radix_ok (c_isStringKey c) (st_any (c_store c)) (c_map c) (Some t)" by (simp add: data_inv_def)
    then have of_key: "\<And>k. \<exists>s. as_string (st_any (c_store c) k) = Some s \<and> radix_map t s = map_option eKeyHash (c_map c k)"
      and same: "\<And>k k'. as_string (st_any (c_store c) k) = as_string (st_any (c_store c) k') \<Longrightarrow> k = k'"
      unfolding radix_ok_def by (simp_all only: option.case)
    from of_key [of k] k kvs(2) have p: "(pre @ r, eKeyHash e) \<in> set kvs" by auto
    with same [of k "key (eKeyHash e)"] k(1) key [OF p] have "k = key (eKeyHash e)" by simp
    with p show "k \<in> (key \<circ> snd) ` set kvs" by force
  qed
qed

lemma c_ScanPrefix_keys:
  assumes inv: "data_inv c" "enumerates ord" "enumerates_bytes bytes" "c_isStringKey c" "c_radix c = Some t"
    and inj: "inj_on (getKeyHash (c_store c)) (dom (c_map c))"
    and live: "\<forall>k e. k \<in> prefix_keys c pre \<longrightarrow> c_map c k = Some e \<longrightarrow> \<not> IsExpired e now"
    and args: "pre \<noteq> []" "0 < cnt" "cnt < 2 ^ 62"
  shows "\<exists>ks it. it_Keys (\<lambda>_. ord) bytes c now zk zv (c_ScanPrefix c pre 0 cnt) = Some (Inr (ks, it)) \<and>
    distinct ks \<and> set ks \<subseteq> prefix_keys c pre \<and> length ks = min (nat (2 * cnt)) (card (prefix_keys c pre))"
proof -
  let ?it = "c_ScanPrefix c pre 0 cnt" and ?hs = "radix_FindByPrefix bytes t pre (cnt * 2)"
  let ?f = "entry_of ord c (matchEntry c now ?it)"
  define key where "key h = eKey (the (?f h))" for h
  from inv have tree: "radix_inv t" by (simp add: data_inv_def radix_ok_def)
  from radix_FindByPrefix_spec [OF tree inv(3), of pre "cnt * 2"] obtain kvs :: "(string \<times> u64) list"
    where kvs: "distinct (map fst kvs)" "set kvs = {(k, h). radix_map t k = Some h \<and> (\<exists>r. k = pre @ r)}"
      and "?hs = take (nat (if cnt * 2 \<le> 0 then 100 else cnt * 2)) (map snd kvs)"
    by (elim exE conjE)
  then have find: "?hs = map snd (take (nat (2 * cnt)) kvs)" using args(2) by (simp add: take_map mult.commute)
  have hit: "\<exists>e. ?f h = Some e \<and> c_map c (eKey e) = Some e \<and> as_string (st_any (c_store c) (eKey e)) = Some s"
    if "(s, h) \<in> set kvs" for s h
    using that kvs(2) prefix_entry [OF inv(1,2,4,5) inj live, of _ h cnt] by auto
  then have "as_string (st_any (c_store c) (key h)) = Some s \<and> key h \<in> dom (c_map c)" if "(s, h) \<in> set kvs" for s h
    using that by (fastforce simp: key_def)
  then have listing: "distinct (map (key \<circ> snd) kvs)" "(key \<circ> snd) ` set kvs = prefix_keys c pre"
    by (intro prefix_listing [OF inv(1,5) kvs, of key]; blast)+
  define ks where "ks = take (nat (2 * cnt)) (map (key \<circ> snd) kvs)"
  have "length kvs = card (prefix_keys c pre)"
    using distinct_card [OF listing(1)] by (simp only: set_map listing(2) length_map)
  then have ks: "distinct ks" "set ks \<subseteq> prefix_keys c pre" "length ks = min (nat (2 * cnt)) (card (prefix_keys c pre))"
    using listing set_take_subset [of "nat (2 * cnt)" "map (key \<circ> snd) kvs"]
    by (simp_all only: ks_def distinct_take set_map length_take length_map min.commute)
  have hits: "\<forall>h \<in> set ?hs. ?f h \<noteq> None"
    using hit find by (auto dest!: in_set_takeD) (metis option.distinct(1))
  have "prefix_reports bytes ord t c now ?it (map (the \<circ> ?f) ?hs)"
    using newIterator_prefix [of ?it cnt pre None c t bytes ord now] prefix_pages_all [OF hits, of "nat cnt" 0] inv args
    by (simp add: c_ScanPrefix_def newIterator_def)
  with tree inv(3) prefix.Keys_reports [of t bytes ord c now ?it "map (the \<circ> ?f) ?hs" zk zv]
  obtain it' where "it_Keys (\<lambda>_. ord) bytes c now zk zv ?it = Some (Inr (map eKey (map (the \<circ> ?f) ?hs), it'))" by blast
  moreover have "map eKey (map (the \<circ> ?f) ?hs) = ks" by (simp add: find ks_def key_def take_map)
  ultimately show ?thesis using ks by auto
qed

subsection \<open>Matching a pattern\<close>

text \<open>
  \<open>ScanMatch\<close> filters by the literal prefix of the pattern as well as by the pattern. What matches
  has the prefix, so the first filter changes nothing.
\<close>

definition matches_pattern :: "('k, 'v) Cache \<Rightarrow> int \<Rightarrow> Pattern \<Rightarrow> ('k, 'v) Entry \<Rightarrow> bool" where
  "matches_pattern c now p e \<longleftrightarrow>
     \<not> IsExpired e now \<and> (\<forall>key. as_string (st_any (c_store c) (eKey e)) = Some key \<longrightarrow> p_Match p key)"

lemma matchEntry_pattern:
  assumes "glob_Compile pattern = Some (Inr p)"
  shows "matchEntry c now (newIterator cursor cnt (p_prefix p) (Some p)) = matches_pattern c now p"
proof
  fix e
  show "matchEntry c now (newIterator cursor cnt (p_prefix p) (Some p)) e = matches_pattern c now p e"
  proof (cases "as_string (st_any (c_store c) (eKey e))")
    case (Some key)
    have "p_Match p key \<Longrightarrow> take (length (p_prefix p)) key = p_prefix p"
      using p_Match_prefix [OF assms, of key] by auto
    with Some show ?thesis by (auto simp: matchEntry_def newIterator_def matches_pattern_def)
  qed (simp add: matchEntry_def newIterator_def matches_pattern_def)
qed

lemma c_ScanMatch_reports:
  fixes c :: "('k, 'v) Cache"
  assumes "scannable ords (c_store c)" "cnt < 2 ^ 62" "c_isStringKey c" "c_radix c = None"
    and "glob_Compile pattern = Some (Inr p)"
  shows "\<exists>it. c_ScanMatch c pattern 0 cnt = Some it \<and> scan_reports ords c now it
    (served ords (c_store c) (nat (if cnt \<le> 0 then 10 else cnt)) (matches_pattern c now p) 0)"
proof -
  let ?it = "newIterator 0 cnt (p_prefix p) (Some p) :: ('k, 'v) Iterator"
  have "scan_reports ords c now ?it (served ords (c_store c) (nat (it_count ?it)) (matchEntry c now ?it) 0)"
    by (rule newIterator_scan) (use assms in \<open>auto simp: by_scan_def\<close>)
  then have "scan_reports ords c now ?it
      (served ords (c_store c) (nat (if cnt \<le> 0 then 10 else cnt)) (matches_pattern c now p) 0)"
    unfolding matchEntry_pattern [OF assms(5)] by (simp add: newIterator_def)
  with assms show ?thesis by (simp add: c_ScanMatch_def)
qed

end
