(* ===== verification/Cuckoo.thy ===== *)
theory Cuckoo
  imports PowerOfTwo
begin

text \<open>
  \<open>internal/policy/cuckoo.go\<close>: a filter of 16-bit fingerprints in buckets of four slots that supports
  deletion. A slot is a 32-bit word, zero when empty. The floating-point sizing of the constructor is
  the parameter \<open>optBuckets\<close>. The locale \<open>deleting_filter\<close> is the contract of such a filter: it holds
  a multiset of classes of hashes, since hashes with the same fingerprint and buckets are the same to it.
\<close>

section \<open>Filters with deletion\<close>

locale deleting_filter =
  fixes add :: "'d \<Rightarrow> u64 \<Rightarrow> 'd \<times> bool"
    and del :: "'d \<Rightarrow> u64 \<Rightarrow> 'd \<times> bool"
    and contains :: "'d \<Rightarrow> u64 \<Rightarrow> bool"
    and held :: "'d \<Rightarrow> 'c multiset"
    and cls :: "'d \<Rightarrow> u64 \<Rightarrow> 'c"
    and inv :: "'d \<Rightarrow> bool"
  assumes inv_add: "inv d \<Longrightarrow> inv (fst (add d h))"
    and inv_del: "inv d \<Longrightarrow> inv (fst (del d h))"
    and cls_add: "inv d \<Longrightarrow> cls (fst (add d h)) = cls d"
    and cls_del: "inv d \<Longrightarrow> cls (fst (del d h)) = cls d"
    and contains_held: "inv d \<Longrightarrow> contains d h \<longleftrightarrow> cls d h \<in># held d"
    and add_done: "inv d \<Longrightarrow> snd (add d h) \<Longrightarrow> held (fst (add d h)) = add_mset (cls d h) (held d)"
    and add_failed: "inv d \<Longrightarrow> \<not> snd (add d h) \<Longrightarrow>
      \<exists>x. add_mset x (held (fst (add d h))) = add_mset (cls d h) (held d)"
    and del_held: "inv d \<Longrightarrow> held (fst (del d h)) = held d - {#cls d h#}"
    and del_result: "inv d \<Longrightarrow> snd (del d h) \<longleftrightarrow> cls d h \<in># held d"
begin

text \<open>A sequence of additions that all succeed holds every class as often as it was added.\<close>

definition adds :: "'d \<Rightarrow> u64 list \<Rightarrow> 'd" where
  "adds d hs = foldl (\<lambda>d h. fst (add d h)) d hs"

primrec all_added :: "'d \<Rightarrow> u64 list \<Rightarrow> bool" where
  "all_added d [] = True"
| "all_added d (h # hs) = (snd (add d h) \<and> all_added (fst (add d h)) hs)"

lemma adds_held:
  "inv d \<Longrightarrow> all_added d hs \<Longrightarrow>
   inv (adds d hs) \<and> cls (adds d hs) = cls d \<and> held (adds d hs) = mset (map (cls d) hs) + held d"
proof (induction hs arbitrary: d)
  case (Cons h hs)
  let ?d = "fst (add d h)"
  from Cons have "inv (adds ?d hs) \<and> cls (adds ?d hs) = cls d \<and> held (adds ?d hs) = mset (map (cls d) hs) + held ?d"
    by (simp add: inv_add cls_add)
  with Cons.prems show ?case by (simp add: adds_def add_done)
qed (simp add: adds_def)

lemma dels_held:
  "inv d \<Longrightarrow> inv (foldl (\<lambda>d h. fst (del d h)) d hs) \<and> cls (foldl (\<lambda>d h. fst (del d h)) d hs) = cls d \<and>
   held (foldl (\<lambda>d h. fst (del d h)) d hs) = held d - mset (map (cls d) hs)"
proof (induction hs arbitrary: d)
  case (Cons h hs)
  from Cons.IH [OF inv_del [OF Cons.prems, of h]] show ?case
    by (simp add: cls_del [OF Cons.prems] del_held [OF Cons.prems])
qed simp

text \<open>When every addition succeeds, exactly what was added more often than deleted is contained.\<close>

lemma contained_after:
  assumes "inv d" "held d = {#}" "all_added d hs"
  shows "contains (foldl (\<lambda>d h. fst (del d h)) (adds d hs) ds) h \<longleftrightarrow>
    count (mset (map (cls d) ds)) (cls d h) < count (mset (map (cls d) hs)) (cls d h)"
    and "inv (foldl (\<lambda>d h. fst (del d h)) (adds d hs) ds)"
proof -
  from adds_held [OF assms(1,3)] assms(2)
  have a: "inv (adds d hs)" "cls (adds d hs) = cls d" "held (adds d hs) = mset (map (cls d) hs)" by auto
  from dels_held [OF a(1), of ds] a(2,3) show "contains (foldl (\<lambda>d h. fst (del d h)) (adds d hs) ds) h \<longleftrightarrow>
      count (mset (map (cls d) ds)) (cls d h) < count (mset (map (cls d) hs)) (cls d h)"
    by (auto simp: contains_held simp flip: count_greater_zero_iff)
  from dels_held [OF a(1), of ds] show "inv (foldl (\<lambda>d h. fst (del d h)) (adds d hs) ds)" by blast
qed

end

section \<open>The cuckoo filter\<close>

type_synonym cuckooBucket = "u32 list"

record CuckooFilter =
  cf_buckets :: "cuckooBucket list"
  cf_numBuckets :: u64
  cf_count :: int

definition cuckooBucketSize :: nat where "cuckooBucketSize = 4"
definition cuckooMaxKicks :: nat where "cuckooMaxKicks = 500"

definition NewCuckooFilter :: "(int \<Rightarrow> u64) \<Rightarrow> int \<Rightarrow> CuckooFilter" where
  "NewCuckooFilter optBuckets n =
     (let n = (if n \<le> 0 then 10000 else n);
          numBuckets = nextPowerOf2Uint64 (optBuckets n);
          numBuckets = (if numBuckets < 1 then 1 else numBuckets)
      in \<lparr>cf_buckets = replicate (unat numBuckets) (replicate cuckooBucketSize 0),
          cf_numBuckets = numBuckets, cf_count = 0\<rparr>)"

definition cf_fingerprint :: "u64 \<Rightarrow> u16" where
  "cf_fingerprint keyHash = ucast (drop_bit 48 keyHash) OR 1"

definition cf_index1 :: "CuckooFilter \<Rightarrow> u64 \<Rightarrow> u64" where
  "cf_index1 cf keyHash = keyHash AND (cf_numBuckets cf - 1)"

definition cf_indexAlt :: "CuckooFilter \<Rightarrow> u64 \<Rightarrow> u16 \<Rightarrow> u64" where
  "cf_indexAlt cf i fp = (let fpHash = ucast fp * 0x5bd1e995 in (i XOR fpHash) AND (cf_numBuckets cf - 1))"

definition cf_index2 :: "CuckooFilter \<Rightarrow> u64 \<Rightarrow> u16 \<Rightarrow> u64" where
  "cf_index2 cf i1 fp = cf_indexAlt cf i1 fp"

text \<open>A stored slot carries an occupied bit above the fingerprint.\<close>

definition cf_slot :: "u16 \<Rightarrow> u32" where
  "cf_slot fp = ucast fp OR 0x10000"

definition cf_fp :: "u32 \<Rightarrow> u16" where
  "cf_fp val = ucast (val AND 0xFFFF)"

fun insert_slot :: "u16 \<Rightarrow> u32 list \<Rightarrow> u32 list option" where
  "insert_slot fp [] = None"
| "insert_slot fp (v # vs) = (if v = 0 then Some (cf_slot fp # vs) else map_option ((#) v) (insert_slot fp vs))"

definition cf_insertToBucket :: "CuckooFilter \<Rightarrow> u64 \<Rightarrow> u16 \<Rightarrow> CuckooFilter \<times> bool" where
  "cf_insertToBucket cf idx fp =
     (case insert_slot fp (cf_buckets cf ! unat idx) of
        None \<Rightarrow> (cf, False)
      | Some bucket \<Rightarrow> (cf\<lparr>cf_buckets := (cf_buckets cf)[unat idx := bucket]\<rparr>, True))"

definition cf_added :: "CuckooFilter \<Rightarrow> CuckooFilter" where
  "cf_added cf = cf\<lparr>cf_count := i64 (cf_count cf + 1)\<rparr>"

fun relocate_loop :: "CuckooFilter \<Rightarrow> nat list \<Rightarrow> u64 \<Rightarrow> u16 \<Rightarrow> CuckooFilter \<times> bool" where
  "relocate_loop cf [] i fp = (cf, False)"
| "relocate_loop cf (kick # kicks) i fp =
     (let bucket = cf_buckets cf ! unat i;
          j = kick mod cuckooBucketSize;
          oldFp = cf_fp (bucket ! j);
          cf = cf\<lparr>cf_buckets := (cf_buckets cf)[unat i := bucket[j := cf_slot fp]]\<rparr>;
          fp = oldFp;
          i = cf_indexAlt cf i fp;
          (cf, inserted) = cf_insertToBucket cf i fp
      in if inserted then (cf_added cf, True) else relocate_loop cf kicks i fp)"

declare relocate_loop.simps(2) [simp del]

definition cf_relocate :: "CuckooFilter \<Rightarrow> u64 \<Rightarrow> u64 \<Rightarrow> u16 \<Rightarrow> CuckooFilter \<times> bool" where
  "cf_relocate cf i1 i2 fp = relocate_loop cf [0..<cuckooMaxKicks] i1 fp"

definition cf_Add :: "CuckooFilter \<Rightarrow> u64 \<Rightarrow> CuckooFilter \<times> bool" where
  "cf_Add cf keyHash =
     (let fp = cf_fingerprint keyHash;
          i1 = cf_index1 cf keyHash;
          i2 = cf_index2 cf i1 fp;
          (cf, inserted) = cf_insertToBucket cf i1 fp
      in if inserted then (cf_added cf, True)
         else let (cf, inserted) = cf_insertToBucket cf i2 fp
              in if inserted then (cf_added cf, True) else cf_relocate cf i1 i2 fp)"

definition cf_bucketContains :: "CuckooFilter \<Rightarrow> u64 \<Rightarrow> u16 \<Rightarrow> bool" where
  "cf_bucketContains cf idx fp \<longleftrightarrow> list_ex (\<lambda>val. val \<noteq> 0 \<and> cf_fp val = fp) (cf_buckets cf ! unat idx)"

definition cf_Contains :: "CuckooFilter \<Rightarrow> u64 \<Rightarrow> bool" where
  "cf_Contains cf keyHash =
     (let fp = cf_fingerprint keyHash;
          i1 = cf_index1 cf keyHash;
          i2 = cf_index2 cf i1 fp
      in cf_bucketContains cf i1 fp \<or> cf_bucketContains cf i2 fp)"

fun delete_slot :: "u16 \<Rightarrow> u32 list \<Rightarrow> u32 list option" where
  "delete_slot fp [] = None"
| "delete_slot fp (v # vs) =
     (if v \<noteq> 0 \<and> cf_fp v = fp then Some (0 # vs) else map_option ((#) v) (delete_slot fp vs))"

definition cf_deleteFromBucket :: "CuckooFilter \<Rightarrow> u64 \<Rightarrow> u16 \<Rightarrow> CuckooFilter \<times> bool" where
  "cf_deleteFromBucket cf idx fp =
     (case delete_slot fp (cf_buckets cf ! unat idx) of
        None \<Rightarrow> (cf, False)
      | Some bucket \<Rightarrow> (cf\<lparr>cf_buckets := (cf_buckets cf)[unat idx := bucket]\<rparr>, True))"

definition cf_removed :: "CuckooFilter \<Rightarrow> CuckooFilter" where
  "cf_removed cf = cf\<lparr>cf_count := i64 (cf_count cf - 1)\<rparr>"

definition cf_Delete :: "CuckooFilter \<Rightarrow> u64 \<Rightarrow> CuckooFilter \<times> bool" where
  "cf_Delete cf keyHash =
     (let fp = cf_fingerprint keyHash;
          i1 = cf_index1 cf keyHash;
          i2 = cf_index2 cf i1 fp;
          (cf, deleted) = cf_deleteFromBucket cf i1 fp
      in if deleted then (cf_removed cf, True)
         else let (cf, deleted) = cf_deleteFromBucket cf i2 fp
              in if deleted then (cf_removed cf, True) else (cf, False))"

definition cf_Reset :: "CuckooFilter \<Rightarrow> CuckooFilter" where
  "cf_Reset cf = cf\<lparr>cf_buckets := map (map (\<lambda>_. 0)) (cf_buckets cf), cf_count := 0\<rparr>"

definition cf_Capacity :: "CuckooFilter \<Rightarrow> int" where
  "cf_Capacity cf = sint (cf_numBuckets cf * of_nat cuckooBucketSize)"

fun cf_AddBatch :: "CuckooFilter \<Rightarrow> u64 list \<Rightarrow> int \<Rightarrow> CuckooFilter \<times> int" where
  "cf_AddBatch cf [] added = (cf, added)"
| "cf_AddBatch cf (h # keyHashes) added =
     (let (cf, ok) = cf_Add cf h in cf_AddBatch cf keyHashes (if ok then i64 (added + 1) else added))"

fun cf_DeleteBatch :: "CuckooFilter \<Rightarrow> u64 list \<Rightarrow> int \<Rightarrow> CuckooFilter \<times> int" where
  "cf_DeleteBatch cf [] deleted = (cf, deleted)"
| "cf_DeleteBatch cf (h # keyHashes) deleted =
     (let (cf, ok) = cf_Delete cf h in cf_DeleteBatch cf keyHashes (if ok then i64 (deleted + 1) else deleted))"

text \<open>The results of the keys that fit are stored over the caller's slice.\<close>

definition cf_ContainsBatch :: "CuckooFilter \<Rightarrow> u64 list \<Rightarrow> bool list \<Rightarrow> bool list" where
  "cf_ContainsBatch cf keyHashes results =
     (let n = (if length keyHashes > length results then length results else length keyHashes)
      in map (cf_Contains cf) (take n keyHashes) @ drop n results)"

subsection \<open>Slots and buckets\<close>

lemma cf_slot_bits: "bit (0xFFFF :: u32) k \<longleftrightarrow> k < 16" "bit (0x10000 :: u32) k \<longleftrightarrow> k = 16"
proof -
  have m: "(0xFFFF :: u32) = mask 16" "(0x10000 :: u32) = 2 ^ 16" by (simp_all add: mask_eq_exp_minus_1)
  show "bit (0xFFFF :: u32) k \<longleftrightarrow> k < 16" unfolding m(1) by (auto simp: bit_mask_iff)
  show "bit (0x10000 :: u32) k \<longleftrightarrow> k = 16" unfolding m(2) bit_exp_iff by auto
qed

lemma cf_fp_slot [simp]: "cf_fp (cf_slot fp) = fp"
proof (rule bit_word_eqI)
  fix n assume "n < LENGTH(16)"
  then show "bit (cf_fp (cf_slot fp)) n \<longleftrightarrow> bit fp n"
    unfolding cf_fp_def cf_slot_def bit_unsigned_iff bit_and_iff bit_or_iff cf_slot_bits by auto
qed

lemma cf_slot_nonzero [simp]: "cf_slot fp \<noteq> 0"
proof -
  have "bit (cf_slot fp) 16" by (simp add: cf_slot_def cf_slot_bits bit_or_iff)
  then show ?thesis by auto
qed

text \<open>The class of a fingerprint in a bucket: the fingerprint and the smaller of its two buckets.\<close>

definition cf_cls :: "u64 \<Rightarrow> u64 \<Rightarrow> u16 \<Rightarrow> u16 \<times> u64" where
  "cf_cls n i fp = (fp, min i ((i XOR ucast fp * 0x5bd1e995) AND (n - 1)))"

definition slots_held :: "u64 \<Rightarrow> u64 \<Rightarrow> u32 list \<Rightarrow> (u16 \<times> u64) multiset" where
  "slots_held n i b = image_mset (\<lambda>v. cf_cls n i (cf_fp v)) (mset (filter (\<lambda>v. v \<noteq> 0) b))"

definition cf_held :: "CuckooFilter \<Rightarrow> (u16 \<times> u64) multiset" where
  "cf_held cf = (\<Sum>i < length (cf_buckets cf). slots_held (cf_numBuckets cf) (of_nat i) (cf_buckets cf ! i))"

definition cf_hash_cls :: "CuckooFilter \<Rightarrow> u64 \<Rightarrow> u16 \<times> u64" where
  "cf_hash_cls cf h = cf_cls (cf_numBuckets cf) (cf_index1 cf h) (cf_fingerprint h)"

definition cf_shape :: "CuckooFilter \<Rightarrow> bool" where
  "cf_shape cf \<longleftrightarrow> 0 < cf_numBuckets cf \<and> length (cf_buckets cf) = unat (cf_numBuckets cf) \<and>
     (\<exists>k. cf_numBuckets cf = 2 ^ k) \<and> (\<forall>b \<in> set (cf_buckets cf). length b = cuckooBucketSize)"

definition cf_inv :: "CuckooFilter \<Rightarrow> bool" where
  "cf_inv cf \<longleftrightarrow> cf_shape cf \<and> cf_count cf = i64 (int (size (cf_held cf)))"

lemma insert_slot_some:
  "insert_slot fp b = Some b' \<Longrightarrow> length b' = length b \<and> slots_held n i b' = add_mset (cf_cls n i fp) (slots_held n i b)"
  by (induction b arbitrary: b') (auto simp: slots_held_def split: if_splits)

lemma insert_slot_none: "insert_slot fp b = None \<longleftrightarrow> 0 \<notin> set b"
  by (induction b) auto

lemma delete_slot_some:
  "delete_slot fp b = Some b' \<Longrightarrow> length b' = length b \<and> slots_held n i b = add_mset (cf_cls n i fp) (slots_held n i b')"
  by (induction b arbitrary: b') (auto simp: slots_held_def split: if_splits)

lemma delete_slot_none: "delete_slot fp b = None \<longleftrightarrow> \<not> list_ex (\<lambda>val. val \<noteq> 0 \<and> cf_fp val = fp) b"
  by (induction b) auto

lemma slots_held_update:
  assumes "j < length b" "b ! j \<noteq> 0" "v \<noteq> 0"
  shows "add_mset (cf_cls n i (cf_fp (b ! j))) (slots_held n i (b[j := v])) = add_mset (cf_cls n i (cf_fp v)) (slots_held n i b)"
  using assms
proof (induction b arbitrary: j)
  case (Cons x b)
  then show ?case by (cases j) (auto simp: slots_held_def add_mset_commute split: if_splits)
qed simp

text \<open>Replacing a bucket changes the total by what the bucket held.\<close>

lemma cf_held_update:
  assumes "i < length (cf_buckets cf)" "i < 2 ^ 64"
  shows "cf_held (cf\<lparr>cf_buckets := (cf_buckets cf)[i := b]\<rparr>) + slots_held (cf_numBuckets cf) (of_nat i) (cf_buckets cf ! i) =
    cf_held cf + slots_held (cf_numBuckets cf) (of_nat i) b"
proof -
  let ?f = "\<lambda>B i. slots_held (cf_numBuckets cf) (of_nat i) (B ! i)" and ?B = "cf_buckets cf"
  have rest: "(\<Sum>j \<in> {..<length ?B} - {i}. ?f (?B[i := b]) j) = (\<Sum>j \<in> {..<length ?B} - {i}. ?f ?B j)"
    by (intro sum.cong) auto
  have "(\<Sum>j < length ?B. ?f (?B[i := b]) j) = slots_held (cf_numBuckets cf) (of_nat i) b + (\<Sum>j \<in> {..<length ?B} - {i}. ?f ?B j)"
    using assms(1) by (subst sum.remove [of _ i]) (auto simp: rest)
  moreover have "(\<Sum>j < length ?B. ?f ?B j) = ?f ?B i + (\<Sum>j \<in> {..<length ?B} - {i}. ?f ?B j)"
    using assms(1) by (subst sum.remove [of _ i]) auto
  ultimately show ?thesis by (simp add: cf_held_def)
qed

subsection \<open>Indices\<close>

lemma cf_index_bound:
  assumes "cf_shape cf"
  shows "unat (i AND (cf_numBuckets cf - 1)) < length (cf_buckets cf)"
    and "i AND (cf_numBuckets cf - 1) AND (cf_numBuckets cf - 1) = i AND (cf_numBuckets cf - 1)"
proof -
  from assms have n: "0 < cf_numBuckets cf" "length (cf_buckets cf) = unat (cf_numBuckets cf)" by (auto simp: cf_shape_def)
  from n show "unat (i AND (cf_numBuckets cf - 1)) < length (cf_buckets cf)"
    using and_pred_less [of "cf_numBuckets cf" i] by (simp add: word_less_nat_alt)
  show "i AND (cf_numBuckets cf - 1) AND (cf_numBuckets cf - 1) = i AND (cf_numBuckets cf - 1)" by (simp add: and.assoc)
qed

definition in_table :: "CuckooFilter \<Rightarrow> u64 \<Rightarrow> bool" where
  "in_table cf i \<longleftrightarrow> i AND (cf_numBuckets cf - 1) = i"

lemma in_table_index [simp]: "in_table cf (cf_index1 cf h)" "in_table cf (cf_indexAlt cf i fp)"
  by (simp_all add: in_table_def cf_index1_def cf_indexAlt_def Let_def and.assoc)

lemma in_table_bound: "cf_shape cf \<Longrightarrow> in_table cf i \<Longrightarrow> unat i < length (cf_buckets cf)"
  using cf_index_bound(1) [of cf i] by (simp add: in_table_def)

lemma alt_alt: "in_table cf i \<Longrightarrow> cf_indexAlt cf (cf_indexAlt cf i fp) fp = i"
  unfolding in_table_def cf_indexAlt_def Let_def
  by (rule bit_word_eqI) (metis (no_types, opaque_lifting) bit_and_iff bit_xor_iff)

lemma cls_alt: "cf_cls (cf_numBuckets cf) i fp = (fp, min i (cf_indexAlt cf i fp))"
  by (simp add: cf_cls_def cf_indexAlt_def Let_def)

lemma cls_move: "in_table cf i \<Longrightarrow> cf_cls (cf_numBuckets cf) (cf_indexAlt cf i fp) fp = cf_cls (cf_numBuckets cf) i fp"
  by (simp add: cls_alt alt_alt min.commute)

text \<open>A class determines its pair of buckets.\<close>

lemma cls_eq_iff:
  assumes "in_table cf i" "in_table cf j"
  shows "cf_cls (cf_numBuckets cf) i fp = cf_cls (cf_numBuckets cf) j fp' \<longleftrightarrow>
    fp = fp' \<and> (i = j \<or> i = cf_indexAlt cf j fp)"
proof
  assume "cf_cls (cf_numBuckets cf) i fp = cf_cls (cf_numBuckets cf) j fp'"
  then have "fp = fp'" and m: "min i (cf_indexAlt cf i fp) = min j (cf_indexAlt cf j fp)" by (auto simp: cls_alt)
  with alt_alt [OF assms(1), of fp] alt_alt [OF assms(2), of fp] show "fp = fp' \<and> (i = j \<or> i = cf_indexAlt cf j fp)"
    by (metis min_def)
qed (auto simp: cls_move assms)

subsection \<open>The operations on the classes held\<close>

lemma cf_held_cong: "cf_buckets cf' = cf_buckets cf \<Longrightarrow> cf_numBuckets cf' = cf_numBuckets cf \<Longrightarrow> cf_held cf' = cf_held cf"
  by (simp add: cf_held_def)

lemma cf_added_sel [simp]:
  "cf_buckets (cf_added cf) = cf_buckets cf" "cf_numBuckets (cf_added cf) = cf_numBuckets cf" "cf_held (cf_added cf) = cf_held cf"
  "cf_buckets (cf_removed cf) = cf_buckets cf" "cf_numBuckets (cf_removed cf) = cf_numBuckets cf" "cf_held (cf_removed cf) = cf_held cf"
  by (simp_all add: cf_added_def cf_removed_def cf_held_def)

text \<open>Changing one bucket keeps the shape and leaves the count and the number of buckets.\<close>

definition same_frame :: "CuckooFilter \<Rightarrow> CuckooFilter \<Rightarrow> bool" where
  "same_frame cf cf' \<longleftrightarrow> cf_shape cf' \<and> cf_numBuckets cf' = cf_numBuckets cf \<and> cf_count cf' = cf_count cf"

lemma update_bucket:
  assumes "cf_shape cf" "in_table cf i" "length b = cuckooBucketSize"
  shows "same_frame cf (cf\<lparr>cf_buckets := (cf_buckets cf)[unat i := b]\<rparr>)"
    and "cf_held (cf\<lparr>cf_buckets := (cf_buckets cf)[unat i := b]\<rparr>) + slots_held (cf_numBuckets cf) i (cf_buckets cf ! unat i) =
      cf_held cf + slots_held (cf_numBuckets cf) i b"
proof -
  show "same_frame cf (cf\<lparr>cf_buckets := (cf_buckets cf)[unat i := b]\<rparr>)"
    using assms by (auto simp: same_frame_def cf_shape_def dest: set_update_subset_insert [THEN subsetD])
  have "unat i < 2 ^ 64" using unsigned_less [of i] by simp
  from cf_held_update [OF in_table_bound [OF assms(1,2)] this, of b] show
    "cf_held (cf\<lparr>cf_buckets := (cf_buckets cf)[unat i := b]\<rparr>) + slots_held (cf_numBuckets cf) i (cf_buckets cf ! unat i) =
      cf_held cf + slots_held (cf_numBuckets cf) i b" by simp
qed

lemma bucket_size: "cf_shape cf \<Longrightarrow> in_table cf i \<Longrightarrow> length (cf_buckets cf ! unat i) = cuckooBucketSize"
  using in_table_bound [of cf i] by (simp add: cf_shape_def)

lemma insertToBucket_spec:
  assumes "cf_shape cf" "in_table cf i"
  shows "case cf_insertToBucket cf i fp of
     (cf', True) \<Rightarrow> same_frame cf cf' \<and> cf_held cf' = add_mset (cf_cls (cf_numBuckets cf) i fp) (cf_held cf)
   | (cf', False) \<Rightarrow> cf' = cf \<and> 0 \<notin> set (cf_buckets cf ! unat i)"
proof (cases "insert_slot fp (cf_buckets cf ! unat i)")
  case None
  then have "0 \<notin> set (cf_buckets cf ! unat i)" by (simp add: insert_slot_none)
  with None show ?thesis by (simp add: cf_insertToBucket_def)
next
  case (Some b)
  from insert_slot_some [OF Some] bucket_size [OF assms] have b: "length b = cuckooBucketSize"
    "slots_held (cf_numBuckets cf) i b =
      add_mset (cf_cls (cf_numBuckets cf) i fp) (slots_held (cf_numBuckets cf) i (cf_buckets cf ! unat i))" by auto
  from update_bucket [OF assms b(1)] b(2) Some show ?thesis by (simp add: cf_insertToBucket_def)
qed

lemma deleteFromBucket_spec:
  assumes "cf_shape cf" "in_table cf i"
  shows "case cf_deleteFromBucket cf i fp of
     (cf', True) \<Rightarrow> cf_bucketContains cf i fp \<and> same_frame cf cf' \<and>
       cf_held cf = add_mset (cf_cls (cf_numBuckets cf) i fp) (cf_held cf')
   | (cf', False) \<Rightarrow> cf' = cf \<and> \<not> cf_bucketContains cf i fp"
proof (cases "delete_slot fp (cf_buckets cf ! unat i)")
  case None
  then have "\<not> cf_bucketContains cf i fp" by (simp add: delete_slot_none cf_bucketContains_def)
  with None show ?thesis by (simp add: cf_deleteFromBucket_def)
next
  case (Some b)
  then have "cf_bucketContains cf i fp" using delete_slot_none [of fp "cf_buckets cf ! unat i"] by (simp add: cf_bucketContains_def)
  moreover from delete_slot_some [OF Some] bucket_size [OF assms] have b: "length b = cuckooBucketSize"
    "slots_held (cf_numBuckets cf) i (cf_buckets cf ! unat i) =
      add_mset (cf_cls (cf_numBuckets cf) i fp) (slots_held (cf_numBuckets cf) i b)" by auto
  ultimately show ?thesis using update_bucket [OF assms b(1)] Some by (simp add: cf_deleteFromBucket_def)
qed

text \<open>
  A round of relocation swaps the fingerprint in hand for one of the full bucket. If it ends without
  a free slot, the fingerprint that is in hand then is lost.
\<close>

lemma relocate_spec:
  assumes "cf_shape cf" "in_table cf i" "0 \<notin> set (cf_buckets cf ! unat i)"
  shows "case relocate_loop cf kicks i fp of
     (cf', True) \<Rightarrow> (\<exists>cf''. cf' = cf_added cf'' \<and> same_frame cf cf'' \<and>
       cf_held cf'' = add_mset (cf_cls (cf_numBuckets cf) i fp) (cf_held cf))
   | (cf', False) \<Rightarrow> same_frame cf cf' \<and>
       (\<exists>x. add_mset x (cf_held cf') = add_mset (cf_cls (cf_numBuckets cf) i fp) (cf_held cf))"
  using assms
proof (induction kicks arbitrary: cf i fp)
  case Nil
  then show ?case by (auto simp: same_frame_def)
next
  case (Cons kick kicks)
  let ?n = "cf_numBuckets cf" and ?b = "cf_buckets cf ! unat i" and ?j = "kick mod cuckooBucketSize"
  define cf1 where "cf1 = cf\<lparr>cf_buckets := (cf_buckets cf)[unat i := ?b[?j := cf_slot fp]]\<rparr>"
  define old where "old = cf_fp (?b ! ?j)"
  define i' where "i' = cf_indexAlt cf1 i old"
  have j: "?j < length ?b" using bucket_size [OF Cons.prems(1,2)] by (simp add: cuckooBucketSize_def)
  then have full: "?b ! ?j \<noteq> 0" using Cons.prems(3) by (metis nth_mem)
  note upd = update_bucket [OF Cons.prems(1,2), of "?b[?j := cf_slot fp]", folded cf1_def]
  have frame1: "same_frame cf cf1" using upd(1) bucket_size [OF Cons.prems(1,2)] by simp
  then have n1: "cf_numBuckets cf1 = ?n" "cf_shape cf1" by (auto simp: same_frame_def)
  have "cf_held cf1 + slots_held ?n i ?b = cf_held cf + slots_held ?n i (?b[?j := cf_slot fp])"
    using upd(2) bucket_size [OF Cons.prems(1,2)] by simp
  then have "add_mset (cf_cls ?n i old) (cf_held cf1) + slots_held ?n i ?b =
      cf_held cf + add_mset (cf_cls ?n i old) (slots_held ?n i (?b[?j := cf_slot fp]))" by simp
  also have "\<dots> = add_mset (cf_cls ?n i fp) (cf_held cf) + slots_held ?n i ?b"
    using slots_held_update [OF j full cf_slot_nonzero, of ?n i fp] by (simp add: old_def)
  finally have swap: "add_mset (cf_cls ?n i old) (cf_held cf1) = add_mset (cf_cls ?n i fp) (cf_held cf)" by simp
  have it: "in_table cf1 i" "in_table cf1 i'" using Cons.prems(2) n1 by (auto simp: in_table_def i'_def cf_indexAlt_def Let_def and.assoc)
  have cls: "cf_cls ?n i' old = cf_cls ?n i old" unfolding i'_def using cls_move [OF it(1), of old] n1 by simp
  have step: "relocate_loop cf (kick # kicks) i fp =
      (let (cf2, inserted) = cf_insertToBucket cf1 i' old
       in if inserted then (cf_added cf2, True) else relocate_loop cf2 kicks i' old)"
    by (simp only: relocate_loop.simps(2) Let_def cf1_def old_def i'_def)
  obtain cf2 ok where ins: "cf_insertToBucket cf1 i' old = (cf2, ok)" by fastforce
  note spec = insertToBucket_spec [OF n1(2) it(2), of old, unfolded ins prod.case n1(1) cls swap]
  show ?case
  proof (cases ok)
    case True
    with spec frame1 show ?thesis by (auto simp: step ins same_frame_def)
  next
    case False
    with spec have cf2: "cf2 = cf1" "0 \<notin> set (cf_buckets cf1 ! unat i')" by auto
    from Cons.IH [OF n1(2) it(2) cf2(2), of old, unfolded n1(1) cls swap] frame1 False show ?thesis
      by (auto simp: step ins cf2(1) same_frame_def split: prod.splits bool.splits)
  qed
qed

lemma cf_added_inv:
  assumes "same_frame cf cf'" "cf_inv cf" "cf_held cf' = add_mset c (cf_held cf)"
  shows "cf_inv (cf_added cf')"
proof -
  from assms have "cf_shape cf'" by (simp add: same_frame_def)
  then have "cf_shape (cf_added cf')" by (simp add: cf_shape_def)
  moreover have "cf_count (cf_added cf') = i64 (int (size (cf_held cf)) + 1)"
    using assms(1,2) by (simp add: cf_inv_def same_frame_def cf_added_def)
  ultimately show ?thesis using assms(3) by (simp add: cf_inv_def add.commute)
qed

lemma cf_Add_spec:
  assumes "cf_inv cf"
  shows "cf_inv (fst (cf_Add cf h)) \<and> cf_numBuckets (fst (cf_Add cf h)) = cf_numBuckets cf \<and>
    (if snd (cf_Add cf h) then cf_held (fst (cf_Add cf h)) = add_mset (cf_hash_cls cf h) (cf_held cf)
     else \<exists>x. add_mset x (cf_held (fst (cf_Add cf h))) = add_mset (cf_hash_cls cf h) (cf_held cf))"
proof -
  let ?fp = "cf_fingerprint h" and ?i1 = "cf_index1 cf h"
  let ?i2 = "cf_index2 cf ?i1 ?fp" and ?c = "cf_hash_cls cf h"
  from assms have shape: "cf_shape cf" by (simp add: cf_inv_def)
  have i2: "in_table cf ?i2" "cf_cls (cf_numBuckets cf) ?i2 ?fp = ?c"
    using cls_move [of cf ?i1 ?fp] by (simp_all add: cf_index2_def cf_hash_cls_def)
  obtain cf1 ok1 where ins1: "cf_insertToBucket cf ?i1 ?fp = (cf1, ok1)" by fastforce
  note spec1 = insertToBucket_spec [OF shape in_table_index(1), of h ?fp, unfolded ins1 prod.case]
  show ?thesis
  proof (cases ok1)
    case True
    with spec1 have "same_frame cf cf1" "cf_held cf1 = add_mset ?c (cf_held cf)" by (auto simp: cf_hash_cls_def)
    with cf_added_inv [OF this(1) assms this(2)] True ins1 show ?thesis by (simp add: cf_Add_def Let_def same_frame_def)
  next
    case False
    with spec1 have cf1: "cf1 = cf" and full: "0 \<notin> set (cf_buckets cf ! unat ?i1)" by auto
    obtain cf2 ok2 where ins2: "cf_insertToBucket cf ?i2 ?fp = (cf2, ok2)" by fastforce
    note spec2 = insertToBucket_spec [OF shape i2(1), of ?fp, unfolded ins2 prod.case i2(2)]
    show ?thesis
    proof (cases ok2)
      case True
      with spec2 have "same_frame cf cf2" "cf_held cf2 = add_mset ?c (cf_held cf)" by auto
      with cf_added_inv [OF this(1) assms this(2)] True False cf1 ins1 ins2 show ?thesis
        by (simp add: cf_Add_def Let_def same_frame_def)
    next
      case F2: False
      with spec2 have cf2: "cf2 = cf" by simp
      obtain cf3 ok3 where rel: "relocate_loop cf [0..<cuckooMaxKicks] ?i1 ?fp = (cf3, ok3)" by fastforce
      have add: "cf_Add cf h = (cf3, ok3)"
        using False F2 cf1 cf2 ins1 ins2 rel by (simp add: cf_Add_def Let_def cf_relocate_def)
      note spec3 = relocate_spec [OF shape in_table_index(1) full, of "?fp" "[0..<cuckooMaxKicks]", unfolded rel prod.case]
      show ?thesis
      proof (cases ok3)
        case True
        with spec3 obtain cf'' where "cf3 = cf_added cf''" "same_frame cf cf''" "cf_held cf'' = add_mset ?c (cf_held cf)"
          by (auto simp: cf_hash_cls_def)
        with cf_added_inv [OF this(2) assms this(3)] True add show ?thesis by (simp add: same_frame_def)
      next
        case False
        with spec3 obtain x where frame: "same_frame cf cf3" and x: "add_mset x (cf_held cf3) = add_mset ?c (cf_held cf)"
          by (auto simp: cf_hash_cls_def)
        from arg_cong [OF x, of size] have "size (cf_held cf3) = size (cf_held cf)" by simp
        with frame assms have "cf_inv cf3" by (simp add: cf_inv_def same_frame_def)
        with frame x False add show ?thesis by (simp add: same_frame_def del: split_paired_Ex) blast
      qed
    qed
  qed
qed

lemma held_bucket:
  assumes "cf_shape cf" "in_table cf i"
  shows "cf_bucketContains cf i fp \<longleftrightarrow> cf_cls (cf_numBuckets cf) i fp \<in># slots_held (cf_numBuckets cf) i (cf_buckets cf ! unat i)"
  by (auto simp: cf_bucketContains_def slots_held_def list_ex_iff cf_cls_def)

lemma cf_held_member:
  "c \<in># cf_held cf \<longleftrightarrow> (\<exists>i < length (cf_buckets cf). c \<in># slots_held (cf_numBuckets cf) (of_nat i) (cf_buckets cf ! i))"
proof -
  have "set_mset (\<Sum>i < n. f i) = (\<Union>i < n. set_mset (f i))" for n and f :: "nat \<Rightarrow> (u16 \<times> u64) multiset"
    by (induction n) (auto simp: lessThan_Suc)
  then show ?thesis by (auto simp: cf_held_def)
qed

lemma cf_Contains_held:
  assumes "cf_inv cf"
  shows "cf_Contains cf h \<longleftrightarrow> cf_hash_cls cf h \<in># cf_held cf"
proof -
  let ?fp = "cf_fingerprint h" and ?i1 = "cf_index1 cf h" and ?n = "cf_numBuckets cf"
  let ?i2 = "cf_indexAlt cf ?i1 ?fp"
  from assms have shape: "cf_shape cf" by (simp add: cf_inv_def)
  have cls2: "cf_cls ?n ?i2 ?fp = cf_hash_cls cf h" using cls_move [of cf ?i1 ?fp] by (simp add: cf_hash_cls_def)
  show ?thesis
  proof
    assume "cf_Contains cf h"
    then have "cf_bucketContains cf ?i1 ?fp \<or> cf_bucketContains cf ?i2 ?fp" by (simp add: cf_Contains_def Let_def cf_index2_def)
    then obtain i where "in_table cf i" "cf_cls ?n i ?fp = cf_hash_cls cf h" "cf_bucketContains cf i ?fp"
      using in_table_index(1) [of cf h] in_table_index(2) [of cf ?i1 ?fp] cls2 cf_hash_cls_def [of cf h] by metis
    with held_bucket [OF shape this(1), of ?fp] in_table_bound [OF shape this(1)] show "cf_hash_cls cf h \<in># cf_held cf"
      unfolding cf_held_member by (intro exI [of _ "unat i"]) simp
  next
    assume "cf_hash_cls cf h \<in># cf_held cf"
    then obtain k where k: "k < length (cf_buckets cf)" "cf_hash_cls cf h \<in># slots_held ?n (of_nat k) (cf_buckets cf ! k)"
      by (auto simp: cf_held_member)
    then obtain v where v: "v \<in> set (cf_buckets cf ! k)" "v \<noteq> 0" "cf_cls ?n (of_nat k) (cf_fp v) = cf_cls ?n ?i1 ?fp"
      by (auto simp: slots_held_def cf_hash_cls_def)
    have "k < unat ?n" using k(1) shape by (simp add: cf_shape_def)
    moreover have "unat ?n < 2 ^ 64" using unsigned_less [of ?n] by simp
    ultimately have small: "k < 2 ^ 64" by linarith
    have in_k: "in_table cf (of_nat k)"
    proof -
      from shape obtain e where e: "?n = 2 ^ e" by (auto simp: cf_shape_def)
      have "(of_nat k :: u64) < 2 ^ e"
        using \<open>k < unat ?n\<close> small unat_of_nat_u64 [of k] by (simp add: word_less_nat_alt flip: e)
      from less_mask_eq [OF this] show ?thesis by (simp add: in_table_def e mask_eq_decr_exp)
    qed
    from cls_eq_iff [OF in_k in_table_index(1), of "cf_fp v" h ?fp] v(3) small
    have "cf_fp v = ?fp" "of_nat k = ?i1 \<or> of_nat k = ?i2" by auto
    moreover have "unat (of_nat k :: u64) = k" using small by (simp add: unat_of_nat_u64)
    ultimately have "cf_bucketContains cf ?i1 ?fp \<or> cf_bucketContains cf ?i2 ?fp"
      using v by (auto simp: cf_bucketContains_def list_ex_iff)
    then show "cf_Contains cf h" by (simp add: cf_Contains_def Let_def cf_index2_def)
  qed
qed

lemma cf_removed_inv:
  assumes "same_frame cf cf'" "cf_inv cf" "cf_held cf = add_mset c (cf_held cf')"
  shows "cf_inv (cf_removed cf')"
proof -
  from assms have "cf_shape cf'" by (simp add: same_frame_def)
  then have "cf_shape (cf_removed cf')" by (simp add: cf_shape_def)
  moreover have "cf_count (cf_removed cf') = i64 (int (size (cf_held cf)) - 1)"
    using assms(1,2) by (simp add: cf_inv_def same_frame_def cf_removed_def)
  ultimately show ?thesis using assms(3) by (simp add: cf_inv_def)
qed

lemma cf_Delete_spec:
  assumes "cf_inv cf"
  shows "cf_inv (fst (cf_Delete cf h)) \<and> cf_numBuckets (fst (cf_Delete cf h)) = cf_numBuckets cf \<and>
    snd (cf_Delete cf h) = cf_Contains cf h \<and>
    cf_held (fst (cf_Delete cf h)) = cf_held cf - {#cf_hash_cls cf h#}"
proof -
  let ?fp = "cf_fingerprint h" and ?i1 = "cf_index1 cf h"
  let ?i2 = "cf_index2 cf ?i1 ?fp" and ?c = "cf_hash_cls cf h"
  from assms have shape: "cf_shape cf" by (simp add: cf_inv_def)
  have i2: "in_table cf ?i2" "cf_cls (cf_numBuckets cf) ?i2 ?fp = ?c"
    using cls_move [of cf ?i1 ?fp] by (simp_all add: cf_index2_def cf_hash_cls_def)
  obtain cf1 ok1 where del1: "cf_deleteFromBucket cf ?i1 ?fp = (cf1, ok1)" by fastforce
  note spec1 = deleteFromBucket_spec [OF shape in_table_index(1), of h ?fp, unfolded del1 prod.case]
  show ?thesis
  proof (cases ok1)
    case True
    with spec1 have "same_frame cf cf1" "cf_held cf = add_mset ?c (cf_held cf1)" "cf_Contains cf h"
      by (auto simp: cf_hash_cls_def cf_Contains_def Let_def)
    with cf_removed_inv [OF this(1) assms this(2)] True del1 show ?thesis by (simp add: cf_Delete_def Let_def same_frame_def)
  next
    case False
    with spec1 have cf1: "cf1 = cf" "\<not> cf_bucketContains cf ?i1 ?fp" by auto
    obtain cf2 ok2 where del2: "cf_deleteFromBucket cf ?i2 ?fp = (cf2, ok2)" by fastforce
    note spec2 = deleteFromBucket_spec [OF shape i2(1), of ?fp, unfolded del2 prod.case i2(2)]
    show ?thesis
    proof (cases ok2)
      case True
      with spec2 have "same_frame cf cf2" "cf_held cf = add_mset ?c (cf_held cf2)" "cf_Contains cf h"
        by (auto simp: cf_Contains_def Let_def)
      with cf_removed_inv [OF this(1) assms this(2)] True False cf1 del1 del2 show ?thesis
        by (simp add: cf_Delete_def Let_def same_frame_def)
    next
      case F2: False
      with spec2 cf1 have "cf2 = cf" "\<not> cf_Contains cf h" by (auto simp: cf_Contains_def Let_def)
      moreover from this(2) have "?c \<notin># cf_held cf" using cf_Contains_held [OF assms] by simp
      ultimately show ?thesis using False F2 cf1 del1 del2 assms by (simp add: cf_Delete_def Let_def diff_single_trivial)
    qed
  qed
qed

lemma slots_held_zero: "slots_held n i (replicate m 0) = {#}"
  by (simp add: slots_held_def)

lemma NewCuckooFilter_inv:
  assumes "uint (optBuckets (if n \<le> 0 then 10000 else n)) \<le> 2 ^ 62"
  shows "cf_inv (NewCuckooFilter optBuckets n)" "cf_held (NewCuckooFilter optBuckets n) = {#}"
proof -
  let ?cf = "NewCuckooFilter optBuckets n"
  define m where "m = optBuckets (if n \<le> 0 then 10000 else n)"
  define p where "p = nextPowerOf2Uint64 m"
  have p: "0 < p \<and> (\<exists>k. p = 2 ^ k)"
  proof (cases "m = 0")
    case True
    then have "p = 2 ^ 0" by (simp add: p_def nextPowerOf2Uint64_def)
    then show ?thesis by (metis power_0 word_gt_0 zero_neq_one)
  next
    case False
    then have "0 < m" by (simp add: word_gt_0)
    from nextPowerOf2Uint64_rounds_up [OF this] assms obtain k where k: "uint p = 2 ^ k" "uint p \<le> 2 ^ 62"
      by (auto simp: p_def m_def rounds_up_def)
    then have "k \<le> 62" by (metis one_less_numeral_iff power_le_imp_le_exp semiring_norm(76))
    then have "uint (2 ^ k :: u64) = 2 ^ k" by (intro uint_2p) (simp add: word_gt_0 flip: unat_gt_0)
    with k(1) have "p = 2 ^ k" by (metis word_uint_eqI)
    moreover from k(1) have "p \<noteq> 0" by auto
    ultimately show ?thesis by (metis word_gt_0)
  qed
  then have "\<not> p < 1" by (simp add: word_less_nat_alt word_gt_0)
  then have cf: "?cf = \<lparr>cf_buckets = replicate (unat p) (replicate cuckooBucketSize 0), cf_numBuckets = p, cf_count = 0\<rparr>"
    by (simp add: NewCuckooFilter_def Let_def m_def [symmetric] p_def [symmetric])
  show held: "cf_held ?cf = {#}" by (simp add: cf_held_def cf slots_held_zero)
  from p show "cf_inv ?cf" unfolding cf_inv_def held by (simp add: cf_shape_def cf)
qed

lemma cf_Reset_inv:
  assumes "cf_inv cf"
  shows "cf_inv (cf_Reset cf)" "cf_held (cf_Reset cf) = {#}"
proof -
  show held: "cf_held (cf_Reset cf) = {#}"
    by (simp add: cf_held_def cf_Reset_def slots_held_zero map_replicate_const)
  from assms show "cf_inv (cf_Reset cf)" unfolding cf_inv_def held by (auto simp: cf_shape_def cf_Reset_def)
qed

interpretation cuckoo: deleting_filter cf_Add cf_Delete cf_Contains cf_held cf_hash_cls cf_inv
proof unfold_locales
  fix cf h
  show "cf_inv cf \<Longrightarrow> cf_inv (fst (cf_Add cf h))" using cf_Add_spec by blast
  show "cf_inv cf \<Longrightarrow> cf_inv (fst (cf_Delete cf h))" using cf_Delete_spec by blast
  show "cf_inv cf \<Longrightarrow> cf_Contains cf h = (cf_hash_cls cf h \<in># cf_held cf)" by (rule cf_Contains_held)
  show "cf_inv cf \<Longrightarrow> cf_hash_cls (fst (cf_Add cf h)) = cf_hash_cls cf"
    using cf_Add_spec by (simp add: cf_hash_cls_def [abs_def] cf_index1_def)
  show "cf_inv cf \<Longrightarrow> cf_hash_cls (fst (cf_Delete cf h)) = cf_hash_cls cf"
    using cf_Delete_spec by (simp add: cf_hash_cls_def [abs_def] cf_index1_def)
  show "cf_inv cf \<Longrightarrow> snd (cf_Add cf h) \<Longrightarrow> cf_held (fst (cf_Add cf h)) = add_mset (cf_hash_cls cf h) (cf_held cf)"
    using cf_Add_spec by metis
  show "cf_inv cf \<Longrightarrow> \<not> snd (cf_Add cf h) \<Longrightarrow> \<exists>x. add_mset x (cf_held (fst (cf_Add cf h))) = add_mset (cf_hash_cls cf h) (cf_held cf)"
    using cf_Add_spec by metis
  show "cf_inv cf \<Longrightarrow> cf_held (fst (cf_Delete cf h)) = cf_held cf - {#cf_hash_cls cf h#}" using cf_Delete_spec by blast
  show "cf_inv cf \<Longrightarrow> snd (cf_Delete cf h) = (cf_hash_cls cf h \<in># cf_held cf)" using cf_Delete_spec cf_Contains_held by simp
qed


section \<open>Batches\<close>

lemma cf_AddBatch_run:
  assumes "- (2 ^ 63) \<le> a" "a + int (length hs) < 2 ^ 63"
  shows "fst (cf_AddBatch cf hs a) = cuckoo.adds cf hs"
    and "snd (cf_AddBatch cf hs a) \<le> a + int (length hs)"
    and "snd (cf_AddBatch cf hs a) = a + int (length hs) \<longleftrightarrow> cuckoo.all_added cf hs"
proof -
  from assms have "fst (cf_AddBatch cf hs a) = cuckoo.adds cf hs \<and> snd (cf_AddBatch cf hs a) \<le> a + int (length hs) \<and>
    (snd (cf_AddBatch cf hs a) = a + int (length hs) \<longleftrightarrow> cuckoo.all_added cf hs)"
  proof (induction hs arbitrary: cf a)
    case (Cons h hs)
    obtain cf' ok where A: "cf_Add cf h = (cf', ok)" by (cases "cf_Add cf h")
    let ?a = "if ok then a + 1 else a"
    from Cons.prems have i: "i64 (a + 1) = a + 1" by (intro i64_id) auto
    from Cons.prems Cons.IH [of ?a cf'] show ?case by (auto simp: A i cuckoo.adds_def)
  qed (simp add: cuckoo.adds_def)
  then show "fst (cf_AddBatch cf hs a) = cuckoo.adds cf hs" "snd (cf_AddBatch cf hs a) \<le> a + int (length hs)"
    "snd (cf_AddBatch cf hs a) = a + int (length hs) \<longleftrightarrow> cuckoo.all_added cf hs" by blast+
qed

lemma cf_DeleteBatch_run: "fst (cf_DeleteBatch cf hs a) = foldl (\<lambda>d h. fst (cf_Delete d h)) cf hs"
  by (induction hs arbitrary: cf a) (simp_all split: prod.split)

text \<open>
  C34: A new filter to which a batch is added that all fits, and from which a batch is then deleted,
  reports a hash as contained exactly when its class (fingerprint and bucket pair) was added more often
  than deleted. A further addition either adds its class or, when the 500 kicks are used up, loses exactly
  one of the classes held or the new one.
\<close>

theorem cuckoo_contains_what_was_added:
  fixes optBuckets :: "int \<Rightarrow> u64" and n :: int and hs ds :: "u64 list"
  defines "cf \<equiv> NewCuckooFilter optBuckets n"
    and "cf' \<equiv> fst (cf_DeleteBatch (fst (cf_AddBatch (NewCuckooFilter optBuckets n) hs 0)) ds 0)"
  assumes "uint (optBuckets (if n \<le> 0 then 10000 else n)) \<le> 2 ^ 62"
    and "length hs < 2 ^ 63" and "snd (cf_AddBatch cf hs 0) = int (length hs)"
  shows "(cf_Contains cf' h \<longleftrightarrow>
      count (mset (map (cf_hash_cls cf) ds)) (cf_hash_cls cf h) < count (mset (map (cf_hash_cls cf) hs)) (cf_hash_cls cf h)) \<and>
    (if snd (cf_Add cf' h) then cf_held (fst (cf_Add cf' h)) = add_mset (cf_hash_cls cf' h) (cf_held cf')
     else \<exists>x. add_mset x (cf_held (fst (cf_Add cf' h))) = add_mset (cf_hash_cls cf' h) (cf_held cf'))"
proof -
  note new = NewCuckooFilter_inv [of optBuckets n, OF assms(3), folded cf_def]
  from assms(4) have l: "int (length hs) < 2 ^ 63" by simp
  with assms(5) cf_AddBatch_run(3) [of 0 hs cf] have all: "cuckoo.all_added cf hs" by simp
  from l cf_AddBatch_run(1) [of 0 hs cf] have cf': "cf' = foldl (\<lambda>d h. fst (cf_Delete d h)) (cuckoo.adds cf hs) ds"
    by (simp add: cf'_def cf_def cf_DeleteBatch_run)
  from cuckoo.contained_after(1) [OF new all, of ds h] cf_Add_spec [OF cuckoo.contained_after(2) [OF new all, of ds], of h]
  show ?thesis unfolding cf' by (intro conjI) (blast+)
qed

theorem cuckoo_contains_what_was_added_witness:
  "cf_Contains (fst (cf_DeleteBatch (fst (cf_AddBatch (NewCuckooFilter (\<lambda>_. 2) 4) [5, 5, 7] 0)) [5] 0)) 5"
proof -
  have "snd (cf_AddBatch (NewCuckooFilter (\<lambda>_. 2) 4) [5, 5, 7] 0) = int (length [5 :: u64, 5, 7])" by code_simp
  moreover have "count (mset (map (cf_hash_cls (NewCuckooFilter (\<lambda>_. 2) 4)) [5])) (cf_hash_cls (NewCuckooFilter (\<lambda>_. 2) 4) 5) <
    count (mset (map (cf_hash_cls (NewCuckooFilter (\<lambda>_. 2) 4)) [5, 5, 7])) (cf_hash_cls (NewCuckooFilter (\<lambda>_. 2) 4) 5)" by simp
  ultimately show ?thesis
    using cuckoo_contains_what_was_added [where optBuckets = "\<lambda>_. 2" and n = 4 and hs = "[5, 5, 7]" and ds = "[5]" and h = 5] by simp
qed

end
