(* ===== verification/BlockedBloom.thy ===== *)
theory BlockedBloom
  imports Complex_Main Bloom
begin

text \<open>
  \<open>internal/policy/bloom_blocked.go\<close>: a Bloom filter that keeps all probes of a hash inside one block
  of 512 bits, eight words of 64. A block is a list of words; a bit is set by a compare-and-swap loop,
  whose effect is the disjunction written by the successful swap. The sizes the constructor derives
  with floating-point logarithms are arguments (\<open>optTotalBits\<close>, \<open>optHash\<close>); the code's rounding and
  clamps are applied to their results. The fill statistics count bits; their quotients are exact
  rationals instead of floats.
\<close>

definition blockSizeBits :: nat where "blockSizeBits = 512"

definition blockSizeWords :: nat where "blockSizeWords = blockSizeBits div 64"

record BlockedBloomFilter =
  bb_blocks :: "u64 list list"
  bb_numBlocks :: u64
  bb_numHash :: nat

definition NewBlockedBloomFilter :: "(int \<Rightarrow> u64) \<Rightarrow> (int \<Rightarrow> u64 \<Rightarrow> int) \<Rightarrow> int \<Rightarrow> BlockedBloomFilter" where
  "NewBlockedBloomFilter optTotalBits optHash n =
     (let n = (if n \<le> 0 then 10000 else n);
          totalBits = optTotalBits n;
          numBlocks = (totalBits + of_nat blockSizeBits - 1) div of_nat blockSizeBits;
          numBlocks = (if numBlocks < 1 then 1 else numBlocks);
          numHash = optHash n numBlocks;
          numHash = (if numHash < 2 then 2 else numHash);
          numHash = (if numHash > 8 then 8 else numHash)
      in \<lparr>bb_blocks = replicate (unat numBlocks) (replicate blockSizeWords 0),
          bb_numBlocks = numBlocks, bb_numHash = nat numHash\<rparr>)"

definition bb_blockIndex :: "BlockedBloomFilter \<Rightarrow> u64 \<Rightarrow> u64" where
  "bb_blockIndex bf keyHash = drop_bit 32 keyHash mod bb_numBlocks bf"

definition bb_bitIndex :: "u64 \<Rightarrow> nat \<Rightarrow> u64" where
  "bb_bitIndex keyHash i =
     (let h1 = keyHash AND 0xFFFFFFFF;
          h2 = (drop_bit 16 keyHash XOR keyHash) AND 0xFFFFFFFF;
          h = h1 + of_nat i * h2
      in h mod of_nat blockSizeBits)"

definition bb_Add :: "BlockedBloomFilter \<Rightarrow> u64 \<Rightarrow> BlockedBloomFilter \<times> bool" where
  "bb_Add bf keyHash =
     (let blockIdx = unat (bb_blockIndex bf keyHash)
      in foldl (\<lambda>(bf, alreadyPresent) i.
           let bitPos = unat (bb_bitIndex keyHash i); blk = bb_blocks bf ! blockIdx
           in if testBit blk bitPos then (bf, alreadyPresent)
              else (bf\<lparr>bb_blocks := (bb_blocks bf)[blockIdx := orBit blk bitPos]\<rparr>, False))
         (bf, True) [0..<bb_numHash bf])"

definition bb_Contains :: "BlockedBloomFilter \<Rightarrow> u64 \<Rightarrow> bool" where
  "bb_Contains bf keyHash =
     (let blk = bb_blocks bf ! unat (bb_blockIndex bf keyHash)
      in list_all (\<lambda>i. testBit blk (unat (bb_bitIndex keyHash i))) [0..<bb_numHash bf])"

definition bb_Reset :: "BlockedBloomFilter \<Rightarrow> BlockedBloomFilter" where
  "bb_Reset bf = bf\<lparr>bb_blocks := map (map (\<lambda>_. 0)) (bb_blocks bf)\<rparr>"

definition OnesCount64 :: "u64 \<Rightarrow> nat" where
  "OnesCount64 w = length (filter (bit w) [0..<64])"

definition bb_TotalBits :: "BlockedBloomFilter \<Rightarrow> u64" where
  "bb_TotalBits bf = bb_numBlocks bf * of_nat blockSizeBits"

definition bb_FillRatio :: "BlockedBloomFilter \<Rightarrow> rat" where
  "bb_FillRatio bf =
     of_nat (sum_list (map (\<lambda>blk. sum_list (map OnesCount64 blk)) (bb_blocks bf))) / of_int (uint (bb_TotalBits bf))"

definition bb_BlockFillRatios :: "BlockedBloomFilter \<Rightarrow> rat list" where
  "bb_BlockFillRatios bf = map (\<lambda>blk. of_nat (sum_list (map OnesCount64 blk)) / of_nat blockSizeBits) (bb_blocks bf)"

definition bb_EstimatedFPRate :: "BlockedBloomFilter \<Rightarrow> rat" where
  "bb_EstimatedFPRate bf = bb_FillRatio bf ^ bb_numHash bf"

definition bb_AddBatch :: "BlockedBloomFilter \<Rightarrow> u64 list \<Rightarrow> BlockedBloomFilter \<times> nat" where
  "bb_AddBatch bf keyHashes =
     foldl (\<lambda>(bf, alreadyPresent) keyHash.
       let (bf, present) = bb_Add bf keyHash
       in (bf, if present then Suc alreadyPresent else alreadyPresent)) (bf, 0) keyHashes"

definition bb_ContainsBatch :: "BlockedBloomFilter \<Rightarrow> u64 list \<Rightarrow> bool list \<Rightarrow> bool list" where
  "bb_ContainsBatch bf keyHashes results =
     (let n = (if length keyHashes > length results then length results else length keyHashes)
      in map (bb_Contains bf) (take n keyHashes) @ drop n results)"

subsection \<open>The filter as an array of bits\<close>

definition bb_inv :: "BlockedBloomFilter \<Rightarrow> bool" where
  "bb_inv bf \<longleftrightarrow> 0 < bb_numBlocks bf \<and> length (bb_blocks bf) = unat (bb_numBlocks bf) \<and>
     (\<forall>blk \<in> set (bb_blocks bf). length blk = 8) \<and> 0 < bb_numHash bf"

text \<open>Bit \<open>p\<close> of the filter is bit \<open>p mod 512\<close> of block \<open>p div 512\<close>.\<close>

definition bb_testBit :: "BlockedBloomFilter \<Rightarrow> nat \<Rightarrow> bool" where
  "bb_testBit bf p = testBit (bb_blocks bf ! (p div 512)) (p mod 512)"

definition bb_setBit :: "BlockedBloomFilter \<Rightarrow> nat \<Rightarrow> BlockedBloomFilter" where
  "bb_setBit bf p =
     bf\<lparr>bb_blocks := (bb_blocks bf)[p div 512 := orBit (bb_blocks bf ! (p div 512)) (p mod 512)]\<rparr>"

definition bb_probes :: "BlockedBloomFilter \<Rightarrow> u64 \<Rightarrow> nat list" where
  "bb_probes bf h = map (\<lambda>i. unat (bb_blockIndex bf h) * 512 + unat (bb_bitIndex h i)) [0..<bb_numHash bf]"

lemma bb_bitIndex_bound [bounds]: "unat (bb_bitIndex h i) < 512"
  using unat_mod_bound [of "512 :: u64"] by (simp add: bb_bitIndex_def Let_def blockSizeBits_def)

lemma bb_blockIndex_bound [bounds]: "bb_inv bf \<Longrightarrow> unat (bb_blockIndex bf h) < length (bb_blocks bf)"
  using unat_mod_bound [of "bb_numBlocks bf"] by (simp add: bb_inv_def bb_blockIndex_def)

lemma bb_probe_parts [simp]:
  "(b * 512 + unat (bb_bitIndex h i)) div 512 = b" "(b * 512 + unat (bb_bitIndex h i)) mod 512 = unat (bb_bitIndex h i)"
  "unat (bb_bitIndex h i) mod 512 = unat (bb_bitIndex h i)"
  using bb_bitIndex_bound [of h i] by simp_all

lemma bb_setBit_frame [simp]:
  "bb_probes (bb_setBit bf p) = bb_probes bf" "bb_numBlocks (bb_setBit bf p) = bb_numBlocks bf"
  "length (bb_blocks (bb_setBit bf p)) = length (bb_blocks bf)" "bb_numHash (bb_setBit bf p) = bb_numHash bf"
  by (simp_all add: bb_probes_def bb_setBit_def bb_blockIndex_def fun_eq_iff)

lemma bb_testBit_setBit:
  assumes "bb_inv bf" "p div 512 < length (bb_blocks bf)"
  shows "bb_testBit (bb_setBit bf p) q \<longleftrightarrow> p = q \<or> bb_testBit bf q"
proof -
  have "length (bb_blocks bf ! (p div 512)) = 8" using assms by (simp add: bb_inv_def)
  then have b: "p mod 512 div 64 < length (bb_blocks bf ! (p div 512))" by simp
  have "p = q \<longleftrightarrow> p div 512 = q div 512 \<and> p mod 512 = q mod 512" by (metis div_mult_mod_eq)
  then show ?thesis using testBit_orBit [OF b] assms(2)
    by (cases "p div 512 = q div 512") (auto simp: bb_testBit_def bb_setBit_def)
qed

lemma bb_inv_setBit: "bb_inv bf \<Longrightarrow> p div 512 < length (bb_blocks bf) \<Longrightarrow> bb_inv (bb_setBit bf p)"
  by (auto simp: bb_inv_def bb_setBit_def dest!: set_update_subset_insert [THEN subsetD])

lemma bb_Add_loop: "bb_Add bf h = add_loop bb_testBit bb_setBit bf (bb_probes bf h)"
proof -
  have "(\<lambda>(bf, alreadyPresent) i.
      let bitPos = unat (bb_bitIndex h i); blk = bb_blocks bf ! b
      in if testBit blk bitPos then (bf, alreadyPresent)
         else (bf\<lparr>bb_blocks := (bb_blocks bf)[b := orBit blk bitPos]\<rparr>, False)) =
    (\<lambda>(d, alreadyPresent) i. if bb_testBit d (b * 512 + unat (bb_bitIndex h i)) then (d, alreadyPresent)
      else (bb_setBit d (b * 512 + unat (bb_bitIndex h i)), False))" for b
    by (simp add: fun_eq_iff bb_testBit_def bb_setBit_def)
  then show ?thesis unfolding bb_Add_def add_loop_def bb_probes_def foldl_map
    by (simp add: case_prod_unfold Let_def)
qed

interpretation bb: bit_filter bb_testBit bb_setBit bb_probes bb_Add bb_Contains bb_Reset bb_inv
  "\<lambda>bf p. p div 512 < length (bb_blocks bf)"
proof unfold_locales
  fix d p h
  show "bb_inv d \<Longrightarrow> p \<in> set (bb_probes d h) \<Longrightarrow> p div 512 < length (bb_blocks d)"
    by (auto simp: bb_probes_def bb_blockIndex_bound)
  show "bb_Contains d h \<longleftrightarrow> (\<forall>p\<in>set (bb_probes d h). bb_testBit d p)"
    by (simp add: bb_Contains_def list_all_iff bb_probes_def bb_testBit_def)
  show "bb_inv d \<Longrightarrow> bb_probes d h \<noteq> []" by (simp add: bb_probes_def bb_inv_def)
  show "bb_inv d \<Longrightarrow> bb_inv (bb_Reset d)" by (auto simp: bb_inv_def bb_Reset_def)
  show "bb_probes (bb_Reset d) = bb_probes d"
    by (simp add: bb_probes_def bb_Reset_def bb_blockIndex_def fun_eq_iff)
  assume "bb_inv d" "p div 512 < length (bb_blocks d)"
  moreover from this have "length (bb_blocks d ! (p div 512)) = 8" by (simp add: bb_inv_def)
  ultimately show "\<not> bb_testBit (bb_Reset d) p" by (simp add: bb_testBit_def bb_Reset_def testBit_clear)
qed (simp_all add: bb_testBit_setBit bb_inv_setBit bb_Add_loop)

lemma NewBlockedBloomFilter_inv: "bb_inv (NewBlockedBloomFilter optTotalBits optHash n)"
  by (auto simp: bb_inv_def NewBlockedBloomFilter_def Let_def blockSizeWords_def blockSizeBits_def
      word_less_nat_alt split: if_splits)

subsection \<open>Batches and the fill ratio\<close>

lemma bb_AddBatch_run: "fst (bb_AddBatch bf hs) = foldl (\<lambda>d h. fst (bb_Add d h)) bf hs"
proof -
  have "fst (foldl (\<lambda>(bf, alreadyPresent) keyHash.
       let (bf, present) = bb_Add bf keyHash
       in (bf, if present then Suc alreadyPresent else alreadyPresent)) (bf, n) hs) =
     foldl (\<lambda>d h. fst (bb_Add d h)) bf hs" for n :: nat
    by (induction hs arbitrary: bf n) (simp_all split: prod.split)
  then show ?thesis by (simp add: bb_AddBatch_def)
qed

lemma OnesCount64_le: "OnesCount64 w \<le> 64"
  unfolding OnesCount64_def by (rule order_trans [OF length_filter_le]) simp

lemma sum_list_le: "(\<And>x. x \<in> set xs \<Longrightarrow> f x \<le> (b :: nat)) \<Longrightarrow> sum_list (map f xs) \<le> b * length xs"
  by (induction xs) force+

text \<open>The fill ratio is a ratio while the number of bits fits a 64-bit word.\<close>

lemma bb_FillRatio_bounds:
  assumes "bb_inv bf" "unat (bb_numBlocks bf) < 2 ^ 55"
  shows "0 \<le> bb_FillRatio bf" "bb_FillRatio bf \<le> 1"
proof -
  have "unat (bb_TotalBits bf) = unat (bb_numBlocks bf) * 512"
    using assms(2) by (simp add: bb_TotalBits_def blockSizeBits_def unat_word_ariths)
  then have t: "uint (bb_TotalBits bf) = int (length (bb_blocks bf) * 512)"
    using assms(1) unfolding bb_inv_def uint_nat by metis
  have "sum_list (map (\<lambda>blk. sum_list (map OnesCount64 blk)) (bb_blocks bf)) \<le> 512 * length (bb_blocks bf)"
  proof (rule sum_list_le)
    fix blk assume "blk \<in> set (bb_blocks bf)"
    with assms(1) have "length blk = 8" by (simp add: bb_inv_def)
    with sum_list_le [of blk OnesCount64 64] show "sum_list (map OnesCount64 blk) \<le> 512" by (simp add: OnesCount64_le)
  qed
  then have "(of_nat (sum_list (map (\<lambda>blk. sum_list (map OnesCount64 blk)) (bb_blocks bf))) :: rat) \<le>
      of_nat (512 * length (bb_blocks bf))" by (simp only: of_nat_le_iff)
  moreover have "0 < length (bb_blocks bf)" using assms(1) by (auto simp: bb_inv_def unat_gt_0 word_gt_0)
  ultimately show "bb_FillRatio bf \<le> 1" unfolding bb_FillRatio_def t by (simp add: divide_le_eq mult.commute)
  show "0 \<le> bb_FillRatio bf" unfolding bb_FillRatio_def t by simp
qed

end
