(* ===== verification/BudgetStore.thy ===== *)
theory BudgetStore
  imports Prelude
begin

text \<open>
  The contract of a keyed store of bounded capacity: as long as a budget covers the weight of what is
  put, putting, removing and overwriting act on a finite map. The open-addressing table of
  \<open>internal/hashtable\<close> and the serialising store \<open>internal/store/gcfree.go\<close> promise it.
\<close>

datatype ('k, 'e) store_op = Put 'k 'e | Remove 'k

primrec op_on_map :: "('k \<rightharpoonup> 'e) \<Rightarrow> ('k, 'e) store_op \<Rightarrow> ('k \<rightharpoonup> 'e)" where
  "op_on_map m (Put k e) = m(k \<mapsto> e)"
| "op_on_map m (Remove k) = m(k := None)"

primrec op_weight :: "('k \<Rightarrow> 'e \<Rightarrow> nat) \<Rightarrow> ('k, 'e) store_op \<Rightarrow> nat" where
  "op_weight w (Put k e) = w k e"
| "op_weight w (Remove k) = 0"

locale budget_store =
  fixes lookup :: "'s \<Rightarrow> ('k \<rightharpoonup> 'e)"
    and put :: "'s \<Rightarrow> 'k \<Rightarrow> 'e \<Rightarrow> 's"
    and remove :: "'s \<Rightarrow> 'k \<Rightarrow> 's"
    and size :: "'s \<Rightarrow> int"
    and inv :: "nat \<Rightarrow> 's \<Rightarrow> bool"
    and weight :: "'k \<Rightarrow> 'e \<Rightarrow> nat"
    and fits :: "'k \<Rightarrow> 'e \<Rightarrow> bool"
  assumes inv_put: "inv (weight k e + m) s \<Longrightarrow> fits k e \<Longrightarrow> inv m (put s k e)"
    and inv_remove: "inv m s \<Longrightarrow> inv m (remove s k)"
    and lookup_put: "inv (weight k e + m) s \<Longrightarrow> fits k e \<Longrightarrow> lookup (put s k e) = (lookup s)(k \<mapsto> e)"
    and lookup_remove: "inv m s \<Longrightarrow> lookup (remove s k) = (lookup s)(k := None)"
    and finite_lookup: "inv m s \<Longrightarrow> finite (dom (lookup s))"
    and size_card: "inv m s \<Longrightarrow> size s = int (card (dom (lookup s)))"
begin

primrec apply_op :: "'s \<Rightarrow> ('k, 'e) store_op \<Rightarrow> 's" where
  "apply_op s (Put k e) = put s k e"
| "apply_op s (Remove k) = remove s k"

primrec op_fits :: "('k, 'e) store_op \<Rightarrow> bool" where
  "op_fits (Put k e) = fits k e"
| "op_fits (Remove k) = True"

lemma apply_op:
  assumes "inv (op_weight weight x + m) s" "op_fits x"
  shows "inv m (apply_op s x)" "lookup (apply_op s x) = op_on_map (lookup s) x"
  using assms by (cases x; simp add: inv_put inv_remove lookup_put lookup_remove)+

text \<open>Every sequence of operations the budget covers acts as on a map.\<close>

lemma run_ops:
  assumes "inv (sum_list (map (op_weight weight) xs) + m) s" "\<forall>x \<in> set xs. op_fits x"
  shows "inv m (foldl apply_op s xs) \<and> lookup (foldl apply_op s xs) = foldl op_on_map (lookup s) xs \<and>
    size (foldl apply_op s xs) = int (card (dom (foldl op_on_map (lookup s) xs)))"
  using assms
proof (induction xs arbitrary: s)
  case Nil
  then show ?case by (simp add: size_card)
next
  case (Cons x xs)
  from Cons.prems have "inv (op_weight weight x + (sum_list (map (op_weight weight) xs) + m)) s" "op_fits x"
    by (simp_all add: add.assoc)
  from apply_op [OF this] Cons.IH [of "apply_op s x"] Cons.prems(2) show ?case by simp
qed

end

end
