(* ===== verification/Swiss.thy ===== *)
theory Swiss
  imports PowerOfTwo BudgetStore
begin

text \<open>
  \<open>internal/hashtable/swiss.go\<close>: an open-addressing table from key hashes to costs. Slots come in
  groups of 16, each slot with a control byte (empty, deleted, or the low seven bits of the hash
  stored there); a search probes the groups linearly from the one the upper bits select and stops at a
  group with an empty slot. Indices are natural numbers (they are never negative in the code). The
  load test \<open>float64(size + 1) > float64(cap) * 0.875\<close> is exact below \<open>2 ^ 50\<close> slots and is
  written with integers.
\<close>

subsection \<open>The table and its operations\<close>

definition groupSize :: nat where "groupSize = 16"
definition emptySlot :: byte where "emptySlot = 0x80"
definition deletedSlot :: byte where "deletedSlot = 0xFE"
definition h2Mask :: u64 where "h2Mask = 0x7F"

record SwissEntry =
  se_KeyHash :: u64
  se_Cost :: int

record SwissTable =
  sw_groups :: "byte list list"
  sw_entries :: "SwissEntry list"
  sw_size :: int
  sw_cap :: int

definition zeroSwissEntry :: SwissEntry where
  "zeroSwissEntry = \<lparr>se_KeyHash = 0, se_Cost = 0\<rparr>"

definition empty_groups :: "int \<Rightarrow> byte list list" where
  "empty_groups numGroups = replicate (nat numGroups) (replicate groupSize emptySlot)"

definition NewSwissTable :: "int \<Rightarrow> SwissTable" where
  "NewSwissTable capacity =
     (let capacity = (if capacity \<le> 0 then 16 else capacity);
          numGroups = i64 (capacity + int groupSize - 1) div int groupSize;
          numGroups = nextPowerOf2Int64 numGroups;
          totalSlots = i64 (numGroups * int groupSize)
      in \<lparr>sw_groups = empty_groups numGroups, sw_entries = replicate (nat totalSlots) zeroSwissEntry,
          sw_size = 0, sw_cap = totalSlots\<rparr>)"

definition sw_h1 :: "u64 \<Rightarrow> u64" where
  "sw_h1 hash = drop_bit 7 hash"

definition sw_h2 :: "u64 \<Rightarrow> byte" where
  "sw_h2 hash = ucast (hash AND h2Mask)"

definition sw_group :: "SwissTable \<Rightarrow> u64 \<Rightarrow> nat \<Rightarrow> nat" where
  "sw_group st keyHash probe =
     (let mask = length (sw_groups st) - 1; groupIdx = unat (sw_h1 keyHash) AND mask
      in (groupIdx + probe) AND mask)"

text \<open>The scan of one group for the key: an empty or deleted slot is skipped.\<close>

definition matching_slot :: "SwissTable \<Rightarrow> u64 \<Rightarrow> nat \<Rightarrow> nat option" where
  "matching_slot st keyHash gIdx =
     (let group = sw_groups st ! gIdx
      in find (\<lambda>i. let ctrl = group ! i
                   in ctrl \<noteq> emptySlot \<and> ctrl \<noteq> deletedSlot \<and> ctrl = sw_h2 keyHash \<and>
                      se_KeyHash (sw_entries st ! (gIdx * groupSize + i)) = keyHash) [0..<groupSize])"

fun find_probes :: "SwissTable \<Rightarrow> u64 \<Rightarrow> nat list \<Rightarrow> nat option" where
  "find_probes st keyHash [] = None"
| "find_probes st keyHash (probe # probes) =
     (let gIdx = sw_group st keyHash probe
      in case matching_slot st keyHash gIdx of
           Some i \<Rightarrow> Some (gIdx * groupSize + i)
         | None \<Rightarrow> if emptySlot \<in> set (sw_groups st ! gIdx) then None else find_probes st keyHash probes)"

definition sw_find :: "SwissTable \<Rightarrow> u64 \<Rightarrow> nat option" where
  "sw_find st keyHash =
     (let numGroups = length (sw_groups st)
      in if numGroups = 0 then None else find_probes st keyHash [0..<numGroups])"

text \<open>The loop that \<open>Insert\<close> and \<open>insertNoLock\<close> share: the first empty or deleted slot takes the entry.\<close>

definition free_slot :: "byte list \<Rightarrow> nat option" where
  "free_slot grp = find (\<lambda>i. let ctrl = grp ! i in ctrl = emptySlot \<or> ctrl = deletedSlot) [0..<groupSize]"

definition sw_put :: "SwissTable \<Rightarrow> nat \<Rightarrow> nat \<Rightarrow> u64 \<Rightarrow> int \<Rightarrow> SwissTable" where
  "sw_put st gIdx i keyHash cost =
     st\<lparr>sw_groups := (sw_groups st)[gIdx := (sw_groups st ! gIdx)[i := sw_h2 keyHash]],
        sw_entries := (sw_entries st)[gIdx * groupSize + i := \<lparr>se_KeyHash = keyHash, se_Cost = cost\<rparr>],
        sw_size := i64 (sw_size st + 1)\<rparr>"

fun insert_probes :: "SwissTable \<Rightarrow> u64 \<Rightarrow> int \<Rightarrow> nat list \<Rightarrow> SwissTable \<times> bool" where
  "insert_probes st keyHash cost [] = (st, False)"
| "insert_probes st keyHash cost (probe # probes) =
     (let gIdx = sw_group st keyHash probe
      in case free_slot (sw_groups st ! gIdx) of
           Some i \<Rightarrow> (sw_put st gIdx i keyHash cost, True)
         | None \<Rightarrow> insert_probes st keyHash cost probes)"

definition sw_insertNoLock :: "SwissTable \<Rightarrow> u64 \<Rightarrow> int \<Rightarrow> SwissTable" where
  "sw_insertNoLock st keyHash cost = fst (insert_probes st keyHash cost [0..<length (sw_groups st)])"

definition occupied :: "byte \<Rightarrow> bool" where
  "occupied ctrl \<longleftrightarrow> ctrl \<noteq> emptySlot \<and> ctrl \<noteq> deletedSlot"

text \<open>The entries of the occupied slots, in the order of the loops over groups and slots.\<close>

definition sw_occupied :: "SwissTable \<Rightarrow> SwissEntry list" where
  "sw_occupied st = concat (map (\<lambda>i. concat (map (\<lambda>j.
     if occupied (sw_groups st ! i ! j) then [sw_entries st ! (i * groupSize + j)] else []) [0..<groupSize]))
     [0..<length (sw_groups st)])"

definition sw_grow :: "SwissTable \<Rightarrow> SwissTable" where
  "sw_grow st =
     (let newCap = i64 (sw_cap st * 2);
          numGroups = newCap div int groupSize;
          new = \<lparr>sw_groups = empty_groups numGroups, sw_entries = replicate (nat newCap) zeroSwissEntry,
                 sw_size = 0, sw_cap = newCap\<rparr>
      in foldl (\<lambda>t entry. sw_insertNoLock t (se_KeyHash entry) (se_Cost entry)) new (sw_occupied st))"

definition sw_set_cost :: "SwissTable \<Rightarrow> nat \<Rightarrow> int \<Rightarrow> SwissTable" where
  "sw_set_cost st idx cost = st\<lparr>sw_entries := (sw_entries st)[idx := (sw_entries st ! idx)\<lparr>se_Cost := cost\<rparr>]\<rparr>"

definition sw_Insert :: "SwissTable \<Rightarrow> u64 \<Rightarrow> int \<Rightarrow> SwissTable \<times> bool" where
  "sw_Insert st keyHash cost =
     (case sw_find st keyHash of
        Some idx \<Rightarrow> (sw_set_cost st idx cost, False)
      | None \<Rightarrow>
          let st = (if 8 * i64 (sw_size st + 1) > 7 * sw_cap st then sw_grow st else st)
          in insert_probes st keyHash cost [0..<length (sw_groups st)])"

definition sw_Get :: "SwissTable \<Rightarrow> u64 \<Rightarrow> int \<times> bool" where
  "sw_Get st keyHash =
     (case sw_find st keyHash of Some idx \<Rightarrow> (se_Cost (sw_entries st ! idx), True) | None \<Rightarrow> (0, False))"

definition sw_Has :: "SwissTable \<Rightarrow> u64 \<Rightarrow> bool" where
  "sw_Has st keyHash \<longleftrightarrow> sw_find st keyHash \<noteq> None"

definition sw_Delete :: "SwissTable \<Rightarrow> u64 \<Rightarrow> SwissTable \<times> int \<times> bool" where
  "sw_Delete st keyHash =
     (case sw_find st keyHash of
        None \<Rightarrow> (st, 0, False)
      | Some idx \<Rightarrow>
          let cost = se_Cost (sw_entries st ! idx);
              groupIdx = idx div groupSize;
              slotIdx = idx mod groupSize
          in (st\<lparr>sw_groups := (sw_groups st)[groupIdx := (sw_groups st ! groupIdx)[slotIdx := deletedSlot]],
                 sw_entries := (sw_entries st)[idx := zeroSwissEntry],
                 sw_size := i64 (sw_size st - 1)\<rparr>, cost, True))"

definition sw_Update :: "SwissTable \<Rightarrow> u64 \<Rightarrow> int \<Rightarrow> SwissTable \<times> bool" where
  "sw_Update st keyHash cost =
     (case sw_find st keyHash of Some idx \<Rightarrow> (sw_set_cost st idx cost, True) | None \<Rightarrow> (st, False))"

definition sw_Clear :: "SwissTable \<Rightarrow> SwissTable" where
  "sw_Clear st =
     st\<lparr>sw_groups := map (map (\<lambda>_. emptySlot)) (sw_groups st),
        sw_entries := replicate (nat (sw_cap st)) zeroSwissEntry, sw_size := 0\<rparr>"

text \<open>
  \<open>Sample\<close> collects the first \<open>n\<close> occupied slots: once it has them, the remaining slots of the group
  are only counted and the loop over groups ends.
\<close>

definition sw_Sample :: "SwissTable \<Rightarrow> int \<Rightarrow> SwissEntry list" where
  "sw_Sample st n = (if n \<le> 0 \<or> sw_size st = 0 then [] else take (nat n) (sw_occupied st))"

text \<open>\<open>Range\<close> calls the function on the entries until it returns false; here the entries it is called on.\<close>

fun range_until :: "(SwissEntry \<Rightarrow> bool) \<Rightarrow> SwissEntry list \<Rightarrow> SwissEntry list" where
  "range_until fn [] = []"
| "range_until fn (entry # entries) = (if \<not> fn entry then [entry] else entry # range_until fn entries)"

definition sw_Range :: "SwissTable \<Rightarrow> (SwissEntry \<Rightarrow> bool) \<Rightarrow> SwissEntry list" where
  "sw_Range st fn = range_until fn (sw_occupied st)"

subsection \<open>Slots\<close>

definition sw_ctl :: "SwissTable \<Rightarrow> nat \<Rightarrow> byte" where
  "sw_ctl st idx = sw_groups st ! (idx div 16) ! (idx mod 16)"

definition sw_key :: "SwissTable \<Rightarrow> nat \<Rightarrow> u64" where
  "sw_key st idx = se_KeyHash (sw_entries st ! idx)"

definition sw_occ :: "SwissTable \<Rightarrow> nat \<Rightarrow> bool" where
  "sw_occ st idx \<longleftrightarrow> idx < 16 * length (sw_groups st) \<and> occupied (sw_ctl st idx)"

definition sw_shape :: "SwissTable \<Rightarrow> bool" where
  "sw_shape st \<longleftrightarrow> (\<exists>k. length (sw_groups st) = 2 ^ k) \<and> (\<forall>grp \<in> set (sw_groups st). length grp = 16) \<and>
     length (sw_entries st) = 16 * length (sw_groups st) \<and> sw_cap st = 16 * int (length (sw_groups st))"

text \<open>An entry is reached from the group of its hash through groups without an empty slot.\<close>

definition sw_reached :: "SwissTable \<Rightarrow> nat \<Rightarrow> bool" where
  "sw_reached st idx \<longleftrightarrow> (\<exists>d < length (sw_groups st). idx div 16 = sw_group st (sw_key st idx) d \<and>
     (\<forall>p < d. emptySlot \<notin> set (sw_groups st ! sw_group st (sw_key st idx) p)))"

definition sw_inv :: "SwissTable \<Rightarrow> bool" where
  "sw_inv st \<longleftrightarrow> sw_shape st \<and> sw_size st = int (card {idx. sw_occ st idx}) \<and>
     (\<forall>idx. sw_occ st idx \<longrightarrow> sw_ctl st idx = sw_h2 (sw_key st idx) \<and> sw_reached st idx) \<and>
     inj_on (sw_key st) {idx. sw_occ st idx}"

lemma sw_h2_bits: "bit (sw_h2 h) 7 = False"
  by (simp add: sw_h2_def h2Mask_def bit_simps)

lemma sw_h2_occupied [simp]: "occupied (sw_h2 h)"
proof -
  have "bit emptySlot 7" "bit deletedSlot 7" by code_simp+
  then show ?thesis using sw_h2_bits [of h] by (auto simp: occupied_def)
qed

lemma sw_group_mod:
  assumes "sw_shape st"
  shows "sw_group st h p = (unat (sw_h1 h) + p) mod length (sw_groups st)"
proof -
  from assms obtain k where k: "length (sw_groups st) = 2 ^ k" by (auto simp: sw_shape_def)
  have m: "x AND (2 ^ k - 1) = x mod 2 ^ k" for x :: nat
    by (simp only: take_bit_eq_mod [symmetric] take_bit_eq_mask mask_eq_exp_minus_1)
  show ?thesis unfolding sw_group_def Let_def k m by (simp add: mod_add_left_eq)
qed

lemma sw_groups_pos: "sw_shape st \<Longrightarrow> 0 < length (sw_groups st)"
  by (auto simp: sw_shape_def)

lemma sw_group_bound: "sw_shape st \<Longrightarrow> sw_group st h p < length (sw_groups st)"
  using sw_groups_pos [of st] by (simp add: sw_group_mod)

lemma sw_group_onto:
  assumes "sw_shape st" "g < length (sw_groups st)"
  shows "\<exists>p < length (sw_groups st). sw_group st h p = g"
proof -
  let ?n = "length (sw_groups st)" and ?a = "unat (sw_h1 h) mod length (sw_groups st)"
  have a: "?a < ?n" using sw_groups_pos [OF assms(1)] by simp
  have "(?a + (g + ?n - ?a)) mod ?n = g" using a assms(2) by simp
  then have "(unat (sw_h1 h) + (g + ?n - ?a) mod ?n) mod ?n = g" by (metis mod_add_left_eq mod_add_right_eq)
  moreover have "(g + ?n - ?a) mod ?n < ?n" by (rule mod_less_divisor [OF sw_groups_pos [OF assms(1)]])
  ultimately show ?thesis by (intro exI [of _ "(g + ?n - ?a) mod ?n"]) (simp add: sw_group_mod [OF assms(1)])
qed

lemma slot_parts [simp]: "i < 16 \<Longrightarrow> (g * 16 + i) div 16 = g" "i < 16 \<Longrightarrow> (g * 16 + i) mod 16 = (i :: nat)"
  by simp_all

lemma slot_bound: "g < n \<Longrightarrow> i < 16 \<Longrightarrow> g * 16 + i < 16 * (n :: nat)"
  by presburger

lemma slot_bound_div: "idx < 16 * n \<Longrightarrow> idx div 16 < (n :: nat)"
  by (simp add: less_mult_imp_div_less mult.commute)

lemma sw_grp_length: "sw_shape st \<Longrightarrow> g < length (sw_groups st) \<Longrightarrow> length (sw_groups st ! g) = 16"
  by (simp add: sw_shape_def)

subsection \<open>Searching\<close>

lemma matching_slot_some:
  assumes "matching_slot st h g = Some i"
  shows "i < 16" "occupied (sw_ctl st (g * 16 + i))" "sw_key st (g * 16 + i) = h"
  using assms by (auto simp: matching_slot_def Let_def groupSize_def find_Some_iff occupied_def sw_ctl_def sw_key_def)

lemma matching_slot_none:
  assumes "matching_slot st h g = None" "i < 16" "occupied (sw_ctl st (g * 16 + i))" "sw_ctl st (g * 16 + i) = sw_h2 h"
  shows "sw_key st (g * 16 + i) \<noteq> h"
  using assms by (auto simp: matching_slot_def Let_def groupSize_def find_None_iff occupied_def sw_ctl_def sw_key_def)

lemma find_probes_some:
  assumes "sw_shape st" "find_probes st h ps = Some idx"
  shows "sw_occ st idx \<and> sw_key st idx = h"
  using assms(2)
proof (induction ps)
  case (Cons p ps)
  show ?case
  proof (cases "matching_slot st h (sw_group st h p)")
    case None
    with Cons show ?thesis by (auto simp: Let_def split: if_splits)
  next
    case (Some i)
    note m = matching_slot_some [OF Some]
    from Cons.prems Some have "idx = sw_group st h p * 16 + i" by (simp add: groupSize_def Let_def)
    with m slot_bound [OF sw_group_bound [OF assms(1), of h p] m(1)] show ?thesis by (simp add: sw_occ_def)
  qed
qed simp

lemma find_probes_reaches:
  assumes "\<forall>p \<in> set ps. emptySlot \<notin> set (sw_groups st ! sw_group st h p)" "matching_slot st h (sw_group st h d) \<noteq> None"
  shows "find_probes st h (ps @ d # qs) \<noteq> None"
  using assms by (induction ps) (auto simp: Let_def split: option.split)

lemma upt_split: "d < n \<Longrightarrow> [0..<n] = [0..<d] @ d # [Suc d..<n]"
  using upt_add_eq_append [of 0 d "n - d"] by (simp add: upt_conv_Cons)

text \<open>The search finds exactly the slot that holds the key.\<close>

lemma sw_find_iff:
  assumes "sw_inv st"
  shows "sw_find st h = Some idx \<longleftrightarrow> sw_occ st idx \<and> sw_key st idx = h"
proof
  from assms have s: "sw_shape st" by (simp add: sw_inv_def)
  show "sw_find st h = Some idx \<Longrightarrow> sw_occ st idx \<and> sw_key st idx = h"
    using find_probes_some [OF s] by (auto simp: sw_find_def Let_def split: if_splits)
  assume o: "sw_occ st idx \<and> sw_key st idx = h"
  with assms obtain d where d: "d < length (sw_groups st)" "idx div 16 = sw_group st h d"
    "\<forall>p < d. emptySlot \<notin> set (sw_groups st ! sw_group st h p)" and c: "sw_ctl st idx = sw_h2 h"
    by (auto simp: sw_inv_def sw_reached_def)
  have "matching_slot st h (sw_group st h d) \<noteq> None"
  proof
    assume "matching_slot st h (sw_group st h d) = None"
    from matching_slot_none [OF this, of "idx mod 16"] o c d(2) show False
      by (metis div_mult_mod_eq mod_less_divisor sw_occ_def zero_less_numeral)
  qed
  with d(3) have "find_probes st h [0..<length (sw_groups st)] \<noteq> None"
    unfolding upt_split [OF d(1)] by (intro find_probes_reaches) auto
  then have "sw_find st h \<noteq> None" using d(1) by (auto simp: sw_find_def Let_def)
  then obtain j where j: "sw_find st h = Some j" by auto
  with find_probes_some [OF s, of h "[0..<length (sw_groups st)]" j] have "sw_occ st j" "sw_key st j = h"
    by (auto simp: sw_find_def Let_def split: if_splits)
  with o assms have "j = idx" by (auto simp: sw_inv_def inj_on_def)
  with j show "sw_find st h = Some idx" by simp
qed

lemma sw_find_none: "sw_inv st \<Longrightarrow> sw_find st h = None \<longleftrightarrow> (\<forall>idx. sw_occ st idx \<longrightarrow> sw_key st idx \<noteq> h)"
  using sw_find_iff [of st h] by (metis not_None_eq)

subsection \<open>Writing a slot\<close>

definition sw_write :: "SwissTable \<Rightarrow> nat \<Rightarrow> byte \<Rightarrow> SwissEntry \<Rightarrow> int \<Rightarrow> SwissTable" where
  "sw_write st idx b e sz =
     st\<lparr>sw_groups := (sw_groups st)[idx div 16 := (sw_groups st ! (idx div 16))[idx mod 16 := b]],
        sw_entries := (sw_entries st)[idx := e], sw_size := sz\<rparr>"

lemma sw_put_write: "i < 16 \<Longrightarrow> sw_put st g i h c = sw_write st (g * 16 + i) (sw_h2 h) \<lparr>se_KeyHash = h, se_Cost = c\<rparr> (i64 (sw_size st + 1))"
  by (simp add: sw_put_def sw_write_def groupSize_def)

lemma sw_write_length [simp]: "length (sw_groups (sw_write st idx b e sz)) = length (sw_groups st)"
  "sw_cap (sw_write st idx b e sz) = sw_cap st" "sw_size (sw_write st idx b e sz) = sz"
  "sw_group (sw_write st idx b e sz) = sw_group st"
  by (simp_all add: sw_write_def sw_group_def fun_eq_iff)

lemma sw_write_shape: "sw_shape st \<Longrightarrow> idx < 16 * length (sw_groups st) \<Longrightarrow> sw_shape (sw_write st idx b e sz)"
  using slot_bound_div [of idx "length (sw_groups st)"]
  by (auto simp: sw_shape_def sw_write_def dest!: set_update_subset_insert [THEN subsetD])

lemma sw_write_ctl:
  assumes "sw_shape st" "idx < 16 * length (sw_groups st)" "j < 16 * length (sw_groups st)"
  shows "sw_ctl (sw_write st idx b e sz) j = (if j = idx then b else sw_ctl st j)"
proof -
  have l: "idx div 16 < length (sw_groups st)" using slot_bound_div assms(2) .
  note g = sw_grp_length [OF assms(1) l]
  have "j = idx \<longleftrightarrow> j div 16 = idx div 16 \<and> j mod 16 = idx mod 16" by (metis div_mult_mod_eq)
  with l g show ?thesis by (cases "j div 16 = idx div 16") (auto simp: sw_ctl_def sw_write_def)
qed

lemma sw_write_entry:
  assumes "sw_shape st" "idx < 16 * length (sw_groups st)"
  shows "sw_entries (sw_write st idx b e sz) ! j = (if j = idx then e else sw_entries st ! j)"
    "sw_key (sw_write st idx b e sz) j = (if j = idx then se_KeyHash e else sw_key st j)"
  using assms by (auto simp: sw_write_def sw_shape_def sw_key_def)

lemma sw_write_occ:
  assumes "sw_shape st" "idx < 16 * length (sw_groups st)"
  shows "sw_occ (sw_write st idx b e sz) j \<longleftrightarrow> (if j = idx then occupied b else sw_occ st j)"
  using assms sw_write_ctl [OF assms] by (auto simp: sw_occ_def)

text \<open>A write of a control byte other than the empty one leaves every entry reached.\<close>

lemma sw_write_empties:
  assumes "sw_shape st" "idx < 16 * length (sw_groups st)" "b \<noteq> emptySlot" "emptySlot \<notin> set (sw_groups st ! g)" "g < length (sw_groups st)"
  shows "emptySlot \<notin> set (sw_groups (sw_write st idx b e sz) ! g)"
  using assms(3,4,5) slot_bound_div [OF assms(2)]
  by (cases "g = idx div 16") (auto simp: sw_write_def dest!: set_update_subset_insert [THEN subsetD])

lemma sw_write_reached:
  assumes "sw_shape st" "idx < 16 * length (sw_groups st)" "b \<noteq> emptySlot" "sw_reached st j" "j \<noteq> idx"
  shows "sw_reached (sw_write st idx b e sz) j"
  using assms sw_write_entry(2) [OF assms(1,2), of b e sz j] sw_write_empties [OF assms(1-3)] sw_group_bound [OF assms(1)]
  unfolding sw_reached_def by (metis sw_write_length(1,4))

lemma finite_occ [simp]: "finite {idx. sw_occ st idx}"
  by (rule finite_subset [of _ "{..<16 * length (sw_groups st)}"]) (auto simp: sw_occ_def)

lemma occ_shape: "sw_inv st \<Longrightarrow> sw_shape st"
  by (simp add: sw_inv_def)

definition sw_map :: "SwissTable \<Rightarrow> (u64 \<rightharpoonup> int)" where
  "sw_map st h = map_option (\<lambda>idx. se_Cost (sw_entries st ! idx)) (sw_find st h)"

lemma sw_map_iff:
  assumes "sw_inv st"
  shows "sw_map st h = Some c \<longleftrightarrow> (\<exists>idx. sw_occ st idx \<and> sw_key st idx = h \<and> se_Cost (sw_entries st ! idx) = c)"
  using sw_find_iff [OF assms, of h] by (auto simp: sw_map_def)

lemma sw_map_none: "sw_inv st \<Longrightarrow> sw_map st h = None \<longleftrightarrow> (\<forall>idx. sw_occ st idx \<longrightarrow> sw_key st idx \<noteq> h)"
  using sw_find_none [of st h] by (simp add: sw_map_def)

lemma sw_dom: "sw_inv st \<Longrightarrow> dom (sw_map st) = sw_key st ` {idx. sw_occ st idx}"
  using sw_map_none by (auto simp: dom_def image_iff)

lemma sw_size_card: "sw_inv st \<Longrightarrow> sw_size st = int (card (dom (sw_map st)))"
  unfolding sw_dom by (simp add: card_image sw_inv_def)

lemma sw_size_bound: "sw_inv st \<Longrightarrow> sw_size st \<le> sw_cap st"
proof -
  assume i: "sw_inv st"
  have "card {idx. sw_occ st idx} \<le> card {..<16 * length (sw_groups st)}" by (rule card_mono) (auto simp: sw_occ_def)
  then show ?thesis using i by (auto simp: sw_inv_def sw_shape_def)
qed

lemma sw_map_at: "sw_inv st \<Longrightarrow> sw_occ st j \<Longrightarrow> sw_map st (sw_key st j) = Some (se_Cost (sw_entries st ! j))"
  by (auto simp: sw_map_iff)

lemma sw_map_slot: "sw_inv st \<Longrightarrow> sw_map st g \<noteq> None \<Longrightarrow> \<exists>j. sw_occ st j \<and> sw_key st j = g"
  by (auto simp: sw_map_iff)

text \<open>A table is the map with its occupied keys and costs.\<close>

lemma sw_map_eqI:
  assumes "sw_inv st" "\<And>j. sw_occ st j \<Longrightarrow> m (sw_key st j) = Some (se_Cost (sw_entries st ! j))"
    "\<And>g. m g \<noteq> None \<Longrightarrow> \<exists>j. sw_occ st j \<and> sw_key st j = g"
  shows "sw_map st = m"
proof
  fix g
  show "sw_map st g = m g"
  proof (cases "\<exists>j. sw_occ st j \<and> sw_key st j = g")
    case True
    with sw_map_at [OF assms(1)] assms(2) show ?thesis by metis
  next
    case False
    with assms(3) [of g] sw_map_slot [OF assms(1), of g] show ?thesis by metis
  qed
qed

subsection \<open>Inserting into a free slot\<close>

lemma write_new:
  fixes c :: int
  assumes i: "sw_inv st" and idx: "idx < 16 * length (sw_groups st)" "\<not> sw_occ st idx" and h: "sw_map st h = None"
    and r: "d < length (sw_groups st)" "idx div 16 = sw_group st h d"
      "\<forall>p < d. emptySlot \<notin> set (sw_groups st ! sw_group st h p)"
    and sz: "sw_cap st < 2 ^ 62"
  defines "st' \<equiv> sw_write st idx (sw_h2 h) \<lparr>se_KeyHash = h, se_Cost = c\<rparr> (i64 (sw_size st + 1))"
  shows "sw_inv st'" "sw_map st' = (sw_map st)(h \<mapsto> c)" "sw_size st' = sw_size st + 1"
proof -
  note s = occ_shape [OF i]
  have b: "occupied (sw_h2 h)" "sw_h2 h \<noteq> emptySlot" using sw_h2_occupied [of h] by (auto simp: occupied_def simp del: sw_h2_occupied)
  have occ: "sw_occ st' j \<longleftrightarrow> j = idx \<or> sw_occ st j" for j
    using sw_write_occ [OF s idx(1)] b(1) by (simp add: st'_def)
  have key: "sw_key st' j = (if j = idx then h else sw_key st j)"
    "se_Cost (sw_entries st' ! j) = (if j = idx then c else se_Cost (sw_entries st ! j))" for j
    using sw_write_entry [OF s idx(1)] by (simp_all add: st'_def)
  have nh: "sw_occ st j \<Longrightarrow> sw_key st j \<noteq> h" for j using sw_map_none [OF i] h by blast
  have S: "{j. sw_occ st' j} = insert idx {j. sw_occ st j}" using occ by auto
  have "sw_size st \<le> sw_cap st" by (rule sw_size_bound [OF i])
  moreover have "0 \<le> sw_size st" using i by (simp add: sw_inv_def)
  ultimately show sz': "sw_size st' = sw_size st + 1" using sz by (simp add: st'_def i64_id)
  have reach: "sw_reached st' idx"
    using r sw_write_empties [OF s idx(1) b(2)] sw_group_bound [OF s]
    unfolding sw_reached_def key by (auto simp: st'_def)
  show inv: "sw_inv st'" unfolding sw_inv_def
  proof (intro conjI allI impI)
    show "sw_shape st'" unfolding st'_def by (rule sw_write_shape [OF s idx(1)])
    show "sw_size st' = int (card {j. sw_occ st' j})" using i idx(2) by (simp add: S sz' sw_inv_def)
    show "inj_on (sw_key st') {j. sw_occ st' j}"
      using i nh idx(2) by (auto simp: S key inj_on_def sw_inv_def)
    fix j assume j: "sw_occ st' j"
    then have l: "j < 16 * length (sw_groups st)" by (simp add: sw_occ_def st'_def)
    show "sw_ctl st' j = sw_h2 (sw_key st' j)"
      using j i occ sw_write_ctl [OF s idx(1) l] key by (auto simp: st'_def sw_inv_def)
    show "sw_reached st' j"
      using j i occ reach sw_write_reached [OF s idx(1) b(2)] unfolding sw_inv_def st'_def by metis
  qed
  show "sw_map st' = (sw_map st)(h \<mapsto> c)"
  proof (rule sw_map_eqI [OF inv])
    show "sw_occ st' j \<Longrightarrow> ((sw_map st)(h \<mapsto> c)) (sw_key st' j) = Some (se_Cost (sw_entries st' ! j))" for j
      using nh [of j] sw_map_at [OF i, of j] by (auto simp: occ key)
    show "((sw_map st)(h \<mapsto> c)) g \<noteq> None \<Longrightarrow> \<exists>j. sw_occ st' j \<and> sw_key st' j = g" for g
      using sw_map_slot [OF i, of g] idx(2) by (cases "g = h") (auto simp: occ key)
  qed
qed

lemma free_slot_some: "free_slot grp = Some i \<Longrightarrow> i < 16 \<and> \<not> occupied (grp ! i)"
  by (auto simp: free_slot_def Let_def groupSize_def find_Some_iff occupied_def)

lemma free_slot_none:
  assumes "free_slot grp = None"
  shows "i < 16 \<Longrightarrow> occupied (grp ! i)" "length grp = 16 \<Longrightarrow> emptySlot \<notin> set grp"
proof -
  from assms have "\<forall>i < 16. occupied (grp ! i)"
    by (auto simp: free_slot_def Let_def groupSize_def find_None_iff occupied_def)
  then show "i < 16 \<Longrightarrow> occupied (grp ! i)" "length grp = 16 \<Longrightarrow> emptySlot \<notin> set grp"
    by (auto simp: in_set_conv_nth occupied_def)
qed

lemma insert_probes_cases:
  "(\<exists>ps1 p ps2 i. ps = ps1 @ p # ps2 \<and> (\<forall>q \<in> set ps1. free_slot (sw_groups st ! sw_group st h q) = None) \<and>
      free_slot (sw_groups st ! sw_group st h p) = Some i \<and>
      insert_probes st h c ps = (sw_put st (sw_group st h p) i h c, True)) \<or>
   (\<forall>q \<in> set ps. free_slot (sw_groups st ! sw_group st h q) = None)"
proof (induction ps)
  case (Cons p ps)
  show ?case
  proof (cases "free_slot (sw_groups st ! sw_group st h p)")
    case None
    from Cons.IH show ?thesis
    proof
      assume "\<forall>q \<in> set ps. free_slot (sw_groups st ! sw_group st h q) = None"
      with None show ?thesis by simp
    next
      assume "\<exists>ps1 q ps2 i. ps = ps1 @ q # ps2 \<and> (\<forall>q \<in> set ps1. free_slot (sw_groups st ! sw_group st h q) = None) \<and>
        free_slot (sw_groups st ! sw_group st h q) = Some i \<and> insert_probes st h c ps = (sw_put st (sw_group st h q) i h c, True)"
      then obtain ps1 q ps2 i where "ps = ps1 @ q # ps2" "\<forall>q \<in> set ps1. free_slot (sw_groups st ! sw_group st h q) = None"
        "free_slot (sw_groups st ! sw_group st h q) = Some i" "insert_probes st h c ps = (sw_put st (sw_group st h q) i h c, True)" by blast
      with None show ?thesis
        by (intro disjI1 exI [of _ "p # ps1"] exI [of _ q] exI [of _ ps2] exI [of _ i]) (simp add: Let_def)
    qed
  next
    case (Some i)
    then show ?thesis by (auto simp: Let_def intro!: exI [of _ "[] :: nat list"])
  qed
qed simp

lemma upt_eq_split: "[0..<n] = xs @ p # ys \<Longrightarrow> p < n \<and> set xs = {..<p}"
proof -
  assume e: "[0..<n] = xs @ p # ys"
  then have l: "length xs < n" by (metis length_append length_upt diff_zero length_Cons less_add_Suc1 add_Suc_right)
  from arg_cong [OF e, of "\<lambda>l. l ! length xs"] l have "p = length xs" by simp
  moreover from arg_cong [OF e, of "take (length xs)"] l have "xs = [0..<length xs]" by (simp add: take_upt)
  ultimately show ?thesis using l by (metis atLeast0LessThan set_upt)
qed

text \<open>As long as a slot is not occupied, the insertion of a new key finds one.\<close>

lemma insert_probes_new:
  assumes i: "sw_inv st" and h: "sw_map st h = None" and room: "sw_size st < sw_cap st" and sz: "sw_cap st < 2 ^ 62"
  shows "\<exists>st'. insert_probes st h c [0..<length (sw_groups st)] = (st', True) \<and> sw_inv st' \<and>
    sw_map st' = (sw_map st)(h \<mapsto> c) \<and> sw_size st' = sw_size st + 1 \<and> sw_cap st' = sw_cap st \<and>
    length (sw_groups st') = length (sw_groups st)"
proof -
  note s = occ_shape [OF i]
  let ?n = "length (sw_groups st)"
  have "\<not> (\<forall>q \<in> set [0..<?n]. free_slot (sw_groups st ! sw_group st h q) = None)"
  proof
    assume all: "\<forall>q \<in> set [0..<?n]. free_slot (sw_groups st ! sw_group st h q) = None"
    have "sw_occ st idx" if "idx < 16 * ?n" for idx
    proof -
      from sw_group_onto [OF s slot_bound_div [OF that], of h] all have "free_slot (sw_groups st ! (idx div 16)) = None"
        by (metis atLeast0LessThan lessThan_iff set_upt)
      from free_slot_none(1) [OF this, of "idx mod 16"] that show ?thesis by (simp add: sw_occ_def sw_ctl_def)
    qed
    then have "{idx. sw_occ st idx} = {..<16 * ?n}" by (auto simp: sw_occ_def)
    with i room show False by (simp add: sw_inv_def sw_shape_def)
  qed
  then obtain ps1 p ps2 j where e: "[0..<?n] = ps1 @ p # ps2" and none: "\<forall>q \<in> set ps1. free_slot (sw_groups st ! sw_group st h q) = None"
    and f: "free_slot (sw_groups st ! sw_group st h p) = Some j"
    and r: "insert_probes st h c [0..<?n] = (sw_put st (sw_group st h p) j h c, True)"
    using insert_probes_cases [of "[0..<?n]" st h c] by blast
  let ?idx = "sw_group st h p * 16 + j"
  from free_slot_some [OF f] have j: "j < 16" "\<not> occupied (sw_groups st ! sw_group st h p ! j)" by auto
  have idx: "?idx < 16 * ?n" by (rule slot_bound [OF sw_group_bound [OF s] j(1)])
  have free: "\<not> sw_occ st ?idx" using j by (simp add: sw_occ_def sw_ctl_def)
  have "\<forall>q < p. emptySlot \<notin> set (sw_groups st ! sw_group st h q)"
    using none upt_eq_split [OF e] free_slot_none(2) sw_grp_length [OF s sw_group_bound [OF s]] by blast
  from write_new [OF i idx free h _ _ this sz, of c] upt_eq_split [OF e] j(1) show ?thesis
    unfolding r by (simp add: sw_put_write)
qed

subsection \<open>Overwriting, deleting and clearing\<close>

lemma set_cost_spec:
  assumes i: "sw_inv st" and f: "sw_find st h = Some idx"
  shows "sw_inv (sw_set_cost st idx c)" "sw_map (sw_set_cost st idx c) = (sw_map st)(h \<mapsto> c)"
proof -
  let ?st = "sw_set_cost st idx c"
  from f i have o: "sw_occ st idx" "sw_key st idx = h" by (auto simp: sw_find_iff)
  then have l: "idx < length (sw_entries st)" using i by (simp add: sw_inv_def sw_shape_def sw_occ_def)
  have [simp]: "sw_groups ?st = sw_groups st" "sw_group ?st = sw_group st" "sw_size ?st = sw_size st"
    by (simp_all add: sw_set_cost_def sw_group_def fun_eq_iff)
  have key: "sw_key ?st = sw_key st" "se_Cost (sw_entries ?st ! j) = (if j = idx then c else se_Cost (sw_entries st ! j))" for j
    using l by (auto simp: sw_set_cost_def sw_key_def fun_eq_iff nth_list_update)
  have occ: "sw_occ ?st = sw_occ st" "sw_ctl ?st = sw_ctl st" "sw_reached ?st = sw_reached st"
    by (simp_all add: sw_occ_def sw_ctl_def sw_reached_def key fun_eq_iff)
  have "sw_shape ?st" using i by (simp add: sw_inv_def sw_shape_def sw_set_cost_def)
  with i show inv: "sw_inv ?st" by (simp add: sw_inv_def occ key)
  have uniq: "sw_occ st j \<Longrightarrow> sw_key st j = h \<Longrightarrow> j = idx" for j using i o by (auto simp: sw_inv_def inj_on_def)
  show "sw_map ?st = (sw_map st)(h \<mapsto> c)"
  proof (rule sw_map_eqI [OF inv])
    show "sw_occ ?st j \<Longrightarrow> ((sw_map st)(h \<mapsto> c)) (sw_key ?st j) = Some (se_Cost (sw_entries ?st ! j))" for j
      using uniq [of j] o(2) sw_map_at [OF i, of j] by (cases "sw_key st j = h"; simp add: occ key; metis)
    show "((sw_map st)(h \<mapsto> c)) g \<noteq> None \<Longrightarrow> \<exists>j. sw_occ ?st j \<and> sw_key ?st j = g" for g
      using sw_map_slot [OF i, of g] o by (cases "g = h") (auto simp: occ key)
  qed
qed

lemma sw_Update_spec:
  assumes "sw_inv st"
  shows "sw_inv (fst (sw_Update st h c))" "snd (sw_Update st h c) \<longleftrightarrow> sw_map st h \<noteq> None"
    "sw_map (fst (sw_Update st h c)) = (if sw_map st h = None then sw_map st else (sw_map st)(h \<mapsto> c))"
  using set_cost_spec [OF assms] assms by (auto simp: sw_Update_def sw_map_def split: option.split)

lemma sw_Delete_spec:
  assumes i: "sw_inv st" "sw_cap st < 2 ^ 62"
  shows "sw_inv (fst (sw_Delete st h))" "sw_map (fst (sw_Delete st h)) = (sw_map st)(h := None)"
    "snd (sw_Delete st h) = (case sw_map st h of None \<Rightarrow> (0, False) | Some c \<Rightarrow> (c, True))"
    "sw_cap (fst (sw_Delete st h)) = sw_cap st" "sw_size (fst (sw_Delete st h)) \<le> sw_size st"
proof -
  note s = occ_shape [OF i(1)]
  have "sw_inv (fst (sw_Delete st h)) \<and> sw_map (fst (sw_Delete st h)) = (sw_map st)(h := None) \<and>
    sw_cap (fst (sw_Delete st h)) = sw_cap st \<and> sw_size (fst (sw_Delete st h)) \<le> sw_size st"
  proof (cases "sw_find st h")
    case None
    then have "sw_map st h = None" by (simp add: sw_map_def)
    with None i show ?thesis by (simp add: sw_Delete_def fun_upd_idem)
  next
    case (Some idx)
    define st' where "st' = sw_write st idx deletedSlot zeroSwissEntry (i64 (sw_size st - 1))"
    have st': "fst (sw_Delete st h) = st'" by (simp add: sw_Delete_def Some Let_def st'_def sw_write_def groupSize_def)
    from Some i have o: "sw_occ st idx" "sw_key st idx = h" by (auto simp: sw_find_iff)
    then have idx: "idx < 16 * length (sw_groups st)" by (simp add: sw_occ_def)
    have b: "deletedSlot \<noteq> emptySlot" "\<not> occupied deletedSlot" by (simp_all add: deletedSlot_def emptySlot_def occupied_def)
    have occ: "sw_occ st' j \<longleftrightarrow> j \<noteq> idx \<and> sw_occ st j" for j
      using sw_write_occ [OF s idx] b(2) by (auto simp: st'_def)
    have key: "sw_key st' j = sw_key st j" "sw_entries st' ! j = sw_entries st ! j" if "j \<noteq> idx" for j
      using that sw_write_entry [OF s idx] by (simp_all add: st'_def)
    have S: "{j. sw_occ st' j} = {j. sw_occ st j} - {idx}" using occ by auto
    have pos: "0 < card {j. sw_occ st j}" using o(1) by (auto simp: card_gt_0_iff)
    have "sw_size st \<le> sw_cap st" by (rule sw_size_bound [OF i(1)])
    with i pos have sz: "sw_size st' = sw_size st - 1" by (simp add: st'_def sw_inv_def i64_id)
    have inv: "sw_inv st'" unfolding sw_inv_def
    proof (intro conjI allI impI)
      show "sw_shape st'" unfolding st'_def by (rule sw_write_shape [OF s idx])
      show "sw_size st' = int (card {j. sw_occ st' j})"
        using i(1) pos o(1) by (simp add: S sz sw_inv_def card_Diff_singleton of_nat_diff)
      show "inj_on (sw_key st') {j. sw_occ st' j}" using i(1) key by (auto simp: S inj_on_def sw_inv_def)
      fix j assume "sw_occ st' j"
      then have j: "j \<noteq> idx" "sw_occ st j" using occ by auto
      then have l: "j < 16 * length (sw_groups st)" by (simp add: sw_occ_def)
      show "sw_ctl st' j = sw_h2 (sw_key st' j)"
        using j i(1) sw_write_ctl [OF s idx l] key by (auto simp: st'_def sw_inv_def)
      show "sw_reached st' j" using j i(1) sw_write_reached [OF s idx b(1)] unfolding sw_inv_def st'_def by blast
    qed
    have uniq: "sw_occ st j \<Longrightarrow> sw_key st j = h \<Longrightarrow> j = idx" for j using i(1) o by (auto simp: sw_inv_def inj_on_def)
    have "sw_map st' = (sw_map st)(h := None)"
    proof (rule sw_map_eqI [OF inv])
      show "sw_occ st' j \<Longrightarrow> ((sw_map st)(h := None)) (sw_key st' j) = Some (se_Cost (sw_entries st' ! j))" for j
        using uniq [of j] key [of j] sw_map_at [OF i(1), of j] by (auto simp: occ)
      show "((sw_map st)(h := None)) g \<noteq> None \<Longrightarrow> \<exists>j. sw_occ st' j \<and> sw_key st' j = g" for g
      proof -
        assume "((sw_map st)(h := None)) g \<noteq> None"
        with sw_map_slot [OF i(1), of g] obtain j where "sw_occ st j" "sw_key st j = g" "g \<noteq> h" by (auto split: if_splits)
        with o key [of j] show "\<exists>j. sw_occ st' j \<and> sw_key st' j = g" unfolding occ by metis
      qed
    qed
    with inv sz show ?thesis unfolding st' by (simp add: st'_def)
  qed
  then show "sw_inv (fst (sw_Delete st h))" "sw_map (fst (sw_Delete st h)) = (sw_map st)(h := None)"
    "sw_cap (fst (sw_Delete st h)) = sw_cap st" "sw_size (fst (sw_Delete st h)) \<le> sw_size st" by blast+
  show "snd (sw_Delete st h) = (case sw_map st h of None \<Rightarrow> (0, False) | Some c \<Rightarrow> (c, True))"
    by (simp add: sw_Delete_def sw_map_def Let_def split: option.split)
qed

subsection \<open>New, cleared and grown tables\<close>

definition empty_table :: "nat \<Rightarrow> SwissTable" where
  "empty_table n = \<lparr>sw_groups = replicate n (replicate 16 emptySlot), sw_entries = replicate (16 * n) zeroSwissEntry,
     sw_size = 0, sw_cap = 16 * int n\<rparr>"

lemma empty_table_inv: "sw_inv (empty_table (2 ^ k))" "sw_map (empty_table (2 ^ k)) = Map.empty"
proof -
  have o: "\<not> sw_occ (empty_table (2 ^ k)) idx" for idx
    using slot_bound_div [of idx "2 ^ k"] by (auto simp: sw_occ_def empty_table_def sw_ctl_def occupied_def)
  show i: "sw_inv (empty_table (2 ^ k))" by (auto simp: sw_inv_def o) (auto simp: empty_table_def sw_shape_def)
  show "sw_map (empty_table (2 ^ k)) = Map.empty" using sw_map_none [OF i] o by (intro ext) auto
qed

lemma sw_Clear_spec:
  assumes "sw_inv st"
  shows "sw_inv (sw_Clear st)" "sw_map (sw_Clear st) = Map.empty" "sw_cap (sw_Clear st) = sw_cap st"
proof -
  from assms obtain k where k: "length (sw_groups st) = 2 ^ k" "sw_cap st = 16 * int (2 ^ k)"
    "\<forall>grp \<in> set (sw_groups st). length grp = 16" by (auto simp: sw_inv_def sw_shape_def)
  then have "map (map (\<lambda>_. emptySlot)) (sw_groups st) = replicate (2 ^ k) (replicate 16 emptySlot)"
    by (intro nth_equalityI) (auto simp: map_replicate_const)
  moreover have "nat (16 * int (2 ^ k)) = 16 * 2 ^ k" by (simp add: nat_mult_distrib nat_power_eq)
  ultimately have "sw_Clear st = empty_table (2 ^ k)" using k by (simp add: sw_Clear_def empty_table_def)
  then show "sw_inv (sw_Clear st)" "sw_map (sw_Clear st) = Map.empty" using empty_table_inv by simp_all
  show "sw_cap (sw_Clear st) = sw_cap st" by (simp add: sw_Clear_def)
qed

lemma concat_if: "concat (map (\<lambda>j. if P j then [f j] else []) xs) = map f (filter P xs)"
  by (induction xs) auto

lemma concat_slots:
  "concat (map (\<lambda>i. concat (map (\<lambda>j. if P (i * 16 + j) then [f (i * 16 + j)] else []) [0..<16])) [0..<n]) =
   map f (filter P [0..<16 * n])"
proof (induction n)
  case (Suc n)
  have "[0..<16 * Suc n] = [0..<16 * n] @ map (\<lambda>j. n * 16 + j) [0..<16]"
    using upt_add_eq_append [of 0 "16 * n" 16] map_add_upt [of "n * 16" 16] by (simp add: mult.commute add.commute del: upt_Suc)
  moreover have "concat (map (\<lambda>j. if P (n * 16 + j) then [f (n * 16 + j)] else []) [0..<16]) =
      map f (filter P (map (\<lambda>j. n * 16 + j) [0..<16]))"
    using concat_if [of P f "map (\<lambda>j. n * 16 + j) [0..<16]"] by (simp add: comp_def del: upt_Suc)
  ultimately show ?case using Suc by (simp add: upt_Suc_append del: upt_Suc)
qed simp

lemma sw_occupied_slots:
  "sw_occupied st = map (\<lambda>idx. sw_entries st ! idx) (filter (sw_occ st) [0..<16 * length (sw_groups st)])"
proof -
  have "sw_occupied st = concat (map (\<lambda>i. concat (map (\<lambda>j. if occupied (sw_ctl st (i * 16 + j)) then [sw_entries st ! (i * 16 + j)] else []) [0..<16]))
     [0..<length (sw_groups st)])"
    unfolding sw_occupied_def groupSize_def
    by (intro arg_cong [where f = concat] map_cong refl) (simp add: sw_ctl_def)
  also have "\<dots> = map (\<lambda>idx. sw_entries st ! idx) (filter (\<lambda>idx. occupied (sw_ctl st idx)) [0..<16 * length (sw_groups st)])"
    by (rule concat_slots)
  also have "filter (\<lambda>idx. occupied (sw_ctl st idx)) [0..<16 * length (sw_groups st)] = filter (sw_occ st) [0..<16 * length (sw_groups st)]"
    by (intro filter_cong) (auto simp: sw_occ_def)
  finally show ?thesis .
qed

text \<open>The occupied slots list the map: every key once, with its cost.\<close>

definition sw_pairs :: "SwissEntry list \<Rightarrow> (u64 \<times> int) list" where
  "sw_pairs es = map (\<lambda>e. (se_KeyHash e, se_Cost e)) es"

lemma sw_occupied_map:
  assumes "sw_inv st"
  shows "distinct (map se_KeyHash (sw_occupied st))" "map_of (sw_pairs (sw_occupied st)) = sw_map st"
    "int (length (sw_occupied st)) = sw_size st"
proof -
  let ?is = "filter (sw_occ st) [0..<16 * length (sw_groups st)]"
  have S: "set ?is = {idx. sw_occ st idx}" by (auto simp: sw_occ_def)
  show d: "distinct (map se_KeyHash (sw_occupied st))"
  proof -
    have "inj_on (\<lambda>idx. se_KeyHash (sw_entries st ! idx)) (set ?is)" unfolding S
      using assms by (simp add: sw_inv_def sw_key_def [abs_def])
    then show ?thesis by (simp add: sw_occupied_slots distinct_map comp_def)
  qed
  show "map_of (sw_pairs (sw_occupied st)) = sw_map st"
  proof (rule sw_map_eqI [OF assms, symmetric])
    have d': "distinct (map fst (sw_pairs (sw_occupied st)))" using d by (simp add: sw_pairs_def comp_def)
    fix j assume "sw_occ st j"
    then have "sw_entries st ! j \<in> set (sw_occupied st)" using S by (auto simp: sw_occupied_slots)
    then show "map_of (sw_pairs (sw_occupied st)) (sw_key st j) = Some (se_Cost (sw_entries st ! j))"
      by (intro map_of_is_SomeI [OF d']) (auto simp: sw_pairs_def sw_key_def)
  next
    fix g assume "map_of (sw_pairs (sw_occupied st)) g \<noteq> None"
    then show "\<exists>j. sw_occ st j \<and> sw_key st j = g"
      by (auto simp: map_of_eq_None_iff sw_pairs_def sw_occupied_slots sw_key_def)
  qed
  have "length (sw_occupied st) = card (set ?is)" by (subst distinct_card) (simp_all add: sw_occupied_slots)
  then show "int (length (sw_occupied st)) = sw_size st" unfolding S using assms by (simp add: sw_inv_def)
qed

lemma reinsert_all:
  assumes "sw_inv t" "sw_cap t < 2 ^ 62" "distinct (map se_KeyHash es)" "\<forall>e \<in> set es. sw_map t (se_KeyHash e) = None"
    "sw_size t + int (length es) \<le> sw_cap t"
  shows "let t' = foldl (\<lambda>t e. sw_insertNoLock t (se_KeyHash e) (se_Cost e)) t es
    in sw_inv t' \<and> sw_map t' = sw_map t ++ map_of (sw_pairs es) \<and> sw_size t' = sw_size t + int (length es) \<and> sw_cap t' = sw_cap t"
  using assms
proof (induction es arbitrary: t)
  case (Cons e es)
  let ?t = "sw_insertNoLock t (se_KeyHash e) (se_Cost e)"
  from insert_probes_new [OF Cons.prems(1), of "se_KeyHash e" "se_Cost e"] Cons.prems
  have t: "sw_inv ?t" "sw_map ?t = (sw_map t)(se_KeyHash e \<mapsto> se_Cost e)" "sw_size ?t = sw_size t + 1" "sw_cap ?t = sw_cap t"
    by (auto simp: sw_insertNoLock_def)
  have "map_of (sw_pairs es) (se_KeyHash e) = None" using Cons.prems(3) by (auto simp: map_of_eq_None_iff sw_pairs_def)
  then have m: "sw_map ?t ++ map_of (sw_pairs es) = sw_map t ++ map_of (sw_pairs (e # es))"
    by (auto simp: t(2) sw_pairs_def map_add_def fun_eq_iff split: option.split)
  have "se_KeyHash x \<noteq> se_KeyHash e" if "x \<in> set es" for x
    using Cons.prems(3) imageI [OF that, of se_KeyHash] by (auto simp del: image_eqI)
  then have "\<forall>x \<in> set es. sw_map ?t (se_KeyHash x) = None" using Cons.prems(4) by (simp add: t(2))
  from Cons.IH [OF t(1) _ _ this] Cons.prems t(3,4) m show ?case by (simp add: Let_def)
qed (simp add: sw_pairs_def)

lemma sw_grow_spec:
  assumes i: "sw_inv st" "sw_cap st < 2 ^ 60"
  shows "sw_inv (sw_grow st)" "sw_map (sw_grow st) = sw_map st" "sw_cap (sw_grow st) = 2 * sw_cap st" "sw_size (sw_grow st) = sw_size st"
proof -
  from i obtain k where k: "length (sw_groups st) = 2 ^ k" "sw_cap st = 16 * 2 ^ k" by (auto simp: sw_inv_def sw_shape_def)
  have "0 \<le> sw_cap st" using k by simp
  then have "i64 (sw_cap st * 2) = sw_cap st * 2" using i(2) by (subst i64_id) auto
  then have "i64 (sw_cap st * 2) = 16 * int (2 ^ Suc k)" using k by simp
  moreover have "nat (16 * int (2 ^ Suc k)) = 16 * 2 ^ Suc k" "nat (16 * int (2 ^ Suc k) div int groupSize) = 2 ^ Suc k"
    by (simp_all add: groupSize_def nat_mult_distrib nat_power_eq)
  ultimately have g: "sw_grow st = foldl (\<lambda>t e. sw_insertNoLock t (se_KeyHash e) (se_Cost e)) (empty_table (2 ^ Suc k)) (sw_occupied st)"
    by (simp add: sw_grow_def Let_def empty_table_def empty_groups_def groupSize_def)
  note o = sw_occupied_map [OF i(1)]
  have c: "sw_cap (empty_table (2 ^ Suc k)) = 2 * sw_cap st" "sw_size (empty_table (2 ^ Suc k)) = 0" using k by (simp_all add: empty_table_def)
  have "sw_size st \<le> sw_cap st" by (rule sw_size_bound [OF i(1)])
  moreover have "0 \<le> sw_cap st" using k by simp
  ultimately have l: "sw_size (empty_table (2 ^ Suc k)) + int (length (sw_occupied st)) \<le> sw_cap (empty_table (2 ^ Suc k))"
    using c o(3) by simp
  have "sw_cap (empty_table (2 ^ Suc k)) < 2 ^ 62" using c i(2) by simp
  from reinsert_all [OF empty_table_inv(1) this o(1) _ l] empty_table_inv(2) [of "Suc k"] o(2,3) c
  show "sw_inv (sw_grow st)" "sw_map (sw_grow st) = sw_map st" "sw_cap (sw_grow st) = 2 * sw_cap st" "sw_size (sw_grow st) = sw_size st"
    unfolding g by (simp_all add: Let_def)
qed

subsection \<open>The table as a store\<close>

definition sw_budget :: "nat \<Rightarrow> SwissTable \<Rightarrow> bool" where
  "sw_budget m st \<longleftrightarrow> sw_inv st \<and> sw_cap st \<le> 2 ^ 52 \<and> sw_size st + int m \<le> 2 ^ 50"

lemma sw_Insert_spec:
  assumes b: "sw_budget (Suc m) st"
  shows "sw_budget m (fst (sw_Insert st h c))" "sw_map (fst (sw_Insert st h c)) = (sw_map st)(h \<mapsto> c)"
    "snd (sw_Insert st h c) \<longleftrightarrow> sw_map st h = None"
proof -
  from b have i: "sw_inv st" "sw_cap st \<le> 2 ^ 52" "sw_size st + int (Suc m) \<le> 2 ^ 50" by (auto simp: sw_budget_def)
  have "sw_budget m (fst (sw_Insert st h c)) \<and> sw_map (fst (sw_Insert st h c)) = (sw_map st)(h \<mapsto> c) \<and>
    (snd (sw_Insert st h c) \<longleftrightarrow> sw_map st h = None)"
  proof (cases "sw_find st h")
    case (Some idx)
    then have "sw_map st h \<noteq> None" by (simp add: sw_map_def)
    moreover have "sw_size (sw_set_cost st idx c) = sw_size st" "sw_cap (sw_set_cost st idx c) = sw_cap st"
      by (simp_all add: sw_set_cost_def)
    ultimately show ?thesis using Some set_cost_spec [OF i(1) Some, of c] i by (simp add: sw_Insert_def sw_budget_def)
  next
    case None
    then have h: "sw_map st h = None" by (simp add: sw_map_def)
    define t where "t = (if 8 * i64 (sw_size st + 1) > 7 * sw_cap st then sw_grow st else st)"
    have pos: "0 \<le> sw_size st" "sw_size st \<le> sw_cap st" "0 < sw_cap st"
      using i(1) sw_size_bound [OF i(1)] sw_groups_pos [OF occ_shape [OF i(1)]] by (auto simp: sw_inv_def sw_shape_def)
    have s: "i64 (sw_size st + 1) = sw_size st + 1" using pos i by (intro i64_id) auto
    have "sw_cap st < 2 ^ 60" using i(2) by simp
    note g = sw_grow_spec [OF i(1) this]
    have t: "sw_inv t" "sw_map t = sw_map st" "sw_size t = sw_size st" "sw_size t < sw_cap t" "sw_cap t \<le> 2 ^ 52"
      using g i pos s by (auto simp: t_def)
    have "sw_map t h = None" "sw_cap t < 2 ^ 62" using t h by auto
    from insert_probes_new [OF t(1) this(1) t(4) this(2), of c] t h None i show ?thesis
      unfolding sw_Insert_def t_def by (auto simp: sw_budget_def Let_def)
  qed
  then show "sw_budget m (fst (sw_Insert st h c))" "sw_map (fst (sw_Insert st h c)) = (sw_map st)(h \<mapsto> c)"
    "snd (sw_Insert st h c) \<longleftrightarrow> sw_map st h = None" by blast+
qed

interpretation sw: budget_store sw_map "\<lambda>st h c. fst (sw_Insert st h c)" "\<lambda>st h. fst (sw_Delete st h)" sw_size sw_budget
  "\<lambda>_ _. 1" "\<lambda>_ _. True"
proof unfold_locales
  fix st :: SwissTable and h m and c :: int
  show "sw_budget (1 + m) st \<Longrightarrow> sw_budget m (fst (sw_Insert st h c))" using sw_Insert_spec by simp
  show "sw_budget (1 + m) st \<Longrightarrow> sw_map (fst (sw_Insert st h c)) = (sw_map st)(h \<mapsto> c)" using sw_Insert_spec(2) [of m] by simp
  show "sw_budget m st \<Longrightarrow> sw_budget m (fst (sw_Delete st h))"
    using sw_Delete_spec [of st h] by (force simp: sw_budget_def)
  show "sw_budget m st \<Longrightarrow> sw_map (fst (sw_Delete st h)) = (sw_map st)(h := None)"
    using sw_Delete_spec(2) [of st h] by (simp add: sw_budget_def)
  show "sw_budget m st \<Longrightarrow> finite (dom (sw_map st))" by (simp add: sw_budget_def sw_dom)
  show "sw_budget m st \<Longrightarrow> sw_size st = int (card (dom (sw_map st)))" by (simp add: sw_budget_def sw_size_card)
qed

lemma sw_Get_map: "sw_Get st h = (case sw_map st h of None \<Rightarrow> (0, False) | Some c \<Rightarrow> (c, True))"
  by (simp add: sw_Get_def sw_map_def split: option.split)

lemma sw_Has_map: "sw_Has st h \<longleftrightarrow> h \<in> dom (sw_map st)"
  by (simp add: sw_Has_def sw_map_def domIff)

lemma range_until_all: "range_until (\<lambda>_. True) es = es"
  by (induction es) auto

lemma NewSwissTable_inv:
  assumes "capacity \<le> 2 ^ 40" "m \<le> 2 ^ 40"
  shows "sw_budget m (NewSwissTable capacity)" "sw_map (NewSwissTable capacity) = Map.empty"
proof -
  define c where "c = (if capacity \<le> 0 then 16 else capacity)"
  have c: "1 \<le> c" "c \<le> 2 ^ 40" using assms(1) by (auto simp: c_def)
  then have "i64 (c + int groupSize - 1) = c + 15" by (subst i64_id) (auto simp: groupSize_def)
  moreover have "1 \<le> (c + 15) div 16" "(c + 15) div 16 \<le> 2 ^ 37" using c by auto
  moreover from this obtain k where k: "nextPowerOf2Int64 ((c + 15) div 16) = 2 ^ k" "nextPowerOf2Int64 ((c + 15) div 16) < 2 * ((c + 15) div 16)"
    using nextPowerOf2Int64_rounds_up [of "(c + 15) div 16"] by (auto simp: rounds_up_def)
  ultimately have p: "(2 :: int) ^ k < 2 ^ 38" by simp
  define x :: int where "x = 2 ^ k"
  have "i64 (x * int groupSize) = 16 * x" using p zero_le_power [of "2 :: int" k]
    unfolding x_def [symmetric] by (subst i64_id) (auto simp: groupSize_def)
  then have "i64 (2 ^ k * int groupSize) = 16 * 2 ^ k" by (simp add: x_def)
  moreover have "nat (16 * 2 ^ k) = 16 * 2 ^ k" "nat (2 ^ k) = 2 ^ k" by (simp_all add: nat_mult_distrib nat_power_eq)
  ultimately have "NewSwissTable capacity = empty_table (2 ^ k)"
    using k(1) \<open>i64 (c + int groupSize - 1) = c + 15\<close>
    by (simp add: NewSwissTable_def c_def [symmetric] Let_def empty_table_def empty_groups_def groupSize_def)
  then show "sw_budget m (NewSwissTable capacity)" "sw_map (NewSwissTable capacity) = Map.empty"
    using empty_table_inv p assms(2) by (simp_all add: sw_budget_def empty_table_def)
qed

text \<open>
  C35: The Swiss table is a map. After any sequence of insertions and deletions on a new table, with
  the growths they cause, a search finds exactly the keys of the map the sequence denotes with their
  costs, the size is their number, and an iteration visits every key once with its cost.
\<close>

theorem swiss_table_is_map:
  fixes capacity :: int and ops :: "(u64, int) store_op list"
  defines "t \<equiv> foldl sw.apply_op (NewSwissTable capacity) ops" and "m \<equiv> foldl op_on_map Map.empty ops"
  assumes "capacity \<le> 2 ^ 40" "length ops \<le> 2 ^ 40"
  shows "sw_Get t h = (case m h of None \<Rightarrow> (0, False) | Some c \<Rightarrow> (c, True)) \<and> (sw_Has t h \<longleftrightarrow> h \<in> dom m) \<and>
    sw_size t = int (card (dom m)) \<and> distinct (map se_KeyHash (sw_Range t (\<lambda>_. True))) \<and>
    map_of (map (\<lambda>e. (se_KeyHash e, se_Cost e)) (sw_Range t (\<lambda>_. True))) = m"
proof -
  let ?w = "sum_list (map (op_weight (\<lambda>_ _. 1)) ops)"
  have "?w \<le> length ops"
  proof (induction ops)
    case (Cons x ops)
    then show ?case by (cases x) auto
  qed simp
  with assms(4) have w: "?w \<le> 2 ^ 40" by simp
  note n = NewSwissTable_inv [OF assms(3) w]
  have f: "\<forall>x \<in> set ops. sw.op_fits x" by (metis store_op.exhaust sw.op_fits.simps)
  from sw.run_ops [OF _ f, of 0 "NewSwissTable capacity"] n
  have r: "sw_inv t" "sw_map t = m" "sw_size t = int (card (dom m))" by (auto simp: sw_budget_def t_def m_def)
  from sw_occupied_map [OF r(1)] r show ?thesis
    by (simp add: sw_Get_map sw_Has_map sw_Range_def range_until_all sw_pairs_def)
qed

theorem swiss_table_is_map_witness:
  "sw_Get (foldl sw.apply_op (NewSwissTable 16) [Put 7 1, Put 135 2, Remove 7, Put 135 3]) 135 = (3, True)"
  using swiss_table_is_map [of 16 "[Put 7 1, Put 135 2, Remove 7, Put 135 3]" 135] by simp

end
