(* ===== verification/IndexedHeap.thy ===== *)
theory IndexedHeap
  imports ExpiryQueue
begin

text \<open>
  The min-heaps of pending expirations, with the functions of Go's \<open>container/heap\<close> they call:
  \<open>expiryHeapInternal\<close> and \<open>ExpiryHeap\<close> of \<open>internal/store/expiry_heap.go\<close>, and the like heap in
  \<open>gcmap/gcmap_worker.go\<close>. Both hold pointers to items from a slice and from a map of keys, and an
  item stores its own position, so the model keeps an explicit store: addresses in the slice and in
  the map, and the items at the addresses. Keys are of any type (hashes in the one, strings in the
  other).
\<close>

section \<open>Items, slice and map\<close>

record 'k expiryItem =
  hi_key :: 'k
  hi_expireAt :: int
  hi_index :: int

record 'k pq =
  pq_items :: "nat list"
  pq_objs :: "nat \<Rightarrow> 'k expiryItem"
  pq_keys :: "'k \<rightharpoonup> nat"
  pq_next :: nat

definition hp_Len :: "'k pq \<Rightarrow> nat" where
  "hp_Len h = length (pq_items h)"

definition hp_at :: "'k pq \<Rightarrow> nat \<Rightarrow> 'k expiryItem" where
  "hp_at h i = pq_objs h (pq_items h ! i)"

definition hp_Less :: "'k pq \<Rightarrow> nat \<Rightarrow> nat \<Rightarrow> bool" where
  "hp_Less h i j \<longleftrightarrow> hi_expireAt (hp_at h i) < hi_expireAt (hp_at h j)"

definition set_index :: "nat \<Rightarrow> int \<Rightarrow> 'k pq \<Rightarrow> 'k pq" where
  "set_index a idx h = h\<lparr>pq_objs := (pq_objs h)(a := (pq_objs h a)\<lparr>hi_index := idx\<rparr>)\<rparr>"

definition hp_Swap :: "'k pq \<Rightarrow> nat \<Rightarrow> nat \<Rightarrow> 'k pq" where
  "hp_Swap h i j =
     (let items = pq_items h;
          h = h\<lparr>pq_items := items[i := items ! j, j := items ! i]\<rparr>;
          h = set_index (pq_items h ! i) (int i) h
      in set_index (pq_items h ! j) (int j) h)"

definition hp_Push :: "'k pq \<Rightarrow> nat \<Rightarrow> 'k pq" where
  "hp_Push h item =
     (let n = length (pq_items h); h = set_index item (int n) h
      in h\<lparr>pq_items := pq_items h @ [item]\<rparr>)"

definition hp_Pop :: "'k pq \<Rightarrow> 'k pq \<times> nat" where
  "hp_Pop h =
     (let n = length (pq_items h); item = pq_items h ! (n - 1); h = set_index item (- 1) h
      in (h\<lparr>pq_items := take (n - 1) (pq_items h)\<rparr>, item))"

section \<open>container/heap\<close>

function heap_up :: "'k pq \<Rightarrow> nat \<Rightarrow> 'k pq" where
  "heap_up h j =
     (let i = (j - 1) div 2
      in if i = j \<or> \<not> hp_Less h j i then h else heap_up (hp_Swap h i j) i)"
  by pat_completeness auto
termination by (relation "measure snd") (auto simp: hp_Less_def)

text \<open>\<open>heap_down\<close> returns the final position with the heap; \<open>down\<close> reports whether it moved.\<close>

function heap_down :: "'k pq \<Rightarrow> nat \<Rightarrow> nat \<Rightarrow> 'k pq \<times> nat" where
  "heap_down h i n =
     (let j1 = 2 * i + 1
      in if j1 \<ge> n then (h, i)
         else let j2 = j1 + 1; j = (if j2 < n \<and> hp_Less h j2 j1 then j2 else j1)
              in if \<not> hp_Less h j i then (h, i) else heap_down (hp_Swap h i j) j n)"
  by pat_completeness auto
termination by (relation "measure (\<lambda>(h, i, n). n - i)") (auto simp: Let_def)

declare heap_up.simps [simp del] heap_down.simps [simp del]

definition down_or_up :: "'k pq \<Rightarrow> nat \<Rightarrow> nat \<Rightarrow> 'k pq" where
  "down_or_up h i n = (let (h', i') = heap_down h i n in if i' > i then h' else heap_up h' i)"

definition heap_Push :: "'k pq \<Rightarrow> nat \<Rightarrow> 'k pq" where
  "heap_Push h item = (let h = hp_Push h item in heap_up h (hp_Len h - 1))"

definition heap_Pop :: "'k pq \<Rightarrow> 'k pq \<times> nat" where
  "heap_Pop h = (let n = hp_Len h - 1; h = hp_Swap h 0 n; (h, _) = heap_down h 0 n in hp_Pop h)"

definition heap_Remove :: "'k pq \<Rightarrow> nat \<Rightarrow> 'k pq \<times> nat" where
  "heap_Remove h i =
     (let n = hp_Len h - 1; h = (if n \<noteq> i then down_or_up (hp_Swap h i n) i n else h)
      in hp_Pop h)"

definition heap_Fix :: "'k pq \<Rightarrow> nat \<Rightarrow> 'k pq" where
  "heap_Fix h i = down_or_up h i (hp_Len h)"

section \<open>ExpiryHeap\<close>

definition NewExpiryHeap :: "'k pq" where
  "NewExpiryHeap = \<lparr>pq_items = [], pq_objs = undefined, pq_keys = Map.empty, pq_next = 0\<rparr>"

text \<open>The part of \<open>Push\<close> that schedules a key, which \<open>GC.Expired\<close> shares.\<close>

definition pq_schedule :: "'k pq \<Rightarrow> 'k \<Rightarrow> int \<Rightarrow> 'k pq" where
  "pq_schedule h key expireAt =
     (case pq_keys h key of
        Some existing \<Rightarrow>
          let h = h\<lparr>pq_objs := (pq_objs h)(existing := (pq_objs h existing)\<lparr>hi_expireAt := expireAt\<rparr>)\<rparr>
          in heap_Fix h (nat (hi_index (pq_objs h existing)))
      | None \<Rightarrow>
          let item = pq_next h;
              h = h\<lparr>pq_objs := (pq_objs h)(item := \<lparr>hi_key = key, hi_expireAt = expireAt, hi_index = 0\<rparr>),
                    pq_next := pq_next h + 1\<rparr>;
              h = heap_Push h item
          in h\<lparr>pq_keys := (pq_keys h)(key \<mapsto> item)\<rparr>)"

definition removeLocked :: "'k pq \<Rightarrow> 'k \<Rightarrow> 'k pq" where
  "removeLocked h key =
     (case pq_keys h key of
        None \<Rightarrow> h
      | Some item \<Rightarrow>
          let h = fst (heap_Remove h (nat (hi_index (pq_objs h item))))
          in h\<lparr>pq_keys := (pq_keys h)(key := None)\<rparr>)"

definition eh_Push :: "'k pq \<Rightarrow> 'k \<Rightarrow> int \<Rightarrow> 'k pq" where
  "eh_Push h key expireAt = (if expireAt \<le> 0 then removeLocked h key else pq_schedule h key expireAt)"

text \<open>Popping the root and its key, as \<open>Pop\<close> and the loops over expired items do.\<close>

definition pop_root :: "'k pq \<Rightarrow> 'k pq \<times> 'k \<times> int" where
  "pop_root h =
     (let (h, a) = heap_Pop h; item = pq_objs h a
      in (h\<lparr>pq_keys := (pq_keys h)(hi_key item := None)\<rparr>, hi_key item, hi_expireAt item))"

definition eh_Pop :: "u64 pq \<Rightarrow> u64 pq \<times> u64 \<times> int \<times> bool" where
  "eh_Pop h =
     (if hp_Len h = 0 then (h, 0, 0, False)
      else let (h, key, expireAt) = pop_root h in (h, key, expireAt, True))"

definition eh_Remove :: "'k pq \<Rightarrow> 'k \<Rightarrow> 'k pq \<times> bool" where
  "eh_Remove h key = (case pq_keys h key of None \<Rightarrow> (h, False) | Some _ \<Rightarrow> (removeLocked h key, True))"

definition PeekExpireAt :: "'k pq \<Rightarrow> int" where
  "PeekExpireAt h = (if hp_Len h = 0 then 0 else hi_expireAt (hp_at h 0))"

text \<open>The loop of \<open>PopExpired\<close>; every round pops an item, so as many rounds as there are items suffice.\<close>

fun pop_due :: "nat \<Rightarrow> 'k pq \<Rightarrow> int \<Rightarrow> 'k pq \<times> ('k \<times> int) list" where
  "pop_due 0 h now = (h, [])"
| "pop_due (Suc n) h now =
     (if hp_Len h > 0 \<and> hi_expireAt (hp_at h 0) \<le> now
      then let (h, x) = pop_root h; (h, xs) = pop_due n h now in (h, x # xs)
      else (h, []))"

definition pq_drain :: "'k pq \<Rightarrow> int \<Rightarrow> 'k pq \<times> ('k \<times> int) list" where
  "pq_drain h now = pop_due (hp_Len h) h now"

definition eh_PopExpired :: "'k pq \<Rightarrow> int \<Rightarrow> 'k pq \<times> 'k list" where
  "eh_PopExpired h now = (let (h, expired) = pq_drain h now in (h, map fst expired))"

definition eh_Len :: "'k pq \<Rightarrow> nat" where
  "eh_Len h = hp_Len h"

definition eh_Clear :: "'k pq \<Rightarrow> 'k pq" where
  "eh_Clear h = h\<lparr>pq_items := [], pq_keys := Map.empty\<rparr>"

section \<open>Swaps\<close>

definition vals :: "'k pq \<Rightarrow> int list" where
  "vals h = map (\<lambda>a. hi_expireAt (pq_objs h a)) (pq_items h)"

definition pq_wf :: "'k pq \<Rightarrow> bool" where
  "pq_wf h \<longleftrightarrow> distinct (pq_items h) \<and> (\<forall>i < hp_Len h. hi_index (hp_at h i) = int i)"

text \<open>Rearranging: the same items at other positions; positions from \<open>n\<close> on are untouched.\<close>

definition rearranged :: "nat \<Rightarrow> 'k pq \<Rightarrow> 'k pq \<Rightarrow> bool" where
  "rearranged n h h' \<longleftrightarrow> mset (pq_items h') = mset (pq_items h) \<and> pq_keys h' = pq_keys h \<and> pq_next h' = pq_next h \<and>
     (\<forall>a. hi_key (pq_objs h' a) = hi_key (pq_objs h a) \<and> hi_expireAt (pq_objs h' a) = hi_expireAt (pq_objs h a)) \<and>
     (\<forall>k \<ge> n. pq_items h' ! k = pq_items h ! k)"

lemma rearranged_refl [simp]: "rearranged n h h"
  by (simp add: rearranged_def)

lemma rearranged_trans: "rearranged n h h' \<Longrightarrow> rearranged n h' h'' \<Longrightarrow> rearranged n h h''"
  by (auto simp: rearranged_def)

lemma rearranged_length: "rearranged n h h' \<Longrightarrow> hp_Len h' = hp_Len h"
  by (auto simp: rearranged_def hp_Len_def dest: mset_eq_length)

lemma length_vals [simp]: "length (vals h) = hp_Len h"
  by (simp add: vals_def hp_Len_def)

lemma hp_Less_vals: "i < hp_Len h \<Longrightarrow> j < hp_Len h \<Longrightarrow> hp_Less h i j \<longleftrightarrow> vals h ! i < vals h ! j"
  by (simp add: hp_Less_def vals_def hp_at_def hp_Len_def)

lemma set_index_frame [simp]:
  "pq_items (set_index a x h) = pq_items h" "pq_keys (set_index a x h) = pq_keys h" "pq_next (set_index a x h) = pq_next h"
  "hi_key (pq_objs (set_index a x h) b) = hi_key (pq_objs h b)"
  "hi_expireAt (pq_objs (set_index a x h) b) = hi_expireAt (pq_objs h b)"
  "hi_index (pq_objs (set_index a x h) b) = (if b = a then x else hi_index (pq_objs h b))"
  by (simp_all add: set_index_def)

lemma hp_Swap_items: "pq_items (hp_Swap h i j) = (pq_items h)[i := pq_items h ! j, j := pq_items h ! i]"
  by (simp add: hp_Swap_def Let_def)

lemma hp_Swap_vals:
  "i < hp_Len h \<Longrightarrow> j < hp_Len h \<Longrightarrow> vals (hp_Swap h i j) = (vals h)[i := vals h ! j, j := vals h ! i]"
  by (simp add: vals_def hp_Swap_def Let_def map_update hp_Len_def)

lemma hp_Swap_len [simp]: "hp_Len (hp_Swap h i j) = hp_Len h"
  by (simp add: hp_Len_def hp_Swap_items)

lemma hp_Swap_rearranged:
  assumes "i < hp_Len h" "j < hp_Len h" "i < n" "j < n"
  shows "rearranged n h (hp_Swap h i j)"
proof -
  have "mset (pq_items (hp_Swap h i j)) = mset (pq_items h)"
    unfolding hp_Swap_items using assms(1,2) by (intro mset_swap) (simp_all add: hp_Len_def)
  then show ?thesis using assms(3,4) by (auto simp: rearranged_def hp_Swap_items) (simp_all add: hp_Swap_def Let_def)
qed

lemma hp_Swap_wf:
  assumes "pq_wf h" "i < hp_Len h" "j < hp_Len h"
  shows "pq_wf (hp_Swap h i j)"
proof -
  have "distinct (pq_items (hp_Swap h i j))"
    unfolding hp_Swap_items using assms by (simp add: distinct_swap hp_Len_def pq_wf_def)
  moreover have "hi_index (hp_at (hp_Swap h i j) k) = int k" if k: "k < hp_Len h" for k
  proof -
    have "pq_items h ! m = pq_items h ! l \<longleftrightarrow> m = l" if "m < hp_Len h" "l < hp_Len h" for m l
      using assms(1) that by (simp add: pq_wf_def hp_Len_def nth_eq_iff_index_eq)
    moreover have "hi_index (pq_objs h (pq_items h ! l)) = int l" if "l < hp_Len h" for l
      using assms(1) that by (simp add: pq_wf_def hp_at_def)
    ultimately show ?thesis using assms(2,3) k
      by (auto simp: hp_at_def hp_Swap_def Let_def nth_list_update hp_Len_def)
  qed
  ultimately show ?thesis by (simp add: pq_wf_def)
qed

section \<open>Heap order\<close>

definition par :: "nat \<Rightarrow> nat" where
  "par k = (k - 1) div 2"

definition ordered :: "int list \<Rightarrow> nat \<Rightarrow> bool" where
  "ordered xs k \<longleftrightarrow> xs ! par k \<le> xs ! k"

definition heap_order :: "nat \<Rightarrow> int list \<Rightarrow> bool" where
  "heap_order n xs \<longleftrightarrow> (\<forall>k. 0 < k \<longrightarrow> k < n \<longrightarrow> ordered xs k)"

text \<open>Heap order but around position \<open>i\<close>; the children of \<open>i\<close> are not below its parent.\<close>

definition bridged :: "nat \<Rightarrow> int list \<Rightarrow> nat \<Rightarrow> bool" where
  "bridged n xs i \<longleftrightarrow> (0 < i \<longrightarrow> (\<forall>k. 0 < k \<longrightarrow> k < n \<longrightarrow> par k = i \<longrightarrow> xs ! par i \<le> xs ! k))"

definition but_up :: "nat \<Rightarrow> int list \<Rightarrow> nat \<Rightarrow> bool" where
  "but_up n xs i \<longleftrightarrow> (\<forall>k. 0 < k \<longrightarrow> k < n \<longrightarrow> k \<noteq> i \<longrightarrow> ordered xs k) \<and> bridged n xs i"

definition but_at :: "nat \<Rightarrow> int list \<Rightarrow> nat \<Rightarrow> bool" where
  "but_at n xs i \<longleftrightarrow> (\<forall>k. 0 < k \<longrightarrow> k < n \<longrightarrow> k \<noteq> i \<longrightarrow> par k \<noteq> i \<longrightarrow> ordered xs k) \<and> bridged n xs i"

lemma par_less: "0 < k \<Longrightarrow> par k < k"
  by (simp add: par_def)

lemma par_child: "par (2 * i + 1) = i" "par (2 * i + 2) = i" "0 < k \<Longrightarrow> par k = i \<Longrightarrow> k = 2 * i + 1 \<or> k = 2 * i + 2"
  by (auto simp: par_def)

lemma heap_order_root: "heap_order n xs \<Longrightarrow> k < n \<Longrightarrow> xs ! 0 \<le> xs ! k"
proof (induction k rule: less_induct)
  case (less k)
  show ?case
  proof (cases "k = 0")
    case False
    then have p: "par k < k" using par_less by simp
    have "xs ! par k \<le> xs ! k" using less.prems False by (simp add: heap_order_def ordered_def)
    moreover have "xs ! 0 \<le> xs ! par k" using less.IH [OF p less.prems(1)] less.prems(2) p by simp
    ultimately show ?thesis by simp
  qed simp
qed

text \<open>One swap of the upward loop.\<close>

lemma up_step:
  assumes "but_up n xs j" "0 < j" "j < n" "n \<le> length xs" "xs ! j < xs ! par j"
  shows "but_up n (xs[par j := xs ! j, j := xs ! par j]) (par j)"
proof -
  let ?i = "par j" and ?ys = "xs[par j := xs ! j, j := xs ! par j]"
  have i: "?i < j" using par_less assms(2) .
  have ys: "?ys ! k = (if k = j then xs ! ?i else if k = ?i then xs ! j else xs ! k)" if "k < n" for k
    using that assms(3,4) i by (simp add: nth_list_update)
  have ok: "xs ! par k \<le> xs ! k" if "0 < k" "k < n" "k \<noteq> j" for k using assms(1) that by (auto simp: but_up_def ordered_def)
  have br: "xs ! ?i \<le> xs ! k" if "0 < k" "k < n" "par k = j" for k
    using assms(1,2) that by (auto simp: but_up_def bridged_def)
  have "ordered ?ys k" if k: "0 < k" "k < n" "k \<noteq> ?i" for k
  proof -
    have pk: "par k < n" using par_less [OF k(1)] k(2) by simp
    have e: "?ys ! k = (if k = j then xs ! ?i else xs ! k)" using ys [OF k(2)] k(3) by simp
    consider "k = j" | "k \<noteq> j" "par k = j" | "k \<noteq> j" "par k = ?i" | "k \<noteq> j" "par k \<noteq> j" "par k \<noteq> ?i" by blast
    then show ?thesis
    proof cases
      case 1
      then show ?thesis using assms(5) e ys [OF pk] i by (simp add: ordered_def)
    next
      case 2
      then show ?thesis using br [OF k(1,2)] e ys [OF pk] by (simp add: ordered_def)
    next
      case 3
      then show ?thesis using ok [OF k(1,2)] assms(5) e ys [OF pk] i by (simp add: ordered_def)
    next
      case 4
      then show ?thesis using ok [OF k(1,2)] e ys [OF pk] by (simp add: ordered_def)
    qed
  qed
  moreover have "bridged n ?ys ?i" unfolding bridged_def
  proof (intro impI allI)
    fix k assume i0: "0 < ?i" and k: "0 < k" "k < n" "par k = ?i"
    have pp: "par ?i < ?i" using par_less i0 .
    have "?ys ! par ?i = xs ! par ?i" using ys [of "par ?i"] pp i assms(3) by simp
    moreover have "xs ! par ?i \<le> xs ! ?i" using ok [OF i0] i assms(3) by simp
    moreover have "xs ! ?i \<le> ?ys ! k" using ys [OF k(2)] ok [OF k(1,2)] k(3) par_less [OF k(1)] by auto
    ultimately show "?ys ! par ?i \<le> ?ys ! k" by simp
  qed
  ultimately show ?thesis by (simp add: but_up_def)
qed

text \<open>One swap of the downward loop, with the smaller child.\<close>

lemma down_step:
  assumes "but_at n xs i" "0 < j" "j < n" "par j = i" "n \<le> length xs" "xs ! j < xs ! i"
    "\<And>k. 0 < k \<Longrightarrow> k < n \<Longrightarrow> par k = i \<Longrightarrow> xs ! j \<le> xs ! k"
  shows "but_at n (xs[i := xs ! j, j := xs ! i]) j" "ordered (xs[i := xs ! j, j := xs ! i]) j"
proof -
  let ?ys = "xs[i := xs ! j, j := xs ! i]"
  have i: "i < j" using par_less [OF assms(2)] assms(4) by simp
  have ys: "?ys ! k = (if k = j then xs ! i else if k = i then xs ! j else xs ! k)" if "k < n" for k
    using that assms(3,5) i by (simp add: nth_list_update)
  have ok: "xs ! par k \<le> xs ! k" if "0 < k" "k < n" "k \<noteq> i" "par k \<noteq> i" for k
    using assms(1) that by (auto simp: but_at_def ordered_def)
  show oj: "ordered ?ys j" using ys [of j] ys [of i] i assms(3,4,6) by (simp add: ordered_def)
  have "ordered ?ys k" if k: "0 < k" "k < n" "k \<noteq> j" "par k \<noteq> j" for k
  proof -
    have pk: "par k < n" using par_less [OF k(1)] k(2) by simp
    consider "k = i" | "k \<noteq> i" "par k = i" | "k \<noteq> i" "par k \<noteq> i" by blast
    then show ?thesis
    proof cases
      case 1
      then have "xs ! par i \<le> xs ! j" using assms(1,2,3,4) k by (auto simp: but_at_def bridged_def)
      with 1 show ?thesis using ys [OF k(2)] ys [OF pk] k(4) par_less [OF k(1)] i by (simp add: ordered_def)
    next
      case 2
      then show ?thesis using ys [OF k(2)] ys [OF pk] k assms(7) [OF k(1,2)] i by (simp add: ordered_def)
    next
      case 3
      then show ?thesis using ys [OF k(2)] ys [OF pk] k ok [OF k(1,2)] by (simp add: ordered_def)
    qed
  qed
  moreover have "bridged n ?ys j" unfolding bridged_def
  proof (intro impI allI)
    fix k assume k: "0 < k" "k < n" "par k = j"
    have "j < k" using par_less [OF k(1)] k(3) by simp
    moreover have "xs ! j \<le> xs ! k" using ok [OF k(1,2)] k(3) i calculation by simp
    moreover have "?ys ! par j = xs ! j" using ys [of i] i assms(3,4) by simp
    ultimately show "?ys ! par j \<le> ?ys ! k" using ys [OF k(2)] i by simp
  qed
  ultimately show "but_at n ?ys j" by (simp add: but_at_def)
qed

section \<open>The loops\<close>

lemma heap_up_spec:
  assumes "pq_wf h" "j < n" "n \<le> hp_Len h" "but_up n (vals h) j"
  shows "pq_wf (heap_up h j) \<and> rearranged n h (heap_up h j) \<and> heap_order n (vals (heap_up h j))"
  using assms
proof (induction h j rule: heap_up.induct)
  case (1 h j)
  have i: "(j - 1) div 2 = par j" by (simp add: par_def)
  have pj: "par j \<le> j" by (simp add: par_def)
  have less: "hp_Less h j (par j) \<longleftrightarrow> vals h ! j < vals h ! par j" using 1 pj by (intro hp_Less_vals) auto
  show ?case
  proof (cases "par j = j \<or> \<not> hp_Less h j (par j)")
    case True
    then have "ordered (vals h) j \<or> j = 0" using less par_less [of j] by (auto simp: ordered_def)
    with 1 have "heap_order n (vals h)" by (auto simp: heap_order_def but_up_def)
    moreover have "heap_up h j = h" using True by (subst heap_up.simps) (auto simp: par_def Let_def)
    ultimately show ?thesis using "1.prems" by simp
  next
    case False
    then have j0: "0 < j" by (auto simp: par_def intro: Nat.gr0I)
    let ?h = "hp_Swap h (par j) j"
    have b: "par j < hp_Len h" "j < hp_Len h" "par j < n" using "1.prems" par_less [OF j0] by auto
    have u: "but_up n (vals ?h) (par j)" unfolding hp_Swap_vals [OF b(1,2)]
      using up_step [OF "1.prems"(4) j0 "1.prems"(2)] "1.prems"(3) False less by simp
    have e: "heap_up h j = heap_up ?h (par j)" unfolding heap_up.simps [of h j] Let_def i using False by simp
    have "pq_wf (heap_up ?h (par j)) \<and> rearranged n ?h (heap_up ?h (par j)) \<and> heap_order n (vals (heap_up ?h (par j)))"
      using "1.IH" [OF i [symmetric]] False hp_Swap_wf [OF "1.prems"(1) b(1,2)] b u "1.prems"(3) by simp
    then show ?thesis unfolding e using rearranged_trans [OF hp_Swap_rearranged [OF b(1,2,3) "1.prems"(2)]] by blast
  qed
qed

lemma heap_down_spec:
  assumes "pq_wf h" "i < n" "n \<le> hp_Len h" "but_at n (vals h) i"
  shows "pq_wf (fst (heap_down h i n)) \<and> rearranged n h (fst (heap_down h i n)) \<and> i \<le> snd (heap_down h i n) \<and>
    (if snd (heap_down h i n) = i
     then fst (heap_down h i n) = h \<and> (\<forall>k. 0 < k \<longrightarrow> k < n \<longrightarrow> par k = i \<longrightarrow> ordered (vals h) k)
     else heap_order n (vals (fst (heap_down h i n))))"
  using assms
proof (induction h i n rule: heap_down.induct)
  case (1 h i n)
  define j where "j = (if 2 * i + 2 < n \<and> hp_Less h (2 * i + 2) (2 * i + 1) then 2 * i + 2 else 2 * i + 1)"
  have step: "heap_down h i n = (if n \<le> 2 * i + 1 \<or> \<not> hp_Less h j i then (h, i) else heap_down (hp_Swap h i j) j n)"
    by (subst heap_down.simps) (simp add: j_def Let_def)
  show ?case
  proof (cases "n \<le> 2 * i + 1")
    case True
    then have "\<not> (0 < k \<and> k < n \<and> par k = i)" for k using par_child(3) [of k i] by auto
    then show ?thesis using True "1.prems" by (auto simp: step)
  next
    case False
    have less: "hp_Less h a b \<longleftrightarrow> vals h ! a < vals h ! b" if "a < n" "b < n" for a b
      using that "1.prems"(3) by (intro hp_Less_vals) auto
    have j: "0 < j" "j < n" "par j = i" "i < j" using False by (auto simp: j_def par_def)
    have mn: "vals h ! j \<le> vals h ! k" if "0 < k" "k < n" "par k = i" for k
      using par_child(3) [OF that(1,3)] that(2) less by (auto simp: j_def)
    show ?thesis
    proof (cases "hp_Less h j i")
      case nl: False
      then have "vals h ! i \<le> vals h ! j" using less j "1.prems"(2) by simp
      then have "ordered (vals h) k" if "0 < k" "k < n" "par k = i" for k using mn [OF that] that by (simp add: ordered_def)
      then show ?thesis using nl "1.prems" by (auto simp: step)
    next
      case True
      let ?h = "hp_Swap h i j" and ?r = "heap_down (hp_Swap h i j) j n"
      have b: "i < hp_Len h" "j < hp_Len h" using j "1.prems" by auto
      have lt: "vals h ! j < vals h ! i" using True less j "1.prems"(2) by simp
      have s: "but_at n (vals ?h) j" "ordered (vals ?h) j"
        unfolding hp_Swap_vals [OF b] by (rule down_step [OF "1.prems"(4) j(1-3) _ lt mn]; simp add: "1.prems"(3))+
      have jd: "j = (if 2 * i + 1 + 1 < n \<and> hp_Less h (2 * i + 1 + 1) (2 * i + 1) then 2 * i + 1 + 1 else 2 * i + 1)"
        by (simp add: j_def)
      have e: "heap_down h i n = ?r" using False True by (simp add: step)
      have ih: "pq_wf (fst ?r) \<and> rearranged n ?h (fst ?r) \<and> j \<le> snd ?r \<and>
        (if snd ?r = j then fst ?r = ?h \<and> (\<forall>k. 0 < k \<longrightarrow> k < n \<longrightarrow> par k = j \<longrightarrow> ordered (vals ?h) k)
         else heap_order n (vals (fst ?r)))"
        using "1.IH" [OF refl _ refl jd] False True hp_Swap_wf [OF "1.prems"(1) b] j(2) s(1) "1.prems"(3)
        by simp
      have "heap_order n (vals (fst ?r))"
      proof (cases "snd ?r = j")
        case True
        with ih s show ?thesis by (auto simp: heap_order_def but_at_def)
      qed (use ih in simp)
      then show ?thesis unfolding e
        using ih j(4) rearranged_trans [OF hp_Swap_rearranged [OF b "1.prems"(2) j(2)]] by auto
    qed
  qed
qed

lemma down_or_up_spec:
  assumes "pq_wf h" "i < n" "n \<le> hp_Len h" "but_at n (vals h) i"
  shows "pq_wf (down_or_up h i n) \<and> rearranged n h (down_or_up h i n) \<and> heap_order n (vals (down_or_up h i n))"
proof (cases "snd (heap_down h i n) = i")
  case True
  with heap_down_spec [OF assms] assms(4) have e: "fst (heap_down h i n) = h" and "but_up n (vals h) i"
    by (auto simp: but_up_def but_at_def)
  with heap_up_spec [OF assms(1-3)] True show ?thesis by (simp add: down_or_up_def case_prod_unfold)
next
  case False
  with heap_down_spec [OF assms] show ?thesis by (auto simp: down_or_up_def case_prod_unfold)
qed

section \<open>Preparing a sift\<close>

lemma but_at_cong: "(\<And>k. k < n \<Longrightarrow> xs ! k = ys ! k) \<Longrightarrow> i < n \<Longrightarrow> but_at n xs i \<longleftrightarrow> but_at n ys i"
  unfolding but_at_def bridged_def ordered_def
  by (smt (verit, best) par_less order_less_trans)

lemma heap_but_at:
  assumes "heap_order n xs" "i < n" "n \<le> length xs"
  shows "but_at n (xs[i := v]) i"
proof -
  have ok: "xs ! par k \<le> xs ! k" if "0 < k" "k < n" for k using assms(1) that by (auto simp: heap_order_def ordered_def)
  have "bridged n (xs[i := v]) i" unfolding bridged_def
  proof (intro impI allI)
    fix k assume i: "0 < i" and k: "0 < k" "k < n" "par k = i"
    have "xs ! par i \<le> xs ! i" "xs ! i \<le> xs ! k" using ok [OF i assms(2)] ok [OF k(1,2)] k(3) by simp_all
    then show "xs[i := v] ! par i \<le> xs[i := v] ! k" using par_less [OF i] par_less [OF k(1)] k(3) by simp
  qed
  then show ?thesis using ok par_less by (simp add: but_at_def ordered_def)
qed

lemma swap_but_at:
  assumes "heap_order (Suc n) xs" "i < n" "Suc n \<le> length xs"
  shows "but_at n (xs[i := xs ! n, n := xs ! i]) i"
proof -
  have "heap_order n xs" using assms(1) by (simp add: heap_order_def)
  from heap_but_at [OF this assms(2), of "xs ! n"] have "but_at n (xs[i := xs ! n]) i" using assms(3) by simp
  then show ?thesis by (subst but_at_cong [of n _ "xs[i := xs ! n]"]) (use assms(2) in auto)
qed

lemma append_but_up:
  assumes "heap_order n xs" "length xs = n"
  shows "but_up (Suc n) (xs @ [v]) n"
proof -
  have "ordered (xs @ [v]) k" if "0 < k" "k < n" for k
    using assms that par_less [OF that(1)] by (simp add: heap_order_def ordered_def nth_append)
  moreover have "\<not> (k < Suc n \<and> par k = n \<and> 0 < k)" for k using par_less [of k] by (cases "k = 0") auto
  ultimately show ?thesis by (auto simp: but_up_def bridged_def)
qed

section \<open>The operations\<close>

text \<open>Keys and expirations of the items, and the same items with the same map from keys.\<close>

definition same_objs :: "'k pq \<Rightarrow> 'k pq \<Rightarrow> bool" where
  "same_objs h h' \<longleftrightarrow> pq_keys h' = pq_keys h \<and> pq_next h' = pq_next h \<and>
     (\<forall>a. hi_key (pq_objs h' a) = hi_key (pq_objs h a) \<and> hi_expireAt (pq_objs h' a) = hi_expireAt (pq_objs h a))"

lemma rearranged_objs: "rearranged n h h' \<Longrightarrow> same_objs h h' \<and> mset (pq_items h') = mset (pq_items h)"
  by (simp add: rearranged_def same_objs_def)

lemma same_objs_trans: "same_objs h h' \<Longrightarrow> same_objs h' h'' \<Longrightarrow> same_objs h h''"
  by (simp add: same_objs_def)

lemma hp_Pop_spec:
  assumes "pq_wf h" "heap_order n (vals h)" "hp_Len h = Suc n"
  shows "snd (hp_Pop h) = pq_items h ! n" "pq_wf (fst (hp_Pop h))" "heap_order n (vals (fst (hp_Pop h)))"
    "add_mset (pq_items h ! n) (mset (pq_items (fst (hp_Pop h)))) = mset (pq_items h)"
    "same_objs h (fst (hp_Pop h))" "hp_Len (fst (hp_Pop h)) = n"
proof -
  have l: "length (pq_items h) = Suc n" using assms(3) by (simp add: hp_Len_def)
  then have items: "pq_items h = take n (pq_items h) @ [pq_items h ! n]" using take_Suc_conv_app_nth [of n "pq_items h"] by simp
  have e: "hp_Pop h = ((set_index (pq_items h ! n) (- 1) h)\<lparr>pq_items := take n (pq_items h)\<rparr>, pq_items h ! n)"
    by (simp add: hp_Pop_def Let_def l)
  show "snd (hp_Pop h) = pq_items h ! n" by (simp add: e)
  show "hp_Len (fst (hp_Pop h)) = n" by (simp add: e hp_Len_def l)
  show "same_objs h (fst (hp_Pop h))" by (simp add: same_objs_def e)
  show "add_mset (pq_items h ! n) (mset (pq_items (fst (hp_Pop h)))) = mset (pq_items h)"
    using arg_cong [OF items, of mset] by (simp add: e)
  have "vals (fst (hp_Pop h)) = take n (vals h)" by (simp add: vals_def e take_map)
  then show "heap_order n (vals (fst (hp_Pop h)))"
    using assms(2) by (simp add: heap_order_def ordered_def) (metis nth_take order_less_trans par_less)
  have "pq_items h ! k \<noteq> pq_items h ! n" if "k < n" for k
    using assms(1) that l by (simp add: pq_wf_def nth_eq_iff_index_eq)
  then show "pq_wf (fst (hp_Pop h))" using assms(1) l by (simp add: pq_wf_def e hp_at_def hp_Len_def)
qed

text \<open>Removing the item at a position, which \<open>Pop\<close> does for the root.\<close>

definition removed_at :: "'k pq \<Rightarrow> nat \<Rightarrow> 'k pq \<times> nat \<Rightarrow> bool" where
  "removed_at h i r \<longleftrightarrow> snd r = pq_items h ! i \<and> pq_wf (fst r) \<and> heap_order (hp_Len (fst r)) (vals (fst r)) \<and>
     add_mset (pq_items h ! i) (mset (pq_items (fst r))) = mset (pq_items h) \<and> same_objs h (fst r) \<and>
     Suc (hp_Len (fst r)) = hp_Len h"

lemma removed_atI:
  assumes "pq_wf h'" "heap_order n (vals h')" "hp_Len h' = Suc n" "hp_Len h = Suc n" "same_objs h h'"
    "mset (pq_items h') = mset (pq_items h)" "pq_items h' ! n = pq_items h ! i"
  shows "removed_at h i (hp_Pop h')"
  using hp_Pop_spec [OF assms(1-3)] assms(4-7) same_objs_trans by (fastforce simp: removed_at_def)

lemma swap_last:
  assumes "pq_wf h" "heap_order (Suc n) (vals h)" "hp_Len h = Suc n" "i < n"
  shows "pq_wf (hp_Swap h i n)" "but_at n (vals (hp_Swap h i n)) i" "hp_Len (hp_Swap h i n) = Suc n"
    "rearranged (Suc n) h (hp_Swap h i n)" "pq_items (hp_Swap h i n) ! n = pq_items h ! i"
proof -
  have b: "i < hp_Len h" "n < hp_Len h" using assms by auto
  show "pq_wf (hp_Swap h i n)" by (rule hp_Swap_wf [OF assms(1) b])
  show "but_at n (vals (hp_Swap h i n)) i" unfolding hp_Swap_vals [OF b]
    using assms by (intro swap_but_at) auto
  show "hp_Len (hp_Swap h i n) = Suc n" using assms by simp
  show "rearranged (Suc n) h (hp_Swap h i n)" using assms b by (intro hp_Swap_rearranged) auto
  show "pq_items (hp_Swap h i n) ! n = pq_items h ! i" using b by (simp add: hp_Swap_items hp_Len_def)
qed

lemma sifted_pop:
  assumes "pq_wf h" "heap_order (Suc n) (vals h)" "hp_Len h = Suc n" "i < n"
    "pq_wf h'" "rearranged n (hp_Swap h i n) h'" "heap_order n (vals h')"
  shows "removed_at h i (hp_Pop h')"
proof (rule removed_atI [OF assms(5,7)])
  note s = swap_last [OF assms(1-4)]
  show "hp_Len h' = Suc n" using rearranged_length [OF assms(6)] s(3) by simp
  show "same_objs h h'" "mset (pq_items h') = mset (pq_items h)"
    using rearranged_objs [OF s(4)] rearranged_objs [OF assms(6)] same_objs_trans by auto
  show "pq_items h' ! n = pq_items h ! i" using assms(6) s(5) by (simp add: rearranged_def)
qed (fact assms(3))

lemma heap_Remove_spec:
  assumes "pq_wf h" "heap_order (hp_Len h) (vals h)" "i < hp_Len h"
  shows "removed_at h i (heap_Remove h i)"
proof -
  obtain n where n: "hp_Len h = Suc n" using assms(3) by (cases "hp_Len h") auto
  show ?thesis
  proof (cases "n = i")
    case True
    have "heap_order n (vals h)" using assms(2) by (simp add: n heap_order_def)
    then show ?thesis using True n assms(1) by (auto simp: heap_Remove_def same_objs_def intro!: removed_atI)
  next
    case False
    then have i: "i < n" using n assms(3) by simp
    note s = swap_last [OF assms(1) assms(2) [unfolded n] n i]
    have "n \<le> hp_Len (hp_Swap h i n)" using s(3) by simp
    from down_or_up_spec [OF s(1) i this s(2)] show ?thesis
      unfolding heap_Remove_def using False n by (simp add: sifted_pop [OF assms(1) assms(2) [unfolded n] n i])
  qed
qed

lemma heap_Pop_spec:
  assumes "pq_wf h" "heap_order (hp_Len h) (vals h)" "0 < hp_Len h"
  shows "removed_at h 0 (heap_Pop h)"
proof -
  obtain n where n: "hp_Len h = Suc n" using assms(3) by (cases "hp_Len h") auto
  show ?thesis
  proof (cases "n = 0")
    case True
    have "heap_down (hp_Swap h 0 0) 0 0 = (hp_Swap h 0 0, 0)" by (subst heap_down.simps) simp
    then have e: "heap_Pop h = hp_Pop (hp_Swap h 0 0)" by (simp add: heap_Pop_def n True)
    have w: "pq_wf (hp_Swap h 0 0)" by (rule hp_Swap_wf [OF assms(1,3,3)])
    from rearranged_objs [OF hp_Swap_rearranged [OF assms(3,3,3,3)]] have r: "same_objs h (hp_Swap h 0 0)"
      "mset (pq_items (hp_Swap h 0 0)) = mset (pq_items h)" by auto
    show ?thesis unfolding e by (rule removed_atI [OF w _ _ n r]) (simp_all add: n True heap_order_def hp_Swap_items)
  next
    case False
    then have i: "0 < n" by simp
    note s = swap_last [OF assms(1) assms(2) [unfolded n] n i]
    have "n \<le> hp_Len (hp_Swap h 0 n)" using s(3) by simp
    note d = heap_down_spec [OF s(1) i this s(2)]
    have "heap_order n (vals (fst (heap_down (hp_Swap h 0 n) 0 n)))"
    proof (cases "snd (heap_down (hp_Swap h 0 n) 0 n) = 0")
      case True
      with d s(2) show ?thesis by (auto simp: heap_order_def but_at_def)
    qed (use d in simp)
    then show ?thesis using d unfolding heap_Pop_def
      by (simp add: n case_prod_unfold Let_def sifted_pop [OF assms(1) assms(2) [unfolded n] n i])
  qed
qed

section \<open>The heap as a map and as a queue\<close>

definition pq_entry :: "'k pq \<Rightarrow> nat \<Rightarrow> 'k \<times> int" where
  "pq_entry h a = (hi_key (pq_objs h a), hi_expireAt (pq_objs h a))"

definition pq_pending :: "'k pq \<Rightarrow> ('k \<times> int) multiset" where
  "pq_pending h = image_mset (pq_entry h) (mset (pq_items h))"

definition pq_map :: "'k pq \<Rightarrow> ('k \<rightharpoonup> int)" where
  "pq_map h k = map_option (\<lambda>a. hi_expireAt (pq_objs h a)) (pq_keys h k)"

text \<open>The map of keys points to the item of the key, and to every item of the slice.\<close>

definition pq_keyed :: "'k pq \<Rightarrow> bool" where
  "pq_keyed h \<longleftrightarrow> (\<forall>k a. pq_keys h k = Some a \<longleftrightarrow> a \<in> set (pq_items h) \<and> hi_key (pq_objs h a) = k)"

definition pq_inv :: "'k pq \<Rightarrow> bool" where
  "pq_inv h \<longleftrightarrow> pq_wf h \<and> heap_order (hp_Len h) (vals h) \<and> pq_keyed h \<and> (\<forall>a \<in> set (pq_items h). a < pq_next h)"

lemma pq_map_iff:
  assumes "pq_keyed h"
  shows "pq_map h k = Some e \<longleftrightarrow> (\<exists>a \<in> set (pq_items h). pq_entry h a = (k, e))"
  using assms unfolding pq_map_def pq_keyed_def pq_entry_def by (cases "pq_keys h k") force+

lemma pq_entry_inj: "pq_keyed h \<Longrightarrow> inj_on (\<lambda>a. hi_key (pq_objs h a)) (set (pq_items h))"
  unfolding pq_keyed_def inj_on_def by (metis option.inject)

lemma pq_pending_member: "pq_keyed h \<Longrightarrow> (k, e) \<in># pq_pending h \<longleftrightarrow> pq_map h k = Some e"
  by (force simp: pq_pending_def pq_map_iff)

lemma same_objs_entry: "same_objs h h' \<Longrightarrow> pq_entry h' = pq_entry h"
  by (auto simp: same_objs_def pq_entry_def)

lemma pq_map_eqI:
  assumes "pq_keyed h" "\<And>k e. (\<exists>a \<in> set (pq_items h). pq_entry h a = (k, e)) \<longleftrightarrow> m k = Some e"
  shows "pq_map h = m"
  by (rule ext) (metis assms pq_map_iff not_None_eq)

text \<open>Taking the item at a position out of the slice and its key out of the map.\<close>

lemma removed_at_inv:
  assumes i: "pq_inv h" and r: "removed_at h n r" and n: "n < hp_Len h" and k: "k = hi_key (hp_at h n)"
  defines "h' \<equiv> (fst r)\<lparr>pq_keys := (pq_keys (fst r))(k := None)\<rparr>"
  shows "pq_inv h'" "pq_map h' = (pq_map h)(k := None)" "pq_map h k = Some (hi_expireAt (hp_at h n))"
    "add_mset (k, hi_expireAt (hp_at h n)) (pq_pending h') = pq_pending h" "hp_Len h = Suc (hp_Len h')" "pq_next h' = pq_next h"
proof -
  let ?a = "pq_items h ! n"
  have keyed: "pq_keyed h" and d: "distinct (pq_items h)" using i by (auto simp: pq_inv_def pq_wf_def)
  have m: "add_mset ?a (mset (pq_items (fst r))) = mset (pq_items h)" and so: "same_objs h (fst r)"
    using r by (auto simp: removed_at_def)
  have S: "set (pq_items h) = insert ?a (set (pq_items (fst r)))" using arg_cong [OF m, of set_mset] by simp
  have na: "?a \<notin> set (pq_items (fst r))"
  proof -
    have "mset (?a # pq_items (fst r)) = mset (pq_items h)" using m by simp
    from mset_eq_imp_distinct_iff [OF this] d show ?thesis by simp
  qed
  have e: "pq_entry h' = pq_entry h" "pq_items h' = pq_items (fst r)" "pq_objs h' = pq_objs (fst r)"
    using same_objs_entry [OF so] by (auto simp: h'_def pq_entry_def fun_eq_iff)
  have key: "hi_key (pq_objs h' a) = hi_key (pq_objs h a)" for a using so by (simp add: h'_def same_objs_def)
  have kk: "hi_key (pq_objs h ?a) = k" by (simp add: k hp_at_def)
  have other: "hi_key (pq_objs h a) \<noteq> k" if "a \<in> set (pq_items (fst r))" for a
    using pq_entry_inj [OF keyed] S na kk that unfolding inj_on_def by (metis insertCI)
  have keyed': "pq_keyed h'" unfolding pq_keyed_def
  proof (intro allI)
    fix x a
    have "pq_keys h x = Some a \<longleftrightarrow> a \<in> set (pq_items h) \<and> hi_key (pq_objs h a) = x" using keyed by (simp add: pq_keyed_def)
    then show "pq_keys h' x = Some a \<longleftrightarrow> a \<in> set (pq_items h') \<and> hi_key (pq_objs h' a) = x"
      using so other kk unfolding key e(2) S by (auto simp: h'_def same_objs_def)
  qed
  show "pq_inv h'"
    using r keyed' i S so unfolding pq_inv_def
    by (auto simp: removed_at_def h'_def pq_wf_def hp_Len_def hp_at_def vals_def same_objs_def)
  show "pq_map h k = Some (hi_expireAt (hp_at h n))"
    using S kk by (auto simp: pq_map_iff [OF keyed] pq_entry_def hp_at_def)
  show "pq_map h' = (pq_map h)(k := None)"
  proof (rule pq_map_eqI [OF keyed'])
    show "(\<exists>a \<in> set (pq_items h'). pq_entry h' a = (x, v)) \<longleftrightarrow> ((pq_map h)(k := None)) x = Some v" for x v
      using other kk pq_map_iff [OF keyed, of x v] S unfolding e by (auto simp: pq_entry_def)
  qed
  show "add_mset (k, hi_expireAt (hp_at h n)) (pq_pending h') = pq_pending h"
    unfolding pq_pending_def m [symmetric] e by (simp add: pq_entry_def kk hp_at_def)
  show "hp_Len h = Suc (hp_Len h')" using r by (simp add: removed_at_def h'_def hp_Len_def)
  show "pq_next h' = pq_next h" using so by (simp add: h'_def same_objs_def)
qed

lemma pq_keys_at:
  assumes "pq_inv h" "pq_keys h k = Some a"
  shows "\<exists>n. n < hp_Len h \<and> nat (hi_index (pq_objs h a)) = n \<and> pq_items h ! n = a \<and> hi_key (hp_at h n) = k"
proof -
  from assms have "a \<in> set (pq_items h)" "hi_key (pq_objs h a) = k" by (auto simp: pq_inv_def pq_keyed_def)
  then obtain n where "n < hp_Len h" "pq_items h ! n = a" by (auto simp: in_set_conv_nth hp_Len_def)
  moreover from this assms have "hi_index (pq_objs h a) = int n" by (auto simp: pq_inv_def pq_wf_def hp_at_def)
  ultimately show ?thesis using \<open>hi_key (pq_objs h a) = k\<close> by (auto simp: hp_at_def)
qed

lemma removeLocked_spec:
  assumes "pq_inv h"
  shows "pq_inv (removeLocked h k)" "pq_map (removeLocked h k) = (pq_map h)(k := None)"
    "pq_next (removeLocked h k) = pq_next h"
proof -
  have "pq_inv (removeLocked h k) \<and> pq_map (removeLocked h k) = (pq_map h)(k := None) \<and> pq_next (removeLocked h k) = pq_next h"
  proof (cases "pq_keys h k")
    case None
    then show ?thesis using assms by (simp add: removeLocked_def pq_map_def fun_upd_idem)
  next
    case (Some a)
    from pq_keys_at [OF assms Some] obtain n where n: "n < hp_Len h" "nat (hi_index (pq_objs h a)) = n" "hi_key (hp_at h n) = k" by auto
    have "removed_at h n (heap_Remove h n)" using assms n(1) by (intro heap_Remove_spec) (auto simp: pq_inv_def)
    from removed_at_inv [OF assms this n(1) n(3) [symmetric]] show ?thesis using Some n(2) by (simp add: removeLocked_def Let_def)
  qed
  then show "pq_inv (removeLocked h k)" "pq_map (removeLocked h k) = (pq_map h)(k := None)"
    "pq_next (removeLocked h k) = pq_next h" by blast+
qed

lemma pop_root_spec:
  assumes "pq_inv h" "0 < hp_Len h"
  shows "pq_inv (fst (pop_root h))" "pq_map (fst (pop_root h)) = (pq_map h)(fst (snd (pop_root h)) := None)"
    "snd (pop_root h) = pq_entry h (pq_items h ! 0)" "snd (snd (pop_root h)) = hi_expireAt (hp_at h 0)"
    "add_mset (snd (pop_root h)) (pq_pending (fst (pop_root h))) = pq_pending h" "hp_Len h = Suc (hp_Len (fst (pop_root h)))"
    "\<And>k e. pq_map h k = Some e \<Longrightarrow> snd (snd (pop_root h)) \<le> e"
proof -
  have r: "removed_at h 0 (heap_Pop h)" using assms by (intro heap_Pop_spec) (auto simp: pq_inv_def)
  then have s: "snd (heap_Pop h) = pq_items h ! 0" "same_objs h (fst (heap_Pop h))" by (auto simp: removed_at_def)
  then have k: "hi_key (pq_objs (fst (heap_Pop h)) (pq_items h ! 0)) = hi_key (hp_at h 0)"
    "hi_expireAt (pq_objs (fst (heap_Pop h)) (pq_items h ! 0)) = hi_expireAt (hp_at h 0)" by (auto simp: same_objs_def hp_at_def)
  have e: "pop_root h = ((fst (heap_Pop h))\<lparr>pq_keys := (pq_keys (fst (heap_Pop h)))(hi_key (hp_at h 0) := None)\<rparr>,
      hi_key (hp_at h 0), hi_expireAt (hp_at h 0))"
    by (simp add: pop_root_def case_prod_unfold Let_def s(1) k)
  from removed_at_inv [OF assms(1) r assms(2) refl] show "pq_inv (fst (pop_root h))"
    "pq_map (fst (pop_root h)) = (pq_map h)(fst (snd (pop_root h)) := None)"
    "snd (pop_root h) = pq_entry h (pq_items h ! 0)" "snd (snd (pop_root h)) = hi_expireAt (hp_at h 0)"
    "add_mset (snd (pop_root h)) (pq_pending (fst (pop_root h))) = pq_pending h" "hp_Len h = Suc (hp_Len (fst (pop_root h)))"
    unfolding e by (simp_all add: pq_entry_def hp_at_def)
  fix x v assume "pq_map h x = Some v"
  then obtain a where a: "a \<in> set (pq_items h)" "hi_expireAt (pq_objs h a) = v"
    using assms(1) by (auto simp: pq_map_iff pq_inv_def pq_entry_def)
  then obtain n where n: "n < hp_Len h" "pq_items h ! n = a" by (auto simp: in_set_conv_nth hp_Len_def)
  have "vals h ! 0 \<le> vals h ! n" using assms(1) n(1) by (intro heap_order_root) (auto simp: pq_inv_def)
  then show "snd (snd (pop_root h)) \<le> v" using a n assms(2) by (simp add: e vals_def hp_at_def hp_Len_def)
qed

text \<open>Scheduling a key: a new item at the end, or the item of the key with another expiration.\<close>

lemma reschedule_spec:
  assumes i: "pq_inv h" and k: "pq_keys h k = Some a"
  shows "pq_inv (pq_schedule h k e) \<and> pq_map (pq_schedule h k e) = (pq_map h)(k \<mapsto> e)"
proof -
  have wf: "pq_wf h" and ho: "heap_order (hp_Len h) (vals h)" and keyed: "pq_keyed h"
    and fresh: "\<forall>a \<in> set (pq_items h). a < pq_next h" using i by (auto simp: pq_inv_def)
  from pq_keys_at [OF i k] obtain n where n: "n < hp_Len h" "nat (hi_index (pq_objs h a)) = n"
    "pq_items h ! n = a" "hi_key (pq_objs h a) = k" by (auto simp: hp_at_def)
  define h1 where "h1 = h\<lparr>pq_objs := (pq_objs h)(a := (pq_objs h a)\<lparr>hi_expireAt := e\<rparr>)\<rparr>"
  have len: "hp_Len h1 = hp_Len h" by (simp add: h1_def hp_Len_def)
  have wf1: "pq_wf h1" using wf by (auto simp: pq_wf_def h1_def hp_at_def hp_Len_def)
  have "pq_items h ! m = a \<longleftrightarrow> m = n" if "m < hp_Len h" for m
    using wf n that by (auto simp: pq_wf_def hp_Len_def nth_eq_iff_index_eq)
  then have v1: "vals h1 = (vals h)[n := e]"
    by (intro nth_equalityI) (auto simp: len vals_def h1_def nth_list_update hp_Len_def)
  have "but_at (hp_Len h1) (vals h1) n" unfolding v1 len using ho n(1) by (intro heap_but_at) auto
  from down_or_up_spec [OF wf1 _ _ this] n(1) have d: "pq_wf (heap_Fix h1 n)" "rearranged (hp_Len h1) h1 (heap_Fix h1 n)"
    "heap_order (hp_Len h1) (vals (heap_Fix h1 n))" by (auto simp: heap_Fix_def len)
  have eq: "pq_schedule h k e = heap_Fix h1 n" using n by (simp add: pq_schedule_def k h1_def Let_def)
  let ?h = "heap_Fix h1 n"
  have so: "same_objs h1 ?h" and m: "mset (pq_items ?h) = mset (pq_items h)"
    using rearranged_objs [OF d(2)] by (auto simp: h1_def)
  have S: "set (pq_items ?h) = set (pq_items h)" using arg_cong [OF m, of set_mset] by simp
  have key: "hi_key (pq_objs ?h x) = hi_key (pq_objs h x)" "hi_expireAt (pq_objs ?h x) = (if x = a then e else hi_expireAt (pq_objs h x))" for x
    using so by (auto simp: same_objs_def h1_def)
  have kn: "pq_keys ?h = pq_keys h" "pq_next ?h = pq_next h" using so by (auto simp: same_objs_def h1_def)
  have "pq_keyed ?h" using keyed by (simp add: pq_keyed_def S key kn)
  then have "pq_inv ?h" using d rearranged_length [OF d(2)] fresh by (simp add: pq_inv_def S kn)
  moreover have "pq_map ?h x = ((pq_map h)(k \<mapsto> e)) x" for x
  proof -
    have "y = a \<longleftrightarrow> x = k" if "pq_keys h x = Some y" for y using keyed k that unfolding pq_keyed_def by (metis option.inject)
    then show ?thesis using k by (cases "pq_keys h x") (auto simp: pq_map_def kn key)
  qed
  ultimately show ?thesis unfolding eq by auto
qed

text \<open>The pushed item at the end of the slice, before the sift.\<close>

definition pushed :: "'k pq \<Rightarrow> 'k \<Rightarrow> int \<Rightarrow> 'k pq" where
  "pushed h k e = hp_Push (h\<lparr>pq_objs := (pq_objs h)(pq_next h := \<lparr>hi_key = k, hi_expireAt = e, hi_index = 0\<rparr>), pq_next := pq_next h + 1\<rparr>) (pq_next h)"

lemma pushed_facts:
  assumes "pq_inv h"
  shows "pq_items (pushed h k e) = pq_items h @ [pq_next h]" "hp_Len (pushed h k e) = Suc (hp_Len h)"
    "pq_keys (pushed h k e) = pq_keys h" "pq_next (pushed h k e) = Suc (pq_next h)"
    "hi_key (pq_objs (pushed h k e) x) = (if x = pq_next h then k else hi_key (pq_objs h x))"
    "hi_expireAt (pq_objs (pushed h k e) x) = (if x = pq_next h then e else hi_expireAt (pq_objs h x))"
    "pq_next h \<notin> set (pq_items h)"
    "pq_wf (pushed h k e)" "but_up (Suc (hp_Len h)) (vals (pushed h k e)) (hp_Len h)"
proof -
  show items: "pq_items (pushed h k e) = pq_items h @ [pq_next h]" and "pq_keys (pushed h k e) = pq_keys h"
    "pq_next (pushed h k e) = Suc (pq_next h)" by (simp_all add: pushed_def hp_Push_def Let_def)
  show len: "hp_Len (pushed h k e) = Suc (hp_Len h)" by (simp add: items hp_Len_def)
  show obj: "hi_key (pq_objs (pushed h k e) x) = (if x = pq_next h then k else hi_key (pq_objs h x))"
    "hi_expireAt (pq_objs (pushed h k e) x) = (if x = pq_next h then e else hi_expireAt (pq_objs h x))" for x
    by (simp_all add: pushed_def hp_Push_def Let_def)
  have idx: "hi_index (pq_objs (pushed h k e) x) = (if x = pq_next h then int (hp_Len h) else hi_index (pq_objs h x))" for x
    by (simp add: pushed_def hp_Push_def Let_def hp_Len_def)
  show na: "pq_next h \<notin> set (pq_items h)" using assms by (auto simp: pq_inv_def)
  then have "pq_items h ! m \<noteq> pq_next h" if "m < hp_Len h" for m using that by (auto simp: hp_Len_def in_set_conv_nth)
  then show "pq_wf (pushed h k e)" using assms na unfolding pq_wf_def pq_inv_def
    by (auto simp: items len hp_at_def idx nth_append hp_Len_def less_Suc_eq)
  have "vals (pushed h k e) = vals h @ [e]" using na by (auto simp: vals_def items obj)
  then show "but_up (Suc (hp_Len h)) (vals (pushed h k e)) (hp_Len h)"
    using assms by (auto simp: pq_inv_def intro: append_but_up)
qed

lemma schedule_new_spec:
  assumes i: "pq_inv h" and none: "pq_keys h k = None"
  shows "pq_inv (pq_schedule h k e) \<and> pq_map (pq_schedule h k e) = (pq_map h)(k \<mapsto> e) \<and>
    pq_pending (pq_schedule h k e) = add_mset (k, e) (pq_pending h)"
proof -
  let ?a = "pq_next h"
  note p = pushed_facts [OF i]
  have keyed: "pq_keyed h" using i by (simp add: pq_inv_def)
  define h3 where "h3 = heap_up (pushed h k e) (hp_Len h)"
  have d3: "pq_wf h3" "rearranged (Suc (hp_Len h)) (pushed h k e) h3" "heap_order (Suc (hp_Len h)) (vals h3)"
    using heap_up_spec [OF pushed_facts(8) [OF i, of k e] lessI _ pushed_facts(9) [OF i, of k e]] by (auto simp: h3_def p(2))
  have eq: "pq_schedule h k e = h3\<lparr>pq_keys := (pq_keys h3)(k \<mapsto> ?a)\<rparr>"
    unfolding pq_schedule_def none heap_Push_def Let_def h3_def option.case pushed_def [symmetric] p(2) by simp
  let ?h = "h3\<lparr>pq_keys := (pq_keys h3)(k \<mapsto> ?a)\<rparr>"
  have so: "same_objs (pushed h k e) h3" and m: "mset (pq_items h3) = add_mset ?a (mset (pq_items h))"
    using rearranged_objs [OF d3(2)] p(1) by auto
  have S: "set (pq_items h3) = insert ?a (set (pq_items h))" using arg_cong [OF m, of set_mset] by simp
  have key: "hi_key (pq_objs h3 x) = (if x = ?a then k else hi_key (pq_objs h x))"
    "hi_expireAt (pq_objs h3 x) = (if x = ?a then e else hi_expireAt (pq_objs h x))" for x
    using so by (simp_all add: same_objs_def p)
  have kn: "pq_keys h3 = pq_keys h" "pq_next h3 = Suc (pq_next h)" using so by (auto simp: same_objs_def p)
  have nk: "hi_key (pq_objs h x) \<noteq> k" if "x \<in> set (pq_items h)" for x
    using keyed none that unfolding pq_keyed_def by (metis option.distinct(1))
  have keyed': "pq_keyed ?h" using keyed p(7) nk none by (auto simp: pq_keyed_def S key kn)
  have "pq_wf ?h" "vals ?h = vals h3" "hp_Len ?h = Suc (hp_Len h)" using d3 rearranged_length [OF d3(2)] p(2)
    by (simp_all add: pq_wf_def vals_def hp_Len_def hp_at_def)
  then have "pq_inv ?h" using d3 keyed' i by (auto simp: pq_inv_def S kn)
  moreover have "pq_map ?h x = ((pq_map h)(k \<mapsto> e)) x" for x
  proof -
    have "y \<noteq> ?a" if "pq_keys h x = Some y" for y using keyed p(7) that by (auto simp: pq_keyed_def)
    then show ?thesis by (cases "pq_keys h x") (auto simp: pq_map_def kn key)
  qed
  moreover have "pq_pending ?h = add_mset (k, e) (pq_pending h)"
  proof -
    have "image_mset (pq_entry ?h) (mset (pq_items h)) = image_mset (pq_entry h) (mset (pq_items h))"
      using p(7) by (intro image_mset_cong) (auto simp: pq_entry_def key)
    then show ?thesis by (simp add: pq_pending_def m) (simp add: pq_entry_def key)
  qed
  ultimately show ?thesis unfolding eq by auto
qed

lemma pq_schedule_spec:
  assumes "pq_inv h"
  shows "pq_inv (pq_schedule h k e)" "pq_map (pq_schedule h k e) = (pq_map h)(k \<mapsto> e)"
    "pq_map h k = None \<Longrightarrow> pq_pending (pq_schedule h k e) = add_mset (k, e) (pq_pending h)"
  using reschedule_spec [OF assms, of k _ e] schedule_new_spec [OF assms, of k e]
  by (cases "pq_keys h k"; auto simp: pq_map_def)+

lemma eh_Push_spec:
  assumes "pq_inv h"
  shows "pq_inv (eh_Push h k e)" "pq_map (eh_Push h k e) = (if e \<le> 0 then (pq_map h)(k := None) else (pq_map h)(k \<mapsto> e))"
  using pq_schedule_spec [OF assms] removeLocked_spec [OF assms] by (simp_all add: eh_Push_def)

lemma eh_Remove_spec:
  assumes "pq_inv h"
  shows "pq_inv (fst (eh_Remove h k))" "pq_map (fst (eh_Remove h k)) = (pq_map h)(k := None)"
    "snd (eh_Remove h k) \<longleftrightarrow> pq_map h k \<noteq> None"
  using removeLocked_spec [OF assms, of k] assms
  by (auto simp: eh_Remove_def pq_map_def fun_upd_idem_iff split: option.split)

lemma NewExpiryHeap_inv: "pq_inv NewExpiryHeap" "pq_map NewExpiryHeap = Map.empty" "pq_pending NewExpiryHeap = {#}"
  by (auto simp: NewExpiryHeap_def pq_inv_def pq_wf_def heap_order_def pq_keyed_def hp_Len_def pq_map_def pq_pending_def)

lemma eh_Clear_inv: "pq_inv (eh_Clear h)" "pq_map (eh_Clear h) = Map.empty"
  by (auto simp: eh_Clear_def pq_inv_def pq_wf_def heap_order_def pq_keyed_def hp_Len_def pq_map_def)

lemma hp_Len_card:
  assumes "pq_inv h"
  shows "hp_Len h = card (dom (pq_map h))"
proof -
  have k: "pq_keyed h" and d: "distinct (pq_items h)" using assms by (auto simp: pq_inv_def pq_wf_def)
  have "dom (pq_map h) = (\<lambda>a. hi_key (pq_objs h a)) ` set (pq_items h)"
    by (auto simp: dom_def pq_map_iff [OF k] pq_entry_def image_iff)
  then show ?thesis using card_image [OF pq_entry_inj [OF k]] distinct_card [OF d] by (simp add: hp_Len_def)
qed

section \<open>Draining\<close>

text \<open>The loop pops what is due in the order of expiration and leaves the rest.\<close>

lemma pop_due_spec:
  assumes "pq_inv h" "hp_Len h \<le> n"
  shows "let (h', xs) = pop_due n h now in pq_inv h' \<and> mset xs + pq_pending h' = pq_pending h \<and>
    pq_map h' = (\<lambda>k. case pq_map h k of None \<Rightarrow> None | Some e \<Rightarrow> if e \<le> now then None else Some e) \<and>
    set xs = {(k, e). pq_map h k = Some e \<and> e \<le> now} \<and> distinct (map fst xs) \<and> sorted (map snd xs)"
  using assms
proof (induction n arbitrary: h)
  case 0
  then have "pq_map h k = None" for k
    by (cases "pq_map h k") (auto simp: pq_map_iff pq_inv_def hp_Len_def)
  with 0 show ?case by auto
next
  case (Suc n)
  show ?case
  proof (cases "0 < hp_Len h \<and> hi_expireAt (hp_at h 0) \<le> now")
    case False
    have "now < e" if "pq_map h k = Some e" for k e
    proof -
      from that have "0 < hp_Len h" using Suc.prems(1) by (auto simp: pq_map_iff pq_inv_def hp_Len_def)
      with pop_root_spec(4,7) [OF Suc.prems(1) this] that False show ?thesis by force
    qed
    then show ?thesis using False Suc.prems(1) by (force simp: fun_eq_iff split: option.split)
  next
    case True
    obtain h1 k e where r: "pop_root h = (h1, k, e)" by (cases "pop_root h")
    note p = pop_root_spec [OF Suc.prems(1), unfolded r fst_conv snd_conv]
    obtain h' xs where l: "pop_due n h1 now = (h', xs)" by (cases "pop_due n h1 now")
    have e: "e \<le> now" "pq_map h k = Some e" using p(3,4) True Suc.prems(1)
      by (auto simp: pq_map_iff pq_inv_def hp_Len_def)
    have ih: "pq_inv h'" "mset xs + pq_pending h' = pq_pending h1"
      "pq_map h' = (\<lambda>k. case pq_map h1 k of None \<Rightarrow> None | Some e \<Rightarrow> if e \<le> now then None else Some e)"
      "set xs = {(k, e). pq_map h1 k = Some e \<and> e \<le> now}" "distinct (map fst xs)" "sorted (map snd xs)"
      using Suc.IH [of h1] p(1,6) True Suc.prems(2) l by auto
    have h1: "pq_map h1 = (pq_map h)(k := None)" using p(2) True by simp
    have "set ((k, e) # xs) = {(k, e). pq_map h k = Some e \<and> e \<le> now}" using e by (auto simp: ih(4) h1 split: if_splits)
    moreover have "k \<notin> fst ` set xs" by (auto simp: ih(4) h1)
    moreover have "e \<le> v" if "v \<in> snd ` set xs" for v using that p(7) True by (auto simp: ih(4) h1 split: if_splits)
    moreover have "pq_map h' = (\<lambda>k. case pq_map h k of None \<Rightarrow> None | Some e \<Rightarrow> if e \<le> now then None else Some e)"
      using e by (auto simp: ih(3) h1 fun_eq_iff)
    ultimately show ?thesis using ih True p(5) by (simp add: r l)
  qed
qed

lemma pq_drain_spec:
  assumes "pq_inv h"
  shows "pq_inv (fst (pq_drain h now))" "mset (snd (pq_drain h now)) + pq_pending (fst (pq_drain h now)) = pq_pending h"
    "pq_map (fst (pq_drain h now)) = (\<lambda>k. case pq_map h k of None \<Rightarrow> None | Some e \<Rightarrow> if e \<le> now then None else Some e)"
    "set (snd (pq_drain h now)) = {(k, e). pq_map h k = Some e \<and> e \<le> now}"
    "distinct (map fst (snd (pq_drain h now)))" "sorted (map snd (snd (pq_drain h now)))"
  using pop_due_spec [OF assms order_refl, of now] by (auto simp: pq_drain_def case_prod_unfold Let_def)

interpretation eq: expiry_queue "\<lambda>h (k, e). pq_schedule h k e" pq_drain snd pq_pending "\<lambda>_. 0" pq_inv
  "\<lambda>h (k, e). pq_map h k = None"
proof unfold_locales
  fix h :: "'a pq" and x :: "'a \<times> int" and now :: int
  assume i: "pq_inv h"
  show "(case x of (k, e) \<Rightarrow> pq_map h k = None) \<Longrightarrow> pq_inv (case x of (k, e) \<Rightarrow> pq_schedule h k e)"
    "(case x of (k, e) \<Rightarrow> pq_map h k = None) \<Longrightarrow> pq_pending (case x of (k, e) \<Rightarrow> pq_schedule h k e) = add_mset x (pq_pending h)"
    using pq_schedule_spec [OF i] by (auto split: prod.split)
  show "pq_inv (fst (pq_drain h now))" "mset (snd (pq_drain h now)) + pq_pending (fst (pq_drain h now)) = pq_pending h"
    using pq_drain_spec [OF i] by auto
  show "x \<in> set (snd (pq_drain h now)) \<Longrightarrow> snd x \<le> now" using pq_drain_spec(4) [OF i] by auto
  show "x \<in># pq_pending (fst (pq_drain h now)) \<Longrightarrow> now - 0 < snd x"
    using pq_drain_spec(1,3) [OF i] by (cases x) (auto simp: pq_pending_member pq_inv_def split: option.splits if_splits)
qed

section \<open>The heap as a schedule\<close>

datatype 'k heap_op = HPush 'k int | HRemove 'k

primrec heap_step :: "'k pq \<Rightarrow> 'k heap_op \<Rightarrow> 'k pq" where
  "heap_step h (HPush k e) = eh_Push h k e"
| "heap_step h (HRemove k) = fst (eh_Remove h k)"

primrec schedule_step :: "('k \<rightharpoonup> int) \<Rightarrow> 'k heap_op \<Rightarrow> ('k \<rightharpoonup> int)" where
  "schedule_step m (HPush k e) = (if e \<le> 0 then m(k := None) else m(k \<mapsto> e))"
| "schedule_step m (HRemove k) = m(k := None)"

lemma heap_steps:
  "pq_inv h \<Longrightarrow> pq_inv (foldl heap_step h ops) \<and> pq_map (foldl heap_step h ops) = foldl schedule_step (pq_map h) ops"
proof (induction ops arbitrary: h)
  case (Cons x ops)
  have "pq_inv (heap_step h x)" "pq_map (heap_step h x) = schedule_step (pq_map h) x"
    using Cons.prems by (cases x; simp add: eh_Push_spec eh_Remove_spec)+
  with Cons.IH show ?case by simp
qed simp

text \<open>
  C36: The expiry heap is a schedule of keys. After any sequence of pushes (which replace the time of a
  key, or forget the key when the time is not positive) and removals, \<open>PeekExpireAt\<close> gives the earliest
  time, \<open>PopExpired\<close> returns exactly the keys that are due, each once and in the order of their times,
  and leaves exactly the others.
\<close>

theorem expiry_heap_is_schedule:
  fixes ops :: "u64 heap_op list" and now :: int
  defines "h \<equiv> foldl heap_step NewExpiryHeap ops" and "m \<equiv> foldl schedule_step Map.empty ops"
  shows "eh_Len h = card (dom m) \<and>
    (PeekExpireAt h = (if m = Map.empty then 0 else Min (ran m))) \<and>
    set (snd (eh_PopExpired h now)) = {k. \<exists>e. m k = Some e \<and> e \<le> now} \<and> distinct (snd (eh_PopExpired h now)) \<and>
    sorted (map (\<lambda>k. the (m k)) (snd (eh_PopExpired h now))) \<and>
    pq_map (fst (eh_PopExpired h now)) = m |` {k. \<not> (\<exists>e. m k = Some e \<and> e \<le> now)}"
proof -
  have i: "pq_inv h" "pq_map h = m"
    using heap_steps [OF NewExpiryHeap_inv(1), of ops, unfolded NewExpiryHeap_inv(2)] by (auto simp: h_def m_def)
  have fin: "finite (ran m)" "m \<noteq> Map.empty \<longleftrightarrow> 0 < hp_Len h"
  proof -
    have "dom m \<subseteq> (\<lambda>a. hi_key (pq_objs h a)) ` set (pq_items h)"
      using i by (auto simp: pq_map_iff pq_inv_def pq_entry_def)
    then have f: "finite (dom m)" by (rule finite_subset) simp
    then show "finite (ran m)" by (rule finite_ran)
    show "m \<noteq> Map.empty \<longleftrightarrow> 0 < hp_Len h" using f hp_Len_card [OF i(1)] i(2) by (simp add: card_gt_0_iff)
  qed
  have peek: "PeekExpireAt h = (if m = Map.empty then 0 else Min (ran m))"
  proof (cases "0 < hp_Len h")
    case True
    note p = pop_root_spec [OF i(1) True]
    have "m (hi_key (hp_at h 0)) = Some (hi_expireAt (hp_at h 0))"
      using True i by (auto simp: pq_map_iff pq_inv_def pq_entry_def hp_at_def hp_Len_def intro!: bexI [of _ "pq_items h ! 0"])
    then have "Min (ran m) = hi_expireAt (hp_at h 0)"
      using p(4,7) i(2) fin(1) by (intro Min_eqI) (auto simp: ran_def)
    then show ?thesis using True fin(2) by (simp add: PeekExpireAt_def)
  qed (use fin(2) in \<open>simp add: PeekExpireAt_def\<close>)
  note d = pq_drain_spec [OF i(1), unfolded i(2), of now]
  have e: "eh_PopExpired h now = (fst (pq_drain h now), map fst (snd (pq_drain h now)))"
    by (simp add: eh_PopExpired_def case_prod_unfold Let_def)
  have eq: "map (\<lambda>k. the (m k)) (map fst (snd (pq_drain h now))) = map snd (snd (pq_drain h now))"
    using d(4) by auto
  have srt: "sorted (map (\<lambda>k. the (m k)) (map fst (snd (pq_drain h now))))" unfolding eq by (rule d(6))
  have "pq_map (fst (pq_drain h now)) = m |` {k. \<not> (\<exists>e. m k = Some e \<and> e \<le> now)}"
    unfolding d(3) by (auto simp: restrict_map_def fun_eq_iff split: option.split)
  with srt peek hp_Len_card [OF i(1), unfolded i(2)] d(4,5) show ?thesis unfolding e
    by (auto simp: image_iff eh_Len_def simp del: map_map)
qed

end
