(* ===== verification/SafeMap.thy ===== *)
theory SafeMap
  imports PowerOfTwo KvStore
begin

text \<open>
  \<open>item/item.go\<close> and \<open>safeMap/safe.go\<close>: the entries of the legacy driver and their map, split over a
  power of two of shards by the FNV-1a hash of the key at 32 bits. A Go map is a partial function;
  where a method ranges over the maps, the order is the argument \<open>ord\<close> as in the sharded store.
\<close>

section \<open>Items\<close>

record 'v MapItem =
  im_Key :: string
  im_ExpireAt :: int \<comment> \<open>Unix nanoseconds, 0 for no expiration\<close>
  im_Data :: "byte list"
  im_DataLink :: 'v

definition im_IsExpired :: "'v MapItem \<Rightarrow> int \<Rightarrow> bool" where
  "im_IsExpired i nowNano \<longleftrightarrow> im_ExpireAt i > 0 \<and> nowNano > im_ExpireAt i"

definition im_IsExpiredZero :: "'v MapItem \<Rightarrow> bool" where
  "im_IsExpiredZero i \<longleftrightarrow> im_ExpireAt i = 0"

section \<open>Storage\<close>

record 'v Storage =
  sm_shards :: "(string \<rightharpoonup> 'v MapItem) list"
  sm_shardMask :: u32
  sm_size :: int

definition sm_defaultShardCount :: int where
  "sm_defaultShardCount = 1024"

definition sm_WithShardCount :: "int \<Rightarrow> int \<Rightarrow> int" where
  "sm_WithShardCount n shards = (if n > 0 \<and> n AND (n - 1) = 0 then n else shards)"

text \<open>\<open>None\<close> is the panic on a shard count that is not a power of two.\<close>

definition NewStorage :: "(int \<Rightarrow> int) list \<Rightarrow> 'v Storage option" where
  "NewStorage opts =
     (let cfg = foldl (\<lambda>cfg opt. opt cfg) sm_defaultShardCount opts
      in if cfg \<le> 0 \<or> cfg AND (cfg - 1) \<noteq> 0 then None
         else Some \<lparr>sm_shards = replicate (nat cfg) Map.empty, sm_shardMask = word_of_int (cfg - 1), sm_size = 0\<rparr>)"

definition bucketIndex :: "'v Storage \<Rightarrow> string \<Rightarrow> nat" where
  "bucketIndex s key =
     (let h = foldl (\<lambda>h c. (h XOR of_char c) * 16777619) (2166136261 :: u32) key
      in unat (h AND sm_shardMask s))"

definition sm_bucket :: "'v Storage \<Rightarrow> string \<Rightarrow> (string \<rightharpoonup> 'v MapItem)" where
  "sm_bucket s key = sm_shards s ! bucketIndex s key"

definition sm_assign :: "'v Storage \<Rightarrow> string \<Rightarrow> 'v MapItem option \<Rightarrow> 'v Storage" where
  "sm_assign s key x = s\<lparr>sm_shards := (sm_shards s)[bucketIndex s key := (sm_bucket s key)(key := x)]\<rparr>"

definition InsertItem :: "'v Storage \<Rightarrow> string \<Rightarrow> 'v MapItem \<Rightarrow> 'v Storage" where
  "InsertItem s key it =
     (let s' = (if sm_bucket s key key = None then s\<lparr>sm_size := i64 (sm_size s + 1)\<rparr> else s)
      in sm_assign s' key (Some it))"

text \<open>The dynamic types \<open>Insert\<close> distinguishes; a value of any other type is ignored.\<close>

datatype 'v insertable = ItemPointer "'v MapItem" | ItemValue "'v MapItem" | OtherValue

fun sm_Insert :: "'v Storage \<Rightarrow> string \<Rightarrow> 'v insertable \<Rightarrow> 'v Storage" where
  "sm_Insert s key (ItemPointer v) = InsertItem s key v"
| "sm_Insert s key (ItemValue v) =
     InsertItem s key \<lparr>im_Key = im_Key v, im_ExpireAt = im_ExpireAt v, im_Data = im_Data v, im_DataLink = im_DataLink v\<rparr>"
| "sm_Insert s key OtherValue = s"

definition sm_Delete :: "'v Storage \<Rightarrow> string \<Rightarrow> 'v Storage" where
  "sm_Delete s key =
     (if sm_bucket s key key \<noteq> None
      then let s = sm_assign s key None in s\<lparr>sm_size := i64 (sm_size s - 1)\<rparr> else s)"

definition FindItem :: "'v Storage \<Rightarrow> string \<Rightarrow> 'v MapItem option" where
  "FindItem s key = sm_bucket s key key"

definition sm_Find :: "'v Storage \<Rightarrow> string \<Rightarrow> 'v MapItem option" where
  "sm_Find s key = (case FindItem s key of None \<Rightarrow> None | Some it \<Rightarrow> Some it)"

definition sm_Len :: "'v Storage \<Rightarrow> int" where
  "sm_Len s = sm_size s"

definition sm_Truncate :: "'v Storage \<Rightarrow> 'v Storage" where
  "sm_Truncate s =
     s\<lparr>sm_size := foldl (\<lambda>sz sh. if card (dom sh) > 0 then i64 (sz - int (card (dom sh))) else sz) (sm_size s) (sm_shards s),
       sm_shards := map (\<lambda>_. Map.empty) (sm_shards s)\<rparr>"

definition RemoveIfExpired :: "'v Storage \<Rightarrow> string \<Rightarrow> int \<Rightarrow> 'v Storage \<times> bool" where
  "RemoveIfExpired s key nowNano =
     (case sm_bucket s key key of
        None \<Rightarrow> (s, False)
      | Some it \<Rightarrow>
          if im_IsExpired it nowNano
          then let s = sm_assign s key None in (s\<lparr>sm_size := i64 (sm_size s - 1)\<rparr>, True)
          else (s, False))"

text \<open>The body of the loop of \<open>FlushKeys\<close> does the same to a key as \<open>RemoveIfExpired\<close>.\<close>

definition FlushKeys :: "'v Storage \<Rightarrow> string list \<Rightarrow> int \<Rightarrow> 'v Storage" where
  "FlushKeys s keys nowNano =
     foldl (\<lambda>s k. case sm_bucket s k k of
         None \<Rightarrow> s
       | Some it \<Rightarrow>
           if im_IsExpired it nowNano
           then let s = sm_assign s k None in s\<lparr>sm_size := i64 (sm_size s - 1)\<rparr>
           else s) s keys"

definition GetAllKeys :: "(nat \<Rightarrow> string set \<Rightarrow> string list) \<Rightarrow> 'v Storage \<Rightarrow> string list" where
  "GetAllKeys ord s = concat (map (\<lambda>i. ord i (dom (sm_shards s ! i))) [0..<length (sm_shards s)])"

definition sm_Close :: "'v Storage \<Rightarrow> int \<Rightarrow> (string \<rightharpoonup> 'v MapItem)" where
  "sm_Close s nowNano =
     foldl (\<lambda>allData sh. allData ++ (\<lambda>k. case sh k of None \<Rightarrow> None | Some v \<Rightarrow> if \<not> im_IsExpired v nowNano then Some v else None))
       Map.empty (sm_shards s)"

section \<open>The map a storage denotes\<close>

definition sm_inv :: "'v Storage \<Rightarrow> bool" where
  "sm_inv s \<longleftrightarrow> 0 < length (sm_shards s) \<and> length (sm_shards s) \<le> 2 ^ 31 \<and>
     sm_shardMask s = of_nat (length (sm_shards s) - 1) \<and>
     (\<forall>i < length (sm_shards s). finite (dom (sm_shards s ! i)) \<and> (\<forall>k. (sm_shards s ! i) k \<noteq> None \<longrightarrow> bucketIndex s k = i)) \<and>
     sm_size s = i64 (int (card (dom (FindItem s))))"

lemma bucketIndex_cong: "sm_shardMask s' = sm_shardMask s \<Longrightarrow> bucketIndex s' = bucketIndex s"
  by (simp add: bucketIndex_def fun_eq_iff)

lemma bucketIndex_upd [simp]: "bucketIndex (s\<lparr>sm_size := n\<rparr>) = bucketIndex s" "bucketIndex (sm_assign s k x) = bucketIndex s"
  by (rule bucketIndex_cong; simp add: sm_assign_def)+

lemma sm_bucket_size [simp]: "sm_bucket (s\<lparr>sm_size := n\<rparr>) = sm_bucket s" "FindItem (s\<lparr>sm_size := n\<rparr>) = FindItem s"
  by (simp_all add: sm_bucket_def FindItem_def fun_eq_iff)

lemma sm_assign_size [simp]: "sm_assign (s\<lparr>sm_size := n\<rparr>) k x = (sm_assign s k x)\<lparr>sm_size := n\<rparr>"
  "sm_size (sm_assign s k x) = sm_size s"
  by (simp_all add: sm_assign_def)

lemma unat_of_nat_u32: "n < 2 ^ 32 \<Longrightarrow> unat (of_nat n :: u32) = n"
  by (simp add: unat_of_nat)

lemma in_own_shard: "sm_inv s \<Longrightarrow> i < length (sm_shards s) \<Longrightarrow> (sm_shards s ! i) k \<noteq> None \<Longrightarrow> bucketIndex s k = i"
  by (auto simp: sm_inv_def)

lemma bucketIndex_bound: "sm_inv s \<Longrightarrow> bucketIndex s k < length (sm_shards s)"
proof -
  assume i: "sm_inv s"
  then have l: "0 < length (sm_shards s)" "length (sm_shards s) \<le> 2 ^ 31" "sm_shardMask s = of_nat (length (sm_shards s) - 1)"
    by (auto simp: sm_inv_def)
  have "h AND sm_shardMask s \<le> sm_shardMask s" for h by (rule word_and_le1)
  then have "bucketIndex s k \<le> unat (sm_shardMask s)" unfolding bucketIndex_def Let_def word_le_nat_alt .
  also have "unat (sm_shardMask s) = length (sm_shards s) - 1"
    unfolding l(3) by (rule unat_of_nat_u32) (use l in simp)
  finally show ?thesis using l(1) by linarith
qed

lemma FindItem_assign:
  assumes "sm_inv s"
  shows "FindItem (sm_assign s k x) = (FindItem s)(k := x)"
  using bucketIndex_bound [OF assms]
  by (auto simp: FindItem_def sm_bucket_def fun_eq_iff) (auto simp: sm_assign_def sm_bucket_def nth_list_update)

lemma FindItem_shard: "sm_inv s \<Longrightarrow> FindItem s k = Some it \<longleftrightarrow> (\<exists>i < length (sm_shards s). (sm_shards s ! i) k = Some it)"
proof -
  assume i: "sm_inv s"
  have "(sm_shards s ! j) k = Some it \<Longrightarrow> j < length (sm_shards s) \<Longrightarrow> bucketIndex s k = j" for j
    using i by (auto simp: sm_inv_def)
  then show ?thesis using bucketIndex_bound [OF i, of k] by (auto simp: FindItem_def sm_bucket_def)
qed

lemma dom_FindItem: "sm_inv s \<Longrightarrow> dom (FindItem s) = (\<Union>i<length (sm_shards s). dom (sm_shards s ! i))"
  using FindItem_shard by (fastforce simp: dom_def)

lemma finite_FindItem: "sm_inv s \<Longrightarrow> finite (dom (FindItem s))"
  by (simp add: dom_FindItem) (simp add: sm_inv_def)

lemma sm_inv_assign:
  assumes "sm_inv s" "n = i64 (int (card (dom ((FindItem s)(k := x)))))"
  shows "sm_inv ((sm_assign s k x)\<lparr>sm_size := n\<rparr>)"
proof -
  have sh: "sm_shards (sm_assign s k x) ! i = (if i = bucketIndex s k then (sm_shards s ! i)(k := x) else sm_shards s ! i)"
    if "i < length (sm_shards s)" for i using that by (simp add: sm_assign_def sm_bucket_def nth_list_update)
  have fin: "finite (dom (m(k := x)))" if "finite (dom m)" for m :: "string \<rightharpoonup> 'a MapItem"
    by (rule finite_subset [of _ "insert k (dom m)"]) (use that in \<open>auto split: if_splits\<close>)
  have "length (sm_shards (sm_assign s k x)) = length (sm_shards s)" "sm_shardMask (sm_assign s k x) = sm_shardMask s"
    by (simp_all add: sm_assign_def)
  note frame = this
  show ?thesis unfolding sm_inv_def
  proof (intro conjI allI impI)
    let ?s = "(sm_assign s k x)\<lparr>sm_size := n\<rparr>"
    show "0 < length (sm_shards ?s)" "length (sm_shards ?s) \<le> 2 ^ 31" "sm_shardMask ?s = of_nat (length (sm_shards ?s) - 1)"
      using assms(1) frame by (auto simp: sm_inv_def)
    show "sm_size ?s = i64 (int (card (dom (FindItem ?s))))" using assms(2) by (simp add: FindItem_assign [OF assms(1)])
    fix i assume "i < length (sm_shards ?s)"
    then have i: "i < length (sm_shards s)" using frame by simp
    then show "finite (dom (sm_shards ?s ! i))" using assms(1) fin by (simp add: sh sm_inv_def del: dom_fun_upd)
    show "(sm_shards ?s ! i) y \<noteq> None \<Longrightarrow> bucketIndex ?s y = i" for y
      using assms(1) i by (auto simp: sh sm_inv_def split: if_splits)
  qed
qed

lemma InsertItem_spec:
  assumes "sm_inv s"
  shows "sm_inv (InsertItem s k it)" "FindItem (InsertItem s k it) = (FindItem s)(k \<mapsto> it)"
proof -
  let ?n = "if FindItem s k = None then i64 (sm_size s + 1) else sm_size s"
  have e: "InsertItem s k it = (sm_assign s k (Some it))\<lparr>sm_size := ?n\<rparr>"
    by (simp add: InsertItem_def FindItem_def Let_def)
  have "?n = i64 (int (card (dom ((FindItem s)(k := Some it)))))"
  proof (cases "FindItem s k")
    case None
    then show ?thesis using assms card_dom_insert [OF finite_FindItem [OF assms] None, of it]
      by (simp add: sm_inv_def add.commute del: dom_fun_upd)
  next
    case (Some v)
    then show ?thesis using assms by (simp add: sm_inv_def insert_absorb domIff)
  qed
  then show "sm_inv (InsertItem s k it)" unfolding e by (rule sm_inv_assign [OF assms])
  show "FindItem (InsertItem s k it) = (FindItem s)(k \<mapsto> it)" unfolding e by (simp add: FindItem_assign [OF assms])
qed

lemma remove_spec:
  assumes "sm_inv s" "FindItem s k = Some it"
  shows "sm_inv ((sm_assign s k None)\<lparr>sm_size := i64 (sm_size s - 1)\<rparr>)"
  using assms card_dom_delete [OF finite_FindItem [OF assms(1)] assms(2)]
  by (intro sm_inv_assign) (auto simp: sm_inv_def simp del: dom_fun_upd)

lemma sm_Delete_spec:
  assumes "sm_inv s"
  shows "sm_inv (sm_Delete s k)" "FindItem (sm_Delete s k) = (FindItem s)(k := None)"
  using remove_spec [OF assms, of k] assms
  by (auto simp: sm_Delete_def FindItem_assign FindItem_def [of s k, symmetric] fun_upd_idem_iff)

lemma RemoveIfExpired_spec:
  assumes "sm_inv s"
  shows "sm_inv (fst (RemoveIfExpired s k now))"
    "FindItem (fst (RemoveIfExpired s k now)) =
      (case FindItem s k of Some it \<Rightarrow> if im_IsExpired it now then (FindItem s)(k := None) else FindItem s | None \<Rightarrow> FindItem s)"
    "snd (RemoveIfExpired s k now) \<longleftrightarrow> (\<exists>it. FindItem s k = Some it \<and> im_IsExpired it now)"
  using remove_spec [OF assms, of k] assms
  by (auto simp: RemoveIfExpired_def FindItem_assign FindItem_def [of s k, symmetric] split: option.split)

lemma FlushKeys_spec:
  assumes "sm_inv s"
  shows "sm_inv (FlushKeys s ks now) \<and>
    FindItem (FlushKeys s ks now) = (\<lambda>k. case FindItem s k of None \<Rightarrow> None
      | Some it \<Rightarrow> if k \<in> set ks \<and> im_IsExpired it now then None else Some it)"
  using assms
proof (induction ks arbitrary: s)
  case Nil
  then show ?case by (auto simp: FlushKeys_def fun_eq_iff split: option.split)
next
  case (Cons k ks)
  have e: "FlushKeys s (k # ks) now = FlushKeys (fst (RemoveIfExpired s k now)) ks now"
    by (auto simp: FlushKeys_def RemoveIfExpired_def Let_def split: option.split)
  from Cons.IH [OF RemoveIfExpired_spec(1) [OF Cons.prems, of k now]] show ?case
    unfolding e RemoveIfExpired_spec(2) [OF Cons.prems] by (auto simp: fun_eq_iff split: option.splits if_splits)
qed

lemma sm_Truncate_spec:
  assumes "sm_inv s"
  shows "sm_inv (sm_Truncate s)" "FindItem (sm_Truncate s) = Map.empty"
proof -
  have fold: "i64 (foldl (\<lambda>sz sh. if card (dom sh) > 0 then i64 (sz - int (card (dom sh))) else sz) sz shs) =
      i64 (sz - int (\<Sum>sh\<leftarrow>shs. card (dom sh)))" for sz and shs :: "(string \<rightharpoonup> 'a MapItem) list"
    by (induction shs arbitrary: sz) (simp_all add: algebra_simps)
  have "card (dom (FindItem s)) = (\<Sum>i<length (sm_shards s). card (dom (sm_shards s ! i)))"
    unfolding dom_FindItem [OF assms] using assms
    by (intro card_UN_disjoint) (auto simp: sm_inv_def, metis option.distinct(1))
  then have c: "card (dom (FindItem s)) = (\<Sum>sh\<leftarrow>sm_shards s. card (dom sh))"
    by (simp add: sum_list_sum_nth atLeast0LessThan)
  have "i64 (sm_size (sm_Truncate s)) = i64 (sm_size s - int (card (dom (FindItem s))))"
    by (simp add: sm_Truncate_def fold c)
  also have "\<dots> = 0" using assms by (simp add: sm_inv_def)
  finally have z: "i64 (sm_size (sm_Truncate s)) = 0" .
  have idem: "i64 (sm_size s) = sm_size s" using assms by (simp add: sm_inv_def)
  have "i64 (foldl (\<lambda>sz sh. if card (dom sh) > 0 then i64 (sz - int (card (dom sh))) else sz) sz shs) =
     foldl (\<lambda>sz sh. if card (dom sh) > 0 then i64 (sz - int (card (dom sh))) else sz) sz shs" if "i64 sz = sz"
    for sz and shs :: "(string \<rightharpoonup> 'a MapItem) list" using that by (induction shs arbitrary: sz) simp_all
  from this [OF idem] z have sz: "sm_size (sm_Truncate s) = 0" by (simp add: sm_Truncate_def)
  have b: "bucketIndex (sm_Truncate s) = bucketIndex s" by (rule bucketIndex_cong) (simp add: sm_Truncate_def)
  show m: "FindItem (sm_Truncate s) = Map.empty"
    using bucketIndex_bound [OF assms] by (simp add: FindItem_def sm_bucket_def b fun_eq_iff) (simp add: sm_Truncate_def)
  show "sm_inv (sm_Truncate s)" using assms unfolding sm_inv_def m b sz by (simp add: sm_Truncate_def)
qed

lemma merge_none: "\<forall>sh \<in> set shs. f sh k = None \<Longrightarrow> foldl (\<lambda>a sh. a ++ f sh) m shs k = m k"
  by (induction shs arbitrary: m) (auto simp: map_add_def)

lemma sm_Close_spec:
  assumes "sm_inv s"
  shows "sm_Close s now = (\<lambda>k. case FindItem s k of None \<Rightarrow> None | Some it \<Rightarrow> if im_IsExpired it now then None else Some it)"
proof
  fix k
  define f where "f = (\<lambda>sh :: string \<rightharpoonup> 'a MapItem. \<lambda>k. case sh k of None \<Rightarrow> None | Some v \<Rightarrow> if \<not> im_IsExpired v now then Some v else None)"
  let ?b = "bucketIndex s k" and ?shs = "sm_shards s"
  have b: "?b < length ?shs" by (rule bucketIndex_bound [OF assms])
  have other: "(?shs ! i) k = None" if "i < length ?shs" "i \<noteq> ?b" for i
    using in_own_shard [OF assms, of i k] that by blast
  have none: "\<forall>sh \<in> set (take ?b ?shs). f sh k = None" "\<forall>sh \<in> set (drop (Suc ?b) ?shs). f sh k = None"
    using other b by (auto simp: f_def in_set_conv_nth)
  have "sm_Close s now k = foldl (\<lambda>a sh. a ++ f sh) Map.empty (take ?b ?shs @ ?shs ! ?b # drop (Suc ?b) ?shs) k"
    using id_take_nth_drop [OF b] by (simp add: sm_Close_def f_def)
  also have "\<dots> = f (?shs ! ?b) k" using merge_none [where f = f, OF none(1)] merge_none [where f = f, OF none(2)] by (simp add: map_add_def split: option.split)
  finally show "sm_Close s now k = (case FindItem s k of None \<Rightarrow> None | Some it \<Rightarrow> if im_IsExpired it now then None else Some it)"
    by (simp add: f_def FindItem_def sm_bucket_def split: option.split)
qed

interpretation sm: kv_store FindItem InsertItem sm_Delete sm_Truncate sm_Len sm_inv "\<lambda>_ _ _. True"
proof unfold_locales
  fix s :: "'a Storage"
  show "sm_inv s \<Longrightarrow> sm_Len s = i64 (int (card (dom (FindItem s))))" by (simp add: sm_Len_def sm_inv_def)
qed (simp_all add: InsertItem_spec sm_Delete_spec sm_Truncate_spec finite_FindItem)

text \<open>The mask of a default storage selects a shard.\<close>

lemma NewStorage_inv:
  assumes "NewStorage opts = Some s" "length (sm_shards s) \<le> 2 ^ 31"
  shows "sm_inv s" "FindItem s = Map.empty"
proof -
  define cfg where "cfg = foldl (\<lambda>cfg opt. opt cfg) sm_defaultShardCount opts"
  from assms have c: "0 < cfg" "cfg \<le> 2 ^ 31"
    "s = \<lparr>sm_shards = replicate (nat cfg) Map.empty, sm_shardMask = word_of_int (cfg - 1), sm_size = 0\<rparr>"
    by (auto simp: NewStorage_def cfg_def [symmetric] Let_def split: if_splits)
  have m: "(word_of_int (cfg - 1) :: u32) = of_nat (nat cfg - 1)" using c(1) by (simp add: of_nat_diff)
  have l: "length (sm_shards s) = nat cfg" by (simp add: c(3))
  have mask: "sm_shardMask s = of_nat (length (sm_shards s) - 1)" unfolding l using m by (simp add: c(3))
  have "unat (sm_shardMask s) = nat cfg - 1" unfolding mask l by (rule unat_of_nat_u32) (use c in simp)
  moreover have "bucketIndex s k \<le> unat (sm_shardMask s)" for k
    unfolding bucketIndex_def Let_def by (simp add: word_and_le1 flip: word_le_nat_alt)
  ultimately have "bucketIndex s k < nat cfg" for k using c(1) by (metis Suc_pred' le_imp_less_Suc zero_less_nat_eq)
  then show f: "FindItem s = Map.empty" by (simp add: FindItem_def sm_bucket_def c(3) fun_eq_iff)
  show "sm_inv s" unfolding sm_inv_def f mask using c by (auto simp: c(3))
qed

end
