(* ===== verification/LegacyDriver.thy ===== *)
theory LegacyDriver
  imports IndexedHeap SafeMap
begin

text \<open>
  \<open>gcmap/gcmap_worker.go\<close> and \<open>mcache.go\<close>: the collector that schedules the keys of the legacy
  driver in a heap and flushes them from the storage, and the driver. Every reading of the clock is an
  argument. The goroutine \<open>run\<close> is the step \<open>gc_round\<close>: one round of its loop, given what the clock
  says and which channel its \<open>select\<close> finds ready. The timer and the locks have no other effect.
\<close>

section \<open>The collector\<close>

record GC =
  gc_pq :: "string pq"
  gc_wakeSignal :: bool \<comment> \<open>whether the channel of capacity one holds a signal\<close>
  gc_stopped :: bool
  gc_defaultPollInterval :: int

definition WithPollInterval :: "int \<Rightarrow> int \<Rightarrow> int" where
  "WithPollInterval d poll = (if d > 0 then d else poll)"

definition NewGC :: "(int \<Rightarrow> int) list \<Rightarrow> GC" where
  "NewGC opts = \<lparr>gc_pq = NewExpiryHeap, gc_wakeSignal = False, gc_stopped = False,
     gc_defaultPollInterval = foldl (\<lambda>poll opt. opt poll) 60000000000 opts\<rparr>"

definition signalWakeUp :: "GC \<Rightarrow> GC" where
  "signalWakeUp gc = gc\<lparr>gc_wakeSignal := True\<rparr>"

definition gc_Expired :: "GC \<Rightarrow> int \<Rightarrow> string \<Rightarrow> int \<Rightarrow> GC" where
  "gc_Expired gc now key duration =
     (if duration \<le> 0 then gc
      else let expireAt = i64 (now + duration);
               gc = gc\<lparr>gc_pq := pq_schedule (gc_pq gc) key expireAt\<rparr>;
               shouldWake = (hp_Len (gc_pq gc) > 0 \<and> hi_key (hp_at (gc_pq gc) 0) = key)
           in if shouldWake then signalWakeUp gc else gc)"

definition calculateNextWakeIntervalLocked :: "GC \<Rightarrow> int \<Rightarrow> int" where
  "calculateNextWakeIntervalLocked gc nowNano =
     (if hp_Len (gc_pq gc) = 0 then - 1
      else let delta = i64 (hi_expireAt (hp_at (gc_pq gc) 0) - nowNano) in if delta \<le> 0 then 0 else delta)"

definition processExpiredKeys :: "GC \<times> 'v Storage \<Rightarrow> int \<Rightarrow> GC \<times> 'v Storage" where
  "processExpiredKeys = (\<lambda>(gc, storage) nowNano.
     let (pq, keys) = eh_PopExpired (gc_pq gc) nowNano
     in (gc\<lparr>gc_pq := pq\<rparr>, if length keys > 0 then FlushKeys storage keys nowNano else storage))"

text \<open>What the \<open>select\<close> receives, and the duration of the timer it waits for.\<close>

datatype gc_signal = CtxDone | StopSignal | WakeSignal | TimerFired

definition gc_sleep :: "GC \<Rightarrow> int \<Rightarrow> int" where
  "gc_sleep gc nowNano =
     (let nextInterval = calculateNextWakeIntervalLocked gc nowNano
      in if nextInterval > 0 then nextInterval else gc_defaultPollInterval gc)"

text \<open>The last component tells whether the loop goes on.\<close>

definition gc_round :: "GC \<times> 'v Storage \<Rightarrow> int \<Rightarrow> gc_signal \<Rightarrow> int \<Rightarrow> (GC \<times> 'v Storage) \<times> bool" where
  "gc_round st nowNano signal later =
     (if calculateNextWakeIntervalLocked (fst st) nowNano = 0 then (processExpiredKeys st later, True)
      else case signal of
        CtxDone \<Rightarrow> (st, False)
      | StopSignal \<Rightarrow> (st, False)
      | WakeSignal \<Rightarrow> (((fst st)\<lparr>gc_wakeSignal := False\<rparr>, snd st), True)
      | TimerFired \<Rightarrow> (processExpiredKeys st later, True))"

definition gc_Stop :: "GC \<Rightarrow> GC" where
  "gc_Stop gc = gc\<lparr>gc_stopped := True\<rparr>"

definition LenBufferKeyChan :: "GC \<Rightarrow> nat" where
  "LenBufferKeyChan gc = hp_Len (gc_pq gc)"

definition gc_Truncate :: "GC \<Rightarrow> GC" where
  "gc_Truncate gc = gc\<lparr>gc_pq := (gc_pq gc)\<lparr>pq_items := [], pq_keys := Map.empty\<rparr>\<rparr>"

definition gc_RemoveKey :: "GC \<Rightarrow> string \<Rightarrow> GC" where
  "gc_RemoveKey gc key = gc\<lparr>gc_pq := removeLocked (gc_pq gc) key\<rparr>"

section \<open>The driver\<close>

record 'v CacheDriver =
  mc_storage :: "'v Storage"
  mc_gc :: GC
  mc_ctxDone :: bool

definition mc_New :: "'v CacheDriver option" where
  "mc_New = map_option (\<lambda>storage. \<lparr>mc_storage = storage, mc_gc = NewGC [], mc_ctxDone = False\<rparr>) (NewStorage [])"

definition StartInstance :: "'v CacheDriver option" where
  "StartInstance = mc_New"

definition mc_Get :: "'v CacheDriver \<Rightarrow> int \<Rightarrow> string \<Rightarrow> 'v option" where
  "mc_Get mc now key =
     (case FindItem (mc_storage mc) key of
        None \<Rightarrow> None
      | Some entity \<Rightarrow>
          if im_ExpireAt entity = 0 then Some (im_DataLink entity)
          else if im_IsExpired entity now then None
          else Some (im_DataLink entity))"

text \<open>The clock is read for the item and once more by the collector.\<close>

definition mc_Set :: "'v CacheDriver \<Rightarrow> int \<Rightarrow> int \<Rightarrow> string \<Rightarrow> 'v \<Rightarrow> int \<Rightarrow> 'v CacheDriver" where
  "mc_Set mc now later key val ttl =
     (let expireAt = (if ttl > 0 then i64 (now + ttl) else 0);
          cacheItem = \<lparr>im_Key = key, im_ExpireAt = expireAt, im_Data = [], im_DataLink = val\<rparr>;
          mc = mc\<lparr>mc_storage := InsertItem (mc_storage mc) key cacheItem\<rparr>
      in if expireAt > 0 then mc\<lparr>mc_gc := gc_Expired (mc_gc mc) later key ttl\<rparr>
         else mc\<lparr>mc_gc := gc_RemoveKey (mc_gc mc) key\<rparr>)"

definition SetPointer :: "'v CacheDriver \<Rightarrow> int \<Rightarrow> int \<Rightarrow> string \<Rightarrow> 'v \<Rightarrow> int \<Rightarrow> 'v CacheDriver" where
  "SetPointer mc now later key val ttl = mc_Set mc now later key val ttl"

definition GetPointer :: "'v CacheDriver \<Rightarrow> int \<Rightarrow> string \<Rightarrow> 'v option" where
  "GetPointer mc now key = mc_Get mc now key"

definition mc_Remove :: "'v CacheDriver \<Rightarrow> string \<Rightarrow> 'v CacheDriver" where
  "mc_Remove mc key = mc\<lparr>mc_storage := sm_Delete (mc_storage mc) key, mc_gc := gc_RemoveKey (mc_gc mc) key\<rparr>"

definition mc_Truncate :: "'v CacheDriver \<Rightarrow> 'v CacheDriver" where
  "mc_Truncate mc = mc\<lparr>mc_storage := sm_Truncate (mc_storage mc), mc_gc := gc_Truncate (mc_gc mc)\<rparr>"

definition mc_Len :: "'v CacheDriver \<Rightarrow> int" where
  "mc_Len mc = sm_Len (mc_storage mc)"

definition GCBufferQueue :: "'v CacheDriver \<Rightarrow> nat" where
  "GCBufferQueue mc = LenBufferKeyChan (mc_gc mc)"

definition mc_Close :: "'v CacheDriver \<Rightarrow> int \<Rightarrow> 'v CacheDriver \<times> (string \<rightharpoonup> 'v MapItem)" where
  "mc_Close mc now = (let mc = mc\<lparr>mc_ctxDone := True\<rparr> in (mc, sm_Close (mc_storage mc) now))"

text \<open>A round of the collector of a driver.\<close>

definition mc_round :: "'v CacheDriver \<Rightarrow> int \<Rightarrow> gc_signal \<Rightarrow> int \<Rightarrow> 'v CacheDriver" where
  "mc_round mc nowNano signal later =
     (let ((gc, storage), _) = gc_round (mc_gc mc, mc_storage mc) nowNano signal later
      in mc\<lparr>mc_gc := gc, mc_storage := storage\<rparr>)"

section \<open>Scheduling and flushing\<close>

definition mc_inv :: "'v CacheDriver \<Rightarrow> bool" where
  "mc_inv mc \<longleftrightarrow> sm_inv (mc_storage mc) \<and> pq_inv (gc_pq (mc_gc mc)) \<and>
     (\<forall>k e. pq_map (gc_pq (mc_gc mc)) k = Some e \<longrightarrow>
        (\<exists>it. FindItem (mc_storage mc) k = Some it \<and> 0 < im_ExpireAt it \<and> im_ExpireAt it \<le> e))"

lemma gc_Expired_spec:
  assumes "pq_inv (gc_pq gc)" "0 < duration"
  shows "pq_inv (gc_pq (gc_Expired gc now key duration))"
    "pq_map (gc_pq (gc_Expired gc now key duration)) = (pq_map (gc_pq gc))(key \<mapsto> i64 (now + duration))"
  using pq_schedule_spec [OF assms(1)] assms(2) by (simp_all add: gc_Expired_def signalWakeUp_def Let_def)

lemma hp_at_tracked:
  assumes "pq_inv h" "i < hp_Len h"
  shows "pq_map h (hi_key (hp_at h i)) = Some (hi_expireAt (hp_at h i))"
  using assms by (auto simp: pq_inv_def pq_map_iff pq_entry_def hp_at_def hp_Len_def intro!: bexI [of _ "pq_items h ! i"])

lemma gc_Truncate_clear: "gc_pq (gc_Truncate gc) = eh_Clear (gc_pq gc)"
  by (simp add: gc_Truncate_def eh_Clear_def)

lemma processExpiredKeys_spec:
  assumes "sm_inv s" "pq_inv (gc_pq gc)"
  shows "pq_inv (gc_pq (fst (processExpiredKeys (gc, s) now)))" "sm_inv (snd (processExpiredKeys (gc, s) now))"
    "pq_map (gc_pq (fst (processExpiredKeys (gc, s) now))) =
      (\<lambda>k. case pq_map (gc_pq gc) k of None \<Rightarrow> None | Some e \<Rightarrow> if e \<le> now then None else Some e)"
    "FindItem (snd (processExpiredKeys (gc, s) now)) = (\<lambda>k. case FindItem s k of None \<Rightarrow> None
      | Some it \<Rightarrow> if (\<exists>e. pq_map (gc_pq gc) k = Some e \<and> e \<le> now) \<and> im_IsExpired it now then None else Some it)"
proof -
  note d = pq_drain_spec [OF assms(2), of now]
  define ks where "ks = map fst (snd (pq_drain (gc_pq gc) now))"
  have ks: "k \<in> set ks \<longleftrightarrow> (\<exists>e. pq_map (gc_pq gc) k = Some e \<and> e \<le> now)" for k
    unfolding ks_def set_map d(4) by force
  have p: "processExpiredKeys (gc, s) now =
      (gc\<lparr>gc_pq := fst (pq_drain (gc_pq gc) now)\<rparr>, if length ks > 0 then FlushKeys s ks now else s)"
    by (simp add: processExpiredKeys_def eh_PopExpired_def ks_def case_prod_unfold Let_def)
  have f: "(if length ks > 0 then FlushKeys s ks now else s) = FlushKeys s ks now" by (simp add: FlushKeys_def)
  from d FlushKeys_spec [OF assms(1), of ks now] show "pq_inv (gc_pq (fst (processExpiredKeys (gc, s) now)))"
    "sm_inv (snd (processExpiredKeys (gc, s) now))"
    "pq_map (gc_pq (fst (processExpiredKeys (gc, s) now))) =
      (\<lambda>k. case pq_map (gc_pq gc) k of None \<Rightarrow> None | Some e \<Rightarrow> if e \<le> now then None else Some e)"
    "FindItem (snd (processExpiredKeys (gc, s) now)) = (\<lambda>k. case FindItem s k of None \<Rightarrow> None
      | Some it \<Rightarrow> if (\<exists>e. pq_map (gc_pq gc) k = Some e \<and> e \<le> now) \<and> im_IsExpired it now then None else Some it)"
    unfolding p f by (simp_all add: ks fun_eq_iff split: option.split)
qed

text \<open>One sweep, or nothing but a change of the signal.\<close>

lemma mc_round_cases:
  "(\<exists>gc. mc_round mc t signal u = mc\<lparr>mc_gc := gc\<rparr> \<and> gc_pq gc = gc_pq (mc_gc mc)) \<or>
   mc_round mc t signal u = mc\<lparr>mc_gc := fst (processExpiredKeys (mc_gc mc, mc_storage mc) u),
     mc_storage := snd (processExpiredKeys (mc_gc mc, mc_storage mc) u)\<rparr>"
  by (cases signal) (auto simp: mc_round_def gc_round_def case_prod_unfold Let_def intro: exI [of _ "mc_gc mc"])

section \<open>Runs\<close>

datatype 'v driver_op =
    DSet int int string 'v int
  | DRemove string
  | DTruncate
  | DRound int gc_signal int

fun driver_step :: "'v CacheDriver \<Rightarrow> 'v driver_op \<Rightarrow> 'v CacheDriver" where
  "driver_step mc (DSet now later k v ttl) = mc_Set mc now later k v ttl"
| "driver_step mc (DRemove k) = mc_Remove mc k"
| "driver_step mc DTruncate = mc_Truncate mc"
| "driver_step mc (DRound t signal u) = mc_round mc t signal u"

text \<open>The clock does not run backwards, and no deadline overflows.\<close>

fun timed :: "int \<Rightarrow> 'v driver_op list \<Rightarrow> int \<Rightarrow> bool" where
  "timed t [] u \<longleftrightarrow> t \<le> u"
| "timed t (DSet now later k v ttl # ops) u \<longleftrightarrow> t \<le> now \<and> now \<le> later \<and> later + ttl < 2 ^ 63 \<and> timed later ops u"
| "timed t (DRemove k # ops) u \<longleftrightarrow> timed t ops u"
| "timed t (DTruncate # ops) u \<longleftrightarrow> timed t ops u"
| "timed t (DRound now signal later # ops) u \<longleftrightarrow> t \<le> now \<and> now \<le> later \<and> timed later ops u"

text \<open>The reference: a map from keys to values and deadlines (zero for none), without any sweep.\<close>

fun reference_step :: "(string \<rightharpoonup> 'v \<times> int) \<Rightarrow> 'v driver_op \<Rightarrow> (string \<rightharpoonup> 'v \<times> int)" where
  "reference_step m (DSet now later k v ttl) = m(k \<mapsto> (v, if ttl > 0 then now + ttl else 0))"
| "reference_step m (DRemove k) = m(k := None)"
| "reference_step m DTruncate = Map.empty"
| "reference_step m (DRound t signal u) = m"

definition reference_get :: "(string \<rightharpoonup> 'v \<times> int) \<Rightarrow> int \<Rightarrow> string \<Rightarrow> 'v option" where
  "reference_get m now k = (case m k of None \<Rightarrow> None | Some (v, e) \<Rightarrow> if e = 0 \<or> now \<le> e then Some v else None)"

text \<open>The storage holds the reference map, but for entries that expired before the latest time.\<close>

definition agrees :: "int \<Rightarrow> ('v \<times> int) option \<Rightarrow> 'v MapItem option \<Rightarrow> bool" where
  "agrees t r x \<longleftrightarrow> (case x of
       Some it \<Rightarrow> r = Some (im_DataLink it, im_ExpireAt it) \<and> 0 \<le> im_ExpireAt it
     | None \<Rightarrow> (case r of None \<Rightarrow> True | Some (v, e) \<Rightarrow> 0 < e \<and> e < t))"

definition follows :: "int \<Rightarrow> (string \<rightharpoonup> 'v \<times> int) \<Rightarrow> 'v CacheDriver \<Rightarrow> bool" where
  "follows t m mc \<longleftrightarrow> mc_inv mc \<and> (\<forall>k. agrees t (m k) (FindItem (mc_storage mc) k))"

lemma agrees_simps [simp]:
  "agrees t r (Some it) \<longleftrightarrow> r = Some (im_DataLink it, im_ExpireAt it) \<and> 0 \<le> im_ExpireAt it"
  "agrees t None x \<longleftrightarrow> x = None"
  "agrees t (Some p) None \<longleftrightarrow> 0 < snd p \<and> snd p < t"
  by (auto simp: agrees_def split: option.splits)

lemma agrees_later: "agrees t r x \<Longrightarrow> t \<le> u \<Longrightarrow> agrees u r x"
  by (cases x; cases r) auto

lemma followsD:
  assumes "follows t m mc"
  shows "mc_inv mc" "sm_inv (mc_storage mc)" "pq_inv (gc_pq (mc_gc mc))" "agrees t (m k) (FindItem (mc_storage mc) k)"
    "pq_map (gc_pq (mc_gc mc)) k = Some e \<Longrightarrow>
      \<exists>it. FindItem (mc_storage mc) k = Some it \<and> 0 < im_ExpireAt it \<and> im_ExpireAt it \<le> e"
  using assms by (auto simp: follows_def mc_inv_def)

lemma follows_later: "follows t m mc \<Longrightarrow> t \<le> u \<Longrightarrow> follows u m mc"
  unfolding follows_def using agrees_later by blast

lemma follows_Get:
  assumes "follows t m mc" "t \<le> now"
  shows "mc_Get mc now k = reference_get m now k"
  using followsD(4) [OF assms(1), of k] assms(2)
  by (cases "FindItem (mc_storage mc) k"; cases "m k") (auto simp: mc_Get_def reference_get_def im_IsExpired_def)

lemma follows_Set:
  assumes f: "follows t m mc" and t: "0 \<le> t" "t \<le> now" "now \<le> later" "later + ttl < 2 ^ 63"
  shows "follows later (reference_step m (DSet now later k v ttl)) (mc_Set mc now later k v ttl)"
proof -
  note i = followsD(2,3) [OF f]
  have e: "0 < ttl \<Longrightarrow> i64 (now + ttl) = now + ttl" "0 < ttl \<Longrightarrow> i64 (later + ttl) = later + ttl"
    using t by (auto intro: i64_id)
  define it where "it = \<lparr>im_Key = k, im_ExpireAt = if ttl > 0 then now + ttl else 0, im_Data = [], im_DataLink = v\<rparr>"
  let ?mc = "mc_Set mc now later k v ttl"
  have s: "mc_storage ?mc = InsertItem (mc_storage mc) k it"
    using e(1) by (auto simp: mc_Set_def Let_def it_def)
  have q: "pq_inv (gc_pq (mc_gc ?mc))"
    "pq_map (gc_pq (mc_gc ?mc)) = (pq_map (gc_pq (mc_gc mc)))(k := if ttl > 0 then Some (later + ttl) else None)"
    using e t gc_Expired_spec [OF i(2), of ttl later k] removeLocked_spec [OF i(2), of k]
    by (auto simp: mc_Set_def Let_def gc_RemoveKey_def)
  have it: "0 \<le> im_ExpireAt it" "0 < ttl \<Longrightarrow> 0 < im_ExpireAt it \<and> im_ExpireAt it \<le> later + ttl"
    "(im_DataLink it, im_ExpireAt it) = (v, if ttl > 0 then now + ttl else 0)" using t by (auto simp: it_def)
  have "mc_inv ?mc" unfolding mc_inv_def s q(2) using q(1) InsertItem_spec [OF i(1), of k it] followsD(5) [OF f] it
    by (auto split: if_splits)
  moreover have "agrees later (reference_step m (DSet now later k v ttl) x) (FindItem (mc_storage ?mc) x)" for x
    using agrees_later [OF followsD(4) [OF f, of x], of later] t it by (auto simp: s InsertItem_spec [OF i(1)])
  ultimately show ?thesis unfolding follows_def by blast
qed

lemma follows_Remove:
  assumes "follows t m mc"
  shows "follows t (m(k := None)) (mc_Remove mc k)"
proof -
  note i = followsD(2,3) [OF assms]
  have "mc_inv (mc_Remove mc k)"
    unfolding mc_inv_def using sm_Delete_spec [OF i(1), of k] removeLocked_spec [OF i(2), of k] followsD(5) [OF assms]
    by (auto simp: mc_Remove_def gc_RemoveKey_def)
  then show ?thesis using followsD(4) [OF assms] sm_Delete_spec(2) [OF i(1), of k]
    by (auto simp: follows_def mc_Remove_def)
qed

lemma follows_Truncate:
  assumes "follows t m mc"
  shows "follows t Map.empty (mc_Truncate mc)"
  using sm_Truncate_spec [OF followsD(2) [OF assms]]
  by (simp add: follows_def mc_inv_def mc_Truncate_def gc_Truncate_clear eh_Clear_inv)

lemma follows_sweep:
  assumes "follows t m mc" "t \<le> u"
  shows "follows u m (mc\<lparr>mc_gc := fst (processExpiredKeys (mc_gc mc, mc_storage mc) u),
    mc_storage := snd (processExpiredKeys (mc_gc mc, mc_storage mc) u)\<rparr>)" (is "follows u m ?mc")
proof -
  note p = processExpiredKeys_spec [OF followsD(2,3) [OF assms(1)], of u]
  have "\<exists>it. FindItem (mc_storage ?mc) k = Some it \<and> 0 < im_ExpireAt it \<and> im_ExpireAt it \<le> e"
    if "pq_map (gc_pq (mc_gc ?mc)) k = Some e" for k e
    using that followsD(5) [OF assms(1), of k] by (auto simp: p(3,4) split: option.splits if_splits)
  then have "mc_inv ?mc" using p(1,2) by (simp add: mc_inv_def)
  moreover have "agrees u (m k) (FindItem (mc_storage ?mc) k)" for k
    using agrees_later [OF followsD(4) [OF assms(1), of k] assms(2)]
    by (cases "FindItem (mc_storage mc) k") (auto simp: p(4) im_IsExpired_def)
  ultimately show ?thesis unfolding follows_def by blast
qed

lemma follows_round: "follows t m mc \<Longrightarrow> t \<le> now \<Longrightarrow> now \<le> u \<Longrightarrow> follows u m (mc_round mc now signal u)"
  using mc_round_cases [of mc now signal u] follows_sweep [of t m mc u] follows_later [of t m mc u]
  by (auto simp: follows_def mc_inv_def)

lemma follows_run:
  "follows t m mc \<Longrightarrow> 0 \<le> t \<Longrightarrow> timed t ops u \<Longrightarrow>
   \<exists>t'. t' \<le> u \<and> follows t' (foldl reference_step m ops) (foldl driver_step mc ops)"
proof (induction ops arbitrary: t m mc)
  case (Cons x ops)
  show ?case
  proof (cases x)
    case (DSet now later k v ttl)
    with Cons.prems Cons.IH [OF follows_Set [OF Cons.prems(1,2), of now later ttl k v]] show ?thesis
      by (simp del: reference_step.simps(1))
  next
    case (DRemove k)
    with Cons.prems Cons.IH [OF follows_Remove [OF Cons.prems(1), of k]] show ?thesis by (simp del: fun_upd_apply)
  next
    case DTruncate
    with Cons.prems Cons.IH [OF follows_Truncate [OF Cons.prems(1)]] show ?thesis by simp
  next
    case (DRound now signal later)
    with Cons.prems Cons.IH [OF follows_round [OF Cons.prems(1), of now later signal]] show ?thesis by simp
  qed
qed auto

lemma mc_New_follows: "\<exists>mc. mc_New = Some mc \<and> follows 0 Map.empty mc"
proof -
  obtain s :: "'a Storage" where s: "NewStorage [] = Some s" "length (sm_shards s) = 1024"
    by (auto simp: NewStorage_def sm_defaultShardCount_def)
  then show ?thesis using NewStorage_inv [OF s(1)]
    by (auto simp: mc_New_def follows_def mc_inv_def NewGC_def NewExpiryHeap_inv(1,2))
qed

text \<open>
  C37: The legacy driver is a map with deadlines: after any run of sets, removals, truncations and
  rounds of the collector, whatever the collector's \<open>select\<close> receives and whenever it runs, \<open>Get\<close>
  answers as a reference map that is never swept, and \<open>Close\<close> returns exactly the entries that \<open>Get\<close>
  would find. \<open>Len\<close> is the number of keys stored, and the collector tracks no more keys than that.
\<close>

theorem legacy_driver_is_reference:
  assumes "timed 0 ops now" "mc_New = Some mc0"
  defines "mc \<equiv> foldl driver_step mc0 ops" and "m \<equiv> foldl reference_step Map.empty ops"
  shows "mc_Get mc now k = reference_get m now k \<and>
    map_option im_DataLink (snd (mc_Close mc now) k) = reference_get m now k \<and>
    mc_Len mc = i64 (int (card (dom (FindItem (mc_storage mc))))) \<and> GCBufferQueue mc \<le> card (dom (FindItem (mc_storage mc)))"
proof -
  have "follows 0 Map.empty mc0" using mc_New_follows assms(2) by (metis option.inject)
  from follows_run [OF this order_refl assms(1)] obtain t where t: "t \<le> now" "follows t m mc"
    by (auto simp: mc_def m_def)
  have i: "sm_inv (mc_storage mc)" "pq_inv (gc_pq (mc_gc mc))" using t(2) by (auto simp: follows_def mc_inv_def)
  have g: "mc_Get mc now k = reference_get m now k" by (rule follows_Get [OF t(2,1)])
  have "map_option im_DataLink (snd (mc_Close mc now) k) = mc_Get mc now k"
    using t(2) by (auto simp: mc_Close_def sm_Close_spec [OF i(1)] mc_Get_def im_IsExpired_def split: option.split)
  moreover have "dom (pq_map (gc_pq (mc_gc mc))) \<subseteq> dom (FindItem (mc_storage mc))"
    using followsD(5) [OF t(2)] by (fastforce simp: dom_def)
  then have "GCBufferQueue mc \<le> card (dom (FindItem (mc_storage mc)))"
    using card_mono [OF finite_FindItem [OF i(1)]] by (simp add: GCBufferQueue_def LenBufferKeyChan_def hp_Len_card [OF i(2)])
  ultimately show ?thesis using g i(1) by (simp add: mc_Len_def sm_Len_def sm_inv_def)
qed

theorem legacy_driver_is_reference_witness:
  "\<exists>mc0 :: nat CacheDriver. mc_New = Some mc0 \<and>
    mc_Get (foldl driver_step mc0 [DSet 1 1 ''a'' 7 10, DSet 2 2 ''b'' 8 0, DRound 20 TimerFired 20]) 30 ''b'' = Some 8"
proof -
  obtain mc0 :: "nat CacheDriver" where mc0: "mc_New = Some mc0" using mc_New_follows by blast
  have "timed 0 [DSet 1 1 ''a'' 7 10, DSet 2 2 ''b'' (8 :: nat) 0, DRound 20 TimerFired 20] 30" by simp
  from legacy_driver_is_reference [OF this mc0, of "''b''"] mc0 show ?thesis by (auto simp: reference_get_def)
qed

section \<open>An entry the collector meets exactly at its deadline\<close>

text \<open>The key is tracked no more, but its item is still stored.\<close>

definition leaked :: "string \<Rightarrow> 'v MapItem \<Rightarrow> 'v CacheDriver \<Rightarrow> bool" where
  "leaked k it mc \<longleftrightarrow> sm_inv (mc_storage mc) \<and> pq_inv (gc_pq (mc_gc mc)) \<and>
     pq_map (gc_pq (mc_gc mc)) = Map.empty \<and> FindItem (mc_storage mc) = [k \<mapsto> it]"

lemma leaked_round:
  assumes "leaked k it mc"
  shows "leaked k it (mc_round mc t signal u)"
proof -
  have i: "sm_inv (mc_storage mc)" "pq_inv (gc_pq (mc_gc mc))" using assms by (auto simp: leaked_def)
  note p = processExpiredKeys_spec [OF i, of u]
  have "FindItem (snd (processExpiredKeys (mc_gc mc, mc_storage mc) u)) = FindItem (mc_storage mc)"
    using assms unfolding p(4) by (auto simp: leaked_def fun_eq_iff split: option.split)
  then show ?thesis using mc_round_cases [of mc t signal u] p(1-3) assms by (auto simp: leaked_def)
qed

lemma leaked_rounds:
  "leaked k it mc \<Longrightarrow> leaked k it (foldl (\<lambda>mc (t, signal, u). mc_round mc t signal u) mc rounds)"
  by (induction rounds arbitrary: mc) (auto intro: leaked_round)

text \<open>
  A sweep of the legacy collector that runs exactly at the deadline of an entry loses the entry
  without deleting it: the heap counts a key as expired at its deadline, \<open>FlushKeys\<close> only after it. From
  then on, whatever rounds the collector makes and at whatever times, its queue is empty, \<open>Len\<close> still
  counts the entry, and \<open>Get\<close> does not find it any more after the deadline.
\<close>

theorem exact_deadline_entry_leaks:
  fixes k :: string and v :: 'v and rounds :: "(int \<times> gc_signal \<times> int) list"
  assumes "mc_New = Some mc0" "0 \<le> t" "0 < ttl" "t + ttl < 2 ^ 63"
  defines "mc \<equiv> foldl (\<lambda>mc (t, signal, u). mc_round mc t signal u)
    (mc_round (mc_Set mc0 t t k v ttl) t TimerFired (t + ttl)) rounds"
  shows "GCBufferQueue mc = 0 \<and> mc_Len mc = 1 \<and> (\<forall>now > t + ttl. mc_Get mc now k = None)"
proof -
  have f: "follows 0 Map.empty mc0" using mc_New_follows assms(1) by (metis option.inject)
  have e: "i64 (t + ttl) = t + ttl" "i64 ttl = ttl" using assms(2-4) by (auto intro: i64_id)
  define it where "it = \<lparr>im_Key = k, im_ExpireAt = t + ttl, im_Data = [], im_DataLink = v\<rparr>"
  let ?s = "mc_Set mc0 t t k v ttl"
  note i = followsD(2,3) [OF f]
  have m0: "FindItem (mc_storage mc0) = Map.empty" "pq_map (gc_pq (mc_gc mc0)) = Map.empty"
    using followsD(4,5) [OF f] by (fastforce simp: fun_eq_iff)+
  have s: "?s = mc0\<lparr>mc_storage := InsertItem (mc_storage mc0) k it, mc_gc := gc_Expired (mc_gc mc0) t k ttl\<rparr>"
    using assms(2,3) e(1) by (simp add: mc_Set_def it_def Let_def)
  have st: "sm_inv (mc_storage ?s)" "FindItem (mc_storage ?s) = [k \<mapsto> it]"
    using InsertItem_spec [OF i(1), of k it] by (simp_all add: s m0)
  have q: "pq_inv (gc_pq (mc_gc ?s))" "pq_map (gc_pq (mc_gc ?s)) = [k \<mapsto> t + ttl]"
    using gc_Expired_spec [OF i(2) assms(3), of t k] by (simp_all add: s m0 e(1))
  have n: "hp_Len (gc_pq (mc_gc ?s)) = 1" using hp_Len_card [OF q(1)] by (simp add: q(2))
  have "hi_expireAt (hp_at (gc_pq (mc_gc ?s)) 0) = t + ttl"
    using hp_at_tracked [OF q(1), of 0] n by (simp add: q(2) split: if_splits)
  then have "calculateNextWakeIntervalLocked (mc_gc ?s) t \<noteq> 0"
    using assms(3) by (simp add: calculateNextWakeIntervalLocked_def n e(2))
  then have "mc_round ?s t TimerFired (t + ttl) = ?s\<lparr>mc_gc := fst (processExpiredKeys (mc_gc ?s, mc_storage ?s) (t + ttl)),
     mc_storage := snd (processExpiredKeys (mc_gc ?s, mc_storage ?s) (t + ttl))\<rparr>"
    by (simp add: mc_round_def gc_round_def case_prod_unfold Let_def)
  then have "leaked k it (mc_round ?s t TimerFired (t + ttl))"
    using processExpiredKeys_spec [OF st(1) q(1), of "t + ttl"]
    by (simp add: leaked_def st q(2) fun_eq_iff it_def im_IsExpired_def)
  from leaked_rounds [OF this, of rounds] have l: "leaked k it mc" by (simp add: mc_def)
  then have "mc_Len mc = i64 1" by (simp add: leaked_def mc_Len_def sm_Len_def sm_inv_def)
  moreover have "GCBufferQueue mc = 0"
    using l by (simp add: leaked_def GCBufferQueue_def LenBufferKeyChan_def hp_Len_card)
  ultimately show ?thesis using l assms(2,3)
    by (auto simp: leaked_def mc_Get_def it_def im_IsExpired_def i64_id)
qed

theorem exact_deadline_entry_leaks_witness:
  "\<exists>mc0 :: nat CacheDriver. mc_New = Some mc0 \<and>
    mc_Len (mc_round (mc_round (mc_Set mc0 5 5 ''a'' 7 10) 5 TimerFired 15) 15 TimerFired 1000) = 1"
proof -
  obtain mc0 :: "nat CacheDriver" where mc0: "mc_New = Some mc0" using mc_New_follows by blast
  from exact_deadline_entry_leaks [OF mc0, of 5 10 "''a''" 7 "[(15, TimerFired, 1000)]"] mc0
  show ?thesis by auto
qed

end
