(* ===== verification/ByteSlices.thy ===== *)
theory ByteSlices
  imports Prelude "HOL-Library.Monad_Syntax"
begin

text \<open>
  Byte slices as the serialising store uses them: slicing and copying with Go's bounds checks, where
  \<open>None\<close> is the run-time panic, and the fixed-width little-endian integers of Go's
  \<open>encoding/binary\<close>. A slice is the list of its bytes; the slices of the program are made with
  \<open>make\<close>, so their capacity is their length.
\<close>

unbundle bit_operations_syntax

section \<open>Operations\<close>

text \<open>\<open>d[a:b]\<close>\<close>

definition subslice :: "byte list \<Rightarrow> nat \<Rightarrow> nat \<Rightarrow> byte list option" where
  "subslice d a b = (if a \<le> b \<and> b \<le> length d then Some (take (b - a) (drop a d)) else None)"

definition overwrite :: "byte list \<Rightarrow> nat \<Rightarrow> byte list \<Rightarrow> byte list" where
  "overwrite d a bs = take a d @ bs @ drop (a + length bs) d"

text \<open>Writing a fixed number of bytes to \<open>d[a:b]\<close>.\<close>

definition put_at :: "byte list \<Rightarrow> nat \<Rightarrow> nat \<Rightarrow> byte list \<Rightarrow> byte list option" where
  "put_at d a b bs = (if a \<le> b \<and> b \<le> length d then Some (overwrite d a bs) else None)"

text \<open>\<open>copy(d[a:], src)\<close>, which copies no more than there is room for.\<close>

definition copy_at :: "byte list \<Rightarrow> nat \<Rightarrow> byte list \<Rightarrow> byte list option" where
  "copy_at d a src = (if a \<le> length d then Some (overwrite d a (take (length d - a) src)) else None)"

fun putUint :: "nat \<Rightarrow> u64 \<Rightarrow> byte list" where
  "putUint 0 v = []"
| "putUint (Suc n) v = ucast v # putUint n (drop_bit 8 v)"

fun getUint :: "byte list \<Rightarrow> u64" where
  "getUint [] = 0"
| "getUint (b # bs) = ucast b OR push_bit 8 (getUint bs)"

definition PutUint32 :: "u32 \<Rightarrow> byte list" where
  "PutUint32 v = putUint 4 (ucast v)"

definition PutUint64 :: "u64 \<Rightarrow> byte list" where
  "PutUint64 v = putUint 8 v"

definition Uint32 :: "byte list \<Rightarrow> u32" where
  "Uint32 b = ucast (getUint (take 4 b))"

definition Uint64 :: "byte list \<Rightarrow> u64" where
  "Uint64 b = getUint (take 8 b)"

section \<open>Reading what was written\<close>

lemma length_putUint [simp]: "length (putUint n v) = n"
  by (induction n arbitrary: v) auto

lemma length_Put [simp]: "length (PutUint32 v) = 4" "length (PutUint64 w) = 8"
  by (simp_all add: PutUint32_def PutUint64_def)

lemma getUint_putUint: "getUint (putUint n v) = take_bit (8 * n) v"
proof (induction n arbitrary: v)
  case (Suc n)
  show ?case unfolding putUint.simps getUint.simps Suc.IH
    by (rule bit_eqI) (auto simp: bit_simps)
qed simp

lemma Uint32_Put [simp]: "Uint32 (PutUint32 v) = v"
  by (simp add: Uint32_def PutUint32_def getUint_putUint) (rule bit_eqI, auto simp: bit_simps)

lemma Uint64_Put [simp]: "Uint64 (PutUint64 v) = v"
  by (simp add: Uint64_def PutUint64_def getUint_putUint) (rule bit_eqI, auto simp: bit_simps)

section \<open>Parts of a slice\<close>

definition seg :: "byte list \<Rightarrow> nat \<Rightarrow> nat \<Rightarrow> byte list" where
  "seg d a n = take n (drop a d)"

lemma length_seg: "a + n \<le> length d \<Longrightarrow> length (seg d a n) = n"
  by (simp add: seg_def)

lemma seg_seg: "i + n \<le> N \<Longrightarrow> seg (seg d a N) i n = seg d (a + i) n"
  by (simp add: seg_def drop_take min_def add.commute)

lemma subslice_seg: "a + n \<le> length d \<Longrightarrow> b = a + n \<Longrightarrow> subslice d a b = Some (seg d a n)"
  by (simp add: subslice_def seg_def)

lemma seg_append: "seg (xs @ ys @ zs) (length xs) (length ys) = ys"
  by (simp add: seg_def)

lemma length_overwrite [simp]: "a + length bs \<le> length d \<Longrightarrow> length (overwrite d a bs) = length d"
  by (simp add: overwrite_def)

lemma seg_overwrite_same: "a + length bs \<le> length d \<Longrightarrow> n = length bs \<Longrightarrow> seg (overwrite d a bs) a n = bs"
  by (simp add: seg_def overwrite_def)

lemma seg_prefix:
  assumes "a + n \<le> k" "k \<le> length d"
  shows "seg (take k d @ zs) a n = seg d a n"
proof -
  have "drop a (take k d @ zs) = drop a (take k d) @ zs" using assms by (simp add: min.absorb2)
  moreover have "n \<le> length (drop a (take k d))" using assms by (simp add: min.absorb2)
  ultimately have "take n (drop a (take k d @ zs)) = take n (drop a (take k d))" by simp
  also have "\<dots> = take n (drop a d)" using assms(1) by (simp add: drop_take min_def)
  finally show ?thesis by (simp add: seg_def)
qed

lemma seg_overwrite_other:
  assumes "a + length bs \<le> length d" "b + n \<le> a \<or> a + length bs \<le> b"
  shows "seg (overwrite d a bs) b n = seg d b n"
proof -
  from assms(2) consider "b + n \<le> a" | "a + length bs \<le> b" by blast
  then show ?thesis
  proof cases
    case 1
    with assms(1) show ?thesis unfolding overwrite_def by (intro seg_prefix) auto
  next
    case 2
    then obtain c where "b = a + length bs + c" using le_Suc_ex by blast
    with assms(1) show ?thesis by (simp add: seg_def overwrite_def min_def ac_simps)
  qed
qed

lemma overwrite_overwrite:
  "a + length xs + length ys \<le> length d \<Longrightarrow> b = a + length xs \<Longrightarrow>
   overwrite (overwrite d a xs) b ys = overwrite d a (xs @ ys)"
  by (simp add: overwrite_def min.absorb2 add.assoc)
    (metis add.assoc add.commute)

lemma put_at_overwrite: "a + length bs \<le> length d \<Longrightarrow> b = a + length bs \<Longrightarrow> put_at d a b bs = Some (overwrite d a bs)"
  by (simp add: put_at_def)

lemma copy_at_overwrite: "a + length src \<le> length d \<Longrightarrow> copy_at d a src = Some (overwrite d a src)"
  by (simp add: copy_at_def)

end
