(* ===== verification/GcFree.thy ===== *)
theory GcFree
  imports Complex_Main ByteSlices StoreScan BudgetStore
begin

text \<open>
  \<open>internal/store/gcfree.go\<close>: the store that keeps its entries serialised in one byte slice per shard,
  with a map from key hashes to offsets. Offsets and lengths read from a slice are 32-bit words as in
  the code; positions and lengths in memory are natural numbers. The result \<open>None\<close> of a write is a
  run-time panic (or, in \<open>grow\<close>, a loop that does not end). The order in which a method ranges over a
  map is the argument \<open>ord\<close>, the clock the argument \<open>now\<close>. The locks have no effect on one operation.
\<close>

section \<open>Shards\<close>

definition entryHeaderSize :: nat where
  "entryHeaderSize = 24"

record gcFreeShard =
  gs_hashmap :: "u64 \<rightharpoonup> u32"
  gs_data :: "byte list"
  gs_tail :: nat
  gs_deleted :: int

record GCFreeStore =
  gf_shards :: "gcFreeShard list"
  gf_shardMask :: u32
  gf_size :: int

definition NewGCFreeStore :: "int \<Rightarrow> int \<Rightarrow> GCFreeStore" where
  "NewGCFreeStore shardCount initialSize =
     (let shardCount = (if shardCount \<le> 0 then 256 else shardCount);
          shardCount = nextPowerOf2 shardCount;
          initialSize = (if initialSize \<le> 0 then 1048576 else initialSize);
          shardSize = initialSize div shardCount;
          shardSize = (if shardSize < 4096 then 4096 else shardSize)
      in \<lparr>gf_shards = replicate (nat shardCount)
            \<lparr>gs_hashmap = Map.empty, gs_data = replicate (nat shardSize) 0, gs_tail = 0, gs_deleted = 0\<rparr>,
          gf_shardMask = word_of_int (shardCount - 1), gf_size = 0\<rparr>)"

definition gf_index :: "GCFreeStore \<Rightarrow> u64 \<Rightarrow> nat" where
  "gf_index s keyHash = unat (keyHash AND ucast (gf_shardMask s))"

definition gf_shard :: "GCFreeStore \<Rightarrow> u64 \<Rightarrow> gcFreeShard" where
  "gf_shard s keyHash = gf_shards s ! gf_index s keyHash"

definition gf_put_shard :: "GCFreeStore \<Rightarrow> u64 \<Rightarrow> gcFreeShard \<Rightarrow> GCFreeStore" where
  "gf_put_shard s keyHash sh = s\<lparr>gf_shards := (gf_shards s)[gf_index s keyHash := sh]\<rparr>"

section \<open>Reading\<close>

definition bytesEqual :: "byte list \<Rightarrow> byte list \<Rightarrow> bool" where
  "bytesEqual a b = (if length a \<noteq> length b then False else list_all (\<lambda>i. a ! i = b ! i) [0..<length a])"

text \<open>The checks put every slice within the data.\<close>

definition gs_Get :: "gcFreeShard \<Rightarrow> u64 \<Rightarrow> byte list \<Rightarrow> int \<Rightarrow> (byte list \<times> int) option" where
  "gs_Get sh keyHash key now =
     (case gs_hashmap sh keyHash of
        None \<Rightarrow> None
      | Some offset \<Rightarrow>
          if unat offset + entryHeaderSize > length (gs_data sh) then None
          else let data = drop (unat offset) (gs_data sh);
                   keyLen = Uint32 (seg data 0 4);
                   valueLen = Uint32 (seg data 4 4);
                   expireAt = sint (Uint64 (seg data 8 8));
                   entrySize = entryHeaderSize + unat keyLen + unat valueLen
               in if unat offset + entrySize > length (gs_data sh) then None
                  else let storedKey = seg data entryHeaderSize (unat keyLen)
                       in if \<not> bytesEqual storedKey key then None
                          else if expireAt > 0 \<and> now > expireAt then None
                          else Some (seg data (entryHeaderSize + unat keyLen) (unat valueLen), expireAt))"

definition gf_Get :: "GCFreeStore \<Rightarrow> u64 \<Rightarrow> byte list \<Rightarrow> int \<Rightarrow> (byte list \<times> int) option" where
  "gf_Get s keyHash key now = gs_Get (gf_shard s keyHash) keyHash key now"

definition gf_Has :: "GCFreeStore \<Rightarrow> u64 \<Rightarrow> byte list \<Rightarrow> int \<Rightarrow> bool" where
  "gf_Has s keyHash key now = (gf_Get s keyHash key now \<noteq> None)"

definition gf_Len :: "GCFreeStore \<Rightarrow> int" where
  "gf_Len s = gf_size s"

section \<open>Compaction and growth\<close>

text \<open>The bounds of these slices are computed in 32 bits.\<close>

definition read_lengths :: "byte list \<Rightarrow> u32 \<Rightarrow> (u32 \<times> u32) option" where
  "read_lengths data offset = do {
     k \<leftarrow> subslice data (unat offset) (unat (offset + 4));
     v \<leftarrow> subslice data (unat (offset + 4)) (unat (offset + 8));
     Some (Uint32 k, Uint32 v) }"

fun compact_loop :: "byte list \<Rightarrow> (u64 \<times> u32) list \<Rightarrow> byte list \<Rightarrow> (u64 \<rightharpoonup> u32) \<Rightarrow> nat \<Rightarrow>
    (byte list \<times> (u64 \<rightharpoonup> u32) \<times> nat) option" where
  "compact_loop oldData [] newData newHashmap newTail = Some (newData, newHashmap, newTail)"
| "compact_loop oldData ((keyHash, offset) # entries) newData newHashmap newTail =
     (if unat offset + entryHeaderSize > length oldData
      then compact_loop oldData entries newData newHashmap newTail
      else do {
        k \<leftarrow> subslice oldData (unat offset) (unat (offset + 4));
        if Uint32 k = 0 then compact_loop oldData entries newData newHashmap newTail
        else do {
          v \<leftarrow> subslice oldData (unat (offset + 4)) (unat (offset + 8));
          let entrySize = entryHeaderSize + unat (Uint32 k) + unat (Uint32 v);
          if unat offset + entrySize > length oldData
          then compact_loop oldData entries newData newHashmap newTail
          else do {
            newData \<leftarrow> copy_at newData newTail (seg oldData (unat offset) entrySize);
            compact_loop oldData entries newData (newHashmap(keyHash \<mapsto> of_nat newTail)) (newTail + entrySize) } } })"

definition gs_compact :: "(u64 set \<Rightarrow> u64 list) \<Rightarrow> gcFreeShard \<Rightarrow> gcFreeShard option" where
  "gs_compact ord sh = do {
     (newData, newHashmap, newTail) \<leftarrow>
       compact_loop (gs_data sh) (map (\<lambda>k. (k, the (gs_hashmap sh k))) (ord (dom (gs_hashmap sh))))
         (replicate (length (gs_data sh)) 0) Map.empty 0;
     Some (sh\<lparr>gs_data := newData, gs_hashmap := newHashmap, gs_tail := newTail, gs_deleted := 0\<rparr>) }"

partial_function (option) grow_size :: "nat \<Rightarrow> nat \<Rightarrow> nat option" where
  "grow_size newSize want = (if newSize < want then grow_size (newSize * 2) want else Some newSize)"

definition gs_grow :: "gcFreeShard \<Rightarrow> nat \<Rightarrow> gcFreeShard option" where
  "gs_grow sh needed = do {
     newSize \<leftarrow> grow_size (length (gs_data sh) * 2) (gs_tail sh + needed);
     kept \<leftarrow> subslice (gs_data sh) 0 (gs_tail sh);
     newData \<leftarrow> copy_at (replicate newSize 0) 0 kept;
     Some (sh\<lparr>gs_data := newData\<rparr>) }"

section \<open>Writing\<close>

text \<open>Zeroing the key length of an entry and counting its bytes as deleted.\<close>

definition gs_mark :: "gcFreeShard \<Rightarrow> u32 \<Rightarrow> gcFreeShard option" where
  "gs_mark sh offset = do {
     (keyLen, valueLen) \<leftarrow> read_lengths (gs_data sh) offset;
     data \<leftarrow> put_at (gs_data sh) (unat offset) (unat (offset + 4)) (PutUint32 0);
     Some (sh\<lparr>gs_data := data,
       gs_deleted := gs_deleted sh + int (entryHeaderSize + unat keyLen + unat valueLen)\<rparr>) }"

text \<open>Writing an entry at the tail.\<close>

definition gs_append :: "gcFreeShard \<Rightarrow> u64 \<Rightarrow> byte list \<Rightarrow> byte list \<Rightarrow> int \<Rightarrow> int \<Rightarrow> gcFreeShard option" where
  "gs_append sh keyHash key value expireAt cost = do {
     let tail = gs_tail sh;
     data \<leftarrow> put_at (gs_data sh) tail (tail + 4) (PutUint32 (of_nat (length key)));
     data \<leftarrow> put_at data (tail + 4) (tail + 8) (PutUint32 (of_nat (length value)));
     data \<leftarrow> put_at data (tail + 8) (tail + 16) (PutUint64 (word_of_int expireAt));
     data \<leftarrow> put_at data (tail + 16) (tail + 24) (PutUint64 (word_of_int cost));
     data \<leftarrow> copy_at data (tail + entryHeaderSize) key;
     data \<leftarrow> copy_at data (tail + entryHeaderSize + length key) value;
     Some (sh\<lparr>gs_data := data, gs_tail := tail + (entryHeaderSize + length key + length value),
       gs_hashmap := (gs_hashmap sh)(keyHash \<mapsto> of_nat tail)\<rparr>) }"

definition gs_make_room :: "(u64 set \<Rightarrow> u64 list) \<Rightarrow> gcFreeShard \<Rightarrow> nat \<Rightarrow> gcFreeShard option" where
  "gs_make_room ord sh entrySize =
     (if gs_tail sh + entrySize > length (gs_data sh)
      then if gs_deleted sh > int (length (gs_data sh) div 4) then gs_compact ord sh else gs_grow sh entrySize
      else Some sh)"

definition gs_Set :: "(u64 set \<Rightarrow> u64 list) \<Rightarrow> gcFreeShard \<Rightarrow> u64 \<Rightarrow> byte list \<Rightarrow> byte list \<Rightarrow> int \<Rightarrow> int \<Rightarrow> gcFreeShard option" where
  "gs_Set ord sh keyHash key value expireAt cost = do {
     let entrySize = entryHeaderSize + length key + length value;
     sh \<leftarrow> (case gs_hashmap sh keyHash of
         None \<Rightarrow> Some sh
       | Some oldOffset \<Rightarrow> if unat oldOffset + 4 \<le> length (gs_data sh) then gs_mark sh oldOffset else Some sh);
     sh \<leftarrow> gs_make_room ord sh entrySize;
     gs_append sh keyHash key value expireAt cost }"

definition gf_Set :: "u64 order \<Rightarrow> GCFreeStore \<Rightarrow> u64 \<Rightarrow> byte list \<Rightarrow> byte list \<Rightarrow> int \<Rightarrow> int \<Rightarrow> (GCFreeStore \<times> bool) option" where
  "gf_Set ord s keyHash key value expireAt cost = do {
     let sh = gf_shard s keyHash;
     let s = (if gs_hashmap sh keyHash = None then s\<lparr>gf_size := i64 (gf_size s + 1)\<rparr> else s);
     sh \<leftarrow> gs_Set (ord (gf_index s keyHash)) sh keyHash key value expireAt cost;
     Some (gf_put_shard s keyHash sh, True) }"

definition gf_Delete :: "GCFreeStore \<Rightarrow> u64 \<Rightarrow> (GCFreeStore \<times> bool) option" where
  "gf_Delete s keyHash =
     (let sh = gf_shard s keyHash
      in case gs_hashmap sh keyHash of
           None \<Rightarrow> Some (s, False)
         | Some offset \<Rightarrow> do {
             sh \<leftarrow> (if unat offset + entryHeaderSize \<le> length (gs_data sh) then gs_mark sh offset else Some sh);
             let s = gf_put_shard s keyHash (sh\<lparr>gs_hashmap := (gs_hashmap sh)(keyHash := None)\<rparr>);
             Some (s\<lparr>gf_size := i64 (gf_size s - 1)\<rparr>, True) })"

definition gf_Clear :: "GCFreeStore \<Rightarrow> GCFreeStore" where
  "gf_Clear s = s\<lparr>gf_shards := map (\<lambda>sh. sh\<lparr>gs_hashmap := Map.empty, gs_tail := 0, gs_deleted := 0\<rparr>) (gf_shards s),
     gf_size := 0\<rparr>"

section \<open>Ranging over the entries\<close>

record gf_visit =
  gv_keyHash :: u64
  gv_key :: "byte list"
  gv_value :: "byte list"
  gv_expireAt :: int
  gv_cost :: int

text \<open>The visits of one shard, and whether the callback asked to stop.\<close>

fun gs_range :: "gcFreeShard \<Rightarrow> int \<Rightarrow> (gf_visit \<Rightarrow> bool) \<Rightarrow> u64 list \<Rightarrow> (gf_visit list \<times> bool) option" where
  "gs_range sh now fn [] = Some ([], False)"
| "gs_range sh now fn (keyHash # hs) =
     (let offset = the (gs_hashmap sh keyHash)
      in if unat offset + entryHeaderSize > length (gs_data sh) then gs_range sh now fn hs
         else do {
           (keyLen, valueLen) \<leftarrow> read_lengths (gs_data sh) offset;
           if keyLen = 0 then gs_range sh now fn hs
           else do {
             e \<leftarrow> subslice (gs_data sh) (unat (offset + 8)) (unat (offset + 16));
             c \<leftarrow> subslice (gs_data sh) (unat (offset + 16)) (unat (offset + 24));
             if sint (Uint64 e) > 0 \<and> now > sint (Uint64 e) then gs_range sh now fn hs
             else do {
               key \<leftarrow> subslice (gs_data sh) (unat (offset + 24)) (unat (offset + 24 + keyLen));
               value \<leftarrow> subslice (gs_data sh) (unat (offset + 24 + keyLen)) (unat (offset + 24 + keyLen + valueLen));
               let x = \<lparr>gv_keyHash = keyHash, gv_key = key, gv_value = value,
                 gv_expireAt = sint (Uint64 e), gv_cost = sint (Uint64 c)\<rparr>;
               if \<not> fn x then Some ([x], True)
               else do { (xs, stop) \<leftarrow> gs_range sh now fn hs; Some (x # xs, stop) } } } })"

fun range_gcfree :: "u64 order \<Rightarrow> int \<Rightarrow> (gf_visit \<Rightarrow> bool) \<Rightarrow> nat \<Rightarrow> gcFreeShard list \<Rightarrow> gf_visit list option" where
  "range_gcfree ord now fn i [] = Some []"
| "range_gcfree ord now fn i (sh # shs) = do {
     (xs, stop) \<leftarrow> gs_range sh now fn (ord i (dom (gs_hashmap sh)));
     if stop then Some xs else do { ys \<leftarrow> range_gcfree ord now fn (Suc i) shs; Some (xs @ ys) } }"

definition gf_Range :: "u64 order \<Rightarrow> GCFreeStore \<Rightarrow> int \<Rightarrow> (gf_visit \<Rightarrow> bool) \<Rightarrow> gf_visit list option" where
  "gf_Range ord s now fn = range_gcfree ord now fn 0 (gf_shards s)"

definition MemoryUsage :: "GCFreeStore \<Rightarrow> int" where
  "MemoryUsage s = foldl (\<lambda>total sh. i64 (i64 (total + int (length (gs_data sh))) + int (card (dom (gs_hashmap sh)) * 16))) 0 (gf_shards s)"

text \<open>The quotient of the floating-point division, as an exact fraction.\<close>

definition Efficiency :: "GCFreeStore \<Rightarrow> rat" where
  "Efficiency s =
     (let (used, total) = foldl (\<lambda>(used, total) sh. (i64 (used + (int (gs_tail sh) - gs_deleted sh)),
            i64 (total + int (length (gs_data sh))))) (0, 0) (gf_shards s)
      in if total = 0 then 1 else of_int used / of_int total)"

section \<open>Serialised entries\<close>

record gf_entry =
  ge_key :: "byte list"
  ge_value :: "byte list"
  ge_expireAt :: int
  ge_cost :: int

definition entry_size :: "gf_entry \<Rightarrow> nat" where
  "entry_size e = 24 + length (ge_key e) + length (ge_value e)"

definition encode :: "gf_entry \<Rightarrow> byte list" where
  "encode e = PutUint32 (of_nat (length (ge_key e))) @ PutUint32 (of_nat (length (ge_value e))) @
     PutUint64 (word_of_int (ge_expireAt e)) @ PutUint64 (word_of_int (ge_cost e)) @ ge_key e @ ge_value e"

definition decode :: "byte list \<Rightarrow> nat \<Rightarrow> gf_entry" where
  "decode d a =
     (let k = unat (Uint32 (seg d a 4)); v = unat (Uint32 (seg d (a + 4) 4))
      in \<lparr>ge_key = seg d (a + 24) k, ge_value = seg d (a + 24 + k) v,
          ge_expireAt = sint (Uint64 (seg d (a + 8) 8)), ge_cost = sint (Uint64 (seg d (a + 16) 8))\<rparr>)"

text \<open>Entries whose lengths fit in 32 bits, with expiration and cost of type \<open>int64\<close>.\<close>

definition entry_fits :: "gf_entry \<Rightarrow> bool" where
  "entry_fits e \<longleftrightarrow> entry_size e < 2 ^ 32 \<and>
     - (2 ^ 63) \<le> ge_expireAt e \<and> ge_expireAt e < 2 ^ 63 \<and> - (2 ^ 63) \<le> ge_cost e \<and> ge_cost e < 2 ^ 63"

text \<open>Those with a key, which no one takes for deleted ones.\<close>

definition entry_ok :: "gf_entry \<Rightarrow> bool" where
  "entry_ok e \<longleftrightarrow> ge_key e \<noteq> [] \<and> entry_fits e"

lemma entry_ok_fits: "entry_ok e \<Longrightarrow> entry_fits e"
  by (simp add: entry_ok_def)

lemma length_encode [simp]: "length (encode e) = entry_size e"
  by (simp add: encode_def entry_size_def)

lemma sint_of_int64: "- (2 ^ 63) \<le> x \<Longrightarrow> x < 2 ^ 63 \<Longrightarrow> sint (word_of_int x :: u64) = x"
  by (subst sint_sbintrunc') (simp add: signed_take_bit_int_eq_self)

text \<open>An entry that lies at \<open>a\<close>, and what its header and body read.\<close>

definition lies_at :: "byte list \<Rightarrow> nat \<Rightarrow> gf_entry \<Rightarrow> bool" where
  "lies_at d a e \<longleftrightarrow> a + entry_size e \<le> length d \<and> seg d a (entry_size e) = encode e"

lemma seg_of_append: "a = length xs \<Longrightarrow> n = length ys \<Longrightarrow> seg (xs @ ys @ zs) a n = ys"
  by (simp add: seg_def)

lemma seg_drop: "seg (drop a d) i n = seg d (a + i) n"
  by (simp add: seg_def add.commute)

lemma lies_at_parts:
  assumes "lies_at d a e"
  shows "seg d a 4 = PutUint32 (of_nat (length (ge_key e)))"
    "seg d (a + 4) 4 = PutUint32 (of_nat (length (ge_value e)))"
    "seg d (a + 8) 8 = PutUint64 (word_of_int (ge_expireAt e))"
    "seg d (a + 16) 8 = PutUint64 (word_of_int (ge_cost e))"
    "seg d (a + 24) (length (ge_key e)) = ge_key e"
    "seg d (a + 24 + length (ge_key e)) (length (ge_value e)) = ge_value e"
proof -
  have sub: "seg d (a + i) n = seg (encode e) i n" if "i + n \<le> entry_size e" for i n
    using assms seg_seg [OF that, of d a] by (simp add: lies_at_def)
  let ?k = "PutUint32 (of_nat (length (ge_key e)))" and ?v = "PutUint32 (of_nat (length (ge_value e)))"
  let ?x = "PutUint64 (word_of_int (ge_expireAt e))" and ?c = "PutUint64 (word_of_int (ge_cost e))"
  note e = encode_def entry_size_def
  show "seg d a 4 = ?k" using sub [of 0 4] by (simp add: e seg_def)
  show "seg d (a + 4) 4 = ?v" using sub [of 4 4] by (simp add: e seg_def)
  show "seg d (a + 8) 8 = ?x" using sub [of 8 8] by (simp add: e seg_def)
  show "seg d (a + 16) 8 = ?c" using sub [of 16 8] by (simp add: e seg_def)
  show "seg d (a + 24) (length (ge_key e)) = ge_key e" using sub [of 24] by (simp add: e seg_def)
  show "seg d (a + 24 + length (ge_key e)) (length (ge_value e)) = ge_value e"
    using sub [of "24 + length (ge_key e)"] by (simp add: e seg_def add.assoc)
qed

lemma lies_at_lengths:
  assumes "lies_at d a e" "entry_fits e"
  shows "unat (Uint32 (seg d a 4)) = length (ge_key e)" "unat (Uint32 (seg d (a + 4) 4)) = length (ge_value e)"
    "sint (Uint64 (seg d (a + 8) 8)) = ge_expireAt e" "sint (Uint64 (seg d (a + 16) 8)) = ge_cost e"
  using assms(2) by (simp_all add: lies_at_parts [OF assms(1)] entry_fits_def entry_size_def unat_of_nat sint_of_int64)

lemma decode_lies_at:
  assumes "lies_at d a e" "entry_fits e"
  shows "decode d a = e"
  unfolding decode_def Let_def lies_at_lengths [OF assms] lies_at_parts(5,6) [OF assms(1)] by simp

lemma lies_at_overwrite: "a + entry_size e \<le> length d \<Longrightarrow> lies_at (overwrite d a (encode e)) a e"
  by (simp add: lies_at_def seg_overwrite_same)

lemma lies_at_frame:
  "lies_at d a e \<Longrightarrow> b + length bs \<le> length d \<Longrightarrow> b + length bs \<le> a \<or> a + entry_size e \<le> b \<Longrightarrow>
   lies_at (overwrite d b bs) a e"
  by (auto simp: lies_at_def seg_overwrite_other)

lemma offset_add: "unat (off :: u32) + unat n < 2 ^ 32 \<Longrightarrow> unat (off + n) = unat off + unat n"
  by (simp add: unat_add_lem [THEN iffD1])

lemma read_lengths_at:
  assumes "lies_at d (unat off) e" "entry_fits e" "length d < 2 ^ 32"
  shows "read_lengths d off = Some (of_nat (length (ge_key e)), of_nat (length (ge_value e)))"
    "unat (of_nat (length (ge_key e)) :: u32) = length (ge_key e)"
    "unat (of_nat (length (ge_value e)) :: u32) = length (ge_value e)"
proof -
  have b: "unat off + 24 \<le> length d" using assms(1) by (simp add: lies_at_def entry_size_def)
  have o: "unat (off + 4) = unat off + 4" "unat (off + 8) = unat off + 8"
    using b assms(3) by (subst offset_add; simp)+
  show "read_lengths d off = Some (of_nat (length (ge_key e)), of_nat (length (ge_value e)))"
    unfolding read_lengths_def o using b subslice_seg [of "unat off" 4 d] subslice_seg [of "unat off + 4" 4 d "unat off + 8"]
    by (simp add: lies_at_parts [OF assms(1)])
  show "unat (of_nat (length (ge_key e)) :: u32) = length (ge_key e)"
    "unat (of_nat (length (ge_value e)) :: u32) = length (ge_value e)"
    using assms(2) by (simp_all add: entry_fits_def entry_size_def unat_of_nat)
qed

section \<open>The map a shard denotes\<close>

definition located :: "gcFreeShard \<Rightarrow> u32 \<Rightarrow> gf_entry \<Rightarrow> bool" where
  "located sh off e \<longleftrightarrow> entry_ok e \<and> lies_at (gs_data sh) (unat off) e \<and> unat off + entry_size e \<le> gs_tail sh"

definition marked :: "gcFreeShard \<Rightarrow> u32 \<Rightarrow> bool" where
  "marked sh off \<longleftrightarrow> unat off + 24 \<le> gs_tail sh \<and> seg (gs_data sh) (unat off) 4 = PutUint32 0"

definition apart :: "u32 \<Rightarrow> gf_entry \<Rightarrow> u32 \<Rightarrow> gf_entry \<Rightarrow> bool" where
  "apart a e b f \<longleftrightarrow> unat a + entry_size e \<le> unat b \<or> unat b + entry_size f \<le> unat a"

text \<open>
  A shard holds the entries \<open>M\<close>: they lie at the offsets of their hashes, apart from one another, and
  what else lies below the tail is counted as deleted. A hash outside \<open>M\<close> points to a deleted entry.
\<close>

definition gs_pre :: "gcFreeShard \<Rightarrow> (u64 \<rightharpoonup> gf_entry) \<Rightarrow> bool" where
  "gs_pre sh M \<longleftrightarrow> finite (dom (gs_hashmap sh)) \<and> dom M \<subseteq> dom (gs_hashmap sh) \<and>
     (\<forall>k off e. gs_hashmap sh k = Some off \<longrightarrow> M k = Some e \<longrightarrow> located sh off e) \<and>
     (\<forall>k off. gs_hashmap sh k = Some off \<longrightarrow> M k = None \<longrightarrow> marked sh off) \<and>
     (\<forall>k k' a b e f. k \<noteq> k' \<longrightarrow> gs_hashmap sh k = Some a \<longrightarrow> gs_hashmap sh k' = Some b \<longrightarrow>
        M k = Some e \<longrightarrow> M k' = Some f \<longrightarrow> apart a e b f) \<and>
     gs_deleted sh + map_sum (\<lambda>e. int (entry_size e)) M = int (gs_tail sh) \<and>
     0 \<le> gs_deleted sh \<and> gs_tail sh \<le> length (gs_data sh) \<and> length (gs_data sh) < 2 ^ 32"

definition gs_rel :: "gcFreeShard \<Rightarrow> (u64 \<rightharpoonup> gf_entry) \<Rightarrow> bool" where
  "gs_rel sh M \<longleftrightarrow> gs_pre sh M \<and> dom (gs_hashmap sh) = dom M"

lemma gs_preD:
  assumes "gs_pre sh M"
  shows "finite (dom (gs_hashmap sh))" "finite (dom M)"
    "gs_hashmap sh k = Some off \<Longrightarrow> M k = Some e \<Longrightarrow> located sh off e"
    "gs_hashmap sh k = Some off \<Longrightarrow> M k = None \<Longrightarrow> marked sh off"
    "k \<noteq> k' \<Longrightarrow> gs_hashmap sh k = Some a \<Longrightarrow> gs_hashmap sh k' = Some b \<Longrightarrow> M k = Some e \<Longrightarrow> M k' = Some f \<Longrightarrow>
      apart a e b f"
    "gs_deleted sh = int (gs_tail sh) - map_sum (\<lambda>e. int (entry_size e)) M"
    "gs_tail sh \<le> length (gs_data sh)" "length (gs_data sh) < 2 ^ 32"
    "M k = Some e \<Longrightarrow> \<exists>off. gs_hashmap sh k = Some off" "0 \<le> gs_deleted sh"
proof -
  from assms show "finite (dom (gs_hashmap sh))" "finite (dom M)"
    unfolding gs_pre_def by (blast intro: finite_subset)+
  from assms show "M k = Some e \<Longrightarrow> \<exists>off. gs_hashmap sh k = Some off" by (auto simp: gs_pre_def)
  from assms show "gs_hashmap sh k = Some off \<Longrightarrow> M k = Some e \<Longrightarrow> located sh off e"
    "gs_hashmap sh k = Some off \<Longrightarrow> M k = None \<Longrightarrow> marked sh off"
    "k \<noteq> k' \<Longrightarrow> gs_hashmap sh k = Some a \<Longrightarrow> gs_hashmap sh k' = Some b \<Longrightarrow> M k = Some e \<Longrightarrow> M k' = Some f \<Longrightarrow>
      apart a e b f" unfolding gs_pre_def by blast+
  from assms show "gs_deleted sh = int (gs_tail sh) - map_sum (\<lambda>e. int (entry_size e)) M"
    "gs_tail sh \<le> length (gs_data sh)" "length (gs_data sh) < 2 ^ 32" "0 \<le> gs_deleted sh" by (auto simp: gs_pre_def)
qed

subsection \<open>Marking an entry\<close>

lemma gs_mark_spec:
  assumes r: "gs_rel sh M" and h: "gs_hashmap sh h = Some off" "M h = Some e"
  obtains sh' where "gs_mark sh off = Some sh'" "gs_pre sh' (M(h := None))"
    "gs_hashmap sh' = gs_hashmap sh" "gs_tail sh' = gs_tail sh" "length (gs_data sh') = length (gs_data sh)"
    "gs_deleted sh' = gs_deleted sh + int (entry_size e)"
proof -
  have p: "gs_pre sh M" and d: "dom (gs_hashmap sh) = dom M" using r by (auto simp: gs_rel_def)
  note D = gs_preD [OF p]
  have l: "lies_at (gs_data sh) (unat off) e" "entry_ok e" using D(3) [OF h] by (auto simp: located_def)
  have b: "unat off + entry_size e \<le> gs_tail sh" "unat off + 24 \<le> gs_tail sh"
    using D(3) [OF h] by (auto simp: located_def entry_size_def)
  note rl = read_lengths_at [OF l(1) entry_ok_fits [OF l(2)] D(8)]
  let ?d = "overwrite (gs_data sh) (unat off) (PutUint32 0)"
  have "unat (off + 4) = unat off + 4" using b D(7,8) by (subst offset_add) simp_all
  then have w: "put_at (gs_data sh) (unat off) (unat (off + 4)) (PutUint32 0) = Some ?d"
    using b D(7) by (intro put_at_overwrite) auto
  define sh' where "sh' = sh\<lparr>gs_data := ?d, gs_deleted := gs_deleted sh + int (entry_size e)\<rparr>"
  have m: "gs_mark sh off = Some sh'"
    by (simp only: gs_mark_def rl w Option.bind.simps prod.case sh'_def entry_size_def entryHeaderSize_def)
  have fit: "unat off + 4 \<le> length (gs_data sh)" using b D(7) by simp
  have loc: "located sh' a f" if "k \<noteq> h" "gs_hashmap sh k = Some a" "M k = Some f" for k a f
  proof -
    have "apart a f off e" using D(5) [OF that(1,2) h(1) that(3) h(2)] .
    then have "unat off + 4 \<le> unat a \<or> unat a + entry_size f \<le> unat off" by (auto simp: apart_def entry_size_def)
    then show ?thesis using D(3) [OF that(2,3)] fit
      by (auto simp: located_def sh'_def intro!: lies_at_frame)
  qed
  have mk: "marked sh' off" using b fit by (simp add: marked_def sh'_def seg_overwrite_same)
  have "gs_pre sh' (M(h := None))" unfolding gs_pre_def
  proof (intro conjI allI impI)
    show "finite (dom (gs_hashmap sh'))" using D(1) by (simp add: sh'_def)
    show "dom (M(h := None)) \<subseteq> dom (gs_hashmap sh')" using d by (auto simp: sh'_def)
    show "gs_tail sh' \<le> length (gs_data sh')" "length (gs_data sh') < 2 ^ 32" "0 \<le> gs_deleted sh'"
      using D(7,8,10) fit by (simp_all add: sh'_def)
    show "gs_deleted sh' + map_sum (\<lambda>e. int (entry_size e)) (M(h := None)) = int (gs_tail sh')"
      using D(6) map_sum_delete [OF D(2) h(2)] by (simp add: sh'_def)
    show "located sh' a f" if "gs_hashmap sh' k = Some a" "(M(h := None)) k = Some f" for k a f
      using loc [of k a f] that by (auto simp: sh'_def split: if_splits)
    show "marked sh' a" if "gs_hashmap sh' k = Some a" "(M(h := None)) k = None" for k a
    proof (cases "k = h")
      case True
      then show ?thesis using that(1) h(1) mk by (simp add: sh'_def)
    next
      case False
      have "k \<in> dom M" using that(1) unfolding d [symmetric] by (auto simp: sh'_def)
      with False that(2) show ?thesis by auto
    qed
    show "apart a f b g" if "k \<noteq> k'" "gs_hashmap sh' k = Some a" "gs_hashmap sh' k' = Some b"
      "(M(h := None)) k = Some f" "(M(h := None)) k' = Some g" for k k' a b f g
      using D(5) [OF that(1), of a b f g] that by (auto simp: sh'_def split: if_splits)
  qed
  then show thesis using that [OF m] fit by (simp add: sh'_def)
qed

subsection \<open>Appending an entry\<close>

abbreviation gs_push :: "gcFreeShard \<Rightarrow> u64 \<Rightarrow> gf_entry \<Rightarrow> gcFreeShard" where
  "gs_push sh h e \<equiv> sh\<lparr>gs_data := overwrite (gs_data sh) (gs_tail sh) (encode e), gs_tail := gs_tail sh + entry_size e,
     gs_hashmap := (gs_hashmap sh)(h \<mapsto> of_nat (gs_tail sh))\<rparr>"

lemma gs_append_push:
  assumes "gs_tail sh + entry_size e \<le> length (gs_data sh)"
  shows "gs_append sh h (ge_key e) (ge_value e) (ge_expireAt e) (ge_cost e) = Some (gs_push sh h e)"
proof -
  let ?d = "gs_data sh" and ?t = "gs_tail sh"
  let ?k = "PutUint32 (of_nat (length (ge_key e)))" and ?v = "PutUint32 (of_nat (length (ge_value e)))"
  let ?x = "PutUint64 (word_of_int (ge_expireAt e))" and ?c = "PutUint64 (word_of_int (ge_cost e))"
  have b: "?t + 24 + length (ge_key e) + length (ge_value e) \<le> length ?d" using assms by (simp add: entry_size_def)
  have "put_at ?d ?t (?t + 4) ?k = Some (overwrite ?d ?t ?k)"
    "put_at (overwrite ?d ?t ?k) (?t + 4) (?t + 8) ?v = Some (overwrite ?d ?t (?k @ ?v))"
    "put_at (overwrite ?d ?t (?k @ ?v)) (?t + 8) (?t + 16) ?x = Some (overwrite ?d ?t (?k @ ?v @ ?x))"
    "put_at (overwrite ?d ?t (?k @ ?v @ ?x)) (?t + 16) (?t + 24) ?c = Some (overwrite ?d ?t (?k @ ?v @ ?x @ ?c))"
    "copy_at (overwrite ?d ?t (?k @ ?v @ ?x @ ?c)) (?t + 24) (ge_key e) =
       Some (overwrite ?d ?t (?k @ ?v @ ?x @ ?c @ ge_key e))"
    "copy_at (overwrite ?d ?t (?k @ ?v @ ?x @ ?c @ ge_key e)) (?t + 24 + length (ge_key e)) (ge_value e) =
       Some (overwrite ?d ?t (encode e))"
    using b by (simp_all add: put_at_overwrite copy_at_overwrite overwrite_overwrite encode_def)
  then show ?thesis
    by (simp only: gs_append_def Let_def entryHeaderSize_def entry_size_def Option.bind.simps add.assoc)
qed

lemma gs_push_pre:
  assumes p: "gs_pre sh M" and h: "M h = None" and e: "entry_ok e"
    and fit: "gs_tail sh + entry_size e \<le> length (gs_data sh)"
  shows "gs_pre (gs_push sh h e) (M(h \<mapsto> e))"
proof -
  note D = gs_preD [OF p]
  let ?s = "gs_push sh h e"
  have t: "unat (of_nat (gs_tail sh) :: u32) = gs_tail sh" using D(7,8) by (simp add: unat_of_nat)
  have len: "length (gs_data ?s) = length (gs_data sh)" using fit by simp
  have new: "located ?s (of_nat (gs_tail sh)) e" using fit e by (simp add: located_def t lies_at_overwrite)
  have old: "located ?s a f" if "located sh a f" for a f
    using that fit by (auto simp: located_def intro!: lies_at_frame)
  have mk: "marked ?s a" if "marked sh a" for a using that fit by (simp add: marked_def seg_overwrite_other)
  have ap: "apart a f (of_nat (gs_tail sh)) e" "apart (of_nat (gs_tail sh)) e a f" if "located sh a f" for a f
    using that by (auto simp: apart_def located_def t)
  show ?thesis unfolding gs_pre_def
  proof (intro conjI allI impI)
    show "finite (dom (gs_hashmap ?s))" using D(1) by simp
    show "dom (M(h \<mapsto> e)) \<subseteq> dom (gs_hashmap ?s)" using D(9) by auto
    show "gs_tail ?s \<le> length (gs_data ?s)" "length (gs_data ?s) < 2 ^ 32" "0 \<le> gs_deleted ?s" using fit D(8,10) by simp_all
    show "gs_deleted ?s + map_sum (\<lambda>e. int (entry_size e)) (M(h \<mapsto> e)) = int (gs_tail ?s)"
      using D(6) map_sum_insert [OF D(2) h] by simp
    show "located ?s a f" if "gs_hashmap ?s k = Some a" "(M(h \<mapsto> e)) k = Some f" for k a f
      using new old D(3) [of k a f] that by (cases "k = h") auto
    show "marked ?s a" if "gs_hashmap ?s k = Some a" "(M(h \<mapsto> e)) k = None" for k a
      using mk D(4) [of k a] that by (cases "k = h") auto
    show "apart a f b g" if "k \<noteq> k'" "gs_hashmap ?s k = Some a" "gs_hashmap ?s k' = Some b"
      "(M(h \<mapsto> e)) k = Some f" "(M(h \<mapsto> e)) k' = Some g" for k k' a b f g
      using that D(5) [OF that(1), of a b f g] D(3) [of k a f] D(3) [of k' b g] ap [of a f] ap [of b g]
      by (cases "k = h"; cases "k' = h") auto
  qed
qed

subsection \<open>Compaction\<close>

lemma map_sum_restrict_le:
  assumes "finite (dom m)" "\<And>x. 0 \<le> f x"
  shows "map_sum f (m |` P) \<le> map_sum f m"
  unfolding map_sum_def using assms by (simp add: sum_mono2 flip: restrict_map_to_empty)

lemma header_slices:
  fixes off :: u32
  assumes "lies_at d (unat off) e" "length d < 2 ^ 32"
  shows "subslice d (unat off) (unat (off + 4)) = Some (PutUint32 (of_nat (length (ge_key e))))"
    "subslice d (unat (off + 4)) (unat (off + 8)) = Some (PutUint32 (of_nat (length (ge_value e))))"
proof -
  have b: "unat off + 24 \<le> length d" using assms(1) by (simp add: lies_at_def entry_size_def)
  have o: "unat (off + 4) = unat off + 4" "unat (off + 8) = unat off + 8"
    using b assms(2) by (subst offset_add; simp)+
  show "subslice d (unat off) (unat (off + 4)) = Some (PutUint32 (of_nat (length (ge_key e))))"
    "subslice d (unat (off + 4)) (unat (off + 8)) = Some (PutUint32 (of_nat (length (ge_value e))))"
    unfolding o using b subslice_seg [of "unat off" 4 d] subslice_seg [of "unat off + 4" 4 d "unat off + 8"]
    by (simp_all add: lies_at_parts [OF assms(1)])
qed

lemma compact_loop_spec:
  assumes p: "gs_pre sh M"
  shows "distinct hs \<Longrightarrow> set hs \<subseteq> dom (gs_hashmap sh) \<Longrightarrow> set hs \<inter> P = {} \<Longrightarrow>
    gs_rel acc (M |` P) \<Longrightarrow> gs_deleted acc = 0 \<Longrightarrow> length (gs_data acc) = length (gs_data sh) \<Longrightarrow>
    \<exists>acc'. compact_loop (gs_data sh) (map (\<lambda>k. (k, the (gs_hashmap sh k))) hs) (gs_data acc) (gs_hashmap acc) (gs_tail acc)
        = Some (gs_data acc', gs_hashmap acc', gs_tail acc') \<and>
      gs_rel acc' (M |` (P \<union> set hs)) \<and> gs_deleted acc' = 0 \<and> length (gs_data acc') = length (gs_data sh)"
proof (induction hs arbitrary: P acc)
  case Nil
  then show ?case by auto
next
  case (Cons h hs)
  note D = gs_preD [OF p]
  obtain off where off: "gs_hashmap sh h = Some off" using Cons.prems(2) by auto
  have hs: "distinct hs" "set hs \<subseteq> dom (gs_hashmap sh)" "set hs \<inter> insert h P = {}" using Cons.prems by auto
  note IH = Cons.IH [OF hs]
  show ?case
  proof (cases "M h")
    case None
    have mk: "unat off + 24 \<le> length (gs_data sh)" "seg (gs_data sh) (unat off) 4 = PutUint32 0"
      using D(4) [OF off None] D(7) by (auto simp: marked_def)
    have "unat (off + 4) = unat off + 4" using mk(1) D(8) by (subst offset_add) simp_all
    then have "subslice (gs_data sh) (unat off) (unat (off + 4)) = Some (PutUint32 0)"
      using mk subslice_seg [of "unat off" 4 "gs_data sh"] by simp
    moreover have "M |` insert h P = M |` P" "M |` (P \<union> set (h # hs)) = M |` (insert h P \<union> set hs)"
      using None by (auto simp: restrict_map_def fun_eq_iff)
    ultimately show ?thesis using IH [of acc] Cons.prems mk(1) by (simp add: off entryHeaderSize_def)
  next
    case (Some e)
    have l: "entry_ok e" "lies_at (gs_data sh) (unat off) e" "unat off + entry_size e \<le> gs_tail sh"
      using D(3) [OF off Some] by (auto simp: located_def)
    note hd = header_slices [OF l(2) D(8)] read_lengths_at(2,3) [OF l(2) entry_ok_fits [OF l(1)] D(8)]
    have nz: "(of_nat (length (ge_key e)) :: u32) \<noteq> 0" using hd(3) l(1) by (auto simp: entry_ok_def)
    have es: "entryHeaderSize + length (ge_key e) + length (ge_value e) = entry_size e"
      by (simp add: entryHeaderSize_def entry_size_def)
    have b: "unat off + entry_size e \<le> length (gs_data sh)" using l(3) D(7) by simp
    have sg: "seg (gs_data sh) (unat off) (entry_size e) = encode e" using l(2) by (simp add: lies_at_def)
    have hP: "h \<notin> P" using Cons.prems(3) by auto
    have ins: "M |` insert h P = (M |` P)(h \<mapsto> e)" using Some by (auto simp: restrict_map_def fun_eq_iff)
    have ap: "gs_pre acc (M |` P)" "dom (gs_hashmap acc) = dom (M |` P)" using Cons.prems(4) by (auto simp: gs_rel_def)
    have "int (gs_tail acc) + int (entry_size e) = map_sum (\<lambda>e. int (entry_size e)) (M |` insert h P)"
      unfolding ins using map_sum_insert [OF gs_preD(2) [OF ap(1)], of h "\<lambda>e. int (entry_size e)" e] hP
        gs_preD(6) [OF ap(1)] Cons.prems(5) by simp
    also have "\<dots> \<le> map_sum (\<lambda>e. int (entry_size e)) M" by (rule map_sum_restrict_le [OF D(2)]) simp
    also have "\<dots> \<le> int (length (gs_data sh))" using D(6,7,10) by simp
    finally have fit: "gs_tail acc + entry_size e \<le> length (gs_data acc)" using Cons.prems(6) by linarith
    have "gs_pre (gs_push acc h e) (M |` insert h P)" unfolding ins
      by (rule gs_push_pre [OF ap(1) _ l(1) fit]) (simp add: hP)
    moreover have "dom (gs_hashmap (gs_push acc h e)) = dom (M |` insert h P)" using ap(2) unfolding ins by auto
    ultimately have "gs_rel (gs_push acc h e) (M |` insert h P)" by (simp add: gs_rel_def)
    from IH [OF this] fit Cons.prems(5,6) obtain acc' where acc': "compact_loop (gs_data sh)
        (map (\<lambda>k. (k, the (gs_hashmap sh k))) hs) (overwrite (gs_data acc) (gs_tail acc) (encode e))
        ((gs_hashmap acc)(h \<mapsto> of_nat (gs_tail acc))) (gs_tail acc + entry_size e)
        = Some (gs_data acc', gs_hashmap acc', gs_tail acc')"
      "gs_rel acc' (M |` (insert h P \<union> set hs))" "gs_deleted acc' = 0" "length (gs_data acc') = length (gs_data sh)"
      by (auto simp del: fun_upd_apply)
    have "compact_loop (gs_data sh) (map (\<lambda>k. (k, the (gs_hashmap sh k))) (h # hs)) (gs_data acc) (gs_hashmap acc) (gs_tail acc)
        = Some (gs_data acc', gs_hashmap acc', gs_tail acc')"
      using b nz fit acc'(1) by (simp add: off hd es sg copy_at_overwrite Let_def) (simp add: entryHeaderSize_def entry_size_def)
    then show ?thesis using acc'(2-4) by auto
  qed
qed

lemma gs_compact_spec:
  assumes p: "gs_pre sh M"
    and ord: "set (ord (dom (gs_hashmap sh))) = dom (gs_hashmap sh)" "distinct (ord (dom (gs_hashmap sh)))"
  obtains sh' where "gs_compact ord sh = Some sh'" "gs_rel sh' M" "gs_deleted sh' = 0"
    "length (gs_data sh') = length (gs_data sh)"
proof -
  note D = gs_preD [OF p]
  let ?acc = "sh\<lparr>gs_data := replicate (length (gs_data sh)) 0, gs_hashmap := Map.empty, gs_tail := 0, gs_deleted := 0\<rparr>"
  have "gs_rel ?acc (M |` {})" using D(8) by (simp add: gs_rel_def gs_pre_def)
  then have "\<exists>acc'. compact_loop (gs_data sh) (map (\<lambda>k. (k, the (gs_hashmap sh k))) (ord (dom (gs_hashmap sh))))
      (gs_data ?acc) (gs_hashmap ?acc) (gs_tail ?acc) = Some (gs_data acc', gs_hashmap acc', gs_tail acc') \<and>
    gs_rel acc' (M |` ({} \<union> set (ord (dom (gs_hashmap sh))))) \<and> gs_deleted acc' = 0 \<and>
    length (gs_data acc') = length (gs_data sh)"
    by (intro compact_loop_spec [OF p ord(2)]) (simp_all add: ord(1))
  then obtain acc' where a: "compact_loop (gs_data sh) (map (\<lambda>k. (k, the (gs_hashmap sh k))) (ord (dom (gs_hashmap sh))))
      (replicate (length (gs_data sh)) 0) Map.empty 0 = Some (gs_data acc', gs_hashmap acc', gs_tail acc')"
    "gs_rel acc' (M |` dom (gs_hashmap sh))" "gs_deleted acc' = 0" "length (gs_data acc') = length (gs_data sh)"
    by (auto simp: ord(1))
  have "(M |` dom (gs_hashmap sh)) x = M x" for x using D(9) [of x] by (cases "M x") (auto simp: restrict_map_def)
  then have "M |` dom (gs_hashmap sh) = M" by blast
  moreover have "gs_compact ord sh = Some (sh\<lparr>gs_data := gs_data acc', gs_hashmap := gs_hashmap acc', gs_tail := gs_tail acc', gs_deleted := 0\<rparr>)"
    by (simp add: gs_compact_def a(1))
  moreover have "sh\<lparr>gs_data := gs_data acc', gs_hashmap := gs_hashmap acc', gs_tail := gs_tail acc', gs_deleted := 0\<rparr> = acc'"
    using a(3) by simp
  ultimately show thesis using that a(2-4) by metis
qed

subsection \<open>Growth\<close>

lemma grow_size_spec:
  "0 < n \<Longrightarrow> \<exists>m. grow_size n want = Some m \<and> want \<le> m \<and> n \<le> m \<and> (m = n \<or> m < 2 * want)"
proof (induction "want - n" arbitrary: n rule: less_induct)
  case less
  show ?case
  proof (cases "n < want")
    case True
    then have "want - n * 2 < want - n" "0 < n * 2" using less.prems by simp_all
    from less.hyps [OF this] obtain m where "grow_size (n * 2) want = Some m" "want \<le> m" "n * 2 \<le> m"
      "m = n * 2 \<or> m < 2 * want" by blast
    then show ?thesis using True by (subst grow_size.simps) auto
  next
    case False
    then show ?thesis by (subst grow_size.simps) auto
  qed
qed

lemma gs_grow_spec:
  assumes p: "gs_pre sh M" and n: "gs_data sh \<noteq> []" "gs_tail sh + needed > length (gs_data sh)" "gs_tail sh + needed \<le> 2 ^ 31"
  obtains sh' where "gs_grow sh needed = Some sh'" "gs_pre sh' M" "gs_hashmap sh' = gs_hashmap sh"
    "gs_tail sh' = gs_tail sh" "gs_tail sh + needed \<le> length (gs_data sh')"
proof -
  note D = gs_preD [OF p]
  from grow_size_spec [of "length (gs_data sh) * 2" "gs_tail sh + needed"] n(1) obtain m where
    m: "grow_size (length (gs_data sh) * 2) (gs_tail sh + needed) = Some m" "gs_tail sh + needed \<le> m"
      "m = length (gs_data sh) * 2 \<or> m < 2 * (gs_tail sh + needed)" by auto
  have m32: "m < 2 ^ 32" using m(3) n(2,3) by auto
  define d where "d = take (gs_tail sh) (gs_data sh) @ replicate (m - gs_tail sh) 0"
  have "gs_grow sh needed = Some (sh\<lparr>gs_data := d\<rparr>)"
    using m(1,2) D(7) by (simp add: gs_grow_def subslice_def copy_at_def overwrite_def d_def)
  moreover have len: "length d = m" using D(7) m(2) by (simp add: d_def)
  have sg: "seg d a k = seg (gs_data sh) a k" if "a + k \<le> gs_tail sh" for a k
    unfolding d_def using that D(7) by (rule seg_prefix)
  have "gs_pre (sh\<lparr>gs_data := d\<rparr>) M" unfolding gs_pre_def
  proof (intro conjI allI impI)
    show "dom M \<subseteq> dom (gs_hashmap (sh\<lparr>gs_data := d\<rparr>))" using D(9) by auto
    show "located (sh\<lparr>gs_data := d\<rparr>) a e" if "gs_hashmap (sh\<lparr>gs_data := d\<rparr>) k = Some a" "M k = Some e" for k a e
      using D(3) [of k a e] that m(2) by (auto simp: located_def lies_at_def len sg)
    show "marked (sh\<lparr>gs_data := d\<rparr>) a" if "gs_hashmap (sh\<lparr>gs_data := d\<rparr>) k = Some a" "M k = None" for k a
      using D(4) [of k a] that by (auto simp: marked_def sg)
    show "apart a e b f" if "k \<noteq> k'" "gs_hashmap (sh\<lparr>gs_data := d\<rparr>) k = Some a"
      "gs_hashmap (sh\<lparr>gs_data := d\<rparr>) k' = Some b" "M k = Some e" "M k' = Some f" for k k' a b e f
      using D(5) [OF that(1)] that by simp
  qed (use D m32 m(2) in \<open>simp_all add: len\<close>)
  ultimately show thesis using that [of "sh\<lparr>gs_data := d\<rparr>"] m(2) by (simp add: len)
qed

subsection \<open>Room, and the operations on a shard\<close>

lemma gs_make_room_spec:
  assumes p: "gs_pre sh M" and n: "gs_data sh \<noteq> []" "gs_tail sh + sz \<le> 2 ^ 31" "sz \<le> length (gs_data sh) div 4"
    and ord: "enumerates ord" and d: "insert h (dom (gs_hashmap sh)) = insert h (dom M)"
  obtains sh' where "gs_make_room (ord i) sh sz = Some sh'" "gs_pre sh' M" "gs_tail sh' \<le> gs_tail sh"
    "gs_tail sh' + sz \<le> length (gs_data sh')" "insert h (dom (gs_hashmap sh')) = insert h (dom M)"
    "length (gs_data sh) \<le> length (gs_data sh')"
proof -
  note D = gs_preD [OF p]
  consider "gs_tail sh + sz \<le> length (gs_data sh)"
    | "gs_tail sh + sz > length (gs_data sh)" "gs_deleted sh > int (length (gs_data sh) div 4)"
    | "gs_tail sh + sz > length (gs_data sh)" "\<not> gs_deleted sh > int (length (gs_data sh) div 4)" by linarith
  then show thesis
  proof cases
    case 1
    then show ?thesis using that [of sh] p d by (simp add: gs_make_room_def)
  next
    case 2
    have "set (ord i (dom (gs_hashmap sh))) = dom (gs_hashmap sh)" "distinct (ord i (dom (gs_hashmap sh)))"
      using ord D(1) by (auto simp: enumerates_def)
    from gs_compact_spec [where ord = "ord i", OF p this] obtain sh' where c: "gs_compact (ord i) sh = Some sh'" "gs_rel sh' M"
      "gs_deleted sh' = 0" "length (gs_data sh') = length (gs_data sh)" .
    have "int (gs_tail sh') = int (gs_tail sh) - gs_deleted sh"
      using c(2,3) gs_preD(6) [of sh' M] D(6) by (simp add: gs_rel_def)
    then have "gs_tail sh' \<le> gs_tail sh" "gs_tail sh' + sz \<le> length (gs_data sh')" using 2 n(3) c(4) D(7,10) by linarith+
    then show ?thesis using that [of sh'] 2 c by (simp add: gs_make_room_def gs_rel_def)
  next
    case 3
    from gs_grow_spec [OF p n(1) 3(1) n(2)] obtain sh' where g: "gs_grow sh sz = Some sh'" "gs_pre sh' M"
      "gs_hashmap sh' = gs_hashmap sh" "gs_tail sh' = gs_tail sh" "gs_tail sh + sz \<le> length (gs_data sh')" .
    then show ?thesis using that [of sh'] 3 d D(7) by (simp add: gs_make_room_def)
  qed
qed

text \<open>The first step of a set: the entry the hash had is marked.\<close>

lemma gs_Set_mark:
  assumes r: "gs_rel sh M"
  obtains sh1 where "(case gs_hashmap sh h of None \<Rightarrow> Some sh
      | Some oldOffset \<Rightarrow> if unat oldOffset + 4 \<le> length (gs_data sh) then gs_mark sh oldOffset else Some sh) = Some sh1"
    "gs_pre sh1 (M(h := None))" "gs_hashmap sh1 = gs_hashmap sh" "gs_tail sh1 = gs_tail sh"
    "length (gs_data sh1) = length (gs_data sh)"
proof -
  have p: "gs_pre sh M" and dm: "dom (gs_hashmap sh) = dom M" using r by (auto simp: gs_rel_def)
  show thesis
  proof (cases "gs_hashmap sh h")
    case None
    then have "M(h := None) = M" using dm by (metis domIff fun_upd_triv)
    then show ?thesis using that [of sh] None p by simp
  next
    case (Some off)
    then obtain x where x: "M h = Some x" using dm by auto
    have "unat off + 4 \<le> length (gs_data sh)" using gs_preD(3) [OF p Some x] by (auto simp: located_def lies_at_def entry_size_def)
    moreover obtain sh' where "gs_mark sh off = Some sh'" "gs_pre sh' (M(h := None))" "gs_hashmap sh' = gs_hashmap sh"
      "gs_tail sh' = gs_tail sh" "length (gs_data sh') = length (gs_data sh)" using gs_mark_spec [OF r Some x] by blast
    ultimately show ?thesis using that [of sh'] Some by simp
  qed
qed

text \<open>The last step of a set: the entry is written.\<close>

lemma gs_push_rel:
  assumes "gs_pre sh (M(h := None))" "insert h (dom (gs_hashmap sh)) = insert h (dom (M(h := None)))" "entry_ok e"
    "gs_tail sh + entry_size e \<le> length (gs_data sh)"
  shows "gs_rel (gs_push sh h e) (M(h \<mapsto> e))"
proof -
  have "gs_pre (gs_push sh h e) (M(h \<mapsto> e))" using gs_push_pre [OF assms(1) _ assms(3,4), of h] by simp
  moreover have "dom (gs_hashmap (gs_push sh h e)) = dom (M(h \<mapsto> e))" using assms(2) by auto
  ultimately show ?thesis by (simp add: gs_rel_def)
qed

lemma gs_Set_spec:
  assumes r: "gs_rel sh M" and n: "gs_data sh \<noteq> []" "gs_tail sh + entry_size e \<le> 2 ^ 31"
    "entry_size e \<le> length (gs_data sh) div 4" "entry_ok e" and ord: "enumerates ord"
  obtains sh' where "gs_Set (ord i) sh h (ge_key e) (ge_value e) (ge_expireAt e) (ge_cost e) = Some sh'"
    "gs_rel sh' (M(h \<mapsto> e))" "gs_tail sh' \<le> gs_tail sh + entry_size e" "length (gs_data sh) \<le> length (gs_data sh')"
proof -
  have dm: "dom (gs_hashmap sh) = dom M" using r by (auto simp: gs_rel_def)
  obtain sh1 where m: "(case gs_hashmap sh h of None \<Rightarrow> Some sh
      | Some oldOffset \<Rightarrow> if unat oldOffset + 4 \<le> length (gs_data sh) then gs_mark sh oldOffset else Some sh) = Some sh1"
    "gs_pre sh1 (M(h := None))" "gs_hashmap sh1 = gs_hashmap sh" "gs_tail sh1 = gs_tail sh"
    "length (gs_data sh1) = length (gs_data sh)" by (rule gs_Set_mark [OF r])
  have "gs_data sh1 \<noteq> []" "insert h (dom (gs_hashmap sh1)) = insert h (dom (M(h := None)))"
    using n(1) m(3,5) dm by auto
  with gs_make_room_spec [OF m(2) _ _ _ ord, of "entry_size e" h i] n m(4,5) obtain sh2 where
    q: "gs_make_room (ord i) sh1 (entry_size e) = Some sh2" "gs_pre sh2 (M(h := None))" "gs_tail sh2 \<le> gs_tail sh"
      "gs_tail sh2 + entry_size e \<le> length (gs_data sh2)" "insert h (dom (gs_hashmap sh2)) = insert h (dom (M(h := None)))"
      "length (gs_data sh) \<le> length (gs_data sh2)" by auto
  have "gs_rel (gs_push sh2 h e) (M(h \<mapsto> e))" by (rule gs_push_rel [OF q(2,5) n(4) q(4)])
  moreover have "gs_Set (ord i) sh h (ge_key e) (ge_value e) (ge_expireAt e) (ge_cost e) = Some (gs_push sh2 h e)"
    unfolding gs_Set_def m(1) using q(1) gs_append_push [OF q(4), of h]
    by (simp add: entry_size_def entryHeaderSize_def Let_def)
  ultimately show thesis using that [of "gs_push sh2 h e"] q by simp
qed

text \<open>When there is room, nothing is moved.\<close>

lemma gs_Set_room:
  assumes r: "gs_rel sh M" and e: "entry_ok e" and n: "gs_tail sh + entry_size e \<le> length (gs_data sh)"
  obtains sh' where "gs_Set ord sh h (ge_key e) (ge_value e) (ge_expireAt e) (ge_cost e) = Some sh'"
    "gs_rel sh' (M(h \<mapsto> e))" "gs_tail sh' = gs_tail sh + entry_size e" "length (gs_data sh') = length (gs_data sh)"
proof -
  have dm: "dom (gs_hashmap sh) = dom M" using r by (auto simp: gs_rel_def)
  obtain sh1 where m: "(case gs_hashmap sh h of None \<Rightarrow> Some sh
      | Some oldOffset \<Rightarrow> if unat oldOffset + 4 \<le> length (gs_data sh) then gs_mark sh oldOffset else Some sh) = Some sh1"
    "gs_pre sh1 (M(h := None))" "gs_hashmap sh1 = gs_hashmap sh" "gs_tail sh1 = gs_tail sh"
    "length (gs_data sh1) = length (gs_data sh)" by (rule gs_Set_mark [OF r])
  have fit: "gs_tail sh1 + entry_size e \<le> length (gs_data sh1)" using n m(4,5) by simp
  have "gs_rel (gs_push sh1 h e) (M(h \<mapsto> e))" by (rule gs_push_rel [OF m(2) _ e fit]) (use dm m(3) in auto)
  moreover have "gs_Set ord sh h (ge_key e) (ge_value e) (ge_expireAt e) (ge_cost e) = Some (gs_push sh1 h e)"
    unfolding gs_Set_def m(1) using fit gs_append_push [OF fit, of h]
    by (simp add: entry_size_def entryHeaderSize_def gs_make_room_def Let_def)
  ultimately show thesis using that [of "gs_push sh1 h e"] m(4,5) fit by simp
qed

lemma gs_remove_spec:
  assumes r: "gs_rel sh M" and h: "gs_hashmap sh h = Some off"
  obtains sh' where "(if unat off + entryHeaderSize \<le> length (gs_data sh) then gs_mark sh off else Some sh) = Some sh'"
    "gs_hashmap sh' = gs_hashmap sh" "gs_rel (sh'\<lparr>gs_hashmap := (gs_hashmap sh')(h := None)\<rparr>) (M(h := None))"
    "gs_tail sh' = gs_tail sh" "length (gs_data sh') = length (gs_data sh)"
proof -
  have p: "gs_pre sh M" and dm: "dom (gs_hashmap sh) = dom M" using r by (auto simp: gs_rel_def)
  obtain x where x: "M h = Some x" using h dm by auto
  have b: "unat off + entryHeaderSize \<le> length (gs_data sh)"
    using gs_preD(3) [OF p h x] by (auto simp: located_def lies_at_def entry_size_def entryHeaderSize_def)
  obtain sh' where m: "gs_mark sh off = Some sh'" "gs_pre sh' (M(h := None))" "gs_hashmap sh' = gs_hashmap sh"
    "gs_tail sh' = gs_tail sh" "length (gs_data sh') = length (gs_data sh)" using gs_mark_spec [OF r h x] by blast
  let ?s = "sh'\<lparr>gs_hashmap := (gs_hashmap sh')(h := None)\<rparr>"
  note D = gs_preD [OF m(2)]
  have "dom (gs_hashmap ?s) = dom (M(h := None))" using dm m(3) by auto
  moreover have "gs_pre ?s (M(h := None))" unfolding gs_pre_def
  proof (intro conjI allI impI)
    show "finite (dom (gs_hashmap ?s))" "dom (M(h := None)) \<subseteq> dom (gs_hashmap ?s)" using D(1) dm m(3) by auto
    show "located ?s a e" if "gs_hashmap ?s k = Some a" "(M(h := None)) k = Some e" for k a e
      using D(3) [of k a e] that by (auto simp: located_def split: if_splits)
    show "marked ?s a" if "gs_hashmap ?s k = Some a" "(M(h := None)) k = None" for k a
      using D(4) [of k a] that by (auto simp: marked_def split: if_splits)
    show "apart a e b f" if "k \<noteq> k'" "gs_hashmap ?s k = Some a" "gs_hashmap ?s k' = Some b"
      "(M(h := None)) k = Some e" "(M(h := None)) k' = Some f" for k k' a b e f
      using D(5) [OF that(1), of a b e f] that by (auto split: if_splits)
  qed (use D in simp_all)
  ultimately have "gs_rel ?s (M(h := None))" by (simp add: gs_rel_def)
  then show thesis using that m b by simp
qed

definition gs_map :: "gcFreeShard \<Rightarrow> (u64 \<rightharpoonup> gf_entry)" where
  "gs_map sh h = map_option (\<lambda>off. decode (gs_data sh) (unat off)) (gs_hashmap sh h)"

lemma gs_rel_map: "gs_rel sh M \<Longrightarrow> gs_map sh = M"
proof
  fix h
  assume r: "gs_rel sh M"
  then have p: "gs_pre sh M" and d: "h \<in> dom (gs_hashmap sh) \<longleftrightarrow> h \<in> dom M" by (auto simp: gs_rel_def)
  show "gs_map sh h = M h"
  proof (cases "gs_hashmap sh h")
    case None
    then show ?thesis using d by (auto simp: gs_map_def domIff)
  next
    case (Some off)
    then obtain e where e: "M h = Some e" using d by auto
    have "located sh off e" by (rule gs_preD(3) [OF p Some e])
    then show ?thesis using Some e by (simp add: gs_map_def located_def decode_lies_at entry_ok_fits)
  qed
qed

lemma dom_gs_map: "dom (gs_map sh) = dom (gs_hashmap sh)"
  by (auto simp: gs_map_def)

section \<open>The map a store denotes\<close>

definition gf_map :: "GCFreeStore \<Rightarrow> (u64 \<rightharpoonup> gf_entry)" where
  "gf_map s h = gs_map (gf_shard s h) h"

definition gf_shard_ok :: "nat \<Rightarrow> GCFreeStore \<Rightarrow> nat \<Rightarrow> gcFreeShard \<Rightarrow> bool" where
  "gf_shard_ok m s i sh \<longleftrightarrow> gs_rel sh (gs_map sh) \<and> (\<forall>k \<in> dom (gs_map sh). gf_index s k = i) \<and>
     4096 \<le> length (gs_data sh) \<and> gs_tail sh + m \<le> 2 ^ 31"

text \<open>The number \<open>m\<close> of bytes may still be written.\<close>

definition gf_base :: "nat \<Rightarrow> GCFreeStore \<Rightarrow> bool" where
  "gf_base m s \<longleftrightarrow> 0 < length (gf_shards s) \<and> length (gf_shards s) \<le> 2 ^ 32 \<and>
     gf_shardMask s = of_nat (length (gf_shards s) - 1) \<and>
     (\<forall>i < length (gf_shards s). gf_shard_ok m s i (gf_shards s ! i))"

definition gf_inv :: "nat \<Rightarrow> GCFreeStore \<Rightarrow> bool" where
  "gf_inv m s \<longleftrightarrow> gf_base m s \<and> gf_size s = int (card (dom (gf_map s))) \<and> card (dom (gf_map s)) + m \<le> 2 ^ 31"

lemma ucast_of_nat_u32: "n < 2 ^ 32 \<Longrightarrow> (ucast (of_nat n :: u32) :: u64) = of_nat n"
  by (rule word_unat_eq_iff [THEN iffD2]) (simp add: unsigned_ucast_eq take_bit_nat_eq_self unat_of_nat)

lemma gf_index_bound: "gf_base m s \<Longrightarrow> gf_index s h < length (gf_shards s)"
proof -
  assume "gf_base m s"
  then have l: "0 < length (gf_shards s)" "length (gf_shards s) \<le> 2 ^ 32"
    "gf_shardMask s = of_nat (length (gf_shards s) - 1)" by (auto simp: gf_base_def)
  have "(ucast (gf_shardMask s) :: u64) = of_nat (length (gf_shards s) - 1)"
    unfolding l(3) by (rule ucast_of_nat_u32) (use l in linarith)
  then show ?thesis unfolding gf_index_def using mask_index [of "length (gf_shards s)" h] l by simp
qed

lemma gf_index_cong: "gf_shardMask s' = gf_shardMask s \<Longrightarrow> gf_index s' = gf_index s"
  by (simp add: gf_index_def fun_eq_iff)

lemma gf_frame [simp]:
  "gf_index (s\<lparr>gf_size := n\<rparr>) = gf_index s" "gf_index (gf_put_shard s h sh) = gf_index s"
  "gf_map (s\<lparr>gf_size := n\<rparr>) = gf_map s" "gf_base m (s\<lparr>gf_size := n\<rparr>) = gf_base m s"
  "gf_shard (s\<lparr>gf_size := n\<rparr>) h = gf_shard s h" "gf_size (gf_put_shard s h sh) = gf_size s"
  "gf_put_shard (s\<lparr>gf_size := n\<rparr>) h sh = (gf_put_shard s h sh)\<lparr>gf_size := n\<rparr>"
  by (auto simp: gf_index_def gf_put_shard_def gf_map_def gf_shard_def gf_base_def gf_shard_ok_def fun_eq_iff)

lemma gf_shard_okD:
  assumes "gf_base m s"
  shows "gf_shard_ok m s (gf_index s h) (gf_shard s h)"
  using assms gf_index_bound [OF assms, of h] by (simp add: gf_base_def gf_shard_def)

lemma gf_put_shard_spec:
  assumes b: "gf_base m s" and r: "gs_rel sh ((gs_map (gf_shard s h))(h := x))"
    and n: "4096 \<le> length (gs_data sh)" "gs_tail sh + k \<le> 2 ^ 31" "k \<le> m"
  shows "gf_base k (gf_put_shard s h sh)" "gf_map (gf_put_shard s h sh) = (gf_map s)(h := x)"
proof -
  let ?i = "gf_index s h" and ?s = "gf_put_shard s h sh"
  have i: "?i < length (gf_shards s)" by (rule gf_index_bound [OF b])
  have nth: "gf_shards ?s ! j = (if j = ?i then sh else gf_shards s ! j)" if "j < length (gf_shards s)" for j
    using that i by (simp add: gf_put_shard_def nth_list_update)
  have len: "length (gf_shards ?s) = length (gf_shards s)" "gf_shardMask ?s = gf_shardMask s" by (simp_all add: gf_put_shard_def)
  have m: "gs_map sh = (gs_map (gf_shard s h))(h := x)" by (rule gs_rel_map [OF r])
  have "gf_shard_ok k ?s j (gf_shards ?s ! j)" if "j < length (gf_shards s)" for j
  proof (cases "j = ?i")
    case True
    have "\<forall>k \<in> dom (gs_map sh). gf_index s k = ?i"
      using gf_shard_okD [OF b, of h] unfolding m by (auto simp: gf_shard_ok_def split: if_splits)
    then show ?thesis using True r n nth [OF that] by (simp add: gf_shard_ok_def m)
  next
    case False
    then show ?thesis using b that n(3) nth [OF that] by (auto simp: gf_base_def gf_shard_ok_def)
  qed
  then show "gf_base k ?s" using b len by (simp add: gf_base_def)
  have "gf_shard ?s y = (if gf_index s y = ?i then sh else gf_shard s y)" for y
    using nth [OF gf_index_bound [OF b, of y]] by (simp add: gf_shard_def)
  then show "gf_map ?s = (gf_map s)(h := x)" by (auto simp: gf_map_def fun_eq_iff m gf_shard_def)
qed

lemma gf_finite: "gf_base m s \<Longrightarrow> finite (dom (gf_map s))"
proof -
  assume b: "gf_base m s"
  have "dom (gf_map s) \<subseteq> (\<Union>i<length (gf_shards s). dom (gs_map (gf_shards s ! i)))"
    using gf_index_bound [OF b] by (auto simp: gf_map_def gf_shard_def intro!: bexI [of _ "gf_index s _"])
  moreover have "finite (dom (gs_map (gf_shards s ! i)))" if "i < length (gf_shards s)" for i
    using b that gs_preD(2) by (auto simp: gf_base_def gf_shard_ok_def gs_rel_def)
  ultimately show ?thesis by (auto intro: finite_subset)
qed

subsection \<open>Operations\<close>

text \<open>An entry that a compaction or a doubling makes room for: a quarter of the data of any shard holds it.\<close>

definition gf_room :: "nat \<Rightarrow> GCFreeStore \<Rightarrow> bool" where
  "gf_room w s \<longleftrightarrow> (\<forall>sh \<in> set (gf_shards s). w \<le> length (gs_data sh) div 4)"

definition gf_fits :: "nat \<Rightarrow> u64 \<Rightarrow> gf_entry \<Rightarrow> bool" where
  "gf_fits w h e \<longleftrightarrow> entry_ok e \<and> entry_size e \<le> w"

lemma gf_room_put: "gf_room w s \<Longrightarrow> w \<le> length (gs_data sh) div 4 \<Longrightarrow> gf_room w (gf_put_shard s h sh)"
  using set_update_subset_insert [of "gf_shards s" "gf_index s h" sh] by (auto simp: gf_room_def gf_put_shard_def)

lemma gf_room_size [simp]: "gf_room w (s\<lparr>gf_size := n\<rparr>) = gf_room w s"
  by (simp add: gf_room_def)

lemma gf_roomD: "gf_room w s \<Longrightarrow> gf_base m s \<Longrightarrow> w \<le> length (gs_data (gf_shard s h)) div 4"
  using gf_index_bound [of m s h] by (auto simp: gf_room_def gf_shard_def)

lemma gf_Set_spec:
  assumes i: "gf_inv (entry_size e + m) s" and q: "gf_room w s" and f: "gf_fits w h e" and ord: "enumerates ord"
  obtains s' where "gf_Set ord s h (ge_key e) (ge_value e) (ge_expireAt e) (ge_cost e) = Some (s', True)"
    "gf_inv m s'" "gf_room w s'" "gf_map s' = (gf_map s)(h \<mapsto> e)"
proof -
  have b: "gf_base (entry_size e + m) s" using i by (simp add: gf_inv_def)
  let ?sh = "gf_shard s h"
  have ok: "gs_rel ?sh (gs_map ?sh)" "4096 \<le> length (gs_data ?sh)" "gs_tail ?sh + (entry_size e + m) \<le> 2 ^ 31"
    using gf_shard_okD [OF b, of h] by (auto simp: gf_shard_ok_def)
  have "gs_data ?sh \<noteq> []" "gs_tail ?sh + entry_size e \<le> 2 ^ 31" "entry_size e \<le> length (gs_data ?sh) div 4" "entry_ok e"
    using ok f gf_roomD [OF q b, of h] by (auto simp: gf_fits_def)
  from gs_Set_spec [OF ok(1) this ord, of "gf_index s h" h] obtain sh' where
    sh': "gs_Set (ord (gf_index s h)) ?sh h (ge_key e) (ge_value e) (ge_expireAt e) (ge_cost e) = Some sh'"
      "gs_rel sh' ((gs_map ?sh)(h \<mapsto> e))" "gs_tail sh' \<le> gs_tail ?sh + entry_size e" "length (gs_data ?sh) \<le> length (gs_data sh')" .
  have "4096 \<le> length (gs_data sh')" "gs_tail sh' + m \<le> 2 ^ 31" using ok sh' by auto
  note ps = gf_put_shard_spec [OF b sh'(2) this, simplified]
  let ?n = "if gs_hashmap ?sh h = None then i64 (gf_size s + 1) else gf_size s"
  have c: "gf_size s = int (card (dom (gf_map s)))" "card (dom (gf_map s)) + (entry_size e + m) \<le> 2 ^ 31"
    using i by (auto simp: gf_inv_def)
  have none: "gs_hashmap ?sh h = None \<longleftrightarrow> gf_map s h = None" by (simp add: gf_map_def gs_map_def)
  have es: "1 \<le> entry_size e" by (simp add: entry_size_def)
  have n: "?n = int (card (dom ((gf_map s)(h \<mapsto> e)))) \<and> card (dom ((gf_map s)(h \<mapsto> e))) + m \<le> 2 ^ 31"
  proof (cases "gf_map s h")
    case None
    then show ?thesis using c es card_dom_insert [OF gf_finite [OF b] None, of e]
      by (simp add: none i64_of_range del: dom_fun_upd)
  next
    case (Some x)
    then have "dom ((gf_map s)(h \<mapsto> e)) = dom (gf_map s)" by auto
    then show ?thesis using c Some by (simp add: none del: dom_fun_upd)
  qed
  have "gf_Set ord s h (ge_key e) (ge_value e) (ge_expireAt e) (ge_cost e) = Some ((gf_put_shard s h sh')\<lparr>gf_size := ?n\<rparr>, True)"
    using sh'(1) by (simp add: gf_Set_def Let_def)
  moreover have "gf_inv m ((gf_put_shard s h sh')\<lparr>gf_size := ?n\<rparr>)"
    using ps n by (simp add: gf_inv_def del: dom_fun_upd)
  moreover have "w \<le> length (gs_data sh') div 4"
    using gf_roomD [OF q b, of h] sh'(4) by (meson div_le_mono le_trans)
  then have "gf_room w (gf_put_shard s h sh')" by (rule gf_room_put [OF q])
  ultimately show thesis using that ps(2) by simp
qed

lemma gf_Delete_spec:
  assumes i: "gf_inv m s" and q: "gf_room w s"
  obtains s' where "gf_Delete s h = Some (s', h \<in> dom (gf_map s))" "gf_inv m s'" "gf_room w s'"
    "gf_map s' = (gf_map s)(h := None)"
proof (cases "gs_hashmap (gf_shard s h) h")
  case None
  then have "gf_map s h = None" by (simp add: gf_map_def gs_map_def)
  then show ?thesis using that [of s] None i q by (simp add: gf_Delete_def fun_upd_idem domIff)
next
  case (Some off)
  have b: "gf_base m s" using i by (simp add: gf_inv_def)
  let ?sh = "gf_shard s h"
  have ok: "gs_rel ?sh (gs_map ?sh)" "4096 \<le> length (gs_data ?sh)" "gs_tail ?sh + m \<le> 2 ^ 31"
    using gf_shard_okD [OF b, of h] by (auto simp: gf_shard_ok_def)
  from gs_remove_spec [OF ok(1) Some] obtain sh' where sh':
    "(if unat off + entryHeaderSize \<le> length (gs_data ?sh) then gs_mark ?sh off else Some ?sh) = Some sh'"
    "gs_hashmap sh' = gs_hashmap ?sh" "gs_rel (sh'\<lparr>gs_hashmap := (gs_hashmap sh')(h := None)\<rparr>) ((gs_map ?sh)(h := None))"
    "gs_tail sh' = gs_tail ?sh" "length (gs_data sh') = length (gs_data ?sh)" by blast
  let ?s = "gf_put_shard s h (sh'\<lparr>gs_hashmap := (gs_hashmap sh')(h := None)\<rparr>)"
  have ps: "gf_base m ?s" "gf_map ?s = (gf_map s)(h := None)"
    using gf_put_shard_spec [OF b sh'(3), of m] ok sh'(4,5) by simp_all
  obtain x where x: "gf_map s h = Some x" using Some by (simp add: gf_map_def gs_map_def)
  have c: "gf_size s = int (card (dom (gf_map s)))" "card (dom (gf_map s)) + m \<le> 2 ^ 31" using i by (auto simp: gf_inv_def)
  have d: "int (card (dom ((gf_map s)(h := None)))) = int (card (dom (gf_map s))) - 1"
    by (rule card_dom_delete [OF gf_finite [OF b] x])
  then have n: "i64 (gf_size s - 1) = int (card (dom ((gf_map s)(h := None))))" using c by (simp add: i64_of_range del: dom_fun_upd)
  have "gf_Delete s h = Some (?s\<lparr>gf_size := i64 (gf_size s - 1)\<rparr>, True)"
    using sh'(1) by (simp add: gf_Delete_def Some Let_def split: if_splits)
  moreover have "gf_inv m (?s\<lparr>gf_size := i64 (gf_size s - 1)\<rparr>)"
    using ps c d n by (simp add: gf_inv_def del: dom_fun_upd)
  moreover have "gf_room w ?s" by (rule gf_room_put [OF q]) (use gf_roomD [OF q b, of h] sh'(5) in simp)
  ultimately show ?thesis using that ps(2) x by (simp add: domI)
qed

definition gf_live :: "int \<Rightarrow> gf_entry \<Rightarrow> bool" where
  "gf_live now e \<longleftrightarrow> \<not> (ge_expireAt e > 0 \<and> now > ge_expireAt e)"

lemma bytesEqual_eq: "bytesEqual a b \<longleftrightarrow> a = b"
  by (auto simp: bytesEqual_def list_all_iff intro: nth_equalityI)

text \<open>Reading one entry that lies at the offset of its hash.\<close>

lemma gs_Get_at:
  assumes o: "gs_hashmap sh h = Some off" and l: "lies_at (gs_data sh) (unat off) e" "entry_fits e"
  shows "gs_Get sh h key now = (if ge_key e = key \<and> gf_live now e then Some (ge_value e, ge_expireAt e) else None)"
proof -
  note parts = lies_at_parts [OF l(1)] lies_at_lengths [OF l]
  have b: "unat off + 24 + length (ge_key e) + length (ge_value e) \<le> length (gs_data sh)"
    using l(1) by (simp add: lies_at_def entry_size_def)
  have z: "seg (gs_data sh) (unat off + 0) 4 = seg (gs_data sh) (unat off) 4" by simp
  show ?thesis unfolding gs_Get_def o option.case Let_def seg_drop z parts(7-9) entryHeaderSize_def
    using b parts(6) by (auto simp: bytesEqual_eq gf_live_def parts(5) simp flip: add.assoc)
qed

lemma gs_Get_spec:
  assumes r: "gs_rel sh M"
  shows "gs_Get sh h key now = (case M h of None \<Rightarrow> None
    | Some e \<Rightarrow> if ge_key e = key \<and> gf_live now e then Some (ge_value e, ge_expireAt e) else None)"
proof -
  have p: "gs_pre sh M" and d: "dom (gs_hashmap sh) = dom M" using r by (auto simp: gs_rel_def)
  show ?thesis
  proof (cases "gs_hashmap sh h")
    case None
    then have "M h = None" using d by (metis domIff)
    with None show ?thesis by (simp add: gs_Get_def)
  next
    case (Some off)
    then obtain e where e: "M h = Some e" using d by auto
    have "located sh off e" by (rule gs_preD(3) [OF p Some e])
    then show ?thesis using gs_Get_at [OF Some] e by (simp add: located_def entry_ok_fits)
  qed
qed

lemma gf_Get_spec:
  assumes "gf_base m s"
  shows "gf_Get s h key now = (case gf_map s h of None \<Rightarrow> None
    | Some e \<Rightarrow> if ge_key e = key \<and> gf_live now e then Some (ge_value e, ge_expireAt e) else None)"
  using gf_shard_okD [OF assms, of h] gs_Get_spec [of "gf_shard s h" "gs_map (gf_shard s h)" h key now]
  by (simp add: gf_Get_def gf_map_def gf_shard_ok_def)

subsection \<open>Iteration\<close>

definition gf_visit_of :: "u64 \<Rightarrow> gf_entry \<Rightarrow> gf_visit" where
  "gf_visit_of h e = \<lparr>gv_keyHash = h, gv_key = ge_key e, gv_value = ge_value e, gv_expireAt = ge_expireAt e, gv_cost = ge_cost e\<rparr>"

definition gs_visits :: "int \<Rightarrow> (u64 \<rightharpoonup> gf_entry) \<Rightarrow> u64 list \<Rightarrow> gf_visit list" where
  "gs_visits now M hs = map (\<lambda>h. gf_visit_of h (the (M h))) (filter (\<lambda>h. gf_live now (the (M h))) hs)"

lemma visit_slices:
  fixes off :: u32
  assumes l: "lies_at d (unat off) e" "entry_fits e" "length d < 2 ^ 32"
  defines "k \<equiv> of_nat (length (ge_key e)) :: u32" and "v \<equiv> of_nat (length (ge_value e)) :: u32"
  shows "subslice d (unat (off + 8)) (unat (off + 16)) = Some (PutUint64 (word_of_int (ge_expireAt e)))"
    "subslice d (unat (off + 16)) (unat (off + 24)) = Some (PutUint64 (word_of_int (ge_cost e)))"
    "subslice d (unat (off + 24)) (unat (off + 24 + k)) = Some (ge_key e)"
    "subslice d (unat (off + 24 + k)) (unat (off + 24 + k + v)) = Some (ge_value e)"
proof -
  have b: "unat off + 24 + length (ge_key e) + length (ge_value e) \<le> length d" using l(1) by (simp add: lies_at_def entry_size_def)
  have u: "unat k = length (ge_key e)" "unat v = length (ge_value e)" using read_lengths_at(2,3) [OF l] by (simp_all add: k_def v_def)
  have o: "unat (off + 8) = unat off + 8" "unat (off + 16) = unat off + 16" "unat (off + 24) = unat off + 24"
    using b l(3) by (subst offset_add; simp)+
  have o2: "unat (off + 24 + k) = unat off + 24 + length (ge_key e)"
    using b l(3) by (subst offset_add) (simp_all add: o u)
  have o3: "unat (off + 24 + k + v) = unat off + 24 + length (ge_key e) + length (ge_value e)"
    using b l(3) by (subst offset_add) (simp_all add: o2 u)
  note p = lies_at_parts [OF l(1)]
  show "subslice d (unat (off + 8)) (unat (off + 16)) = Some (PutUint64 (word_of_int (ge_expireAt e)))"
    unfolding o using b by (subst subslice_seg [of _ 8]) (simp_all add: p)
  show "subslice d (unat (off + 16)) (unat (off + 24)) = Some (PutUint64 (word_of_int (ge_cost e)))"
    unfolding o using b by (subst subslice_seg [of _ 8]) (simp_all add: p)
  show "subslice d (unat (off + 24)) (unat (off + 24 + k)) = Some (ge_key e)"
    unfolding o o2 using b by (subst subslice_seg [of _ "length (ge_key e)"]) (simp_all add: p)
  show "subslice d (unat (off + 24 + k)) (unat (off + 24 + k + v)) = Some (ge_value e)"
    unfolding o2 o3 using b by (subst subslice_seg [of _ "length (ge_value e)"]) (simp_all add: p)
qed

lemma gs_range_at:
  assumes o: "gs_hashmap sh h = Some off" and l: "lies_at (gs_data sh) (unat off) e" "entry_fits e"
    and d: "length (gs_data sh) < 2 ^ 32" and hs: "gs_range sh now (\<lambda>_. True) hs = Some (vs, False)"
  shows "gs_range sh now (\<lambda>_. True) (h # hs) =
    Some (if ge_key e \<noteq> [] \<and> gf_live now e then gf_visit_of h e # vs else vs, False)"
proof -
  note sl = visit_slices [OF l d] read_lengths_at [OF l d]
  have nz: "(of_nat (length (ge_key e)) :: u32) = 0 \<longleftrightarrow> ge_key e = []" using sl(6) by auto
  have b: "unat off + entryHeaderSize \<le> length (gs_data sh)" using l(1) by (simp add: lies_at_def entry_size_def entryHeaderSize_def)
  have si: "sint (word_of_int (ge_expireAt e) :: u64) = ge_expireAt e" "sint (word_of_int (ge_cost e) :: u64) = ge_cost e"
    using l(2) by (simp_all add: entry_fits_def sint_of_int64)
  show ?thesis using b nz by (simp add: o sl(1-5) si hs Let_def gf_visit_of_def gf_live_def)
qed

lemma gs_range_spec:
  assumes r: "gs_rel sh M"
  shows "set hs \<subseteq> dom M \<Longrightarrow> gs_range sh now (\<lambda>_. True) hs = Some (gs_visits now M hs, False)"
proof (induction hs)
  case (Cons h hs)
  have p: "gs_pre sh M" and d: "dom (gs_hashmap sh) = dom M" using r by (auto simp: gs_rel_def)
  obtain off e where o: "gs_hashmap sh h = Some off" "M h = Some e" using Cons.prems d by (metis domD list.set_intros(1) subsetD)
  have l: "lies_at (gs_data sh) (unat off) e" "entry_ok e" using gs_preD(3) [OF p o] by (auto simp: located_def)
  have "gs_range sh now (\<lambda>_. True) hs = Some (gs_visits now M hs, False)" using Cons by simp
  from gs_range_at [OF o(1) l(1) entry_ok_fits [OF l(2)] gs_preD(8) [OF p] this] l(2) show ?case
    by (simp add: gs_visits_def o(2) entry_ok_def)
qed (simp add: gs_visits_def)

lemma range_gcfree_spec:
  "(\<And>j. j < length shs \<Longrightarrow> gs_rel (shs ! j) (gs_map (shs ! j))) \<Longrightarrow> enumerates ord \<Longrightarrow>
   range_gcfree ord now (\<lambda>_. True) i shs =
     Some (concat (map (\<lambda>j. gs_visits now (gs_map (shs ! j)) (ord (i + j) (dom (gs_map (shs ! j))))) [0..<length shs]))"
proof (induction shs arbitrary: i)
  case (Cons sh shs)
  have r: "gs_rel sh (gs_map sh)" using Cons.prems(1) [of 0] by simp
  then have f: "finite (dom (gs_map sh))" using gs_preD(2) by (auto simp: gs_rel_def)
  have "gs_range sh now (\<lambda>_. True) (ord i (dom (gs_hashmap sh))) = Some (gs_visits now (gs_map sh) (ord i (dom (gs_map sh))), False)"
    using gs_range_spec [OF r, of "ord i (dom (gs_map sh))" now] Cons.prems(2) f by (simp add: enumerates_def dom_gs_map)
  moreover have "range_gcfree ord now (\<lambda>_. True) (Suc i) shs =
     Some (concat (map (\<lambda>j. gs_visits now (gs_map (shs ! j)) (ord (Suc i + j) (dom (gs_map (shs ! j))))) [0..<length shs]))"
    using Cons.prems(1) [of "Suc _"] Cons.prems(2) by (intro Cons.IH) auto
  ultimately show ?case by (simp add: upt_conv_Cons map_Suc_upt [symmetric] comp_def del: upt_Suc)
qed simp

lemma gf_Range_spec:
  assumes b: "gf_base m s" and ord: "enumerates ord"
  obtains vs where "gf_Range ord s now (\<lambda>_. True) = Some vs" "distinct (map gv_keyHash vs)"
    "set vs = {gf_visit_of h e | h e. gf_map s h = Some e \<and> gf_live now e}"
proof -
  let ?n = "length (gf_shards s)" and ?sh = "\<lambda>j. gf_shards s ! j"
  define L where "L = map (\<lambda>j. gs_visits now (gs_map (?sh j)) (ord j (dom (gs_map (?sh j))))) [0..<?n]"
  have ok: "gf_shard_ok m s j (?sh j)" if "j < ?n" for j using b that by (simp add: gf_base_def)
  then have "gf_Range ord s now (\<lambda>_. True) = Some (concat L)"
    using range_gcfree_spec [of "gf_shards s" ord now 0] ord by (simp add: gf_Range_def L_def gf_shard_ok_def)
  have en: "set (ord j (dom (gs_map (?sh j)))) = dom (gs_map (?sh j))" "distinct (ord j (dom (gs_map (?sh j))))" if "j < ?n" for j
    using ok [OF that] ord gs_preD(2) by (auto simp: gf_shard_ok_def gs_rel_def enumerates_def)
  have key: "map gv_keyHash (gs_visits now M hs) = filter (\<lambda>h. gf_live now (the (M h))) hs" for M hs
    by (simp add: gs_visits_def gf_visit_of_def comp_def)
  then have keys: "gv_keyHash ` set (gs_visits now M hs) \<subseteq> set hs" for M hs
    by (metis filter_is_subset list.set_map)
  have vis: "x \<in> set (gs_visits now M hs) \<longleftrightarrow> (\<exists>h \<in> set hs. gf_live now (the (M h)) \<and> x = gf_visit_of h (the (M h)))" for x M hs
    by (auto simp: gs_visits_def)
  have idx: "gf_map s h = Some e \<longleftrightarrow> (\<exists>j < ?n. gs_map (?sh j) h = Some e)" for h e
  proof
    assume "gf_map s h = Some e"
    then show "\<exists>j < ?n. gs_map (?sh j) h = Some e" using gf_index_bound [OF b, of h] by (auto simp: gf_map_def gf_shard_def)
  next
    assume "\<exists>j < ?n. gs_map (?sh j) h = Some e"
    then obtain j where j: "j < ?n" "gs_map (?sh j) h = Some e" by blast
    then have "gf_index s h = j" using ok by (auto simp: gf_shard_ok_def)
    with j show "gf_map s h = Some e" by (simp add: gf_map_def gf_shard_def)
  qed
  have "distinct (map gv_keyHash (concat L))"
  proof (rule distinct_concat_lists)
    show "distinct (map gv_keyHash (L ! i))" if "i < length L" for i using that en(2) by (simp add: L_def key)
    fix i j assume ij: "i < j" "j < length L"
    have "dom (gs_map (?sh i)) \<inter> dom (gs_map (?sh j)) = {}"
      using ok [of i] ok [of j] ij by (force simp: gf_shard_ok_def L_def)
    moreover have "gv_keyHash ` set (L ! i) \<subseteq> dom (gs_map (?sh i))" "gv_keyHash ` set (L ! j) \<subseteq> dom (gs_map (?sh j))"
      using ij keys [of "gs_map (?sh i)" "ord i (dom (gs_map (?sh i)))"] keys [of "gs_map (?sh j)" "ord j (dom (gs_map (?sh j)))"]
        en(1) [of i] en(1) [of j] by (simp_all add: L_def)
    ultimately show "gv_keyHash ` set (L ! i) \<inter> gv_keyHash ` set (L ! j) = {}" by blast
  qed
  moreover have "x \<in> set (concat L) \<longleftrightarrow> (\<exists>j < ?n. \<exists>h e. gs_map (?sh j) h = Some e \<and> gf_live now e \<and> x = gf_visit_of h e)" for x
  proof -
    have "x \<in> set (gs_visits now (gs_map (?sh j)) (ord j (dom (gs_map (?sh j))))) \<longleftrightarrow>
        (\<exists>h e. gs_map (?sh j) h = Some e \<and> gf_live now e \<and> x = gf_visit_of h e)" if "j < ?n" for j
      unfolding vis en(1) [OF that] by force
    moreover have "x \<in> set (concat L) \<longleftrightarrow>
        (\<exists>j < ?n. x \<in> set (gs_visits now (gs_map (?sh j)) (ord j (dom (gs_map (?sh j))))))" by (auto simp: L_def)
    ultimately show ?thesis by blast
  qed
  then have "set (concat L) = {gf_visit_of h e | h e. gf_map s h = Some e \<and> gf_live now e}" using idx by blast
  ultimately show thesis using that \<open>gf_Range ord s now (\<lambda>_. True) = Some (concat L)\<close> by blast
qed

section \<open>Runs\<close>

text \<open>
  A run threads the store, \<open>None\<close> after a panic, and the stream of the orders in which the compactions
  will range over the maps.
\<close>

type_synonym gf_run = "GCFreeStore option \<times> (nat \<Rightarrow> u64 order)"

definition run_Set :: "gf_run \<Rightarrow> u64 \<Rightarrow> gf_entry \<Rightarrow> gf_run" where
  "run_Set r h e = (do { s \<leftarrow> fst r; x \<leftarrow> gf_Set (snd r 0) s h (ge_key e) (ge_value e) (ge_expireAt e) (ge_cost e); Some (fst x) },
     \<lambda>n. snd r (Suc n))"

definition run_Delete :: "gf_run \<Rightarrow> u64 \<Rightarrow> gf_run" where
  "run_Delete r h = (do { s \<leftarrow> fst r; x \<leftarrow> gf_Delete s h; Some (fst x) }, snd r)"

definition run_map :: "gf_run \<Rightarrow> (u64 \<rightharpoonup> gf_entry)" where
  "run_map r = (case fst r of None \<Rightarrow> Map.empty | Some s \<Rightarrow> gf_map s)"

definition run_Len :: "gf_run \<Rightarrow> int" where
  "run_Len r = (case fst r of None \<Rightarrow> 0 | Some s \<Rightarrow> gf_Len s)"

definition run_inv :: "nat \<Rightarrow> nat \<Rightarrow> gf_run \<Rightarrow> bool" where
  "run_inv w m r \<longleftrightarrow> (\<exists>s. fst r = Some s \<and> gf_inv m s \<and> gf_room w s) \<and> (\<forall>n. enumerates (snd r n))"

lemma run_Set_spec:
  assumes "run_inv w (entry_size e + m) r" "gf_fits w h e"
  shows "run_inv w m (run_Set r h e) \<and> run_map (run_Set r h e) = (run_map r)(h \<mapsto> e)"
proof -
  obtain s where s: "fst r = Some s" "gf_inv (entry_size e + m) s" "gf_room w s" and o: "enumerates (snd r n)" for n
    using assms(1) by (auto simp: run_inv_def)
  from gf_Set_spec [OF s(2,3) assms(2) o] obtain s' where
    "gf_Set (snd r 0) s h (ge_key e) (ge_value e) (ge_expireAt e) (ge_cost e) = Some (s', True)"
    "gf_inv m s'" "gf_room w s'" "gf_map s' = (gf_map s)(h \<mapsto> e)" .
  then show ?thesis using s(1) o by (simp add: run_Set_def run_inv_def run_map_def)
qed

lemma run_Delete_spec:
  assumes "run_inv w m r"
  shows "run_inv w m (run_Delete r h) \<and> run_map (run_Delete r h) = (run_map r)(h := None)"
proof -
  obtain s where s: "fst r = Some s" "gf_inv m s" "gf_room w s" and o: "enumerates (snd r n)" for n
    using assms by (auto simp: run_inv_def)
  from gf_Delete_spec [OF s(2,3), of h] obtain s' where
    "gf_Delete s h = Some (s', h \<in> dom (gf_map s))" "gf_inv m s'" "gf_room w s'" "gf_map s' = (gf_map s)(h := None)" .
  then show ?thesis using s(1) o by (simp add: run_Delete_def run_inv_def run_map_def)
qed

interpretation gf: budget_store run_map run_Set run_Delete run_Len "run_inv w" "\<lambda>h e. entry_size e" "gf_fits w" for w
proof unfold_locales
  fix m and r :: gf_run and h e
  show "run_inv w (entry_size e + m) r \<Longrightarrow> gf_fits w h e \<Longrightarrow> run_inv w m (run_Set r h e)"
    "run_inv w (entry_size e + m) r \<Longrightarrow> gf_fits w h e \<Longrightarrow> run_map (run_Set r h e) = (run_map r)(h \<mapsto> e)"
    using run_Set_spec by blast+
  show "run_inv w m r \<Longrightarrow> run_inv w m (run_Delete r h)"
    "run_inv w m r \<Longrightarrow> run_map (run_Delete r h) = (run_map r)(h := None)"
    using run_Delete_spec by blast+
  show "run_inv w m r \<Longrightarrow> finite (dom (run_map r))" "run_inv w m r \<Longrightarrow> run_Len r = int (card (dom (run_map r)))"
    using gf_finite by (auto simp: run_inv_def run_map_def run_Len_def gf_Len_def gf_inv_def)
qed

text \<open>The bytes every shard starts with.\<close>

definition shard_bytes :: "int \<Rightarrow> int \<Rightarrow> nat" where
  "shard_bytes shardCount initialSize = length (gs_data (hd (gf_shards (NewGCFreeStore shardCount initialSize))))"

lemma gf_room_New: "gf_room (shard_bytes shardCount initialSize div 4) (NewGCFreeStore shardCount initialSize)"
  by (auto simp: gf_room_def shard_bytes_def NewGCFreeStore_def Let_def hd_replicate simp del: length_replicate)

lemma shard_bytes_ge:
  assumes "shardCount \<le> 2 ^ 32"
  shows "4096 \<le> shard_bytes shardCount initialSize"
proof -
  have "rounds_up (if shardCount \<le> 0 then 256 else shardCount) (nextPowerOf2 (if shardCount \<le> 0 then 256 else shardCount)) \<and>
    nextPowerOf2 (if shardCount \<le> 0 then 256 else shardCount) \<le> 2 ^ 32"
    using assms by (intro nextPowerOf2_rounds_up) auto
  then have "nat (nextPowerOf2 (if shardCount \<le> 0 then 256 else shardCount)) \<noteq> 0" by (auto simp: rounds_up_def split: if_splits)
  then show ?thesis by (simp add: shard_bytes_def NewGCFreeStore_def Let_def hd_replicate le_nat_iff not_less)
qed

lemma NewGCFreeStore_inv:
  assumes "shardCount \<le> 2 ^ 32" "initialSize < 2 ^ 32" "m \<le> 2 ^ 31"
  shows "gf_inv m (NewGCFreeStore shardCount initialSize)" "gf_map (NewGCFreeStore shardCount initialSize) = Map.empty"
proof -
  define c where "c = nextPowerOf2 (if shardCount \<le> 0 then 256 else shardCount)"
  define z where "z = (if initialSize \<le> 0 then 1048576 else initialSize) div c"
  have "rounds_up (if shardCount \<le> 0 then 256 else shardCount) c \<and> c \<le> 2 ^ 32"
    unfolding c_def using assms(1) by (intro nextPowerOf2_rounds_up) auto
  then have c: "1 \<le> c" "c \<le> 2 ^ 32" by (auto simp: rounds_up_def split: if_splits)
  have "z \<le> (if initialSize \<le> 0 then 1048576 else initialSize)"
    unfolding z_def using c(1) zdiv_mono2 [of "if initialSize \<le> 0 then 1048576 else initialSize" 1 c] by simp
  then have z: "z < 2 ^ 32" using assms(2) by (auto split: if_splits)
  let ?s = "NewGCFreeStore shardCount initialSize"
  let ?sh = "\<lparr>gs_hashmap = Map.empty, gs_data = replicate (nat (if z < 4096 then 4096 else z)) 0, gs_tail = 0, gs_deleted = 0\<rparr>"
  have s: "gf_shards ?s = replicate (nat c) ?sh" "gf_shardMask ?s = word_of_int (c - 1)" "gf_size ?s = 0"
    by (simp_all add: NewGCFreeStore_def Let_def c_def z_def)
  have sh: "gs_map ?sh = Map.empty" by (simp add: gs_map_def fun_eq_iff)
  have "nat z < 2 ^ 32" using z by (cases "0 \<le> z") (auto simp: nat_less_iff)
  then have "gs_rel ?sh Map.empty" by (simp add: gs_rel_def gs_pre_def)
  moreover have "4096 \<le> nat (if z < 4096 then 4096 else z)" by (cases "z < 4096") (simp_all add: le_nat_iff)
  ultimately have "gf_shard_ok m ?s i ?sh" for i using assms(3) by (simp add: gf_shard_ok_def sh)
  moreover have "(word_of_int (c - 1) :: u32) = of_nat (nat c - 1)" using c(1) by (simp add: of_nat_diff)
  ultimately have b: "gf_base m ?s" using c by (auto simp: gf_base_def s)
  have "gf_shard ?s h = ?sh" for h using gf_index_bound [OF b, of h] by (simp add: gf_shard_def s)
  then show e: "gf_map ?s = Map.empty" by (simp add: gf_map_def sh fun_eq_iff)
  show "gf_inv m ?s" using b assms(3) by (simp add: gf_inv_def e s)
qed

text \<open>
  C38: As long as no more than 2 GB are written and every entry has a key and takes with its header at
  most a quarter of the bytes a shard starts with (1024 bytes in a shard of the least size, 4096), the
  serialising store is a map: any sequence of sets and deletions runs without a panic
  through its compactions and growths, whatever order the maps are iterated in. Afterwards \<open>Get\<close>
  finds the entry last set for the hash if its key matches and it has not expired, \<open>Len\<close> is the number
  of hashes, and \<open>Range\<close> visits every live entry once, with its key, value, expiration and cost. Without
  the bound on the entries it is no map: see C40.
\<close>

theorem gcfree_store_is_map:
  assumes "shardCount \<le> 2 ^ 32" "initialSize < 2 ^ 32"
    and "\<And>h e. Put h e \<in> set ops \<Longrightarrow> gf_fits (shard_bytes shardCount initialSize div 4) h e"
    and "sum_list (map (op_weight (\<lambda>h. entry_size)) ops) \<le> 2 ^ 31" "\<forall>n. enumerates (ords n)" "enumerates ord"
  defines "m \<equiv> foldl op_on_map Map.empty ops"
  shows "\<exists>s vs. fst (foldl gf.apply_op (Some (NewGCFreeStore shardCount initialSize), ords) ops) = Some s \<and>
    gf_Get s h key now = (case m h of None \<Rightarrow> None
      | Some e \<Rightarrow> if ge_key e = key \<and> gf_live now e then Some (ge_value e, ge_expireAt e) else None) \<and>
    gf_Len s = int (card (dom m)) \<and>
    gf_Range ord s now (\<lambda>_. True) = Some vs \<and> distinct (map gv_keyHash vs) \<and>
    set vs = {gf_visit_of h e | h e. m h = Some e \<and> gf_live now e}"
proof -
  let ?r = "(Some (NewGCFreeStore shardCount initialSize), ords)"
  let ?w = "sum_list (map (op_weight (\<lambda>h. entry_size)) ops)" and ?q = "shard_bytes shardCount initialSize div 4"
  have "run_inv ?q (?w + 0) ?r" using NewGCFreeStore_inv(1) [OF assms(1,2), of ?w] gf_room_New assms(4,5)
    by (simp add: run_inv_def)
  moreover have "run_map ?r = Map.empty" by (simp add: run_map_def NewGCFreeStore_inv(2) [OF assms(1,2), of 0])
  moreover have "\<forall>x \<in> set ops. gf.op_fits ?q x"
  proof
    show "gf.op_fits ?q x" if "x \<in> set ops" for x using assms(3) [of h e for h e] that by (cases x) simp_all
  qed
  ultimately have "run_inv ?q 0 (foldl gf.apply_op ?r ops)" "run_map (foldl gf.apply_op ?r ops) = m"
    "run_Len (foldl gf.apply_op ?r ops) = int (card (dom m))"
    using gf.run_ops [of ?q ops 0 ?r] by (simp_all add: m_def)
  then obtain s where s: "fst (foldl gf.apply_op ?r ops) = Some s" "gf_base 0 s" "gf_map s = m" "gf_Len s = int (card (dom m))"
    by (auto simp: run_inv_def run_map_def run_Len_def gf_inv_def)
  from gf_Range_spec [OF s(2) assms(6), of now] obtain vs where "gf_Range ord s now (\<lambda>_. True) = Some vs"
    "distinct (map gv_keyHash vs)" "set vs = {gf_visit_of h e | h e. m h = Some e \<and> gf_live now e}" unfolding s(3) by blast
  then show ?thesis using s gf_Get_spec [OF s(2), of h key now] unfolding s(3) by blast
qed

theorem gcfree_store_is_map_witness:
  "\<exists>ords :: nat \<Rightarrow> u64 order. \<exists>s.
    fst (foldl gf.apply_op (Some (NewGCFreeStore 4 0), ords)
      [Put 5 \<lparr>ge_key = [97], ge_value = [1, 2], ge_expireAt = 0, ge_cost = 1\<rparr>, Remove 6]) = Some s \<and>
    gf_Get s 5 [97] 100 = Some ([1, 2], 0)"
proof -
  define ord :: "u64 order" where "ord = (\<lambda>i D. if finite D then sorted_list_of_set D else [])"
  have o: "enumerates ord" by (simp add: enumerates_def ord_def)
  let ?ops = "[Put 5 \<lparr>ge_key = [97], ge_value = [1, 2], ge_expireAt = 0, ge_cost = 1\<rparr>, Remove (6 :: u64)]"
  have "4096 \<le> shard_bytes 4 0" by (rule shard_bytes_ge) simp
  then have "gf_fits (shard_bytes 4 0 div 4) h e" if "Put h e \<in> set ?ops" for h e
    using that by (auto simp: gf_fits_def entry_ok_def entry_fits_def entry_size_def)
  moreover have "sum_list (map (op_weight (\<lambda>h. entry_size)) ?ops) \<le> 2 ^ 31" by (simp add: entry_size_def)
  ultimately show ?thesis
    using gcfree_store_is_map [of 4 0 ?ops "\<lambda>_. ord" ord 5 "[97]" 100] o
    by (auto simp: gf_live_def intro!: exI [of _ "\<lambda>_. ord"])
qed

text \<open>
  C39: What the store serialises it reads back. Whatever a shard of less than 4 GB holds, an entry of any
  key, the empty one included, written at its tail when there is room for it, is found by \<open>Get\<close> with
  its value and expiration unless it has expired, over the whole range of the 64-bit integers, negative
  ones included. \<open>Range\<close> visits it with the same key, value, expiration and cost, but only if its
  key is not empty: it takes an entry with an empty key for a deleted one.
\<close>

theorem written_entry_reads_back:
  assumes "entry_fits e" "gs_tail sh + entry_size e \<le> length (gs_data sh)" "length (gs_data sh) < 2 ^ 32"
  shows "\<exists>sh'. gs_append sh h (ge_key e) (ge_value e) (ge_expireAt e) (ge_cost e) = Some sh' \<and>
    gs_Get sh' h key now = (if key = ge_key e \<and> gf_live now e then Some (ge_value e, ge_expireAt e) else None) \<and>
    gs_range sh' now (\<lambda>_. True) [h] =
      Some (if ge_key e \<noteq> [] \<and> gf_live now e then [gf_visit_of h e] else [], False)"
proof -
  let ?s = "gs_push sh h e"
  have t: "unat (of_nat (gs_tail sh) :: u32) = gs_tail sh" using assms(2,3) by (simp add: unat_of_nat)
  have o: "gs_hashmap ?s h = Some (of_nat (gs_tail sh))" by simp
  have l: "lies_at (gs_data ?s) (unat (of_nat (gs_tail sh) :: u32)) e" using assms(2) by (simp add: t lies_at_overwrite)
  have n: "length (gs_data ?s) < 2 ^ 32" using assms(2,3) by simp
  have "gs_range ?s now (\<lambda>_. True) [h] =
    Some (if ge_key e \<noteq> [] \<and> gf_live now e then [gf_visit_of h e] else [], False)"
    by (rule gs_range_at [OF o l assms(1) n]) simp
  with gs_append_push [OF assms(2)] gs_Get_at [OF o l assms(1), of key now] show ?thesis by auto
qed

theorem written_entry_reads_back_witness:
  "\<exists>sh'. gs_append \<lparr>gs_hashmap = Map.empty, gs_data = replicate 30 7, gs_tail = 2, gs_deleted = 0\<rparr> 9 [5] [6, 7] (- 1) (- 2) = Some sh' \<and>
    gs_Get sh' 9 [5] 100 = Some ([6, 7], - 1) \<and>
    gs_range sh' 100 (\<lambda>_. True) [9] =
      Some ([\<lparr>gv_keyHash = 9, gv_key = [5], gv_value = [6, 7], gv_expireAt = - 1, gv_cost = - 2\<rparr>], False)"
  using written_entry_reads_back [of "\<lparr>ge_key = [5], ge_value = [6, 7], ge_expireAt = - 1, ge_cost = - 2\<rparr>"
      "\<lparr>gs_hashmap = Map.empty, gs_data = replicate 30 7, gs_tail = 2, gs_deleted = 0\<rparr>" 9 "[5]" 100]
  by (auto simp: entry_fits_def entry_size_def gf_live_def gf_visit_of_def simp del: gs_range.simps)

section \<open>Compactions that do not make enough room\<close>

lemma gs_append_cut:
  assumes "gs_tail sh + 24 + length (ge_key e) \<le> length (gs_data sh)" "length (gs_data sh) < gs_tail sh + entry_size e"
  shows "gs_append sh h (ge_key e) (ge_value e) (ge_expireAt e) (ge_cost e) =
    Some (sh\<lparr>gs_data := overwrite (gs_data sh) (gs_tail sh) (take (length (gs_data sh) - gs_tail sh) (encode e)),
      gs_tail := gs_tail sh + entry_size e, gs_hashmap := (gs_hashmap sh)(h \<mapsto> of_nat (gs_tail sh))\<rparr>)"
proof -
  let ?d = "gs_data sh" and ?t = "gs_tail sh"
  let ?n = "length ?d - (?t + 24 + length (ge_key e))"
  let ?k = "PutUint32 (of_nat (length (ge_key e)))" and ?v = "PutUint32 (of_nat (length (ge_value e)))"
  let ?x = "PutUint64 (word_of_int (ge_expireAt e))" and ?c = "PutUint64 (word_of_int (ge_cost e))"
  have cut: "take (length ?d - ?t) (encode e) = ?k @ ?v @ ?x @ ?c @ ge_key e @ take ?n (ge_value e)"
    using assms by (simp add: encode_def entry_size_def ac_simps)
  have "put_at ?d ?t (?t + 4) ?k = Some (overwrite ?d ?t ?k)"
    "put_at (overwrite ?d ?t ?k) (?t + 4) (?t + 8) ?v = Some (overwrite ?d ?t (?k @ ?v))"
    "put_at (overwrite ?d ?t (?k @ ?v)) (?t + 8) (?t + 16) ?x = Some (overwrite ?d ?t (?k @ ?v @ ?x))"
    "put_at (overwrite ?d ?t (?k @ ?v @ ?x)) (?t + 16) (?t + 24) ?c = Some (overwrite ?d ?t (?k @ ?v @ ?x @ ?c))"
    "copy_at (overwrite ?d ?t (?k @ ?v @ ?x @ ?c)) (?t + 24) (ge_key e) =
       Some (overwrite ?d ?t (?k @ ?v @ ?x @ ?c @ ge_key e))"
    "copy_at (overwrite ?d ?t (?k @ ?v @ ?x @ ?c @ ge_key e)) (?t + 24 + length (ge_key e)) (ge_value e) =
       Some (overwrite ?d ?t (take (length ?d - ?t) (encode e)))"
    unfolding cut using assms by (simp_all add: put_at_overwrite copy_at_overwrite overwrite_overwrite copy_at_def)
  then show ?thesis
    by (simp only: gs_append_def Let_def entryHeaderSize_def entry_size_def Option.bind.simps add.assoc)
qed

lemma gs_append_panics:
  assumes "length (gs_data sh) < gs_tail sh + 24 + length key"
  shows "gs_append sh h key value expireAt cost = None"
proof -
  have len: "put_at d a b bs = Some d' \<Longrightarrow> length bs = b - a \<Longrightarrow> length d' = length d" for d a b bs d'
    by (auto simp: put_at_def split: if_splits)
  have cp: "copy_at d a src = Some d' \<Longrightarrow> length d' = length d" for d a src d' by (auto simp: copy_at_def split: if_splits)
  show ?thesis
  proof (rule ccontr)
    assume "gs_append sh h key value expireAt cost \<noteq> None"
    then obtain d1 d2 d3 d4 d5 d6 where d: "put_at (gs_data sh) (gs_tail sh) (gs_tail sh + 4) (PutUint32 (of_nat (length key))) = Some d1"
      "put_at d1 (gs_tail sh + 4) (gs_tail sh + 8) (PutUint32 (of_nat (length value))) = Some d2"
      "put_at d2 (gs_tail sh + 8) (gs_tail sh + 16) (PutUint64 (word_of_int expireAt)) = Some d3"
      "put_at d3 (gs_tail sh + 16) (gs_tail sh + 24) (PutUint64 (word_of_int cost)) = Some d4"
      "copy_at d4 (gs_tail sh + 24) key = Some d5" "copy_at d5 (gs_tail sh + 24 + length key) value = Some d6"
      by (auto simp: gs_append_def entryHeaderSize_def Let_def bind_eq_None_conv)
    have "length d5 = length (gs_data sh)" using len [OF d(1)] len [OF d(2)] len [OF d(3)] len [OF d(4)] cp [OF d(5)] by simp
    then show False using d(6) assms by (simp add: copy_at_def split: if_splits)
  qed
qed

lemma cut_entry_not_found:
  assumes "gs_hashmap sh h = Some off" "length (gs_data sh) < unat off + entry_size e" "entry_size e < 2 ^ 32"
    and "seg (gs_data sh) (unat off) 8 = take 8 (encode e)"
  shows "gs_Get sh h key now = None"
proof -
  let ?d = "gs_data sh"
  have "seg ?d (unat off + 0) 4 = seg (seg ?d (unat off) 8) 0 4" "seg ?d (unat off + 4) 4 = seg (seg ?d (unat off) 8) 4 4"
    by (rule seg_seg [symmetric], simp)+
  then have "Uint32 (seg ?d (unat off + 0) 4) = of_nat (length (ge_key e))" "Uint32 (seg ?d (unat off + 4) 4) = of_nat (length (ge_value e))"
    unfolding assms(4) by (simp_all add: encode_def seg_def)
  then have "unat (Uint32 (seg ?d (unat off + 0) 4)) = length (ge_key e)" "unat (Uint32 (seg ?d (unat off + 4) 4)) = length (ge_value e)"
    using assms(3) by (simp_all add: entry_size_def unat_of_nat)
  then show ?thesis unfolding gs_Get_def assms(1) option.case Let_def seg_drop
    using assms(2) by (simp add: entry_size_def entryHeaderSize_def)
qed

text \<open>A set of a new hash whose compaction leaves too little room.\<close>

lemma gs_Set_after_compaction:
  assumes r: "gs_rel sh M" and h: "h \<notin> dom M" and ord: "enumerates ord" and e: "entry_size e < 2 ^ 32"
    and full: "gs_tail sh + entry_size e > length (gs_data sh)" "gs_deleted sh > int (length (gs_data sh) div 4)"
  defines "live \<equiv> nat (int (gs_tail sh) - gs_deleted sh)"
  assumes short: "live + entry_size e > length (gs_data sh)"
  shows "if live + 24 + length (ge_key e) \<le> length (gs_data sh)
    then \<exists>sh'. gs_Set (ord i) sh h (ge_key e) (ge_value e) (ge_expireAt e) (ge_cost e) = Some sh' \<and>
      (\<forall>key now. gs_Get sh' h key now = None)
    else gs_Set (ord i) sh h (ge_key e) (ge_value e) (ge_expireAt e) (ge_cost e) = None"
proof -
  have p: "gs_pre sh M" and dm: "dom (gs_hashmap sh) = dom M" using r by (auto simp: gs_rel_def)
  note D = gs_preD [OF p]
  have hn: "gs_hashmap sh h = None" using h dm by (auto simp: domIff)
  have "set (ord i (dom (gs_hashmap sh))) = dom (gs_hashmap sh)" "distinct (ord i (dom (gs_hashmap sh)))"
    using ord D(1) by (auto simp: enumerates_def)
  from gs_compact_spec [where ord = "ord i", OF p this] obtain sh2 where c: "gs_compact (ord i) sh = Some sh2" "gs_rel sh2 M"
    "gs_deleted sh2 = 0" "length (gs_data sh2) = length (gs_data sh)" .
  have "int (gs_tail sh2) = int (gs_tail sh) - gs_deleted sh" using c(2,3) gs_preD(6) [of sh2 M] D(6) by (simp add: gs_rel_def)
  then have t: "gs_tail sh2 = live" by (simp add: live_def)
  have set: "gs_Set (ord i) sh h k v x y = gs_append sh2 h k v x y"
    if "entryHeaderSize + length k + length v = entry_size e" for k v x y
    using full c(1) that by (simp add: gs_Set_def hn gs_make_room_def Let_def)
  have len: "length (gs_data sh2) < 2 ^ 32" "gs_tail sh2 \<le> length (gs_data sh2)" using c(2) gs_preD(7,8) by (auto simp: gs_rel_def)
  show ?thesis
  proof (cases "live + 24 + length (ge_key e) \<le> length (gs_data sh)")
    case True
    define bs where "bs = take (length (gs_data sh2) - gs_tail sh2) (encode e)"
    define sh' where "sh' = sh2\<lparr>gs_data := overwrite (gs_data sh2) (gs_tail sh2) bs,
      gs_tail := gs_tail sh2 + entry_size e, gs_hashmap := (gs_hashmap sh2)(h \<mapsto> of_nat (gs_tail sh2))\<rparr>"
    have bs: "length bs = length (gs_data sh2) - gs_tail sh2" "24 \<le> length bs"
      using True short c(4) t by (auto simp: bs_def)
    have a: "gs_append sh2 h (ge_key e) (ge_value e) (ge_expireAt e) (ge_cost e) = Some sh'"
      unfolding sh'_def bs_def by (rule gs_append_cut) (use True short c(4) t in simp_all)
    have u: "unat (of_nat (gs_tail sh2) :: u32) = gs_tail sh2" using len by (simp add: unat_of_nat)
    have fit: "gs_tail sh2 + length bs \<le> length (gs_data sh2)" using bs len by simp
    have "seg (gs_data sh') (gs_tail sh2) 8 = seg (seg (gs_data sh') (gs_tail sh2) (length bs)) 0 8"
      using bs(2) seg_seg [of 0 8 "length bs" "gs_data sh'" "gs_tail sh2"] by simp
    also have "\<dots> = take 8 bs" unfolding sh'_def using fit by (simp add: seg_overwrite_same) (simp add: seg_def)
    also have "\<dots> = take 8 (encode e)" using bs by (simp add: bs_def min_def)
    finally have sg: "seg (gs_data sh') (gs_tail sh2) 8 = take 8 (encode e)" .
    have "gs_Get sh' h key now = None" for key now
      by (rule cut_entry_not_found [of _ _ "of_nat (gs_tail sh2)" e]) (use fit short c(4) t e sg in \<open>simp_all add: u [unfolded t] sh'_def\<close>)
    then show ?thesis using True a set [of "ge_key e" "ge_value e"] by (auto simp: entry_size_def entryHeaderSize_def)
  next
    case False
    then have "gs_append sh2 h (ge_key e) (ge_value e) (ge_expireAt e) (ge_cost e) = None"
      using c(4) t by (intro gs_append_panics) simp
    then show ?thesis using False set [of "ge_key e" "ge_value e"] by (simp add: entry_size_def entryHeaderSize_def)
  qed
qed

text \<open>
  C40: \<open>Set\<close> does not check again that there is room after it has compacted a shard. When the bytes
  that are still live leave too little room for the new entry, the set panics if not even the key fits;
  otherwise it cuts the value off, reports success and counts the entry, which \<open>Get\<close> never finds.
\<close>

theorem compaction_without_room:
  assumes b: "gf_base m s" and h: "gf_map s h = None" and ord: "enumerates ord" and e: "entry_size e < 2 ^ 32"
  defines "sh \<equiv> gf_shard s h"
  defines "live \<equiv> nat (int (gs_tail sh) - gs_deleted sh)"
  assumes full: "gs_tail sh + entry_size e > length (gs_data sh)" "gs_deleted sh > int (length (gs_data sh) div 4)"
    and short: "live + entry_size e > length (gs_data sh)"
  shows "if live + 24 + length (ge_key e) \<le> length (gs_data sh)
    then \<exists>s'. gf_Set ord s h (ge_key e) (ge_value e) (ge_expireAt e) (ge_cost e) = Some (s', True) \<and>
      gf_Len s' = i64 (gf_Len s + 1) \<and> (\<forall>key now. gf_Get s' h key now = None)
    else gf_Set ord s h (ge_key e) (ge_value e) (ge_expireAt e) (ge_cost e) = None"
proof -
  have r: "gs_rel sh (gs_map sh)" using gf_shard_okD [OF b, of h] by (simp add: gf_shard_ok_def sh_def)
  have hn: "h \<notin> dom (gs_map sh)" "gs_hashmap sh h = None" using h by (auto simp: gf_map_def sh_def gs_map_def)
  have i: "gf_index s h < length (gf_shards s)" by (rule gf_index_bound [OF b])
  have put: "gf_shard (gf_put_shard s h x) h = x" for x using i by (simp add: gf_shard_def) (simp add: gf_put_shard_def)
  note spec = gs_Set_after_compaction [OF r hn(1) ord e full short [unfolded live_def], of "gf_index s h", folded live_def]
  show ?thesis
  proof (cases "live + 24 + length (ge_key e) \<le> length (gs_data sh)")
    case True
    with spec obtain sh' where sh': "gs_Set (ord (gf_index s h)) sh h (ge_key e) (ge_value e) (ge_expireAt e) (ge_cost e) = Some sh'"
      "\<forall>key now. gs_Get sh' h key now = None" by auto
    then show ?thesis using True hn(2) put [of sh']
      by (simp add: gf_Set_def gf_Get_def gf_Len_def flip: sh_def)
  next
    case False
    with spec have "gs_Set (ord (gf_index s h)) sh h (ge_key e) (ge_value e) (ge_expireAt e) (ge_cost e) = None" by auto
    then show ?thesis using False hn(2) by (simp add: gf_Set_def flip: sh_def)
  qed
qed

text \<open>
  An entry with an empty key looks like a deleted one: \<open>Get\<close> finds it, but \<open>Range\<close> skips it and the next
  compaction drops it.
\<close>

lemma empty_key_is_lost:
  defines "sh \<equiv> \<lparr>gs_hashmap = [9 \<mapsto> 0], gs_data = [0, 0, 0, 0, 1, 0, 0, 0] @ replicate 16 0 @ [6], gs_tail = 25, gs_deleted = 0\<rparr>"
  shows "gs_append \<lparr>gs_hashmap = Map.empty, gs_data = replicate 25 0, gs_tail = 0, gs_deleted = 0\<rparr> 9 [] [6] 0 0 = Some sh"
    "gs_Get sh 9 [] 0 = Some ([6], 0)"
    "gs_range sh 0 (\<lambda>_. True) [9] = Some ([], False)"
    "map_option (\<lambda>sh. gs_Get sh 9 [] 0) (gs_compact (\<lambda>_. [9]) sh) = Some None"
proof -
  show "gs_append \<lparr>gs_hashmap = Map.empty, gs_data = replicate 25 0, gs_tail = 0, gs_deleted = 0\<rparr> 9 [] [6] 0 0 = Some sh"
    by (simp add: sh_def gs_append_def put_at_def copy_at_def overwrite_def entryHeaderSize_def PutUint32_def PutUint64_def numeral_eq_Suc)
  show "gs_Get sh 9 [] 0 = Some ([6], 0)"
    by (simp add: sh_def gs_Get_def seg_def Uint32_def Uint64_def bytesEqual_def entryHeaderSize_def numeral_eq_Suc)
  have r: "read_lengths (gs_data sh) 0 = Some (0, 1)"
    by (simp add: read_lengths_def subslice_def sh_def Uint32_def)
  then show "gs_range sh 0 (\<lambda>_. True) [9] = Some ([], False)" by (simp add: sh_def entryHeaderSize_def)
  have "compact_loop (gs_data sh) [(9, 0)] nd m t = Some (nd, m, t)" for nd m t
    by (simp add: sh_def entryHeaderSize_def subslice_def Uint32_def)
  moreover have "gs_hashmap sh 9 = Some 0" by (simp add: sh_def)
  ultimately show "map_option (\<lambda>sh. gs_Get sh 9 [] 0) (gs_compact (\<lambda>_. [9]) sh) = Some None"
    by (simp add: gs_compact_def gs_Get_def del: compact_loop.simps)
qed

text \<open>A store with a single shard of the least size, filled by setting one hash three times.\<close>

lemma single_shard_Set:
  "gs_Set (ord 0) sh h key value x c = Some sh' \<Longrightarrow>
   \<exists>n'. gf_Set ord \<lparr>gf_shards = [sh], gf_shardMask = 0, gf_size = n\<rparr> h key value x c =
     Some (\<lparr>gf_shards = [sh'], gf_shardMask = 0, gf_size = n'\<rparr>, True)"
  by (simp add: gf_Set_def gf_shard_def gf_index_def gf_put_shard_def)

theorem compaction_without_room_witness:
  "\<exists>(ord :: u64 order) s1 s2 s3 s4. gf_Set ord (NewGCFreeStore 1 4096) 7 [1] (replicate 999 0) 0 0 = Some (s1, True) \<and>
    gf_Set ord s1 7 [1] (replicate 999 0) 0 0 = Some (s2, True) \<and>
    gf_Set ord s2 7 [1] (replicate 999 0) 0 0 = Some (s3, True) \<and>
    gf_Set ord s3 8 [2] (replicate 4000 0) 0 0 = Some (s4, True) \<and> gf_Get s4 8 [2] 0 = None"
proof -
  define ord :: "u64 order" where "ord = (\<lambda>i D. if finite D then sorted_list_of_set D else [])"
  have o: "enumerates ord" by (simp add: enumerates_def ord_def)
  define e where "e = \<lparr>ge_key = [1], ge_value = replicate 999 0, ge_expireAt = 0, ge_cost = 0\<rparr>"
  define f where "f = \<lparr>ge_key = [2], ge_value = replicate 4000 0, ge_expireAt = 0, ge_cost = 0\<rparr>"
  have e: "entry_ok e" "entry_size e = 1024" "entry_size f = 4025"
    "ge_key e = [1]" "ge_value e = replicate 999 0" "ge_expireAt e = 0" "ge_cost e = 0"
    "ge_key f = [2]" "ge_value f = replicate 4000 0" "ge_expireAt f = 0" "ge_cost f = 0"
    by (simp_all add: e_def f_def entry_ok_def entry_fits_def entry_size_def)
  define sh0 where "sh0 = \<lparr>gs_hashmap = Map.empty, gs_data = replicate 4096 0, gs_tail = 0, gs_deleted = 0\<rparr>"
  have s0: "NewGCFreeStore 1 4096 = \<lparr>gf_shards = [sh0], gf_shardMask = 0, gf_size = 0\<rparr>"
    by (simp add: NewGCFreeStore_def sh0_def nextPowerOf2_def i64_id Let_def)
  have r0: "gs_rel sh0 Map.empty" "gs_tail sh0 = 0" "length (gs_data sh0) = 4096"
    by (simp_all add: sh0_def gs_rel_def gs_pre_def)
  from gs_Set_room [OF r0(1) e(1), of "ord 0" 7] obtain sh1 where r1: "gs_Set (ord 0) sh0 7 [1] (replicate 999 0) 0 0 = Some sh1"
    "gs_rel sh1 [7 \<mapsto> e]" "gs_tail sh1 = 1024" "length (gs_data sh1) = 4096" using r0 e by auto
  from gs_Set_room [OF r1(2) e(1), of "ord 0" 7] obtain sh2 where r2: "gs_Set (ord 0) sh1 7 [1] (replicate 999 0) 0 0 = Some sh2"
    "gs_rel sh2 [7 \<mapsto> e]" "gs_tail sh2 = 2048" "length (gs_data sh2) = 4096" using r1 e by auto
  from gs_Set_room [OF r2(2) e(1), of "ord 0" 7] obtain sh3 where r3: "gs_Set (ord 0) sh2 7 [1] (replicate 999 0) 0 0 = Some sh3"
    "gs_rel sh3 [7 \<mapsto> e]" "gs_tail sh3 = 3072" "length (gs_data sh3) = 4096" using r2 e by auto
  have del: "gs_deleted sh3 = 2048" using r3(2,3) gs_preD(6) [of sh3 "[7 \<mapsto> e]"] e(2) by (simp add: gs_rel_def map_sum_def)
  obtain n1 n2 n3 where sets: "gf_Set ord (NewGCFreeStore 1 4096) 7 [1] (replicate 999 0) 0 0 =
      Some (\<lparr>gf_shards = [sh1], gf_shardMask = 0, gf_size = n1\<rparr>, True)"
    "gf_Set ord \<lparr>gf_shards = [sh1], gf_shardMask = 0, gf_size = n1\<rparr> 7 [1] (replicate 999 0) 0 0 =
      Some (\<lparr>gf_shards = [sh2], gf_shardMask = 0, gf_size = n2\<rparr>, True)"
    "gf_Set ord \<lparr>gf_shards = [sh2], gf_shardMask = 0, gf_size = n2\<rparr> 7 [1] (replicate 999 0) 0 0 =
      Some (\<lparr>gf_shards = [sh3], gf_shardMask = 0, gf_size = n3\<rparr>, True)"
    using single_shard_Set [where ord = ord, OF r1(1)] single_shard_Set [where ord = ord, OF r2(1)]
      single_shard_Set [where ord = ord, OF r3(1)] unfolding s0 by blast
  let ?s = "\<lparr>gf_shards = [sh3], gf_shardMask = 0, gf_size = n3\<rparr>"
  have sh: "gf_shard ?s h = sh3" "gf_index ?s h = 0" for h by (simp_all add: gf_shard_def gf_index_def)
  have m3: "gs_map sh3 = [7 \<mapsto> e]" by (rule gs_rel_map [OF r3(2)])
  have "gf_base 0 ?s" using r3 by (simp add: gf_base_def gf_shard_ok_def sh m3)
  moreover have "gf_map ?s 8 = None" by (simp add: gf_map_def sh m3)
  ultimately have "\<exists>s'. gf_Set ord ?s 8 [2] (replicate 4000 0) 0 0 = Some (s', True) \<and> gf_Get s' 8 [2] 0 = None"
    using compaction_without_room [of 0 ?s 8 ord f] o by (auto simp: sh e del r3(3,4))
  then show ?thesis using sets by blast
qed

end
