(* ===== verification/Flusher.thy ===== *)
theory Flusher
  imports RingBuffer "HOL-Library.Sublist" "HOL-Library.Monad_Syntax"
begin

text \<open>
  The goroutine of \<open>internal/buffer/ring.go\<close> that flushes a buffer: \<open>flushLoop\<close> with its channels, and
  the calls that talk to it, as a labelled transition system over the state of a \<open>WriteBuffer\<close>. A step
  is one attempt of a producer to push, one call that sends on a channel, or one round of the loop with
  the case its \<open>select\<close> takes. The calls of \<open>flushFn\<close> are recorded in the state. \<open>LossyBuffer\<close> has the
  same loop; its producers make one attempt.
\<close>

section \<open>State and operations\<close>

record 'a WriteBuffer =
  wb_ring :: "'a RingBuffer"
  wb_batchSize :: int
  wb_flushCh :: bool \<comment> \<open>whether the channel of capacity one holds a signal\<close>
  wb_syncCh :: "nat list" \<comment> \<open>the requests in the channel, by the number of their channel \<open>done\<close>\<close>
  wb_stopCh :: bool \<comment> \<open>whether the channel is closed\<close>
  wb_doneCh :: bool
  wb_answered :: "nat set" \<comment> \<open>the channels \<open>done\<close> that are closed\<close>
  wb_flushed :: "'a list list" \<comment> \<open>the batches \<open>flushFn\<close> was called with\<close>

definition NewWriteBuffer :: "'a \<Rightarrow> int \<Rightarrow> int \<Rightarrow> 'a WriteBuffer" where
  "NewWriteBuffer zero capacity batchSize =
     \<lparr>wb_ring = NewRingBuffer zero capacity, wb_batchSize = batchSize, wb_flushCh = False, wb_syncCh = [],
      wb_stopCh = False, wb_doneCh = False, wb_answered = {}, wb_flushed = []\<rparr>"

text \<open>A send that does not block.\<close>

definition wb_Flush :: "'a WriteBuffer \<Rightarrow> 'a WriteBuffer" where
  "wb_Flush wb = wb\<lparr>wb_flushCh := True\<rparr>"

text \<open>The first attempt of \<open>Push\<close>, and one round of its loop of retries.\<close>

definition wb_Push :: "'a WriteBuffer \<Rightarrow> 'a \<Rightarrow> ('a WriteBuffer \<times> bool) option" where
  "wb_Push wb item = do {
     (ring, ok) \<leftarrow> rb_Push (wb_ring wb) item;
     let wb = wb\<lparr>wb_ring := ring\<rparr>;
     if \<not> ok then Some (wb_Flush wb, False)
     else Some (if rb_Len ring \<ge> wb_batchSize wb then wb_Flush wb else wb, True) }"

definition wb_Push_retry :: "'a WriteBuffer \<Rightarrow> 'a \<Rightarrow> ('a WriteBuffer \<times> bool) option" where
  "wb_Push_retry wb item = do {
     (ring, ok) \<leftarrow> rb_Push (wb_ring wb) item;
     Some (wb\<lparr>wb_ring := ring\<rparr>, ok) }"

definition wb_flushBatch :: "'a WriteBuffer \<Rightarrow> 'a WriteBuffer option" where
  "wb_flushBatch wb = do {
     (ring, batch) \<leftarrow> flushBatch (wb_batchSize wb) (wb_ring wb);
     let wb = wb\<lparr>wb_ring := ring\<rparr>;
     Some (if length batch > 0 then wb\<lparr>wb_flushed := wb_flushed wb @ [batch]\<rparr> else wb) }"

definition wb_flushAll :: "'a WriteBuffer \<Rightarrow> 'a WriteBuffer option" where
  "wb_flushAll wb = do {
     (ring, batches) \<leftarrow> flushAll (wb_batchSize wb) (wb_ring wb) [];
     Some (wb\<lparr>wb_ring := ring, wb_flushed := wb_flushed wb @ batches\<rparr>) }"

text \<open>The cases of the \<open>select\<close>, when they are ready, and what they do.\<close>

datatype select_case = StopCase | TickCase | FlushCase | SyncCase

fun case_ready :: "'a WriteBuffer \<Rightarrow> select_case \<Rightarrow> bool" where
  "case_ready wb StopCase = wb_stopCh wb"
| "case_ready wb TickCase = True"
| "case_ready wb FlushCase = wb_flushCh wb"
| "case_ready wb SyncCase = (wb_syncCh wb \<noteq> [])"

fun flushLoop :: "'a WriteBuffer \<Rightarrow> select_case \<Rightarrow> 'a WriteBuffer option" where
  "flushLoop wb StopCase = do { wb \<leftarrow> wb_flushAll wb; Some (wb\<lparr>wb_doneCh := True\<rparr>) }"
| "flushLoop wb TickCase = wb_flushBatch wb"
| "flushLoop wb FlushCase = wb_flushBatch (wb\<lparr>wb_flushCh := False\<rparr>)"
| "flushLoop wb SyncCase =
     do { let req = hd (wb_syncCh wb);
          wb \<leftarrow> wb_flushAll (wb\<lparr>wb_syncCh := tl (wb_syncCh wb)\<rparr>);
          Some (wb\<lparr>wb_answered := insert req (wb_answered wb)\<rparr>) }"

text \<open>The send of \<open>FlushSync\<close>, ready while the channel has room, and the first half of \<open>Close\<close>.\<close>

definition sync_room :: "'a WriteBuffer \<Rightarrow> bool" where
  "sync_room wb \<longleftrightarrow> length (wb_syncCh wb) < 8"

definition FlushSync :: "'a WriteBuffer \<Rightarrow> nat \<Rightarrow> 'a WriteBuffer" where
  "FlushSync wb req = wb\<lparr>wb_syncCh := wb_syncCh wb @ [req]\<rparr>"

definition wb_Close :: "'a WriteBuffer \<Rightarrow> 'a WriteBuffer" where
  "wb_Close wb = wb\<lparr>wb_stopCh := True\<rparr>"

definition wb_Len :: "'a WriteBuffer \<Rightarrow> int" where
  "wb_Len wb = rb_Len (wb_ring wb)"

text \<open>The lossy buffer repeats the code of the write buffer; its \<open>Push\<close> stops after the first attempt.\<close>

type_synonym 'a LossyBuffer = "'a WriteBuffer"

definition NewLossyBuffer :: "'a \<Rightarrow> int \<Rightarrow> int \<Rightarrow> 'a LossyBuffer" where
  "NewLossyBuffer zero capacity batchSize = NewWriteBuffer zero capacity batchSize"

definition lb_Push :: "'a LossyBuffer \<Rightarrow> 'a \<Rightarrow> ('a LossyBuffer \<times> bool) option" where
  "lb_Push lb item = wb_Push lb item"

definition lb_flushBatch :: "'a LossyBuffer \<Rightarrow> 'a LossyBuffer option" where
  "lb_flushBatch lb = wb_flushBatch lb"

definition lb_flushAll :: "'a LossyBuffer \<Rightarrow> 'a LossyBuffer option" where
  "lb_flushAll lb = wb_flushAll lb"

definition lb_flushLoop :: "'a LossyBuffer \<Rightarrow> select_case \<Rightarrow> 'a LossyBuffer option" where
  "lb_flushLoop lb c = flushLoop lb c"

definition lb_FlushSync :: "'a LossyBuffer \<Rightarrow> nat \<Rightarrow> 'a LossyBuffer" where
  "lb_FlushSync lb req = FlushSync lb req"

definition lb_Close :: "'a LossyBuffer \<Rightarrow> 'a LossyBuffer" where
  "lb_Close lb = wb_Close lb"

section \<open>Transitions\<close>

datatype 'a wb_event = Push1 'a bool | Retry 'a bool | Signal | Request nat | Stopping | Loop select_case

inductive wb_step :: "'a WriteBuffer \<Rightarrow> 'a wb_event \<Rightarrow> 'a WriteBuffer \<Rightarrow> bool" where
  push: "wb_Push wb x = Some (wb', ok) \<Longrightarrow> wb_step wb (Push1 x ok) wb'"
| retry: "wb_Push_retry wb x = Some (wb', ok) \<Longrightarrow> wb_step wb (Retry x ok) wb'"
| signal: "wb_step wb Signal (wb_Flush wb)"
| request: "sync_room wb \<Longrightarrow> req \<notin> wb_answered wb \<Longrightarrow> req \<notin> set (wb_syncCh wb) \<Longrightarrow>
    wb_step wb (Request req) (FlushSync wb req)"
| stopping: "\<not> wb_stopCh wb \<Longrightarrow> wb_step wb Stopping (wb_Close wb)"
| loop: "\<not> wb_doneCh wb \<Longrightarrow> case_ready wb c \<Longrightarrow> flushLoop wb c = Some wb' \<Longrightarrow> wb_step wb (Loop c) wb'"

inductive_cases wb_stepE: "wb_step wb e wb'"

inductive wb_run :: "'a WriteBuffer \<Rightarrow> 'a wb_event list \<Rightarrow> 'a WriteBuffer \<Rightarrow> bool" for wb0 where
  none: "wb_run wb0 [] wb0"
| snoc: "wb_run wb0 tr wb \<Longrightarrow> wb_step wb e wb' \<Longrightarrow> wb_run wb0 (tr @ [e]) wb'"

text \<open>The items the pushes of a trace were told are accepted, in order.\<close>

fun accepted_by :: "'a wb_event \<Rightarrow> 'a list" where
  "accepted_by (Push1 x ok) = (if ok then [x] else [])"
| "accepted_by (Retry x ok) = (if ok then [x] else [])"
| "accepted_by e = []"

definition accepted :: "'a wb_event list \<Rightarrow> 'a list" where
  "accepted tr = concat (map accepted_by tr)"

lemma accepted_simps [simp]: "accepted [] = []" "accepted (tr @ tr') = accepted tr @ accepted tr'"
  "accepted [e] = accepted_by e"
  by (simp_all add: accepted_def)

section \<open>Batches\<close>

lemma pop_batch_length:
  "pop_batch b rb batch = Some (rb', batch') \<Longrightarrow> int (length batch) < max 1 b \<Longrightarrow> int (length batch') \<le> max 1 b"
proof (induction b rb batch arbitrary: rb' batch' rule: pop_batch.induct)
  case (1 b rb batch)
  show ?case
  proof (cases "rb_Pop rb")
    case None
    then show ?thesis using 1(2) by (simp add: pop_batch.simps)
  next
    case (Some p)
    then show ?thesis using 1 by (cases p; cases "snd p") (auto simp: pop_batch.simps split: if_splits)
  qed
qed

lemma flushBatch_length: "flushBatch b rb = Some (rb', batch) \<Longrightarrow> int (length batch) \<le> max 1 b"
  unfolding flushBatch_def by (erule pop_batch_length) simp

lemma flushAll_length:
  assumes "flushAll b rb bs = Some r"
  shows "(\<forall>x \<in> set bs. int (length x) \<le> max 1 b) \<longrightarrow> (\<forall>x \<in> set (snd r). int (length x) \<le> max 1 b)"
proof (rule flushAll.raw_induct [OF _ assms])
  fix f :: "int \<Rightarrow> 'a RingBuffer \<Rightarrow> 'a list list \<Rightarrow> ('a RingBuffer \<times> 'a list list) option" and b rb bs r
  assume IH: "\<And>b rb bs r. f b rb bs = Some r \<Longrightarrow>
      (\<forall>x \<in> set bs. int (length x) \<le> max 1 b) \<longrightarrow> (\<forall>x \<in> set (snd r). int (length x) \<le> max 1 b)"
    and r: "Option.bind (flushBatch b rb) (\<lambda>(rb, batch). let batches = if 0 < length batch then bs @ [batch] else bs
      in if rb_IsEmpty rb then Some (rb, batches) else f b rb batches) = Some r"
  from r obtain rb1 batch where fb: "flushBatch b rb = Some (rb1, batch)" by (cases "flushBatch b rb") auto
  have r1: "(if rb_IsEmpty rb1 then Some (rb1, if 0 < length batch then bs @ [batch] else bs)
      else f b rb1 (if 0 < length batch then bs @ [batch] else bs)) = Some r"
    using r unfolding fb Option.bind.simps prod.case Let_def .
  define bs' where "bs' = (if 0 < length batch then bs @ [batch] else bs)"
  have "\<forall>x \<in> set bs'. int (length x) \<le> max 1 b" if "\<forall>x \<in> set bs. int (length x) \<le> max 1 b"
    using that flushBatch_length [OF fb] unfolding bs'_def by simp
  moreover have "r = (rb1, bs') \<or> f b rb1 bs' = Some r" using r1 unfolding bs'_def [symmetric] by (cases "rb_IsEmpty rb1") simp_all
  ultimately show "(\<forall>x \<in> set bs. int (length x) \<le> max 1 b) \<longrightarrow> (\<forall>x \<in> set (snd r). int (length x) \<le> max 1 b)"
    using IH [of b rb1 bs' r] by fastforce
qed

section \<open>The invariant\<close>

text \<open>
  What was flushed, followed by what the ring holds, is what was accepted. The number \<open>m\<close> of further
  items can be numbered by the counters of the ring.
\<close>

definition wb_inv :: "nat \<Rightarrow> 'a list \<Rightarrow> 'a WriteBuffer \<Rightarrow> bool" where
  "wb_inv m xs wb \<longleftrightarrow> rb_inv (wb_ring wb) \<and> m \<le> rb_room (wb_ring wb) \<and>
     concat (wb_flushed wb) @ rb_queue (wb_ring wb) = xs \<and>
     (\<forall>b \<in> set (wb_flushed wb). b \<noteq> [] \<and> int (length b) \<le> max 1 (wb_batchSize wb))"

lemma rb_Push_spec:
  assumes "rb_inv rb" "Suc m \<le> rb_room rb"
  obtains rb' ok where "rb_Push rb x = Some (rb', ok)" "rb_inv rb'" "m \<le> rb_room rb'"
    "rb_queue rb' = rb_queue rb @ (if ok then [x] else [])"
proof (cases "length (rb_queue rb) < rb_Cap rb")
  case True
  then obtain rb' where "rb_Push rb x = Some (rb', True)" "rb_inv rb'" "rb_queue rb' = rb_queue rb @ [x]"
    "rb_room rb' = rb_room rb - 1" using rq.push_room [OF assms(1) True, of x] assms(2) by auto
  then show ?thesis using that [of rb' True] assms(2) by simp
next
  case False
  then have "length (rb_queue rb) = rb_Cap rb" using rq.cap_queue [OF assms(1)] by simp
  then show ?thesis using that [of rb False] rq.push_full [OF assms(1)] assms by simp
qed

lemma wb_Push_inv:
  assumes "wb_inv (Suc m) xs wb"
  shows "\<exists>wb' ok. wb_Push wb x = Some (wb', ok) \<and> wb_inv m (xs @ (if ok then [x] else [])) wb'"
    "\<exists>wb' ok. wb_Push_retry wb x = Some (wb', ok) \<and> wb_inv m (xs @ (if ok then [x] else [])) wb'"
proof -
  from assms have "rb_inv (wb_ring wb)" "Suc m \<le> rb_room (wb_ring wb)" by (auto simp: wb_inv_def)
  then obtain rb' ok where "rb_Push (wb_ring wb) x = Some (rb', ok)" "rb_inv rb'" "m \<le> rb_room rb'"
    "rb_queue rb' = rb_queue (wb_ring wb) @ (if ok then [x] else [])" by (rule rb_Push_spec)
  then show "\<exists>wb' ok. wb_Push wb x = Some (wb', ok) \<and> wb_inv m (xs @ (if ok then [x] else [])) wb'"
    "\<exists>wb' ok. wb_Push_retry wb x = Some (wb', ok) \<and> wb_inv m (xs @ (if ok then [x] else [])) wb'"
    using assms by (auto simp: wb_Push_def wb_Push_retry_def wb_Flush_def wb_inv_def Let_def)
qed

lemma wb_flushBatch_inv:
  assumes "wb_inv m xs wb"
  shows "\<exists>wb'. wb_flushBatch wb = Some wb' \<and> wb_inv m xs wb'"
proof -
  from assms have i: "rb_inv (wb_ring wb)" by (simp add: wb_inv_def)
  from pop_batch_spec [OF this, of "wb_batchSize wb" "[]"] obtain rb' n where
    r: "flushBatch (wb_batchSize wb) (wb_ring wb) = Some (rb', take n (rb_queue (wb_ring wb)))" "rb_inv rb'"
      "rb_queue rb' = drop n (rb_queue (wb_ring wb))" "rb_room rb' = rb_room (wb_ring wb)"
    by (auto simp: flushBatch_def)
  show ?thesis using assms r flushBatch_length [OF r(1)] unfolding wb_flushBatch_def
    by (auto simp: wb_inv_def Let_def)
qed

lemma wb_flushAll_inv:
  assumes "wb_inv m xs wb"
  shows "\<exists>wb'. wb_flushAll wb = Some wb' \<and> wb_inv m xs wb' \<and> concat (wb_flushed wb') = xs \<and>
    wb_syncCh wb' = wb_syncCh wb \<and> wb_answered wb' = wb_answered wb"
proof -
  from assms have "rb_inv (wb_ring wb)" by (simp add: wb_inv_def)
  from flushAll_spec [OF this, of "wb_batchSize wb" "[]"] obtain rb' bs where
    r: "flushAll (wb_batchSize wb) (wb_ring wb) [] = Some (rb', bs)" "rb_inv rb'" "rb_queue rb' = []"
      "concat bs = rb_queue (wb_ring wb)" "[] \<notin> set bs" "rb_room rb' = rb_room (wb_ring wb)" by auto
  show ?thesis using assms r flushAll_length [OF r(1)] unfolding wb_flushAll_def
    by (auto simp: wb_inv_def)
qed

lemma wb_channel_inv [simp]:
  "wb_inv m xs (wb\<lparr>wb_flushCh := b1\<rparr>) = wb_inv m xs wb" "wb_inv m xs (wb\<lparr>wb_syncCh := ds\<rparr>) = wb_inv m xs wb"
  "wb_inv m xs (wb\<lparr>wb_stopCh := b2\<rparr>) = wb_inv m xs wb" "wb_inv m xs (wb\<lparr>wb_doneCh := b3\<rparr>) = wb_inv m xs wb"
  "wb_inv m xs (wb\<lparr>wb_answered := as\<rparr>) = wb_inv m xs wb"
  by (simp_all add: wb_inv_def)

text \<open>Every round of the loop returns, and a final or requested flush leaves nothing behind.\<close>

lemma flushLoop_inv:
  assumes "wb_inv m xs wb"
  shows "\<exists>wb'. flushLoop wb c = Some wb' \<and> wb_inv m xs wb' \<and>
    (c = StopCase \<longrightarrow> concat (wb_flushed wb') = xs \<and> wb_syncCh wb' = wb_syncCh wb \<and> wb_answered wb' = wb_answered wb) \<and>
    (c = SyncCase \<longrightarrow> concat (wb_flushed wb') = xs \<and> wb_syncCh wb' = tl (wb_syncCh wb) \<and>
      wb_answered wb' = insert (hd (wb_syncCh wb)) (wb_answered wb))"
proof (cases c)
  case StopCase
  with wb_flushAll_inv [OF assms] show ?thesis by auto
next
  case TickCase
  with wb_flushBatch_inv [OF assms] show ?thesis by auto
next
  case FlushCase
  with wb_flushBatch_inv [of m xs "wb\<lparr>wb_flushCh := False\<rparr>"] assms show ?thesis by auto
next
  case SyncCase
  with wb_flushAll_inv [of m xs "wb\<lparr>wb_syncCh := tl (wb_syncCh wb)\<rparr>"] assms show ?thesis by auto
qed

lemma wb_step_inv:
  assumes "wb_step wb e wb'" "wb_inv (Suc m) xs wb"
  shows "wb_inv m (xs @ accepted_by e) wb'"
proof -
  have m: "wb_inv m xs wb" using assms(2) by (simp add: wb_inv_def)
  from assms(1) show ?thesis
  proof (cases rule: wb_step.cases)
    case (push x ok)
    then show ?thesis using wb_Push_inv(1) [OF assms(2), of x] by auto
  next
    case (retry x ok)
    then show ?thesis using wb_Push_inv(2) [OF assms(2), of x] by auto
  next
    case (loop c)
    then show ?thesis using flushLoop_inv [OF m, of c] by auto
  qed (use m in \<open>simp_all add: wb_Flush_def FlushSync_def wb_Close_def\<close>)
qed

lemma wb_run_inv:
  "wb_run wb0 tr wb \<Longrightarrow> wb_inv (length tr + m) xs wb0 \<Longrightarrow> wb_inv m (xs @ accepted tr) wb"
proof (induction arbitrary: m rule: wb_run.induct)
  case (snoc tr wb e wb')
  from snoc.IH [of "Suc m"] snoc.prems have "wb_inv (Suc m) (xs @ accepted tr) wb" by simp
  from wb_step_inv [OF snoc.hyps(2) this] show ?case by simp
qed simp

lemma NewWriteBuffer_inv:
  "cap \<noteq> 1 \<Longrightarrow> cap \<le> 2 ^ 32 \<Longrightarrow> m \<le> 2 ^ 62 \<Longrightarrow> wb_inv m [] (NewWriteBuffer zero cap n)"
  using NewRingBuffer_inv [of cap zero] by (simp add: NewWriteBuffer_def wb_inv_def)

section \<open>Requests for a flush\<close>

text \<open>A request waits in the channel until what was accepted before it is flushed.\<close>

definition waits_or_flushed :: "nat \<Rightarrow> 'a list \<Rightarrow> 'a WriteBuffer \<Rightarrow> bool" where
  "waits_or_flushed req xs wb \<longleftrightarrow>
     (req \<in> set (wb_syncCh wb) \<and> req \<notin> wb_answered wb) \<or> prefix xs (concat (wb_flushed wb))"

lemma wb_Push_frame:
  "wb_Push wb x = Some (wb', ok) \<Longrightarrow> wb_syncCh wb' = wb_syncCh wb \<and> wb_answered wb' = wb_answered wb \<and>
    wb_flushed wb' = wb_flushed wb \<and> wb_doneCh wb' = wb_doneCh wb"
  "wb_Push_retry wb x = Some (wb', ok) \<Longrightarrow> wb_syncCh wb' = wb_syncCh wb \<and> wb_answered wb' = wb_answered wb \<and>
    wb_flushed wb' = wb_flushed wb \<and> wb_doneCh wb' = wb_doneCh wb"
  by (auto simp: wb_Push_def wb_Push_retry_def wb_Flush_def Let_def bind_eq_Some_conv split: if_splits)

lemma wb_flush_frame:
  "wb_flushBatch wb = Some wb' \<Longrightarrow> wb_syncCh wb' = wb_syncCh wb \<and> wb_answered wb' = wb_answered wb \<and>
    prefix (concat (wb_flushed wb)) (concat (wb_flushed wb'))"
  "wb_flushAll wb = Some wb' \<Longrightarrow> wb_syncCh wb' = wb_syncCh wb \<and> wb_answered wb' = wb_answered wb \<and>
    prefix (concat (wb_flushed wb)) (concat (wb_flushed wb'))"
  by (auto simp: wb_flushBatch_def wb_flushAll_def Let_def bind_eq_Some_conv split: if_splits)

lemma flushed_grows:
  assumes "wb_step wb e wb'"
  shows "prefix (concat (wb_flushed wb)) (concat (wb_flushed wb'))"
  using assms
proof (cases rule: wb_step.cases)
  case (loop c)
  show ?thesis
    using loop(4) wb_flush_frame [of wb wb'] wb_flush_frame(1) [of "wb\<lparr>wb_flushCh := False\<rparr>" wb']
      wb_flush_frame(2) [of wb] wb_flush_frame(2) [of "wb\<lparr>wb_syncCh := tl (wb_syncCh wb)\<rparr>"]
    by (cases c) (fastforce simp: Let_def bind_eq_Some_conv)+
qed (auto simp: wb_Flush_def FlushSync_def wb_Close_def dest!: wb_Push_frame)

lemma wb_step_waits:
  assumes s: "wb_step wb e wb'" and i: "wb_inv m (xs @ ys) wb" and w: "waits_or_flushed req xs wb"
  shows "waits_or_flushed req xs wb'"
proof (cases "prefix xs (concat (wb_flushed wb))")
  case True
  then show ?thesis using prefix_order.order_trans flushed_grows [OF s] by (auto simp: waits_or_flushed_def)
next
  case False
  then have r: "req \<in> set (wb_syncCh wb)" "req \<notin> wb_answered wb" using w by (auto simp: waits_or_flushed_def)
  from s show ?thesis
  proof (cases rule: wb_step.cases)
    case (loop c)
    show ?thesis
    proof (cases c)
      case SyncCase
      with flushLoop_inv [OF i, of c] loop have "concat (wb_flushed wb') = xs @ ys" by auto
      then show ?thesis by (simp add: waits_or_flushed_def)
    next
      case StopCase
      with flushLoop_inv [OF i, of c] loop have "concat (wb_flushed wb') = xs @ ys" by auto
      then show ?thesis by (simp add: waits_or_flushed_def)
    next
      case TickCase
      with loop r show ?thesis by (auto simp: waits_or_flushed_def dest!: wb_flush_frame(1))
    next
      case FlushCase
      with loop r show ?thesis by (auto simp: waits_or_flushed_def dest!: wb_flush_frame(1))
    qed
  next
    case (push x ok)
    then show ?thesis using r by (auto simp: waits_or_flushed_def dest!: wb_Push_frame(1))
  next
    case (retry x ok)
    then show ?thesis using r by (auto simp: waits_or_flushed_def dest!: wb_Push_frame(2))
  qed (use r in \<open>auto simp: waits_or_flushed_def wb_Flush_def FlushSync_def wb_Close_def\<close>)
qed

lemma wb_run_waits:
  "wb_run wb0 tr wb \<Longrightarrow> wb_inv (length tr) xs wb0 \<Longrightarrow> waits_or_flushed req xs wb0 \<Longrightarrow> waits_or_flushed req xs wb"
proof (induction rule: wb_run.induct)
  case (snoc tr wb e wb')
  have "wb_inv 1 (xs @ accepted tr) wb" using wb_run_inv [OF snoc.hyps(1), of 1 xs] snoc.prems(1) by simp
  moreover have "wb_inv (length tr) xs wb0" using snoc.prems(1) by (simp add: wb_inv_def)
  ultimately show ?case using wb_step_waits [OF snoc.hyps(2)] snoc.IH snoc.prems(2) by blast
qed

text \<open>When the loop has ended, no request is answered any more.\<close>

lemma wb_step_done:
  assumes "wb_step wb e wb'" "wb_doneCh wb"
  shows "wb_doneCh wb' \<and> wb_answered wb' = wb_answered wb \<and> wb_flushed wb' = wb_flushed wb"
  using assms(1)
proof (cases rule: wb_step.cases)
  case (push x ok)
  then show ?thesis using assms(2) wb_Push_frame(1) [of wb x wb' ok] by simp
next
  case (retry x ok)
  then show ?thesis using assms(2) wb_Push_frame(2) [of wb x wb' ok] by simp
qed (use assms(2) in \<open>auto simp: wb_Flush_def FlushSync_def wb_Close_def\<close>)

lemma wb_run_done:
  "wb_run wb0 tr wb \<Longrightarrow> wb_doneCh wb0 \<Longrightarrow> wb_doneCh wb \<and> wb_answered wb = wb_answered wb0 \<and> wb_flushed wb = wb_flushed wb0"
proof (induction rule: wb_run.induct)
  case (snoc tr wb e wb')
  have d: "wb_doneCh wb" "wb_answered wb = wb_answered wb0" "wb_flushed wb = wb_flushed wb0"
    using snoc.IH [OF snoc.prems] by simp_all
  show ?case using wb_step_done [OF snoc.hyps(2) d(1)] unfolding d(2,3) .
qed simp

text \<open>
  C16: The flusher of a write buffer delivers every accepted item exactly once and in order, under any
  interleaving of pushes, signals, requests and rounds of its loop: the batches it has passed on,
  followed by what the ring holds, are the accepted items, and no batch is empty or larger than the
  batch size. Every case its \<open>select\<close> may take returns. When the loop ends, everything accepted has been
  passed on. A request by \<open>FlushSync\<close> that is answered has had everything flushed that was accepted
  before it; but once the loop has ended no request is answered any more, although the channel still
  takes requests while it has room: a \<open>FlushSync\<close> after \<open>Close\<close> may block for ever.
\<close>

theorem flusher_delivers_in_order:
  assumes cap: "capacity \<noteq> 1" "capacity \<le> 2 ^ 32" and n: "length (tr @ tr') < 2 ^ 62"
    and r: "wb_run (NewWriteBuffer zero capacity batchSize) tr wb" and r': "wb_run (FlushSync wb req) tr' wb'"
    and fresh: "req \<notin> wb_answered wb"
  shows "concat (wb_flushed wb) @ rb_queue (wb_ring wb) = accepted tr \<and>
    (\<forall>b \<in> set (wb_flushed wb). b \<noteq> [] \<and> int (length b) \<le> max 1 (wb_batchSize wb)) \<and>
    (\<forall>c. \<exists>wb2. flushLoop wb c = Some wb2 \<and> (c = StopCase \<longrightarrow> wb_doneCh wb2 \<and> concat (wb_flushed wb2) = accepted tr)) \<and>
    (req \<in> wb_answered wb' \<longrightarrow> prefix (accepted tr) (concat (wb_flushed wb'))) \<and>
    (wb_doneCh wb \<longrightarrow> req \<notin> wb_answered wb' \<and> (sync_room wb \<longrightarrow> req \<in> set (wb_syncCh (FlushSync wb req))))"
proof -
  have "wb_inv (length tr + length tr') [] (NewWriteBuffer zero capacity batchSize)"
    by (rule NewWriteBuffer_inv [OF cap]) (use n in simp)
  from wb_run_inv [OF r this] have i: "wb_inv (length tr') (accepted tr) wb" by simp
  have "wb_inv (length tr') (accepted tr) (FlushSync wb req)" using i by (simp add: FlushSync_def)
  moreover have "waits_or_flushed req (accepted tr) (FlushSync wb req)"
    using fresh by (simp add: waits_or_flushed_def FlushSync_def)
  ultimately have w: "waits_or_flushed req (accepted tr) wb'" by (rule wb_run_waits [OF r'])
  have "\<exists>wb2. flushLoop wb c = Some wb2 \<and> (c = StopCase \<longrightarrow> wb_doneCh wb2 \<and> concat (wb_flushed wb2) = accepted tr)" for c
    using flushLoop_inv [OF i, of c] by (cases c) (auto simp: bind_eq_Some_conv)
  moreover have "req \<notin> wb_answered wb'" if "wb_doneCh wb"
    using wb_run_done [OF r'] that fresh by (simp add: FlushSync_def)
  ultimately show ?thesis using i w by (auto simp: wb_inv_def waits_or_flushed_def FlushSync_def)
qed

theorem flusher_delivers_in_order_witness:
  "\<exists>wb :: nat WriteBuffer. wb_run (NewWriteBuffer 0 4 2) [Stopping, Loop StopCase] wb \<and> wb_doneCh wb \<and> sync_room wb \<and>
    (\<forall>tr wb'. length tr < 1000 \<longrightarrow> wb_run (FlushSync wb 7) tr wb' \<longrightarrow> 7 \<notin> wb_answered wb')"
proof -
  let ?w0 = "NewWriteBuffer (0 :: nat) 4 2"
  have w1: "wb_run ?w0 [Stopping] (wb_Close ?w0)"
    using wb_run.snoc [OF wb_run.none wb_step.stopping, of ?w0] by (simp add: NewWriteBuffer_def)
  have i: "wb_inv 5 [] (wb_Close ?w0)" using NewWriteBuffer_inv [of 4 5 0 2] by (simp add: wb_Close_def)
  obtain wb where wb: "flushLoop (wb_Close ?w0) StopCase = Some wb" "wb_syncCh wb = []" "wb_answered wb = {}"
    using flushLoop_inv [OF i, of StopCase] by (auto simp: wb_Close_def NewWriteBuffer_def)
  then have d: "wb_doneCh wb" by (auto simp: bind_eq_Some_conv)
  have r: "wb_run ?w0 ([Stopping] @ [Loop StopCase]) wb"
    by (rule wb_run.snoc [OF w1 wb_step.loop [OF _ _ wb(1)]]) (simp_all add: wb_Close_def NewWriteBuffer_def)
  have "7 \<notin> wb_answered wb'" if "length tr < 1000" "wb_run (FlushSync wb 7) tr wb'" for tr wb'
    using flusher_delivers_in_order [OF _ _ _ r that(2)] that(1) d wb(3) by simp
  then show ?thesis using r d wb(2) by (auto simp: sync_room_def)
qed

end
