(* ===== verification/RingThreads.thy ===== *)
theory RingThreads
  imports RingBuffer
begin

text \<open>
  \<open>internal/buffer/ring.go\<close> once more, at the granularity of its atomic accesses: any number of
  goroutines run \<open>Push\<close> and \<open>Pop\<close> on one ring, and a schedule says who takes the next step. A step
  is one load, one compare-and-swap or one store of the source. The theorems show that the
  counters hand out every position once, that a \<open>Pop\<close> returns the item of its position whatever the
  schedule, what a refused \<open>Push\<close> and an empty \<open>Pop\<close> mean, and that the ring at rest is the one the
  atomic model of \<open>RingBuffer\<close> describes.
\<close>

subsection \<open>The steps of a goroutine\<close>

text \<open>
  The point a goroutine has reached: the constructor names its next access of the shared ring, the
  arguments are its local variables.
\<close>

datatype 'a rb_pc =
    Idle
  | PushTail 'a          \<comment> \<open>\<open>tail := rb.tail.Load()\<close>\<close>
  | PushSeq 'a u64       \<comment> \<open>\<open>seq := rb.data[idx].seq.Load()\<close> and the comparisons\<close>
  | PushCas 'a u64       \<comment> \<open>\<open>rb.tail.CompareAndSwap(tail, tail+1)\<close>\<close>
  | PushWrite 'a u64     \<comment> \<open>\<open>rb.data[idx].value = item\<close>\<close>
  | PushStore 'a u64     \<comment> \<open>\<open>rb.data[idx].seq.Store(tail + 1)\<close>\<close>
  | Pushed bool          \<comment> \<open>\<open>Push\<close> has returned\<close>
  | PopHead
  | PopSeq u64
  | PopCas u64
  | PopRead u64
  | PopClear u64 'a
  | PopStore u64 'a
  | Popped "'a option"   \<comment> \<open>\<open>Pop\<close> has returned\<close>

definition rb_idx :: "'a RingBuffer \<Rightarrow> u64 \<Rightarrow> nat" where
  "rb_idx rb w = unat (w AND rb_mask rb)"

fun push_atom :: "'a RingBuffer \<Rightarrow> 'a rb_pc \<Rightarrow> 'a RingBuffer \<times> 'a rb_pc" where
  "push_atom rb (PushTail item) = (rb, PushSeq item (rb_tail rb))"
| "push_atom rb (PushSeq item tail) =
     (let seq = snd (rb_data rb ! rb_idx rb tail)
      in (rb, if seq = tail then PushCas item tail
              else if seq < tail then Pushed False
              else PushTail item))"
| "push_atom rb (PushCas item tail) =
     (if rb_tail rb = tail then (rb\<lparr>rb_tail := tail + 1\<rparr>, PushWrite item tail)
      else (rb, PushTail item))"
| "push_atom rb (PushWrite item tail) =
     (let idx = rb_idx rb tail
      in (rb\<lparr>rb_data := (rb_data rb)[idx := (item, snd (rb_data rb ! idx))]\<rparr>, PushStore item tail))"
| "push_atom rb (PushStore item tail) =
     (let idx = rb_idx rb tail
      in (rb\<lparr>rb_data := (rb_data rb)[idx := (fst (rb_data rb ! idx), tail + 1)]\<rparr>, Pushed True))"
| "push_atom rb pc = (rb, pc)"

fun pop_atom :: "'a RingBuffer \<Rightarrow> 'a rb_pc \<Rightarrow> 'a RingBuffer \<times> 'a rb_pc" where
  "pop_atom rb PopHead = (rb, PopSeq (rb_head rb))"
| "pop_atom rb (PopSeq head) =
     (let seq = snd (rb_data rb ! rb_idx rb head)
      in (rb, if seq = head + 1 then PopCas head
              else if seq = head then Popped None
              else PopHead))"
| "pop_atom rb (PopCas head) =
     (if rb_head rb = head then (rb\<lparr>rb_head := head + 1\<rparr>, PopRead head)
      else (rb, PopHead))"
| "pop_atom rb (PopRead head) = (rb, PopClear head (fst (rb_data rb ! rb_idx rb head)))"
| "pop_atom rb (PopClear head val) =
     (let idx = rb_idx rb head
      in (rb\<lparr>rb_data := (rb_data rb)[idx := (rb_zero rb, snd (rb_data rb ! idx))]\<rparr>, PopStore head val))"
| "pop_atom rb (PopStore head val) =
     (let idx = rb_idx rb head
      in (rb\<lparr>rb_data := (rb_data rb)[idx := (fst (rb_data rb ! idx), head + of_nat (length (rb_data rb)))]\<rparr>,
          Popped (Some val)))"
| "pop_atom rb pc = (rb, pc)"

fun in_push :: "'a rb_pc \<Rightarrow> bool" where
  "in_push (PushTail _) = True"
| "in_push (PushSeq _ _) = True"
| "in_push (PushCas _ _) = True"
| "in_push (PushWrite _ _) = True"
| "in_push (PushStore _ _) = True"
| "in_push _ = False"

fun in_pop :: "'a rb_pc \<Rightarrow> bool" where
  "in_pop PopHead = True"
| "in_pop (PopSeq _) = True"
| "in_pop (PopCas _) = True"
| "in_pop (PopRead _) = True"
| "in_pop (PopClear _ _) = True"
| "in_pop (PopStore _ _) = True"
| "in_pop _ = False"

definition rb_atom :: "'a RingBuffer \<Rightarrow> 'a rb_pc \<Rightarrow> 'a RingBuffer \<times> 'a rb_pc" where
  "rb_atom rb pc = (if in_push pc then push_atom rb pc else pop_atom rb pc)"

subsection \<open>Schedules\<close>

text \<open>
  The state of the whole program: the ring, the point every goroutine has reached, and three
  ledgers that no step reads: the items in the order in which their positions were claimed, and the
  positions and items for which a \<open>Push\<close> has returned true and a \<open>Pop\<close> has returned the item.
\<close>

record 'a rb_sys =
  sys_ring :: "'a RingBuffer"
  sys_pcs :: "nat \<Rightarrow> 'a rb_pc"
  sys_claimed :: "'a list"
  sys_acked :: "(nat \<times> 'a) list"
  sys_popped :: "(nat \<times> 'a) list"

datatype 'a rb_event =
    CallPush nat 'a
  | CallPop nat
  | Run nat

definition at_rest :: "'a rb_pc \<Rightarrow> bool" where
  "at_rest pc = (\<not> in_push pc \<and> \<not> in_pop pc)"

definition new_claim :: "'a rb_pc \<Rightarrow> 'a list" where
  "new_claim pc' = (case pc' of PushWrite item _ \<Rightarrow> [item] | _ \<Rightarrow> [])"

definition new_ack :: "'a rb_pc \<Rightarrow> (nat \<times> 'a) list" where
  "new_ack pc = (case pc of PushStore item tail \<Rightarrow> [(unat tail, item)] | _ \<Rightarrow> [])"

definition new_pop :: "'a rb_pc \<Rightarrow> (nat \<times> 'a) list" where
  "new_pop pc = (case pc of PopStore head val \<Rightarrow> [(unat head, val)] | _ \<Rightarrow> [])"

definition sys_run :: "nat \<Rightarrow> 'a rb_sys \<Rightarrow> 'a rb_sys" where
  "sys_run p s =
     (let pc = sys_pcs s p; (rb, pc') = rb_atom (sys_ring s) pc
      in \<lparr>sys_ring = rb, sys_pcs = (sys_pcs s)(p := pc'),
          sys_claimed = sys_claimed s @ new_claim pc',
          sys_acked = sys_acked s @ new_ack pc,
          sys_popped = sys_popped s @ new_pop pc\<rparr>)"

definition sys_call :: "nat \<Rightarrow> 'a rb_pc \<Rightarrow> 'a rb_sys \<Rightarrow> 'a rb_sys" where
  "sys_call p pc s = (if at_rest (sys_pcs s p) then s\<lparr>sys_pcs := (sys_pcs s)(p := pc)\<rparr> else s)"

fun sys_event :: "'a rb_event \<Rightarrow> 'a rb_sys \<Rightarrow> 'a rb_sys" where
  "sys_event (CallPush p item) s = sys_call p (PushTail item) s"
| "sys_event (CallPop p) s = sys_call p PopHead s"
| "sys_event (Run p) s = sys_run p s"

definition sys_start :: "'a \<Rightarrow> int \<Rightarrow> 'a rb_sys" where
  "sys_start zero capacity =
     \<lparr>sys_ring = NewRingBuffer zero capacity, sys_pcs = (\<lambda>_. Idle), sys_claimed = [], sys_acked = [], sys_popped = []\<rparr>"

definition sys_schedule :: "'a rb_event list \<Rightarrow> 'a rb_sys \<Rightarrow> 'a rb_sys" where
  "sys_schedule es s = fold sys_event es s"

subsection \<open>The ring while positions are being filled and emptied\<close>

text \<open>
  \<open>W\<close> are the positions that a \<open>Push\<close> has claimed and not yet published, \<open>R\<close> those that a \<open>Pop\<close> has
  claimed and not yet released, \<open>ps\<close> the items by position. Every slot serves one position of the
  last lap before \<open>tail\<close>; its sequence number is that position while it is being filled, the next
  one while it is filled or being emptied, and the position of the next lap after that.
\<close>

definition lap_seq :: "'a RingBuffer \<Rightarrow> nat set \<Rightarrow> nat set \<Rightarrow> nat \<Rightarrow> nat" where
  "lap_seq rb W R k =
     (if k \<in> W then k else if unat (rb_head rb) \<le> k \<or> k \<in> R then k + 1 else k + length (rb_data rb))"

definition ring_shape :: "'a RingBuffer \<Rightarrow> bool" where
  "ring_shape rb \<longleftrightarrow>
     (\<exists>k. length (rb_data rb) = 2 ^ k \<and> 1 \<le> k \<and> k \<le> 32) \<and>
     rb_mask rb = of_nat (length (rb_data rb) - 1)"

definition ring_counters :: "'a RingBuffer \<Rightarrow> nat set \<Rightarrow> nat set \<Rightarrow> 'a list \<Rightarrow> bool" where
  "ring_counters rb W R ps \<longleftrightarrow>
     unat (rb_tail rb) = length ps \<and>
     unat (rb_head rb) \<le> length ps \<and> length ps \<le> unat (rb_head rb) + length (rb_data rb) \<and>
     length ps + length (rb_data rb) < 2 ^ 64 \<and>
     (\<forall>k\<in>W. unat (rb_head rb) \<le> k \<and> k < length ps) \<and>
     (\<forall>k\<in>R. k < unat (rb_head rb) \<and> length ps \<le> k + length (rb_data rb))"

definition ring_slots :: "'a RingBuffer \<Rightarrow> nat set \<Rightarrow> nat set \<Rightarrow> 'a list \<Rightarrow> bool" where
  "ring_slots rb W R ps \<longleftrightarrow>
     (\<forall>m. length ps \<le> m \<longrightarrow> m < length (rb_data rb) \<longrightarrow> snd (rb_slot rb m) = of_nat m) \<and>
     (\<forall>k<length ps. length ps \<le> k + length (rb_data rb) \<longrightarrow> snd (rb_slot rb k) = of_nat (lap_seq rb W R k)) \<and>
     (\<forall>k<length ps. unat (rb_head rb) \<le> k \<longrightarrow> k \<notin> W \<longrightarrow> fst (rb_slot rb k) = ps ! k)"

definition ring_ok :: "'a RingBuffer \<Rightarrow> nat set \<Rightarrow> nat set \<Rightarrow> 'a list \<Rightarrow> bool" where
  "ring_ok rb W R ps \<longleftrightarrow> ring_shape rb \<and> ring_counters rb W R ps \<and> ring_slots rb W R ps"

text \<open>The slot that \<open>tail\<close> points at can be claimed.\<close>

definition tail_free :: "'a RingBuffer \<Rightarrow> nat set \<Rightarrow> 'a list \<Rightarrow> bool" where
  "tail_free rb R ps \<longleftrightarrow>
     length ps < length (rb_data rb) \<or>
     length ps - length (rb_data rb) < unat (rb_head rb) \<and> length ps - length (rb_data rb) \<notin> R"

lemma ring_shape_size: "ring_shape rb \<Longrightarrow> 2 \<le> length (rb_data rb)"
proof -
  assume "ring_shape rb"
  then obtain k where k: "length (rb_data rb) = 2 ^ k" "1 \<le> k" by (auto simp: ring_shape_def)
  then show ?thesis using power_increasing [of 1 k "2::nat"] by simp
qed

lemma ring_idx: "ring_shape rb \<Longrightarrow> rb_idx rb w = unat w mod length (rb_data rb)"
  using mask_mod [of "length (rb_data rb)" _ w] by (auto simp: ring_shape_def rb_idx_def)

lemma ring_slot: "ring_shape rb \<Longrightarrow> rb_data rb ! rb_idx rb w = rb_slot rb (unat w)"
  by (simp add: ring_idx rb_slot_def)

lemma slot_update:
  assumes "ring_shape rb" "j < i + length (rb_data rb)" "i < j + length (rb_data rb)"
  shows "rb_slot (rb\<lparr>rb_data := (rb_data rb)[i mod length (rb_data rb) := c]\<rparr>) j = (if i = j then c else rb_slot rb j)"
proof -
  have n: "0 < length (rb_data rb)" using ring_shape_size [OF assms(1)] by linarith
  have "i \<noteq> j \<Longrightarrow> i mod length (rb_data rb) \<noteq> j mod length (rb_data rb)"
    using mod_inj [of i j] mod_inj [of j i] assms(2,3) by (metis linorder_neqE_nat)
  then show ?thesis using n by (auto simp: rb_slot_def nth_list_update)
qed

lemma slot_lap: "rb_slot rb (k + length (rb_data rb)) = rb_slot rb k"
  by (simp add: rb_slot_def)

lemma tail_seq:
  assumes "ring_ok rb W R ps"
  shows "snd (rb_slot rb (length ps)) =
    of_nat (if length ps < length (rb_data rb) then length ps
            else lap_seq rb W R (length ps - length (rb_data rb)))"
proof (cases "length ps < length (rb_data rb)")
  case True
  then show ?thesis using assms by (simp add: ring_ok_def ring_slots_def)
next
  case False
  let ?k = "length ps - length (rb_data rb)"
  have n: "2 \<le> length (rb_data rb)" using assms by (auto simp: ring_ok_def intro: ring_shape_size)
  have "rb_slot rb (length ps) = rb_slot rb ?k" using slot_lap [of rb ?k] False by simp
  moreover have "?k < length ps" "length ps \<le> ?k + length (rb_data rb)" using False n by linarith+
  moreover have "rb_data rb \<noteq> []" using n by auto
  ultimately show ?thesis using assms False by (simp add: ring_ok_def ring_slots_def)
qed

text \<open>The six accesses that change the ring.\<close>

lemma ok_claim_tail:
  assumes ok: "ring_ok rb W R ps" and free: "tail_free rb R ps"
    and room: "length ps + 1 + length (rb_data rb) < 2 ^ 64"
  shows "ring_ok (rb\<lparr>rb_tail := rb_tail rb + 1\<rparr>) (insert (length ps) W) R (ps @ [x])"
proof -
  let ?rb = "rb\<lparr>rb_tail := rb_tail rb + 1\<rparr>" and ?n = "length (rb_data rb)" and ?t = "length ps"
  let ?W = "insert ?t W"
  have shape: "ring_shape rb" and cnt: "ring_counters rb W R ps" and slots: "ring_slots rb W R ps"
    using ok by (auto simp: ring_ok_def)
  have n: "2 \<le> ?n" by (rule ring_shape_size [OF shape])
  have sl: "rb_slot ?rb = rb_slot rb" by (rule ext) (simp add: rb_slot_def)
  have t: "unat (rb_tail rb + 1) = ?t + 1"
    using unat_Suc_small [of "rb_tail rb"] cnt room by (simp add: ring_counters_def)
  have cnt': "ring_counters ?rb ?W R (ps @ [x])"
  proof -
    have R: "?t + 1 \<le> k + ?n" if "k \<in> R" for k
    proof -
      have "?t \<le> k + ?n" using cnt that by (simp add: ring_counters_def)
      moreover have "?t \<noteq> k + ?n" using free that by (auto simp: tail_free_def)
      ultimately show ?thesis by linarith
    qed
    have "?t + 1 \<le> unat (rb_head rb) + ?n" using free by (auto simp: tail_free_def)
    then show ?thesis using cnt room t R by (auto simp: ring_counters_def less_SucI)
  qed
  have "snd (rb_slot rb k) = of_nat (lap_seq ?rb ?W R k)" if k: "k < ?t + 1" "?t + 1 \<le> k + ?n" for k
  proof (cases "k = ?t")
    case True
    have "(if ?t < ?n then ?t else lap_seq rb W R (?t - ?n)) = ?t"
      using free cnt by (auto simp: tail_free_def lap_seq_def ring_counters_def)
    then show ?thesis using tail_seq [OF ok] True by (simp add: lap_seq_def)
  next
    case False
    then have "snd (rb_slot rb k) = of_nat (lap_seq rb W R k)" using slots k by (simp add: ring_slots_def)
    then show ?thesis using False by (simp add: lap_seq_def)
  qed
  then have seqs: "\<forall>k<length (ps @ [x]). length (ps @ [x]) \<le> k + ?n \<longrightarrow> snd (rb_slot rb k) = of_nat (lap_seq ?rb ?W R k)"
    by simp
  have fresh: "\<forall>m. length (ps @ [x]) \<le> m \<longrightarrow> m < ?n \<longrightarrow> snd (rb_slot rb m) = of_nat m"
    using slots by (simp add: ring_slots_def)
  have vals: "\<forall>k<length (ps @ [x]). unat (rb_head rb) \<le> k \<longrightarrow> k \<notin> ?W \<longrightarrow> fst (rb_slot rb k) = (ps @ [x]) ! k"
    using slots by (simp add: ring_slots_def nth_append)
  have "ring_slots ?rb ?W R (ps @ [x])"
    unfolding ring_slots_def sl using fresh seqs vals by simp
  then show ?thesis using shape cnt' by (simp add: ring_ok_def ring_shape_def)
qed

lemma ok_claim_head:
  assumes ok: "ring_ok rb W R ps" and head: "unat (rb_head rb) < length ps" "unat (rb_head rb) \<notin> W"
  shows "ring_ok (rb\<lparr>rb_head := rb_head rb + 1\<rparr>) W (insert (unat (rb_head rb)) R) ps"
proof -
  let ?rb = "rb\<lparr>rb_head := rb_head rb + 1\<rparr>" and ?h = "unat (rb_head rb)"
  have shape: "ring_shape rb" and cnt: "ring_counters rb W R ps" and slots: "ring_slots rb W R ps"
    using ok by (auto simp: ring_ok_def)
  have sl: "rb_slot ?rb = rb_slot rb" by (rule ext) (simp add: rb_slot_def)
  have h: "unat (rb_head rb + 1) = ?h + 1"
    using unat_Suc_small [of "rb_head rb"] cnt head(1) by (simp add: ring_counters_def)
  have W: "\<And>k. k \<in> W \<Longrightarrow> ?h + 1 \<le> k"
    using cnt head(2) by (auto simp: ring_counters_def Suc_le_eq intro: le_neq_implies_less)
  have cnt': "ring_counters ?rb W (insert ?h R) ps"
    using cnt head(1) W unfolding ring_counters_def by (auto simp: h less_SucI)
  have "lap_seq ?rb W (insert ?h R) k = lap_seq rb W R k" for k
    using W by (auto simp: lap_seq_def h)
  then have "ring_slots ?rb W (insert ?h R) ps"
    using slots unfolding ring_slots_def sl by (auto simp: h)
  then show ?thesis using shape cnt' by (simp add: ring_ok_def ring_shape_def)
qed

text \<open>An access to the slot of a position that a goroutine holds leaves the other slots alone.\<close>

definition set_slot :: "'a RingBuffer \<Rightarrow> nat \<Rightarrow> 'a \<times> u64 \<Rightarrow> 'a RingBuffer" where
  "set_slot rb k c = rb\<lparr>rb_data := (rb_data rb)[k mod length (rb_data rb) := c]\<rparr>"

lemma set_slot_simps [simp]:
  "length (rb_data (set_slot rb k c)) = length (rb_data rb)" "rb_head (set_slot rb k c) = rb_head rb"
  "rb_tail (set_slot rb k c) = rb_tail rb" "rb_mask (set_slot rb k c) = rb_mask rb"
  "rb_zero (set_slot rb k c) = rb_zero rb"
  by (simp_all add: set_slot_def)

lemma set_slot_lap:
  assumes "ring_shape rb" "k < T" "T \<le> k + length (rb_data rb)" "T \<le> j + length (rb_data rb)" "j < T"
  shows "rb_slot (set_slot rb k c) j = (if j = k then c else rb_slot rb j)"
  using slot_update [OF assms(1), of j k c] assms(2-5) by (auto simp: set_slot_def)

lemma set_slot_fresh:
  assumes "ring_shape rb" "k < T" "T \<le> j" "j < length (rb_data rb)"
  shows "rb_slot (set_slot rb k c) j = rb_slot rb j"
  using slot_update [OF assms(1), of j k c] assms(2-4) by (auto simp: set_slot_def)

lemma ok_set_slot:
  assumes ok: "ring_ok rb W R ps" and k: "k < length ps" "length ps \<le> k + length (rb_data rb)"
    and seq: "snd c = of_nat (lap_seq rb W' R' k)"
    and val: "unat (rb_head rb) \<le> k \<Longrightarrow> k \<notin> W' \<Longrightarrow> fst c = ps ! k"
    and W: "W' \<subseteq> W" "W \<subseteq> insert k W'" and R: "R' \<subseteq> R" "R \<subseteq> insert k R'"
  shows "ring_ok (set_slot rb k c) W' R' ps"
proof -
  have shape: "ring_shape rb" and cnt: "ring_counters rb W R ps" and slots: "ring_slots rb W R ps"
    using ok by (auto simp: ring_ok_def)
  have cnt': "ring_counters (set_slot rb k c) W' R' ps"
    using cnt W(1) R(1) unfolding ring_counters_def by (auto simp: subset_iff)
  have lap: "lap_seq rb W' R' j = lap_seq rb W R j" if "j \<noteq> k" for j
    using that W R by (auto simp: lap_seq_def)
  have lap': "lap_seq (set_slot rb k c) = lap_seq rb" by (intro ext) (simp add: lap_seq_def)
  have up: "rb_slot (set_slot rb k c) j = (if j = k then c else rb_slot rb j)"
    if "length ps \<le> j + length (rb_data rb)" "j < length ps" for j
    using set_slot_lap [OF shape k that] .
  have hd: "length ps \<le> unat (rb_head rb) + length (rb_data rb)" using cnt by (simp add: ring_counters_def)
  have "ring_slots (set_slot rb k c) W' R' ps"
    unfolding ring_slots_def lap' set_slot_simps
  proof (intro conjI allI impI)
    fix m assume m: "length ps \<le> m" "m < length (rb_data rb)"
    then show "snd (rb_slot (set_slot rb k c) m) = of_nat m"
      using set_slot_fresh [OF shape k(1) m] slots by (simp add: ring_slots_def)
  next
    fix j assume j: "j < length ps" "length ps \<le> j + length (rb_data rb)"
    then show "snd (rb_slot (set_slot rb k c) j) = of_nat (lap_seq rb W' R' j)"
      using up [OF j(2,1)] seq slots lap [of j] by (simp add: ring_slots_def)
  next
    fix j assume j: "j < length ps" "unat (rb_head rb) \<le> j" "j \<notin> W'"
    then have "length ps \<le> j + length (rb_data rb)" using hd by simp
    then show "fst (rb_slot (set_slot rb k c) j) = ps ! j"
      using up [of j] j val slots W by (auto simp: ring_slots_def)
  qed
  then show ?thesis using shape cnt' by (simp add: ring_ok_def ring_shape_def)
qed

subsection \<open>What a goroutine may rely on\<close>

fun claim_push :: "'a rb_pc \<Rightarrow> nat option" where
  "claim_push (PushWrite _ tail) = Some (unat tail)"
| "claim_push (PushStore _ tail) = Some (unat tail)"
| "claim_push _ = None"

fun claim_pop :: "'a rb_pc \<Rightarrow> nat option" where
  "claim_pop (PopRead head) = Some (unat head)"
| "claim_pop (PopClear head _) = Some (unat head)"
| "claim_pop (PopStore head _) = Some (unat head)"
| "claim_pop _ = None"

fun pc_ok :: "'a RingBuffer \<Rightarrow> nat set \<Rightarrow> nat set \<Rightarrow> 'a list \<Rightarrow> 'a rb_pc \<Rightarrow> bool" where
  "pc_ok rb W R ps (PushSeq item tail) = (unat tail \<le> length ps)"
| "pc_ok rb W R ps (PushCas item tail) =
     (unat tail \<le> length ps \<and> (unat tail = length ps \<longrightarrow> tail_free rb R ps))"
| "pc_ok rb W R ps (PushWrite item tail) = (unat tail \<in> W \<and> ps ! unat tail = item)"
| "pc_ok rb W R ps (PushStore item tail) =
     (unat tail \<in> W \<and> ps ! unat tail = item \<and> fst (rb_slot rb (unat tail)) = item)"
| "pc_ok rb W R ps (PopSeq head) = (unat head \<le> unat (rb_head rb))"
| "pc_ok rb W R ps (PopCas head) =
     (unat head \<le> unat (rb_head rb) \<and>
      (unat head = unat (rb_head rb) \<longrightarrow> unat head < length ps \<and> unat head \<notin> W))"
| "pc_ok rb W R ps (PopRead head) = (unat head \<in> R \<and> fst (rb_slot rb (unat head)) = ps ! unat head)"
| "pc_ok rb W R ps (PopClear head val) = (unat head \<in> R \<and> val = ps ! unat head)"
| "pc_ok rb W R ps (PopStore head val) = (unat head \<in> R \<and> val = ps ! unat head)"
| "pc_ok rb W R ps pc = True"

text \<open>The accesses of one goroutine keep what the others rely on.\<close>

lemma stable_claim_tail:
  assumes "ring_ok rb W R ps" "pc_ok rb W R ps pc"
  shows "pc_ok (rb\<lparr>rb_tail := t\<rparr>) (insert (length ps) W) R (ps @ [x]) pc"
proof -
  have cnt: "\<And>k. k \<in> W \<Longrightarrow> k < length ps" "\<And>k. k \<in> R \<Longrightarrow> k < length ps"
    using assms(1) by (fastforce simp: ring_ok_def ring_counters_def)+
  show ?thesis using assms(2) cnt by (cases pc) (auto simp: nth_append rb_slot_def)
qed

lemma stable_claim_head:
  assumes "ring_ok rb W R ps" "unat (rb_head rb) < length ps" "pc_ok rb W R ps pc"
  shows "pc_ok (rb\<lparr>rb_head := rb_head rb + 1\<rparr>) W (insert (unat (rb_head rb)) R) ps pc"
proof -
  have "unat (rb_head rb + 1) = unat (rb_head rb) + 1"
    using unat_Suc_small [of "rb_head rb"] assms(1,2) by (simp add: ring_ok_def ring_counters_def)
  then show ?thesis using assms(3) by (cases pc) (auto simp: rb_slot_def tail_free_def)
qed

lemma stable_set_slot:
  assumes ok: "ring_ok rb W R ps" and k: "k < length ps" "length ps \<le> k + length (rb_data rb)"
    and W: "W' \<subseteq> W" "W \<subseteq> insert k W'" and R: "R' \<subseteq> R" "R \<subseteq> insert k R'"
    and pc: "pc_ok rb W R ps pc" "claim_push pc \<noteq> Some k" "claim_pop pc \<noteq> Some k"
  shows "pc_ok (set_slot rb k c) W' R' ps pc"
proof -
  have shape: "ring_shape rb" using ok by (simp add: ring_ok_def)
  have cnt: "j < length ps \<and> length ps \<le> j + length (rb_data rb)" if "j \<in> W \<or> j \<in> R" for j
    using that ok by (fastforce simp: ring_ok_def ring_counters_def)
  have up: "j \<noteq> k \<Longrightarrow> rb_slot (set_slot rb k c) j = rb_slot rb j" if "j \<in> W \<or> j \<in> R" for j
    using set_slot_lap [OF shape k, of j c] cnt [OF that] by simp
  show ?thesis using pc W R up by (cases pc) (auto simp: tail_free_def subset_iff)
qed

subsection \<open>One access\<close>

text \<open>
  What an access of a goroutine at \<open>pc\<close> leads to: the ring and the goroutine are again in order,
  so are all others that hold other positions, and the ledgers record what has changed.
\<close>

definition claims_after :: "('a rb_pc \<Rightarrow> nat option) \<Rightarrow> nat set \<Rightarrow> 'a rb_pc \<Rightarrow> 'a rb_pc \<Rightarrow> nat set" where
  "claims_after f A pc pc' = (A - set_option (f pc)) \<union> set_option (f pc')"

definition atom_sound :: "'a RingBuffer \<Rightarrow> nat set \<Rightarrow> nat set \<Rightarrow> 'a list \<Rightarrow> 'a rb_pc \<Rightarrow>
    'a RingBuffer \<Rightarrow> 'a rb_pc \<Rightarrow> bool" where
  "atom_sound rb W R ps pc rb' pc' \<longleftrightarrow>
     (let W' = claims_after claim_push W pc pc'; R' = claims_after claim_pop R pc pc'; ps' = ps @ new_claim pc'
      in ring_ok rb' W' R' ps' \<and> pc_ok rb' W' R' ps' pc' \<and>
         (\<forall>qc. pc_ok rb W R ps qc \<longrightarrow>
               (claim_push pc = None \<or> claim_push qc \<noteq> claim_push pc) \<longrightarrow>
               (claim_pop pc = None \<or> claim_pop qc \<noteq> claim_pop pc) \<longrightarrow> pc_ok rb' W' R' ps' qc) \<and>
         (\<forall>k. claim_push pc' = Some k \<longrightarrow> claim_push pc = Some k \<or> k \<notin> W) \<and>
         (\<forall>k. claim_pop pc' = Some k \<longrightarrow> claim_pop pc = Some k \<or> k \<notin> R) \<and>
         {..<length ps'} - W' = ({..<length ps} - W) \<union> fst ` set (new_ack pc) \<and>
         {..<unat (rb_head rb')} - R' = ({..<unat (rb_head rb)} - R) \<union> fst ` set (new_pop pc) \<and>
         (\<forall>(k, x)\<in>set (new_ack pc). k \<in> W \<and> x = ps ! k) \<and>
         (\<forall>(k, x)\<in>set (new_pop pc). k \<in> R \<and> x = ps ! k))"

lemma claims_after_none:
  "f pc = None \<Longrightarrow> f pc' = None \<Longrightarrow> claims_after f A pc pc' = A"
  by (simp add: claims_after_def)

lemma claims_after_new:
  "f pc = None \<Longrightarrow> f pc' = Some k \<Longrightarrow> claims_after f A pc pc' = insert k A"
  by (simp add: claims_after_def)

lemma claims_after_keep:
  "f pc = Some k \<Longrightarrow> f pc' = Some k \<Longrightarrow> k \<in> A \<Longrightarrow> claims_after f A pc pc' = A"
  by (auto simp: claims_after_def)

lemma claims_after_drop:
  "f pc = Some k \<Longrightarrow> f pc' = None \<Longrightarrow> claims_after f A pc pc' = A - {k}"
  by (auto simp: claims_after_def)

lemmas claims_after = claims_after_none claims_after_new claims_after_keep claims_after_drop

lemma sound_load:
  assumes "ring_ok rb W R ps" "pc_ok rb W R ps pc'"
    "claim_push pc = None" "claim_push pc' = None" "claim_pop pc' = claim_pop pc" "\<And>k. claim_pop pc = Some k \<Longrightarrow> k \<in> R"
    "new_claim pc' = []" "new_ack pc = []" "new_pop pc = []"
  shows "atom_sound rb W R ps pc rb pc'"
proof -
  have "claims_after claim_push W pc pc' = W" using assms(3,4) by (rule claims_after_none)
  moreover have "claims_after claim_pop R pc pc' = R"
    using assms(5,6) by (auto simp: claims_after_def)
  ultimately show ?thesis using assms by (simp add: atom_sound_def Let_def)
qed

text \<open>The sequence number of a slot tells whether a position can be claimed.\<close>

lemma seq_nat:
  assumes "ring_ok rb W R ps" "m < length ps + length (rb_data rb)" "(of_nat m :: u64) = of_nat l" "l < 2 ^ 64"
  shows "m = l"
proof -
  have "m < 2 ^ 64" using assms(1,2) by (simp add: ring_ok_def ring_counters_def)
  then show ?thesis using assms(3,4) unat_of_nat_u64 by metis
qed

lemma tail_seq_free:
  assumes ok: "ring_ok rb W R ps" and seq: "snd (rb_slot rb (length ps)) = of_nat (length ps)"
  shows "tail_free rb R ps"
proof (cases "length ps < length (rb_data rb)")
  case False
  let ?k = "length ps - length (rb_data rb)"
  have n: "2 \<le> length (rb_data rb)" using ok by (auto simp: ring_ok_def intro: ring_shape_size)
  have lt: "length ps + length (rb_data rb) < 2 ^ 64" using ok by (simp add: ring_ok_def ring_counters_def)
  have le: "lap_seq rb W R ?k < length ps + length (rb_data rb)"
    using False n by (auto simp: lap_seq_def)
  have "lap_seq rb W R ?k = length ps"
    using seq_nat [OF ok le] seq tail_seq [OF ok] False lt by auto
  then show ?thesis using False n by (auto simp: lap_seq_def tail_free_def split: if_splits)
qed (simp add: tail_free_def)

lemma head_seq_filled:
  assumes ok: "ring_ok rb W R ps" and seq: "snd (rb_slot rb (unat (rb_head rb))) = rb_head rb + 1"
  shows "unat (rb_head rb) < length ps \<and> unat (rb_head rb) \<notin> W"
proof -
  let ?h = "unat (rb_head rb)" and ?n = "length (rb_data rb)"
  have n: "2 \<le> ?n" using ok by (auto simp: ring_ok_def intro: ring_shape_size)
  have cnt: "?h \<le> length ps" "length ps \<le> ?h + ?n" "length ps + ?n < 2 ^ 64"
    using ok by (auto simp: ring_ok_def ring_counters_def)
  have seq': "snd (rb_slot rb ?h) = of_nat (?h + 1)" using seq by simp
  show ?thesis
  proof (cases "?h = length ps")
    case True
    define m where "m = (if length ps < ?n then length ps else lap_seq rb W R (length ps - ?n))"
    have "m \<le> length ps" using n by (auto simp: m_def lap_seq_def)
    moreover have "(of_nat m :: u64) = of_nat (?h + 1)" using tail_seq [OF ok] seq' True by (simp only: m_def)
    ultimately have "m = ?h + 1" using seq_nat [OF ok, of m "?h + 1"] cnt n by simp
    then show ?thesis using \<open>m \<le> length ps\<close> True by simp
  next
    case False
    then have lt: "?h < length ps" using cnt by simp
    then have "snd (rb_slot rb ?h) = of_nat (lap_seq rb W R ?h)"
      using ok cnt by (simp add: ring_ok_def ring_slots_def)
    moreover have "?h \<in> W \<Longrightarrow> lap_seq rb W R ?h = ?h" by (simp add: lap_seq_def)
    ultimately have "?h \<in> W \<Longrightarrow> (of_nat ?h :: u64) = of_nat (?h + 1)" using seq' by simp
    then have "?h \<notin> W" using seq_nat [OF ok, of ?h "?h + 1"] lt cnt by fastforce
    then show ?thesis using lt by simp
  qed
qed

lemma sound_PushSeq:
  assumes ok: "ring_ok rb W R ps" and t: "pc_ok rb W R ps (PushSeq x t)"
    and step: "rb_atom rb (PushSeq x t) = (rb', pc')"
  shows "atom_sound rb W R ps (PushSeq x t) rb' pc'"
proof -
  have slot: "rb_data rb ! rb_idx rb t = rb_slot rb (unat t)" using ok by (simp add: ring_ok_def ring_slot)
  have "pc_ok rb W R ps pc'"
  proof (cases "snd (rb_slot rb (unat t)) = t")
    case True
    then have "tail_free rb R ps" if "unat t = length ps"
    proof -
      have "of_nat (length ps) = t" using that by (simp flip: that)
      then show ?thesis using tail_seq_free [OF ok] True that by simp
    qed
    then show ?thesis using step t True by (auto simp: rb_atom_def slot)
  next
    case False
    then show ?thesis using step by (auto simp: rb_atom_def slot split: if_splits)
  qed
  moreover have "rb' = rb" using step by (simp add: rb_atom_def Let_def)
  moreover have "claim_push pc' = None" "claim_pop pc' = None" "new_claim pc' = []"
    using step by (auto simp: rb_atom_def Let_def new_claim_def)
  ultimately show ?thesis using ok by (auto intro!: sound_load simp: new_ack_def new_pop_def)
qed

lemma sound_PopSeq:
  assumes ok: "ring_ok rb W R ps" and h: "pc_ok rb W R ps (PopSeq h)"
    and step: "rb_atom rb (PopSeq h) = (rb', pc')"
  shows "atom_sound rb W R ps (PopSeq h) rb' pc'"
proof -
  have slot: "rb_data rb ! rb_idx rb h = rb_slot rb (unat h)" using ok by (simp add: ring_ok_def ring_slot)
  have "pc_ok rb W R ps pc'"
  proof (cases "snd (rb_slot rb (unat h)) = h + 1")
    case True
    have "unat h < length ps \<and> unat h \<notin> W" if "unat h = unat (rb_head rb)"
    proof -
      have "h = rb_head rb" using that by (simp add: word_unat_eq_iff)
      then show ?thesis using head_seq_filled [OF ok] True by simp
    qed
    then show ?thesis using step h True by (auto simp: rb_atom_def slot)
  next
    case False
    then show ?thesis using step by (auto simp: rb_atom_def slot split: if_splits)
  qed
  moreover have "rb' = rb" using step by (simp add: rb_atom_def Let_def)
  moreover have "claim_push pc' = None" "claim_pop pc' = None" "new_claim pc' = []"
    using step by (auto simp: rb_atom_def Let_def new_claim_def)
  ultimately show ?thesis using ok by (auto intro!: sound_load simp: new_ack_def new_pop_def)
qed

lemma sound_PushCas:
  assumes ok: "ring_ok rb W R ps" and t: "pc_ok rb W R ps (PushCas x t)"
    and step: "rb_atom rb (PushCas x t) = (rb', pc')"
    and room: "length (ps @ new_claim pc') + length (rb_data rb) < 2 ^ 64"
  shows "atom_sound rb W R ps (PushCas x t) rb' pc'"
proof (cases "rb_tail rb = t")
  case False
  then have s: "rb' = rb" "pc' = PushTail x" using step by (auto simp: rb_atom_def)
  show ?thesis unfolding s
    by (intro sound_load [OF ok]) (auto simp: new_ack_def new_pop_def new_claim_def)
next
  case True
  then have s: "rb' = rb\<lparr>rb_tail := rb_tail rb + 1\<rparr>" "pc' = PushWrite x t" using step by (auto simp: rb_atom_def)
  have T: "unat t = length ps" using ok True by (simp add: ring_ok_def ring_counters_def)
  then have free: "tail_free rb R ps" using t by simp
  have room': "length ps + 1 + length (rb_data rb) < 2 ^ 64" using room by (simp add: s new_claim_def)
  have ok': "ring_ok rb' (insert (length ps) W) R (ps @ [x])"
    unfolding s by (rule ok_claim_tail [OF ok free room'])
  have new: "length ps \<notin> W" using ok by (auto simp: ring_ok_def ring_counters_def)
  have others: "pc_ok rb' (insert (length ps) W) R (ps @ [x]) qc" if "pc_ok rb W R ps qc" for qc
    unfolding s by (rule stable_claim_tail [OF ok that])
  have "claims_after claim_push W (PushCas x t) pc' = insert (length ps) W"
    "claims_after claim_pop R (PushCas x t) pc' = R"
    by (simp_all add: claims_after_def s T)
  then show ?thesis using ok' new others T
    by (auto simp: atom_sound_def Let_def s new_claim_def new_ack_def new_pop_def)
qed

lemma sound_PopCas:
  assumes ok: "ring_ok rb W R ps" and h: "pc_ok rb W R ps (PopCas h)"
    and step: "rb_atom rb (PopCas h) = (rb', pc')"
  shows "atom_sound rb W R ps (PopCas h) rb' pc'"
proof (cases "rb_head rb = h")
  case False
  then have s: "rb' = rb" "pc' = PopHead" using step by (auto simp: rb_atom_def)
  show ?thesis unfolding s
    by (intro sound_load [OF ok]) (auto simp: new_ack_def new_pop_def new_claim_def)
next
  case True
  then have s: "rb' = rb\<lparr>rb_head := rb_head rb + 1\<rparr>" "pc' = PopRead h" using step by (auto simp: rb_atom_def)
  have lt: "unat (rb_head rb) < length ps" "unat (rb_head rb) \<notin> W" using h True by auto
  have ok': "ring_ok rb' W (insert (unat h) R) ps"
    unfolding s using ok_claim_head [OF ok lt] True by simp
  have new: "unat h \<notin> R" using ok True by (auto simp: ring_ok_def ring_counters_def)
  have others: "pc_ok rb' W (insert (unat h) R) ps qc" if "pc_ok rb W R ps qc" for qc
    unfolding s using stable_claim_head [OF ok lt(1) that] True by simp
  have val: "fst (rb_slot rb' (unat h)) = ps ! unat h"
    using ok lt True by (simp add: ring_ok_def ring_slots_def s rb_slot_def)
  have h': "unat (rb_head rb') = unat h + 1"
    using unat_Suc_small [of "rb_head rb"] ok lt True by (simp add: s ring_ok_def ring_counters_def)
  have "claims_after claim_push W (PopCas h) pc' = W"
    "claims_after claim_pop R (PopCas h) pc' = insert (unat h) R"
    by (simp_all add: claims_after_def s)
  moreover have "{..<unat h + 1} - insert (unat h) R = {..<unat h} - R" by auto
  ultimately show ?thesis using ok' new others val h' True
    by (simp add: atom_sound_def Let_def s(2) new_claim_def new_ack_def new_pop_def)
qed

text \<open>The four accesses to the slot of a position one holds.\<close>

lemma held_position:
  "ring_ok rb W R ps \<Longrightarrow> k \<in> W \<or> k \<in> R \<Longrightarrow> k < length ps \<and> length ps \<le> k + length (rb_data rb)"
  by (fastforce simp: ring_ok_def ring_counters_def)

lemma held_seq:
  "ring_ok rb W R ps \<Longrightarrow> k \<in> W \<or> k \<in> R \<Longrightarrow> snd (rb_slot rb k) = of_nat (lap_seq rb W R k)"
  using held_position [of rb W R ps k] by (simp add: ring_ok_def ring_slots_def)

lemma held_once: "ring_ok rb W R ps \<Longrightarrow> k \<in> W \<Longrightarrow> k \<notin> R"
  by (fastforce simp: ring_ok_def ring_counters_def)

lemma sound_PushWrite:
  assumes ok: "ring_ok rb W R ps" and t: "pc_ok rb W R ps (PushWrite x t)"
    and step: "rb_atom rb (PushWrite x t) = (rb', pc')"
  shows "atom_sound rb W R ps (PushWrite x t) rb' pc'"
proof -
  let ?k = "unat t"
  have W: "?k \<in> W" "ps ! ?k = x" using t by auto
  have k: "?k < length ps" "length ps \<le> ?k + length (rb_data rb)" using held_position [OF ok] W by auto
  have shape: "ring_shape rb" using ok by (simp add: ring_ok_def)
  define c where "c = (x, snd (rb_slot rb ?k))"
  have s: "rb' = set_slot rb ?k c" "pc' = PushStore x t"
    using step by (simp_all add: rb_atom_def Let_def rb_slot_def set_slot_def c_def ring_idx [OF shape])
  have ok': "ring_ok rb' W R ps"
    unfolding s by (rule ok_set_slot [OF ok k]) (use W held_seq [OF ok, of ?k] in \<open>auto simp: c_def\<close>)
  have others: "pc_ok rb' W R ps qc" if "pc_ok rb W R ps qc" "claim_push qc \<noteq> Some ?k" for qc
  proof -
    have "claim_pop qc \<noteq> Some ?k" using that(1) held_once [OF ok W(1)] by (cases qc) auto
    then show ?thesis unfolding s using that by (intro stable_set_slot [OF ok k]) auto
  qed
  have "fst (rb_slot rb' ?k) = x"
    using set_slot_lap [OF shape k k(2,1)] by (simp add: s c_def)
  moreover have "claims_after claim_push W (PushWrite x t) pc' = W" "claims_after claim_pop R (PushWrite x t) pc' = R"
    using W by (auto simp: claims_after_def s)
  ultimately show ?thesis using ok' others W
    by (simp add: atom_sound_def Let_def s(2) new_claim_def new_ack_def new_pop_def) (simp add: s(1))
qed

lemma sound_PushStore:
  assumes ok: "ring_ok rb W R ps" and t: "pc_ok rb W R ps (PushStore x t)"
    and step: "rb_atom rb (PushStore x t) = (rb', pc')"
  shows "atom_sound rb W R ps (PushStore x t) rb' pc'"
proof -
  let ?k = "unat t"
  have W: "?k \<in> W" "ps ! ?k = x" "fst (rb_slot rb ?k) = x" using t by auto
  have k: "?k < length ps" "length ps \<le> ?k + length (rb_data rb)" using held_position [OF ok] W by auto
  have shape: "ring_shape rb" using ok by (simp add: ring_ok_def)
  define c where "c = (x, t + 1)"
  have s: "rb' = set_slot rb ?k c" "pc' = Pushed True"
    using step W(3) by (simp_all add: rb_atom_def Let_def rb_slot_def set_slot_def c_def ring_idx [OF shape])
  have "unat (rb_head rb) \<le> ?k" using ok W(1) by (simp add: ring_ok_def ring_counters_def)
  then have "lap_seq rb (W - {?k}) R ?k = ?k + 1" by (simp add: lap_seq_def)
  then have ok': "ring_ok rb' (W - {?k}) R ps"
    unfolding s by (intro ok_set_slot [OF ok k]) (use W in \<open>auto simp: c_def\<close>)
  have others: "pc_ok rb' (W - {?k}) R ps qc" if "pc_ok rb W R ps qc" "claim_push qc \<noteq> Some ?k" for qc
  proof -
    have "claim_pop qc \<noteq> Some ?k" using that(1) held_once [OF ok W(1)] by (cases qc) auto
    then show ?thesis unfolding s using that by (intro stable_set_slot [OF ok k]) auto
  qed
  have "claims_after claim_push W (PushStore x t) pc' = W - {?k}" "claims_after claim_pop R (PushStore x t) pc' = R"
    by (auto simp: claims_after_def s)
  moreover have "{..<length ps} - (W - {?k}) = insert ?k ({..<length ps} - W)" using k by auto
  ultimately show ?thesis using ok' others W
    by (simp add: atom_sound_def Let_def s(2) new_claim_def new_ack_def new_pop_def) (simp add: s(1))
qed

lemma sound_PopRead:
  assumes ok: "ring_ok rb W R ps" and h: "pc_ok rb W R ps (PopRead h)"
    and step: "rb_atom rb (PopRead h) = (rb', pc')"
  shows "atom_sound rb W R ps (PopRead h) rb' pc'"
proof -
  have "rb_data rb ! rb_idx rb h = rb_slot rb (unat h)" using ok by (simp add: ring_ok_def ring_slot)
  then have s: "rb' = rb" "pc' = PopClear h (ps ! unat h)" using step h by (auto simp: rb_atom_def)
  show ?thesis unfolding s using h
    by (intro sound_load [OF ok]) (auto simp: new_claim_def new_ack_def new_pop_def)
qed

lemma sound_PopClear:
  assumes ok: "ring_ok rb W R ps" and h: "pc_ok rb W R ps (PopClear h v)"
    and step: "rb_atom rb (PopClear h v) = (rb', pc')"
  shows "atom_sound rb W R ps (PopClear h v) rb' pc'"
proof -
  let ?k = "unat h"
  have R: "?k \<in> R" "v = ps ! ?k" using h by auto
  have k: "?k < length ps" "length ps \<le> ?k + length (rb_data rb)" using held_position [OF ok] R by auto
  have shape: "ring_shape rb" using ok by (simp add: ring_ok_def)
  define c where "c = (rb_zero rb, snd (rb_slot rb ?k))"
  have s: "rb' = set_slot rb ?k c" "pc' = PopStore h v"
    using step by (simp_all add: rb_atom_def Let_def rb_slot_def set_slot_def c_def ring_idx [OF shape])
  have below: "?k < unat (rb_head rb)" using ok R(1) by (simp add: ring_ok_def ring_counters_def)
  have ok': "ring_ok rb' W R ps"
    unfolding s by (rule ok_set_slot [OF ok k]) (use R below held_seq [OF ok, of ?k] in \<open>auto simp: c_def\<close>)
  have others: "pc_ok rb' W R ps qc" if "pc_ok rb W R ps qc" "claim_pop qc \<noteq> Some ?k" for qc
  proof -
    have "claim_push qc \<noteq> Some ?k" using that(1) held_once [OF ok, of ?k] R(1) by (cases qc) auto
    then show ?thesis unfolding s using that by (intro stable_set_slot [OF ok k]) auto
  qed
  have "claims_after claim_push W (PopClear h v) pc' = W" "claims_after claim_pop R (PopClear h v) pc' = R"
    using R by (auto simp: claims_after_def s)
  then show ?thesis using ok' others R
    by (simp add: atom_sound_def Let_def s(2) new_claim_def new_ack_def new_pop_def) (simp add: s(1))
qed

lemma sound_PopStore:
  assumes ok: "ring_ok rb W R ps" and h: "pc_ok rb W R ps (PopStore h v)"
    and step: "rb_atom rb (PopStore h v) = (rb', pc')"
  shows "atom_sound rb W R ps (PopStore h v) rb' pc'"
proof -
  let ?k = "unat h"
  have R: "?k \<in> R" "v = ps ! ?k" using h by auto
  have k: "?k < length ps" "length ps \<le> ?k + length (rb_data rb)" using held_position [OF ok] R by auto
  have shape: "ring_shape rb" using ok by (simp add: ring_ok_def)
  define c where "c = (fst (rb_slot rb ?k), h + of_nat (length (rb_data rb)))"
  have s: "rb' = set_slot rb ?k c" "pc' = Popped (Some v)"
    using step by (simp_all add: rb_atom_def Let_def rb_slot_def set_slot_def c_def ring_idx [OF shape])
  have below: "?k < unat (rb_head rb)" using ok R(1) by (simp add: ring_ok_def ring_counters_def)
  have "?k \<notin> W" using held_once [OF ok, of ?k] R(1) by auto
  then have "lap_seq rb W (R - {?k}) ?k = ?k + length (rb_data rb)" using below by (simp add: lap_seq_def)
  then have ok': "ring_ok rb' W (R - {?k}) ps"
    unfolding s by (intro ok_set_slot [OF ok k]) (use R below in \<open>auto simp: c_def\<close>)
  have others: "pc_ok rb' W (R - {?k}) ps qc" if "pc_ok rb W R ps qc" "claim_pop qc \<noteq> Some ?k" for qc
  proof -
    have "claim_push qc \<noteq> Some ?k" using that(1) held_once [OF ok, of ?k] R(1) by (cases qc) auto
    then show ?thesis unfolding s using that by (intro stable_set_slot [OF ok k]) auto
  qed
  have "claims_after claim_push W (PopStore h v) pc' = W" "claims_after claim_pop R (PopStore h v) pc' = R - {?k}"
    by (auto simp: claims_after_def s)
  moreover have "{..<unat (rb_head rb)} - (R - {?k}) = insert ?k ({..<unat (rb_head rb)} - R)" using below by auto
  ultimately show ?thesis using ok' others R
    by (simp add: atom_sound_def Let_def s(2) new_claim_def new_ack_def new_pop_def) (simp add: s(1))
qed

lemma sound_quiet:
  assumes ok: "ring_ok rb W R ps" and pc: "at_rest pc \<or> pc = PopHead \<or> (\<exists>x. pc = PushTail x)"
    and step: "rb_atom rb pc = (rb', pc')"
  shows "atom_sound rb W R ps pc rb' pc'"
proof -
  have tail: "unat (rb_tail rb) = length ps" using ok by (simp add: ring_ok_def ring_counters_def)
  have "rb' = rb" using step pc by (cases pc) (auto simp: rb_atom_def at_rest_def)
  moreover have "pc_ok rb W R ps pc'" "claim_push pc' = None" "claim_pop pc' = claim_pop pc" "claim_push pc = None"
      "claim_pop pc = None" "new_claim pc' = []" "new_ack pc = []" "new_pop pc = []"
    using step pc tail by (cases pc; auto simp: rb_atom_def at_rest_def new_claim_def new_ack_def new_pop_def)+
  ultimately show ?thesis using ok by (auto intro!: sound_load)
qed

lemma atom_sound:
  assumes ok: "ring_ok rb W R ps" "pc_ok rb W R ps pc" and step: "rb_atom rb pc = (rb', pc')"
    and room: "length (ps @ new_claim pc') + length (rb_data rb) < 2 ^ 64"
  shows "atom_sound rb W R ps pc rb' pc'"
proof (cases "at_rest pc \<or> pc = PopHead \<or> (\<exists>x. pc = PushTail x)")
  case True
  then show ?thesis using sound_quiet [OF ok(1) _ step] by blast
next
  case False
  note sound = sound_PushSeq sound_PushCas sound_PushWrite sound_PushStore
    sound_PopSeq sound_PopCas sound_PopRead sound_PopClear sound_PopStore
  show ?thesis
    by (cases pc) (use False ok step room in
        \<open>auto simp: at_rest_def simp del: pc_ok.simps length_append intro: sound\<close>)
qed

subsection \<open>Any schedule\<close>

definition holders :: "('a rb_pc \<Rightarrow> nat option) \<Rightarrow> (nat \<Rightarrow> 'a rb_pc) \<Rightarrow> nat set" where
  "holders f pcs = {k. \<exists>p. f (pcs p) = Some k}"

definition exclusive :: "('a rb_pc \<Rightarrow> nat option) \<Rightarrow> (nat \<Rightarrow> 'a rb_pc) \<Rightarrow> bool" where
  "exclusive f pcs \<longleftrightarrow> (\<forall>p q k. f (pcs p) = Some k \<longrightarrow> f (pcs q) = Some k \<longrightarrow> p = q)"

lemma holders_upd:
  "exclusive f pcs \<Longrightarrow> holders f (pcs(p := pc')) = claims_after f (holders f pcs) (pcs p) pc'"
  by (auto simp: holders_def exclusive_def claims_after_def)

lemma exclusive_upd:
  "exclusive f pcs \<Longrightarrow> (\<And>k. f pc' = Some k \<Longrightarrow> f (pcs p) = Some k \<or> k \<notin> holders f pcs) \<Longrightarrow>
    exclusive f (pcs(p := pc'))"
  unfolding exclusive_def holders_def by (auto split: if_splits)

text \<open>A ledger lists the positions of a set once, with their items.\<close>

definition ledger :: "'a list \<Rightarrow> nat set \<Rightarrow> (nat \<times> 'a) list \<Rightarrow> bool" where
  "ledger ps A xs \<longleftrightarrow> distinct (map fst xs) \<and> set xs = (\<lambda>k. (k, ps ! k)) ` A"

lemma ledger_append:
  assumes "ledger ps A xs" "A \<subseteq> {..<length ps}" "A' = A \<union> fst ` set ys" "distinct (map fst ys)"
    "\<forall>(k, x)\<in>set ys. k \<notin> A \<and> k < length ps \<and> x = ps ! k"
  shows "ledger (ps @ zs) A' (xs @ ys)"
proof -
  have "set ys = (\<lambda>k. (k, ps ! k)) ` fst ` set ys" using assms(5) by (force simp: image_iff)
  moreover have fst: "fst ` set xs = A" using assms(1) by (auto simp: ledger_def image_image)
  moreover have "(ps @ zs) ! k = ps ! k" if "k \<in> A'" for k
    using that assms(2,3,5) by (auto simp: nth_append)
  moreover have "fst ` set xs \<inter> fst ` set ys = {}" unfolding fst using assms(5) by auto
  ultimately show ?thesis using assms(1,3,4) by (auto simp: ledger_def image_Un image_image)
qed

definition sys_inv :: "'a rb_sys \<Rightarrow> bool" where
  "sys_inv s \<longleftrightarrow>
     (let W = holders claim_push (sys_pcs s); R = holders claim_pop (sys_pcs s);
          rb = sys_ring s; ps = sys_claimed s
      in ring_ok rb W R ps \<and> (\<forall>p. pc_ok rb W R ps (sys_pcs s p)) \<and>
         exclusive claim_push (sys_pcs s) \<and> exclusive claim_pop (sys_pcs s) \<and>
         ledger ps ({..<length ps} - W) (sys_acked s) \<and>
         ledger ps ({..<unat (rb_head rb)} - R) (sys_popped s))"

definition sys_cap :: "'a rb_sys \<Rightarrow> nat" where
  "sys_cap s = length (rb_data (sys_ring s))"

lemma sys_inv_call:
  assumes inv: "sys_inv s" and pc: "pc = PopHead \<or> (\<exists>x. pc = PushTail x)"
  shows "sys_inv (sys_call p pc s)"
proof (cases "at_rest (sys_pcs s p)")
  case False
  then show ?thesis using inv by (simp add: sys_call_def)
next
  case True
  have none: "claim_push (sys_pcs s p) = None" "claim_pop (sys_pcs s p) = None" "claim_push pc = None" "claim_pop pc = None"
    using True pc by (cases "sys_pcs s p"; auto simp: at_rest_def)+
  have ex: "exclusive claim_push (sys_pcs s)" "exclusive claim_pop (sys_pcs s)"
    using inv by (simp_all add: sys_inv_def Let_def)
  have h: "holders f ((sys_pcs s)(p := pc)) = holders f (sys_pcs s)"
    if "exclusive f (sys_pcs s)" "f (sys_pcs s p) = None" "f pc = None" for f
    using holders_upd [OF that(1), of p pc] that by (simp add: claims_after_def)
  have "exclusive claim_push ((sys_pcs s)(p := pc))" "exclusive claim_pop ((sys_pcs s)(p := pc))"
    using ex none by (auto intro: exclusive_upd)
  moreover have "pc_ok rb W R ps pc" for rb W R and ps :: "'a list" using pc by auto
  ultimately show ?thesis
    using inv True h [OF ex(1) none(1,3)] h [OF ex(2) none(2,4)] by (auto simp: sys_inv_def Let_def sys_call_def)
qed

lemma sys_inv_run:
  assumes inv: "sys_inv s" and room: "length (sys_claimed (sys_run p s)) + sys_cap s < 2 ^ 64"
  shows "sys_inv (sys_run p s)"
proof -
  let ?W = "holders claim_push (sys_pcs s)" and ?R = "holders claim_pop (sys_pcs s)"
  let ?rb = "sys_ring s" and ?ps = "sys_claimed s" and ?pc = "sys_pcs s p"
  obtain rb' pc' where step: "rb_atom ?rb ?pc = (rb', pc')" by fastforce
  let ?W' = "claims_after claim_push ?W ?pc pc'" and ?R' = "claims_after claim_pop ?R ?pc pc'"
  let ?ps' = "?ps @ new_claim pc'" and ?pcs' = "(sys_pcs s)(p := pc')"
  have s': "sys_run p s = \<lparr>sys_ring = rb', sys_pcs = ?pcs', sys_claimed = ?ps',
      sys_acked = sys_acked s @ new_ack ?pc, sys_popped = sys_popped s @ new_pop ?pc\<rparr>"
    by (simp add: sys_run_def step Let_def)
  have ok: "ring_ok ?rb ?W ?R ?ps" and pcs: "\<And>q. pc_ok ?rb ?W ?R ?ps (sys_pcs s q)"
    and ex: "exclusive claim_push (sys_pcs s)" "exclusive claim_pop (sys_pcs s)"
    and led: "ledger ?ps ({..<length ?ps} - ?W) (sys_acked s)" "ledger ?ps ({..<unat (rb_head ?rb)} - ?R) (sys_popped s)"
    using inv by (simp_all add: sys_inv_def Let_def)
  have "atom_sound ?rb ?W ?R ?ps ?pc rb' pc'"
    by (rule atom_sound [OF ok pcs step]) (use room in \<open>simp add: s' sys_cap_def\<close>)
  then have snd: "ring_ok rb' ?W' ?R' ?ps'" "pc_ok rb' ?W' ?R' ?ps' pc'"
      "\<And>k. claim_push pc' = Some k \<Longrightarrow> claim_push ?pc = Some k \<or> k \<notin> ?W"
      "\<And>k. claim_pop pc' = Some k \<Longrightarrow> claim_pop ?pc = Some k \<or> k \<notin> ?R"
      "{..<length ?ps'} - ?W' = ({..<length ?ps} - ?W) \<union> fst ` set (new_ack ?pc)"
      "{..<unat (rb_head rb')} - ?R' = ({..<unat (rb_head ?rb)} - ?R) \<union> fst ` set (new_pop ?pc)"
      "\<forall>(k, x)\<in>set (new_ack ?pc). k \<in> ?W \<and> x = ?ps ! k" "\<forall>(k, x)\<in>set (new_pop ?pc). k \<in> ?R \<and> x = ?ps ! k"
    and others: "\<And>qc. pc_ok ?rb ?W ?R ?ps qc \<Longrightarrow> claim_push ?pc = None \<or> claim_push qc \<noteq> claim_push ?pc \<Longrightarrow>
      claim_pop ?pc = None \<or> claim_pop qc \<noteq> claim_pop ?pc \<Longrightarrow> pc_ok rb' ?W' ?R' ?ps' qc"
    unfolding atom_sound_def Let_def by blast+
  have W': "holders claim_push ?pcs' = ?W'" "holders claim_pop ?pcs' = ?R'"
    using holders_upd [OF ex(1)] holders_upd [OF ex(2)] by simp_all
  have "pc_ok rb' ?W' ?R' ?ps' (?pcs' q)" for q
  proof (cases "q = p")
    case True
    then show ?thesis using snd(2) by simp
  next
    case False
    then have "claim_push ?pc = None \<or> claim_push (sys_pcs s q) \<noteq> claim_push ?pc"
      "claim_pop ?pc = None \<or> claim_pop (sys_pcs s q) \<noteq> claim_pop ?pc"
      using ex unfolding exclusive_def by (metis not_None_eq)+
    then show ?thesis using others [OF pcs [of q]] False by simp
  qed
  moreover have "exclusive claim_push ?pcs'" "exclusive claim_pop ?pcs'"
    using exclusive_upd [OF ex(1) snd(3)] exclusive_upd [OF ex(2) snd(4)] by blast+
  moreover have "ledger ?ps' ({..<length ?ps'} - ?W') (sys_acked s @ new_ack ?pc)"
  proof (rule ledger_append [OF led(1)])
    show "\<forall>(k, x)\<in>set (new_ack ?pc). k \<notin> {..<length ?ps} - ?W \<and> k < length ?ps \<and> x = ?ps ! k"
      using snd(7) held_position [OF ok] by fastforce
    show "{..<length ?ps'} - ?W' = ({..<length ?ps} - ?W) \<union> fst ` set (new_ack ?pc)" by (rule snd(5))
  qed (auto simp: new_ack_def split: rb_pc.split)
  moreover have "ledger ?ps' ({..<unat (rb_head rb')} - ?R') (sys_popped s @ new_pop ?pc)"
  proof (rule ledger_append [OF led(2)])
    show "\<forall>(k, x)\<in>set (new_pop ?pc). k \<notin> {..<unat (rb_head ?rb)} - ?R \<and> k < length ?ps \<and> x = ?ps ! k"
      using snd(8) held_position [OF ok] by fastforce
    show "{..<unat (rb_head rb')} - ?R' = ({..<unat (rb_head ?rb)} - ?R) \<union> fst ` set (new_pop ?pc)" by (rule snd(6))
    show "{..<unat (rb_head ?rb)} - ?R \<subseteq> {..<length ?ps}" using ok by (auto simp: ring_ok_def ring_counters_def)
  qed (auto simp: new_pop_def split: rb_pc.split)
  ultimately show ?thesis using snd(1) by (simp add: sys_inv_def Let_def s' W' del: length_append)
qed

lemma sys_inv_start:
  assumes "cap \<noteq> 1" "cap \<le> 2 ^ 32"
  shows "sys_inv (sys_start zero cap)"
proof -
  let ?rb = "NewRingBuffer zero cap"
  have inv: "rb_inv ?rb" and q: "rb_queue ?rb = []" using NewRingBuffer_inv [OF assms] by auto
  have z: "rb_head ?rb = 0" "rb_tail ?rb = 0" by (simp_all add: NewRingBuffer_def Let_def)
  have "ring_ok ?rb {} {} []"
    using inv z by (auto simp: ring_ok_def ring_shape_def ring_counters_def ring_slots_def rb_inv_def)
  then show ?thesis
    using z by (simp add: sys_inv_def Let_def sys_start_def holders_def exclusive_def ledger_def)
qed

lemma sys_event_mono:
  "sys_cap (sys_event e s) = sys_cap s \<and> length (sys_claimed s) \<le> length (sys_claimed (sys_event e s)) \<and>
   length (sys_claimed (sys_event e s)) \<le> length (sys_claimed s) + 1"
proof (cases e)
  case (Run p)
  obtain rb' pc' where step: "rb_atom (sys_ring s) (sys_pcs s p) = (rb', pc')" by fastforce
  have "length (rb_data rb') = sys_cap s"
    using step by (cases "sys_pcs s p") (auto simp: rb_atom_def Let_def sys_cap_def split: if_splits)
  moreover have "length (new_claim pc') \<le> 1" by (simp add: new_claim_def split: rb_pc.split)
  ultimately show ?thesis using Run step by (simp add: sys_run_def sys_cap_def Let_def)
qed (auto simp: sys_call_def sys_cap_def)

lemma sys_inv_event:
  assumes "sys_inv s" "length (sys_claimed (sys_event e s)) + sys_cap s < 2 ^ 64"
  shows "sys_inv (sys_event e s)"
  using assms by (cases e) (auto intro: sys_inv_call sys_inv_run)

lemma sys_inv_schedule:
  "sys_inv s \<Longrightarrow> length (sys_claimed s) + length es + sys_cap s < 2 ^ 64 \<Longrightarrow>
    sys_inv (sys_schedule es s) \<and> sys_cap (sys_schedule es s) = sys_cap s"
proof (induction es arbitrary: s)
  case (Cons e es)
  have m: "sys_cap (sys_event e s) = sys_cap s" "length (sys_claimed (sys_event e s)) \<le> length (sys_claimed s) + 1"
    using sys_event_mono [of e s] by auto
  have "sys_inv (sys_event e s)" by (rule sys_inv_event) (use Cons.prems m in auto)
  then show ?case using Cons.IH [of "sys_event e s"] Cons.prems m by (simp add: sys_schedule_def)
qed (simp add: sys_schedule_def)

fun goroutine :: "'a rb_event \<Rightarrow> nat" where
  "goroutine (CallPush p _) = p"
| "goroutine (CallPop p) = p"
| "goroutine (Run p) = p"

lemma sys_schedule_others:
  "p \<notin> goroutine ` set es \<Longrightarrow> sys_pcs (sys_schedule es s) p = sys_pcs s p"
proof (induction es arbitrary: s)
  case (Cons e es)
  then have "sys_pcs (sys_event e s) p = sys_pcs s p"
    by (cases e) (auto simp: sys_call_def sys_run_def Let_def split: prod.split)
  then show ?case using Cons by (simp add: sys_schedule_def)
qed (simp add: sys_schedule_def)

lemma sys_reachable:
  assumes "cap \<noteq> 1" "cap \<le> 2 ^ 32" "length es < 2 ^ 63"
  shows "sys_inv (sys_schedule es (sys_start zero cap))"
proof -
  have i: "sys_inv (sys_start zero cap)" using assms by (intro sys_inv_start)
  then obtain k where "sys_cap (sys_start zero cap) = 2 ^ k" "k \<le> 32"
    by (auto simp: sys_inv_def Let_def ring_ok_def ring_shape_def sys_cap_def)
  then have "sys_cap (sys_start zero cap) \<le> 2 ^ 32" using power_increasing [of k 32 "2::nat"] by simp
  moreover have "sys_claimed (sys_start zero cap) = []" by (simp add: sys_start_def)
  ultimately show ?thesis using sys_inv_schedule [OF i, of es] assms(3) by simp
qed

subsection \<open>The theorems\<close>

text \<open>The slot of a position below \<open>tail\<close> serves a position at or after it.\<close>

lemma lap_of:
  assumes "(h::nat) < T" "0 < n"
  obtains j where "h \<le> j" "j < T" "T \<le> j + n" "j mod n = h mod n"
proof -
  define m where "m = n * ((T - 1 - h) div n)"
  have "m \<le> T - 1 - h" by (simp add: m_def)
  moreover have "T - 1 - h < m + n"
    unfolding m_def using assms(2)
    by (metis div_mult_mod_eq add.commute add_less_cancel_left mod_less_divisor mult.commute)
  moreover have "(h + m) mod n = h mod n" by (simp add: m_def)
  ultimately show ?thesis using that [of "h + m"] assms(1) by linarith
qed

lemma seq_below_tail:
  assumes ok: "ring_ok rb W R ps" and h: "h < length ps"
  obtains j where "h \<le> j" "j < length ps" "snd (rb_slot rb h) = of_nat (lap_seq rb W R j)"
proof -
  let ?n = "length (rb_data rb)"
  have n: "0 < ?n" using ok ring_shape_size by (fastforce simp: ring_ok_def)
  obtain j where j: "h \<le> j" "j < length ps" "length ps \<le> j + ?n" "j mod ?n = h mod ?n"
    using lap_of [OF h n] by blast
  have "snd (rb_slot rb j) = of_nat (lap_seq rb W R j)" using ok j by (simp add: ring_ok_def ring_slots_def)
  then show ?thesis using that j by (simp add: rb_slot_def)
qed

lemma unat_lap_seq:
  assumes ok: "ring_ok rb W R ps" and j: "j < length ps"
  shows "unat (of_nat (lap_seq rb W R j) :: u64) = lap_seq rb W R j"
proof -
  have "2 \<le> length (rb_data rb)" using ok by (auto simp: ring_ok_def intro: ring_shape_size)
  then have "lap_seq rb W R j < length ps + length (rb_data rb)" using j by (auto simp: lap_seq_def)
  then show ?thesis using ok by (intro unat_of_nat_u64) (simp add: ring_ok_def ring_counters_def)
qed

text \<open>What the number in the slot of \<open>tail\<close> and of \<open>head\<close> can be.\<close>

lemma tail_seq_cases:
  assumes ok: "ring_ok rb W R ps"
  obtains "unat (snd (rb_slot rb (length ps))) = length ps" |
    "unat (snd (rb_slot rb (length ps))) < length ps" "length (rb_data rb) \<le> length ps"
    "length ps = unat (rb_head rb) + length (rb_data rb) \<or> length ps - length (rb_data rb) \<in> R"
proof (cases "length ps < length (rb_data rb)")
  case True
  then have "snd (rb_slot rb (length ps)) = of_nat (length ps)" using tail_seq [OF ok] by simp
  moreover have "length ps < 2 ^ 64" using ok by (simp add: ring_ok_def ring_counters_def)
  ultimately show ?thesis using that(1) unat_of_nat_u64 by simp
next
  case False
  let ?k = "length ps - length (rb_data rb)"
  have n: "2 \<le> length (rb_data rb)" using ok by (auto simp: ring_ok_def intro: ring_shape_size)
  have k: "?k < length ps" using False n by linarith
  have u: "unat (snd (rb_slot rb (length ps))) = lap_seq rb W R ?k"
    using tail_seq [OF ok] False unat_lap_seq [OF ok k] by simp
  have cnt: "length ps \<le> unat (rb_head rb) + length (rb_data rb)" "\<And>j. j \<in> W \<Longrightarrow> unat (rb_head rb) \<le> j"
    using ok by (auto simp: ring_ok_def ring_counters_def)
  show ?thesis
  proof (cases "lap_seq rb W R ?k = length ps")
    case True
    then show ?thesis using that(1) u by simp
  next
    case neq: False
    then have "?k \<in> W \<or> unat (rb_head rb) \<le> ?k \<or> ?k \<in> R" "lap_seq rb W R ?k < length ps"
      using False n by (auto simp: lap_seq_def split: if_splits)
    then show ?thesis using that(2) u False cnt(1) cnt(2) [of ?k] by fastforce
  qed
qed

lemma head_seq_cases:
  assumes ok: "ring_ok rb W R ps" and h: "h \<le> unat (rb_head rb)"
  obtains "h < unat (rb_head rb)" "h < unat (snd (rb_slot rb h))" |
    "h = unat (rb_head rb)" "h < length ps" "unat (snd (rb_slot rb h)) = (if h \<in> W then h else h + 1)" |
    "h = unat (rb_head rb)" "h = length ps" "unat (snd (rb_slot rb h)) = h" |
    "h = unat (rb_head rb)" "h = length ps" "unat (snd (rb_slot rb h)) < h" "length (rb_data rb) \<le> h"
    "h - length (rb_data rb) \<in> R"
proof -
  have cnt: "unat (rb_head rb) \<le> length ps" "length ps \<le> unat (rb_head rb) + length (rb_data rb)"
    "\<And>j. j \<in> W \<Longrightarrow> unat (rb_head rb) \<le> j"
    using ok by (auto simp: ring_ok_def ring_counters_def)
  have n: "2 \<le> length (rb_data rb)" using ok by (auto simp: ring_ok_def intro: ring_shape_size)
  consider "h < unat (rb_head rb)" | "h = unat (rb_head rb)" "h < length ps" | "h = unat (rb_head rb)" "h = length ps"
    using h cnt(1) by linarith
  then show ?thesis
  proof cases
    case 1
    then obtain j where j: "h \<le> j" "j < length ps" "snd (rb_slot rb h) = of_nat (lap_seq rb W R j)"
      using seq_below_tail [OF ok, of h] cnt(1) by auto
    have "h < lap_seq rb W R j" using j(1) 1 n cnt(3) [of j] by (auto simp: lap_seq_def)
    then show ?thesis using that(1) 1 unat_lap_seq [OF ok j(2)] j(3) by simp
  next
    case 2
    then have "snd (rb_slot rb h) = of_nat (lap_seq rb W R h)" using ok cnt by (simp add: ring_ok_def ring_slots_def)
    then show ?thesis using that(2) 2 unat_lap_seq [OF ok 2(2)] by (simp add: lap_seq_def)
  next
    case 3
    show ?thesis
    proof (rule tail_seq_cases [OF ok])
      assume "unat (snd (rb_slot rb (length ps))) = length ps"
      then show ?thesis using that(3) 3 by simp
    next
      assume a: "unat (snd (rb_slot rb (length ps))) < length ps" "length (rb_data rb) \<le> length ps"
        "length ps = unat (rb_head rb) + length (rb_data rb) \<or> length ps - length (rb_data rb) \<in> R"
      then have "length ps - length (rb_data rb) \<in> R" using 3 n by auto
      then show ?thesis using that(4) 3 a by simp
    qed
  qed
qed

lemma sys_run_pc: "sys_pcs (sys_run p s) p = snd (rb_atom (sys_ring s) (sys_pcs s p))"
  by (simp add: sys_run_def Let_def split: prod.split)

text \<open>
  A \<open>Pop\<close> may find the ring empty although a \<open>Push\<close> has returned true: the first goroutine has claimed
  the position in front and not yet stored its item. This is why \<open>flushAll\<close> asks \<open>IsEmpty\<close>, which
  compares the counters, before it stops.
\<close>

definition overtaken_push :: "nat rb_event list" where
  "overtaken_push =
     [CallPush 0 7, Run 0, Run 0, Run 0,
      CallPush 1 8, Run 1, Run 1, Run 1, Run 1, Run 1,
      CallPop 2, Run 2, Run 2]"

lemma acknowledged_item_unseen:
  "let s = sys_schedule overtaken_push (sys_start 0 4)
   in sys_acked s = [(1, 8)] \<and> sys_popped s = [] \<and> sys_pcs s 2 = Popped None \<and> \<not> rb_IsEmpty (sys_ring s)"
  by code_simp

text \<open>
  C28: Whatever the schedule, every position between zero and \<open>tail\<close> was claimed by one \<open>Push\<close>. It has
  been acknowledged, once, or its \<open>Push\<close> is still running; and every position below \<open>head\<close> has been
  returned by one \<open>Pop\<close>, with the item of its \<open>Push\<close>, or its \<open>Pop\<close> is still running. Nothing is lost,
  duplicated or reordered.
\<close>

theorem ring_any_schedule:
  assumes "cap \<noteq> 1" "cap \<le> 2 ^ 32" "length es < 2 ^ 63" and s: "s = sys_schedule es (sys_start zero cap)"
  shows "unat (rb_tail (sys_ring s)) = length (sys_claimed s) \<and>
    unat (rb_head (sys_ring s)) \<le> length (sys_claimed s) \<and>
    length (sys_claimed s) \<le> unat (rb_head (sys_ring s)) + rb_Cap (sys_ring s) \<and>
    distinct (map fst (sys_acked s)) \<and>
    (\<forall>(k, x)\<in>set (sys_acked s). k < length (sys_claimed s) \<and> x = sys_claimed s ! k) \<and>
    (\<forall>k<length (sys_claimed s). (k \<in> fst ` set (sys_acked s)) \<noteq> (\<exists>!p. claim_push (sys_pcs s p) = Some k)) \<and>
    distinct (map fst (sys_popped s)) \<and>
    (\<forall>(k, v)\<in>set (sys_popped s). k < unat (rb_head (sys_ring s)) \<and> v = sys_claimed s ! k) \<and>
    (\<forall>k<unat (rb_head (sys_ring s)). (k \<in> fst ` set (sys_popped s)) \<noteq> (\<exists>!p. claim_pop (sys_pcs s p) = Some k))"
proof -
  let ?W = "holders claim_push (sys_pcs s)" and ?R = "holders claim_pop (sys_pcs s)"
  have inv: "sys_inv s" unfolding s by (rule sys_reachable [OF assms(1-3)])
  then have cnt: "ring_counters (sys_ring s) ?W ?R (sys_claimed s)"
    and ex: "exclusive claim_push (sys_pcs s)" "exclusive claim_pop (sys_pcs s)"
    and led: "ledger (sys_claimed s) ({..<length (sys_claimed s)} - ?W) (sys_acked s)"
      "ledger (sys_claimed s) ({..<unat (rb_head (sys_ring s))} - ?R) (sys_popped s)"
    by (simp_all add: sys_inv_def Let_def ring_ok_def)
  have one: "(\<exists>!p. f (sys_pcs s p) = Some k) \<longleftrightarrow> k \<in> holders f (sys_pcs s)" if "exclusive f (sys_pcs s)" for f k
    using that unfolding exclusive_def holders_def by blast
  have "fst ` set (sys_acked s) = {..<length (sys_claimed s)} - ?W"
    "fst ` set (sys_popped s) = {..<unat (rb_head (sys_ring s))} - ?R"
    using led by (simp_all add: ledger_def image_image)
  then have "\<forall>k<length (sys_claimed s). (k \<in> fst ` set (sys_acked s)) \<noteq> (\<exists>!p. claim_push (sys_pcs s p) = Some k)"
    "\<forall>k<unat (rb_head (sys_ring s)). (k \<in> fst ` set (sys_popped s)) \<noteq> (\<exists>!p. claim_pop (sys_pcs s p) = Some k)"
    using one [OF ex(1)] one [OF ex(2)] by simp_all
  moreover have "distinct (map fst (sys_acked s))" "distinct (map fst (sys_popped s))"
    "\<forall>(k, x)\<in>set (sys_acked s). k < length (sys_claimed s) \<and> x = sys_claimed s ! k"
    "\<forall>(k, v)\<in>set (sys_popped s). k < unat (rb_head (sys_ring s)) \<and> v = sys_claimed s ! k"
    using led by (auto simp: ledger_def)
  ultimately show ?thesis using cnt by (simp add: ring_counters_def rb_Cap_def)
qed

theorem ring_any_schedule_witness:
  "let s = sys_schedule overtaken_push (sys_start 0 4)
   in unat (rb_tail (sys_ring s)) = length (sys_claimed s) \<and> distinct (map fst (sys_acked s)) \<and> sys_acked s = [(1, 8)] \<and>
      (\<exists>!p. claim_push (sys_pcs s p) = Some 0)"
proof -
  let ?s = "sys_schedule overtaken_push (sys_start 0 4)"
  have l: "length overtaken_push < 2 ^ 63" by (simp add: overtaken_push_def)
  have a: "sys_acked ?s = [(1, 8)]" "length (sys_claimed ?s) = 2" by code_simp+
  note r = ring_any_schedule [OF _ _ l refl, of 4 0]
  from r have "\<forall>k<length (sys_claimed ?s). (k \<in> fst ` set (sys_acked ?s)) \<noteq> (\<exists>!p. claim_push (sys_pcs ?s p) = Some k)"
    by simp
  from this [rule_format, of 0] have "\<exists>!p. claim_push (sys_pcs ?s p) = Some 0" by (simp add: a)
  then show ?thesis using r by (simp add: Let_def a)
qed

text \<open>
  C29: When no goroutine is inside an operation the ring is in a state of the atomic model, and its queue
  is what was pushed less what was popped.
\<close>

theorem ring_at_rest:
  assumes "cap \<noteq> 1" "cap \<le> 2 ^ 32" "length es < 2 ^ 63" and s: "s = sys_schedule es (sys_start zero cap)"
    and rest: "\<forall>p. at_rest (sys_pcs s p)"
  shows "rb_inv (sys_ring s) \<and>
    rb_queue (sys_ring s) = drop (length (sys_popped s)) (sys_claimed s) \<and>
    mset (sys_acked s) = mset (enumerate 0 (sys_claimed s)) \<and>
    mset (sys_popped s) = mset (enumerate 0 (take (length (sys_popped s)) (sys_claimed s)))"
proof -
  let ?rb = "sys_ring s" and ?ps = "sys_claimed s" and ?h = "unat (rb_head (sys_ring s))"
  have inv: "sys_inv s" unfolding s by (rule sys_reachable [OF assms(1-3)])
  have "claim_push (sys_pcs s p) = None" "claim_pop (sys_pcs s p) = None" for p
    using rest [rule_format, of p] by (cases "sys_pcs s p"; simp add: at_rest_def)+
  then have none: "holders claim_push (sys_pcs s) = {}" "holders claim_pop (sys_pcs s) = {}"
    by (simp_all add: holders_def)
  have ok: "ring_ok ?rb {} {} ?ps"
    and led: "ledger ?ps {..<length ?ps} (sys_acked s)" "ledger ?ps {..<?h} (sys_popped s)"
    using inv by (simp_all add: sys_inv_def Let_def none)
  have cnt: "unat (rb_tail ?rb) = length ?ps" "?h \<le> length ?ps" "length ?ps \<le> ?h + length (rb_data ?rb)"
    "length ?ps + length (rb_data ?rb) < 2 ^ 64"
    using ok by (simp_all add: ring_ok_def ring_counters_def)
  have "snd (rb_slot ?rb i) = of_nat i" if "length ?ps \<le> i" "i < ?h + length (rb_data ?rb)" for i
  proof (cases "i < length (rb_data ?rb)")
    case True
    then show ?thesis using ok that by (simp add: ring_ok_def ring_slots_def)
  next
    case False
    define k where "k = i - length (rb_data ?rb)"
    have i: "i = k + length (rb_data ?rb)" using False by (simp add: k_def)
    have "snd (rb_slot ?rb k) = of_nat (lap_seq ?rb {} {} k)"
      using ok that cnt(2) i by (simp add: ring_ok_def ring_slots_def)
    then show ?thesis using that i by (simp add: lap_seq_def slot_lap)
  qed
  moreover have "snd (rb_slot ?rb i) = of_nat (i + 1)" "fst (rb_slot ?rb i) = ?ps ! i"
    if "?h \<le> i" "i < length ?ps" for i
    using ok that cnt(3) by (auto simp: ring_ok_def ring_slots_def lap_seq_def)
  ultimately have rb: "rb_inv ?rb"
    using ok cnt by (auto simp: rb_inv_def ring_ok_def ring_shape_def)
  have len: "length (sys_popped s) = ?h"
  proof -
    have "card (set (map fst (sys_popped s))) = length (sys_popped s)"
      using led(2) by (simp add: ledger_def distinct_card del: set_map)
    moreover have "set (map fst (sys_popped s)) = {..<?h}" using led(2) by (simp add: ledger_def image_image)
    ultimately show ?thesis by simp
  qed
  have "rb_queue ?rb = map (\<lambda>i. ?ps ! i) [?h..<length ?ps]"
    using \<open>\<And>i. ?h \<le> i \<Longrightarrow> i < length ?ps \<Longrightarrow> fst (rb_slot ?rb i) = ?ps ! i\<close> by (simp add: rb_queue_def cnt)
  then have q: "rb_queue ?rb = drop (length (sys_popped s)) ?ps"
    using cnt(2) by (intro nth_equalityI) (simp_all add: len)
  have dist: "distinct (sys_acked s)" "distinct (sys_popped s)"
    using led by (auto simp: ledger_def distinct_map)
  have "set (sys_acked s) = set (enumerate 0 ?ps)"
    using led(1) by (auto simp: ledger_def in_set_enumerate_eq)
  then have ack: "mset (sys_acked s) = mset (enumerate 0 ?ps)"
    using dist(1) by (simp add: set_eq_iff_mset_eq_distinct distinct_enumerate)
  have "set (sys_popped s) = set (enumerate 0 (take ?h ?ps))"
    using led(2) cnt(2) by (auto simp: ledger_def in_set_enumerate_eq)
  then have "mset (sys_popped s) = mset (enumerate 0 (take ?h ?ps))"
    using dist(2) by (simp add: set_eq_iff_mset_eq_distinct distinct_enumerate)
  then show ?thesis using rb q ack by (simp add: len)
qed

theorem ring_at_rest_witness:
  "let s = sys_schedule (overtaken_push @ [Run 0, Run 0]) (sys_start 0 4)
   in rb_queue (sys_ring s) = [7, 8] \<and> mset (sys_acked s) = mset (enumerate 0 [7, 8])"
proof -
  let ?s = "sys_schedule (overtaken_push @ [Run 0, Run 0]) (sys_start 0 4)"
  have l: "length (overtaken_push @ [Run 0, Run 0]) < 2 ^ 63" by (simp add: overtaken_push_def)
  have a: "sys_claimed ?s = [7, 8]" "sys_popped ?s = []" "sys_pcs ?s 0 = Pushed True"
    "sys_pcs ?s 1 = Pushed True" "sys_pcs ?s 2 = Popped None" by code_simp+
  have "sys_pcs ?s p = Idle" if "2 < p" for p
    using that sys_schedule_others [of p "overtaken_push @ [Run 0, Run 0]" "sys_start 0 4"]
    by (simp add: overtaken_push_def sys_start_def)
  then have "at_rest (sys_pcs ?s p)" for p
    using a by (cases "p = 0 \<or> p = 1 \<or> p = 2") (auto simp: at_rest_def)
  then show ?thesis using ring_at_rest [OF _ _ l refl, of 4 0] by (simp add: Let_def a)
qed

text \<open>
  What a goroutine knows after it has compared a sequence number. A \<open>Push\<close> is refused when the
  position a lap back has not been released: the ring holds as many items as it has slots, or the
  \<open>Pop\<close> of that position is still running. It tries again only when another \<open>Push\<close> has claimed its
  position in the meantime. A \<open>Pop\<close> finds the ring empty when everything claimed has been taken, or
  when the \<open>Push\<close> of the next position is still running. It tries again when another \<open>Pop\<close> was
  faster, or while a \<open>Pop\<close> of the last lap is still running.
\<close>

fun push_means :: "'a rb_sys \<Rightarrow> 'a \<Rightarrow> u64 \<Rightarrow> 'a rb_pc \<Rightarrow> bool" where
  "push_means s x t (Pushed ok) =
     (\<not> ok \<and> t = rb_tail (sys_ring s) \<and> sys_cap s \<le> length (sys_claimed s) \<and>
      (length (sys_claimed s) - unat (rb_head (sys_ring s)) = sys_cap s \<or>
       (\<exists>q. claim_pop (sys_pcs s q) = Some (length (sys_claimed s) - sys_cap s))))"
| "push_means s x t (PushTail y) = (y = x \<and> unat t < length (sys_claimed s))"
| "push_means s x t (PushCas y u) = (y = x \<and> u = t)"
| "push_means s x t pc' = False"

fun pop_means :: "'a rb_sys \<Rightarrow> u64 \<Rightarrow> 'a rb_pc \<Rightarrow> bool" where
  "pop_means s h (Popped r) =
     (r = None \<and> h = rb_head (sys_ring s) \<and>
      (unat h = length (sys_claimed s) \<or> (\<exists>q. claim_push (sys_pcs s q) = Some (unat h))))"
| "pop_means s h PopHead =
     (unat h < unat (rb_head (sys_ring s)) \<or>
      (\<exists>q. claim_pop (sys_pcs s q) = Some (unat h - sys_cap s)))"
| "pop_means s h (PopCas g) =
     (g = h \<and> unat h < length (sys_claimed s) \<and> (\<forall>q. claim_push (sys_pcs s q) \<noteq> Some (unat h)))"
| "pop_means s h pc' = False"

definition answer_means :: "'a rb_sys \<Rightarrow> 'a rb_pc \<Rightarrow> 'a rb_pc \<Rightarrow> bool" where
  "answer_means s pc pc' =
     (case pc of PushSeq x t \<Rightarrow> push_means s x t pc' | PopSeq h \<Rightarrow> pop_means s h pc' | _ \<Rightarrow> True)"

lemma push_answer:
  assumes inv: "sys_inv s" and pc: "sys_pcs s p = PushSeq x t"
  shows "push_means s x t (sys_pcs (sys_run p s) p)"
proof -
  let ?rb = "sys_ring s" and ?ps = "sys_claimed s"
  let ?W = "holders claim_push (sys_pcs s)" and ?R = "holders claim_pop (sys_pcs s)"
  let ?q = "snd (rb_slot ?rb (unat t))"
  have ok: "ring_ok ?rb ?W ?R ?ps" and t: "unat t \<le> length ?ps"
    using inv spec [of "\<lambda>p. pc_ok ?rb ?W ?R ?ps (sys_pcs s p)" p] pc by (auto simp: sys_inv_def Let_def)
  have T: "unat (rb_tail ?rb) = length ?ps" using ok by (simp add: ring_ok_def ring_counters_def)
  have slot: "rb_data ?rb ! rb_idx ?rb t = rb_slot ?rb (unat t)" using ok by (simp add: ring_ok_def ring_slot)
  have out: "sys_pcs (sys_run p s) p =
      (if ?q = t then PushCas x t else if ?q < t then Pushed False else PushTail x)"
    by (simp add: sys_run_pc pc rb_atom_def Let_def slot)
  consider "?q = t" | "?q < t" | "t < ?q" by (cases "?q" t rule: linorder_cases) auto
  then show ?thesis
  proof cases
    case 1
    then show ?thesis unfolding out by simp
  next
    case 2
    have eq: "unat t = length ?ps"
    proof (rule ccontr)
      assume "unat t \<noteq> length ?ps"
      then obtain j where j: "unat t \<le> j" "j < length ?ps" "?q = of_nat (lap_seq ?rb ?W ?R j)"
        using seq_below_tail [OF ok, of "unat t"] t by auto
      have "unat t \<le> lap_seq ?rb ?W ?R j" using j(1) by (auto simp: lap_seq_def)
      then show False using 2 j unat_lap_seq [OF ok j(2)] by (simp add: word_less_nat_alt)
    qed
    then have w: "t = rb_tail ?rb" using T by (simp add: word_unat_eq_iff)
    have "unat ?q < length ?ps" using 2 eq by (simp add: word_less_nat_alt)
    then have "length (rb_data ?rb) \<le> length ?ps"
      "length ?ps = unat (rb_head ?rb) + length (rb_data ?rb) \<or> length ?ps - length (rb_data ?rb) \<in> ?R"
      using tail_seq_cases [OF ok] unfolding eq by (metis less_irrefl)+
    moreover have "?q \<noteq> t" using 2 by auto
    ultimately show ?thesis using 2 w unfolding out by (auto simp: sys_cap_def holders_def)
  next
    case 3
    then have "?q \<noteq> t" "\<not> ?q < t" by auto
    moreover have "unat t \<noteq> length ?ps"
      using 3 tail_seq_cases [OF ok] by (metis less_asym less_irrefl word_less_nat_alt)
    ultimately show ?thesis using t unfolding out by simp
  qed
qed

lemma pop_answer:
  assumes inv: "sys_inv s" and pc: "sys_pcs s p = PopSeq h"
  shows "pop_means s h (sys_pcs (sys_run p s) p)"
proof -
  let ?rb = "sys_ring s" and ?ps = "sys_claimed s"
  let ?W = "holders claim_push (sys_pcs s)" and ?R = "holders claim_pop (sys_pcs s)"
  let ?q = "snd (rb_slot ?rb (unat h))"
  have ok: "ring_ok ?rb ?W ?R ?ps" and h: "unat h \<le> unat (rb_head ?rb)"
    using inv spec [of "\<lambda>p. pc_ok ?rb ?W ?R ?ps (sys_pcs s p)" p] pc by (auto simp: sys_inv_def Let_def)
  have cnt: "unat (rb_head ?rb) \<le> length ?ps" "length ?ps + length (rb_data ?rb) < 2 ^ 64"
    "\<And>k. k \<in> ?W \<Longrightarrow> unat (rb_head ?rb) \<le> k"
    using ok by (auto simp: ring_ok_def ring_counters_def)
  have n: "2 \<le> length (rb_data ?rb)" using ok by (auto simp: ring_ok_def intro: ring_shape_size)
  have slot: "rb_data ?rb ! rb_idx ?rb h = rb_slot ?rb (unat h)" using ok by (simp add: ring_ok_def ring_slot)
  have out: "sys_pcs (sys_run p s) p =
      (if ?q = h + 1 then PopCas h else if ?q = h then Popped None else PopHead)"
    by (simp add: sys_run_pc pc rb_atom_def Let_def slot)
  have u: "unat (h + 1) = unat h + 1" using h cnt n by (intro unat_Suc_small) linarith
  have eq: "?q = h + 1 \<longleftrightarrow> unat ?q = unat h + 1" "?q = h \<longleftrightarrow> unat ?q = unat h"
    by (simp_all only: word_unat_eq_iff u)
  have nW: "(\<forall>q. claim_push (sys_pcs s q) \<noteq> Some (unat h)) \<longleftrightarrow> unat h \<notin> ?W" by (auto simp: holders_def)
  show ?thesis
  proof (rule head_seq_cases [OF ok h])
    assume a: "unat h < unat (rb_head ?rb)" "unat h < unat ?q"
    then have "unat h \<notin> ?W" using cnt(3) [of "unat h"] by auto
    then show ?thesis using a cnt(1) unfolding out eq by (simp add: nW)
  next
    assume a: "unat h = unat (rb_head ?rb)" "unat h < length ?ps"
      "unat ?q = (if unat h \<in> ?W then unat h else unat h + 1)"
    have "h = rb_head ?rb" using a(1) by (simp add: word_unat_eq_iff)
    then show ?thesis using a nW unfolding out eq by auto
  next
    assume a: "unat h = unat (rb_head ?rb)" "unat h = length ?ps" "unat ?q = unat h"
    have "h = rb_head ?rb" using a(1) by (simp add: word_unat_eq_iff)
    then show ?thesis using a unfolding out eq by simp
  next
    assume a: "unat ?q < unat h" "unat h - length (rb_data ?rb) \<in> ?R"
    then show ?thesis unfolding out eq by (auto simp: holders_def sys_cap_def)
  qed
qed

theorem ring_answers:
  assumes "cap \<noteq> 1" "cap \<le> 2 ^ 32" "length es < 2 ^ 63" and s: "s = sys_schedule es (sys_start zero cap)"
  shows "answer_means s (sys_pcs s p) (sys_pcs (sys_run p s) p)"
proof -
  have inv: "sys_inv s" unfolding s by (rule sys_reachable [OF assms(1-3)])
  show ?thesis
    using push_answer [OF inv] pop_answer [OF inv] by (auto simp: answer_means_def split: rb_pc.split)
qed

theorem ring_answers_witness:
  "let s = sys_schedule (butlast overtaken_push) (sys_start 0 4)
   in sys_pcs s 2 = PopSeq 0 \<and> sys_pcs (sys_run 2 s) 2 = Popped None \<and> sys_acked s = [(1, 8)] \<and>
      (\<exists>q. claim_push (sys_pcs s q) = Some 0)"
proof -
  let ?s = "sys_schedule (butlast overtaken_push) (sys_start 0 4)"
  have l: "length (butlast overtaken_push) < 2 ^ 63" by (simp add: overtaken_push_def)
  have a: "sys_pcs ?s 2 = PopSeq 0" "sys_pcs (sys_run 2 ?s) 2 = Popped None" "sys_acked ?s = [(1, 8)]"
    "length (sys_claimed ?s) = 2" by code_simp+
  show ?thesis using ring_answers [OF _ _ l refl, of 4 0 2] by (simp add: Let_def a answer_means_def)
qed

subsection \<open>A goroutine on its own\<close>

text \<open>With no other goroutine in between, the accesses of an operation add up to its atomic model.\<close>

definition run_alone :: "nat \<Rightarrow> 'a RingBuffer \<times> 'a rb_pc \<Rightarrow> 'a RingBuffer \<times> 'a rb_pc" where
  "run_alone n = ((\<lambda>(rb, pc). rb_atom rb pc) ^^ n)"

lemmas run_alone_simps = run_alone_def rb_atom_def rb_idx_def Let_def eval_nat_numeral

lemma update_fst: "xs[i := (fst (xs[i := (a, b)] ! i), c)] = xs[i := (a, c)]"
  by (cases "i < length xs") (simp_all add: list_update_beyond)

theorem push_alone:
  "(case rb_Push rb x of
      Some (rb', True) \<Rightarrow> run_alone 5 (rb, PushTail x) = (rb', Pushed True)
    | Some (rb', False) \<Rightarrow> run_alone 2 (rb, PushTail x) = (rb', Pushed False)
    | None \<Rightarrow> run_alone 2 (rb, PushTail x) = (rb, PushTail x))"
  by (auto simp: rb_Push_def run_alone_simps update_fst)

theorem pop_alone:
  "(case rb_Pop rb of
      Some (rb', Some v) \<Rightarrow> run_alone 6 (rb, PopHead) = (rb', Popped (Some v))
    | Some (rb', None) \<Rightarrow> run_alone 2 (rb, PopHead) = (rb', Popped None)
    | None \<Rightarrow> run_alone 2 (rb, PopHead) = (rb, PopHead))"
  by (auto simp: rb_Pop_def run_alone_simps update_fst)

end
