(* ===== verification/RingOfOne.thy ===== *)
theory RingOfOne
  imports RingThreads
begin

text \<open>
  The ring buffer of capacity one. Its only slot is at once the slot of the next position, so the
  sequence number that says filled is the one that says free for the next lap: \<open>Push\<close> overwrites and
  goes on reporting success, and from the second item on \<open>Pop\<close> waits for a number that is gone.
\<close>

text \<open>Pushes one after the other, as long as they report success.\<close>

fun push_all :: "'a RingBuffer \<Rightarrow> 'a list \<Rightarrow> 'a RingBuffer option" where
  "push_all rb [] = Some rb"
| "push_all rb (x # xs) = (case rb_Push rb x of Some (rb, True) \<Rightarrow> push_all rb xs | _ \<Rightarrow> None)"

text \<open>Goroutines that all start on a given ring.\<close>

definition sys_on :: "'a RingBuffer \<Rightarrow> 'a rb_sys" where
  "sys_on rb = \<lparr>sys_ring = rb, sys_pcs = (\<lambda>_. Idle), sys_claimed = [], sys_acked = [], sys_popped = []\<rparr>"

lemma NewRingBuffer_one:
  "NewRingBuffer z 1 = \<lparr>rb_data = [(z, 0)], rb_mask = 0, rb_head = 0, rb_tail = 0, rb_zero = z\<rparr>"
  by (simp add: NewRingBuffer_def nextPowerOf2_def Let_def i64_simps)

lemma push_all_one:
  "push_all \<lparr>rb_data = [(v, w)], rb_mask = 0, rb_head = 0, rb_tail = w, rb_zero = z\<rparr> xs =
    Some \<lparr>rb_data = [(last (v # xs), w + of_nat (length xs))], rb_mask = 0, rb_head = 0,
          rb_tail = w + of_nat (length xs), rb_zero = z\<rparr>"
  by (induction xs arbitrary: v w) (auto simp: rb_Push_def Let_def add.assoc)

text \<open>
  From then on the head stays at 0 and the number of the slot is at least 2, so that a \<open>Pop\<close> finds
  neither an item nor an empty ring. The bound \<open>n\<close> keeps the counters below their end.
\<close>

fun stuck_pc :: "nat \<Rightarrow> 'a rb_pc \<Rightarrow> bool" where
  "stuck_pc n (PushSeq item tail) = (2 \<le> unat tail \<and> unat tail \<le> n)"
| "stuck_pc n (PushCas item tail) = (2 \<le> unat tail \<and> unat tail \<le> n)"
| "stuck_pc n (PushWrite item tail) = (2 \<le> unat tail \<and> unat tail < n)"
| "stuck_pc n (PushStore item tail) = (2 \<le> unat tail \<and> unat tail < n)"
| "stuck_pc n (PopSeq head) = (head = 0)"
| "stuck_pc n (PopCas head) = False"
| "stuck_pc n (PopRead head) = False"
| "stuck_pc n (PopClear head val) = False"
| "stuck_pc n (PopStore head val) = False"
| "stuck_pc n (Popped r) = False"
| "stuck_pc n _ = True"

definition stuck_ring :: "nat \<Rightarrow> 'a RingBuffer \<Rightarrow> bool" where
  "stuck_ring n rb \<longleftrightarrow>
     (\<exists>v w. rb_data rb = [(v, w)] \<and> 2 \<le> unat w \<and> unat w \<le> n) \<and> rb_mask rb = 0 \<and> rb_head rb = 0 \<and>
     2 \<le> unat (rb_tail rb) \<and> unat (rb_tail rb) \<le> n"

definition stuck :: "nat \<Rightarrow> 'a rb_sys \<Rightarrow> bool" where
  "stuck n s \<longleftrightarrow> stuck_ring n (sys_ring s) \<and> (\<forall>p. stuck_pc n (sys_pcs s p)) \<and> sys_popped s = []"

lemma stuck_pc_mono: "stuck_pc n pc \<Longrightarrow> stuck_pc (Suc n) pc"
  by (cases pc) auto

lemma stuck_atom:
  assumes "stuck_ring n rb" "stuck_pc n pc" "Suc n < 2 ^ 64" "rb_atom rb pc = (rb', pc')"
  shows "stuck_ring (Suc n) rb' \<and> stuck_pc (Suc n) pc' \<and> new_pop pc = []"
proof -
  obtain v w where rb: "rb_data rb = [(v, w)]" "2 \<le> unat w" "unat w \<le> n" "rb_mask rb = 0" "rb_head rb = 0"
    "2 \<le> unat (rb_tail rb)" "unat (rb_tail rb) \<le> n" using assms(1) by (auto simp: stuck_ring_def)
  have idx: "rb_idx rb t = 0" for t using rb(4) by (simp add: rb_idx_def)
  have "w \<noteq> 0" "w \<noteq> 1" using rb(2) by auto
  then show ?thesis
    using assms(2-4) rb
    by (cases pc) (auto simp: rb_atom_def idx stuck_ring_def new_pop_def unat_Suc_small Let_def split: if_splits)
qed

lemma stuck_event:
  assumes "stuck n s" "Suc n < 2 ^ 64"
  shows "stuck (Suc n) (sys_event ev s)"
proof -
  have s: "stuck_ring n (sys_ring s)" "\<And>p. stuck_pc n (sys_pcs s p)" "sys_popped s = []"
    using assms(1) by (simp_all add: stuck_def)
  have later: "stuck (Suc n) s"
    using s stuck_pc_mono by (fastforce simp: stuck_def stuck_ring_def)
  show ?thesis
  proof (cases ev)
    case (Run p)
    obtain rb' pc' where a: "rb_atom (sys_ring s) (sys_pcs s p) = (rb', pc')" by fastforce
    from stuck_atom [OF s(1,2) assms(2) a] later show ?thesis
      using Run a s(3) by (simp add: sys_run_def stuck_def)
  qed (use later in \<open>simp_all add: sys_call_def stuck_def\<close>)
qed

lemma stuck_schedule: "stuck n s \<Longrightarrow> n + length es < 2 ^ 64 \<Longrightarrow> stuck (n + length es) (sys_schedule es s)"
proof (induction es arbitrary: n s)
  case (Cons ev es)
  have "stuck (Suc n) (sys_event ev s)" by (rule stuck_event) (use Cons.prems in simp_all)
  from Cons.IH [OF this] show ?case using Cons.prems(2) by (simp add: sys_schedule_def)
qed (simp add: sys_schedule_def)

lemma one_slot_hangs:
  assumes "2 \<le> length xs" "length xs + length es < 2 ^ 64"
  shows "\<exists>rb w. push_all (NewRingBuffer z 1) xs = Some rb \<and> rb_data rb = [(last xs, w)] \<and>
    sys_popped (sys_schedule es (sys_on rb)) = [] \<and> (\<forall>p r. sys_pcs (sys_schedule es (sys_on rb)) p \<noteq> Popped r)"
proof -
  let ?n = "length xs"
  let ?rb = "\<lparr>rb_data = [(last (z # xs), of_nat ?n)], rb_mask = 0, rb_head = 0, rb_tail = of_nat ?n, rb_zero = z\<rparr>"
  have "xs \<noteq> []" using assms(1) by auto
  then have p: "push_all (NewRingBuffer z 1) xs = Some ?rb" "last (z # xs) = last xs"
    using push_all_one [of z 0 z xs] by (simp_all add: NewRingBuffer_one)
  have "unat (of_nat ?n :: u64) = ?n" using assms(2) by (simp add: unat_of_nat)
  then have "stuck ?n (sys_on ?rb)" using assms(1) by (simp add: stuck_def stuck_ring_def sys_on_def)
  from stuck_schedule [OF this assms(2)] have "stuck (?n + length es) (sys_schedule es (sys_on ?rb))" .
  then have "sys_popped (sys_schedule es (sys_on ?rb)) = []" "\<And>q. stuck_pc (?n + length es) (sys_pcs (sys_schedule es (sys_on ?rb)) q)"
    by (simp_all add: stuck_def)
  moreover have "sys_pcs (sys_schedule es (sys_on ?rb)) q \<noteq> Popped r" for q r
    using calculation(2) [of q] by auto
  ultimately show ?thesis using p by (intro exI [of _ ?rb]) simp
qed

end
