(* ===== verification/LockFreeThreads.thy ===== *)
theory LockFreeThreads
  imports SketchLockFree Bloom
begin

text \<open>
  The compare-and-swap loops of \<open>internal/policy/sketch_lockfree.go\<close> and
  \<open>internal/policy/bloom_lockfree.go\<close>, one atomic access at a time, with any number of goroutines in
  the filter at once. A locale states what such a loop does: an access either leaves the memory alone
  or performs one update, and updates commute. Then every schedule ends in the state that the calls
  produce one after the other, and it ends: a retry is paid for by the update of another goroutine.
\<close>

subsection \<open>Schedules of goroutines on one memory\<close>

text \<open>
  The goroutines are a list; a schedule names who takes the next step. \<open>atom\<close> is one access of a
  goroutine at a point of type \<open>'p\<close>.
\<close>

definition turn :: "('m \<Rightarrow> 'p \<Rightarrow> 'm \<times> 'p) \<Rightarrow> 'm \<times> 'p list \<Rightarrow> nat \<Rightarrow> 'm \<times> 'p list" where
  "turn atom s g =
     (let (m, ps) = s
      in if g < length ps then (let (m', p') = atom m (ps ! g) in (m', ps[g := p'])) else s)"

definition turns :: "('m \<Rightarrow> 'p \<Rightarrow> 'm \<times> 'p) \<Rightarrow> 'm \<times> 'p list \<Rightarrow> nat list \<Rightarrow> 'm \<times> 'p list" where
  "turns atom s gs = foldl (turn atom) s gs"

text \<open>How many turns went to goroutines that had work left.\<close>

fun busy :: "('m \<Rightarrow> 'p \<Rightarrow> 'm \<times> 'p) \<Rightarrow> ('p \<Rightarrow> 'a list) \<Rightarrow> 'm \<times> 'p list \<Rightarrow> nat list \<Rightarrow> nat" where
  "busy atom todo s [] = 0"
| "busy atom todo s (g # gs) =
     (if g < length (snd s) \<and> todo (snd s ! g) \<noteq> [] then 1 else 0) + busy atom todo (turn atom s g) gs"

locale shared_updates =
  fixes atom :: "'m \<Rightarrow> 'p \<Rightarrow> 'm \<times> 'p"
    and todo :: "'p \<Rightarrow> 'a list" \<comment> \<open>the updates a goroutine has yet to make\<close>
    and update :: "'m \<Rightarrow> 'a \<Rightarrow> 'm"
    and valid :: "'m \<Rightarrow> 'a \<Rightarrow> bool" \<comment> \<open>the update addresses the memory\<close>
    and stage :: "'m \<Rightarrow> 'p \<Rightarrow> nat" \<comment> \<open>accesses until the next update if nobody interferes\<close>
    and sound :: "'p \<Rightarrow> bool" \<comment> \<open>the point is one that the code can reach\<close>
  assumes atom_cases: "sound p \<Longrightarrow> atom m p = (m', p') \<Longrightarrow>
      (m' = m \<and> todo p' = todo p \<and> (todo p \<noteq> [] \<longrightarrow> stage m p' < stage m p)) \<or>
      (\<exists>a. todo p = a # todo p' \<and> m' = update m a)"
    and atom_sound: "sound p \<Longrightarrow> sound (snd (atom m p))"
    and atom_done: "todo p = [] \<Longrightarrow> atom m p = (m, p)"
    and stage_le: "stage m p \<le> 3"
    and update_valid: "valid m a \<Longrightarrow> valid (update m a) b = valid m b"
    and update_commute: "valid m a \<Longrightarrow> valid m b \<Longrightarrow> update (update m a) b = update (update m b) a"
begin

definition work :: "'p list \<Rightarrow> 'a list" where
  "work ps = concat (map todo ps)"

definition good :: "'m \<times> 'p list \<Rightarrow> bool" where
  "good s \<longleftrightarrow> (\<forall>p\<in>set (snd s). sound p) \<and> (\<forall>a\<in>set (work (snd s)). valid (fst s) a)"

text \<open>An update can be moved to the front of those that follow.\<close>

lemma update_front:
  "\<forall>b\<in>set (as @ [a]). valid m b \<Longrightarrow> foldl update (update m a) as = update (foldl update m as) a"
proof (induction as arbitrary: m)
  case (Cons b as)
  have "update (update m a) b = update (update m b) a" using Cons.prems by (intro update_commute) auto
  then show ?case using Cons.IH [of "update m b"] Cons.prems by (simp add: update_valid)
qed simp

lemma work_upd:
  assumes "g < length ps" "todo (ps ! g) = a # todo p'"
  shows "\<exists>xs ys. work ps = xs @ a # ys \<and> work (ps[g := p']) = xs @ ys"
proof -
  let ?xs = "concat (map todo (take g ps))" and ?ys = "concat (map todo (drop (Suc g) ps))"
  have "work (take g ps @ ps ! g # drop (Suc g) ps) = ?xs @ a # todo p' @ ?ys"
    by (simp add: work_def assms(2))
  moreover have "work (take g ps @ p' # drop (Suc g) ps) = ?xs @ todo p' @ ?ys" by (simp add: work_def)
  ultimately show ?thesis
    using id_take_nth_drop [OF assms(1)] upd_conv_take_nth_drop [OF assms(1), of p'] by metis
qed

lemma work_same: "g < length ps \<Longrightarrow> todo p' = todo (ps ! g) \<Longrightarrow> work (ps[g := p']) = work ps"
  by (simp add: work_def map_update) (metis list_update_id nth_map)

text \<open>What the updates still to come will lead to does not change.\<close>

lemma turn_outcome:
  assumes good: "good s"
  shows "good (turn atom s g) \<and>
    foldl update (fst (turn atom s g)) (work (snd (turn atom s g))) = foldl update (fst s) (work (snd s))"
proof (cases "g < length (snd s)")
  case False
  then show ?thesis using good by (simp add: turn_def split_def Let_def)
next
  case True
  obtain m ps where s: "s = (m, ps)" by fastforce
  obtain m' p' where at: "atom m (ps ! g) = (m', p')" by fastforce
  have t: "turn atom (m, ps) g = (m', ps[g := p'])" using True by (simp add: turn_def s at)
  have snd: "\<forall>p\<in>set ps. sound p" and val: "\<forall>a\<in>set (work ps). valid m a"
    using good by (simp_all add: good_def s)
  have sg: "sound (ps ! g)" using snd True by (simp add: s)
  have "sound p'" using atom_sound [OF sg, of m] by (simp add: at)
  then have snd': "\<forall>p\<in>set (ps[g := p']). sound p" using snd set_update_subset_insert [of ps g p'] by auto
  from atom_cases [OF sg at] show ?thesis
  proof (elim disjE exE conjE)
    assume "m' = m" "todo p' = todo (ps ! g)"
    then show ?thesis using snd' val work_same [of g ps p'] True by (simp add: t good_def s)
  next
    fix a assume a: "todo (ps ! g) = a # todo p'" "m' = update m a"
    obtain xs ys where w: "work ps = xs @ a # ys" "work (ps[g := p']) = xs @ ys"
      using work_upd [of g ps a p'] True a(1) by (auto simp: s)
    have "foldl update m' xs = update (foldl update m xs) a"
      unfolding a(2) by (rule update_front) (use val w in auto)
    moreover have "\<forall>b\<in>set (xs @ ys). valid m' b"
      using val w update_valid [of m a] by (auto simp: a(2))
    ultimately show ?thesis using snd' w by (simp add: t good_def s)
  qed
qed

lemma turns_outcome:
  "good s \<Longrightarrow> good (turns atom s gs) \<and>
    foldl update (fst (turns atom s gs)) (work (snd (turns atom s gs))) = foldl update (fst s) (work (snd s))"
proof (induction gs arbitrary: s)
  case (Cons g gs)
  then show ?case using turn_outcome [of s g] by (simp add: turns_def)
qed (simp add: turns_def)

lemma all_done:
  assumes "good (m, ps)" "\<forall>p\<in>set (snd (turns atom (m, ps) gs)). todo p = []"
  shows "fst (turns atom (m, ps) gs) = foldl update m (work ps)"
proof -
  have "work (snd (turns atom (m, ps) gs)) = []" using assms(2) by (auto simp: work_def)
  then show ?thesis using turns_outcome [OF assms(1), of gs] by simp
qed

text \<open>Every turn of a goroutine with work left uses up some of a bounded amount.\<close>

definition effort :: "'m \<times> 'p list \<Rightarrow> nat" where
  "effort s = length (work (snd s)) * (3 * length (snd s) + 1) + sum_list (map (stage (fst s)) (snd s))"

lemma stages_le: "sum_list (map (stage m) ps) \<le> 3 * length ps"
  using stage_le by (induction ps) (auto simp: add_le_mono)

lemma sum_list_update_nat:
  "g < length xs \<Longrightarrow> sum_list (xs[g := y]) + xs ! g = sum_list xs + (y :: nat)"
  by (induction xs arbitrary: g) (auto split: nat.split)

lemma turn_effort:
  assumes good: "good s" and g: "g < length (snd s)" "todo (snd s ! g) \<noteq> []"
  shows "effort (turn atom s g) < effort s"
proof -
  obtain m ps where s: "s = (m, ps)" by fastforce
  obtain m' p' where at: "atom m (ps ! g) = (m', p')" by fastforce
  have t: "turn atom (m, ps) g = (m', ps[g := p'])" using g by (simp add: turn_def s at)
  have "sound (ps ! g)" using good g by (simp add: good_def s)
  from atom_cases [OF this at] show ?thesis
  proof (elim disjE exE conjE)
    assume a: "m' = m" "todo p' = todo (ps ! g)" "todo (ps ! g) \<noteq> [] \<longrightarrow> stage m p' < stage m (ps ! g)"
    have "sum_list (map (stage m) (ps[g := p'])) + stage m (ps ! g) = sum_list (map (stage m) ps) + stage m p'"
      using sum_list_update_nat [of g "map (stage m) ps" "stage m p'"] g by (simp add: s map_update)
    then show ?thesis using a g work_same [of g ps p'] by (simp add: t effort_def s)
  next
    fix a assume a: "todo (ps ! g) = a # todo p'"
    obtain xs ys where w: "work ps = xs @ a # ys" "work (ps[g := p']) = xs @ ys"
      using work_upd [of g ps a p'] g a by (auto simp: s)
    have "sum_list (map (stage m') (ps[g := p'])) \<le> 3 * length ps" using stages_le [of m' "ps[g := p']"] by simp
    then show ?thesis by (simp add: t effort_def s w)
  qed
qed

lemma turn_done: "g < length (snd s) \<Longrightarrow> todo (snd s ! g) = [] \<Longrightarrow> turn atom s g = s"
  by (simp add: turn_def atom_done split_def Let_def)

lemma busy_effort: "good s \<Longrightarrow> busy atom todo s gs \<le> effort s"
proof (induction gs arbitrary: s)
  case (Cons g gs)
  have "busy atom todo (turn atom s g) gs \<le> effort (turn atom s g)" using Cons turn_outcome by blast
  moreover have "turn atom s g = s" if "\<not> (g < length (snd s) \<and> todo (snd s ! g) \<noteq> [])"
    using that turn_done [of g s] by (auto simp: turn_def split_def)
  ultimately show ?case using turn_effort [OF Cons.prems, of g] by fastforce
qed simp

lemma busy_bound:
  "good (m, ps) \<Longrightarrow> busy atom todo (m, ps) gs \<le> length (work ps) * (3 * length ps + 1) + 3 * length ps"
  using busy_effort [of "(m, ps)" gs] stages_le [of m ps] by (simp add: effort_def)

end

subsection \<open>Increments of the lock-free sketch\<close>

text \<open>
  A goroutine in \<open>incrementAt\<close>: the increments it has yet to make, the first one in progress, and the
  word it has loaded when it stands before the swap. \<open>Increment\<close> makes one increment in every row.
\<close>

datatype inc_pc =
    IncLoad "(nat \<times> u64) list"
  | IncSwap "(nat \<times> u64) list" u32

fun inc_atom :: "cmSketchLockFree \<Rightarrow> inc_pc \<Rightarrow> cmSketchLockFree \<times> inc_pc" where
  "inc_atom s (IncLoad ((row, idx) # rest)) =
     (let wordIdx = unat (idx div 4); bytePos = unat ((idx mod 4) * 8);
          old = lf_rows s ! row ! wordIdx;
          val = (ucast (drop_bit bytePos old AND 0xFF) :: byte)
      in (s, if val \<ge> 255 then IncLoad rest else IncSwap ((row, idx) # rest) old))"
| "inc_atom s (IncSwap ((row, idx) # rest) old) =
     (let wordIdx = unat (idx div 4); bytePos = unat ((idx mod 4) * 8);
          val = (ucast (drop_bit bytePos old AND 0xFF) :: byte);
          newVal = (old AND NOT (push_bit bytePos 0xFF)) OR push_bit bytePos (ucast (val + 1))
      in if lf_rows s ! row ! wordIdx = old
         then (s\<lparr>lf_rows := (lf_rows s)[row := (lf_rows s ! row)[wordIdx := newVal]]\<rparr>, IncLoad rest)
         else (s, IncLoad ((row, idx) # rest)))"
| "inc_atom s pc = (s, pc)"

definition inc_calls :: "cmSketchLockFree \<Rightarrow> u64 list \<Rightarrow> inc_pc" where
  "inc_calls s keyHashes =
     IncLoad (concat (map (\<lambda>keyHash. map (\<lambda>i. (i, lf_index s keyHash i)) [0..<cmDepthLockFree]) keyHashes))"

fun inc_todo :: "inc_pc \<Rightarrow> (nat \<times> u64) list" where
  "inc_todo (IncLoad as) = as"
| "inc_todo (IncSwap as _) = as"

definition inc_word :: "cmSketchLockFree \<Rightarrow> nat \<times> u64 \<Rightarrow> u32" where
  "inc_word s a = lf_rows s ! fst a ! unat (snd a div 4)"

fun inc_stage :: "cmSketchLockFree \<Rightarrow> inc_pc \<Rightarrow> nat" where
  "inc_stage s (IncLoad _) = 2"
| "inc_stage s (IncSwap as old) = (if as \<noteq> [] \<and> inc_word s (hd as) = old then 1 else 3)"

text \<open>Before a swap the loaded counter was not saturated.\<close>

fun inc_sound :: "inc_pc \<Rightarrow> bool" where
  "inc_sound (IncLoad _) = True"
| "inc_sound (IncSwap as old) = (as \<noteq> [] \<and> get_byte (unat (snd (hd as)) mod 4) old < 255)"

definition inc_update :: "cmSketchLockFree \<Rightarrow> nat \<times> u64 \<Rightarrow> cmSketchLockFree" where
  "inc_update s a = lf_incrementAt s (fst a) (snd a)"

definition inc_valid :: "cmSketchLockFree \<Rightarrow> nat \<times> u64 \<Rightarrow> bool" where
  "inc_valid s a \<longleftrightarrow> fst a < length (lf_rows s) \<and> unat (snd a) div 4 < length (lf_rows s ! fst a)"

lemma put_put_byte:
  assumes "p < 4" "q < 4" "p \<noteq> q"
  shows "put_byte p u (put_byte q v w) = put_byte q v (put_byte p u w)"
proof (rule bit_word_eqI)
  fix n assume "n < LENGTH(32)"
  then have n: "n < 32" by simp
  show "bit (put_byte p u (put_byte q v w)) n = bit (put_byte q v (put_byte p u w)) n"
    using assms by (auto simp: bit_put_byte n)
qed

definition inc_byte :: "nat \<Rightarrow> u32 \<Rightarrow> u32" where
  "inc_byte p w = (if get_byte p w < 255 then put_byte p (get_byte p w + 1) w else w)"

lemma inc_byte_commute: "p < 4 \<Longrightarrow> q < 4 \<Longrightarrow> inc_byte p (inc_byte q w) = inc_byte q (inc_byte p w)"
  by (cases "p = q") (auto simp: inc_byte_def get_put_byte put_put_byte)

lemma incrementAt_rows:
  assumes "inc_valid s (r, i)"
  shows "lf_rows (lf_incrementAt s r i) =
    (lf_rows s)[r := (lf_rows s ! r)[unat i div 4 := inc_byte (unat i mod 4) (lf_rows s ! r ! (unat i div 4))]]"
  using assms by (simp add: lf_incrementAt_byte inc_byte_def lf_getAt_byte inc_valid_def list_update_same_conv)

lemma inc_valid_update: "inc_valid s a \<Longrightarrow> inc_valid (inc_update s a) b = inc_valid s b"
  by (cases a) (auto simp: inc_update_def incrementAt_rows inc_valid_def nth_list_update)

lemma inc_commute:
  assumes "inc_valid s a" "inc_valid s b"
  shows "inc_update (inc_update s a) b = inc_update (inc_update s b) a"
proof -
  obtain r i where a: "a = (r, i)" by fastforce
  obtain q j where b: "b = (q, j)" by fastforce
  note v = assms [unfolded a b]
  have v': "inc_valid (lf_incrementAt s r i) (q, j)" "inc_valid (lf_incrementAt s q j) (r, i)"
    using inc_valid_update [OF v(1), of "(q, j)"] inc_valid_update [OF v(2), of "(r, i)"] v
    by (simp_all add: inc_update_def)
  have "lf_rows (lf_incrementAt (lf_incrementAt s r i) q j) = lf_rows (lf_incrementAt (lf_incrementAt s q j) r i)"
    unfolding incrementAt_rows [OF v'(1)] incrementAt_rows [OF v'(2)] incrementAt_rows [OF v(1)] incrementAt_rows [OF v(2)]
    using v by (cases "r = q"; cases "unat i div 4 = unat j div 4")
      (auto simp: inc_valid_def list_update_swap inc_byte_commute)
  moreover have "lf_seeds (lf_incrementAt (lf_incrementAt s r i) q j) = lf_seeds (lf_incrementAt (lf_incrementAt s q j) r i)"
    "lf_width (lf_incrementAt (lf_incrementAt s r i) q j) = lf_width (lf_incrementAt (lf_incrementAt s q j) r i)"
    by simp_all
  ultimately show ?thesis by (simp add: a b inc_update_def)
qed

lemma inc_atom_cases:
  assumes "inc_sound pc" and at: "inc_atom s pc = (s', pc')"
  shows "(s' = s \<and> inc_todo pc' = inc_todo pc \<and> (inc_todo pc \<noteq> [] \<longrightarrow> inc_stage s pc' < inc_stage s pc)) \<or>
    (\<exists>a. inc_todo pc = a # inc_todo pc' \<and> s' = inc_update s a)"
proof (cases pc)
  case (IncLoad as)
  show ?thesis
  proof (cases as)
    case (Cons a rest)
    then show ?thesis using at IncLoad
      by (cases a) (auto simp: Let_def inc_update_def lf_incrementAt_def inc_word_def split: if_splits)
  qed (use at IncLoad in auto)
next
  case (IncSwap as old)
  show ?thesis
  proof (cases as)
    case (Cons a rest)
    obtain row idx where a: "a = (row, idx)" by fastforce
    show ?thesis
    proof (cases "inc_word s a = old")
      case True
      have b: "(ucast (drop_bit (unat ((idx mod 4) * 8)) old AND 0xFF) :: byte) < 255"
        using assms(1) by (simp add: IncSwap Cons a wordIdx get_byte_def)
      have "s' = inc_update s a" "pc' = IncLoad rest"
        using at True b by (auto simp: IncSwap Cons a inc_word_def inc_update_def lf_incrementAt_def Let_def)
      then show ?thesis by (simp add: IncSwap Cons)
    next
      case False
      then have "s' = s" "pc' = IncLoad as" using at by (auto simp: IncSwap Cons a inc_word_def Let_def)
      then show ?thesis using False by (simp add: IncSwap Cons)
    qed
  qed (use assms(1) IncSwap in simp)
qed

lemma inc_atom_sound: "inc_sound pc \<Longrightarrow> inc_sound (snd (inc_atom s pc))"
  by (cases "(s, pc)" rule: inc_atom.cases) (auto simp: Let_def wordIdx get_byte_def)

lemma inc_atom_done: "inc_todo pc = [] \<Longrightarrow> inc_atom s pc = (s, pc)"
  by (cases pc) auto

lemma inc_stage_le: "inc_stage s pc \<le> 3"
  by (cases pc) auto

interpretation inc: shared_updates inc_atom inc_todo inc_update inc_valid inc_stage inc_sound
  by unfold_locales
    (auto simp: inc_commute inc_valid_update inc_stage_le inc_atom_done intro: inc_atom_sound dest: inc_atom_cases)

lemma inc_update_index: "lf_index (foldl inc_update s as) = lf_index s"
  by (induction as arbitrary: s) (simp_all add: inc_update_def)

lemma foldl_inc_update:
  "lf_index s' = f \<Longrightarrow>
    foldl inc_update s' (map (\<lambda>i. (i, f h i)) is) = foldl (\<lambda>s i. lf_incrementAt s i (lf_index s h i)) s' is"
  by (induction "is" arbitrary: s') (simp_all add: inc_update_def)

lemma inc_calls_todo:
  "lf_index s' = lf_index s \<Longrightarrow> foldl inc_update s' (inc_todo (inc_calls s hs)) = foldl lf_Increment s' hs"
proof (induction hs arbitrary: s')
  case (Cons h hs)
  let ?as = "map (\<lambda>i. (i, lf_index s h i)) [0..<cmDepthLockFree]"
  have "foldl inc_update s' ?as = lf_Increment s' h"
    using foldl_inc_update [OF Cons.prems, of h] by (simp add: lf_Increment_def)
  moreover have "lf_index (foldl inc_update s' ?as) = lf_index s" using Cons.prems by (simp add: inc_update_index)
  ultimately show ?case using Cons.IH [of "lf_Increment s' h"] by (simp add: inc_calls_def)
qed (simp add: inc_calls_def)

lemma inc_calls_work: "inc.work (map (inc_calls s) hss) = inc_todo (inc_calls s (concat hss))"
  by (induction hss) (auto simp: inc.work_def inc_calls_def)

lemma inc_calls_good:
  assumes "lf_sketch_inv s"
  shows "inc.good (s, map (inc_calls s) hss)"
proof -
  have "inc_valid s a" if "a \<in> set (inc_todo (inc_calls s hs))" for a hs
    using that assms lf_index_word [OF assms]
    by (auto simp: inc_calls_def inc_valid_def cmDepthLockFree_def lf_sketch_inv_def)
  then show ?thesis unfolding inc.good_def fst_conv snd_conv inc_calls_work by (auto simp: inc_calls_def)
qed

lemma inc_calls_length: "length (inc_todo (inc_calls s hs)) = 4 * length hs"
  by (induction hs) (auto simp: inc_calls_def cmDepthLockFree_def)

subsection \<open>Additions to the lock-free Bloom filter\<close>

text \<open>A goroutine in \<open>Add\<close>: its \<open>alreadyPresent\<close>, the bits it has yet to see set, and the word it has loaded.\<close>

datatype set_pc =
    SetLoad bool "nat list"
  | SetSwap bool "nat list" u64

fun set_atom :: "bloomFilterLockFree \<Rightarrow> set_pc \<Rightarrow> bloomFilterLockFree \<times> set_pc" where
  "set_atom bf (SetLoad alreadyPresent (idx # rest)) =
     (let wordIdx = idx div 64; mask = push_bit (idx mod 64) 1; old = bl_bits bf ! wordIdx;
          alreadyPresent = (if old AND mask = 0 then False else alreadyPresent)
      in (bf, if old AND mask \<noteq> 0 then SetLoad alreadyPresent rest else SetSwap alreadyPresent (idx # rest) old))"
| "set_atom bf (SetSwap alreadyPresent (idx # rest) old) =
     (let wordIdx = idx div 64; mask = push_bit (idx mod 64) 1
      in if bl_bits bf ! wordIdx = old
         then (bf\<lparr>bl_bits := (bl_bits bf)[wordIdx := old OR mask]\<rparr>, SetLoad alreadyPresent rest)
         else (bf, SetLoad alreadyPresent (idx # rest)))"
| "set_atom bf pc = (bf, pc)"

definition add_call :: "bloomFilterLockFree \<Rightarrow> u64 \<Rightarrow> set_pc" where
  "add_call bf keyHash = SetLoad True (map (\<lambda>i. unat (bl_index bf keyHash i)) [0..<bl_numHash bf])"

fun set_todo :: "set_pc \<Rightarrow> nat list" where
  "set_todo (SetLoad _ ps) = ps"
| "set_todo (SetSwap _ ps _) = ps"

fun set_present :: "set_pc \<Rightarrow> bool" where
  "set_present (SetLoad b _) = b"
| "set_present (SetSwap b _ _) = b"

fun set_stage :: "bloomFilterLockFree \<Rightarrow> set_pc \<Rightarrow> nat" where
  "set_stage bf (SetLoad _ _) = 2"
| "set_stage bf (SetSwap _ ps old) = (if ps \<noteq> [] \<and> bl_bits bf ! (hd ps div 64) = old then 1 else 3)"

fun set_sound :: "set_pc \<Rightarrow> bool" where
  "set_sound (SetLoad _ _) = True"
| "set_sound (SetSwap b ps _) = (ps \<noteq> [] \<and> \<not> b)"

definition set_update :: "bloomFilterLockFree \<Rightarrow> nat \<Rightarrow> bloomFilterLockFree" where
  "set_update bf p = bf\<lparr>bl_bits := orBit (bl_bits bf) p\<rparr>"

definition set_valid :: "bloomFilterLockFree \<Rightarrow> nat \<Rightarrow> bool" where
  "set_valid bf p \<longleftrightarrow> p div 64 < length (bl_bits bf)"

lemma orBit_set: "testBit bs p \<Longrightarrow> orBit bs p = bs"
proof -
  assume "testBit bs p"
  then have "bs ! (p div 64) OR push_bit (p mod 64) 1 = bs ! (p div 64)"
    by (intro bit_word_eqI) (auto simp: testBit_bit bit_simps)
  then show ?thesis by (simp add: orBit_def Let_def list_update_same_conv)
qed

lemma set_update_present: "testBit (bl_bits bf) p \<Longrightarrow> set_update bf p = bf"
  by (simp add: set_update_def orBit_set)

lemma orBit_commute: "orBit (orBit bs p) q = orBit (orBit bs q) p"
proof (cases "p div 64 = q div 64")
  case True
  then show ?thesis
    by (cases "q div 64 < length bs") (simp_all add: orBit_def Let_def ac_simps list_update_beyond)
qed (simp add: orBit_def Let_def list_update_swap)

lemma set_atom_cases:
  assumes "set_sound pc" and at: "set_atom bf pc = (bf', pc')"
  shows "(bf' = bf \<and> set_todo pc' = set_todo pc \<and> (set_todo pc \<noteq> [] \<longrightarrow> set_stage bf pc' < set_stage bf pc)) \<or>
    (\<exists>a. set_todo pc = a # set_todo pc' \<and> bf' = set_update bf a)"
proof (cases "(bf, pc)" rule: set_atom.cases)
  case (1 bf0 b p ps)
  show ?thesis
  proof (cases "testBit (bl_bits bf) p")
    case True
    then have "bf' = bf" "set_todo pc' = ps" using at 1 by (auto simp: testBit_def Let_def)
    then show ?thesis using 1 set_update_present [OF True] by simp
  next
    case False
    then show ?thesis using at 1 by (auto simp: testBit_def Let_def)
  qed
next
  case (2 bf0 b p ps old)
  then show ?thesis using at by (auto simp: Let_def set_update_def orBit_def split: if_splits)
qed (use assms in auto)

lemma set_atom_sound: "set_sound pc \<Longrightarrow> set_sound (snd (set_atom bf pc))"
  by (cases "(bf, pc)" rule: set_atom.cases) (auto simp: Let_def)

lemma set_atom_done: "set_todo pc = [] \<Longrightarrow> set_atom bf pc = (bf, pc)"
  by (cases pc) auto

lemma set_stage_le: "set_stage bf pc \<le> 3"
  by (cases pc) auto

interpretation set: shared_updates set_atom set_todo set_update set_valid set_stage set_sound
  by unfold_locales
    (auto simp: set_update_def orBit_commute set_valid_def set_stage_le set_atom_done
      intro: set_atom_sound dest: set_atom_cases)

lemma set_calls_good: "bl_inv bf \<Longrightarrow> set.good (bf, map (add_call bf) hs)"
  by (auto simp: set.good_def set.work_def add_call_def set_valid_def bl_index_bound)

lemma set_probes:
  "foldl set_update bf' ps = fst (foldl (\<lambda>(d, alreadyPresent) p. if testBit (bl_bits d) p then (d, alreadyPresent)
          else (d\<lparr>bl_bits := orBit (bl_bits d) p\<rparr>, False)) (bf', a) ps)"
proof (induction ps arbitrary: bf' a)
  case (Cons p ps)
  then show ?case using set_update_present [of bf' p] by (simp add: set_update_def)
qed simp

lemma set_call_Add:
  "bl_numBits bf' = bl_numBits bf \<Longrightarrow> bl_numHash bf' = bl_numHash bf \<Longrightarrow>
    foldl set_update bf' (set_todo (add_call bf h)) = fst (bl_Add bf' h)"
proof -
  assume a: "bl_numBits bf' = bl_numBits bf" "bl_numHash bf' = bl_numHash bf"
  then have i: "bl_index bf' h = bl_index bf h" by (intro ext) (simp add: bl_index_def)
  show ?thesis
    unfolding bl_Add_def bl_fold_probes [OF refl] set_probes [of bf' _ True] add_call_def set_todo.simps
    by (simp add: i a)
qed

lemma foldl_set_update_frame:
  "bl_numBits (foldl set_update bf ps) = bl_numBits bf \<and> bl_numHash (foldl set_update bf ps) = bl_numHash bf"
  by (induction ps arbitrary: bf) (simp_all add: set_update_def)

lemma set_calls_Add:
  "bl_numBits bf' = bl_numBits bf \<Longrightarrow> bl_numHash bf' = bl_numHash bf \<Longrightarrow>
    foldl set_update bf' (set.work (map (add_call bf) hs)) = foldl (\<lambda>bf h. fst (bl_Add bf h)) bf' hs"
proof (induction hs arbitrary: bf')
  case (Cons h hs)
  have "foldl set_update bf' (set_todo (add_call bf h)) = fst (bl_Add bf' h)"
    by (rule set_call_Add [OF Cons.prems])
  moreover from this have "bl_numBits (fst (bl_Add bf' h)) = bl_numBits bf" "bl_numHash (fst (bl_Add bf' h)) = bl_numHash bf"
    using foldl_set_update_frame [of bf' "set_todo (add_call bf h)"] Cons.prems by auto
  ultimately show ?case using Cons.IH [of "fst (bl_Add bf' h)"] by (simp add: set.work_def)
qed (simp add: set.work_def)

text \<open>As long as every \<open>alreadyPresent\<close> is true nobody has set a bit.\<close>

lemma set_atom_present:
  "set_sound pc \<Longrightarrow> set_atom bf pc = (bf', pc') \<Longrightarrow> set_present pc' \<Longrightarrow> bf' = bf \<and> set_present pc"
  by (cases "(bf, pc)" rule: set_atom.cases) (auto simp: Let_def split: if_splits)

lemma set_turns_present:
  assumes "set.good s" "\<forall>pc\<in>set (snd (turns set_atom s gs)). set_present pc"
  shows "fst (turns set_atom s gs) = fst s \<and> (\<forall>pc\<in>set (snd s). set_present pc)"
  using assms
proof (induction gs arbitrary: s)
  case (Cons g gs)
  have ih: "fst (turns set_atom (turn set_atom s g) gs) = fst (turn set_atom s g)"
    "\<forall>pc\<in>set (snd (turn set_atom s g)). set_present pc"
    using Cons.IH [of "turn set_atom s g"] Cons.prems set.turn_outcome [OF Cons.prems(1)] by (auto simp: turns_def)
  have "fst (turn set_atom s g) = fst s \<and> (\<forall>pc\<in>set (snd s). set_present pc)"
  proof (cases "g < length (snd s)")
    case True
    obtain bf ps where s: "s = (bf, ps)" by fastforce
    obtain bf' pc' where at: "set_atom bf (ps ! g) = (bf', pc')" by fastforce
    have t: "turn set_atom (bf, ps) g = (bf', ps[g := pc'])" using True by (simp add: turn_def s at)
    have "set_present pc'" "set_sound (ps ! g)"
      using ih(2) t True Cons.prems(1) by (auto simp: s set.good_def set_update_memI)
    from set_atom_present [OF this(2) at this(1)] have p: "bf' = bf" "set_present (ps ! g)" by auto
    have "set_present (ps ! i)" if "i < length ps" for i
      using ih(2) t that p(2) nth_mem [of i "ps[g := pc']"] by (cases "i = g") (auto simp: s)
    then show ?thesis using p(1) t by (auto simp: s in_set_conv_nth)
  qed (use ih(2) in \<open>auto simp: turn_def split_def Let_def\<close>)
  then show ?case using ih(1) by (simp add: turns_def)
qed (simp add: turns_def)

lemma set_work_length: "length (set.work (map (add_call bf) hs)) = bl_numHash bf * length hs"
  by (induction hs) (auto simp: set.work_def add_call_def)

subsection \<open>The theorems\<close>

text \<open>
  C22: Goroutines that increment the sketch at the same time, each with hashes of its own, bring it into
  the state that the increments make one after the other. No increment is lost, whatever the schedule,
  and after a bounded number of turns of unfinished goroutines all have finished.
\<close>

theorem sketch_any_schedule:
  assumes s: "lf_sketch_inv s" and r: "r = turns inc_atom (s, map (inc_calls s) hss) gs"
  shows "busy inc_atom inc_todo (s, map (inc_calls s) hss) gs \<le>
      4 * length (concat hss) * (3 * length hss + 1) + 3 * length hss \<and>
    ((\<forall>pc\<in>set (snd r). inc_todo pc = []) \<longrightarrow> fst r = foldl lf_Increment s (concat hss))"
  using inc.busy_bound [OF inc_calls_good [OF s], of hss gs] inc.all_done [OF inc_calls_good [OF s], of hss gs] r
  by (simp add: inc_calls_work inc_calls_length inc_calls_todo)

definition tiny_sketch :: cmSketchLockFree where
  "tiny_sketch = \<lparr>lf_rows = replicate 4 [0], lf_seeds = replicate 4 0, lf_width = 1\<rparr>"

definition in_turns :: "nat list" where
  "in_turns = concat (replicate 12 [0, 1])"

theorem sketch_any_schedule_witness:
  "let r = turns inc_atom (tiny_sketch, map (inc_calls tiny_sketch) [[7], [9]]) in_turns
   in fst r = foldl lf_Increment tiny_sketch [7, 9] \<and> lf_Estimate (fst r) 7 = 2"
proof -
  let ?r = "turns inc_atom (tiny_sketch, map (inc_calls tiny_sketch) [[7], [9]]) in_turns"
  have i: "lf_sketch_inv tiny_sketch" by (simp add: lf_sketch_inv_def tiny_sketch_def)
  have "\<forall>pc\<in>set (snd ?r). inc_todo pc = []" by code_simp
  then have "fst ?r = foldl lf_Increment tiny_sketch [7, 9]"
    using sketch_any_schedule [OF i refl, of "[[7], [9]]" in_turns] by simp
  moreover have "lf_Estimate (fst ?r) 7 = 2" by code_simp
  ultimately show ?thesis by (simp add: Let_def)
qed

text \<open>
  The same holds of additions to the Bloom filter. If all of them report that their hash was present
  before, then it was: not a single bit has changed.
\<close>

theorem bloom_any_schedule:
  assumes b: "bl_inv bf" and r: "r = turns set_atom (bf, map (add_call bf) hs) gs"
  shows "busy set_atom set_todo (bf, map (add_call bf) hs) gs \<le>
      bl_numHash bf * length hs * (3 * length hs + 1) + 3 * length hs \<and>
    ((\<forall>pc\<in>set (snd r). set_todo pc = []) \<longrightarrow> fst r = foldl (\<lambda>bf h. fst (bl_Add bf h)) bf hs) \<and>
    ((\<forall>pc\<in>set (snd r). set_present pc) \<longrightarrow> fst r = bf)"
  using set.busy_bound [OF set_calls_good [OF b], of hs gs] set.all_done [OF set_calls_good [OF b], of hs gs]
    set_turns_present [OF set_calls_good [OF b], of hs gs] r
  by (simp add: set_work_length set_calls_Add)


definition tiny_bloom :: bloomFilterLockFree where
  "tiny_bloom = \<lparr>bl_bits = [0], bl_numBits = 64, bl_numHash = 2\<rparr>"

theorem bloom_any_schedule_witness:
  "let r = turns set_atom (tiny_bloom, map (add_call tiny_bloom) [5, 5]) in_turns
   in fst r = foldl (\<lambda>bf h. fst (bl_Add bf h)) tiny_bloom [5, 5] \<and> bl_Contains (fst r) 5 \<and>
      map set_present (snd r) = [False, False]"
proof -
  let ?r = "turns set_atom (tiny_bloom, map (add_call tiny_bloom) [5, 5]) in_turns"
  have i: "bl_inv tiny_bloom" by (simp add: bl_inv_def tiny_bloom_def)
  have "\<forall>pc\<in>set (snd ?r). set_todo pc = []" by code_simp
  then have "fst ?r = foldl (\<lambda>bf h. fst (bl_Add bf h)) tiny_bloom [5, 5]"
    using bloom_any_schedule [OF i refl, of "[5, 5]" in_turns] by simp
  moreover have "bl_Contains (fst ?r) 5" "map set_present (snd ?r) = [False, False]" by code_simp+
  ultimately show ?thesis by (simp add: Let_def)
qed

end
