(* ===== verification/FillRatio.thy ===== *)
theory FillRatio
  imports Policy BlockedBloom
begin

text \<open>
  The fill statistics of the doorkeepers: the parallel bit count of \<open>internal/policy/bloom.go\<close>, the
  \<open>FillRatio\<close> of both filters and of the policies above them, as exact fractions, and
  \<open>EstimatedCount\<close>, whose logarithm is an argument. The bit count is proved to count bits: a word
  is a sequence of eight lanes of a byte, and no step lets a lane spill into its neighbour.
\<close>

subsection \<open>Definitions\<close>

definition popcount :: "u64 \<Rightarrow> nat" where
  "popcount x =
     (let x = x - (drop_bit 1 x AND 0x5555555555555555);
          x = (x AND 0x3333333333333333) + (drop_bit 2 x AND 0x3333333333333333);
          x = (x + drop_bit 4 x) AND 0x0f0f0f0f0f0f0f0f;
          x = x + drop_bit 8 x;
          x = x + drop_bit 16 x;
          x = x + drop_bit 32 x
      in unat (x AND 0x7f))"

definition bf_FillRatio :: "bloomFilter \<Rightarrow> rat" where
  "bf_FillRatio bf = of_nat (foldl (\<lambda>count word. count + popcount word) 0 (bf_bits bf)) / of_nat (unat (bf_numBits bf))"

definition bl_FillRatio :: "bloomFilterLockFree \<Rightarrow> rat" where
  "bl_FillRatio bf = of_nat (foldl (\<lambda>count word. count + OnesCount64 word) 0 (bl_bits bf)) / of_nat (unat (bl_numBits bf))"

definition tf_FillRatio :: "TinyLFULockFree \<Rightarrow> rat" where
  "tf_FillRatio t = bl_FillRatio (tf_door t)"

definition plf_FillRatio :: "'k PolicyLockFree \<Rightarrow> rat" where
  "plf_FillRatio p = tf_FillRatio (plf_admit p)"

definition bl_EstimatedCount :: "(nat \<Rightarrow> u64 \<Rightarrow> nat \<Rightarrow> int) \<Rightarrow> bloomFilterLockFree \<Rightarrow> int" where
  "bl_EstimatedCount logEstimate bf =
     (let setBits = foldl (\<lambda>count word. count + OnesCount64 word) 0 (bl_bits bf)
      in if setBits = 0 then 0
         else if int setBits \<ge> sint (bl_numBits bf) then sint (bl_numBits bf) div int (bl_numHash bf)
         else logEstimate setBits (bl_numBits bf) (bl_numHash bf))"

subsection \<open>Lanes\<close>

fun lanes :: "nat list \<Rightarrow> nat" where
  "lanes [] = 0"
| "lanes (d # ds) = d + 256 * lanes ds"

lemma lane_or: "(d :: nat) < 256 \<Longrightarrow> d + 256 * a = d OR push_bit 8 a"
proof -
  assume "d < 256"
  then have d: "take_bit 8 d = d" by (simp add: take_bit_nat_eq_self)
  have "d AND push_bit 8 a = 0"
    by (subst d [symmetric]) (rule bit_eqI, auto simp: bit_simps)
  then have "d + push_bit 8 a = d OR push_bit 8 a" by (rule disjunctive_add_eq_or)
  then show ?thesis by (simp add: push_bit_eq_mult mult.commute)
qed

lemma bit_lane: "(d :: nat) < 256 \<Longrightarrow> bit (d + 256 * a) n = (if n < 8 then bit d n else bit a (n - 8))"
proof -
  assume d: "d < 256"
  then have "take_bit 8 d = d" by (simp add: take_bit_nat_eq_self)
  then have "bit d n \<Longrightarrow> n < 8" by (metis bit_take_bit_iff)
  then show ?thesis using d by (auto simp: lane_or bit_simps)
qed

lemma and_lane: "(d :: nat) < 256 \<Longrightarrow> m < 256 \<Longrightarrow> (d + 256 * a) AND (m + 256 * b) = (d AND m) + 256 * (a AND b)"
proof (rule bit_eqI)
  fix n assume a: "d < 256" "m < 256"
  have "take_bit 8 (d AND m) = d AND m" using a by (simp add: take_bit_and take_bit_nat_eq_self)
  then have "d AND m < 256" using take_bit_nat_less_exp [of 8 "d AND m"] by simp
  then show "bit ((d + 256 * a) AND (m + 256 * b)) n = bit ((d AND m) + 256 * (a AND b)) n"
    using a by (simp add: bit_lane bit_and_iff)
qed

lemma shift_and_lane:
  "(d :: nat) < 256 \<Longrightarrow> j \<le> 8 \<Longrightarrow> m < 2 ^ (8 - j) \<Longrightarrow>
    drop_bit j (d + 256 * a) AND (m + 256 * b) = (drop_bit j d AND m) + 256 * (drop_bit j a AND b)"
proof (rule bit_eqI)
  fix n assume a: "d < 256" "j \<le> 8" "m < 2 ^ (8 - j)"
  have t: "take_bit (8 - j) m = m" using a(3) by (simp add: take_bit_nat_eq_self)
  then have m: "bit m n \<Longrightarrow> n + j < 8" for n using a(2) by (metis bit_take_bit_iff less_diff_conv)
  have "m < 2 ^ 8" using a(3) power_increasing [of "8 - j" 8 "2::nat"] by linarith
  then have m8: "m < 256" by simp
  have "take_bit 8 (drop_bit j d AND m) = drop_bit j d AND m"
    by (rule bit_eqI) (use m in \<open>fastforce simp: bit_take_bit_iff bit_and_iff\<close>)
  then have d8: "drop_bit j d AND m < 256" using take_bit_nat_less_exp [of 8 "drop_bit j d AND m"] by simp
  show "bit (drop_bit j (d + 256 * a) AND (m + 256 * b)) n =
      bit ((drop_bit j d AND m) + 256 * (drop_bit j a AND b)) n"
    using m [of n] by (auto simp: bit_lane [OF d8] bit_lane [OF a(1)] bit_lane [OF m8] bit_and_iff bit_drop_bit_eq add.commute
        intro: arg_cong [of _ _ "bit a"])
qed

lemma lanes_less: "\<forall>d\<in>set ds. d < 256 \<Longrightarrow> lanes ds < 256 ^ length ds"
proof (induction ds)
  case (Cons d ds)
  then have "lanes ds + 1 \<le> 256 ^ length ds" "d < 256" by auto
  then have "256 * (lanes ds + 1) \<le> 256 * 256 ^ length ds" by (intro mult_le_mono2)
  then show ?case using \<open>d < 256\<close> by simp
qed simp

lemma lanes_of: "n < 256 ^ k \<Longrightarrow> \<exists>ds. length ds = k \<and> (\<forall>d\<in>set ds. d < 256) \<and> n = lanes ds"
proof (induction k arbitrary: n)
  case (Suc k)
  then have "n div 256 < 256 ^ k" by (simp add: less_mult_imp_div_less mult.commute)
  with Suc.IH obtain ds where "length ds = k" "\<forall>d\<in>set ds. d < 256" "n div 256 = lanes ds" by blast
  then show ?case
    using div_mult_mod_eq [of n 256] by (intro exI [of _ "n mod 256 # ds"]) (auto simp: mult.commute)
qed simp

lemma lanes_and:
  "\<forall>d\<in>set ds. d < 256 \<Longrightarrow> m < 256 \<Longrightarrow> lanes ds AND lanes (replicate (length ds) m) = lanes (map (\<lambda>d. d AND m) ds)"
  by (induction ds) (auto simp: and_lane)

lemma lanes_shift_and:
  "\<forall>d\<in>set ds. d < 256 \<Longrightarrow> j \<le> 8 \<Longrightarrow> m < 2 ^ (8 - j) \<Longrightarrow>
    drop_bit j (lanes ds) AND lanes (replicate (length ds) m) = lanes (map (\<lambda>d. drop_bit j d AND m) ds)"
  by (induction ds) (auto simp: shift_and_lane)

lemma lanes_add: "lanes (map f ds) + lanes (map g ds) = lanes (map (\<lambda>d. f d + g d) ds)"
  by (induction ds) auto

lemma lanes_diff:
  "\<forall>d\<in>set ds. g d \<le> f d \<Longrightarrow>
    lanes (map g ds) \<le> lanes (map f ds) \<and> lanes (map f ds) - lanes (map g ds) = lanes (map (\<lambda>d. f d - g d) ds)"
  by (induction ds) (auto simp: add_le_mono)

text \<open>The step that adds the two halves of a byte reads four bits of the next lane, and masks them.\<close>

lemma fold_lane:
  assumes "(d :: nat) \<le> 0x44" "a mod 16 \<le> 4"
  shows "((d + 256 * a) + drop_bit 4 (d + 256 * a)) AND (15 + 256 * b) =
    (d + d div 16) mod 16 + 256 * ((a + drop_bit 4 a) AND b)"
proof -
  have "drop_bit 4 (d + 256 * a) = d div 16 + 16 * a" by (simp add: drop_bit_eq_div)
  moreover have "16 * a = 16 * (a mod 16) + 256 * (a div 16)" using div_mult_mod_eq [of a 16] by linarith
  ultimately have s: "(d + 256 * a) + drop_bit 4 (d + 256 * a) = (d + d div 16 + 16 * (a mod 16)) + 256 * (a + drop_bit 4 a)"
    by (simp add: drop_bit_eq_div)
  have l: "d + d div 16 + 16 * (a mod 16) < 256" using assms by linarith
  have "(d + d div 16 + 16 * (a mod 16)) AND 15 = take_bit 4 (d + d div 16 + 16 * (a mod 16))"
    by (simp add: take_bit_eq_mask mask_eq_exp_minus_1)
  also have "\<dots> = (d + d div 16) mod 16" by (simp add: take_bit_eq_mod)
  finally show ?thesis unfolding s by (subst and_lane [OF l]) simp_all
qed

lemma lanes_fold:
  "\<forall>d\<in>set ds. d \<le> 0x44 \<and> d mod 16 \<le> 4 \<Longrightarrow>
    (lanes ds + drop_bit 4 (lanes ds)) AND lanes (replicate (length ds) 15) = lanes (map (\<lambda>d. (d + d div 16) mod 16) ds)"
proof (induction ds)
  case (Cons d ds)
  have "lanes ds mod 16 \<le> 4"
  proof (cases ds)
    case (Cons e es)
    have "(256 * lanes es) mod 16 = 0" by simp
    then have "lanes ds mod 16 = e mod 16" by (simp add: Cons mod_add_eq [symmetric])
    then show ?thesis using Cons.prems Cons by simp
  qed simp
  then show ?case using Cons fold_lane [of d "lanes ds"] by simp
qed simp

subsection \<open>Counting the bits\<close>

definition pair_sums :: "nat \<Rightarrow> nat" where
  "pair_sums d = d - (drop_bit 1 d AND 0x55)"

definition nibble_sums :: "nat \<Rightarrow> nat" where
  "nibble_sums d = (pair_sums d AND 0x33) + (drop_bit 2 (pair_sums d) AND 0x33)"

definition byte_sum :: "nat \<Rightarrow> nat" where
  "byte_sum d = (nibble_sums d + nibble_sums d div 16) mod 16"

definition byte_good :: "nat \<Rightarrow> bool" where
  "byte_good d \<longleftrightarrow> drop_bit 1 d AND 0x55 \<le> d \<and> pair_sums d < 256 \<and> nibble_sums d \<le> 0x44 \<and> nibble_sums d mod 16 \<le> 4 \<and>
     byte_sum d = length (filter (bit d) [0..<8])"

lemma byte_table: "list_all byte_good (0 # 1 # [2..<256])"
proof -
  have "[0..<8] = [0, 1, 2, 3, 4, 5, 6, 7 :: nat]" by (simp add: numeral_eq_Suc)
  then show ?thesis
    by (simp add: upt_rec_numeral) (simp add: byte_good_def pair_sums_def nibble_sums_def byte_sum_def bit_0)
qed

lemma byte_facts:
  assumes "d < 256"
  shows "drop_bit 1 d AND 0x55 \<le> d" "pair_sums d < 256" "nibble_sums d \<le> 0x44" "nibble_sums d mod 16 \<le> 4"
    "byte_sum d = length (filter (bit d) [0..<8])" "byte_sum d \<le> 8"
proof -
  have "d \<in> set (0 # 1 # [2..<256])"
    unfolding list.set insert_iff set_upt atLeastLessThan_iff using assms by linarith
  then have "byte_good d" using byte_table unfolding list_all_iff by (rule bspec [rotated])
  then show "drop_bit 1 d AND 0x55 \<le> d" "pair_sums d < 256" "nibble_sums d \<le> 0x44" "nibble_sums d mod 16 \<le> 4"
    and b: "byte_sum d = length (filter (bit d) [0..<8])"
    unfolding byte_good_def by blast+
  show "byte_sum d \<le> 8" unfolding b using length_filter_le [of "bit d" "[0..<8]"] by simp
qed

lemma lanes_ones:
  "\<forall>d\<in>set ds. d < 256 \<Longrightarrow> length (filter (bit (lanes ds)) [0..<8 * length ds]) = sum_list (map byte_sum ds)"
proof (induction ds)
  case (Cons d ds)
  let ?n = "8 * length ds"
  have d: "d < 256" using Cons.prems by simp
  have up: "[0..<8 + ?n] = [0..<8] @ map (\<lambda>i. i + 8) [0..<?n]"
    using upt_add_eq_append [of 0 8 ?n] by (simp add: map_add_upt add.commute)
  have "filter (bit (lanes (d # ds))) [0..<8] = filter (bit d) [0..<8]"
    by (rule filter_cong) (simp_all add: bit_lane [OF d])
  moreover have "filter (bit (lanes (d # ds))) (map (\<lambda>i. i + 8) [0..<?n]) = map (\<lambda>i. i + 8) (filter (bit (lanes ds)) [0..<?n])"
    by (simp add: filter_map comp_def bit_lane [OF d])
  ultimately have "length (filter (bit (lanes (d # ds))) [0..<8 + ?n]) =
      length (filter (bit d) [0..<8]) + length (filter (bit (lanes ds)) [0..<?n])"
    unfolding up by simp
  then show ?case using Cons byte_facts(5) [OF d] by simp
qed simp

lemma unat_plus_less: "unat x + unat y < 2 ^ 64 \<Longrightarrow> unat (x + y :: u64) = unat x + unat y"
  by (simp add: unat_word_ariths)

text \<open>The last three steps add the eight lanes into the lowest one.\<close>

lemma sum_eight:
  fixes y :: u64
  assumes y: "unat y = lanes gs" and len: "length gs = 8" and le: "\<forall>g\<in>set gs. g \<le> 8"
  shows "(let x = y + drop_bit 8 y; x = x + drop_bit 16 x; x = x + drop_bit 32 x in unat (x AND 0x7f)) = sum_list gs"
proof -
  obtain a b c d e f g h where gs: "gs = [a, b, c, d, e, f, g, h]"
    using len by (auto simp: numeral_eq_Suc length_Suc_conv)
  have small: "a \<le> 8" "b \<le> 8" "c \<le> 8" "d \<le> 8" "e \<le> 8" "f \<le> 8" "g \<le> 8" "h \<le> 8" using le gs by auto
  have lt: "lanes xs < 2 ^ 64" if "length xs = 8" "\<forall>x\<in>set xs. x < 256" for xs
    using lanes_less [OF that(2)] that(1) by simp
  have seven: "(2 :: nat) ^ 7 = 128" by simp
  have md: "(k + 256 * m) mod 128 = k mod 128" for k m :: nat
  proof -
    have "256 * m = 2 * m * 128" by simp
    then show ?thesis by (simp only: mod_mult_self1)
  qed
  have d1: "lanes (x # xs) div 256 = lanes xs" if "x < 256" for x xs using that by simp
  define y1 where "y1 = y + drop_bit 8 y"
  define y2 where "y2 = y1 + drop_bit 16 y1"
  define y3 where "y3 = y2 + drop_bit 32 y2"
  have drop: "unat (drop_bit n w) = unat w div 2 ^ n" for n and w :: u64
    using drop_bit_eq_div [of n "unat w"] by (simp only: unat_drop_bit_eq)
  have "unat y + unat (drop_bit 8 y) = lanes [a + b, b + c, c + d, d + e, e + f, f + g, g + h, h]"
    using d1 [of a "[b, c, d, e, f, g, h]"] small unfolding drop y gs by simp
  moreover have "\<dots> < 2 ^ 64" by (rule lt) (use small in auto)
  ultimately have u1: "unat y1 = lanes [a + b, b + c, c + d, d + e, e + f, f + g, g + h, h]"
    unfolding y1_def by (subst unat_plus_less) simp_all
  have "unat y1 div 2 ^ 16 = lanes [c + d, d + e, e + f, f + g, g + h, h]"
    using d1 [of "a + b" "[b + c, c + d, d + e, e + f, f + g, g + h, h]"]
      d1 [of "b + c" "[c + d, d + e, e + f, f + g, g + h, h]"] small
    unfolding u1 by (simp add: div_mult2_eq [of _ 256 256, simplified])
  then have "unat y1 + unat (drop_bit 16 y1) =
      lanes [a + b + c + d, b + c + d + e, c + d + e + f, d + e + f + g, e + f + g + h, f + g + h, g + h, h]"
    unfolding drop u1 by simp
  moreover have "\<dots> < 2 ^ 64" by (rule lt) (use small in auto)
  ultimately have u2: "unat y2 =
      lanes [a + b + c + d, b + c + d + e, c + d + e + f, d + e + f + g, e + f + g + h, f + g + h, g + h, h]"
    unfolding y2_def by (subst unat_plus_less) simp_all
  have "unat y2 div 2 ^ 32 = unat y2 div 256 div 256 div 256 div 256" by (simp add: div_mult2_eq [symmetric])
  also have "\<dots> = lanes [e + f + g + h, f + g + h, g + h, h]"
    unfolding u2 using small by (subst d1, simp)+ simp
  finally have "unat y2 + unat (drop_bit 32 y2) = lanes [a + b + c + d + (e + f + g + h), b + c + d + e + (f + g + h),
      c + d + e + f + (g + h), d + e + f + g + h, e + f + g + h, f + g + h, g + h, h]"
    unfolding drop u2 by simp
  moreover have "\<dots> < 2 ^ 64" by (rule lt) (use small in auto)
  ultimately have u3: "unat y3 = lanes [a + b + c + d + (e + f + g + h), b + c + d + e + (f + g + h),
      c + d + e + f + (g + h), d + e + f + g + h, e + f + g + h, f + g + h, g + h, h]"
    unfolding y3_def by (subst unat_plus_less) simp_all
  have "unat (y3 AND 0x7f) = unat (y3 AND mask 7)" by (simp add: mask_eq_exp_minus_1)
  also have "\<dots> = take_bit 7 (unat y3)" by (simp only: take_bit_eq_mask [symmetric] unsigned_take_bit_eq)
  also have "\<dots> = unat y3 mod 2 ^ 7" by (simp only: take_bit_eq_mod)
  also have "\<dots> = (a + b + c + d + (e + f + g + h)) mod 128"
    unfolding u3 lanes.simps(2) [of "a + b + c + d + (e + f + g + h)"] using md [of "a + b + c + d + (e + f + g + h)"] by (simp only: seven)
  also have "\<dots> = sum_list gs" using small by (simp add: gs)
  finally show ?thesis unfolding Let_def y3_def y2_def y1_def .
qed

text \<open>
  \<open>popcount\<close> of the locked Bloom filter adds up the bits of a word in parallel lanes; the result is the
  number of bits set, for every word, so the two doorkeepers report the same fill.
\<close>

theorem popcount_OnesCount: "popcount x = OnesCount64 x"
proof -
  define x1 where "x1 = x - (drop_bit 1 x AND 0x5555555555555555)"
  define x2 where "x2 = (x1 AND 0x3333333333333333) + (drop_bit 2 x1 AND 0x3333333333333333)"
  define x3 where "x3 = (x2 + drop_bit 4 x2) AND 0x0f0f0f0f0f0f0f0f"
  have "unat x < 256 ^ 8" using unsigned_less [of x] by simp
  then obtain ds where ds: "length ds = 8" "\<forall>d\<in>set ds. d < 256" "unat x = lanes ds" using lanes_of by blast
  have rep: "replicate 8 m = [m, m, m, m, m, m, m, m]" for m :: nat by (simp add: numeral_eq_Suc)
  have m: "lanes (replicate 8 0x55) = 0x5555555555555555" "lanes (replicate 8 0x33) = 0x3333333333333333"
    "lanes (replicate 8 15) = 0x0f0f0f0f0f0f0f0f" by (simp_all add: rep)
  have lt: "lanes xs < 2 ^ 64" if "length xs = 8" "\<forall>x\<in>set xs. x < 256" for xs
    using lanes_less [OF that(2)] that(1) by simp
  have "unat (drop_bit 1 x AND 0x5555555555555555) = lanes (map (\<lambda>d. drop_bit 1 d AND 0x55) ds)"
    using lanes_shift_and [OF ds(2), where j = 1 and m = "0x55"] ds(1) m(1) ds(3) by (simp add: unsigned_and_eq unat_drop_bit_eq)
  moreover have "lanes (map (\<lambda>d. drop_bit 1 d AND 0x55) ds) \<le> lanes ds \<and>
      lanes ds - lanes (map (\<lambda>d. drop_bit 1 d AND 0x55) ds) = lanes (map pair_sums ds)"
    using lanes_diff [of ds "\<lambda>d. drop_bit 1 d AND 0x55" "\<lambda>d. d"] byte_facts(1) ds(2) by (simp add: pair_sums_def [abs_def])
  ultimately have u1: "unat x1 = lanes (map pair_sums ds)"
    unfolding x1_def using ds(3) by (subst unat_sub) (simp_all add: word_le_nat_alt)
  have b1: "\<forall>d\<in>set (map pair_sums ds). d < 256" using ds(2) byte_facts(2) by simp
  have "unat (x1 AND 0x3333333333333333) = lanes (map (\<lambda>d. d AND 0x33) (map pair_sums ds))"
    "unat (drop_bit 2 x1 AND 0x3333333333333333) = lanes (map (\<lambda>d. drop_bit 2 d AND 0x33) (map pair_sums ds))"
    using lanes_and [OF b1, where m = "0x33"] lanes_shift_and [OF b1, where j = 2 and m = "0x33"] ds(1) m(2) u1
    by (simp_all add: unsigned_and_eq unat_drop_bit_eq)
  then have "unat (x1 AND 0x3333333333333333) + unat (drop_bit 2 x1 AND 0x3333333333333333) = lanes (map nibble_sums ds)"
    by (simp add: lanes_add nibble_sums_def [abs_def] comp_def)
  moreover have b2: "\<forall>d\<in>set (map nibble_sums ds). d \<le> 0x44 \<and> d mod 16 \<le> 4" using ds(2) byte_facts(3,4) by simp
  moreover have "lanes (map nibble_sums ds) < 2 ^ 64" by (rule lt) (use ds(1) b2 in force)+
  ultimately have u2: "unat x2 = lanes (map nibble_sums ds)"
    unfolding x2_def by (subst unat_plus_less) simp_all
  have "lanes (map nibble_sums ds) \<le> lanes (replicate 8 0x44)"
  proof -
    have "lanes (map nibble_sums ds) \<le> lanes (map (\<lambda>_. 0x44) ds)"
      using lanes_diff [of ds nibble_sums "\<lambda>_. 0x44"] b2 by simp
    then show ?thesis using ds(1) by (simp add: map_replicate_const)
  qed
  then have "unat x2 \<le> 0x4444444444444444" by (simp add: u2 rep)
  moreover have "unat (drop_bit 4 x2) = unat x2 div 2 ^ 4"
    using drop_bit_eq_div [of 4 "unat x2"] by (simp only: unat_drop_bit_eq)
  moreover have "unat x2 div 2 ^ 4 \<le> unat x2" by (rule div_le_dividend)
  ultimately have "unat x2 + unat (drop_bit 4 x2) \<le> 2 * 0x4444444444444444" by linarith
  then have "unat x2 + unat (drop_bit 4 x2) < 2 ^ 64" by simp
  then have "unat (x2 + drop_bit 4 x2) = lanes (map nibble_sums ds) + drop_bit 4 (lanes (map nibble_sums ds))"
    by (subst unat_plus_less) (simp_all add: unat_drop_bit_eq u2)
  then have u3: "unat x3 = lanes (map byte_sum ds)"
    unfolding x3_def using lanes_fold [OF b2] ds(1) m(3)
    by (simp add: unsigned_and_eq byte_sum_def [abs_def] comp_def)
  have "popcount x = sum_list (map byte_sum ds)"
    using sum_eight [OF u3] ds(1,2) byte_facts(6)
    by (simp add: popcount_def x1_def x2_def x3_def Let_def)
  moreover have "OnesCount64 x = length (filter (bit (lanes ds)) [0..<8 * length ds])"
    unfolding OnesCount64_def using ds(1)
    by (intro arg_cong [of _ _ length] filter_cong) (simp_all add: ds(3) [symmetric] bit_unsigned_iff)
  ultimately show ?thesis using lanes_ones [OF ds(2)] by simp
qed

subsection \<open>The fill ratios\<close>

lemma foldl_count: "foldl (\<lambda>count word. count + f word) (n :: nat) ws = n + sum_list (map f ws)"
  by (induction ws arbitrary: n) auto

text \<open>Counting word by word counts the bits of the slice.\<close>

lemma count_bits: "sum_list (map OnesCount64 ws) = length (filter (testBit ws) [0..<64 * length ws])"
proof (induction ws)
  case (Cons w ws)
  let ?n = "64 * length ws"
  have up: "[0..<64 + ?n] = [0..<64] @ map (\<lambda>i. i + 64) [0..<?n]"
    using upt_add_eq_append [of 0 64 ?n] by (simp add: map_add_upt add.commute)
  have "filter (testBit (w # ws)) [0..<64] = filter (bit w) [0..<64]"
    by (rule filter_cong) (simp_all add: testBit_bit)
  moreover have "filter (testBit (w # ws)) (map (\<lambda>i. i + 64) [0..<?n]) = map (\<lambda>i. i + 64) (filter (testBit ws) [0..<?n])"
    by (simp add: filter_map comp_def testBit_bit [abs_def])
  ultimately have "length (filter (testBit (w # ws)) [0..<64 + ?n]) =
      OnesCount64 w + length (filter (testBit ws) [0..<?n])"
    unfolding up by (simp add: OnesCount64_def)
  then show ?case using Cons by simp
qed simp

theorem fill_ratio_is_fraction:
  assumes "bf_inv d" "bl_inv b"
  shows "bf_FillRatio d = of_nat (length (filter (testBit (bf_bits d)) [0..<unat (bf_numBits d)])) / of_nat (unat (bf_numBits d)) \<and>
    bl_FillRatio b = of_nat (length (filter (testBit (bl_bits b)) [0..<unat (bl_numBits b)])) / of_nat (unat (bl_numBits b)) \<and>
    0 \<le> bf_FillRatio d \<and> bf_FillRatio d \<le> 1 \<and> 0 \<le> bl_FillRatio b \<and> bl_FillRatio b \<le> 1"
proof -
  have n: "unat (bf_numBits d) = 64 * length (bf_bits d)" "unat (bl_numBits b) = 64 * length (bl_bits b)"
    using assms by (simp_all add: bf_inv_def bl_inv_def)
  have r: "bf_FillRatio d = of_nat (length (filter (testBit (bf_bits d)) [0..<unat (bf_numBits d)])) / of_nat (unat (bf_numBits d))"
    "bl_FillRatio b = of_nat (length (filter (testBit (bl_bits b)) [0..<unat (bl_numBits b)])) / of_nat (unat (bl_numBits b))"
    unfolding bf_FillRatio_def bl_FillRatio_def foldl_count popcount_OnesCount n by (simp_all add: count_bits)
  have le: "0 \<le> (of_nat (length (filter P [0..<n])) / of_nat n :: rat) \<and> (of_nat (length (filter P [0..<n])) / of_nat n :: rat) \<le> 1"
    for P and n :: nat
  proof -
    have "length (filter P [0..<n]) \<le> n" using length_filter_le [of P "[0..<n]"] by simp
    then show ?thesis by (cases "n = 0") (simp_all add: divide_le_eq_1)
  qed
  show ?thesis unfolding r(1) r(2) using le by blast
qed

end
