(* ===== verification/Clock.thy ===== *)
theory Clock
  imports Prelude
begin

text \<open>
  \<open>internal/clock/clock.go\<close>: the cached clock that all components read. A goroutine copies the system
  time into the cache at every tick until it is stopped. The system time is the environment's: it is
  part of the state and changes by an event of its own. Everywhere else the development takes the
  result of \<open>NowNano\<close> as an argument; the theorems here say what such an argument can be.
\<close>

record clock =
  clk_cachedNano :: int
  clk_system :: int \<comment> \<open>\<open>time.Now().UnixNano()\<close>\<close>
  clk_stopCh :: bool \<comment> \<open>the channel is closed\<close>
  clk_running :: bool \<comment> \<open>the goroutine has not returned\<close>

definition clk_init :: "int \<Rightarrow> clock" where
  "clk_init system = \<lparr>clk_cachedNano = system, clk_system = system, clk_stopCh = False, clk_running = True\<rparr>"

text \<open>
  \<open>Tick\<close> and \<open>StopCase\<close> are the two cases of the goroutine's select. When both are ready it may take
  either, so it can still copy the time after \<open>Stop\<close>.
\<close>

datatype clk_event =
    SystemTime int
  | Tick
  | StopCase
  | StopCall

fun clk_step :: "clock \<Rightarrow> clk_event \<Rightarrow> clock" where
  "clk_step c (SystemTime t) = c\<lparr>clk_system := t\<rparr>"
| "clk_step c Tick = (if clk_running c then c\<lparr>clk_cachedNano := clk_system c\<rparr> else c)"
| "clk_step c StopCase = (if clk_running c \<and> clk_stopCh c then c\<lparr>clk_running := False\<rparr> else c)"
| "clk_step c StopCall = c\<lparr>clk_stopCh := True\<rparr>"

definition clk_run :: "clock \<Rightarrow> clk_event list \<Rightarrow> clock" where
  "clk_run c es = foldl clk_step c es"

definition NowNano :: "clock \<Rightarrow> int" where
  "NowNano c = clk_cachedNano c"

text \<open>\<open>time.Unix(0, nsec)\<close> as seconds and nanoseconds.\<close>

definition clk_Now :: "clock \<Rightarrow> int \<times> int" where
  "clk_Now c = (NowNano c div 10 ^ 9, NowNano c mod 10 ^ 9)"

text \<open>The system times that occur in a run; a monotonic system clock never goes back.\<close>

fun system_times :: "clk_event list \<Rightarrow> int list" where
  "system_times [] = []"
| "system_times (SystemTime t # es) = t # system_times es"
| "system_times (e # es) = system_times es"

definition monotonic :: "int \<Rightarrow> clk_event list \<Rightarrow> bool" where
  "monotonic t es = sorted (t # system_times es)"

lemma NowNano_reading:
  "NowNano (clk_run c es) \<in> {NowNano c, clk_system c} \<union> set (system_times es)"
proof (induction es arbitrary: c)
  case (Cons e es)
  from Cons [of "clk_step c e"] show ?case
    by (cases e) (auto simp: clk_run_def NowNano_def split: if_splits)
qed (simp add: clk_run_def)

lemma clk_run_monotonic:
  "monotonic (clk_system c) es \<Longrightarrow> NowNano c \<le> clk_system c \<Longrightarrow>
    NowNano c \<le> NowNano (clk_run c es) \<and> NowNano (clk_run c es) \<le> clk_system (clk_run c es)"
proof (induction es arbitrary: c)
  case (Cons e es)
  have m: "monotonic (clk_system (clk_step c e)) es" "clk_system c \<le> clk_system (clk_step c e)"
    using Cons.prems(1) by (cases e; auto simp: monotonic_def)+
  moreover have "NowNano c \<le> NowNano (clk_step c e)" "NowNano (clk_step c e) \<le> clk_system (clk_step c e)"
    using Cons.prems m(2) by (cases e; auto simp: NowNano_def)+
  ultimately show ?case using Cons.IH [of "clk_step c e"] by (force simp: clk_run_def)
qed (simp add: clk_run_def)

text \<open>
  With a monotonic system clock the cached time never goes back and is never in the future; right after
  a tick it is the system time.
\<close>

theorem cached_time_is_past:
  assumes "monotonic t0 (es @ fs)"
  shows "NowNano (clk_run (clk_init t0) es) \<le> NowNano (clk_run (clk_init t0) (es @ fs)) \<and>
    NowNano (clk_run (clk_init t0) es) \<le> clk_system (clk_run (clk_init t0) es) \<and>
    (clk_running (clk_run (clk_init t0) es) \<longrightarrow>
      NowNano (clk_run (clk_init t0) (es @ [Tick])) = clk_system (clk_run (clk_init t0) es))"
proof -
  let ?c = "clk_run (clk_init t0) es"
  have times: "system_times (as @ bs) = system_times as @ system_times bs" for as bs
    by (induction as rule: system_times.induct) simp_all
  have sys: "clk_system (clk_run c as) = last (clk_system c # system_times as)" for c as
  proof (induction as arbitrary: c)
    case (Cons e as)
    then show ?case by (cases e) (auto simp: clk_run_def split: if_splits)
  qed (simp add: clk_run_def)
  have s: "sorted ((t0 # system_times es) @ system_times fs)" using assms by (simp add: monotonic_def times)
  have a: "NowNano ?c \<le> clk_system ?c"
    using clk_run_monotonic [of "clk_init t0" es] s by (auto simp: clk_init_def NowNano_def monotonic_def sorted_append)
  have "clk_system ?c = last (t0 # system_times es)" by (simp add: sys clk_init_def)
  moreover have "last (t0 # system_times es) \<in> set (t0 # system_times es)" by (rule last_in_set) simp
  ultimately have "monotonic (clk_system ?c) fs"
    using s unfolding monotonic_def sorted_append sorted_simps by auto
  then have "NowNano ?c \<le> NowNano (clk_run ?c fs)" using clk_run_monotonic [of ?c fs] a by simp
  moreover have "clk_run ?c fs = clk_run (clk_init t0) (es @ fs)" by (simp add: clk_run_def)
  moreover have "NowNano (clk_run (clk_init t0) (es @ [Tick])) = clk_system ?c" if "clk_running ?c"
    using that by (simp add: clk_run_def NowNano_def)
  ultimately show ?thesis using a by simp
qed

text \<open>Once the goroutine has returned the time stands still, and with it every expiration.\<close>

lemma stopped_clock_stands_still:
  "\<not> clk_running c \<Longrightarrow> NowNano (clk_run c es) = NowNano c \<and> \<not> clk_running (clk_run c es)"
proof (induction es arbitrary: c)
  case (Cons e es)
  have "\<not> clk_running (clk_step c e)" "NowNano (clk_step c e) = NowNano c"
    using Cons.prems by (cases e; simp add: NowNano_def)+
  then show ?case using Cons.IH [of "clk_step c e"] by (simp add: clk_run_def)
qed (simp add: clk_run_def)

end
