(* ===== verification/ExpiryWorker.thy ===== *)
theory ExpiryWorker
  imports CacheReach Clock
begin

text \<open>
  The goroutine of \<open>cache.go\<close> that expires entries: \<open>expirationWorker\<close>, the loop around
  \<open>removeExpired\<close>. A run is the list of the cases its \<open>select\<close> takes, each tick with the reading of the
  clock inside \<open>removeExpired\<close>.
\<close>

datatype worker_case = CtxDone | TickerC int

text \<open>The worker's effect on the cache, and whether it has returned; after the list it waits.\<close>

fun expirationWorker :: "('k, 'v) Cache \<Rightarrow> worker_case list \<Rightarrow> ('k, 'v) Cache \<times> bool" where
  "expirationWorker c [] = (c, False)"
| "expirationWorker c (CtxDone # _) = (c, True)"
| "expirationWorker c (TickerC now # cs) = expirationWorker (c_removeExpired c now) cs"

lemma expirationWorker_append:
  "expirationWorker c (map TickerC ts @ cs) = expirationWorker (foldl c_removeExpired c ts) cs"
  by (induction ts arbitrary: c) simp_all

text \<open>Ticks of an open cache are steps of it, so a run of the worker is a run of the cache.\<close>

lemma removeExpired_closed:
  fixes c :: "('k, 'v) Cache"
  shows "c_closed (c_removeExpired c now) = c_closed c"
proof -
  obtain w' xs where a: "w_Advance (c_wheel c) now = (w', xs)" by fastforce
  have "c_closed (expire_item now c x) = c_closed c" for c :: "('k, 'v) Cache" and x
    by (simp add: expire_item_def Let_def drop_key_def radix_del_def on_radix_def emit_def split: option.splits prod.splits)
  then have "c_closed (foldl (expire_item now) c xs) = c_closed c" for c :: "('k, 'v) Cache" and xs
    by (induction xs arbitrary: c) simp_all
  then show ?thesis using a by (simp add: c_removeExpired_def)
qed

lemma worker_reaches:
  "reaches c0 n c \<Longrightarrow> \<not> c_closed c \<Longrightarrow>
    reaches c0 (n + length ts) (fst (expirationWorker c (map TickerC ts)))"
proof (induction ts arbitrary: c n)
  case (Cons now ts)
  have "reaches c0 (Suc n) (c_removeExpired c now)"
    using Cons.prems by (meson reaches.then_step cache_step.step_expire)
  then show ?case using Cons.IH [of "Suc n" "c_removeExpired c now"] Cons.prems(2) by (simp add: removeExpired_closed)
qed simp

text \<open>
  Whatever the ticks, the worker removes only expired entries; when no deadline is hit exactly, it
  leaves no entry that was overdue for a whole tick of the wheel at any of its ticks.
\<close>

lemma worker_sweeps:
  assumes "core_inv c" "wheel_inv c" "\<forall>t\<in>set ts. 0 \<le> t" "\<forall>k e. c_map c k = Some e \<longrightarrow> eExpireAt e \<notin> set ts"
    and "cs = [] \<or> hd cs = CtxDone" and "expirationWorker c (map TickerC ts @ cs) = (c', returned)"
  shows "core_inv c' \<and> wheel_inv c' \<and> returned = (cs \<noteq> []) \<and>
    (\<forall>k e. c_map c' k = Some e \<longrightarrow>
       c_map c k = Some e \<and> (eExpireAt e \<le> 0 \<or> (\<forall>t\<in>set ts. t - w_resolution (c_wheel c) < eExpireAt e))) \<and>
    (\<forall>k e. c_map c k = Some e \<longrightarrow> (\<forall>t\<in>set ts. \<not> IsExpired e t) \<longrightarrow> c_map c' k = Some e)"
proof -
  let ?spec = "\<lambda>ts c. core_inv (foldl c_removeExpired c ts) \<and> wheel_inv (foldl c_removeExpired c ts) \<and>
    (\<forall>k e. c_map (foldl c_removeExpired c ts) k = Some e \<longrightarrow>
       c_map c k = Some e \<and> (eExpireAt e \<le> 0 \<or> (\<forall>t\<in>set ts. t - w_resolution (c_wheel c) < eExpireAt e))) \<and>
    (\<forall>k e. c_map c k = Some e \<longrightarrow> (\<forall>t\<in>set ts. \<not> IsExpired e t) \<longrightarrow> c_map (foldl c_removeExpired c ts) k = Some e)"
  have spec: "?spec ts c" using assms(1-4)
  proof (induction ts arbitrary: c)
    case (Cons t ts)
    have t: "0 \<le> t" using Cons.prems(3) by simp
    note s = c_removeExpired_spec [OF Cons.prems(1,2) t]
    have left: "c_map c k = Some e" if "c_map (c_removeExpired c t) k = Some e" for k e using s(3) [OF that] by blast
    have "wheel_inv (c_removeExpired c t)" using s(6) Cons.prems(4) by (metis list.set_intros(1))
    moreover have "\<forall>k e. c_map (c_removeExpired c t) k = Some e \<longrightarrow> eExpireAt e \<notin> set ts"
      using Cons.prems(4) left by (metis list.set_intros(2))
    moreover have "\<forall>t\<in>set ts. 0 \<le> t" using Cons.prems(3) by simp
    ultimately have ih: "?spec ts (c_removeExpired c t)" using Cons.IH s(1) by blast
    have due: "eExpireAt e \<le> 0 \<or> (\<forall>u\<in>set (t # ts). u - w_resolution (c_wheel c) < eExpireAt e)"
      if "c_map (foldl c_removeExpired (c_removeExpired c t) ts) k = Some e" for k e
    proof -
      have "c_map (c_removeExpired c t) k = Some e"
        "eExpireAt e \<le> 0 \<or> (\<forall>u\<in>set ts. u - w_resolution (c_wheel c) < eExpireAt e)"
        using ih that unfolding s(5) by blast+
      then show ?thesis using s(3) by auto
    qed
    have stays: "c_map (foldl c_removeExpired (c_removeExpired c t) ts) k = Some e"
      if "c_map c k = Some e" "\<forall>u\<in>set (t # ts). \<not> IsExpired e u" for k e
    proof -
      have "\<not> IsExpired e t" "\<forall>u\<in>set ts. \<not> IsExpired e u" using that(2) by simp_all
      then show ?thesis using ih s(4) [OF that(1)] by blast
    qed
    have old: "c_map c k = Some e" if "c_map (foldl c_removeExpired (c_removeExpired c t) ts) k = Some e" for k e
      using ih left that by blast
    show ?case unfolding foldl.simps
    proof (intro conjI allI impI)
      show "core_inv (foldl c_removeExpired (c_removeExpired c t) ts)" using ih by (rule conjunct1)
      show "wheel_inv (foldl c_removeExpired (c_removeExpired c t) ts)" using ih by (elim conjE)
    qed (fact old due stays)+
  qed simp
  have "expirationWorker (foldl c_removeExpired c ts) cs = (foldl c_removeExpired c ts, cs \<noteq> [])"
    using assms(5) by (cases cs) auto
  then have eq: "c' = foldl c_removeExpired c ts" "returned = (cs \<noteq> [])"
    using assms(6) by (simp_all add: expirationWorker_append)
  show ?thesis unfolding eq using spec by (elim conjE) (intro conjI, assumption, assumption, rule refl)
qed

end
