(* ===== verification/Alloc.thy ===== *)
theory Alloc
  imports ByteSlices
begin

text \<open>
  \<open>internal/alloc/aligned.go\<close>: slices that start at an aligned address. The address at which the
  runtime places the block is an argument; a slice is the address of its first byte and its bytes.
  The outer option of a result is the run-time panic, the inner one Go's \<open>nil\<close>.
\<close>

section \<open>Definitions\<close>

definition CacheLineSize :: int where "CacheLineSize = 64"
definition AVX2Alignment :: int where "AVX2Alignment = 32"
definition AVX512Alignment :: int where "AVX512Alignment = 64"

record mem_slice =
  ms_addr :: u64
  ms_bytes :: "byte list"

text \<open>
  \<open>make\<close> panics on a negative length, \<open>&raw[0]\<close> on an empty block, and \<open>raw[a:b]\<close> outside of its
  capacity.
\<close>

definition allocAligned :: "u64 \<Rightarrow> int \<Rightarrow> int \<Rightarrow> mem_slice option option" where
  "allocAligned addr sz alignment =
     (if sz \<le> 0 then Some None
      else let n = i64 (i64 (sz + alignment) - 1);
               raw = replicate (nat n) 0;
               m = (word_of_int (i64 (alignment - 1)) :: u64);
               alignedAddr = (addr + m) AND NOT m;
               offset = sint (alignedAddr - addr)
           in if n \<le> 0 \<or> offset < 0 \<or> i64 (offset + sz) < offset \<or> n < i64 (offset + sz) then None
              else Some (Some \<lparr>ms_addr = addr + word_of_int offset,
                               ms_bytes = take (nat sz) (drop (nat offset) raw)\<rparr>))"

definition AllocAligned32 :: "u64 \<Rightarrow> int \<Rightarrow> mem_slice option option" where
  "AllocAligned32 addr sz = allocAligned addr sz AVX2Alignment"

definition AllocAligned64 :: "u64 \<Rightarrow> int \<Rightarrow> mem_slice option option" where
  "AllocAligned64 addr sz = allocAligned addr sz CacheLineSize"

text \<open>
  \<open>unsafe.Slice\<close> panics if the length is negative or the memory it spans would wrap around. The typed
  slice is the address of its first element and its length.
\<close>

definition unsafe_Slice :: "u64 \<Rightarrow> int \<Rightarrow> int \<Rightarrow> (u64 \<times> int) option" where
  "unsafe_Slice addr width cnt =
     (if cnt < 0 \<or> 2 ^ 64 - uint addr < cnt * width then None else Some (addr, cnt))"

text \<open>\<open>&bytes[0]\<close> panics on \<open>nil\<close>.\<close>

definition typed_alloc :: "u64 \<Rightarrow> int \<Rightarrow> int \<Rightarrow> int \<Rightarrow> (u64 \<times> int) option" where
  "typed_alloc addr width alignment cnt =
     (case allocAligned addr (i64 (cnt * width)) alignment of
        Some (Some bytes) \<Rightarrow> if ms_bytes bytes = [] then None else unsafe_Slice (ms_addr bytes) width cnt
      | _ \<Rightarrow> None)"

definition AllocAlignedUint32 :: "u64 \<Rightarrow> int \<Rightarrow> (u64 \<times> int) option" where
  "AllocAlignedUint32 addr cnt = typed_alloc addr 4 AVX2Alignment cnt"

definition AllocAlignedUint64 :: "u64 \<Rightarrow> int \<Rightarrow> (u64 \<times> int) option" where
  "AllocAlignedUint64 addr cnt = typed_alloc addr 8 CacheLineSize cnt"

definition IsAligned :: "u64 \<Rightarrow> u64 \<Rightarrow> bool" where
  "IsAligned ptr alignment = (ptr AND (alignment - 1) = 0)"

definition IsAligned32 :: "u64 \<Rightarrow> bool" where "IsAligned32 ptr = IsAligned ptr (word_of_int AVX2Alignment)"
definition IsAligned64 :: "u64 \<Rightarrow> bool" where "IsAligned64 ptr = IsAligned ptr (word_of_int CacheLineSize)"

definition PadToCacheLine :: "int \<Rightarrow> int" where
  "PadToCacheLine sz = i64 (i64 (sz + CacheLineSize) - 1) AND NOT (CacheLineSize - 1)"

record AlignedBuffer =
  ab_data :: "mem_slice option"
  ab_alignment :: int

definition NewAlignedBuffer :: "u64 \<Rightarrow> int \<Rightarrow> int \<Rightarrow> AlignedBuffer option" where
  "NewAlignedBuffer addr sz alignment =
     map_option (\<lambda>data. \<lparr>ab_data = data, ab_alignment = alignment\<rparr>) (allocAligned addr sz alignment)"

definition ab_Bytes :: "AlignedBuffer \<Rightarrow> byte list" where
  "ab_Bytes b = (case ab_data b of Some s \<Rightarrow> ms_bytes s | None \<Rightarrow> [])"

definition ab_Len :: "AlignedBuffer \<Rightarrow> nat" where
  "ab_Len b = length (ab_Bytes b)"

definition ab_Ptr :: "AlignedBuffer \<Rightarrow> u64 option" where
  "ab_Ptr b = (if ab_Len b = 0 then None else map_option ms_addr (ab_data b))"

text \<open>The buffer read as little-endian integers; \<open>nil\<close> when it is shorter than one of them.\<close>

definition ab_AsUint32Slice :: "AlignedBuffer \<Rightarrow> u32 list" where
  "ab_AsUint32Slice b =
     (if ab_Len b < 4 then [] else map (\<lambda>i. Uint32 (drop (4 * i) (ab_Bytes b))) [0..<ab_Len b div 4])"

definition ab_AsUint64Slice :: "AlignedBuffer \<Rightarrow> u64 list" where
  "ab_AsUint64Slice b =
     (if ab_Len b < 8 then [] else map (\<lambda>i. Uint64 (drop (8 * i) (ab_Bytes b))) [0..<ab_Len b div 8])"

section \<open>Alignment\<close>

lemma and_not_mask: "x AND NOT (mask k) = push_bit k (drop_bit k x)" for x :: "'a::ring_bit_operations"
  by (rule bit_eqI) (auto simp: bit_simps)

lemma unat_and_not_mask:
  fixes x :: u64
  assumes "k < 64"
  shows "unat (x AND NOT (mask k)) = 2 ^ k * (unat x div 2 ^ k)"
proof -
  have "unat (x AND NOT (mask k)) = take_bit 64 (push_bit k (drop_bit k (unat x)))"
    by (simp only: and_not_mask unsigned_push_bit_eq unat_drop_bit_eq) simp
  also have "push_bit k (drop_bit k (unat x)) = 2 ^ k * (unat x div 2 ^ k)"
    by (simp add: push_bit_eq_mult drop_bit_eq_div mult.commute)
  also have "take_bit 64 \<dots> = \<dots>"
  proof -
    have "2 ^ k * (unat x div 2 ^ k) \<le> unat x" by simp
    also have "unat x < 2 ^ 64" using unsigned_less [of x] by simp
    finally show ?thesis by (simp add: take_bit_nat_eq_self)
  qed
  finally show ?thesis .
qed

lemma round_up_div:
  fixes a n :: nat
  assumes "0 < n"
  shows "a \<le> n * ((a + (n - 1)) div n)" "n * ((a + (n - 1)) div n) \<le> a + (n - 1)"
proof -
  show "n * ((a + (n - 1)) div n) \<le> a + (n - 1)" by simp
  have "a + (n - 1) = n * ((a + (n - 1)) div n) + (a + (n - 1)) mod n" by simp
  moreover have "(a + (n - 1)) mod n \<le> n - 1" using mod_less_divisor [OF assms, of "a + (n - 1)"] by linarith
  ultimately show "a \<le> n * ((a + (n - 1)) div n)" by linarith
qed

lemma i64_nonneg: "0 \<le> x \<Longrightarrow> x \<le> 9000000000000000000 \<Longrightarrow> i64 x = x"
  by (simp add: i64_id)

text \<open>The slice lies in the block, has the size asked for, and starts at a multiple of the alignment.\<close>

theorem allocAligned_spec:
  assumes sz: "0 < sz" "sz \<le> 2 ^ 62" and k: "k \<le> 32" and fits: "unat addr + nat sz + 2 ^ k < 2 ^ 64"
  shows "\<exists>s. allocAligned addr sz (2 ^ k) = Some (Some s) \<and> length (ms_bytes s) = nat sz \<and>
    2 ^ k dvd unat (ms_addr s) \<and> unat addr \<le> unat (ms_addr s) \<and>
    unat (ms_addr s) + nat sz \<le> unat addr + nat (sz + 2 ^ k - 1)"
proof -
  let ?a = "unat addr" and ?n = "(2::nat) ^ k"
  define A where "A = ?n * ((?a + (?n - 1)) div ?n)"
  have n0: "0 < ?n" by simp
  have A: "?a \<le> A" "A \<le> ?a + (?n - 1)" "?n dvd A"
    unfolding A_def using round_up_div [OF n0, of ?a] by auto
  have k32: "?n \<le> 4294967296" "(2 :: int) ^ k \<le> 4294967296" using power_increasing [of k 32 "2::nat"] power_increasing [of k 32 "2::int"] k by simp_all
  have pos: "(1 :: int) \<le> 2 ^ k" by simp
  have m: "(word_of_int (i64 (2 ^ k - 1)) :: u64) = mask k"
  proof -
    have "i64 (2 ^ k - 1) = 2 ^ k - 1" using k32(2) pos by (intro i64_nonneg) linarith+
    then show ?thesis by (simp add: mask_eq_exp_minus_1)
  qed
  have mk: "unat (mask k :: u64) = ?n - 1"
  proof -
    have "(mask k :: u64) = of_nat (?n - 1)" by (simp add: mask_eq_exp_minus_1 of_nat_diff)
    moreover have "?n - 1 < 2 ^ 64" using k32(1) by simp
    ultimately show ?thesis using unat_of_nat_u64 [of "?n - 1"] by simp
  qed
  have sum: "unat (addr + mask k) = ?a + (?n - 1)"
    using fits by (simp add: unat_word_ariths mk)
  have al: "unat ((addr + mask k) AND NOT (mask k)) = A"
    using unat_and_not_mask [of k "addr + mask k"] k by (simp add: sum A_def)
  have off: "unat (((addr + mask k) AND NOT (mask k)) - addr) = A - ?a"
    using al A(1) by (subst unat_sub) (simp_all add: word_le_nat_alt)
  have small: "A - ?a < ?n" using A(2) n0 by linarith
  have s: "sint (((addr + mask k) AND NOT (mask k)) - addr) = int (A - ?a)"
  proof -
    have "int (A - ?a) < 2 ^ 63" using less_le_trans [OF small k32(1)] by simp
    then show ?thesis
      by (simp add: sint_uint uint_nat off signed_take_bit_int_eq_self)
  qed
  have i: "i64 (sz + 2 ^ k - 1) = sz + 2 ^ k - 1" "i64 (int (A - ?a) + sz) = int (A - ?a) + sz"
  proof -
    have "sz \<le> 4611686018427387904" using sz(2) by simp
    moreover have "int (A - ?a) < 4294967296" using less_le_trans [OF small k32(1)] by simp
    ultimately have "i64 (sz + 2 ^ k) = sz + 2 ^ k" "i64 (sz + 2 ^ k - 1) = sz + 2 ^ k - 1"
      "i64 (int (A - ?a) + sz) = int (A - ?a) + sz"
      using sz(1) k32(2) pos by (intro i64_nonneg; linarith)+
    then show "i64 (sz + 2 ^ k - 1) = sz + 2 ^ k - 1" "i64 (int (A - ?a) + sz) = int (A - ?a) + sz" by simp_all
  qed
  have le: "int (A - ?a) + sz \<le> sz + 2 ^ k - 1"
  proof -
    have "int (A - ?a) < int ?n" using small by simp
    then show ?thesis by simp
  qed
  let ?s = "\<lparr>ms_addr = addr + word_of_int (int (A - ?a)),
      ms_bytes = take (nat sz) (drop (nat (int (A - ?a))) (replicate (nat (sz + 2 ^ k - 1)) 0))\<rparr>"
  have "allocAligned addr sz (2 ^ k) = Some (Some ?s)"
  proof -
    have "\<not> sz \<le> 0" "\<not> sz + 2 ^ k - 1 \<le> 0" "\<not> int (A - ?a) < 0" "\<not> int (A - ?a) + sz < int (A - ?a)"
      "\<not> sz + 2 ^ k - 1 < int (A - ?a) + sz" using sz pos le by linarith+
    then show ?thesis unfolding allocAligned_def Let_def m s i64_diff_left i by (simp only: if_False simp_thms)
  qed
  moreover have "unat (addr + word_of_int (int (A - ?a))) = A"
  proof -
    have u: "unat (word_of_int (int (A - ?a)) :: u64) = A - ?a"
      using small k32(1) by (simp add: unat_of_nat)
    show ?thesis using A fits by (simp add: unat_word_ariths u del: of_int_of_nat_eq of_nat_diff)
  qed
  moreover have "length (ms_bytes ?s) = nat sz"
  proof -
    have "nat sz + (A - ?a) \<le> nat (sz + 2 ^ k - 1)" using le sz(1) by linarith
    then show ?thesis by simp
  qed
  moreover have "A + nat sz \<le> ?a + nat (sz + 2 ^ k - 1)" using le sz(1) A(1) by linarith
  ultimately show ?thesis using A by (intro exI [of _ ?s]) simp
qed

lemma IsAligned_dvd:
  assumes "k < 64"
  shows "IsAligned p (2 ^ k) \<longleftrightarrow> 2 ^ k dvd unat p"
proof -
  have "p AND (2 ^ k - 1) = take_bit k p" by (simp add: take_bit_eq_mask mask_eq_exp_minus_1)
  then have "IsAligned p (2 ^ k) \<longleftrightarrow> unat (take_bit k p) = 0" by (simp add: IsAligned_def unat_eq_zero)
  also have "\<dots> \<longleftrightarrow> take_bit k (unat p) = 0" by (simp only: unsigned_take_bit_eq)
  also have "\<dots> \<longleftrightarrow> 2 ^ k dvd unat p" by (rule take_bit_eq_0_iff)
  finally show ?thesis .
qed

text \<open>So the two allocators return slices that their checks accept.\<close>

lemma allocators_are_aligned:
  assumes "0 < sz" "sz \<le> 2 ^ 62" "unat addr + nat sz + 64 < 2 ^ 64"
  shows "(\<exists>s. AllocAligned32 addr sz = Some (Some s) \<and> IsAligned32 (ms_addr s) \<and> length (ms_bytes s) = nat sz) \<and>
    (\<exists>s. AllocAligned64 addr sz = Some (Some s) \<and> IsAligned64 (ms_addr s) \<and> length (ms_bytes s) = nat sz)"
  using allocAligned_spec [OF assms(1,2), of 5 addr] allocAligned_spec [OF assms(1,2), of 6 addr] assms(3)
    IsAligned_dvd [of 5] IsAligned_dvd [of 6]
  by (auto simp: AllocAligned32_def AllocAligned64_def IsAligned32_def IsAligned64_def AVX2Alignment_def CacheLineSize_def)

text \<open>A typed allocation of no elements panics: it takes the address of the first byte of \<open>nil\<close>.\<close>

lemma typed_alloc_empty: "AllocAlignedUint32 addr 0 = None \<and> AllocAlignedUint64 addr 0 = None"
  by (simp add: AllocAlignedUint32_def AllocAlignedUint64_def typed_alloc_def allocAligned_def)

lemma PadToCacheLine_spec:
  assumes "0 \<le> sz" "sz \<le> 2 ^ 62"
  shows "64 dvd PadToCacheLine sz \<and> sz \<le> PadToCacheLine sz \<and> PadToCacheLine sz < sz + 64"
proof -
  have i: "i64 (sz + 64 - 1) = sz + 63" using assms by (subst i64_nonneg) simp_all
  have "PadToCacheLine sz = (sz + 63) AND NOT (mask 6)"
    unfolding PadToCacheLine_def CacheLineSize_def i64_diff_left i by (simp add: mask_eq_exp_minus_1)
  also have "\<dots> = 64 * ((sz + 63) div 64)"
    by (simp add: and_not_mask push_bit_eq_mult drop_bit_eq_div)
  finally have p: "PadToCacheLine sz = 64 * ((sz + 63) div 64)" .
  have "sz + 63 = 64 * ((sz + 63) div 64) + (sz + 63) mod 64" "0 \<le> (sz + 63) mod 64" "(sz + 63) mod 64 \<le> 63"
    by simp_all
  then show ?thesis unfolding p by (intro conjI) (simp, linarith, linarith)
qed

text \<open>Reading a buffer as integers gives back the integers that were stored in it.\<close>

lemma drop_concat_Put32: "i < length vs \<Longrightarrow> take 4 (drop (4 * i) (concat (map PutUint32 vs))) = PutUint32 (vs ! i)"
proof (induction vs arbitrary: i)
  case (Cons v vs)
  then show ?case by (cases i) (simp_all add: drop_Cons')
qed simp

lemma length_concat_Put32: "length (concat (map PutUint32 vs)) = 4 * length vs"
  by (induction vs) simp_all

lemma AsUint32Slice_roundtrip:
  assumes "ab_Bytes b = concat (map PutUint32 vs)"
  shows "ab_AsUint32Slice b = vs"
proof (cases vs)
  case Nil
  then show ?thesis using assms by (simp add: ab_AsUint32Slice_def ab_Len_def)
next
  case (Cons v ws)
  have len: "ab_Len b = 4 * length vs" using assms by (simp add: ab_Len_def length_concat_Put32)
  have "Uint32 (drop (4 * i) (ab_Bytes b)) = vs ! i" if "i < length vs" for i
  proof -
    have "Uint32 (drop (4 * i) (ab_Bytes b)) = Uint32 (take 4 (drop (4 * i) (ab_Bytes b)))" by (simp add: Uint32_def)
    then show ?thesis using drop_concat_Put32 [OF that] by (simp add: assms)
  qed
  then have "map (\<lambda>i. Uint32 (drop (4 * i) (ab_Bytes b))) [0..<length vs] = map ((!) vs) [0..<length vs]"
    by (intro map_cong) simp_all
  moreover have "ab_AsUint32Slice b = map (\<lambda>i. Uint32 (drop (4 * i) (ab_Bytes b))) [0..<length vs]"
    using len Cons by (simp add: ab_AsUint32Slice_def del: upt_Suc)
  ultimately show ?thesis by (simp add: map_nth)
qed

end
