(* ===== verification/Pool.thy ===== *)
theory Pool
  imports Prelude
begin

text \<open>
  \<open>internal/pool/pool.go\<close>: pools of reusable slices. \<open>sync.Pool\<close> is documented to hand out any item
  that was put into it, or a new one, and may drop items at any time; which it does is an argument of
  \<open>Get\<close> and an event. Buffers are addressed by pointers, since a pool hands out the same slice again.
\<close>

record 'a pool =
  pl_free :: "nat list" \<comment> \<open>the pointers in the pool\<close>
  pl_heap :: "nat \<Rightarrow> 'a list" \<comment> \<open>the elements of the slice a pointer refers to\<close>
  pl_cap :: "nat \<Rightarrow> nat"
  pl_next :: nat \<comment> \<open>the next unused address\<close>

definition NewPool :: "'a pool" where
  "NewPool = \<lparr>pl_free = [], pl_heap = (\<lambda>_. []), pl_cap = (\<lambda>_. 0), pl_next = 0\<rparr>"

definition pool_New :: "nat \<Rightarrow> 'a pool \<Rightarrow> 'a pool \<times> nat" where
  "pool_New c p =
     (let a = pl_next p
      in (p\<lparr>pl_heap := (pl_heap p)(a := []), pl_cap := (pl_cap p)(a := c), pl_next := Suc a\<rparr>, a))"

definition remove_nth :: "nat \<Rightarrow> 'b list \<Rightarrow> 'b list" where
  "remove_nth i xs = take i xs @ drop (Suc i) xs"

definition pool_Get :: "nat \<Rightarrow> nat option \<Rightarrow> 'a pool \<Rightarrow> 'a pool \<times> nat" where
  "pool_Get c choice p =
     (case choice of
        Some i \<Rightarrow> if i < length (pl_free p)
                  then (p\<lparr>pl_free := remove_nth i (pl_free p)\<rparr>, pl_free p ! i)
                  else pool_New c p
      | None \<Rightarrow> pool_New c p)"

text \<open>\<open>None\<close> is the \<open>nil\<close> pointer. Cutting a slice to length zero keeps its capacity.\<close>

definition pool_Put :: "nat option \<Rightarrow> 'a pool \<Rightarrow> 'a pool" where
  "pool_Put b p =
     (case b of
        None \<Rightarrow> p
      | Some a \<Rightarrow> p\<lparr>pl_heap := (pl_heap p)(a := []), pl_free := pl_free p @ [a]\<rparr>)"

definition GetBuffer :: "nat option \<Rightarrow> byte pool \<Rightarrow> byte pool \<times> nat" where "GetBuffer = pool_Get 4096"
definition PutBuffer :: "nat option \<Rightarrow> byte pool \<Rightarrow> byte pool" where "PutBuffer = pool_Put"
definition GetSmallBuffer :: "nat option \<Rightarrow> byte pool \<Rightarrow> byte pool \<times> nat" where "GetSmallBuffer = pool_Get 256"
definition PutSmallBuffer :: "nat option \<Rightarrow> byte pool \<Rightarrow> byte pool" where "PutSmallBuffer = pool_Put"
definition GetStringSlice :: "nat option \<Rightarrow> string pool \<Rightarrow> string pool \<times> nat" where "GetStringSlice = pool_Get 64"
definition PutStringSlice :: "nat option \<Rightarrow> string pool \<Rightarrow> string pool" where "PutStringSlice = pool_Put"
definition GetUint64Slice :: "nat option \<Rightarrow> u64 pool \<Rightarrow> u64 pool \<times> nat" where "GetUint64Slice = pool_Get 64"
definition PutUint64Slice :: "nat option \<Rightarrow> u64 pool \<Rightarrow> u64 pool" where "PutUint64Slice = pool_Put"

subsection \<open>Clients that keep to the protocol\<close>

text \<open>
  A client writes to the buffers it holds and puts back a buffer it holds. The state lists the held
  pointers; the pool may drop an item whenever it likes.
\<close>

inductive pool_step :: "nat \<Rightarrow> 'a pool \<times> nat set \<Rightarrow> 'a pool \<times> nat set \<Rightarrow> bool" for c where
  pool_get: "pool_Get c choice p = (p', a) \<Longrightarrow> pool_step c (p, H) (p', insert a H)"
| pool_put: "a \<in> H \<Longrightarrow> pool_step c (p, H) (pool_Put (Some a) p, H - {a})"
| pool_put_nil: "pool_step c (p, H) (pool_Put None p, H)"
| pool_write: "a \<in> H \<Longrightarrow> pool_step c (p, H) (p\<lparr>pl_heap := (pl_heap p)(a := xs), pl_cap := (pl_cap p)(a := max (pl_cap p a) (length xs))\<rparr>, H)"
| pool_drop: "i < length (pl_free p) \<Longrightarrow> pool_step c (p, H) (p\<lparr>pl_free := remove_nth i (pl_free p)\<rparr>, H)"

definition pool_ok :: "nat \<Rightarrow> 'a pool \<times> nat set \<Rightarrow> bool" where
  "pool_ok c s \<longleftrightarrow>
     (let (p, H) = s
      in distinct (pl_free p) \<and> set (pl_free p) \<inter> H = {} \<and>
         (\<forall>a\<in>set (pl_free p). pl_heap p a = [] \<and> c \<le> pl_cap p a) \<and> (\<forall>a\<in>H. c \<le> pl_cap p a) \<and>
         (\<forall>a\<in>set (pl_free p) \<union> H. a < pl_next p))"

lemma remove_nth:
  assumes "distinct xs" "i < length xs"
  shows "distinct (remove_nth i xs) \<and> set (remove_nth i xs) = set xs - {xs ! i}"
proof -
  have x: "xs = take i xs @ xs ! i # drop (Suc i) xs" using assms(2) by (rule id_take_nth_drop)
  have "distinct (take i xs @ xs ! i # drop (Suc i) xs)" using assms(1) x by metis
  moreover have "set xs = set (take i xs @ xs ! i # drop (Suc i) xs)" using x by metis
  ultimately show ?thesis by (auto simp: remove_nth_def)
qed

lemma pool_Get_ok:
  assumes ok: "pool_ok c (p, H)" and g: "pool_Get c choice p = (p', a)"
  shows "pool_ok c (p', insert a H) \<and> pl_heap p' a = [] \<and> a \<notin> H"
proof (cases "\<exists>i. choice = Some i \<and> i < length (pl_free p)")
  case True
  then obtain i where i: "choice = Some i" "i < length (pl_free p)" by blast
  have s: "p' = p\<lparr>pl_free := remove_nth i (pl_free p)\<rparr>" "a = pl_free p ! i" using g i by (auto simp: pool_Get_def)
  have "a \<in> set (pl_free p)" using i by (simp add: s)
  moreover from this have "a \<notin> H" using ok by (auto simp: pool_ok_def)
  ultimately show ?thesis using ok remove_nth [of "pl_free p" i] i(2) by (auto simp: pool_ok_def s)
next
  case False
  then have "pool_New c p = (p', a)" using g by (auto simp: pool_Get_def split: option.splits if_splits)
  then show ?thesis using ok by (auto simp: pool_ok_def pool_New_def Let_def less_Suc_eq)
qed

lemma pool_step_ok: "pool_step c s s' \<Longrightarrow> pool_ok c s \<Longrightarrow> pool_ok c s'"
proof (induction rule: pool_step.induct)
  case (pool_get choice p p' a H)
  then show ?case using pool_Get_ok by blast
next
  case (pool_drop i p H)
  then show ?case using remove_nth [of "pl_free p" i] by (auto simp: pool_ok_def)
qed (auto simp: pool_ok_def pool_Put_def)

lemma pool_run_ok: "(pool_step c)\<^sup>*\<^sup>* s s' \<Longrightarrow> pool_ok c s \<Longrightarrow> pool_ok c s'"
  by (induction rule: rtranclp_induct) (auto intro: pool_step_ok)

text \<open>
  A buffer from the pool is empty, has at least the capacity of the pool, and nobody else holds it.
\<close>

theorem pooled_buffer_is_fresh:
  assumes "(pool_step c)\<^sup>*\<^sup>* (NewPool, {}) (p, H)" "pool_Get c choice p = (p', a)"
  shows "pl_heap p' a = [] \<and> c \<le> pl_cap p' a \<and> a \<notin> H"
proof -
  have "pool_ok c (NewPool, {})" by (simp add: pool_ok_def NewPool_def)
  with assms(1) have "pool_ok c (p, H)" by (rule pool_run_ok)
  from pool_Get_ok [OF this assms(2)] show ?thesis by (auto simp: pool_ok_def)
qed

text \<open>Nothing prevents a buffer from being put back twice, and then it is handed out twice.\<close>

lemma put_twice_is_shared:
  "let (p, a) = GetBuffer None NewPool; p = PutBuffer (Some a) (PutBuffer (Some a) p);
       (p, b) = GetBuffer (Some 0) p; (p, c) = GetBuffer (Some 0) p
   in b = c"
  by (simp add: GetBuffer_def PutBuffer_def pool_Get_def pool_Put_def pool_New_def NewPool_def remove_nth_def)

end
