(* ===== verification/Prefetch.thy ===== *)
theory Prefetch
  imports Prelude
begin

text \<open>
  \<open>internal/prefetch/prefetch.go\<close>: which elements of a slice the helpers hint at. The hint itself is an
  instruction without observable effect. The index of the loop does not wrap around: it is added to
  only while it is below the length, and is zero or at least the stride then.
\<close>

definition PrefetchSlice :: "nat \<Rightarrow> nat list" where
  "PrefetchSlice len = (if len > 0 then [0] else [])"

function range_hints :: "nat \<Rightarrow> nat \<Rightarrow> nat \<Rightarrow> nat list" where
  "range_hints len stride i =
     (if stride = 0 \<or> len \<le> i then [] else i # range_hints len stride (i + stride))"
  by pat_completeness auto
termination by (relation "measure (\<lambda>(len, stride, i). len - i)") auto

declare range_hints.simps [simp del]

definition PrefetchSliceRange :: "nat \<Rightarrow> int \<Rightarrow> nat list" where
  "PrefetchSliceRange len stride =
     (let stride = (if stride \<le> 0 then 8 else stride) in range_hints len (nat stride) 0)"

text \<open>Whether the header of a map is hinted at; \<open>None\<close> is the \<open>nil\<close> map.\<close>

definition PrefetchMap :: "('k \<rightharpoonup> 'v) option \<Rightarrow> bool" where
  "PrefetchMap m = (m \<noteq> None)"

lemma range_hints_set:
  "0 < stride \<Longrightarrow> set (range_hints len stride i) = {j. i \<le> j \<and> j < len \<and> stride dvd j - i}"
proof (induction len stride i rule: range_hints.induct)
  case (1 len stride i)
  show ?case
  proof (cases "len \<le> i")
    case True
    then show ?thesis by (subst range_hints.simps) auto
  next
    case False
    have "stride dvd j - i \<longleftrightarrow> j = i \<or> i + stride \<le> j \<and> stride dvd j - (i + stride)" if "i \<le> j" for j
    proof (cases "j < i + stride")
      case True
      then show ?thesis using that by (auto dest: dvd_imp_le)
    next
      case False
      then have "j - i = (j - (i + stride)) + stride" by simp
      then have "stride dvd j - i \<longleftrightarrow> stride dvd j - (i + stride)" by simp
      then show ?thesis using False 1(2) by auto
    qed
    then show ?thesis using 1 False by (subst range_hints.simps) auto
  qed
qed

text \<open>Every index is in range, so no access panics, and one element in every stride is hinted at.\<close>

lemma PrefetchSliceRange_set:
  "set (PrefetchSliceRange len stride) =
    {j. j < len \<and> nat (if stride \<le> 0 then 8 else stride) dvd j}"
  by (simp add: PrefetchSliceRange_def Let_def range_hints_set)

end
