(* ===== verification/Accessors.thy ===== *)
theory Accessors
  imports Cuckoo BlockedBloom Swiss IteratorRuns
begin

text \<open>
  The small reading methods of several modules: sizes and load factors of the filters and the table,
  the parts of a compiled pattern and of an iterator, and the statistics stubs of the sharded store.
  Ratios are exact; in Go they are rounded to a float.
\<close>

section \<open>Cuckoo filter, blocked Bloom filter and Swiss table\<close>

definition cf_Count :: "CuckooFilter \<Rightarrow> int" where "cf_Count cf = cf_count cf"
definition cf_NumBuckets :: "CuckooFilter \<Rightarrow> u64" where "cf_NumBuckets cf = cf_numBuckets cf"

text \<open>The divisor is a product of 64-bit words; a division by zero has the value zero here.\<close>

definition cf_LoadFactor :: "CuckooFilter \<Rightarrow> rat" where
  "cf_LoadFactor cf = of_int (cf_count cf) / of_nat (unat (cf_numBuckets cf * of_nat cuckooBucketSize))"

definition bb_NumBlocks :: "BlockedBloomFilter \<Rightarrow> u64" where "bb_NumBlocks bf = bb_numBlocks bf"
definition bb_NumHash :: "BlockedBloomFilter \<Rightarrow> nat" where "bb_NumHash bf = bb_numHash bf"

definition sw_Size :: "SwissTable \<Rightarrow> int" where "sw_Size st = sw_size st"
definition sw_Capacity :: "SwissTable \<Rightarrow> int" where "sw_Capacity st = sw_cap st"

definition sw_LoadFactor :: "SwissTable \<Rightarrow> rat" where
  "sw_LoadFactor st = of_int (sw_size st) / of_int (sw_cap st)"

lemma ratio_bounds: "0 \<le> a \<Longrightarrow> a \<le> b \<Longrightarrow> 0 \<le> (a / b :: rat) \<and> a / b \<le> 1"
  by (cases "b = 0") (simp_all add: divide_le_eq_1)

lemma slots_held_size: "length b \<le> m \<Longrightarrow> size (slots_held n i b) \<le> m"
  using length_filter_le [of "\<lambda>v. v \<noteq> 0" b] unfolding slots_held_def size_image_mset size_mset by linarith

text \<open>The count of a cuckoo filter never exceeds its slots, so its load factor is a fraction of one.\<close>

theorem cuckoo_load_factor:
  assumes "cf_inv cf" "uint (cf_numBuckets cf) \<le> 2 ^ 60"
  shows "0 \<le> cf_Count cf \<and> cf_Count cf \<le> 4 * uint (cf_NumBuckets cf) \<and> 0 \<le> cf_LoadFactor cf \<and> cf_LoadFactor cf \<le> 1"
proof -
  have s: "cf_shape cf" and c: "cf_count cf = i64 (int (size (cf_held cf)))" using assms(1) by (simp_all add: cf_inv_def)
  have "size (cf_held cf) = (\<Sum>i < length (cf_buckets cf). size (slots_held (cf_numBuckets cf) (of_nat i) (cf_buckets cf ! i)))"
    unfolding cf_held_def by (rule size_multiset_sum)
  also have "\<dots> \<le> (\<Sum>i < length (cf_buckets cf). 4)"
    using s by (intro sum_mono slots_held_size) (simp add: cf_shape_def cuckooBucketSize_def)
  finally have le: "size (cf_held cf) \<le> 4 * unat (cf_numBuckets cf)" using s by (simp add: cf_shape_def)
  have u: "int (unat (cf_numBuckets cf)) = uint (cf_numBuckets cf)" by simp
  have "uint (cf_numBuckets cf) \<le> 1152921504606846976" using assms(2) by simp
  with u have n: "unat (cf_numBuckets cf) \<le> 1152921504606846976" by linarith
  with le have "int (size (cf_held cf)) \<le> 9000000000000000000" by linarith
  then have cnt: "cf_count cf = int (size (cf_held cf))" unfolding c by (intro i64_id) simp_all
  have d: "unat (cf_numBuckets cf * of_nat cuckooBucketSize) = 4 * unat (cf_numBuckets cf)"
    using n by (simp add: cuckooBucketSize_def unat_word_ariths)
  have "(of_int (cf_count cf) :: rat) \<le> of_nat (4 * unat (cf_numBuckets cf))"
    using le unfolding cnt by (metis of_int_of_nat_eq of_nat_le_iff)
  then have "0 \<le> cf_LoadFactor cf \<and> cf_LoadFactor cf \<le> 1"
    unfolding cf_LoadFactor_def d by (intro ratio_bounds) (simp_all add: cnt)
  moreover have "int (size (cf_held cf)) \<le> 4 * uint (cf_numBuckets cf)" using le u by linarith
  ultimately show ?thesis by (simp add: cf_Count_def cf_NumBuckets_def cnt)
qed

text \<open>So is the load factor of a Swiss table.\<close>

theorem swiss_load_factor:
  assumes "sw_inv st"
  shows "0 \<le> sw_Size st \<and> sw_Size st \<le> sw_Capacity st \<and> 0 \<le> sw_LoadFactor st \<and> sw_LoadFactor st \<le> 1"
proof -
  have "0 \<le> sw_size st" "sw_size st \<le> sw_cap st" using assms sw_size_bound by (auto simp: sw_inv_def)
  moreover from this have "0 \<le> sw_LoadFactor st \<and> sw_LoadFactor st \<le> 1"
    unfolding sw_LoadFactor_def by (intro ratio_bounds) simp_all
  ultimately show ?thesis by (simp add: sw_Size_def sw_Capacity_def)
qed

section \<open>Patterns\<close>

definition p_Prefix :: "Pattern \<Rightarrow> string" where "p_Prefix p = p_prefix p"
definition p_Raw :: "Pattern \<Rightarrow> string" where "p_Raw p = p_raw p"
definition p_HasDoubleStar :: "Pattern \<Rightarrow> bool" where "p_HasDoubleStar p = p_hasDouble p"

text \<open>The panic of \<open>MustCompile\<close> carries the error; \<open>None\<close> is divergence, as in \<open>Compile\<close>.\<close>

definition glob_MustCompile :: "string \<Rightarrow> (glob_error + Pattern) option" where
  "glob_MustCompile pattern =
     (case glob_Compile pattern of
        None \<Rightarrow> None
      | Some (Inl err) \<Rightarrow> Some (Inl err)
      | Some (Inr p) \<Rightarrow> Some (Inr p))"

text \<open>The parts of a compiled pattern are those of its text, and the flag says what its segments are.\<close>

lemma compile_loop_double:
  "compile_loop cs segments hasDouble = Some (Inr (segs, d)) \<Longrightarrow>
    (hasDouble \<longleftrightarrow> segDouble \<in> sg_typ ` set segments) \<Longrightarrow> (d \<longleftrightarrow> segDouble \<in> sg_typ ` set segs)"
proof (induction cs segments hasDouble rule: compile_loop.induct)
  case (1 segments hasDouble)
  then show ?case by (auto simp: compile_loop.simps)
next
  case (2 c cs segments hasDouble)
  note step = 2(6) [unfolded compile_loop.simps]
  show ?case
  proof (cases "c = CHR ''*''")
    case star: True
    show ?thesis
    proof (cases "cs \<noteq> [] \<and> hd cs = CHR ''*''")
      case True
      then show ?thesis using step star by (intro 2(1)) (simp_all add: mk_segment_def)
    next
      case False
      then show ?thesis using step star by (intro 2(2)) (auto simp: 2(7) mk_segment_def split: if_splits)
    qed
  next
    case nostar: False
    show ?thesis
    proof (cases "c = CHR ''?''")
      case True
      then show ?thesis using step nostar by (intro 2(3)) (simp_all add: 2(7) mk_segment_def)
    next
      case noq: False
      show ?thesis
      proof (cases "c = CHR ''[''")
        case True
        then obtain charset negated rest where p: "parseCharset (c # cs) = Some (Inr (charset, negated, rest))"
          using step nostar noq by (auto split: option.splits sum.splits)
        then show ?thesis using step nostar noq True by (intro 2(4) [OF _ _ _ p refl refl refl]) (simp_all add: 2(7) mk_segment_def)
      next
        case False
        obtain raw rest where l: "literal_span (c # cs) = (raw, rest)" by fastforce
        then show ?thesis using step nostar noq False
          by (intro 2(5) [OF _ _ _ l [symmetric] refl]) (simp_all add: 2(7) mk_segment_def del: literal_span.simps)
      qed
    qed
  qed
qed

theorem compiled_pattern_parts:
  assumes "glob_Compile pattern = Some (Inr p)"
  shows "p_Raw p = pattern \<and> p_Prefix p = extractPrefix pattern \<and>
    (p_HasDoubleStar p \<longleftrightarrow> segDouble \<in> sg_typ ` set (p_segments p)) \<and> glob_MustCompile pattern = Some (Inr p)"
proof -
  obtain segs d where c: "compile_loop pattern [] False = Some (Inr (segs, d))"
    "p = \<lparr>p_raw = pattern, p_prefix = extractPrefix pattern, p_segments = segs, p_hasDouble = d\<rparr>"
    using assms by (auto simp: glob_Compile_def split: if_splits option.splits sum.splits)
  have "d \<longleftrightarrow> segDouble \<in> sg_typ ` set segs" using compile_loop_double [OF c(1)] by simp
  then show ?thesis using assms by (simp add: c(2) p_Raw_def p_Prefix_def p_HasDoubleStar_def glob_MustCompile_def)
qed

section \<open>Iterators and the store\<close>

definition it_Entry :: "'k \<Rightarrow> 'v \<Rightarrow> ('k, 'v) Iterator \<Rightarrow> 'k \<times> 'v" where
  "it_Entry zk zv it = (it_Key zk it, it_Value zv it)"

definition it_Cursor :: "('k, 'v) Iterator \<Rightarrow> u64" where "it_Cursor it = it_cursor it"
definition it_Err :: "('k, 'v) Iterator \<Rightarrow> bool" where "it_Err it = it_err it"

text \<open>The statistics of the store are stubs.\<close>

definition st_ShardStats :: "('k, 'v) ShardedStore \<Rightarrow> int \<Rightarrow> u64 \<times> u64" where "st_ShardStats s shardIdx = (0, 0)"
definition st_TotalStats :: "('k, 'v) ShardedStore \<Rightarrow> u64 \<times> u64" where "st_TotalStats s = (0, 0)"
definition st_ResetStats :: "('k, 'v) ShardedStore \<Rightarrow> ('k, 'v) ShardedStore" where "st_ResetStats s = s"

text \<open>No call of \<open>Next\<close> sets an error, so \<open>Err\<close> of an iterator of the cache is always \<open>nil\<close>.\<close>

lemma fill_buffer_err: "fill_buffer ords c now it = Some it' \<Longrightarrow> it_err it' = it_err it"
proof (induction ords c now it it' rule: fill_buffer.raw_induct [rotated, consumes 1, case_names step])
  case (step f ords c now it r)
  then show ?case by (fastforce split: if_splits prod.splits)
qed

lemma fetchPage_err: "fetchPage ords bytes c now it = Some (Inr (it', b)) \<Longrightarrow> it_err it' = it_err it"
  by (auto simp: fetchPage_def fetchPrefixPage_def Let_def dest!: fill_buffer_err split: if_splits option.splits prod.splits)

lemma no_error: "it_Next ords bytes c now it = Some (Inr (it', b)) \<Longrightarrow> it_Err it' = it_Err it"
  by (auto simp: it_Next_def it_Err_def Let_def dest!: fetchPage_err
      split: if_splits option.splits sum.splits prod.splits)

end
