(* ===== verification/CacheThreads.thy ===== *)
theory CacheThreads
  imports CacheReach
begin

text \<open>
  The write paths of \<open>cache.go\<close> as goroutines see them. \<open>setSync\<close>, \<open>doDelete\<close> and the expiration of an
  item call the store, the policy, the wheel, the prefix index and an atomic counter one after the
  other, and each of these is locked for the duration of one call only. Here a call of the cache is a
  program over these calls, and any number of goroutines take turns. On its own a goroutine computes
  the functions of \<open>Cache\<close>; under any schedule every component keeps its invariant, and the live cost
  is off by exactly the costs of the entries that \<open>doSet\<close> replaced. Two schedules show that the parts of
  the cache can disagree for good.
\<close>

section \<open>Calls as programs\<close>

text \<open>
  Where a goroutine is: the next step and the local variables it needs. The constructors follow the
  text of \<open>tryUpdateExisting\<close>, \<open>doSet\<close>, \<open>evictVictim\<close>, \<open>doDelete\<close> and the loop of \<open>removeExpired\<close>.
\<close>

datatype ('k, 'v) call_pc =
    SetPeek "('k, 'v) Entry"
  | SetUpdate "('k, 'v) Entry"
  | UpdCost "('k, 'v) Entry" "('k, 'v) Entry option" int
  | UpdPolicy "('k, 'v) Entry" "('k, 'v) Entry option"
  | UpdWheel "('k, 'v) Entry" "('k, 'v) Entry option"
  | UpdReport "('k, 'v) Entry" "('k, 'v) Entry option"
  | SetAdmit "('k, 'v) Entry"
  | SetReject "('k, 'v) Entry"
  | EvictStore "('k, 'v) Entry" "'k victim list"
  | EvictCost "('k, 'v) Entry" "'k victim list" "('k, 'v) Entry"
  | EvictIndex "('k, 'v) Entry" "'k victim list" "('k, 'v) Entry"
  | EvictReport "('k, 'v) Entry" "'k victim list" "('k, 'v) Entry"
  | SetStore "('k, 'v) Entry"
  | SetCost "('k, 'v) Entry" "('k, 'v) Entry option"
  | SetWheel "('k, 'v) Entry" "('k, 'v) Entry option"
  | SetIndex "('k, 'v) Entry" "('k, 'v) Entry option"
  | SetReport "('k, 'v) Entry" "('k, 'v) Entry option"
  | DelStore 'k u64
  | DelCost 'k u64 "('k, 'v) Entry"
  | DelPolicy 'k u64
  | DelIndex 'k
  | DelReport
  | ExpStore "'k ExpiryWheelEntry" int
  | ExpCost "'k ExpiryWheelEntry" "('k, 'v) Entry"
  | ExpPolicy "'k ExpiryWheelEntry" "('k, 'v) Entry"
  | ExpIndex "'k ExpiryWheelEntry" "('k, 'v) Entry"
  | ExpReport "('k, 'v) Entry"
  | Finished bool

text \<open>
  One step. The victims that are left stand with the current one at the head of the list. \<open>None\<close> is a
  call of the policy that does not return. The counters and callbacks at the end of a call are one step. So
  is a write of the store with the atomic update of its size counter, which the code makes right after it has
  released the shard.
\<close>

definition report_replaced :: "('k, 'v) Cache \<Rightarrow> ('k, 'v) Entry option \<Rightarrow> ('k, 'v) Cache" where
  "report_replaced c prev =
     (case prev of
        Some p \<Rightarrow> if OnEvict (c_config c) then emit c (Evicted (eKey p) (eValue p) (eCost p)) else c
      | None \<Rightarrow> c)"

fun write_atom :: "('k, 'v) Cache \<Rightarrow> ('k, 'v) call_pc \<Rightarrow> (('k, 'v) Cache \<times> ('k, 'v) call_pc) option" where
  "write_atom c (SetPeek e) =
     Some (c, if st_PeekByHash (c_store c) (eKey e) (eKeyHash e) = None then SetAdmit e else SetUpdate e)"
| "write_atom c (SetUpdate e) =
     (let (store, prev, updated, costDelta, oldExpireAt) =
            st_UpdateExistingByHash (c_store c) (eKey e) (eKeyHash e) (eValue e) (eCost e) (eExpireAt e)
              (OnEvict (c_config c));
          c = c\<lparr>c_store := store\<rparr>
      in Some (c, if \<not> updated then SetAdmit e
                  else if costDelta \<noteq> 0 then UpdCost e prev costDelta else UpdWheel e prev))"
| "write_atom c (UpdCost e prev costDelta) =
     Some (c\<lparr>c_liveCost := i64 (c_liveCost c + costDelta)\<rparr>, UpdPolicy e prev)"
| "write_atom c (UpdPolicy e prev) =
     Some (c\<lparr>c_policy := Policer_Update (c_policy c) (eKey e) (eKeyHash e) (eCost e)\<rparr>, UpdWheel e prev)"
| "write_atom c (UpdWheel e prev) =
     Some (if eExpireAt e > 0
           then c\<lparr>c_wheel := w_Schedule (c_wheel c) (eKey e) (eKeyHash e) (eExpireAt e)\<rparr> else c, UpdReport e prev)"
| "write_atom c (UpdReport e prev) =
     Some (report_replaced (c\<lparr>c_metrics := addCost (eCost e) (incSet (c_metrics c))\<rparr>) prev, Finished True)"
| "write_atom c (SetAdmit e) =
     (case Policer_Add (c_policy c) (eKey e) (eKeyHash e) (eCost e) of
        None \<Rightarrow> None
      | Some (pol, victims, added) \<Rightarrow>
          Some (c\<lparr>c_policy := pol\<rparr>, if \<not> added then SetReject e else EvictStore e victims))"
| "write_atom c (SetReject e) =
     (let c = c\<lparr>c_metrics := incRejection (c_metrics c)\<rparr>
      in Some (if OnReject (c_config c) then emit c (Rejected (eKey e) (eValue e)) else c, Finished False))"
| "write_atom c (EvictStore e []) = Some (c, SetStore e)"
| "write_atom c (EvictStore e (victim # victims)) =
     (case st_DeleteByHash (c_store c) (v_Key victim) (v_KeyHash victim) of
        (store, None) \<Rightarrow> Some (c\<lparr>c_store := store\<rparr>, EvictStore e victims)
      | (store, Some deleted) \<Rightarrow> Some (c\<lparr>c_store := store\<rparr>, EvictCost e (victim # victims) deleted))"
| "write_atom c (EvictCost e victims deleted) =
     Some (c\<lparr>c_liveCost := i64 (c_liveCost c - eCost deleted)\<rparr>, EvictIndex e victims deleted)"
| "write_atom c (EvictIndex e victims deleted) =
     Some (radix_del c (v_Key (hd victims)), EvictReport e victims deleted)"
| "write_atom c (EvictReport e victims deleted) =
     (let c = c\<lparr>c_metrics := addEvictedCost (eCost deleted) (incEviction (c_metrics c))\<rparr>
      in Some (if OnEvict (c_config c) then emit c (Evicted (eKey deleted) (eValue deleted) (eCost deleted)) else c,
               EvictStore e (tl victims)))"
| "write_atom c (SetStore e) =
     (let (store, prev) = st_Set (c_store c) e in Some (c\<lparr>c_store := store\<rparr>, SetCost e prev))"
| "write_atom c (SetCost e prev) = Some (c\<lparr>c_liveCost := i64 (c_liveCost c + eCost e)\<rparr>, SetWheel e prev)"
| "write_atom c (SetWheel e prev) =
     Some (if eExpireAt e > 0
           then c\<lparr>c_wheel := w_Schedule (c_wheel c) (eKey e) (eKeyHash e) (eExpireAt e)\<rparr> else c, SetIndex e prev)"
| "write_atom c (SetIndex e prev) =
     Some (on_radix c (eKey e) (\<lambda>t strKey. radix_Insert t strKey (eKeyHash e)), SetReport e prev)"
| "write_atom c (SetReport e prev) =
     (let c = report_replaced c prev
      in Some (c\<lparr>c_metrics := addCost (eCost e) (incSet (c_metrics c))\<rparr>, Finished True))"
| "write_atom c pc = Some (c, pc)"

fun del_atom :: "('k, 'v) Cache \<Rightarrow> ('k, 'v) call_pc \<Rightarrow> ('k, 'v) Cache \<times> ('k, 'v) call_pc" where
  "del_atom c (DelStore key keyHash) =
     (case st_DeleteByHash (c_store c) key keyHash of
        (store, None) \<Rightarrow> (c\<lparr>c_store := store\<rparr>, Finished False)
      | (store, Some deleted) \<Rightarrow> (c\<lparr>c_store := store\<rparr>, DelCost key keyHash deleted))"
| "del_atom c (DelCost key keyHash deleted) =
     (c\<lparr>c_liveCost := i64 (c_liveCost c - eCost deleted)\<rparr>, DelPolicy key keyHash)"
| "del_atom c (DelPolicy key keyHash) = (c\<lparr>c_policy := Policer_Del (c_policy c) key keyHash\<rparr>, DelIndex key)"
| "del_atom c (DelIndex key) = (radix_del c key, DelReport)"
| "del_atom c DelReport = (c\<lparr>c_metrics := incDelete (c_metrics c)\<rparr>, Finished True)"
| "del_atom c pc = (c, pc)"

fun expire_atom :: "('k, 'v) Cache \<Rightarrow> ('k, 'v) call_pc \<Rightarrow> ('k, 'v) Cache \<times> ('k, 'v) call_pc" where
  "expire_atom c (ExpStore item now) =
     (case st_DeleteIfExpired (c_store c) (w_Key item) (w_KeyHash item) (w_ExpireAt item) now of
        (store, None) \<Rightarrow> (c\<lparr>c_store := store\<rparr>, Finished False)
      | (store, Some entry) \<Rightarrow> (c\<lparr>c_store := store\<rparr>, ExpCost item entry))"
| "expire_atom c (ExpCost item entry) =
     (c\<lparr>c_liveCost := i64 (c_liveCost c - eCost entry)\<rparr>, ExpPolicy item entry)"
| "expire_atom c (ExpPolicy item entry) =
     (c\<lparr>c_policy := Policer_Del (c_policy c) (eKey entry) (eKeyHash entry)\<rparr>, ExpIndex item entry)"
| "expire_atom c (ExpIndex item entry) = (radix_del c (w_Key item), ExpReport entry)"
| "expire_atom c (ExpReport entry) =
     (let c = c\<lparr>c_metrics := incExpiration (c_metrics c)\<rparr>
      in (if OnExpire (c_config c) then emit c (Expired (eKey entry) (eValue entry)) else c, Finished True))"
| "expire_atom c pc = (c, pc)"

fun deleting :: "('k, 'v) call_pc \<Rightarrow> bool" where
  "deleting (DelStore _ _) = True"
| "deleting (DelCost _ _ _) = True"
| "deleting (DelPolicy _ _) = True"
| "deleting (DelIndex _) = True"
| "deleting DelReport = True"
| "deleting _ = False"

fun expiring :: "('k, 'v) call_pc \<Rightarrow> bool" where
  "expiring (ExpStore _ _) = True"
| "expiring (ExpCost _ _) = True"
| "expiring (ExpPolicy _ _) = True"
| "expiring (ExpIndex _ _) = True"
| "expiring (ExpReport _) = True"
| "expiring _ = False"

definition call_atom :: "('k, 'v) Cache \<Rightarrow> ('k, 'v) call_pc \<Rightarrow> (('k, 'v) Cache \<times> ('k, 'v) call_pc) option" where
  "call_atom c pc =
     (if deleting pc then Some (del_atom c pc)
      else if expiring pc then Some (expire_atom c pc)
      else write_atom c pc)"

section \<open>A goroutine on its own\<close>

fun call_run :: "nat \<Rightarrow> ('k, 'v) Cache \<times> ('k, 'v) call_pc \<Rightarrow> (('k, 'v) Cache \<times> ('k, 'v) call_pc) option" where
  "call_run 0 s = Some s"
| "call_run (Suc n) s = (case call_atom (fst s) (snd s) of None \<Rightarrow> None | Some s' \<Rightarrow> call_run n s')"

lemma call_run_add: "call_run m s = Some s' \<Longrightarrow> call_run (m + n) s = call_run n s'"
  by (induction m arbitrary: s) (auto split: option.splits)

lemmas run_steps = numeral_eq_Suc call_atom_def Let_def

lemma evict_alone: "\<exists>n. call_run n (c, EvictStore e victims) = Some (foldl evictVictim c victims, SetStore e)"
proof (induction victims arbitrary: c)
  case Nil
  have "call_run 1 (c, EvictStore e []) = Some (c, SetStore e)" by (simp add: call_atom_def)
  then show ?case by (metis foldl_Nil)
next
  case (Cons v vs)
  have "\<exists>m. call_run m (c, EvictStore e (v # vs)) = Some (evictVictim c v, EvictStore e vs)"
  proof (cases "st_DeleteByHash (c_store c) (v_Key v) (v_KeyHash v)")
    case (Pair store r)
    show ?thesis
    proof (cases r)
      case None
      then have "call_run 1 (c, EvictStore e (v # vs)) = Some (evictVictim c v, EvictStore e vs)"
        using Pair by (simp add: call_atom_def evictVictim_def)
      then show ?thesis by blast
    next
      case (Some d)
      then have "call_run 4 (c, EvictStore e (v # vs)) = Some (evictVictim c v, EvictStore e vs)"
        using Pair by (simp add: run_steps evictVictim_def)
      then show ?thesis by blast
    qed
  qed
  then obtain m n where "call_run m (c, EvictStore e (v # vs)) = Some (evictVictim c v, EvictStore e vs)"
    "call_run n (evictVictim c v, EvictStore e vs) = Some (foldl evictVictim (evictVictim c v) vs, SetStore e)"
    using Cons.IH by blast
  then show ?case using call_run_add by (metis foldl_Cons)
qed

lemma doSet_alone:
  assumes "doSet c e = Some (c', ok)"
  shows "\<exists>n. call_run n (c, SetAdmit e) = Some (c', Finished ok)"
proof -
  obtain pol vs added where a: "Policer_Add (c_policy c) (eKey e) (eKeyHash e) (eCost e) = Some (pol, vs, added)"
    using assms by (cases "Policer_Add (c_policy c) (eKey e) (eKeyHash e) (eCost e)") (auto simp: doSet_def)
  show ?thesis
  proof (cases added)
    case False
    then have "call_run 2 (c, SetAdmit e) = Some (c', Finished ok)"
      using assms a by (simp add: run_steps doSet_def)
    then show ?thesis by blast
  next
    case True
    define c1 where "c1 = foldl evictVictim (c\<lparr>c_policy := pol\<rparr>) vs"
    have "call_run 1 (c, SetAdmit e) = Some (c\<lparr>c_policy := pol\<rparr>, EvictStore e vs)"
      using a True by (simp add: call_atom_def)
    moreover obtain n where "call_run n (c\<lparr>c_policy := pol\<rparr>, EvictStore e vs) = Some (c1, SetStore e)"
      using evict_alone unfolding c1_def by blast
    ultimately have "call_run (1 + n) (c, SetAdmit e) = Some (c1, SetStore e)" using call_run_add by metis
    moreover have "call_run 5 (c1, SetStore e) = Some (c', Finished ok)"
      using assms a True
      by (auto simp: run_steps doSet_def report_replaced_def c1_def [symmetric] split: prod.splits option.splits)
    ultimately show ?thesis using call_run_add by metis
  qed
qed

lemma setSync_alone:
  assumes "setSync c (eKey e) (eValue e) (eKeyHash e) (eCost e) (eExpireAt e) = Some (c', ok)"
  shows "\<exists>n. call_run n (c, SetPeek e) = Some (c', Finished ok)"
proof -
  obtain c1 updated where u: "tryUpdateExisting c (eKey e) (eValue e) (eKeyHash e) (eCost e) (eExpireAt e) = (c1, updated)" by fastforce
  show ?thesis
  proof (cases updated)
    case True
    have "call_run 6 (c, SetPeek e) = Some (c', Finished ok) \<or> call_run 4 (c, SetPeek e) = Some (c', Finished ok)"
      using assms u True
      by (auto simp: run_steps setSync_def tryUpdateExisting_def report_replaced_def split: if_splits prod.splits option.splits)
    then show ?thesis by blast
  next
    case False
    then have "call_run 1 (c, SetPeek e) = Some (c1, SetAdmit e) \<or> call_run 2 (c, SetPeek e) = Some (c1, SetAdmit e)"
      using u by (auto simp: run_steps tryUpdateExisting_def split: if_splits prod.splits)
    moreover have "\<lparr>eKey = eKey e, eValue = eValue e, eKeyHash = eKeyHash e, eExpireAt = eExpireAt e, eCost = eCost e\<rparr> = e"
      by simp
    then have "doSet c1 e = Some (c', ok)" using assms u False unfolding setSync_def by (simp only: Let_def prod.case if_False)
    ultimately show ?thesis using doSet_alone call_run_add by metis
  qed
qed

lemma doDelete_alone: "call_run 5 (c, DelStore k h) = Some (fst (doDelete c k h), Finished (snd (doDelete c k h)))"
proof -
  obtain store r where d: "st_DeleteByHash (c_store c) k h = (store, r)" by fastforce
  show ?thesis by (cases r) (simp_all add: run_steps doDelete_def d)
qed

lemma expire_alone: "\<exists>b. call_run 5 (c, ExpStore x now) = Some (expire_item now c x, Finished b)"
proof -
  obtain store r where d: "st_DeleteIfExpired (c_store c) (w_Key x) (w_KeyHash x) (w_ExpireAt x) now = (store, r)" by fastforce
  show ?thesis by (cases r) (auto simp: run_steps expire_item_def d)
qed

section \<open>What every schedule keeps\<close>

text \<open>
  The components on their own: each keeps its invariant, the policy tracks its keys under the hashes of
  the store, and the costs are 64-bit integers. Nothing relates the components to each other.
\<close>

definition parts_ok :: "('k \<Rightarrow> u64) \<Rightarrow> ('k, 'v) Cache \<Rightarrow> bool" where
  "parts_ok h c \<longleftrightarrow>
     getKeyHash (c_store c) = h \<and> st_inv (c_store c) \<and>
     (\<forall>k e. c_map c k = Some e \<longrightarrow> i64 (eCost e) = eCost e) \<and>
     Policer_inv (c_policy c) \<and> Policer_live (c_policy c) \<and>
     (\<forall>k x. Policer_tracked (c_policy c) k = Some x \<longrightarrow> ti_keyHash x = h k) \<and>
     w_sane (c_wheel c) \<and> (\<forall>t. c_radix c = Some t \<longrightarrow> radix_inv t)"

text \<open>The local variables of a goroutine: entries and victims carry the hashes of their keys.\<close>

definition call_entry_ok :: "('k \<Rightarrow> u64) \<Rightarrow> ('k, 'v) Entry \<Rightarrow> bool" where
  "call_entry_ok h e \<longleftrightarrow> eKeyHash e = h (eKey e) \<and> i64 (eCost e) = eCost e"

definition victims_ok :: "('k \<Rightarrow> u64) \<Rightarrow> 'k victim list \<Rightarrow> bool" where
  "victims_ok h victims \<longleftrightarrow> (\<forall>v\<in>set victims. v_KeyHash v = h (v_Key v))"

fun call_ok :: "('k \<Rightarrow> u64) \<Rightarrow> ('k, 'v) call_pc \<Rightarrow> bool" where
  "call_ok h (SetPeek e) = call_entry_ok h e"
| "call_ok h (SetUpdate e) = call_entry_ok h e"
| "call_ok h (UpdCost e prev d) = call_entry_ok h e"
| "call_ok h (UpdPolicy e prev) = call_entry_ok h e"
| "call_ok h (UpdWheel e prev) = call_entry_ok h e"
| "call_ok h (UpdReport e prev) = call_entry_ok h e"
| "call_ok h (SetAdmit e) = call_entry_ok h e"
| "call_ok h (SetReject e) = call_entry_ok h e"
| "call_ok h (EvictStore e vs) = (call_entry_ok h e \<and> victims_ok h vs)"
| "call_ok h (EvictCost e vs d) = (call_entry_ok h e \<and> victims_ok h vs)"
| "call_ok h (EvictIndex e vs d) = (call_entry_ok h e \<and> victims_ok h vs)"
| "call_ok h (EvictReport e vs d) = (call_entry_ok h e \<and> victims_ok h vs)"
| "call_ok h (SetStore e) = call_entry_ok h e"
| "call_ok h (SetCost e prev) = call_entry_ok h e"
| "call_ok h (SetWheel e prev) = call_entry_ok h e"
| "call_ok h (SetIndex e prev) = call_entry_ok h e"
| "call_ok h (SetReport e prev) = call_entry_ok h e"
| "call_ok h (DelStore k x) = (x = h k)"
| "call_ok h (ExpStore item now) = (w_KeyHash item = h (w_Key item))"
| "call_ok h pc = True"

text \<open>What a goroutine has done to the store and not yet to the live cost.\<close>

fun owed :: "('k, 'v) call_pc \<Rightarrow> int" where
  "owed (UpdCost e prev d) = d"
| "owed (EvictCost e vs d) = - eCost d"
| "owed (SetCost e prev) = eCost e"
| "owed (DelCost k x d) = - eCost d"
| "owed (ExpCost item d) = - eCost d"
| "owed pc = 0"

text \<open>The cost of the entry that a step of \<open>doSet\<close> has replaced; it is never taken off the live cost.\<close>

fun replaced_by :: "('k, 'v) call_pc \<Rightarrow> int" where
  "replaced_by (SetCost e (Some p)) = eCost p"
| "replaced_by pc = 0"

lemma parts_ok_upd [simp]:
  "parts_ok h (c\<lparr>c_metrics := x\<rparr>) = parts_ok h c" "parts_ok h (c\<lparr>c_liveCost := l\<rparr>) = parts_ok h c"
  "parts_ok h (emit c ev) = parts_ok h c"
  by (simp_all add: parts_ok_def)

lemma report_replaced_sel [simp]:
  "parts_ok h (report_replaced c prev) = parts_ok h c" "c_liveCost (report_replaced c prev) = c_liveCost c"
  "c_map (report_replaced c prev) = c_map c"
  by (simp_all add: report_replaced_def split: option.split)

lemma parts_ok_radix:
  assumes "parts_ok h c" "\<And>t s. radix_inv t \<Longrightarrow> radix_inv (f t s)"
  shows "parts_ok h (on_radix c k f)"
proof -
  have "\<forall>t. c_radix (on_radix c k f) = Some t \<longrightarrow> radix_inv t"
    using assms by (auto simp: parts_ok_def on_radix_def split: option.splits if_splits)
  then show ?thesis using assms(1) by (simp add: parts_ok_def)
qed

lemma parts_ok_radix_del: "parts_ok h c \<Longrightarrow> parts_ok h (radix_del c k)"
  unfolding radix_del_def by (rule parts_ok_radix) (simp_all add: radix_Delete_spec)

lemma parts_ok_radix_ins: "parts_ok h c \<Longrightarrow> parts_ok h (on_radix c k (\<lambda>t s. radix_Insert t s x))"
  by (rule parts_ok_radix) (simp_all add: radix_Insert_spec)

lemma parts_ok_wheel: "parts_ok h c \<Longrightarrow> parts_ok h (c\<lparr>c_wheel := w_Schedule (c_wheel c) k x t\<rparr>)"
  using w_Schedule_any [of "c_wheel c" k x t] by (simp add: parts_ok_def)

lemma parts_ok_policy:
  assumes "parts_ok h c" "Policer_inv p" "Policer_live p"
    and "\<And>k x. Policer_tracked p k = Some x \<Longrightarrow> ti_keyHash x = h k"
  shows "parts_ok h (c\<lparr>c_policy := p\<rparr>)"
  using assms by (simp add: parts_ok_def)

lemma parts_ok_store:
  assumes "parts_ok h c" "st_inv s" "getKeyHash s = getKeyHash (c_store c)"
    and "\<And>k e. st_map s k = Some e \<Longrightarrow> i64 (eCost e) = eCost e"
  shows "parts_ok h (c\<lparr>c_store := s\<rparr>)"
  using assms by (simp add: parts_ok_def c_map_def)

text \<open>The account of the live cost, before and after a step.\<close>

definition balanced :: "('k, 'v) Cache \<Rightarrow> ('k, 'v) call_pc \<Rightarrow> ('k, 'v) Cache \<Rightarrow> ('k, 'v) call_pc \<Rightarrow> bool" where
  "balanced c pc c' pc' \<longleftrightarrow>
     i64 (c_liveCost c' + owed pc' - map_sum eCost (c_map c') - replaced_by pc') =
     i64 (c_liveCost c + owed pc - map_sum eCost (c_map c))"

definition atom_ok :: "('k \<Rightarrow> u64) \<Rightarrow> ('k, 'v) Cache \<Rightarrow> ('k, 'v) call_pc
    \<Rightarrow> ('k, 'v) Cache \<Rightarrow> ('k, 'v) call_pc \<Rightarrow> bool" where
  "atom_ok h c pc c' pc' \<longleftrightarrow>
     parts_ok h c' \<and> call_ok h pc' \<and> balanced c pc c' pc' \<and> (i64 (c_liveCost c) = c_liveCost c \<longrightarrow> i64 (c_liveCost c') = c_liveCost c')"

text \<open>Taking a key out of the store, which evictions, deletions and expirations share.\<close>

lemma store_delete:
  assumes "parts_ok h c" "x = h k" "st_DeleteByHash (c_store c) k x = (s, r)"
  shows "r = c_map c k" "parts_ok h (c\<lparr>c_store := s\<rparr>)" "c_map (c\<lparr>c_store := s\<rparr>) = (c_map c)(k := None)"
    "map_sum eCost (c_map (c\<lparr>c_store := s\<rparr>)) = map_sum eCost (c_map c) - (case r of None \<Rightarrow> 0 | Some d \<Rightarrow> eCost d)"
proof -
  have i: "st_inv (c_store c)" "x = getKeyHash (c_store c) k" using assms(1,2) by (auto simp: parts_ok_def)
  have "getKeyHash s = getKeyHash (c_store c)" by (metis assms(3) fst_conv st_hash_same(3))
  with st_DeleteByHash_map [OF i(1), of k] assms(3) i(2)
  have s: "st_inv s" "st_map s = (c_map c)(k := None)" "r = c_map c k" "getKeyHash s = getKeyHash (c_store c)"
    by (simp_all add: c_map_def)
  show "r = c_map c k" by (rule s(3))
  show m: "c_map (c\<lparr>c_store := s\<rparr>) = (c_map c)(k := None)" using s(2) by (simp add: c_map_def)
  show "parts_ok h (c\<lparr>c_store := s\<rparr>)"
    by (rule parts_ok_store [OF assms(1) s(1,4)]) (use assms(1) in \<open>auto simp: s(2) parts_ok_def split: if_splits\<close>)
  have fin: "finite (dom (c_map c))" using i(1) by (simp add: c_map_def finite_st_map)
  show "map_sum eCost (c_map (c\<lparr>c_store := s\<rparr>)) = map_sum eCost (c_map c) - (case r of None \<Rightarrow> 0 | Some d \<Rightarrow> eCost d)"
    unfolding m using map_sum_delete [OF fin, of k _ eCost] s(3) by (cases "c_map c k") (auto simp: fun_upd_idem)
qed

lemma store_expire:
  assumes "parts_ok h c" "x = h k" "st_DeleteIfExpired (c_store c) k x t now = (s, r)"
  shows "parts_ok h (c\<lparr>c_store := s\<rparr>)"
    "map_sum eCost (c_map (c\<lparr>c_store := s\<rparr>)) = map_sum eCost (c_map c) - (case r of None \<Rightarrow> 0 | Some d \<Rightarrow> eCost d)"
proof -
  have i: "st_inv (c_store c)" "x = getKeyHash (c_store c) k" using assms(1,2) by (auto simp: parts_ok_def)
  have g: "getKeyHash s = getKeyHash (c_store c)" by (metis assms(3) fst_conv st_hash_same(5))
  note m = st_DeleteIfExpired_map [OF i(1), of k t now]
  have s: "st_inv s" "r = None \<and> st_map s = c_map c \<or> r \<noteq> None \<and> r = c_map c k \<and> st_map s = (c_map c)(k := None)"
    using m assms(3) i(2) by (auto simp: c_map_def split: if_splits)
  show "parts_ok h (c\<lparr>c_store := s\<rparr>)"
    by (rule parts_ok_store [OF assms(1) s(1) g]) (use assms(1) s(2) in \<open>auto simp: parts_ok_def split: if_splits\<close>)
  have fin: "finite (dom (c_map c))" using i(1) by (simp add: c_map_def finite_st_map)
  have cm: "c_map (c\<lparr>c_store := s\<rparr>) = st_map s" by (simp add: c_map_def)
  show "map_sum eCost (c_map (c\<lparr>c_store := s\<rparr>)) = map_sum eCost (c_map c) - (case r of None \<Rightarrow> 0 | Some d \<Rightarrow> eCost d)"
    unfolding cm using map_sum_delete [OF fin, of k _ eCost] s(2) by (cases "c_map c k"; cases r) auto
qed

lemma store_set:
  assumes "parts_ok h c" "call_entry_ok h e" "st_Set (c_store c) e = (s, r)"
  shows "r = c_map c (eKey e)" "parts_ok h (c\<lparr>c_store := s\<rparr>)" "c_map (c\<lparr>c_store := s\<rparr>) = (c_map c)(eKey e \<mapsto> e)"
    "map_sum eCost (c_map (c\<lparr>c_store := s\<rparr>)) =
       map_sum eCost (c_map c) + eCost e - (case r of None \<Rightarrow> 0 | Some p \<Rightarrow> eCost p)"
proof -
  have i: "st_inv (c_store c)" "st_fits (c_store c) (eKey e) e" using assms(1,2) by (auto simp: parts_ok_def call_entry_ok_def st_fits_def)
  have g: "getKeyHash s = getKeyHash (c_store c)" by (metis assms(3) fst_conv st_hash_same(1))
  from st_Set_map [OF i] assms(3)
  have s: "st_inv s" "st_map s = (c_map c)(eKey e \<mapsto> e)" "r = c_map c (eKey e)" by (simp_all add: c_map_def)
  show "r = c_map c (eKey e)" by (rule s(3))
  show m: "c_map (c\<lparr>c_store := s\<rparr>) = (c_map c)(eKey e \<mapsto> e)" using s(2) by (simp add: c_map_def)
  show "parts_ok h (c\<lparr>c_store := s\<rparr>)"
    by (rule parts_ok_store [OF assms(1) s(1) g])
      (use assms(1,2) in \<open>auto simp: s(2) parts_ok_def call_entry_ok_def split: if_splits\<close>)
  have fin: "finite (dom (c_map c))" using i(1) by (simp add: c_map_def finite_st_map)
  show "map_sum eCost (c_map (c\<lparr>c_store := s\<rparr>)) =
       map_sum eCost (c_map c) + eCost e - (case r of None \<Rightarrow> 0 | Some p \<Rightarrow> eCost p)"
    unfolding m using map_sum_insert [OF fin, of "eKey e" eCost e] map_sum_update [OF fin, of "eKey e" _ eCost e] s(3)
    by (cases "c_map c (eKey e)") auto
qed

lemma store_update:
  assumes "parts_ok h c" "call_entry_ok h e"
    and "st_UpdateExistingByHash (c_store c) (eKey e) (eKeyHash e) (eValue e) (eCost e) (eExpireAt e) b = (s, prev, updated, d, x)"
  shows "parts_ok h (c\<lparr>c_store := s\<rparr>)"
    "i64 (map_sum eCost (c_map (c\<lparr>c_store := s\<rparr>))) = i64 (map_sum eCost (c_map c) + (if updated then d else 0))"
proof -
  let ?k = "eKey e"
  have i: "st_inv (c_store c)" "eKeyHash e = getKeyHash (c_store c) ?k" using assms(1,2) by (auto simp: parts_ok_def call_entry_ok_def)
  have fin: "finite (dom (c_map c))" using i(1) by (simp add: c_map_def finite_st_map)
  note u = st_UpdateExistingByHash_map [OF i(1), of ?k]
  have "parts_ok h (c\<lparr>c_store := s\<rparr>) \<and>
    i64 (map_sum eCost (c_map (c\<lparr>c_store := s\<rparr>))) = i64 (map_sum eCost (c_map c) + (if updated then d else 0))"
  proof (cases "st_map (c_store c) ?k")
    case None
    then have "s = c_store c" "\<not> updated" using u(1) assms(3) unfolding i(2) by simp_all
    then show ?thesis using assms(1) by simp
  next
    case (Some old)
    let ?e = "\<lparr>eKey = ?k, eValue = eValue e, eKeyHash = getKeyHash (c_store c) ?k, eExpireAt = eExpireAt e, eCost = eCost e\<rparr>"
    obtain s' where s': "st_UpdateExistingByHash (c_store c) ?k (getKeyHash (c_store c) ?k) (eValue e) (eCost e) (eExpireAt e) b =
        (s', if b then Some old else None, True, i64 (eCost e - eCost old), eExpireAt old)"
      "st_inv s'" "getKeyHash s' = getKeyHash (c_store c)" "st_map s' = (st_map (c_store c))(?k \<mapsto> ?e)"
      using u(2) [OF Some, of "eValue e" "eCost e" "eExpireAt e" b] by blast
    then have s: "s = s'" "updated" "d = i64 (eCost e - eCost old)" using assms(3) unfolding i(2) by simp_all
    have "parts_ok h (c\<lparr>c_store := s'\<rparr>)"
      by (rule parts_ok_store [OF assms(1) s'(2,3)])
        (use assms(1,2) in \<open>auto simp: s'(4) parts_ok_def call_entry_ok_def c_map_def split: if_splits\<close>)
    moreover have "i64 (map_sum eCost (c_map (c\<lparr>c_store := s'\<rparr>))) = i64 (map_sum eCost (c_map c) + i64 (eCost e - eCost old))"
    proof -
      have "c_map (c\<lparr>c_store := s'\<rparr>) = (c_map c)(?k \<mapsto> ?e)" using s'(4) by (simp add: c_map_def)
      then have "map_sum eCost (c_map (c\<lparr>c_store := s'\<rparr>)) = map_sum eCost (c_map c) - eCost old + eCost e"
        using map_sum_update [OF fin, of ?k old eCost ?e] Some by (simp add: c_map_def)
      then show ?thesis by (simp only: i64_add_right) (simp add: algebra_simps)
    qed
    ultimately show ?thesis using s by simp
  qed
  then show "parts_ok h (c\<lparr>c_store := s\<rparr>)"
    "i64 (map_sum eCost (c_map (c\<lparr>c_store := s\<rparr>))) = i64 (map_sum eCost (c_map c) + (if updated then d else 0))" by blast+
qed

text \<open>The steps of a set, of a deletion and of an expiration.\<close>

lemmas atom_defs = atom_ok_def balanced_def

lemma admit_ok:
  assumes "parts_ok h c" "call_entry_ok h e" "Policer_Add (c_policy c) (eKey e) (eKeyHash e) (eCost e) = Some (pol, vs, added)"
  shows "added" "victims_ok h vs" "parts_ok h (c\<lparr>c_policy := pol\<rparr>)"
proof -
  have i: "Policer_inv (c_policy c)" "\<And>k x. Policer_tracked (c_policy c) k = Some x \<Longrightarrow> ti_keyHash x = h k"
    using assms(1) by (auto simp: parts_ok_def)
  show "added" by (rule po.add_accepts [OF i(1) assms(3)])
  show "victims_ok h vs" unfolding victims_ok_def
  proof
    fix v assume "v \<in> set vs"
    from po.add_victims(2) [OF i(1) assms(3) this] show "v_KeyHash v = h (v_Key v)" using i(2) by auto
  qed
  show "parts_ok h (c\<lparr>c_policy := pol\<rparr>)"
  proof (rule parts_ok_policy [OF assms(1)])
    show "Policer_inv pol" by (rule po.inv_add [OF i(1) assms(3)])
    show "Policer_live pol" using po.add_live [OF i(1) assms(3)] assms(1) by (simp add: parts_ok_def)
    show "ti_keyHash x = h k" if "Policer_tracked pol k = Some x" for k x
      using that i(2) assms(2) unfolding po.tracked_add [OF i(1) assms(3)]
      by (auto simp: restrict_map_def call_entry_ok_def split: if_splits)
  qed
qed

lemma del_policy_ok: "parts_ok h c \<Longrightarrow> parts_ok h (c\<lparr>c_policy := Policer_Del (c_policy c) k x\<rparr>)"
  by (rule parts_ok_policy) (auto simp: parts_ok_def po.inv_del po.live_same po.tracked_del split: if_splits)

lemma upd_policy_ok:
  "parts_ok h c \<Longrightarrow> call_entry_ok h e \<Longrightarrow>
    parts_ok h (c\<lparr>c_policy := Policer_Update (c_policy c) (eKey e) (eKeyHash e) (eCost e)\<rparr>)"
  by (rule parts_ok_policy)
    (auto simp: parts_ok_def call_entry_ok_def po.inv_upd po.live_same po.tracked_upd split: if_splits)

lemma victims_tl: "victims_ok h vs \<Longrightarrow> victims_ok h (tl vs)"
  by (cases vs) (simp_all add: victims_ok_def)

lemma write_atom_ok:
  assumes "parts_ok h c" "call_ok h pc" "write_atom c pc = Some (c', pc')"
  shows "atom_ok h c pc c' pc'"
  using assms
proof (cases "(c, pc)" rule: write_atom.cases)
  case (2 c1 e)
  obtain s prev updated d x where u: "st_UpdateExistingByHash (c_store c) (eKey e) (eKeyHash e) (eValue e) (eCost e)
      (eExpireAt e) (OnEvict (c_config c)) = (s, prev, updated, d, x)" by (metis prod_cases5)
  have e: "call_entry_ok h e" using assms(2) 2 by simp
  note su = store_update [OF assms(1) e u]
  have "i64 (a - map_sum eCost (c_map (c\<lparr>c_store := s\<rparr>))) = i64 (a - (map_sum eCost (c_map c) + (if updated then d else 0)))" for a
    using su(2) by (metis i64_diff_right)
  then show ?thesis using assms(3) 2 u su(1) e by (auto simp: atom_defs)
next
  case (7 c1 e)
  obtain pol vs added where a: "Policer_Add (c_policy c) (eKey e) (eKeyHash e) (eCost e) = Some (pol, vs, added)"
    using assms(3) 7 by (auto split: option.splits)
  have e: "call_entry_ok h e" using assms(2) 7 by simp
  show ?thesis using assms(3) 7 a admit_ok [OF assms(1) e a] e by (auto simp: atom_defs)
next
  case (10 c1 e v vs)
  obtain s r where d: "st_DeleteByHash (c_store c) (v_Key v) (v_KeyHash v) = (s, r)" by fastforce
  have v: "v_KeyHash v = h (v_Key v)" using assms(2) 10 by (simp add: victims_ok_def)
  show ?thesis using assms(2,3) 10 d store_delete(2,4) [OF assms(1) v d]
    by (cases r) (auto simp: atom_defs victims_ok_def)
next
  case (14 c1 e)
  obtain s r where d: "st_Set (c_store c) e = (s, r)" by fastforce
  have e: "call_entry_ok h e" using assms(2) 14 by simp
  show ?thesis using assms(3) 14 d store_set(2,4) [OF assms(1) e d] e by (cases r) (auto simp: atom_defs)
qed (auto simp: atom_defs upd_policy_ok parts_ok_wheel parts_ok_radix_del parts_ok_radix_ins Let_def victims_tl
    split: if_splits)

lemma del_atom_ok:
  assumes "parts_ok h c" "call_ok h pc" "deleting pc" "del_atom c pc = (c', pc')"
  shows "atom_ok h c pc c' pc'"
  using assms
proof (cases "(c, pc)" rule: del_atom.cases)
  case (1 c1 k x)
  obtain s r where d: "st_DeleteByHash (c_store c) k x = (s, r)" by fastforce
  have v: "x = h k" using assms(2) 1 by simp
  show ?thesis using assms(4) 1 d store_delete(2,4) [OF assms(1) v d] by (cases r) (auto simp: atom_defs)
qed (auto simp: atom_defs del_policy_ok parts_ok_radix_del)

lemma expire_atom_ok:
  assumes "parts_ok h c" "call_ok h pc" "expiring pc" "expire_atom c pc = (c', pc')"
  shows "atom_ok h c pc c' pc'"
  using assms
proof (cases "(c, pc)" rule: expire_atom.cases)
  case (1 c1 item now)
  obtain s r where d: "st_DeleteIfExpired (c_store c) (w_Key item) (w_KeyHash item) (w_ExpireAt item) now = (s, r)" by fastforce
  have v: "w_KeyHash item = h (w_Key item)" using assms(2) 1 by simp
  show ?thesis using assms(4) 1 d store_expire [OF assms(1) v d] by (cases r) (auto simp: atom_defs)
qed (auto simp: atom_defs del_policy_ok parts_ok_radix_del Let_def split: if_splits)

lemma call_atom_ok:
  "parts_ok h c \<Longrightarrow> call_ok h pc \<Longrightarrow> call_atom c pc = Some (c', pc') \<Longrightarrow> atom_ok h c pc c' pc'"
  by (auto simp: call_atom_def intro: write_atom_ok del_atom_ok expire_atom_ok split: if_splits)

lemma call_atom_returns: "parts_ok h c \<Longrightarrow> call_atom c pc \<noteq> None"
proof (cases "(c, pc)" rule: write_atom.cases)
  case (7 c1 e)
  assume "parts_ok h c"
  then have "Policer_Add (c_policy c) (eKey e) (eKeyHash e) (eCost e) \<noteq> None"
    by (intro po.add_returns) (auto simp: parts_ok_def)
  then show ?thesis using 7 by (auto simp: call_atom_def)
qed (auto simp: call_atom_def Let_def split: option.split prod.split)

section \<open>Goroutines that take turns\<close>

datatype ('k, 'v) write_call =
    CallSet 'k 'v int int \<comment> \<open>value, cost and expiration time\<close>
  | CallDelete 'k
  | CallExpire 'k int int \<comment> \<open>the time the item was scheduled for, and the time of the sweep\<close>

fun call_start :: "('k, 'v) Cache \<Rightarrow> ('k, 'v) write_call \<Rightarrow> ('k, 'v) call_pc" where
  "call_start c (CallSet key val cost expireAt) =
     SetPeek \<lparr>eKey = key, eValue = val, eKeyHash = getKeyHash (c_store c) key, eExpireAt = expireAt, eCost = cost\<rparr>"
| "call_start c (CallDelete key) = DelStore key (getKeyHash (c_store c) key)"
| "call_start c (CallExpire key expireAt now) =
     ExpStore \<lparr>w_Key = key, w_KeyHash = getKeyHash (c_store c) key, w_ExpireAt = expireAt\<rparr> now"

fun call_typed :: "('k, 'v) write_call \<Rightarrow> bool" where
  "call_typed (CallSet key val cost expireAt) = (i64 cost = cost)"
| "call_typed _ = True"

text \<open>
  The cache, the point each goroutine has reached, and, as a ghost, the sum of the costs of the entries
  that \<open>doSet\<close> has replaced. A goroutine begins a call when it has finished the last one.
\<close>

record ('k, 'v) calls_sys =
  cs_cache :: "('k, 'v) Cache"
  cs_calls :: "('k, 'v) call_pc list"
  cs_replaced :: int

datatype ('k, 'v) call_event = Begin nat "('k, 'v) write_call" | Step nat

fun event_typed :: "('k, 'v) call_event \<Rightarrow> bool" where
  "event_typed (Begin p call) = call_typed call"
| "event_typed (Step p) = True"

fun call_move :: "('k, 'v) call_event \<Rightarrow> ('k, 'v) calls_sys \<Rightarrow> ('k, 'v) calls_sys option" where
  "call_move (Begin p call) s =
     (if p < length (cs_calls s) \<and> cs_calls s ! p \<in> {Finished True, Finished False}
      then Some (s\<lparr>cs_calls := (cs_calls s)[p := call_start (cs_cache s) call]\<rparr>) else Some s)"
| "call_move (Step p) s =
     (if p < length (cs_calls s)
      then (case call_atom (cs_cache s) (cs_calls s ! p) of
              None \<Rightarrow> None
            | Some (c, pc) \<Rightarrow> Some (s\<lparr>cs_cache := c, cs_calls := (cs_calls s)[p := pc],
                                   cs_replaced := cs_replaced s + replaced_by pc\<rparr>))
      else Some s)"

fun calls_run :: "('k, 'v) call_event list \<Rightarrow> ('k, 'v) calls_sys \<Rightarrow> ('k, 'v) calls_sys option" where
  "calls_run [] s = Some s"
| "calls_run (ev # es) s = (case call_move ev s of None \<Rightarrow> None | Some s' \<Rightarrow> calls_run es s')"

definition calls_from :: "nat \<Rightarrow> ('k, 'v) Cache \<Rightarrow> ('k, 'v) calls_sys" where
  "calls_from n c = \<lparr>cs_cache = c, cs_calls = replicate n (Finished True), cs_replaced = 0\<rparr>"

definition calls_inv :: "('k \<Rightarrow> u64) \<Rightarrow> ('k, 'v) calls_sys \<Rightarrow> bool" where
  "calls_inv h s \<longleftrightarrow>
     parts_ok h (cs_cache s) \<and> (\<forall>pc\<in>set (cs_calls s). call_ok h pc) \<and>
     i64 (c_liveCost (cs_cache s)) = c_liveCost (cs_cache s) \<and>
     i64 (c_liveCost (cs_cache s) + sum_list (map owed (cs_calls s)) - map_sum eCost (c_map (cs_cache s)) - cs_replaced s) = 0"

lemma call_start_ok: "call_typed call \<Longrightarrow> getKeyHash (c_store c) = h \<Longrightarrow> call_ok h (call_start c call) \<and> owed (call_start c call) = 0"
  by (cases call) (auto simp: call_entry_ok_def)

lemma owed_update:
  "p < length pcs \<Longrightarrow> sum_list (map owed (pcs[p := pc])) = sum_list (map owed pcs) + owed pc - owed (pcs ! p)"
  by (induction pcs arbitrary: p) (auto split: nat.split)

lemma call_move_inv:
  assumes "calls_inv h s" "event_typed ev"
  shows "\<exists>s'. call_move ev s = Some s' \<and> calls_inv h s'"
proof (cases ev)
  case (Begin p call)
  have "call_ok h (call_start (cs_cache s) call) \<and> owed (call_start (cs_cache s) call) = 0"
    using assms Begin by (intro call_start_ok) (auto simp: calls_inv_def parts_ok_def)
  moreover have "sum_list (map owed ((cs_calls s)[p := call_start (cs_cache s) call])) = sum_list (map owed (cs_calls s))"
    if "p < length (cs_calls s)" "cs_calls s ! p \<in> {Finished True, Finished False}"
    using that calculation by (auto simp: owed_update)
  ultimately show ?thesis using assms(1) Begin
    by (auto simp: calls_inv_def dest!: set_update_subset_insert [THEN subsetD])
next
  case (Step p)
  show ?thesis
  proof (cases "p < length (cs_calls s)")
    case True
    let ?c = "cs_cache s" and ?pc = "cs_calls s ! p"
    have ok: "parts_ok h ?c" "call_ok h ?pc" using assms(1) True by (auto simp: calls_inv_def)
    obtain c pc where a: "call_atom ?c ?pc = Some (c, pc)" using call_atom_returns [OF ok(1), of ?pc] by auto
    from call_atom_ok [OF ok a] have k: "parts_ok h c" "call_ok h pc"
      "i64 (c_liveCost c + owed pc - map_sum eCost (c_map c) - replaced_by pc) =
       i64 (c_liveCost ?c + owed ?pc - map_sum eCost (c_map ?c))"
      "i64 (c_liveCost c) = c_liveCost c"
      using assms(1) by (auto simp: atom_defs calls_inv_def)
    define rest where "rest = sum_list (map owed (cs_calls s)) - owed ?pc - cs_replaced s"
    have "i64 (c_liveCost c + owed pc - map_sum eCost (c_map c) - replaced_by pc + rest) =
        i64 (c_liveCost ?c + owed ?pc - map_sum eCost (c_map ?c) + rest)"
      using k(3) by (metis i64_add_left)
    also have "\<dots> = 0" using assms(1) by (simp add: calls_inv_def rest_def algebra_simps)
    finally have "i64 (c_liveCost c + sum_list (map owed ((cs_calls s)[p := pc])) - map_sum eCost (c_map c) -
        (cs_replaced s + replaced_by pc)) = 0"
      using True by (simp add: owed_update rest_def algebra_simps)
    then show ?thesis using Step True a k(1,2,4) assms(1)
      by (auto simp: calls_inv_def dest!: set_update_subset_insert [THEN subsetD])
  qed (use Step assms in simp)
qed

lemma calls_run_inv:
  "calls_inv h s \<Longrightarrow> \<forall>ev\<in>set es. event_typed ev \<Longrightarrow> \<exists>s'. calls_run es s = Some s' \<and> calls_inv h s'"
proof (induction es arbitrary: s)
  case (Cons ev es)
  then show ?case using call_move_inv [of h s ev] by auto
qed simp

text \<open>A cache whose parts agree is a good start.\<close>

lemma ready_parts: "ready m c \<Longrightarrow> parts_ok (getKeyHash (c_store c)) c"
  using core_tracked_hash [of c]
  by (auto simp: ready_def parts_ok_def core_inv_def data_inv_def radix_ok_def hashed_def)

lemma calls_from_inv: "ready m c \<Longrightarrow> calls_inv (getKeyHash (c_store c)) (calls_from n c)"
  using ready_parts [of m c]
  by (auto simp: calls_inv_def calls_from_def sum_list_replicate map_replicate_const ready_def core_inv_def data_inv_def)

lemma calls_any_schedule:
  assumes "ready m c" "\<forall>ev\<in>set es. event_typed ev"
  shows "\<exists>s. calls_run es (calls_from n c) = Some s \<and> parts_ok (getKeyHash (c_store c)) (cs_cache s) \<and>
    (set (cs_calls s) \<subseteq> {Finished True, Finished False} \<longrightarrow>
      c_liveCost (cs_cache s) = i64 (map_sum eCost (c_map (cs_cache s)) + cs_replaced s))"
proof -
  obtain s where s: "calls_run es (calls_from n c) = Some s" "calls_inv (getKeyHash (c_store c)) s"
    using calls_run_inv [OF calls_from_inv [OF assms(1)] assms(2)] by blast
  have "c_liveCost (cs_cache s) = i64 (map_sum eCost (c_map (cs_cache s)) + cs_replaced s)"
    if "set (cs_calls s) \<subseteq> {Finished True, Finished False}"
  proof -
    have "map owed (cs_calls s) = replicate (length (cs_calls s)) 0"
      using that by (intro replicate_eqI) auto
    then have "sum_list (map owed (cs_calls s)) = 0" by (simp add: sum_list_replicate)
    then have z: "i64 (c_liveCost (cs_cache s) - map_sum eCost (c_map (cs_cache s)) - cs_replaced s) = i64 0"
      using s(2) by (simp add: calls_inv_def)
    have "c_liveCost (cs_cache s) = i64 (c_liveCost (cs_cache s))" using s(2) by (simp add: calls_inv_def)
    also have "\<dots> = i64 (i64 (c_liveCost (cs_cache s) - map_sum eCost (c_map (cs_cache s)) - cs_replaced s) +
        (map_sum eCost (c_map (cs_cache s)) + cs_replaced s))" by (simp only: i64_add_left) simp
    finally show ?thesis unfolding z by simp
  qed
  then show ?thesis using s by (auto simp: calls_inv_def)
qed

section \<open>Schedules after which the parts disagree\<close>

text \<open>A goroutine that runs while the others stand still.\<close>

lemma calls_run_append: "calls_run es s = Some s' \<Longrightarrow> calls_run (es @ fs) s = calls_run fs s'"
  by (induction es arbitrary: s) (auto split: option.splits)

lemma steps_alone:
  assumes "call_run n (c, pc) = Some (c', pc')" "p < length (cs_calls s)" "cs_calls s ! p = pc" "cs_cache s = c"
  shows "\<exists>r. calls_run (replicate n (Step p)) s = Some (s\<lparr>cs_cache := c', cs_calls := (cs_calls s)[p := pc'], cs_replaced := r\<rparr>)"
  using assms
proof (induction n arbitrary: c pc s)
  case 0
  then show ?case by (auto intro: exI [of _ "cs_replaced s"])
next
  case (Suc n)
  obtain c1 pc1 where a: "call_atom c pc = Some (c1, pc1)" "call_run n (c1, pc1) = Some (c', pc')"
    using Suc.prems(1) by (auto split: option.splits)
  let ?s = "s\<lparr>cs_cache := c1, cs_calls := (cs_calls s)[p := pc1], cs_replaced := cs_replaced s + replaced_by pc1\<rparr>"
  from Suc.IH [OF a(2), of ?s] Suc.prems(2-4) a(1) show ?case by auto
qed

text \<open>\<open>doSet\<close> on a cache whose parts need not agree. The drift is how much the live cost is off.\<close>

definition drift :: "('k, 'v) Cache \<Rightarrow> int" where
  "drift c = i64 (c_liveCost c - map_sum eCost (c_map c))"

lemma drift_upd [simp]:
  "drift (c\<lparr>c_policy := p\<rparr>) = drift c" "drift (c\<lparr>c_metrics := x\<rparr>) = drift c" "drift (emit c ev) = drift c"
  "drift (radix_del c k) = drift c"
  by (simp_all add: drift_def)

lemma evictVictim_parts:
  assumes "parts_ok h c" "v_KeyHash v = h (v_Key v)"
  shows "parts_ok h (evictVictim c v)" "c_map (evictVictim c v) = (c_map c)(v_Key v := None)"
    "drift (evictVictim c v) = drift c"
    "c_policy (evictVictim c v) = c_policy c"
proof -
  obtain s r where d: "st_DeleteByHash (c_store c) (v_Key v) (v_KeyHash v) = (s, r)" by fastforce
  note m = store_delete [OF assms d]
  have "parts_ok h (evictVictim c v) \<and> c_map (evictVictim c v) = (c_map c)(v_Key v := None) \<and>
    drift (evictVictim c v) = drift c \<and>
    c_policy (evictVictim c v) = c_policy c"
  proof (cases r)
    case None
    then show ?thesis using m(2-4) d by (simp add: evictVictim_def drift_def)
  next
    case (Some e)
    have "drift (c\<lparr>c_store := s, c_liveCost := i64 (c_liveCost c - eCost e)\<rparr>) = drift c"
      using m(4) Some by (simp add: drift_def c_map_def)
    then show ?thesis using m(2,3) d Some
      by (simp add: evictVictim_def Let_def parts_ok_radix_del)
  qed
  then show "parts_ok h (evictVictim c v)" "c_map (evictVictim c v) = (c_map c)(v_Key v := None)"
    "drift (evictVictim c v) = drift c"
    "c_policy (evictVictim c v) = c_policy c" by blast+
qed

lemma evict_parts:
  assumes "parts_ok h c" "victims_ok h vs"
  shows "parts_ok h (foldl evictVictim c vs) \<and> c_map (foldl evictVictim c vs) = c_map c |` (- v_Key ` set vs) \<and>
    drift (foldl evictVictim c vs) = drift c \<and> c_policy (foldl evictVictim c vs) = c_policy c"
  using assms
proof (induction vs arbitrary: c)
  case Nil
  then show ?case by (simp add: restrict_map_def)
next
  case (Cons v vs)
  have v: "v_KeyHash v = h (v_Key v)" "victims_ok h vs" using Cons.prems(2) by (simp_all add: victims_ok_def)
  note e = evictVictim_parts [OF Cons.prems(1) v(1)]
  have "c_map (evictVictim c v) |` (- v_Key ` set vs) = c_map c |` (- v_Key ` set (v # vs))"
    using e(2) by (auto simp: restrict_map_def fun_eq_iff)
  then show ?case using Cons.IH [OF e(1) v(2)] e(3,4) by simp
qed

lemma doSet_parts:
  assumes c: "parts_ok h c" and e: "call_entry_ok h e" and r: "doSet c e = Some (c', ok)"
  shows "ok" "parts_ok h c'" "c_map c' (eKey e) = Some e"
    "drift c' = i64 (drift c + (case c_map c (eKey e) of None \<Rightarrow> 0 | Some p \<Rightarrow> eCost p))"
    "c_liveCost c' = i64 (c_liveCost c')"
proof -
  obtain pol vs added where a: "Policer_Add (c_policy c) (eKey e) (eKeyHash e) (eCost e) = Some (pol, vs, added)"
    using r by (cases "Policer_Add (c_policy c) (eKey e) (eKeyHash e) (eCost e)") (auto simp: doSet_def)
  note ad = admit_ok [OF c e a]
  have pi: "Policer_inv (c_policy c)" using c by (simp add: parts_ok_def)
  define c1 where "c1 = foldl evictVictim (c\<lparr>c_policy := pol\<rparr>) vs"
  from evict_parts [OF ad(3,2)]
  have c1: "parts_ok h c1" "c_map c1 = c_map c |` (- v_Key ` set vs)"
    "drift c1 = drift c"
    by (simp_all add: c1_def)
  have "eKey e \<notin> v_Key ` set vs" using po.add_victims(2) [OF pi a] by fastforce
  then have old: "c_map c1 (eKey e) = c_map c (eKey e)" using c1(2) by (simp add: restrict_map_def)
  obtain s prev where st: "st_Set (c_store c1) e = (s, prev)" by fastforce
  note ss = store_set [OF c1(1) e st]
  define c2 where "c2 = c1\<lparr>c_store := s, c_liveCost := i64 (c_liveCost c1 + eCost e)\<rparr>"
  define c3 where "c3 = (if eExpireAt e > 0
    then c2\<lparr>c_wheel := w_Schedule (c_wheel c2) (eKey e) (eKeyHash e) (eExpireAt e)\<rparr> else c2)"
  define c4 where "c4 = on_radix c3 (eKey e) (\<lambda>t s. radix_Insert t s (eKeyHash e))"
  have "doSet c e = Some ((report_replaced c4 prev)\<lparr>c_metrics := addCost (eCost e) (incSet (c_metrics (report_replaced c4 prev)))\<rparr>, True)"
    using a ad(1) st
    by (cases prev) (simp_all add: doSet_def Let_def c1_def [symmetric] c2_def c3_def c4_def report_replaced_def)
  then have c': "c' = (report_replaced c4 prev)\<lparr>c_metrics := addCost (eCost e) (incSet (c_metrics (report_replaced c4 prev)))\<rparr>" and ok: ok
    using r by simp_all
  have p2: "parts_ok h c2" using ss(2) by (simp add: c2_def)
  then have p3: "parts_ok h c3" by (simp add: c3_def parts_ok_wheel)
  then have p4: "parts_ok h c4" unfolding c4_def by (rule parts_ok_radix_ins)
  have m: "c_map c' = (c_map c1)(eKey e \<mapsto> e)" "c_liveCost c' = i64 (c_liveCost c1 + eCost e)"
    "map_sum eCost (c_map c') = map_sum eCost (c_map c1) + eCost e - (case prev of None \<Rightarrow> 0 | Some p \<Rightarrow> eCost p)"
    using ss(3,4) by (simp_all add: c' c4_def c3_def c2_def)
  show ok by (rule ok)
  show "parts_ok h c'" using p4 by (simp add: c')
  show "c_map c' (eKey e) = Some e" by (simp add: m(1))
  show "c_liveCost c' = i64 (c_liveCost c')" by (simp add: m(2))
  have "drift c' = i64 (drift c1 + (case prev of None \<Rightarrow> 0 | Some p \<Rightarrow> eCost p))"
    unfolding drift_def m(2,3) by (simp only: i64_diff_left i64_add_left) (simp add: algebra_simps)
  also have "\<dots> = i64 (drift c + (case c_map c (eKey e) of None \<Rightarrow> 0 | Some p \<Rightarrow> eCost p))"
    unfolding c1(3) using ss(1) old by simp
  finally show "drift c' = i64 (drift c + (case c_map c (eKey e) of None \<Rightarrow> 0 | Some p \<Rightarrow> eCost p))" .
qed

lemma doSet_parts_returns:
  assumes "parts_ok h c"
  shows "doSet c e \<noteq> None"
proof -
  have "Policer_Add (c_policy c) (eKey e) (eKeyHash e) (eCost e) \<noteq> None"
    using assms by (intro po.add_returns) (auto simp: parts_ok_def)
  then show ?thesis by (auto simp: doSet_def Let_def split: prod.split)
qed

text \<open>
  Two sets of a key that is not there: when both look before either stores, both take the path of a new
  entry, the second replaces the entry of the first, and the cost of the first stays in the live cost.
\<close>

definition both_set :: "'k \<Rightarrow> 'v \<Rightarrow> int \<Rightarrow> 'v \<Rightarrow> int \<Rightarrow> nat \<Rightarrow> nat \<Rightarrow> ('k, 'v) call_event list" where
  "both_set k v cost v' cost' m n =
     [Begin 0 (CallSet k v cost 0), Begin 1 (CallSet k v' cost' 0), Step 0, Step 1] @
     replicate m (Step 0) @ replicate n (Step 1)"

theorem racing_sets_overcount:
  assumes "ready i c" "c_map c k = None" "i64 cost = cost" "i64 cost' = cost'"
  shows "\<exists>m n s e. calls_run (both_set k v cost v' cost' m n) (calls_from 2 c) = Some s \<and>
    cs_calls s = [Finished True, Finished True] \<and> c_map (cs_cache s) k = Some e \<and> eValue e = v' \<and>
    c_liveCost (cs_cache s) = i64 (map_sum eCost (c_map (cs_cache s)) + cost)"
proof -
  let ?h = "getKeyHash (c_store c)"
  let ?e = "\<lambda>v cost. \<lparr>eKey = k, eValue = v, eKeyHash = ?h k, eExpireAt = 0, eCost = cost\<rparr>"
  have p: "parts_ok ?h c" by (rule ready_parts [OF assms(1)])
  have e: "call_entry_ok ?h (?e v cost)" "call_entry_ok ?h (?e v' cost')" using assms(3,4) by (simp_all add: call_entry_ok_def)
  have peek: "st_PeekByHash (c_store c) k (?h k) = None" using assms(2) by (simp add: st_PeekByHash_map c_map_def)
  obtain c1 ok1 where d1: "doSet c (?e v cost) = Some (c1, ok1)" using doSet_parts_returns [OF p] by fastforce
  note s1 = doSet_parts [OF p e(1) d1]
  obtain c2 ok2 where d2: "doSet c1 (?e v' cost') = Some (c2, ok2)" using doSet_parts_returns [OF s1(2)] by fastforce
  note s2 = doSet_parts [OF s1(2) e(2) d2]
  obtain m n where mn: "call_run m (c, SetAdmit (?e v cost)) = Some (c1, Finished True)"
    "call_run n (c1, SetAdmit (?e v' cost')) = Some (c2, Finished True)"
    using doSet_alone [OF d1] doSet_alone [OF d2] s1(1) s2(1) by auto
  let ?s0 = "\<lparr>cs_cache = c, cs_calls = [SetAdmit (?e v cost), SetAdmit (?e v' cost')], cs_replaced = 0\<rparr>"
  have start: "calls_run [Begin 0 (CallSet k v cost 0), Begin 1 (CallSet k v' cost' 0), Step 0, Step 1] (calls_from 2 c) = Some ?s0"
    by (simp add: calls_from_def numeral_2_eq_2 call_atom_def peek)
  obtain r1 where r1: "calls_run (replicate m (Step 0)) ?s0 =
      Some \<lparr>cs_cache = c1, cs_calls = [Finished True, SetAdmit (?e v' cost')], cs_replaced = r1\<rparr>"
    using steps_alone [OF mn(1), of 0 ?s0] by auto
  obtain r2 where r2: "calls_run (replicate n (Step 1)) \<lparr>cs_cache = c1, cs_calls = [Finished True, SetAdmit (?e v' cost')], cs_replaced = r1\<rparr> =
      Some \<lparr>cs_cache = c2, cs_calls = [Finished True, Finished True], cs_replaced = r2\<rparr>"
    using steps_alone [OF mn(2), of 1 "\<lparr>cs_cache = c1, cs_calls = [Finished True, SetAdmit (?e v' cost')], cs_replaced = r1\<rparr>"] by auto
  have run: "calls_run (both_set k v cost v' cost' m n) (calls_from 2 c) =
      Some \<lparr>cs_cache = c2, cs_calls = [Finished True, Finished True], cs_replaced = r2\<rparr>"
    unfolding both_set_def using calls_run_append [OF start] calls_run_append [OF r1] r2 by simp
  have "drift c = 0" using assms(1) by (simp add: ready_def core_inv_def data_inv_def drift_def)
  then have "drift c2 = cost" using s1(3,4) s2(4) assms(2,3) by simp
  then have "i64 (i64 (c_liveCost c2 - map_sum eCost (c_map c2)) + map_sum eCost (c_map c2)) = i64 (map_sum eCost (c_map c2) + cost)"
    by (simp only: drift_def) (simp add: add.commute)
  then have "c_liveCost c2 = i64 (map_sum eCost (c_map c2) + cost)" using s2(5) by simp
  then show ?thesis using run s2(3) by (intro exI) auto
qed

text \<open>
  A deletion of a key that is there, and a set of the same key: when the set runs after the deletion has
  taken the entry out of the store and before it has told the policy and the prefix index, the new entry
  ends up in the store only. The policy will never choose it as a victim, and no search by prefix finds it.
\<close>

definition set_inside_delete :: "'k \<Rightarrow> 'v \<Rightarrow> int \<Rightarrow> nat \<Rightarrow> ('k, 'v) call_event list" where
  "set_inside_delete k v cost n =
     [Begin 0 (CallDelete k), Step 0, Begin 1 (CallSet k v cost 0), Step 1] @
     replicate n (Step 1) @ replicate 4 (Step 0)"

lemma orphan_race:
  assumes "ready i c" "c_map c k = Some old" "i64 cost = cost"
  shows "\<exists>n s e. calls_run (set_inside_delete k v cost n) (calls_from 2 c) = Some s \<and>
    cs_calls s = [Finished True, Finished True] \<and> c_map (cs_cache s) k = Some e \<and> eValue e = v \<and>
    \<not> Policer_Has (c_policy (cs_cache s)) k \<and>
    (\<forall>t str. c_radix (cs_cache s) = Some t \<longrightarrow> c_isStringKey (cs_cache s) \<longrightarrow>
       as_string (st_any (c_store (cs_cache s)) k) = Some str \<longrightarrow> radix_map t str = None)"
proof -
  let ?h = "getKeyHash (c_store c)"
  let ?e = "\<lparr>eKey = k, eValue = v, eKeyHash = ?h k, eExpireAt = 0, eCost = cost\<rparr>"
  have p: "parts_ok ?h c" by (rule ready_parts [OF assms(1)])
  have e: "call_entry_ok ?h ?e" using assms(3) by (simp add: call_entry_ok_def)
  obtain st where st: "st_DeleteByHash (c_store c) k (?h k) = (st, Some old)"
    using store_delete(1) [OF p refl] assms(2) by (metis prod.exhaust)
  define c0 where "c0 = c\<lparr>c_store := st\<rparr>"
  from store_delete(2,3) [OF p refl st] have p0: "parts_ok ?h c0" "c_map c0 k = None" by (simp_all add: c0_def)
  have h0: "getKeyHash (c_store c0) = ?h" using p0(1) by (simp add: parts_ok_def)
  have peek: "st_PeekByHash (c_store c0) k (?h k) = None"
    using p0(2) by (metis c_map_def h0 st_PeekByHash_map)
  obtain c1 ok1 where d1: "doSet c0 ?e = Some (c1, ok1)" using doSet_parts_returns [OF p0(1)] by fastforce
  note s1 = doSet_parts [OF p0(1) e d1]
  obtain n where n: "call_run n (c0, SetAdmit ?e) = Some (c1, Finished True)" using doSet_alone [OF d1] s1(1) by auto
  let ?s0 = "\<lparr>cs_cache = c0, cs_calls = [DelCost k (?h k) old, SetAdmit ?e], cs_replaced = 0\<rparr>"
  have start: "calls_run [Begin 0 (CallDelete k), Step 0, Begin 1 (CallSet k v cost 0), Step 1] (calls_from 2 c) = Some ?s0"
    using peek h0 by (simp add: calls_from_def numeral_2_eq_2 call_atom_def st) (simp add: c0_def)
  obtain r1 where r1: "calls_run (replicate n (Step 1)) ?s0 =
      Some \<lparr>cs_cache = c1, cs_calls = [DelCost k (?h k) old, Finished True], cs_replaced = r1\<rparr>"
    using steps_alone [OF n, of 1 ?s0] by auto
  define cd where "cd = c1\<lparr>c_liveCost := i64 (c_liveCost c1 - eCost old), c_policy := Policer_Del (c_policy c1) k (?h k)\<rparr>"
  define c2 where "c2 = (radix_del cd k)\<lparr>c_metrics := incDelete (c_metrics (radix_del cd k))\<rparr>"
  have four: "call_run 4 (c1, DelCost k (?h k) old) = Some (c2, Finished True)"
    by (simp add: run_steps c2_def cd_def)
  obtain r2 where r2: "calls_run (replicate 4 (Step 0)) \<lparr>cs_cache = c1, cs_calls = [DelCost k (?h k) old, Finished True], cs_replaced = r1\<rparr> =
      Some \<lparr>cs_cache = c2, cs_calls = [Finished True, Finished True], cs_replaced = r2\<rparr>"
    using steps_alone [OF four, of 0 "\<lparr>cs_cache = c1, cs_calls = [DelCost k (?h k) old, Finished True], cs_replaced = r1\<rparr>"] by auto
  have run: "calls_run (set_inside_delete k v cost n) (calls_from 2 c) =
      Some \<lparr>cs_cache = c2, cs_calls = [Finished True, Finished True], cs_replaced = r2\<rparr>"
    unfolding set_inside_delete_def using calls_run_append [OF start] calls_run_append [OF r1] r2 by simp
  have "c_map c2 k = Some ?e" using s1(3) by (simp add: c2_def cd_def)
  moreover have "\<not> Policer_Has (c_policy c2) k" by (simp add: c2_def cd_def po.has_del)
  moreover have "radix_map t str = None"
    if "c_radix c2 = Some t" "c_isStringKey c2" "as_string (st_any (c_store c2) k) = Some str" for t str
  proof -
    have r: "c_radix (radix_del cd k) = Some t" "c_isStringKey cd" "as_string (st_any (c_store cd) k) = Some str"
      using that by (simp_all add: c2_def)
    then obtain t0 where t0: "c_radix cd = Some t0" by (cases "c_radix cd") (auto simp: radix_del_def on_radix_def)
    then have "t = fst (radix_Delete t0 str)" using r by (simp add: radix_del_def on_radix_def)
    moreover have "radix_inv t0" using s1(2) t0 by (simp add: cd_def parts_ok_def)
    ultimately show ?thesis by (simp add: radix_Delete_spec)
  qed
  ultimately show ?thesis using run by (intro exI) auto
qed

end
