(* ===== verification/Spec2Isabelle.thy ===== *)
theory Spec2Isabelle
  imports CacheEdges TimelyRuns ManyCalls IteratorRuns Cuckoo BlockedBloom Swiss LegacyDriver GcFree Flusher
    RingThreads RingOfOne LockFreeThreads FillRatio ExpiryWorker Alloc Pool Prefetch Accessors CacheThreads
begin

text \<open>
  go-mcache is an in-process cache for Go: a map of entries sharded by key hash, an eviction policy
  that combines TinyLFU admission with sampled LFU, per-entry expiration driven by a timing wheel,
  an optional radix tree over string keys for prefix search, and optional ring buffers that batch
  writes and recorded accesses. This development models the Go code of those parts and of the
  smaller modules beside them, and proves what makes them correct, including where the code does
  not do what it means to.

  \<^bold>\<open>How the parts interact.\<close> \<open>cache.go\<close> is the client of the others. A set goes through
  \<open>setSync\<close>: an existing entry is replaced in the store and the policy is told the new cost; a new
  one is offered to the policy, which names victims that are removed from the store and the radix
  tree, and then stored, scheduled in the wheel and indexed. A get reads the store and records the
  access in the read buffer, whose flusher replays the hashes into the sketch of the policy. With a
  write buffer, sets and deletes are queued and replayed by its flusher. The expiration worker
  advances the wheel and deletes the entries whose expiration is still the scheduled one. Iterators
  (\<open>iterator.go\<close>) page through the store or the prefix index. The older driver of \<open>mcache.go\<close> stands
  beside: a sharded map, and a collector that schedules keys in a heap and flushes the expired ones.
  The cuckoo and blocked Bloom filters, the Swiss table, the expiry heap and the serialising store are
  alternatives that no other component uses yet.

  \<^bold>\<open>Theories and code.\<close>

  \<^item> \<open>Prelude\<close>: 64-bit arithmetic (\<open>i64\<close> is Go's signed wrap-around), masks, and sums over maps.
  \<^item> \<open>PowerOfTwo\<close>: the rounding routines of \<open>sharded.go\<close>, \<open>swiss.go\<close>, \<open>cuckoo.go\<close>, \<open>sketch.go\<close>.
  \<^item> \<open>Hash\<close>: \<open>internal/hash/fnv.go\<close> and the key hashing of \<open>sharded.go\<close>.
  \<^item> \<open>FreqSketch\<close>, \<open>Doorkeeper\<close>, \<open>Admission\<close>: the contracts (locales) of a frequency sketch, of a
    doorkeeper filter and of an admission filter, with the lemmas proved from them.
  \<^item> \<open>Sketch\<close>, \<open>SketchLockFree\<close>, \<open>Bloom\<close>, \<open>TinyLFU\<close>: \<open>internal/policy/sketch*.go\<close>, \<open>bloom.go\<close>,
    \<open>bloom_lockfree.go\<close>, \<open>tinylfu*.go\<close>, which interpret those contracts.
  \<^item> \<open>SampledLFU\<close>, \<open>Policy\<close>: \<open>sampledlfu.go\<close>, \<open>policy.go\<close>, \<open>policy_lockfree.go\<close>, \<open>interface.go\<close>.
    The locale \<open>policer\<close> is the interface the cache uses; both policies interpret it.
  \<^item> \<open>KvStore\<close>: the contract of a map-like store, interpreted by the sharded store and the radix tree.
  \<^item> \<open>ShardedStore\<close>: \<open>internal/store/sharded.go\<close>.
  \<^item> \<open>Radix\<close>: \<open>internal/radix/tree.go\<close>.
  \<^item> \<open>ExpiryQueue\<close>, \<open>ExpiryWheel\<close>: the contract of an expiration queue and \<open>expiry_wheel.go\<close>.
  \<^item> \<open>RingBuffer\<close>, \<open>Flusher\<close>: \<open>internal/buffer/ring.go\<close>; the goroutine that flushes a buffer is a labelled
    transition system.
  \<^item> \<open>RingThreads\<close>, \<open>LockFreeThreads\<close>: \<open>Push\<close> and \<open>Pop\<close> of the ring, \<open>incrementAt\<close> of the lock-free sketch
    and \<open>Add\<close> of the lock-free Bloom filter as loops of single atomic accesses, run by any number of
    goroutines under any schedule. They justify the atomic models of the other theories, and show what
    an operation can see that these leave out. \<open>RingOfOne\<close>: the same for the ring of capacity one.
  \<^item> \<open>Metrics\<close>, \<open>Config\<close>: \<open>metrics.go\<close>, \<open>options.go\<close>.
  \<^item> \<open>Cache\<close>: \<open>cache.go\<close>.
  \<^item> \<open>CacheInv\<close>: the invariant that ties the parts of the cache together, kept by every write.
  \<^item> \<open>CacheOps\<close>: what the public operations do to the map of the cache.
  \<^item> \<open>CacheExpiry\<close>: the sweeps of the worker.
  \<^item> \<open>CacheReach\<close>: sequential runs of a cache, whose calls, flushes and ticks do not overlap, and that the
    single calls return. \<open>ManyCalls\<close>: the calls on several keys and the batch reads.
  \<^item> \<open>TimelyRuns\<close>: runs under a clock that does not go back, what the wheel holds in them, and
    buffered writes that are applied after their deadline.
  \<^item> \<open>CacheStart\<close>: \<open>NewCache\<close> and the batch reads.
  \<^item> \<open>CacheEdges\<close>: ordering around the write buffer, and deadlines hit exactly.
  \<^item> \<open>CacheThreads\<close>: the write paths of \<open>cache.go\<close> as programs over the locked calls of the components, run
    by goroutines under any schedule, with their functional behaviour on their own and the races between
    a set and a set, and a set and a deletion.
  \<^item> \<open>Clock\<close>, \<open>ExpiryWorker\<close>: \<open>internal/clock/clock.go\<close>, and the loop \<open>expirationWorker\<close> of \<open>cache.go\<close>.
  \<^item> \<open>Glob\<close>: \<open>internal/glob/pattern.go\<close>, against a denotation of patterns made of plain and escaped
    characters, sets and wildcards; a star denotes any text, as the matcher treats it.
  \<^item> \<open>StoreScan\<close>, \<open>Iterator\<close>, \<open>IteratorRuns\<close>: the scans of \<open>sharded.go\<close> as lists, \<open>iterator.go\<close>, and
    what the loops over its iterators report when every fetch meets the maps in an order of its own.
  \<^item> \<open>Cuckoo\<close>, \<open>BlockedBloom\<close>: \<open>internal/policy/cuckoo.go\<close> and \<open>bloom_blocked.go\<close>.
  \<^item> \<open>BudgetStore\<close>: the contract of a store of bounded capacity, interpreted by the next two.
  \<^item> \<open>Swiss\<close>: \<open>internal/hashtable/swiss.go\<close>.
  \<^item> \<open>ByteSlices\<close>, \<open>GcFree\<close>: byte slices with Go's bounds checks and little-endian integers, and
    \<open>internal/store/gcfree.go\<close> on them.
  \<^item> \<open>IndexedHeap\<close>: \<open>internal/store/expiry_heap.go\<close> with \<open>container/heap\<close>, on an explicit store of items;
    the heap of \<open>gcmap/gcmap_worker.go\<close> is the same code.
  \<^item> \<open>SafeMap\<close>, \<open>LegacyDriver\<close>: \<open>item/item.go\<close> and \<open>safeMap/safe.go\<close>; \<open>gcmap/gcmap_worker.go\<close> and \<open>mcache.go\<close>.
  \<^item> \<open>Alloc\<close>, \<open>Pool\<close>, \<open>Prefetch\<close>: \<open>internal/alloc/aligned.go\<close>, \<open>internal/pool/pool.go\<close>,
    \<open>internal/prefetch/prefetch.go\<close>.
  \<^item> \<open>FillRatio\<close>, \<open>Accessors\<close>: the fill statistics of the doorkeepers, and the reading methods of the filters,
    the table, patterns and iterators.

  \<^bold>\<open>State and effects.\<close> A Go struct is a record; a method is a function from the state to the new
  state and its result. A call that may not return (the rejection sampling of \<open>SampledLFU.Sample\<close>,
  the retry loops of the ring, the doubling loop of \<open>newCMSketch\<close>) has an option result, and \<open>None\<close>
  is divergence; that they return is proved. Go's \<open>int\<close> and \<open>int64\<close> are \<open>int\<close> with \<open>i64\<close> at each
  operation that may overflow, hashes and masks are \<open>64 word\<close>. The random generator is a stream of
  draws, assumed \<open>fair\<close> where a loop waits for it; iteration orders of Go maps, the sort by shard,
  \<open>any(key)\<close> and the floating-point sizing of the filters are parameters (\<open>ord\<close> and \<open>ords\<close> for one or a
  stream of orders, \<open>optBuckets\<close>, \<open>optTotalBits\<close>, \<open>optHash\<close>). Clock readings are arguments, one for each
  reading that matters; during a loop over an iterator the time stands still. In \<open>GcFree\<close> the result
  \<open>None\<close> is a run-time panic. Goroutines are steps: \<open>cache_step\<close> interleaves public calls and, until the
  cache is closed, single batches of the flushers and ticks of the worker; \<open>Flusher\<close> looks into the loop
  of a flusher and its channels. What the \<open>select\<close> of \<open>FlushSync\<close> takes on a closed cache is the argument
  \<open>picks\<close> of \<open>c_Wait\<close> and \<open>c_Clear\<close>. Calls of user callbacks are recorded as events.

  \<^bold>\<open>Bounds.\<close> The ring counters are 64-bit and wrap; a run of up to \<open>2 ^ 62\<close> steps keeps them in
  range, which is why the theorems about runs bound their length. The Swiss table is run for up to
  \<open>2 ^ 40\<close> operations, which keeps its integer load test exact; the serialising store for writes of up
  to 2 GB, since its offsets are 32-bit words, of entries of at most a quarter of the bytes a shard
  starts with (1024 of at least 4096): a compaction then always makes room. The wheel needs times below
  \<open>2 ^ 63\<close> minus a tick. Loops are structural, have a measure, or are partial functions with
  a proof that they return; the loop of \<open>PopExpired\<close> counts down the number of items.

  \<^bold>\<open>Not modelled.\<close> Locks: an operation that takes a lock is atomic. The calls of the
  cache are atomic in \<open>Cache\<close> and the theories above it; \<open>CacheThreads\<close> interleaves sets, deletions and
  expirations, but not \<open>Clear\<close> and the batch reads. The compare-and-swap loops of the
  ring, of increments of the sketch and of the Bloom filter are modelled access by access in the two
  theories named above; the other ones (\<open>Reset\<close> of the sketch, the swap that claims a reset of the TinyLFU,
  the blocked Bloom and the cuckoo filter) succeed at the first attempt. A prefetch
  hint has no effect that Go can observe, so only the choice of the addresses is modelled. Ratios are
  exact fractions, where Go rounds to a float; the logarithm of \<open>EstimatedCount\<close> is a parameter.
\<close>

section \<open>Concrete caches for the witnesses\<close>

definition demo_env :: "(string, int) env" where
  "demo_env = \<lparr>env_any = GoString, env_zeroK = [], env_zeroV = 0, env_rand = [3, 5, 7, 11],
     env_draws = (\<lambda>i. i), env_optBits = (\<lambda>n. 1024), env_optHash = (\<lambda>bits n. 4)\<rparr>"

definition demo_opts :: "(string, int) Option list" where
  "demo_opts = [WithMaxEntries 2, WithPrefixSearch True, WithOnEvict True]"

definition demo_buffered :: "(string, int) Option list" where
  "demo_buffered = [WithMaxEntries 2, WithBufferItems 1]"

lemma demo_env_ok: "env_ok demo_env"
  by (simp add: env_ok_def demo_env_def fair_id as_string_def)

lemma demo_config_ok: "config_ok (apply_options demo_opts)" "config_ok (apply_options demo_buffered)"
  by (simp_all add: config_ok_def demo_opts_def demo_buffered_def apply_options_def defaultConfig_def typed_costs_def
      WithMaxEntries_def WithPrefixSearch_def WithOnEvict_def WithBufferItems_def)

lemma demo_sync: "BufferItems (apply_options demo_opts) = 0" "BufferItems (apply_options demo_buffered) = 1"
    "ExpiryResolution (apply_options demo_opts) = 100000000"
  by (simp_all add: demo_opts_def demo_buffered_def apply_options_def defaultConfig_def
      WithMaxEntries_def WithPrefixSearch_def WithOnEvict_def WithBufferItems_def)

lemma demo_cache:
  obtains c where "NewCache demo_env 0 demo_opts = Some c" "ready (2 ^ 62) c" "wheel_inv c" "c_map c = Map.empty"
    "\<not> c_closed c" "c_writeBuffer c = None" "c_wheel c = NewExpiryWheel 0 100000000"
  using NewCache_ready [OF demo_env_ok demo_config_ok(1), of 0] demo_sync by auto

lemma demo_ttl: "NewCache demo_env 0 demo_opts = Some c \<Longrightarrow> DefaultTTL (c_config c) = 0"
  by (auto simp: NewCache_def Let_def bind_eq_Some_conv demo_opts_def apply_options_def defaultConfig_def
      WithMaxEntries_def WithPrefixSearch_def WithOnEvict_def)

lemma demo_buffer:
  obtains c rb where "NewCache demo_env 0 demo_buffered = Some c" "ready (2 ^ 62) c" "\<not> c_closed c"
    "c_writeBuffer c = Some rb" "rb_queue rb = []" "rb_Cap rb = 2"
proof -
  obtain c z where c: "NewCache demo_env 0 demo_buffered = Some c" "ready (2 ^ 62) c" "\<not> c_closed c"
    "c_writeBuffer c = Some (NewRingBuffer z 2)"
    using NewCache_ready [OF demo_env_ok demo_config_ok(2), of 0] demo_sync(2) by (auto simp: i64_simps)
  have "rb_Cap (NewRingBuffer z 2) = 2"
    by (simp add: NewRingBuffer_def rb_Cap_def nextPowerOf2_def Let_def i64_simps)
  then show thesis using that [OF c(1-4)] NewRingBuffer_inv(2) [of 2 z] by simp
qed

lemma demo_wheel:
  "w_resolution (NewExpiryWheel 0 100000000) = 100000000" "w_currentTick (NewExpiryWheel 0 100000000) = 0"
  "w_pending (NewExpiryWheel 0 100000000) = {#}" "w_resolution (w_Schedule w k h x) = w_resolution w"
  by (simp_all add: NewExpiryWheel_inv) (simp_all add: NewExpiryWheel_def w_Schedule_def)

lemma ready_Suc: "ready (2 ^ 62) c \<Longrightarrow> ready (Suc m) c" if "m < 1000"
  by (erule ready_mono) (use that in simp)

lemma core_radix:
  "core_inv c \<Longrightarrow> c_radix c = Some t \<Longrightarrow> as_string (st_any (c_store c) k) = Some s \<Longrightarrow>
    radix_map t s = map_option eKeyHash (c_map c k)"
  unfolding core_inv_def data_inv_def radix_ok_def by (auto dest: spec [of _ k])

section \<open>The cache\<close>

lemma reachable_ready:
  assumes "env_ok env" "config_ok (apply_options opts)" "0 \<le> start"
    and "NewCache env start opts = Some c0" and "reaches c0 n c" and "n \<le> 2 ^ 62"
  shows "\<exists>m. ready m c"
proof -
  obtain m where m: "2 ^ 62 = n + m" using le_Suc_ex [OF assms(6)] by (elim exE)
  have "ready (n + m) c0" using NewCache_ready [OF assms(1-3)] assms(4) unfolding m [symmetric] by auto
  then have "ready m c" by (rule reaches_ready [OF assms(5)])
  then show ?thesis by blast
qed

lemma reachable_core:
  assumes "env_ok env" "config_ok (apply_options opts)" "0 \<le> start"
    and "NewCache env start opts = Some c0" and "reaches c0 n c" and "n \<le> 2 ^ 62"
  shows "core_inv c"
  using reachable_ready [OF assms] by (auto simp: ready_def)

lemma demo_run:
  obtains c0 c where "NewCache demo_env 0 demo_opts = Some c0"
    "c_SetWithCost (\<lambda>i. False) c0 0 ''a'' 5 1 0 = Some (c, True)" "c_map c ''a'' \<noteq> None" "reaches c0 (Suc 0) c"
proof -
  obtain c0 where c0: "NewCache demo_env 0 demo_opts = Some c0" "ready (2 ^ 62) c0" "c_writeBuffer c0 = None" "\<not> c_closed c0"
    using demo_cache by blast
  obtain c where c: "c_SetWithCost (\<lambda>i. False) c0 0 ''a'' 5 1 0 = Some (c, True)" "c_map c ''a'' \<noteq> None"
    using Set_then_visible [OF ready_Suc [OF _ c0(2)] c0(4,3), of 0 1] by (fastforce simp: i64_simps)
  have "reaches c0 (Suc 0) c" by (rule then_step [OF start step_Set [OF c(1)]]) (simp add: i64_simps)
  with c0(1) c that show thesis by blast
qed

text \<open>
  C1: As long as calls, flushes and expiration ticks run one after the other, the five
  representations of the cached set agree after each of them: the policy tracks exactly the stored
  keys, its cost total and the cache's live cost are the sum of the stored costs, \<open>Len\<close> is the number
  of entries, and the prefix index holds a string key exactly when the store does, with the entry's
  hash. Calls that overlap are not covered; C14 and C15 say what is left of this for them.
\<close>

theorem sequential_runs_consistent:
  assumes "env_ok env" "config_ok (apply_options opts)" "0 \<le> start"
    and "NewCache env start opts = Some c0" and "reaches c0 n c" and "n \<le> 2 ^ 62"
  shows "Policer_Has (c_policy c) k = (c_map c k \<noteq> None) \<and>
    Policer_Cost (c_policy c) = i64 (map_sum eCost (c_map c)) \<and>
    c_liveCost c = i64 (map_sum eCost (c_map c)) \<and>
    c_Len c = i64 (int (card (dom (c_map c)))) \<and>
    (\<forall>t s. c_radix c = Some t \<longrightarrow> as_string (st_any (c_store c) k) = Some s \<longrightarrow>
      radix_map t s = map_option eKeyHash (c_map c k))"
proof -
  have inv: "core_inv c" using reachable_core [OF assms] .
  then have p: "Policer_inv (c_policy c)" "Policer_tracked (c_policy c) = (\<lambda>k. map_option item_of (c_map c k))"
    by (simp_all add: core_inv_def)
  have "map_sum ti_cost (Policer_tracked (c_policy c)) = map_sum eCost (c_map c)"
    unfolding p(2) by (rule map_sum_cong) (simp add: item_of_def option.map_comp comp_def)
  then have "Policer_Cost (c_policy c) = i64 (map_sum eCost (c_map c))" using po.total_tracked [OF p(1)] by simp
  moreover have "Policer_Has (c_policy c) k = (c_map c k \<noteq> None)" using p(2) by (simp add: po.has_tracked domIff)
  ultimately show ?thesis
    using inv c_Len_card [OF inv] core_radix [OF inv] by (simp add: core_inv_def data_inv_def)
qed

theorem sequential_runs_consistent_witness:
  "\<exists>c0 c. NewCache demo_env 0 demo_opts = Some c0 \<and>
    c_SetWithCost (\<lambda>i. False) c0 0 ''a'' 5 1 0 = Some (c, True) \<and> Policer_Has (c_policy c) ''a''"
proof -
  obtain c0 c where c: "NewCache demo_env 0 demo_opts = Some c0" "c_SetWithCost (\<lambda>i. False) c0 0 ''a'' 5 1 0 = Some (c, True)"
    "c_map c ''a'' \<noteq> None" "reaches c0 (Suc 0) c" using demo_run by blast
  from sequential_runs_consistent [OF demo_env_ok demo_config_ok(1) order_refl c(1,4)] c show ?thesis by auto
qed

text \<open>The length of a store, counted over the maps of its shards.\<close>

lemma shards_disjoint:
  assumes "st_inv s" "i < length (st_shards s)" "j < length (st_shards s)" "(st_shards s ! i) k \<noteq> None" "(st_shards s ! j) k \<noteq> None"
  shows "i = j"
proof -
  obtain e e' where "(st_shards s ! i) k = Some e" "(st_shards s ! j) k = Some e'" using assms(4,5) by blast
  then have "shard_index s (getKeyHash s k) = i" "shard_index s (getKeyHash s k) = j"
    using shard_keys [OF assms(1,2)] shard_keys [OF assms(1,3)] by blast+
  then show ?thesis by simp
qed

lemma st_size_shards:
  assumes "st_inv s"
  shows "st_size s = i64 (\<Sum>i < length (st_shards s). int (card (dom (st_shards s ! i))))"
proof -
  have "dom (st_shards s ! i) \<inter> dom (st_shards s ! j) = {}" if "i < length (st_shards s)" "j < length (st_shards s)" "i \<noteq> j" for i j
    using shards_disjoint [OF assms that(1,2)] that(3) by blast
  then have "card (\<Union>i < length (st_shards s). dom (st_shards s ! i)) = (\<Sum>i < length (st_shards s). card (dom (st_shards s ! i)))"
    using assms by (intro card_UN_disjoint) (simp_all add: st_inv_def)
  then show ?thesis using assms by (simp add: st_inv_def dom_st_map [OF assms])
qed

text \<open>
  C2: As long as calls, flushes and ticks run one after the other, everything in a cache is filed where
  it belongs. The map of shard \<open>i\<close> holds an entry only under the entry's own key, with the hash of that
  key and in the shard that this hash selects, with a 64-bit cost, and no key is in two shards; the
  store's length counter is the number of entries in the maps of all shards. What the policy tracks, what
  waits in the expiry wheel and what is queued in the write buffer carries the hash of its key, too.
\<close>

theorem entries_are_filed:
  assumes "env_ok env" "config_ok (apply_options opts)" "0 \<le> start"
    and "NewCache env start opts = Some c0" and "reaches c0 n c" and "n \<le> 2 ^ 62"
  shows "let s = c_store c; shards = st_shards (c_store c) in
    (\<forall>i < length shards. \<forall>k e. (shards ! i) k = Some e \<longrightarrow>
       eKey e = k \<and> eKeyHash e = getKeyHash s k \<and> shard_index s (eKeyHash e) = i \<and> i64 (eCost e) = eCost e) \<and>
    (\<forall>i < length shards. \<forall>j < length shards. \<forall>k. (shards ! i) k \<noteq> None \<longrightarrow> (shards ! j) k \<noteq> None \<longrightarrow> i = j) \<and>
    c_Len c = i64 (\<Sum>i < length shards. int (card (dom (shards ! i)))) \<and>
    (\<forall>k x. Policer_tracked (c_policy c) k = Some x \<longrightarrow> ti_keyHash x = getKeyHash s k \<and>
       (\<exists>e. (shards ! shard_index s (ti_keyHash x)) k = Some e \<and> ti_cost x = eCost e)) \<and>
    (\<forall>x \<in># w_pending (c_wheel c). w_KeyHash x = getKeyHash s (w_Key x)) \<and>
    (\<forall>rb. c_writeBuffer c = Some rb \<longrightarrow> (\<forall>x \<in> set (rb_queue rb).
       eKeyHash (wi_entry x) = getKeyHash s (eKey (wi_entry x)) \<and> i64 (eCost (wi_entry x)) = eCost (wi_entry x)))"
proof -
  let ?s = "c_store c" let ?shards = "st_shards (c_store c)"
  obtain m where r: "ready m c" using reachable_ready [OF assms] by blast
  then have i: "st_inv ?s" "\<And>k e. c_map c k = Some e \<Longrightarrow> i64 (eCost e) = eCost e"
    "Policer_tracked (c_policy c) = (\<lambda>k. map_option item_of (c_map c k))"
    by (simp_all add: ready_def core_inv_def data_inv_def)
  have shard: "eKey e = k \<and> eKeyHash e = getKeyHash ?s k \<and> shard_index ?s (eKeyHash e) = i \<and> i64 (eCost e) = eCost e"
    if "i < length ?shards" "(?shards ! i) k = Some e" for i k e
  proof -
    have "eKey e = k \<and> eKeyHash e = getKeyHash ?s k \<and> shard_index ?s (getKeyHash ?s k) = i"
      using i(1) that by (auto simp: st_inv_def st_fits_def)
    moreover from this have "c_map c k = Some e" using that(2) by (simp add: c_map_def st_map_def getShard_def)
    ultimately show ?thesis using i(2) by simp
  qed
  have entry: "(?shards ! shard_index ?s (getKeyHash ?s k)) k = Some e" if "c_map c k = Some e" for k e
    using that by (simp add: c_map_def st_map_def getShard_def)
  have tracked: "ti_keyHash x = getKeyHash ?s k \<and> (\<exists>e. (?shards ! shard_index ?s (ti_keyHash x)) k = Some e \<and> ti_cost x = eCost e)"
    if "Policer_tracked (c_policy c) k = Some x" for k x
  proof -
    have "map_option item_of (c_map c k) = Some x" using that i(3) by metis
    then obtain e where e: "c_map c k = Some e" "x = item_of e" by (auto simp: map_option_eq_Some)
    then have "x = item_of e" by simp
    moreover have "eKeyHash e = getKeyHash ?s k" using st_map_fits [OF i(1)] e(1) by (auto simp: c_map_def st_fits_def)
    ultimately show ?thesis using entry [OF e(1)] by (simp add: item_of_def)
  qed
  have wheel: "\<forall>x \<in># w_pending (c_wheel c). w_KeyHash x = getKeyHash ?s (w_Key x)" using r by (simp add: ready_def hashed_def)
  have queue: "\<forall>rb. c_writeBuffer c = Some rb \<longrightarrow> (\<forall>x \<in> set (rb_queue rb).
       eKeyHash (wi_entry x) = getKeyHash ?s (eKey (wi_entry x)) \<and> i64 (eCost (wi_entry x)) = eCost (wi_entry x))"
    using r by (auto simp: ready_def writes_ok_def write_ok_def)
  have len: "c_Len c = i64 (\<Sum>i < length ?shards. int (card (dom (?shards ! i))))"
    using st_size_shards [OF i(1)] by (simp add: c_Len_def st_Len_def)
  show ?thesis
    unfolding Let_def using shard shards_disjoint [OF i(1)] len tracked wheel queue
    by (intro conjI allI impI) (assumption | blast)+
qed

theorem entries_are_filed_witness:
  "\<exists>c0 c. NewCache demo_env 0 demo_opts = Some c0 \<and>
    c_SetWithCost (\<lambda>i. False) c0 0 ''a'' 5 1 0 = Some (c, True) \<and> c_map c ''a'' \<noteq> None \<and>
    (\<forall>i < length (st_shards (c_store c)). \<forall>k e. (st_shards (c_store c) ! i) k = Some e \<longrightarrow>
       eKey e = k \<and> eKeyHash e = getKeyHash (c_store c) k \<and> shard_index (c_store c) (eKeyHash e) = i \<and> i64 (eCost e) = eCost e)"
proof -
  obtain c0 c where c: "NewCache demo_env 0 demo_opts = Some c0" "c_SetWithCost (\<lambda>i. False) c0 0 ''a'' 5 1 0 = Some (c, True)"
    "c_map c ''a'' \<noteq> None" "reaches c0 (Suc 0) c" using demo_run by blast
  have "Suc 0 \<le> 2 ^ 62" by simp
  from entries_are_filed [OF demo_env_ok demo_config_ok(1) order_refl c(1,4) this, unfolded Let_def, THEN conjunct1] c(1-3)
  show ?thesis by blast
qed

text \<open>
  C3: When calls, flushes and ticks run one after the other, every operation of the cache on keys
  returns from every state they lead to, the operations on several keys and the batch reads among them
  (for any sort that permutes the keys); so do both flushers and \<open>Close\<close>, and a set on an open cache always
  reports success. Not so two others. \<open>Wait\<close> and \<open>Clear\<close> return exactly if every \<open>FlushSync\<close> they call is
  answered, which on an open cache it is; on a closed one it is so only if the request happens to take
  the case of the stopped flusher, and otherwise they block for ever. \<open>ScanMatch\<close> is not claimed here: it
  compiles its pattern, which may loop (C32).
\<close>

theorem operations_return:
  assumes "env_ok env" "config_ok (apply_options opts)" "0 \<le> start"
    and "NewCache env start opts = Some c0" and "reaches c0 n c"
    and "n + length keys < 2 ^ 62" "n + length items < 2 ^ 62"
    and "i64 cost = cost" "\<forall>x\<in>set items. i64 (i_Cost x) = i_Cost x" "\<And>infos. mset (sort_infos infos) = mset infos"
  shows "c_Get c now k \<noteq> None \<and> (\<exists>c'. c_SetWithCost yields c now k v cost ttl = Some (c', \<not> c_closed c)) \<and>
    c_Delete yields c k \<noteq> None \<and>
    (\<exists>c'. c_GetMany c now keys Map.empty = Some (c', visible c now |` set keys)) \<and>
    (\<exists>c'. c_SetMany yields c now items 0 = Some (c', if c_closed c then 0 else length items)) \<and>
    c_DeleteMany yields c keys 0 \<noteq> None \<and>
    c_GetBatch c now keys \<noteq> None \<and> c_GetBatchOptimized sort_infos c now keys \<noteq> None \<and> c_GetBatchToMap c now keys \<noteq> None \<and>
    c_flushWrites c \<noteq> None \<and> c_flushReads c \<noteq> None \<and>
    c_Close c \<noteq> None \<and> (c_Wait picks c \<noteq> None \<longleftrightarrow> sync_answered picks c) \<and>
    (c_Clear picks c now \<noteq> None \<longleftrightarrow> sync_answered picks c)"
proof -
  have room: "ready j c" if "n + j \<le> 2 ^ 62" for j
  proof -
    have "ready (n + j) c0" using NewCache_ready [OF assms(1-3)] assms(4) that by (auto intro: ready_mono)
    then show ?thesis by (rule reaches_ready [OF assms(5)])
  qed
  have r: "ready (Suc 0) c" by (rule room) (use assms(6) in simp)
  have rk: "ready (length keys + 0) c" by (rule room) (use assms(6) in simp)
  have ri: "ready (length items + 0) c" by (rule room) (use assms(7) in simp)
  have "(\<exists>c'. c_GetMany c now keys Map.empty = Some (c', visible c now |` set keys)) \<and>
    (\<exists>c'. c_SetMany yields c now items 0 = Some (c', if c_closed c then 0 else length items)) \<and>
    c_DeleteMany yields c keys 0 \<noteq> None"
    using c_GetMany_ready [OF rk, of now Map.empty] c_SetMany_ready [OF ri assms(9), of yields now 0]
      c_DeleteMany_ready [OF rk, of yields 0] by auto
  moreover have "c_GetBatch c now keys \<noteq> None \<and> c_GetBatchOptimized sort_infos c now keys \<noteq> None \<and> c_GetBatchToMap c now keys \<noteq> None"
    by (rule batches_return [OF rk assms(10)])
  moreover have "c_Get c now k \<noteq> None \<and> (\<exists>c'. c_SetWithCost yields c now k v cost ttl = Some (c', \<not> c_closed c)) \<and>
    c_Delete yields c k \<noteq> None"
    using c_Get_ready [OF r, of now k] c_SetWithCost_ready [OF r assms(8), of yields now k v ttl] c_Delete_ready [OF r, of yields k]
    by auto
  moreover have "c_flushWrites c \<noteq> None \<and> c_flushReads c \<noteq> None \<and> c_Close c \<noteq> None \<and>
    (c_Wait picks c \<noteq> None \<longleftrightarrow> sync_answered picks c) \<and> (c_Clear picks c now \<noteq> None \<longleftrightarrow> sync_answered picks c)"
    using c_flushWrites_ready [OF r] c_flushReads_ready [OF r] c_Wait_ready [OF r, of picks]
      c_Clear_ready [OF r, of picks now] c_Clear_unanswered [OF r, of picks now] c_Close_ready [OF r]
    by (auto split: if_splits)
  ultimately show ?thesis by (elim conjE) (intro conjI; assumption)
qed

theorem operations_return_witness:
  "\<exists>c c1. NewCache demo_env 0 demo_buffered = Some c \<and>
    (\<exists>c'. c_SetWithCost (\<lambda>i. True) c 0 ''a'' 5 1 0 = Some (c', \<not> c_closed c)) \<and>
    c_GetBatchOptimized rev c 0 [''a'', ''b''] \<noteq> None \<and> c_Close c = Some c1 \<and> c_Wait (False, True) c1 = None"
proof -
  obtain c rb where c: "NewCache demo_env 0 demo_buffered = Some c" "ready (2 ^ 62) c" "c_writeBuffer c = Some rb"
    using demo_buffer by metis
  obtain c1 where c1: "c_Close c = Some c1" "c_closed c1" "c_writeBuffer c1 \<noteq> None"
    using c_Close_ready [OF c(2)] c(3) by auto
  have r: "reaches c (Suc 0) c1" by (rule then_step [OF start step_Close [OF c1(1)]])
  have perm: "\<And>infos. mset (rev infos) = mset infos" by simp
  note ret = operations_return [OF demo_env_ok demo_config_ok(2) order_refl c(1) _ _ _ _ _ perm,
      where keys = "[''a'', ''b'']" and items = "[]" and cost = 1]
  have "c_Wait (False, True) c1 \<noteq> None \<longleftrightarrow> sync_answered (False, True) c1"
    using ret [OF r] by (simp add: i64_simps)
  then have "c_Wait (False, True) c1 = None" using c1 by (auto simp: sync_answered_def)
  moreover have "\<exists>c'. c_SetWithCost (\<lambda>i. True) c 0 ''a'' 5 1 0 = Some (c', \<not> c_closed c)"
    "c_GetBatchOptimized rev c 0 [''a'', ''b''] \<noteq> None"
    using ret [OF start] by (simp_all add: i64_simps)
  ultimately show ?thesis using c(1) c1(1) by blast
qed

text \<open>
  C4: A set on an unbuffered cache is seen by the next \<open>Get\<close> of its key, as long as the entry has
  not expired, and \<open>Set\<close> never reports failure.
\<close>

theorem set_then_get:
  assumes "ready (Suc (Suc m)) c" "\<not> c_closed c" "c_writeBuffer c = None" "i64 cost = cost"
  shows "\<exists>c'. c_SetWithCost yields c now k v cost ttl = Some (c', True) \<and>
    (set_expiry (c_config c) now ttl = 0 \<or> later \<le> set_expiry (c_config c) now ttl \<longrightarrow>
      (\<exists>c''. c_Get c' later k = Some (c'', Some v)))"
proof -
  obtain c' where c': "c_SetWithCost yields c now k v cost ttl = Some (c', True)" "ready (Suc m) c'" "kin c c'"
    "c_map c' k = Some (set_entry c now k v cost ttl)" using Set_then_visible [OF assms] by blast
  have "visible c' later k = Some v" if "set_expiry (c_config c) now ttl = 0 \<or> later \<le> set_expiry (c_config c) now ttl"
    using that c'(3,4) assms(2) by (auto simp: visible_def kin_def IsExpired_def set_entry_def)
  then show ?thesis using c'(1) c_Get_ready [OF c'(2), of later k] by auto
qed

theorem set_then_get_witness:
  "\<exists>c c' c''. NewCache demo_env 0 demo_opts = Some c \<and> c_SetWithCost (\<lambda>i. False) c 0 ''a'' 5 1 0 = Some (c', True) \<and>
    c_Get c' 9 ''a'' = Some (c'', Some 5)"
proof -
  obtain c where c: "NewCache demo_env 0 demo_opts = Some c" "ready (2 ^ 62) c" "c_writeBuffer c = None" "\<not> c_closed c"
    using demo_cache by blast
  have r: "ready (Suc (Suc 0)) c" by (rule ready_Suc [OF _ c(2)]) simp
  have "DefaultTTL (c_config c) = 0" using demo_ttl [OF c(1)] .
  then show ?thesis
    using c(1) set_then_get [OF r c(4,3), of 1 "\<lambda>i. False" 0 "''a''" 5 0 9] by (auto simp: i64_simps set_expiry_def)
qed

text \<open>
  C5: A set touches no other key except by evicting it, and it evicts nothing when it replaces the
  value of a key that is present.
\<close>

theorem set_other_keys:
  assumes "core_inv c" "c_writeBuffer c = None" "\<not> c_closed c"
    "i64 (set_cost (c_config c) v cost) = set_cost (c_config c) v cost"
    "c_SetWithCost yields c now k v cost ttl = Some (c', ok)" "x \<noteq> k"
  shows "(c_map c' x = c_map c x \<or> c_map c' x = None) \<and> (c_map c k \<noteq> None \<longrightarrow> c_map c' x = c_map c x)"
  using c_SetWithCost_spec [OF assms(1-5)] assms(6) by (auto simp: restrict_map_def split: if_splits)

theorem set_other_keys_witness:
  "\<exists>c c1 c2 ok. NewCache demo_env 0 demo_opts = Some c \<and> c_SetWithCost (\<lambda>i. False) c 0 ''a'' 5 1 0 = Some (c1, True) \<and>
    c_SetWithCost (\<lambda>i. False) c1 0 ''a'' 6 1 0 = Some (c2, ok) \<and> c_map c1 ''a'' \<noteq> None \<and> c_map c2 ''b'' = c_map c1 ''b''"
proof -
  obtain c where c: "NewCache demo_env 0 demo_opts = Some c" "ready (2 ^ 62) c" "c_writeBuffer c = None" "\<not> c_closed c"
    using demo_cache by blast
  from Set_then_visible [OF ready_Suc [OF _ c(2)] c(4,3), of 1 1 "\<lambda>i. False" 0 "''a''" 5 0] obtain c1 where
    c1: "c_SetWithCost (\<lambda>i. False) c 0 ''a'' 5 1 0 = Some (c1, True)" "ready 1 c1" "kin c c1" "c_map c1 ''a'' \<noteq> None"
    by (auto simp: i64_simps)
  have shell: "c_writeBuffer c1 = None" "\<not> c_closed c1" "core_inv c1"
    using c1(2,3) c(3,4) by (auto simp: kin_def ready_def)
  obtain c2 ok where c2: "c_SetWithCost (\<lambda>i. False) c1 0 ''a'' 6 1 0 = Some (c2, ok)"
    using c_SetWithCost_ready [of 0 c1 1 "\<lambda>i. False" 0 "''a''" 6 0] c1(2) by (auto simp: i64_simps)
  have "c_map c2 ''b'' = c_map c1 ''b''"
    using set_other_keys [OF shell(3,1,2) _ c2, of "''b''"] c1(4) by (simp add: set_cost_def i64_simps)
  then show ?thesis using c(1) c1(1,4) c2 by blast
qed

text \<open>
  C6: After a delete on an unbuffered cache the key is gone for every reader, no other key is
  touched, and the result says whether the key was there.
\<close>

theorem delete_then_get:
  assumes "ready (Suc (Suc m)) c" "\<not> c_closed c" "c_writeBuffer c = None"
  shows "\<exists>c'. c_Delete yields c k = Some (c', c_map c k \<noteq> None) \<and> c_map c' = (c_map c)(k := None) \<and>
    (\<exists>c''. c_Get c' now k = Some (c'', None))"
proof -
  let ?d = "doDelete c k (getKeyHash (c_store c) k)"
  have r: "ready (Suc m) c" by (rule ready_mono [OF assms(1)]) simp
  have inv: "core_inv c" using r by (simp add: ready_def)
  have d: "c_Delete yields c k = Some ?d" using assms(2,3) by (simp add: c_Delete_def c_KeyHash_def)
  have m: "c_map (fst ?d) = (c_map c)(k := None)" "snd ?d = (c_map c k \<noteq> None)" using doDelete_spec [OF inv, of k] by auto
  have "ready (Suc m) (fst ?d)" using doDelete_ready [OF r, of k] by simp
  then have "\<exists>c''. c_Get (fst ?d) now k = Some (c'', None)"
    using c_Get_ready [of m "fst ?d" now k] m(1) by (auto simp: visible_def)
  then show ?thesis using d m by (cases ?d) auto
qed

theorem delete_then_get_witness:
  "\<exists>c c1 c2 c3. NewCache demo_env 0 demo_opts = Some c \<and> c_SetWithCost (\<lambda>i. False) c 0 ''a'' 5 1 0 = Some (c1, True) \<and>
    c_Delete (\<lambda>i. False) c1 ''a'' = Some (c2, True) \<and> c_Get c2 0 ''a'' = Some (c3, None)"
proof -
  obtain c where c: "NewCache demo_env 0 demo_opts = Some c" "ready (2 ^ 62) c" "c_writeBuffer c = None" "\<not> c_closed c"
    using demo_cache by blast
  from Set_then_visible [OF ready_Suc [OF _ c(2)] c(4,3), of 2 1 "\<lambda>i. False" 0 "''a''" 5 0] obtain c1 where
    c1: "c_SetWithCost (\<lambda>i. False) c 0 ''a'' 5 1 0 = Some (c1, True)" "ready 2 c1" "kin c c1" "c_map c1 ''a'' \<noteq> None"
    by (auto simp: i64_simps)
  have "ready (Suc (Suc 0)) c1" "\<not> c_closed c1" "c_writeBuffer c1 = None"
    using c1(2,3) c(3,4) by (auto simp: kin_def numeral_2_eq_2)
  from delete_then_get [OF this, of "\<lambda>i. False" "''a''" 0] show ?thesis using c(1) c1(1,4) by auto
qed

subsection \<open>The write buffer\<close>

text \<open>
  C7: With a write buffer that has room, a set is only queued; the next drain applies the queued
  writes in the order they were pushed, so that the key ends up as the last one wrote it.
\<close>

theorem buffered_set_applied:
  assumes "ready (Suc m) c" "\<not> c_closed c" "c_writeBuffer c = Some rb" "length (rb_queue rb) < rb_Cap rb"
    "i64 cost = cost"
  shows "\<exists>c1 c2. c_SetWithCost yields c now k v cost ttl = Some (c1, True) \<and> c_store c1 = c_store c \<and>
    c_drainWrites c1 = Some c2 \<and> core_inv c2 \<and> c_map c2 k = Some (set_entry c now k v cost ttl)"
  using buffered_Set [OF assms] by blast

theorem buffered_set_applied_witness:
  "\<exists>c c1 c2. NewCache demo_env 0 demo_buffered = Some c \<and>
    c_SetWithCost (\<lambda>i. False) c 0 ''a'' 5 1 0 = Some (c1, True) \<and> c_store c1 = c_store c \<and>
    c_drainWrites c1 = Some c2 \<and> c_map c2 ''a'' = Some (set_entry c 0 ''a'' 5 1 0)"
proof -
  obtain c rb where c: "NewCache demo_env 0 demo_buffered = Some c" "ready (2 ^ 62) c" "\<not> c_closed c"
    "c_writeBuffer c = Some rb" "rb_queue rb = []" "rb_Cap rb = 2" using demo_buffer by blast
  have "ready (Suc 0) c" by (rule ready_Suc [OF _ c(2)]) simp
  from buffered_set_applied [OF this c(3,4), of 1 "\<lambda>i. False" 0 "''a''" 5 0] show ?thesis using c by (auto simp: i64_simps)
qed

text \<open>
  C8: Writes are not ordered once the buffer is full. A set that finds it full and is not helped by
  a flush is executed at once, ahead of the writes still queued; if the last of those is an older
  set of the same key, the next drain puts the older value back.
\<close>

theorem saturated_set_overtaken:
  assumes "ready m c" "\<not> c_closed c" "c_writeBuffer c = Some rb" "length (rb_queue rb) = rb_Cap rb" "i64 cost = cost"
    "\<And>i. \<not> yields i" "rb_queue rb = before @ [old]" "eKey (wi_entry old) = k" "wi_isSet old"
  shows "\<exists>c1 c2. c_SetWithCost yields c now k v cost ttl = Some (c1, True) \<and>
    c_map c1 k = Some (set_entry c now k v cost ttl) \<and> c_drainWrites c1 = Some c2 \<and> c_map c2 k = Some (wi_entry old)"
  by (rule saturated_Set [OF assms])

theorem saturated_set_overtaken_witness:
  "\<exists>c0 c1 c2 c3 c4. NewCache demo_env 0 demo_buffered = Some c0 \<and>
    c_SetWithCost (\<lambda>i. False) c0 0 ''a'' 5 1 0 = Some (c1, True) \<and>
    c_SetWithCost (\<lambda>i. False) c1 0 ''a'' 6 1 0 = Some (c2, True) \<and>
    c_SetWithCost (\<lambda>i. False) c2 0 ''a'' 7 1 0 = Some (c3, True) \<and>
    map_option eValue (c_map c3 ''a'') = Some 7 \<and>
    c_drainWrites c3 = Some c4 \<and> map_option eValue (c_map c4 ''a'') = Some 6"
proof -
  obtain c0 rb0 where c0: "NewCache demo_env 0 demo_buffered = Some c0" "ready (2 ^ 62) c0" "\<not> c_closed c0"
    "c_writeBuffer c0 = Some rb0" "rb_queue rb0 = []" "rb_Cap rb0 = 2" using demo_buffer by blast
  have one: "i64 1 = 1" by (simp add: i64_simps)
  have r0: "ready (Suc (Suc 0)) c0" by (rule ready_Suc [OF _ c0(2)]) simp
  obtain rb1 where s1: "c_SetWithCost (\<lambda>i. False) c0 0 ''a'' 5 1 0 = Some (c0\<lparr>c_writeBuffer := Some rb1\<rparr>, True)"
    "length (rb_queue rb1) = 1" "rb_Cap rb1 = 2" "ready (Suc 0) (c0\<lparr>c_writeBuffer := Some rb1\<rparr>)"
    using Set_queued [OF r0 c0(3,4) _ one, of "\<lambda>i. False" 0 "''a''" 5 0] c0(5,6) by auto
  let ?c1 = "c0\<lparr>c_writeBuffer := Some rb1\<rparr>"
  obtain rb2 where s2: "c_SetWithCost (\<lambda>i. False) ?c1 0 ''a'' 6 1 0 = Some (?c1\<lparr>c_writeBuffer := Some rb2\<rparr>, True)"
    "rb_queue rb2 = rb_queue rb1 @ [\<lparr>wi_entry = set_entry ?c1 0 ''a'' 6 1 0, wi_isSet = True\<rparr>]" "rb_Cap rb2 = 2"
    "ready 0 (?c1\<lparr>c_writeBuffer := Some rb2\<rparr>)"
    using Set_queued [OF s1(4) _ _ _ one, of rb1 "\<lambda>i. False" 0 "''a''" 6 0] c0(3) s1(2,3) by auto
  let ?c2 = "?c1\<lparr>c_writeBuffer := Some rb2\<rparr>"
  have "\<exists>c1 c2. c_SetWithCost (\<lambda>i. False) ?c2 0 ''a'' 7 1 0 = Some (c1, True) \<and>
    c_map c1 ''a'' = Some (set_entry ?c2 0 ''a'' 7 1 0) \<and> c_drainWrites c1 = Some c2 \<and>
    c_map c2 ''a'' = Some (wi_entry \<lparr>wi_entry = set_entry ?c1 0 ''a'' 6 1 0, wi_isSet = True\<rparr>)"
    by (rule saturated_set_overtaken [OF s2(4) _ _ _ one _ s2(2)]) (use c0(3) s1(2) s2(2,3) in \<open>auto simp: set_entry_def\<close>)
  then obtain c3 c4 where s3: "c_SetWithCost (\<lambda>i. False) ?c2 0 ''a'' 7 1 0 = Some (c3, True)"
    "c_map c3 ''a'' = Some (set_entry ?c2 0 ''a'' 7 1 0)" "c_drainWrites c3 = Some c4"
    "c_map c4 ''a'' = Some (set_entry ?c1 0 ''a'' 6 1 0)" by auto
  show ?thesis
    using c0(1) s1(1) s2(1) s3
    by (intro exI [of _ c0] exI [of _ ?c1] exI [of _ ?c2] exI [of _ c3] exI [of _ c4]) (simp add: set_entry_def)
qed

subsection \<open>Expiration\<close>

text \<open>A cache with one entry, which expires at time seven.\<close>

lemma absentI: "(\<And>e. m k = Some e \<Longrightarrow> False) \<Longrightarrow> m k = None"
  by (cases "m k") auto

lemma demo_expiring:
  obtains c c' where "NewCache demo_env 0 demo_opts = Some c"
    "c_SetWithCost (\<lambda>i. False) c 0 ''a'' 5 1 7 = Some (c', True)" "core_inv c'" "wheel_inv c'"
    "c_map c' = [''a'' \<mapsto> set_entry c 0 ''a'' 5 1 7]" "eExpireAt (set_entry c 0 ''a'' 5 1 7) = 7"
    "w_resolution (c_wheel c') = 100000000"
proof -
  obtain c where c: "NewCache demo_env 0 demo_opts = Some c" "ready (2 ^ 62) c" "c_writeBuffer c = None" "\<not> c_closed c"
    "wheel_inv c" "c_wheel c = NewExpiryWheel 0 100000000" "c_map c = Map.empty" using demo_cache by blast
  have one: "i64 1 = 1" by (simp add: i64_simps)
  obtain c' where s: "c_SetWithCost (\<lambda>i. False) c 0 ''a'' 5 1 7 = Some (c', True)" "core_inv c'"
    using Set_then_visible [OF ready_Suc [OF _ c(2)] c(4,3) one, of 0] by (fastforce simp: ready_def)
  have inv: "core_inv c" using c(2) by (simp add: ready_def)
  have x: "set_expiry (c_config c) 0 7 = 7" by (simp add: set_expiry_def i64_simps)
  have y: "setSync c ''a'' 5 (getKeyHash (c_store c) ''a'') 1 7 = Some (c', True)"
    using s(1) x by (simp add: c_SetWithCost_sync [OF c(3,4)] set_cost_def)
  have "schedulable c 7" by (simp add: schedulable_def c(6) demo_wheel)
  then have wheel: "wheel_inv c'" using setSync_wheel [OF inv c(5) one _ y] by blast
  have "c_wheel c' = (if (7 :: int) > 0 then w_Schedule (c_wheel c) ''a'' (getKeyHash (c_store c) ''a'') 7 else c_wheel c)"
    using setSync_spec [OF inv one y] by blast
  then have res: "w_resolution (c_wheel c') = 100000000" by (simp add: c(6) demo_wheel)
  have "c_map c' = [''a'' \<mapsto> set_entry c 0 ''a'' 5 1 7]"
    using c_SetWithCost_spec [OF inv c(3,4) _ s(1)] c(7) by (auto simp: set_cost_def i64_simps)
  then show thesis using that [OF c(1) s(1,2) wheel] res x by (simp add: set_entry_def)
qed

text \<open>
  C9: In a cache without a write buffer whose clock never goes back, whose calls run one after the other
  and whose worker has read no stored entry's exact deadline (C11), with deadlines below \<open>2 ^ 62\<close>: whatever
  happened before, a tick of the expiration worker removes no entry that has not expired, and leaves no
  entry behind that has been overdue for a whole tick of the wheel. With a write buffer a write may be
  applied after the wheel has passed its deadline (C10).
\<close>

theorem sweep_removes_overdue:
  assumes "env_ok env" "config_ok (apply_options opts)" "0 \<le> start" "BufferItems (apply_options opts) \<le> 0"
    and "NewCache env start opts = Some c0" "timely c0 start n c t" "n \<le> 2 ^ 62" "t \<le> now"
  shows "(\<forall>k e. c_map (c_removeExpired c now) k = Some e \<longrightarrow>
       c_map c k = Some e \<and> (eExpireAt e \<le> 0 \<or> now - w_resolution (c_wheel c) < eExpireAt e)) \<and>
    (\<forall>k e. c_map c k = Some e \<longrightarrow> \<not> IsExpired e now \<longrightarrow> c_map (c_removeExpired c now) k = Some e)"
proof -
  have "ready n c0" using NewCache_ready [OF assms(1-3)] assms(5,7) by (auto intro: ready_mono)
  then show ?thesis by (rule timely_sweeps(2) [OF assms(6) _ NewCache_on_time [OF assms(1-5)] assms(8)])
qed

theorem sweep_removes_overdue_witness:
  "\<exists>c c'. NewCache demo_env 0 demo_opts = Some c \<and>
    c_SetWithCost (\<lambda>i. False) c 0 ''a'' 5 1 7 = Some (c', True) \<and> c_map c' ''a'' \<noteq> None \<and>
    c_map (c_removeExpired c' 1000000000) ''a'' = None"
proof -
  obtain c c' where c: "NewCache demo_env 0 demo_opts = Some c"
    "c_SetWithCost (\<lambda>i. False) c 0 ''a'' 5 1 7 = Some (c', True)" "core_inv c'" "wheel_inv c'"
    "c_map c' = [''a'' \<mapsto> set_entry c 0 ''a'' 5 1 7]" "eExpireAt (set_entry c 0 ''a'' 5 1 7) = 7"
    "w_resolution (c_wheel c') = 100000000" by (rule demo_expiring)
  have run: "timely c 0 (Suc 0) c' 0"
    by (rule timely_Set [OF timely_start order_refl c(2)]) (simp_all add: demo_ttl [OF c(1)] i64_simps)
  have sync: "BufferItems (apply_options demo_opts) \<le> 0" using demo_sync(1) by simp
  note w = sweep_removes_overdue [OF demo_env_ok demo_config_ok(1) order_refl sync c(1) run, of 1000000000, THEN conjunct1, rule_format]
  have "c_map (c_removeExpired c' 1000000000) ''a'' = None"
  proof (rule absentI)
    fix e assume "c_map (c_removeExpired c' 1000000000) ''a'' = Some e"
    from w [OF _ _ this] show False using c(6,7) by (auto simp: c(5))
  qed
  then show ?thesis using c(1,2,5) by auto
qed



text \<open>
  C11: An entry whose expiration is exactly the time of a sweep and the start of a tick, that is a
  multiple of the wheel's resolution, is lost to the worker, if the wheel is in order and no item with
  another deadline is pending for the entry's key. \<open>Advance\<close> takes its item off the wheel, \<open>DeleteIfExpired\<close>
  finds the entry not yet expired, and no later sweep ever removes it, although every reader treats it as
  expired from the next instant on.
\<close>

theorem exact_deadline_never_swept:
  assumes "core_inv c" "w_inv (c_wheel c)" "hashed c" "c_map c k = Some e"
    and "eExpireAt e = t" "0 < t" "w_resolution (c_wheel c) dvd t"
    and "\<forall>x\<in>#w_pending (c_wheel c). w_Key x = k \<longrightarrow> w_ExpireAt x = t" and "\<forall>u\<in>set ts. 0 \<le> u"
  shows "c_map (foldl c_removeExpired (c_removeExpired c t) ts) k = Some e \<and> (t < u \<longrightarrow> IsExpired e u)"
proof -
  have "orphan (c_removeExpired c t) k e" by (rule exact_deadline_orphan [OF assms(1-8)])
  from orphan_forever [OF this assms(9)]
  have "c_map (foldl c_removeExpired (c_removeExpired c t) ts) k = Some e" unfolding orphan_def by (elim conjE)
  moreover have "t < u \<longrightarrow> IsExpired e u" unfolding IsExpired_def assms(5) using assms(6) by blast
  ultimately show ?thesis by (rule conjI)
qed

theorem exact_deadline_never_swept_witness:
  "\<exists>c c' e. NewCache demo_env 0 demo_opts = Some c \<and>
    c_SetWithCost (\<lambda>i. False) c 0 ''a'' 5 1 100000000 = Some (c', True) \<and>
    c_map (foldl c_removeExpired (c_removeExpired c' 100000000) [200000000, 900000000000]) ''a'' = Some e \<and>
    IsExpired e 100000001"
proof -
  obtain c where c: "NewCache demo_env 0 demo_opts = Some c" "ready (2 ^ 62) c" "c_writeBuffer c = None" "\<not> c_closed c"
    "wheel_inv c" "c_wheel c = NewExpiryWheel 0 100000000" using demo_cache by blast
  have one: "i64 1 = 1" by (simp add: i64_simps)
  obtain c' where s: "c_SetWithCost (\<lambda>i. False) c 0 ''a'' 5 1 100000000 = Some (c', True)" "ready 0 c'"
    "c_map c' ''a'' = Some (set_entry c 0 ''a'' 5 1 100000000)"
    using Set_then_visible [OF ready_Suc [OF _ c(2)] c(4,3) one, of 0] by fastforce
  have x: "set_expiry (c_config c) 0 100000000 = 100000000" by (simp add: set_expiry_def i64_simps)
  have y: "setSync c ''a'' 5 (getKeyHash (c_store c) ''a'') 1 100000000 = Some (c', True)"
    using s(1) x by (simp add: c_SetWithCost_sync [OF c(3,4)] set_cost_def)
  have inv: "core_inv c" using c(2) by (simp add: ready_def)
  have sch: "schedulable c 100000000" by (simp add: schedulable_def c(6) demo_wheel)
  have wi: "w_inv (c_wheel c')" using setSync_wheel [OF inv c(5) one sch y] by (simp add: wheel_inv_def)
  have "c_wheel c' = (if (100000000 :: int) > 0
      then w_Schedule (c_wheel c) ''a'' (getKeyHash (c_store c) ''a'') 100000000 else c_wheel c)"
    using setSync_spec [OF inv one y] by blast
  then have w: "c_wheel c' = w_Schedule (c_wheel c) ''a'' (getKeyHash (c_store c) ''a'') 100000000" by simp
  have res: "w_resolution (c_wheel c') = 100000000" by (simp add: w c(6) demo_wheel)
  have sane: "w_sane (c_wheel c)" using c(5) w_inv_sane by (auto simp: wheel_inv_def)
  have pend: "\<forall>x\<in>#w_pending (c_wheel c'). w_Key x = ''a'' \<longrightarrow> w_ExpireAt x = 100000000"
    unfolding w using w_Schedule_any [OF sane, of "''a''" "getKeyHash (c_store c) ''a''" 100000000]
    by (simp add: c(6) demo_wheel)
  have "core_inv c'" "hashed c'" using s(2) by (simp_all add: ready_def)
  from exact_deadline_never_swept [OF this(1) wi this(2) s(3) _ _ _ pend, of "[200000000, 900000000000]" 100000001]
  have "c_map (foldl c_removeExpired (c_removeExpired c' 100000000) [200000000, 900000000000]) ''a'' =
      Some (set_entry c 0 ''a'' 5 1 100000000) \<and> IsExpired (set_entry c 0 ''a'' 5 1 100000000) 100000001"
    unfolding res using x by (simp add: set_entry_def)
  then show ?thesis using c(1) s(1) by blast
qed

text \<open>
  C12: \<open>Clear\<close>, when its calls of \<open>FlushSync\<close> are answered, returns and leaves an empty cache: no key is
  stored, the length is 0, and the policy tracks nothing.
\<close>

theorem clear_empties:
  assumes "ready m c" "sync_answered picks c"
  shows "\<exists>c'. c_Clear picks c now = Some c' \<and> c_map c' = Map.empty \<and> c_Len c' = 0 \<and> c_liveCost c' = 0 \<and>
    \<not> Policer_Has (c_policy c') k \<and> core_inv c'"
proof -
  obtain c' where c': "c_Clear picks c now = Some c'" "ready m c'" "c_map c' = Map.empty" "c_Len c' = 0"
    using c_Clear_ready [OF assms, of now] by blast
  then have "core_inv c'" by (simp add: ready_def)
  then show ?thesis using c' by (auto simp: core_inv_def data_inv_def po.has_tracked)
qed

theorem clear_empties_witness:
  "\<exists>c c'. NewCache demo_env 0 demo_buffered = Some c \<and> c_Clear (False, False) c 5 = Some c' \<and> c_Len c' = 0"
proof -
  obtain c rb where c: "NewCache demo_env 0 demo_buffered = Some c" "ready (2 ^ 62) c" "\<not> c_closed c"
    using demo_buffer by metis
  then have "sync_answered (False, False) c" by (simp add: sync_answered_def)
  from clear_empties [OF c(2) this, of 5 "''a''"] show ?thesis using c(1) by blast
qed

subsection \<open>Batch reads\<close>

text \<open>
  C13: \<open>GetBatch\<close>, and \<open>GetBatchOptimized\<close> with any reordering of the keys by shard, answer every
  position as \<open>Get\<close> would, and \<open>GetBatchToMap\<close> is the map of the keys that are visible: \<open>visible\<close> is what
  \<open>Get\<close> returns.
\<close>

theorem batches_agree_with_get:
  assumes "ready (length keys + m) c" "\<not> c_closed c" "\<And>infos. mset (sort_infos infos) = mset infos"
  shows "map_option snd (c_GetBatch c now keys) = Some (batch_of c now keys) \<and>
    map_option snd (c_GetBatchOptimized sort_infos c now keys) = Some (batch_of c now keys) \<and>
    map_option snd (c_GetBatchToMap c now keys) = Some (Inr (visible c now |` set keys)) \<and>
    (\<forall>k \<in> set keys. map_option snd (c_Get c now k) = Some (visible c now k))"
proof -
  have "map_option snd (c_Get c now k) = Some (visible c now k)" if "k \<in> set keys" for k
  proof -
    have "ready (Suc 0) c" by (rule ready_mono [OF assms(1)]) (use that in \<open>cases keys; simp\<close>)
    then show ?thesis using c_Get_ready [of 0 c now k] by auto
  qed
  then show ?thesis using c_GetBatch_spec [OF assms(1,2), of now] c_GetBatchOptimized_spec [OF assms, of now]
    c_GetBatchToMap_spec [OF assms(1,2), of now] by fastforce
qed

theorem batches_agree_with_get_witness:
  "\<exists>c. NewCache demo_env 0 demo_opts = Some c \<and>
    map_option snd (c_GetBatchOptimized rev c 0 [''a'', ''b'']) = Some (batch_of c 0 [''a'', ''b'']) \<and>
    b_Found (batch_of c 0 [''a'', ''b'']) = [False, False]"
proof -
  obtain c where c: "NewCache demo_env 0 demo_opts = Some c" "ready (2 ^ 62) c" "\<not> c_closed c" "c_map c = Map.empty"
    using demo_cache by blast
  have "ready (length [''a'', ''b''] + 0) c" by (rule ready_mono [OF c(2)]) simp
  from batches_agree_with_get [OF this c(3), of rev 0] show ?thesis
    using c by (simp add: batch_of_def visible_def)
qed

text \<open>
  On a closed cache \<open>GetBatch\<close> returns a result without its \<open>Found\<close> slice, and \<open>GetBatchToMap\<close>
  indexes it: any non-empty batch panics instead of coming back empty.
\<close>

theorem closed_batch_panics:
  assumes "c_closed c" "keys \<noteq> []"
  shows "c_GetBatchToMap c now keys = Some (c, Inl IndexOutOfRange)"
  using assms by (cases keys) (simp_all add: c_GetBatchToMap_def c_GetBatch_def)

theorem closed_batch_panics_witness:
  "\<exists>c c'. NewCache demo_env 0 demo_opts = Some c \<and> c_Close c = Some c' \<and>
    c_GetBatchToMap c' 0 [''a''] = Some (c', Inl IndexOutOfRange)"
proof -
  obtain c where c: "NewCache demo_env 0 demo_opts = Some c" "ready (2 ^ 62) c" using demo_cache by blast
  obtain c' where c': "c_Close c = Some c'" "c_closed c'" using c_Close_ready [OF c(2)] by blast
  show ?thesis using closed_batch_panics [OF c'(2), of "[''a'']" 0] c(1) c'(1) by blast
qed

section \<open>Goroutines inside the calls of the cache\<close>

text \<open>
  C14: Goroutines whose sets, deletions and expirations interleave between the locked calls of the
  components never block, and leave every component with its invariant: the store, the policy, the wheel
  and the prefix index. When all have finished the live cost is the sum of the stored costs plus the
  costs of the entries that \<open>doSet\<close> replaced.
\<close>

theorem writes_any_schedule:
  assumes "env_ok env" "config_ok (apply_options opts)" "0 \<le> start"
    and "NewCache env start opts = Some c0" and "reaches c0 n c" and "n \<le> 2 ^ 62" and "\<forall>ev\<in>set es. event_typed ev"
  shows "\<exists>s. calls_run es (calls_from w c) = Some s \<and> parts_ok (getKeyHash (c_store c)) (cs_cache s) \<and>
    (set (cs_calls s) \<subseteq> {Finished True, Finished False} \<longrightarrow>
      c_liveCost (cs_cache s) = i64 (map_sum eCost (c_map (cs_cache s)) + cs_replaced s))"
  using reachable_ready [OF assms(1-6)] calls_any_schedule [OF _ assms(7)] by blast

theorem writes_any_schedule_witness:
  "\<exists>c0 c s. NewCache demo_env 0 demo_opts = Some c0 \<and> reaches c0 1 c \<and>
    calls_run (both_set ''b'' 5 1 6 1 9 9) (calls_from 2 c) = Some s \<and> parts_ok (getKeyHash (c_store c)) (cs_cache s)"
proof -
  obtain c0 c where c: "NewCache demo_env 0 demo_opts = Some c0" "reaches c0 (Suc 0) c" using demo_run by blast
  have "\<forall>ev\<in>set (both_set ''b'' (5 :: int) 1 6 1 9 9). event_typed ev" by (auto simp: both_set_def i64_simps)
  from writes_any_schedule [OF demo_env_ok demo_config_ok(1) order_refl c _ this, of 2] c show ?thesis by auto
qed

text \<open>
  C15: A set that runs while a deletion of the same key is under way is half undone. When it starts after
  the deletion has emptied the store and ends before the deletion reaches the policy and the prefix index,
  both calls report success, and the new entry stays in the store with the policy not tracking it and the
  prefix index not listing it: it can never be chosen as a victim.
\<close>

theorem set_inside_delete_orphans:
  assumes "env_ok env" "config_ok (apply_options opts)" "0 \<le> start"
    and "NewCache env start opts = Some c0" and "reaches c0 i c" and "i \<le> 2 ^ 62"
    and "c_map c k = Some old" "i64 cost = cost"
  shows "\<exists>n s e. calls_run (set_inside_delete k v cost n) (calls_from 2 c) = Some s \<and>
    cs_calls s = [Finished True, Finished True] \<and> c_map (cs_cache s) k = Some e \<and> eValue e = v \<and>
    \<not> Policer_Has (c_policy (cs_cache s)) k \<and>
    (\<forall>t str. c_radix (cs_cache s) = Some t \<longrightarrow> c_isStringKey (cs_cache s) \<longrightarrow>
       as_string (st_any (c_store (cs_cache s)) k) = Some str \<longrightarrow> radix_map t str = None)"
  using reachable_ready [OF assms(1-6)] orphan_race [OF _ assms(7,8)] by blast

theorem set_inside_delete_orphans_witness:
  "\<exists>c0 c n s. NewCache demo_env 0 demo_opts = Some c0 \<and> reaches c0 1 c \<and>
    calls_run (set_inside_delete ''a'' 6 1 n) (calls_from 2 c) = Some s \<and>
    c_map (cs_cache s) ''a'' \<noteq> None \<and> \<not> Policer_Has (c_policy (cs_cache s)) ''a''"
proof -
  obtain c0 c where c: "NewCache demo_env 0 demo_opts = Some c0" "c_map c ''a'' \<noteq> None" "reaches c0 (Suc 0) c"
    using demo_run by blast
  then obtain old where old: "c_map c ''a'' = Some old" by blast
  have "i64 1 = 1" by (simp add: i64_simps)
  from set_inside_delete_orphans [OF demo_env_ok demo_config_ok(1) order_refl c(1,3) _ old this, of 6] c
  show ?thesis by fastforce
qed

section \<open>The policy\<close>

text \<open>
  C17: While the policy tracks fewer than a hundred keys its sampling sees all of them, and
  eviction is exact LFU: no victim was used more often than a key that stays.
\<close>

theorem eviction_is_exact_lfu:
  assumes "pol_inv p" "length (lfu_keys (pol_evict p)) < 100" "pol_Add p k h c = Some (p', vs, ok)"
    and "v \<in> set vs" "x \<noteq> k" "pol_tracked p' x = Some item"
  shows "tl_Estimate (pol_admit p') (v_KeyHash v) \<le> tl_Estimate (pol_admit p') (ti_keyHash item)"
proof -
  let ?t = "tl_Increment (pol_admit p) h"
  have t: "tl_inv ?t" using assms(1) by (simp add: pol_inv_def tl.inv_increment)
  have e: "lfu_inv (pol_evict p)" using assms(1) by (simp add: pol_inv_def)
  have new: "\<not> lfu_Has (pol_evict p) k" using pol_Add_cases(3) [OF assms(1,3)] assms(4) by auto
  obtain s where f: "find_victims (tl_Estimate ?t) (tl_Admit ?t) (pol_zero p) h (pol_evict p) [] = Some (s, vs)"
    "pol_evict p' = lfu_Add s k h c" "pol_admit p' = ?t"
    using assms(3) new by (auto simp: pol_Add_def pol_findVictimsLocked_def Let_def bind_eq_Some_conv)
  have "cooler (tl_Estimate ?t) vs s"
    using find_victims_exact [OF f(1) e tl.estimate_below_max [OF t] assms(2)] by (simp add: cooler_def)
  moreover have "lfu_costs s x = Some item"
    using assms(5,6) f(2) by (simp add: pol_tracked_def lfu_costs_Add)
  ultimately show ?thesis using assms(4) f(3) by (simp add: cooler_def)
qed

text \<open>A policy with one hot key, in a sketch of two columns, at its limit of one entry.\<close>

definition demo_sketch :: cmSketch where
  "demo_sketch = \<lparr>cm_rows = [[0x0F], [0x0F], [0x0F], [0xF0]], cm_seeds = [1, 2, 3, 4], cm_width = 2\<rparr>"

definition demo_policy :: "int \<Rightarrow> string Policy" where
  "demo_policy maxEntries =
     \<lparr>pol_admit = \<lparr>tl_freq = demo_sketch, tl_door = \<lparr>bf_bits = [0], bf_numBits = 64, bf_numHash = 1\<rparr>,
                   tl_incrs = 0, tl_resetAt = 100\<rparr>,
      pol_evict = lfu_Add (NewSampledLFU 0 maxEntries (\<lambda>i. i)) ''a'' 2 1, pol_zero = []\<rparr>"

lemma demo_policy_inv: "pol_inv (demo_policy n)"
proof -
  have "length (cm_rows demo_sketch ! r) = 1" if "r < 4" for r
  proof -
    from that have "r = 0 \<or> r = 1 \<or> r = 2 \<or> r = 3" by arith
    then show ?thesis by (auto simp: demo_sketch_def)
  qed
  then have "sketch_inv demo_sketch" by (simp add: sketch_inv_def) (simp add: demo_sketch_def)
  then show ?thesis by (simp add: demo_policy_def pol_inv_def tl_inv_def bf_inv_def lfu_inv_add lfu_inv_new)
qed

lemma demo_estimates:
  "tl_Estimate (tl_Increment (pol_admit (demo_policy n)) 4) 4 = 1"
  "tl_Estimate (tl_Increment (pol_admit (demo_policy n)) 4) 2 = 15"
  by (simp_all add: demo_policy_def demo_sketch_def tl_Increment_def tl_Estimate_def cm_Estimate_def cm_getAt_def cm_index_def mix_def bf_Add_def bf_Contains_def bf_index_def testBit_def orBit_def cmDepth_def Let_def i64_simps upt_conv_Cons)

text \<open>With a second, cold key that policy is over its limit, and the next key evicts it.\<close>

definition demo_over :: "string Policy" where
  "demo_over = (demo_policy 1)\<lparr>pol_evict := lfu_Add (pol_evict (demo_policy 1)) ''c'' 5 1\<rparr>"

lemma demo_over_evicts:
  assumes "pol_Add demo_over ''b'' 4 1 = Some (p', vs, ok)"
  shows "vs = [\<lparr>v_Key = ''c'', v_KeyHash = 5\<rparr>]"
proof -
  have e: "tl_Estimate (tl_Increment (pol_admit (demo_policy 1)) 4) 5 = 0"
    by (simp add: demo_policy_def demo_sketch_def tl_Increment_def tl_Estimate_def cm_Estimate_def cm_getAt_def
        cm_index_def mix_def bf_Add_def bf_Contains_def bf_index_def testBit_def orBit_def cmDepth_def Let_def i64_simps upt_conv_Cons)
  have ad: "pol_admit demo_over = pol_admit (demo_policy 1)" by (simp add: demo_over_def)
  let ?t = "tl_Increment (pol_admit (demo_policy 1)) 4" and ?v = "\<lparr>v_Key = ''c'', v_KeyHash = 5\<rparr>"
  let ?E = "pol_evict demo_over"
  have keys: "lfu_keys ?E = [''a'', ''c'']" "lfu_costs ?E ''a'' = Some \<lparr>ti_keyHash = 2, ti_cost = 1\<rparr>"
    "lfu_costs ?E ''c'' = Some \<lparr>ti_keyHash = 5, ti_cost = 1\<rparr>" "lfu_NeedsEviction ?E" "\<not> lfu_Has ?E ''b''"
    "\<not> lfu_NeedsEviction (lfu_Del ?E ''c'')"
    by (simp_all add: demo_over_def demo_policy_def lfu_Add_def NewSampledLFU_def lfu_NeedsEviction_def lfu_Has_def
        lfu_Del_def i64_simps)
  have sample: "lfu_Sample ?E = Some (?E, [\<lparr>v_Key = ''a'', v_KeyHash = 2\<rparr>, ?v])"
    by (simp add: lfu_Sample_def adaptiveSampleSize_def keys victim_of_def Let_def)
  have pick: "pick_victim (tl_Estimate ?t) z [\<lparr>v_Key = ''a'', v_KeyHash = 2\<rparr>, ?v] = ?v" for z
    by (simp add: pick_victim_def pick_step_def zero_victim_def max_int64_def e demo_estimates Let_def)
  have "find_victims (tl_Estimate ?t) (tl_Admit ?t) z 4 ?E [] =
      find_victims (tl_Estimate ?t) (tl_Admit ?t) z 4 (lfu_Del ?E ''c'') [?v]" for z
    by (subst find_victims.simps) (simp add: keys sample pick tl_Admit_def e demo_estimates Let_def)
  moreover have "find_victims (tl_Estimate ?t) (tl_Admit ?t) z 4 (lfu_Del ?E ''c'') [?v] = Some (lfu_Del ?E ''c'', [?v])" for z
    by (subst find_victims.simps) (simp add: keys)
  ultimately show ?thesis
    using assms by (auto simp: pol_Add_def pol_findVictimsLocked_def Let_def ad keys)
qed

theorem eviction_is_exact_lfu_witness:
  "\<exists>p' vs ok v. pol_Add demo_over ''b'' 4 1 = Some (p', vs, ok) \<and> v \<in> set vs \<and>
    tl_Estimate (pol_admit p') (v_KeyHash v) \<le> tl_Estimate (pol_admit p') 2"
proof -
  have i: "pol_inv demo_over" using demo_policy_inv [of 1] by (simp add: demo_over_def pol_inv_def lfu_inv_add)
  have k: "length (lfu_keys (pol_evict demo_over)) < 100"
    by (simp add: demo_over_def demo_policy_def lfu_Add_def NewSampledLFU_def)
  obtain p' vs ok where a: "pol_Add demo_over ''b'' 4 1 = Some (p', vs, ok)"
    using pol_Add_returns [OF i disjI2 [OF k], of "''b''" 4 1] by auto
  note vs = demo_over_evicts [OF a]
  have "pol_tracked p' ''a'' = Some \<lparr>ti_keyHash = 2, ti_cost = 1\<rparr>"
    using pl.tracked_add [OF i a] vs
    by (simp add: pol_tracked_def demo_over_def demo_policy_def lfu_costs_Add)
  then have "tl_Estimate (pol_admit p') 5 \<le> tl_Estimate (pol_admit p') 2"
    using eviction_is_exact_lfu [OF i k a, of "\<lparr>v_Key = ''c'', v_KeyHash = 5\<rparr>" "''a''"] vs by simp
  then show ?thesis using a vs by (intro exI [of _ p'] exI [of _ vs] exI [of _ ok] exI [of _ "\<lparr>v_Key = ''c'', v_KeyHash = 5\<rparr>"]) simp
qed

text \<open>
  C18: A new key is never rejected. When it is colder than everything the policy tracks, admission
  control only stops the eviction: the key is added all the same, nothing makes room for it, and
  the policy grows past its limit.
\<close>

theorem cold_key_grows_policy:
  assumes "pol_inv p" "pol_live p" "\<not> pol_Has p k"
    and "\<forall>x item. pol_tracked p x = Some item \<longrightarrow>
      tl_Estimate (tl_Increment (pol_admit p) h) h < tl_Estimate (tl_Increment (pol_admit p) h) (ti_keyHash item)"
  shows "\<exists>p'. pol_Add p k h c = Some (p', [], True) \<and> pol_tracked p' = (pol_tracked p)(k \<mapsto> \<lparr>ti_keyHash = h, ti_cost = c\<rparr>) \<and>
    pol_NumEntries p' = i64 (pol_NumEntries p + 1)"
proof -
  obtain p' vs ok where a: "pol_Add p k h c = Some (p', vs, ok)"
    using pl.add_returns [OF assms(1,2), of k h c] by auto
  have new: "\<not> lfu_Has (pol_evict p) k" using assms(3) by (simp add: pol_Has_def)
  obtain s where s: "evicted (tl_Admit (pol_admit p') h) (pol_evict p) vs s" "pol_evict p' = lfu_Add s k h c"
    using pol_Add_cases(4) [OF assms(1) a new] by blast
  have t: "pol_admit p' = tl_Increment (pol_admit p) h" and ok: ok using pol_Add_cases(1,2) [OF assms(1) a] by auto
  have "v \<notin> set vs" for v
  proof
    assume "v \<in> set vs"
    then have "map_option ti_keyHash (pol_tracked p (v_Key v)) = Some (v_KeyHash v)" "tl_Admit (pol_admit p') h (v_KeyHash v)"
      using s(1) by (auto simp: evicted_def pol_tracked_def)
    then show False using assms(4) by (fastforce simp: t tl.admit_iff)
  qed
  then have vs: "vs = []" by (cases vs) auto
  have tr: "pol_tracked p' = (pol_tracked p)(k \<mapsto> \<lparr>ti_keyHash = h, ti_cost = c\<rparr>)"
    using pl.tracked_add [OF assms(1) a] by (auto simp: vs fun_eq_iff restrict_map_def)
  have "pol_tracked p k = None" using assms(3) by (simp add: pl.has_tracked domIff)
  then have "card (dom (pol_tracked p')) = Suc (card (dom (pol_tracked p)))"
    unfolding tr by (rule card_dom_insert [OF pl.finite_tracked [OF assms(1)]])
  then have "pol_NumEntries p' = i64 (int (card (dom (pol_tracked p))) + 1)"
    using pl.count_tracked [OF pl.inv_add [OF assms(1) a]] by (simp add: add.commute)
  also have "\<dots> = i64 (pol_NumEntries p + 1)" using pl.count_tracked [OF assms(1)] by simp
  finally show ?thesis using a tr vs ok by (intro exI [of _ p']) simp
qed

theorem cold_key_grows_policy_witness:
  "\<exists>p'. pol_Add (demo_policy 1) ''b'' 4 1 = Some (p', [], True) \<and> pol_NumEntries p' = 2"
proof -
  have n: "pol_NumEntries (demo_policy 1) = 1"
    by (simp add: demo_policy_def pol_NumEntries_def lfu_NumEntries_def lfu_Add_def NewSampledLFU_def i64_simps)
  have "pol_live (demo_policy 1)" "\<not> pol_Has (demo_policy 1) ''b''"
    by (simp_all add: demo_policy_def pol_live_def pol_Has_def lfu_Has_def lfu_Add_def NewSampledLFU_def fair_id)
  moreover have "pol_tracked (demo_policy 1) = [''a'' \<mapsto> \<lparr>ti_keyHash = 2, ti_cost = 1\<rparr>]"
    by (simp add: demo_policy_def pol_tracked_def lfu_costs_Add) (simp add: NewSampledLFU_def)
  then have "\<forall>x item. pol_tracked (demo_policy 1) x = Some item \<longrightarrow>
      tl_Estimate (tl_Increment (pol_admit (demo_policy 1)) 4) 4 < tl_Estimate (tl_Increment (pol_admit (demo_policy 1)) 4) (ti_keyHash item)"
    by (auto simp: demo_estimates)
  ultimately show ?thesis
    using cold_key_grows_policy [OF demo_policy_inv, of 1 "''b''" 4 1] n by (auto simp: i64_simps)
qed

text \<open>
  C19: Adding a key to either policy always accepts it; the victims are distinct tracked keys,
  never the key itself, and afterwards exactly the other tracked keys and the new one are tracked,
  with the totals of the policy recomputed from them. Replacing a tracked key evicts nothing.
\<close>

theorem add_accounting:
  assumes "Policer_inv p" "Policer_Add p k h c = Some (p', vs, ok)"
  shows "ok \<and> Policer_inv p' \<and> distinct (map v_Key vs) \<and>
    (\<forall>v\<in>set vs. v_Key v \<noteq> k \<and> Policer_Has p (v_Key v)) \<and>
    Policer_tracked p' = (Policer_tracked p |` (- v_Key ` set vs))(k \<mapsto> \<lparr>ti_keyHash = h, ti_cost = c\<rparr>) \<and>
    Policer_Cost p' = i64 (map_sum ti_cost (Policer_tracked p')) \<and>
    Policer_NumEntries p' = i64 (int (card (dom (Policer_tracked p'))))"
proof -
  note i = po.inv_add [OF assms]
  have "Policer_Has p (v_Key v)" if "v \<in> set vs" for v by (rule po.victims_tracked [OF assms that])
  then show ?thesis
    using po.add_accepts [OF assms] i po.add_victims [OF assms] po.tracked_add [OF assms]
      po.total_tracked [OF i] po.count_tracked [OF i] by blast
qed

theorem add_accounting_witness:
  "\<exists>p' vs. Policer_Add (Locked (demo_policy 1)) ''b'' 4 1 = Some (p', vs, True) \<and> Policer_inv p' \<and>
    distinct (map v_Key vs)"
proof -
  have "pol_live (demo_policy 1)" by (simp add: demo_policy_def pol_live_def lfu_Add_def NewSampledLFU_def fair_id)
  then have l: "Policer_inv (Locked (demo_policy 1))" "Policer_live (Locked (demo_policy 1))" by (simp_all add: demo_policy_inv)
  then obtain p' vs ok where a: "Policer_Add (Locked (demo_policy 1)) ''b'' 4 1 = Some (p', vs, ok)"
    using po.add_returns [OF l, of "''b''" 4 1] by auto
  show ?thesis using add_accounting [OF l(1) a] a by (intro exI [of _ p'] exI [of _ vs]) simp
qed

subsection \<open>Sampling\<close>

text \<open>
  Deleting a tracked key swaps the last key into its place and repairs the index: the key list
  stays free of duplicates, holds exactly the other keys, and the index maps each key to its
  position and nothing else.
\<close>

theorem swap_delete_keeps_index:
  assumes "lfu_inv s"
  shows "distinct (lfu_keys (lfu_Del s k)) \<and> set (lfu_keys (lfu_Del s k)) = set (lfu_keys s) - {k} \<and>
    lfu_costs (lfu_Del s k) = (lfu_costs s)(k := None) \<and>
    (\<forall>x i. lfu_keyIndex (lfu_Del s k) x = Some i \<longleftrightarrow>
       i < length (lfu_keys (lfu_Del s k)) \<and> lfu_keys (lfu_Del s k) ! i = x)"
proof -
  have d: "lfu_inv (lfu_Del s k)" by (rule lfu_inv_del [OF assms])
  have "set (lfu_keys (lfu_Del s k)) = set (lfu_keys s) - {k}"
    using d assms lfu_costs_Del [of s k] unfolding lfu_inv_def by (metis dom_fun_upd)
  then show ?thesis using d lfu_costs_Del [of s k] unfolding lfu_inv_def by blast
qed

theorem swap_delete_keeps_index_witness:
  "set (lfu_keys (lfu_Del (pol_evict demo_over) ''a'')) = {''c''} \<and> lfu_keyIndex (lfu_Del (pol_evict demo_over) ''a'') ''c'' = Some 0"
proof -
  have i: "lfu_inv (pol_evict demo_over)" using demo_policy_inv [of 1] by (simp add: demo_over_def pol_inv_def lfu_inv_add)
  have k: "lfu_keys (lfu_Del (pol_evict demo_over) ''a'') = [''c'']"
    by (simp add: demo_over_def demo_policy_def lfu_Add_def NewSampledLFU_def lfu_Del_def)
  show ?thesis using swap_delete_keeps_index [OF i, of "''a''"] k by simp
qed

text \<open>
  The rejection sampling returns when the generator is fair, and the sample holds distinct
  tracked keys with their hashes, as many as the adaptive size asks for.
\<close>

theorem sample_distinct_tracked:
  assumes "lfu_inv s" "fair (lfu_draws s)"
  shows "\<exists>s' vs. lfu_Sample s = Some (s', vs) \<and> lfu_costs s' = lfu_costs s \<and> distinct (map v_Key vs) \<and>
    length vs = min (adaptiveSampleSize s) (length (lfu_keys s)) \<and>
    (\<forall>v\<in>set vs. map_option ti_keyHash (lfu_costs s (v_Key v)) = Some (v_KeyHash v))"
proof -
  obtain s' vs where r: "lfu_Sample s = Some (s', vs)" using lfu_Sample_returns [of s] assms(2) by auto
  obtain p idxs where i: "s' = s\<lparr>lfu_pos := p\<rparr>" "vs = sample_at s idxs" "distinct idxs"
    "set idxs \<subseteq> {..<length (lfu_keys s)}" "length idxs = min (adaptiveSampleSize s) (length (lfu_keys s))"
    using lfu_Sample_spec [OF r] by blast
  then show ?thesis
    using r sample_at_keys [OF assms(1) i(3,4)] lfu_Sample_tracked(2) [OF assms(1) r] by (simp add: sample_at_def)
qed

theorem sample_distinct_tracked_witness:
  "\<exists>s' vs. lfu_Sample (pol_evict demo_over) = Some (s', vs) \<and> length vs = 2 \<and> distinct (map v_Key vs)"
proof -
  have i: "lfu_inv (pol_evict demo_over)" using demo_policy_inv [of 1] by (simp add: demo_over_def pol_inv_def lfu_inv_add)
  have f: "fair (lfu_draws (pol_evict demo_over))" "lfu_keys (pol_evict demo_over) = [''a'', ''c'']"
    by (simp_all add: demo_over_def demo_policy_def lfu_Add_def NewSampledLFU_def fair_id)
  show ?thesis using sample_distinct_tracked [OF i f(1)] f(2) by (auto simp: adaptiveSampleSize_def)
qed

section \<open>Frequencies and admission\<close>

text \<open>
  C20: A fresh lock-free sketch of any width never underestimates: after a sequence of increments the
  estimate of a hash lies between its number of occurrences and the length of the sequence, cut
  off at 255.
\<close>

theorem sketch_bounds:
  assumes "width \<le> 2 ^ 62" "4 \<le> length rand"
  shows "\<exists>s. newCMSketchLockFree width rand = Some s \<and>
    min 255 (int (count_list hs h)) \<le> lf_Estimate (foldl lf_Increment s hs) h \<and>
    lf_Estimate (foldl lf_Increment s hs) h \<le> min 255 (int (length hs))"
proof -
  obtain s where s: "newCMSketchLockFree width rand = Some s" "lf_sketch_inv s" "\<forall>h. lf_Estimate s h = 0"
    using newCMSketchLockFree_inv [OF assms] by blast
  show ?thesis
    using s lfs.no_underestimate [OF s(2), of h hs] lfs.bounded_overestimate [OF s(2), of hs h]
      lfs.estimate_range [OF lfs.inv_foldl [OF s(2), of hs], of h] by auto
qed

theorem sketch_bounds_witness:
  "\<exists>s. newCMSketchLockFree 1000 [1, 2, 3, 4] = Some s \<and> 2 \<le> lf_Estimate (foldl lf_Increment s [7, 9, 7]) 7"
  using sketch_bounds [of 1000 "[1, 2, 3, 4]" "[7, 9, 7]" 7] by auto

text \<open>
  Ageing halves every estimate, rounding down, in both sketches: no counter's bits leak into
  its neighbour when a byte of two nibbles, or a word of four bytes, is shifted at once.
\<close>

theorem ageing_halves:
  assumes "sketch_inv s" "lf_sketch_inv l"
  shows "cm_Estimate (cm_Reset s) h = cm_Estimate s h div 2 \<and> lf_Estimate (lf_Reset l) h = lf_Estimate l h div 2"
  using cms.estimate_halve [OF assms(1)] lfs.estimate_halve [OF assms(2)] by simp

theorem ageing_halves_witness:
  "\<exists>l. newCMSketchLockFree 1000 [1, 2, 3, 4] = Some l \<and> cm_Estimate (cm_Reset demo_sketch) 2 = 7 \<and>
    lf_Estimate (lf_Reset (lf_Increment l 7)) 7 = 0"
proof -
  obtain l where l: "newCMSketchLockFree 1000 [1, 2, 3, 4] = Some l" "lf_sketch_inv l" "lf_Estimate l 7 = 0"
    using newCMSketchLockFree_inv [of 1000 "[1, 2, 3, 4]"] by auto
  have d: "sketch_inv demo_sketch" using demo_policy_inv [of 1] by (simp add: demo_policy_def pol_inv_def tl_inv_def)
  have "cm_Estimate demo_sketch 2 = 15"
    by (simp add: demo_sketch_def cm_Estimate_def cm_getAt_def cm_index_def mix_def cmDepth_def Let_def upt_conv_Cons)
  moreover have "lf_Estimate (lf_Increment l 7) 7 = 1" using lfs.estimate_same [OF l(2), of 7] l(3) by simp
  ultimately show ?thesis
    using l(1) ageing_halves [OF d lfs.inv_increment [OF l(2)], of 2] ageing_halves [OF d lfs.inv_increment [OF l(2)], of 7 7] by auto
qed

text \<open>
  C21: The three Bloom filters have no false negatives: every hash that was added is found, whatever was
  added before or after it; an addition reports whether its hash was found before it; and after a reset
  nothing is found. The blocked filter also finds every hash of a batch, and its constructor gives such a
  filter whatever sizes its floating-point formulas come to.
\<close>

theorem doorkeepers_no_false_negatives:
  assumes "bf_inv d" "bl_inv b" "bb_inv f" "h \<in> set hs"
  shows "bf_Contains (foldl (\<lambda>d h. fst (bf_Add d h)) d hs) h \<and> snd (bf_Add d g) = bf_Contains d g \<and> \<not> bf_Contains (bf_Reset d) g \<and>
    bl_Contains (foldl (\<lambda>d h. fst (bl_Add d h)) b hs) h \<and> snd (bl_Add b g) = bl_Contains b g \<and> \<not> bl_Contains (bl_Reset b) g \<and>
    bb_Contains (foldl (\<lambda>d h. fst (bb_Add d h)) f hs) h \<and> snd (bb_Add f g) = bb_Contains f g \<and> \<not> bb_Contains (bb_Reset f) g \<and>
    bb_Contains (fst (bb_AddBatch f hs)) h \<and> bb_inv (NewBlockedBloomFilter optTotalBits optHash n)"
  using bf.no_false_negative [OF assms(1,4)] bl.no_false_negative [OF assms(2,4)] bb.no_false_negative [OF assms(3,4)]
    bf.add_result [OF assms(1)] bl.add_result [OF assms(2)] bb.add_result [OF assms(3)]
    bf.reset_empty [OF assms(1)] bl.reset_empty [OF assms(2)] bb.reset_empty [OF assms(3)] NewBlockedBloomFilter_inv
  by (simp add: bb_AddBatch_run)

theorem doorkeepers_no_false_negatives_witness:
  "bf_Contains (foldl (\<lambda>d h. fst (bf_Add d h)) (newBloomFilter 10) [7, 9]) 7 \<and>
    bb_Contains (foldl (\<lambda>d h. fst (bb_Add d h)) (NewBlockedBloomFilter (\<lambda>n. 1024) (\<lambda>n bits. 4) 10) [7, 9]) 7 \<and>
    \<not> bb_Contains (bb_Reset (NewBlockedBloomFilter (\<lambda>n. 1024) (\<lambda>n bits. 4) 10)) 7"
proof -
  have a: "bf_inv (newBloomFilter 10)" using newBloomFilter_inv [of 10] by simp
  have b: "bl_inv (newBloomFilterLockFree (\<lambda>n. 1024) (\<lambda>bits n. 4) 10)"
    using newBloomFilterLockFree_inv [of "\<lambda>n. 1024" "\<lambda>bits n. 4" 10] by simp
  have f: "bb_inv (NewBlockedBloomFilter (\<lambda>n. 1024) (\<lambda>n bits. 4) 10)" by (rule NewBlockedBloomFilter_inv)
  show ?thesis using doorkeepers_no_false_negatives [OF a b f, of 7 "[7, 9]" 7] by simp
qed

text \<open>
  C23: A key that keeps being used is eventually admitted against any victim: within one ageing
  period, as many accesses as the counters can hold suffice.
\<close>

theorem repeated_access_admits:
  assumes "tf_inv t" "256 \<le> int n" "\<And>k. k < n \<Longrightarrow> \<not> tf_ages (foldl tf_Increment t (replicate k a))"
  shows "tf_Admit (foldl tf_Increment t (replicate n a)) a b"
  by (rule tf.repeated_admitted [OF assms])

lemma tf_incrs_count:
  assumes "tf_inv t" "tf_incrs t + int k < tf_resetAt t"
  shows "tf_incrs (foldl tf_Increment t (replicate k a)) = tf_incrs t + int k \<and>
    tf_resetAt (foldl tf_Increment t (replicate k a)) = tf_resetAt t"
proof -
  have f: "foldl tf_Increment t (replicate k a) = tf_IncrementBatch t (replicate k a)"
    using tf_IncrementBatch_eq [OF assms(1), of "replicate k a"] assms(2) by simp
  have "0 \<le> tf_incrs t" "tf_resetAt t < 2 ^ 62" using assms(1) by (auto simp: tf_inv_def)
  then have "i64 (tf_incrs t + int k) = tf_incrs t + int k" using assms(2) by (intro i64_id) auto
  then show ?thesis
    unfolding f using assms(2) tf_counts_inv [OF assms(1), of "replicate k a"]
    by (simp add: tf_IncrementBatch_def tf_advance_def Let_def)
qed

theorem repeated_access_admits_witness:
  "\<exists>t. NewTinyLFULockFree (\<lambda>n. 1024) (\<lambda>bits n. 4) 1000 [1, 2, 3, 4] = Some t \<and>
    tf_Admit (foldl tf_Increment t (replicate 300 7)) 7 9"
proof -
  obtain t where t: "NewTinyLFULockFree (\<lambda>n. 1024) (\<lambda>bits n. 4) 1000 [1, 2, 3, 4] = Some t" "tf_inv t"
    using NewTinyLFULockFree_inv [of 1000 "[1, 2, 3, 4]" "\<lambda>n. 1024" "\<lambda>bits n. 4"] by auto
  have z: "tf_incrs t = 0" "tf_resetAt t = 1000" using t(1) by (auto simp: NewTinyLFULockFree_def)
  have "\<not> tf_ages (foldl tf_Increment t (replicate k 7))" if "k < 300" for k
    using tf_incrs_count [OF t(2), of k 7] z that by (simp add: tf_ages_def i64_id)
  then show ?thesis using repeated_access_admits [OF t(2), of 300 7 9] t(1) by auto
qed

text \<open>
  Inside one ageing period \<open>IncrementBatch\<close> is the sequence of single increments.
\<close>

theorem increment_batch_is_sequence:
  assumes "tf_inv t" "tf_incrs t + int (length hs) < tf_resetAt t"
  shows "tf_IncrementBatch t hs = foldl tf_Increment t hs"
  by (rule tf_IncrementBatch_eq [OF assms])

theorem increment_batch_is_sequence_witness:
  "\<exists>t. NewTinyLFULockFree (\<lambda>n. 1024) (\<lambda>bits n. 4) 1000 [1, 2, 3, 4] = Some t \<and>
    tf_IncrementBatch t [7, 9, 7] = foldl tf_Increment t [7, 9, 7]"
proof -
  obtain t where t: "NewTinyLFULockFree (\<lambda>n. 1024) (\<lambda>bits n. 4) 1000 [1, 2, 3, 4] = Some t" "tf_inv t"
    using NewTinyLFULockFree_inv [of 1000 "[1, 2, 3, 4]" "\<lambda>n. 1024" "\<lambda>bits n. 4"] by auto
  have "tf_incrs t = 0" "tf_resetAt t = 1000" using t(1) by (auto simp: NewTinyLFULockFree_def)
  then show ?thesis using increment_batch_is_sequence [OF t(2), of "[7, 9, 7]"] t(1) by simp
qed

section \<open>Hashing and sizes\<close>

text \<open>
  The three copies of the rounding routine give the least power of two that is not below
  their argument, on the ranges their widths can represent, and the shard count option applies it.
\<close>

theorem rounding_is_least_power:
  assumes "1 \<le> n" "n \<le> 2 ^ 32" "1 \<le> m" "m \<le> 2 ^ 62"
  shows "rounds_up n (nextPowerOf2 n) \<and> rounds_up m (nextPowerOf2Int64 m) \<and>
    rounds_up m (uint (nextPowerOf2Uint64 (word_of_int m))) \<and> rounds_up n (ShardCount (WithShardCount n c))"
proof -
  have u: "uint (word_of_int m :: u64) = m" using assms(3,4) by (intro uint_u64) auto
  then have "(word_of_int m :: u64) \<noteq> 0" using assms(3) by fastforce
  then show ?thesis
    using nextPowerOf2_rounds_up [OF assms(1,2)] nextPowerOf2Int64_rounds_up [OF assms(3,4)]
      nextPowerOf2Uint64_rounds_up [of "word_of_int m"] WithShardCount_pow2(2) [OF assms(2), of c] u assms
    by (simp add: word_gt_0)
qed

theorem rounding_is_least_power_witness: "rounds_up 5 (nextPowerOf2 5) \<and> nextPowerOf2 5 = 8"
proof
  show "rounds_up 5 (nextPowerOf2 5)" by (rule rounding_is_least_power [of 5 9 defaultConfig, THEN conjunct1]) simp_all
qed (simp add: nextPowerOf2_def Let_def i64_simps)

section \<open>The store\<close>

text \<open>
  C24: The sharded store is a map. After any sequence of sets on a new store a lookup finds the last
  entry set for the key, whatever the shard count, and deleting keys removes exactly those.
\<close>

theorem store_is_map:
  fixes any :: "'k \<Rightarrow> go_any" and kvs :: "('k \<times> ('k, 'v) Entry) list"
  assumes "n \<le> 2 ^ 32" "\<forall>(k, e) \<in> set kvs. st_fits (NewShardedStore any n hasher) k e"
  shows "st_map (foldl (\<lambda>s k. fst (st_DeleteByHash s k (getKeyHash s k)))
      (foldl (\<lambda>s (k, e). fst (st_Set s e)) (NewShardedStore any n hasher) kvs) ks) =
    map_of (rev kvs) |` (- set ks)"
proof -
  let ?s = "NewShardedStore any n hasher :: ('k, 'v) ShardedStore"
  have new: "st_inv ?s" "st_map ?s = Map.empty" using NewShardedStore_inv [OF assms(1)] by auto
  note p = ss.put_all [OF new(1) assms(2)]
  have "ss.put_all ?s kvs = foldl (\<lambda>s (k, e). fst (st_Set s e)) ?s kvs" by (simp add: ss.put_all_def)
  then show ?thesis using ss.remove_all [OF conjunct1 [OF p], of ks] p new(2) by simp
qed

definition demo_entry :: "int \<Rightarrow> int \<Rightarrow> (int, int) Entry" where
  "demo_entry k v = \<lparr>eKey = k, eValue = v, eKeyHash = hash_Int k, eExpireAt = 0, eCost = 1\<rparr>"

theorem store_is_map_witness:
  "st_map (foldl (\<lambda>s k. fst (st_DeleteByHash s k (getKeyHash s k)))
      (foldl (\<lambda>s (k, e). fst (st_Set s e)) (NewShardedStore GoInt 4 None) [(1, demo_entry 1 5), (2, demo_entry 2 6)]) [1]) 2 =
    Some (demo_entry 2 6)"
proof -
  have "\<forall>(k, e) \<in> set [(1, demo_entry 1 5), (2, demo_entry 2 6)]. st_fits (NewShardedStore GoInt 4 None) k e"
    by (simp add: st_fits_def demo_entry_def getKeyHash_def NewShardedStore_def Let_def defaultHash_def)
  from store_is_map [OF _ this, of "[1]"] show ?thesis by simp
qed

text \<open>
  A stale timer is harmless. \<open>DeleteIfExpired\<close> removes an entry exactly when its stored
  expiration is still the scheduled one and has passed; an entry that was set again since stays.
\<close>

theorem stale_timer_harmless:
  assumes "st_inv s" "st_map s k = Some e"
  shows "(st_map (fst (st_DeleteIfExpired s k (getKeyHash s k) x now)) k = None \<longleftrightarrow> eExpireAt e = x \<and> IsExpired e now) \<and>
    (snd (st_DeleteIfExpired s k (getKeyHash s k) x now) = None \<longleftrightarrow> \<not> (eExpireAt e = x \<and> IsExpired e now)) \<and>
    (j \<noteq> k \<longrightarrow> st_map (fst (st_DeleteIfExpired s k (getKeyHash s k) x now)) j = st_map s j)"
  using st_DeleteIfExpired_map(2,3) [OF assms(1), of k x now] assms(2) by auto

theorem stale_timer_harmless_witness:
  "st_map (fst (st_DeleteIfExpired (fst (st_Set (NewShardedStore GoInt 4 None) (demo_entry 1 5))) 1 (hash_Int 1) 7 100)) 1 \<noteq> None"
proof -
  let ?s = "NewShardedStore GoInt 4 None :: (int, int) ShardedStore"
  have h: "getKeyHash ?s 1 = hash_Int 1" by (simp add: getKeyHash_def NewShardedStore_def Let_def defaultHash_def)
  have i: "st_inv ?s" by (rule NewShardedStore_inv) simp
  have f: "st_fits ?s 1 (demo_entry 1 5)" by (simp add: st_fits_def demo_entry_def h)
  note set = st_Set_map [OF i f]
  from stale_timer_harmless [OF set(1), of 1 "demo_entry 1 5" 7 100] show ?thesis
    using set(2) by (simp add: h) (simp add: demo_entry_def IsExpired_def)
qed

section \<open>The timing wheel\<close>

text \<open>
  C25: The wheel loses nothing and is late by less than a tick. \<open>Advance\<close> returns only items that
  are due, returns every item that has been due for a whole tick, and keeps the others, even when
  the clock jumped over many turns of the wheel; it may be advanced again at once.
\<close>

theorem wheel_conserves_and_completes:
  assumes "w_inv w" "0 \<le> now" "w_Advance w now = (w', ys)"
  shows "w_inv w' \<and> mset ys + w_pending w' = w_pending w \<and> (\<forall>y\<in>set ys. w_ExpireAt y \<le> now) \<and>
    (\<forall>x\<in>#w_pending w'. now - w_resolution w < w_ExpireAt x) \<and>
    w_currentTick w' = max (w_currentTick w) (now div w_resolution w)"
  using w_Advance_spec [OF assms(1,2)] wq.left_not_due [OF assms(1,2)] assms(3) by auto

theorem wheel_conserves_and_completes_witness:
  "\<exists>w' ys. w_Advance (w_push (NewExpiryWheel 0 100000000) \<lparr>w_Key = ''a'', w_KeyHash = 1, w_ExpireAt = 7\<rparr>) 500000000 = (w', ys) \<and>
    w_inv w' \<and> mset ys + w_pending w' = {#\<lparr>w_Key = ''a'', w_KeyHash = 1, w_ExpireAt = 7\<rparr>#}"
proof -
  let ?x = "\<lparr>w_Key = ''a'', w_KeyHash = 1, w_ExpireAt = 7\<rparr>" and ?w = "NewExpiryWheel 0 100000000 :: string ExpiryWheel"
  have i: "w_inv ?w" by (rule NewExpiryWheel_inv) simp_all
  have "w_fits ?w ?x" by (simp add: w_fits_def w_time_def demo_wheel)
  note p = w_push_spec [OF i this]
  obtain w' ys where a: "w_Advance (w_push ?w ?x) 500000000 = (w', ys)" by (cases "w_Advance (w_push ?w ?x) 500000000")
  show ?thesis
    using wheel_conserves_and_completes [OF conjunct1 [OF p] _ a] a p by (auto simp: demo_wheel)
qed

section \<open>The prefix index\<close>

definition all_bytes :: byte_order where
  "all_bytes = (\<lambda>path. Enum.enum)"

lemma all_bytes: "enumerates_bytes all_bytes"
  by (simp add: enumerates_bytes_def all_bytes_def enum_distinct UNIV_enum [symmetric])

text \<open>
  C26: The radix tree is a map from strings to hashes, and stays compressed. After any sequence of
  insertions and then deletions on a new tree the lookup, the size and \<open>Has\<close> are those of the map,
  and every edge is still non-empty, branches on distinct bytes, and is merged when it can be.
\<close>

theorem radix_is_map:
  fixes kvs :: "(string \<times> u64) list" and ks :: "string list" and k :: string
  defines "t \<equiv> foldl (\<lambda>t k. fst (radix_Delete t k)) (foldl (\<lambda>t (k, h). radix_Insert t k h) radix_New kvs) ks"
  shows "radix_map t = map_of (rev kvs) |` (- set ks) \<and> radix_inv t \<and>
    radix_Has t k = (k \<in> fst ` set kvs \<and> k \<notin> set ks) \<and> radix_Size t = i64 (int (card (dom (radix_map t))))"
proof -
  have p: "radix_inv (foldl (\<lambda>t (k, h). radix_Insert t k h) radix_New kvs)"
    "radix_map (foldl (\<lambda>t (k, h). radix_Insert t k h) radix_New kvs) = map_of (rev kvs)"
    using rt.put_all [OF radix_New_inv(1), of kvs] radix_New_inv(2) by (simp_all add: rt.put_all_def)
  have r: "radix_inv t" "radix_map t = map_of (rev kvs) |` (- set ks)"
    using rt.remove_all [OF p(1), of ks] p(2) by (simp_all add: t_def)
  have "map_of (rev kvs) k = None \<longleftrightarrow> k \<notin> fst ` set kvs" by (simp add: map_of_eq_None_iff)
  then have "radix_Has t k = (k \<in> fst ` set kvs \<and> k \<notin> set ks)"
    unfolding radix_Has_map r(2) by (cases "map_of (rev kvs) k") (auto simp: restrict_map_def)
  then show ?thesis using r rt.size_card [OF r(1)] by simp
qed

text \<open>
  C27: \<open>FindByPrefix\<close> returns the hashes of distinct keys that start with the prefix, all of them
  when they fit below the limit, whatever order the maps of children are walked in.
\<close>

theorem find_by_prefix_complete:
  assumes "radix_inv t" "enumerates_bytes ord"
  shows "\<exists>kvs. distinct (map fst kvs) \<and>
    set kvs = {(k, h). radix_map t k = Some h \<and> (\<exists>r. k = pre @ r)} \<and>
    radix_FindByPrefix ord t pre limit = take (nat (if limit \<le> 0 then 100 else limit)) (map snd kvs)"
  by (rule radix_FindByPrefix_spec [OF assms])

theorem find_by_prefix_complete_witness:
  "radix_FindByPrefix all_bytes (radix_Insert (radix_Insert radix_New ''abc'' 1) ''b'' 2) ''ab'' 5 = [1]"
proof -
  let ?t = "radix_Insert (radix_Insert radix_New ''abc'' 1) ''b'' 2"
  have i: "radix_inv ?t" "radix_map ?t = [''abc'' \<mapsto> 1, ''b'' \<mapsto> 2]"
    using radix_Insert_spec [OF radix_New_inv(1), of "''abc''" 1]
      radix_Insert_spec [OF radix_Insert_spec(1) [OF radix_New_inv(1)], of "''abc''" 1 "''b''" 2] radix_New_inv(2) by simp_all
  obtain kvs where k: "distinct (map fst kvs)" "set kvs = {(k, h). radix_map ?t k = Some h \<and> (\<exists>r. k = ''ab'' @ r)}"
    "radix_FindByPrefix all_bytes ?t ''ab'' 5 = take (nat (if (5 :: int) \<le> 0 then 100 else 5)) (map snd kvs)"
    using find_by_prefix_complete [OF i(1) all_bytes, of "''ab''" 5] by blast
  have "set kvs = {(''abc'', 1)}" unfolding k(2) i(2) by (auto split: if_splits)
  moreover have "distinct kvs" using k(1) by (simp add: distinct_map)
  ultimately have "length kvs = 1" using distinct_card [of kvs] by simp
  then obtain x where "kvs = [x]" by (cases kvs) auto
  then have "kvs = [(''abc'', 1)]" using \<open>set kvs = {(''abc'', 1)}\<close> by simp
  then show ?thesis using k(3) by simp
qed

text \<open>
  \<open>WalkPrefix\<close> reports wrong keys. It hands the callback the searched prefix extended by the
  edges below the node it stops at, and drops the rest of that node's own edge: with one key in
  the tree, walking any proper non-empty prefix of it reports the prefix itself, a key that is not
  in the tree.
\<close>

theorem walk_prefix_reports_prefix:
  assumes "pre \<noteq> []" "rest \<noteq> []" "enumerates_bytes ord"
  shows "radix_WalkPrefix ord (radix_Insert radix_New (pre @ rest) h) pre (\<lambda>acc k h. (acc @ [(k, h)], True)) [] = [(pre, h)] \<and>
    \<not> radix_Has (radix_Insert radix_New (pre @ rest) h) pre"
proof -
  let ?n = "Node (pre @ rest) Map.empty True h" and ?t = "radix_Insert radix_New (pre @ rest) h"
  have t: "t_root ?t = Node [] [hd pre \<mapsto> ?n] False 0"
    using assms(1) by (simp add: radix_Insert_def radix_New_def insertNode.simps Let_def)
  have "commonPrefixLen (pre @ rest) pre = length pre" by (simp add: commonPrefixLen_full2)
  then have "descend (t_root ?t) pre [] = Some (?n, pre @ rest)"
    unfolding t using assms(1) by (simp add: descend.simps Let_def)
  moreover have "walkNode ?n ord [] pre (\<lambda>acc k h. (acc @ [(k, h)], True)) [] = ([(pre, h)], True)"
    unfolding walkNode_run by (simp add: child_pairs_def concat_map_Nil)
  moreover have "radix_map ?t pre = None"
    using assms(2) radix_Insert_spec(2) [OF radix_New_inv(1)] radix_New_inv(2) by simp
  ultimately show ?thesis by (simp add: radix_WalkPrefix_def radix_Has_map del: walkNode.simps)
qed

theorem walk_prefix_reports_prefix_witness:
  "radix_WalkPrefix all_bytes (radix_Insert radix_New ''user:1'' 7) ''user:'' (\<lambda>acc k h. (acc @ [(k, h)], True)) [] = [(''user:'', 7)]"
  using walk_prefix_reports_prefix [of "''user:''" "''1''" all_bytes 7, OF _ _ all_bytes] by simp

section \<open>The ring buffer\<close>

text \<open>
  The ring is a bounded FIFO queue. Pushing as many items as fit into a new ring and popping as
  many again returns them in order and leaves it empty, for every capacity but one.
\<close>

theorem ring_is_fifo:
  assumes "cap \<noteq> 1" "cap \<le> 2 ^ 32" "int (length xs) \<le> cap"
  shows "\<exists>rb1 rb2. rq.push_all (NewRingBuffer z cap) xs = Some rb1 \<and> rq.pop_all (length xs) rb1 = Some (rb2, xs) \<and>
    rb_Pop rb2 = Some (rb2, None)"
proof -
  note n = NewRingBuffer_inv [OF assms(1,2), of z]
  have l: "length xs \<le> rb_Cap (NewRingBuffer z cap)" "length xs \<le> rb_room (NewRingBuffer z cap)"
    using assms n(3,4) by simp_all
  obtain rb1 where p: "rq.push_all (NewRingBuffer z cap) xs = Some rb1" "rb_inv rb1" "rb_queue rb1 = xs"
    using rq.push_all [OF n(1), of xs] l n(2) by auto
  obtain rb2 where "rq.pop_all (length xs) rb1 = Some (rb2, xs)" "rb_inv rb2" "rb_queue rb2 = []"
    using rq.pop_all [OF p(2), of xs "[]"] p(3) by auto
  then show ?thesis using p(1) rb_pop_none by blast
qed

theorem ring_is_fifo_witness:
  "\<exists>rb1 rb2. rq.push_all (NewRingBuffer (0 :: int) 3) [5, 6, 7] = Some rb1 \<and> rq.pop_all 3 rb1 = Some (rb2, [5, 6, 7])"
proof -
  have "\<exists>rb1 rb2. rq.push_all (NewRingBuffer (0 :: int) 3) [5, 6, 7] = Some rb1 \<and>
      rq.pop_all (length [5, 6, 7 :: int]) rb1 = Some (rb2, [5, 6, 7]) \<and> rb_Pop rb2 = Some (rb2, None)"
    by (rule ring_is_fifo) simp_all
  moreover have "length [5, 6, 7 :: int] = 3" by simp
  ultimately show ?thesis by metis
qed

text \<open>
  C30: A ring of capacity one is broken. Whatever sequence of at least two items is pushed, every \<open>Push\<close>
  reports success and only the last item is left; and from then on no goroutine's \<open>Pop\<close> ever returns, in
  no schedule of further pushes and pops, step by step of their atomic accesses, as long as the
  counters do not wrap.
\<close>

theorem ring_of_one_loses_and_hangs:
  assumes "2 \<le> length xs" "length xs + length es < 2 ^ 64"
  shows "\<exists>rb w. push_all (NewRingBuffer z 1) xs = Some rb \<and> rb_data rb = [(last xs, w)] \<and>
    sys_popped (sys_schedule es (sys_on rb)) = [] \<and> (\<forall>p r. sys_pcs (sys_schedule es (sys_on rb)) p \<noteq> Popped r)"
  by (rule one_slot_hangs [OF assms])

theorem ring_of_one_loses_and_hangs_witness:
  "\<exists>rb w. push_all (NewRingBuffer (0 :: int) 1) [5, 6] = Some rb \<and> rb_data rb = [(6, w)] \<and>
    sys_pcs (sys_schedule [CallPop 0, Run 0, Run 0, Run 0, CallPush 1 7, Run 1, Run 0] (sys_on rb)) 0 \<noteq> Popped (Some 5)"
  using ring_of_one_loses_and_hangs [of "[5, 6]" "[CallPop 0, Run 0, Run 0, Run 0, CallPush 1 7, Run 1, Run 0]" 0] by auto

section \<open>Glob patterns and iterators\<close>

text \<open>
  C31: A pattern matches what its elements say. Take any sequence of texts, stars, double stars,
  single-character wildcards and character sets with ranges, each character of a text or a set written
  plainly where it has no special meaning and after a backslash otherwise. Left out are only sequences
  that spell something else, such as a star before a star or, in a set, a plain character before a
  dash, and ranges with byte 255 (C32) or a special character as a bound. Compiling what they spell
  returns, and a key matches iff it splits into parts that match the elements in turn, where a star
  matches any text at all, the separator included, as a double star does: the comments of the code that
  exclude the separator do not describe it.
\<close>

theorem glob_matches_its_elements:
  assumes "items_ok its" "its \<noteq> []"
  shows "glob_Match (concat (map item_syntax its)) key =
    Some (Inr (\<exists>ws. list_all2 (\<lambda>it w. w \<in> item_lang it) its ws \<and> key = concat ws))"
  by (rule glob_Match_items [OF assms])

theorem glob_matches_its_elements_witness:
  "glob_Match ''u:*[xa-c]'' ''u:/xb'' = Some (Inr True)"
proof -
  let ?its = "[Text [Plain CHR ''u'', Plain CHR '':''], Star, Chars False [One (Plain CHR ''x''), Range CHR ''a'' CHR ''c'']]"
  have "list_all2 (\<lambda>it w. w \<in> item_lang it) ?its [''u:'', ''/x'', ''b''] \<and> ''u:/xb'' = concat [''u:'', ''/x'', ''b'']" by simp
  then have "\<exists>ws. list_all2 (\<lambda>it w. w \<in> item_lang it) ?its ws \<and> ''u:/xb'' = concat ws" by blast
  moreover have "items_ok ?its" by (simp add: wildcard_def)
  ultimately show ?thesis using glob_matches_its_elements [of ?its "''u:/xb''"] by simp
qed

text \<open>
  C32: Compiling a pattern returns if the pattern has no byte 255. A range in brackets that ends at
  byte 255 makes it loop for ever, since the loop over the range increments a byte past its end.
\<close>

theorem glob_compile_returns:
  assumes "CHR 0xFF \<notin> set pattern" "a \<notin> {backslash, CHR '']'', CHR ''^'', CHR ''!''}"
  shows "glob_Compile pattern \<noteq> None \<and> glob_Compile (CHR ''['' # a # CHR ''-'' # CHR 0xFF # rest) = None"
  using glob_Compile_returns [OF assms(1)] glob_Compile_diverges [OF assms(2)] by blast

theorem glob_compile_returns_witness:
  "glob_Compile ''[a-z]*'' \<noteq> None \<and> glob_Compile [CHR ''['', CHR ''a'', CHR ''-'', CHR 0xFF, CHR '']''] = None"
  using glob_compile_returns [of "''[a-z]*''" "CHR ''a''" "[CHR '']'']"] by simp

text \<open>
  C33: A scan loses entries at its end. Over a cache that does not change, \<open>Scan\<close> followed by \<open>All\<close> fetches
  the store in chunks of twice the page size, the \<open>i\<close>-th one in whatever order the Go maps have in the \<open>i\<close>-th
  fetch. It reports the live entries of every full chunk, but of the last fetch, which covers the rest,
  only the first page: what is left stays in the buffer of an iterator that is already done. If nothing
  has expired, the number of reported entries does not depend on the orders: of the \<open>n mod 2k\<close> entries of the
  last fetch at most \<open>k\<close> are reported. That no entry is reported twice needs the orders of all fetches to be
  the same, which Go does not promise.
\<close>

theorem scan_drops_its_tail:
  assumes "scannable ords (c_store c)" "cnt < 2 ^ 62"
  shows "let k = (if cnt \<le> 0 then 10 else nat cnt); n = card (dom (c_map c)); live = filter (\<lambda>e. \<not> IsExpired e now);
      fetched = (\<lambda>i. take (2 * k) (drop (2 * k * i) (st_all (ords i) (c_store c))));
      es = concat (map (\<lambda>i. live (fetched i)) [0..<n div (2 * k)]) @ take k (live (fetched (n div (2 * k))))
    in (\<exists>it. it_All ords bytes c now zk zv (c_Scan 0 cnt) = Some (Inr (map (\<lambda>e. (eKey e, eValue e)) es, it))) \<and>
       (\<forall>i. distinct (map eKey (st_all (ords i) (c_store c))) \<and> set (st_all (ords i) (c_store c)) = ran (c_map c)) \<and>
       ((\<forall>e \<in> ran (c_map c). \<not> IsExpired e now) \<longrightarrow> length es = n - n mod (2 * k) + min k (n mod (2 * k))) \<and>
       ((\<forall>i. ords i = ords 0) \<longrightarrow> distinct (map eKey es))"
proof -
  let ?k = "if cnt \<le> 0 then 10 else nat cnt" and ?m = "\<lambda>e. \<not> IsExpired e now" and ?s = "c_store c"
  have st: "st_inv ?s" "enumerates (ords i)" for i using assms(1) by (simp_all add: scannable_def)
  have k: "nat (if cnt \<le> 0 then 10 else cnt) = ?k" "0 < ?k" by simp_all
  have es: "served ords ?s ?k ?m 0 = concat (map (\<lambda>i. filter ?m (take (2 * ?k) (drop (2 * ?k * i) (st_all (ords i) ?s))))
        [0..<card (dom (c_map c)) div (2 * ?k)]) @
      take ?k (filter ?m (take (2 * ?k) (drop (2 * ?k * (card (dom (c_map c)) div (2 * ?k)))
        (st_all (ords (card (dom (c_map c)) div (2 * ?k))) ?s))))"
    unfolding served_def chunk_def [abs_def] full_chunks_def c_map_def ..
  have all: "\<exists>it. it_All ords bytes c now zk zv (c_Scan 0 cnt) = Some (Inr (map (\<lambda>e. (eKey e, eValue e)) (served ords ?s ?k ?m 0), it))"
    using scan.All_reports [OF c_Scan_reports [OF assms, of now], of bytes zk zv] unfolding k .
  have len: "(\<forall>e \<in> ran (c_map c). \<not> IsExpired e now) \<longrightarrow> length (served ords ?s ?k ?m 0) =
      card (dom (c_map c)) - card (dom (c_map c)) mod (2 * ?k) + min ?k (card (dom (c_map c)) mod (2 * ?k))"
    using served_length [OF assms(1) k(2), of ?m] unfolding c_map_def by blast
  have once: "(\<forall>i. ords i = ords 0) \<longrightarrow> distinct (map eKey (served ords ?s ?k ?m 0))"
    using served_distinct [OF assms(1) k(2)] by blast
  show ?thesis
    unfolding Let_def es [symmetric] using all len once distinct_st_all [OF st] set_st_all [OF st] by (simp add: c_map_def)
qed

definition demo_kv :: "nat \<Rightarrow> int \<Rightarrow> (string, int) Entry" where
  "demo_kv n expireAt =
     \<lparr>eKey = CHR ''k'' # replicate n (CHR ''a''), eValue = int n, eKeyHash = of_nat (Suc n), eExpireAt = expireAt, eCost = 1\<rparr>"

text \<open>A store of one shard with the keys \<open>k\<close>, \<open>ka\<close> and \<open>kaa\<close>, hashed by their length.\<close>

definition demo_store :: "(string, int) ShardedStore" where
  "demo_store = foldl (\<lambda>s e. fst (st_Set s e)) (NewShardedStore GoString 1 (Some (of_nat \<circ> length)))
     [demo_kv 0 5, demo_kv 1 0, demo_kv 2 0]"

text \<open>An order for every fetch: the first one lists the three keys as they are, the others backwards.\<close>

definition demo_orders :: "string order \<Rightarrow> nat \<Rightarrow> string order" where
  "demo_orders ord n = (\<lambda>i D. if D = {''k'', ''ka'', ''kaa''}
     then (if n = 0 then [''k'', ''ka'', ''kaa''] else [''kaa'', ''ka'', ''k'']) else ord i D)"

definition demo_order :: "string order" where
  "demo_order = demo_orders (\<lambda>i D. []) 0"

lemma demo_orders_enumerate: "enumerates ord \<Longrightarrow> enumerates (demo_orders ord n)"
  by (auto simp: enumerates_def demo_orders_def)

lemma demo_store: "st_inv demo_store"
  "st_map demo_store = [''k'' \<mapsto> demo_kv 0 5, ''ka'' \<mapsto> demo_kv 1 0, ''kaa'' \<mapsto> demo_kv 2 0]"
proof -
  let ?s0 = "NewShardedStore GoString 1 (Some (of_nat \<circ> length)) :: (string, int) ShardedStore"
  have fits: "\<forall>(k, e) \<in> set [(''k'', demo_kv 0 5), (''ka'', demo_kv 1 0), (''kaa'', demo_kv 2 0)]. st_fits ?s0 k e"
    by (simp add: st_fits_def demo_kv_def getKeyHash_def NewShardedStore_def Let_def numeral_2_eq_2 numeral_3_eq_3)
  have new: "st_inv ?s0" "st_map ?s0 = Map.empty" using NewShardedStore_inv [of 1] by auto
  have "ss.put_all ?s0 [(''k'', demo_kv 0 5), (''ka'', demo_kv 1 0), (''kaa'', demo_kv 2 0)] = demo_store"
    by (simp add: ss.put_all_def demo_store_def)
  with ss.put_all [OF new(1) fits] new(2) show "st_inv demo_store"
    "st_map demo_store = [''k'' \<mapsto> demo_kv 0 5, ''ka'' \<mapsto> demo_kv 1 0, ''kaa'' \<mapsto> demo_kv 2 0]"
    by (auto simp: fun_eq_iff)
qed

lemma st_Set_shape: "length (st_shards (fst (st_Set s e))) = length (st_shards s)"
  "st_shardMask (fst (st_Set s e)) = st_shardMask s"
  by (simp_all add: st_Set_def putShard_def Let_def)

lemma demo_shards: "st_shards demo_store = [st_map demo_store]"
proof -
  have len: "length (st_shards demo_store) = 1" and mask: "st_shardMask demo_store = 0"
    by (simp_all add: demo_store_def st_Set_shape NewShardedStore_def nextPowerOf2_def Let_def i64_simps)
  have "getShard demo_store h = st_shards demo_store ! 0" for h
    by (simp add: getShard_def shard_index_def mask)
  then have "st_map demo_store = st_shards demo_store ! 0" by (simp add: st_map_def)
  with len show ?thesis by (cases "st_shards demo_store") auto
qed

lemma demo_dom: "dom (st_map demo_store) = {''k'', ''ka'', ''kaa''}"
  by (auto simp: demo_store(2))

lemma demo_all: "st_all (demo_orders ord n) demo_store =
    (if n = 0 then [demo_kv 0 5, demo_kv 1 0, demo_kv 2 0] else [demo_kv 2 0, demo_kv 1 0, demo_kv 0 5])"
  by (simp add: st_all_def shard_lists_def demo_shards range_map_def demo_dom demo_orders_def) (simp add: demo_store(2))

lemma demo_card: "card (dom (st_map demo_store)) = 3"
  by (simp add: demo_dom)

lemma demo_scannable: "enumerates ord \<Longrightarrow> scannable (demo_orders ord) demo_store"
  by (simp add: scannable_def demo_store(1) demo_orders_enumerate demo_shards demo_card)

lemma some_order: obtains ord :: "'k order" where "enumerates ord"
proof -
  have "\<forall>D. \<exists>ks :: 'k list. finite D \<longrightarrow> set ks = D \<and> distinct ks" using finite_distinct_list by blast
  from choice [OF this] obtain f :: "'k set \<Rightarrow> 'k list" where "\<forall>D. finite D \<longrightarrow> set (f D) = D \<and> distinct (f D)" ..
  then show thesis by (intro that [of "\<lambda>i. f"]) (simp add: enumerates_def)
qed

text \<open>A page of two loses the third entry; with pages of one the second fetch reports the first entry again.\<close>

theorem scan_drops_its_tail_witness:
  "\<exists>c ords it it'. NewCache demo_env 0 demo_opts = Some c \<and> scannable ords demo_store \<and>
     it_All ords all_bytes (c\<lparr>c_store := demo_store\<rparr>) 3 [] 0 (c_Scan 0 2) = Some (Inr ([(''k'', 0), (''ka'', 1)], it)) \<and>
     it_All ords all_bytes (c\<lparr>c_store := demo_store\<rparr>) 3 [] 0 (c_Scan 0 1) = Some (Inr ([(''k'', 0), (''ka'', 1), (''k'', 0)], it'))"
proof -
  obtain c where c: "NewCache demo_env 0 demo_opts = Some c" using demo_cache by blast
  obtain ord :: "string order" where ord: "enumerates ord" by (rule some_order)
  let ?c = "c\<lparr>c_store := demo_store\<rparr>"
  have ok: "scannable (demo_orders ord) (c_store ?c)" using demo_scannable [OF ord] by simp
  have card: "card (dom (c_map ?c)) = 3" by (simp add: c_map_def demo_card)
  have two: "\<exists>it. it_All (demo_orders ord) all_bytes ?c 3 [] 0 (c_Scan 0 2) = Some (Inr ([(''k'', 0), (''ka'', 1)], it))"
    using scan_drops_its_tail [OF ok, of 2 3 all_bytes "[]" 0, unfolded Let_def card]
    by (simp add: demo_all IsExpired_def demo_kv_def)
  have one: "\<exists>it. it_All (demo_orders ord) all_bytes ?c 3 [] 0 (c_Scan 0 1) = Some (Inr ([(''k'', 0), (''ka'', 1), (''k'', 0)], it))"
    using scan_drops_its_tail [OF ok, of 1 3 all_bytes "[]" 0, unfolded Let_def card]
    by (simp add: demo_all IsExpired_def demo_kv_def)
  show ?thesis using c ok one two by auto
qed

text \<open>The demo cache over the three entries, with or without the index of their keys.\<close>

definition demo_tree :: radixTree where
  "demo_tree = radix_Insert (radix_Insert (radix_Insert radix_New ''k'' 1) ''ka'' 2) ''kaa'' 3"

lemma demo_tree: "radix_inv demo_tree" "radix_map demo_tree = [''k'' \<mapsto> 1, ''ka'' \<mapsto> 2, ''kaa'' \<mapsto> 3]"
  by (simp_all add: demo_tree_def radix_Insert_spec radix_New_inv)

lemma demo_string: "NewCache demo_env 0 demo_opts = Some c \<Longrightarrow> c_isStringKey c"
proof -
  assume "NewCache demo_env 0 demo_opts = Some c"
  then have "c_isStringKey c = (as_string (env_any demo_env (env_zeroK demo_env)) \<noteq> None)"
    by (auto simp: NewCache_def Let_def bind_eq_Some_conv)
  then show "c_isStringKey c" by (simp add: demo_env_def as_string_def)
qed

definition with_demo :: "radixTree option \<Rightarrow> (string, int) Cache \<Rightarrow> (string, int) Cache" where
  "with_demo r c = c\<lparr>c_store := demo_store, c_radix := r, c_liveCost := 3\<rparr>"

lemma with_demo_sel [simp]: "c_store (with_demo r c) = demo_store" "c_radix (with_demo r c) = r"
  "c_isStringKey (with_demo r c) = c_isStringKey c"
  by (simp_all add: with_demo_def)

lemma demo_any: "st_any demo_store = GoString"
proof -
  have "st_any (fst (st_Set s e)) = st_any s" for s :: "(string, int) ShardedStore" and e
    by (simp add: st_Set_def putShard_def Let_def)
  then show ?thesis by (simp add: demo_store_def NewShardedStore_def Let_def)
qed

lemma demo_hash: "getKeyHash demo_store k = of_nat (length k)"
proof -
  have "st_hasher (fst (st_Set s e)) = st_hasher s" for s :: "(string, int) ShardedStore" and e
    by (simp add: st_Set_def putShard_def Let_def)
  then show ?thesis by (simp add: getKeyHash_def demo_store_def NewShardedStore_def Let_def)
qed

lemma demo_data:
  assumes "c_isStringKey c"
  shows "data_inv (with_demo (Some demo_tree) c)"
proof -
  let ?m = "[''k'' \<mapsto> demo_kv 0 5, ''ka'' \<mapsto> demo_kv 1 0, ''kaa'' \<mapsto> demo_kv 2 0]"
  have "map_sum eCost ?m = 3" by (simp add: map_sum_insert demo_kv_def)
  moreover have "\<forall>k e. ?m k = Some e \<longrightarrow> i64 (eCost e) = eCost e" by (simp add: demo_kv_def i64_simps)
  moreover have "radix_map demo_tree k = map_option eKeyHash (?m k)" for k by (simp add: demo_tree(2) demo_kv_def)
  then have "radix_ok True GoString ?m (Some demo_tree)" by (simp add: radix_ok_def as_string_def demo_tree(1))
  moreover have "c_liveCost (with_demo (Some demo_tree) c) = 3" by (simp add: with_demo_def)
  ultimately show ?thesis using assms by (simp only: data_inv_def c_map_def with_demo_sel demo_store demo_any) (simp add: i64_simps)
qed

text \<open>
  \<open>ScanMatch\<close> filters by the pattern. On a cache of string keys without a prefix index, the
  entries it visits, in the pages of a scan, are the live ones whose key the pattern matches; the literal
  prefix of the pattern, by which it filters as well, excludes none of them.
\<close>

theorem scan_match_filters:
  assumes "scannable ords (c_store c)" "cnt < 2 ^ 62" "c_isStringKey c" "c_radix c = None"
    and "items_ok its" "its \<noteq> []"
  shows "\<exists>it it'. c_ScanMatch c (concat (map item_syntax its)) 0 cnt = Some it \<and>
    it_Keys ords bytes c now zk zv it =
      Some (Inr (map eKey (served ords (c_store c) (if cnt \<le> 0 then 10 else nat cnt)
        (\<lambda>e. \<not> IsExpired e now \<and> (\<forall>key. as_string (st_any (c_store c) (eKey e)) = Some key \<longrightarrow>
          (\<exists>ws. list_all2 (\<lambda>it w. w \<in> item_lang it) its ws \<and> key = concat ws))) 0), it'))"
proof -
  obtain p where p: "glob_Compile (concat (map item_syntax its)) = Some (Inr p)" "p_segments p = map item_segment its"
    using glob_Compile_items [OF assms(5,6)] .
  have m: "matches_pattern c now p = (\<lambda>e. \<not> IsExpired e now \<and> (\<forall>key. as_string (st_any (c_store c) (eKey e)) = Some key \<longrightarrow>
      (\<exists>ws. list_all2 (\<lambda>it w. w \<in> item_lang it) its ws \<and> key = concat ws)))"
    by (intro ext) (simp add: matches_pattern_def p_Match_lang p(2) list_all2_map1 seg_lang_item)
  have k: "nat (if cnt \<le> 0 then 10 else cnt) = (if cnt \<le> 0 then 10 else nat cnt)" by simp
  obtain it where it: "c_ScanMatch c (concat (map item_syntax its)) 0 cnt = Some it"
    "scan_reports ords c now it (served ords (c_store c) (if cnt \<le> 0 then 10 else nat cnt) (matches_pattern c now p) 0)"
    using c_ScanMatch_reports [OF assms(1-4) p(1), of now] unfolding k by blast
  from scan.Keys_reports [OF it(2), of bytes zk zv] it(1) show ?thesis unfolding m by blast
qed

theorem scan_match_filters_witness:
  "\<exists>c ords it it'. NewCache demo_env 0 demo_opts = Some c \<and>
     c_ScanMatch (with_demo None c) ''k?'' 0 2 = Some it \<and>
     it_Keys ords all_bytes (with_demo None c) 3 [] 0 it = Some (Inr ([''ka''], it'))"
proof -
  obtain c where c: "NewCache demo_env 0 demo_opts = Some c" "c_isStringKey c" using demo_cache demo_string by blast
  obtain ord :: "string order" where ord: "enumerates ord" by (rule some_order)
  let ?its = "[Text [Plain CHR ''k''], AnyChar]"
  have parts: "(\<exists>ws. list_all2 (\<lambda>it w. w \<in> item_lang it) ?its ws \<and> key = concat ws) \<longleftrightarrow> (\<exists>x. key = [CHR ''k'', x])" for key
  proof
    assume "\<exists>x. key = [CHR ''k'', x]"
    then obtain x where "key = [CHR ''k'', x]" ..
    then show "\<exists>ws. list_all2 (\<lambda>it w. w \<in> item_lang it) ?its ws \<and> key = concat ws"
      by (intro exI [of _ "[''k'', [x]]"]) simp
  qed (auto simp: list_all2_Cons1)
  have syn: "concat (map item_syntax ?its) = ''k?''" "items_ok ?its" by (simp_all add: wildcard_def)
  have ok: "scannable (demo_orders ord) (c_store (with_demo None c))" using demo_scannable [OF ord] by simp
  from scan_match_filters [OF ok, of 2 ?its all_bytes 3 "[]" 0, unfolded parts syn(1)] c syn(2)
  show ?thesis
    by (auto simp: demo_all demo_any demo_card served_def chunk_def full_chunks_def IsExpired_def demo_kv_def as_string_def numeral_2_eq_2)
qed

text \<open>
  A search by prefix is complete up to twice the page size. On a cache whose keys have different
  hashes and whose entries below the prefix are live, \<open>ScanPrefix\<close> reports keys with the prefix, each
  once, and as many as there are, except that after \<open>2 * count\<close> of them it stops without an error.
\<close>

theorem prefix_scan_is_capped:
  assumes "data_inv c" "c_isStringKey c" "c_radix c \<noteq> None" "enumerates ord" "enumerates_bytes bytes"
    and "inj_on (getKeyHash (c_store c)) (dom (c_map c))"
    and "\<forall>k e. k \<in> prefix_keys c pre \<longrightarrow> c_map c k = Some e \<longrightarrow> \<not> IsExpired e now"
    and "pre \<noteq> []" "0 < cnt" "cnt < 2 ^ 62"
  shows "\<exists>ks it. it_Keys (\<lambda>_. ord) bytes c now zk zv (c_ScanPrefix c pre 0 cnt) = Some (Inr (ks, it)) \<and>
    distinct ks \<and> set ks \<subseteq> prefix_keys c pre \<and> length ks = min (nat (2 * cnt)) (card (prefix_keys c pre))"
  using assms(3) c_ScanPrefix_keys [OF assms(1,4,5,2) _ assms(6-10)] by blast

theorem prefix_scan_is_capped_witness:
  "\<exists>c ord ks it. NewCache demo_env 0 demo_opts = Some c \<and> dom (c_map (with_demo (Some demo_tree) c)) = {''k'', ''ka'', ''kaa''} \<and>
     it_Keys (\<lambda>_. ord) all_bytes (with_demo (Some demo_tree) c) 3 [] 0
       (c_ScanPrefix (with_demo (Some demo_tree) c) ''k'' 0 1) = Some (Inr (ks, it)) \<and> length ks = 2"
proof -
  obtain c where c: "NewCache demo_env 0 demo_opts = Some c" "c_isStringKey c" using demo_cache demo_string by blast
  obtain ord :: "string order" where ord: "enumerates ord" using some_order by blast
  let ?c = "with_demo (Some demo_tree) c"
  have map: "c_map ?c = [''k'' \<mapsto> demo_kv 0 5, ''ka'' \<mapsto> demo_kv 1 0, ''kaa'' \<mapsto> demo_kv 2 0]"
    by (simp add: c_map_def demo_store(2))
  then have dom: "dom (c_map ?c) = {''k'', ''ka'', ''kaa''}" by auto
  have keys: "prefix_keys ?c ''k'' = {''k'', ''ka'', ''kaa''}"
    unfolding prefix_keys_def dom by (auto simp: demo_any as_string_def)
  have inj: "inj_on (getKeyHash (c_store ?c)) (dom (c_map ?c))" unfolding dom by (simp add: demo_hash)
  have "\<forall>k e. k \<in> prefix_keys ?c ''k'' \<longrightarrow> c_map ?c k = Some e \<longrightarrow> \<not> IsExpired e 3"
    unfolding keys map by (auto simp: IsExpired_def demo_kv_def)
  from prefix_scan_is_capped [OF demo_data [OF c(2)] _ _ ord all_bytes inj this, of 1 "[]" 0] c(2)
  obtain ks it where "it_Keys (\<lambda>_. ord) all_bytes ?c 3 [] 0 (c_ScanPrefix ?c ''k'' 0 1) = Some (Inr (ks, it))"
    "length ks = min (nat (2 * 1)) (card (prefix_keys ?c ''k''))" by auto
  moreover have "min (nat (2 * 1)) (card (prefix_keys ?c ''k'')) = 2" by (simp add: keys)
  ultimately show ?thesis using c(1) dom by metis
qed

text \<open>
  A search by prefix repeats entries. The cursor counts the entries reported but is used as an
  index into the hashes found: when a page of \<open>count\<close> entries is filled only by a hash at an index of
  at least \<open>count\<close>, because some hash before it had expired or did not match, the entry that filled the
  page is reported again by the next one.
\<close>

theorem prefix_scan_repeats:
  assumes "radix_inv t" "enumerates_bytes bytes" "c_radix c = Some t" "c_isStringKey c" "pre \<noteq> []" "0 < cnt" "cnt < 2 ^ 62"
    and "radix_FindByPrefix bytes t pre (cnt * 2) = before @ h # after"
    and "entry_of ord c (matchEntry c now (c_ScanPrefix c pre 0 cnt)) h = Some e"
    and "int (length (List.map_filter (entry_of ord c (matchEntry c now (c_ScanPrefix c pre 0 cnt))) before)) + 1 = cnt"
    and "cnt \<le> int (length before)"
  shows "\<exists>xs ys zs it. it_Keys (\<lambda>_. ord) bytes c now zk zv (c_ScanPrefix c pre 0 cnt) =
    Some (Inr (xs @ eKey e # ys @ eKey e # zs, it))"
proof -
  let ?it = "c_ScanPrefix c pre 0 cnt"
  let ?f = "entry_of ord c (matchEntry c now ?it)"
  have "prefix_reports bytes ord t c now ?it (prefix_pages (nat cnt) ?f (before @ h # after) 0)"
    using newIterator_prefix [of ?it cnt pre None c t bytes ord now] assms(3-8) by (simp add: c_ScanPrefix_def newIterator_def)
  moreover have "length (List.map_filter ?f before) + 1 = nat cnt" "nat cnt \<le> length before" using assms(6,10,11) by linarith+
  then obtain xs ys zs where "prefix_pages (nat cnt) ?f (before @ h # after) 0 = xs @ e # ys @ e # zs"
    using prefix_pages_repeat [of ?f h e before "nat cnt" after] assms(9) by blast
  ultimately have "prefix_reports bytes ord t c now ?it (xs @ e # ys @ e # zs)" by simp
  with prefix.Keys_reports [of t bytes ord c now ?it "xs @ e # ys @ e # zs" zk zv] assms(1,2) show ?thesis by fastforce
qed

theorem prefix_scan_repeats_witness:
  "\<exists>c xs ys zs it. NewCache demo_env 0 demo_opts = Some c \<and>
     it_Keys (\<lambda>_. demo_order) all_bytes (with_demo (Some demo_tree) c) 10 [] 0
       (c_ScanPrefix (with_demo (Some demo_tree) c) ''k'' 0 1) = Some (Inr (xs @ ''ka'' # ys @ ''ka'' # zs, it))"
proof -
  obtain c where c: "NewCache demo_env 0 demo_opts = Some c" "c_isStringKey c" using demo_cache demo_string by blast
  let ?c = "with_demo (Some demo_tree) c"
  let ?f = "entry_of demo_order ?c (matchEntry ?c 10 (c_ScanPrefix ?c ''k'' 0 1))"
  have find: "radix_FindByPrefix all_bytes demo_tree ''k'' (1 * 2) = [1] @ 2 # []" by code_simp
  have f: "?f 1 = None" "?f 2 = Some (demo_kv 1 0)"
    using c(2) by (simp_all add: entry_of_def demo_order_def demo_all demo_any demo_kv_def matchEntry_def IsExpired_def as_string_def
        c_ScanPrefix_def newIterator_def)
  from prefix_scan_repeats [OF demo_tree(1) all_bytes _ _ _ _ _ find f(2), of "[]" 0] f(1) c
  show ?thesis by (auto simp: demo_kv_def map_filter_simps)
qed

end
